(* ===== verification/Prelude.thy ===== *)
theory Prelude
  imports Main "HOL-Library.Word"
begin

section \<open>Shared vocabulary of the model\<close>

text \<open>
  The types, program combinators and generic lemmas that every other theory uses.

  \<^item> Bytes are \<open>8 word\<close>; a \<open>std::vector<std::uint8_t>\<close> is a \<open>bytes\<close>, a \<open>std::string\<close> is
    HOL's \<open>string\<close>, whose characters are the eight bits of a C++ \<open>char\<close>.
  \<^item> A member function that mutates its object and may throw is a \<open>('s, 'a) prog\<close>: from the
    object's state to the result and the new state. The state survives an exception, as it
    does in C++, because the migration loop catches exceptions and carries on with the same
    writer. \<open>None\<close> is a call that does not return.
  \<^item> A loop \<open>for (i = 0; i < n; i += k)\<close> over slices of a sequence is a map over \<open>chunks k\<close>.
\<close>

unbundle bit_operations_syntax

named_theorems prog_simps \<open>execution of the program combinators\<close>
named_theorems hoare_intros \<open>rules of the program logic, one per combinator\<close>

type_synonym byte = "8 word"
type_synonym bytes = "byte list"

subsection \<open>Exceptions\<close>

text \<open>The exception classes the program throws, each with its message; \<open>StdError\<close> stands for what the standard library throws (\<open>std::out_of_range\<close> from \<open>substr\<close>).\<close>

datatype error = PstError string | ImapError string | StdError string

type_synonym ('s, 'a) prog = "'s \<Rightarrow> ((error + 'a) \<times> 's) option"

definition ret :: "'a \<Rightarrow> ('s, 'a) prog" where
  "ret a s = Some (Inr a, s)"

definition throw :: "error \<Rightarrow> ('s, 'a) prog" where
  "throw e s = Some (Inl e, s)"

definition bindM :: "('s, 'a) prog \<Rightarrow> ('a \<Rightarrow> ('s, 'b) prog) \<Rightarrow> ('s, 'b) prog" where
  "bindM m f s = (case m s of
       None \<Rightarrow> None
     | Some (Inl e, s') \<Rightarrow> Some (Inl e, s')
     | Some (Inr a, s') \<Rightarrow> f a s')"

definition getM :: "('s \<Rightarrow> 'a) \<Rightarrow> ('s, 'a) prog" where
  "getM f s = Some (Inr (f s), s)"

definition modM :: "('s \<Rightarrow> 's) \<Rightarrow> ('s, unit) prog" where
  "modM f s = Some (Inr (), f s)"

text \<open>\<open>if (c) throw e;\<close>\<close>

definition throw_if :: "bool \<Rightarrow> error \<Rightarrow> ('s, unit) prog" where
  "throw_if c e = (if c then throw e else ret ())"

primrec mapM :: "('a \<Rightarrow> ('s, 'b) prog) \<Rightarrow> 'a list \<Rightarrow> ('s, 'b list) prog" where
  "mapM f [] = ret []"
| "mapM f (x # xs) = bindM (f x) (\<lambda>y. bindM (mapM f xs) (\<lambda>ys. ret (y # ys)))"

primrec forM :: "('a \<Rightarrow> ('s, unit) prog) \<Rightarrow> 'a list \<Rightarrow> ('s, unit) prog" where
  "forM f [] = ret ()"
| "forM f (x # xs) = bindM (f x) (\<lambda>_. forM f xs)"

text \<open>Running a part of the state: a member object of a larger one.\<close>

definition zoomM :: "('s \<Rightarrow> 't) \<Rightarrow> ('t \<Rightarrow> 's \<Rightarrow> 's) \<Rightarrow> ('t, 'a) prog \<Rightarrow> ('s, 'a) prog" where
  "zoomM get put m s = (case m (get s) of None \<Rightarrow> None | Some (r, t) \<Rightarrow> Some (r, put t s))"

lemma ret_run [prog_simps]: "ret a s = Some (Inr a, s)"
  by (simp add: ret_def)

lemma throw_run [prog_simps]: "throw e s = Some (Inl e, s)"
  by (simp add: throw_def)

lemma getM_run [prog_simps]: "getM f s = Some (Inr (f s), s)"
  by (simp add: getM_def)

lemma modM_run [prog_simps]: "modM f s = Some (Inr (), f s)"
  by (simp add: modM_def)

lemma throw_if_run [prog_simps]:
  "throw_if c e s = (if c then Some (Inl e, s) else Some (Inr (), s))"
  by (simp add: throw_if_def ret_def throw_def)

lemma bindM_run [prog_simps]:
  "m s = None \<Longrightarrow> bindM m f s = None"
  "m s = Some (Inl e, s') \<Longrightarrow> bindM m f s = Some (Inl e, s')"
  "m s = Some (Inr a, s') \<Longrightarrow> bindM m f s = f a s'"
  by (simp_all add: bindM_def)

lemma bindM_Inr_iff:
  "bindM m f s = Some (Inr b, s'') \<longleftrightarrow>
     (\<exists>a s'. m s = Some (Inr a, s') \<and> f a s' = Some (Inr b, s''))"
  by (auto simp: bindM_def split: option.splits prod.splits sum.splits)

lemma bindM_Inl_iff:
  "bindM m f s = Some (Inl e, s'') \<longleftrightarrow>
     m s = Some (Inl e, s'') \<or>
     (\<exists>a s'. m s = Some (Inr a, s') \<and> f a s' = Some (Inl e, s''))"
  by (auto simp: bindM_def split: option.splits prod.splits sum.splits)

lemma bindM_None_iff:
  "bindM m f s = None \<longleftrightarrow>
     m s = None \<or> (\<exists>a s'. m s = Some (Inr a, s') \<and> f a s' = None)"
  by (auto simp: bindM_def split: option.splits prod.splits sum.splits)

lemmas bindM_iffs = bindM_Inr_iff bindM_Inl_iff bindM_None_iff

subsection \<open>A program logic\<close>

text \<open>
  \<open>hoare P m Q E\<close>: from a state with \<open>P\<close>, if \<open>m\<close> returns \<open>a\<close> then \<open>Q a\<close> holds of the new
  state, and if it throws then \<open>E\<close> does. It says nothing of a call that does not return:
  \<open>halts P m\<close> is that half.
\<close>

definition hoare ::
  "('s \<Rightarrow> bool) \<Rightarrow> ('s, 'a) prog \<Rightarrow> ('a \<Rightarrow> 's \<Rightarrow> bool) \<Rightarrow> ('s \<Rightarrow> bool) \<Rightarrow> bool" where
  "hoare P m Q E \<longleftrightarrow> (\<forall>s r s'. P s \<longrightarrow> m s = Some (r, s') \<longrightarrow>
     (case r of Inl e \<Rightarrow> E s' | Inr a \<Rightarrow> Q a s'))"

definition halts :: "('s \<Rightarrow> bool) \<Rightarrow> ('s, 'a) prog \<Rightarrow> bool" where
  "halts P m \<longleftrightarrow> (\<forall>s. P s \<longrightarrow> m s \<noteq> None)"

abbreviation keeps :: "('s \<Rightarrow> bool) \<Rightarrow> ('s, 'a) prog \<Rightarrow> bool" where
  "keeps P m \<equiv> hoare P m (\<lambda>_. P) P"

lemma hoareI:
  assumes "\<And>s a s'. P s \<Longrightarrow> m s = Some (Inr a, s') \<Longrightarrow> Q a s'"
    and "\<And>s e s'. P s \<Longrightarrow> m s = Some (Inl e, s') \<Longrightarrow> E s'"
  shows "hoare P m Q E"
  unfolding hoare_def using assms by (auto split: sum.splits)

lemma hoare_InrD: "hoare P m Q E \<Longrightarrow> P s \<Longrightarrow> m s = Some (Inr a, s') \<Longrightarrow> Q a s'"
  unfolding hoare_def by (auto split: sum.splits)

lemma hoare_InlD: "hoare P m Q E \<Longrightarrow> P s \<Longrightarrow> m s = Some (Inl e, s') \<Longrightarrow> E s'"
  unfolding hoare_def by (metis sum.case(1))

lemma keepsD: "keeps P m \<Longrightarrow> P s \<Longrightarrow> m s = Some (r, s') \<Longrightarrow> P s'"
  unfolding hoare_def by (cases r) fastforce+

lemma hoare_ret [hoare_intros]: "(\<And>s. P s \<Longrightarrow> Q a s) \<Longrightarrow> hoare P (ret a) Q E"
  by (auto simp: hoare_def ret_def)

lemma hoare_throw [hoare_intros]: "(\<And>s. P s \<Longrightarrow> E s) \<Longrightarrow> hoare P (throw e) Q E"
  by (auto simp: hoare_def throw_def)

lemma hoare_getM [hoare_intros]: "(\<And>s. P s \<Longrightarrow> Q (f s) s) \<Longrightarrow> hoare P (getM f) Q E"
  by (auto simp: hoare_def getM_def)

lemma hoare_modM [hoare_intros]: "(\<And>s. P s \<Longrightarrow> Q () (f s)) \<Longrightarrow> hoare P (modM f) Q E"
  by (auto simp: hoare_def modM_def)

lemma hoare_throw_if [hoare_intros]:
  "(\<And>s. P s \<Longrightarrow> c \<Longrightarrow> E s) \<Longrightarrow> (\<And>s. P s \<Longrightarrow> \<not> c \<Longrightarrow> Q () s) \<Longrightarrow> hoare P (throw_if c e) Q E"
  by (auto simp: hoare_def throw_if_def ret_def throw_def)

lemma hoare_bindM:
  assumes "hoare P m R E" and "\<And>a. hoare (R a) (f a) Q E"
  shows "hoare P (bindM m f) Q E"
  by (rule hoareI)
     (use assms in \<open>auto simp: bindM_iffs dest: hoare_InrD hoare_InlD\<close>)

lemma hoare_if [hoare_intros]:
  "(c \<Longrightarrow> hoare P m Q E) \<Longrightarrow> (\<not> c \<Longrightarrow> hoare P m' Q E) \<Longrightarrow> hoare P (if c then m else m') Q E"
  by simp

lemma hoare_weaken:
  "hoare P' m Q' E' \<Longrightarrow> (\<And>s. P s \<Longrightarrow> P' s) \<Longrightarrow> (\<And>a s. Q' a s \<Longrightarrow> Q a s) \<Longrightarrow>
   (\<And>s. E' s \<Longrightarrow> E s) \<Longrightarrow> hoare P m Q E"
  by (rule hoareI) (blast dest: hoare_InrD hoare_InlD)+

lemma keeps_bindM [hoare_intros]:
  "keeps P m \<Longrightarrow> (\<And>a. keeps P (f a)) \<Longrightarrow> keeps P (bindM m f)"
  by (rule hoare_bindM)

lemma keeps_mapM [hoare_intros]:
  "(\<And>x. x \<in> set xs \<Longrightarrow> keeps P (f x)) \<Longrightarrow> keeps P (mapM f xs)"
  by (induction xs) (auto intro!: hoare_intros)

lemma keeps_forM [hoare_intros]:
  "(\<And>x. x \<in> set xs \<Longrightarrow> keeps P (f x)) \<Longrightarrow> keeps P (forM f xs)"
  by (induction xs) (auto intro!: hoare_intros)

lemma keeps_zoomM:
  assumes m: "keeps Q m"
    and get: "\<And>s. P s \<Longrightarrow> Q (get s)" and put: "\<And>s t. P s \<Longrightarrow> Q t \<Longrightarrow> P (put t s)"
  shows "keeps P (zoomM get put m)"
proof -
  have "P s'" if "P s" "zoomM get put m s = Some (r, s')" for s r s'
    using that keepsD [OF m get] put by (auto simp: zoomM_def split: option.splits)
  then show ?thesis by (intro hoareI)
qed

lemma haltsD: "halts P m \<Longrightarrow> P s \<Longrightarrow> \<exists>r s'. m s = Some (r, s')"
  by (auto simp: halts_def)

lemma halts_simple:
  "halts P (ret a)" "halts P (throw e)" "halts P (getM f)" "halts P (modM g)"
  "halts P (throw_if c e)"
  by (auto simp: halts_def prog_simps)

lemma halts_bindM:
  assumes "halts P m" "hoare P m R E" "\<And>a. halts (R a) (f a)"
  shows "halts P (bindM m f)"
  using assms unfolding halts_def by (auto simp: bindM_None_iff dest: hoare_InrD)

lemma halts_keeps_mapM:
  assumes "\<And>x. x \<in> set xs \<Longrightarrow> halts P (f x)" "\<And>x. x \<in> set xs \<Longrightarrow> keeps P (f x)"
  shows "halts P (mapM f xs)"
  using assms
proof (induction xs)
  case Nil
  show ?case by (simp add: halts_simple)
next
  case (Cons x xs)
  show ?case
    using Cons by (auto intro!: halts_bindM [where R = "\<lambda>_. P" and E = P] hoare_intros halts_simple)
qed

lemma bindM_assoc: "bindM (bindM m f) g = bindM m (\<lambda>a. bindM (f a) g)"
  by (auto simp: fun_eq_iff bindM_def split: option.splits prod.splits sum.splits)

lemma bindM_ret [simp]: "bindM (ret a) f = f a"
  by (simp add: fun_eq_iff bindM_def ret_def)

lemma bindM_ret_right [simp]: "bindM m ret = m"
  by (auto simp: fun_eq_iff bindM_def ret_def split: option.splits prod.splits sum.splits)

lemma mapM_append:
  "mapM f (xs @ ys) = bindM (mapM f xs) (\<lambda>as. bindM (mapM f ys) (\<lambda>bs. ret (as @ bs)))"
  by (induction xs) (simp_all add: bindM_assoc)

lemma mapM_length: "mapM f xs s = Some (Inr ys, s') \<Longrightarrow> length ys = length xs"
  by (induction xs arbitrary: s ys) (auto simp: bindM_Inr_iff ret_run)

text \<open>
  A run of \<open>mapM\<close> whose every step keeps \<open>I\<close>, moves the state along a preorder \<open>G\<close> and
  establishes a relation \<open>R\<close> that later steps do not disturb.
\<close>

lemma mapM_relates:
  assumes step: "\<And>x s y s'. x \<in> set xs \<Longrightarrow> I s \<Longrightarrow> f x s = Some (Inr y, s') \<Longrightarrow> I s' \<and> G s s' \<and> R s' x y"
    and refl: "\<And>s. G s s" and trans: "\<And>s s' s''. G s s' \<Longrightarrow> G s' s'' \<Longrightarrow> G s s''"
    and stable: "\<And>s s' x y. R s x y \<Longrightarrow> G s s' \<Longrightarrow> R s' x y"
    and run: "I s" "mapM f xs s = Some (Inr ys, s')"
  shows "I s' \<and> G s s' \<and> list_all2 (R s') xs ys"
  using step run
proof (induction xs arbitrary: s ys)
  case Nil
  then show ?case by (simp add: ret_run refl)
next
  case (Cons x xs)
  obtain y s1 zs where 1: "f x s = Some (Inr y, s1)" and 2: "mapM f xs s1 = Some (Inr zs, s')"
    and ys: "ys = y # zs"
    using Cons.prems(3) by (auto simp: bindM_Inr_iff ret_run)
  have x: "I s1" "G s s1" "R s1 x y" using Cons.prems(1) [OF _ Cons.prems(2) 1] by simp_all
  have rest: "I s' \<and> G s1 s' \<and> list_all2 (R s') xs zs"
    by (rule Cons.IH [OF _ x(1) 2]) (use Cons.prems(1) in auto)
  then show ?case using x stable trans ys by auto
qed

text \<open>A run with a budget: every step returns and spends one unit.\<close>

lemma mapM_budget:
  assumes step: "\<And>k x s. x \<in> set xs \<Longrightarrow> P (Suc k) s \<Longrightarrow> \<exists>y s'. f x s = Some (Inr y, s') \<and> P k s'"
  shows "P (k + length xs) s \<Longrightarrow> \<exists>ys s'. mapM f xs s = Some (Inr ys, s') \<and> P k s'"
  using step
proof (induction xs arbitrary: s)
  case Nil
  then show ?case by (simp add: ret_run)
next
  case (Cons x xs)
  have "P (Suc (k + length xs)) s" using Cons.prems(1) by simp
  then obtain y s1 where 1: "f x s = Some (Inr y, s1)" "P (k + length xs) s1"
    using Cons.prems(2) [of x "k + length xs" s] by auto
  obtain ys s2 where "mapM f xs s1 = Some (Inr ys, s2)" "P k s2"
    using Cons.IH [OF 1(2)] Cons.prems(2) by auto
  with 1 show ?case by (simp add: prog_simps)
qed

text \<open>The same for what the steps that return establish: a budget spent, a relation kept.\<close>

lemma mapM_spends:
  assumes step: "\<And>k x s y s'. x \<in> set xs \<Longrightarrow> I (Suc k) s \<Longrightarrow> f x s = Some (Inr y, s') \<Longrightarrow> I k s' \<and> G s s' \<and> R s' x y"
    and refl: "\<And>s. G s s" and trans: "\<And>s s' s''. G s s' \<Longrightarrow> G s' s'' \<Longrightarrow> G s s''"
    and stable: "\<And>s s' x y. R s x y \<Longrightarrow> G s s' \<Longrightarrow> R s' x y"
    and run: "I (k + length xs) s" "mapM f xs s = Some (Inr ys, s')"
  shows "I k s' \<and> G s s' \<and> list_all2 (R s') xs ys"
  using step run
proof (induction xs arbitrary: s ys)
  case Nil
  then show ?case by (simp add: ret_run refl)
next
  case (Cons x xs)
  obtain y s1 zs where 1: "f x s = Some (Inr y, s1)" and 2: "mapM f xs s1 = Some (Inr zs, s')"
    and ys: "ys = y # zs"
    using Cons.prems(3) by (auto simp: bindM_Inr_iff ret_run)
  have x: "I (k + length xs) s1" "G s s1" "R s1 x y"
    using Cons.prems(1) [of x "k + length xs" s y s1] Cons.prems(2) 1 by simp_all
  have "I k s' \<and> G s1 s' \<and> list_all2 (R s') xs zs"
  proof (rule Cons.IH [OF _ x(1) 2])
    show "I k t' \<and> G t t' \<and> R t' z w" if "z \<in> set xs" "I (Suc k) t" "f z t = Some (Inr w, t')" for k z t w t'
      by (rule Cons.prems(1) [OF _ that(2,3)]) (use that(1) in simp)
  qed
  then show ?case using x stable trans ys by auto
qed

lemma forM_total:
  assumes "\<And>x s. x \<in> set xs \<Longrightarrow> P s \<Longrightarrow> \<exists>s'. f x s = Some (Inr (), s') \<and> P s'"
  shows "P s \<Longrightarrow> \<exists>s'. forM f xs s = Some (Inr (), s') \<and> P s'"
  using assms
proof (induction xs arbitrary: s)
  case (Cons x xs)
  obtain s1 where 1: "f x s = Some (Inr (), s1)" "P s1" using Cons.prems(1) Cons.prems(2) [of x] by auto
  then show ?case using Cons.IH [OF 1(2)] Cons.prems(2) by (auto simp: prog_simps)
qed (simp add: ret_run)

lemma mapM_map: "mapM f (map g xs) = mapM (\<lambda>x. f (g x)) xs"
  by (induction xs) simp_all

lemma unat_small: "n < 2 ^ LENGTH('a) \<Longrightarrow> unat (of_nat n :: 'a::len word) = n"
  by (simp add: unat_of_nat take_bit_nat_eq_self_iff)

subsection \<open>Simulation\<close>

text \<open>
  A program is simulated by another when each of its successful runs is matched by one with the same
  result from related states. One rule per combinator, collected in \<open>sim_intros\<close>.
\<close>

named_theorems sim_intros \<open>rules of the simulation relation, one per combinator\<close>

definition simulates :: "('s \<Rightarrow> 't \<Rightarrow> bool) \<Rightarrow> ('s, 'a) prog \<Rightarrow> ('t, 'a) prog \<Rightarrow> bool" where
  "simulates R m m' \<longleftrightarrow> (\<forall>s t a s'. R s t \<longrightarrow> m s = Some (Inr a, s') \<longrightarrow> (\<exists>t'. m' t = Some (Inr a, t') \<and> R s' t'))"

lemma simulatesI:
  "(\<And>s t a s'. R s t \<Longrightarrow> m s = Some (Inr a, s') \<Longrightarrow> \<exists>t'. m' t = Some (Inr a, t') \<and> R s' t') \<Longrightarrow> simulates R m m'"
  by (simp add: simulates_def)

lemma simulatesD:
  "simulates R m m' \<Longrightarrow> R s t \<Longrightarrow> m s = Some (Inr a, s') \<Longrightarrow> \<exists>t'. m' t = Some (Inr a, t') \<and> R s' t'"
  by (simp add: simulates_def)

lemma simulates_ret [sim_intros]: "simulates R (ret a) (ret a)"
  by (simp add: simulates_def ret_def)

lemma simulates_throw [sim_intros]: "simulates R (throw e) m'"
  by (simp add: simulates_def throw_def)

lemma simulates_throw_if [sim_intros]: "simulates R (throw_if c e) (throw_if c e')"
  by (simp add: simulates_def throw_if_def throw_def ret_def)

lemma simulates_modM [sim_intros]: "(\<And>s t. R s t \<Longrightarrow> R (f s) (g t)) \<Longrightarrow> simulates R (modM f) (modM g)"
  by (auto simp: simulates_def modM_def)

lemma simulates_bindM [sim_intros]:
  assumes "simulates R m m'" "\<And>a. simulates R (f a) (f' a)"
  shows "simulates R (bindM m f) (bindM m' f')"
proof (rule simulatesI)
  fix s t b s'' assume R: "R s t" and "bindM m f s = Some (Inr b, s'')"
  then obtain a s' where 1: "m s = Some (Inr a, s')" "f a s' = Some (Inr b, s'')" by (auto simp: bindM_Inr_iff)
  obtain t' where 2: "m' t = Some (Inr a, t')" "R s' t'" using simulatesD [OF assms(1) R 1(1)] by blast
  then show "\<exists>t''. bindM m' f' t = Some (Inr b, t'') \<and> R s'' t''"
    using simulatesD [OF assms(2) 2(2) 1(2)] by (auto simp: bindM_Inr_iff)
qed

lemma simulates_if [sim_intros]:
  "(c \<Longrightarrow> simulates R m m') \<Longrightarrow> (\<not> c \<Longrightarrow> simulates R n n') \<Longrightarrow> simulates R (if c then m else n) (if c then m' else n')"
  by simp

lemma simulates_mapM [sim_intros]:
  "(\<And>x. x \<in> set xs \<Longrightarrow> simulates R (f x) (g x)) \<Longrightarrow> simulates R (mapM f xs) (mapM g xs)"
  by (induction xs) (auto intro!: sim_intros)

lemma simulates_forM [sim_intros]:
  "(\<And>x. x \<in> set xs \<Longrightarrow> simulates R (f x) (g x)) \<Longrightarrow> simulates R (forM f xs) (forM g xs)"
  by (induction xs) (auto intro!: sim_intros)

subsection \<open>Lists of options\<close>

primrec opt_all :: "'a option list \<Rightarrow> 'a list option" where
  "opt_all [] = Some []"
| "opt_all (x # xs) = (case x of None \<Rightarrow> None | Some a \<Rightarrow> map_option ((#) a) (opt_all xs))"

lemma opt_all_iff: "opt_all xs = Some ys \<longleftrightarrow> xs = map Some ys"
  by (induction xs arbitrary: ys) (auto split: option.splits)

lemma opt_all_map: "(\<And>x. x \<in> set xs \<Longrightarrow> f x = Some (g x)) \<Longrightarrow> opt_all (map f xs) = Some (map g xs)"
  by (simp add: opt_all_iff)

subsection \<open>Slices\<close>

text \<open>The pieces a loop \<open>for (i = 0; i < xs.size(); i += n)\<close> sees, each at most \<open>n\<close> long.\<close>

function chunks :: "nat \<Rightarrow> 'a list \<Rightarrow> 'a list list" where
  "chunks n xs = (if n = 0 \<or> xs = [] then [] else take n xs # chunks n (drop n xs))"
  by pat_completeness auto
termination
  by (relation "measure (\<lambda>(n, xs). length xs)") auto

declare chunks.simps [simp del]

lemma chunks_Nil [simp]: "chunks n [] = []"
  by (simp add: chunks.simps)

lemma chunks_step: "0 < n \<Longrightarrow> xs \<noteq> [] \<Longrightarrow> chunks n xs = take n xs # chunks n (drop n xs)"
  by (simp add: chunks.simps)

lemma concat_chunks: "0 < n \<Longrightarrow> concat (chunks n xs) = xs"
proof (induction n xs rule: chunks.induct)
  case (1 n xs)
  then show ?case by (cases "xs = []") (auto simp: chunks.simps [of n xs])
qed

lemma chunks_bounds: "c \<in> set (chunks n xs) \<Longrightarrow> c \<noteq> [] \<and> length c \<le> n"
proof (induction n xs rule: chunks.induct)
  case (1 n xs)
  then show ?case
    by (cases "n = 0 \<or> xs = []") (auto simp: chunks.simps [of n xs])
qed

lemma chunks_set: "c \<in> set (chunks n xs) \<Longrightarrow> set c \<subseteq> set xs"
proof (induction n xs rule: chunks.induct)
  case (1 n xs)
  then show ?case
    by (cases "n = 0 \<or> xs = []")
       (auto simp: chunks.simps [of n xs] dest: in_set_takeD in_set_dropD)
qed

lemma chunks_single: "xs \<noteq> [] \<Longrightarrow> length xs \<le> n \<Longrightarrow> chunks n xs = [xs]"
  by (cases "n = 0") (auto simp: chunks.simps [of n xs])

lemma chunks_eq_Nil: "0 < n \<Longrightarrow> chunks n xs = [] \<longleftrightarrow> xs = []"
  by (simp add: chunks.simps [of n xs])

lemma length_chunks: "0 < n \<Longrightarrow> length (chunks n xs) = (length xs + n - 1) div n"
proof (induction "length xs" arbitrary: xs rule: less_induct)
  case less
  show ?case
  proof (cases "xs = []")
    case True
    with less.prems show ?thesis by simp
  next
    case False
    have "length (drop n xs) < length xs" using less.prems False by simp
    then have "length (chunks n (drop n xs)) = (length (drop n xs) + n - 1) div n"
      using less.prems by (rule less.hyps)
    then have "length (chunks n xs) = Suc ((length xs - n + n - 1) div n)"
      using chunks_step [OF less.prems False] by simp
    also have "\<dots> = (length xs + n - 1) div n"
    proof (cases "n \<le> length xs")
      case True
      then have "length xs + n - 1 = (length xs - n + n - 1) + n"
        using less.prems by simp
      then show ?thesis using less.prems by (simp only: div_add_self2 Suc_eq_plus1)
    next
      case short: False
      have "(length xs - n + n - 1) div n = 0" using short less.prems by simp
      moreover have "(length xs + n - 1) div n = 1"
        using short less.prems False by (cases xs) (simp_all add: div_add_self2)
      ultimately show ?thesis by simp
    qed
    finally show ?thesis .
  qed
qed

lemma length_chunks_le: "0 < n \<Longrightarrow> length xs \<le> n * k \<Longrightarrow> length (chunks n xs) \<le> k"
proof -
  assume n: "0 < n" and le: "length xs \<le> n * k"
  have "(length xs + n - 1) div n \<le> (n * k + (n - 1)) div n"
    using n le by (intro div_le_mono) simp
  also have "\<dots> = k" using n by (simp only: div_mult_self2 [of n "n - 1" k] add.commute) simp
  finally show ?thesis using n by (simp add: length_chunks)
qed

lemma chunks_half: "4 \<le> n \<Longrightarrow> 1 < length xs \<Longrightarrow> 2 * length (chunks n xs) \<le> length xs"
proof (cases "length xs \<le> n")
  case True
  moreover assume "1 < length xs"
  moreover have "xs \<noteq> []" using \<open>1 < length xs\<close> by auto
  ultimately show ?thesis by (simp add: chunks_single)
next
  case False
  assume n: "4 \<le> n" and "1 < length xs"
  have "4 * length (chunks n xs) \<le> length (chunks n xs) * n" using n by simp
  also have "\<dots> \<le> length xs + n - 1" using n by (simp add: length_chunks)
  finally show ?thesis using False by simp
qed

lemma nth_chunks:
  "0 < n \<Longrightarrow> i < length (chunks n xs) \<Longrightarrow> chunks n xs ! i = take n (drop (i * n) xs)"
proof (induction i arbitrary: xs)
  case 0
  then show ?case by (cases "xs = []") (auto simp: chunks_step)
next
  case (Suc j)
  then have eq: "chunks n xs = take n xs # chunks n (drop n xs)"
    by (cases "xs = []") (auto simp: chunks_step)
  then have "chunks n xs ! Suc j = take n (drop (j * n) (drop n xs))"
    using Suc by simp
  then show ?case by (simp add: add.commute)
qed

text \<open>Every piece but the last is full.\<close>

lemma chunks_full:
  "0 < n \<Longrightarrow> Suc i < length (chunks n xs) \<Longrightarrow> length (chunks n xs ! i) = n"
proof (induction n xs arbitrary: i rule: chunks.induct)
  case (1 n xs)
  have ne: "xs \<noteq> []" using "1.prems" by auto
  show ?case
  proof (cases i)
    case 0
    then have "chunks n (drop n xs) \<noteq> []" using ne "1.prems" by (auto simp: chunks_step)
    then have "n < length xs" using "1.prems" by (auto simp: chunks_eq_Nil)
    then show ?thesis using 0 ne "1.prems" by (simp add: chunks_step)
  next
    case (Suc j)
    then show ?thesis using ne "1.prems" "1.IH" [of j] by (simp add: chunks_step)
  qed
qed

lemma chunks_drop: "chunks n (drop (i * n) xs) = drop i (chunks n xs)"
proof (induction i arbitrary: xs)
  case (Suc i)
  show ?case
  proof (cases "n = 0 \<or> xs = []")
    case True
    then show ?thesis by (auto simp: chunks.simps [of n])
  next
    case False
    then have "drop (Suc i) (chunks n xs) = drop i (chunks n (drop n xs))" by (simp add: chunks_step)
    also have "\<dots> = chunks n (drop (i * n) (drop n xs))" by (rule Suc.IH [symmetric])
    finally show ?thesis by (simp add: add.commute)
  qed
qed simp

lemma concat_take_chunks: "0 < n \<Longrightarrow> concat (take m (chunks n xs)) = take (m * n) xs"
proof (induction m arbitrary: xs)
  case (Suc m)
  then show ?case by (cases "xs = []") (simp_all add: chunks_step take_add)
qed simp

text \<open>Grouping pieces into larger pieces.\<close>

lemma concat_chunks_chunks:
  "0 < n \<Longrightarrow> 0 < m \<Longrightarrow> map concat (chunks m (chunks n xs)) = chunks (m * n) xs"
proof (induction "length xs" arbitrary: xs rule: less_induct)
  case less
  show ?case
  proof (cases "xs = []")
    case False
    then have ne: "chunks n xs \<noteq> []" "m * n > 0" using less.prems by (simp_all add: chunks_eq_Nil)
    have "map concat (chunks m (chunks n (drop (m * n) xs))) = chunks (m * n) (drop (m * n) xs)"
      using less ne False by simp
    then show ?thesis
      using less.prems ne False by (simp add: chunks_step [of m] chunks_step [of "m * n"] concat_take_chunks chunks_drop)
  qed simp
qed

lemma chunks_map: "chunks n (map f xs) = map (map f) (chunks n xs)"
proof (induction n xs rule: chunks.induct)
  case (1 n xs)
  then show ?case by (cases "n = 0 \<or> xs = []") (auto simp: chunks.simps [of n] take_map drop_map)
qed

lemma chunks_list_all2: "list_all2 R xs ys \<Longrightarrow> list_all2 (list_all2 R) (chunks n xs) (chunks n ys)"
proof (induction n xs arbitrary: ys rule: chunks.induct)
  case (1 n xs)
  show ?case
  proof (cases "n = 0 \<or> xs = []")
    case True
    then show ?thesis using "1.prems" by (auto simp: chunks.simps [of n])
  next
    case False
    then have "ys \<noteq> []" using "1.prems" by auto
    then show ?thesis using False 1 by (simp add: chunks_step list_all2_takeI list_all2_dropI)
  qed
qed

text \<open>A sequence cut into full pieces and a shorter last one is put back together by \<open>chunks\<close>.\<close>

lemma chunks_concat_full:
  assumes "0 < n" "\<And>x. x \<in> set (butlast xss) \<Longrightarrow> length x = n" "xss \<noteq> [] \<Longrightarrow> last xss \<noteq> [] \<and> length (last xss) \<le> n"
  shows "chunks n (concat xss) = xss"
  using assms(2,3)
proof (induction xss)
  case (Cons x xss)
  show ?case
  proof (cases "xss = []")
    case True
    then show ?thesis using Cons.prems by (simp add: chunks_single)
  next
    case False
    have "length x = n" using False Cons.prems(1) [of x] by simp
    moreover have "chunks n (concat xss) = xss" by (rule Cons.IH) (use Cons.prems False in auto)
    ultimately show ?thesis using assms(1) by (subst chunks_step) auto
  qed
qed simp

subsection \<open>Searching a run of slices\<close>

text \<open>
  The step of a search tree: when each slice is labelled with its first key and the keys ascend,
  the last slice whose label does not exceed \<open>k\<close> is the only one that can hold \<open>k\<close>.
\<close>

lemma concat_concats: "concat (map concat xss) = concat (concat xss)"
  by (induction xss) simp_all

lemma find_append: "find P (xs @ ys) = (case find P xs of None \<Rightarrow> find P ys | Some x \<Rightarrow> Some x)"
  by (induction xs) auto

lemma sort_key_strict:
  fixes f :: "'a \<Rightarrow> 'b::linorder"
  assumes "distinct (map f xs)"
  shows "sorted_wrt (\<lambda>a b. f a < f b) (sort_key f xs)"
proof -
  have "distinct (map f (sort_key f xs))"
    using assms distinct_map [of f "sort_key f xs"] distinct_map [of f xs] by simp
  then have "sorted_wrt (<) (map f (sort_key f xs))" by (simp add: strict_sorted_iff)
  then show ?thesis by (simp add: sorted_wrt_map)
qed

lemma find_distinct: "distinct (map f xs) \<Longrightarrow> e \<in> set xs \<Longrightarrow> find (\<lambda>x. f x = f e) xs = Some e"
  by (induction xs) (auto simp: rev_image_eqI)

lemma find_distinct_any:
  "distinct (map f xs) \<Longrightarrow> set ys = set xs \<Longrightarrow> distinct (map f ys) \<Longrightarrow>
   find (\<lambda>e. f e = k) ys = find (\<lambda>e. f e = k) xs"
proof (cases "find (\<lambda>e. f e = k) xs")
  case None
  then show "set ys = set xs \<Longrightarrow> ?thesis" by (metis find_None_iff)
next
  case (Some e)
  then have "e \<in> set xs" "f e = k" by (auto simp: find_Some_iff)
  then show "set ys = set xs \<Longrightarrow> distinct (map f ys) \<Longrightarrow> ?thesis"
    using Some find_distinct [of f ys e] by simp
qed

lemma distinct_sort_key: "distinct (map f xs) \<Longrightarrow> distinct (map f (sort_key g xs))"
  using distinct_map [of f "sort_key g xs"] distinct_map [of f xs] by simp

lemma find_map: "find P (map f xs) = map_option f (find (\<lambda>x. P (f x)) xs)"
  by (induction xs) auto

lemma find_concat_last:
  fixes key :: "'e \<Rightarrow> 'k::linorder"
  assumes kids: "list_all2 (\<lambda>be sub. sub \<noteq> [] \<and> bk be = key (hd sub)) bes ess"
    and sorted: "sorted_wrt (\<lambda>a b. key a < key b) (concat ess)"
  shows "case filter (\<lambda>be. bk be \<le> k) bes of
      [] \<Rightarrow> find (\<lambda>e. key e = k) (concat ess) = None
    | c # cs \<Rightarrow> (\<exists>i < length bes. last (c # cs) = bes ! i \<and>
        find (\<lambda>e. key e = k) (concat ess) = find (\<lambda>e. key e = k) (ess ! i))"
  using assms
proof (induction bes arbitrary: ess rule: rev_induct)
  case (snoc b bs)
  obtain ess' e where ess: "ess = ess' @ [e]" and kids: "list_all2 (\<lambda>be sub. sub \<noteq> [] \<and> bk be = key (hd sub)) bs ess'"
      and e: "e \<noteq> []" "bk b = key (hd e)"
    using snoc.prems(1) by (auto simp: list_all2_append1 list_all2_Cons1)
  have len: "length bs = length ess'" using kids by (rule list_all2_lengthD)
  have sorted: "sorted_wrt (\<lambda>a b. key a < key b) (concat ess')" "sorted_wrt (\<lambda>a b. key a < key b) e"
      "\<And>x y. x \<in> set (concat ess') \<Longrightarrow> y \<in> set e \<Longrightarrow> key x < key y"
    using snoc.prems(2) by (auto simp: ess sorted_wrt_append)
  show ?case
  proof (cases "bk b \<le> k")
    case True
    have "find (\<lambda>x. key x = k) (concat ess') = None"
      using sorted(3) [of _ "hd e"] e True by (fastforce simp: find_None_iff)
    moreover obtain c cs where "filter (\<lambda>be. bk be \<le> k) (bs @ [b]) = c # cs" "last (c # cs) = b"
      using True by (cases "filter (\<lambda>be. bk be \<le> k) (bs @ [b])") (auto simp: append_eq_Cons_conv)
    ultimately show ?thesis
      using len by (auto simp: ess find_append nth_append intro!: exI [of _ "length bs"] split: list.splits)
  next
    case False
    have hd_le: "key (hd e) \<le> key x" if "x \<in> set e" for x
      using sorted(2) that e(1) by (cases e) auto
    have none: "find (\<lambda>x. key x = k) e = None"
      using hd_le False e(2) by (force simp: find_None_iff)
    then have f: "find (\<lambda>x. key x = k) (concat ess) = find (\<lambda>x. key x = k) (concat ess')"
      by (simp add: ess find_append split: option.splits)
    have "filter (\<lambda>be. bk be \<le> k) (bs @ [b]) = filter (\<lambda>be. bk be \<le> k) bs" using False by simp
    then show ?thesis using snoc.IH [OF kids sorted(1)] f len
      by (fastforce simp: ess nth_append split: list.splits)
  qed
qed simp

text \<open>The values of a loop \<open>for (p = a; p < b; p += k)\<close> with a positive step.\<close>

function steps :: "nat \<Rightarrow> nat \<Rightarrow> nat \<Rightarrow> nat list" where
  "steps a b k = (if k = 0 \<or> b \<le> a then [] else a # steps (a + k) b k)"
  by pat_completeness auto
termination
  by (relation "measure (\<lambda>(a, b, k). b - a)") auto

declare steps.simps [simp del]

lemma set_steps: "0 < k \<Longrightarrow> set (steps a b k) = {p. p < b \<and> (\<exists>j. p = a + j * k)}"
proof (induction a b k rule: steps.induct)
  case (1 a b k)
  show ?case
  proof (cases "b \<le> a")
    case True
    then show ?thesis by (auto simp: steps.simps [of a b k])
  next
    case False
    have "{p. p < b \<and> (\<exists>j. p = a + j * k)} = insert a {p. p < b \<and> (\<exists>j. p = a + k + j * k)}"
      (is "?l = ?r")
    proof
      show "?l \<subseteq> ?r"
      proof
        fix p assume "p \<in> ?l"
        then obtain j where "p < b" "p = a + j * k" by blast
        then show "p \<in> ?r" by (cases j) auto
      qed
      show "?r \<subseteq> ?l"
        using False by (auto intro: exI [of _ 0]) (metis add.assoc mult_Suc)
    qed
    then show ?thesis using False 1 by (simp add: steps.simps [of a b k])
  qed
qed

subsection \<open>Characters and bytes\<close>

definition byte_of :: "char \<Rightarrow> byte" where
  "byte_of c = of_char c"

definition chr_of :: "byte \<Rightarrow> char" where
  "chr_of b = char_of (unat b)"

lemma unat_byte_of: "unat (byte_of c) = of_char c"
proof -
  have "(of_char c :: nat) < 256" by simp
  moreover have "byte_of c = of_nat (of_char c)"
    by (cases c) (simp add: byte_of_def of_char_def)
  ultimately show ?thesis by (simp add: unat_of_nat take_bit_nat_eq_self_iff)
qed

lemma chr_of_byte_of [simp]: "chr_of (byte_of c) = c"
  by (simp add: chr_of_def unat_byte_of)

lemma byte_of_chr_of [simp]: "byte_of (chr_of b) = b"
proof -
  have "unat (byte_of (chr_of b)) = unat b"
    using unsigned_less [of b, where ?'a = nat] by (simp add: unat_byte_of chr_of_def)
  then show ?thesis by (simp only: word_unat_eq_iff)
qed

lemma byte_of_inject [simp]: "byte_of c = byte_of d \<longleftrightarrow> c = d"
  by (metis chr_of_byte_of)

abbreviation bytes_of :: "string \<Rightarrow> bytes" where
  "bytes_of s \<equiv> map byte_of s"

text \<open>
  \<open>std::tolower\<close>, \<open>std::toupper\<close>, \<open>std::isspace\<close> and \<open>std::isdigit\<close> in the \<open>"C"\<close> locale, the
  one in force since the program never calls \<open>setlocale\<close>.
\<close>

definition tolower :: "char \<Rightarrow> char" where
  "tolower c = (if 65 \<le> (of_char c :: nat) \<and> (of_char c :: nat) \<le> 90
     then char_of ((of_char c :: nat) + 32) else c)"

definition toupper :: "char \<Rightarrow> char" where
  "toupper c = (if 97 \<le> (of_char c :: nat) \<and> (of_char c :: nat) \<le> 122
     then char_of ((of_char c :: nat) - 32) else c)"

definition isspace :: "char \<Rightarrow> bool" where
  "isspace c \<longleftrightarrow> (of_char c :: nat) = 32 \<or> (9 \<le> (of_char c :: nat) \<and> (of_char c :: nat) \<le> 13)"

definition isdigit :: "char \<Rightarrow> bool" where
  "isdigit c \<longleftrightarrow> 48 \<le> (of_char c :: nat) \<and> (of_char c :: nat) \<le> 57"

definition digit_value :: "char \<Rightarrow> nat" where
  "digit_value c = (of_char c :: nat) - 48"

lemma tolower_idem [simp]: "tolower (tolower c) = tolower c"
  by (auto simp: tolower_def)

text \<open>\<open>std::to_string\<close> of an unsigned value.\<close>

fun to_string :: "nat \<Rightarrow> string" where
  "to_string n = (if n < 10 then [char_of (48 + n)]
     else to_string (n div 10) @ [char_of (48 + n mod 10)])"

declare to_string.simps [simp del]

definition parse_digits :: "string \<Rightarrow> nat" where
  "parse_digits s = foldl (\<lambda>n c. n * 10 + digit_value c) 0 s"

lemma digit_char: "d < 10 \<Longrightarrow> isdigit (char_of (48 + d)) \<and> digit_value (char_of (48 + d)) = d"
  by (simp add: isdigit_def digit_value_def)

lemma to_string_digits: "c \<in> set (to_string n) \<Longrightarrow> isdigit c"
proof (induction n rule: to_string.induct)
  case (1 n)
  then show ?case
    by (cases "n < 10") (auto simp: to_string.simps [of n] digit_char)
qed

lemma to_string_nonempty [simp]: "to_string n \<noteq> []"
  by (simp add: to_string.simps [of n])

lemma parse_digits_to_string [simp]: "parse_digits (to_string n) = n"
proof (induction n rule: to_string.induct)
  case (1 n)
  show ?case
  proof (cases "n < 10")
    case True
    then show ?thesis by (simp add: to_string.simps [of n] parse_digits_def digit_char)
  next
    case False
    then show ?thesis
      using "1.IH" by (simp add: to_string.simps [of n] parse_digits_def digit_char)
  qed
qed

end
