(* ===== verification/Pst_Format.thy ===== *)
theory Pst_Format
  imports Prelude
begin

section \<open>On-disk constants and byte-order helpers (src/pst/pst_format.h)\<close>

text \<open>
  The Unicode PST layout: page geometry, node, block and heap identifiers, property types, and
  the little-endian readers and writers every layer above uses. Identifiers keep their widths;
  file offsets and buffer sizes (\<open>std::uint64_t\<close> and \<open>std::size_t\<close> counts of bytes of one
  file, far below \<open>2 ^ 64\<close>) are \<open>nat\<close>, and become words where the code stores them.
\<close>

type_synonym nid = "32 word"
type_synonym bid = "64 word"
type_synonym hid = "32 word"
type_synonym hnid = "32 word"

subsection \<open>Geometry\<close>

abbreviation (input) kPageSize :: nat where "kPageSize \<equiv> 512"
abbreviation (input) kBlockAlign :: nat where "kBlockAlign \<equiv> 64"
abbreviation (input) kMaxBlockData :: nat where "kMaxBlockData \<equiv> 8176"
abbreviation (input) kHeaderSize :: nat where "kHeaderSize \<equiv> 564"
abbreviation (input) kDListPos :: nat where "kDListPos \<equiv> 0x4200"
abbreviation (input) kFirstAMapPos :: nat where "kFirstAMapPos \<equiv> 0x4400"
abbreviation (input) kFirstPMapPos :: nat where "kFirstPMapPos \<equiv> 0x4600"
abbreviation (input) kFirstDataPos :: nat where "kFirstDataPos \<equiv> 0x4800"
abbreviation (input) kAMapSpan :: nat where "kAMapSpan \<equiv> 253952"
abbreviation (input) kPMapSpan :: nat where "kPMapSpan \<equiv> 2031616"

lemma span_sizes: "kAMapSpan = 496 * 8 * 64" "kPMapSpan = 496 * 8 * 512"
  by simp_all

subsection \<open>Page types and B-tree entry sizes\<close>

abbreviation (input) kPTypeBBT :: byte where "kPTypeBBT \<equiv> 0x80"
abbreviation (input) kPTypeNBT :: byte where "kPTypeNBT \<equiv> 0x81"
abbreviation (input) kPTypePMap :: byte where "kPTypePMap \<equiv> 0x83"
abbreviation (input) kPTypeAMap :: byte where "kPTypeAMap \<equiv> 0x84"
abbreviation (input) kPTypeDList :: byte where "kPTypeDList \<equiv> 0x86"

abbreviation (input) kSizeBTEntry :: nat where "kSizeBTEntry \<equiv> 24"
abbreviation (input) kSizeBBTEntry :: nat where "kSizeBBTEntry \<equiv> 24"
abbreviation (input) kSizeNBTEntry :: nat where "kSizeNBTEntry \<equiv> 32"
abbreviation (input) kBTPageDataSize :: nat where "kBTPageDataSize \<equiv> 488"

subsection \<open>Node identifiers\<close>

type_synonym nid_type = "8 word"

abbreviation (input) kNidTypeInternal :: nid_type where "kNidTypeInternal \<equiv> 0x01"
abbreviation (input) kNidTypeNormalFolder :: nid_type where "kNidTypeNormalFolder \<equiv> 0x02"
abbreviation (input) kNidTypeNormalMessage :: nid_type where "kNidTypeNormalMessage \<equiv> 0x04"
abbreviation (input) kNidTypeAttachment :: nid_type where "kNidTypeAttachment \<equiv> 0x05"
abbreviation (input) kNidTypeReceiveFolderTable :: nid_type where "kNidTypeReceiveFolderTable \<equiv> 0x0B"
abbreviation (input) kNidTypeOutgoingQueueTable :: nid_type where "kNidTypeOutgoingQueueTable \<equiv> 0x0C"
abbreviation (input) kNidTypeHierarchyTable :: nid_type where "kNidTypeHierarchyTable \<equiv> 0x0D"
abbreviation (input) kNidTypeContentsTable :: nid_type where "kNidTypeContentsTable \<equiv> 0x0E"
abbreviation (input) kNidTypeAssocContentsTable :: nid_type where "kNidTypeAssocContentsTable \<equiv> 0x0F"
abbreviation (input) kNidTypeSearchContentsTable :: nid_type where "kNidTypeSearchContentsTable \<equiv> 0x10"
abbreviation (input) kNidTypeAttachmentTable :: nid_type where "kNidTypeAttachmentTable \<equiv> 0x11"
abbreviation (input) kNidTypeRecipientTable :: nid_type where "kNidTypeRecipientTable \<equiv> 0x12"
abbreviation (input) kNidTypeLtp :: nid_type where "kNidTypeLtp \<equiv> 0x1F"

definition makeNid :: "nid_type \<Rightarrow> 32 word \<Rightarrow> nid" where
  "makeNid type index = push_bit 5 index OR (ucast type AND 0x1F)"

definition nidType :: "nid \<Rightarrow> nid_type" where
  "nidType nid = ucast (nid AND 0x1F)"

definition nidIndex :: "nid \<Rightarrow> 32 word" where
  "nidIndex nid = drop_bit 5 nid"

abbreviation (input) kFirstUserNidIndex :: "32 word" where "kFirstUserNidIndex \<equiv> 0x400"
abbreviation (input) kNidMessageStore :: nid where "kNidMessageStore \<equiv> 0x21"
abbreviation (input) kNidNameToIdMap :: nid where "kNidNameToIdMap \<equiv> 0x61"
abbreviation (input) kNidRootFolder :: nid where "kNidRootFolder \<equiv> 0x122"
abbreviation (input) kNidSearchManagementQ :: nid where "kNidSearchManagementQ \<equiv> 0x1E1"
abbreviation (input) kNidSearchActivityList :: nid where "kNidSearchActivityList \<equiv> 0x201"
abbreviation (input) kNidSearchDomainObject :: nid where "kNidSearchDomainObject \<equiv> 0x261"
abbreviation (input) kNidHmpGuidMap :: nid where "kNidHmpGuidMap \<equiv> 0xC01"
abbreviation (input) kNidHmpIdMap :: nid where "kNidHmpIdMap \<equiv> 0xE01"
abbreviation (input) kNidRecipientTable :: nid where "kNidRecipientTable \<equiv> 0x692"
abbreviation (input) kNidAttachmentTable :: nid where "kNidAttachmentTable \<equiv> 0x671"

lemma bit_mask5: "bit (0x1F :: 'a::len word) n \<longleftrightarrow> n < 5 \<and> n < LENGTH('a)"
  using bit_mask_iff [of 5 n, where ?'a = "'a word"] by (simp add: mask_eq_exp_minus_1 conj_commute)

lemma bit_31: "bit (31 :: nat) n \<longleftrightarrow> n < 5" "bit (31 :: int) n \<longleftrightarrow> n < 5"
  using bit_mask_iff [of 5 n, where ?'a = nat] bit_mask_iff [of 5 n, where ?'a = int]
  by (simp_all add: mask_eq_exp_minus_1 possible_bit_def)

lemma high_bits: "unat k < 2 ^ n \<Longrightarrow> n \<le> b \<Longrightarrow> \<not> bit k b"
  by (metis bit_take_bit_iff linorder_not_less take_bit_nat_eq_self unsigned_take_bit_eq
      unsigned_word_eqI word_unat_eq_iff)

lemma nid_roundtrip:
  assumes "unat index < 2 ^ 27"
  shows "nidIndex (makeNid t index) = index" and "nidType (makeNid t index) = t AND 0x1F"
proof -
  have hi: "\<not> bit index n" if "27 \<le> n" for n
    using high_bits [OF assms that] .
  show "nidIndex (makeNid t index) = index"
    by (rule bit_word_eqI)
       (use hi in \<open>auto simp: nidIndex_def makeNid_def bit_simps bit_mask5 not_less [symmetric]\<close>)
  show "nidType (makeNid t index) = t AND 0x1F"
    by (rule bit_word_eqI)
       (auto simp: nidType_def makeNid_def bit_simps bit_mask5 bit_31)
qed

subsection \<open>Block and heap identifiers\<close>

definition makeBid :: "64 word \<Rightarrow> bool \<Rightarrow> bid" where
  "makeBid index internal = push_bit 2 index OR (if internal then 2 else 0)"

definition bidIsInternal :: "bid \<Rightarrow> bool" where
  "bidIsInternal b \<longleftrightarrow> b AND 2 \<noteq> 0"

lemma bit_two: "bit (2 :: 'a::len word) n \<longleftrightarrow> n = 1 \<and> 1 < LENGTH('a)"
  by (metis bit_2_iff possible_bit_word)

lemma bidIsInternal_makeBid [simp]: "bidIsInternal (makeBid n i) = i"
proof -
  have "bit (makeBid n i) 1 = i" by (auto simp: makeBid_def bit_simps bit_two)
  moreover have "bidIsInternal b = bit b 1" for b
    by (auto simp: bidIsInternal_def bit_eq_iff [of "b AND 2"] bit_simps bit_two)
  ultimately show ?thesis by simp
qed

lemma makeBid_inject:
  assumes "unat n < 2 ^ 62" "unat m < 2 ^ 62" "makeBid n i = makeBid m j"
  shows "n = m \<and> i = j"
proof
  have hi: "\<not> bit k b" if "62 \<le> b" "unat k < 2 ^ 62" for k :: "64 word" and b
    using high_bits that by blast
  have drop: "drop_bit 2 (makeBid k l) = k" if "unat k < 2 ^ 62" for k l
    by (rule bit_word_eqI) (use hi that in \<open>auto simp: makeBid_def bit_simps bit_two not_less [symmetric]\<close>)
  show "n = m" using drop [OF assms(1), of i] drop [OF assms(2), of j] assms(3) by simp
  show "i = j" using assms(3) bidIsInternal_makeBid by metis
qed

definition makeHid :: "16 word \<Rightarrow> 16 word \<Rightarrow> hid" where
  "makeHid block_index alloc_index = push_bit 16 (ucast block_index) OR push_bit 5 (ucast alloc_index)"

definition hidAllocIndex :: "hid \<Rightarrow> 16 word" where
  "hidAllocIndex h = ucast (drop_bit 5 h AND 0x7FF)"

definition hidBlockIndex :: "hid \<Rightarrow> 16 word" where
  "hidBlockIndex h = ucast (drop_bit 16 h)"

definition hnidIsHid :: "hnid \<Rightarrow> bool" where
  "hnidIsHid v \<longleftrightarrow> v AND 0x1F = 0"

lemma hid_fields:
  assumes "unat a < 2048"
  shows "hidAllocIndex (makeHid b a) = a" "hidBlockIndex (makeHid b a) = b" "hnidIsHid (makeHid b a)"
proof -
  have hi: "\<not> bit a n" if "11 \<le> n" for n
    using high_bits [of a 11 n] assms that by simp
  have mask: "bit (0x7FF :: nat) n \<longleftrightarrow> n < 11" "bit (0x7FF :: int) n \<longleftrightarrow> n < 11"
      "bit (0x7FF :: 32 word) n \<longleftrightarrow> n < 11" for n
    using bit_mask_iff [of 11 n, where ?'a = nat] bit_mask_iff [of 11 n, where ?'a = int]
      bit_mask_iff [of 11 n, where ?'a = "32 word"]
    by (auto simp: mask_eq_exp_minus_1 possible_bit_def)
  show "hidAllocIndex (makeHid b a) = a"
    by (rule bit_word_eqI) (use hi in \<open>auto simp: hidAllocIndex_def makeHid_def bit_simps mask not_less [symmetric]\<close>)
  show "hidBlockIndex (makeHid b a) = b"
    by (rule bit_word_eqI) (use hi in \<open>auto simp: hidBlockIndex_def makeHid_def bit_simps not_less [symmetric]\<close>)
  have "makeHid b a AND 0x1F = 0"
    by (rule bit_word_eqI) (auto simp: makeHid_def bit_simps bit_mask5 bit_31)
  then show "hnidIsHid (makeHid b a)" by (simp add: hnidIsHid_def)
qed

lemma hid_inject:
  assumes "hnidIsHid j" "hnidIsHid k" "hidBlockIndex j = hidBlockIndex k" "hidAllocIndex j = hidAllocIndex k"
  shows "j = k"
proof (rule bit_word_eqI)
  have mask: "bit (0x7FF :: 32 word) n \<longleftrightarrow> n < 11" for n
    using bit_mask_iff [of 11 n, where ?'a = "32 word"] by (auto simp: mask_eq_exp_minus_1)
  have mask2: "bit (0x7FF :: nat) n \<longleftrightarrow> n < 11" "bit (0x7FF :: int) n \<longleftrightarrow> n < 11" for n
    using bit_mask_iff [of 11 n, where ?'a = nat] bit_mask_iff [of 11 n, where ?'a = int]
    by (auto simp: mask_eq_exp_minus_1 possible_bit_def)
  have low: "\<not> bit h n" if "hnidIsHid h" "n < 5" for h :: hid and n
  proof -
    have "bit (h AND 0x1F) n \<longleftrightarrow> bit h n" using that(2) by (simp only: bit_and_iff bit_mask5) simp
    then show ?thesis using that(1) by (simp add: hnidIsHid_def)
  qed
  have alloc: "bit (ucast (drop_bit 5 h AND 0x7FF) :: 16 word) m \<longleftrightarrow> bit h (m + 5)" if "m < 11" for h :: hid and m
    using that by (simp add: bit_ucast_iff bit_and_iff mask2 mask bit_drop_bit_eq add.commute)
  have block: "bit (ucast (drop_bit 16 h) :: 16 word) m \<longleftrightarrow> bit h (m + 16)" if "m < 16" for h :: hid and m
    using that by (simp add: bit_ucast_iff bit_drop_bit_eq add.commute)
  fix n assume "n < LENGTH(32)"
  then consider "n < 5" | m where "n = m + 5" "m < 11" | m where "n = m + 16" "m < 16"
    by (cases "n < 5"; cases "n < 16") (auto simp: le_iff_add not_less)
  then show "bit j n = bit k n"
  proof cases
    case 1
    then show ?thesis using low assms(1,2) by blast
  next
    case (2 m)
    then show ?thesis using alloc [of m j] alloc [of m k] assms(4) by (simp add: hidAllocIndex_def)
  next
    case (3 m)
    then show ?thesis using block [of m j] block [of m k] assms(3) by (simp add: hidBlockIndex_def)
  qed
qed

abbreviation (input) kHnSigHmpGuid :: byte where "kHnSigHmpGuid \<equiv> 0x9C"
abbreviation (input) kHnSigHmpId :: byte where "kHnSigHmpId \<equiv> 0xCC"
abbreviation (input) kHnSigTC :: byte where "kHnSigTC \<equiv> 0x7C"
abbreviation (input) kHnSigBTH :: byte where "kHnSigBTH \<equiv> 0xB5"
abbreviation (input) kHnSigPC :: byte where "kHnSigPC \<equiv> 0xBC"
abbreviation (input) kHnSignature :: byte where "kHnSignature \<equiv> 0xEC"

subsection \<open>Property types\<close>

type_synonym prop_type = "16 word"

abbreviation (input) kPtShort :: prop_type where "kPtShort \<equiv> 0x0002"
abbreviation (input) kPtLong :: prop_type where "kPtLong \<equiv> 0x0003"
abbreviation (input) kPtFloating :: prop_type where "kPtFloating \<equiv> 0x0004"
abbreviation (input) kPtDouble :: prop_type where "kPtDouble \<equiv> 0x0005"
abbreviation (input) kPtCurrency :: prop_type where "kPtCurrency \<equiv> 0x0006"
abbreviation (input) kPtAppTime :: prop_type where "kPtAppTime \<equiv> 0x0007"
abbreviation (input) kPtError :: prop_type where "kPtError \<equiv> 0x000A"
abbreviation (input) kPtBoolean :: prop_type where "kPtBoolean \<equiv> 0x000B"
abbreviation (input) kPtObject :: prop_type where "kPtObject \<equiv> 0x000D"
abbreviation (input) kPtLongLong :: prop_type where "kPtLongLong \<equiv> 0x0014"
abbreviation (input) kPtUnicode :: prop_type where "kPtUnicode \<equiv> 0x001F"
abbreviation (input) kPtString8 :: prop_type where "kPtString8 \<equiv> 0x001E"
abbreviation (input) kPtSystime :: prop_type where "kPtSystime \<equiv> 0x0040"
abbreviation (input) kPtBinary :: prop_type where "kPtBinary \<equiv> 0x0102"
abbreviation (input) kPtMvLong :: prop_type where "kPtMvLong \<equiv> 0x1003"
abbreviation (input) kPtMvUnicode :: prop_type where "kPtMvUnicode \<equiv> 0x101F"

definition fixedPropSize :: "prop_type \<Rightarrow> nat" where
  "fixedPropSize t =
     (if t = kPtShort then 2
      else if t = kPtBoolean then 1
      else if t = kPtLong \<or> t = kPtFloating \<or> t = kPtError then 4
      else if t = kPtDouble \<or> t = kPtCurrency \<or> t = kPtAppTime \<or> t = kPtLongLong \<or>
              t = kPtSystime then 8
      else 0)"

definition propIsInline :: "prop_type \<Rightarrow> bool" where
  "propIsInline t \<longleftrightarrow> fixedPropSize t \<noteq> 0 \<and> fixedPropSize t \<le> 4"

lemma fixedPropSize_cases: "fixedPropSize t \<in> {0, 1, 2, 4, 8}"
  by (simp add: fixedPropSize_def)

subsection \<open>Byte order\<close>

text \<open>The \<open>n\<close> low bytes of a value, least significant first.\<close>

definition le_bytes :: "nat \<Rightarrow> 'a::len word \<Rightarrow> bytes" where
  "le_bytes n v = map (\<lambda>i. ucast (drop_bit (8 * i) v)) [0..<n]"

text \<open>The loop \<open>for (int i = n - 1; i >= 0; --i) v = (v << 8) | p[i];\<close>.\<close>

definition le_value :: "bytes \<Rightarrow> 'a::len word" where
  "le_value bs = foldr (\<lambda>b v. push_bit 8 v OR ucast b) bs 0"

definition put8 :: "bytes \<Rightarrow> byte \<Rightarrow> bytes" where
  "put8 b v = b @ [v]"

definition put16 :: "bytes \<Rightarrow> 16 word \<Rightarrow> bytes" where
  "put16 b v = b @ le_bytes 2 v"

definition put32 :: "bytes \<Rightarrow> 32 word \<Rightarrow> bytes" where
  "put32 b v = b @ le_bytes 4 v"

definition put64 :: "bytes \<Rightarrow> 64 word \<Rightarrow> bytes" where
  "put64 b v = b @ le_bytes 8 v"

text \<open>Writing at an offset of a buffer: \<open>memcpy(buf.data() + i, ...)\<close> and the \<open>poke\<close> helpers.\<close>

definition memcpy :: "nat \<Rightarrow> 'a list \<Rightarrow> 'a list \<Rightarrow> 'a list" where
  "memcpy i xs buf = take i buf @ xs @ drop (i + length xs) buf"

definition poke16 :: "nat \<Rightarrow> 16 word \<Rightarrow> bytes \<Rightarrow> bytes" where
  "poke16 i v buf = memcpy i (le_bytes 2 v) buf"

definition poke32 :: "nat \<Rightarrow> 32 word \<Rightarrow> bytes \<Rightarrow> bytes" where
  "poke32 i v buf = memcpy i (le_bytes 4 v) buf"

definition poke64 :: "nat \<Rightarrow> 64 word \<Rightarrow> bytes \<Rightarrow> bytes" where
  "poke64 i v buf = memcpy i (le_bytes 8 v) buf"

definition peek16 :: "bytes \<Rightarrow> 16 word" where
  "peek16 p = le_value (take 2 p)"

definition peek32 :: "bytes \<Rightarrow> 32 word" where
  "peek32 p = le_value (take 4 p)"

definition peek64 :: "bytes \<Rightarrow> 64 word" where
  "peek64 p = le_value (take 8 p)"

lemma length_le_bytes [simp]: "length (le_bytes n v) = n"
  by (simp add: le_bytes_def)

lemma le_bytes_0 [simp]: "le_bytes 0 v = []"
  by (simp add: le_bytes_def)

lemma le_bytes_Suc: "le_bytes (Suc n) v = ucast v # le_bytes n (drop_bit 8 v)"
proof -
  have "le_bytes (Suc n) v = ucast (drop_bit (8 * 0) v) # map (\<lambda>i. ucast (drop_bit (8 * Suc i) v)) [0..<n]"
    unfolding le_bytes_def by (subst upt_conv_Cons) (simp_all add: map_Suc_upt [symmetric] comp_def del: upt_Suc)
  then show ?thesis by (simp add: le_bytes_def add.commute del: upt_Suc)
qed

lemma le_value_Cons: "le_value (b # bs) = push_bit 8 (le_value bs) OR ucast b"
  by (simp add: le_value_def)

lemma le_value_le_bytes: "le_value (le_bytes n v) = take_bit (8 * n) v"
proof (induction n arbitrary: v)
  case 0
  then show ?case by (simp add: le_value_def)
next
  case (Suc n)
  have "le_value (le_bytes (Suc n) v) = push_bit 8 (take_bit (8 * n) (drop_bit 8 v)) OR ucast (ucast v :: byte)"
    by (simp add: le_bytes_Suc le_value_Cons Suc.IH)
  also have "\<dots> = take_bit (8 * Suc n) v"
    by (rule bit_word_eqI) (auto simp: bit_simps)
  finally show ?case .
qed

lemma le_roundtrip [simp]:
  "le_value (le_bytes 2 v) = (v :: 16 word)"
  "le_value (le_bytes 4 w) = (w :: 32 word)"
  "le_value (le_bytes 8 x) = (x :: 64 word)"
  by (simp_all add: le_value_le_bytes take_bit_word_eq_self)

lemma le_value_roundtrip:
  "8 * length bs \<le> LENGTH('a::len) \<Longrightarrow> le_bytes (length bs) (le_value bs :: 'a word) = bs"
proof (induction bs)
  case Nil
  then show ?case by simp
next
  case (Cons b bs)
  let ?v = "le_value bs :: 'a word"
  have len: "8 + 8 * length bs \<le> LENGTH('a)" using Cons.prems by simp
  have "drop_bit 8 (le_value (b # bs) :: 'a word) = take_bit (LENGTH('a) - 8) ?v"
    by (rule bit_word_eqI) (auto simp: le_value_Cons bit_simps dest: bit_imp_le_length)
  moreover have "le_bytes (length bs) (take_bit (LENGTH('a) - 8) ?v) = le_bytes (length bs) ?v"
    unfolding le_bytes_def
  proof (rule map_cong [OF refl])
    fix i assume "i \<in> set [0..<length bs]"
    then have "8 * i + 8 \<le> LENGTH('a) - 8" using len by simp
    then show "ucast (drop_bit (8 * i) (take_bit (LENGTH('a) - 8) ?v)) = (ucast (drop_bit (8 * i) ?v) :: byte)"
      by (intro bit_word_eqI) (auto simp: bit_simps)
  qed
  moreover have "ucast (le_value (b # bs) :: 'a word) = b"
    using len by (intro bit_word_eqI) (auto simp: le_value_Cons bit_simps dest: bit_imp_le_length)
  ultimately show ?case using Cons by (simp add: le_bytes_Suc)
qed

lemma length_memcpy [simp]: "i + length xs \<le> length buf \<Longrightarrow> length (memcpy i xs buf) = length buf"
  by (simp add: memcpy_def)

lemma nth_memcpy:
  "i + length xs \<le> length buf \<Longrightarrow> j < length buf \<Longrightarrow>
   memcpy i xs buf ! j = (if i \<le> j \<and> j < i + length xs then xs ! (j - i) else buf ! j)"
  by (auto simp: memcpy_def nth_append min_def add.commute)

lemma slice_memcpy_same:
  "i + length xs \<le> length buf \<Longrightarrow> take (length xs) (drop i (memcpy i xs buf)) = xs"
  by (simp add: memcpy_def)

lemma slice_memcpy_other:
  assumes "i + length xs \<le> length buf" "j + n \<le> i \<or> i + length xs \<le> j" "j + n \<le> length buf"
  shows "take n (drop j (memcpy i xs buf)) = take n (drop j buf)"
  by (rule nth_equalityI) (use assms in \<open>auto simp: nth_memcpy\<close>)

lemma length_poke [simp]:
  "i + 2 \<le> length buf \<Longrightarrow> length (poke16 i v buf) = length buf"
  "i + 4 \<le> length buf \<Longrightarrow> length (poke32 i w buf) = length buf"
  "i + 8 \<le> length buf \<Longrightarrow> length (poke64 i x buf) = length buf"
  by (simp_all add: poke16_def poke32_def poke64_def)

lemma memcpy_append:
  "length a = i \<Longrightarrow> length b = length xs \<Longrightarrow> memcpy i xs (a @ b @ c) = a @ xs @ c"
  by (simp add: memcpy_def)

lemma slice_list_update:
  "j < i \<or> i + n \<le> j \<Longrightarrow> take n (drop i (xs[j := x])) = take n (drop i xs)"
  by (rule nth_equalityI) auto

lemma slice_poke_other:
  "i + 2 \<le> length buf \<Longrightarrow> j + n \<le> i \<or> i + 2 \<le> j \<Longrightarrow> j + n \<le> length buf \<Longrightarrow>
     take n (drop j (poke16 i v buf)) = take n (drop j buf)"
  "i + 4 \<le> length buf \<Longrightarrow> j + n \<le> i \<or> i + 4 \<le> j \<Longrightarrow> j + n \<le> length buf \<Longrightarrow>
     take n (drop j (poke32 i w buf)) = take n (drop j buf)"
  "i + 8 \<le> length buf \<Longrightarrow> j + n \<le> i \<or> i + 8 \<le> j \<Longrightarrow> j + n \<le> length buf \<Longrightarrow>
     take n (drop j (poke64 i x buf)) = take n (drop j buf)"
  by (simp_all add: poke16_def poke32_def poke64_def slice_memcpy_other)

lemma slice_poke_same:
  "i + 2 \<le> length buf \<Longrightarrow> take 2 (drop i (poke16 i v buf)) = le_bytes 2 v"
  "i + 4 \<le> length buf \<Longrightarrow> take 4 (drop i (poke32 i w buf)) = le_bytes 4 w"
  "i + 8 \<le> length buf \<Longrightarrow> take 8 (drop i (poke64 i x buf)) = le_bytes 8 x"
  using slice_memcpy_same [of i "le_bytes 2 v" buf] slice_memcpy_same [of i "le_bytes 4 w" buf]
    slice_memcpy_same [of i "le_bytes 8 x" buf]
  by (simp_all add: poke16_def poke32_def poke64_def)

lemmas slices = slice_list_update slice_poke_other slice_poke_same slice_memcpy_other

text \<open>Reading back a field at a known offset.\<close>

lemma le_value_field [simp]:
  "le_value (take 2 (le_bytes 2 (v :: 16 word) @ r)) = v"
  "le_value (take 4 (le_bytes 4 (w :: 32 word) @ r)) = w"
  "le_value (take 8 (le_bytes 8 (x :: 64 word) @ r)) = x"
  by simp_all

lemma peek_field [simp]:
  "peek16 (le_bytes 2 (v :: 16 word) @ r) = v" "peek16 (le_bytes 2 v) = v"
  "peek32 (le_bytes 4 (w :: 32 word) @ r) = w" "peek32 (le_bytes 4 w) = w"
  "peek64 (le_bytes 8 (x :: 64 word) @ r) = x" "peek64 (le_bytes 8 x) = x"
  by (simp_all add: peek16_def peek32_def peek64_def)

text \<open>An array of fixed-size fields, read back piece by piece.\<close>

lemma chunks_concat_const:
  "0 < n \<Longrightarrow> (\<And>x. x \<in> set xs \<Longrightarrow> length (f x) = n) \<Longrightarrow> chunks n (concat (map f xs)) = map f xs"
proof (induction xs)
  case (Cons x xs)
  then have "length (f x) = n" by simp
  with Cons show ?case by (subst chunks_step) (auto simp del: length_0_conv)
qed simp

lemma length_concat_const:
  "(\<And>x. x \<in> set xs \<Longrightarrow> length (f x) = n) \<Longrightarrow> length (concat (map f xs)) = n * length xs"
  by (induction xs) auto

lemma drop_concat_const:
  "(\<And>x. x \<in> set xs \<Longrightarrow> length (f x) = n) \<Longrightarrow> drop (n * i) (concat (map f xs)) = concat (map f (drop i xs))"
proof (induction xs arbitrary: i)
  case (Cons x xs)
  then show ?case by (cases i) simp_all
qed simp

lemma length_concat_le:
  "(\<And>x. length (f x) \<le> n) \<Longrightarrow> length (concat (map f xs)) \<le> n * length xs"
  by (induction xs) (auto intro: add_mono)

lemma fold_append: "fold (\<lambda>x buf. buf @ f x) xs buf = buf @ concat (map f xs)"
  by (induction xs arbitrary: buf) auto

text \<open>Disjoint writes in ascending order all read back.\<close>

definition ascending_writes :: "nat \<Rightarrow> (nat \<times> bytes) list \<Rightarrow> bool" where
  "ascending_writes n ws \<longleftrightarrow> sorted_wrt (\<lambda>(i, xs) (j, ys). i + length xs \<le> j) ws \<and>
     (\<forall>(i, xs) \<in> set ws. i + length xs \<le> n)"

lemma length_writes:
  "\<forall>(i, xs) \<in> set ws. i + length xs \<le> length buf \<Longrightarrow> length (fold (\<lambda>(i, f). memcpy i f) ws buf) = length buf"
  by (induction ws arbitrary: buf) auto

lemma writes_other:
  "\<forall>(j, ys) \<in> set ws. j + length ys \<le> length buf \<and> i + n \<le> j \<Longrightarrow> i + n \<le> length buf \<Longrightarrow>
   take n (drop i (fold (\<lambda>(i, f). memcpy i f) ws buf)) = take n (drop i buf)"
  by (induction ws arbitrary: buf) (auto simp: slice_memcpy_other)

lemma writes_read:
  assumes "ascending_writes (length buf) ws" "(i, xs) \<in> set ws"
  shows "take (length xs) (drop i (fold (\<lambda>(i, f). memcpy i f) ws buf)) = xs"
  using assms
proof (induction ws arbitrary: buf)
  case (Cons w ws)
  obtain j ys where w: "w = (j, ys)" by fastforce
  have len: "length (memcpy j ys buf) = length buf" using Cons.prems(1) by (simp add: w ascending_writes_def)
  have asc: "ascending_writes (length (memcpy j ys buf)) ws"
    using Cons.prems(1) unfolding len by (auto simp: ascending_writes_def)
  show ?case
  proof (cases "(i, xs) = w")
    case True
    have "take (length ys) (drop j (fold (\<lambda>(i, f). memcpy i f) ws (memcpy j ys buf))) =
        take (length ys) (drop j (memcpy j ys buf))"
      by (rule writes_other) (use Cons.prems(1) len in \<open>auto simp: w ascending_writes_def\<close>)
    then show ?thesis using True Cons.prems(1) by (simp add: w slice_memcpy_same ascending_writes_def)
  next
    case False
    then have "(i, xs) \<in> set ws" using Cons.prems(2) by simp
    from Cons.IH [OF asc this] show ?thesis by (simp add: w)
  qed
qed simp

text \<open>Ascending writes that stay within a window, so that runs of them compose.\<close>

definition writes_in :: "nat \<Rightarrow> nat \<Rightarrow> (nat \<times> bytes) list \<Rightarrow> bool" where
  "writes_in lo hi ws \<longleftrightarrow> sorted_wrt (\<lambda>(i, xs) (j, ys). i + length xs \<le> j) ws \<and>
     (\<forall>(i, xs) \<in> set ws. lo \<le> i \<and> i + length xs \<le> hi)"

lemma writes_in_append: "writes_in lo m ws \<Longrightarrow> writes_in m hi ws' \<Longrightarrow> lo \<le> m \<Longrightarrow> m \<le> hi \<Longrightarrow> writes_in lo hi (ws @ ws')"
  by (fastforce simp: writes_in_def sorted_wrt_append)

lemma writes_in_widen: "writes_in lo hi ws \<Longrightarrow> lo' \<le> lo \<Longrightarrow> hi \<le> hi' \<Longrightarrow> writes_in lo' hi' ws"
  by (fastforce simp: writes_in_def)

lemma writes_in_Nil [simp]: "writes_in lo hi []"
  by (simp add: writes_in_def)

lemma writes_in_Cons: "writes_in (i + length xs) hi ws \<Longrightarrow> lo \<le> i \<Longrightarrow> i + length xs \<le> hi \<Longrightarrow> writes_in lo hi ((i, xs) # ws)"
  by (fastforce simp: writes_in_def)

lemma writes_in_ascending: "writes_in lo hi ws \<Longrightarrow> ascending_writes hi ws"
  by (fastforce simp: writes_in_def ascending_writes_def)

lemma writes_peek:
  assumes "ascending_writes (length buf) ws"
  shows "(i, le_bytes 2 v) \<in> set ws \<Longrightarrow> peek16 (drop i (fold (\<lambda>(i, f). memcpy i f) ws buf)) = v"
    and "(i, le_bytes 4 w) \<in> set ws \<Longrightarrow> peek32 (drop i (fold (\<lambda>(i, f). memcpy i f) ws buf)) = w"
  using writes_read [OF assms, of i "le_bytes 2 v"] writes_read [OF assms, of i "le_bytes 4 w"]
  by (auto simp: peek16_def peek32_def)

lemma writes_nth:
  assumes "ascending_writes (length buf) ws" "(i, [x]) \<in> set ws"
  shows "fold (\<lambda>(i, f). memcpy i f) ws buf ! i = x"
proof -
  let ?b = "fold (\<lambda>(i, f). memcpy i f) ws buf"
  have "take 1 (drop i ?b) = [x]" using writes_read [OF assms] by simp
  then show ?thesis by (cases "drop i ?b") (auto simp: nth_via_drop)
qed

subsection \<open>Alignment, signatures, time\<close>

definition alignUp :: "nat \<Rightarrow> nat \<Rightarrow> nat" where
  "alignUp v a = (v + a - 1) div a * a"

lemma alignUp_eq: "0 < a \<Longrightarrow> alignUp v a = v + (a - 1) - (v + (a - 1)) mod a"
  by (simp add: alignUp_def minus_mod_eq_div_mult)

lemma alignUp_ge: "0 < a \<Longrightarrow> v \<le> alignUp v a"
  using mod_less_divisor [of a "v + (a - 1)"] unfolding alignUp_eq by linarith

lemma alignUp_less: "0 < a \<Longrightarrow> alignUp v a < v + a"
  by (simp add: alignUp_eq)

lemma alignUp_dvd [simp]: "a dvd alignUp v a"
  by (simp add: alignUp_def)

lemma alignUp_id: "0 < a \<Longrightarrow> a dvd v \<Longrightarrow> alignUp v a = v"
proof -
  assume a: "0 < a" and "a dvd v"
  then obtain k where v: "v = a * k" by (auto simp: dvd_def)
  have "(a * k + (a - 1)) div a = k"
    using a by (subst add.commute, subst div_mult_self2) simp_all
  moreover have "a * k + a - 1 = a * k + (a - 1)" using a by simp
  ultimately show ?thesis unfolding alignUp_def v by (simp only: mult.commute)
qed

definition computeSig :: "64 word \<Rightarrow> bid \<Rightarrow> 16 word" where
  "computeSig ib b = (let v = ucast b XOR ucast ib :: 32 word in ucast (drop_bit 16 v XOR v))"

definition unixToFiletime :: "int \<Rightarrow> 64 word" where
  "unixToFiletime unix_seconds =
     (if unix_seconds \<le> -11644473600 then 0
      else word_of_int (unix_seconds + 11644473600) * 10000000)"

end
