(* ===== verification/Store.thy ===== *)
theory Store
  imports Prelude
begin

section \<open>The interface of an append-only store\<close>

text \<open>
  What the layers of the writer rely on, stated once: putting something keeps the store's
  invariant and everything readable, on every outcome, and when it succeeds the thing put reads
  back under a key that named nothing before. The block store of the file and the in-memory
  heap are interpretations; runs of puts are reasoned about here.
\<close>

locale store =
  fixes put :: "'d \<Rightarrow> ('s, 'k) prog"
    and look :: "'s \<Rightarrow> 'k \<Rightarrow> 'v option"
    and inv :: "'s \<Rightarrow> bool"
    and payload :: "'d \<Rightarrow> 'v"
  assumes put_inv: "inv s \<Longrightarrow> put d s = Some (Inr k, s') \<Longrightarrow> inv s'"
    and put_keeps: "inv s \<Longrightarrow> put d s = Some (Inr k, s') \<Longrightarrow> look s j = Some x \<Longrightarrow> look s' j = Some x"
    and put_look: "inv s \<Longrightarrow> put d s = Some (Inr k, s') \<Longrightarrow> look s k = None \<and> look s' k = Some (payload d)"
    and put_halts: "inv s \<Longrightarrow> put d s \<noteq> None"
begin

text \<open>Everything readable is kept; the state has moved forward if it is also still well formed.\<close>

definition extends :: "'s \<Rightarrow> 's \<Rightarrow> bool" where
  "extends s0 s \<longleftrightarrow> (\<forall>k x. look s0 k = Some x \<longrightarrow> look s k = Some x)"

lemma extends_refl [simp]: "extends s s"
  by (simp add: extends_def)

lemma extends_trans: "extends a b \<Longrightarrow> extends b c \<Longrightarrow> extends a c"
  by (simp add: extends_def)

lemma extends_look: "extends a b \<Longrightarrow> look a k = Some x \<Longrightarrow> look b k = Some x"
  by (simp add: extends_def)

lemma put_extends: "inv s \<Longrightarrow> put d s = Some (Inr k, s') \<Longrightarrow> extends s s'"
  using put_keeps by (auto simp: extends_def)

definition after :: "'s \<Rightarrow> 's \<Rightarrow> bool" where
  "after s0 s \<longleftrightarrow> inv s \<and> (\<forall>k x. look s0 k = Some x \<longrightarrow> look s k = Some x)"

lemma after_refl: "inv s \<Longrightarrow> after s s"
  by (simp add: after_def)

lemma after_trans: "after a b \<Longrightarrow> after b c \<Longrightarrow> after a c"
  by (simp add: after_def)

lemma after_inv: "after a b \<Longrightarrow> inv b"
  by (simp add: after_def)

lemma after_look: "after a b \<Longrightarrow> look a k = Some x \<Longrightarrow> look b k = Some x"
  by (simp add: after_def)

lemma put_after: "inv s \<Longrightarrow> put d s = Some (Inr k, s') \<Longrightarrow> after s s' \<and> look s' k = Some (payload d)"
  using put_inv put_keeps put_look by (auto simp: after_def)

text \<open>A run of puts: everything put reads back at the end, under distinct keys.\<close>

lemma run_put:
  assumes "inv s" "mapM put ds s = Some (Inr ks, s')"
  shows "after s s' \<and> map (look s') ks = map (\<lambda>d. Some (payload d)) ds \<and> distinct ks \<and>
    (\<forall>k \<in> set ks. look s k = None)"
  using assms
proof (induction ds arbitrary: s ks)
  case Nil
  then show ?case by (simp add: prog_simps after_refl)
next
  case (Cons d ds)
  obtain k s1 js where run: "put d s = Some (Inr k, s1)" "mapM put ds s1 = Some (Inr js, s')" and ks: "ks = k # js"
    using Cons.prems(2) by (auto simp: bindM_Inr_iff prog_simps)
  have inv1: "inv s1" using put_inv [OF Cons.prems(1) run(1)] .
  note IH = Cons.IH [OF inv1 run(2)]
  note k = put_look [OF Cons.prems(1) run(1)]
  have "k \<notin> set js" using IH k by auto
  moreover have "look s j = None" if "j \<in> set js" for j
    using IH that put_keeps [OF Cons.prems(1) run(1), of j] by (cases "look s j") fastforce+
  ultimately show ?case
    using IH k put_keeps [OF Cons.prems(1) run(1)] by (auto simp: ks after_def)
qed

lemma run_halts: "inv s \<Longrightarrow> mapM put ds s \<noteq> None"
proof (induction ds arbitrary: s)
  case (Cons d ds)
  obtain r s1 where 1: "put d s = Some (r, s1)" using put_halts [OF Cons.prems, of d] by auto
  show ?case
  proof (cases r)
    case (Inr k)
    have "mapM put ds s1 \<noteq> None" using Cons.IH put_inv [OF Cons.prems] 1 Inr by simp
    then show ?thesis using 1 Inr by (simp add: bindM_None_iff ret_run)
  qed (simp add: 1 bindM_None_iff)
qed (simp add: prog_simps)

end

text \<open>A store whose laws survive a failed put: the file, which is written to after an exception.\<close>

locale durable_store = store +
  assumes fail_inv: "inv s \<Longrightarrow> put d s = Some (Inl e, s') \<Longrightarrow> inv s'"
    and fail_keeps: "inv s \<Longrightarrow> put d s = Some (Inl e, s') \<Longrightarrow> look s j = Some x \<Longrightarrow> look s' j = Some x"
begin

lemma put_keeps_after: "keeps (after s0) (put d)"
  by (rule hoareI) (auto simp: after_def dest: put_inv put_keeps fail_inv fail_keeps)

lemma run_after: "keeps (after s0) (mapM put ds)"
  by (rule keeps_mapM) (rule put_keeps_after)

end

end
