(* ===== verification/Heap_Node.thy ===== *)
theory Heap_Node
  imports Pst_Format Store
begin

section \<open>The heap-on-node (src/pst/heap.h, src/pst/heap.cpp)\<close>

text \<open>
  \<open>HeapNode\<close> turns a node's data stream into a small allocator: blobs go in, heap identifiers
  (HIDs) come out, and \<open>serialize\<close> lays the blobs out in blocks that line up with the 8176-byte
  data blocks of the node database. The layout of one block (\<open>hn_block\<close>) is the same code in
  \<open>HeapNode::serialize\<close> and in \<open>StreamingHeap::renderBlock\<close>, up to the advisory fill levels.

  \<open>heap_read\<close> is a reader's view of the stream: it finds the block through the HID's block index
  and the blob through the block's page map. The properties say that every blob ever allocated
  reads back from the serialized stream under the HID \<open>alloc\<close> returned for it.
\<close>

subsection \<open>Block geometry\<close>

abbreviation (input) kHnHdrSize :: nat where "kHnHdrSize \<equiv> 12"
abbreviation (input) kHnPageHdrSize :: nat where "kHnPageHdrSize \<equiv> 2"
abbreviation (input) kHnBitmapHdrSize :: nat where "kHnBitmapHdrSize \<equiv> 66"

definition fillLevelCode :: "nat \<Rightarrow> byte" where
  "fillLevelCode free_bytes =
     (if 3584 \<le> free_bytes then 0x0 else if 2560 \<le> free_bytes then 0x1
      else if 2048 \<le> free_bytes then 0x2 else if 1792 \<le> free_bytes then 0x3
      else if 1536 \<le> free_bytes then 0x4 else if 1280 \<le> free_bytes then 0x5
      else if 1024 \<le> free_bytes then 0x6 else if 768 \<le> free_bytes then 0x7
      else if 512 \<le> free_bytes then 0x8 else if 256 \<le> free_bytes then 0x9
      else 0xF)"

definition pageMapSize :: "nat \<Rightarrow> nat" where
  "pageMapSize alloc_count = 4 + 2 * (alloc_count + 1)"

definition isBitmapBlock :: "nat \<Rightarrow> bool" where
  "isBitmapBlock block_index \<longleftrightarrow> 8 \<le> block_index \<and> (block_index - 8) mod 128 = 0"

definition blockHeaderSize :: "nat \<Rightarrow> nat" where
  "blockHeaderSize block_index =
     (if block_index = 0 then kHnHdrSize
      else if isBitmapBlock block_index then kHnBitmapHdrSize else kHnPageHdrSize)"

definition maxAllocSize :: nat where
  "maxAllocSize = kMaxBlockData - kHnBitmapHdrSize - pageMapSize 1 - 1"

lemma maxAllocSize_eq [simp]: "maxAllocSize = 8101"
  by (simp add: maxAllocSize_def pageMapSize_def)

lemma blockHeaderSize_bounds: "2 \<le> blockHeaderSize i" "blockHeaderSize i \<le> 66" "blockHeaderSize 0 = 12"
  by (simp_all add: blockHeaderSize_def)

subsection \<open>State and operations\<close>

record hblock =
  hb_items :: "bytes list"
  hb_used :: nat

record heap =
  client_sig :: byte
  user_root :: hid
  hblocks :: "hblock list"

definition empty_block :: hblock where
  "empty_block = \<lparr>hb_items = [], hb_used = 0\<rparr>"

definition HeapNode_new :: "byte \<Rightarrow> heap" where
  "HeapNode_new sig = \<lparr>client_sig = sig, user_root = 0, hblocks = [empty_block]\<rparr>"

text \<open>Whether one more item of \<open>len\<close> bytes goes into a block; the spare byte pads the page map.\<close>

definition block_fits :: "nat \<Rightarrow> hblock \<Rightarrow> nat \<Rightarrow> bool" where
  "block_fits block_index b len \<longleftrightarrow>
     blockHeaderSize block_index + hb_used b + len + pageMapSize (length (hb_items b) + 1) + 1 \<le> kMaxBlockData"

definition fits :: "heap \<Rightarrow> nat \<Rightarrow> nat \<Rightarrow> bool" where
  "fits h block_index len = block_fits block_index (hblocks h ! block_index) len"

definition add_item :: "bytes \<Rightarrow> hblock \<Rightarrow> hblock" where
  "add_item data b = b\<lparr>hb_items := hb_items b @ [data], hb_used := hb_used b + length data\<rparr>"

definition too_large :: "nat \<Rightarrow> error" where
  "too_large len = PstError (''heap allocation of '' @ to_string len @ '' bytes exceeds the HN block capacity'')"

definition alloc :: "bytes \<Rightarrow> (heap, hid) prog" where
  "alloc data =
     bindM (throw_if (maxAllocSize < length data) (too_large (length data))) (\<lambda>_.
     bindM (getM id) (\<lambda>h.
     let last_index = length (hblocks h) - 1 in
     bindM (if \<not> fits h last_index (length data) \<or> 2047 \<le> length (hb_items (hblocks h ! last_index))
            then bindM (modM (\<lambda>h. h\<lparr>hblocks := hblocks h @ [empty_block]\<rparr>)) (\<lambda>_.
                 throw_if (0xFFFF < last_index + 1) (PstError ''heap grew beyond 65535 blocks''))
            else ret ()) (\<lambda>_.
     bindM (getM (\<lambda>h. length (hblocks h) - 1)) (\<lambda>index.
     bindM (modM (\<lambda>h. h\<lparr>hblocks := (hblocks h)[index := add_item data (hblocks h ! index)]\<rparr>)) (\<lambda>_.
     getM (\<lambda>h. makeHid (of_nat index) (of_nat (length (hb_items (hblocks h ! index))))))))))"

definition patch :: "hid \<Rightarrow> bytes \<Rightarrow> (heap, unit) prog" where
  "patch h data =
     (let block = unat (hidBlockIndex h); index = unat (hidAllocIndex h) in
     bindM (getM hblocks) (\<lambda>bs.
     bindM (throw_if (length bs \<le> block \<or> index = 0 \<or> length (hb_items (bs ! block)) < index)
       (PstError ''patch of an unknown HID'')) (\<lambda>_.
     bindM (throw_if (length (hb_items (bs ! block) ! (index - 1)) \<noteq> length data)
       (PstError ''patch would change an allocation's size'')) (\<lambda>_.
     modM (\<lambda>s. s\<lparr>hblocks := (hblocks s)[block :=
       (bs ! block)\<lparr>hb_items := (hb_items (bs ! block))[index - 1 := data]\<rparr>]\<rparr>)))))"

definition setUserRoot :: "hid \<Rightarrow> heap \<Rightarrow> heap" where
  "setUserRoot r h = h\<lparr>user_root := r\<rparr>"

subsection \<open>The layout of a block\<close>

text \<open>Where each item starts, and where the last one ends.\<close>

primrec item_offsets :: "nat \<Rightarrow> bytes list \<Rightarrow> nat list" where
  "item_offsets off [] = [off]"
| "item_offsets off (x # xs) = off # item_offsets (off + length x) xs"

definition items_end :: "nat \<Rightarrow> bytes list \<Rightarrow> nat" where
  "items_end off items = off + length (concat items)"

text \<open>Where the page map goes: right behind the items in the last block, else at the very end.\<close>

definition map_pos :: "nat \<Rightarrow> bool \<Rightarrow> bytes list \<Rightarrow> nat" where
  "map_pos i is_last items =
     (if is_last then alignUp (items_end (blockHeaderSize i) items) 2
      else kMaxBlockData - pageMapSize (length items))"

definition block_header :: "byte \<Rightarrow> hid \<Rightarrow> bytes \<Rightarrow> nat \<Rightarrow> nat \<Rightarrow> (nat \<times> bytes) list" where
  "block_header sig root fill i ibHnpm =
     (if i = 0 then [(0, le_bytes 2 (of_nat ibHnpm :: 16 word)), (2, [kHnSignature]), (3, [sig]),
                     (4, le_bytes 4 root), (8, fill)]
      else if isBitmapBlock i then [(0, le_bytes 2 (of_nat ibHnpm :: 16 word)), (2, replicate 64 0xFF)]
      else [(0, le_bytes 2 (of_nat ibHnpm :: 16 word))])"

text \<open>The \<open>memcpy\<close> of each item, skipped for an empty one.\<close>

definition item_writes :: "nat \<Rightarrow> bytes list \<Rightarrow> (nat \<times> bytes) list" where
  "item_writes off items = filter (\<lambda>(o', x). x \<noteq> []) (zip (item_offsets off items) items)"

text \<open>The page map: item count, count of empty items, the offsets.\<close>

definition map_writes :: "nat \<Rightarrow> nat \<Rightarrow> bytes list \<Rightarrow> (nat \<times> bytes) list" where
  "map_writes ibHnpm off items =
     (ibHnpm, le_bytes 2 (of_nat (length items) :: 16 word)) #
     (ibHnpm + 2, le_bytes 2 (of_nat (length (filter (\<lambda>x. x = []) items)) :: 16 word)) #
     map (\<lambda>(k, o'). (ibHnpm + 4 + 2 * k, le_bytes 2 (of_nat o' :: 16 word))) (enumerate 0 (item_offsets off items))"

definition hn_block :: "byte \<Rightarrow> hid \<Rightarrow> bytes \<Rightarrow> nat \<Rightarrow> bool \<Rightarrow> bytes list \<Rightarrow> bytes" where
  "hn_block sig root fill i is_last items =
     (let header = blockHeaderSize i;
          ibHnpm = map_pos i is_last items;
          block_size = (if is_last then ibHnpm + pageMapSize (length items) else kMaxBlockData)
      in fold (\<lambda>(o', xs). memcpy o' xs)
           (block_header sig root fill i ibHnpm @ item_writes header items @ map_writes ibHnpm header items)
           (replicate block_size 0))"

text \<open>
  The fill levels of \<open>HeapNode::serialize\<close>: a nibble for each of the first eight blocks, the free
  space of block 0, zero for the others that exist and \<open>0xF\<close> for those that do not.
\<close>

definition fill_code :: "nat \<Rightarrow> nat \<Rightarrow> nat \<Rightarrow> byte" where
  "fill_code nblocks free_bytes k =
     (if k < nblocks then (if k = 0 then fillLevelCode free_bytes else 0) else 0xF)"

definition set_fill :: "nat \<Rightarrow> byte \<Rightarrow> bytes \<Rightarrow> bytes" where
  "set_fill k code fill =
     (if k mod 2 = 0 then fill[k div 2 := (fill ! (k div 2) AND 0xF0) OR code]
      else fill[k div 2 := (fill ! (k div 2) AND 0x0F) OR push_bit 4 code])"

definition block_fill :: "nat \<Rightarrow> nat \<Rightarrow> bytes" where
  "block_fill nblocks free_bytes =
     fold (\<lambda>k. set_fill k (fill_code nblocks free_bytes k)) [0..<8] [0xFF, 0xFF, 0xFF, 0xFF]"

definition block_free :: "nat \<Rightarrow> bool \<Rightarrow> bytes list \<Rightarrow> nat" where
  "block_free i is_last items = map_pos i is_last items - items_end (blockHeaderSize i) items"

definition heap_block :: "heap \<Rightarrow> nat \<Rightarrow> bytes" where
  "heap_block h i =
     (let nblocks = length (hblocks h); items = hb_items (hblocks h ! i); is_last = (i + 1 = nblocks)
      in hn_block (client_sig h) (user_root h) (block_fill nblocks (block_free i is_last items)) i is_last items)"

definition serialize :: "heap \<Rightarrow> bytes" where
  "serialize h = concat (map (heap_block h) [0..<length (hblocks h)])"

subsection \<open>A reader\<close>

text \<open>The allocation with a 1-based index in one block, found through the page map.\<close>

definition page_alloc :: "bytes \<Rightarrow> nat \<Rightarrow> bytes option" where
  "page_alloc blk k =
     (let pm = unat (peek16 blk); n = unat (peek16 (drop pm blk)) in
      if length blk < pm + pageMapSize n \<or> k = 0 \<or> n < k then None
      else let a = unat (peek16 (drop (pm + 4 + 2 * (k - 1)) blk));
               b = unat (peek16 (drop (pm + 4 + 2 * k) blk))
           in if a \<le> b \<and> b \<le> pm then Some (take (b - a) (drop a blk)) else None)"

definition heap_read :: "bytes \<Rightarrow> hid \<Rightarrow> bytes option" where
  "heap_read stream h =
     (let blks = chunks kMaxBlockData stream; i = unat (hidBlockIndex h) in
      if hnidIsHid h \<and> i < length blks then page_alloc (blks ! i) (unat (hidAllocIndex h)) else None)"

definition heap_sig :: "bytes \<Rightarrow> (byte \<times> byte) option" where
  "heap_sig stream = (if length stream < 12 then None else Some (stream ! 2, stream ! 3))"

definition heap_root :: "bytes \<Rightarrow> hid" where
  "heap_root stream = peek32 (drop 4 stream)"

subsection \<open>Blocks read back\<close>

lemma length_item_offsets [simp]: "length (item_offsets off items) = Suc (length items)"
  by (induction items arbitrary: off) simp_all

lemma nth_item_offsets: "k \<le> length items \<Longrightarrow> item_offsets off items ! k = items_end off (take k items)"
proof (induction items arbitrary: off k)
  case (Cons x xs)
  then show ?case by (cases k) (simp_all add: items_end_def)
qed (simp add: items_end_def)

lemma items_end_take: "items_end off (take k items) \<le> items_end off items"
  unfolding items_end_def by (metis append_take_drop_id concat_append le_add1 length_append nat_add_left_cancel_le)

lemma item_writes_in: "writes_in off (items_end off items) (item_writes off items)"
proof (induction items arbitrary: off)
  case (Cons x xs)
  have "writes_in (off + length x) (items_end off (x # xs)) (item_writes (off + length x) xs)"
    using Cons.IH [of "off + length x"] by (simp add: items_end_def add.assoc)
  then show ?case
    by (auto simp: item_writes_def items_end_def intro: writes_in_Cons writes_in_widen)
qed (simp add: item_writes_def)

lemma item_in_writes:
  "k < length items \<Longrightarrow> items ! k \<noteq> [] \<Longrightarrow> (items_end off (take k items), items ! k) \<in> set (item_writes off items)"
  by (simp add: item_writes_def in_set_zip, rule exI [of _ k], simp add: nth_item_offsets)

lemma map_writes_in:
  "writes_in ibHnpm (ibHnpm + pageMapSize (length items)) (map_writes ibHnpm off items)"
proof -
  let ?ws = "map (\<lambda>(k, o'). (ibHnpm + 4 + 2 * k, le_bytes 2 (of_nat o' :: 16 word))) (enumerate 0 (item_offsets off items))"
  have "writes_in (ibHnpm + 4) (ibHnpm + pageMapSize (length items)) ?ws"
    by (auto simp: writes_in_def sorted_wrt_iff_nth_less nth_enumerate_eq in_set_enumerate_eq pageMapSize_def)
  then show ?thesis
    unfolding map_writes_def by (intro writes_in_Cons) (auto simp: pageMapSize_def intro: writes_in_widen)
qed

lemma map_in_writes:
  "k \<le> length items \<Longrightarrow>
   (ibHnpm + 4 + 2 * k, le_bytes 2 (of_nat (items_end off (take k items)) :: 16 word)) \<in> set (map_writes ibHnpm off items)"
  unfolding map_writes_def
  by (auto simp: in_set_enumerate_eq image_iff nth_item_offsets Bex_def intro!: exI [of _ k])

lemma block_header_in: "length fill = 4 \<Longrightarrow> writes_in 0 (blockHeaderSize i) (block_header sig root fill i pm)"
  by (auto simp: block_header_def blockHeaderSize_def writes_in_def)

text \<open>The items and the page map fit in a block.\<close>

definition items_fit :: "nat \<Rightarrow> bytes list \<Rightarrow> bool" where
  "items_fit i items \<longleftrightarrow> length items \<le> 2047 \<and>
     items_end (blockHeaderSize i) items + pageMapSize (length items) + 1 \<le> kMaxBlockData"

lemma items_end_ge: "off \<le> items_end off items"
  by (simp add: items_end_def)

lemma map_pos_bounds:
  assumes "items_fit i items"
  shows "items_end (blockHeaderSize i) items \<le> map_pos i is_last items"
    "map_pos i is_last items + pageMapSize (length items) \<le> kMaxBlockData"
  using assms alignUp_less [of 2 "items_end (blockHeaderSize i) items"]
    alignUp_ge [of 2 "items_end (blockHeaderSize i) items"]
  by (auto simp: items_fit_def map_pos_def items_end_def)

definition block_len :: "nat \<Rightarrow> bool \<Rightarrow> bytes list \<Rightarrow> nat" where
  "block_len i is_last items = (if is_last then map_pos i is_last items + pageMapSize (length items) else kMaxBlockData)"

lemma block_len_ge:
  "items_fit i items \<Longrightarrow> map_pos i is_last items + pageMapSize (length items) \<le> block_len i is_last items"
  using map_pos_bounds(2) [of i items is_last] by (cases is_last) (simp_all add: block_len_def)

lemma block_writes:
  assumes "items_fit i items" "length fill = 4"
  shows "ascending_writes (block_len i is_last items)
    (block_header sig root fill i (map_pos i is_last items) @ item_writes (blockHeaderSize i) items @
     map_writes (map_pos i is_last items) (blockHeaderSize i) items)"
proof -
  note b = map_pos_bounds [OF assms(1), of is_last] items_end_ge [of "blockHeaderSize i" items]
  note len = block_len_ge [OF assms(1), of is_last]
  then have m: "writes_in (map_pos i is_last items) (block_len i is_last items)
      (map_writes (map_pos i is_last items) (blockHeaderSize i) items)"
    by (intro writes_in_widen [OF map_writes_in]) simp_all
  have "writes_in (blockHeaderSize i) (map_pos i is_last items) (item_writes (blockHeaderSize i) items)"
    by (rule writes_in_widen [OF item_writes_in]) (use b in simp_all)
  from writes_in_append [OF this m] b len have "writes_in (blockHeaderSize i) (block_len i is_last items)
      (item_writes (blockHeaderSize i) items @ map_writes (map_pos i is_last items) (blockHeaderSize i) items)"
    by simp
  from writes_in_append [OF block_header_in [OF assms(2)] this] b len show ?thesis
    by (intro writes_in_ascending) simp
qed

lemma hn_block_eq:
  "hn_block sig root fill i is_last items = fold (\<lambda>(o', xs). memcpy o' xs)
     (block_header sig root fill i (map_pos i is_last items) @ item_writes (blockHeaderSize i) items @
      map_writes (map_pos i is_last items) (blockHeaderSize i) items) (replicate (block_len i is_last items) 0)"
  by (simp add: hn_block_def block_len_def Let_def)

lemma length_hn_block:
  assumes "items_fit i items" "length fill = 4"
  shows "length (hn_block sig root fill i is_last items) = block_len i is_last items"
  unfolding hn_block_eq
  by (subst length_writes) (use block_writes [OF assms] in \<open>auto simp: ascending_writes_def\<close>)

lemma hn_block_peeks:
  fixes is_last :: bool and sig :: byte and root :: hid
  assumes fit: "items_fit i items" "length fill = 4"
  defines "pm \<equiv> map_pos i is_last items"
  defines "blk \<equiv> hn_block sig root fill i is_last items"
  shows "unat (peek16 blk) = pm"
    and "unat (peek16 (drop pm blk)) = length items"
    and "k \<le> length items \<Longrightarrow> unat (peek16 (drop (pm + 4 + 2 * k) blk)) = items_end (blockHeaderSize i) (take k items)"
    and "k < length items \<Longrightarrow> take (length (items ! k)) (drop (items_end (blockHeaderSize i) (take k items)) blk) = items ! k"
    and "i = 0 \<Longrightarrow> blk ! 2 = kHnSignature \<and> blk ! 3 = sig \<and> peek32 (drop 4 blk) = root"
proof -
  have asc: "ascending_writes (length (replicate (block_len i is_last items) (0 :: byte)))
    (block_header sig root fill i pm @ item_writes (blockHeaderSize i) items @ map_writes pm (blockHeaderSize i) items)"
    using block_writes [OF fit] by (simp add: pm_def)
  note b = map_pos_bounds [OF fit(1), of is_last, folded pm_def]
  note fields = writes_peek [OF asc, folded pm_def, folded hn_block_eq [of sig root fill i is_last items, folded pm_def], folded blk_def]
  note reads = writes_read [OF asc, folded hn_block_eq [of sig root fill i is_last items, folded pm_def], folded blk_def]
  note nths = writes_nth [OF asc, folded hn_block_eq [of sig root fill i is_last items, folded pm_def], folded blk_def]
  have small: "unat (of_nat n :: 16 word) = n" if "n \<le> 8176" for n
    using that by (intro unat_small) simp
  have "(0, le_bytes 2 (of_nat pm :: 16 word)) \<in> set (block_header sig root fill i pm)"
    by (simp add: block_header_def)
  then show "unat (peek16 blk) = pm" using fields(1) [of 0 "of_nat pm"] small [of pm] b by simp
  show "unat (peek16 (drop pm blk)) = length items"
    using fields(1) [of pm "of_nat (length items)"] small [of "length items"] fit
    by (simp add: map_writes_def items_fit_def)
  show "unat (peek16 (drop (pm + 4 + 2 * k) blk)) = items_end (blockHeaderSize i) (take k items)" if k: "k \<le> length items"
  proof -
    have "peek16 (drop (pm + 4 + 2 * k) blk) = of_nat (items_end (blockHeaderSize i) (take k items))"
      by (rule fields(1)) (use map_in_writes [OF k, of pm "blockHeaderSize i"] in simp)
    then show ?thesis using small items_end_take [of "blockHeaderSize i" k items] b by simp
  qed
  show "take (length (items ! k)) (drop (items_end (blockHeaderSize i) (take k items)) blk) = items ! k"
    if "k < length items"
    using reads item_in_writes [OF that, of "blockHeaderSize i"] by (cases "items ! k = []") auto
  show "blk ! 2 = kHnSignature \<and> blk ! 3 = sig \<and> peek32 (drop 4 blk) = root" if "i = 0"
    using nths [of 2 kHnSignature] nths [of 3 sig] fields(2) [of 4 root] that by (simp add: block_header_def)
qed

lemma page_alloc_block:
  assumes fit: "items_fit i items" "length fill = 4" and k: "0 < k" "k \<le> length items"
  shows "page_alloc (hn_block sig root fill i is_last items) k = Some (items ! (k - 1))"
proof -
  let ?blk = "hn_block sig root fill i is_last items" and ?h = "blockHeaderSize i"
  note p = hn_block_peeks [OF fit, where is_last = is_last and sig = sig and root = root]
  have len: "map_pos i is_last items + pageMapSize (length items) \<le> length ?blk"
    using block_len_ge [OF fit(1), of is_last] by (simp add: length_hn_block [OF fit])
  have "take k items = take (k - 1) items @ [items ! (k - 1)]"
    using k by (metis One_nat_def Suc_pred Suc_le_lessD take_Suc_conv_app_nth)
  then have step: "items_end ?h (take k items) = items_end ?h (take (k - 1) items) + length (items ! (k - 1))"
    by (simp add: items_end_def)
  have "items_end ?h (take k items) \<le> map_pos i is_last items"
    using items_end_take [of ?h k items] map_pos_bounds(1) [OF fit(1), of is_last] by simp
  then show ?thesis
    using p(1,2) p(3) [of "k - 1"] p(3) [of k] p(4) [of "k - 1"] k len step
    by (simp add: page_alloc_def Let_def)
qed

subsection \<open>The heap as a store\<close>

definition block_ok :: "nat \<Rightarrow> hblock \<Rightarrow> bool" where
  "block_ok i b \<longleftrightarrow> items_fit i (hb_items b) \<and> hb_used b = length (concat (hb_items b))"

definition heap_ok :: "heap \<Rightarrow> bool" where
  "heap_ok h \<longleftrightarrow> hblocks h \<noteq> [] \<and> length (hblocks h) \<le> 2 ^ 16 \<and>
     (\<forall>i < length (hblocks h). block_ok i (hblocks h ! i))"

text \<open>The blob behind an HID, in memory.\<close>

definition heap_look :: "heap \<Rightarrow> hid \<Rightarrow> bytes option" where
  "heap_look h k =
     (let i = unat (hidBlockIndex k); a = unat (hidAllocIndex k) in
      if hnidIsHid k \<and> i < length (hblocks h) \<and> 0 < a \<and> a \<le> length (hb_items (hblocks h ! i))
      then Some (hb_items (hblocks h ! i) ! (a - 1)) else None)"

lemma empty_block_ok: "block_ok i empty_block"
  using blockHeaderSize_bounds(2) [of i]
  by (simp add: block_ok_def empty_block_def items_fit_def items_end_def pageMapSize_def)

lemma empty_items [simp]: "hb_items empty_block = []"
  by (simp add: empty_block_def)

lemma HeapNode_new_ok: "heap_ok (HeapNode_new sig)"
  by (simp add: heap_ok_def HeapNode_new_def empty_block_ok)

lemma heap_look_new: "heap_look (HeapNode_new sig) k = None"
  by (auto simp: heap_look_def HeapNode_new_def empty_block_def Let_def)

lemma setUserRoot_ok [simp]: "heap_ok (setUserRoot r h) = heap_ok h" "heap_look (setUserRoot r h) = heap_look h"
  by (simp_all add: heap_ok_def setUserRoot_def heap_look_def fun_eq_iff Let_def)

text \<open>Putting an item where it fits.\<close>

definition put_item :: "nat \<Rightarrow> bytes \<Rightarrow> heap \<Rightarrow> heap" where
  "put_item i d h = h\<lparr>hblocks := (hblocks h)[i := add_item d (hblocks h ! i)]\<rparr>"

definition grow :: "heap \<Rightarrow> heap" where
  "grow h = h\<lparr>hblocks := hblocks h @ [empty_block]\<rparr>"

definition item_hid :: "nat \<Rightarrow> hblock \<Rightarrow> hid" where
  "item_hid i b = makeHid (of_nat i) (of_nat (length (hb_items b)))"

definition has_room :: "heap \<Rightarrow> nat \<Rightarrow> bool" where
  "has_room h len \<longleftrightarrow> fits h (length (hblocks h) - 1) len \<and> length (hb_items (last (hblocks h))) < 2047"

lemma alloc_run:
  assumes "hblocks h \<noteq> []"
  shows "alloc d h =
    (if maxAllocSize < length d then Some (Inl (too_large (length d)), h)
     else let h1 = (if has_room h (length d) then h else grow h); i = length (hblocks h1) - 1
       in if \<not> has_room h (length d) \<and> 0xFFFF < i then Some (Inl (PstError ''heap grew beyond 65535 blocks''), h1)
          else Some (Inr (item_hid i (add_item d (hblocks h1 ! i))), put_item i d h1))"
  using assms
  by (simp add: alloc_def prog_simps bindM_run Let_def has_room_def grow_def put_item_def item_hid_def last_conv_nth
      nth_append add_item_def not_less)

lemma grow_ok:
  assumes "heap_ok h" "length (hblocks h) < 2 ^ 16"
  shows "heap_ok (grow h) \<and> heap_look (grow h) = heap_look h"
  using assms
  by (auto simp: heap_ok_def grow_def heap_look_def fun_eq_iff Let_def nth_append empty_block_ok empty_items less_Suc_eq)

lemma put_item_ok:
  assumes ok: "heap_ok h" and i: "i = length (hblocks h) - 1" and room: "has_room h (length d)"
  shows "heap_ok (put_item i d h)"
    and "heap_look h k = Some x \<Longrightarrow> heap_look (put_item i d h) k = Some x"
    and "heap_look h (item_hid i (add_item d (hblocks h ! i))) = None"
    and "heap_look (put_item i d h) (item_hid i (add_item d (hblocks h ! i))) = Some d"
proof -
  let ?b = "hblocks h ! i"
  have i': "i < length (hblocks h)" "i < 2 ^ 16" using ok i by (cases "hblocks h"; simp add: heap_ok_def)+
  have b: "block_ok i ?b" using ok i'(1) by (simp add: heap_ok_def)
  have room': "block_fits i ?b (length d)" "length (hb_items ?b) < 2047"
    using room ok i by (simp_all add: has_room_def fits_def heap_ok_def last_conv_nth)
  have nb: "block_ok i (add_item d ?b)"
    using b room' by (simp add: block_ok_def add_item_def items_fit_def items_end_def block_fits_def)
  show "heap_ok (put_item i d h)"
    using ok nb i'(1) by (auto simp: heap_ok_def put_item_def nth_list_update)
  show "heap_look (put_item i d h) k = Some x" if "heap_look h k = Some x"
    using that i'(1)
    by (auto simp: heap_look_def put_item_def Let_def nth_list_update add_item_def nth_append split: if_splits)
  have u: "unat (of_nat i :: 16 word) = i" "unat (of_nat (Suc (length (hb_items ?b))) :: 16 word) = Suc (length (hb_items ?b))"
    using i' room'(2) by (intro unat_small; simp)+
  have hid: "hidBlockIndex (item_hid i (add_item d ?b)) = of_nat i"
      "hidAllocIndex (item_hid i (add_item d ?b)) = of_nat (Suc (length (hb_items ?b)))"
      "hnidIsHid (item_hid i (add_item d ?b))"
    using hid_fields [of "of_nat (Suc (length (hb_items ?b)))" "of_nat i"] u room'(2)
    by (simp_all add: item_hid_def add_item_def del: of_nat_Suc)
  show "heap_look h (item_hid i (add_item d ?b)) = None"
    using hid u by (simp add: heap_look_def Let_def del: of_nat_Suc)
  show "heap_look (put_item i d h) (item_hid i (add_item d ?b)) = Some d"
    using hid u i'(1) by (simp add: heap_look_def Let_def put_item_def add_item_def del: of_nat_Suc)
qed

lemma grow_room:
  assumes "hblocks h \<noteq> []" "n \<le> maxAllocSize"
  shows "has_room (grow h) n"
  using blockHeaderSize_bounds(2) [of "length (hblocks h)"] assms
  by (simp add: has_room_def grow_def fits_def block_fits_def empty_block_def pageMapSize_def nth_append)

text \<open>What \<open>alloc\<close> does, and when it refuses.\<close>

lemma alloc_law:
  assumes ok: "heap_ok h" and run: "alloc d h = Some (Inr k, h')"
  shows "heap_ok h' \<and> heap_look h k = None \<and> heap_look h' k = Some d \<and>
    (\<forall>j x. heap_look h j = Some x \<longrightarrow> heap_look h' j = Some x)"
proof -
  have ne: "hblocks h \<noteq> []" using ok by (simp add: heap_ok_def)
  define h1 where "h1 = (if has_room h (length d) then h else grow h)"
  have len: "length d \<le> maxAllocSize" and k: "k = item_hid (length (hblocks h1) - 1) (add_item d (hblocks h1 ! (length (hblocks h1) - 1)))"
    and h': "h' = put_item (length (hblocks h1) - 1) d h1"
    and small: "has_room h (length d) \<or> length (hblocks h) < 2 ^ 16"
    using run unfolding alloc_run [OF ne] h1_def by (auto simp: Let_def grow_def split: if_splits)
  have 1: "heap_ok h1" "heap_look h1 = heap_look h" "has_room h1 (length d)"
    using ok grow_ok [OF ok] grow_room [OF ne len] small by (auto simp: h1_def)
  show ?thesis using put_item_ok [OF 1(1) refl 1(3)] 1(2) by (simp add: k h')
qed

lemma alloc_fails:
  assumes "heap_ok h"
  shows "(\<exists>e h'. alloc d h = Some (Inl e, h')) \<longleftrightarrow>
    maxAllocSize < length d \<or> (length (hblocks h) = 2 ^ 16 \<and> \<not> has_room h (length d))"
  using assms by (auto simp: alloc_run heap_ok_def Let_def grow_def)

lemma alloc_halts: "heap_ok h \<Longrightarrow> alloc d h \<noteq> None"
  by (simp add: alloc_run heap_ok_def Let_def)

lemma alloc_inv: "heap_ok h \<Longrightarrow> alloc d h = Some (Inr k, h') \<Longrightarrow> heap_ok h'"
  and alloc_keeps: "heap_ok h \<Longrightarrow> alloc d h = Some (Inr k, h') \<Longrightarrow> heap_look h j = Some x \<Longrightarrow> heap_look h' j = Some x"
  and alloc_look: "heap_ok h \<Longrightarrow> alloc d h = Some (Inr k, h') \<Longrightarrow> heap_look h k = None \<and> heap_look h' k = Some d"
  using alloc_law by blast+

interpretation hn: store alloc heap_look heap_ok "\<lambda>d. d"
  by unfold_locales
     (auto simp del: not_None_eq simp: alloc_halts dest: alloc_inv alloc_keeps alloc_look)

subsection \<open>The serialized heap\<close>

lemma length_set_fill [simp]: "length (set_fill k c f) = length f"
  by (simp add: set_fill_def)

lemma length_block_fill [simp]: "length (block_fill n f) = 4"
proof -
  have "length (fold (\<lambda>k. set_fill k (c k)) ks f) = length f" for c ks f
    by (induction ks arbitrary: f) simp_all
  then show ?thesis by (simp add: block_fill_def)
qed

lemma heap_block_fit: "heap_ok h \<Longrightarrow> i < length (hblocks h) \<Longrightarrow> items_fit i (hb_items (hblocks h ! i))"
  by (simp add: heap_ok_def block_ok_def)

text \<open>
  The blocks of a heap with any fill levels in the header: \<open>serialize\<close> writes its own, the
  streaming heap others. The fill levels are advisory, and what a reader finds does not depend on them.
\<close>

definition heap_piece :: "bytes \<Rightarrow> heap \<Rightarrow> nat \<Rightarrow> bytes" where
  "heap_piece fill h i = hn_block (client_sig h) (user_root h) fill i (i + 1 = length (hblocks h)) (hb_items (hblocks h ! i))"

definition heap_stream :: "bytes \<Rightarrow> heap \<Rightarrow> bytes" where
  "heap_stream fill h = concat (map (heap_piece fill h) [0..<length (hblocks h)])"

lemma hn_block_fill: "0 < i \<Longrightarrow> hn_block sig root fill i l items = hn_block sig' root' fill' i l items"
  unfolding hn_block_def by (simp add: block_header_def)

definition own_fill :: "heap \<Rightarrow> bytes" where
  "own_fill h = block_fill (length (hblocks h)) (block_free 0 (1 = length (hblocks h)) (hb_items (hblocks h ! 0)))"

lemma length_own_fill [simp]: "length (own_fill h) = 4"
  by (simp add: own_fill_def)

lemma serialize_stream: "serialize h = heap_stream (own_fill h) h"
proof -
  have "heap_block h i = heap_piece (own_fill h) h i" for i
    using hn_block_fill [of i] by (cases "i = 0") (simp_all add: heap_block_def heap_piece_def own_fill_def Let_def)
  then have "heap_block h = heap_piece (own_fill h) h" by (rule ext)
  then show ?thesis by (simp add: serialize_def heap_stream_def)
qed

lemma length_heap_piece:
  assumes "heap_ok h" "i < length (hblocks h)" "length fill = 4"
  shows "length (heap_piece fill h i) = block_len i (i + 1 = length (hblocks h)) (hb_items (hblocks h ! i))"
  using heap_block_fit [OF assms(1,2)] assms(3) by (simp add: heap_piece_def length_hn_block)

lemma chunks_stream:
  assumes ok: "heap_ok h" and fill: "length fill = 4"
  shows "chunks kMaxBlockData (heap_stream fill h) = map (heap_piece fill h) [0..<length (hblocks h)]"
  unfolding heap_stream_def
proof (rule chunks_concat_full)
  let ?n = "length (hblocks h)"
  have n: "0 < ?n" using ok by (simp add: heap_ok_def)
  then have upt: "[0..<?n] = [0..<?n - 1] @ [?n - 1]" by (cases ?n) simp_all
  show "length x = kMaxBlockData" if "x \<in> set (butlast (map (heap_piece fill h) [0..<?n]))" for x
    using that by (auto simp: upt length_heap_piece [OF ok _ fill] block_len_def map_butlast [symmetric])
  have "last (map (heap_piece fill h) [0..<?n]) = heap_piece fill h (?n - 1)" by (simp add: upt)
  moreover have "length (heap_piece fill h (?n - 1)) = map_pos (?n - 1) True (hb_items (hblocks h ! (?n - 1))) +
      pageMapSize (length (hb_items (hblocks h ! (?n - 1))))"
    using n by (simp add: length_heap_piece [OF ok _ fill] block_len_def)
  moreover have "\<dots> \<le> kMaxBlockData" "0 < \<dots>"
    using map_pos_bounds(2) [OF heap_block_fit [OF ok]] n by (simp_all add: pageMapSize_def)
  ultimately show "last (map (heap_piece fill h) [0..<?n]) \<noteq> [] \<and> length (last (map (heap_piece fill h) [0..<?n])) \<le> kMaxBlockData"
    by (metis length_greater_0_conv)
qed simp

lemma page_alloc_items:
  assumes "items_fit i items" "length fill = 4"
  shows "page_alloc (hn_block sig root fill i l items) k = (if 0 < k \<and> k \<le> length items then Some (items ! (k - 1)) else None)"
proof (cases "0 < k \<and> k \<le> length items")
  case False
  then show ?thesis
    using hn_block_peeks(1,2) [OF assms, where sig = sig and root = root and is_last = l] by (auto simp: page_alloc_def Let_def)
qed (simp add: page_alloc_block [OF assms])

lemma heap_read_stream:
  assumes "heap_ok h" "length fill = 4"
  shows "heap_read (heap_stream fill h) k = heap_look h k"
proof -
  have "page_alloc (heap_piece fill h i) a =
      (if 0 < a \<and> a \<le> length (hb_items (hblocks h ! i)) then Some (hb_items (hblocks h ! i) ! (a - 1)) else None)"
    if "i < length (hblocks h)" for i a
    using page_alloc_items [OF heap_block_fit [OF assms(1) that] assms(2)] by (simp add: heap_piece_def)
  then show ?thesis using assms by (auto simp: heap_read_def Let_def chunks_stream heap_look_def)
qed

lemma length_heap_stream:
  assumes "heap_ok h" "length fill = 4"
  shows "length (heap_stream fill h) = kMaxBlockData * (length (hblocks h) - 1) + length (heap_piece fill h (length (hblocks h) - 1))"
proof -
  let ?n = "length (hblocks h)"
  have "[0..<?n] = [0..<?n - 1] @ [?n - 1]" using assms by (cases ?n) (simp_all add: heap_ok_def)
  moreover have "map (\<lambda>i. length (heap_piece fill h i)) [0..<?n - 1] = replicate (?n - 1) kMaxBlockData"
    by (rule nth_equalityI) (use assms in \<open>auto simp: length_heap_piece block_len_def\<close>)
  ultimately show ?thesis by (simp add: heap_stream_def length_concat comp_def sum_list_replicate)
qed

lemma heap_stream_small:
  assumes "heap_ok h" "length fill = 4"
  shows "length (heap_stream fill h) < 2 ^ 64"
proof -
  have "length (hblocks h) - 1 < length (hblocks h)" using assms by (simp add: heap_ok_def)
  then have "length (heap_piece fill h (length (hblocks h) - 1)) \<le> kMaxBlockData"
    using map_pos_bounds(2) [OF heap_block_fit [OF assms(1)]]
    by (simp add: length_heap_piece [OF assms(1) _ assms(2)] block_len_def)
  moreover have "length (hblocks h) \<le> 2 ^ 16" using assms by (simp add: heap_ok_def)
  ultimately show ?thesis by (simp add: length_heap_stream [OF assms])
qed

lemma stream_header:
  assumes ok: "heap_ok h" and fill: "length fill = 4"
  shows "heap_root (heap_stream fill h) = user_root h \<and> heap_sig (heap_stream fill h) = Some (kHnSignature, client_sig h)"
proof -
  let ?b = "heap_piece fill h 0"
  have n: "0 < length (hblocks h)" using ok by (simp add: heap_ok_def)
  note fit = heap_block_fit [OF ok n]
  have hdr: "?b ! 2 = kHnSignature \<and> ?b ! 3 = client_sig h \<and> peek32 (drop 4 ?b) = user_root h"
    unfolding heap_piece_def by (rule hn_block_peeks(5) [OF fit fill]) simp
  have len: "12 \<le> length ?b"
    using length_heap_piece [OF ok n fill] block_len_ge [OF fit] map_pos_bounds(1) [OF fit] items_end_ge [of 12 "hb_items (hblocks h ! 0)"]
    by (metis (no_types, lifting) add_leD1 blockHeaderSize_bounds(3) le_trans)
  obtain rest where s: "heap_stream fill h = ?b @ rest"
    using n by (cases "[0..<length (hblocks h)]") (auto simp: heap_stream_def upt_eq_Cons_conv)
  show ?thesis using hdr len by (simp add: heap_root_def heap_sig_def s nth_append peek32_def)
qed

lemma heap_read_serialize: "heap_ok h \<Longrightarrow> heap_look h k = Some x \<Longrightarrow> heap_read (serialize h) k = Some x"
  by (simp add: serialize_stream heap_read_stream)

lemma serialize_header:
  "heap_ok h \<Longrightarrow> heap_root (serialize h) = user_root h \<and> heap_sig (serialize h) = Some (kHnSignature, client_sig h)"
  by (simp add: serialize_stream stream_header)

lemma serialize_small: "heap_ok h \<Longrightarrow> length (serialize h) < 2 ^ 64"
  unfolding serialize_stream by (rule heap_stream_small) simp_all

subsection \<open>Properties\<close>

lemma alloc_roomy:
  assumes "heap_ok h" "length (hblocks h) + Suc n \<le> 2 ^ 16" "length d \<le> maxAllocSize"
  shows "\<exists>k h'. alloc d h = Some (Inr k, h') \<and> heap_ok h' \<and> length (hblocks h') + n \<le> 2 ^ 16"
proof -
  have ne: "hblocks h \<noteq> []" using assms(1) by (simp add: heap_ok_def)
  have "\<exists>k h'. alloc d h = Some (Inr k, h') \<and> length (hblocks h') \<le> Suc (length (hblocks h))"
    using assms(2,3) by (cases "has_room h (length d)") (simp_all add: alloc_run [OF ne] Let_def grow_def put_item_def)
  then obtain k h' where 1: "alloc d h = Some (Inr k, h')" "length (hblocks h') \<le> Suc (length (hblocks h))"
    by blast
  then show ?thesis using alloc_inv [OF assms(1)] assms(2) by auto
qed

text \<open>
  C15: Every blob put into a heap reads back from the serialized stream, under the HID \<open>alloc\<close>
  returned for it and no other; the header names the client signature and the user root set last.
\<close>

theorem heap_roundtrip:
  assumes "mapM alloc xs (HeapNode_new sig) = Some (Inr ks, h)"
  shows "map (heap_read (serialize (setUserRoot r h))) ks = map Some xs \<and> distinct ks \<and>
    heap_root (serialize (setUserRoot r h)) = r \<and>
    heap_sig (serialize (setUserRoot r h)) = Some (kHnSignature, sig)"
proof -
  have sig: "client_sig h = sig"
  proof -
    have "keeps (\<lambda>h. hblocks h \<noteq> [] \<and> client_sig h = sig) (alloc d)" for d
      by (rule hoareI) (auto simp: alloc_run Let_def grow_def put_item_def split: if_splits)
    from keepsD [OF keeps_mapM [OF this] _ assms] show ?thesis by (simp add: HeapNode_new_def)
  qed
  note run = hn.run_put [OF HeapNode_new_ok assms]
  then have ok: "heap_ok (setUserRoot r h)" by (simp add: hn.after_def)
  have "heap_read (serialize (setUserRoot r h)) k = heap_look h k" if "k \<in> set ks" for k
  proof -
    have "heap_look h k \<in> set (map (heap_look h) ks)" using that by simp
    then obtain x where "heap_look h k = Some x" using run by auto
    then show ?thesis using heap_read_serialize [OF ok] by simp
  qed
  then have "map (heap_read (serialize (setUserRoot r h))) ks = map (heap_look h) ks" by simp
  then show ?thesis using run serialize_header [OF ok] sig by (simp add: setUserRoot_def)
qed

text \<open>
  The heap takes any blobs of up to \<open>maxAllocSize\<close> bytes as long as it has blocks left: a
  bitmap block has room for the largest of them, and no allocation opens more than one block.
\<close>

theorem alloc_capacity:
  assumes "heap_ok h" and "length (hblocks h) + length xs \<le> 2 ^ 16" and "\<forall>x \<in> set xs. length x \<le> maxAllocSize"
  shows "\<exists>ks h'. mapM alloc xs h = Some (Inr ks, h') \<and> heap_ok h'"
  using mapM_budget [where P = "\<lambda>n h. heap_ok h \<and> length (hblocks h) + n \<le> 2 ^ 16" and k = 0 and xs = xs and f = alloc and s = h]
    alloc_roomy assms by auto

lemma alloc_capacity_witness:
  "heap_ok (HeapNode_new kHnSigPC) \<and> (\<exists>ks h'. mapM alloc [[1, 2], [], [3]] (HeapNode_new kHnSigPC) = Some (Inr ks, h') \<and> heap_ok h')"
  by (rule conjI [OF HeapNode_new_ok alloc_capacity [OF HeapNode_new_ok]]) (simp_all add: HeapNode_new_def)

lemma heap_roundtrip_witness:
  "\<exists>ks h. mapM alloc [[1, 2], [], [3]] (HeapNode_new kHnSigPC) = Some (Inr ks, h) \<and> distinct ks \<and>
    map (heap_read (serialize (setUserRoot 0x20 h))) ks = [Some [1, 2], Some [], Some [3]]"
proof -
  obtain ks h where run: "mapM alloc [[1, 2], [], [3]] (HeapNode_new kHnSigPC) = Some (Inr ks, h)"
    by (simp add: alloc_run HeapNode_new_def prog_simps bindM_run Let_def has_room_def fits_def block_fits_def
        pageMapSize_def blockHeaderSize_def empty_block_def put_item_def add_item_def)
  from heap_roundtrip [OF run, of "0x20"] run show ?thesis by auto
qed

text \<open>
  \<open>patch\<close> rewrites one allocation in place. With content of the same size every other
  allocation keeps its content and its HID; an unknown HID or another size is refused and changes
  nothing.
\<close>

theorem patch_updates:
  assumes "heap_ok h" and "hnidIsHid k"
  shows "case heap_look h k of
      None \<Rightarrow> patch k y h = Some (Inl (PstError ''patch of an unknown HID''), h)
    | Some x \<Rightarrow>
        if length y \<noteq> length x then patch k y h = Some (Inl (PstError ''patch would change an allocation's size''), h)
        else \<exists>h'. patch k y h = Some (Inr (), h') \<and> heap_ok h' \<and> heap_look h' = (heap_look h)(k \<mapsto> y)"
proof (cases "heap_look h k")
  case None
  then show ?thesis
    using assms(2) by (auto simp: patch_def heap_look_def Let_def prog_simps bindM_run split: if_splits)
next
  case (Some x)
  let ?i = "unat (hidBlockIndex k)" and ?a = "unat (hidAllocIndex k)"
  let ?b = "hblocks h ! ?i"
  have k: "?i < length (hblocks h)" "0 < ?a" "?a \<le> length (hb_items ?b)" "x = hb_items ?b ! (?a - 1)"
    using Some by (auto simp: heap_look_def Let_def split: if_splits)
  show ?thesis
  proof (cases "length y = length x")
    case False
    then show ?thesis using Some k by (simp add: patch_def Let_def prog_simps bindM_run not_le)
  next
    case True
    define h' where "h' = h\<lparr>hblocks := (hblocks h)[?i := ?b\<lparr>hb_items := (hb_items ?b)[?a - 1 := y]\<rparr>]\<rparr>"
    have run: "patch k y h = Some (Inr (), h')"
      using True k by (simp add: patch_def Let_def prog_simps bindM_run not_le not_less h'_def)
    have len: "length (concat ((hb_items ?b)[?a - 1 := y])) = length (concat (hb_items ?b))"
    proof -
      have "map length ((hb_items ?b)[?a - 1 := y]) = map length (hb_items ?b)"
        using True k by (simp add: map_update list_update_same_conv)
      then show ?thesis by (simp add: length_concat)
    qed
    have "block_ok ?i (?b\<lparr>hb_items := (hb_items ?b)[?a - 1 := y]\<rparr>)"
      using assms(1) k len by (simp add: heap_ok_def block_ok_def items_fit_def items_end_def)
    then have ok: "heap_ok h'" using assms(1) k by (auto simp: heap_ok_def h'_def nth_list_update)
    have "heap_look h' j = ((heap_look h)(k \<mapsto> y)) j" for j
    proof (cases "j = k")
      case True
      then show ?thesis using k assms(2) by (simp add: heap_look_def Let_def h'_def)
    next
      case False
      then have "\<not> (hnidIsHid j \<and> unat (hidBlockIndex j) = ?i \<and> unat (hidAllocIndex j) = ?a)"
        using hid_inject [of j k] assms(2) by (auto simp: word_unat_eq_iff)
      then show ?thesis
        using k False by (auto simp: heap_look_def Let_def h'_def nth_list_update)
    qed
    then have "heap_look h' = (heap_look h)(k \<mapsto> y)" by (rule ext)
    then show ?thesis using Some True run ok by simp
  qed
qed

lemma patch_updates_witness:
  "\<exists>k h h'. heap_look h k = Some [0, 0] \<and> patch k [7, 8] h = Some (Inr (), h') \<and> heap_look h' k = Some [7, 8]"
proof -
  obtain k h where run: "alloc [0, 0] (HeapNode_new kHnSigPC) = Some (Inr k, h)"
    by (simp add: alloc_run HeapNode_new_def Let_def has_room_def fits_def block_fits_def
        pageMapSize_def blockHeaderSize_def empty_block_def)
  note law = alloc_law [OF HeapNode_new_ok run]
  then have "hnidIsHid k" by (auto simp: heap_look_def Let_def split: if_splits)
  from patch_updates [OF _ this, of h "[7, 8]"] law
  obtain h' where "patch k [7, 8] h = Some (Inr (), h')" "heap_look h' = (heap_look h)(k \<mapsto> [7, 8])" by auto
  with law show ?thesis by (intro exI [of _ k] exI [of _ h] exI [of _ h']) simp
qed

end
