(* ===== verification/Bth.thy ===== *)
theory Bth
  imports Heap_Node
begin

section \<open>The B-tree on a heap (src/pst/heap.h, buildBthInto)\<close>

text \<open>
  \<open>buildBthInto\<close> is a template over the heap: it only calls \<open>alloc\<close>. The model takes \<open>alloc\<close> as
  an argument, and what it relies on is the locale \<open>heap_store\<close>; the in-memory heap is
  interpreted here, and the streaming heap follows by simulation (\<open>buildBthInto_simulates\<close>).

  \<open>bth_find\<close> is a reader's search and \<open>bth_list\<close> a reader's enumeration of the tree below a
  header. The property: whatever the number of records, the enumeration returns the records in key
  order and the search finds exactly the records given.
\<close>

subsection \<open>Building\<close>

record bth_record =
  bth_key :: bytes
  bth_value :: bytes

text \<open>An entry of the level being built: the first key below it, and its page.\<close>

record bth_level =
  bl_key :: bytes
  bl_hid :: hid

text \<open>The comparison of \<open>std::sort\<close>: keys as little-endian numbers.\<close>

definition key_value :: "bytes \<Rightarrow> 64 word" where
  "key_value k = le_value k"

definition bth_per_leaf :: "byte \<Rightarrow> byte \<Rightarrow> nat" where
  "bth_per_leaf cb_key cb_ent = max 1 (maxAllocSize div (unat cb_key + unat cb_ent))"

definition bth_per_inter :: "byte \<Rightarrow> nat" where
  "bth_per_inter cb_key = max 1 (maxAllocSize div (unat cb_key + 4))"

definition leaf_page :: "byte \<Rightarrow> byte \<Rightarrow> bth_record list \<Rightarrow> bytes" where
  "leaf_page cb_key cb_ent rs =
     fold (\<lambda>r page. page @ take (unat cb_key) (bth_key r) @ take (unat cb_ent) (bth_value r)) rs []"

definition inter_page :: "byte \<Rightarrow> bth_level list \<Rightarrow> bytes" where
  "inter_page cb_key ls = fold (\<lambda>l page. put32 (page @ take (unat cb_key) (bl_key l)) (bl_hid l)) ls []"

definition bth_leaf :: "(bytes \<Rightarrow> ('h, hid) prog) \<Rightarrow> byte \<Rightarrow> byte \<Rightarrow> bth_record list \<Rightarrow> ('h, bth_level) prog" where
  "bth_leaf galloc cb_key cb_ent rs =
     bindM (galloc (leaf_page cb_key cb_ent rs)) (\<lambda>h. ret \<lparr>bl_key = bth_key (hd rs), bl_hid = h\<rparr>)"

definition bth_inter :: "(bytes \<Rightarrow> ('h, hid) prog) \<Rightarrow> byte \<Rightarrow> bth_level list \<Rightarrow> ('h, bth_level) prog" where
  "bth_inter galloc cb_key ls =
     bindM (galloc (inter_page cb_key ls)) (\<lambda>h. ret \<lparr>bl_key = bl_key (hd ls), bl_hid = h\<rparr>)"

text \<open>The loop over the index levels; \<open>levels\<close> counts them.\<close>

function bth_levels :: "(bytes \<Rightarrow> ('h, hid) prog) \<Rightarrow> byte \<Rightarrow> nat \<Rightarrow> bth_level list \<Rightarrow> ('h, nat \<times> bth_level) prog" where
  "bth_levels galloc cb_key levels level =
     (if length level > 1 then
        bindM (mapM (bth_inter galloc cb_key) (chunks (bth_per_inter cb_key) level)) (\<lambda>next.
          if levels + 1 > 8 then throw (PstError ''BTH grew beyond 8 index levels'')
          else bth_levels galloc cb_key (levels + 1) next)
      else ret (levels, hd level))"
  by pat_completeness auto
termination
  by (relation "measure (\<lambda>(galloc, cb_key, levels, level). 9 - levels)") auto

declare bth_levels.simps [simp del]

definition bth_header :: "byte \<Rightarrow> byte \<Rightarrow> nat \<Rightarrow> hid \<Rightarrow> bytes" where
  "bth_header cb_key cb_ent levels root =
     put32 (put8 (put8 (put8 (put8 [] kHnSigBTH) cb_key) cb_ent) (of_nat levels)) root"

definition buildBthInto :: "(bytes \<Rightarrow> ('h, hid) prog) \<Rightarrow> byte \<Rightarrow> byte \<Rightarrow> bth_record list \<Rightarrow> ('h, hid) prog" where
  "buildBthInto galloc cb_key cb_ent unsorted =
     (let records = sort_key (\<lambda>r. key_value (bth_key r)) unsorted in
      if records = [] then galloc (bth_header cb_key cb_ent 0 0)
      else bindM (mapM (bth_leaf galloc cb_key cb_ent) (chunks (bth_per_leaf cb_key cb_ent) records)) (\<lambda>level.
           bindM (bth_levels galloc cb_key 0 level) (\<lambda>(levels, root).
           galloc (bth_header cb_key cb_ent levels (bl_hid root)))))"

definition buildBth :: "byte \<Rightarrow> byte \<Rightarrow> bth_record list \<Rightarrow> (heap, hid) prog" where
  "buildBth = buildBthInto alloc"

text \<open>Whatever simulates the heap's \<open>alloc\<close> builds the same tree.\<close>

lemma bth_levels_simulates:
  assumes "\<And>d. simulates R (ga d) (gb d)"
  shows "simulates R (bth_levels ga kb l ls) (bth_levels gb kb l ls)"
proof (induction "9 - l" arbitrary: l ls rule: less_induct)
  case less
  have "simulates R (bth_inter ga kb x) (bth_inter gb kb x)" for x
    unfolding bth_inter_def by (intro sim_intros assms)
  then show ?case
    unfolding bth_levels.simps [of ga kb l ls] bth_levels.simps [of gb kb l ls]
    by (intro sim_intros) (use less in auto)
qed

lemma buildBthInto_simulates [sim_intros]:
  assumes "\<And>d. simulates R (ga d) (gb d)"
  shows "simulates R (buildBthInto ga kb eb rs) (buildBthInto gb kb eb rs)"
  unfolding buildBthInto_def bth_leaf_def Let_def
  by (intro sim_intros assms bth_levels_simulates) (auto split: prod.split intro: assms)

subsection \<open>Reading\<close>

type_synonym lookup = "hid \<Rightarrow> bytes option"

definition read_bth :: "lookup \<Rightarrow> hid \<Rightarrow> (nat \<times> nat \<times> nat \<times> hid) option" where
  "read_bth look h =
     (case look h of
        None \<Rightarrow> None
      | Some b \<Rightarrow> if length b = 8 \<and> b ! 0 = kHnSigBTH
                  then Some (unat (b ! 1), unat (b ! 2), unat (b ! 3), peek32 (drop 4 b)) else None)"

text \<open>All records below a page, in order.\<close>

fun scan_page :: "lookup \<Rightarrow> nat \<Rightarrow> nat \<Rightarrow> nat \<Rightarrow> hid \<Rightarrow> (bytes \<times> bytes) list option" where
  "scan_page look kl el 0 h = map_option (\<lambda>p. map (\<lambda>c. (take kl c, drop kl c)) (chunks (kl + el) p)) (look h)"
| "scan_page look kl el (Suc l) h =
     (case look h of
        None \<Rightarrow> None
      | Some p \<Rightarrow> map_option concat
          (opt_all (map (\<lambda>c. scan_page look kl el l (peek32 (drop kl c))) (chunks (kl + 4) p))))"

text \<open>The value under a key: follow the last child whose first key does not exceed it.\<close>

fun find_page :: "lookup \<Rightarrow> nat \<Rightarrow> nat \<Rightarrow> nat \<Rightarrow> hid \<Rightarrow> bytes \<Rightarrow> bytes option" where
  "find_page look kl el 0 h k =
     (case look h of
        None \<Rightarrow> None
      | Some p \<Rightarrow> map_option (drop kl) (find (\<lambda>c. take kl c = k) (chunks (kl + el) p)))"
| "find_page look kl el (Suc l) h k =
     (case look h of
        None \<Rightarrow> None
      | Some p \<Rightarrow> (case filter (\<lambda>c. key_value (take kl c) \<le> key_value k) (chunks (kl + 4) p) of
          [] \<Rightarrow> None
        | c # cs \<Rightarrow> find_page look kl el l (peek32 (drop kl (last (c # cs)))) k))"

definition bth_list :: "lookup \<Rightarrow> hid \<Rightarrow> (bytes \<times> bytes) list option" where
  "bth_list look h =
     (case read_bth look h of
        None \<Rightarrow> None
      | Some (kl, el, levels, root) \<Rightarrow> if root = 0 then Some [] else scan_page look kl el levels root)"

definition bth_find :: "lookup \<Rightarrow> hid \<Rightarrow> bytes \<Rightarrow> bytes option" where
  "bth_find look h k =
     (case read_bth look h of
        None \<Rightarrow> None
      | Some (kl, el, levels, root) \<Rightarrow> if root = 0 then None else find_page look kl el levels root k)"

subsection \<open>What the tree relies on\<close>

text \<open>
  A heap as the template sees it: a store of blobs in which HID zero names nothing. \<open>room n\<close> is a
  heap that still takes \<open>n\<close> blobs of legal size.
\<close>

locale heap_store = store galloc look inv "\<lambda>d. d"
  for galloc :: "bytes \<Rightarrow> ('h, hid) prog" and look :: "'h \<Rightarrow> lookup" and inv :: "'h \<Rightarrow> bool" +
  assumes look_zero: "look s 0 = None"

locale alloc_room =
  fixes galloc :: "bytes \<Rightarrow> ('h, hid) prog" and room :: "nat \<Rightarrow> 'h \<Rightarrow> bool"
  assumes room_put: "room (Suc n) s \<Longrightarrow> length d \<le> maxAllocSize \<Longrightarrow> \<exists>k s'. galloc d s = Some (Inr k, s') \<and> room n s'"
    and room_mono: "room n s \<Longrightarrow> m \<le> n \<Longrightarrow> room m s"

locale heap_room = heap_store galloc look inv + alloc_room galloc room
  for galloc :: "bytes \<Rightarrow> ('h, hid) prog" and look :: "'h \<Rightarrow> lookup" and inv :: "'h \<Rightarrow> bool" and room :: "nat \<Rightarrow> 'h \<Rightarrow> bool"

text \<open>The records fit the field widths of the header.\<close>

definition records_fit :: "byte \<Rightarrow> byte \<Rightarrow> bth_record list \<Rightarrow> bool" where
  "records_fit cb_key cb_ent rs \<longleftrightarrow> 0 < unat cb_key \<and> unat cb_key \<le> 8 \<and>
     (\<forall>r \<in> set rs. length (bth_key r) = unat cb_key \<and> length (bth_value r) = unat cb_ent)"

abbreviation record_image :: "bth_record \<Rightarrow> bytes" where
  "record_image r \<equiv> bth_key r @ bth_value r"

abbreviation level_image :: "bth_level \<Rightarrow> bytes" where
  "level_image l \<equiv> bl_key l @ le_bytes 4 (bl_hid l)"

lemma leaf_page_eq: "records_fit kb eb rs \<Longrightarrow> leaf_page kb eb rs = concat (map record_image rs)"
proof -
  assume fit: "records_fit kb eb rs"
  have "leaf_page kb eb rs = concat (map (\<lambda>r. take (unat kb) (bth_key r) @ take (unat eb) (bth_value r)) rs)"
    by (simp add: leaf_page_def fold_append)
  also have "\<dots> = concat (map record_image rs)"
    using fit by (intro arg_cong [where f = concat] map_cong) (simp_all add: records_fit_def)
  finally show ?thesis .
qed

lemma inter_page_concat:
  "inter_page kb ls = concat (map (\<lambda>l. take (unat kb) (bl_key l) @ le_bytes 4 (bl_hid l)) ls)"
  by (simp add: inter_page_def put32_def fold_append)

lemma inter_page_eq:
  assumes "\<And>l. l \<in> set ls \<Longrightarrow> length (bl_key l) = unat kb"
  shows "inter_page kb ls = concat (map level_image ls)"
  unfolding inter_page_concat using assms by (intro arg_cong [where f = concat] map_cong) simp_all

lemma length_inter_page: "length (inter_page kb ls) \<le> (unat kb + 4) * length ls"
  unfolding inter_page_concat by (rule length_concat_le) simp

lemma records_fit_sub: "records_fit kb eb rs \<Longrightarrow> set cs \<subseteq> set rs \<Longrightarrow> records_fit kb eb cs"
  by (auto simp: records_fit_def)

text \<open>The tree of \<open>l\<close> index levels under a page holds the records \<open>rs\<close>, in order.\<close>

fun bth_holds :: "lookup \<Rightarrow> byte \<Rightarrow> byte \<Rightarrow> nat \<Rightarrow> hid \<Rightarrow> bth_record list \<Rightarrow> bool" where
  "bth_holds look kb eb 0 h rs \<longleftrightarrow> records_fit kb eb rs \<and> look h = Some (concat (map record_image rs))"
| "bth_holds look kb eb (Suc l) h rs \<longleftrightarrow>
     (\<exists>ls rss. look h = Some (concat (map level_image ls)) \<and> ls \<noteq> [] \<and> rs = concat rss \<and>
        list_all2 (\<lambda>e sub. sub \<noteq> [] \<and> bl_key e = bth_key (hd sub) \<and> length (bl_key e) = unat kb \<and>
          bth_holds look kb eb l (bl_hid e) sub) ls rss)"

definition bth_stands :: "lookup \<Rightarrow> byte \<Rightarrow> byte \<Rightarrow> nat \<Rightarrow> bth_level \<Rightarrow> bth_record list \<Rightarrow> bool" where
  "bth_stands look kb eb l e sub \<longleftrightarrow> sub \<noteq> [] \<and> bl_key e = bth_key (hd sub) \<and> length (bl_key e) = unat kb \<and>
     bth_holds look kb eb l (bl_hid e) sub"

lemma bth_holds_Suc:
  "bth_holds look kb eb (Suc l) h rs \<longleftrightarrow>
     (\<exists>ls rss. look h = Some (concat (map level_image ls)) \<and> ls \<noteq> [] \<and> rs = concat rss \<and>
        list_all2 (bth_stands look kb eb l) ls rss)"
  by (simp add: bth_stands_def [abs_def])

lemma bth_holds_mono:
  assumes "\<And>k x. look k = Some x \<Longrightarrow> look' k = Some x"
  shows "bth_holds look kb eb l h rs \<Longrightarrow> bth_holds look' kb eb l h rs"
proof (induction l arbitrary: h rs)
  case 0
  then show ?case using assms by simp
next
  case (Suc l)
  then obtain ls rss where *: "look h = Some (concat (map level_image ls))" "ls \<noteq> []" "rs = concat rss"
      "list_all2 (bth_stands look kb eb l) ls rss"
    unfolding bth_holds_Suc by blast
  have "list_all2 (bth_stands look' kb eb l) ls rss"
    using *(4) by (rule list_all2_mono) (use Suc.IH in \<open>auto simp: bth_stands_def\<close>)
  then show ?case unfolding bth_holds_Suc using * assms by blast
qed

subsection \<open>Reading a tree that holds records\<close>

lemma chunks_records:
  "records_fit kb eb rs \<Longrightarrow> chunks (unat kb + unat eb) (concat (map record_image rs)) = map record_image rs"
  by (rule chunks_concat_const) (auto simp: records_fit_def)

lemma chunks_levels:
  "(\<And>e. e \<in> set ls \<Longrightarrow> length (bl_key e) = unat kb) \<Longrightarrow>
   chunks (unat kb + 4) (concat (map level_image ls)) = map level_image ls"
  by (rule chunks_concat_const) auto

lemma record_parts:
  "records_fit kb eb rs \<Longrightarrow> r \<in> set rs \<Longrightarrow> take (unat kb) (record_image r) = bth_key r"
  "records_fit kb eb rs \<Longrightarrow> r \<in> set rs \<Longrightarrow> drop (unat kb) (record_image r) = bth_value r"
  by (simp_all add: records_fit_def)

lemma scan_holds:
  "bth_holds look kb eb l h rs \<Longrightarrow>
   scan_page look (unat kb) (unat eb) l h = Some (map (\<lambda>r. (bth_key r, bth_value r)) rs)"
proof (induction l arbitrary: h rs)
  case 0
  then have fit: "records_fit kb eb rs" and look: "look h = Some (concat (map record_image rs))" by simp_all
  have "map (\<lambda>c. (take (unat kb) c, drop (unat kb) c)) (map record_image rs) = map (\<lambda>r. (bth_key r, bth_value r)) rs"
    using record_parts [OF fit] by simp
  then show ?case using look by (simp add: chunks_records [OF fit])
next
  case (Suc l)
  then obtain ls rss where *: "look h = Some (concat (map level_image ls))" "rs = concat rss"
      and kids: "list_all2 (bth_stands look kb eb l) ls rss"
    unfolding bth_holds_Suc by blast
  have len: "length (bl_key e) = unat kb" if "e \<in> set ls" for e
    using kids that by (auto simp: list_all2_conv_all_nth in_set_conv_nth bth_stands_def)
  have "map (\<lambda>e. scan_page look (unat kb) (unat eb) l (bl_hid e)) ls =
      map (\<lambda>sub. Some (map (\<lambda>r. (bth_key r, bth_value r)) sub)) rss"
    using kids Suc.IH by (auto simp: list_all2_conv_all_nth bth_stands_def intro!: nth_equalityI)
  moreover have "map (\<lambda>c. scan_page look (unat kb) (unat eb) l (peek32 (drop (unat kb) c))) (map level_image ls) =
      map (\<lambda>e. scan_page look (unat kb) (unat eb) l (bl_hid e)) ls"
    using len by (simp add: comp_def)
  ultimately show ?case
    using * by (simp add: chunks_levels [OF len] opt_all_map map_concat comp_def)
qed

text \<open>Keys of the header's width are told apart by their value.\<close>

lemma key_value_inject:
  "length a = unat kb \<Longrightarrow> length b = unat kb \<Longrightarrow> unat kb \<le> 8 \<Longrightarrow> key_value a = key_value b \<longleftrightarrow> a = b"
proof -
  assume *: "length a = unat kb" "length b = unat kb" "unat kb \<le> 8"
  have "a = le_bytes (length a) (key_value a)" "b = le_bytes (length b) (key_value b)"
    unfolding key_value_def by (rule le_value_roundtrip [symmetric]; use * in simp)+
  then show ?thesis using * by metis
qed

abbreviation record_value :: "bth_record \<Rightarrow> 64 word" where
  "record_value r \<equiv> key_value (bth_key r)"

lemma find_by_value:
  assumes "records_fit kb eb rs" "length k = unat kb"
  shows "find (\<lambda>r. record_value r = key_value k) rs = find (\<lambda>r. bth_key r = k) rs"
  using assms key_value_inject [of _ kb k] by (intro find_cong) (auto simp: records_fit_def)

lemma bth_holds_fit: "0 < unat kb \<Longrightarrow> unat kb \<le> 8 \<Longrightarrow> bth_holds look kb eb l h rs \<Longrightarrow> records_fit kb eb rs"
proof (induction l arbitrary: h rs)
  case (Suc l)
  then obtain ls rss where *: "rs = concat rss" "list_all2 (bth_stands look kb eb l) ls rss"
    unfolding bth_holds_Suc by blast
  have "records_fit kb eb sub" if "sub \<in> set rss" for sub
    using *(2) that Suc by (auto simp: list_all2_conv_all_nth in_set_conv_nth bth_stands_def)
  then show ?case using Suc.prems(1,2) * by (auto simp: records_fit_def)
qed simp

lemma find_holds:
  assumes kb: "0 < unat kb" "unat kb \<le> 8" and k: "length k = unat kb"
  shows "bth_holds look kb eb l h rs \<Longrightarrow> sorted_wrt (\<lambda>a b. record_value a < record_value b) rs \<Longrightarrow>
    find_page look (unat kb) (unat eb) l h k = map_option bth_value (find (\<lambda>r. bth_key r = k) rs)"
proof (induction l arbitrary: h rs)
  case 0
  then have fit: "records_fit kb eb rs" and look: "look h = Some (concat (map record_image rs))" by simp_all
  have f: "find (\<lambda>r. take (unat kb) (record_image r) = k) rs = find (\<lambda>r. bth_key r = k) rs"
    using record_parts(1) [OF fit] by (intro find_cong) auto
  have "drop (unat kb) (record_image r) = bth_value r" if "find (\<lambda>r. bth_key r = k) rs = Some r" for r
    using record_parts(2) [OF fit, of r] that by (auto simp: find_Some_iff)
  then show ?case using look f
    by (cases "find (\<lambda>r. bth_key r = k) rs") (simp_all add: chunks_records [OF fit] find_map)
next
  case (Suc l)
  then obtain ls rss where look: "look h = Some (concat (map level_image ls))" and rs: "rs = concat rss"
      and kids: "list_all2 (bth_stands look kb eb l) ls rss"
    unfolding bth_holds_Suc by blast
  have len: "length (bl_key e) = unat kb" if "e \<in> set ls" for e
    using kids that by (auto simp: list_all2_conv_all_nth in_set_conv_nth bth_stands_def)
  have fit: "records_fit kb eb rs" by (rule bth_holds_fit [OF kb Suc.prems(1)])
  have "list_all2 (\<lambda>e sub. sub \<noteq> [] \<and> key_value (bl_key e) = record_value (hd sub)) ls rss"
    using kids by (rule list_all2_mono) (simp add: bth_stands_def)
  note last = find_concat_last [OF this Suc.prems(2) [unfolded rs], of "key_value k", folded rs]
  have fm: "filter (\<lambda>c. key_value (take (unat kb) c) \<le> key_value k) (map level_image ls) =
      map level_image (filter (\<lambda>e. key_value (bl_key e) \<le> key_value k) ls)"
    using len by (simp add: filter_map comp_def cong: filter_cong)
  show ?case
  proof (cases "filter (\<lambda>e. key_value (bl_key e) \<le> key_value k) ls")
    case Nil
    then have "find (\<lambda>r. bth_key r = k) rs = None"
      using last find_by_value [OF fit k] by simp
    then show ?thesis using look fm Nil by (simp add: chunks_levels [OF len])
  next
    case (Cons c cs)
    then obtain i where i: "i < length ls" "last (c # cs) = ls ! i"
        "find (\<lambda>r. record_value r = key_value k) rs = find (\<lambda>r. record_value r = key_value k) (rss ! i)"
      using last by auto
    have st: "bth_stands look kb eb l (ls ! i) (rss ! i)" and li: "i < length rss"
      using kids i(1) by (simp_all add: list_all2_conv_all_nth)
    have rs_i: "rs = concat (take i rss) @ rss ! i @ concat (drop (Suc i) rss)"
      by (metis concat.simps(2) concat_append id_take_nth_drop li rs)
    have fit_i: "records_fit kb eb (rss ! i)" by (rule records_fit_sub [OF fit]) (use nth_mem [OF li] in \<open>auto simp: rs\<close>)
    have "sorted_wrt (\<lambda>a b. record_value a < record_value b) (rss ! i)"
      using Suc.prems(2) by (simp add: rs_i sorted_wrt_append)
    then have "find_page look (unat kb) (unat eb) l (bl_hid (ls ! i)) k =
        map_option bth_value (find (\<lambda>r. bth_key r = k) (rss ! i))"
      using Suc.IH st by (simp add: bth_stands_def)
    moreover have "peek32 (drop (unat kb) (last (map level_image (c # cs)))) = bl_hid (ls ! i)"
      using i len by (simp only: last_map list.distinct(2) not_False_eq_True) simp
    moreover have "find (\<lambda>r. bth_key r = k) rs = find (\<lambda>r. bth_key r = k) (rss ! i)"
      using i(3) find_by_value [OF fit k] find_by_value [OF fit_i k] by simp
    ultimately show ?thesis using look fm Cons by (simp add: chunks_levels [OF len] del: last.simps)
  qed
qed

subsection \<open>The tree built\<close>

lemma per_page:
  assumes "0 < unat kb" "unat kb \<le> 8"
  shows "675 \<le> bth_per_inter kb" "bth_per_inter kb * (unat kb + 4) \<le> maxAllocSize"
    and "0 < bth_per_leaf kb eb" "bth_per_leaf kb eb * (unat kb + unat eb) \<le> maxAllocSize"
proof -
  have "8101 div 12 \<le> 8101 div (unat kb + 4)" using assms by (intro div_le_mono2) simp_all
  then show "675 \<le> bth_per_inter kb" by (simp add: bth_per_inter_def)
  then show "bth_per_inter kb * (unat kb + 4) \<le> maxAllocSize"
    using div_times_less_eq_dividend [of 8101 "unat kb + 4"] by (simp add: bth_per_inter_def max_def split: if_splits)
  have "unat eb < 256" using unsigned_less [of eb, where ?'a = nat] by simp
  then have le: "unat kb + unat eb \<le> 8101" using assms by simp
  then have "1 \<le> 8101 div (unat kb + unat eb)" using assms by (simp add: Suc_le_eq div_greater_zero_iff)
  then have pl: "bth_per_leaf kb eb = 8101 div (unat kb + unat eb)" by (simp add: bth_per_leaf_def)
  then show "bth_per_leaf kb eb * (unat kb + unat eb) \<le> maxAllocSize"
    using div_times_less_eq_dividend [of 8101 "unat kb + unat eb"] by simp
  show "0 < bth_per_leaf kb eb" by (simp add: bth_per_leaf_def)
qed

lemma length_bth_header [simp]: "length (bth_header kb eb l r) = 8"
  by (simp add: bth_header_def put8_def put32_def)

lemma read_bth_header:
  assumes "look h = Some (bth_header kb eb l root)" "l \<le> 8"
  shows "read_bth look h = Some (unat kb, unat eb, l, root)"
  using assms unat_small [of l, where ?'a = 8]
  by (simp add: read_bth_def bth_header_def put8_def put32_def)

text \<open>The whole structure: a header over a tree that holds the records in key order.\<close>

definition bth_stored :: "lookup \<Rightarrow> byte \<Rightarrow> byte \<Rightarrow> hid \<Rightarrow> bth_record list \<Rightarrow> bool" where
  "bth_stored look kb eb h rs \<longleftrightarrow> (\<exists>l root. look h = Some (bth_header kb eb l root) \<and> l \<le> 8 \<and>
     (if rs = [] then root = 0 else root \<noteq> 0 \<and> bth_holds look kb eb l root (sort_key record_value rs)))"

lemma bth_stored_mono:
  assumes stored: "bth_stored look kb eb h rs" and mono: "\<And>k x. look k = Some x \<Longrightarrow> look' k = Some x"
  shows "bth_stored look' kb eb h rs"
proof -
  obtain l root where "look h = Some (bth_header kb eb l root)" "l \<le> 8"
      "if rs = [] then root = 0 else root \<noteq> 0 \<and> bth_holds look kb eb l root (sort_key record_value rs)"
    using stored unfolding bth_stored_def by blast
  then show ?thesis
    unfolding bth_stored_def using mono bth_holds_mono [of look look' kb eb, OF mono]
    by (intro exI [of _ l] exI [of _ root]) auto
qed

lemma sort_key_Nil [simp]: "sort_key f xs = [] \<longleftrightarrow> xs = []"
  by (metis set_empty set_sort)

lemma bth_stored_list:
  "bth_stored look kb eb h rs \<Longrightarrow> bth_list look h = Some (map (\<lambda>r. (bth_key r, bth_value r)) (sort_key record_value rs))"
  using read_bth_header [of look h kb eb] scan_holds [of look kb eb]
  by (auto simp: bth_stored_def bth_list_def split: if_splits)

lemma bth_stored_find:
  assumes stored: "bth_stored look kb eb h rs" and fit: "records_fit kb eb rs"
    and dist: "distinct (map bth_key rs)" and k: "length k = unat kb"
  shows "bth_find look h k = map_option bth_value (find (\<lambda>r. bth_key r = k) rs)"
proof -
  obtain l root where *: "look h = Some (bth_header kb eb l root)" "l \<le> 8"
      "if rs = [] then root = 0 else root \<noteq> 0 \<and> bth_holds look kb eb l root (sort_key record_value rs)"
    using stored unfolding bth_stored_def by blast
  note hdr = read_bth_header [where look = look and h = h, OF *(1) *(2)]
  show ?thesis
  proof (cases "rs = []")
    case False
    have kb: "0 < unat kb" "unat kb \<le> 8" using fit by (simp_all add: records_fit_def)
    have inj: "record_value a = record_value b \<longleftrightarrow> bth_key a = bth_key b" if "a \<in> set rs" "b \<in> set rs" for a b
      using fit that key_value_inject [of _ kb] by (simp add: records_fit_def)
    have "distinct (map record_value rs)"
      using dist inj by (auto simp: distinct_map inj_on_def)
    then have strict: "sorted_wrt (\<lambda>a b. record_value a < record_value b) (sort_key record_value rs)"
      by (rule sort_key_strict)
    have "find (\<lambda>r. bth_key r = k) (sort_key record_value rs) = find (\<lambda>r. bth_key r = k) rs"
      by (rule find_distinct_any [OF dist _ distinct_sort_key [OF dist]]) simp
    then show ?thesis using hdr * False find_holds [OF kb k _ strict] by (simp add: bth_find_def)
  qed (use hdr * in \<open>simp add: bth_find_def\<close>)
qed

context heap_store
begin

lemma bth_stands_extends:
  "bth_stands (look s) kb eb l e sub \<Longrightarrow> extends s s' \<Longrightarrow> bth_stands (look s') kb eb l e sub"
  using bth_holds_mono [of "look s" "look s'"] by (auto simp: bth_stands_def extends_def)

lemma bth_leaf_law:
  assumes "inv s" "records_fit kb eb rs" "rs \<noteq> []" "bth_leaf galloc kb eb rs s = Some (Inr e, s')"
  shows "inv s' \<and> extends s s' \<and> bth_stands (look s') kb eb 0 e rs"
proof -
  obtain h where h: "galloc (leaf_page kb eb rs) s = Some (Inr h, s')" "e = \<lparr>bl_key = bth_key (hd rs), bl_hid = h\<rparr>"
    using assms(4) by (auto simp: bth_leaf_def bindM_Inr_iff ret_run)
  have "length (bth_key (hd rs)) = unat kb" using assms(2,3) by (simp add: records_fit_def)
  then show ?thesis
    using put_inv [OF assms(1) h(1)] put_extends [OF assms(1) h(1)] put_look [OF assms(1) h(1)] assms(2,3)
    by (simp add: bth_stands_def h(2) leaf_page_eq)
qed

lemma bth_inter_law:
  assumes "inv s" "list_all2 (bth_stands (look s) kb eb l) ls rss" "ls \<noteq> []"
    and "bth_inter galloc kb ls s = Some (Inr e, s')"
  shows "inv s' \<and> extends s s' \<and> bth_stands (look s') kb eb (Suc l) e (concat rss)"
proof -
  obtain h where h: "galloc (inter_page kb ls) s = Some (Inr h, s')" "e = \<lparr>bl_key = bl_key (hd ls), bl_hid = h\<rparr>"
    using assms(4) by (auto simp: bth_inter_def bindM_Inr_iff ret_run)
  note put = put_inv [OF assms(1) h(1)] put_extends [OF assms(1) h(1)] put_look [OF assms(1) h(1)]
  have len: "length (bl_key x) = unat kb" if "x \<in> set ls" for x
    using assms(2) that by (auto simp: list_all2_conv_all_nth in_set_conv_nth bth_stands_def)
  have kids: "list_all2 (bth_stands (look s') kb eb l) ls rss"
    using assms(2) by (rule list_all2_mono) (use put(2) bth_stands_extends in blast)
  obtain x xs sub subs where hd: "ls = x # xs" "rss = sub # subs"
    using assms(2,3) by (cases ls; cases rss) auto
  have "sub \<noteq> []" "bl_key x = bth_key (hd sub)" "length (bth_key (hd sub)) = unat kb"
    using assms(2) by (auto simp: hd bth_stands_def)
  moreover have "bth_holds (look s') kb eb (Suc l) h (concat rss)"
    unfolding bth_holds_Suc using put(3) inter_page_eq [OF len] kids assms(3) by auto
  ultimately show ?thesis using put(1,2) by (simp add: bth_stands_def h(2) hd)
qed

lemma bth_inters_law:
  assumes "inv s" "list_all2 (bth_stands (look s) kb eb l) ls rss" "0 < n"
    and run: "mapM (bth_inter galloc kb) (chunks n ls) s = Some (Inr ups, s')"
  shows "inv s' \<and> extends s s' \<and> list_all2 (bth_stands (look s') kb eb (Suc l)) ups (map concat (chunks n rss))"
proof -
  let ?R = "\<lambda>t chunk e. \<forall>subs. list_all2 (bth_stands (look s) kb eb l) chunk subs \<longrightarrow>
      bth_stands (look t) kb eb (Suc l) e (concat subs)"
  have "(inv s' \<and> extends s s') \<and> extends s s' \<and> list_all2 (?R s') (chunks n ls) ups"
  proof (rule mapM_relates [where I = "\<lambda>t. inv t \<and> extends s t" and G = extends and R = ?R, OF _ extends_refl extends_trans _ _ run])
    fix c t e t'
    assume c: "c \<in> set (chunks n ls)" and I: "inv t \<and> extends s t" and r: "bth_inter galloc kb c t = Some (Inr e, t')"
    have ne: "c \<noteq> []" using chunks_bounds [OF c] by simp
    obtain subs0 where subs0: "list_all2 (bth_stands (look s) kb eb l) c subs0"
      using chunks_list_all2 [OF assms(2), of n] c by (auto simp: list_all2_conv_all_nth in_set_conv_nth)
    have law: "inv t' \<and> extends t t' \<and> bth_stands (look t') kb eb (Suc l) e (concat subs)"
      if "list_all2 (bth_stands (look s) kb eb l) c subs" for subs
    proof -
      have "list_all2 (bth_stands (look t) kb eb l) c subs"
        using that by (rule list_all2_mono) (use I bth_stands_extends in blast)
      from bth_inter_law [OF _ this ne r] I show ?thesis by simp
    qed
    show "(inv t' \<and> extends s t') \<and> extends t t' \<and> ?R t' c e"
      using law subs0 I extends_trans by blast
  next
    show "?R t x y \<Longrightarrow> extends t t' \<Longrightarrow> ?R t' x y" for t t' x y using bth_stands_extends by blast
    show "inv s \<and> extends s s" using assms(1) by simp
  qed
  then have "list_all2 (?R s') (chunks n ls) ups" and *: "inv s'" "extends s s'" by simp_all
  moreover have "list_all2 (list_all2 (bth_stands (look s) kb eb l)) (chunks n ls) (chunks n rss)"
    by (rule chunks_list_all2 [OF assms(2)])
  ultimately have "list_all2 (bth_stands (look s') kb eb (Suc l)) ups (map concat (chunks n rss))"
    by (simp add: list_all2_conv_all_nth)
  with * show ?thesis by simp
qed

lemma bth_levels_law:
  assumes "inv s" "l \<le> 8" "list_all2 (bth_stands (look s) kb eb l) ls rss" "ls \<noteq> []"
    and "bth_levels galloc kb l ls s = Some (Inr (l', root), s')"
  shows "inv s' \<and> extends s s' \<and> l' \<le> 8 \<and> bth_stands (look s') kb eb l' root (concat rss)"
  using assms
proof (induction "9 - l" arbitrary: l ls rss s rule: less_induct)
  case less
  let ?n = "bth_per_inter kb"
  have n: "0 < ?n" by (simp add: bth_per_inter_def)
  show ?case
  proof (cases "1 < length ls")
    case True
    then obtain ups s1 where up: "mapM (bth_inter galloc kb) (chunks ?n ls) s = Some (Inr ups, s1)"
        and l8: "Suc l \<le> 8" and rest: "bth_levels galloc kb (Suc l) ups s1 = Some (Inr (l', root), s')"
      using less.prems(5) by (subst (asm) bth_levels.simps) (auto simp: bindM_Inr_iff throw_run split: if_splits)
    note law = bth_inters_law [OF less.prems(1,3) n up]
    have ne: "ups \<noteq> []" using mapM_length [OF up] n less.prems(4) by (auto simp: chunks_eq_Nil)
    have "concat (map concat (chunks ?n rss)) = concat rss" by (simp only: concat_concats concat_chunks [OF n])
    then show ?thesis
      using less.hyps [of "Suc l" s1 ups "map concat (chunks ?n rss)"] law l8 ne rest extends_trans by auto
  next
    case False
    then obtain x sub where 1: "ls = [x]" "rss = [sub]"
      using less.prems(3,4) by (cases ls; cases rss) auto
    then show ?thesis using less.prems by (simp add: bth_levels.simps [of _ _ l] ret_run)
  qed
qed

lemma buildBthInto_law:
  assumes inv: "inv s" and fit: "records_fit kb eb rs" and run: "buildBthInto galloc kb eb rs s = Some (Inr h, s')"
  shows "inv s' \<and> extends s s' \<and> bth_stored (look s') kb eb h rs"
proof (cases "rs = []")
  case True
  then have "galloc (bth_header kb eb 0 0) s = Some (Inr h, s')"
    using run by (simp add: buildBthInto_def)
  from put_inv [OF inv this] put_extends [OF inv this] put_look [OF inv this] show ?thesis
    using True by (auto simp: bth_stored_def)
next
  case False
  define srt where "srt = sort_key record_value rs"
  let ?n = "bth_per_leaf kb eb"
  have ne: "srt \<noteq> []" using False by (simp add: srt_def)
  have kb: "0 < unat kb" "unat kb \<le> 8" using fit by (simp_all add: records_fit_def)
  have n: "0 < ?n" by (simp add: bth_per_leaf_def)
  have sfit: "records_fit kb eb srt" by (rule records_fit_sub [OF fit]) (simp add: srt_def)
  obtain ls s1 l root s2 where run1: "mapM (bth_leaf galloc kb eb) (chunks ?n srt) s = Some (Inr ls, s1)"
      and run2: "bth_levels galloc kb 0 ls s1 = Some (Inr (l, root), s2)"
      and run3: "galloc (bth_header kb eb l (bl_hid root)) s2 = Some (Inr h, s')"
    using run ne unfolding buildBthInto_def Let_def srt_def [symmetric] by (auto simp: bindM_Inr_iff)
  have "inv s1 \<and> extends s s1 \<and> list_all2 (\<lambda>c e. bth_stands (look s1) kb eb 0 e c) (chunks ?n srt) ls"
  proof (rule mapM_relates [where I = inv and G = extends and R = "\<lambda>t c e. bth_stands (look t) kb eb 0 e c",
        OF _ extends_refl extends_trans _ inv run1])
    show "inv t' \<and> extends t t' \<and> bth_stands (look t') kb eb 0 e c"
      if "c \<in> set (chunks ?n srt)" "inv t" "bth_leaf galloc kb eb c t = Some (Inr e, t')" for c t e t'
      by (rule bth_leaf_law [OF that(2) _ _ that(3)])
         (use chunks_bounds [OF that(1)] chunks_set [OF that(1)] records_fit_sub [OF sfit] in auto)
    show "bth_stands (look t) kb eb 0 e c \<Longrightarrow> extends t t' \<Longrightarrow> bth_stands (look t') kb eb 0 e c" for t t' c e
      using bth_stands_extends by blast
  qed
  then have 1: "inv s1" "extends s s1" "list_all2 (bth_stands (look s1) kb eb 0) ls (chunks ?n srt)"
    by (auto simp: list_all2_conv_all_nth)
  have "ls \<noteq> []" using mapM_length [OF run1] n ne by (auto simp: chunks_eq_Nil)
  from bth_levels_law [OF 1(1) _ 1(3) this run2]
  have 2: "inv s2" "extends s1 s2" "l \<le> 8" "bth_stands (look s2) kb eb l root srt"
    using n by (simp_all add: concat_chunks)
  note put = put_inv [OF 2(1) run3] put_extends [OF 2(1) run3] put_look [OF 2(1) run3]
  have holds: "bth_holds (look s') kb eb l (bl_hid root) srt"
    using bth_stands_extends [OF 2(4) put(2)] by (simp add: bth_stands_def)
  then have "bl_hid root \<noteq> 0" using look_zero by (cases l) auto
  then have "bth_stored (look s') kb eb h rs"
    using put(3) 2(3) holds False unfolding bth_stored_def srt_def by (intro exI [of _ l] exI [of _ "bl_hid root"]) simp
  moreover have "extends s s'" using extends_trans [OF extends_trans [OF 1(2) 2(2)] put(2)] .
  ultimately show ?thesis using put(1) by blast
qed

end

context alloc_room
begin

lemma bth_leaf_room:
  assumes "room (Suc n) s" "records_fit kb eb rs" "length rs \<le> bth_per_leaf kb eb"
  shows "\<exists>e s'. bth_leaf galloc kb eb rs s = Some (Inr e, s') \<and> room n s'"
proof -
  have kb: "0 < unat kb" "unat kb \<le> 8" using assms(2) by (simp_all add: records_fit_def)
  have "length (leaf_page kb eb rs) = (unat kb + unat eb) * length rs"
    using assms(2) unfolding leaf_page_eq [OF assms(2)] by (intro length_concat_const) (simp add: records_fit_def)
  also have "\<dots> \<le> (unat kb + unat eb) * bth_per_leaf kb eb" using assms(3) by (rule mult_le_mono2)
  also have "\<dots> \<le> maxAllocSize" using per_page(4) [OF kb, of eb] by (simp only: mult.commute)
  finally obtain h s' where "galloc (leaf_page kb eb rs) s = Some (Inr h, s')" "room n s'"
    using room_put [OF assms(1)] by blast
  then show ?thesis by (simp add: bth_leaf_def prog_simps bindM_run)
qed

lemma bth_inter_room:
  assumes "room (Suc n) s" "0 < unat kb" "unat kb \<le> 8" "length ls \<le> bth_per_inter kb"
  shows "\<exists>e s'. bth_inter galloc kb ls s = Some (Inr e, s') \<and> room n s'"
proof -
  have "length (inter_page kb ls) \<le> (unat kb + 4) * length ls" by (rule length_inter_page)
  also have "\<dots> \<le> (unat kb + 4) * bth_per_inter kb" using assms(4) by (rule mult_le_mono2)
  also have "\<dots> \<le> maxAllocSize" using per_page(2) [OF assms(2,3)] by (simp only: mult.commute)
  finally obtain h s' where "galloc (inter_page kb ls) s = Some (Inr h, s')" "room n s'"
    using room_put [OF assms(1)] by blast
  then show ?thesis by (simp add: bth_inter_def prog_simps bindM_run)
qed

lemma bth_levels_room:
  assumes "room (n + length ls) s" "ls \<noteq> []" "0 < unat kb" "unat kb \<le> 8" "l \<le> 8" "length ls \<le> 675 ^ (8 - l)"
  shows "\<exists>l' root s'. bth_levels galloc kb l ls s = Some (Inr (l', root), s') \<and> room n s'"
  using assms
proof (induction "9 - l" arbitrary: l ls s rule: less_induct)
  case less
  let ?F = "bth_per_inter kb"
  have F: "675 \<le> ?F" using per_page(1) less.prems by simp
  show ?case
  proof (cases "1 < length ls")
    case True
    have l8: "l < 8" using less.prems(5,6) True by (cases "l = 8") simp_all
    let ?cs = "chunks ?F ls"
    have ne: "?cs \<noteq> []" using less.prems(2) F by (simp add: chunks_eq_Nil)
    have half: "2 * length ?cs \<le> length ls" by (rule chunks_half) (use F True in simp_all)
    have "675 ^ (8 - l) = 675 * (675 :: nat) ^ (8 - Suc l)" using l8 by (metis Suc_diff_Suc power_Suc)
    then have "length ls \<le> ?F * 675 ^ (8 - Suc l)"
      using less.prems(6) mult_le_mono1 [OF F, of "675 ^ (8 - Suc l)"] by linarith
    then have up: "length ?cs \<le> 675 ^ (8 - Suc l)" using F by (intro length_chunks_le) simp_all
    have "room ((n + length ?cs) + length ?cs) s" by (rule room_mono [OF less.prems(1)]) (use half in simp)
    then have "\<exists>ups s1. mapM (bth_inter galloc kb) ?cs s = Some (Inr ups, s1) \<and> room (n + length ?cs) s1"
      by (rule mapM_budget [rotated]) (use bth_inter_room chunks_bounds [of _ ?F ls] less.prems(3,4) in blast)
    then obtain ups s1 where u: "mapM (bth_inter galloc kb) ?cs s = Some (Inr ups, s1)" "room (n + length ?cs) s1"
      by blast
    have lu: "length ups = length ?cs" by (rule mapM_length [OF u(1)])
    have "\<exists>l' root s'. bth_levels galloc kb (Suc l) ups s1 = Some (Inr (l', root), s') \<and> room n s'"
      by (rule less.hyps) (use l8 lu ne up u(2) less.prems in auto)
    then show ?thesis using True u(1) l8 by (subst bth_levels.simps) (simp add: prog_simps bindM_run)
  next
    case False
    then show ?thesis using room_mono [OF less.prems(1), of n]
      by (subst bth_levels.simps) (simp add: ret_run)
  qed
qed

lemma buildBthInto_room:
  assumes r: "room (n + 2 * length rs + 1) s" and fit: "records_fit kb eb rs" and few: "length rs \<le> 675 ^ 8"
  shows "\<exists>h s'. buildBthInto galloc kb eb rs s = Some (Inr h, s') \<and> room n s'"
proof (cases "rs = []")
  case True
  obtain h s' where "galloc (bth_header kb eb 0 0) s = Some (Inr h, s')" "room n s'"
    using room_put [of n s "bth_header kb eb 0 0"] r True by auto
  then show ?thesis using True by (simp add: buildBthInto_def)
next
  case False
  define srt where "srt = sort_key record_value rs"
  let ?F = "bth_per_leaf kb eb" and ?cs = "chunks (bth_per_leaf kb eb) srt"
  have kb: "0 < unat kb" "unat kb \<le> 8" using fit by (simp_all add: records_fit_def)
  have F: "0 < ?F" by (simp add: bth_per_leaf_def)
  have sfit: "records_fit kb eb srt" by (rule records_fit_sub [OF fit]) (simp add: srt_def)
  have ne: "srt \<noteq> []" "?cs \<noteq> []" using False F by (simp_all add: srt_def chunks_eq_Nil)
  have "length srt \<le> ?F * length rs" using F by (simp add: srt_def)
  then have lc: "length ?cs \<le> length rs" by (rule length_chunks_le [OF F])
  have "room ((n + 1 + length ?cs) + length ?cs) s" by (rule room_mono [OF r]) (use lc in simp)
  moreover have "\<exists>e t'. bth_leaf galloc kb eb c t = Some (Inr e, t') \<and> room k t'"
    if "c \<in> set ?cs" "room (Suc k) t" for k c t
    by (rule bth_leaf_room [OF that(2) records_fit_sub [OF sfit chunks_set [OF that(1)]]])
       (use chunks_bounds [OF that(1)] in simp)
  ultimately have "\<exists>ls s1. mapM (bth_leaf galloc kb eb) ?cs s = Some (Inr ls, s1) \<and> room (n + 1 + length ?cs) s1"
    by (rule mapM_budget [rotated])
  then obtain ls s1 where l: "mapM (bth_leaf galloc kb eb) ?cs s = Some (Inr ls, s1)" "room (n + 1 + length ?cs) s1"
    by blast
  have ll: "length ls = length ?cs" by (rule mapM_length [OF l(1)])
  have "\<exists>l' root s2. bth_levels galloc kb 0 ls s1 = Some (Inr (l', root), s2) \<and> room (n + 1) s2"
    by (rule bth_levels_room) (use ll lc few l(2) ne kb in auto)
  then obtain l' root s2 where 2: "bth_levels galloc kb 0 ls s1 = Some (Inr (l', root), s2)" "room (Suc n) s2" by auto
  obtain h s' where "galloc (bth_header kb eb l' (bl_hid root)) s2 = Some (Inr h, s')" "room n s'"
    using room_put [OF 2(2), of "bth_header kb eb l' (bl_hid root)"] by auto
  then show ?thesis
    using l(1) 2(1) ne by (simp add: buildBthInto_def srt_def [symmetric] Let_def prog_simps bindM_run)
qed

end

subsection \<open>The in-memory heap provides this\<close>

definition blocks_left :: "nat \<Rightarrow> heap \<Rightarrow> bool" where
  "blocks_left n h \<longleftrightarrow> heap_ok h \<and> length (hblocks h) + n \<le> 2 ^ 16"

lemma heap_look_zero: "heap_look h 0 = None"
  by (simp add: heap_look_def hidAllocIndex_def Let_def)

interpretation hn_bth: heap_room alloc heap_look heap_ok blocks_left
proof
  show "\<exists>k s'. alloc d s = Some (Inr k, s') \<and> blocks_left n s'"
    if "blocks_left (Suc n) s" "length d \<le> maxAllocSize" for n s d
    using alloc_roomy [of s n d] that by (simp add: blocks_left_def)
qed (auto simp: heap_look_zero blocks_left_def)

subsection \<open>Properties\<close>

lemma stored_in_stream:
  assumes ok: "heap_ok h" and stored: "bth_stored (heap_look h) kb eb b rs"
  shows "bth_stored (heap_read (serialize (setUserRoot r h))) kb eb b rs"
  by (rule bth_stored_mono [OF stored]) (use ok heap_read_serialize [of "setUserRoot r h"] in simp)

lemma buildBth_law:
  assumes "heap_ok h" "records_fit kb eb rs" "buildBth kb eb rs h = Some (Inr b, h')"
  shows "heap_ok h' \<and> bth_stored (heap_look h') kb eb b rs \<and>
    (\<forall>j x. heap_look h j = Some x \<longrightarrow> heap_look h' j = Some x)"
  using hn_bth.buildBthInto_law [OF assms(1,2)] assms(3) by (simp add: buildBth_def hn.extends_def)

text \<open>
  C16: A B-tree built on a heap reads back from the heap's serialized stream: enumerating it from
  the user root gives the records in key order, searching it for a key gives the value of the
  record with that key or nothing, and the blobs already in the heap are still there.
\<close>

theorem bth_roundtrip:
  assumes "heap_ok h" and "records_fit kb eb rs" and "distinct (map bth_key rs)"
    and "buildBth kb eb rs h = Some (Inr b, h')" and "length k = unat kb"
  shows "let stream = serialize (setUserRoot b h') in
    bth_list (heap_read stream) (heap_root stream) =
      Some (map (\<lambda>r. (bth_key r, bth_value r)) (sort_key (\<lambda>r. key_value (bth_key r)) rs)) \<and>
    bth_find (heap_read stream) (heap_root stream) k = map_option bth_value (find (\<lambda>r. bth_key r = k) rs) \<and>
    (\<forall>j x. heap_look h j = Some x \<longrightarrow> heap_read stream j = Some x)"
proof -
  note law = buildBth_law [OF assms(1,2,4)]
  then have ok: "heap_ok (setUserRoot b h')" by simp
  have root: "heap_root (serialize (setUserRoot b h')) = b"
    using serialize_header [OF ok] by (simp add: setUserRoot_def)
  have stored: "bth_stored (heap_read (serialize (setUserRoot b h'))) kb eb b rs"
    by (rule stored_in_stream) (use law in simp_all)
  have "heap_read (serialize (setUserRoot b h')) j = Some x" if "heap_look h j = Some x" for j x
    using heap_read_serialize [OF ok] law that by simp
  then show ?thesis
    using bth_stored_list [OF stored] bth_stored_find [OF stored assms(2,3,5)] root by (simp add: Let_def)
qed

text \<open>
  Building succeeds on any heap with enough blocks left: no page outgrows a block and no tree
  of up to \<open>675 ^ 8\<close> records (the fan-out of eight-byte keys) outgrows the eight index levels.
\<close>

theorem buildBth_succeeds:
  assumes "heap_ok h" and "length (hblocks h) + 2 * length rs + 1 \<le> 2 ^ 16" and "records_fit kb eb rs"
  shows "\<exists>b h'. buildBth kb eb rs h = Some (Inr b, h') \<and> heap_ok h'"
proof -
  have "length rs \<le> 675 ^ 8" using assms(2) by simp
  from hn_bth.buildBthInto_room [of 0 rs h, OF _ assms(3) this] show ?thesis
    using assms by (auto simp: blocks_left_def buildBth_def)
qed

text \<open>Three records, out of order.\<close>

lemma three_records:
  "records_fit 2 4 [\<lparr>bth_key = [7, 0], bth_value = [1, 0, 0, 0]\<rparr>, \<lparr>bth_key = [0, 1], bth_value = [2, 0, 0, 0]\<rparr>,
     \<lparr>bth_key = [5, 0], bth_value = [3, 0, 0, 0]\<rparr>]"
  by (simp add: records_fit_def)

lemma buildBth_succeeds_witness:
  "\<exists>b h'. buildBth 2 4 [\<lparr>bth_key = [7, 0], bth_value = [1, 0, 0, 0]\<rparr>, \<lparr>bth_key = [0, 1], bth_value = [2, 0, 0, 0]\<rparr>,
     \<lparr>bth_key = [5, 0], bth_value = [3, 0, 0, 0]\<rparr>] (HeapNode_new kHnSigPC) = Some (Inr b, h') \<and> heap_ok h'"
  by (rule buildBth_succeeds [OF HeapNode_new_ok _ three_records]) (simp add: HeapNode_new_def)

lemma bth_roundtrip_witness:
  "\<exists>b h'. buildBth 2 4 [\<lparr>bth_key = [7, 0], bth_value = [1, 0, 0, 0]\<rparr>, \<lparr>bth_key = [0, 1], bth_value = [2, 0, 0, 0]\<rparr>,
     \<lparr>bth_key = [5, 0], bth_value = [3, 0, 0, 0]\<rparr>] (HeapNode_new kHnSigPC) = Some (Inr b, h') \<and>
    bth_find (heap_read (serialize (setUserRoot b h'))) (heap_root (serialize (setUserRoot b h'))) [5, 0] = Some [3, 0, 0, 0] \<and>
    bth_find (heap_read (serialize (setUserRoot b h'))) (heap_root (serialize (setUserRoot b h'))) [6, 0] = None"
proof -
  let ?rs = "[\<lparr>bth_key = [7, 0], bth_value = [1, 0, 0, 0]\<rparr>, \<lparr>bth_key = [0, 1], bth_value = [2, 0, 0, 0]\<rparr>,
     \<lparr>bth_key = [5, 0], bth_value = [3, 0, 0, 0]\<rparr>] :: bth_record list"
  obtain b h' where run: "buildBth 2 4 ?rs (HeapNode_new kHnSigPC) = Some (Inr b, h')"
    using hn_bth.buildBthInto_room [of 0 ?rs "HeapNode_new kHnSigPC", OF _ three_records] HeapNode_new_ok
    by (auto simp: blocks_left_def buildBth_def HeapNode_new_def)
  show ?thesis
    using run bth_roundtrip [OF HeapNode_new_ok three_records _ run, of "[5, 0]"]
      bth_roundtrip [OF HeapNode_new_ok three_records _ run, of "[6, 0]"]
    by (intro exI [of _ b] exI [of _ h']) (simp add: Let_def)
qed

end
