(* ===== verification/Ndb_Space.thy ===== *)
theory Ndb_Space
  imports Pst_Format
begin

section \<open>Space management of the node database (src/pst/ndb.h, src/pst/ndb.cpp)\<close>

text \<open>
  The state of \<open>NdbWriter\<close>, the file it writes, the bump allocator that steps over the reserved
  AMap, PMap and DList pages, and the allocation bitmaps. The interface the rest of the writer
  relies on is the locale \<open>space_allocator\<close>, interpreted on \<open>allocate\<close> and on \<open>allocatePage\<close>.
\<close>

subsection \<open>The file\<close>

text \<open>
  \<open>std::fstream out_\<close>: the bytes at each offset (a hole reads as zero), the size, whether the
  stream has failed, and the environment's answer to a write of so many bytes at an offset (a
  request for no bytes is the final flush). Once a write has failed the stream stays failed and
  every later write throws; so it does once the file is closed.
\<close>

record disk =
  dk_bytes :: "nat \<Rightarrow> byte"
  dk_size :: nat
  dk_failed :: bool
  dk_accepts :: "nat \<Rightarrow> nat \<Rightarrow> bool"

definition disk_put :: "nat \<Rightarrow> bytes \<Rightarrow> disk \<Rightarrow> disk" where
  "disk_put ib data d = d\<lparr>
     dk_bytes := (\<lambda>a. if ib \<le> a \<and> a < ib + length data then data ! (a - ib) else dk_bytes d a),
     dk_size := (if data = [] then dk_size d else max (dk_size d) (ib + length data))\<rparr>"

definition disk_slice :: "nat \<Rightarrow> nat \<Rightarrow> disk \<Rightarrow> bytes" where
  "disk_slice ib n d = map (dk_bytes d) [ib..<ib + n]"

lemma length_disk_slice [simp]: "length (disk_slice ib n d) = n"
  by (simp add: disk_slice_def)

lemma disk_slice_put_same: "disk_slice ib (length data) (disk_put ib data d) = data"
  by (rule nth_equalityI) (auto simp: disk_slice_def disk_put_def)

lemma disk_slice_put_other:
  "j + n \<le> ib \<or> ib + length data \<le> j \<Longrightarrow> disk_slice j n (disk_put ib data d) = disk_slice j n d"
  by (auto simp: disk_slice_def disk_put_def)

lemma disk_slice_slice:
  "i + n \<le> m \<Longrightarrow> take n (drop i (disk_slice ib m d)) = disk_slice (ib + i) n d"
  by (rule nth_equalityI) (auto simp: disk_slice_def add.assoc)

lemma disk_put_simps [simp]:
  "dk_failed (disk_put ib data d) = dk_failed d"
  "dk_accepts (disk_put ib data d) = dk_accepts d"
  by (simp_all add: disk_put_def)

subsection \<open>The state of NdbWriter\<close>

record bbt_entry =
  be_bid :: bid
  be_ib :: nat
  be_cb :: "16 word"

record nbt_entry =
  ne_nid :: nid
  ne_data :: bid
  ne_sub :: bid
  ne_parent :: nid

record ndb =
  cursor :: nat
  next_bid_index :: "64 word"
  ndb_finished :: bool
  bbt :: "bbt_entry list"
  nbt :: "nbt_entry list"
  amaps :: "bytes list"
  last_amap_ib :: nat
  file_end :: nat
  amap_free :: nat
  pmap_free :: nat
  disk :: disk

subsection \<open>Reserved pages and the bump allocator\<close>

definition isReservedPage :: "nat \<Rightarrow> bool" where
  "isReservedPage ib =
     (if ib = kDListPos then True
      else if ib < kFirstAMapPos then False
      else if (ib - kFirstAMapPos) mod kAMapSpan = 0 then True
      else if ib \<ge> kFirstPMapPos \<and> (ib - kFirstPMapPos) mod kPMapSpan = 0 then True
      else False)"

text \<open>The inner loop of \<open>allocate\<close>: the first reserved page the candidate range meets.\<close>

function scan_reserved :: "nat \<Rightarrow> nat \<Rightarrow> nat \<Rightarrow> nat option" where
  "scan_reserved p cur cb =
     (if p < cur + cb then
        if p + kPageSize \<le> cur then scan_reserved (p + kPageSize) cur cb
        else if isReservedPage p then Some p
        else scan_reserved (p + kPageSize) cur cb
      else None)"
  by pat_completeness auto
termination
  by (relation "measure (\<lambda>(p, cur, cb). cur + cb - p)") auto

declare scan_reserved.simps [simp del]

text \<open>
  The outer loop: \<open>None\<close> if it never settles. \<open>cursor_ & ~(kPageSize - 1)\<close> rounds down to a
  page boundary.
\<close>

partial_function (option) settle :: "nat \<Rightarrow> nat \<Rightarrow> nat option" where
  "settle cb cur =
     (case scan_reserved (cur div kPageSize * kPageSize) cur cb of
        Some p \<Rightarrow> settle cb (p + kPageSize)
      | None \<Rightarrow> Some cur)"

subsection \<open>Allocation bitmaps\<close>

text \<open>\<open>bits[bit / 8] |= 0x80u >> (bit % 8)\<close>, and the loop around it with its early exit.\<close>

definition mark_bit :: "nat \<Rightarrow> bytes \<Rightarrow> bytes" where
  "mark_bit b bits = bits[b div 8 := bits ! (b div 8) OR drop_bit (b mod 8) 0x80]"

fun mark_bits :: "nat \<Rightarrow> nat \<Rightarrow> bytes \<Rightarrow> bytes" where
  "mark_bits b 0 bits = bits"
| "mark_bits b (Suc n) bits =
     (if b div 8 \<ge> length bits then bits else mark_bits (Suc b) n (mark_bit b bits))"

definition amap_pos :: "nat \<Rightarrow> nat" where
  "amap_pos m = kFirstAMapPos + m * kAMapSpan"

text \<open>The body of \<open>markAllocated\<close> once the map it needs exists.\<close>

definition mark_in :: "nat \<Rightarrow> nat \<Rightarrow> nat \<Rightarrow> bytes list \<Rightarrow> bytes list" where
  "mark_in m ib cb maps =
     maps[m := mark_bits ((ib - amap_pos m) div kBlockAlign) (alignUp cb kBlockAlign div kBlockAlign) (maps ! m)]"

text \<open>
  One turn of the loop of \<open>ensureAMapCount\<close>: a zeroed map, its own page, and the PMap pages in
  its span. The code calls \<open>markAllocated\<close> here, which calls \<open>ensureAMapCount\<close> back; that inner
  call finds the map present and returns at once (lemma \<open>add_amap_calls\<close>).
\<close>

definition add_amap :: "ndb \<Rightarrow> ndb" where
  "add_amap st =
     (let index = length (amaps st);
          amap_ib = amap_pos index;
          maps1 = mark_in index amap_ib kPageSize (amaps st @ [replicate 496 0]);
          maps2 = (if index = 0 then mark_in index kFirstPMapPos kPageSize maps1
                   else fold (\<lambda>p. mark_in index p kPageSize)
                          (filter (\<lambda>p. p \<ge> amap_ib) (steps kFirstPMapPos (amap_ib + kAMapSpan) kPMapSpan)) maps1)
      in st\<lparr>amaps := maps2, last_amap_ib := amap_ib\<rparr>)"

lemma length_mark_in [simp]: "length (mark_in m ib cb maps) = length maps"
  by (simp add: mark_in_def)

lemma length_fold_mark_in [simp]: "length (fold (\<lambda>p. mark_in m p cb) ps maps) = length maps"
  by (induction ps arbitrary: maps) simp_all

lemma length_add_amap [simp]: "length (amaps (add_amap st)) = Suc (length (amaps st))"
  by (simp add: add_amap_def Let_def)

function ensureAMapCount :: "nat \<Rightarrow> ndb \<Rightarrow> ndb" where
  "ensureAMapCount n st =
     (if length (amaps st) < n then ensureAMapCount n (add_amap st) else st)"
  by pat_completeness auto
termination
  by (relation "measure (\<lambda>(n, st). n - length (amaps st))") auto

declare ensureAMapCount.simps [simp del]

definition markAllocated :: "nat \<Rightarrow> nat \<Rightarrow> ndb \<Rightarrow> ndb" where
  "markAllocated ib cb st =
     (if ib < kFirstAMapPos then st
      else let m = (ib - kFirstAMapPos) div kAMapSpan;
               st1 = ensureAMapCount (m + 1) st
           in st1\<lparr>amaps := mark_in m ib cb (amaps st1)\<rparr>)"

definition allocate :: "nat \<Rightarrow> (ndb, nat) prog" where
  "allocate cb st =
     (let cb = alignUp cb kBlockAlign
      in case settle cb (cursor st) of
           None \<Rightarrow> None
         | Some ib \<Rightarrow> Some (Inr ib, markAllocated ib cb (st\<lparr>cursor := ib + cb\<rparr>)))"

definition allocatePage :: "(ndb, nat) prog" where
  "allocatePage st = allocate kPageSize (st\<lparr>cursor := alignUp (cursor st) kPageSize\<rparr>)"

text \<open>
  A seek to \<open>2 ^ 63\<close> or beyond fails: \<open>static_cast<std::streamoff>(ib)\<close> is then negative.
\<close>

definition writeAt :: "nat \<Rightarrow> bytes \<Rightarrow> (ndb, unit) prog" where
  "writeAt ib data st =
     (let d = disk st
      in if dk_failed d \<or> 2 ^ 63 \<le> ib \<or> \<not> dk_accepts d ib (length data)
         then Some (Inl (PstError ''short write to PST file''), st\<lparr>disk := d\<lparr>dk_failed := True\<rparr>\<rparr>)
         else Some (Inr (), st\<lparr>disk := disk_put ib data d\<rparr>))"

text \<open>
  The constructor: the file is truncated and its first \<open>kFirstDataPos\<close> bytes reserved. Whether
  the file opens, and which writes it accepts, are the environment's.
\<close>

definition NdbWriter_new :: "string \<Rightarrow> bool \<Rightarrow> (nat \<Rightarrow> nat \<Rightarrow> bool) \<Rightarrow> error + ndb" where
  "NdbWriter_new path opens accepts =
     (if \<not> opens then Inl (PstError (''cannot open PST for writing: '' @ path))
      else if \<not> accepts 0 kFirstDataPos then Inl (PstError ''cannot preallocate PST header region'')
      else Inr (ensureAMapCount 1
        \<lparr>cursor = kFirstDataPos, next_bid_index = 1, ndb_finished = False, bbt = [], nbt = [],
         amaps = [], last_amap_ib = kFirstAMapPos, file_end = kFirstDataPos, amap_free = 0,
         pmap_free = 0,
         disk = \<lparr>dk_bytes = (\<lambda>_. 0), dk_size = kFirstDataPos, dk_failed = False,
                 dk_accepts = accepts\<rparr>\<rparr>))"

subsection \<open>Reserved pages\<close>

text \<open>Where a position at or above the first AMap lies in its span: an AMap page is at
  offset 0 of every span, a PMap page at offset 512 of every eighth.\<close>

lemma isReservedPage_AMap [simp]: "isReservedPage (amap_pos m)"
  by (simp add: isReservedPage_def amap_pos_def)

lemma reserved_cases:
  assumes "isReservedPage q"
  obtains "q = kDListPos"
  | k where "q = kFirstAMapPos + k * kAMapSpan"
  | k where "q = kFirstPMapPos + k * kPMapSpan"
proof -
  consider "q = kDListPos" | "kFirstAMapPos \<le> q" "kAMapSpan dvd q - kFirstAMapPos"
    | "kFirstPMapPos \<le> q" "kPMapSpan dvd q - kFirstPMapPos"
    using assms by (auto simp: isReservedPage_def mod_eq_0_iff_dvd split: if_splits)
  then show thesis
  proof cases
    case 1
    then show ?thesis by (rule that(1))
  next
    case 2
    then obtain k where "q - kFirstAMapPos = kAMapSpan * k" by (elim dvdE)
    then have "q = kFirstAMapPos + k * kAMapSpan" using 2 by linarith
    then show ?thesis by (rule that(2))
  next
    case 3
    then obtain k where "q - kFirstPMapPos = kPMapSpan * k" by (elim dvdE)
    then have "q = kFirstPMapPos + k * kPMapSpan" using 3 by linarith
    then show ?thesis by (rule that(3))
  qed
qed

lemma reserved_offset:
  assumes "isReservedPage q" "kFirstAMapPos \<le> q"
  shows "(q - kFirstAMapPos) mod kAMapSpan \<in> {0, 512}"
  using assms(1)
proof (cases rule: reserved_cases)
  case 1
  with assms(2) show ?thesis by simp
next
  case (2 k)
  then show ?thesis by simp
next
  case (3 k)
  then have "q - kFirstAMapPos = 512 + (8 * k) * kAMapSpan" by simp
  then have "(q - kFirstAMapPos) mod kAMapSpan = 512 mod kAMapSpan" by (simp only: mod_mult_self1)
  then show ?thesis by simp
qed

lemma reserved_aligned: "isReservedPage q \<Longrightarrow> kPageSize dvd q"
proof (erule reserved_cases)
  show "q = kFirstAMapPos + k * kAMapSpan \<Longrightarrow> kPageSize dvd q" for k
    by (simp only:) (intro dvd_add dvd_mult; simp)
  show "q = kFirstPMapPos + k * kPMapSpan \<Longrightarrow> kPageSize dvd q" for k
    by (simp only:) (intro dvd_add dvd_mult; simp)
qed simp

lemma reserved_gap:
  assumes "isReservedPage q" "isReservedPage q'" "kFirstAMapPos \<le> q" "q < q'"
  shows "q' = q + 512 \<and> (q - kFirstAMapPos) mod kAMapSpan = 0 \<or> q + (kAMapSpan - 512) \<le> q'"
proof -
  define a b where "a = (q - kFirstAMapPos) div kAMapSpan" and "b = (q' - kFirstAMapPos) div kAMapSpan"
  define r t where "r = (q - kFirstAMapPos) mod kAMapSpan" and "t = (q' - kFirstAMapPos) mod kAMapSpan"
  have q: "q = kFirstAMapPos + (a * kAMapSpan + r)"
    using assms(3) unfolding a_def r_def by (simp only: div_mult_mod_eq)
  have q': "q' = kFirstAMapPos + (b * kAMapSpan + t)"
    using assms(3,4) unfolding b_def t_def by (simp only: div_mult_mod_eq)
  have "r \<in> {0, 512}" "t \<in> {0, 512}"
    using reserved_offset [OF assms(1,3)] reserved_offset [OF assms(2)] assms(3,4)
    by (auto simp: r_def t_def)
  then show ?thesis
    unfolding r_def [symmetric] using assms(4) q q' by (cases "a = b") auto
qed

lemma scan_reserved_Some:
  "scan_reserved p cur cb = Some q \<Longrightarrow>
   isReservedPage q \<and> p \<le> q \<and> q < cur + cb \<and> cur < q + kPageSize"
proof (induction p cur cb rule: scan_reserved.induct)
  case (1 p cur cb)
  then show ?case
    by (auto simp: scan_reserved.simps [of p] split: if_splits)
qed

lemma scan_reserved_None:
  "scan_reserved p cur cb = None \<Longrightarrow> p \<le> q \<Longrightarrow> kPageSize dvd q - p \<Longrightarrow>
   q < cur + cb \<Longrightarrow> cur < q + kPageSize \<Longrightarrow> \<not> isReservedPage q"
proof (induction p cur cb rule: scan_reserved.induct)
  case (1 p cur cb)
  show ?case
  proof (cases "q = p")
    case True
    then show ?thesis using "1.prems" by (auto simp: scan_reserved.simps [of p] split: if_splits)
  next
    case False
    then have "p + kPageSize \<le> q" "kPageSize dvd q - (p + kPageSize)"
      using "1.prems"(2,3) dvd_imp_le [of kPageSize "q - p"] dvd_diff_nat [of kPageSize "q - p" kPageSize]
      by auto
    then show ?thesis
      using 1 by (auto simp: scan_reserved.simps [of p] split: if_splits)
  qed
qed

text \<open>A range \<open>[ib, ib + cb)\<close> that meets no reserved page.\<close>

definition clear_of_reserved :: "nat \<Rightarrow> nat \<Rightarrow> bool" where
  "clear_of_reserved ib cb \<longleftrightarrow>
     (\<forall>p. isReservedPage p \<longrightarrow> p + kPageSize \<le> ib \<or> ib + cb \<le> p)"

lemma clear_of_reserved_scan:
  assumes "scan_reserved (cur div kPageSize * kPageSize) cur cb = None"
  shows "clear_of_reserved cur cb"
  unfolding clear_of_reserved_def
proof (intro allI impI)
  fix p assume p: "isReservedPage p"
  show "p + kPageSize \<le> cur \<or> cur + cb \<le> p"
  proof (rule ccontr)
    assume "\<not> ?thesis"
    then have meet: "cur < p + kPageSize" "p < cur + cb" by auto
    have al: "kPageSize dvd p" by (rule reserved_aligned [OF p])
    then have "cur div kPageSize * kPageSize \<le> p" using meet(1) by (elim dvdE) auto
    moreover have "kPageSize dvd p - cur div kPageSize * kPageSize"
      using al by (intro dvd_diff_nat) auto
    ultimately have "\<not> isReservedPage p"
      using scan_reserved_None [OF assms _ _ meet(2,1)] by blast
    with p show False by simp
  qed
qed

text \<open>
  For the sizes the writer asks for (at most 8192 bytes, far below the gap between reserved
  areas) the loop settles after at most two clashes, on a clear range.
\<close>

definition settles_at :: "nat \<Rightarrow> nat \<Rightarrow> nat \<Rightarrow> bool" where
  "settles_at cb cur ib \<longleftrightarrow>
     settle cb cur = Some ib \<and> cur \<le> ib \<and> clear_of_reserved ib cb \<and>
     (\<forall>p. cur \<le> p \<longrightarrow> p < ib \<longrightarrow> \<not> clear_of_reserved p cb) \<and>
     (cur = ib \<or> (\<exists>q. isReservedPage q \<and> cur < q + kPageSize \<and> ib = q + kPageSize))"

lemma settles_at_clear:
  "scan_reserved (cur div kPageSize * kPageSize) cur cb = None \<Longrightarrow> settles_at cb cur cur"
  by (simp add: settles_at_def settle.simps [of cb cur] clear_of_reserved_scan)

lemma settles_at_step:
  assumes "scan_reserved (cur div kPageSize * kPageSize) cur cb = Some q"
    and "settles_at cb (q + kPageSize) ib"
  shows "settles_at cb cur ib"
proof -
  have q: "isReservedPage q" "cur < q + kPageSize" using scan_reserved_Some [OF assms(1)] by auto
  have "settle cb cur = settle cb (q + kPageSize)"
    using assms(1) by (simp add: settle.simps [of cb cur])
  moreover have "\<not> clear_of_reserved p cb" if "cur \<le> p" "p < ib" for p
  proof (cases "p < q + kPageSize")
    case True
    then show ?thesis
      using scan_reserved_Some [OF assms(1)] that unfolding clear_of_reserved_def by fastforce
  next
    case False
    then show ?thesis using assms(2) that by (simp add: settles_at_def)
  qed
  ultimately show ?thesis using assms(2) q unfolding settles_at_def by fastforce
qed

lemma settle_total:
  assumes "cb \<le> 8192" "kFirstAMapPos \<le> cur"
  shows "\<exists>ib. settles_at cb cur ib \<and> ib \<le> cur + cb + 1024"
proof (cases "scan_reserved (cur div kPageSize * kPageSize) cur cb")
  case None
  then show ?thesis using settles_at_clear [of cur cb] by (intro exI [of _ cur]) simp
next
  case (Some q)
  note q = scan_reserved_Some [OF Some]
  have q_ge: "kFirstAMapPos \<le> q"
  proof -
    have "kPageSize dvd q" using q reserved_aligned by blast
    then show ?thesis using q assms(2) by (elim dvdE) simp
  qed
  let ?cur = "q + kPageSize"
  have "\<exists>ib. settles_at cb ?cur ib \<and> ib \<le> q + 1024"
  proof (cases "scan_reserved (?cur div kPageSize * kPageSize) ?cur cb")
    case None
    then show ?thesis using settles_at_clear [of ?cur cb] by (intro exI [of _ ?cur]) simp
  next
    case (Some q2)
    note q2 = scan_reserved_Some [OF Some]
    have gap: "q2 = q + 512" "(q - kFirstAMapPos) mod kAMapSpan = 0"
      using reserved_gap [of q q2] q q2 q_ge assms(1) by auto
    have "scan_reserved ((q2 + kPageSize) div kPageSize * kPageSize) (q2 + kPageSize) cb = None"
    proof (rule ccontr)
      assume "\<not> ?thesis"
      then obtain q3 where "scan_reserved ((q2 + kPageSize) div kPageSize * kPageSize) (q2 + kPageSize) cb = Some q3"
        by auto
      then have q3: "isReservedPage q3" "q2 < q3" "q3 < q2 + kPageSize + cb"
        using scan_reserved_Some by fastforce+
      have "(q2 - kFirstAMapPos) mod kAMapSpan = 512"
      proof -
        have "q2 - kFirstAMapPos = (q - kFirstAMapPos) + 512" using gap(1) q_ge by simp
        then show ?thesis using gap(2) by (simp only: mod_add_left_eq [symmetric, of "q - kFirstAMapPos"]) simp
      qed
      then show False
        using reserved_gap [of q2 q3] q2 q3 q_ge gap assms(1) by auto
    qed
    then have "settles_at cb ?cur (q2 + kPageSize)"
      by (intro settles_at_step [OF Some] settles_at_clear)
    then show ?thesis using gap(1) by (intro exI [of _ "q2 + kPageSize"]) simp
  qed
  then obtain ib where "settles_at cb cur ib" "ib \<le> q + 1024"
    using settles_at_step [OF Some] by blast
  then show ?thesis using q by (intro exI [of _ ib]) simp
qed

subsection \<open>What the bitmaps say\<close>

definition slot_marked :: "bytes \<Rightarrow> nat \<Rightarrow> bool" where
  "slot_marked bits b \<longleftrightarrow> b div 8 < length bits \<and> bit (bits ! (b div 8)) (7 - b mod 8)"

text \<open>The span a position belongs to, and whether the allocation maps mark its 64-byte slot.\<close>

definition span_of :: "nat \<Rightarrow> nat" where
  "span_of a = (a - kFirstAMapPos) div kAMapSpan"

definition marked :: "bytes list \<Rightarrow> nat \<Rightarrow> bool" where
  "marked maps a \<longleftrightarrow> kFirstAMapPos \<le> a \<and> span_of a < length maps \<and>
     slot_marked (maps ! span_of a) ((a - amap_pos (span_of a)) div kBlockAlign)"

definition amaps_wf :: "bytes list \<Rightarrow> bool" where
  "amaps_wf maps \<longleftrightarrow> (\<forall>bits \<in> set maps. length bits = 496)"

definition reserved_slot :: "nat \<Rightarrow> bool" where
  "reserved_slot a \<longleftrightarrow> kFirstAMapPos \<le> a \<and> isReservedPage (a div kPageSize * kPageSize)"

lemma bit_mark_mask: "k < 8 \<Longrightarrow> bit (drop_bit k (0x80 :: byte)) j \<longleftrightarrow> j + k = 7"
proof -
  assume "k < 8"
  have eq: "(0x80 :: byte) = push_bit 7 1" by simp
  have "bit (0x80 :: byte) i \<longleftrightarrow> i = 7" for i
    unfolding eq bit_push_bit_iff bit_1_iff possible_bit_word by (simp, linarith)
  then have "bit (drop_bit k (0x80 :: byte)) j \<longleftrightarrow> k + j = 7"
    by (simp only: bit_drop_bit_eq comp_apply)
  then show ?thesis by (simp add: add.commute)
qed

lemma length_mark_bit [simp]: "length (mark_bit b bits) = length bits"
  by (simp add: mark_bit_def)

lemma length_mark_bits [simp]: "length (mark_bits b n bits) = length bits"
  by (induction b n bits rule: mark_bits.induct) auto

lemma slot_marked_mark_bit:
  assumes "b div 8 < length bits"
  shows "slot_marked (mark_bit b bits) c \<longleftrightarrow> slot_marked bits c \<or> c = b"
proof (cases "c div 8 = b div 8")
  case True
  have "7 - c mod 8 + b mod 8 = 7 \<longleftrightarrow> c = b"
  proof -
    have "c mod 8 < 8" "b mod 8 < 8" by simp_all
    then have "7 - c mod 8 + b mod 8 = 7 \<longleftrightarrow> c mod 8 = b mod 8" by linarith
    also have "\<dots> \<longleftrightarrow> c = b" using True by (metis div_mult_mod_eq)
    finally show ?thesis .
  qed
  then show ?thesis
    using assms True by (auto simp: slot_marked_def mark_bit_def bit_or_iff bit_mark_mask)
next
  case False
  then show ?thesis by (auto simp: slot_marked_def mark_bit_def)
qed

lemma slot_marked_mark_bits:
  "slot_marked (mark_bits b n bits) c \<longleftrightarrow>
     slot_marked bits c \<or> (b \<le> c \<and> c < b + n \<and> c div 8 < length bits)"
proof (induction b n bits rule: mark_bits.induct)
  case (2 b n bits)
  show ?case
  proof (cases "length bits \<le> b div 8")
    case True
    then have "\<not> c div 8 < length bits" if "b \<le> c"
      using that div_le_mono [of b c 8] by linarith
    with True show ?thesis by auto
  next
    case False
    then have "slot_marked (mark_bits b (Suc n) bits) c \<longleftrightarrow>
        slot_marked bits c \<or> c = b \<or> Suc b \<le> c \<and> c < Suc b + n \<and> c div 8 < length bits"
      using 2 by (simp add: slot_marked_mark_bit)
    then show ?thesis using False by auto
  qed
qed auto

lemma span_of_eq: "amap_pos m \<le> a \<Longrightarrow> a < amap_pos (Suc m) \<Longrightarrow> span_of a = m"
  unfolding span_of_def amap_pos_def by (rule div_nat_eqI) auto

lemma span_of_bounds:
  "kFirstAMapPos \<le> a \<Longrightarrow> amap_pos (span_of a) \<le> a \<and> a < amap_pos (Suc (span_of a))"
  using div_mult_mod_eq [of "a - kFirstAMapPos" kAMapSpan]
    mod_less_divisor [of kAMapSpan "a - kFirstAMapPos"]
  unfolding span_of_def amap_pos_def mult_Suc by linarith

lemma amap_pos_ge: "kFirstAMapPos \<le> amap_pos m"
  by (simp add: amap_pos_def)

lemma amap_pos_dvd [simp]: "64 dvd amap_pos m" "512 dvd amap_pos m"
  unfolding amap_pos_def by (intro dvd_add dvd_mult; simp)+

text \<open>Marking inside one map, seen through \<open>marked\<close>.\<close>

lemma marked_mark_in:
  assumes wf: "amaps_wf maps" and m: "m < length maps"
    and ib: "amap_pos m \<le> ib" "ib < amap_pos (Suc m)"
    and al: "64 dvd ib" "64 dvd cb" "64 dvd a"
  shows "marked (mark_in m ib cb maps) a \<longleftrightarrow>
     marked maps a \<or> (ib \<le> a \<and> a < ib + cb \<and> a < amap_pos (Suc m))"
proof (cases "kFirstAMapPos \<le> a \<and> span_of a = m")
  case True
  have a: "amap_pos m \<le> a" "a < amap_pos (Suc m)" using True span_of_bounds [of a] by auto
  obtain i where i: "ib = amap_pos m + 64 * i"
    using al(1) ib(1) by (metis amap_pos_dvd(1) dvd_diff_nat dvdE le_add_diff_inverse)
  obtain k where k: "a = amap_pos m + 64 * k"
    using al(3) a(1) by (metis amap_pos_dvd(1) dvd_diff_nat dvdE le_add_diff_inverse)
  obtain n where n: "cb = 64 * n" using al(2) by (auto elim: dvdE)
  have "k < 3968" using a(2) k by (simp add: amap_pos_def)
  then have kd: "k div 8 < 496" by (intro less_mult_imp_div_less) simp
  have len: "length (maps ! m) = 496" using wf m by (simp add: amaps_wf_def)
  have "alignUp cb 64 div 64 = n" using n by (simp add: alignUp_id)
  then show ?thesis
    using True m kd len i k n a(2)
    by (auto simp: marked_def mark_in_def slot_marked_mark_bits)
next
  case False
  then have "\<not> (ib \<le> a \<and> a < amap_pos (Suc m))"
    using ib(1) amap_pos_ge [of m] span_of_eq [of m a] by auto
  then show ?thesis using False by (auto simp: marked_def mark_in_def)
qed

lemma amaps_wf_mark_in: "amaps_wf maps \<Longrightarrow> m < length maps \<Longrightarrow> amaps_wf (mark_in m ib cb maps)"
  unfolding amaps_wf_def mark_in_def
  by (auto simp: set_conv_nth nth_list_update)

lemma marked_snoc_empty: "marked (maps @ [replicate 496 0]) a \<longleftrightarrow> marked maps a"
  by (auto simp: marked_def slot_marked_def nth_append)

lemma fold_mark_in:
  assumes "\<And>p. p \<in> set ps \<Longrightarrow> amap_pos m \<le> p \<and> p < amap_pos (Suc m) \<and> 64 dvd p"
    and "m < length maps" "amaps_wf maps" "64 dvd a" "64 dvd cb"
  shows "amaps_wf (fold (\<lambda>p. mark_in m p cb) ps maps) \<and>
    (marked (fold (\<lambda>p. mark_in m p cb) ps maps) a \<longleftrightarrow>
      marked maps a \<or> (\<exists>p \<in> set ps. p \<le> a \<and> a < p + cb \<and> a < amap_pos (Suc m)))"
  using assms
proof (induction ps arbitrary: maps)
  case (Cons p ps)
  have "amaps_wf (mark_in m p cb maps)" using Cons.prems by (simp add: amaps_wf_mark_in)
  moreover have "marked (mark_in m p cb maps) a \<longleftrightarrow>
      marked maps a \<or> p \<le> a \<and> a < p + cb \<and> a < amap_pos (Suc m)"
    using Cons.prems by (intro marked_mark_in) auto
  ultimately show ?case
    using Cons.IH [of "mark_in m p cb maps"] Cons.prems by auto
qed simp

lemma page_floor: "512 dvd q \<Longrightarrow> q \<le> a \<Longrightarrow> a < q + 512 \<Longrightarrow> a div 512 * 512 = q" for a q :: nat
proof -
  assume "512 dvd q" and le: "q \<le> a" "a < q + 512"
  then obtain k where k: "q = 512 * k" by (auto elim: dvdE)
  have "a div 512 = k" using le k by (intro div_nat_eqI) auto
  then show ?thesis using k by simp
qed

lemma page_before: "512 dvd p \<Longrightarrow> 512 dvd q \<Longrightarrow> p < q \<Longrightarrow> p + 512 \<le> q" for p q :: nat
  by (elim dvdE) simp

lemma PMap_pos: "kFirstPMapPos + j * kPMapSpan = amap_pos (8 * j) + 512"
  by (simp add: amap_pos_def)

lemma reserved_in_span:
  "reserved_slot a \<and> span_of a = i \<longleftrightarrow>
     (amap_pos i \<le> a \<and> a < amap_pos i + 512) \<or>
     (\<exists>j. amap_pos i \<le> kFirstPMapPos + j * kPMapSpan \<and> kFirstPMapPos + j * kPMapSpan < amap_pos (Suc i) \<and>
          kFirstPMapPos + j * kPMapSpan \<le> a \<and> a < kFirstPMapPos + j * kPMapSpan + 512)"
    (is "?l \<longleftrightarrow> ?r1 \<or> (\<exists>j. ?r2 j)")
proof
  assume l: ?l
  define q where "q = a div 512 * 512"
  have q: "q \<le> a" "a < q + 512" "isReservedPage q"
    using l div_mult_mod_eq [of a 512] mod_less_divisor [of 512 a]
    unfolding q_def reserved_slot_def by linarith+
  have "a div 512 * 512 = a - a mod 512" by (simp add: minus_mod_eq_div_mult)
  have F: "kFirstAMapPos \<le> q"
  proof (rule ccontr)
    assume "\<not> ?thesis"
    then have "q + 512 \<le> kFirstAMapPos" by (intro page_before) (auto simp: q_def)
    then show False using q l by (simp add: reserved_slot_def)
  qed
  from q(3) show "?r1 \<or> (\<exists>j. ?r2 j)"
  proof (cases rule: reserved_cases)
    case 1
    with F show ?thesis by simp
  next
    case (2 k)
    then have qk: "q = amap_pos k" by (simp add: amap_pos_def)
    have "amap_pos k + 512 \<le> amap_pos (Suc k)" by (simp add: amap_pos_def)
    then have "span_of a = k" using q qk by (intro span_of_eq) auto
    then show ?thesis using l q qk by auto
  next
    case (3 k)
    then have qk: "q = amap_pos (8 * k) + 512" by (simp only: PMap_pos)
    have "amap_pos (8 * k) + 1024 \<le> amap_pos (Suc (8 * k))" by (simp add: amap_pos_def)
    then have "span_of a = 8 * k" "q < amap_pos (Suc (8 * k))"
      using q qk by (auto intro: span_of_eq)
    then have "?r2 k" using l q qk 3 by auto
    then show ?thesis by blast
  qed
next
  assume "?r1 \<or> (\<exists>j. ?r2 j)"
  then obtain q where q: "isReservedPage q" "512 dvd q" "amap_pos i \<le> q" "q < amap_pos (Suc i)" "q \<le> a" "a < q + 512"
  proof (elim disjE exE)
    assume ?r1
    moreover have "amap_pos i < amap_pos (Suc i)" by (simp add: amap_pos_def)
    ultimately show thesis by (intro that [of "amap_pos i"]) auto
  next
    fix j assume r: "?r2 j"
    have "isReservedPage (kFirstPMapPos + j * kPMapSpan)" by (simp add: isReservedPage_def)
    then show thesis using r reserved_aligned
      by (intro that [of "kFirstPMapPos + j * kPMapSpan"]) auto
  qed
  have "a < amap_pos (Suc i)" using page_before [OF q(2) amap_pos_dvd(2) q(4)] q by simp
  then show ?l
    using q amap_pos_ge [of i] span_of_eq [of i a] page_floor [of q a] by (simp add: reserved_slot_def)
qed

lemma amaps_wf_snoc: "amaps_wf maps \<Longrightarrow> amaps_wf (maps @ [replicate 496 0])"
  by (auto simp: amaps_wf_def)

lemma add_amap_marks:
  assumes wf: "amaps_wf (amaps st)" and a: "64 dvd a"
  shows "amaps_wf (amaps (add_amap st)) \<and>
    (marked (amaps (add_amap st)) a \<longleftrightarrow>
      marked (amaps st) a \<or> (reserved_slot a \<and> span_of a = length (amaps st)))"
proof -
  let ?i = "length (amaps st)"
  let ?m0 = "amaps st @ [replicate 496 0]"
  let ?m1 = "mark_in ?i (amap_pos ?i) kPageSize ?m0"
  have step: "amap_pos ?i + 1024 \<le> amap_pos (Suc ?i)" by (simp add: amap_pos_def)
  have wf1: "amaps_wf ?m1" using wf by (simp add: amaps_wf_snoc amaps_wf_mark_in)
  have m1: "marked ?m1 a \<longleftrightarrow> marked (amaps st) a \<or> (amap_pos ?i \<le> a \<and> a < amap_pos ?i + 512)"
    using step marked_mark_in [OF amaps_wf_snoc [OF wf], of ?i "amap_pos ?i" kPageSize a] a
    by (auto simp: marked_snoc_empty)
  show ?thesis
  proof (cases "?i = 0")
    case True
    have P: "kFirstPMapPos = amap_pos 0 + 512" by (simp add: amap_pos_def)
    have am: "amaps (add_amap st) = mark_in 0 kFirstPMapPos kPageSize ?m1"
      using True by (simp add: add_amap_def Let_def)
    have "marked (mark_in 0 kFirstPMapPos kPageSize ?m1) a \<longleftrightarrow>
        marked ?m1 a \<or> (kFirstPMapPos \<le> a \<and> a < kFirstPMapPos + kPageSize \<and> a < amap_pos (Suc 0))"
      using True step a by (intro marked_mark_in [OF wf1]) (auto simp: amap_pos_def)
    moreover have "reserved_slot a \<and> span_of a = 0 \<longleftrightarrow>
        (amap_pos 0 \<le> a \<and> a < amap_pos 0 + 512) \<or> (kFirstPMapPos \<le> a \<and> a < kFirstPMapPos + 512)"
    proof -
      have j0: "kFirstPMapPos + j * kPMapSpan < amap_pos (Suc 0) \<longleftrightarrow> j = 0" for j
        by (cases j) (simp_all add: amap_pos_def)
      show ?thesis unfolding reserved_in_span j0 by (auto simp: amap_pos_def)
    qed
    ultimately show ?thesis
      using am m1 True wf1 by (auto simp: amaps_wf_mark_in amap_pos_def)
  next
    case False
    let ?ps = "filter (\<lambda>p. amap_pos ?i \<le> p) (steps kFirstPMapPos (amap_pos ?i + kAMapSpan) kPMapSpan)"
    have end_eq: "amap_pos ?i + kAMapSpan = amap_pos (Suc ?i)" by (simp add: amap_pos_def)
    have am: "amaps (add_amap st) = fold (\<lambda>p. mark_in ?i p kPageSize) ?ps ?m1"
      using False by (simp add: add_amap_def Let_def)
    have ps: "p \<in> set ?ps \<longleftrightarrow> amap_pos ?i \<le> p \<and> p < amap_pos (Suc ?i) \<and> (\<exists>j. p = kFirstPMapPos + j * kPMapSpan)" for p
      unfolding end_eq by (auto simp: set_steps)
    have al: "512 dvd p" if "p \<in> set ?ps" for p
      using that unfolding ps PMap_pos by (auto intro: dvd_add)
    have "64 dvd p" if "p \<in> set ?ps" for p
      using dvd_trans [OF _ al [OF that], of 64] by simp
    then have f: "amaps_wf (fold (\<lambda>p. mark_in ?i p kPageSize) ?ps ?m1) \<and>
        (marked (fold (\<lambda>p. mark_in ?i p kPageSize) ?ps ?m1) a \<longleftrightarrow>
          marked ?m1 a \<or> (\<exists>p \<in> set ?ps. p \<le> a \<and> a < p + kPageSize \<and> a < amap_pos (Suc ?i)))"
      using ps wf1 a by (intro fold_mark_in) auto
    moreover have "(\<exists>p \<in> set ?ps. p \<le> a \<and> a < p + kPageSize \<and> a < amap_pos (Suc ?i)) \<longleftrightarrow>
        (\<exists>j. amap_pos ?i \<le> kFirstPMapPos + j * kPMapSpan \<and> kFirstPMapPos + j * kPMapSpan < amap_pos (Suc ?i) \<and>
          kFirstPMapPos + j * kPMapSpan \<le> a \<and> a < kFirstPMapPos + j * kPMapSpan + 512)"
    proof -
      have "a < amap_pos (Suc ?i)" if "p \<in> set ?ps" "a < p + 512" for p
        using page_before [OF al [OF that(1)] amap_pos_dvd(2), of "Suc ?i"] that ps by auto
      then show ?thesis unfolding Bex_def ps by blast
    qed
    ultimately show ?thesis
      unfolding am reserved_in_span using m1 by blast
  qed
qed

text \<open>\<open>ensureAMapCount\<close> touches the maps and the last map's position only.\<close>

definition same_but_maps :: "ndb \<Rightarrow> ndb \<Rightarrow> bool" where
  "same_but_maps st st' \<longleftrightarrow>
     cursor st' = cursor st \<and> next_bid_index st' = next_bid_index st \<and>
     ndb_finished st' = ndb_finished st \<and> bbt st' = bbt st \<and> nbt st' = nbt st \<and>
     file_end st' = file_end st \<and> amap_free st' = amap_free st \<and> pmap_free st' = pmap_free st \<and>
     disk st' = disk st"

lemma same_but_maps_refl [simp]: "same_but_maps st st"
  by (simp add: same_but_maps_def)

lemma same_but_maps_trans: "same_but_maps a b \<Longrightarrow> same_but_maps b c \<Longrightarrow> same_but_maps a c"
  by (simp add: same_but_maps_def)

definition maps_ok :: "ndb \<Rightarrow> bool" where
  "maps_ok st \<longleftrightarrow> amaps_wf (amaps st) \<and>
     (amaps st \<noteq> [] \<longrightarrow> last_amap_ib st = amap_pos (length (amaps st) - 1)) \<and>
     (\<forall>a. 64 dvd a \<longrightarrow> reserved_slot a \<longrightarrow> span_of a < length (amaps st) \<longrightarrow> marked (amaps st) a)"

lemma add_amap_ok: "maps_ok st \<Longrightarrow> maps_ok (add_amap st)"
proof -
  assume ok: "maps_ok st"
  have wf: "amaps_wf (amaps st)" using ok by (simp add: maps_ok_def)
  have "last_amap_ib (add_amap st) = amap_pos (length (amaps (add_amap st)) - 1)"
    by (simp add: add_amap_def Let_def)
  moreover have "marked (amaps (add_amap st)) a"
    if "64 dvd a" "reserved_slot a" "span_of a < length (amaps (add_amap st))" for a
  proof (cases "span_of a = length (amaps st)")
    case True
    with that show ?thesis using add_amap_marks [OF wf] by simp
  next
    case False
    with that have "span_of a < length (amaps st)" by simp
    with that ok have "marked (amaps st) a" by (simp add: maps_ok_def)
    then show ?thesis using add_amap_marks [OF wf that(1)] by simp
  qed
  moreover have "amaps_wf (amaps (add_amap st))" using add_amap_marks [OF wf, of 0] by simp
  ultimately show ?thesis by (simp add: maps_ok_def)
qed

lemma ensureAMapCount_spec:
  assumes "maps_ok st"
  shows "maps_ok (ensureAMapCount n st)"
    and "length (amaps (ensureAMapCount n st)) = max n (length (amaps st))"
    and "same_but_maps st (ensureAMapCount n st)"
    and "64 dvd a \<Longrightarrow> marked (amaps (ensureAMapCount n st)) a \<longleftrightarrow>
       marked (amaps st) a \<or> (reserved_slot a \<and> length (amaps st) \<le> span_of a \<and> span_of a < n)"
  using assms
proof (induction n st rule: ensureAMapCount.induct)
  case (1 n st)
  note eq = ensureAMapCount.simps [of n st]
  {
    case 1
    then show ?case using "1.IH"(1) add_amap_ok by (simp add: eq)
  next
    case 2
    then show ?case using "1.IH"(2) add_amap_ok by (simp add: eq)
  next
    case 3
    have "same_but_maps st (add_amap st)" by (simp add: same_but_maps_def add_amap_def Let_def)
    with 3 show ?case using "1.IH"(3) add_amap_ok same_but_maps_trans by (simp add: eq)
  next
    case 4
    then have "amaps_wf (amaps st)" by (simp add: maps_ok_def)
    with 4 show ?case using "1.IH"(4) add_amap_ok add_amap_marks [of st a] by (auto simp: eq)
  }
qed

text \<open>The recursive calls of the source, recovered: one turn of the loop is the push of a zeroed
  map followed by calls of \<open>markAllocated\<close>.\<close>

lemma markAllocated_present:
  assumes "kFirstAMapPos \<le> ib" "span_of ib < length (amaps st)"
  shows "markAllocated ib cb st = st\<lparr>amaps := mark_in (span_of ib) ib cb (amaps st)\<rparr>"
  using assms
  by (simp add: markAllocated_def span_of_def Let_def ensureAMapCount.simps)

lemma add_amap_calls:
  "add_amap st =
     (let index = length (amaps st); amap_ib = amap_pos index;
          st1 = markAllocated amap_ib kPageSize
                  (st\<lparr>amaps := amaps st @ [replicate 496 0], last_amap_ib := amap_ib\<rparr>)
      in if index = 0 then markAllocated kFirstPMapPos kPageSize st1
         else fold (\<lambda>p. markAllocated p kPageSize)
                (filter (\<lambda>p. p \<ge> amap_ib) (steps kFirstPMapPos (amap_ib + kAMapSpan) kPMapSpan)) st1)"
proof -
  let ?i = "length (amaps st)"
  have sp: "span_of (amap_pos ?i) = ?i" by (simp add: span_of_def amap_pos_def)
  have end_eq: "amap_pos ?i + kAMapSpan = amap_pos (Suc ?i)" by (simp add: amap_pos_def)
  have fold: "fold (\<lambda>p. markAllocated p kPageSize) ps s =
      s\<lparr>amaps := fold (\<lambda>p. mark_in ?i p kPageSize) ps (amaps s)\<rparr>"
    if "\<And>p. p \<in> set ps \<Longrightarrow> amap_pos ?i \<le> p \<and> p < amap_pos (Suc ?i)" "?i < length (amaps s)" for ps s
    using that
  proof (induction ps arbitrary: s)
    case (Cons p ps)
    have "span_of p = ?i" "kFirstAMapPos \<le> p"
      using Cons.prems(1) [of p] amap_pos_ge [of ?i] by (auto intro: span_of_eq)
    then show ?case using Cons by (simp add: markAllocated_present)
  qed simp
  have zero: "markAllocated kFirstPMapPos kPageSize s = s\<lparr>amaps := mark_in 0 kFirstPMapPos kPageSize (amaps s)\<rparr>"
    if "amaps s \<noteq> []" for s
    using that markAllocated_present [of kFirstPMapPos s kPageSize] by (simp add: span_of_def)
  have one: "markAllocated (amap_pos ?i) kPageSize s = s\<lparr>amaps := mark_in ?i (amap_pos ?i) kPageSize (amaps s)\<rparr>"
    if "?i < length (amaps s)" for s
    using that markAllocated_present [of "amap_pos ?i" s kPageSize] amap_pos_ge by (simp add: sp)
  show ?thesis
  proof (cases "?i = 0")
    case True
    note one0 = one [unfolded True]
    show ?thesis using True by (simp add: add_amap_def Let_def zero one0 mark_in_def)
  next
    case False
    then show ?thesis
      using fold [of "filter (\<lambda>p. p \<ge> amap_pos ?i) (steps kFirstPMapPos (amap_pos (Suc ?i)) kPMapSpan)"]
      by (simp add: add_amap_def Let_def one end_eq set_steps)
  qed
qed

subsection \<open>The allocator's contract\<close>

text \<open>
  The state of the space manager is well formed: the maps describe exactly the reserved pages of
  the spans they cover and space below the cursor, and they cover the cursor.
\<close>

definition space_ok :: "ndb \<Rightarrow> bool" where
  "space_ok st \<longleftrightarrow>
     kFirstDataPos \<le> cursor st \<and> 64 dvd cursor st \<and> amaps st \<noteq> [] \<and> maps_ok st \<and>
     amap_pos (length (amaps st) - 1) \<le> cursor st \<and> cursor st \<le> amap_pos (length (amaps st)) \<and>
     (\<forall>a. 64 dvd a \<longrightarrow> marked (amaps st) a \<longrightarrow>
        reserved_slot a \<or> (kFirstDataPos \<le> a \<and> a < cursor st))"

lemma clear_within_span:
  assumes "clear_of_reserved ib cb" "kFirstAMapPos \<le> ib"
  shows "ib + cb \<le> amap_pos (Suc (span_of ib))"
  using assms(1) [unfolded clear_of_reserved_def, rule_format, of "amap_pos (Suc (span_of ib))"]
    span_of_bounds [OF assms(2)] by auto

lemma markAllocated_spec:
  assumes ok: "maps_ok st" and ib: "kFirstAMapPos \<le> ib" "64 dvd ib" "64 dvd cb"
    and within: "ib + cb \<le> amap_pos (Suc (span_of ib))"
  shows "maps_ok (markAllocated ib cb st)"
    and "length (amaps (markAllocated ib cb st)) = max (Suc (span_of ib)) (length (amaps st))"
    and "same_but_maps st (markAllocated ib cb st)"
    and "64 dvd a \<Longrightarrow> marked (amaps (markAllocated ib cb st)) a \<longleftrightarrow>
       marked (amaps st) a \<or> (ib \<le> a \<and> a < ib + cb) \<or>
       (reserved_slot a \<and> length (amaps st) \<le> span_of a \<and> span_of a \<le> span_of ib)"
proof -
  let ?m = "span_of ib" and ?e = "ensureAMapCount (Suc (span_of ib)) st"
  have eq: "markAllocated ib cb st = ?e\<lparr>amaps := mark_in ?m ib cb (amaps ?e)\<rparr>"
    using ib(1) by (simp add: markAllocated_def span_of_def Let_def)
  note e = ensureAMapCount_spec [OF ok, where n = "Suc ?m"]
  have m: "?m < length (amaps ?e)" using e(2) by simp
  have wf: "amaps_wf (amaps ?e)" using e(1) by (simp add: maps_ok_def)
  have mk: "marked (mark_in ?m ib cb (amaps ?e)) a \<longleftrightarrow> marked (amaps ?e) a \<or> (ib \<le> a \<and> a < ib + cb)"
    if "64 dvd a" for a
    using marked_mark_in [OF wf m _ _ ib(2,3) that] span_of_bounds [OF ib(1)] within by auto
  show "length (amaps (markAllocated ib cb st)) = max (Suc ?m) (length (amaps st))"
    using e(2) by (simp add: eq)
  show "same_but_maps st (markAllocated ib cb st)"
    using e(3) by (simp add: eq same_but_maps_def)
  have "marked (mark_in ?m ib cb (amaps ?e)) a"
    if "64 dvd a" "reserved_slot a" "span_of a < length (amaps ?e)" for a
    using e(1) that mk [OF that(1)] unfolding maps_ok_def by blast
  moreover have "mark_in ?m ib cb (amaps ?e) \<noteq> [] \<longleftrightarrow> amaps ?e \<noteq> []"
    by (simp add: mark_in_def)
  ultimately show "maps_ok (markAllocated ib cb st)"
    using e(1) amaps_wf_mark_in [OF wf m] unfolding eq maps_ok_def by simp
  show "64 dvd a \<Longrightarrow> marked (amaps (markAllocated ib cb st)) a \<longleftrightarrow>
       marked (amaps st) a \<or> (ib \<le> a \<and> a < ib + cb) \<or>
       (reserved_slot a \<and> length (amaps st) \<le> span_of a \<and> span_of a \<le> ?m)"
    using e(4) [of a] mk [of a] unfolding eq by (simp add: less_Suc_eq_le) blast
qed

text \<open>What one successful allocation does to the state.\<close>

definition allocated :: "nat \<Rightarrow> ndb \<Rightarrow> nat \<Rightarrow> ndb \<Rightarrow> bool" where
  "allocated cb st ib st' \<longleftrightarrow>
     space_ok st' \<and> cursor st \<le> ib \<and> 64 dvd ib \<and> clear_of_reserved ib cb \<and> cursor st' = ib + cb \<and>
     length (amaps st) \<le> length (amaps st') \<and>
     (\<forall>a. 64 dvd a \<longrightarrow> (marked (amaps st') a \<longleftrightarrow>
        marked (amaps st) a \<or> (ib \<le> a \<and> a < ib + cb) \<or>
        (reserved_slot a \<and> span_of a < length (amaps st')))) \<and>
     same_but_maps (st\<lparr>cursor := ib + cb\<rparr>) st'"

lemma allocate_spec:
  assumes ok: "space_ok st" and cb: "cb \<le> 8192"
  shows "\<exists>ib st'. allocate cb st = Some (Inr ib, st') \<and> allocated (alignUp cb 64) st ib st' \<and>
    ib \<le> cursor st + alignUp cb 64 + 1024 \<and>
    (\<forall>p. cursor st \<le> p \<longrightarrow> p < ib \<longrightarrow> \<not> clear_of_reserved p (alignUp cb 64))"
proof -
  let ?c = "alignUp cb 64"
  have c: "?c \<le> 8192" "64 dvd ?c"
    using alignUp_less [of 64 cb] cb page_before [of 0] by (auto simp: alignUp_def)
  obtain ib where ib: "settles_at ?c (cursor st) ib" "ib \<le> cursor st + ?c + 1024"
    using settle_total [OF c(1), of "cursor st"] ok by (auto simp: space_ok_def)
  have settle: "settle ?c (cursor st) = Some ib" and ge: "cursor st \<le> ib"
    and clear: "clear_of_reserved ib ?c"
    using ib(1) by (simp_all add: settles_at_def)
  have first: "\<forall>p. cursor st \<le> p \<longrightarrow> p < ib \<longrightarrow> \<not> clear_of_reserved p ?c"
    using ib(1) by (simp add: settles_at_def)
  have al: "64 dvd ib"
  proof -
    consider "ib = cursor st" | q where "isReservedPage q" "ib = q + 512"
      using ib(1) by (auto simp: settles_at_def)
    then show ?thesis
    proof cases
      case 1
      with ok show ?thesis by (simp add: space_ok_def)
    next
      case 2
      then have "512 dvd ib" using reserved_aligned by auto
      then show ?thesis by (rule dvd_trans [rotated]) simp
    qed
  qed
  have F: "kFirstAMapPos \<le> ib" "kFirstDataPos \<le> ib" using ge ok by (auto simp: space_ok_def)
  let ?st1 = "st\<lparr>cursor := ib + ?c\<rparr>"
  let ?st2 = "markAllocated ib ?c ?st1"
  have maps1: "maps_ok ?st1" using ok by (simp add: space_ok_def maps_ok_def)
  note m = markAllocated_spec [OF maps1 F(1) al c(2) clear_within_span [OF clear F(1)]]
  have len: "length (amaps ?st2) = max (Suc (span_of ib)) (length (amaps st))" using m(2) by simp
  have marks: "marked (amaps ?st2) a \<longleftrightarrow> marked (amaps st) a \<or> (ib \<le> a \<and> a < ib + ?c) \<or>
      (reserved_slot a \<and> span_of a < length (amaps ?st2))" if "64 dvd a" for a
  proof -
    have "reserved_slot a \<Longrightarrow> span_of a < length (amaps st) \<Longrightarrow> marked (amaps st) a"
      using ok that by (simp add: space_ok_def maps_ok_def)
    moreover have "span_of a < length (amaps ?st2) \<longleftrightarrow> span_of a < length (amaps st) \<or> span_of a \<le> span_of ib"
      unfolding len by (simp add: less_max_iff_disj) linarith
    ultimately show ?thesis using m(4) [OF that] by (simp add: not_less [symmetric]) blast
  qed
  have cur: "cursor ?st2 = ib + ?c" using m(3) by (simp add: same_but_maps_def)
  have "ib + ?c \<le> amap_pos (length (amaps ?st2))"
    by (rule order_trans [OF clear_within_span [OF clear F(1)]])
      (simp only: len amap_pos_def, intro add_mono mult_le_mono; simp)
  moreover have "reserved_slot a \<or> (kFirstDataPos \<le> a \<and> a < ib + ?c)"
    if "64 dvd a" "marked (amaps ?st2) a" for a
  proof -
    have "marked (amaps st) a \<Longrightarrow> reserved_slot a \<or> (kFirstDataPos \<le> a \<and> a < cursor st)"
      using ok that(1) by (simp add: space_ok_def)
    then show ?thesis using marks [OF that(1)] that(2) ge F(2) by linarith
  qed
  moreover have "amaps ?st2 \<noteq> []" using len by auto
  moreover have "amap_pos (length (amaps ?st2) - 1) \<le> ib + ?c"
  proof (cases "Suc (span_of ib) \<le> length (amaps st)")
    case True
    then have "length (amaps ?st2) = length (amaps st)" using len by simp
    then show ?thesis using ok ge by (simp add: space_ok_def)
  next
    case False
    then have "length (amaps ?st2) - 1 = span_of ib" using len by simp
    then show ?thesis using span_of_bounds [OF F(1)] by simp
  qed
  moreover have "64 dvd ib + ?c" using al c(2) by (rule dvd_add)
  ultimately have "space_ok ?st2"
    using m(1) F(2) unfolding space_ok_def cur by simp
  moreover have "same_but_maps (st\<lparr>cursor := ib + ?c\<rparr>) ?st2" by (rule m(3))
  moreover have "allocate cb st = Some (Inr ib, ?st2)"
    using settle by (simp add: allocate_def Let_def)
  moreover have "length (amaps st) \<le> length (amaps ?st2)" by (simp add: len)
  ultimately show ?thesis
    using ge al clear cur marks ib(2) first unfolding allocated_def by blast
qed

lemma allocatePage_spec:
  assumes ok: "space_ok st"
  shows "\<exists>ib st'. allocatePage st = Some (Inr ib, st') \<and> allocated kPageSize st ib st' \<and>
    kPageSize dvd ib \<and> ib \<le> cursor st + 2048"
proof -
  let ?c = "alignUp (cursor st) kPageSize"
  have le: "cursor st \<le> ?c" by (rule alignUp_ge) simp
  have bound: "?c \<le> amap_pos (length (amaps st))"
  proof (rule ccontr)
    assume "\<not> ?thesis"
    then have "amap_pos (length (amaps st)) + 512 \<le> ?c" by (intro page_before) auto
    moreover have "?c < cursor st + 512" by (rule alignUp_less) simp
    ultimately show False using ok by (simp add: space_ok_def)
  qed
  have "64 dvd ?c" by (rule dvd_trans [of 64 512]) simp_all
  then have ok1: "space_ok (st\<lparr>cursor := ?c\<rparr>)"
    using ok le bound unfolding space_ok_def maps_ok_def by fastforce
  obtain ib st' where *: "allocate kPageSize (st\<lparr>cursor := ?c\<rparr>) = Some (Inr ib, st')"
      "allocated (alignUp kPageSize 64) (st\<lparr>cursor := ?c\<rparr>) ib st'"
      "ib \<le> ?c + alignUp kPageSize 64 + 1024"
    using allocate_spec [OF ok1, of kPageSize] by auto
  have c512: "alignUp kPageSize 64 = kPageSize" by (simp add: alignUp_id)
  have "allocated kPageSize st ib st'"
    using *(2) le unfolding allocated_def c512 by simp
  moreover have "kPageSize dvd ib"
  proof -
    have "settle kPageSize ?c = Some ib"
      using *(1) by (auto simp: allocate_def c512 split: option.splits)
    moreover obtain ib' where "settles_at kPageSize ?c ib'"
      using settle_total [of kPageSize ?c] le ok by (auto simp: space_ok_def)
    ultimately show ?thesis using reserved_aligned by (auto simp: settles_at_def)
  qed
  moreover have "ib \<le> cursor st + 2048"
    using *(3) alignUp_less [of kPageSize "cursor st"] unfolding c512 by simp
  ultimately show ?thesis using *(1) by (auto simp: allocatePage_def)
qed


subsection \<open>The interface of an allocator\<close>

text \<open>
  What the code above the allocator relies on: from a well-formed state a request of an admissible
  size succeeds, and the extent it returns starts at or above everything handed out before, ends
  at or below the new top, and is a good one. The client's lemma is about a whole run of requests.
\<close>

locale space_allocator =
  fixes alloc :: "nat \<Rightarrow> ('s, nat) prog"
    and fits :: "nat \<Rightarrow> bool"
    and extent :: "nat \<Rightarrow> nat"
    and good :: "nat \<Rightarrow> nat \<Rightarrow> bool"
    and wf :: "'s \<Rightarrow> bool"
    and top_of :: "'s \<Rightarrow> nat"
    and used :: "'s \<Rightarrow> nat \<Rightarrow> bool"
    and fixed :: "nat \<Rightarrow> bool"
  assumes alloc_total: "fits cb \<Longrightarrow> wf st \<Longrightarrow> \<exists>ib st'. alloc cb st = Some (Inr ib, st')"
    and alloc_wf: "fits cb \<Longrightarrow> wf st \<Longrightarrow> alloc cb st = Some (Inr ib, st') \<Longrightarrow> wf st'"
    and alloc_extent: "fits cb \<Longrightarrow> wf st \<Longrightarrow> alloc cb st = Some (Inr ib, st') \<Longrightarrow>
          top_of st \<le> ib \<and> ib + extent cb \<le> top_of st' \<and> good ib (extent cb)"
    and alloc_used: "fits cb \<Longrightarrow> wf st \<Longrightarrow> alloc cb st = Some (Inr ib, st') \<Longrightarrow> 64 dvd a \<Longrightarrow>
          \<not> fixed a \<Longrightarrow> used st' a \<longleftrightarrow> used st a \<or> (ib \<le> a \<and> a < ib + extent cb)"
begin

lemma run_total:
  "\<forall>cb \<in> set cbs. fits cb \<Longrightarrow> wf st \<Longrightarrow> \<exists>ibs st'. mapM alloc cbs st = Some (Inr ibs, st')"
proof (induction cbs arbitrary: st)
  case (Cons cb cbs)
  then obtain ib st1 where 1: "alloc cb st = Some (Inr ib, st1)" using alloc_total by fastforce
  then have "wf st1" using Cons.prems alloc_wf [of cb st ib st1] by simp
  then obtain ibs st2 where "mapM alloc cbs st1 = Some (Inr ibs, st2)"
    using Cons.IH [of st1] Cons.prems(1) by auto
  with 1 show ?case by (auto simp: prog_simps)
qed (simp add: prog_simps)

text \<open>A run hands out ascending, pairwise disjoint, good extents between the old and the new
  top, and uses exactly those.\<close>

lemma run_extents:
  assumes "\<forall>cb \<in> set cbs. fits cb" "wf st" "mapM alloc cbs st = Some (Inr ibs, st')"
  shows "wf st' \<and> top_of st \<le> top_of st' \<and>
    sorted_wrt (\<lambda>(i, n) (j, m). i + n \<le> j) (zip ibs (map extent cbs)) \<and>
    (\<forall>(i, n) \<in> set (zip ibs (map extent cbs)). top_of st \<le> i \<and> i + n \<le> top_of st' \<and> good i n) \<and>
    (\<forall>a. 64 dvd a \<longrightarrow> \<not> fixed a \<longrightarrow> (used st' a \<longleftrightarrow> used st a \<or>
       (\<exists>(i, n) \<in> set (zip ibs (map extent cbs)). i \<le> a \<and> a < i + n)))"
  using assms
proof (induction cbs arbitrary: st ibs)
  case Nil
  then show ?case by (simp add: prog_simps)
next
  case (Cons cb cbs)
  obtain ib st1 js where run: "alloc cb st = Some (Inr ib, st1)"
      "mapM alloc cbs st1 = Some (Inr js, st')" and ibs: "ibs = ib # js"
    using Cons.prems(3) by (auto simp: bindM_Inr_iff prog_simps)
  have fits: "fits cb" "wf st" using Cons.prems by simp_all
  note IH = Cons.IH [OF _ alloc_wf [OF fits run(1)] run(2)]
  have e: "top_of st \<le> ib" "ib + extent cb \<le> top_of st1" "good ib (extent cb)"
    using alloc_extent [OF fits run(1)] by simp_all
  have rest: "top_of st1 \<le> i \<and> i + n \<le> top_of st' \<and> good i n"
    if "(i, n) \<in> set (zip js (map extent cbs))" for i n
    using IH Cons.prems(1) that by auto
  have "sorted_wrt (\<lambda>(i, n) (j, m). i + n \<le> j) (zip ibs (map extent (cb # cbs)))"
    using IH Cons.prems(1) rest e(2) unfolding ibs by fastforce
  moreover have "top_of st \<le> i \<and> i + n \<le> top_of st' \<and> good i n"
    if "(i, n) \<in> set (zip ibs (map extent (cb # cbs)))" for i n
    using that rest [of i n] e IH Cons.prems(1) unfolding ibs by auto
  moreover have "used st' a \<longleftrightarrow> used st a \<or>
       (\<exists>(i, n) \<in> set (zip ibs (map extent (cb # cbs))). i \<le> a \<and> a < i + n)"
    if "64 dvd a" "\<not> fixed a" for a
    using IH Cons.prems(1) alloc_used [OF fits run(1) that] that unfolding ibs by auto
  ultimately show ?case using IH Cons.prems(1) e by auto
qed

end

definition in_map :: "ndb \<Rightarrow> nat \<Rightarrow> bool" where
  "in_map st a \<longleftrightarrow> marked (amaps st) a"

lemma allocate_law:
  assumes "cb \<le> 8192" "space_ok st" "allocate cb st = Some (Inr ib, st')"
  shows "allocated (alignUp cb 64) st ib st'"
  using allocate_spec [OF assms(2,1)] assms(3) by auto

lemma allocatePage_law:
  assumes "space_ok st" "allocatePage st = Some (Inr ib, st')"
  shows "allocated kPageSize st ib st' \<and> kPageSize dvd ib"
  using allocatePage_spec [OF assms(1)] assms(2) by auto

interpretation block_space: space_allocator allocate "\<lambda>cb. cb \<le> 8192" "\<lambda>cb. alignUp cb kBlockAlign"
  "\<lambda>ib n. kBlockAlign dvd ib \<and> clear_of_reserved ib n" space_ok cursor in_map reserved_slot
proof
  show "\<exists>ib st'. allocate cb st = Some (Inr ib, st')" if "cb \<le> 8192" "space_ok st" for cb st
    using allocate_spec [OF that(2,1)] by blast
qed (auto dest!: allocate_law simp: allocated_def in_map_def)

interpretation page_space: space_allocator "\<lambda>_. allocatePage" "\<lambda>_. True" "\<lambda>_. kPageSize"
  "\<lambda>ib n. kPageSize dvd ib \<and> clear_of_reserved ib n" space_ok cursor in_map reserved_slot
proof
  show "\<exists>ib st'. allocatePage st = Some (Inr ib, st')" if "True" "space_ok st" for st
    using allocatePage_spec [OF that(2)] by blast
qed (auto dest!: allocatePage_law simp: allocated_def in_map_def)

subsection \<open>A fresh writer\<close>

lemma maps_ok_empty: "amaps st = [] \<Longrightarrow> maps_ok st"
  by (simp add: maps_ok_def amaps_wf_def)

lemma NdbWriter_new_ok:
  assumes "NdbWriter_new path opens accepts = Inr st"
  shows "space_ok st" "amaps st \<noteq> []" "cursor st = kFirstDataPos"
    "next_bid_index st = 1" "\<not> ndb_finished st" "bbt st = []" "nbt st = []"
    "\<not> dk_failed (disk st)" "dk_accepts (disk st) = accepts" "dk_size (disk st) = kFirstDataPos"
    "64 dvd a \<Longrightarrow> \<not> reserved_slot a \<Longrightarrow> \<not> in_map st a"
proof -
  define st0 where "st0 = \<lparr>cursor = kFirstDataPos, next_bid_index = 1, ndb_finished = False, bbt = [],
     nbt = [], amaps = [], last_amap_ib = kFirstAMapPos, file_end = kFirstDataPos, amap_free = 0,
     pmap_free = 0, disk = \<lparr>dk_bytes = (\<lambda>_. 0), dk_size = kFirstDataPos, dk_failed = False,
     dk_accepts = accepts\<rparr>\<rparr>"
  have st: "st = ensureAMapCount 1 st0"
    using assms by (auto simp: NdbWriter_new_def st0_def split: if_splits)
  have mk0: "maps_ok st0" by (rule maps_ok_empty) (simp add: st0_def)
  note e = ensureAMapCount_spec [OF mk0, where n = 1, folded st]
  have same: "same_but_maps st0 st" by (rule e(3))
  then show "cursor st = kFirstDataPos" "next_bid_index st = 1" "\<not> ndb_finished st" "bbt st = []"
    "nbt st = []" "\<not> dk_failed (disk st)" "dk_accepts (disk st) = accepts"
    "dk_size (disk st) = kFirstDataPos"
    by (simp_all add: same_but_maps_def st0_def)
  have len: "length (amaps st) = 1" using e(2) by (simp add: st0_def)
  then show "amaps st \<noteq> []" by auto
  have mk: "marked (amaps st) a \<longleftrightarrow> reserved_slot a \<and> span_of a < 1" if "64 dvd a" for a
    using e(4) [OF that] by (simp add: st0_def marked_def)
  then show "64 dvd a \<Longrightarrow> \<not> reserved_slot a \<Longrightarrow> \<not> in_map st a" by (simp add: in_map_def)
  show "space_ok st"
    using e(1) len mk \<open>cursor st = kFirstDataPos\<close> \<open>amaps st \<noteq> []\<close>
    by (simp add: space_ok_def amap_pos_def)
qed

subsection \<open>Properties\<close>

text \<open>
  C6: From a well-formed writer any sequence of block allocations (each of at most 8192 bytes, the
  largest block) returns, the extents are 64-byte aligned, ascend without overlapping each other
  or anything allocated before, and none of them touches an AMap, PMap or DList page.
\<close>

theorem allocate_run:
  assumes "\<forall>cb \<in> set cbs. cb \<le> 8192" and "space_ok st"
  shows "\<exists>ibs st'. mapM allocate cbs st = Some (Inr ibs, st') \<and> length ibs = length cbs \<and>
    space_ok st' \<and>
    sorted_wrt (\<lambda>(i, n) (j, m). i + n \<le> j) (zip ibs (map (\<lambda>cb. alignUp cb kBlockAlign) cbs)) \<and>
    (\<forall>(i, n) \<in> set (zip ibs (map (\<lambda>cb. alignUp cb kBlockAlign) cbs)).
       cursor st \<le> i \<and> i + n \<le> cursor st' \<and> kBlockAlign dvd i \<and>
       (\<forall>p. isReservedPage p \<longrightarrow> p + kPageSize \<le> i \<or> i + n \<le> p))"
proof -
  obtain ibs st' where run: "mapM allocate cbs st = Some (Inr ibs, st')"
    using block_space.run_total [OF assms] by blast
  then show ?thesis
    using block_space.run_extents [OF assms run] mapM_length [OF run]
    by (auto simp: clear_of_reserved_def)
qed

lemma allocate_run_witness:
  "\<exists>st ibs st'. NdbWriter_new ''mail.pst'' True (\<lambda>_ _. True) = Inr st \<and>
     mapM allocate [100, 8192, 64] st = Some (Inr ibs, st') \<and> length ibs = 3 \<and> space_ok st'"
proof -
  obtain st where st: "NdbWriter_new ''mail.pst'' True (\<lambda>_ _. True) = Inr st"
    by (simp add: NdbWriter_new_def)
  show ?thesis
    using allocate_run [of "[100, 8192, 64]" st] NdbWriter_new_ok(1) [OF st] st by auto
qed

text \<open>
  The allocator is first fit: a block request of at most 8192 bytes is served at the least
  position at or after the cursor from which the padded block meets no reserved page.
\<close>

theorem allocate_first_fit:
  assumes "cb \<le> 8192" and "space_ok st"
  shows "\<exists>st'. allocate cb st =
    Some (Inr (LEAST ib. cursor st \<le> ib \<and> clear_of_reserved ib (alignUp cb kBlockAlign)), st')"
proof -
  obtain ib st' where a: "allocate cb st = Some (Inr ib, st')" "allocated (alignUp cb 64) st ib st'"
    and first: "\<forall>p. cursor st \<le> p \<longrightarrow> p < ib \<longrightarrow> \<not> clear_of_reserved p (alignUp cb 64)"
    using allocate_spec [OF assms(2,1)] by blast
  have "(LEAST p. cursor st \<le> p \<and> clear_of_reserved p (alignUp cb 64)) = ib"
    by (rule Least_equality) (use a(2) first in \<open>auto simp: allocated_def not_less [symmetric]\<close>)
  with a(1) show ?thesis by simp
qed

lemma allocate_first_fit_witness:
  "\<exists>st st'. NdbWriter_new ''mail.pst'' True (\<lambda>_ _. True) = Inr st \<and> allocate 8192 st =
    Some (Inr (LEAST ib. cursor st \<le> ib \<and> clear_of_reserved ib (alignUp 8192 kBlockAlign)), st')"
proof -
  obtain st where st: "NdbWriter_new ''mail.pst'' True (\<lambda>_ _. True) = Inr st"
    by (simp add: NdbWriter_new_def)
  show ?thesis using allocate_first_fit [of 8192 st] NdbWriter_new_ok(1) [OF st] st by blast
qed

text \<open>
  C7: The allocation maps are exact. After a fresh writer has served any sequence of page and block
  requests, a 64-byte slot of a covered span is marked in the maps if and only if it lies in a
  reserved page or in an extent handed out.
\<close>

theorem amaps_exact:
  assumes new: "NdbWriter_new path opens accepts = Inr st"
    and fits: "\<forall>cb \<in> set cbs. cb \<le> 8192"
    and blocks: "mapM allocate cbs st = Some (Inr ibs, st1)"
    and pages: "mapM (\<lambda>_. allocatePage) [0..<n] st1 = Some (Inr pibs, st2)"
    and a: "64 dvd a" "kFirstAMapPos \<le> a" "a < amap_pos (length (amaps st2))"
  shows "marked (amaps st2) a \<longleftrightarrow> reserved_slot a \<or>
    (\<exists>(i, cb) \<in> set (zip ibs cbs). i \<le> a \<and> a < i + alignUp cb kBlockAlign) \<or>
    (\<exists>i \<in> set pibs. i \<le> a \<and> a < i + kPageSize)"
proof (cases "reserved_slot a")
  case True
  note b = block_space.run_extents [OF fits NdbWriter_new_ok(1) [OF new] blocks]
  have "space_ok st2" using page_space.run_extents [OF _ _ pages] b by simp
  moreover have "span_of a < length (amaps st2)"
  proof (rule ccontr)
    assume "\<not> ?thesis"
    then have "amap_pos (length (amaps st2)) \<le> amap_pos (span_of a)" by (simp add: amap_pos_def)
    then show False using a span_of_bounds [of a] by simp
  qed
  ultimately have "marked (amaps st2) a" using True a by (simp add: space_ok_def maps_ok_def)
  with True show ?thesis by simp
next
  case False
  note b = block_space.run_extents [OF fits NdbWriter_new_ok(1) [OF new] blocks]
  have len: "length pibs = length [0..<n]" using mapM_length [OF pages] .
  have "marked (amaps st2) a \<longleftrightarrow> marked (amaps st1) a \<or>
      (\<exists>(i, n) \<in> set (zip pibs (map (\<lambda>_. kPageSize) [0..<n])). i \<le> a \<and> a < i + n)"
    using page_space.run_extents [OF _ _ pages] b a(1) False by (simp add: in_map_def)
  also have "zip pibs (map (\<lambda>_. kPageSize) [0..<n]) = map (\<lambda>i. (i, kPageSize)) pibs"
    using len by (simp add: list_eq_iff_nth_eq)
  also have "marked (amaps st1) a \<longleftrightarrow>
      (\<exists>(i, n) \<in> set (zip ibs (map (\<lambda>cb. alignUp cb kBlockAlign) cbs)). i \<le> a \<and> a < i + n)"
    using b a(1) False NdbWriter_new_ok(11) [OF new a(1) False] by (simp add: in_map_def)
  finally show ?thesis using False by (simp add: zip_map2 split_def)
qed

lemma amaps_exact_witness:
  "\<exists>st st1 st2 ib ib2. NdbWriter_new ''mail.pst'' True (\<lambda>_ _. True) = Inr st \<and>
     mapM allocate [8192] st = Some (Inr [ib], st1) \<and>
     mapM (\<lambda>_. allocatePage) [0..<1] st1 = Some (Inr [ib2], st2) \<and>
     (marked (amaps st2) kFirstAMapPos \<longleftrightarrow> reserved_slot kFirstAMapPos \<or>
        (ib \<le> kFirstAMapPos \<and> kFirstAMapPos < ib + alignUp 8192 kBlockAlign) \<or>
        (ib2 \<le> kFirstAMapPos \<and> kFirstAMapPos < ib2 + kPageSize))"
proof -
  obtain st where st: "NdbWriter_new ''mail.pst'' True (\<lambda>_ _. True) = Inr st"
    by (simp add: NdbWriter_new_def)
  have ok: "space_ok st" by (rule NdbWriter_new_ok(1) [OF st])
  obtain ib st1 where b: "allocate 8192 st = Some (Inr ib, st1)" "space_ok st1"
    using allocate_spec [OF ok, of 8192] by (auto simp: allocated_def)
  obtain ib2 st2 where p: "allocatePage st1 = Some (Inr ib2, st2)" "space_ok st2"
    using allocatePage_spec [OF b(2)] by (auto simp: allocated_def)
  have bs: "mapM allocate [8192] st = Some (Inr [ib], st1)"
    and ps: "mapM (\<lambda>_. allocatePage) [0..<1] st1 = Some (Inr [ib2], st2)"
    using b p by (simp_all add: prog_simps)
  have "amaps st2 \<noteq> []" using p(2) by (simp add: space_ok_def)
  then have "kFirstAMapPos < amap_pos (length (amaps st2))" by (simp add: amap_pos_def)
  then show ?thesis
    using st bs ps amaps_exact [OF st _ bs ps, of kFirstAMapPos] by auto
qed

end
