(* ===== verification/Pst_Crc.thy ===== *)
theory Pst_Crc
  imports Pst_Format
begin

section \<open>The weak CRC-32 (src/pst/crc.cpp)\<close>

text \<open>
  The table-driven checksum as the code computes it, the bit-serial shift register it stands
  for, and their equivalence. The register step is linear over exclusive or and has a trivial
  kernel, which is what makes the checksum detect every change confined to one byte.
\<close>

subsection \<open>The code\<close>

text \<open>One turn of the inner loop of \<open>makeTable\<close>.\<close>

definition crc_step :: "32 word \<Rightarrow> 32 word" where
  "crc_step c = (if c AND 1 \<noteq> 0 then 0xEDB88320 XOR drop_bit 1 c else drop_bit 1 c)"

definition makeTable :: "32 word list" where
  "makeTable = map (\<lambda>i. (crc_step ^^ 8) (of_nat i)) [0..<256]"

definition crc_update :: "32 word \<Rightarrow> byte \<Rightarrow> 32 word" where
  "crc_update crc b = makeTable ! unat ((crc XOR ucast b) AND 0xFF) XOR drop_bit 8 crc"

definition computeCrc_seed :: "32 word \<Rightarrow> bytes \<Rightarrow> 32 word" where
  "computeCrc_seed seed data = foldl crc_update seed data"

text \<open>The two-argument overload of \<open>crc.h\<close>: seed zero.\<close>

definition computeCrc :: "bytes \<Rightarrow> 32 word" where
  "computeCrc data = computeCrc_seed 0 data"

subsection \<open>The specification: a bit-serial register\<close>

definition crc_serial :: "32 word \<Rightarrow> bytes \<Rightarrow> 32 word" where
  "crc_serial seed data = foldl (\<lambda>crc b. (crc_step ^^ 8) (crc XOR ucast b)) seed data"

subsection \<open>Linearity\<close>

lemma and_1_bit: "(c :: 32 word) AND 1 \<noteq> 0 \<longleftrightarrow> bit c 0"
  unfolding and_one_eq bit_0 odd_iff_mod_2_eq_one by (metis even_iff_mod_2_eq_zero odd_iff_mod_2_eq_one zero_neq_one)

lemma xor_cancel:
  "c XOR x = d XOR x \<longleftrightarrow> c = d" "x XOR c = x XOR d \<longleftrightarrow> c = d" for c d x :: "32 word"
  by (auto simp: bit_eq_iff bit_xor_iff)

lemma xor_zero_eq: "a XOR b = 0 \<longleftrightarrow> a = b" for a b :: "32 word"
  using xor_cancel(2) [of a b a] by auto

lemma crc_step_xor: "crc_step (a XOR b) = crc_step a XOR crc_step b"
proof -
  have "drop_bit 1 (a XOR b) = drop_bit 1 a XOR drop_bit 1 b" by simp
  moreover have "bit (a XOR b) 0 \<longleftrightarrow> bit a 0 \<noteq> bit b 0" by (simp add: bit_xor_iff)
  ultimately show ?thesis
    unfolding crc_step_def and_1_bit
    by (cases "bit a 0"; cases "bit b 0") (simp_all add: xor.assoc xor.left_commute)
qed

lemma crc_step_0 [simp]: "crc_step 0 = 0"
  by (simp add: crc_step_def)

lemma crc_steps_xor: "(crc_step ^^ n) (a XOR b) = (crc_step ^^ n) a XOR (crc_step ^^ n) b"
  by (induction n) (simp_all add: crc_step_xor)

lemma crc_step_kernel: "crc_step c = 0 \<Longrightarrow> c = 0"
proof (cases "bit c 0")
  case True
  assume "crc_step c = 0"
  then have "bit (crc_step c) 31 = False" by simp
  moreover have "bit (crc_step c) 31"
    using True by (simp add: crc_step_def and_1_bit bit_xor_iff bit_drop_bit_eq bit_imp_le_length
        bit_numeral_rec) (auto dest: bit_imp_le_length)
  ultimately show ?thesis by simp
next
  case False
  assume "crc_step c = 0"
  then have "drop_bit 1 c = 0" using False by (simp add: crc_step_def and_1_bit)
  then have hi: "\<not> bit c (Suc n)" for n
  proof -
    have "bit (drop_bit 1 c) n \<longleftrightarrow> bit c (Suc n)" by (simp only: bit_drop_bit_eq comp_apply plus_1_eq_Suc)
    then show ?thesis using \<open>drop_bit 1 c = 0\<close> by simp
  qed
  have "\<not> bit c n" for n
    using False hi by (cases n) simp_all
  then show ?thesis by (intro bit_word_eqI) simp
qed

lemma crc_steps_kernel: "(crc_step ^^ n) c = 0 \<Longrightarrow> c = 0"
  by (induction n) (auto dest: crc_step_kernel)

lemma crc_steps_inject: "(crc_step ^^ n) a = (crc_step ^^ n) b \<longleftrightarrow> a = b"
proof
  assume "(crc_step ^^ n) a = (crc_step ^^ n) b"
  then have "(crc_step ^^ n) (a XOR b) = 0" by (simp add: crc_steps_xor)
  then show "a = b" using crc_steps_kernel xor_zero_eq by blast
qed simp

text \<open>A register whose low byte is clear only shifts.\<close>

lemma crc_step_even: "\<not> bit c 0 \<Longrightarrow> crc_step c = drop_bit 1 c"
  by (simp add: crc_step_def and_1_bit)

lemma crc_steps_shift: "(\<And>i. i < n \<Longrightarrow> \<not> bit c i) \<Longrightarrow> (crc_step ^^ n) c = drop_bit n c"
proof (induction n)
  case 0
  show ?case by simp
next
  case (Suc n)
  then have "(crc_step ^^ n) c = drop_bit n c" by simp
  moreover have "\<not> bit (drop_bit n c) 0" using Suc.prems by (simp add: bit_drop_bit_eq)
  ultimately show ?case by (simp add: crc_step_even)
qed

subsection \<open>Table and register agree\<close>

lemma makeTable_nth: "unat (x :: 32 word) < 256 \<Longrightarrow> makeTable ! unat x = (crc_step ^^ 8) x"
  by (simp add: makeTable_def)

lemma crc_update_serial: "crc_update crc b = (crc_step ^^ 8) (crc XOR ucast b)"
proof -
  let ?x = "crc XOR ucast b"
  have low: "?x AND 0xFF = take_bit 8 ?x"
    by (simp add: take_bit_eq_mask mask_eq_exp_minus_1)
  have "unat (?x AND 0xFF) < 256"
    unfolding low unsigned_take_bit_eq using take_bit_nat_less_exp [of 8 "unat ?x"] by simp
  then have tab: "makeTable ! unat (?x AND 0xFF) = (crc_step ^^ 8) (take_bit 8 ?x)"
    by (simp add: makeTable_nth low)
  have "(crc_step ^^ 8) (push_bit 8 (drop_bit 8 ?x)) = drop_bit 8 (push_bit 8 (drop_bit 8 ?x))"
    by (rule crc_steps_shift) (auto simp: bit_simps)
  also have "\<dots> = drop_bit 8 crc"
    by (rule bit_word_eqI) (auto simp: bit_simps dest: bit_imp_le_length)
  finally have hi: "(crc_step ^^ 8) (push_bit 8 (drop_bit 8 ?x)) = drop_bit 8 crc" .
  have split: "take_bit 8 ?x XOR push_bit 8 (drop_bit 8 ?x) = ?x"
  proof (rule bit_word_eqI)
    show "bit (take_bit 8 ?x XOR push_bit 8 (drop_bit 8 ?x)) n \<longleftrightarrow> bit ?x n" if "n < LENGTH(32)" for n
      using that by (cases "n < 8") (auto simp: bit_simps)
  qed
  show ?thesis
    unfolding crc_update_def tab hi [symmetric] by (simp only: crc_steps_xor [symmetric] split)
qed

lemma computeCrc_seed_append:
  "computeCrc_seed seed (xs @ ys) = computeCrc_seed (computeCrc_seed seed xs) ys"
  by (simp add: computeCrc_seed_def)

lemma crc_update_inject:
  "crc_update c b = crc_update d b \<longleftrightarrow> c = d"
  "crc_update c a = crc_update c b \<longleftrightarrow> a = b"
proof -
  have "(ucast a :: 32 word) = ucast b \<longleftrightarrow> a = b" for a b :: byte
  proof -
    have "unat (ucast x :: 32 word) = unat x" for x :: byte
      using unsigned_less [of x, where ?'a = nat] by (simp add: unsigned_ucast_eq take_bit_nat_eq_self)
    then show ?thesis by (metis word_unat_eq_iff)
  qed
  then show "crc_update c b = crc_update d b \<longleftrightarrow> c = d"
    and "crc_update c a = crc_update c b \<longleftrightarrow> a = b"
    by (simp_all add: crc_update_serial crc_steps_inject xor_cancel)
qed

lemma computeCrc_seed_inject: "computeCrc_seed c xs = computeCrc_seed d xs \<longleftrightarrow> c = d"
  unfolding computeCrc_seed_def
  by (induction xs arbitrary: c d) (auto simp: crc_update_inject)

subsection \<open>Properties\<close>

text \<open>C12: the table-driven checksum of the code computes the bit-serial reflected CRC with
  polynomial 0xEDB88320, for every seed and every byte string.\<close>

theorem computeCrc_is_serial: "computeCrc_seed seed data = crc_serial seed data"
  proof -
  have "crc_update = (\<lambda>crc b. (crc_step ^^ 8) (crc XOR ucast b))"
    by (intro ext) (rule crc_update_serial)
  then show ?thesis by (simp only: computeCrc_seed_def crc_serial_def)
qed

text \<open>C11: the checksum detects every corruption of a single byte: two byte strings that differ
  in exactly one byte have different checksums.\<close>

theorem computeCrc_detects_byte:
  assumes "b \<noteq> b'"
  shows "computeCrc (xs @ b # ys) \<noteq> computeCrc (xs @ b' # ys)"
proof -
  have "computeCrc_seed c (b # ys) \<noteq> computeCrc_seed c (b' # ys)" for c
    using assms computeCrc_seed_inject [of "crc_update c b" ys "crc_update c b'"]
    by (simp add: computeCrc_seed_def crc_update_inject)
  then show ?thesis by (simp add: computeCrc_def computeCrc_seed_append)
qed

theorem computeCrc_detects_byte_witness:
  "computeCrc ([1, 2] @ 3 # [4]) \<noteq> computeCrc ([1, 2] @ 7 # [4])"
  by (rule computeCrc_detects_byte) simp

end
