(* ===== verification/Ndb_Block.thy ===== *)
theory Ndb_Block
  imports Ndb_Space Pst_Crc Store
begin

section \<open>Blocks, data trees and subnode trees (src/pst/ndb.cpp)\<close>

text \<open>
  Emission of blocks with their trailers, the XBLOCK and XXBLOCK trees that hold values larger
  than one block, the SLBLOCK and SIBLOCK trees that list subnodes, and a reader of each written
  from the file format. The store's contract (a block once written reads back under its BID for
  ever) is the locale \<open>block_store\<close>, interpreted on \<open>emitBlock\<close>.
\<close>

subsection \<open>Blocks\<close>

abbreviation (input) kXBlockFanout :: nat where "kXBlockFanout \<equiv> 1021"
abbreviation (input) kSlBlockFanout :: nat where "kSlBlockFanout \<equiv> 340"
abbreviation (input) kSiBlockFanout :: nat where "kSiBlockFanout \<equiv> 510"

lemma fanouts:
  "kXBlockFanout = (kMaxBlockData - 8) div 8" "kSlBlockFanout = (kMaxBlockData - 8) div 24"
  "kSiBlockFanout = (kMaxBlockData - 8) div 16"
  by simp_all

text \<open>\<open>next_bid_index_++\<close>.\<close>

definition next_bid :: "bool \<Rightarrow> (ndb, bid) prog" where
  "next_bid internal st =
     Some (Inr (makeBid (next_bid_index st) internal), st\<lparr>next_bid_index := next_bid_index st + 1\<rparr>)"

text \<open>The padded block: the payload, zeros, and the trailer in the last 16 bytes.\<close>

definition block_image :: "nat \<Rightarrow> bid \<Rightarrow> nat \<Rightarrow> bytes \<Rightarrow> bytes" where
  "block_image ib bid cb_total data =
     (let t = cb_total - 16;
          buf = memcpy 0 data (replicate cb_total 0);
          buf = poke16 t (of_nat (length data)) buf;
          buf = poke16 (t + 2) (computeSig (of_nat ib) bid) buf;
          buf = poke32 (t + 4) (computeCrc data) buf
      in poke64 (t + 8) bid buf)"

definition emitBlock :: "bytes \<Rightarrow> bool \<Rightarrow> (ndb, bid) prog" where
  "emitBlock data internal =
     bindM (throw_if (length data > kMaxBlockData) (PstError ''block payload exceeds 8176 bytes'')) (\<lambda>_.
     let cb_total = alignUp (length data + 16) kBlockAlign in
     bindM (allocate cb_total) (\<lambda>ib.
     bindM (next_bid internal) (\<lambda>bid.
     bindM (writeAt ib (block_image ib bid cb_total data)) (\<lambda>_.
     bindM (modM (\<lambda>st. st\<lparr>bbt := bbt st @
              [\<lparr>be_bid = bid, be_ib = ib, be_cb = of_nat (length data)\<rparr>]\<rparr>)) (\<lambda>_.
     ret bid)))))"

subsection \<open>Data trees\<close>

definition xblock_image :: "bid list \<Rightarrow> byte \<Rightarrow> 32 word \<Rightarrow> bytes" where
  "xblock_image children level total_bytes =
     fold (\<lambda>b buf. put64 buf b) children
       (put32 (put16 (put8 (put8 [] 0x01) level) (of_nat (length children))) total_bytes)"

definition emitXBlock :: "bid list \<Rightarrow> byte \<Rightarrow> 32 word \<Rightarrow> (ndb, bid) prog" where
  "emitXBlock children level total_bytes = emitBlock (xblock_image children level total_bytes) True"

definition writeLeafChunk :: "bytes \<Rightarrow> (ndb, bid) prog" where
  "writeLeafChunk data = emitBlock data False"

text \<open>The slices of the loop over \<open>leaves\<close>, with the bytes each XBLOCK covers.\<close>

definition xblock_slices :: "bid list \<Rightarrow> 64 word \<Rightarrow> (bid list \<times> 32 word) list" where
  "xblock_slices leaves total_bytes =
     map (\<lambda>(k, slice). (slice, ucast (min (of_nat (length slice * kMaxBlockData))
            (total_bytes - of_nat (k * kXBlockFanout * kMaxBlockData)))))
       (enumerate 0 (chunks kXBlockFanout leaves))"

definition assembleDataTree :: "bid list \<Rightarrow> 64 word \<Rightarrow> (ndb, bid) prog" where
  "assembleDataTree leaves total_bytes =
     (if leaves = [] then emitBlock [] False
      else if length leaves = 1 then ret (hd leaves)
      else bindM (throw_if (total_bytes > 0xFFFFFFFF) (PstError ''data tree larger than 4 GiB'')) (\<lambda>_.
        if length leaves \<le> kXBlockFanout then emitXBlock leaves 1 (ucast total_bytes)
        else bindM (mapM (\<lambda>(slice, covered). emitXBlock slice 1 covered) (xblock_slices leaves total_bytes)) (\<lambda>xblocks.
          bindM (throw_if (length xblocks > kXBlockFanout)
                  (PstError ''data tree needs more than two levels; not supported'')) (\<lambda>_.
            emitXBlock xblocks 2 (ucast total_bytes)))))"

definition writeData :: "bytes \<Rightarrow> (ndb, bid) prog" where
  "writeData data =
     (if length data \<le> kMaxBlockData then emitBlock data False
      else bindM (mapM writeLeafChunk (chunks kMaxBlockData data)) (\<lambda>leaves.
        assembleDataTree leaves (of_nat (length data))))"

subsection \<open>Subnode trees and nodes\<close>

record subnode =
  sn_nid :: nid
  sn_data :: bid
  sn_sub :: bid

text \<open>\<open>emit_sl\<close> on a slice of the sorted entries; NIDs are stored zero-extended.\<close>

definition sl_image :: "subnode list \<Rightarrow> bytes" where
  "sl_image entries =
     fold (\<lambda>e buf. put64 (put64 (put64 buf (ucast (sn_nid e))) (sn_data e)) (sn_sub e)) entries
       (put32 (put16 (put8 (put8 [] 0x02) 0x00) (of_nat (length entries))) 0)"

definition emit_sl :: "subnode list \<Rightarrow> (ndb, bid) prog" where
  "emit_sl entries = emitBlock (sl_image entries) True"

definition si_image :: "(nid \<times> bid) list \<Rightarrow> bytes" where
  "si_image children =
     fold (\<lambda>(key, bid) buf. put64 (put64 buf (ucast key)) bid) children
       (put32 (put16 (put8 (put8 [] 0x02) 0x01) (of_nat (length children))) 0)"

text \<open>\<open>children.push_back({entries[i].nid, emit_sl(i, n)})\<close>.\<close>

definition emit_child :: "subnode list \<Rightarrow> (ndb, nid \<times> bid) prog" where
  "emit_child es = bindM (emit_sl es) (\<lambda>b. ret (sn_nid (hd es), b))"

text \<open>\<open>std::sort\<close> by NID; it is stable here, which the code's only leaves open for equal NIDs.\<close>

definition writeSubnodes :: "subnode list \<Rightarrow> (ndb, bid) prog" where
  "writeSubnodes unsorted =
     (if unsorted = [] then ret 0
      else let entries = sort_key sn_nid unsorted in
        if length entries \<le> kSlBlockFanout then emit_sl entries
        else bindM (mapM emit_child (chunks kSlBlockFanout entries)) (\<lambda>children.
          bindM (throw_if (length children > kSiBlockFanout)
                  (PstError ''subnode tree needs more than two levels; not supported'')) (\<lambda>_.
            emitBlock (si_image children) True)))"

definition addNode :: "nid \<Rightarrow> bid \<Rightarrow> bid \<Rightarrow> nid \<Rightarrow> (ndb, unit) prog" where
  "addNode nid data sub parent =
     modM (\<lambda>st. st\<lparr>nbt := nbt st @ [\<lparr>ne_nid = nid, ne_data = data, ne_sub = sub, ne_parent = parent\<rparr>]\<rparr>)"

definition fileSize :: "ndb \<Rightarrow> nat" where
  "fileSize st = cursor st"


subsection \<open>Reading blocks back\<close>

text \<open>What a reader of the file does with a BBT entry: check the trailer, return the payload.\<close>

definition block_size :: "bbt_entry \<Rightarrow> nat" where
  "block_size e = alignUp (unat (be_cb e) + 16) kBlockAlign"

definition read_block :: "disk \<Rightarrow> bbt_entry \<Rightarrow> bytes option" where
  "read_block d e =
     (let image = disk_slice (be_ib e) (block_size e) d;
          trailer = drop (block_size e - 16) image;
          data = take (unat (be_cb e)) image
      in if peek16 trailer = be_cb e \<and>
            peek16 (drop 2 trailer) = computeSig (of_nat (be_ib e)) (be_bid e) \<and>
            peek32 (drop 4 trailer) = computeCrc data \<and>
            peek64 (drop 8 trailer) = be_bid e
         then Some data else None)"

definition lookup_block :: "ndb \<Rightarrow> bid \<Rightarrow> bytes option" where
  "lookup_block st b =
     (case find (\<lambda>e. be_bid e = b) (bbt st) of None \<Rightarrow> None | Some e \<Rightarrow> read_block (disk st) e)"

lemma block_image_eq:
  assumes "length data + 16 \<le> n"
  shows "block_image ib bid n data =
    (data @ replicate (n - 16 - length data) 0) @
    le_bytes 2 (of_nat (length data) :: 16 word) @ le_bytes 2 (computeSig (of_nat ib) bid) @
    le_bytes 4 (computeCrc data) @ le_bytes 8 bid"
proof -
  define k where "k = n - 16 - length data"
  have n: "n = length data + (k + 16)" using assms by (simp add: k_def)
  define P :: bytes where "P = data @ replicate k 0"
  have lP: "length P = n - 16" by (simp add: P_def n)
  have z: "replicate (n - length data) (0 :: byte) =
      replicate k 0 @ replicate 2 0 @ replicate 2 0 @ replicate 4 0 @ replicate 8 0"
    by (simp add: n replicate_add [symmetric])
  have 0: "memcpy 0 data (replicate n (0 :: byte)) =
      P @ replicate 2 0 @ replicate 2 0 @ replicate 4 0 @ replicate 8 0"
    unfolding memcpy_def by (simp only: drop_replicate z P_def append.simps take_0 add_0 append_assoc)
  have 1: "poke16 (n - 16) v (P @ replicate 2 0 @ r) = P @ le_bytes 2 v @ r" for v r
    unfolding poke16_def by (rule memcpy_append) (simp_all add: lP)
  have 2: "poke16 (n - 16 + 2) v (P @ a @ replicate 2 0 @ r) = P @ a @ le_bytes 2 v @ r"
    if "length a = 2" for v a r
    using memcpy_append [of "P @ a" "n - 16 + 2" "replicate 2 0" "le_bytes 2 v" r] that lP
    by (simp add: poke16_def)
  have 3: "poke32 (n - 16 + 4) v (P @ a @ b @ replicate 4 0 @ r) = P @ a @ b @ le_bytes 4 v @ r"
    if "length a = 2" "length b = 2" for v a b r
    using memcpy_append [of "P @ a @ b" "n - 16 + 4" "replicate 4 0" "le_bytes 4 v" r] that lP
    by (simp add: poke32_def)
  have 4: "poke64 (n - 16 + 8) v (P @ a @ b @ c @ replicate 8 0) = P @ a @ b @ c @ le_bytes 8 v"
    if "length a = 2" "length b = 2" "length c = 4" for v a b c
    using memcpy_append [of "P @ a @ b @ c" "n - 16 + 8" "replicate 8 0" "le_bytes 8 v" "[]"] that lP
    by (simp add: poke64_def)
  show ?thesis
    unfolding block_image_def Let_def 0 by (simp only: 1 2 3 4 length_le_bytes) (simp add: P_def k_def)
qed

lemma length_block_image [simp]:
  "length data + 16 \<le> n \<Longrightarrow> length (block_image ib bid n data) = n"
  by (simp add: block_image_eq)

lemma read_block_image:
  assumes len: "length data \<le> kMaxBlockData"
    and img: "disk_slice ib (alignUp (length data + 16) kBlockAlign) d =
       block_image ib bid (alignUp (length data + 16) kBlockAlign) data"
  shows "read_block d \<lparr>be_bid = bid, be_ib = ib, be_cb = of_nat (length data)\<rparr> = Some data"
proof -
  have cb: "unat (of_nat (length data) :: 16 word) = length data"
    using len by (intro unat_small) simp
  let ?n = "alignUp (length data + 16) 64"
  have n: "length data + 16 \<le> ?n" by (rule alignUp_ge) simp
  define P where "P = data @ replicate (?n - 16 - length data) (0 :: byte)"
  have lP: "length P = ?n - 16" using n by (simp add: P_def)
  have P: "take (length data) (P @ r) = data" for r by (simp add: P_def)
  show ?thesis
    unfolding read_block_def block_size_def Let_def bbt_entry.simps cb img block_image_eq [OF n]
      P_def [symmetric] P
    by (simp add: lP)
qed

text \<open>A block is untouched by writes above it and by writes to reserved pages.\<close>

lemma read_block_cong:
  assumes "\<And>a. be_ib e \<le> a \<Longrightarrow> a < be_ib e + block_size e \<Longrightarrow> dk_bytes d' a = dk_bytes d a"
  shows "read_block d' e = read_block d e"
proof -
  have "disk_slice (be_ib e) (block_size e) d' = disk_slice (be_ib e) (block_size e) d"
    using assms by (auto simp: disk_slice_def)
  then show ?thesis by (simp add: read_block_def)
qed

subsection \<open>The invariant of the store\<close>

definition entry_ok :: "ndb \<Rightarrow> bbt_entry \<Rightarrow> bool" where
  "entry_ok st e \<longleftrightarrow>
     read_block (disk st) e \<noteq> None \<and> kFirstDataPos \<le> be_ib e \<and> kBlockAlign dvd be_ib e \<and>
     be_ib e + block_size e \<le> cursor st \<and> clear_of_reserved (be_ib e) (block_size e) \<and>
     be_ib e < 2 ^ 63 \<and> (\<exists>n i. be_bid e = makeBid n i \<and> 0 < n \<and> unat n < 2 ^ 57 \<and>
            (\<not> dk_failed (disk st) \<longrightarrow> n < next_bid_index st))"

definition store_ok :: "ndb \<Rightarrow> bool" where
  "store_ok st \<longleftrightarrow>
     space_ok st \<and> (\<not> dk_failed (disk st) \<longrightarrow> 0 < next_bid_index st) \<and>
     unat (next_bid_index st) * 64 \<le> cursor st \<and> dk_size (disk st) \<le> cursor st \<and>
     (\<not> dk_failed (disk st) \<longrightarrow> dk_size (disk st) = cursor st) \<and>
     distinct (map be_bid (bbt st)) \<and> (\<forall>e \<in> set (bbt st). entry_ok st e)"

text \<open>Every block readable before is readable, with the same contents, after.\<close>

definition preserves :: "ndb \<Rightarrow> ndb \<Rightarrow> bool" where
  "preserves st st' \<longleftrightarrow> (\<forall>b x. lookup_block st b = Some x \<longrightarrow> lookup_block st' b = Some x)"


lemma preserves_refl [simp]: "preserves st st"
  by (simp add: preserves_def)

lemma preserves_trans: "preserves a b \<Longrightarrow> preserves b c \<Longrightarrow> preserves a c"
  by (simp add: preserves_def)

lemma store_ok_nbt [simp]:
  "store_ok (st\<lparr>nbt := ns\<rparr>) = store_ok st" "lookup_block (st\<lparr>nbt := ns\<rparr>) b = lookup_block st b"
  by (simp_all add: store_ok_def space_ok_def maps_ok_def entry_ok_def lookup_block_def split: option.split)

lemma find_SomeD: "find P xs = Some x \<Longrightarrow> x \<in> set xs"
  by (auto simp: find_Some_iff)

lemma lookup_block_entry:
  "store_ok st \<Longrightarrow> e \<in> set (bbt st) \<Longrightarrow> lookup_block st (be_bid e) = read_block (disk st) e"
  by (simp add: lookup_block_def store_ok_def find_distinct)

lemma lookup_block_SomeD:
  "lookup_block st b = Some x \<Longrightarrow> \<exists>e \<in> set (bbt st). be_bid e = b \<and> read_block (disk st) e = Some x"
  by (auto simp: lookup_block_def find_Some_iff split: option.splits)

lemma lookup_block_bid:
  assumes "store_ok st" "lookup_block st b = Some x"
  shows "b \<noteq> 0"
proof -
  obtain e where "e \<in> set (bbt st)" "be_bid e = b" using lookup_block_SomeD [OF assms(2)] by blast
  then obtain n i where "b = makeBid n i" "0 < n" "unat n < 2 ^ 57"
    using assms(1) unfolding store_ok_def entry_ok_def by blast
  moreover have "makeBid 0 False = 0" by (simp add: makeBid_def)
  ultimately show ?thesis using makeBid_inject [of n 0 i False] by fastforce
qed

text \<open>
  A step that keeps the table of blocks, moves the cursor up only and writes nothing below the
  old cursor keeps the store.
\<close>

lemma store_ok_frame:
  assumes ok: "store_ok st" and space: "space_ok st'"
    and bbt: "bbt st' = bbt st" and cur: "cursor st \<le> cursor st'"
    and bytes: "\<And>a. a < cursor st \<Longrightarrow> dk_bytes (disk st') a = dk_bytes (disk st) a"
    and idx: "unat (next_bid_index st') * 64 \<le> cursor st'"
    and size: "dk_size (disk st') \<le> cursor st'" "\<not> dk_failed (disk st') \<Longrightarrow> dk_size (disk st') = cursor st'"
    and mono: "\<not> dk_failed (disk st') \<Longrightarrow> \<not> dk_failed (disk st) \<and> next_bid_index st \<le> next_bid_index st'"
  shows "store_ok st'" and "preserves st st'"
proof -
  have read: "read_block (disk st') e = read_block (disk st) e" if "e \<in> set (bbt st)" for e
    using ok that bytes by (intro read_block_cong) (auto simp: store_ok_def entry_ok_def)
  have "entry_ok st' e" if e: "e \<in> set (bbt st)" for e
  proof -
    have "entry_ok st e" using ok e by (simp add: store_ok_def)
    then show ?thesis using read [OF e] cur mono unfolding entry_ok_def by fastforce
  qed
  then show "store_ok st'"
    using ok space bbt idx mono size by (auto simp: store_ok_def)
  show "preserves st st'"
    unfolding preserves_def
  proof (intro allI impI)
    fix b x assume "lookup_block st b = Some x"
    then show "lookup_block st' b = Some x"
      using read bbt unfolding lookup_block_def by (auto split: option.splits dest: find_SomeD)
  qed
qed

lemma unat_succ_le: "unat (n + 1) \<le> Suc (unat n)" for n :: "64 word"
proof (cases "n + 1 = 0")
  case False
  then show ?thesis by (simp add: unatSuc add.commute)
qed simp


lemma index_step:
  assumes "unat (n :: 64 word) < 2 ^ 57"
  shows "unat (n + 1) = Suc (unat n)" "n < n + 1"
proof -
  have "unat (n + 1) = (unat n + 1) mod 2 ^ 64" by (simp add: unat_word_ariths)
  then show u: "unat (n + 1) = Suc (unat n)" using assms by simp
  then show "n < n + 1" by (simp add: word_less_nat_alt)
qed

text \<open>The effect of \<open>emitBlock\<close>, on every outcome: too long, the file refuses the write, done.\<close>

lemma emitBlock_too_long:
  "length data > kMaxBlockData \<Longrightarrow>
   emitBlock data i st = Some (Inl (PstError ''block payload exceeds 8176 bytes''), st)"
  by (simp add: emitBlock_def prog_simps)

lemma emitBlock_steps:
  assumes ok: "store_ok st" and len: "length data \<le> kMaxBlockData"
  obtains ib st1 where
    "allocated (alignUp (length data + 16) 64) st ib st1" "ib \<le> cursor st + 9216"
    "emitBlock data i st =
       (let bid = makeBid (next_bid_index st) i;
            st2 = st1\<lparr>next_bid_index := next_bid_index st + 1\<rparr>;
            image = block_image ib bid (alignUp (length data + 16) 64) data;
            d = disk st
        in if dk_failed d \<or> 2 ^ 63 \<le> ib \<or> \<not> dk_accepts d ib (length image)
           then Some (Inl (PstError ''short write to PST file''), st2\<lparr>disk := d\<lparr>dk_failed := True\<rparr>\<rparr>)
           else Some (Inr bid, st2\<lparr>disk := disk_put ib image d,
              bbt := bbt st @ [\<lparr>be_bid = bid, be_ib = ib, be_cb = of_nat (length data)\<rparr>]\<rparr>))"
proof -
  let ?n = "alignUp (length data + 16) 64"
  have n8: "?n \<le> 8192" using alignUp_less [of 64 "length data + 16"] len page_before [of ?n 8192]
    by (auto simp: alignUp_def)
  have al: "alignUp ?n 64 = ?n" by (simp add: alignUp_id)
  obtain ib st1 where a: "allocate ?n st = Some (Inr ib, st1)" "allocated ?n st ib st1"
      "ib \<le> cursor st + ?n + 1024"
    using allocate_spec [of st ?n] ok n8 by (auto simp: store_ok_def al)
  have f: "next_bid_index st1 = next_bid_index st" "bbt st1 = bbt st" "disk st1 = disk st"
    using a(2) by (simp_all add: allocated_def same_but_maps_def)
  show thesis
    by (rule that [OF a(2)])
       (use n8 a(3) len a(1) f in \<open>auto simp: emitBlock_def Let_def prog_simps next_bid_def writeAt_def bindM_def modM_def\<close>)
qed

lemma emitBlock_law:
  assumes ok: "store_ok st" and run: "emitBlock data i st = Some (r, st')"
  shows "store_ok st' \<and> preserves st st' \<and>
    (\<forall>b. r = Inr b \<longrightarrow> lookup_block st b = None \<and> lookup_block st' b = Some data \<and> bidIsInternal b = i)"
proof (cases "length data \<le> kMaxBlockData")
  case False
  then show ?thesis using run ok emitBlock_too_long [of data i st] by auto
next
  case len: True
  let ?n = "alignUp (length data + 16) 64"
  let ?bid = "makeBid (next_bid_index st) i"
  obtain ib st1 where al: "allocated ?n st ib st1"
    and eq: "emitBlock data i st =
       (let bid = ?bid;
            st2 = st1\<lparr>next_bid_index := next_bid_index st + 1\<rparr>;
            image = block_image ib bid ?n data;
            d = disk st
        in if dk_failed d \<or> 2 ^ 63 \<le> ib \<or> \<not> dk_accepts d ib (length image)
           then Some (Inl (PstError ''short write to PST file''), st2\<lparr>disk := d\<lparr>dk_failed := True\<rparr>\<rparr>)
           else Some (Inr bid, st2\<lparr>disk := disk_put ib image d,
              bbt := bbt st @ [\<lparr>be_bid = bid, be_ib = ib, be_cb = of_nat (length data)\<rparr>]\<rparr>))"
    using emitBlock_steps [OF ok len] by blast
  let ?im = "block_image ib ?bid ?n data"
  have n: "length data + 16 \<le> ?n" by (rule alignUp_ge) simp
  have a: "space_ok st1" "cursor st \<le> ib" "cursor st1 = ib + ?n" "bbt st1 = bbt st"
      "64 dvd ib" "clear_of_reserved ib ?n"
    using al by (simp_all add: allocated_def same_but_maps_def)
  have idx: "unat (next_bid_index st + 1) * 64 \<le> ib + ?n"
  proof -
    have "64 \<le> ?n" using n by (intro dvd_imp_le) auto
    then show ?thesis using unat_succ_le [of "next_bid_index st"] ok a(2) by (simp add: store_ok_def)
  qed
  have space: "space_ok (st1\<lparr>next_bid_index := x, disk := y, bbt := z\<rparr>)" for x y z
    using a(1) by (simp add: space_ok_def maps_ok_def)
  have size: "dk_size (disk st) \<le> ib + ?n" using ok a(2) by (simp add: store_ok_def)
  show ?thesis
  proof (cases "dk_failed (disk st) \<or> 2 ^ 63 \<le> ib \<or> \<not> dk_accepts (disk st) ib (length ?im)")
    case True
    let ?st' = "st1\<lparr>next_bid_index := next_bid_index st + 1, disk := (disk st)\<lparr>dk_failed := True\<rparr>\<rparr>"
    have "store_ok ?st' \<and> preserves st ?st'"
      using store_ok_frame [OF ok, of ?st'] space [where z = "bbt st"] a idx size
      by (simp add: space_ok_def maps_ok_def)
    then show ?thesis using run eq True by (auto simp: Let_def)
  next
    case wr: False
    define e where "e = \<lparr>be_bid = ?bid, be_ib = ib, be_cb = of_nat (length data)\<rparr>"
    let ?d = "disk_put ib ?im (disk st)"
    let ?st2 = "st1\<lparr>next_bid_index := next_bid_index st + 1, disk := ?d\<rparr>"
    let ?st' = "?st2\<lparr>bbt := bbt st @ [e]\<rparr>"
    have small: "unat (next_bid_index st) < 2 ^ 57"
      using ok a(2) wr by (simp add: store_ok_def)
    note step = index_step [OF small]
    have ne: "?im \<noteq> []" using length_block_image [OF n, of ib ?bid] n by (metis add_is_0 le_zero_eq list.size(3) zero_neq_numeral)
    have frame: "store_ok ?st2" "preserves st ?st2"
      using store_ok_frame [OF ok, of ?st2] space [where z = "bbt st"] a idx size n ne wr step(2)
      by (simp_all add: space_ok_def maps_ok_def disk_put_def less_imp_le)
    have bs: "block_size e = ?n"
      using len by (simp add: e_def block_size_def unat_small)
    have read: "read_block ?d e = Some data"
      unfolding e_def using n
      using disk_slice_put_same [of ib ?im "disk st"]
      by (intro read_block_image [OF len]) (simp only: length_block_image)
    have fresh: "be_bid x \<noteq> ?bid" if "x \<in> set (bbt st)" for x
    proof -
      have "entry_ok st x" using ok that by (simp add: store_ok_def)
      then obtain m j where "be_bid x = makeBid m j" "unat m < 2 ^ 57" "m < next_bid_index st"
        using wr unfolding entry_ok_def by blast
      then show ?thesis using makeBid_inject [of m "next_bid_index st" j i] small by auto
    qed
    have "entry_ok ?st' e"
    proof -
      have "0 < next_bid_index st" using ok wr by (simp add: store_ok_def)
      moreover have "kFirstDataPos \<le> ib" using ok a(2) by (simp add: store_ok_def space_ok_def)
      ultimately show ?thesis
        using read bs a small step(2) wr unfolding entry_ok_def by (auto simp: e_def)
    qed
    moreover have "entry_ok ?st' x" if "x \<in> set (bbt st)" for x
    proof -
      have "entry_ok ?st2 x" using frame(1) that a(4) by (simp add: store_ok_def)
      then show ?thesis by (simp add: entry_ok_def)
    qed
    moreover have "distinct (map be_bid (bbt ?st'))"
    proof -
      have "?bid \<notin> be_bid ` set (bbt st)" using fresh by (metis imageE)
      then show ?thesis using ok by (simp add: store_ok_def e_def)
    qed
    moreover have "space_ok ?st'" by (rule space)
    moreover have "unat (next_bid_index ?st') * 64 \<le> cursor ?st'" "dk_size (disk ?st') \<le> cursor ?st'"
      "\<not> dk_failed (disk ?st') \<longrightarrow> dk_size (disk ?st') = cursor ?st'"
      "\<not> dk_failed (disk ?st') \<longrightarrow> 0 < next_bid_index ?st'"
      using frame(1) by (simp_all add: store_ok_def)
    ultimately have "store_ok ?st'" unfolding store_ok_def by simp
    moreover have "preserves st ?st'"
      unfolding preserves_def
    proof (intro allI impI)
      fix b x assume "lookup_block st b = Some x"
      then have "lookup_block ?st2 b = Some x" using frame(2) by (simp add: preserves_def)
      then show "lookup_block ?st' b = Some x"
        using a(4) by (auto simp: lookup_block_def find_append split: option.splits)
    qed
    moreover have "lookup_block st ?bid = None"
      using fresh lookup_block_SomeD [of st ?bid] by fastforce
    moreover have "lookup_block ?st' ?bid = Some data"
      using lookup_block_entry [OF \<open>store_ok ?st'\<close>, of e] read by (simp add: e_def)
    ultimately show ?thesis using run eq wr by (auto simp: Let_def e_def)
  qed
qed


lemma emitBlock_halts: "store_ok st \<Longrightarrow> emitBlock data i st \<noteq> None"
proof (cases "length data \<le> kMaxBlockData")
  case True
  then show "emitBlock data i st \<noteq> None" if "store_ok st"
    by (rule emitBlock_steps [OF that, of data i]) (simp add: Let_def)
qed (simp add: emitBlock_too_long)

subsection \<open>The interface of a block store\<close>

text \<open>
  Writing a block keeps the store's invariant and everything readable, on every outcome; when it
  succeeds the block reads back under a fresh identifier that carries its kind.
\<close>

locale block_store = durable_store put look inv fst
  for put :: "bytes \<times> bool \<Rightarrow> ('s, 'b) prog" and look :: "'s \<Rightarrow> 'b \<Rightarrow> bytes option" and inv :: "'s \<Rightarrow> bool" +
  fixes internal :: "'b \<Rightarrow> bool"
  assumes put_kind: "inv s \<Longrightarrow> put d s = Some (Inr b, s') \<Longrightarrow> internal b = snd d"
begin

lemma run_kinds:
  "inv s \<Longrightarrow> mapM put ds s = Some (Inr bs, s') \<Longrightarrow> map internal bs = map snd ds"
proof (induction ds arbitrary: s bs)
  case (Cons d ds)
  obtain b s1 cs where run: "put d s = Some (Inr b, s1)" "mapM put ds s1 = Some (Inr cs, s')" "bs = b # cs"
    using Cons.prems(2) by (auto simp: bindM_Inr_iff prog_simps)
  show ?case
    using Cons.IH [OF put_inv [OF Cons.prems(1) run(1)] run(2)] put_kind [OF Cons.prems(1) run(1)] run(3) by simp
qed (simp add: prog_simps)

end

lemma emitBlock_inv: "store_ok st \<Longrightarrow> emitBlock d i st = Some (r, st') \<Longrightarrow> store_ok st'"
  using emitBlock_law by blast

lemma emitBlock_look:
  "store_ok st \<Longrightarrow> emitBlock d i st = Some (Inr b, st') \<Longrightarrow>
   lookup_block st b = None \<and> lookup_block st' b = Some d \<and> bidIsInternal b = i"
  using emitBlock_law by blast

lemma emitBlock_keeps:
  "store_ok st \<Longrightarrow> emitBlock d i st = Some (r, st') \<Longrightarrow> lookup_block st b = Some x \<Longrightarrow> lookup_block st' b = Some x"
  using emitBlock_law unfolding preserves_def by blast

interpretation blocks: block_store "\<lambda>(d, i). emitBlock d i" lookup_block store_ok bidIsInternal
  by unfold_locales
     (auto simp: emitBlock_halts simp del: not_None_eq split: prod.splits
       dest: emitBlock_inv emitBlock_look emitBlock_keeps)

lemma emitBlocks_law:
  assumes "store_ok st" "mapM (\<lambda>(d, i). emitBlock d i) ds st = Some (Inr bs, st')"
  shows "store_ok st' \<and> map (lookup_block st') bs = map (\<lambda>(d, i). Some d) ds \<and>
    map bidIsInternal bs = map snd ds \<and> (\<forall>b x. lookup_block st b = Some x \<longrightarrow> lookup_block st' b = Some x)"
  using blocks.run_put [OF assms] blocks.run_kinds [OF assms] by (simp add: blocks.after_def split_def)

lemma store_ok_new: "NdbWriter_new path opens accepts = Inr st \<Longrightarrow> store_ok st"
  using NdbWriter_new_ok [of path opens accepts st] by (simp add: store_ok_def)


text \<open>
  A file that takes every write, with room for \<open>k\<close> more blocks below the largest offset a seek
  reaches: there every block of legal size is written.
\<close>

definition roomy :: "nat \<Rightarrow> ndb \<Rightarrow> bool" where
  "roomy k st \<longleftrightarrow> store_ok st \<and> \<not> dk_failed (disk st) \<and> (\<forall>ib n. dk_accepts (disk st) ib n) \<and>
     cursor st + k * 2 ^ 15 \<le> 2 ^ 63"

lemma emitBlock_roomy:
  assumes r: "roomy (Suc k) st" and len: "length data \<le> kMaxBlockData"
  shows "\<exists>b st'. emitBlock data i st = Some (Inr b, st') \<and> roomy k st'"
proof -
  have ok: "store_ok st" using r by (simp add: roomy_def)
  show ?thesis
  proof (rule emitBlock_steps [OF ok len, of i])
    fix ib st1
    let ?n = "alignUp (length data + 16) 64"
    let ?b = "makeBid (next_bid_index st) i"
    assume al: "allocated ?n st ib st1" "ib \<le> cursor st + 9216"
      and eq: "emitBlock data i st =
       (let bid = ?b;
            st2 = st1\<lparr>next_bid_index := next_bid_index st + 1\<rparr>;
            image = block_image ib bid ?n data;
            d = disk st
        in if dk_failed d \<or> 2 ^ 63 \<le> ib \<or> \<not> dk_accepts d ib (length image)
           then Some (Inl (PstError ''short write to PST file''), st2\<lparr>disk := d\<lparr>dk_failed := True\<rparr>\<rparr>)
           else Some (Inr bid, st2\<lparr>disk := disk_put ib image d,
              bbt := bbt st @ [\<lparr>be_bid = bid, be_ib = ib, be_cb = of_nat (length data)\<rparr>]\<rparr>))"
    have n: "?n < length data + 80" using alignUp_less [of 64 "length data + 16"] by simp
    have cur: "cursor st1 = ib + ?n" using al(1) by (simp add: allocated_def)
    have lt: "ib < 2 ^ 63" "ib + ?n + k * 2 ^ 15 \<le> 2 ^ 63"
      using al(2) r n len by (simp_all add: roomy_def)
    have "\<exists>st'. emitBlock data i st = Some (Inr ?b, st') \<and> cursor st' = ib + ?n \<and>
        \<not> dk_failed (disk st') \<and> (\<forall>ib n. dk_accepts (disk st') ib n)"
      using r lt(1) cur unfolding eq by (auto simp: roomy_def Let_def)
    then show ?thesis
      using emitBlock_law [OF ok] lt(2) unfolding roomy_def by fastforce
  qed
qed

lemma emitBlocks_roomy:
  assumes "roomy (k + length ds) st" "\<forall>(d, i) \<in> set ds. length d \<le> kMaxBlockData"
  shows "\<exists>bs st'. mapM (\<lambda>(d, i). emitBlock d i) ds st = Some (Inr bs, st') \<and> roomy k st'"
  using mapM_budget [of ds roomy "\<lambda>(d, i). emitBlock d i" k st] emitBlock_roomy assms by fastforce

lemma roomy_mono: "roomy k st \<Longrightarrow> j \<le> k \<Longrightarrow> roomy j st"
  unfolding roomy_def by (meson add_le_mono le_refl mult_le_mono1 order_trans)

subsection \<open>Reading data trees back\<close>

definition parse_xblock :: "bytes \<Rightarrow> (byte \<times> 32 word \<times> bid list) option" where
  "parse_xblock x =
     (if 8 \<le> length x \<and> x ! 0 = 0x01 \<and> length x = 8 + 8 * unat (peek16 (drop 2 x))
      then Some (x ! 1, peek32 (drop 4 x), map peek64 (chunks 8 (drop 8 x))) else None)"

text \<open>A tree of \<open>l\<close> levels of internal blocks over external leaves, each level's total checked.\<close>

fun read_level :: "(bid \<Rightarrow> bytes option) \<Rightarrow> nat \<Rightarrow> bid \<Rightarrow> bytes option" where
  "read_level look 0 b = (if bidIsInternal b then None else look b)"
| "read_level look (Suc l) b =
     (if \<not> bidIsInternal b then None
      else case Option.bind (look b) parse_xblock of
        None \<Rightarrow> None
      | Some (level, tot, bs) \<Rightarrow>
          (if unat level = Suc l then
             case opt_all (map (read_level look l) bs) of
               None \<Rightarrow> None
             | Some parts \<Rightarrow>
                 (if of_nat (length (concat parts)) = tot then Some (concat parts) else None)
           else None))"

definition read_data :: "(bid \<Rightarrow> bytes option) \<Rightarrow> bid \<Rightarrow> bytes option" where
  "read_data look b =
     (if \<not> bidIsInternal b then look b
      else case Option.bind (look b) parse_xblock of
        None \<Rightarrow> None
      | Some (level, _, _) \<Rightarrow> read_level look (unat level) b)"

lemma xblock_image_eq:
  "xblock_image cs level tot =
     0x01 # level # le_bytes 2 (of_nat (length cs) :: 16 word) @ le_bytes 4 tot @
     concat (map (le_bytes 8) cs)"
  unfolding xblock_image_def put8_def put16_def put32_def put64_def fold_append by simp

lemma parse_xblock_image:
  assumes "length cs < 65536"
  shows "parse_xblock (xblock_image cs level tot) = Some (level, tot, cs)"
proof -
  have len: "length (concat (map (le_bytes 8) cs)) = 8 * length cs"
    by (rule length_concat_const) simp
  have "chunks 8 (concat (map (le_bytes 8) cs)) = map (le_bytes 8) cs"
    by (rule chunks_concat_const) simp_all
  then show ?thesis
    using assms unfolding parse_xblock_def xblock_image_eq
    by (simp add: unat_small len map_idI)
qed

lemma read_level_mono:
  assumes "\<And>b x. look b = Some x \<Longrightarrow> look' b = Some x"
  shows "read_level look l b = Some y \<Longrightarrow> read_level look' l b = Some y"
proof (induction l arbitrary: b y)
  case 0
  then show ?case using assms by (simp split: if_splits)
next
  case (Suc l)
  have map: "opt_all (map (read_level look l) bs) = Some ps \<Longrightarrow>
      opt_all (map (read_level look' l) bs) = Some ps" for bs ps
    using Suc.IH by (auto simp: opt_all_iff list_eq_iff_nth_eq)
  show ?case
    using Suc.prems assms map
    by (auto simp: bind_eq_Some_conv split: option.splits if_splits)
qed

lemma read_data_mono:
  assumes mono: "\<And>b x. look b = Some x \<Longrightarrow> look' b = Some x" and "read_data look b = Some y"
  shows "read_data look' b = Some y"
proof (cases "bidIsInternal b")
  case True
  then obtain level tot bs where p: "Option.bind (look b) parse_xblock = Some (level, tot, bs)"
      "read_level look (unat level) b = Some y"
    using assms(2) by (auto simp: read_data_def split: option.splits)
  have "Option.bind (look' b) parse_xblock = Some (level, tot, bs)"
    using p(1) mono by (auto simp: bind_eq_Some_conv)
  then show ?thesis using True read_level_mono [OF mono p(2)] by (simp add: read_data_def)
qed (use assms in \<open>simp add: read_data_def\<close>)


text \<open>Writing an XBLOCK level over children that read back.\<close>

lemma read_level_xblock:
  assumes "look b = Some (xblock_image cs (of_nat (Suc l)) tot)" "bidIsInternal b"
    and "map (read_level look l) cs = map Some parts" "length cs < 65536" "Suc l < 256"
    and "tot = of_nat (length (concat parts))"
  shows "read_level look (Suc l) b = Some (concat parts)" "read_data look b = Some (concat parts)"
proof -
  have parse: "Option.bind (look b) parse_xblock = Some (of_nat (Suc l), tot, cs)"
    using assms(1,4) by (simp add: parse_xblock_image)
  have "opt_all (map (read_level look l) cs) = Some parts" using assms(3) by (simp add: opt_all_iff)
  moreover have "unat (of_nat (Suc l) :: byte) = Suc l" using assms(5) by (intro unat_small) simp
  ultimately show "read_level look (Suc l) b = Some (concat parts)"
    using assms(2,6) parse by (simp del: of_nat_Suc)
  then show "read_data look b = Some (concat parts)"
    using assms(2) parse \<open>unat (of_nat (Suc l) :: byte) = Suc l\<close>
    by (simp add: read_data_def del: of_nat_Suc read_level.simps)
qed

text \<open>The bytes each XBLOCK of an XXBLOCK is said to cover are the bytes it covers.\<close>

lemma covered_eq:
  assumes "L < 2 ^ 32" "j \<le> L" "n \<le> L + kMaxBlockData * kXBlockFanout"
  shows "ucast (min (of_nat n) (of_nat L - of_nat j :: 64 word)) = (of_nat (min n (L - j)) :: 32 word)"
proof -
  have "of_nat L - of_nat j = (of_nat (L - j) :: 64 word)" using assms(2) by (simp add: of_nat_diff)
  moreover have "min (of_nat n) (of_nat (L - j)) = (of_nat (min n (L - j)) :: 64 word)"
    using assms unfolding min_def word_le_nat_alt by (simp add: unat_small del: of_nat_diff)
  moreover have "min n (L - j) < 2 ^ 64" using assms by simp
  ultimately show ?thesis by (simp add: unsigned_of_nat take_bit_nat_eq_self)
qed

lemma xblock_slices_eq:
  assumes len: "length data \<le> 0xFFFFFFFF" and leaves: "length leaves = length (chunks kMaxBlockData data)"
  shows "xblock_slices leaves (of_nat (length data)) =
    zip (chunks kXBlockFanout leaves)
        (map (\<lambda>part. of_nat (length part)) (chunks (kXBlockFanout * kMaxBlockData) data))"
    (is "?l = ?r")
proof (rule nth_equalityI)
  let ?cs = "chunks kXBlockFanout leaves" and ?ps = "chunks (kXBlockFanout * kMaxBlockData) data"
  have "length ?ps = length (chunks kXBlockFanout (chunks kMaxBlockData data))"
    using concat_chunks_chunks [of kMaxBlockData kXBlockFanout data] by (metis length_map zero_less_numeral)
  then have lps: "length ?ps = length ?cs" using leaves by (simp add: length_chunks)
  then show "length ?l = length ?r" by (simp add: xblock_slices_def)
  fix k assume "k < length ?l"
  then have k: "k < length ?cs" by (simp add: xblock_slices_def)
  let ?j = "k * kXBlockFanout * kMaxBlockData"
  have nthc: "?cs ! k = take kXBlockFanout (drop (k * kXBlockFanout) leaves)" using k by (simp add: nth_chunks)
  have nthp: "?ps ! k = take (kXBlockFanout * kMaxBlockData) (drop ?j data)"
    using k lps by (simp add: nth_chunks mult.assoc)
  have ne: "?ps ! k \<noteq> []" using chunks_bounds [of "?ps ! k" "kXBlockFanout * kMaxBlockData" data] k lps by simp
  then have j: "?j < length data" using nthp by auto
  have "length (?ps ! k) = min (length (?cs ! k) * kMaxBlockData) (length data - ?j)"
  proof (cases "Suc k < length ?cs")
    case True
    then have "length (?cs ! k) = kXBlockFanout" "length (?ps ! k) = kXBlockFanout * kMaxBlockData"
      using lps by (simp_all add: chunks_full)
    then show ?thesis using nthp by simp
  next
    case False
    have "length (?ps ! k) = length data - ?j"
    proof -
      have "length data \<le> length ?ps * (kXBlockFanout * kMaxBlockData)"
        using length_chunks [of "kXBlockFanout * kMaxBlockData" data] by simp
      then have "length data - ?j \<le> kXBlockFanout * kMaxBlockData" using False k lps by simp
      then show ?thesis using nthp by simp
    qed
    moreover have "length data - ?j \<le> length (?cs ! k) * kMaxBlockData"
    proof -
      have "length data \<le> length leaves * kMaxBlockData"
        using length_chunks [of kMaxBlockData data] leaves by simp
      moreover have "length leaves \<le> Suc k * kXBlockFanout"
        using length_chunks [of kXBlockFanout leaves] False k by simp
      ultimately show ?thesis using nthc by simp
    qed
    ultimately show ?thesis by simp
  qed
  moreover have "length (?cs ! k) \<le> kXBlockFanout" using nthc by simp
  ultimately have "ucast (min (of_nat (length (?cs ! k) * kMaxBlockData))
        (of_nat (length data) - of_nat ?j :: 64 word)) = (of_nat (length (?ps ! k)) :: 32 word)"
    using covered_eq [of "length data" ?j "length (?cs ! k) * kMaxBlockData"] len j by simp
  then show "?l ! k = ?r ! k"
    using k lps by (simp add: xblock_slices_def nth_enumerate_eq)
qed


subsection \<open>The data tree round trip\<close>

lemma length_xblock_slices: "length (xblock_slices leaves tot) = length (chunks kXBlockFanout leaves)"
  by (simp add: xblock_slices_def)

lemma emitXBlocks_eq:
  "mapM (\<lambda>(slice, covered). emitXBlock slice 1 covered) ss =
   mapM (\<lambda>(d, i). emitBlock d i) (map (\<lambda>(slice, covered). (xblock_image slice 1 covered, True)) ss)"
  by (simp add: mapM_map split_def emitXBlock_def)

lemma emitLeaves_eq:
  "mapM writeLeafChunk cs = mapM (\<lambda>(d, i). emitBlock d i) (map (\<lambda>c. (c, False)) cs)"
  by (simp add: mapM_map writeLeafChunk_def [abs_def])

lemma read_leaves:
  "map look bs = map Some xs \<Longrightarrow> (\<And>c x. look c = Some x \<Longrightarrow> look' c = Some x) \<Longrightarrow>
   \<forall>b \<in> set bs. \<not> bidIsInternal b \<Longrightarrow> map (read_level look' 0) bs = map Some xs"
proof (induction bs arbitrary: xs)
  case (Cons b bs)
  then show ?case by (cases xs) simp_all
qed simp

text \<open>
  Leaves that read back as the pieces of a value (every piece but the last full) assemble into a
  tree that reads back as the value.
\<close>

lemma assembleDataTree_ok:
  assumes ok: "store_ok st"
    and leaves: "map (lookup_block st) leaves = map Some (chunks kMaxBlockData data)"
      "\<forall>b \<in> set leaves. \<not> bidIsInternal b"
    and len: "length data < 2 ^ 64"
    and run: "assembleDataTree leaves (of_nat (length data)) st = Some (Inr b, st')"
  shows "store_ok st' \<and> preserves st st' \<and> read_data (lookup_block st') b = Some data"
proof -
  let ?parts = "chunks kMaxBlockData data"
  have lenl: "length leaves = length ?parts" using arg_cong [OF leaves(1), of length] by simp
  consider (none) "leaves = []" | (one) "length leaves = 1" | (many) "1 < length leaves"
    by (metis One_nat_def length_0_conv less_one linorder_neqE_nat)
  then show ?thesis
  proof cases
    case none
    then have "data = []" using lenl by (simp add: chunks_eq_Nil)
    moreover have "emitBlock [] False st = Some (Inr b, st')"
      using run none by (simp add: assembleDataTree_def)
    ultimately show ?thesis using emitBlock_law [OF ok] by (fastforce simp: read_data_def)
  next
    case one
    then obtain l where l: "leaves = [l]" by (auto simp: length_Suc_conv)
    then have "st' = st" "b = l" using run by (simp_all add: assembleDataTree_def prog_simps)
    moreover have "?parts = [data]"
    proof -
      obtain p where "?parts = [p]" using lenl l by (cases ?parts) auto
      then show ?thesis using concat_chunks [of kMaxBlockData data] by simp
    qed
    ultimately show ?thesis using ok l leaves by (simp add: read_data_def)
  next
    case many
    then have ne: "leaves \<noteq> []" "length leaves \<noteq> 1" by auto
    have small: "length data \<le> 0xFFFFFFFF"
    proof (rule ccontr)
      assume "\<not> ?thesis"
      then have "(of_nat (length data) :: 64 word) > 0xFFFFFFFF"
        using len by (simp add: word_less_nat_alt unat_small)
      then show False using run ne by (simp add: assembleDataTree_def prog_simps bindM_Inr_iff)
    qed
    then have le: "\<not> (of_nat (length data) :: 64 word) > 0xFFFFFFFF"
      by (simp add: word_less_nat_alt unat_small)
    have tot: "ucast (of_nat (length data) :: 64 word) = (of_nat (length data) :: 32 word)"
      using len by (simp add: unsigned_of_nat take_bit_nat_eq_self)
    have concat: "concat ?parts = data" by (simp add: concat_chunks)
    show ?thesis
    proof (cases "length leaves \<le> kXBlockFanout")
      case True
      have "emitBlock (xblock_image leaves 1 (of_nat (length data))) True st = Some (Inr b, st')"
        using run ne le True by (simp add: assembleDataTree_def emitXBlock_def prog_simps bindM_Inr_iff tot)
      note law = emitBlock_law [OF ok this]
      have mono: "lookup_block st' c = Some x" if "lookup_block st c = Some x" for c x
        using law that by (simp add: preserves_def)
      have "map (read_level (lookup_block st') 0) leaves = map Some ?parts"
        by (rule read_leaves [OF leaves(1) mono leaves(2)])
      then have "read_data (lookup_block st') b = Some (concat ?parts)"
      proof (rule read_level_xblock(2) [rotated 2])
        show "lookup_block st' b = Some (xblock_image leaves (of_nat (Suc 0)) (of_nat (length data)))"
          "bidIsInternal b" using law by simp_all
        show "length leaves < 65536" using True by simp
        show "of_nat (length data) = of_nat (length (concat ?parts))" by (simp only: concat)
      qed simp
      then show ?thesis using law by (simp only: concat)
    next
      case False
      let ?ss = "xblock_slices leaves (of_nat (length data))"
      let ?big = "chunks (kXBlockFanout * kMaxBlockData) data"
      obtain xs st1 where xs: "mapM (\<lambda>(slice, covered). emitXBlock slice 1 covered) ?ss st = Some (Inr xs, st1)"
        and root: "emitBlock (xblock_image xs 2 (of_nat (length data))) True st1 = Some (Inr b, st')"
        and lxs: "length xs \<le> kXBlockFanout"
        using run ne le False
        by (auto simp: assembleDataTree_def emitXBlock_def [of _ 2] prog_simps bindM_Inr_iff tot split: if_splits)
      note law1 = emitBlocks_law [OF ok xs [unfolded emitXBlocks_eq]]
      have ok1: "store_ok st1" using law1 by simp
      note law = emitBlock_law [OF ok1 root]
      note ss = xblock_slices_eq [OF small lenl]
      have groups: "map concat (chunks kXBlockFanout ?parts) = ?big"
        by (rule concat_chunks_chunks) simp_all
      have lbig: "length ?big = length (chunks kXBlockFanout leaves)"
        using arg_cong [OF groups, of length] lenl by (simp add: length_chunks)
      have lss: "length ?ss = length ?big" "length xs = length ?big"
        using length_xblock_slices [of leaves] lbig mapM_length [OF xs] by simp_all
      have child: "read_level (lookup_block st') 1 (xs ! k) = Some (?big ! k)" if k: "k < length ?big" for k
      proof -
        let ?slice = "chunks kXBlockFanout leaves ! k" and ?sparts = "chunks kXBlockFanout ?parts ! k"
        have b: "concat ?sparts = ?big ! k"
          using arg_cong [OF groups, of "\<lambda>l. l ! k"] k arg_cong [OF groups, of length] by simp
        have "map (read_level (lookup_block st') 0) ?slice = map Some ?sparts"
        proof -
          have "map (map (lookup_block st)) (chunks kXBlockFanout leaves) = map (map Some) (chunks kXBlockFanout ?parts)"
            unfolding chunks_map [symmetric] leaves(1) ..
          then have "map (map (lookup_block st)) (chunks kXBlockFanout leaves) ! k = map (map Some) (chunks kXBlockFanout ?parts) ! k"
            by (rule arg_cong)
          moreover have "k < length (chunks kXBlockFanout ?parts)" "k < length (chunks kXBlockFanout leaves)"
            using k lbig arg_cong [OF groups, of length] by simp_all
          ultimately have "map (lookup_block st) ?slice = map Some ?sparts"
            by (simp only: nth_map)
          moreover have "set ?slice \<subseteq> set leaves"
            by (rule chunks_set [of _ kXBlockFanout]) (use k lbig in simp)
          moreover have "lookup_block st' c = Some x" if "lookup_block st c = Some x" for c x
            using that law law1 by (auto simp: preserves_def)
          ultimately show ?thesis using leaves(2) by (intro read_leaves [of "lookup_block st"]) auto
        qed
        moreover have "lookup_block st' (xs ! k) = Some (xblock_image ?slice 1 (of_nat (length (?big ! k))))"
        proof -
          have "?ss ! k = (?slice, of_nat (length (?big ! k)))"
            using k lss lbig ss by simp
          then have "lookup_block st1 (xs ! k) = Some (xblock_image ?slice 1 (of_nat (length (?big ! k))))"
            using law1 k lss by (auto simp: list_eq_iff_nth_eq)
          then show ?thesis using law by (simp add: preserves_def)
        qed
        moreover have "bidIsInternal (xs ! k)"
          using law1 k lss by (auto simp: list_eq_iff_nth_eq split_def)
        moreover have "length ?slice < 65536"
          using chunks_bounds [of ?slice kXBlockFanout leaves] k lbig by simp
        ultimately show ?thesis
          using read_level_xblock(1) [of "lookup_block st'" "xs ! k" ?slice 0 _ ?sparts] b by simp
      qed
      have big: "concat ?big = data" by (simp add: concat_chunks)
      have "map (read_level (lookup_block st') 1) xs = map Some ?big"
        using lss child by (intro nth_equalityI) (simp_all del: read_level.simps)
      then have "read_data (lookup_block st') b = Some (concat ?big)"
      proof (rule read_level_xblock(2) [rotated 2])
        show "lookup_block st' b = Some (xblock_image xs (of_nat (Suc 1)) (of_nat (length data)))"
          "bidIsInternal b" using law by simp_all
        show "length xs < 65536" using lxs by simp
        show "of_nat (length data) = of_nat (length (concat ?big))" by (simp only: big)
      qed simp
      then have "read_data (lookup_block st') b = Some data" by (simp only: big)
      then show ?thesis using law law1 preserves_trans unfolding preserves_def by blast
    qed
  qed
qed


lemma writeData_law:
  assumes ok: "store_ok st" and len: "length data < 2 ^ 64" and run: "writeData data st = Some (Inr b, st')"
  shows "store_ok st' \<and> preserves st st' \<and> read_data (lookup_block st') b = Some data"
proof (cases "length data \<le> kMaxBlockData")
  case True
  then have "emitBlock data False st = Some (Inr b, st')" using run by (simp add: writeData_def)
  then show ?thesis using emitBlock_law [OF ok] by (fastforce simp: read_data_def)
next
  case False
  obtain leaves st1 where l: "mapM writeLeafChunk (chunks kMaxBlockData data) st = Some (Inr leaves, st1)"
    and t: "assembleDataTree leaves (of_nat (length data)) st1 = Some (Inr b, st')"
    using run False by (auto simp: writeData_def bindM_Inr_iff)
  note law = emitBlocks_law [OF ok l [unfolded emitLeaves_eq]]
  have "map (lookup_block st1) leaves = map Some (chunks kMaxBlockData data)"
    using law by (simp add: comp_def)
  moreover have "\<forall>b \<in> set leaves. \<not> bidIsInternal b"
    using law by (auto simp: list_eq_iff_nth_eq in_set_conv_nth)
  ultimately show ?thesis
    using assembleDataTree_ok [OF _ _ _ len t] law by (auto simp: preserves_def)
qed

text \<open>Whatever the outcome, the invariant and the readable blocks are kept.\<close>

definition within :: "ndb \<Rightarrow> ndb \<Rightarrow> bool" where
  "within st0 st \<longleftrightarrow> store_ok st \<and> preserves st0 st"

lemma within_refl: "store_ok st \<Longrightarrow> within st st"
  by (simp add: within_def)

lemma emitBlock_within [hoare_intros]: "keeps (within st0) (emitBlock data i)"
  by (rule hoareI) (unfold within_def, metis emitBlock_law preserves_trans, metis emitBlock_law preserves_trans)

lemma emitXBlock_within [hoare_intros]: "keeps (within st0) (emitXBlock cs l t)"
  by (simp add: emitXBlock_def emitBlock_within)

lemma writeLeafChunk_within [hoare_intros]: "keeps (within st0) (writeLeafChunk d)"
  by (simp add: writeLeafChunk_def emitBlock_within)

lemma assembleDataTree_within [hoare_intros]: "keeps (within st0) (assembleDataTree leaves tot)"
  unfolding assembleDataTree_def by (auto intro!: hoare_intros split: prod.splits)

lemma writeData_within [hoare_intros]: "keeps (within st0) (writeData data)"
  unfolding writeData_def by (auto intro!: hoare_intros)

lemma writeSubnodes_within [hoare_intros]: "keeps (within st0) (writeSubnodes es)"
  unfolding writeSubnodes_def emit_child_def emit_sl_def Let_def by (auto intro!: hoare_intros)

text \<open>With room in the file, every value up to 4 GiB is written.\<close>

lemma emitXBlock_roomy:
  assumes "roomy (Suc k) st" "length cs \<le> kXBlockFanout"
  shows "\<exists>b st'. emitXBlock cs l t st = Some (Inr b, st') \<and> roomy k st'"
  unfolding emitXBlock_def
  by (rule emitBlock_roomy [OF assms(1)])
     (use assms(2) length_concat_const [of cs "le_bytes 8" 8] in \<open>simp add: xblock_image_eq\<close>)

lemma writeData_roomy:
  assumes r: "roomy (2 ^ 20) st" and len: "length data \<le> 0xFFFFFFFF"
  shows "\<exists>b st'. writeData data st = Some (Inr b, st') \<and> roomy 0 st'"
proof (cases "length data \<le> kMaxBlockData")
  case True
  have "roomy (Suc 0) st" by (rule roomy_mono [OF r]) simp
  then show ?thesis using emitBlock_roomy [of 0 st data False] True by (simp add: writeData_def)
next
  case False
  let ?cs = "chunks kMaxBlockData data"
  have lcs: "length ?cs \<le> 525315" by (rule length_chunks_le) (use len in simp_all)
  have ne: "?cs \<noteq> []" using False by (auto simp: chunks_eq_Nil)
  have "roomy (600 + length (map (\<lambda>c. (c, False)) ?cs)) st" by (rule roomy_mono [OF r]) (use lcs in simp)
  then obtain leaves st1 where l: "mapM writeLeafChunk ?cs st = Some (Inr leaves, st1)" "roomy 600 st1"
    using emitBlocks_roomy [of 600 "map (\<lambda>c. (c, False)) ?cs" st] chunks_bounds [of _ kMaxBlockData data]
    unfolding emitLeaves_eq by fastforce
  have ll: "length leaves = length ?cs" by (rule mapM_length [OF l(1)])
  have le: "\<not> (of_nat (length data) :: 64 word) > 0xFFFFFFFF"
    using len by (simp add: word_less_nat_alt unat_small)
  have "\<exists>b st'. assembleDataTree leaves (of_nat (length data)) st1 = Some (Inr b, st') \<and> roomy 0 st'"
  proof -
    consider (one) "length leaves = 1" | (xb) "1 < length leaves" "length leaves \<le> kXBlockFanout"
      | (xxb) "kXBlockFanout < length leaves"
      using ll ne by (metis length_0_conv less_one linorder_neqE_nat not_le)
    then show ?thesis
    proof cases
      case one
      then show ?thesis using roomy_mono [OF l(2), of 0] by (auto simp: assembleDataTree_def prog_simps)
    next
      case xb
      have "roomy (Suc 0) st1" by (rule roomy_mono [OF l(2)]) simp
      from emitXBlock_roomy [OF this xb(2)] xb le show ?thesis
        by (auto simp: assembleDataTree_def prog_simps)
    next
      case xxb
      let ?ss = "xblock_slices leaves (of_nat (length data))"
      let ?ds = "map (\<lambda>(slice, covered). (xblock_image slice 1 covered, True)) ?ss"
      have lss: "length ?ss \<le> 515"
        using ll lcs unfolding length_xblock_slices by (intro length_chunks_le) simp_all
      have sl: "length s \<le> kXBlockFanout" if "(s, c) \<in> set ?ss" for s c
        using that chunks_bounds [of _ kXBlockFanout leaves]
        by (auto simp: xblock_slices_def enumerate_eq_zip dest: set_zip_rightD)
      have im: "length (xblock_image s 1 c) \<le> kMaxBlockData" if "(s, c) \<in> set ?ss" for s c
        using sl [OF that] length_concat_const [of s "le_bytes 8" 8] by (simp add: xblock_image_eq)
      have "roomy (Suc 0 + length ?ds) st1" by (rule roomy_mono [OF l(2)]) (use lss in simp)
      then obtain xs st2 where x: "mapM (\<lambda>(slice, covered). emitXBlock slice 1 covered) ?ss st1 = Some (Inr xs, st2)"
          "roomy (Suc 0) st2"
        using emitBlocks_roomy [of "Suc 0" ?ds st1] im unfolding emitXBlocks_eq by fastforce
      have "length xs \<le> kXBlockFanout" using mapM_length [OF x(1)] lss by simp
      from emitXBlock_roomy [OF x(2) this, of 2] this xxb le x(1) show ?thesis
        by (auto simp: assembleDataTree_def prog_simps)
    qed
  qed
  then show ?thesis using l False by (auto simp: writeData_def prog_simps)
qed


subsection \<open>Reading subnode trees back\<close>

definition parse_sl :: "bytes \<Rightarrow> subnode list option" where
  "parse_sl x =
     (if 8 \<le> length x \<and> x ! 0 = 0x02 \<and> x ! 1 = 0 \<and> length x = 8 + 24 * unat (peek16 (drop 2 x))
      then Some (map (\<lambda>c. \<lparr>sn_nid = ucast (peek64 c), sn_data = peek64 (drop 8 c), sn_sub = peek64 (drop 16 c)\<rparr>)
                  (chunks 24 (drop 8 x)))
      else None)"

definition parse_si :: "bytes \<Rightarrow> (nid \<times> bid) list option" where
  "parse_si x =
     (if 8 \<le> length x \<and> x ! 0 = 0x02 \<and> x ! 1 = 1 \<and> length x = 8 + 16 * unat (peek16 (drop 2 x))
      then Some (map (\<lambda>c. (ucast (peek64 c), peek64 (drop 8 c))) (chunks 16 (drop 8 x)))
      else None)"

text \<open>All subnodes of a tree; a SIBLOCK's key must be the first NID of its child.\<close>

definition read_subnodes :: "(bid \<Rightarrow> bytes option) \<Rightarrow> bid \<Rightarrow> subnode list option" where
  "read_subnodes look b =
     (if b = 0 then Some []
      else case Option.bind (look b) parse_sl of
        Some es \<Rightarrow> Some es
      | None \<Rightarrow> (case Option.bind (look b) parse_si of
            None \<Rightarrow> None
          | Some cs \<Rightarrow> map_option concat
              (opt_all (map (\<lambda>(k, c). case Option.bind (look c) parse_sl of
                   None \<Rightarrow> None
                 | Some es \<Rightarrow> (if es \<noteq> [] \<and> sn_nid (hd es) = k then Some es else None)) cs))))"

definition sl_entry :: "subnode \<Rightarrow> bytes" where
  "sl_entry e = le_bytes 8 (ucast (sn_nid e) :: 64 word) @ le_bytes 8 (sn_data e) @ le_bytes 8 (sn_sub e)"

lemma sl_image_eq:
  "sl_image es = 0x02 # 0x00 # le_bytes 2 (of_nat (length es) :: 16 word) @ le_bytes 4 (0 :: 32 word) @
     concat (map sl_entry es)"
proof -
  have "fold (\<lambda>e buf. put64 (put64 (put64 buf (ucast (sn_nid e))) (sn_data e)) (sn_sub e)) es buf =
      buf @ concat (map sl_entry es)" for buf
    using fold_append [of sl_entry es buf] by (simp add: put64_def sl_entry_def)
  then show ?thesis by (simp add: sl_image_def put8_def put16_def put32_def)
qed

lemma si_image_eq:
  "si_image cs = 0x02 # 0x01 # le_bytes 2 (of_nat (length cs) :: 16 word) @ le_bytes 4 (0 :: 32 word) @
     concat (map (\<lambda>(k, c). le_bytes 8 (ucast k :: 64 word) @ le_bytes 8 c) cs)"
proof -
  have "fold (\<lambda>(key, bid) buf. put64 (put64 buf (ucast key)) bid) cs buf =
      buf @ concat (map (\<lambda>(k, c). le_bytes 8 (ucast k :: 64 word) @ le_bytes 8 c) cs)" for buf
    using fold_append [of "\<lambda>(k, c). le_bytes 8 (ucast k :: 64 word) @ le_bytes 8 c" cs buf]
    by (simp add: put64_def split_def)
  then show ?thesis by (simp add: si_image_def put8_def put16_def put32_def)
qed

lemma ucast_nid [simp]: "ucast (ucast (n :: nid) :: 64 word) = n"
  by (rule bit_word_eqI) (simp add: bit_simps)

lemma parse_sl_image:
  assumes "length es < 65536"
  shows "parse_sl (sl_image es) = Some es"
proof -
  have l: "length (sl_entry e) = 24" for e by (simp add: sl_entry_def)
  have "length (concat (map sl_entry es)) = 24 * length es"
    by (rule length_concat_const) (simp add: l)
  moreover have "chunks 24 (concat (map sl_entry es)) = map sl_entry es"
    by (rule chunks_concat_const) (simp_all add: l)
  moreover have "\<lparr>sn_nid = ucast (peek64 (sl_entry e)), sn_data = peek64 (drop 8 (sl_entry e)),
      sn_sub = peek64 (drop 16 (sl_entry e))\<rparr> = e" for e
    by (simp add: sl_entry_def)
  ultimately show ?thesis
    using assms unfolding parse_sl_def sl_image_eq by (simp add: unat_small map_idI)
qed

lemma parse_sl_si: "parse_sl (si_image cs) = None"
  by (simp add: parse_sl_def si_image_eq)

lemma parse_si_image:
  assumes "length cs < 65536"
  shows "parse_si (si_image cs) = Some cs"
proof -
  let ?f = "\<lambda>(k, c). le_bytes 8 (ucast (k :: nid) :: 64 word) @ le_bytes 8 (c :: bid)"
  have l: "length (?f x) = 16" for x by (simp add: split_def)
  have "length (concat (map ?f cs)) = 16 * length cs"
    by (rule length_concat_const) (rule l)
  moreover have "chunks 16 (concat (map ?f cs)) = map ?f cs"
    by (rule chunks_concat_const) (simp, rule l)
  moreover have "(ucast (peek64 (?f x)), peek64 (drop 8 (?f x))) = x" for x
    by (simp add: split_def)
  ultimately show ?thesis
    using assms unfolding parse_si_def si_image_eq by (simp add: unat_small map_idI)
qed

lemma writeSubnodes_law:
  assumes ok: "store_ok st" and run: "writeSubnodes es st = Some (Inr b, st')"
  shows "store_ok st' \<and> preserves st st' \<and> read_subnodes (lookup_block st') b = Some (sort_key sn_nid es)"
proof -
  consider (none) "es = []" | (sl) "es \<noteq> []" "length es \<le> kSlBlockFanout" | (si) "kSlBlockFanout < length es"
    by linarith
  then show ?thesis
  proof cases
    case none
    then show ?thesis using ok run by (simp add: writeSubnodes_def prog_simps read_subnodes_def)
  next
    case sl
    let ?es = "sort_key sn_nid es"
    have "emitBlock (sl_image ?es) True st = Some (Inr b, st')"
      using run sl by (simp add: writeSubnodes_def emit_sl_def)
    note law = emitBlock_law [OF ok this]
    have "parse_sl (sl_image ?es) = Some ?es" using sl by (intro parse_sl_image) simp
    then show ?thesis using law lookup_block_bid [of st' b] by (auto simp: read_subnodes_def)
  next
    case si
    let ?es = "sort_key sn_nid es"
    let ?cs = "chunks kSlBlockFanout ?es"
    obtain kids st1 where kids: "mapM emit_child ?cs st = Some (Inr kids, st1)" "length kids \<le> kSiBlockFanout"
      and root: "emitBlock (si_image kids) True st1 = Some (Inr b, st')"
      using run si by (auto simp: writeSubnodes_def Let_def bindM_Inr_iff prog_simps split: if_splits)
    have split: "\<exists>bs. kids = zip (map (\<lambda>s. sn_nid (hd s)) cs) bs \<and> length bs = length cs \<and>
        mapM (\<lambda>(d, i). emitBlock d i) (map (\<lambda>s. (sl_image s, True)) cs) st = Some (Inr bs, st1)"
      if "mapM emit_child cs st = Some (Inr kids, st1)" for cs st kids
      using that
    proof (induction cs arbitrary: st kids)
      case (Cons c cs)
      then obtain y st2 ks where y: "emit_child c st = Some (Inr y, st2)"
          "mapM emit_child cs st2 = Some (Inr ks, st1)" "kids = y # ks"
        by (auto simp: bindM_Inr_iff ret_run)
      then obtain d where 1: "emit_sl c st = Some (Inr d, st2)"
          "mapM emit_child cs st2 = Some (Inr ks, st1)" "kids = (sn_nid (hd c), d) # ks"
        using y(1) [unfolded emit_child_def bindM_Inr_iff ret_run] by auto
      from Cons.IH [OF 1(2)] obtain bs where "ks = zip (map (\<lambda>s. sn_nid (hd s)) cs) bs" "length bs = length cs"
          "mapM (\<lambda>(d, i). emitBlock d i) (map (\<lambda>s. (sl_image s, True)) cs) st2 = Some (Inr bs, st1)"
        by blast
      with 1 show ?case by (intro exI [of _ "d # bs"]) (simp add: prog_simps emit_sl_def)
    qed (simp add: prog_simps)
    obtain bs where bs: "kids = zip (map (\<lambda>s. sn_nid (hd s)) ?cs) bs" "length bs = length ?cs"
        "mapM (\<lambda>(d, i). emitBlock d i) (map (\<lambda>s. (sl_image s, True)) ?cs) st = Some (Inr bs, st1)"
      using split [OF kids(1)] by blast
    note law1 = emitBlocks_law [OF ok bs(3)]
    have ok1: "store_ok st1" using law1 by simp
    note law = emitBlock_law [OF ok1 root]
    have child: "lookup_block st' (bs ! k) = Some (sl_image (?cs ! k))" if "k < length ?cs" for k
    proof -
      have "map (lookup_block st1) bs ! k = map (\<lambda>s. Some (sl_image s)) ?cs ! k"
        using law1 by (simp add: comp_def)
      then show ?thesis using that bs(2) law by (simp add: preserves_def)
    qed
    have "opt_all (map (\<lambda>(k, c). case Option.bind (lookup_block st' c) parse_sl of
                   None \<Rightarrow> None
                 | Some es \<Rightarrow> (if es \<noteq> [] \<and> sn_nid (hd es) = k then Some es else None)) kids) = Some ?cs"
      unfolding opt_all_iff
    proof (rule nth_equalityI)
      show "length (map (\<lambda>(k, c). case Option.bind (lookup_block st' c) parse_sl of
                   None \<Rightarrow> None
                 | Some es \<Rightarrow> (if es \<noteq> [] \<and> sn_nid (hd es) = k then Some es else None)) kids) =
            length (map Some ?cs)" using bs by simp
      fix k assume "k < length (map (\<lambda>(k, c). case Option.bind (lookup_block st' c) parse_sl of
                   None \<Rightarrow> None
                 | Some es \<Rightarrow> (if es \<noteq> [] \<and> sn_nid (hd es) = k then Some es else None)) kids)"
      then have k: "k < length ?cs" using bs by simp
      then have c: "?cs ! k \<noteq> []" "length (?cs ! k) \<le> kSlBlockFanout"
        using chunks_bounds [of "?cs ! k" kSlBlockFanout ?es] by simp_all
      then have "parse_sl (sl_image (?cs ! k)) = Some (?cs ! k)" by (intro parse_sl_image) simp
      then show "map (\<lambda>(k, c). case Option.bind (lookup_block st' c) parse_sl of
                   None \<Rightarrow> None
                 | Some es \<Rightarrow> (if es \<noteq> [] \<and> sn_nid (hd es) = k then Some es else None)) kids ! k =
            map Some ?cs ! k"
        using k child [OF k] c bs by simp
    qed
    moreover have "parse_si (si_image kids) = Some kids" using kids(2) by (intro parse_si_image) simp
    moreover have "concat ?cs = ?es" by (simp add: concat_chunks)
    ultimately have "read_subnodes (lookup_block st') b = Some ?es"
      using law lookup_block_bid [of st' b] by (simp add: read_subnodes_def parse_sl_si)
    then show ?thesis using law law1 by (auto simp: preserves_def)
  qed
qed


subsection \<open>Totality\<close>

lemma emitBlock_halts_within: "halts (within st0) (emitBlock d i)"
  using emitBlock_halts by (auto simp: halts_def within_def)

lemma mapM_halts_within:
  "(\<And>x. x \<in> set xs \<Longrightarrow> halts (within st0) (f x)) \<Longrightarrow> (\<And>x. x \<in> set xs \<Longrightarrow> keeps (within st0) (f x)) \<Longrightarrow>
   halts (within st0) (mapM f xs)"
  by (rule halts_keeps_mapM)

lemma halts_within_bind:
  "halts (within st0) m \<Longrightarrow> keeps (within st0) m \<Longrightarrow> (\<And>a. halts (within st0) (f a)) \<Longrightarrow>
   halts (within st0) (bindM m f)"
  by (rule halts_bindM)

lemma halts_if: "(c \<Longrightarrow> halts P m) \<Longrightarrow> (\<not> c \<Longrightarrow> halts P n) \<Longrightarrow> halts P (if c then m else n)"
  by simp

lemma assembleDataTree_halts: "halts (within st0) (assembleDataTree leaves tot)"
  unfolding assembleDataTree_def emitXBlock_def
  by (intro halts_if halts_within_bind mapM_halts_within hoare_intros halts_simple emitBlock_halts_within)
     (auto intro!: emitBlock_halts_within hoare_intros split: prod.splits)

lemma writeData_halts: "halts (within st0) (writeData data)"
  unfolding writeData_def writeLeafChunk_def [abs_def]
  by (intro halts_if halts_within_bind mapM_halts_within hoare_intros halts_simple
      emitBlock_halts_within assembleDataTree_halts)

lemma writeData_too_long:
  assumes ok: "store_ok st" and len: "length data < 2 ^ 64" "0xFFFFFFFF < length data"
  shows "\<exists>e st'. writeData data st = Some (Inl e, st') \<and> store_ok st' \<and> preserves st st'"
proof -
  have w: "within st st" using ok by (rule within_refl)
  obtain r st' where run: "writeData data st = Some (r, st')"
    using haltsD [OF writeData_halts w] by blast
  have kept: "within st st'" by (rule keepsD [OF writeData_within w run])
  show ?thesis
  proof (cases r)
    case (Inl e)
    then show ?thesis using run kept by (auto simp: within_def)
  next
    case (Inr b)
    let ?cs = "chunks kMaxBlockData data"
    obtain leaves st1 where l: "mapM writeLeafChunk ?cs st = Some (Inr leaves, st1)"
        "assembleDataTree leaves (of_nat (length data)) st1 = Some (Inr b, st')"
      using run Inr len by (auto simp: writeData_def bindM_Inr_iff)
    have "1 < length ?cs" using len by (simp add: length_chunks)
    then have "leaves \<noteq> []" "length leaves \<noteq> 1" using mapM_length [OF l(1)] by auto
    moreover have "(of_nat (length data) :: 64 word) > 0xFFFFFFFF"
      using len by (simp add: word_less_nat_alt unat_small)
    ultimately have False using l(2) by (simp add: assembleDataTree_def prog_simps bindM_Inr_iff)
    then show ?thesis ..
  qed
qed

lemma fresh_roomy:
  assumes "NdbWriter_new path opens (\<lambda>_ _. True) = Inr st" "k \<le> 2 ^ 47"
  shows "roomy k st"
  using store_ok_new [OF assms(1)] NdbWriter_new_ok(3,8,9) [OF assms(1)] assms(2)
  by (simp add: roomy_def)

lemma fresh_exists: "\<exists>st. NdbWriter_new path True (\<lambda>_ _. True) = Inr st"
  by (simp add: NdbWriter_new_def)

subsection \<open>Properties\<close>

text \<open>
  C8: A block reads back for ever. When \<open>emitBlock\<close> returns a BID, that BID named no block
  before, carries the kind asked for, and names a block that passes every trailer check and holds
  the payload, also after any number of later writes, whether those succeed or throw.
\<close>

theorem emitBlock_persists:
  assumes "store_ok st" and "emitBlock data internal st = Some (Inr b, st1)"
    and "mapM (\<lambda>(d, i). emitBlock d i) later st1 = Some (r, st2)"
  shows "lookup_block st b = None \<and> bidIsInternal b = internal \<and> lookup_block st2 b = Some data"
proof -
  have "blocks.after st1 st1" using emitBlock_inv [OF assms(1,2)] by (rule blocks.after_refl)
  then have "blocks.after st1 st2" by (rule keepsD [OF blocks.run_after _ assms(3)])
  then show ?thesis using emitBlock_look [OF assms(1,2)] by (simp add: blocks.after_def)
qed

lemma emitBlock_persists_witness:
  "\<exists>st b st1 bs st2. NdbWriter_new ''mail.pst'' True (\<lambda>_ _. True) = Inr st \<and>
     emitBlock [1, 2, 3] False st = Some (Inr b, st1) \<and>
     mapM (\<lambda>(d, i). emitBlock d i) [([], True), ([7], False)] st1 = Some (bs, st2) \<and>
     lookup_block st2 b = Some [1, 2, 3]"
proof -
  obtain st where st: "NdbWriter_new ''mail.pst'' True (\<lambda>_ _. True) = Inr st"
    using fresh_exists by blast
  have r: "roomy (Suc (0 + length [([] :: bytes, True), ([7], False)])) st"
    by (rule fresh_roomy [OF st]) simp
  obtain b st1 where 1: "emitBlock [1, 2, 3] False st = Some (Inr b, st1)"
      "roomy (0 + length [([] :: bytes, True), ([7], False)]) st1"
    using emitBlock_roomy [OF r, of "[1, 2, 3]" False] by auto
  obtain bs st2 where 2: "mapM (\<lambda>(d, i). emitBlock d i) [([], True), ([7], False)] st1 = Some (Inr bs, st2)"
    using emitBlocks_roomy [OF 1(2)] by (auto simp del: mapM.simps)
  show ?thesis
    using emitBlock_persists [OF store_ok_new [OF st] 1(1) 2] st 1(1) 2 by blast
qed

text \<open>
  C5: The data tree round trip. Whatever the size (a plain block, an XBLOCK or an XXBLOCK), the
  BID \<open>writeData\<close> returns reads back, level by level and with every level's byte total checked,
  as exactly the bytes written, also after any later values have been written or have failed.
\<close>

theorem writeData_roundtrip:
  assumes "store_ok st" and "length data < 2 ^ 64" and "writeData data st = Some (Inr b, st1)"
    and "mapM writeData later st1 = Some (r, st2)"
  shows "read_data (lookup_block st2) b = Some data"
proof -
  note law = writeData_law [OF assms(1-3)]
  have "within st1 st1" using law by (simp add: within_refl)
  then have "within st1 st2"
    by (rule keepsD [OF keeps_mapM [OF writeData_within] _ assms(4)])
  then have "lookup_block st2 c = Some x" if "lookup_block st1 c = Some x" for c x
    using that by (simp add: within_def preserves_def)
  then show ?thesis using law read_data_mono by blast
qed

lemma writeData_roundtrip_witness:
  "\<exists>st b st1 r st2. NdbWriter_new ''mail.pst'' True (\<lambda>_ _. True) = Inr st \<and>
     writeData (replicate 20000 7) st = Some (Inr b, st1) \<and> mapM writeData [[1], [2]] st1 = Some (r, st2) \<and>
     read_data (lookup_block st2) b = Some (replicate 20000 7)"
proof -
  obtain st where st: "NdbWriter_new ''mail.pst'' True (\<lambda>_ _. True) = Inr st"
    using fresh_exists by blast
  have r: "roomy (2 ^ 20) st" by (rule fresh_roomy [OF st]) simp
  have "length (replicate 20000 (7 :: byte)) \<le> 0xFFFFFFFF" by (simp only: length_replicate)
  from writeData_roomy [OF r this]
  obtain b st1 where 1: "writeData (replicate 20000 7) st = Some (Inr b, st1)" "roomy 0 st1"
    by (elim exE conjE) (rule that)
  have "halts (within st1) (mapM writeData [[1], [2]])"
    by (intro mapM_halts_within writeData_halts writeData_within)
  moreover have "within st1 st1" using 1(2) by (simp add: within_refl roomy_def)
  ultimately obtain q st2 where 2: "mapM writeData [[1], [2]] st1 = Some (q, st2)"
    by (blast dest: haltsD)
  have "length (replicate 20000 (7 :: byte)) < 2 ^ 64" by (simp only: length_replicate) simp
  note rb = writeData_roundtrip [OF store_ok_new [OF st] this 1(1) 2]
  show ?thesis by (intro exI conjI, rule st, rule 1(1), rule 2, rule rb)
qed

text \<open>
  C10: \<open>writeData\<close> always returns, whatever the disk refuses and however full the file is, and what
  was written before stays readable. When it returns a BID, the value is at most \<open>2 ^ 32 - 1\<close> bytes
  long and reads back from it. In a file that takes every write and has room for the blocks it
  returns one exactly for these lengths: a longer value is refused with an exception (\<open>docs/limitations.md\<close> puts the limit at
  roughly 8 GB).
\<close>

theorem writeData_outcome:
  assumes "store_ok st" and "length data < 2 ^ 64"
  shows "\<exists>r st'. writeData data st = Some (r, st') \<and> store_ok st' \<and> preserves st st' \<and>
    (\<forall>b. r = Inr b \<longrightarrow> length data \<le> 0xFFFFFFFF \<and> read_data (lookup_block st') b = Some data) \<and>
    (roomy (2 ^ 20) st \<longrightarrow> ((\<exists>b. r = Inr b) \<longleftrightarrow> length data \<le> 0xFFFFFFFF))"
proof -
  have w: "within st st" using assms(1) by (rule within_refl)
  obtain r st' where run: "writeData data st = Some (r, st')" using haltsD [OF writeData_halts w] by blast
  have kept: "store_ok st'" "preserves st st'" using keepsD [OF writeData_within w run] by (simp_all add: within_def)
  have long: "\<exists>e. r = Inl e" if "0xFFFFFFFF < length data"
    using writeData_too_long [OF assms that] run by auto
  have stored: "length data \<le> 0xFFFFFFFF \<and> read_data (lookup_block st') b = Some data" if b: "r = Inr b" for b
    using writeData_law [OF assms run [unfolded b]] long b by (cases "length data \<le> 0xFFFFFFFF") auto
  have "(\<exists>b. r = Inr b) \<longleftrightarrow> length data \<le> 0xFFFFFFFF" if "roomy (2 ^ 20) st"
    using writeData_roomy [OF that, of data] run stored by auto
  with run kept stored show ?thesis by blast
qed

lemma writeData_outcome_witness:
  "\<exists>st r st'. NdbWriter_new ''mail.pst'' True (\<lambda>_ _. True) = Inr st \<and>
     writeData (replicate 9000 1) st = Some (Inr r, st') \<and>
     read_data (lookup_block st') r = Some (replicate 9000 1)"
proof -
  obtain st where st: "NdbWriter_new ''mail.pst'' True (\<lambda>_ _. True) = Inr st"
    using fresh_exists by blast
  have r: "roomy (2 ^ 20) st" by (rule fresh_roomy [OF st]) simp
  have len: "length (replicate 9000 (1 :: byte)) < 2 ^ 64" "length (replicate 9000 (1 :: byte)) \<le> 0xFFFFFFFF"
    by (simp_all only: length_replicate) simp
  obtain q st' where q: "writeData (replicate 9000 1) st = Some (q, st')"
      "\<forall>b. q = Inr b \<longrightarrow> length (replicate 9000 (1 :: byte)) \<le> 0xFFFFFFFF \<and>
        read_data (lookup_block st') b = Some (replicate 9000 1)"
      "(\<exists>b. q = Inr b) \<longleftrightarrow> length (replicate 9000 (1 :: byte)) \<le> 0xFFFFFFFF"
    using writeData_outcome [OF store_ok_new [OF st] len(1)] r by blast
  then obtain b where b: "q = Inr b" using len(2) by blast
  have run: "writeData (replicate 9000 1) st = Some (Inr b, st')" using q(1) unfolding b .
  have rb: "read_data (lookup_block st') b = Some (replicate 9000 1)" using q(2) b by blast
  show ?thesis by (intro exI conjI, rule st, rule run, rule rb)
qed

text \<open>
  C9: The subnode tree round trip. The BID \<open>writeSubnodes\<close> returns (zero for no entries, an
  SLBLOCK, or a SIBLOCK over SLBLOCKs whose keys are their first NIDs) reads back as the entries
  in ascending order of NID.
\<close>

theorem writeSubnodes_roundtrip:
  assumes "store_ok st" and "writeSubnodes entries st = Some (Inr b, st')"
  shows "read_subnodes (lookup_block st') b = Some (sort_key sn_nid entries) \<and>
    sorted (map sn_nid (sort_key sn_nid entries)) \<and> (b = 0 \<longleftrightarrow> entries = [])"
proof -
  note law = writeSubnodes_law [OF assms]
  have "sort_key sn_nid entries = [] \<longleftrightarrow> entries = []" by (metis length_0_conv length_sort)
  moreover have "b = 0 \<Longrightarrow> sort_key sn_nid entries = []" using law by (simp add: read_subnodes_def)
  moreover have "entries = [] \<Longrightarrow> b = 0" using assms(2) by (simp add: writeSubnodes_def prog_simps)
  ultimately show ?thesis using law by auto
qed

lemma writeSubnodes_roundtrip_witness:
  "\<exists>st b st'. NdbWriter_new ''mail.pst'' True (\<lambda>_ _. True) = Inr st \<and>
     writeSubnodes [\<lparr>sn_nid = 0x692, sn_data = 8, sn_sub = 0\<rparr>, \<lparr>sn_nid = 0x671, sn_data = 4, sn_sub = 0\<rparr>] st =
       Some (Inr b, st') \<and>
     read_subnodes (lookup_block st') b =
       Some [\<lparr>sn_nid = 0x671, sn_data = 4, sn_sub = 0\<rparr>, \<lparr>sn_nid = 0x692, sn_data = 8, sn_sub = 0\<rparr>]"
proof -
  let ?es = "[\<lparr>sn_nid = 0x692, sn_data = 8, sn_sub = 0\<rparr>, \<lparr>sn_nid = 0x671, sn_data = 4, sn_sub = 0\<rparr>]"
  obtain st where st: "NdbWriter_new ''mail.pst'' True (\<lambda>_ _. True) = Inr st"
    using fresh_exists by blast
  have r: "roomy (Suc 0) st" by (rule fresh_roomy [OF st]) simp
  have "length (sl_image (sort_key sn_nid ?es)) \<le> kMaxBlockData"
    by (simp add: sl_image_eq sl_entry_def)
  then obtain b st' where "emitBlock (sl_image (sort_key sn_nid ?es)) True st = Some (Inr b, st')"
    using emitBlock_roomy [OF r] by blast
  then have run: "writeSubnodes ?es st = Some (Inr b, st')"
    by (simp add: writeSubnodes_def emit_sl_def)
  have "sort_key sn_nid ?es =
     [\<lparr>sn_nid = 0x671, sn_data = 4, sn_sub = 0\<rparr>, \<lparr>sn_nid = 0x692, sn_data = 8, sn_sub = 0\<rparr>]"
    by simp
  with writeSubnodes_roundtrip [OF store_ok_new [OF st] run] show ?thesis
    using st run by auto
qed

end
