(* ===== verification/Streaming_Heap.thy ===== *)
theory Streaming_Heap
  imports Bth Ndb_Block
begin

section \<open>The streaming heap (src/pst/streaming_table.cpp, class StreamingHeap)\<close>

text \<open>
  A heap that hands each block to the node database as soon as it is full and keeps only block 0
  and the one being filled. It promises to be a \<open>HeapNode\<close> all the same: the relation \<open>streams\<close>
  ties a state to the in-memory heap with the same content, every operation is simulated by the
  in-memory one, and the data tree that \<open>finish\<close> assembles reads as the serialized heap does.
\<close>

subsection \<open>State and operations\<close>

record sheap =
  sp_sig :: byte
  sp_root :: hid
  sp_block0 :: hblock
  sp_current :: hblock
  sp_index :: nat
  sp_leaves :: "bid list"
  sp_total :: "64 word"
  sp_finished :: bool

text \<open>The heap works on the writer of the file, which others use in between.\<close>

record streaming =
  st_ndb :: ndb
  st_heap :: sheap

definition StreamingHeap_new :: "byte \<Rightarrow> sheap" where
  "StreamingHeap_new sig = \<lparr>sp_sig = sig, sp_root = 0, sp_block0 = empty_block, sp_current = empty_block,
     sp_index = 0, sp_leaves = [0], sp_total = 0, sp_finished = False\<rparr>"

definition st_on_ndb :: "(ndb, 'a) prog \<Rightarrow> (streaming, 'a) prog" where
  "st_on_ndb = zoomM st_ndb (\<lambda>d s. s\<lparr>st_ndb := d\<rparr>)"

abbreviation upd_heap :: "(sheap \<Rightarrow> sheap) \<Rightarrow> streaming \<Rightarrow> streaming" where
  "upd_heap f s \<equiv> s\<lparr>st_heap := f (st_heap s)\<rparr>"

definition sheap_setUserRoot :: "hid \<Rightarrow> streaming \<Rightarrow> streaming" where
  "sheap_setUserRoot r = upd_heap (\<lambda>p. p\<lparr>sp_root := r\<rparr>)"

definition sheap_fits :: "sheap \<Rightarrow> nat \<Rightarrow> nat \<Rightarrow> bool" where
  "sheap_fits p block_index len = block_fits block_index (if block_index = 0 then sp_block0 p else sp_current p) len"

text \<open>The fill levels: the first nibble is block 0's, the others are left at \<open>0xF\<close>.\<close>

definition stream_fill :: "nat \<Rightarrow> bytes" where
  "stream_fill free_bytes = [(0xFF AND 0xF0) OR fillLevelCode free_bytes, 0xFF, 0xFF, 0xFF]"

definition renderBlock :: "sheap \<Rightarrow> hblock \<Rightarrow> nat \<Rightarrow> bool \<Rightarrow> bytes" where
  "renderBlock p b block_index is_last =
     hn_block (sp_sig p) (sp_root p) (stream_fill (block_free block_index is_last (hb_items b))) block_index is_last (hb_items b)"

definition flushCurrent :: "bool \<Rightarrow> (streaming, unit) prog" where
  "flushCurrent is_last =
     bindM (getM st_heap) (\<lambda>p.
     let blk = renderBlock p (sp_current p) (sp_index p) is_last in
     bindM (st_on_ndb (writeLeafChunk blk)) (\<lambda>b.
     modM (upd_heap (\<lambda>p. p\<lparr>sp_leaves := sp_leaves p @ [b], sp_total := sp_total p + of_nat (length blk),
       sp_current := empty_block\<rparr>))))"

text \<open>The last part of \<open>alloc\<close>: the item goes into the rolling block.\<close>

definition put_current :: "bytes \<Rightarrow> (streaming, hid) prog" where
  "put_current data =
     bindM (modM (upd_heap (\<lambda>p. p\<lparr>sp_current := add_item data (sp_current p)\<rparr>))) (\<lambda>_.
     getM (\<lambda>s. makeHid (of_nat (sp_index (st_heap s))) (of_nat (length (hb_items (sp_current (st_heap s)))))))"

definition sheap_alloc :: "bytes \<Rightarrow> (streaming, hid) prog" where
  "sheap_alloc data =
     bindM (throw_if (maxAllocSize < length data) (too_large (length data))) (\<lambda>_.
     bindM (getM st_heap) (\<lambda>p.
     if sp_index p = 0 then
       (if sheap_fits p 0 (length data) \<and> length (hb_items (sp_block0 p)) < 2047 then
          bindM (modM (upd_heap (\<lambda>p. p\<lparr>sp_block0 := add_item data (sp_block0 p)\<rparr>))) (\<lambda>_.
          getM (\<lambda>s. makeHid 0 (of_nat (length (hb_items (sp_block0 (st_heap s)))))))
        else
          bindM (modM (upd_heap (\<lambda>p. p\<lparr>sp_index := 1\<rparr>))) (\<lambda>_. put_current data))
     else if \<not> sheap_fits p (sp_index p) (length data) \<or> 2047 \<le> length (hb_items (sp_current p)) then
       bindM (flushCurrent False) (\<lambda>_.
       bindM (modM (upd_heap (\<lambda>p. p\<lparr>sp_index := sp_index p + 1\<rparr>))) (\<lambda>_.
       bindM (throw_if (0xFFFF < sp_index p + 1) (PstError ''heap grew beyond 65535 blocks'')) (\<lambda>_.
       put_current data)))
     else put_current data))"

definition sheap_finish :: "(streaming, bid) prog" where
  "sheap_finish =
     bindM (getM st_heap) (\<lambda>p.
     bindM (throw_if (sp_finished p) (PstError ''StreamingHeap::finish called twice'')) (\<lambda>_.
     bindM (modM (upd_heap (\<lambda>p. p\<lparr>sp_finished := True\<rparr>))) (\<lambda>_.
     let only_block0 = (sp_index p = 0) in
     bindM (if \<not> only_block0 then flushCurrent True else ret ()) (\<lambda>_.
     bindM (getM (\<lambda>s. renderBlock (st_heap s) (sp_block0 (st_heap s)) 0 only_block0)) (\<lambda>blk0.
     bindM (st_on_ndb (writeLeafChunk blk0)) (\<lambda>b.
     bindM (modM (upd_heap (\<lambda>p. p\<lparr>sp_leaves := (sp_leaves p)[0 := b], sp_total := sp_total p + of_nat (length blk0)\<rparr>))) (\<lambda>_.
     bindM (getM st_heap) (\<lambda>p. st_on_ndb (assembleDataTree (sp_leaves p) (sp_total p))))))))))"

subsection \<open>The in-memory heap it stands for\<close>

text \<open>A flushed block: past block 0 neither the signature nor the root shows in it.\<close>

definition full_block :: "heap \<Rightarrow> nat \<Rightarrow> bytes" where
  "full_block h i = hn_block (client_sig h) (user_root h) (replicate 4 0) i False (hb_items (hblocks h ! i))"

definition streams :: "streaming \<Rightarrow> heap \<Rightarrow> bool" where
  "streams s h \<longleftrightarrow>
     (let p = st_heap s; i = sp_index p in
      store_ok (st_ndb s) \<and> heap_ok h \<and> length (hblocks h) = i + 1 \<and>
      client_sig h = sp_sig p \<and> user_root h = sp_root p \<and> \<not> sp_finished p \<and>
      hblocks h ! 0 = sp_block0 p \<and> (if i = 0 then sp_current p = empty_block else hblocks h ! i = sp_current p) \<and>
      length (sp_leaves p) = max 1 i \<and> sp_total p = of_nat (kMaxBlockData * (i - 1)) \<and>
      (\<forall>k. 0 < k \<and> k < i \<longrightarrow> lookup_block (st_ndb s) (sp_leaves p ! k) = Some (full_block h k) \<and>
        \<not> bidIsInternal (sp_leaves p ! k)))"

lemma st_on_ndb_run:
  "st_on_ndb m s = (case m (st_ndb s) of None \<Rightarrow> None | Some (r, d) \<Rightarrow> Some (r, s\<lparr>st_ndb := d\<rparr>))"
  by (simp add: st_on_ndb_def zoomM_def)

lemma streams_new: "store_ok d \<Longrightarrow> streams \<lparr>st_ndb = d, st_heap = StreamingHeap_new sig\<rparr> (HeapNode_new sig)"
  by (simp add: streams_def Let_def StreamingHeap_new_def HeapNode_new_def HeapNode_new_ok [unfolded HeapNode_new_def])

lemma full_block_root: "0 < i \<Longrightarrow> full_block (setUserRoot r h) i = full_block h i"
  using hn_block_fill [of i] by (simp add: full_block_def setUserRoot_def)

lemma streams_root: "streams s h \<Longrightarrow> streams (sheap_setUserRoot r s) (setUserRoot r h)"
  by (auto simp: streams_def Let_def sheap_setUserRoot_def full_block_root) (auto simp: setUserRoot_def)

text \<open>Others may write to the file in between.\<close>

lemma streams_ndb: "streams s h \<Longrightarrow> within (st_ndb s) d \<Longrightarrow> streams (s\<lparr>st_ndb := d\<rparr>) h"
  by (auto simp: streams_def Let_def within_def preserves_def)

definition flushed :: "bytes \<Rightarrow> bid \<Rightarrow> sheap \<Rightarrow> sheap" where
  "flushed blk b p = p\<lparr>sp_leaves := sp_leaves p @ [b], sp_total := sp_total p + of_nat (length blk), sp_current := empty_block\<rparr>"

lemma leaf_law:
  assumes "store_ok d" "writeLeafChunk blk d = Some (Inr b, d')"
  shows "within d d' \<and> lookup_block d' b = Some blk \<and> \<not> bidIsInternal b"
  using emitBlock_law [OF assms(1)] assms(2) by (fastforce simp: writeLeafChunk_def within_def)

lemma flushCurrent_run:
  assumes "store_ok (st_ndb s)" "flushCurrent l s = Some (Inr (), s')"
  defines "blk \<equiv> renderBlock (st_heap s) (sp_current (st_heap s)) (sp_index (st_heap s)) l"
  shows "\<exists>b. within (st_ndb s) (st_ndb s') \<and> lookup_block (st_ndb s') b = Some blk \<and> \<not> bidIsInternal b \<and>
    st_heap s' = flushed blk b (st_heap s)"
proof -
  obtain b d where "writeLeafChunk blk (st_ndb s) = Some (Inr b, d)" "s' = s\<lparr>st_ndb := d, st_heap := flushed blk b (st_heap s)\<rparr>"
    using assms(2)
    by (auto simp: flushCurrent_def Let_def prog_simps bindM_Inr_iff st_on_ndb_run flushed_def blk_def split: option.splits prod.splits)
  then show ?thesis using leaf_law [OF assms(1)] by auto
qed

lemma renderBlock_full:
  assumes "0 < i" "b = hblocks h ! i"
  shows "renderBlock p b i False = full_block h i"
  using hn_block_fill [OF assms(1)] assms(2) by (simp add: renderBlock_def full_block_def)

lemma length_full_block: "heap_ok h \<Longrightarrow> i < length (hblocks h) \<Longrightarrow> length (full_block h i) = kMaxBlockData"
  using heap_block_fit by (simp add: full_block_def length_hn_block block_len_def)

lemma streams_room:
  assumes "streams s h"
  defines "p \<equiv> st_heap s"
  shows "has_room h n \<longleftrightarrow> sheap_fits p (sp_index p) n \<and>
    length (hb_items (if sp_index p = 0 then sp_block0 p else sp_current p)) < 2047"
  using assms by (auto simp: streams_def Let_def has_room_def fits_def sheap_fits_def last_conv_nth heap_ok_def)

text \<open>The three ways an item goes in.\<close>

lemma streams_put0:
  assumes "streams s h" "sp_index (st_heap s) = 0" "has_room h (length d)"
  shows "streams (upd_heap (\<lambda>p. p\<lparr>sp_block0 := add_item d (sp_block0 p)\<rparr>) s) (put_item 0 d h)"
proof -
  have "heap_ok (put_item 0 d h)"
    using put_item_ok(1) [of h 0 d] assms by (simp add: streams_def Let_def)
  moreover have "hblocks h \<noteq> []" using assms(1) by (simp add: streams_def heap_ok_def Let_def)
  ultimately show ?thesis using assms by (simp add: streams_def Let_def put_item_def)
qed

lemma streams_put:
  assumes "streams s h" "0 < sp_index (st_heap s)" "has_room h (length d)"
  shows "streams (upd_heap (\<lambda>p. p\<lparr>sp_current := add_item d (sp_current p)\<rparr>) s) (put_item (sp_index (st_heap s)) d h)"
proof -
  have "heap_ok (put_item (sp_index (st_heap s)) d h)"
    using put_item_ok(1) [of h "sp_index (st_heap s)" d] assms by (simp add: streams_def Let_def)
  then show ?thesis using assms by (auto simp: streams_def Let_def put_item_def full_block_def)
qed

lemma streams_open:
  assumes "streams s h" "sp_index (st_heap s) = 0"
  shows "streams (upd_heap (\<lambda>p. p\<lparr>sp_index := 1\<rparr>) s) (grow h)"
proof -
  have "heap_ok (grow h)" using grow_ok [of h] assms by (simp add: streams_def Let_def)
  moreover have "hblocks h \<noteq> []" using assms(1) by (simp add: streams_def heap_ok_def Let_def)
  ultimately show ?thesis using assms by (auto simp: streams_def Let_def grow_def nth_append)
qed

lemma streams_flush:
  assumes r: "streams s h" and i: "0 < sp_index (st_heap s)" "sp_index (st_heap s) < 0xFFFF"
    and run: "flushCurrent False s = Some (Inr (), s')"
  shows "streams (upd_heap (\<lambda>p. p\<lparr>sp_index := sp_index p + 1\<rparr>) s') (grow h) \<and> within (st_ndb s) (st_ndb s') \<and>
    sp_index (st_heap s') = sp_index (st_heap s)"
proof -
  let ?p = "st_heap s" and ?i = "sp_index (st_heap s)"
  have ok: "store_ok (st_ndb s)" "heap_ok h" "length (hblocks h) = ?i + 1" "hblocks h ! ?i = sp_current ?p"
    using r i by (simp_all add: streams_def Let_def)
  have blk: "renderBlock ?p (sp_current ?p) ?i False = full_block h ?i"
    by (rule renderBlock_full) (use i ok in simp_all)
  obtain b where s': "within (st_ndb s) (st_ndb s')" "lookup_block (st_ndb s') b = Some (full_block h ?i)"
      "\<not> bidIsInternal b" "st_heap s' = flushed (full_block h ?i) b ?p"
    using flushCurrent_run [OF ok(1) run] blk by auto
  have len: "length (full_block h ?i) = kMaxBlockData" using length_full_block [OF ok(2)] ok(3) by simp
  have nl: "length (sp_leaves ?p) = ?i" using r i by (simp add: streams_def Let_def)
  have full: "full_block (grow h) k = full_block h k" if k: "k < ?i + 1" for k
    using that ok(3) by (simp add: full_block_def grow_def nth_append)
  have grown: "heap_ok (grow h)" using grow_ok [OF ok(2)] ok(3) i by simp
  have "kMaxBlockData * (?i - 1) + kMaxBlockData = kMaxBlockData * ?i" using i by (cases ?i) simp_all
  then have tot: "(of_nat (kMaxBlockData * (?i - 1)) + of_nat kMaxBlockData :: 64 word) = of_nat (kMaxBlockData * ?i)"
    by (simp only: of_nat_add [symmetric])
  have "lookup_block (st_ndb s') ((sp_leaves ?p @ [b]) ! k) = Some (full_block (grow h) k) \<and>
      \<not> bidIsInternal ((sp_leaves ?p @ [b]) ! k)" if k: "0 < k" "k < ?i + 1" for k
    using r k full [OF k(2)] s' nl by (cases "k < ?i"; cases "k = ?i") (auto simp: streams_def Let_def nth_append within_def preserves_def)
  then show ?thesis
    using r i s' grown len tot ok(3)
    by (auto simp: streams_def Let_def flushed_def grow_def nth_append within_def simp del: of_nat_mult of_nat_numeral)
qed

text \<open>Every allocation is the one the in-memory heap makes, with the same identifier.\<close>

lemma put_current_run:
  "put_current d s = Some (Inr (item_hid (sp_index (st_heap s)) (add_item d (sp_current (st_heap s)))),
     upd_heap (\<lambda>p. p\<lparr>sp_current := add_item d (sp_current p)\<rparr>) s)"
  by (simp add: put_current_def prog_simps item_hid_def)

abbreviation st_within :: "ndb \<Rightarrow> streaming \<Rightarrow> bool" where
  "st_within d s \<equiv> within d (st_ndb s)"

lemma st_on_ndb_within [hoare_intros]: "keeps (within d) m \<Longrightarrow> keeps (st_within d) (st_on_ndb m)"
  unfolding st_on_ndb_def by (rule keeps_zoomM) simp_all

lemma flushCurrent_within [hoare_intros]: "keeps (st_within d) (flushCurrent l)"
  unfolding flushCurrent_def Let_def by (auto intro!: hoare_intros)

lemma sheap_alloc_within [hoare_intros]: "keeps (st_within d) (sheap_alloc x)"
  unfolding sheap_alloc_def put_current_def by (auto intro!: hoare_intros)

lemma sheap_finish_within [hoare_intros]: "keeps (st_within d) sheap_finish"
  unfolding sheap_finish_def Let_def by (auto intro!: hoare_intros)

lemma sheap_alloc_sim:
  assumes r: "streams s h" and run: "sheap_alloc d s = Some (Inr k, s')"
  shows "\<exists>h'. alloc d h = Some (Inr k, h') \<and> streams s' h'"
proof -
  let ?p = "st_heap s" and ?i = "sp_index (st_heap s)"
  have ok: "hblocks h \<noteq> []" "length (hblocks h) = ?i + 1" "hblocks h ! 0 = sp_block0 ?p"
      "?i \<noteq> 0 \<Longrightarrow> hblocks h ! ?i = sp_current ?p" "?i = 0 \<Longrightarrow> sp_current ?p = empty_block"
    using r by (auto simp: streams_def Let_def heap_ok_def)
  have len: "length d \<le> maxAllocSize"
    using run by (simp add: sheap_alloc_def prog_simps bindM_Inr_iff split: if_splits)
  note room = streams_room [OF r, of "length d"]
  have al: "alloc d h = (let h1 = (if has_room h (length d) then h else grow h); i = length (hblocks h1) - 1
      in if \<not> has_room h (length d) \<and> 0xFFFF < i then Some (Inl (PstError ''heap grew beyond 65535 blocks''), h1)
         else Some (Inr (item_hid i (add_item d (hblocks h1 ! i))), put_item i d h1))"
    using len by (simp add: alloc_run [OF ok(1)])
  consider (here0) "?i = 0" "has_room h (length d)" | (open1) "?i = 0" "\<not> has_room h (length d)"
    | (here) "0 < ?i" "has_room h (length d)" | (flush) "0 < ?i" "\<not> has_room h (length d)" by blast
  then show ?thesis
  proof cases
    case here0
    then have "k = item_hid 0 (add_item d (sp_block0 ?p))" "s' = upd_heap (\<lambda>p. p\<lparr>sp_block0 := add_item d (sp_block0 p)\<rparr>) s"
      using run len room by (simp_all add: sheap_alloc_def prog_simps bindM_run item_hid_def)
    then show ?thesis using streams_put0 [OF r here0] here0 ok al by simp
  next
    case open1
    let ?s1 = "upd_heap (\<lambda>p. p\<lparr>sp_index := 1\<rparr>) s"
    have s': "k = item_hid 1 (add_item d empty_block)" "s' = upd_heap (\<lambda>p. p\<lparr>sp_current := add_item d (sp_current p)\<rparr>) ?s1"
      using run len room open1 ok by (auto simp: sheap_alloc_def prog_simps bindM_run put_current_run)
    have "streams s' (put_item 1 d (grow h))"
      using streams_put [OF streams_open [OF r open1(1)], of d] grow_room [OF ok(1) len] s'(2) by simp
    then show ?thesis using open1 ok(2) al s'(1) by (simp add: grow_def nth_append)
  next
    case here
    then have "k = item_hid ?i (add_item d (sp_current ?p))" "s' = upd_heap (\<lambda>p. p\<lparr>sp_current := add_item d (sp_current p)\<rparr>) s"
      using run len room by (auto simp: sheap_alloc_def prog_simps bindM_run put_current_run)
    then show ?thesis using streams_put [OF r here] here ok(2) ok(4) [OF less_imp_neq [THEN not_sym, OF here(1)]] al by (simp add: Let_def)
  next
    case flush
    then have "\<not> sheap_fits ?p ?i (length d) \<or> 2047 \<le> length (hb_items (sp_current ?p))" using room by auto
    then have eq: "sheap_alloc d s = bindM (flushCurrent False) (\<lambda>_.
       bindM (modM (upd_heap (\<lambda>p. p\<lparr>sp_index := sp_index p + 1\<rparr>))) (\<lambda>_.
       bindM (throw_if (0xFFFF < ?i + 1) (PstError ''heap grew beyond 65535 blocks'')) (\<lambda>_. put_current d))) s"
      using len flush by (simp add: sheap_alloc_def prog_simps)
    obtain s1 where f: "flushCurrent False s = Some (Inr (), s1)"
      using run [unfolded eq] by (auto simp: bindM_Inr_iff)
    let ?s2 = "upd_heap (\<lambda>p. p\<lparr>sp_index := sp_index p + 1\<rparr>) s1"
    obtain b where s1: "st_heap s1 = flushed (renderBlock ?p (sp_current ?p) ?i False) b ?p"
      using flushCurrent_run [OF _ f] r by (auto simp: streams_def Let_def)
    have small: "?i < 0xFFFF" and s': "k = item_hid (?i + 1) (add_item d empty_block)"
        "s' = upd_heap (\<lambda>p. p\<lparr>sp_current := add_item d (sp_current p)\<rparr>) ?s2"
      using run unfolding eq by (auto simp: f s1 bindM_Inr_iff prog_simps put_current_run flushed_def split: if_splits)
    note s2 = streams_flush [OF r flush(1) small f]
    have "streams s' (put_item (?i + 1) d (grow h))"
      using streams_put [OF conjunct1 [OF s2], of d] conjunct2 [OF s2] grow_room [OF ok(1) len] s'(2) by simp
    then show ?thesis using flush ok(2) al s'(1) small by (simp add: grow_def nth_append)
  qed
qed

lemma sheap_alloc_simulates [sim_intros]: "simulates streams (sheap_alloc d) (alloc d)"
  by (rule simulatesI) (rule sheap_alloc_sim)

lemmas sheap_allocs_sim = simulatesD [OF simulates_mapM [OF sheap_alloc_simulates]]

text \<open>So a B-tree built on a streaming heap is the one built on the heap in memory.\<close>

lemma sheap_bth_simulates [sim_intros]: "simulates streams (buildBthInto sheap_alloc kb eb rs) (buildBth kb eb rs)"
  unfolding buildBth_def by (intro sim_intros)

subsection \<open>Finishing\<close>

lemma piece_full: "0 < i \<Longrightarrow> i + 1 < length (hblocks h) \<Longrightarrow> heap_piece fill h i = full_block h i"
  using hn_block_fill [of i] by (simp add: heap_piece_def full_block_def)

definition final_fill :: "sheap \<Rightarrow> bytes" where
  "final_fill p = stream_fill (block_free 0 (sp_index p = 0) (hb_items (sp_block0 p)))"

lemma length_final_fill [simp]: "length (final_fill p) = 4"
  by (simp add: final_fill_def stream_fill_def)

text \<open>The blocks of a finished heap: block 0 last on disk, first in the tree.\<close>

lemma sheap_finish_leaves:
  assumes r: "streams s h" and run: "sheap_finish s = Some (Inr b, s')"
  shows "\<exists>d leaves. within (st_ndb s) d \<and>
    map (lookup_block d) leaves = map Some (map (heap_piece (final_fill (st_heap s)) h) [0..<length (hblocks h)]) \<and>
    (\<forall>b \<in> set leaves. \<not> bidIsInternal b) \<and>
    assembleDataTree leaves (of_nat (length (heap_stream (final_fill (st_heap s)) h))) d = Some (Inr b, st_ndb s')"
proof -
  let ?p = "st_heap s" and ?i = "sp_index (st_heap s)"
  let ?fill = "final_fill ?p"
  let ?f = "\<lambda>s. upd_heap (\<lambda>p. p\<lparr>sp_finished := True\<rparr>) s"
  have ok: "store_ok (st_ndb s)" "heap_ok h" "length (hblocks h) = ?i + 1" "hblocks h ! 0 = sp_block0 ?p"
      "?i \<noteq> 0 \<Longrightarrow> hblocks h ! ?i = sp_current ?p" "length (sp_leaves ?p) = max 1 ?i"
      "sp_total ?p = of_nat (kMaxBlockData * (?i - 1))" "client_sig h = sp_sig ?p" "user_root h = sp_root ?p"
    and flushed: "\<And>k. 0 < k \<Longrightarrow> k < ?i \<Longrightarrow> lookup_block (st_ndb s) (sp_leaves ?p ! k) = Some (full_block h k) \<and>
        \<not> bidIsInternal (sp_leaves ?p ! k)"
    using r by (auto simp: streams_def Let_def)
  let ?blk0 = "heap_piece ?fill h 0"
  have blk0: "renderBlock p (sp_block0 ?p) 0 (?i = 0) = ?blk0" if "sp_sig p = sp_sig ?p" "sp_root p = sp_root ?p" for p
    using that ok by (auto simp: renderBlock_def heap_piece_def final_fill_def)
  have n: "length (heap_stream ?fill h) = kMaxBlockData * ?i + length (heap_piece ?fill h ?i)"
    using length_heap_stream [OF ok(2), of ?fill] ok(3) by simp
  show ?thesis
  proof (cases "?i = 0")
    case True
    obtain b0 d where 1: "writeLeafChunk ?blk0 (st_ndb s) = Some (Inr b0, d)"
      and 2: "assembleDataTree ((sp_leaves ?p)[0 := b0]) (sp_total ?p + of_nat (length ?blk0)) d = Some (Inr b, st_ndb s')"
      using run True blk0 [of "?p\<lparr>sp_finished := True\<rparr>"]
      by (auto simp: sheap_finish_def Let_def prog_simps bindM_Inr_iff st_on_ndb_run split: option.splits prod.splits if_splits)
    obtain l where "sp_leaves ?p = [l]" using ok(6) True by (auto simp: length_Suc_conv)
    then show ?thesis
      using leaf_law [OF ok(1) 1] 2 True n ok(3,7) by (intro exI [of _ d] exI [of _ "[b0]"]) simp
  next
    case False
    obtain s1 b0 d where 0: "flushCurrent True (?f s) = Some (Inr (), s1)"
      and 1: "writeLeafChunk (renderBlock (st_heap s1) (sp_block0 (st_heap s1)) 0 False) (st_ndb s1) = Some (Inr b0, d)"
      and 2: "assembleDataTree ((sp_leaves (st_heap s1))[0 := b0])
          (sp_total (st_heap s1) + of_nat (length (renderBlock (st_heap s1) (sp_block0 (st_heap s1)) 0 False))) d = Some (Inr b, st_ndb s')"
      using run False
      by (auto simp: sheap_finish_def Let_def prog_simps bindM_Inr_iff st_on_ndb_run split: option.splits prod.splits if_splits)
    let ?last = "heap_piece ?fill h ?i"
    have last: "renderBlock (?p\<lparr>sp_finished := True\<rparr>) (sp_current ?p) ?i True = ?last"
      using False ok hn_block_fill [of ?i] by (simp add: renderBlock_def heap_piece_def)
    obtain bl where s1: "within (st_ndb s) (st_ndb s1)" "lookup_block (st_ndb s1) bl = Some ?last" "\<not> bidIsInternal bl"
        "st_heap s1 = flushed ?last bl (?p\<lparr>sp_finished := True\<rparr>)"
      using flushCurrent_run [OF _ 0] ok(1) last by auto
    have blk: "renderBlock (st_heap s1) (sp_block0 (st_heap s1)) 0 False = ?blk0"
      using blk0 [of "st_heap s1"] s1(4) False by (simp add: flushed_def)
    note w = leaf_law [OF _ 1 [unfolded blk]]
    have d: "within (st_ndb s1) d" "lookup_block d b0 = Some ?blk0" "\<not> bidIsInternal b0"
      using w s1(1) by (auto simp: within_def)
    define leaves where "leaves = (sp_leaves ?p @ [bl])[0 := b0]"
    have nth: "lookup_block d (leaves ! k) = Some (heap_piece ?fill h k) \<and> \<not> bidIsInternal (leaves ! k)" if k: "k < ?i + 1" for k
    proof -
      consider "k = 0" | "0 < k" "k < ?i" | "k = ?i" using k by linarith
      then show ?thesis
        using d s1 flushed ok(3,6) False piece_full [of k h ?fill]
        by cases (auto simp: leaves_def nth_list_update nth_append within_def preserves_def)
    qed
    have len: "length leaves = ?i + 1" using ok(6) False by (simp add: leaves_def)
    have "map (lookup_block d) leaves = map Some (map (heap_piece ?fill h) [0..<length (hblocks h)])"
      by (rule nth_equalityI) (use nth len ok(3) in \<open>simp_all del: upt_Suc\<close>)
    moreover have "\<forall>b \<in> set leaves. \<not> bidIsInternal b" using nth len by (auto simp: in_set_conv_nth)
    moreover have "assembleDataTree leaves (of_nat (length (heap_stream ?fill h))) d = Some (Inr b, st_ndb s')"
    proof -
      have l0: "length ?blk0 = kMaxBlockData" using length_heap_piece [OF ok(2), of 0 ?fill] ok(3) False by (simp add: block_len_def)
      have "kMaxBlockData * (?i - 1) + length ?last + kMaxBlockData = length (heap_stream ?fill h)"
        using n False by (cases ?i) simp_all
      moreover have "sp_total (st_heap s1) = of_nat (kMaxBlockData * (?i - 1)) + of_nat (length ?last)"
        using s1(4) ok(7) by (simp add: flushed_def)
      ultimately have "sp_total (st_heap s1) + of_nat (length ?blk0) = (of_nat (length (heap_stream ?fill h)) :: 64 word)"
        using l0 by (simp only: of_nat_add [symmetric])
      then show ?thesis using 2 blk s1(4) by (simp add: leaves_def flushed_def)
    qed
    moreover have "within (st_ndb s) d" using s1(1) d(1) by (auto simp: within_def preserves_def)
    ultimately show ?thesis by (intro exI conjI)
  qed
qed

lemma sheap_finish_sim:
  assumes r: "streams s h" and run: "sheap_finish s = Some (Inr b, s')"
  shows "within (st_ndb s) (st_ndb s') \<and> read_data (lookup_block (st_ndb s')) b = Some (heap_stream (final_fill (st_heap s)) h)"
proof -
  have ok: "store_ok (st_ndb s)" "heap_ok h" using r by (simp_all add: streams_def Let_def)
  note small = heap_stream_small [OF ok(2) length_final_fill]
  have "chunks kMaxBlockData (heap_stream (final_fill (st_heap s)) h) =
      map (heap_piece (final_fill (st_heap s)) h) [0..<length (hblocks h)]"
    by (rule chunks_stream [OF ok(2)]) simp
  with sheap_finish_leaves [OF r run] obtain d leaves where d: "within (st_ndb s) d"
      "map (lookup_block d) leaves = map Some (chunks kMaxBlockData (heap_stream (final_fill (st_heap s)) h))"
      "\<forall>b \<in> set leaves. \<not> bidIsInternal b"
      "assembleDataTree leaves (of_nat (length (heap_stream (final_fill (st_heap s)) h))) d = Some (Inr b, st_ndb s')"
    by auto
  then show ?thesis
    using assembleDataTree_ok [OF _ d(2,3) small d(4)] by (auto simp: within_def preserves_def)
qed

subsection \<open>Properties\<close>

text \<open>
  C37: The streaming heap implements the in-memory one. Whatever is allocated, as long as it
  succeeds the in-memory heap succeeds too and returns the same identifiers; and the data tree
  \<open>finish\<close> assembles, block 0 written last but first in the tree, reads as a heap with the
  same root, signature and content as the in-memory heap serializes.
\<close>

theorem streaming_heap_refines:
  assumes "store_ok d"
    and "mapM sheap_alloc xs \<lparr>st_ndb = d, st_heap = StreamingHeap_new sig\<rparr> = Some (Inr ks, s)"
    and "sheap_finish (sheap_setUserRoot r s) = Some (Inr b, s')"
  shows "\<exists>h data. mapM alloc xs (HeapNode_new sig) = Some (Inr ks, h) \<and>
    read_data (lookup_block (st_ndb s')) b = Some data \<and> preserves d (st_ndb s') \<and>
    heap_root data = r \<and> heap_sig data = heap_sig (serialize (setUserRoot r h)) \<and>
    heap_read data = heap_read (serialize (setUserRoot r h))"
proof -
  obtain h where h: "mapM alloc xs (HeapNode_new sig) = Some (Inr ks, h)" "streams s h"
    using sheap_allocs_sim [OF streams_new [OF assms(1)] assms(2)] by auto
  note r = streams_root [OF h(2), of r]
  have ok: "heap_ok (setUserRoot r h)" using r by (simp add: streams_def Let_def)
  note fin = sheap_finish_sim [OF r assms(3)]
  have "within d (st_ndb s)"
    using keepsD [OF keeps_mapM [OF sheap_alloc_within] _ assms(2), of d] within_refl [OF assms(1)] by simp
  then have "preserves d (st_ndb s')"
    using fin preserves_trans by (auto simp: within_def sheap_setUserRoot_def)
  moreover have "user_root (setUserRoot r h) = r" by (simp add: setUserRoot_def)
  moreover have "heap_read (heap_stream f (setUserRoot r h)) = heap_look (setUserRoot r h)" if "length f = 4" for f
    using heap_read_stream [OF ok that] by (rule ext)
  ultimately show ?thesis
    using h(1) fin
    by (intro exI [of _ h] exI [of _ "heap_stream (final_fill (st_heap (sheap_setUserRoot r s))) (setUserRoot r h)"])
       (simp add: serialize_stream stream_header [OF ok])
qed

lemma small_stream:
  "mapM sheap_alloc [[1, 2], [], [3]] \<lparr>st_ndb = d, st_heap = StreamingHeap_new sig\<rparr> =
     Some (Inr (map (\<lambda>k. makeHid 0 k) [1, 2, 3]), \<lparr>st_ndb = d, st_heap = (StreamingHeap_new sig)\<lparr>sp_block0 := \<lparr>hb_items = [[1, 2], [], [3]], hb_used = 3\<rparr>\<rparr>\<rparr>)"
  by (simp add: sheap_alloc_def prog_simps sheap_fits_def block_fits_def pageMapSize_def blockHeaderSize_def
      StreamingHeap_new_def empty_block_def add_item_def)

lemma streaming_heap_refines_witness:
  "\<exists>d ks s b s' data. store_ok d \<and>
     mapM sheap_alloc [[1, 2], [], [3]] \<lparr>st_ndb = d, st_heap = StreamingHeap_new kHnSigTC\<rparr> = Some (Inr ks, s) \<and>
     sheap_finish (sheap_setUserRoot 0x20 s) = Some (Inr b, s') \<and>
     read_data (lookup_block (st_ndb s')) b = Some data \<and> heap_root data = 0x20"
proof -
  obtain d where d: "NdbWriter_new ''mail.pst'' True (\<lambda>_ _. True) = Inr d" using fresh_exists by blast
  have r: "roomy (Suc 0) d" by (rule fresh_roomy [OF d]) simp
  let ?s = "\<lparr>st_ndb = d, st_heap = (StreamingHeap_new kHnSigTC)\<lparr>sp_block0 := \<lparr>hb_items = [[1, 2], [], [3]], hb_used = 3\<rparr>\<rparr>\<rparr>"
  let ?blk = "renderBlock ((st_heap (sheap_setUserRoot 0x20 ?s))\<lparr>sp_finished := True\<rparr>) \<lparr>hb_items = [[1, 2], [], [3]], hb_used = 3\<rparr> 0 True"
  have "items_fit 0 [[1, 2], [], [3 :: byte]]"
    by (simp add: items_fit_def items_end_def pageMapSize_def blockHeaderSize_def)
  then have "length ?blk \<le> kMaxBlockData"
    using map_pos_bounds(2) [of 0 "[[1, 2], [], [3]]" True] unfolding renderBlock_def hblock.simps
    by (subst length_hn_block) (simp_all add: block_len_def stream_fill_def)
  then obtain b d' where "writeLeafChunk ?blk d = Some (Inr b, d')"
    using emitBlock_roomy [OF r] unfolding writeLeafChunk_def by blast
  then obtain s' where fin: "sheap_finish (sheap_setUserRoot 0x20 ?s) = Some (Inr b, s')"
    by (auto simp: sheap_finish_def Let_def prog_simps sheap_setUserRoot_def st_on_ndb_run StreamingHeap_new_def assembleDataTree_def)
  show ?thesis
    using streaming_heap_refines [OF store_ok_new [OF d] small_stream fin] store_ok_new [OF d] small_stream fin by blast
qed

end
