(* ===== verification/Utf16.thy ===== *)
theory Utf16
  imports Pst_Format
begin

section \<open>Text transcoding (src/pst/ltp.cpp, utf8ToUtf16le)\<close>

text \<open>
  Every string property goes through \<open>utf8ToUtf16le\<close>. Its input comes from mail headers and may
  be anything; the output must be UTF-16 all the same, or a reader rejects the property. The
  specification is a pair of encoders and a UTF-16 decoder; the properties say that well-formed
  UTF-8 is transcoded to the same scalar values and that any other input still gives well-formed
  UTF-16.
\<close>

subsection \<open>The converter\<close>

text \<open>The lead byte: its payload bits and the number of continuation bytes it announces.\<close>

definition utf8_lead :: "byte \<Rightarrow> 32 word \<times> nat" where
  "utf8_lead c =
     (if c < 0x80 then (ucast c, 0)
      else if c AND 0xE0 = 0xC0 then (ucast c AND 0x1F, 1)
      else if c AND 0xF0 = 0xE0 then (ucast c AND 0x0F, 2)
      else if c AND 0xF8 = 0xF0 then (ucast c AND 0x07, 3)
      else (0xFFFD, 0))"

primrec utf8_tail :: "32 word \<Rightarrow> bytes \<Rightarrow> 32 word option" where
  "utf8_tail cp [] = Some cp"
| "utf8_tail cp (cc # ccs) =
     (if cc AND 0xC0 \<noteq> 0x80 then None else utf8_tail (push_bit 6 cp OR (ucast cc AND 0x3F)) ccs)"

text \<open>One character of the remaining input: its code point and how many bytes it takes.\<close>

definition utf8_next :: "bytes \<Rightarrow> 32 word \<times> nat" where
  "utf8_next s =
     (let (cp, extra) = utf8_lead (hd s) in
      if length s \<le> extra then (0xFFFD, 1)
      else case utf8_tail cp (take extra (tl s)) of
          None \<Rightarrow> (0xFFFD, 1)
        | Some cp \<Rightarrow> (cp, extra + 1))"

definition utf16_valid :: "32 word \<Rightarrow> 32 word" where
  "utf16_valid cp = (if 0x10FFFF < cp \<or> (0xD800 \<le> cp \<and> cp \<le> 0xDFFF) then 0xFFFD else cp)"

definition put_utf16 :: "32 word \<Rightarrow> bytes \<Rightarrow> bytes" where
  "put_utf16 cp out' =
     (if cp < 0x10000 then put16 out' (ucast cp)
      else let cp = cp - 0x10000
        in put16 (put16 out' (ucast (0xD800 + drop_bit 10 cp))) (ucast (0xDC00 + (cp AND 0x3FF))))"

function utf16_loop :: "bytes \<Rightarrow> bytes \<Rightarrow> bytes" where
  "utf16_loop s out' =
     (if s = [] then out'
      else let (cp, n) = utf8_next s in utf16_loop (drop n s) (put_utf16 (utf16_valid cp) out'))"
  by pat_completeness auto
termination
  by (relation "measure (\<lambda>(s, out'). length s)") (auto simp: utf8_next_def split: if_splits option.splits prod.splits)

declare utf16_loop.simps [simp del]

lemma utf16_loop_Nil [simp]: "utf16_loop [] out' = out'"
  by (simp add: utf16_loop.simps)

definition utf8ToUtf16le :: "string \<Rightarrow> bytes" where
  "utf8ToUtf16le s = utf16_loop (bytes_of s) []"

subsection \<open>Specification\<close>

text \<open>Unicode scalar values, and the two encodings of one.\<close>

definition scalar :: "32 word \<Rightarrow> bool" where
  "scalar cp \<longleftrightarrow> cp \<le> 0x10FFFF \<and> \<not> (0xD800 \<le> cp \<and> cp \<le> 0xDFFF)"

definition utf8_encode :: "32 word \<Rightarrow> bytes" where
  "utf8_encode cp = map of_nat (let n = unat cp in
     if n < 0x80 then [n]
     else if n < 0x800 then [0xC0 + n div 0x40, 0x80 + n mod 0x40]
     else if n < 0x10000 then [0xE0 + n div 0x1000, 0x80 + n div 0x40 mod 0x40, 0x80 + n mod 0x40]
     else [0xF0 + n div 0x40000, 0x80 + n div 0x1000 mod 0x40, 0x80 + n div 0x40 mod 0x40, 0x80 + n mod 0x40])"

text \<open>A strict UTF-16LE decoder: lone surrogates and odd lengths are errors.\<close>

definition high_surrogate :: "16 word \<Rightarrow> bool" where
  "high_surrogate u \<longleftrightarrow> 0xD800 \<le> u \<and> u \<le> 0xDBFF"

definition low_surrogate :: "16 word \<Rightarrow> bool" where
  "low_surrogate u \<longleftrightarrow> 0xDC00 \<le> u \<and> u \<le> 0xDFFF"

fun utf16_units :: "16 word list \<Rightarrow> 32 word list option" where
  "utf16_units [] = Some []"
| "utf16_units (u # us) =
     (if high_surrogate u then
        (case us of
           [] \<Rightarrow> None
         | v # vs \<Rightarrow> if low_surrogate v
             then map_option ((#) (0x10000 + push_bit 10 (ucast u - 0xD800) + (ucast v - 0xDC00))) (utf16_units vs)
             else None)
      else if low_surrogate u then None
      else map_option ((#) (ucast u)) (utf16_units us))"

fun units_of :: "bytes \<Rightarrow> 16 word list option" where
  "units_of [] = Some []"
| "units_of [b] = None"
| "units_of (a # b # bs) = map_option ((#) (le_value [a, b])) (units_of bs)"

definition utf16_decode :: "bytes \<Rightarrow> 32 word list option" where
  "utf16_decode bs = (case units_of bs of None \<Rightarrow> None | Some us \<Rightarrow> utf16_units us)"

subsection \<open>The output is UTF-16\<close>

definition utf16_encode :: "32 word \<Rightarrow> bytes" where
  "utf16_encode cp = put_utf16 cp []"

lemma put_utf16_append: "put_utf16 cp out' = out' @ utf16_encode cp"
  by (simp add: put_utf16_def utf16_encode_def put16_def Let_def)

lemma scalar_valid: "scalar (utf16_valid cp)"
  by (auto simp: scalar_def utf16_valid_def not_less)

lemma valid_scalar: "scalar cp \<Longrightarrow> utf16_valid cp = cp"
  by (auto simp: scalar_def utf16_valid_def not_less)

text \<open>The code points the loop decodes, one per step.\<close>

function utf8_points :: "bytes \<Rightarrow> 32 word list" where
  "utf8_points s = (if s = [] then [] else let (cp, n) = utf8_next s in utf16_valid cp # utf8_points (drop n s))"
  by pat_completeness auto
termination
  by (relation "measure length") (auto simp: utf8_next_def split: if_splits option.splits prod.splits)

declare utf8_points.simps [simp del]

lemma utf8_points_Nil [simp]: "utf8_points [] = []"
  by (simp add: utf8_points.simps)

lemma utf8_points_step:
  "s \<noteq> [] \<Longrightarrow> utf8_next s = (cp, n) \<Longrightarrow> utf8_points s = utf16_valid cp # utf8_points (drop n s)"
  by (simp add: utf8_points.simps [of s])

lemma utf8_next_pos: "utf8_next s = (cp, n) \<Longrightarrow> 0 < n"
  by (auto simp: utf8_next_def split: if_splits option.splits prod.splits)

lemma utf16_loop_points: "utf16_loop s out' = out' @ concat (map utf16_encode (utf8_points s))"
proof (induction s out' rule: utf16_loop.induct)
  case (1 s out')
  obtain cp n where n: "utf8_next s = (cp, n)" by fastforce
  show ?case
  proof (cases "s = []")
    case False
    then show ?thesis
      using "1.IH" [OF False n [symmetric] refl]
      by (simp add: utf16_loop.simps [of s] utf8_points_step [OF False n] n put_utf16_append)
  qed simp
qed

lemma utf8_points_scalar: "cp \<in> set (utf8_points s) \<Longrightarrow> scalar cp"
proof (induction s rule: utf8_points.induct)
  case (1 s)
  obtain cp' n where n: "utf8_next s = (cp', n)" by fastforce
  then show ?case using 1 by (cases "s = []") (auto simp: utf8_points_step [OF _ n] scalar_valid)
qed

lemma length_utf8_points: "length (utf8_points s) \<le> length s"
proof (induction s rule: utf8_points.induct)
  case (1 s)
  obtain cp' n where n: "utf8_next s = (cp', n)" by fastforce
  show ?case
  proof (cases "s = []")
    case False
    then have "0 < length s" by simp
    moreover have "length (utf8_points (drop n s)) \<le> length s - n" using "1.IH" [OF False n [symmetric] refl] by simp
    ultimately show ?thesis using utf8_next_pos [OF n]
      unfolding utf8_points_step [OF False n] list.size by linarith
  qed simp
qed

lemma units_of_put: "units_of (le_bytes 2 u @ bs) = map_option ((#) u) (units_of bs)"
proof -
  have "le_bytes 2 u = [ucast u, ucast (drop_bit 8 u)]" by (simp add: le_bytes_def numeral_2_eq_2)
  moreover have "le_value [ucast u, ucast (drop_bit 8 u)] = u"
    using le_roundtrip(1) [of u] by (simp add: le_bytes_def numeral_2_eq_2)
  ultimately show ?thesis by simp
qed

lemmas nat_take_bit = take_bit_eq_mod [where ?'a = nat]
lemmas nat_bits = unsigned_ucast_eq nat_take_bit

lemma unat_and_mask: "unat (w AND mask n) = unat w mod 2 ^ n"
  by (simp add: take_bit_eq_mask [symmetric] unsigned_take_bit_eq nat_take_bit)

lemma utf16_encode_small:
  assumes "scalar cp" "cp < 0x10000"
  shows "ucast (ucast cp :: 16 word) = cp" "\<not> high_surrogate (ucast cp)" "\<not> low_surrogate (ucast cp)"
proof -
  have lt: "unat cp < 65536" using assms(2) by (simp add: word_less_nat_alt)
  then have u: "unat (ucast cp :: 16 word) = unat cp"
    by (simp add: nat_bits)
  then show "ucast (ucast cp :: 16 word) = cp"
    using lt by (simp add: word_unat_eq_iff unsigned_take_bit_eq nat_bits)
  show "\<not> high_surrogate (ucast cp)" "\<not> low_surrogate (ucast cp)"
    using assms(1) u by (auto simp: high_surrogate_def low_surrogate_def scalar_def word_le_nat_alt)
qed

lemma surrogate_pair:
  assumes "scalar cp" "\<not> cp < 0x10000"
  defines "c \<equiv> cp - 0x10000"
  defines "h \<equiv> ucast (0xD800 + drop_bit 10 c) :: 16 word" and "l \<equiv> ucast (0xDC00 + (c AND 0x3FF)) :: 16 word"
  shows "high_surrogate h" "low_surrogate l" "0x10000 + push_bit 10 (ucast h - 0xD800) + (ucast l - 0xDC00) = cp"
proof -
  define n where "n = unat c"
  have "unat cp \<le> 0x10FFFF" "0x10000 \<le> unat cp"
    using assms(1,2) by (simp_all add: scalar_def word_le_nat_alt word_less_nat_alt not_less)
  moreover have "unat c = unat cp - 0x10000"
    using assms(2) by (simp add: c_def unat_sub not_less)
  ultimately have n: "n < 2 ^ 20" "unat cp = 0x10000 + n" by (simp_all add: n_def)
  have d: "unat (drop_bit 10 c) = n div 1024" by (simp add: n_def unat_drop_bit_eq drop_bit_eq_div [where ?'a = nat])
  have "c AND 0x3FF = c AND mask 10" by (simp add: mask_eq_exp_minus_1)
  then have m: "unat (c AND 0x3FF) = n mod 1024" by (simp add: unat_and_mask n_def)
  have hd: "n div 1024 < 1024" using n(1) by simp
  have "unat (0xD800 + drop_bit 10 c) = 0xD800 + n div 1024"
    using hd by (simp add: unat_word_ariths d)
  then have h: "unat h = 0xD800 + n div 1024" using hd by (simp add: h_def nat_bits)
  have md: "n mod 1024 < 1024" by simp
  then have "unat (0xDC00 + (c AND 0x3FF)) = 0xDC00 + n mod 1024"
    by (simp add: unat_word_ariths m)
  then have l: "unat l = 0xDC00 + n mod 1024" using md by (simp add: l_def nat_bits)
  show "high_surrogate h" "low_surrogate l"
    using h l hd md by (simp_all add: high_surrogate_def low_surrogate_def word_le_nat_alt)
  have uh: "unat (ucast h - 0xD800 :: 32 word) = n div 1024"
    using h hd by (subst unat_sub) (simp_all add: word_le_nat_alt nat_bits)
  have ul: "unat (ucast l - 0xDC00 :: 32 word) = n mod 1024"
    using l md by (subst unat_sub) (simp_all add: word_le_nat_alt nat_bits)
  have "unat (push_bit 10 (ucast h - 0xD800 :: 32 word)) = n div 1024 * 1024"
    using uh hd by (simp add: unsigned_push_bit_eq push_bit_eq_mult [where ?'a = nat] nat_take_bit)
  then have "unat (0x10000 + push_bit 10 (ucast h - 0xD800) + (ucast l - 0xDC00) :: 32 word) = 0x10000 + n"
    using ul hd md n(1) by (simp only: unat_word_ariths uh ul)simp
  then show "0x10000 + push_bit 10 (ucast h - 0xD800) + (ucast l - 0xDC00) = cp"
    using n(2) by (simp add: word_unat_eq_iff)
qed

lemma utf16_encode_cases:
  "cp < 0x10000 \<Longrightarrow> utf16_encode cp = le_bytes 2 (ucast cp :: 16 word)"
  "\<not> cp < 0x10000 \<Longrightarrow> utf16_encode cp =
     le_bytes 2 (ucast (0xD800 + drop_bit 10 (cp - 0x10000)) :: 16 word) @
     le_bytes 2 (ucast (0xDC00 + ((cp - 0x10000) AND 0x3FF)) :: 16 word)"
  by (simp_all add: utf16_encode_def put_utf16_def put16_def Let_def)

lemma utf16_decode_encode: "\<forall>cp \<in> set cps. scalar cp \<Longrightarrow> utf16_decode (concat (map utf16_encode cps)) = Some cps"
proof (induction cps)
  case Nil
  show ?case by (simp add: utf16_decode_def)
next
  case (Cons cp cps)
  obtain us where us: "units_of (concat (map utf16_encode cps)) = Some us" "utf16_units us = Some cps"
    using Cons by (auto simp: utf16_decode_def split: option.splits)
  have cp: "scalar cp" using Cons.prems by simp
  show ?case
  proof (cases "cp < 0x10000")
    case True
    then show ?thesis
      using us utf16_encode_small [OF cp True]
      by (simp add: utf16_encode_cases(1) utf16_decode_def units_of_put)
  next
    case False
    then show ?thesis
      using us surrogate_pair [OF cp False]
      by (simp add: utf16_encode_cases(2) utf16_decode_def units_of_put)
  qed
qed

subsection \<open>Well-formed input\<close>

text \<open>The tests on a byte, in arithmetic: checked for all 256 bytes.\<close>

lemma all_bytes: "list_all (\<lambda>k. P (word_of_int k)) [0..255] \<Longrightarrow> P (b :: byte)"
proof -
  assume "list_all (\<lambda>k. P (word_of_int k :: byte)) [0..255]"
  moreover have "uint b \<in> set [0..255]" using unsigned_less [of b, where ?'a = int] by simp
  ultimately have "P (word_of_int (uint b))" by (metis list_all_iff)
  then show ?thesis by simp
qed

lemma utf8_lead_bits:
  "(c AND 0xE0 = 0xC0) = (192 \<le> uint c \<and> uint c < 224)" "(c AND 0xF0 = 0xE0) = (224 \<le> uint c \<and> uint c < 240)"
  "(c AND 0xF8 = 0xF0) = (240 \<le> uint c \<and> uint c < 248)" "(c AND 0xC0 = 0x80) = (128 \<le> uint c \<and> uint c < 192)"
  for c :: byte
  by (rule all_bytes [of "\<lambda>c. (c AND 0xE0 = 0xC0) = (192 \<le> uint c \<and> uint c < 224)"], code_simp)
     (rule all_bytes [of "\<lambda>c. (c AND 0xF0 = 0xE0) = (224 \<le> uint c \<and> uint c < 240)"], code_simp,
      rule all_bytes [of "\<lambda>c. (c AND 0xF8 = 0xF0) = (240 \<le> uint c \<and> uint c < 248)"], code_simp,
      rule all_bytes [of "\<lambda>c. (c AND 0xC0 = 0x80) = (128 \<le> uint c \<and> uint c < 192)"], code_simp)

lemma shift_or: "b < 64 \<Longrightarrow> m < 2 ^ 26 \<Longrightarrow> push_bit 6 (of_nat m) OR of_nat b = (of_nat (m * 64 + b) :: 32 word)"
proof -
  assume b: "b < 64" and m: "m < 2 ^ 26"
  have nb: "\<not> bit (of_nat b :: 32 word) n" if "6 \<le> n" for n
    by (rule high_bits [of _ 6]) (use b that in \<open>simp_all add: unat_of_nat nat_take_bit\<close>)
  have "push_bit 6 (of_nat m) + of_nat b = (push_bit 6 (of_nat m) OR of_nat b :: 32 word)"
  proof (rule disjunctive_add)
    show "\<not> bit (push_bit 6 (of_nat m) :: 32 word) n \<or> \<not> bit (of_nat b :: 32 word) n" for n
      using nb [of n] by (cases "6 \<le> n") (simp_all add: bit_push_bit_iff)
  qed
  then show ?thesis by (simp add: push_bit_eq_mult mult.commute)
qed

lemma utf8_tail_marked:
  assumes "b < 64" "m < 2 ^ 26"
  shows "utf8_tail (of_nat m) (of_nat (128 + b) # r) = utf8_tail (of_nat (m * 64 + b)) r"
proof -
  let ?c = "of_nat (128 + b) :: byte"
  have u: "unat ?c = 128 + b" using assms(1) by (intro unat_small) simp
  then have ui: "uint ?c = 128 + int b" by (metis of_nat_add of_nat_numeral uint_nat)
  then have 1: "?c AND 0xC0 = 0x80" using assms(1) by (subst utf8_lead_bits) simp
  have "(128 + b) mod 64 = b" using assms(1) mod_mult_self1 [of b 2 64] by (simp add: add.commute)
  then have "unat (ucast ?c AND mask 6 :: 32 word) = b"
    using u assms(1) by (simp add: unat_and_mask nat_bits)
  then have "ucast ?c AND mask 6 = (of_nat b :: 32 word)"
    using assms(1) by (simp add: word_unat_eq_iff unat_of_nat nat_take_bit)
  then have "ucast ?c AND 0x3F = (of_nat b :: 32 word)" by (simp add: mask_eq_exp_minus_1)
  then show ?thesis using 1 shift_or [OF assms] by simp
qed

lemma utf8_lead_marked:
  "n < 128 \<Longrightarrow> utf8_lead (of_nat n) = (of_nat n, 0)"
  "a < 32 \<Longrightarrow> utf8_lead (of_nat (0xC0 + a)) = (of_nat a, 1)"
  "a < 16 \<Longrightarrow> utf8_lead (of_nat (0xE0 + a)) = (of_nat a, 2)"
  "a < 8 \<Longrightarrow> utf8_lead (of_nat (0xF0 + a)) = (of_nat a, 3)"
proof -
  have u: "unat (of_nat n :: byte) = n" "uint (of_nat n :: byte) = int n" if "n < 256" for n
    using that unat_small [of n, where ?'a = 8] by (simp_all add: uint_nat)
  have m: "(ucast c AND 0x1F :: 32 word) = of_nat (unat c mod 32)" "(ucast c AND 0x0F :: 32 word) = of_nat (unat c mod 16)"
      "(ucast c AND 0x07 :: 32 word) = of_nat (unat c mod 8)" for c :: byte
  proof -
    have "(ucast c AND mask k :: 32 word) = of_nat (unat c mod 2 ^ k)" for k
    proof -
      have "unat (ucast c :: 32 word) = unat c"
        using unsigned_less [of c, where ?'a = nat] by (simp add: nat_bits)
      moreover have "unat c mod 2 ^ k < 2 ^ 32"
        using unsigned_less [of c, where ?'a = nat] by (intro le_less_trans [OF mod_less_eq_dividend]) simp
      ultimately show ?thesis by (simp add: word_unat_eq_iff unat_and_mask unat_of_nat nat_take_bit)
    qed
    from this [of 5] this [of 4] this [of 3]
    show "(ucast c AND 0x1F :: 32 word) = of_nat (unat c mod 32)" "(ucast c AND 0x0F :: 32 word) = of_nat (unat c mod 16)"
      "(ucast c AND 0x07 :: 32 word) = of_nat (unat c mod 8)" by (simp_all add: mask_eq_exp_minus_1)
  qed
  show "utf8_lead (of_nat n) = (of_nat n, 0)" if "n < 128"
  proof -
    have "(of_nat n :: byte) < 0x80" using that u(1) [of n] by (simp add: word_less_nat_alt)
    moreover have "ucast (of_nat n :: byte) = (of_nat n :: 32 word)"
      using that u(1) [of n] by (simp add: word_unat_eq_iff nat_bits unat_of_nat)
    ultimately show ?thesis by (simp add: utf8_lead_def)
  qed
  have big: "\<not> (of_nat n :: byte) < 0x80" if "128 \<le> n" "n < 256" for n
    using that u(1) [of n] by (simp add: word_less_nat_alt)
  show "utf8_lead (of_nat (0xC0 + a)) = (of_nat a, 1)" if "a < 32"
  proof -
    have "(192 + a) mod 32 = a" using that mod_mult_self1 [of a 6 32] by (simp add: add.commute)
    then show ?thesis using that u [of "192 + a"] big [of "192 + a"]
      by (simp add: utf8_lead_def utf8_lead_bits m del: of_nat_add)
  qed
  show "utf8_lead (of_nat (0xE0 + a)) = (of_nat a, 2)" if "a < 16"
  proof -
    have "(224 + a) mod 16 = a" using that mod_mult_self1 [of a 14 16] by (simp add: add.commute)
    then show ?thesis using that u [of "224 + a"] big [of "224 + a"]
      by (simp add: utf8_lead_def utf8_lead_bits m del: of_nat_add)
  qed
  show "utf8_lead (of_nat (0xF0 + a)) = (of_nat a, 3)" if "a < 8"
  proof -
    have "(240 + a) mod 8 = a" using that mod_mult_self1 [of a 30 8] by (simp add: add.commute)
    then show ?thesis using that u [of "240 + a"] big [of "240 + a"]
      by (simp add: utf8_lead_def utf8_lead_bits m del: of_nat_add)
  qed
qed

lemma utf8_next_encode:
  assumes "scalar cp"
  shows "utf8_next (utf8_encode cp @ r) = (cp, length (utf8_encode cp))"
proof -
  define n where "n = unat cp"
  have n: "n \<le> 0x10FFFF" "cp = of_nat n" using assms by (simp_all add: scalar_def word_le_nat_alt n_def)
  have e: "utf8_encode cp = map of_nat (
     if n < 0x80 then [n]
     else if n < 0x800 then [0xC0 + n div 0x40, 0x80 + n mod 0x40]
     else if n < 0x10000 then [0xE0 + n div 0x1000, 0x80 + n div 0x40 mod 0x40, 0x80 + n mod 0x40]
     else [0xF0 + n div 0x40000, 0x80 + n div 0x1000 mod 0x40, 0x80 + n div 0x40 mod 0x40, 0x80 + n mod 0x40])"
    by (simp add: utf8_encode_def n_def Let_def)
  have digits: "n div 0x1000 = n div 0x40 div 0x40" "n div 0x40000 = n div 0x40 div 0x40 div 0x40"
    by (simp_all add: div_mult2_eq [symmetric])
  have tail: "utf8_tail (of_nat (x div 0x40)) (of_nat (0x80 + x mod 0x40) # r) = utf8_tail (of_nat x) r"
    if "x \<le> 0x10FFFF" for x r
  proof -
    have "x div 0x40 < 2 ^ 26" by (rule le_less_trans [OF div_le_dividend]) (use that in simp)
    from utf8_tail_marked [OF _ this, of "x mod 0x40" r] show ?thesis by simp
  qed
  have le: "n div 0x40 \<le> 0x10FFFF" "n div 0x40 div 0x40 \<le> 0x10FFFF"
    using n(1) div_le_dividend le_trans by blast+
  consider "n < 0x80" | "0x80 \<le> n" "n < 0x800" | "0x800 \<le> n" "n < 0x10000" | "0x10000 \<le> n" by linarith
  then show ?thesis
  proof cases
    case 1
    then show ?thesis unfolding e by (simp add: utf8_next_def utf8_lead_marked n(2))
  next
    case 2
    then have "n div 0x40 < 32" by simp
    then show ?thesis unfolding e using 2
      by (simp add: utf8_next_def utf8_lead_marked tail [OF n(1)] n(2) del: of_nat_add utf8_tail.simps(2))
  next
    case 3
    then have "n div 0x40 div 0x40 < 16" by (simp add: div_mult2_eq [symmetric])
    then show ?thesis unfolding e digits using 3
      by (simp add: utf8_next_def utf8_lead_marked tail [OF n(1)] tail [OF le(1)] n(2) numeral_2_eq_2
          del: of_nat_add utf8_tail.simps(2))
  next
    case 4
    have "n div 0x40 div 0x40 div 0x40 < 8" using n(1) by (simp add: div_mult2_eq [symmetric])
    then show ?thesis unfolding e digits using 4
      by (simp add: utf8_next_def utf8_lead_marked tail [OF n(1)] tail [OF le(1)] tail [OF le(2)] n(2) numeral_3_eq_3
          del: of_nat_add utf8_tail.simps(2))
  qed
qed

lemma utf8_encode_nonempty [simp]: "utf8_encode cp \<noteq> []"
  by (simp add: utf8_encode_def Let_def)

lemma utf8_points_encode: "\<forall>cp \<in> set cps. scalar cp \<Longrightarrow> utf8_points (concat (map utf8_encode cps)) = cps"
proof (induction cps)
  case (Cons cp cps)
  have cp: "scalar cp" using Cons.prems by simp
  have "utf8_points (utf8_encode cp @ concat (map utf8_encode cps)) =
      utf16_valid cp # utf8_points (drop (length (utf8_encode cp)) (utf8_encode cp @ concat (map utf8_encode cps)))"
    by (rule utf8_points_step [OF _ utf8_next_encode [OF cp]]) simp
  then show ?case using Cons valid_scalar [OF cp] by simp
qed simp

lemma length_utf8ToUtf16le: "length (utf8ToUtf16le s) \<le> 4 * length s"
proof -
  have "length (utf16_encode cp) \<le> 4" for cp
    by (simp add: utf16_encode_def put_utf16_def put16_def Let_def)
  then have "length (utf8ToUtf16le s) \<le> 4 * length (utf8_points (bytes_of s))"
    by (simp add: utf8ToUtf16le_def utf16_loop_points length_concat_le)
  then show ?thesis using length_utf8_points [of "bytes_of s"] by simp
qed

subsection \<open>Properties\<close>

text \<open>
  C17: Well-formed UTF-8 is transcoded faithfully: the UTF-16 produced for the encoding of any
  sequence of Unicode scalar values decodes to the same sequence.
\<close>

theorem utf8ToUtf16le_faithful:
  assumes "\<forall>cp \<in> set cps. scalar cp" and "bytes_of s = concat (map utf8_encode cps)"
  shows "utf16_decode (utf8ToUtf16le s) = Some cps"
  using utf8_points_encode [OF assms(1)] utf16_decode_encode [OF assms(1)] assms(2)
  by (simp add: utf8ToUtf16le_def utf16_loop_points)

text \<open>
  C18: Whatever the input, the output is well-formed UTF-16: it decodes to at most one scalar value
  per input byte, every malformed sequence replaced, and never a lone surrogate.
\<close>

theorem utf8ToUtf16le_valid:
  "\<exists>cps. utf16_decode (utf8ToUtf16le s) = Some cps \<and> list_all scalar cps \<and> length cps \<le> length s"
  using utf8_points_scalar utf16_decode_encode [of "utf8_points (bytes_of s)"] length_utf8_points [of "bytes_of s"]
  by (auto simp: utf8ToUtf16le_def utf16_loop_points list_all_iff)

lemma utf8ToUtf16le_faithful_witness:
  "utf16_decode (utf8ToUtf16le (map chr_of [0x68, 0xC3, 0xA9, 0xE2, 0x82, 0xAC, 0xF0, 0x9F, 0x93, 0xA7])) =
    Some [0x68, 0xE9, 0x20AC, 0x1F4E7]"
  by (rule utf8ToUtf16le_faithful) (simp_all add: scalar_def utf8_encode_def comp_def)

end
