(* ===== verification/Prop_Tags.thy ===== *)
theory Prop_Tags
  imports Pst_Format
begin

section \<open>Property tags (src/pst/prop_tags.h)\<close>

text \<open>
  A tag is a property identifier over a property type. The identifiers below are the fixed ones;
  the named ones, from \<open>0x8000\<close>, are minted by \<open>Nameid_Map\<close>.
\<close>

type_synonym prop_tag = "32 word"

definition makeTag :: "16 word \<Rightarrow> prop_type \<Rightarrow> prop_tag" where
  "makeTag i t = push_bit 16 (ucast i) OR ucast t"

definition tagId :: "prop_tag \<Rightarrow> 16 word" where
  "tagId t = ucast (drop_bit 16 t)"

definition tagType :: "prop_tag \<Rightarrow> prop_type" where
  "tagType t = ucast (t AND 0xFFFF)"

lemma bit_16: "bit (0xFFFF :: nat) n \<longleftrightarrow> n < 16" "bit (0xFFFF :: int) n \<longleftrightarrow> n < 16"
  "bit (0xFFFF :: 32 word) n \<longleftrightarrow> n < 16"
  using bit_mask_iff [of 16 n, where ?'a = nat] bit_mask_iff [of 16 n, where ?'a = int]
    bit_mask_iff [of 16 n, where ?'a = "32 word"]
  by (auto simp: mask_eq_exp_minus_1 possible_bit_def)

lemma tag_parts [simp]: "tagId (makeTag i t) = i" "tagType (makeTag i t) = t"
  by (rule bit_word_eqI, auto simp: tagId_def makeTag_def bit_simps dest: bit_imp_le_length)
     (rule bit_word_eqI, auto simp: tagType_def makeTag_def bit_simps bit_16 dest: bit_imp_le_length)

lemma tag_eta [simp]: "makeTag (tagId t) (tagType t) = t"
  by (rule bit_word_eqI) (auto simp: tagId_def tagType_def makeTag_def bit_simps bit_16)

lemma tag_eqI: "tagId a = tagId b \<Longrightarrow> tagType a = tagType b \<Longrightarrow> a = b"
  by (metis tag_eta)


subsection \<open>Common\<close>

abbreviation (input) PR_MESSAGE_CLASS :: prop_tag where "PR_MESSAGE_CLASS \<equiv> makeTag 0x001A kPtUnicode"
abbreviation (input) PR_SUBJECT :: prop_tag where "PR_SUBJECT \<equiv> makeTag 0x0037 kPtUnicode"
abbreviation (input) PR_CLIENT_SUBMIT_TIME :: prop_tag where "PR_CLIENT_SUBMIT_TIME \<equiv> makeTag 0x0039 kPtSystime"
abbreviation (input) PR_SENT_REPRESENTING_NAME :: prop_tag where "PR_SENT_REPRESENTING_NAME \<equiv> makeTag 0x0042 kPtUnicode"
abbreviation (input) PR_CONVERSATION_TOPIC :: prop_tag where "PR_CONVERSATION_TOPIC \<equiv> makeTag 0x0070 kPtUnicode"
abbreviation (input) PR_TRANSPORT_MESSAGE_HEADERS :: prop_tag where "PR_TRANSPORT_MESSAGE_HEADERS \<equiv> makeTag 0x007D kPtUnicode"
abbreviation (input) PR_DISPLAY_BCC :: prop_tag where "PR_DISPLAY_BCC \<equiv> makeTag 0x0E02 kPtUnicode"
abbreviation (input) PR_DISPLAY_CC :: prop_tag where "PR_DISPLAY_CC \<equiv> makeTag 0x0E03 kPtUnicode"
abbreviation (input) PR_DISPLAY_TO :: prop_tag where "PR_DISPLAY_TO \<equiv> makeTag 0x0E04 kPtUnicode"
abbreviation (input) PR_MESSAGE_DELIVERY_TIME :: prop_tag where "PR_MESSAGE_DELIVERY_TIME \<equiv> makeTag 0x0E06 kPtSystime"
abbreviation (input) PR_MESSAGE_FLAGS :: prop_tag where "PR_MESSAGE_FLAGS \<equiv> makeTag 0x0E07 kPtLong"
abbreviation (input) PR_MESSAGE_SIZE :: prop_tag where "PR_MESSAGE_SIZE \<equiv> makeTag 0x0E08 kPtLong"
abbreviation (input) PR_HASATTACH :: prop_tag where "PR_HASATTACH \<equiv> makeTag 0x0E1B kPtBoolean"
abbreviation (input) PR_ATTACH_SIZE :: prop_tag where "PR_ATTACH_SIZE \<equiv> makeTag 0x0E20 kPtLong"
abbreviation (input) PR_ATTACH_NUM :: prop_tag where "PR_ATTACH_NUM \<equiv> makeTag 0x0E21 kPtLong"
abbreviation (input) PR_INTERNET_ARTICLE_NUMBER :: prop_tag where "PR_INTERNET_ARTICLE_NUMBER \<equiv> makeTag 0x0E23 kPtLong"
abbreviation (input) PR_BODY :: prop_tag where "PR_BODY \<equiv> makeTag 0x1000 kPtUnicode"
abbreviation (input) PR_HTML :: prop_tag where "PR_HTML \<equiv> makeTag 0x1013 kPtBinary"
abbreviation (input) PR_RTF_COMPRESSED :: prop_tag where "PR_RTF_COMPRESSED \<equiv> makeTag 0x1009 kPtBinary"
abbreviation (input) PR_RTF_IN_SYNC :: prop_tag where "PR_RTF_IN_SYNC \<equiv> makeTag 0x0E1F kPtBoolean"
abbreviation (input) PR_LAST_VERB_EXECUTED :: prop_tag where "PR_LAST_VERB_EXECUTED \<equiv> makeTag 0x1081 kPtLong"
abbreviation (input) PR_LAST_VERB_EXECUTION_TIME :: prop_tag where "PR_LAST_VERB_EXECUTION_TIME \<equiv> makeTag 0x1082 kPtSystime"
abbreviation (input) PR_ICON_INDEX :: prop_tag where "PR_ICON_INDEX \<equiv> makeTag 0x1080 kPtLong"
abbreviation (input) PR_INTERNET_MESSAGE_ID :: prop_tag where "PR_INTERNET_MESSAGE_ID \<equiv> makeTag 0x1035 kPtUnicode"
abbreviation (input) PR_IN_REPLY_TO_ID :: prop_tag where "PR_IN_REPLY_TO_ID \<equiv> makeTag 0x1042 kPtUnicode"
abbreviation (input) PR_FLAG_STATUS :: prop_tag where "PR_FLAG_STATUS \<equiv> makeTag 0x1090 kPtLong"
abbreviation (input) PR_DISPLAY_NAME :: prop_tag where "PR_DISPLAY_NAME \<equiv> makeTag 0x3001 kPtUnicode"
abbreviation (input) PR_ADDRTYPE :: prop_tag where "PR_ADDRTYPE \<equiv> makeTag 0x3002 kPtUnicode"
abbreviation (input) PR_EMAIL_ADDRESS :: prop_tag where "PR_EMAIL_ADDRESS \<equiv> makeTag 0x3003 kPtUnicode"
abbreviation (input) PR_CREATION_TIME :: prop_tag where "PR_CREATION_TIME \<equiv> makeTag 0x3007 kPtSystime"
abbreviation (input) PR_LAST_MODIFICATION_TIME :: prop_tag where "PR_LAST_MODIFICATION_TIME \<equiv> makeTag 0x3008 kPtSystime"
abbreviation (input) PR_OBJECT_TYPE :: prop_tag where "PR_OBJECT_TYPE \<equiv> makeTag 0x0FFE kPtLong"
abbreviation (input) PR_RECORD_KEY :: prop_tag where "PR_RECORD_KEY \<equiv> makeTag 0x0FF9 kPtBinary"
abbreviation (input) PR_ENTRYID :: prop_tag where "PR_ENTRYID \<equiv> makeTag 0x0FFF kPtBinary"
abbreviation (input) PR_INTERNET_CPID :: prop_tag where "PR_INTERNET_CPID \<equiv> makeTag 0x3FDE kPtLong"
abbreviation (input) PR_MESSAGE_CODEPAGE :: prop_tag where "PR_MESSAGE_CODEPAGE \<equiv> makeTag 0x3FFD kPtLong"

subsection \<open>Sender\<close>

abbreviation (input) PR_SENDER_NAME :: prop_tag where "PR_SENDER_NAME \<equiv> makeTag 0x0C1A kPtUnicode"
abbreviation (input) PR_SENDER_ADDRTYPE :: prop_tag where "PR_SENDER_ADDRTYPE \<equiv> makeTag 0x0C1E kPtUnicode"
abbreviation (input) PR_SENDER_EMAIL_ADDRESS :: prop_tag where "PR_SENDER_EMAIL_ADDRESS \<equiv> makeTag 0x0C1F kPtUnicode"
abbreviation (input) PR_RECIPIENT_TYPE :: prop_tag where "PR_RECIPIENT_TYPE \<equiv> makeTag 0x0C15 kPtLong"

subsection \<open>Folders\<close>

abbreviation (input) PR_CONTENT_COUNT :: prop_tag where "PR_CONTENT_COUNT \<equiv> makeTag 0x3602 kPtLong"
abbreviation (input) PR_CONTENT_UNREAD :: prop_tag where "PR_CONTENT_UNREAD \<equiv> makeTag 0x3603 kPtLong"
abbreviation (input) PR_SUBFOLDERS :: prop_tag where "PR_SUBFOLDERS \<equiv> makeTag 0x360A kPtBoolean"
abbreviation (input) PR_CONTAINER_CLASS :: prop_tag where "PR_CONTAINER_CLASS \<equiv> makeTag 0x3613 kPtUnicode"

subsection \<open>Message store\<close>

abbreviation (input) PR_VALID_FOLDER_MASK :: prop_tag where "PR_VALID_FOLDER_MASK \<equiv> makeTag 0x35DF kPtLong"
abbreviation (input) PR_IPM_SUBTREE_ENTRYID :: prop_tag where "PR_IPM_SUBTREE_ENTRYID \<equiv> makeTag 0x35E0 kPtBinary"
abbreviation (input) PR_IPM_OUTBOX_ENTRYID :: prop_tag where "PR_IPM_OUTBOX_ENTRYID \<equiv> makeTag 0x35E2 kPtBinary"
abbreviation (input) PR_IPM_WASTEBASKET_ENTRYID :: prop_tag where "PR_IPM_WASTEBASKET_ENTRYID \<equiv> makeTag 0x35E3 kPtBinary"
abbreviation (input) PR_IPM_SENTMAIL_ENTRYID :: prop_tag where "PR_IPM_SENTMAIL_ENTRYID \<equiv> makeTag 0x35E4 kPtBinary"
abbreviation (input) PR_VIEWS_ENTRYID :: prop_tag where "PR_VIEWS_ENTRYID \<equiv> makeTag 0x35E5 kPtBinary"
abbreviation (input) PR_COMMON_VIEWS_ENTRYID :: prop_tag where "PR_COMMON_VIEWS_ENTRYID \<equiv> makeTag 0x35E6 kPtBinary"
abbreviation (input) PR_FINDER_ENTRYID :: prop_tag where "PR_FINDER_ENTRYID \<equiv> makeTag 0x35E7 kPtBinary"
abbreviation (input) PR_STORE_RECORD_KEY :: prop_tag where "PR_STORE_RECORD_KEY \<equiv> makeTag 0x0FF9 kPtBinary"
abbreviation (input) PR_PST_PASSWORD :: prop_tag where "PR_PST_PASSWORD \<equiv> makeTag 0x67FF kPtLong"

subsection \<open>Attachments\<close>

abbreviation (input) PR_ATTACH_DATA_BIN :: prop_tag where "PR_ATTACH_DATA_BIN \<equiv> makeTag 0x3701 kPtBinary"
abbreviation (input) PR_ATTACH_DATA_OBJ :: prop_tag where "PR_ATTACH_DATA_OBJ \<equiv> makeTag 0x3701 kPtObject"
abbreviation (input) PR_ATTACH_ENCODING :: prop_tag where "PR_ATTACH_ENCODING \<equiv> makeTag 0x3702 kPtBinary"
abbreviation (input) PR_ATTACH_EXTENSION :: prop_tag where "PR_ATTACH_EXTENSION \<equiv> makeTag 0x3703 kPtUnicode"
abbreviation (input) PR_ATTACH_FILENAME :: prop_tag where "PR_ATTACH_FILENAME \<equiv> makeTag 0x3704 kPtUnicode"
abbreviation (input) PR_ATTACH_METHOD :: prop_tag where "PR_ATTACH_METHOD \<equiv> makeTag 0x3705 kPtLong"
abbreviation (input) PR_ATTACH_LONG_FILENAME :: prop_tag where "PR_ATTACH_LONG_FILENAME \<equiv> makeTag 0x3707 kPtUnicode"
abbreviation (input) PR_ATTACH_RENDERING_POS :: prop_tag where "PR_ATTACH_RENDERING_POS \<equiv> makeTag 0x370B kPtLong"
abbreviation (input) PR_ATTACH_MIME_TAG :: prop_tag where "PR_ATTACH_MIME_TAG \<equiv> makeTag 0x370E kPtUnicode"
abbreviation (input) PR_ATTACH_CONTENT_ID :: prop_tag where "PR_ATTACH_CONTENT_ID \<equiv> makeTag 0x3712 kPtUnicode"
abbreviation (input) PR_ATTACH_FLAGS :: prop_tag where "PR_ATTACH_FLAGS \<equiv> makeTag 0x3714 kPtLong"

subsection \<open>Columns outlook requires\<close>

abbreviation (input) PR_IMPORTANCE :: prop_tag where "PR_IMPORTANCE \<equiv> makeTag 0x0017 kPtLong"
abbreviation (input) PR_SENSITIVITY :: prop_tag where "PR_SENSITIVITY \<equiv> makeTag 0x0036 kPtLong"
abbreviation (input) PR_MESSAGE_TO_ME :: prop_tag where "PR_MESSAGE_TO_ME \<equiv> makeTag 0x0057 kPtBoolean"
abbreviation (input) PR_MESSAGE_CC_ME :: prop_tag where "PR_MESSAGE_CC_ME \<equiv> makeTag 0x0058 kPtBoolean"
abbreviation (input) PR_CONVERSATION_INDEX :: prop_tag where "PR_CONVERSATION_INDEX \<equiv> makeTag 0x0071 kPtBinary"
abbreviation (input) PR_MESSAGE_STATUS :: prop_tag where "PR_MESSAGE_STATUS \<equiv> makeTag 0x0E17 kPtLong"
abbreviation (input) PR_REPL_ITEMID :: prop_tag where "PR_REPL_ITEMID \<equiv> makeTag 0x0E30 kPtBinary"
abbreviation (input) PR_REPL_CHANGENUM :: prop_tag where "PR_REPL_CHANGENUM \<equiv> makeTag 0x0E33 kPtLongLong"
abbreviation (input) PR_REPL_VERSION_HISTORY :: prop_tag where "PR_REPL_VERSION_HISTORY \<equiv> makeTag 0x0E34 kPtBinary"
abbreviation (input) PR_REPL_FLAGS :: prop_tag where "PR_REPL_FLAGS \<equiv> makeTag 0x0E38 kPtLong"
abbreviation (input) PR_REPL_COPIEDFROM_VERSION :: prop_tag where "PR_REPL_COPIEDFROM_VERSION \<equiv> makeTag 0x0E3C kPtBinary"
abbreviation (input) PR_REPL_COPIEDFROM_ITEMID :: prop_tag where "PR_REPL_COPIEDFROM_ITEMID \<equiv> makeTag 0x0E3D kPtBinary"
abbreviation (input) PR_ITEM_TEMPORARY_FLAGS :: prop_tag where "PR_ITEM_TEMPORARY_FLAGS \<equiv> makeTag 0x1097 kPtLong"
abbreviation (input) PR_CONVERSATION_ID :: prop_tag where "PR_CONVERSATION_ID \<equiv> makeTag 0x3013 kPtBinary"
abbreviation (input) PR_SECURE_SUBMIT_FLAGS :: prop_tag where "PR_SECURE_SUBMIT_FLAGS \<equiv> makeTag 0x65C6 kPtLong"
abbreviation (input) PR_PST_HIDDEN_COUNT :: prop_tag where "PR_PST_HIDDEN_COUNT \<equiv> makeTag 0x6635 kPtLong"
abbreviation (input) PR_PST_HIDDEN_UNREAD :: prop_tag where "PR_PST_HIDDEN_UNREAD \<equiv> makeTag 0x6636 kPtLong"
abbreviation (input) PR_PST_RECEIVE_FOLDER :: prop_tag where "PR_PST_RECEIVE_FOLDER \<equiv> makeTag 0x6605 kPtLong"
abbreviation (input) PR_SEARCH_KEY :: prop_tag where "PR_SEARCH_KEY \<equiv> makeTag 0x300B kPtBinary"
abbreviation (input) PR_RESPONSIBILITY :: prop_tag where "PR_RESPONSIBILITY \<equiv> makeTag 0x0E0F kPtBoolean"
abbreviation (input) PR_DISPLAY_TYPE :: prop_tag where "PR_DISPLAY_TYPE \<equiv> makeTag 0x3900 kPtLong"
abbreviation (input) PR_7BIT_DISPLAY_NAME :: prop_tag where "PR_7BIT_DISPLAY_NAME \<equiv> makeTag 0x39FF kPtUnicode"
abbreviation (input) PR_SEND_RICH_INFO :: prop_tag where "PR_SEND_RICH_INFO \<equiv> makeTag 0x3A40 kPtBoolean"
abbreviation (input) PR_VD_NAME :: prop_tag where "PR_VD_NAME \<equiv> makeTag 0x6800 kPtUnicode"
abbreviation (input) PR_VD_FLAGS :: prop_tag where "PR_VD_FLAGS \<equiv> makeTag 0x6803 kPtBoolean"
abbreviation (input) PR_VD_VERSION :: prop_tag where "PR_VD_VERSION \<equiv> makeTag 0x6805 kPtMvLong"
abbreviation (input) PR_VD_STRINGS :: prop_tag where "PR_VD_STRINGS \<equiv> makeTag 0x682F kPtUnicode"
abbreviation (input) PR_VIEW_DESCRIPTOR_FLAGS :: prop_tag where "PR_VIEW_DESCRIPTOR_FLAGS \<equiv> makeTag 0x7003 kPtLong"
abbreviation (input) PR_VIEW_DESCRIPTOR_LINKTO :: prop_tag where "PR_VIEW_DESCRIPTOR_LINKTO \<equiv> makeTag 0x7004 kPtBinary"
abbreviation (input) PR_VIEW_DESCRIPTOR_VIEWFLD :: prop_tag where "PR_VIEW_DESCRIPTOR_VIEWFLD \<equiv> makeTag 0x7005 kPtBinary"
abbreviation (input) PR_VIEW_DESCRIPTOR_NAME :: prop_tag where "PR_VIEW_DESCRIPTOR_NAME \<equiv> makeTag 0x7006 kPtUnicode"
abbreviation (input) PR_VIEW_DESCRIPTOR_VERSION :: prop_tag where "PR_VIEW_DESCRIPTOR_VERSION \<equiv> makeTag 0x7007 kPtLong"

subsection \<open>Ltp internal props\<close>

abbreviation (input) PidTagLtpRowId :: prop_tag where "PidTagLtpRowId \<equiv> makeTag 0x67F2 kPtLong"
abbreviation (input) PidTagLtpRowVer :: prop_tag where "PidTagLtpRowVer \<equiv> makeTag 0x67F3 kPtLong"
abbreviation (input) PidTagNameidBucketCount :: prop_tag where "PidTagNameidBucketCount \<equiv> makeTag 0x0001 kPtLong"
abbreviation (input) PidTagNameidStreamGuid :: prop_tag where "PidTagNameidStreamGuid \<equiv> makeTag 0x0002 kPtBinary"
abbreviation (input) PidTagNameidStreamEntry :: prop_tag where "PidTagNameidStreamEntry \<equiv> makeTag 0x0003 kPtBinary"
abbreviation (input) PidTagNameidStreamString :: prop_tag where "PidTagNameidStreamString \<equiv> makeTag 0x0004 kPtBinary"
abbreviation (input) MSGFLAG_READ :: "32 word" where "MSGFLAG_READ \<equiv> 0x00000001"
abbreviation (input) MSGFLAG_UNSENT :: "32 word" where "MSGFLAG_UNSENT \<equiv> 0x00000008"
abbreviation (input) MSGFLAG_UNMODIFIED :: "32 word" where "MSGFLAG_UNMODIFIED \<equiv> 0x00000002"
abbreviation (input) MSGFLAG_HASATTACH :: "32 word" where "MSGFLAG_HASATTACH \<equiv> 0x00000010"
abbreviation (input) MSGFLAG_FROMME :: "32 word" where "MSGFLAG_FROMME \<equiv> 0x00000020"
abbreviation (input) FLAG_STATUS_NONE :: "32 word" where "FLAG_STATUS_NONE \<equiv> 0"
abbreviation (input) FLAG_STATUS_COMPLETE :: "32 word" where "FLAG_STATUS_COMPLETE \<equiv> 1"
abbreviation (input) FLAG_STATUS_FLAGGED :: "32 word" where "FLAG_STATUS_FLAGGED \<equiv> 2"
abbreviation (input) VERB_REPLYTOSENDER :: "32 word" where "VERB_REPLYTOSENDER \<equiv> 102"
abbreviation (input) ICON_MAIL_REPLIED :: "32 word" where "ICON_MAIL_REPLIED \<equiv> 0x105"
abbreviation (input) ATTACH_BY_VALUE :: "32 word" where "ATTACH_BY_VALUE \<equiv> 1"
abbreviation (input) ATTACH_EMBEDDED_MSG :: "32 word" where "ATTACH_EMBEDDED_MSG \<equiv> 5"
abbreviation (input) MAPI_TO :: "32 word" where "MAPI_TO \<equiv> 1"
abbreviation (input) MAPI_CC :: "32 word" where "MAPI_CC \<equiv> 2"
abbreviation (input) MAPI_BCC :: "32 word" where "MAPI_BCC \<equiv> 3"
abbreviation (input) MAPI_MAILUSER :: "32 word" where "MAPI_MAILUSER \<equiv> 6"
abbreviation (input) DT_MAILUSER :: "32 word" where "DT_MAILUSER \<equiv> 0"
abbreviation (input) MAPI_ATTACH :: "32 word" where "MAPI_ATTACH \<equiv> 7"
abbreviation (input) CP_UTF8 :: "32 word" where "CP_UTF8 \<equiv> 65001"

end
