(* ===== verification/Ltp_Props.thy ===== *)
theory Ltp_Props
  imports Bth Utf16 Prop_Tags Ndb_Block
begin

section \<open>Subnodes and property contexts (src/pst/ltp.h, src/pst/ltp.cpp)\<close>

text \<open>
  A property context (PC) is a heap whose user root is a B-tree keyed by property id; a record
  holds the property's type and either its value or a reference to it, into the heap or, for what
  no heap block can hold, to a subnode that \<open>SubnodeAllocator\<close> writes and numbers.

  \<open>pc_read\<close> is a reader: it finds the property in the serialized heap and follows the reference
  through the heap or the subnodes. The properties say that every property set is read back with
  its value, inline, from the heap or from a subnode alike, and no other is found.
\<close>

subsection \<open>SubnodeAllocator\<close>

record subs =
  sa_ndb :: ndb
  sa_entries :: "subnode list"
  sa_next :: "32 word"

definition SubnodeAllocator_new :: "ndb \<Rightarrow> subs" where
  "SubnodeAllocator_new d = \<lparr>sa_ndb = d, sa_entries = [], sa_next = 1\<rparr>"

definition on_ndb :: "(ndb, 'a) prog \<Rightarrow> (subs, 'a) prog" where
  "on_ndb = zoomM sa_ndb (\<lambda>d s. s\<lparr>sa_ndb := d\<rparr>)"

definition adopt :: "bid \<Rightarrow> (subs, nid) prog" where
  "adopt d =
     bindM (getM (\<lambda>s. makeNid kNidTypeLtp (sa_next s))) (\<lambda>n.
     bindM (modM (\<lambda>s. s\<lparr>sa_next := sa_next s + 1,
       sa_entries := sa_entries s @ [\<lparr>sn_nid = n, sn_data = d, sn_sub = 0\<rparr>]\<rparr>)) (\<lambda>_.
     ret n))"

definition spill :: "bytes \<Rightarrow> (subs, nid) prog" where
  "spill data = bindM (on_ndb (writeData data)) adopt"

definition add_subnode :: "nid \<Rightarrow> bid \<Rightarrow> bid \<Rightarrow> (subs, unit) prog" where
  "add_subnode n d sub = modM (\<lambda>s. s\<lparr>sa_entries := sa_entries s @ [\<lparr>sn_nid = n, sn_data = d, sn_sub = sub\<rparr>]\<rparr>)"

subsection \<open>PropertyContext\<close>

datatype value_kind = KInline | KBytes | KSpilled

record pc_value =
  pv_tag :: prop_tag
  pv_kind :: value_kind
  pv_hnid :: "32 word"
  pv_bytes :: bytes

type_synonym pc = "pc_value list"

primrec pc_put :: "prop_tag \<Rightarrow> pc_value \<Rightarrow> pc \<Rightarrow> pc" where
  "pc_put tag v [] = [v\<lparr>pv_tag := tag\<rparr>]"
| "pc_put tag v (e # vs) = (if tagId (pv_tag e) = tagId tag then v\<lparr>pv_tag := tag\<rparr> # vs else e # pc_put tag v vs)"

definition inline_value :: "prop_tag \<Rightarrow> 32 word \<Rightarrow> pc_value" where
  "inline_value tag v = \<lparr>pv_tag = tag, pv_kind = KInline, pv_hnid = v, pv_bytes = []\<rparr>"

definition bytes_value :: "prop_tag \<Rightarrow> bytes \<Rightarrow> pc_value" where
  "bytes_value tag b = \<lparr>pv_tag = tag, pv_kind = KBytes, pv_hnid = 0, pv_bytes = b\<rparr>"

definition setInt16 :: "prop_tag \<Rightarrow> 16 word \<Rightarrow> pc \<Rightarrow> pc" where
  "setInt16 tag v = pc_put tag (inline_value tag (ucast v))"

definition setInt32 :: "prop_tag \<Rightarrow> 32 word \<Rightarrow> pc \<Rightarrow> pc" where
  "setInt32 tag v = pc_put tag (inline_value tag v)"

definition setBool :: "prop_tag \<Rightarrow> bool \<Rightarrow> pc \<Rightarrow> pc" where
  "setBool tag v = pc_put tag (inline_value tag (if v then 1 else 0))"

definition setSpilledValue :: "prop_tag \<Rightarrow> nid \<Rightarrow> pc \<Rightarrow> pc" where
  "setSpilledValue tag n = pc_put tag \<lparr>pv_tag = tag, pv_kind = KSpilled, pv_hnid = n, pv_bytes = []\<rparr>"

definition setInt64 :: "prop_tag \<Rightarrow> 64 word \<Rightarrow> pc \<Rightarrow> pc" where
  "setInt64 tag v = pc_put tag (bytes_value tag (put64 [] v))"

definition setTime :: "prop_tag \<Rightarrow> 64 word \<Rightarrow> pc \<Rightarrow> pc" where
  "setTime = setInt64"

text \<open>The bytes of a string property: raw for \<open>PT_STRING8\<close>, else UTF-16.\<close>

definition string_bytes :: "prop_tag \<Rightarrow> string \<Rightarrow> bytes" where
  "string_bytes tag s = (if tagType tag = kPtString8 then bytes_of s else utf8ToUtf16le s)"

definition setString :: "prop_tag \<Rightarrow> string \<Rightarrow> pc \<Rightarrow> pc" where
  "setString tag s = pc_put tag (bytes_value tag (string_bytes tag s))"

definition setBinary :: "prop_tag \<Rightarrow> bytes \<Rightarrow> pc \<Rightarrow> pc" where
  "setBinary tag b = pc_put tag (bytes_value tag b)"

text \<open>\<open>PT_MV_UNICODE\<close>: a count, an offset for each item, the items. Offsets wrap at 32 bits.\<close>

primrec array_offsets :: "32 word \<Rightarrow> bytes list \<Rightarrow> bytes \<Rightarrow> bytes" where
  "array_offsets off [] buf = buf"
| "array_offsets off (e # es) buf = array_offsets (off + of_nat (length e)) es (put32 buf off)"

definition string_array :: "string list \<Rightarrow> bytes" where
  "string_array items =
     (let encoded = map utf8ToUtf16le items;
          buf = put32 [] (of_nat (length encoded))
      in array_offsets (of_nat (4 + 4 * length encoded)) encoded buf @ concat encoded)"

definition setStringArray :: "prop_tag \<Rightarrow> string list \<Rightarrow> pc \<Rightarrow> pc" where
  "setStringArray tag items = pc_put tag (bytes_value tag (string_array items))"

definition setObject :: "prop_tag \<Rightarrow> nid \<Rightarrow> 32 word \<Rightarrow> pc \<Rightarrow> pc" where
  "setObject tag n len = pc_put tag (bytes_value tag (put32 (put32 [] n) len))"

definition pc_has :: "prop_tag \<Rightarrow> pc \<Rightarrow> bool" where
  "pc_has tag vs \<longleftrightarrow> list_ex (\<lambda>v. tagId (pv_tag v) = tagId tag) vs"

text \<open>
  Serializing works on a heap of its own and on the node's subnodes.
\<close>

record ltp =
  lt_heap :: heap
  lt_subs :: subs

definition on_heap :: "(heap, 'a) prog \<Rightarrow> (ltp, 'a) prog" where
  "on_heap = zoomM lt_heap (\<lambda>h s. s\<lparr>lt_heap := h\<rparr>)"

definition on_subs :: "(subs, 'a) prog \<Rightarrow> (ltp, 'a) prog" where
  "on_subs = zoomM lt_subs (\<lambda>h s. s\<lparr>lt_subs := h\<rparr>)"

text \<open>A blob goes into the heap if it fits a block, else into a subnode.\<close>

definition place_bytes :: "bytes \<Rightarrow> (ltp, hnid) prog" where
  "place_bytes b = (if length b \<le> maxAllocSize then on_heap (alloc b) else on_subs (spill b))"

definition place_value :: "pc_value \<Rightarrow> (ltp, hnid) prog" where
  "place_value v = (if pv_kind v = KInline \<or> pv_kind v = KSpilled then ret (pv_hnid v) else place_bytes (pv_bytes v))"

definition pc_record :: "pc_value \<Rightarrow> hnid \<Rightarrow> bth_record" where
  "pc_record v h = \<lparr>bth_key = put16 [] (tagId (pv_tag v)), bth_value = put32 (put16 [] (tagType (pv_tag v))) h\<rparr>"

text \<open>A heap built from scratch over the subnodes, then serialized.\<close>

definition with_heap :: "byte \<Rightarrow> (ltp, hid) prog \<Rightarrow> (subs, bytes) prog" where
  "with_heap sig build s =
     (case build \<lparr>lt_heap = HeapNode_new sig, lt_subs = s\<rparr> of
        None \<Rightarrow> None
      | Some (Inl e, t) \<Rightarrow> Some (Inl e, lt_subs t)
      | Some (Inr root, t) \<Rightarrow> Some (Inr (serialize (setUserRoot root (lt_heap t))), lt_subs t))"

definition pc_build :: "pc \<Rightarrow> (ltp, hid) prog" where
  "pc_build vs =
     bindM (mapM (\<lambda>v. bindM (place_value v) (\<lambda>h. ret (pc_record v h))) vs) (\<lambda>records.
     on_heap (buildBth 2 6 records))"

definition pc_serialize :: "pc \<Rightarrow> (subs, bytes) prog" where
  "pc_serialize vs = with_heap kHnSigPC (pc_build vs)"

subsection \<open>A reader\<close>

text \<open>The data of a subnode, and of a reference into the heap or to a subnode.\<close>

definition sub_read :: "(bid \<Rightarrow> bytes option) \<Rightarrow> subnode list \<Rightarrow> nid \<Rightarrow> bytes option" where
  "sub_read blk es n = (case find (\<lambda>e. sn_nid e = n) es of None \<Rightarrow> None | Some e \<Rightarrow> read_data blk (sn_data e))"

definition hnid_read :: "lookup \<Rightarrow> (nid \<Rightarrow> bytes option) \<Rightarrow> hnid \<Rightarrow> bytes option" where
  "hnid_read look sub h = (if hnidIsHid h then look h else sub h)"

text \<open>A property: its type, and its inline value or its bytes.\<close>

definition pc_read :: "lookup \<Rightarrow> (nid \<Rightarrow> bytes option) \<Rightarrow> hid \<Rightarrow> 16 word \<Rightarrow> (prop_type \<times> (32 word + bytes)) option" where
  "pc_read look sub root i =
     (case bth_find look root (le_bytes 2 i) of
        None \<Rightarrow> None
      | Some r \<Rightarrow>
          let t = peek16 r; h = peek32 (drop 2 r) in
          if propIsInline t then Some (t, Inl h)
          else map_option (\<lambda>b. (t, Inr b)) (hnid_read look sub h))"

subsection \<open>Setting properties\<close>

text \<open>What a property context holds under a property id.\<close>

definition pc_look :: "pc \<Rightarrow> 16 word \<Rightarrow> pc_value option" where
  "pc_look vs i = find (\<lambda>v. tagId (pv_tag v) = i) vs"

abbreviation pc_ids :: "pc \<Rightarrow> 16 word list" where
  "pc_ids vs \<equiv> map (\<lambda>v. tagId (pv_tag v)) vs"

lemma pc_look_put: "pc_look (pc_put tag v vs) = (pc_look vs)(tagId tag \<mapsto> v\<lparr>pv_tag := tag\<rparr>)"
  by (induction vs) (auto simp: pc_look_def fun_eq_iff)

lemma set_pc_ids_put: "set (pc_ids (pc_put tag v vs)) = insert (tagId tag) (set (pc_ids vs))"
  by (induction vs) auto

lemma distinct_pc_put: "distinct (pc_ids vs) \<Longrightarrow> distinct (pc_ids (pc_put tag v vs))"
proof (induction vs)
  case (Cons e vs)
  then show ?case using set_pc_ids_put [of tag v vs] by auto
qed simp

text \<open>
  A well-formed context: ids distinct, a value inline exactly when its type is inline, references
  to subnodes only where a subnode can be, byte strings of a size a buffer can have.
\<close>

definition value_ok :: "pc_value \<Rightarrow> bool" where
  "value_ok v \<longleftrightarrow> (pv_kind v = KInline \<longleftrightarrow> propIsInline (tagType (pv_tag v))) \<and>
     (pv_kind v = KSpilled \<longrightarrow> \<not> hnidIsHid (pv_hnid v)) \<and> length (pv_bytes v) < 2 ^ 64"

definition pc_ok :: "pc \<Rightarrow> bool" where
  "pc_ok vs \<longleftrightarrow> distinct (pc_ids vs) \<and> list_all value_ok vs"

lemma pc_ok_Nil [simp]: "pc_ok []"
  by (simp add: pc_ok_def)

lemma pc_ok_put: "pc_ok vs \<Longrightarrow> value_ok (v\<lparr>pv_tag := tag\<rparr>) \<Longrightarrow> pc_ok (pc_put tag v vs)"
proof -
  assume ok: "pc_ok vs" and v: "value_ok (v\<lparr>pv_tag := tag\<rparr>)"
  have "list_all value_ok vs \<Longrightarrow> list_all value_ok (pc_put tag v vs)" using v by (induction vs) auto
  then show ?thesis using ok distinct_pc_put by (simp add: pc_ok_def)
qed

lemma length_pc_put: "length (pc_put tag v vs) \<le> Suc (length vs)"
  by (induction vs) auto

text \<open>The setters, by the kind of the tag's type.\<close>

lemma pc_ok_inline:
  assumes "pc_ok vs" "propIsInline (tagType tag)"
  shows "pc_ok (setInt16 tag v vs)" "pc_ok (setInt32 tag w vs)" "pc_ok (setBool tag b vs)"
  unfolding setInt16_def setInt32_def setBool_def
  by (rule pc_ok_put [OF assms(1)]; use assms(2) in \<open>simp add: inline_value_def value_ok_def\<close>)+

lemma pc_ok_bytes:
  assumes "pc_ok vs" "\<not> propIsInline (tagType tag)"
  shows "length b < 2 ^ 64 \<Longrightarrow> pc_ok (setBinary tag b vs)"
    and "length (string_bytes tag s) < 2 ^ 64 \<Longrightarrow> pc_ok (setString tag s vs)"
    and "length (string_array ss) < 2 ^ 64 \<Longrightarrow> pc_ok (setStringArray tag ss vs)"
    and "pc_ok (setInt64 tag x vs)" "pc_ok (setTime tag x vs)" "pc_ok (setObject tag n sz vs)"
    and "\<not> hnidIsHid n \<Longrightarrow> pc_ok (setSpilledValue tag n vs)"
  unfolding setBinary_def setString_def setStringArray_def setInt64_def setTime_def setObject_def setSpilledValue_def
  by (rule pc_ok_put [OF assms(1)]; use assms(2) in \<open>simp add: bytes_value_def value_ok_def put64_def put32_def\<close>)+

subsection \<open>Subnodes read back\<close>

definition sub_look :: "subs \<Rightarrow> nid \<Rightarrow> bytes option" where
  "sub_look s = sub_read (lookup_block (sa_ndb s)) (sa_entries s)"

text \<open>The allocator's invariant, with room for \<open>k\<close> more subnodes before the NID index overflows.\<close>

definition subs_ok :: "nat \<Rightarrow> subs \<Rightarrow> bool" where
  "subs_ok k s \<longleftrightarrow> store_ok (sa_ndb s) \<and> distinct (map sn_nid (sa_entries s)) \<and>
     (\<forall>e \<in> set (sa_entries s). nidType (sn_nid e) = kNidTypeLtp \<longrightarrow> nidIndex (sn_nid e) < sa_next s) \<and>
     unat (sa_next s) + k \<le> 2 ^ 27"

definition subs_ext :: "subs \<Rightarrow> subs \<Rightarrow> bool" where
  "subs_ext s s' \<longleftrightarrow> preserves (sa_ndb s) (sa_ndb s') \<and> (\<exists>es. sa_entries s' = sa_entries s @ es)"

lemma subs_ext_refl [simp]: "subs_ext s s"
  by (simp add: subs_ext_def)

lemma subs_ext_trans: "subs_ext a b \<Longrightarrow> subs_ext b c \<Longrightarrow> subs_ext a c"
  unfolding subs_ext_def using preserves_trans by fastforce

lemma subs_ok_mono: "subs_ok k s \<Longrightarrow> j \<le> k \<Longrightarrow> subs_ok j s"
  by (simp add: subs_ok_def)

lemma subs_ok_new: "store_ok d \<Longrightarrow> k < 2 ^ 27 \<Longrightarrow> subs_ok k (SubnodeAllocator_new d)"
  by (simp add: subs_ok_def SubnodeAllocator_new_def)

lemma sub_look_ext:
  assumes "subs_ext s s'" "sub_look s n = Some x"
  shows "sub_look s' n = Some x"
proof -
  obtain e where e: "find (\<lambda>e. sn_nid e = n) (sa_entries s) = Some e" "read_data (lookup_block (sa_ndb s)) (sn_data e) = Some x"
    using assms(2) by (auto simp: sub_look_def sub_read_def split: option.splits)
  have "read_data (lookup_block (sa_ndb s')) (sn_data e) = Some x"
    using read_data_mono [OF _ e(2)] assms(1) by (simp add: subs_ext_def preserves_def)
  then show ?thesis using assms(1) e(1) by (auto simp: sub_look_def sub_read_def subs_ext_def find_append)
qed

lemma ltp_nid:
  assumes "unat i < 2 ^ 27"
  shows "nidType (makeNid kNidTypeLtp i) = kNidTypeLtp" "nidIndex (makeNid kNidTypeLtp i) = i"
    "\<not> hnidIsHid (makeNid kNidTypeLtp i)"
proof -
  show t: "nidType (makeNid kNidTypeLtp i) = kNidTypeLtp" using nid_roundtrip(2) [OF assms, of kNidTypeLtp] by simp
  show "nidIndex (makeNid kNidTypeLtp i) = i" by (rule nid_roundtrip(1) [OF assms])
  show "\<not> hnidIsHid (makeNid kNidTypeLtp i)" using t by (auto simp: nidType_def hnidIsHid_def)
qed

lemma adopt_law:
  assumes ok: "subs_ok (Suc k) s" and run: "adopt d s = Some (r, s')"
  shows "\<exists>n. r = Inr n \<and> subs_ok k s' \<and> subs_ext s s' \<and> \<not> hnidIsHid n \<and> nidType n = kNidTypeLtp \<and>
    find (\<lambda>e. sn_nid e = n) (sa_entries s) = None \<and> sa_ndb s' = sa_ndb s \<and>
    sa_entries s' = sa_entries s @ [\<lparr>sn_nid = n, sn_data = d, sn_sub = 0\<rparr>]"
proof -
  let ?n = "makeNid kNidTypeLtp (sa_next s)"
  have i: "unat (sa_next s) < 2 ^ 27" using ok by (simp add: subs_ok_def)
  note n = ltp_nid [OF i]
  have s': "r = Inr ?n" "s' = s\<lparr>sa_next := sa_next s + 1, sa_entries := sa_entries s @ [\<lparr>sn_nid = ?n, sn_data = d, sn_sub = 0\<rparr>]\<rparr>"
    using run by (auto simp: adopt_def prog_simps)
  have fresh: "sn_nid e \<noteq> ?n" if "e \<in> set (sa_entries s)" for e
    using ok that n by (auto simp: subs_ok_def)
  have succ: "unat (sa_next s + 1) = Suc (unat (sa_next s))"
    using i by (simp add: unat_word_ariths)
  then have "x < sa_next s + 1" if "x < sa_next s" for x
    using that by (simp add: word_less_nat_alt)
  moreover have "sa_next s < sa_next s + 1" using succ by (simp add: word_less_nat_alt)
  ultimately have "subs_ok k s'"
    using ok fresh succ n by (auto simp: s' subs_ok_def)
  then show ?thesis
    using fresh n by (auto simp: s' subs_ext_def find_None_iff)
qed

lemma spill_law:
  assumes ok: "subs_ok (Suc k) s" and len: "length b < 2 ^ 64" and run: "spill b s = Some (Inr n, s')"
  shows "subs_ok k s' \<and> subs_ext s s' \<and> \<not> hnidIsHid n \<and> sub_look s n = None \<and> sub_look s' n = Some b"
proof -
  obtain d t where 1: "writeData b (sa_ndb s) = Some (Inr d, t)" and 2: "adopt d (s\<lparr>sa_ndb := t\<rparr>) = Some (Inr n, s')"
    using run by (auto simp: spill_def on_ndb_def zoomM_def bindM_Inr_iff split: option.splits)
  have st: "store_ok (sa_ndb s)" using ok by (simp add: subs_ok_def)
  note law = writeData_law [OF st len 1]
  have "subs_ok (Suc k) (s\<lparr>sa_ndb := t\<rparr>)" using ok law by (simp add: subs_ok_def)
  note a = adopt_law [OF this 2]
  have "subs_ext s (s\<lparr>sa_ndb := t\<rparr>)" using law by (simp add: subs_ext_def)
  then have "subs_ext s s'" using a subs_ext_trans by blast
  moreover have "sub_look s' n = Some b" "sub_look s n = None"
    using a law by (auto simp: sub_look_def sub_read_def find_append)
  ultimately show ?thesis using a by blast
qed

lemma add_subnode_law:
  assumes "subs_ok k s" "nidType n \<noteq> kNidTypeLtp" "n \<notin> set (map sn_nid (sa_entries s))"
  shows "\<exists>s'. add_subnode n d sub s = Some (Inr (), s') \<and> subs_ok k s' \<and> subs_ext s s' \<and>
    sa_entries s' = sa_entries s @ [\<lparr>sn_nid = n, sn_data = d, sn_sub = sub\<rparr>] \<and> sa_ndb s' = sa_ndb s"
  using assms by (auto simp: add_subnode_def prog_simps subs_ok_def subs_ext_def)

subsection \<open>Placing values\<close>

definition ltp_ok :: "nat \<Rightarrow> ltp \<Rightarrow> bool" where
  "ltp_ok k t \<longleftrightarrow> heap_ok (lt_heap t) \<and> subs_ok k (lt_subs t)"

definition ltp_ext :: "ltp \<Rightarrow> ltp \<Rightarrow> bool" where
  "ltp_ext t t' \<longleftrightarrow> hn.extends (lt_heap t) (lt_heap t') \<and> subs_ext (lt_subs t) (lt_subs t') \<and>
     client_sig (lt_heap t') = client_sig (lt_heap t)"

definition deref :: "ltp \<Rightarrow> hnid \<Rightarrow> bytes option" where
  "deref t = hnid_read (heap_look (lt_heap t)) (sub_look (lt_subs t))"

lemma ltp_ext_refl [simp]: "ltp_ext t t"
  by (simp add: ltp_ext_def)

lemma ltp_ext_trans: "ltp_ext a b \<Longrightarrow> ltp_ext b c \<Longrightarrow> ltp_ext a c"
  unfolding ltp_ext_def using hn.extends_trans subs_ext_trans by metis

lemma deref_ext: "ltp_ext t t' \<Longrightarrow> deref t h = Some b \<Longrightarrow> deref t' h = Some b"
  using sub_look_ext by (auto simp: deref_def hnid_read_def ltp_ext_def hn.extends_def split: if_splits)

lemma on_heap_run: "on_heap m t = Some (r, t') \<longleftrightarrow> (\<exists>h. m (lt_heap t) = Some (r, h) \<and> t' = t\<lparr>lt_heap := h\<rparr>)"
  by (auto simp: on_heap_def zoomM_def split: option.splits)

lemma on_subs_run: "on_subs m t = Some (r, t') \<longleftrightarrow> (\<exists>s. m (lt_subs t) = Some (r, s) \<and> t' = t\<lparr>lt_subs := s\<rparr>)"
  by (auto simp: on_subs_def zoomM_def split: option.splits)

lemma alloc_sig: "heap_ok h \<Longrightarrow> alloc d h = Some (r, h') \<Longrightarrow> client_sig h' = client_sig h"
  by (auto simp: alloc_run heap_ok_def Let_def grow_def put_item_def split: if_splits)

lemma heap_look_hid: "heap_look h k = Some x \<Longrightarrow> hnidIsHid k"
  by (auto simp: heap_look_def Let_def split: if_splits)

lemma place_bytes_law:
  assumes ok: "ltp_ok (Suc k) t" and len: "length b < 2 ^ 64" and run: "place_bytes b t = Some (Inr h, t')"
  shows "ltp_ok k t' \<and> ltp_ext t t' \<and> deref t' h = Some b"
proof (cases "length b \<le> maxAllocSize")
  case True
  then obtain hp where hp: "alloc b (lt_heap t) = Some (Inr h, hp)" "t' = t\<lparr>lt_heap := hp\<rparr>"
    using run by (auto simp: place_bytes_def on_heap_run)
  have hok: "heap_ok (lt_heap t)" using ok by (simp add: ltp_ok_def)
  note law = alloc_law [OF hok hp(1)]
  then have "hnidIsHid h" using heap_look_hid by blast
  then show ?thesis
    using ok law subs_ok_mono [of "Suc k" _ k] alloc_sig [OF hok hp(1)]
    by (auto simp: hp(2) ltp_ok_def ltp_ext_def hn.extends_def deref_def hnid_read_def)
next
  case False
  then obtain s where s: "spill b (lt_subs t) = Some (Inr h, s)" "t' = t\<lparr>lt_subs := s\<rparr>"
    using run by (auto simp: place_bytes_def on_subs_run)
  then show ?thesis
    using spill_law [OF _ len s(1)] ok by (auto simp: s(2) ltp_ok_def ltp_ext_def deref_def hnid_read_def)
qed

text \<open>What a record placed for a value says of it.\<close>

definition placed :: "ltp \<Rightarrow> pc_value \<Rightarrow> bth_record \<Rightarrow> bool" where
  "placed t v r \<longleftrightarrow> (\<exists>h. r = pc_record v h \<and> (if pv_kind v = KBytes then deref t h = Some (pv_bytes v) else h = pv_hnid v))"

lemma place_values_law:
  assumes ok: "ltp_ok (k + length vs) t" and vs: "list_all value_ok vs"
    and run: "mapM (\<lambda>v. bindM (place_value v) (\<lambda>h. ret (pc_record v h))) vs t = Some (Inr rs, t')"
  shows "ltp_ok k t' \<and> ltp_ext t t' \<and> list_all2 (placed t') vs rs"
proof (rule mapM_spends [where I = ltp_ok and G = ltp_ext, OF _ ltp_ext_refl ltp_ext_trans _ ok run])
  fix k v t r t'
  assume v: "v \<in> set vs" and ok: "ltp_ok (Suc k) t"
    and run: "bindM (place_value v) (\<lambda>h. ret (pc_record v h)) t = Some (Inr r, t')"
  obtain h where h: "place_value v t = Some (Inr h, t')" "r = pc_record v h"
    using run by (auto simp: bindM_Inr_iff ret_run)
  have len: "length (pv_bytes v) < 2 ^ 64" using vs v by (simp add: list_all_iff value_ok_def)
  show "ltp_ok k t' \<and> ltp_ext t t' \<and> placed t' v r"
  proof (cases "pv_kind v = KBytes")
    case True
    then show ?thesis using place_bytes_law [OF ok len] h by (auto simp: place_value_def placed_def)
  next
    case False
    then have "h = pv_hnid v" "t' = t"
      using h(1) by (cases "pv_kind v"; simp add: place_value_def ret_run)+
    then show ?thesis using False h(2) ok by (auto simp: placed_def ltp_ok_def subs_ok_def)
  qed
next
  show "placed t v r \<Longrightarrow> ltp_ext t t' \<Longrightarrow> placed t' v r" for t t' v r
    using deref_ext by (auto simp: placed_def split: if_splits)
qed

lemma pc_record_fit: "list_all2 (placed t) vs rs \<Longrightarrow> records_fit 2 6 rs \<and> map bth_key rs = map (le_bytes 2) (pc_ids vs)"
  by (induction rule: list_all2_induct)
     (auto simp: records_fit_def placed_def pc_record_def put16_def put32_def)

lemma le_bytes2_inject: "le_bytes 2 a = le_bytes 2 b \<longleftrightarrow> a = (b :: 16 word)"
  by (metis le_roundtrip(1))

lemma placed_find:
  "list_all2 (placed t) vs rs \<Longrightarrow>
   (case find (\<lambda>r. bth_key r = le_bytes 2 i) rs of
      None \<Rightarrow> pc_look vs i = None
    | Some r \<Rightarrow> \<exists>v. pc_look vs i = Some v \<and> placed t v r)"
proof (induction rule: list_all2_induct)
  case (Cons v vs r rs)
  have "bth_key r = le_bytes 2 i \<longleftrightarrow> tagId (pv_tag v) = i"
    using Cons by (auto simp: placed_def pc_record_def put16_def le_bytes2_inject)
  then show ?case using Cons by (auto simp: pc_look_def split: option.splits)
qed (simp add: pc_look_def)

subsection \<open>A serialized context reads back\<close>

text \<open>What a reader must find for a value held.\<close>

definition value_read :: "(nid \<Rightarrow> bytes option) \<Rightarrow> pc_value \<Rightarrow> (prop_type \<times> (32 word + bytes)) option" where
  "value_read sub v =
     (case pv_kind v of
        KInline \<Rightarrow> Some (tagType (pv_tag v), Inl (pv_hnid v))
      | KBytes \<Rightarrow> Some (tagType (pv_tag v), Inr (pv_bytes v))
      | KSpilled \<Rightarrow> map_option (\<lambda>b. (tagType (pv_tag v), Inr b)) (sub (pv_hnid v)))"

lemma bth_sig:
  assumes "heap_ok h" "buildBth kb eb rs h = Some (Inr b, h')" "records_fit kb eb rs"
  shows "client_sig h' = client_sig h"
proof -
  have keep: "keeps (\<lambda>g. hblocks g \<noteq> [] \<and> client_sig g = client_sig h) (alloc d)" for d
    by (rule hoareI) (auto simp: alloc_run Let_def grow_def put_item_def split: if_splits)
  have leaf: "keeps (\<lambda>g. hblocks g \<noteq> [] \<and> client_sig g = client_sig h) (bth_leaf alloc kb eb c)" for c
    unfolding bth_leaf_def by (intro hoare_intros keep)
  have inter: "keeps (\<lambda>g. hblocks g \<noteq> [] \<and> client_sig g = client_sig h) (bth_inter alloc kb c)" for c
    unfolding bth_inter_def by (intro hoare_intros keep)
  have levels: "keeps (\<lambda>g. hblocks g \<noteq> [] \<and> client_sig g = client_sig h) (bth_levels alloc kb l ls)" for l ls
  proof (induction "9 - l" arbitrary: l ls rule: less_induct)
    case less
    show ?case
    proof (cases "1 < length ls \<and> l + 1 \<le> 8")
      case True
      then show ?thesis
        using less by (subst bth_levels.simps) (auto intro!: hoare_intros inter)
    next
      case False
      then show ?thesis by (subst bth_levels.simps) (auto intro!: hoare_intros inter)
    qed
  qed
  have "keeps (\<lambda>g. hblocks g \<noteq> [] \<and> client_sig g = client_sig h) (buildBth kb eb rs)"
    unfolding buildBth_def buildBthInto_def Let_def
    by (auto intro!: hoare_intros keep leaf levels split: prod.splits)
  from keepsD [OF this _ assms(2)] assms(1) show ?thesis by (simp add: heap_ok_def)
qed

lemma pc_serialize_law:
  assumes ok: "subs_ok (k + length vs) s" and pc: "pc_ok vs" and run: "pc_serialize vs s = Some (Inr stream, s')"
  shows "subs_ok k s' \<and> subs_ext s s' \<and> heap_sig stream = Some (kHnSignature, kHnSigPC) \<and> length stream < 2 ^ 64 \<and>
    pc_read (heap_read stream) (sub_look s') (heap_root stream) i = Option.bind (pc_look vs i) (value_read (sub_look s'))"
proof -
  let ?t0 = "\<lparr>lt_heap = HeapNode_new kHnSigPC, lt_subs = s\<rparr>"
  obtain root t where build: "pc_build vs ?t0 = Some (Inr root, t)"
      and stream: "stream = serialize (setUserRoot root (lt_heap t))" "s' = lt_subs t"
    using run by (auto simp: pc_serialize_def with_heap_def split: option.splits prod.splits sum.splits)
  obtain rs t1 where place: "mapM (\<lambda>v. bindM (place_value v) (\<lambda>h. ret (pc_record v h))) vs ?t0 = Some (Inr rs, t1)"
      and bth: "on_heap (buildBth 2 6 rs) t1 = Some (Inr root, t)"
    using build by (auto simp: pc_build_def bindM_Inr_iff)
  have vs: "list_all value_ok vs" "distinct (pc_ids vs)" using pc by (simp_all add: pc_ok_def)
  have "ltp_ok (k + length vs) ?t0" using ok by (simp add: ltp_ok_def HeapNode_new_ok)
  note placed = place_values_law [OF this vs(1) place]
  then have all: "list_all2 (placed t1) vs rs" by simp
  note fit = pc_record_fit [OF all]
  obtain hp where hp: "buildBth 2 6 rs (lt_heap t1) = Some (Inr root, hp)" "t = t1\<lparr>lt_heap := hp\<rparr>"
    using bth by (auto simp: on_heap_run)
  have hok: "heap_ok (lt_heap t1)" using placed by (simp add: ltp_ok_def)
  note law = buildBth_law [OF hok conjunct1 [OF fit] hp(1)]
  have sig: "client_sig hp = kHnSigPC"
    using bth_sig [OF hok hp(1)] fit placed by (simp add: ltp_ext_def HeapNode_new_def)
  have sok: "heap_ok (setUserRoot root hp)" using law by simp
  have stored: "bth_stored (heap_read stream) 2 6 root rs"
    unfolding stream(1) hp(2) by (simp, rule stored_in_stream) (use law in simp_all)
  have root: "heap_root stream = root" "heap_sig stream = Some (kHnSignature, kHnSigPC)"
    using serialize_header [OF sok] sig by (simp_all add: stream(1) hp(2) setUserRoot_def)
  have dist: "distinct (map bth_key rs)"
    using fit vs(2) by (simp add: distinct_map inj_on_def le_bytes2_inject)
  have bf: "bth_find (heap_read stream) root (le_bytes 2 i) = map_option bth_value (find (\<lambda>r. bth_key r = le_bytes 2 i) rs)"
    by (rule bth_stored_find [OF stored conjunct1 [OF fit] dist]) simp
  have "pc_read (heap_read stream) (sub_look s') root i = Option.bind (pc_look vs i) (value_read (sub_look s'))"
  proof (cases "find (\<lambda>r. bth_key r = le_bytes 2 i) rs")
    case None
    then show ?thesis using placed_find [OF all, of i] bf by (simp add: pc_read_def)
  next
    case (Some r)
    then obtain v h where v: "pc_look vs i = Some v" "r = pc_record v h"
        "if pv_kind v = KBytes then deref t1 h = Some (pv_bytes v) else h = pv_hnid v"
      using placed_find [OF all, of i] by (auto simp: placed_def)
    have vok: "value_ok v" using vs(1) v(1) by (auto simp: pc_look_def find_Some_iff list_all_iff)
    have parts: "peek16 (bth_value r) = tagType (pv_tag v)" "peek32 (drop 2 (bth_value r)) = h"
      by (simp_all add: v(2) pc_record_def put16_def put32_def)
    have "hnid_read (heap_read stream) (sub_look s') h = Some b" if "deref t1 h = Some b" for b
      using that law heap_read_serialize [OF sok] by (auto simp: deref_def hnid_read_def stream hp(2) split: if_splits)
    then show ?thesis
      using v vok parts Some bf
      by (cases "pv_kind v") (auto simp: pc_read_def value_read_def Let_def value_ok_def hnid_read_def)
  qed
  moreover have "length stream < 2 ^ 64" using serialize_small [OF sok] by (simp add: stream(1) hp(2))
  ultimately show ?thesis
    using placed root by (simp add: stream(2) hp(2) ltp_ok_def ltp_ext_def)
qed

subsection \<open>Properties\<close>

text \<open>A reader of multi-valued strings: an item runs to the next one's offset, the last to the end.\<close>

definition read_string_array :: "bytes \<Rightarrow> bytes list" where
  "read_string_array b =
     (let n = unat (peek32 b); offs = map (\<lambda>i. unat (peek32 (drop (4 + 4 * i) b))) [0..<n]
      in map (\<lambda>(a, e). take (e - a) (drop a b)) (zip offs (drop 1 offs @ [length b])))"

lemma array_offsets_eq:
  "array_offsets (of_nat off) es buf @ r = buf @ concat (map (\<lambda>o'. le_bytes 4 (of_nat o' :: 32 word)) (butlast (item_offsets off es))) @ r"
proof (induction es arbitrary: off buf)
  case (Cons e es)
  have "item_offsets (off + length e) es \<noteq> []" by (cases es) simp_all
  then show ?case using Cons.IH [of "off + length e" "put32 buf (of_nat off)"] by (simp add: put32_def)
qed simp

lemma string_array_read:
  fixes items :: "string list"
  defines "enc \<equiv> map utf8ToUtf16le items"
  assumes small: "4 + 4 * length items + length (concat enc) < 2 ^ 32"
  shows "read_string_array (string_array items) = enc"
proof -
  let ?n = "length items" and ?off = "4 + 4 * length items"
  let ?os = "item_offsets ?off enc" and ?f = "\<lambda>o'. le_bytes 4 (of_nat o' :: 32 word)"
  let ?b = "string_array items"
  have b: "?b = ?f ?n @ concat (map ?f (butlast ?os)) @ concat enc"
    using array_offsets_eq [of ?off enc "put32 [] (of_nat ?n)" "concat enc"]
    by (simp add: string_array_def Let_def enc_def put32_def)
  have lo: "length (butlast ?os) = ?n" by (simp add: enc_def)
  have hdr: "length (?f ?n @ concat (map ?f (butlast ?os))) = ?off"
    using length_concat_const [of "butlast ?os" ?f 4] lo by simp
  have len: "length ?b = ?off + length (concat enc)" unfolding b using hdr by simp
  have n: "unat (peek32 ?b) = ?n" using small by (simp add: b unat_small)
  have o_nth: "?os ! k = items_end ?off (take k enc)" if "k \<le> ?n" for k
    using that by (simp add: nth_item_offsets enc_def)
  have o_le: "?os ! k \<le> ?off + length (concat enc)" if "k \<le> ?n" for k
    using o_nth [OF that] items_end_take [of ?off k enc] by (simp add: items_end_def)
  have offs: "unat (peek32 (drop (4 + 4 * i) ?b)) = ?os ! i" if i: "i < ?n" for i
  proof -
    have "drop (4 + 4 * i) ?b = drop (4 * i) (concat (map ?f (butlast ?os))) @ concat enc"
      using i lo length_concat_const [of "butlast ?os" ?f 4] by (simp add: b add.commute)
    also have "drop (4 * i) (concat (map ?f (butlast ?os))) = concat (map ?f (drop i (butlast ?os)))"
      by (rule drop_concat_const) simp
    also have "drop i (butlast ?os) = ?os ! i # drop (Suc i) (butlast ?os)"
      using i lo by (metis Cons_nth_drop_Suc nth_butlast)
    finally have "peek32 (drop (4 + 4 * i) ?b) = of_nat (?os ! i)" by simp
    then show ?thesis using o_le [of i] i small by (simp add: unat_small)
  qed
  define offs where "offs = map (\<lambda>i. unat (peek32 (drop (4 + 4 * i) ?b))) [0..<?n]"
  have offs_nth: "offs ! i = ?os ! i" "length offs = ?n" if "i < ?n" for i using offs that by (simp_all add: offs_def)
  have len_offs: "length offs = ?n" by (simp add: offs_def)
  have ends: "(drop 1 offs @ [length ?b]) ! i = ?os ! Suc i" if "i < ?n" for i
  proof (cases "Suc i < ?n")
    case True
    then have "i < length (drop 1 offs)" by (simp add: len_offs)
    then show ?thesis using offs_nth [of "Suc i"] True by (simp add: nth_append)
  next
    case False
    then have "Suc i = ?n" using that by simp
    moreover from this have "i = length (drop 1 offs)" by (simp add: len_offs)
    then have "(drop 1 offs @ [length ?b]) ! i = length ?b" by (metis nth_append_length)
    ultimately show ?thesis using o_nth [of ?n] len by (simp add: items_end_def enc_def)
  qed
  have "read_string_array ?b = map (\<lambda>(a, e). take (e - a) (drop a ?b)) (zip offs (drop 1 offs @ [length ?b]))"
    by (simp add: read_string_array_def n offs_def Let_def)
  also have "\<dots> = enc"
  proof (rule nth_equalityI)
    show "length (map (\<lambda>(a, e). take (e - a) (drop a ?b)) (zip offs (drop 1 offs @ [length ?b]))) = length enc"
      by (cases "?n") (simp_all add: len_offs enc_def)
    fix i assume "i < length (map (\<lambda>(a, e). take (e - a) (drop a ?b)) (zip offs (drop 1 offs @ [length ?b])))"
    then have i: "i < ?n" by (simp add: len_offs)
    then have ie: "i < length enc" by (simp add: enc_def)
    have step: "take (Suc i) enc = take i enc @ [enc ! i]" using ie by (rule take_Suc_conv_app_nth)
    have "drop (?os ! i) ?b = drop (length (concat (take i enc))) (concat enc)"
      using hdr o_nth [of i] i unfolding b by (simp add: items_end_def)
    also have "\<dots> = concat (drop i enc)"
      by (metis append_eq_conv_conj append_take_drop_id concat_append)
    also have "\<dots> = enc ! i @ concat (drop (Suc i) enc)" using ie by (simp add: Cons_nth_drop_Suc [symmetric])
    finally have "take (?os ! Suc i - ?os ! i) (drop (?os ! i) ?b) = enc ! i"
      using o_nth [of i] o_nth [of "Suc i"] i by (simp add: items_end_def step)
    then show "map (\<lambda>(a, e). take (e - a) (drop a ?b)) (zip offs (drop 1 offs @ [length ?b])) ! i = enc ! i"
      using i offs_nth(1) [OF i] ends [OF i] len_offs by simp
  qed
  finally show ?thesis .
qed

text \<open>
  C19: A property context reads back. From the serialized heap and the node's subnodes a reader
  finds, under every property id, exactly the value the context holds for it, inline, in the heap
  or in a subnode, and nothing under any other id; subnodes written before keep their content.
\<close>

theorem pc_roundtrip:
  assumes "subs_ok (length vs) s" and "pc_ok vs" and "pc_serialize vs s = Some (Inr stream, s')"
  shows "heap_sig stream = Some (kHnSignature, kHnSigPC) \<and>
    pc_read (heap_read stream) (sub_look s') (heap_root stream) i = Option.bind (pc_look vs i) (value_read (sub_look s')) \<and>
    (\<forall>n x. sub_look s n = Some x \<longrightarrow> sub_look s' n = Some x)"
proof -
  have "subs_ok (0 + length vs) s" using assms(1) by simp
  from pc_serialize_law [OF this assms(2,3), of i] show ?thesis using sub_look_ext by auto
qed

lemma place_value_room:
  assumes "blocks_left (Suc k) (lt_heap t)" "length (pv_bytes v) \<le> maxAllocSize"
  shows "\<exists>h t'. place_value v t = Some (Inr h, t') \<and> blocks_left k (lt_heap t') \<and> lt_subs t' = lt_subs t"
proof (cases "pv_kind v = KBytes")
  case True
  obtain h hp where "alloc (pv_bytes v) (lt_heap t) = Some (Inr h, hp)" "blocks_left k hp"
    using hn_bth.room_put [OF assms] by blast
  then have "place_value v t = Some (Inr h, t\<lparr>lt_heap := hp\<rparr>)" "blocks_left k (lt_heap (t\<lparr>lt_heap := hp\<rparr>))"
    using True assms(2) by (simp_all add: place_value_def place_bytes_def on_heap_run)
  then show ?thesis by fastforce
next
  case False
  then have "place_value v t = Some (Inr (pv_hnid v), t)" by (cases "pv_kind v") (simp_all add: place_value_def ret_run)
  then show ?thesis using hn_bth.room_mono [OF assms(1), of k] by auto
qed

lemma pc_serialize_room:
  assumes "pc_ok vs" and "length vs \<le> 20000" and "\<forall>v \<in> set vs. length (pv_bytes v) \<le> maxAllocSize"
  shows "\<exists>stream. pc_serialize vs s = Some (Inr stream, s)"
proof -
  let ?t0 = "\<lparr>lt_heap = HeapNode_new kHnSigPC, lt_subs = s\<rparr>"
  let ?P = "\<lambda>k (t :: ltp). blocks_left (k + 2 * length vs + 1) (lt_heap t) \<and> lt_subs t = s"
  let ?f = "\<lambda>v. bindM (place_value v) (\<lambda>h. ret (pc_record v h))"
  have "?P (0 + length vs) ?t0" using assms(2) HeapNode_new_ok by (simp add: blocks_left_def HeapNode_new_def)
  then have "\<exists>rs t. mapM ?f vs ?t0 = Some (Inr rs, t) \<and> ?P 0 t"
  proof (rule mapM_budget [rotated])
    fix k v t
    assume v: "v \<in> set vs" and P: "?P (Suc k) t"
    obtain h t' where "place_value v t = Some (Inr h, t')" "blocks_left (k + 2 * length vs + 1) (lt_heap t')" "lt_subs t' = s"
      using place_value_room [of "k + 2 * length vs + 1" t v] P assms(3) v by auto
    then show "\<exists>y t'. ?f v t = Some (Inr y, t') \<and> ?P k t'" by (auto simp: prog_simps)
  qed
  then obtain rs t where 1: "mapM ?f vs ?t0 = Some (Inr rs, t)" "blocks_left (0 + 2 * length vs + 1) (lt_heap t)" "lt_subs t = s"
    by auto
  have len: "length rs = length vs" by (rule mapM_length [OF 1(1)])
  have "bth_key r = le_bytes 2 (tagId (pv_tag v)) \<and> length (bth_value r) = 6" if "?f v t = Some (Inr r, t')" for v r t t'
    using that by (auto simp: bindM_Inr_iff ret_run pc_record_def put16_def put32_def)
  then have "list_all2 (\<lambda>v r. bth_key r = le_bytes 2 (tagId (pv_tag v)) \<and> length (bth_value r) = 6) vs rs"
    using mapM_relates [where I = "\<lambda>_. True" and G = "\<lambda>_ _. True" and f = ?f and xs = vs and s = ?t0 and ys = rs and s' = t
        and R = "\<lambda>_ v r. bth_key r = le_bytes 2 (tagId (pv_tag v)) \<and> length (bth_value r) = 6"] 1(1) by blast
  then have fit: "records_fit 2 6 rs" by (auto simp: records_fit_def list_all2_conv_all_nth in_set_conv_nth)
  have "length rs \<le> 675 ^ 8" using len assms(2) by simp
  from hn_bth.buildBthInto_room [of 0 rs "lt_heap t", OF _ fit this] 1(2) len
  obtain root hp where "buildBth 2 6 rs (lt_heap t) = Some (Inr root, hp)" by (auto simp: buildBth_def)
  then have "pc_build vs ?t0 = Some (Inr root, t\<lparr>lt_heap := hp\<rparr>)"
    using 1(1) by (simp add: pc_build_def bindM_run on_heap_run)
  then show ?thesis using 1(3) by (simp add: pc_serialize_def with_heap_def)
qed

text \<open>
  Serializing a context whose values all fit the heap always succeeds, for up to twenty
  thousand properties, and neither writes a block nor takes a subnode.
\<close>

theorem pc_serialize_succeeds:
  assumes "pc_ok vs" and "length vs \<le> 20000" and "\<forall>v \<in> set vs. length (pv_bytes v) \<le> maxAllocSize"
  shows "\<exists>stream. pc_serialize vs s = Some (Inr stream, s)"
  by (rule pc_serialize_room [OF assms])

text \<open>
  A multi-valued string (the categories of a message) reads back item by item: the count and
  the offsets lead to the UTF-16 of each string, up to the four gigabytes an offset reaches.
\<close>

theorem string_array_roundtrip:
  assumes "4 + 4 * length items + length (concat (map utf8ToUtf16le items)) < 2 ^ 32"
  shows "read_string_array (string_array items) = map utf8ToUtf16le items"
  by (rule string_array_read [OF assms])

lemma string_array_roundtrip_witness:
  "read_string_array (string_array [''red'', [], ''x'']) = map utf8ToUtf16le [''red'', [], ''x'']"
  by (rule string_array_roundtrip)
     (use length_utf8ToUtf16le [of "''red''"] length_utf8ToUtf16le [of "[]"] length_utf8ToUtf16le [of "''x''"] in simp)

text \<open>A message's subject, a flag and a size, the subject set twice.\<close>

definition sample_pc :: pc where
  "sample_pc = setString PR_SUBJECT ''Hello'' (setBool PR_HASATTACH True (setInt32 PR_MESSAGE_SIZE 7 (setString PR_SUBJECT ''Hi'' [])))"

lemma sample_pc_eq: "sample_pc =
    [bytes_value PR_SUBJECT [72, 0, 101, 0, 108, 0, 108, 0, 111, 0], inline_value PR_MESSAGE_SIZE 7, inline_value PR_HASATTACH 1]"
  by code_simp

lemma sample_pc_ok: "pc_ok sample_pc" "length sample_pc \<le> 20000" "\<forall>v \<in> set sample_pc. length (pv_bytes v) \<le> maxAllocSize"
  by (simp_all add: sample_pc_eq pc_ok_def value_ok_def bytes_value_def inline_value_def propIsInline_def fixedPropSize_def)

lemma pc_serialize_succeeds_witness: "\<exists>stream. pc_serialize sample_pc s = Some (Inr stream, s)"
  by (rule pc_serialize_succeeds [OF sample_pc_ok])

lemma pc_roundtrip_witness:
  "\<exists>st stream s'. NdbWriter_new ''mail.pst'' True (\<lambda>_ _. True) = Inr st \<and>
    pc_serialize sample_pc (SubnodeAllocator_new st) = Some (Inr stream, s') \<and>
    pc_read (heap_read stream) (sub_look s') (heap_root stream) 0x37 = Some (kPtUnicode, Inr [72, 0, 101, 0, 108, 0, 108, 0, 111, 0]) \<and>
    pc_read (heap_read stream) (sub_look s') (heap_root stream) 0xE1B = Some (kPtBoolean, Inl 1) \<and>
    pc_read (heap_read stream) (sub_look s') (heap_root stream) 0x1000 = None"
proof -
  obtain st where st: "NdbWriter_new ''mail.pst'' True (\<lambda>_ _. True) = Inr st"
    using fresh_exists by blast
  have ok: "subs_ok (length sample_pc) (SubnodeAllocator_new st)"
    using sample_pc_ok(2) by (intro subs_ok_new store_ok_new [OF st]) simp
  have "\<exists>stream. pc_serialize sample_pc (SubnodeAllocator_new st) = Some (Inr stream, SubnodeAllocator_new st)"
    by (intro pc_serialize_room sample_pc_ok)
  then obtain stream where run: "pc_serialize sample_pc (SubnodeAllocator_new st) = Some (Inr stream, SubnodeAllocator_new st)"
    by blast
  note rt = pc_roundtrip [OF ok sample_pc_ok(1) run]
  show ?thesis
    using st run rt [of "0x37"] rt [of "0xE1B"] rt [of "0x1000"]
    by (intro exI [of _ st] exI [of _ stream] exI [of _ "SubnodeAllocator_new st"])
       (simp add: sample_pc_eq pc_look_def value_read_def bytes_value_def inline_value_def)
qed

end
