(* ===== verification/Table_Layout.thy ===== *)
theory Table_Layout
  imports Ltp_Props
begin

section \<open>The layout of a table's rows (src/pst/ltp.cpp, src/pst/streaming_table.cpp)\<close>

text \<open>
  A table context stores its rows as fixed-width records described by TCINFO. Both writers, the
  in-memory \<open>TableContext\<close> and the streaming \<open>TableContextWriter\<close>, compute the same layout: two
  fixed columns, then the 8-, 4-, 2- and 1-byte columns, then a bitmap with a bit for each column
  that says whether the row has the cell. This theory holds that layout, the operations on one row,
  the TCINFO image and a reader of the whole table; the writers are in \<open>Ltp_Table\<close> and
  \<open>Streaming_Table\<close>.
\<close>

subsection \<open>Columns\<close>

record column =
  col_tag :: prop_tag
  col_ib :: "16 word"
  col_cb :: byte
  col_ibit :: byte

record row_layout =
  lay_columns :: "column list"
  lay_rgib :: "16 word list"
  lay_size :: "16 word"

text \<open>Variable-width values are addressed by a four-byte HNID.\<close>

definition column_width :: "prop_tag \<Rightarrow> nat" where
  "column_width tag = (if fixedPropSize (tagType tag) = 0 then 4 else fixedPropSize (tagType tag))"

definition make_column :: "nat \<Rightarrow> prop_tag \<Rightarrow> column" where
  "make_column i tag = \<lparr>col_tag = tag, col_ib = 0, col_cb = of_nat (column_width tag), col_ibit = of_nat i\<rparr>"

text \<open>The loop that places the columns of one width, in order.\<close>

primrec place_width :: "byte \<Rightarrow> 16 word \<Rightarrow> column list \<Rightarrow> column list \<times> 16 word" where
  "place_width w off [] = ([], off)"
| "place_width w off (c # cs) =
     (if col_cb c = w then (case place_width w (off + ucast w) cs of (cs', off') \<Rightarrow> (c\<lparr>col_ib := off\<rparr> # cs', off'))
      else (case place_width w off cs of (cs', off') \<Rightarrow> (c # cs', off')))"

definition layout :: "prop_tag list \<Rightarrow> row_layout" where
  "layout tags =
     (let cols = map (\<lambda>(i, tag). make_column i tag) (enumerate 0 tags);
          (r8, o8) = place_width 8 8 (drop 2 cols);
          (r4, o4) = place_width 4 o8 r8;
          (r2, o2) = place_width 2 o4 r4;
          (r1, o1) = place_width 1 o2 r2;
          bm = o1 + of_nat ((length cols + 7) div 8)
      in \<lparr>lay_columns = [(cols ! 0)\<lparr>col_ib := 0\<rparr>, (cols ! 1)\<lparr>col_ib := 4\<rparr>] @ r1,
          lay_rgib = [o4, o2, o1, bm], lay_size = bm\<rparr>)"

definition ceb_off :: "row_layout \<Rightarrow> nat" where
  "ceb_off l = unat (lay_rgib l ! 2)"

definition row_size :: "row_layout \<Rightarrow> nat" where
  "row_size l = unat (lay_size l)"

subsection \<open>Rows\<close>

text \<open>\<open>buf[ceb_off + ibit / 8] |= 0x80 >> (ibit % 8)\<close>.\<close>

definition markPresent :: "nat \<Rightarrow> byte \<Rightarrow> bytes \<Rightarrow> bytes" where
  "markPresent ceb ibit row =
     (let k = ceb + unat ibit div 8 in row[k := row ! k OR drop_bit (unat ibit mod 8) 0x80])"

definition set_cell :: "nat \<Rightarrow> column \<Rightarrow> bytes \<Rightarrow> bytes \<Rightarrow> bytes" where
  "set_cell ceb c b row = markPresent ceb (col_ibit c) (memcpy (unat (col_ib c)) b row)"

text \<open>A reader's view of a cell: absent, or the bytes of its field.\<close>

definition cell_present :: "nat \<Rightarrow> byte \<Rightarrow> bytes \<Rightarrow> bool" where
  "cell_present ceb ibit row \<longleftrightarrow> row ! (ceb + unat ibit div 8) AND drop_bit (unat ibit mod 8) 0x80 \<noteq> 0"

definition read_cell :: "nat \<Rightarrow> column \<Rightarrow> bytes \<Rightarrow> bytes option" where
  "read_cell ceb c row =
     (if cell_present ceb (col_ibit c) row then Some (take (unat (col_cb c)) (drop (unat (col_ib c)) row)) else None)"

subsection \<open>TCINFO\<close>

definition column_desc :: "column \<Rightarrow> bytes" where
  "column_desc c = put8 (put8 (put16 (put32 [] (col_tag c)) (col_ib c)) (col_cb c)) (col_ibit c)"

definition tcinfo :: "row_layout \<Rightarrow> hid \<Rightarrow> hnid \<Rightarrow> bytes" where
  "tcinfo l hid_row_index hnid_rows =
     fold (\<lambda>c info. info @ column_desc c) (sort_key col_tag (lay_columns l))
       (put32 (put32 (put32
          (fold (\<lambda>v info. put16 info v) (lay_rgib l)
             (put8 (put8 [] kHnSigTC) (of_nat (length (lay_columns l)))))
          hid_row_index) hnid_rows) 0)"

subsection \<open>The layout is sound\<close>

abbreviation width :: "column \<Rightarrow> nat" where "width c \<equiv> unat (col_cb c)"
abbreviation field :: "column \<Rightarrow> nat" where "field c \<equiv> unat (col_ib c)"

lemma width_cases: "col_cb (make_column i tag) \<in> {1, 2, 4, 8}"
  using fixedPropSize_cases [of "tagType tag"] by (auto simp: make_column_def column_width_def)

lemma column_width_cases: "column_width tag \<in> {1, 2, 4, 8}"
  using fixedPropSize_cases [of "tagType tag"] by (auto simp: column_width_def)

text \<open>Two columns do not overlap.\<close>

definition apart :: "column \<Rightarrow> column \<Rightarrow> bool" where
  "apart c d \<longleftrightarrow> field c + width c \<le> field d \<or> field d + width d \<le> field c"

abbreviation count_width :: "byte \<Rightarrow> column list \<Rightarrow> nat" where
  "count_width w cs \<equiv> length (filter (\<lambda>c. col_cb c = w) cs)"

text \<open>What placing one width does: its columns get disjoint aligned fields in a window, the others stay.\<close>

definition placed_width :: "byte \<Rightarrow> nat \<Rightarrow> nat \<Rightarrow> column list \<Rightarrow> column list \<Rightarrow> bool" where
  "placed_width w lo hi cs cs' \<longleftrightarrow> hi = lo + unat w * count_width w cs \<and> length cs' = length cs \<and>
     (\<forall>i < length cs. col_tag (cs' ! i) = col_tag (cs ! i) \<and> col_cb (cs' ! i) = col_cb (cs ! i) \<and>
        col_ibit (cs' ! i) = col_ibit (cs ! i) \<and>
        (if col_cb (cs ! i) = w then lo \<le> field (cs' ! i) \<and> field (cs' ! i) + unat w \<le> hi \<and> unat w dvd field (cs' ! i) - lo
         else cs' ! i = cs ! i)) \<and>
     (\<forall>i j. i < j \<longrightarrow> j < length cs \<longrightarrow> col_cb (cs ! i) = w \<longrightarrow> col_cb (cs ! j) = w \<longrightarrow>
        field (cs' ! i) + unat w \<le> field (cs' ! j))"

lemma placed_width_skip:
  assumes "placed_width w lo hi cs ds" "col_cb c \<noteq> w"
  shows "placed_width w lo hi (c # cs) (c # ds)"
  using assms unfolding placed_width_def by (auto simp: nth_Cons less_Suc_eq_0_disj split: nat.splits)

lemma placed_width_take:
  assumes "placed_width w (lo + unat w) hi cs ds" "col_cb c = w" "field c' = lo"
    and c': "col_tag c' = col_tag c" "col_cb c' = col_cb c" "col_ibit c' = col_ibit c"
  shows "placed_width w lo hi (c # cs) (c' # ds)"
proof -
  have dvd: "unat w dvd x - lo" if "lo + unat w \<le> x" "unat w dvd x - (lo + unat w)" for x
  proof -
    have "x - lo = (x - (lo + unat w)) + unat w" using that by simp
    then show ?thesis using that(2) by simp
  qed
  have hi: "hi = lo + unat w + unat w * count_width w cs" using assms(1) by (simp add: placed_width_def)
  show ?thesis
    using assms dvd hi unfolding placed_width_def
    by (auto simp: nth_Cons less_Suc_eq_0_disj split: nat.splits)
qed

lemma place_width_law:
  assumes "unat off + unat w * count_width w cs < 2 ^ 16" "place_width w off cs = (cs', off')"
  shows "placed_width w (unat off) (unat off') cs cs'"
  using assms
proof (induction cs arbitrary: off cs' off')
  case Nil
  then show ?case by (simp add: placed_width_def)
next
  case (Cons c cs)
  show ?case
  proof (cases "col_cb c = w")
    case True
    obtain ds o' where ds: "place_width w (off + ucast w) cs = (ds, o')" "cs' = c\<lparr>col_ib := off\<rparr> # ds" "off' = o'"
      using Cons.prems(2) True by (auto split: prod.splits)
    have uw: "unat (ucast w :: 16 word) = unat w" using unsigned_less [of w, where ?'a = nat] by (simp add: nat_bits)
    have "unat off + unat w + unat w * count_width w cs < 2 ^ 16" using Cons.prems(1) True by simp
    then have step: "unat (off + ucast w) = unat off + unat w" by (simp add: unat_word_ariths uw)
    have "placed_width w (unat off + unat w) (unat o') cs ds"
      using Cons.IH [OF _ ds(1)] Cons.prems(1) True step by simp
    then show ?thesis unfolding ds(2,3) by (rule placed_width_take [OF _ True]) simp_all
  next
    case False
    obtain ds o' where ds: "place_width w off cs = (ds, o')" "cs' = c # ds" "off' = o'"
      using Cons.prems(2) False by (auto split: prod.splits)
    show ?thesis using Cons.IH [OF _ ds(1)] Cons.prems(1) False unfolding ds(2,3) by (intro placed_width_skip) simp_all
  qed
qed

text \<open>A layout for given tags: every column described, fields within the row, aligned and disjoint.\<close>

definition layout_ok :: "prop_tag list \<Rightarrow> row_layout \<Rightarrow> bool" where
  "layout_ok tags l \<longleftrightarrow> length (lay_columns l) = length tags \<and>
     (\<forall>i < length tags. col_tag (lay_columns l ! i) = tags ! i \<and> col_cb (lay_columns l ! i) = of_nat (column_width (tags ! i)) \<and>
        col_ibit (lay_columns l ! i) = of_nat i \<and>
        field (lay_columns l ! i) + width (lay_columns l ! i) \<le> ceb_off l \<and> width (lay_columns l ! i) dvd field (lay_columns l ! i)) \<and>
     (\<forall>i j. i < j \<longrightarrow> j < length tags \<longrightarrow> apart (lay_columns l ! i) (lay_columns l ! j)) \<and>
     row_size l = ceb_off l + (length tags + 7) div 8"

lemma layout_okD:
  assumes "layout_ok tags l"
  shows "length (lay_columns l) = length tags" "row_size l = ceb_off l + (length tags + 7) div 8"
    and "i < length tags \<Longrightarrow> field (lay_columns l ! i) + width (lay_columns l ! i) \<le> ceb_off l"
    and "i < length tags \<Longrightarrow> col_ibit (lay_columns l ! i) = of_nat i"
    and "i < length tags \<Longrightarrow> col_tag (lay_columns l ! i) = tags ! i"
    and "i < length tags \<Longrightarrow> col_cb (lay_columns l ! i) = of_nat (column_width (tags ! i))"
    and "i < j \<Longrightarrow> j < length tags \<Longrightarrow> apart (lay_columns l ! i) (lay_columns l ! j)"
  using assms unfolding layout_ok_def by blast+

lemma placed_cbs: "placed_width w lo hi cs cs' \<Longrightarrow> map col_cb cs' = map col_cb cs"
  by (auto simp: placed_width_def intro: nth_equalityI)

lemma count_width_cong: "map col_cb cs' = map col_cb cs \<Longrightarrow> count_width w cs' = count_width w cs"
proof -
  have "count_width w cs = length (filter ((=) w) (map col_cb cs))" for cs
    by (induction cs) auto
  then show "map col_cb cs' = map col_cb cs \<Longrightarrow> ?thesis" by metis
qed

lemma count_widths:
  "8 * count_width 8 cs + 4 * count_width 4 cs + 2 * count_width 2 cs + count_width 1 cs \<le> 8 * length cs"
proof (induction cs)
  case (Cons c cs)
  show ?case using Cons by (cases "col_cb c = 8"; cases "col_cb c = 4"; cases "col_cb c = 2"; cases "col_cb c = 1") auto
qed simp

text \<open>The four passes of the layout, over columns whose widths are 8, 4, 2 or 1.\<close>

lemma four_passes:
  assumes n: "length cs \<le> 253" and cb: "\<forall>c \<in> set cs. col_cb c \<in> {1, 2, 4, 8}"
    and 8: "place_width 8 8 cs = (r8, o8)" and 4: "place_width 4 o8 r8 = (r4, o4)"
    and 2: "place_width 2 o4 r4 = (r2, o2)" and 1: "place_width 1 o2 r2 = (r1, o1)"
  shows "placed_width 8 8 (unat o8) cs r8" "placed_width 4 (unat o8) (unat o4) r8 r4"
    "placed_width 2 (unat o4) (unat o2) r4 r2" "placed_width 1 (unat o2) (unat o1) r2 r1"
    "unat o1 \<le> 8 + 8 * length cs" "8 \<le> unat o8 \<and> 8 dvd unat o8 \<and> 4 dvd unat o4 \<and> 2 dvd unat o2"
    "unat o8 \<le> unat o4 \<and> unat o4 \<le> unat o2 \<and> unat o2 \<le> unat o1"
proof -
  note le = count_widths [of cs]
  show p8: "placed_width 8 8 (unat o8) cs r8"
    using place_width_law [of 8 8 cs r8 o8] 8 le n by simp
  note c8 = count_width_cong [OF placed_cbs [OF p8]]
  have o8: "unat o8 = 8 + 8 * count_width 8 cs" using p8 by (simp add: placed_width_def)
  show p4: "placed_width 4 (unat o8) (unat o4) r8 r4"
    by (rule place_width_law [OF _ 4]) (use o8 c8 le n in simp)
  note c4 = count_width_cong [OF placed_cbs [OF p4]]
  have o4: "unat o4 = unat o8 + 4 * count_width 4 cs" using p4 c8 by (simp add: placed_width_def)
  show p2: "placed_width 2 (unat o4) (unat o2) r4 r2"
    by (rule place_width_law [OF _ 2]) (use o4 o8 c4 c8 le n in simp)
  note c2 = count_width_cong [OF placed_cbs [OF p2]]
  have o2: "unat o2 = unat o4 + 2 * count_width 2 cs" using p2 c8 c4 by (simp add: placed_width_def)
  show p1: "placed_width 1 (unat o2) (unat o1) r2 r1"
    by (rule place_width_law [OF _ 1]) (use o2 o4 o8 c2 c4 c8 le n in simp)
  have o1: "unat o1 = unat o2 + count_width 1 cs" using p1 c8 c4 c2 by (simp add: placed_width_def)
  show "unat o1 \<le> 8 + 8 * length cs" using o1 o2 o4 o8 le by simp
  show "8 \<le> unat o8 \<and> 8 dvd unat o8 \<and> 4 dvd unat o4 \<and> 2 dvd unat o2"
    using o8 o4 o2 by (simp add: dvd_add_right_iff)
  show "unat o8 \<le> unat o4 \<and> unat o4 \<le> unat o2 \<and> unat o2 \<le> unat o1"
    using o4 o2 o1 by simp
qed

text \<open>Where one column ends up in a pass.\<close>

definition column_in :: "byte \<Rightarrow> nat \<Rightarrow> nat \<Rightarrow> column \<Rightarrow> column \<Rightarrow> bool" where
  "column_in w lo hi c c' \<longleftrightarrow> col_tag c' = col_tag c \<and> col_cb c' = col_cb c \<and> col_ibit c' = col_ibit c \<and>
     (if col_cb c = w then lo \<le> field c' \<and> field c' + unat w \<le> hi \<and> unat w dvd field c' - lo else c' = c)"

lemma placed_widthD:
  assumes "placed_width w lo hi cs cs'"
  shows "length cs' = length cs" "i < length cs \<Longrightarrow> column_in w lo hi (cs ! i) (cs' ! i)"
    "i < j \<Longrightarrow> j < length cs \<Longrightarrow> col_cb (cs ! i) = w \<Longrightarrow> col_cb (cs ! j) = w \<Longrightarrow>
      field (cs' ! i) + unat w \<le> field (cs' ! j)"
  using assms unfolding placed_width_def column_in_def by blast+

text \<open>The window of each width after the passes.\<close>

definition window :: "nat \<Rightarrow> nat \<Rightarrow> nat \<Rightarrow> nat \<Rightarrow> byte \<Rightarrow> nat \<times> nat" where
  "window h8 h4 h2 h1 w = (if w = 8 then (8, h8) else if w = 4 then (h8, h4) else if w = 2 then (h4, h2) else (h2, h1))"

lemma column_in_four:
  assumes c8: "column_in 8 8 h8 c d8" and c4: "column_in 4 h8 h4 d8 d4" and c2: "column_in 2 h4 h2 d4 d2" and c1: "column_in 1 h2 h1 d2 d1"
    and al: "8 dvd h8" "4 dvd h4" "2 dvd h2" and cb: "col_cb c \<in> {1, 2, 4, 8}"
  shows "col_tag d1 = col_tag c \<and> col_cb d1 = col_cb c \<and> col_ibit d1 = col_ibit c"
    "fst (window h8 h4 h2 h1 (col_cb c)) \<le> field d1" "field d1 + width c \<le> snd (window h8 h4 h2 h1 (col_cb c))"
    "width c dvd field d1"
    "col_cb c = 8 \<Longrightarrow> d1 = d8" "col_cb c = 4 \<Longrightarrow> d1 = d4" "col_cb c = 2 \<Longrightarrow> d1 = d2"
proof -
  note defs = c8 [unfolded column_in_def] c4 [unfolded column_in_def] c2 [unfolded column_in_def] c1 [unfolded column_in_def]
  have dvd: "k dvd x" if "k dvd x - lo" "k dvd lo" "lo \<le> x" for k x lo :: nat
    using that by (rule dvd_diffD)
  have h4: "4 dvd h8" using dvd_trans [of 4 8 h8] al(1) by simp
  consider "col_cb c = 8" | "col_cb c = 4" | "col_cb c = 2" | "col_cb c = 1" using cb by blast
  then have "(col_tag d1 = col_tag c \<and> col_cb d1 = col_cb c \<and> col_ibit d1 = col_ibit c) \<and>
    fst (window h8 h4 h2 h1 (col_cb c)) \<le> field d1 \<and> field d1 + width c \<le> snd (window h8 h4 h2 h1 (col_cb c)) \<and>
    width c dvd field d1 \<and> (col_cb c = 8 \<longrightarrow> d1 = d8) \<and> (col_cb c = 4 \<longrightarrow> d1 = d4) \<and> (col_cb c = 2 \<longrightarrow> d1 = d2)"
  proof cases
    case 1
    then show ?thesis using defs dvd [of 8 "field d8" 8] by (simp add: window_def)
  next
    case 2
    then show ?thesis using defs dvd [of 4 "field d4" h8] h4 by (simp add: window_def)
  next
    case 3
    then show ?thesis using defs dvd [of 2 "field d2" h4] al dvd_trans [of 2 4 h4] by (auto simp: window_def)
  next
    case 4
    then show ?thesis using defs by (simp add: window_def)
  qed
  then show "col_tag d1 = col_tag c \<and> col_cb d1 = col_cb c \<and> col_ibit d1 = col_ibit c"
    "fst (window h8 h4 h2 h1 (col_cb c)) \<le> field d1" "field d1 + width c \<le> snd (window h8 h4 h2 h1 (col_cb c))"
    "width c dvd field d1" "col_cb c = 8 \<Longrightarrow> d1 = d8" "col_cb c = 4 \<Longrightarrow> d1 = d4" "col_cb c = 2 \<Longrightarrow> d1 = d2"
    by blast+
qed

lemma columns_apart:
  assumes p8: "placed_width 8 8 h8 cs r8" and p4: "placed_width 4 h8 h4 r8 r4"
    and p2: "placed_width 2 h4 h2 r4 r2" and p1: "placed_width 1 h2 h1 r2 r1"
    and al: "8 dvd h8" "4 dvd h4" "2 dvd h2" and ord: "h8 \<le> h4" "h4 \<le> h2" "h2 \<le> h1"
    and cb: "\<forall>c \<in> set cs. col_cb c \<in> {1, 2, 4, 8}" and ij: "i < j" "j < length cs"
  shows "apart (r1 ! i) (r1 ! j)"
proof -
  have len: "length r8 = length cs" "length r4 = length cs" "length r2 = length cs"
    using placed_widthD(1) [OF p8] placed_widthD(1) [OF p4] placed_widthD(1) [OF p2] by simp_all
  have i: "i < length cs" using ij by simp
  have ci: "col_cb (cs ! i) \<in> {1, 2, 4, 8}" "col_cb (cs ! j) \<in> {1, 2, 4, 8}"
    using cb i ij nth_mem by blast+
  have "column_in 8 8 h8 (cs ! k) (r8 ! k)" "column_in 4 h8 h4 (r8 ! k) (r4 ! k)" "column_in 2 h4 h2 (r4 ! k) (r2 ! k)"
    "column_in 1 h2 h1 (r2 ! k) (r1 ! k)" if "k < length cs" for k
    using placed_widthD(2) [OF p8] placed_widthD(2) [OF p4] placed_widthD(2) [OF p2] placed_widthD(2) [OF p1] len that by simp_all
  note four = column_in_four [OF this al]
  note fi = four [OF i i i i ci(1)] and fj = four [OF ij(2) ij(2) ij(2) ij(2) ci(2)]
  show ?thesis
  proof (cases "col_cb (cs ! i) = col_cb (cs ! j)")
    case True
    consider "col_cb (cs ! i) = 8" | "col_cb (cs ! i) = 4" | "col_cb (cs ! i) = 2" | "col_cb (cs ! i) = 1" using ci by blast
    then have "field (r1 ! i) + width (cs ! i) \<le> field (r1 ! j)"
    proof cases
      case 1
      then show ?thesis using placed_widthD(3) [OF p8 ij] fi(5) fj(5) True by simp
    next
      case 2
      then show ?thesis using placed_widthD(3) [OF p4 ij(1)] ij(2) len fi(6) fj(6) True
          placed_widthD(2) [OF p8 i] placed_widthD(2) [OF p8 ij(2)] by (simp add: column_in_def)
    next
      case 3
      have "col_cb (r4 ! k) = col_cb (cs ! k)" if "k < length cs" for k
        using placed_widthD(2) [OF p8 that] placed_widthD(2) [OF p4, of k] that len by (simp add: column_in_def)
      then show ?thesis using 3 placed_widthD(3) [OF p2 ij(1)] ij i len fi(7) fj(7) True by simp
    next
      case 4
      have "col_cb (r2 ! k) = col_cb (cs ! k)" if "k < length cs" for k
        using placed_widthD(2) [OF p8 that] placed_widthD(2) [OF p4, of k] placed_widthD(2) [OF p2, of k] that len
        by (simp add: column_in_def)
      then show ?thesis using 4 placed_widthD(3) [OF p1 ij(1)] ij i len True by simp
    qed
    then show ?thesis using fi(1) by (simp add: apart_def)
  next
    case False
    have "snd (window h8 h4 h2 h1 (col_cb (cs ! i))) \<le> fst (window h8 h4 h2 h1 (col_cb (cs ! j))) \<or>
      snd (window h8 h4 h2 h1 (col_cb (cs ! j))) \<le> fst (window h8 h4 h2 h1 (col_cb (cs ! i)))"
      using False ci ord by (auto simp: window_def)
    then show ?thesis using fi(1,2,3) fj(1,2,3) unfolding apart_def by auto
  qed
qed

text \<open>Tags that make a layout: the two pinned columns of four bytes, and no more than a byte counts.\<close>

definition tags_ok :: "prop_tag list \<Rightarrow> bool" where
  "tags_ok tags \<longleftrightarrow> 2 \<le> length tags \<and> length tags \<le> 255 \<and> column_width (tags ! 0) = 4 \<and> column_width (tags ! 1) = 4"

lemma make_column_width [simp]: "width (make_column i tag) = column_width tag"
  using column_width_cases [of tag] by (auto simp: make_column_def)

lemma make_column_sel [simp]: "col_tag (make_column i tag) = tag" "col_cb (make_column i tag) = of_nat (column_width tag)"
    "col_ibit (make_column i tag) = of_nat i"
  by (simp_all add: make_column_def)

lemma layout_law:
  assumes ok: "tags_ok tags"
  shows "layout_ok tags (layout tags)" "8 \<le> ceb_off (layout tags) \<and> ceb_off (layout tags) \<le> 8 * length tags"
proof -
  define cols where "cols = map (\<lambda>(i, tag). make_column i tag) (enumerate 0 tags)"
  define cs where "cs = drop 2 cols"
  obtain r8 o8 where 8: "place_width 8 8 cs = (r8, o8)" by fastforce
  obtain r4 o4 where 4: "place_width 4 o8 r8 = (r4, o4)" by fastforce
  obtain r2 o2 where 2: "place_width 2 o4 r4 = (r2, o2)" by fastforce
  obtain r1 o1 where 1: "place_width 1 o2 r2 = (r1, o1)" by fastforce
  have n: "2 \<le> length tags" "length tags \<le> 255" using ok by (simp_all add: tags_ok_def)
  have len: "length cols = length tags" "length cs = length tags - 2" by (simp_all add: cols_def cs_def)
  have col: "cols ! i = make_column i (tags ! i)" if "i < length tags" for i
    using that by (simp add: cols_def nth_enumerate_eq)
  have csn: "cs ! i = make_column (2 + i) (tags ! (2 + i))" if "i < length cs" for i
    using that len col [of "2 + i"] by (simp add: cs_def)
  have cb: "\<forall>c \<in> set cs. col_cb c \<in> {1, 2, 4, 8}"
    using csn width_cases by (fastforce simp: in_set_conv_nth)
  have n253: "length cs \<le> 253" using n len by simp
  note pass = four_passes [OF n253 cb 8 4 2 1]
  let ?bm = "o1 + of_nat ((length cols + 7) div 8)"
  define cl where "cl = [(cols ! 0)\<lparr>col_ib := 0\<rparr>, (cols ! 1)\<lparr>col_ib := 4\<rparr>] @ r1"
  have lay: "layout tags = \<lparr>lay_columns = cl, lay_rgib = [o4, o2, o1, ?bm], lay_size = ?bm\<rparr>"
    using 8 4 2 1 by (simp add: layout_def Let_def cols_def [symmetric] cs_def [symmetric] cl_def)
  have ceb: "ceb_off (layout tags) = unat o1" by (simp add: lay ceb_off_def)
  have bounds: "unat o1 \<le> 8 * length tags" "8 \<le> unat o1" using pass(5,6,7) len n by auto
  then show "8 \<le> ceb_off (layout tags) \<and> ceb_off (layout tags) \<le> 8 * length tags" by (simp add: ceb)
  have "(length tags + 7) div 8 \<le> 32" using n by simp
  then have size: "row_size (layout tags) = unat o1 + (length tags + 7) div 8"
    using bounds n by (simp add: lay row_size_def len unat_word_ariths unat_of_nat)
  have rlen: "length r1 = length cs" "length r2 = length cs" "length r4 = length cs" "length r8 = length cs"
    using placed_widthD(1) [OF pass(1)] placed_widthD(1) [OF pass(2)] placed_widthD(1) [OF pass(3)] placed_widthD(1) [OF pass(4)]
    by simp_all
  have cll: "length cl = length tags" using rlen len n by (simp add: cl_def)
  have al: "8 dvd unat o8" "4 dvd unat o4" "2 dvd unat o2" using pass(6) by simp_all
  have ord: "8 \<le> unat o8" "unat o8 \<le> unat o4" "unat o4 \<le> unat o2" "unat o2 \<le> unat o1" using pass(6,7) by simp_all
  have tail: "cl ! (2 + i) = r1 ! i" for i by (simp add: cl_def)
  have ci: "col_tag (r1 ! i) = col_tag (cs ! i) \<and> col_cb (r1 ! i) = col_cb (cs ! i) \<and> col_ibit (r1 ! i) = col_ibit (cs ! i) \<and>
      8 \<le> field (r1 ! i) \<and> field (r1 ! i) + width (cs ! i) \<le> unat o1 \<and> width (cs ! i) dvd field (r1 ! i)" if i: "i < length cs" for i
  proof -
    have in4: "column_in 8 8 (unat o8) (cs ! i) (r8 ! i)" "column_in 4 (unat o8) (unat o4) (r8 ! i) (r4 ! i)"
        "column_in 2 (unat o4) (unat o2) (r4 ! i) (r2 ! i)" "column_in 1 (unat o2) (unat o1) (r2 ! i) (r1 ! i)"
      using placed_widthD(2) [OF pass(1)] placed_widthD(2) [OF pass(2)] placed_widthD(2) [OF pass(3)] placed_widthD(2) [OF pass(4)]
        rlen i by simp_all
    have w: "col_cb (cs ! i) \<in> {1, 2, 4, 8}" using cb i nth_mem by blast
    have "8 \<le> fst (window (unat o8) (unat o4) (unat o2) (unat o1) (col_cb (cs ! i)))"
      "snd (window (unat o8) (unat o4) (unat o2) (unat o1) (col_cb (cs ! i))) \<le> unat o1"
      using ord by (simp_all add: window_def)
    then show ?thesis using column_in_four [OF in4 al w] by auto
  qed
  have h01: "cols ! 0 = make_column 0 (tags ! 0)" "cols ! 1 = make_column 1 (tags ! 1)"
    using col n by fastforce+
  have c0: "cl ! 0 = (make_column 0 (tags ! 0))\<lparr>col_ib := 0\<rparr>" "cl ! 1 = (make_column 1 (tags ! 1))\<lparr>col_ib := 4\<rparr>"
    using h01 by (simp_all add: cl_def)
  have w0: "column_width (tags ! 0) = 4" "column_width (tags ! 1) = 4" using ok by (simp_all add: tags_ok_def)
  have one: "col_tag (cl ! i) = tags ! i \<and> col_cb (cl ! i) = of_nat (column_width (tags ! i)) \<and> col_ibit (cl ! i) = of_nat i \<and>
      field (cl ! i) + width (cl ! i) \<le> unat o1 \<and> width (cl ! i) dvd field (cl ! i)" if i: "i < length tags" for i
  proof -
    have "2 \<le> i \<Longrightarrow> i = 2 + (i - 2)" by simp
    then consider "i = 0" | "i = 1" | k where "i = 2 + k" by (cases "i < 2") (auto simp: less_2_cases_iff)
    then show ?thesis
    proof cases
      case 1
      then show ?thesis using c0 w0 bounds by simp
    next
      case 2
      then show ?thesis using c0 w0 bounds by simp
    next
      case 3
      then have k: "k < length cs" using i len by simp
      show ?thesis using ci [OF k] csn [OF k] by (simp add: 3 tail del: add_2_eq_Suc)
    qed
  qed
  have two: "apart (cl ! i) (cl ! j)" if ij: "i < j" "j < length tags" for i j
  proof -
    have f: "field (cl ! 0) = 0" "width (cl ! 0) = 4" "field (cl ! 1) = 4" "width (cl ! 1) = 4" using c0 w0 by simp_all
    have far: "8 \<le> field (cl ! (2 + k))" if "2 + k < length tags" for k
      using ci [of k] that len unfolding tail by simp
    have "j < 2 \<Longrightarrow> i = 0 \<and> j = 1" "2 \<le> j \<Longrightarrow> j = 2 + (j - 2)" "2 \<le> i \<Longrightarrow> i = 2 + (i - 2)" using ij by auto
    then consider "i = 0" "j = 1" | k where "i < 2" "j = 2 + k" | k l where "i = 2 + k" "j = 2 + l"
      by (cases "j < 2"; cases "i < 2") (metis not_less)+
    then show ?thesis
    proof cases
      case 1
      then show ?thesis using f by (simp add: apart_def)
    next
      case 2
      then have "i = 0 \<or> i = 1" by auto
      then show ?thesis using f far [of k] 2 ij by (auto simp: apart_def simp del: add_2_eq_Suc)
    next
      case 3
      then have "k < l" "l < length cs" using ij len by simp_all
      then show ?thesis
        using columns_apart [OF pass(1-4) al ord(2-4) cb, of k l] by (simp add: 3 tail del: add_2_eq_Suc)
    qed
  qed
  show "layout_ok tags (layout tags)"
  proof -
    have "lay_columns (layout tags) = cl" by (simp add: lay)
    then show ?thesis unfolding layout_ok_def ceb size using one two cll by blast
  qed
qed

lemma layout_bounds:
  assumes "tags_ok tags"
  shows "0 < row_size (layout tags)" "row_size (layout tags) \<le> 2072"
proof -
  have "length tags \<le> 255" using assms by (simp add: tags_ok_def)
  then show "0 < row_size (layout tags)" "row_size (layout tags) \<le> 2072"
    using layout_okD(2) [OF layout_law(1) [OF assms]] layout_law(2) [OF assms] by linarith+
qed

subsection \<open>Cells read back\<close>

text \<open>Within the existence bitmap, each column has its own bit.\<close>

definition in_row :: "prop_tag list \<Rightarrow> row_layout \<Rightarrow> bytes \<Rightarrow> bool" where
  "in_row tags l row \<longleftrightarrow> layout_ok tags l \<and> length tags \<le> 255 \<and> length row = row_size l"

lemma bitmap_bit: "bit (drop_bit m (0x80 :: byte)) n \<longleftrightarrow> m + n = 7"
proof -
  have "(0x80 :: byte) = 2 ^ 7" by simp
  then have "bit (0x80 :: byte) k \<longleftrightarrow> k = 7" for k
    by (simp only: bit_exp_iff possible_bit_word) auto
  then show ?thesis by (simp add: bit_drop_bit_eq)
qed

lemma and_single:
  assumes "m \<le> 7"
  shows "x AND drop_bit m (0x80 :: byte) \<noteq> 0 \<longleftrightarrow> bit x (7 - m)"
proof -
  have iff: "bit (x AND drop_bit m 0x80) n \<longleftrightarrow> bit x n \<and> m + n = 7" for n
    unfolding bit_and_iff bitmap_bit ..
  show ?thesis
  proof
    assume "x AND drop_bit m 0x80 \<noteq> 0"
    then obtain n where "bit (x AND drop_bit m 0x80) n" using bit_eqI [of "x AND drop_bit m 0x80" 0] by auto
    then have "bit x n" "n = 7 - m" unfolding iff by auto
    then show "bit x (7 - m)" by simp
  next
    assume "bit x (7 - m)"
    then have "bit (x AND drop_bit m 0x80) (7 - m)" unfolding iff using assms by simp
    then show "x AND drop_bit m 0x80 \<noteq> 0" by (metis bit_0_eq bot_apply bot_bool_def)
  qed
qed

lemma cell_present_bit: "cell_present ceb ibit row \<longleftrightarrow> bit (row ! (ceb + unat ibit div 8)) (7 - unat ibit mod 8)"
  unfolding cell_present_def by (rule and_single) (use mod_less_divisor [of 8 "unat ibit"] in simp)

lemma length_markPresent [simp]: "length (markPresent ceb ibit row) = length row"
  by (simp add: markPresent_def Let_def)

lemma markPresent_present:
  assumes "ceb + unat ibit div 8 < length row" "ceb + unat jbit div 8 < length row"
  shows "cell_present ceb jbit (markPresent ceb ibit row) \<longleftrightarrow> jbit = ibit \<or> cell_present ceb jbit row"
proof -
  have m: "unat ibit mod 8 \<le> 7" "unat jbit mod 8 \<le> 7"
    using mod_less_divisor [of 8 "unat ibit"] mod_less_divisor [of 8 "unat jbit"] by simp_all
  have eq: "jbit = ibit \<longleftrightarrow> unat ibit div 8 = unat jbit div 8 \<and> unat ibit mod 8 = unat jbit mod 8"
    by (metis div_mult_mod_eq word_unat_eq_iff)
  have bits: "unat ibit mod 8 + (7 - unat jbit mod 8) = 7 \<longleftrightarrow> unat ibit mod 8 = unat jbit mod 8" using m by auto
  show ?thesis
  proof (cases "unat ibit div 8 = unat jbit div 8")
    case True
    then show ?thesis
      using assms bits by (auto simp: cell_present_bit markPresent_def Let_def bit_or_iff bitmap_bit eq)
  next
    case False
    then show ?thesis by (simp add: cell_present_bit markPresent_def Let_def eq)
  qed
qed

lemma markPresent_low: "i < ceb \<Longrightarrow> markPresent ceb ibit row ! i = row ! i"
  by (simp add: markPresent_def Let_def)

lemma markPresent_field: "a + n \<le> ceb \<Longrightarrow> take n (drop a (markPresent ceb ibit row)) = take n (drop a row)"
  by (rule nth_equalityI) (auto simp: markPresent_low)

text \<open>Writing one cell: it reads back, and no other cell changes.\<close>

lemma set_cell_law:
  assumes row: "in_row tags l row" and i: "i < length tags" and len: "length b = width (lay_columns l ! i)"
  defines "row' \<equiv> set_cell (ceb_off l) (lay_columns l ! i) b row"
  shows "in_row tags l row'" "read_cell (ceb_off l) (lay_columns l ! i) row' = Some b"
    "\<And>j. j < length tags \<Longrightarrow> j \<noteq> i \<Longrightarrow> read_cell (ceb_off l) (lay_columns l ! j) row' = read_cell (ceb_off l) (lay_columns l ! j) row"
proof -
  let ?c = "lay_columns l ! i" and ?ceb = "ceb_off l"
  have ok: "layout_ok tags l" and n: "length tags \<le> 255" and lr: "length row = row_size l"
    using row by (simp_all add: in_row_def)
  have col: "field (lay_columns l ! k) + width (lay_columns l ! k) \<le> ?ceb" "unat (col_ibit (lay_columns l ! k)) = k"
      "?ceb + unat (col_ibit (lay_columns l ! k)) div 8 < row_size l" if "k < length tags" for k
  proof -
    show "field (lay_columns l ! k) + width (lay_columns l ! k) \<le> ?ceb" by (rule layout_okD(3) [OF ok that])
    show u: "unat (col_ibit (lay_columns l ! k)) = k"
      using that n unfolding layout_okD(4) [OF ok that] by (simp add: unat_of_nat)
    have "k div 8 < (length tags + 7) div 8" using that by linarith
    then show "?ceb + unat (col_ibit (lay_columns l ! k)) div 8 < row_size l" unfolding u layout_okD(2) [OF ok] by simp
  qed
  have apart: "apart (lay_columns l ! i) (lay_columns l ! j)" if "j < length tags" "j \<noteq> i" for j
  proof (cases "i < j")
    case True
    then show ?thesis by (rule layout_okD(7) [OF ok _ that(1)])
  next
    case False
    then have "j < i" using that by simp
    then show ?thesis using layout_okD(7) [OF ok _ i, of j] by (simp add: apart_def disj_commute)
  qed
  have ceb_le: "?ceb \<le> length row" using layout_okD(2) [OF ok] lr by simp
  let ?m = "memcpy (field ?c) b row"
  have lm: "length ?m = row_size l" using col(1) [OF i] len ceb_le lr by simp
  show "in_row tags l row'" using ok n lm by (simp add: row'_def set_cell_def in_row_def)
  have present: "cell_present ?ceb (col_ibit (lay_columns l ! j)) row' \<longleftrightarrow> j = i \<or> cell_present ?ceb (col_ibit (lay_columns l ! j)) row"
    if j: "j < length tags" for j
  proof -
    have "col_ibit (lay_columns l ! j) = col_ibit ?c \<longleftrightarrow> j = i" using col(2) [OF j] col(2) [OF i] by metis
    moreover have "?m ! (?ceb + k) = row ! (?ceb + k)" if "?ceb + k < row_size l" for k
      using that col(1) [OF i] len lr by (simp add: nth_memcpy)
    ultimately show ?thesis
      using markPresent_present [of ?ceb "col_ibit ?c" ?m "col_ibit (lay_columns l ! j)"] lm col(3) [OF i] col(3) [OF j]
      by (simp add: row'_def set_cell_def cell_present_def)
  qed
  have fld: "take (width (lay_columns l ! j)) (drop (field (lay_columns l ! j)) row') =
      take (width (lay_columns l ! j)) (drop (field (lay_columns l ! j)) ?m)" if "j < length tags" for j
    unfolding row'_def set_cell_def by (rule markPresent_field [OF col(1) [OF that]])
  have "take (width ?c) (drop (field ?c) ?m) = b"
    using len ceb_le col(1) [OF i] by (simp add: memcpy_def)
  then show "read_cell ?ceb ?c row' = Some b" using fld [OF i] present [OF i] by (simp add: read_cell_def)
  fix j assume j: "j < length tags" "j \<noteq> i"
  have "take (width (lay_columns l ! j)) (drop (field (lay_columns l ! j)) ?m) =
      take (width (lay_columns l ! j)) (drop (field (lay_columns l ! j)) row)"
    by (rule nth_equalityI)
       (use apart [OF j] col(1) [OF i] col(1) [OF j(1)] len ceb_le in \<open>auto simp: nth_memcpy apart_def\<close>)
  then show "read_cell ?ceb (lay_columns l ! j) row' = read_cell ?ceb (lay_columns l ! j) row"
    using fld [OF j(1)] present [OF j(1)] j by (simp add: read_cell_def)
qed

text \<open>A row of zeros has no cell.\<close>

lemma empty_row:
  assumes "layout_ok tags l" "length tags \<le> 255"
  shows "in_row tags l (replicate (row_size l) 0)"
    "i < length tags \<Longrightarrow> read_cell (ceb_off l) (lay_columns l ! i) (replicate (row_size l) 0) = None"
proof -
  show "in_row tags l (replicate (row_size l) 0)" using assms by (simp add: in_row_def)
  assume i: "i < length tags"
  then have "unat (col_ibit (lay_columns l ! i)) = i" using assms layout_okD(4) by (simp add: unat_of_nat)
  moreover have "i div 8 < (length tags + 7) div 8" using i by linarith
  ultimately show "read_cell (ceb_off l) (lay_columns l ! i) (replicate (row_size l) 0) = None"
    using layout_okD(2) [OF assms(1)] by (simp add: read_cell_def cell_present_def)
qed

text \<open>A row written cell by cell, the absent ones skipped.\<close>

definition render_row :: "row_layout \<Rightarrow> bytes option list \<Rightarrow> bytes" where
  "render_row l cells =
     fold (\<lambda>(c, f) row. case f of None \<Rightarrow> row | Some b \<Rightarrow> set_cell (ceb_off l) c b row)
       (zip (lay_columns l) cells) (replicate (row_size l) 0)"

lemma render_row_law:
  assumes ok: "layout_ok tags l" "length tags \<le> 255" and n: "length cells = length tags"
    and fit: "\<And>i b. i < length tags \<Longrightarrow> cells ! i = Some b \<Longrightarrow> length b = width (lay_columns l ! i)"
  shows "length (render_row l cells) = row_size l"
    and "i < length tags \<Longrightarrow> read_cell (ceb_off l) (lay_columns l ! i) (render_row l cells) = cells ! i"
proof -
  let ?f = "\<lambda>(c, f) row. case f of None \<Rightarrow> row | Some b \<Rightarrow> set_cell (ceb_off l) c b row"
  let ?r = "\<lambda>k. fold ?f (take k (zip (lay_columns l) cells)) (replicate (row_size l) 0)"
  have lc: "length (lay_columns l) = length tags" by (rule layout_okD(1) [OF ok(1)])
  have inv: "k \<le> length tags \<Longrightarrow> in_row tags l (?r k) \<and>
      (\<forall>i < length tags. read_cell (ceb_off l) (lay_columns l ! i) (?r k) = (if i < k then cells ! i else None))" for k
  proof (induction k)
    case 0
    then show ?case using empty_row [OF ok] by simp
  next
    case (Suc k)
    then have k: "k < length (zip (lay_columns l) cells)" "k < length tags" using lc n by simp_all
    have step: "?r (Suc k) = ?f (lay_columns l ! k, cells ! k) (?r k)"
      using k lc n by (simp add: take_Suc_conv_app_nth)
    have IH: "in_row tags l (?r k)" "\<And>i. i < length tags \<Longrightarrow> read_cell (ceb_off l) (lay_columns l ! i) (?r k) = (if i < k then cells ! i else None)"
      using Suc by simp_all
    show ?case
    proof (cases "cells ! k")
      case None
      then show ?thesis unfolding step using IH k by (auto simp: less_Suc_eq)
    next
      case (Some b)
      note law = set_cell_law [OF IH(1) k(2) fit [OF k(2) Some]]
      show ?thesis unfolding step using Some law IH(2) k by (auto simp: less_Suc_eq)
    qed
  qed
  have "render_row l cells = ?r (length tags)" using lc n by (simp add: render_row_def)
  then show "length (render_row l cells) = row_size l"
    and "i < length tags \<Longrightarrow> read_cell (ceb_off l) (lay_columns l ! i) (render_row l cells) = cells ! i"
    using inv [of "length tags"] by (simp_all add: in_row_def)
qed

subsection \<open>The row matrix\<close>

text \<open>
  A reader's way to row \<open>k\<close>: in a heap item the rows stand one after the other, in a subnode each
  8176-byte block holds as many whole rows as fit.
\<close>

definition row_at :: "bool \<Rightarrow> nat \<Rightarrow> bytes \<Rightarrow> nat \<Rightarrow> bytes" where
  "row_at packed rs rows k =
     (let per = kMaxBlockData div rs
      in take rs (drop (if packed then k * rs else kMaxBlockData * (k div per) + (k mod per) * rs) rows))"

text \<open>The padding loop: each block but the last is filled up to 8176 bytes.\<close>

function pad_rows :: "nat \<Rightarrow> bytes \<Rightarrow> bytes" where
  "pad_rows n m =
     (if n = 0 \<or> length m \<le> n then m
      else take n m @ replicate (kMaxBlockData - n) 0 @ pad_rows n (drop n m))"
  by pat_completeness auto
termination
  by (relation "measure (\<lambda>(n, m). length m)") auto

declare pad_rows.simps [simp del]

lemma length_pad_rows: "length m \<le> length (pad_rows n m)"
  by (induction n m rule: pad_rows.induct) (subst pad_rows.simps, auto)

lemma row_at_packed:
  assumes "\<forall>r \<in> set rows. length r = rs" "k < length rows"
  shows "row_at True rs (concat rows) k = rows ! k"
proof -
  have "drop (k * rs) (concat rows) = concat (drop k rows)"
    using drop_concat_const [of rows "\<lambda>r. r" rs k] assms by (simp add: mult.commute)
  also have "\<dots> = rows ! k @ concat (drop (Suc k) rows)" using assms by (simp add: Cons_nth_drop_Suc [symmetric])
  finally show ?thesis using assms by (simp add: row_at_def Let_def)
qed

lemma take_drop_front: "a + m \<le> n \<Longrightarrow> length (take n xs) = n \<Longrightarrow> take m (drop a (take n xs @ ys)) = take m (drop a xs)"
proof -
  assume "a + m \<le> n" "length (take n xs) = n"
  then show ?thesis by (intro nth_equalityI) (auto simp: nth_append)
qed

lemma row_at_padded:
  assumes rs: "0 < rs" "rs \<le> kMaxBlockData" and rows: "\<forall>r \<in> set rows. length r = rs" and k: "k < length rows"
  shows "row_at False rs (pad_rows (kMaxBlockData div rs * rs) (concat rows)) k = rows ! k"
  using rows k
proof (induction "length rows" arbitrary: rows k rule: less_induct)
  case less
  let ?per = "kMaxBlockData div rs"
  let ?n = "?per * rs"
  have per: "0 < ?per" using rs by (simp add: div_greater_zero_iff)
  have n: "0 < ?n" "?n \<le> kMaxBlockData" using per rs by simp_all
  have len: "length (concat rows) = length rows * rs"
    using length_concat_const [of rows "\<lambda>r. r" rs] less.prems(1) by (simp add: mult.commute)
  have at: "take rs (drop (k * rs) (concat rows)) = rows ! k"
    using row_at_packed [OF less.prems] by (simp add: row_at_def Let_def)
  show ?case
  proof (cases "length rows \<le> ?per")
    case True
    then have "pad_rows ?n (concat rows) = concat rows"
      using len by (subst pad_rows.simps) simp
    moreover have "k div ?per = 0" "k mod ?per = k" using True less.prems(2) by simp_all
    ultimately show ?thesis using at by (simp add: row_at_def Let_def)
  next
    case False
    have pad: "pad_rows ?n (concat rows) =
        take ?n (concat rows) @ replicate (kMaxBlockData - ?n) 0 @ pad_rows ?n (concat (drop ?per rows))"
    proof -
      have "drop ?n (concat rows) = concat (drop ?per rows)"
        using drop_concat_const [of rows "\<lambda>r. r" rs ?per] less.prems(1) by (simp add: mult.commute)
      moreover have "\<not> (?n = 0 \<or> length (concat rows) \<le> ?n)" using n len False rs by simp
      ultimately show ?thesis by (subst pad_rows.simps) simp
    qed
    have lt: "length (take ?n (concat rows)) = ?n" using len False by simp
    show ?thesis
    proof (cases "k < ?per")
      case True
      then have "k div ?per = 0" "k mod ?per = k" by simp_all
      moreover have "k * rs + rs \<le> ?n" using True mult_le_mono1 [of "Suc k" ?per rs] by simp
      then have "take rs (drop (k * rs) (pad_rows ?n (concat rows))) = take rs (drop (k * rs) (concat rows))"
        unfolding pad by (intro take_drop_front) (use lt in simp_all)
      ultimately show ?thesis using at by (simp add: row_at_def Let_def)
    next
      case kge: False
      let ?k = "k - ?per"
      have dm: "k div ?per = Suc (?k div ?per)" "k mod ?per = ?k mod ?per"
        using kge per le_div_geq [of ?per k] le_mod_geq [of ?per k] by simp_all
      have "drop (kMaxBlockData * (k div ?per) + k mod ?per * rs) (pad_rows ?n (concat rows)) =
          drop (kMaxBlockData * (?k div ?per) + ?k mod ?per * rs) (drop kMaxBlockData (pad_rows ?n (concat rows)))"
        unfolding dm by (simp add: algebra_simps)
      also have "drop kMaxBlockData (pad_rows ?n (concat rows)) = pad_rows ?n (concat (drop ?per rows))"
        using lt n(2) unfolding pad by simp
      finally have "row_at False rs (pad_rows ?n (concat rows)) k = row_at False rs (pad_rows ?n (concat (drop ?per rows))) ?k"
        by (simp add: row_at_def Let_def)
      also have "\<dots> = drop ?per rows ! ?k"
        by (rule less.hyps) (use less.prems per False kge in \<open>auto dest: in_set_dropD\<close>)
      finally show ?thesis using kge less.prems by simp
    qed
  qed
qed

subsection \<open>Properties\<close>

text \<open>
  C21: The row layout is sound for any two pinned four-byte columns followed by at most 253 others:
  each column keeps its tag and gets the width of its type, its field is aligned to that width and
  lies before the existence bitmap, no two fields overlap, and the bitmap has a bit for each column.
\<close>

theorem layout_sound:
  assumes "tags_ok tags"
  shows "map col_tag (lay_columns (layout tags)) = tags \<and>
    (\<forall>i < length tags. let c = lay_columns (layout tags) ! i in
       width c = column_width (tags ! i) \<and> width c dvd field c \<and> field c + width c \<le> ceb_off (layout tags) \<and>
       ceb_off (layout tags) + unat (col_ibit c) div 8 < row_size (layout tags) \<and> unat (col_ibit c) = i) \<and>
    (\<forall>i j. i < j \<longrightarrow> j < length tags \<longrightarrow> apart (lay_columns (layout tags) ! i) (lay_columns (layout tags) ! j))"
proof -
  let ?l = "layout tags"
  note ok = layout_law(1) [OF assms]
  have n: "length tags \<le> 255" using assms by (simp add: tags_ok_def)
  have "let c = lay_columns ?l ! i in width c = column_width (tags ! i) \<and> width c dvd field c \<and> field c + width c \<le> ceb_off ?l \<and>
      ceb_off ?l + unat (col_ibit c) div 8 < row_size ?l \<and> unat (col_ibit c) = i" if i: "i < length tags" for i
  proof -
    let ?c = "lay_columns ?l ! i"
    have ib: "unat (col_ibit ?c) = i" using i n by (simp add: layout_okD(4) [OF ok i] unat_of_nat)
    have w: "width ?c = column_width (tags ! i)"
      using layout_okD(6) [OF ok i] column_width_cases [of "tags ! i"] by auto
    have al: "width ?c dvd field ?c" using ok i unfolding layout_ok_def by blast
    have "i div 8 < (length tags + 7) div 8" using i by linarith
    then show ?thesis using ib w al layout_okD(2) [OF ok] layout_okD(3) [OF ok i] by (simp add: Let_def)
  qed
  moreover have "map col_tag (lay_columns ?l) = tags"
    using layout_okD(1) [OF ok] layout_okD(5) [OF ok] by (intro nth_equalityI) simp_all
  ultimately show ?thesis using layout_okD(7) [OF ok] by blast
qed

lemma layout_sound_witness:
  "map col_tag (lay_columns (layout [PidTagLtpRowId, PidTagLtpRowVer, PR_HASATTACH, PR_SUBJECT])) =
    [PidTagLtpRowId, PidTagLtpRowVer, PR_HASATTACH, PR_SUBJECT]"
  by (rule conjunct1 [OF layout_sound]) (simp add: tags_ok_def column_width_def fixedPropSize_def)

end
