(* ===== verification/Ltp_Table.thy ===== *)
theory Ltp_Table
  imports Table_Layout
begin

section \<open>Table contexts (src/pst/ltp.cpp, class TableContext)\<close>

text \<open>
  The in-memory table: declared columns, rows keyed by a row id, cells set one at a time, and the
  serializer that renders the rows, places them in the heap or in a subnode, and indexes them by
  row id. \<open>table_read\<close> is a reader of the result; the properties say that it finds every cell set,
  under its row and column, and nothing else.
\<close>

subsection \<open>TableContext\<close>

record tcell =
  tc_present :: bool
  tc_variable :: bool
  tc_bytes :: bytes

record trow =
  tr_id :: "32 word"
  tr_cells :: "tcell list"

record table =
  tb_columns :: "prop_tag list"
  tb_rows :: "trow list"

definition no_cell :: tcell where
  "no_cell = \<lparr>tc_present = False, tc_variable = False, tc_bytes = []\<rparr>"

definition TableContext_new :: table where
  "TableContext_new = \<lparr>tb_columns = [PidTagLtpRowId, PidTagLtpRowVer], tb_rows = []\<rparr>"

text \<open>\<open>row.cells.resize(columns_.size())\<close> grows a row by absent cells.\<close>

definition resize_cells :: "nat \<Rightarrow> trow \<Rightarrow> trow" where
  "resize_cells n r = r\<lparr>tr_cells := take n (tr_cells r) @ replicate (n - length (tr_cells r)) no_cell\<rparr>"

definition addColumn :: "prop_tag \<Rightarrow> table \<Rightarrow> table" where
  "addColumn tag t =
     (if tag \<in> set (tb_columns t) then t
      else t\<lparr>tb_columns := tb_columns t @ [tag], tb_rows := map (resize_cells (Suc (length (tb_columns t)))) (tb_rows t)\<rparr>)"

primrec index_from :: "nat \<Rightarrow> prop_tag \<Rightarrow> prop_tag list \<Rightarrow> nat option" where
  "index_from i tag [] = None"
| "index_from i tag (c # cs) = (if c = tag then Some i else index_from (Suc i) tag cs)"

definition not_declared :: "prop_tag \<Rightarrow> error" where
  "not_declared tag = PstError (''table column not declared: '' @ to_string (unat tag))"

definition columnIndex :: "prop_tag list \<Rightarrow> prop_tag \<Rightarrow> ('s, nat) prog" where
  "columnIndex tags tag = (case index_from 0 tag tags of Some i \<Rightarrow> ret i | None \<Rightarrow> throw (not_declared tag))"

text \<open>A setter: find the cell, then overwrite it.\<close>

definition set_tcell :: "nat \<Rightarrow> prop_tag \<Rightarrow> tcell \<Rightarrow> (table, unit) prog" where
  "set_tcell row tag c =
     bindM (getM (\<lambda>t. length (tb_rows t) \<le> row)) (\<lambda>out_of_range.
     bindM (throw_if out_of_range (PstError ''table row index out of range'')) (\<lambda>_.
     bindM (getM tb_columns) (\<lambda>tags.
     bindM (columnIndex tags tag) (\<lambda>i.
     modM (\<lambda>t. t\<lparr>tb_rows := (tb_rows t)[row := (tb_rows t ! row)\<lparr>tr_cells := (tr_cells (tb_rows t ! row))[i := c]\<rparr>]\<rparr>)))))"

definition fixed_cell :: "bytes \<Rightarrow> tcell" where
  "fixed_cell b = \<lparr>tc_present = True, tc_variable = False, tc_bytes = b\<rparr>"

definition variable_cell :: "bytes \<Rightarrow> tcell" where
  "variable_cell b = \<lparr>tc_present = True, tc_variable = True, tc_bytes = b\<rparr>"

definition tc_setInt16 :: "nat \<Rightarrow> prop_tag \<Rightarrow> 16 word \<Rightarrow> (table, unit) prog" where
  "tc_setInt16 row tag v = set_tcell row tag (fixed_cell (put16 [] v))"

definition tc_setInt32 :: "nat \<Rightarrow> prop_tag \<Rightarrow> 32 word \<Rightarrow> (table, unit) prog" where
  "tc_setInt32 row tag v = set_tcell row tag (fixed_cell (put32 [] v))"

definition tc_setBool :: "nat \<Rightarrow> prop_tag \<Rightarrow> bool \<Rightarrow> (table, unit) prog" where
  "tc_setBool row tag v = set_tcell row tag (fixed_cell (put8 [] (if v then 1 else 0)))"

definition tc_setInt64 :: "nat \<Rightarrow> prop_tag \<Rightarrow> 64 word \<Rightarrow> (table, unit) prog" where
  "tc_setInt64 row tag v = set_tcell row tag (fixed_cell (put64 [] v))"

definition tc_setTime :: "nat \<Rightarrow> prop_tag \<Rightarrow> 64 word \<Rightarrow> (table, unit) prog" where
  "tc_setTime row tag filetime = tc_setInt64 row tag filetime"

definition tc_setString :: "nat \<Rightarrow> prop_tag \<Rightarrow> string \<Rightarrow> (table, unit) prog" where
  "tc_setString row tag s = set_tcell row tag (variable_cell (string_bytes tag s))"

definition tc_setBinary :: "nat \<Rightarrow> prop_tag \<Rightarrow> bytes \<Rightarrow> (table, unit) prog" where
  "tc_setBinary row tag b = set_tcell row tag (variable_cell b)"

definition addRow :: "32 word \<Rightarrow> (table, nat) prog" where
  "addRow row_id =
     bindM (modM (\<lambda>t. t\<lparr>tb_rows := tb_rows t @ [\<lparr>tr_id = row_id, tr_cells = replicate (length (tb_columns t)) no_cell\<rparr>]\<rparr>)) (\<lambda>_.
     bindM (getM (\<lambda>t. length (tb_rows t) - 1)) (\<lambda>idx.
     bindM (tc_setInt32 idx PidTagLtpRowId row_id) (\<lambda>_.
     bindM (tc_setInt32 idx PidTagLtpRowVer 1) (\<lambda>_.
     ret idx))))"

subsection \<open>TableContext::serialize\<close>

text \<open>What a cell writes into its field: an HNID, its bytes cut to the width, or nothing.\<close>

definition cell_field :: "column \<times> tcell \<Rightarrow> (ltp, bytes option) prog" where
  "cell_field = (\<lambda>(c, cell).
     if \<not> tc_present cell then ret None
     else if tc_variable cell then
       bindM (if tc_bytes cell = [] then ret 0 else place_bytes (tc_bytes cell)) (\<lambda>h. ret (Some (le_bytes 4 h)))
     else ret (Some (take (unat (col_cb c)) (tc_bytes cell))))"

definition table_row :: "row_layout \<Rightarrow> trow \<Rightarrow> (ltp, bytes) prog" where
  "table_row l row = bindM (mapM cell_field (zip (lay_columns l) (tr_cells row))) (\<lambda>cells. ret (render_row l cells))"

text \<open>The matrix goes into the heap if it fits one item, else padded into a subnode.\<close>

definition place_rows :: "nat \<Rightarrow> bytes \<Rightarrow> (ltp, hnid) prog" where
  "place_rows rs matrix =
     (if length matrix \<le> maxAllocSize then on_heap (alloc matrix)
      else on_subs (spill (pad_rows (kMaxBlockData div rs * rs) matrix)))"

definition index_record :: "nat \<times> trow \<Rightarrow> bth_record" where
  "index_record = (\<lambda>(i, r). \<lparr>bth_key = put32 [] (tr_id r), bth_value = put32 [] (of_nat i)\<rparr>)"

definition table_build :: "table \<Rightarrow> (ltp, hid) prog" where
  "table_build t =
     (let l = layout (tb_columns t) in
      bindM (mapM (table_row l) (tb_rows t)) (\<lambda>rows.
      bindM (if tb_rows t = [] then ret 0 else place_rows (row_size l) (concat rows)) (\<lambda>hnid_rows.
      bindM (on_heap (buildBth 4 4 (map index_record (enumerate 0 (tb_rows t))))) (\<lambda>hid_row_index.
      on_heap (alloc (tcinfo l hid_row_index hnid_rows))))))"

definition table_serialize :: "table \<Rightarrow> (subs, bytes) prog" where
  "table_serialize t = with_heap kHnSigTC (table_build t)"

subsection \<open>A reader\<close>

definition read_column :: "bytes \<Rightarrow> column" where
  "read_column b = \<lparr>col_tag = peek32 b, col_ib = peek16 (drop 4 b), col_cb = b ! 6, col_ibit = b ! 7\<rparr>"

text \<open>TCINFO: the start of the bitmap, the row width, the row index, the rows, the columns.\<close>

definition read_tcinfo :: "bytes \<Rightarrow> nat \<times> nat \<times> hid \<times> hnid \<times> column list" where
  "read_tcinfo b =
     (unat (peek16 (drop 6 b)), unat (peek16 (drop 8 b)), peek32 (drop 10 b), peek32 (drop 14 b),
      map read_column (chunks 8 (take (8 * unat (b ! 1)) (drop 22 b))))"

text \<open>The field of a cell: \<open>None\<close> where there is no such table, row or column, \<open>Some None\<close> for an absent cell.\<close>

definition field_read :: "lookup \<Rightarrow> (nid \<Rightarrow> bytes option) \<Rightarrow> hid \<Rightarrow> 32 word \<Rightarrow> prop_tag \<Rightarrow> bytes option option" where
  "field_read look sub root row_id tag =
     Option.bind (look root) (\<lambda>info. case read_tcinfo info of (ceb, rs, index, rows, columns) \<Rightarrow>
     Option.bind (bth_find look index (le_bytes 4 row_id)) (\<lambda>k.
     Option.bind (find (\<lambda>c. col_tag c = tag) columns) (\<lambda>c.
     Option.bind (hnid_read look sub rows) (\<lambda>matrix.
     Some (read_cell ceb c (row_at (hnidIsHid rows) rs matrix (unat (peek32 k))))))))"

text \<open>The value of a cell: its field for a fixed-width type, else what the HNID in it leads to.\<close>

definition table_read :: "lookup \<Rightarrow> (nid \<Rightarrow> bytes option) \<Rightarrow> hid \<Rightarrow> 32 word \<Rightarrow> prop_tag \<Rightarrow> bytes option option" where
  "table_read look sub root row_id tag =
     Option.bind (field_read look sub root row_id tag) (\<lambda>f.
       case f of None \<Rightarrow> Some None
       | Some b \<Rightarrow>
           if fixedPropSize (tagType tag) \<noteq> 0 then Some (Some b)
           else if peek32 b = 0 then Some (Some [])
           else map_option Some (hnid_read look sub (peek32 b)))"

subsection \<open>A well-formed table\<close>

text \<open>
  The two pinned columns come first, columns and row ids are distinct, every row has a cell for each
  column, and a cell present has the shape its column's type asks for.
\<close>

definition cell_ok :: "prop_tag \<Rightarrow> tcell \<Rightarrow> bool" where
  "cell_ok tag c \<longleftrightarrow> length (tc_bytes c) < 2 ^ 64 \<and> (tc_present c \<longrightarrow>
     (if fixedPropSize (tagType tag) = 0 then tc_variable c
      else \<not> tc_variable c \<and> length (tc_bytes c) = column_width tag))"

definition table_ok :: "table \<Rightarrow> bool" where
  "table_ok t \<longleftrightarrow> (\<exists>more. tb_columns t = [PidTagLtpRowId, PidTagLtpRowVer] @ more) \<and> length (tb_columns t) \<le> 255 \<and>
     distinct (tb_columns t) \<and> distinct (map tr_id (tb_rows t)) \<and> (\<forall>r \<in> set (tb_rows t). list_all2 cell_ok (tb_columns t) (tr_cells r))"

lemma no_cell_ok [simp]: "cell_ok tag no_cell"
  by (simp add: cell_ok_def no_cell_def)

lemma table_ok_new [simp]: "table_ok TableContext_new"
  by (simp add: table_ok_def TableContext_new_def makeTag_def)

lemma table_ok_addColumn:
  assumes ok: "table_ok t" and n: "length (tb_columns t) < 255"
  shows "table_ok (addColumn tag t)"
proof (cases "tag \<in> set (tb_columns t)")
  case False
  let ?t = "addColumn tag t"
  have cols: "tb_columns ?t = tb_columns t @ [tag]" using False by (simp add: addColumn_def)
  have rows: "tb_rows ?t = map (resize_cells (Suc (length (tb_columns t)))) (tb_rows t)" using False by (simp add: addColumn_def)
  have "list_all2 cell_ok (tb_columns t @ [tag]) (tr_cells (resize_cells (Suc (length (tb_columns t))) r))"
    if "r \<in> set (tb_rows t)" for r
  proof -
    have all: "list_all2 cell_ok (tb_columns t) (tr_cells r)" using ok that by (simp add: table_ok_def)
    then have "length (tr_cells r) = length (tb_columns t)" by (simp add: list_all2_lengthD)
    then show ?thesis using all by (simp add: resize_cells_def list_all2_appendI)
  qed
  moreover have "tr_id (resize_cells n r) = tr_id r" for n r by (simp add: resize_cells_def)
  ultimately show ?thesis
    using ok n False unfolding table_ok_def cols rows by (auto simp: comp_def)
qed (use ok in \<open>simp add: addColumn_def\<close>)

lemma index_from_Some: "index_from j tag tags = Some i \<Longrightarrow> j \<le> i \<and> i - j < length tags \<and> tags ! (i - j) = tag"
  by (induction tags arbitrary: j) (fastforce split: if_splits simp: nth_Cons')+

lemma index_from_mem: "tag \<in> set tags \<Longrightarrow> \<exists>i. index_from j tag tags = Some i"
  by (induction tags arbitrary: j) auto

lemma set_tcell_eq:
  "set_tcell row tag c t =
     (if length (tb_rows t) \<le> row then Some (Inl (PstError ''table row index out of range''), t)
      else case index_from 0 tag (tb_columns t) of
        None \<Rightarrow> Some (Inl (not_declared tag), t)
      | Some i \<Rightarrow> Some (Inr (), t\<lparr>tb_rows := (tb_rows t)[row := (tb_rows t ! row)\<lparr>tr_cells := (tr_cells (tb_rows t ! row))[i := c]\<rparr>]\<rparr>))"
  by (auto simp: set_tcell_def columnIndex_def bindM_def getM_def throw_if_def throw_def ret_def modM_def split: option.splits)

text \<open>A setter on an existing row and a declared column returns, and does exactly one cell.\<close>

lemma set_tcell_run:
  assumes "row < length (tb_rows t)" "tag \<in> set (tb_columns t)"
  obtains i where "i < length (tb_columns t)" "tb_columns t ! i = tag"
    "set_tcell row tag c t = Some (Inr (), t\<lparr>tb_rows := (tb_rows t)[row := (tb_rows t ! row)\<lparr>tr_cells := (tr_cells (tb_rows t ! row))[i := c]\<rparr>]\<rparr>)"
proof -
  obtain i where i: "index_from 0 tag (tb_columns t) = Some i" using index_from_mem [OF assms(2)] by blast
  show thesis
    by (rule that [of i]) (use index_from_Some [OF i] i assms(1) in \<open>simp_all add: set_tcell_eq\<close>)
qed

lemma table_ok_set:
  assumes ok: "table_ok t" and c: "cell_ok tag c" and run: "set_tcell row tag c t = Some (r, t')"
  shows "table_ok t' \<and> tb_columns t' = tb_columns t \<and> map tr_id (tb_rows t') = map tr_id (tb_rows t)"
proof (cases "row < length (tb_rows t) \<and> tag \<in> set (tb_columns t)")
  case True
  then obtain i where i: "i < length (tb_columns t)" "tb_columns t ! i = tag"
      "set_tcell row tag c t = Some (Inr (), t\<lparr>tb_rows := (tb_rows t)[row := (tb_rows t ! row)\<lparr>tr_cells := (tr_cells (tb_rows t ! row))[i := c]\<rparr>]\<rparr>)"
    using set_tcell_run by blast
  have t': "t' = t\<lparr>tb_rows := (tb_rows t)[row := (tb_rows t ! row)\<lparr>tr_cells := (tr_cells (tb_rows t ! row))[i := c]\<rparr>]\<rparr>"
    using i(3) run by simp
  have "tb_rows t ! row \<in> set (tb_rows t)" using True by simp
  then have "list_all2 cell_ok (tb_columns t) (tr_cells (tb_rows t ! row))" using ok by (simp add: table_ok_def)
  then have all: "list_all2 cell_ok (tb_columns t) ((tr_cells (tb_rows t ! row))[i := c])"
    using i c by (auto simp: list_all2_conv_all_nth nth_list_update)
  have ids: "map tr_id (tb_rows t') = map tr_id (tb_rows t)"
    using True by (simp add: t' map_update list_update_same_conv)
  have "list_all2 cell_ok (tb_columns t) (tr_cells r)" if "r \<in> set (tb_rows t')" for r
    using that all ok by (auto simp: t' table_ok_def dest!: set_update_subset_insert [THEN subsetD])
  then show ?thesis using ok ids by (auto simp: table_ok_def t')
next
  case False
  then have "t' = t"
    using run index_from_Some [of 0 tag "tb_columns t"]
    by (auto simp: set_tcell_eq in_set_conv_nth split: if_splits option.splits)
  then show ?thesis using ok by simp
qed

lemma table_ok_addRow:
  assumes ok: "table_ok t" and fresh: "row_id \<notin> set (map tr_id (tb_rows t))" and run: "addRow row_id t = Some (r, t')"
  shows "\<exists>idx. r = Inr idx \<and> idx = length (tb_rows t) \<and> table_ok t' \<and> tb_columns t' = tb_columns t \<and>
    map tr_id (tb_rows t') = map tr_id (tb_rows t) @ [row_id]"
proof -
  let ?new = "\<lparr>tr_id = row_id, tr_cells = replicate (length (tb_columns t)) no_cell\<rparr>"
  define t1 where "t1 = t\<lparr>tb_rows := tb_rows t @ [?new]\<rparr>"
  have t1: "table_ok t1" "tb_columns t1 = tb_columns t" "map tr_id (tb_rows t1) = map tr_id (tb_rows t) @ [row_id]"
    using ok fresh by (auto simp: t1_def table_ok_def list_all2_conv_all_nth)
  have mem: "PidTagLtpRowId \<in> set (tb_columns t)" "PidTagLtpRowVer \<in> set (tb_columns t)" using ok by (auto simp: table_ok_def)
  have fix4: "cell_ok PidTagLtpRowId (fixed_cell (put32 [] v))" "cell_ok PidTagLtpRowVer (fixed_cell (put32 [] v))" for v
    by (simp_all add: cell_ok_def fixed_cell_def column_width_def fixedPropSize_def put32_def)
  have idx: "length (tb_rows t) < length (tb_rows t1)" by (simp add: t1_def)
  obtain t2 where t2: "tc_setInt32 (length (tb_rows t)) PidTagLtpRowId row_id t1 = Some (Inr (), t2)"
    unfolding tc_setInt32_def using set_tcell_run [OF idx] mem(1) t1(2) by metis
  note ok2 = table_ok_set [OF t1(1) fix4(1) t2 [unfolded tc_setInt32_def]]
  have "length (tb_rows t2) = length (tb_rows t1)" using ok2 by (metis length_map)
  then have idx2: "length (tb_rows t) < length (tb_rows t2)" using idx by simp
  obtain t3 where t3: "tc_setInt32 (length (tb_rows t)) PidTagLtpRowVer 1 t2 = Some (Inr (), t3)"
    unfolding tc_setInt32_def using set_tcell_run [OF idx2] mem(2) t1(2) ok2 by metis
  note ok3 = table_ok_set [OF conjunct1 [OF ok2] fix4(2) t3 [unfolded tc_setInt32_def]]
  have "addRow row_id t = Some (Inr (length (tb_rows t)), t3)"
    using t2 t3 by (simp add: addRow_def prog_simps t1_def)
  then show ?thesis using run t1 ok2 ok3 by simp
qed

subsection \<open>TCINFO reads back\<close>

lemma column_desc_read: "length (column_desc c) = 8" "read_column (column_desc c @ r) = c"
  by (simp_all add: column_desc_def read_column_def put8_def put16_def put32_def nth_append)

lemma read_tcinfo:
  assumes "length (lay_rgib l) = 4" "length (lay_columns l) \<le> 255"
  shows "read_tcinfo (tcinfo l index rows) =
      (unat (lay_rgib l ! 2), unat (lay_rgib l ! 3), index, rows, sort_key col_tag (lay_columns l))"
    "length (tcinfo l index rows) = 22 + 8 * length (lay_columns l)"
proof -
  obtain g0 g1 g2 g3 where g: "lay_rgib l = [g0, g1, g2, g3]"
    using assms(1) by (auto simp: numeral_eq_Suc length_Suc_conv)
  let ?cs = "sort_key col_tag (lay_columns l)" and ?n = "of_nat (length (lay_columns l)) :: byte"
  let ?descs = "concat (map column_desc ?cs)"
  have info: "tcinfo l index rows = [kHnSigTC, ?n] @ le_bytes 2 g0 @ le_bytes 2 g1 @ le_bytes 2 g2 @ le_bytes 2 g3 @
      le_bytes 4 index @ le_bytes 4 rows @ le_bytes 4 (0 :: 32 word) @ ?descs"
    by (simp add: tcinfo_def fold_append g put8_def put16_def put32_def)
  have ld: "length ?descs = 8 * length (lay_columns l)"
    using length_concat_const [of ?cs column_desc 8] column_desc_read(1) by simp
  then show "length (tcinfo l index rows) = 22 + 8 * length (lay_columns l)" by (simp add: info)
  have n: "unat ?n = length (lay_columns l)" using assms(2) by (simp add: unat_small)
  have e8: "length x = 8" if "x \<in> set (map column_desc ?cs)" for x using that column_desc_read(1) by auto
  have "chunks 8 ?descs = map column_desc ?cs"
  proof (rule chunks_concat_full)
    show "length x = 8" if "x \<in> set (butlast (map column_desc ?cs))" for x by (rule e8 [OF in_set_butlastD [OF that]])
    show "last (map column_desc ?cs) \<noteq> [] \<and> length (last (map column_desc ?cs)) \<le> 8" if "map column_desc ?cs \<noteq> []"
      using e8 [OF last_in_set [OF that]] by auto
  qed simp
  moreover have "map read_column (map column_desc ?cs) = ?cs"
    using column_desc_read(2) [where r = "[]"] by (simp add: comp_def)
  moreover have "drop 22 (tcinfo l index rows) = ?descs" by (simp add: info)
  moreover have "tcinfo l index rows ! 1 = ?n" by (simp add: info)
  ultimately show "read_tcinfo (tcinfo l index rows) = (unat (lay_rgib l ! 2), unat (lay_rgib l ! 3), index, rows, ?cs)"
    using n ld by (simp add: read_tcinfo_def info g)
qed

subsection \<open>Cells and rows placed\<close>

definition cell_placed :: "ltp \<Rightarrow> column \<times> tcell \<Rightarrow> bytes option \<Rightarrow> bool" where
  "cell_placed t = (\<lambda>(c, cell) f.
     if \<not> tc_present cell then f = None
     else if tc_variable cell then
       \<exists>h. f = Some (le_bytes 4 h) \<and> (if tc_bytes cell = [] then h = 0 else h \<noteq> 0 \<and> deref t h = Some (tc_bytes cell))
     else f = Some (take (unat (col_cb c)) (tc_bytes cell)))"

lemma cell_placed_ext: "cell_placed t x f \<Longrightarrow> ltp_ext t t' \<Longrightarrow> cell_placed t' x f"
  by (auto simp: cell_placed_def dest: deref_ext split: if_splits)

lemma deref_nonzero: "subs_ok k (lt_subs t) \<Longrightarrow> deref t h = Some b \<Longrightarrow> h \<noteq> 0"
  by (auto simp: deref_def hnid_read_def hnidIsHid_def heap_look_def Let_def hidAllocIndex_def split: if_splits)

lemma cell_field_law:
  assumes ok: "ltp_ok (Suc k) t" and len: "length (tc_bytes (snd x)) < 2 ^ 64" and run: "cell_field x t = Some (Inr f, t')"
  shows "ltp_ok k t' \<and> ltp_ext t t' \<and> cell_placed t' x f"
proof -
  obtain c cell where x: "x = (c, cell)" by fastforce
  have weak: "ltp_ok k t" using ok subs_ok_mono by (auto simp: ltp_ok_def)
  show ?thesis
  proof (cases "tc_present cell \<and> tc_variable cell \<and> tc_bytes cell \<noteq> []")
    case True
    then obtain h where h: "place_bytes (tc_bytes cell) t = Some (Inr h, t')" "f = Some (le_bytes 4 h)"
      using run by (auto simp: x cell_field_def bindM_Inr_iff ret_run)
    note law = place_bytes_law [OF ok _ h(1)]
    have "length (tc_bytes cell) < 2 ^ 64" using len x by simp
    note law = law [OF this]
    moreover have "h \<noteq> 0" using law deref_nonzero by (auto simp: ltp_ok_def)
    ultimately show ?thesis using True h(2) by (auto simp: x cell_placed_def)
  next
    case False
    then show ?thesis
      using run weak by (auto simp: x cell_field_def cell_placed_def bindM_Inr_iff ret_run split: if_splits)
  qed
qed

definition row_placed :: "row_layout \<Rightarrow> ltp \<Rightarrow> trow \<Rightarrow> bytes \<Rightarrow> bool" where
  "row_placed l t row b \<longleftrightarrow>
     (\<exists>cells. list_all2 (cell_placed t) (zip (lay_columns l) (tr_cells row)) cells \<and> b = render_row l cells)"

lemma row_placed_ext: "row_placed l t row b \<Longrightarrow> ltp_ext t t' \<Longrightarrow> row_placed l t' row b"
  unfolding row_placed_def using list_all2_mono [of "cell_placed t" _ _ "cell_placed t'"] cell_placed_ext by blast

lemma table_row_law:
  assumes ok: "ltp_ok (k + length (zip (lay_columns l) (tr_cells row))) t"
    and len: "\<forall>c \<in> set (tr_cells row). length (tc_bytes c) < 2 ^ 64"
    and run: "table_row l row t = Some (Inr b, t')"
  shows "ltp_ok k t' \<and> ltp_ext t t' \<and> row_placed l t' row b"
proof -
  let ?xs = "zip (lay_columns l) (tr_cells row)"
  obtain cells where cells: "mapM cell_field ?xs t = Some (Inr cells, t')" "b = render_row l cells"
    using run by (auto simp: table_row_def bindM_Inr_iff ret_run)
  have "ltp_ok k t' \<and> ltp_ext t t' \<and> list_all2 (cell_placed t') ?xs cells"
  proof (rule mapM_spends [where I = ltp_ok and G = ltp_ext, OF _ ltp_ext_refl ltp_ext_trans _ ok cells(1)])
    fix k x t f t'
    assume "x \<in> set ?xs" and *: "ltp_ok (Suc k) t" "cell_field x t = Some (Inr f, t')"
    then have "length (tc_bytes (snd x)) < 2 ^ 64" using len set_zip_rightD [of "fst x" "snd x"] by auto
    then show "ltp_ok k t' \<and> ltp_ext t t' \<and> cell_placed t' x f" by (rule cell_field_law [OF *(1) _ *(2)])
  next
    show "cell_placed t x f \<Longrightarrow> ltp_ext t t' \<Longrightarrow> cell_placed t' x f" for t x f t' by (rule cell_placed_ext)
  qed
  then show ?thesis using cells(2) by (auto simp: row_placed_def)
qed

lemma table_rows_law:
  assumes ok: "ltp_ok (k + length rows * n) t"
    and rows: "\<forall>r \<in> set rows. length (zip (lay_columns l) (tr_cells r)) \<le> n \<and> (\<forall>c \<in> set (tr_cells r). length (tc_bytes c) < 2 ^ 64)"
    and run: "mapM (table_row l) rows t = Some (Inr bs, t')"
  shows "ltp_ok k t' \<and> ltp_ext t t' \<and> list_all2 (row_placed l t') rows bs"
proof -
  have "ltp_ok (k + 0 * n) t' \<and> ltp_ext t t' \<and> list_all2 (row_placed l t') rows bs"
  proof (rule mapM_spends [where I = "\<lambda>j. ltp_ok (k + j * n)" and G = ltp_ext and k = 0, OF _ ltp_ext_refl ltp_ext_trans _ _ run])
    fix j r t b t'
    assume r: "r \<in> set rows" and ok: "ltp_ok (k + Suc j * n) t" and run: "table_row l r t = Some (Inr b, t')"
    have "ltp_ok (k + j * n + length (zip (lay_columns l) (tr_cells r))) t"
      using ok rows r subs_ok_mono [of "k + Suc j * n"] by (auto simp: ltp_ok_def)
    then show "ltp_ok (k + j * n) t' \<and> ltp_ext t t' \<and> row_placed l t' r b"
      by (rule table_row_law) (use rows r run in auto)
  next
    show "row_placed l t r b \<Longrightarrow> ltp_ext t t' \<Longrightarrow> row_placed l t' r b" for t r b t' by (rule row_placed_ext)
    show "ltp_ok (k + (0 + length rows) * n) t" using ok by simp
  qed
  then show ?thesis by simp
qed

text \<open>What a rendered row shows a reader, cell by cell.\<close>

definition cell_shows :: "ltp \<Rightarrow> prop_tag \<Rightarrow> tcell \<Rightarrow> bytes option \<Rightarrow> bool" where
  "cell_shows t tag cell f \<longleftrightarrow>
     (if \<not> tc_present cell then f = None
      else if fixedPropSize (tagType tag) \<noteq> 0 then f = Some (tc_bytes cell)
      else \<exists>h. f = Some (le_bytes 4 h) \<and> (if tc_bytes cell = [] then h = 0 else h \<noteq> 0 \<and> deref t h = Some (tc_bytes cell)))"

lemma row_placed_read:
  assumes lay: "layout_ok tags l" "length tags \<le> 255" and cells: "list_all2 cell_ok tags (tr_cells row)"
    and b: "row_placed l t row b"
  shows "length b = row_size l"
    and "i < length tags \<Longrightarrow> cell_shows t (tags ! i) (tr_cells row ! i) (read_cell (ceb_off l) (lay_columns l ! i) b)"
proof -
  obtain fs where fs: "list_all2 (cell_placed t) (zip (lay_columns l) (tr_cells row)) fs" "b = render_row l fs"
    using b by (auto simp: row_placed_def)
  have lc: "length (lay_columns l) = length tags" "length (tr_cells row) = length tags"
    using layout_okD(1) [OF lay(1)] cells by (auto dest: list_all2_lengthD)
  then have n: "length fs = length tags" using fs(1) by (auto dest: list_all2_lengthD)
  have at: "cell_placed t (lay_columns l ! i, tr_cells row ! i) (fs ! i)" "cell_ok (tags ! i) (tr_cells row ! i)"
      "width (lay_columns l ! i) = column_width (tags ! i)" if i: "i < length tags" for i
  proof -
    show "cell_placed t (lay_columns l ! i, tr_cells row ! i) (fs ! i)"
      using list_all2_nthD [OF fs(1), of i] i lc by simp
    show "cell_ok (tags ! i) (tr_cells row ! i)" using list_all2_nthD [OF cells] i by simp
    show "width (lay_columns l ! i) = column_width (tags ! i)"
      using layout_okD(6) [OF lay(1) i] column_width_cases [of "tags ! i"] by auto
  qed
  have shows_i: "cell_shows t (tags ! i) (tr_cells row ! i) (fs ! i)" if "i < length tags" for i
    using at [OF that] by (auto simp: cell_placed_def cell_ok_def cell_shows_def split: if_splits)
  have "length x = width (lay_columns l ! i)" if "i < length tags" "fs ! i = Some x" for i x
    using at [OF that(1)] that(2) by (auto simp: cell_placed_def cell_ok_def column_width_def split: if_splits)
  note law = render_row_law [OF lay n this]
  show "length b = row_size l" using law(1) fs(2) by simp
  show "i < length tags \<Longrightarrow> cell_shows t (tags ! i) (tr_cells row ! i) (read_cell (ceb_off l) (lay_columns l ! i) b)"
    using law(2) shows_i fs(2) by simp
qed

lemma place_rows_law:
  assumes ok: "ltp_ok (Suc k) t" and run: "place_rows rs matrix t = Some (Inr h, t')"
    and len: "length (pad_rows (kMaxBlockData div rs * rs) matrix) < 2 ^ 64"
  shows "ltp_ok k t' \<and> ltp_ext t t' \<and>
    deref t' h = Some (if hnidIsHid h then matrix else pad_rows (kMaxBlockData div rs * rs) matrix)"
proof (cases "length matrix \<le> maxAllocSize")
  case True
  then have "place_bytes matrix t = Some (Inr h, t')" using run by (simp add: place_rows_def place_bytes_def)
  then have law: "ltp_ok k t' \<and> ltp_ext t t' \<and> deref t' h = Some matrix"
    by (rule place_bytes_law [OF ok, rotated]) (use True in simp)
  obtain hp where "alloc matrix (lt_heap t) = Some (Inr h, hp)"
    using run True by (auto simp: place_rows_def on_heap_run)
  then have "hnidIsHid h" using alloc_law heap_look_hid ok unfolding ltp_ok_def by blast
  then show ?thesis using law by simp
next
  case False
  then have "\<not> length (pad_rows (kMaxBlockData div rs * rs) matrix) \<le> maxAllocSize"
    using length_pad_rows [of matrix "kMaxBlockData div rs * rs"] by simp
  then have "place_bytes (pad_rows (kMaxBlockData div rs * rs) matrix) t = Some (Inr h, t')"
    using run False by (simp add: place_rows_def place_bytes_def)
  then have law: "ltp_ok k t' \<and> ltp_ext t t' \<and> deref t' h = Some (pad_rows (kMaxBlockData div rs * rs) matrix)"
    by (rule place_bytes_law [OF ok len])
  obtain s where s: "spill (pad_rows (kMaxBlockData div rs * rs) matrix) (lt_subs t) = Some (Inr h, s)"
    using run False by (auto simp: place_rows_def on_subs_run)
  have "subs_ok (Suc k) (lt_subs t)" using ok by (simp add: ltp_ok_def)
  then have "\<not> hnidIsHid h" using spill_law [OF _ len s] by blast
  then show ?thesis using law by simp
qed

lemma length_pad_rows_le:
  assumes "n \<le> kMaxBlockData"
  shows "length (pad_rows n m) \<le> kMaxBlockData * length m"
  using assms
proof (induction n m rule: pad_rows.induct)
  case (1 n m)
  show ?case
  proof (cases "n = 0 \<or> length m \<le> n")
    case False
    then have "length (pad_rows n m) = kMaxBlockData + length (pad_rows n (drop n m))"
      using 1(2) by (subst pad_rows.simps) simp
    also have "\<dots> \<le> kMaxBlockData + kMaxBlockData * (length m - n)" using 1(1) [OF False 1(2)] by simp
    also have "\<dots> \<le> kMaxBlockData * length m" using False by (cases n) (auto simp: algebra_simps)
    finally show ?thesis .
  qed (subst pad_rows.simps, simp)
qed

text \<open>A heap finished over subnodes: what it holds is found in its stream.\<close>

lemma with_heap_law:
  assumes build: "build \<lparr>lt_heap = HeapNode_new sig, lt_subs = s\<rparr> = Some (Inr root, t)"
    and ok: "ltp_ok k t" and ext: "ltp_ext \<lparr>lt_heap = HeapNode_new sig, lt_subs = s\<rparr> t"
    and run: "with_heap sig build s = Some (Inr stream, s')"
  shows "s' = lt_subs t" "heap_root stream = root" "heap_sig stream = Some (kHnSignature, sig)" "length stream < 2 ^ 64"
    "\<And>h b. heap_look (lt_heap t) h = Some b \<Longrightarrow> heap_read stream h = Some b"
    "\<And>h b. deref t h = Some b \<Longrightarrow> hnid_read (heap_read stream) (sub_look s') h = Some b"
    "\<And>kb eb h rs. bth_stored (heap_look (lt_heap t)) kb eb h rs \<Longrightarrow> bth_stored (heap_read stream) kb eb h rs"
proof -
  have stream: "stream = serialize (setUserRoot root (lt_heap t))" and s': "s' = lt_subs t"
    using run build by (simp_all add: with_heap_def)
  have hok: "heap_ok (lt_heap t)" using ok by (simp add: ltp_ok_def)
  then have sok: "heap_ok (setUserRoot root (lt_heap t))" by simp
  show "s' = lt_subs t" by (rule s')
  show "heap_root stream = root" "heap_sig stream = Some (kHnSignature, sig)"
    using serialize_header [OF sok] ext by (simp_all add: stream setUserRoot_def ltp_ext_def HeapNode_new_def)
  show "length stream < 2 ^ 64" unfolding stream by (rule serialize_small [OF sok])
  show look: "heap_read stream h = Some b" if "heap_look (lt_heap t) h = Some b" for h b
    using heap_read_serialize [OF sok] that by (simp add: stream)
  show "hnid_read (heap_read stream) (sub_look s') h = Some b" if "deref t h = Some b" for h b
    using that look by (auto simp: deref_def hnid_read_def s' split: if_splits)
  show "bth_stored (heap_read stream) kb eb h rs" if "bth_stored (heap_look (lt_heap t)) kb eb h rs" for kb eb h rs
    unfolding stream by (rule stored_in_stream [OF hok that])
qed

lemma on_heap_alloc_law:
  assumes ok: "ltp_ok k t" and run: "on_heap (alloc b) t = Some (Inr h, t')"
  shows "ltp_ok k t' \<and> ltp_ext t t' \<and> heap_look (lt_heap t') h = Some b"
proof -
  obtain hp where hp: "alloc b (lt_heap t) = Some (Inr h, hp)" "t' = t\<lparr>lt_heap := hp\<rparr>" using run by (auto simp: on_heap_run)
  have hok: "heap_ok (lt_heap t)" using ok by (simp add: ltp_ok_def)
  show ?thesis
    using alloc_law [OF hok hp(1)] alloc_sig [OF hok hp(1)] ok by (auto simp: hp(2) ltp_ok_def ltp_ext_def hn.extends_def)
qed

lemma on_heap_bth_law:
  assumes ok: "ltp_ok k t" and fit: "records_fit kb eb rs" and run: "on_heap (buildBth kb eb rs) t = Some (Inr h, t')"
  shows "ltp_ok k t' \<and> ltp_ext t t' \<and> bth_stored (heap_look (lt_heap t')) kb eb h rs"
proof -
  obtain hp where hp: "buildBth kb eb rs (lt_heap t) = Some (Inr h, hp)" "t' = t\<lparr>lt_heap := hp\<rparr>" using run by (auto simp: on_heap_run)
  have hok: "heap_ok (lt_heap t)" using ok by (simp add: ltp_ok_def)
  show ?thesis
    using buildBth_law [OF hok fit hp(1)] bth_sig [OF hok hp(1) fit] ok by (auto simp: hp(2) ltp_ok_def ltp_ext_def hn.extends_def)
qed

subsection \<open>The row index\<close>

lemma index_records:
  assumes "distinct (map tr_id rows)" "length rows < 2 ^ 32"
  defines "rs \<equiv> map index_record (enumerate 0 rows)"
  shows "records_fit 4 4 rs" "distinct (map bth_key rs)"
    "i < length rows \<Longrightarrow> find (\<lambda>r. bth_key r = le_bytes 4 (tr_id (rows ! i))) rs = Some (index_record (i, rows ! i))"
    "id' \<notin> set (map tr_id rows) \<Longrightarrow> find (\<lambda>r. bth_key r = le_bytes 4 id') rs = None"
proof -
  have inj: "le_bytes 4 a = le_bytes 4 b \<longleftrightarrow> a = b" for a b :: "32 word" by (metis le_roundtrip(2))
  have keys: "map bth_key rs = map (le_bytes 4) (map tr_id rows)"
    by (rule nth_equalityI) (simp_all add: rs_def index_record_def nth_enumerate_eq put32_def)
  show "records_fit 4 4 rs" by (auto simp: rs_def records_fit_def index_record_def put32_def)
  show dist: "distinct (map bth_key rs)" unfolding keys using assms(1) by (simp add: distinct_map inj_on_def inj)
  show "find (\<lambda>r. bth_key r = le_bytes 4 (tr_id (rows ! i))) rs = Some (index_record (i, rows ! i))" if "i < length rows"
  proof -
    have "rs ! i \<in> set rs" by (rule nth_mem) (use that in \<open>simp add: rs_def\<close>)
    moreover have "rs ! i = index_record (i, rows ! i)" using that by (simp add: rs_def nth_enumerate_eq)
    ultimately have "index_record (i, rows ! i) \<in> set rs" by simp
    then show ?thesis using find_distinct [OF dist, of "index_record (i, rows ! i)"] by (simp add: index_record_def put32_def)
  qed
  show "find (\<lambda>r. bth_key r = le_bytes 4 id') rs = None" if "id' \<notin> set (map tr_id rows)"
  proof -
    have "le_bytes 4 id' \<notin> set (map bth_key rs)" unfolding keys using that inj by auto
    then show ?thesis by (force simp: find_None_iff)
  qed
qed

subsection \<open>A serialized table reads back\<close>

lemma table_ok_layout:
  assumes "table_ok t"
  shows "tags_ok (tb_columns t)"
  using assms by (auto simp: table_ok_def tags_ok_def column_width_def fixedPropSize_def)

lemma layout_rgib: "length (lay_rgib (layout tags)) = 4" "unat (lay_rgib (layout tags) ! 2) = ceb_off (layout tags)"
    "unat (lay_rgib (layout tags) ! 3) = row_size (layout tags)"
  by (simp_all add: layout_def Let_def ceb_off_def row_size_def split: prod.splits)

text \<open>
  A reader of a table whose TCINFO, row index and row matrix are found: it gets the cells of row
  \<open>i\<close> from the bytes \<open>bs ! i\<close>. Both writers end here.
\<close>

lemma field_read_law:
  fixes tags :: "prop_tag list" and rows :: "trow list"
  defines "l \<equiv> layout tags"
  assumes tags: "tags_ok tags" "distinct tags" and rows: "distinct (map tr_id rows)" "length rows < 2 ^ 32"
    and info: "look root = Some (tcinfo l index h)"
    and idx: "\<And>i :: 32 word. bth_find look index (le_bytes 4 i) =
      map_option bth_value (find (\<lambda>r. bth_key r = le_bytes 4 i) (map index_record (enumerate 0 rows)))"
    and matrix: "rows \<noteq> [] \<Longrightarrow> hnid_read look sub h = Some m"
      "\<And>i. i < length rows \<Longrightarrow> row_at (hnidIsHid h) (row_size l) m i = bs ! i"
  shows "i < length rows \<Longrightarrow> j < length tags \<Longrightarrow>
      field_read look sub root (tr_id (rows ! i)) (tags ! j) = Some (read_cell (ceb_off l) (lay_columns l ! j) (bs ! i))"
    and "row_id \<notin> set (map tr_id rows) \<or> tag \<notin> set tags \<Longrightarrow> field_read look sub' root row_id tag = None"
proof -
  have lay: "layout_ok tags l" using layout_law(1) [OF tags(1)] by (simp add: l_def)
  have lc: "length (lay_columns l) = length tags" by (rule layout_okD(1) [OF lay])
  have n: "length (lay_columns l) \<le> 255" using tags(1) lc by (simp add: tags_ok_def)
  have tci: "read_tcinfo (tcinfo l index h) = (ceb_off l, row_size l, index, h, sort_key col_tag (lay_columns l))"
    using read_tcinfo(1) [of l index h] layout_rgib [of tags] n by (simp add: l_def)
  have fr: "field_read look sub root row_id tag =
      Option.bind (map_option bth_value (find (\<lambda>r. bth_key r = le_bytes 4 row_id) (map index_record (enumerate 0 rows)))) (\<lambda>v.
      Option.bind (find (\<lambda>c. col_tag c = tag) (sort_key col_tag (lay_columns l))) (\<lambda>c.
      Option.bind (hnid_read look sub h) (\<lambda>m.
      Some (read_cell (ceb_off l) c (row_at (hnidIsHid h) (row_size l) m (unat (peek32 v)))))))" for sub row_id tag
    by (simp only: field_read_def info tci idx prod.case bind.bind_lunit)
  have ctags: "map col_tag (lay_columns l) = tags"
    using lc layout_okD(5) [OF lay] by (intro nth_equalityI) simp_all
  have dtags: "distinct (map col_tag (sort_key col_tag (lay_columns l)))"
    using tags(2) ctags by (intro distinct_sort_key) simp
  show "field_read look sub' root row_id tag = None" if "row_id \<notin> set (map tr_id rows) \<or> tag \<notin> set tags"
  proof -
    have "find (\<lambda>c. col_tag c = tag) (sort_key col_tag (lay_columns l)) = None" if "tag \<notin> set tags"
      using that unfolding ctags [symmetric] by (auto simp: find_None_iff)
    then show ?thesis using that index_records(4) [OF rows, of row_id] by (auto simp: fr)
  qed
  show "field_read look sub root (tr_id (rows ! i)) (tags ! j) = Some (read_cell (ceb_off l) (lay_columns l ! j) (bs ! i))"
    if ij: "i < length rows" "j < length tags"
  proof -
    have mem: "lay_columns l ! j \<in> set (sort_key col_tag (lay_columns l))" using ij lc by simp
    have fc: "find (\<lambda>c. col_tag c = tags ! j) (sort_key col_tag (lay_columns l)) = Some (lay_columns l ! j)"
      using find_distinct [OF dtags mem] layout_okD(5) [OF lay ij(2)] by simp
    have m: "hnid_read look sub h = Some m" by (rule matrix(1)) (use ij(1) in auto)
    have i: "unat (of_nat i :: 32 word) = i" using ij(1) rows(2) by (simp add: unat_small)
    show ?thesis using index_records(3) [OF rows ij(1)] i matrix(2) [OF ij(1)] by (simp add: fr fc m index_record_def put32_def)
  qed
qed

text \<open>What the fields of every cell are, in the state the heap was serialized from.\<close>

lemma table_serialize_law:
  assumes ok: "subs_ok (k + Suc (length (tb_rows tb) * length (tb_columns tb))) s" and tb: "table_ok tb"
    and few: "length (tb_rows tb) < 2 ^ 32" and run: "table_serialize tb s = Some (Inr stream, s')"
  defines "fr \<equiv> field_read (heap_read stream) (sub_look s') (heap_root stream)"
  shows "\<exists>t. subs_ok k s' \<and> subs_ext s s' \<and> heap_sig stream = Some (kHnSignature, kHnSigTC) \<and> length stream < 2 ^ 64 \<and>
    (\<forall>h b. deref t h = Some b \<longrightarrow> hnid_read (heap_read stream) (sub_look s') h = Some b) \<and>
    (\<forall>i < length (tb_rows tb). \<forall>j < length (tb_columns tb).
       \<exists>f. fr (tr_id (tb_rows tb ! i)) (tb_columns tb ! j) = Some f \<and> cell_shows t (tb_columns tb ! j) (tr_cells (tb_rows tb ! i) ! j) f) \<and>
    (\<forall>row_id tag sub. row_id \<notin> set (map tr_id (tb_rows tb)) \<or> tag \<notin> set (tb_columns tb) \<longrightarrow>
       field_read (heap_read stream) sub (heap_root stream) row_id tag = None)"
proof -
  let ?t0 = "\<lparr>lt_heap = HeapNode_new kHnSigTC, lt_subs = s\<rparr>" and ?tags = "tb_columns tb" and ?rows = "tb_rows tb"
  define l where "l = layout ?tags"
  let ?rs = "row_size l" and ?recs = "map index_record (enumerate 0 ?rows)"
  have lay: "layout_ok ?tags l" "8 \<le> ceb_off l \<and> ceb_off l \<le> 8 * length ?tags"
    using layout_law [OF table_ok_layout [OF tb]] by (simp_all add: l_def)
  have n: "length ?tags \<le> 255" using tb by (simp add: table_ok_def)
  have lc: "length (lay_columns l) = length ?tags" by (rule layout_okD(1) [OF lay(1)])
  have rs: "0 < ?rs" "?rs \<le> 8 * length ?tags + (length ?tags + 7) div 8" using layout_okD(2) [OF lay(1)] lay(2) by auto
  then have rs_le: "?rs \<le> 2072" using n by simp
  obtain root t where build: "table_build tb ?t0 = Some (Inr root, t)"
    using run by (auto simp: table_serialize_def with_heap_def split: option.splits prod.splits sum.splits)
  obtain bs t1 h t2 index t3 where run1: "mapM (table_row l) ?rows ?t0 = Some (Inr bs, t1)"
      and run2: "(if ?rows = [] then ret 0 else place_rows ?rs (concat bs)) t1 = Some (Inr h, t2)"
      and run3: "on_heap (buildBth 4 4 ?recs) t2 = Some (Inr index, t3)"
      and run4: "on_heap (alloc (tcinfo l index h)) t3 = Some (Inr root, t)"
    using build unfolding table_build_def l_def [symmetric] Let_def by (auto simp: bindM_Inr_iff)
  have cells: "list_all2 cell_ok ?tags (tr_cells r)" if "r \<in> set ?rows" for r using tb that by (simp add: table_ok_def)
  have small: "length (zip (lay_columns l) (tr_cells r)) \<le> length ?tags \<and> (\<forall>c \<in> set (tr_cells r). length (tc_bytes c) < 2 ^ 64)"
    if "r \<in> set ?rows" for r
    using cells [OF that] lc by (auto simp: list_all2_conv_all_nth in_set_conv_nth cell_ok_def)
  have ok0: "ltp_ok (Suc k + length ?rows * length ?tags) ?t0" using ok by (simp add: ltp_ok_def HeapNode_new_ok)
  have "ltp_ok (Suc k) t1 \<and> ltp_ext ?t0 t1 \<and> list_all2 (row_placed l t1) ?rows bs"
    by (rule table_rows_law [OF ok0 _ run1]) (use small in simp)
  then have placed: "ltp_ok (Suc k) t1" "ltp_ext ?t0 t1" "list_all2 (row_placed l t1) ?rows bs" by simp_all
  have lb: "length bs = length ?rows" using placed(3) by (simp add: list_all2_lengthD)
  have brow: "length b = ?rs" if b: "b \<in> set bs" for b
  proof -
    obtain i where i: "i < length bs" "b = bs ! i" using b by (auto simp: in_set_conv_nth)
    have r: "?rows ! i \<in> set ?rows" using i lb by simp
    have "row_placed l t1 (?rows ! i) b" unfolding i(2) by (rule list_all2_nthD2 [OF placed(3) i(1)])
    then show ?thesis by (rule row_placed_read(1) [OF lay(1) n cells [OF r]])
  qed
  have lcb: "length (concat bs) = ?rs * length ?rows"
    using length_concat_const [of bs "\<lambda>b. b" ?rs] brow lb by simp
  have plen: "length (pad_rows (kMaxBlockData div ?rs * ?rs) (concat bs)) < 2 ^ 64"
  proof -
    have "length (pad_rows (kMaxBlockData div ?rs * ?rs) (concat bs)) \<le> kMaxBlockData * (?rs * length ?rows)"
      using length_pad_rows_le [of "kMaxBlockData div ?rs * ?rs" "concat bs"] lcb by simp
    also have "\<dots> \<le> kMaxBlockData * (2072 * 2 ^ 32)" using rs_le few by (intro mult_le_mono) simp_all
    finally show ?thesis by simp
  qed
  have l2: "ltp_ok k t2 \<and> ltp_ext t1 t2 \<and> (?rows \<noteq> [] \<longrightarrow>
      deref t2 h = Some (if hnidIsHid h then concat bs else pad_rows (kMaxBlockData div ?rs * ?rs) (concat bs)))"
  proof (cases "?rows = []")
    case True
    then show ?thesis using run2 placed(1) subs_ok_mono by (auto simp: ret_run ltp_ok_def)
  next
    case False
    then show ?thesis using place_rows_law [OF placed(1) _ plen, of h t2] run2 by simp
  qed
  note idx = index_records [OF _ few]
  have dist: "distinct (map tr_id ?rows)" using tb by (simp add: table_ok_def)
  note l3 = on_heap_bth_law [OF conjunct1 [OF l2] idx(1) [OF dist] run3]
  note l4 = on_heap_alloc_law [OF conjunct1 [OF l3] run4]
  have ext: "ltp_ext ?t0 t" "ltp_ext t1 t" "ltp_ext t2 t" using placed(2) l2 l3 l4 ltp_ext_trans by blast+
  note heap = with_heap_law [OF build conjunct1 [OF l4] ext(1) run [unfolded table_serialize_def]]
  have bst: "bth_find (heap_read stream) index (le_bytes 4 row_id) = map_option bth_value (find (\<lambda>r. bth_key r = le_bytes 4 row_id) ?recs)" for row_id
  proof (rule bth_stored_find [OF _ idx(1) [OF dist] idx(2) [OF dist]])
    have "bth_stored (heap_look (lt_heap t3)) 4 4 index ?recs" using l3 by blast
    then have "bth_stored (heap_look (lt_heap t)) 4 4 index ?recs"
      by (rule bth_stored_mono) (use l4 in \<open>auto simp: ltp_ext_def hn.extends_def\<close>)
    then show "bth_stored (heap_read stream) 4 4 index ?recs" by (rule heap(7))
  qed simp
  have info: "heap_read stream root = Some (tcinfo l index h)" using heap(5) l4 by blast
  let ?m = "if hnidIsHid h then concat bs else pad_rows (kMaxBlockData div ?rs * ?rs) (concat bs)"
  have m: "hnid_read (heap_read stream) (sub_look s') h = Some ?m" if "?rows \<noteq> []"
    using l2 that deref_ext [OF ext(3)] by (intro heap(6)) auto
  have at: "row_at (hnidIsHid h) ?rs ?m i = bs ! i" if "i < length ?rows" for i
    using row_at_packed [of bs ?rs i] row_at_padded [of ?rs bs i] brow that lb rs(1) rs_le by simp
  have dtags: "distinct ?tags" using tb by (simp add: table_ok_def)
  note read = field_read_law [OF table_ok_layout [OF tb] dtags dist few info [unfolded l_def] bst m [unfolded l_def] at [unfolded l_def], folded l_def]
  have none: "field_read (heap_read stream) sub (heap_root stream) row_id tag = None"
    if "row_id \<notin> set (map tr_id ?rows) \<or> tag \<notin> set ?tags" for row_id tag sub
    unfolding heap(2) by (rule read(2) [OF _ _ that]) (simp_all add: l_def)
  have cellr: "\<exists>f. fr (tr_id (?rows ! i)) (?tags ! j) = Some f \<and> cell_shows t (?tags ! j) (tr_cells (?rows ! i) ! j) f"
    if ij: "i < length ?rows" "j < length ?tags" for i j
  proof -
    have f: "fr (tr_id (?rows ! i)) (?tags ! j) = Some (read_cell (ceb_off l) (lay_columns l ! j) (bs ! i))"
      unfolding fr_def heap(2) by (rule read(1) [OF _ _ ij]) (simp_all add: l_def)
    have "row_placed l t1 (?rows ! i) (bs ! i)" using placed(3) ij(1) by (simp add: list_all2_conv_all_nth)
    then have "row_placed l t (?rows ! i) (bs ! i)" using ext(2) by (rule row_placed_ext)
    then show ?thesis using row_placed_read(2) [OF lay(1) n cells] ij f by force
  qed
  have "subs_ok k s'" "subs_ext s s'" using l4 ext(1) by (simp_all add: heap(1) ltp_ok_def ltp_ext_def)
  then show ?thesis
    by (intro exI [of _ t] conjI allI impI) (use heap(3,4,6) none cellr in blast)+
qed

text \<open>What a cell holds, as a reader sees it.\<close>

definition cell_value :: "tcell \<Rightarrow> bytes option" where
  "cell_value c = (if tc_present c then Some (tc_bytes c) else None)"

lemma table_read_value:
  assumes f: "field_read look sub root row_id tag = Some f" and c: "cell_shows t tag c f"
    and deref: "\<And>h b. deref t h = Some b \<Longrightarrow> hnid_read look sub h = Some b"
  shows "table_read look sub root row_id tag = Some (cell_value c)"
  using f c deref by (auto simp: table_read_def cell_shows_def cell_value_def split: if_splits)

subsection \<open>Serializing succeeds\<close>

lemma cell_field_room:
  assumes room: "blocks_left (Suc j) (lt_heap t)" and len: "length (tc_bytes (snd x)) \<le> maxAllocSize"
  shows "\<exists>f t'. cell_field x t = Some (Inr f, t') \<and> blocks_left j (lt_heap t') \<and> lt_subs t' = lt_subs t"
proof -
  obtain c cell where x: "x = (c, cell)" by fastforce
  show ?thesis
  proof (cases "tc_present cell \<and> tc_variable cell \<and> tc_bytes cell \<noteq> []")
    case True
    obtain h hp where hp: "alloc (tc_bytes cell) (lt_heap t) = Some (Inr h, hp)" "blocks_left j hp"
      using hn_bth.room_put [OF room, of "tc_bytes cell"] len x by auto
    then have "place_bytes (tc_bytes cell) t = Some (Inr h, t\<lparr>lt_heap := hp\<rparr>)"
      using len x by (simp add: place_bytes_def on_heap_run)
    then have "cell_field x t = Some (Inr (Some (le_bytes 4 h)), t\<lparr>lt_heap := hp\<rparr>)"
      using True by (simp add: x cell_field_def prog_simps bindM_run)
    then show ?thesis using hp(2) by fastforce
  next
    case False
    then show ?thesis
      using hn_bth.room_mono [OF room, of j] by (auto simp: x cell_field_def ret_run)
  qed
qed

lemma table_row_room:
  assumes room: "blocks_left (j + length (zip (lay_columns l) (tr_cells row))) (lt_heap t)"
    and len: "\<forall>c \<in> set (tr_cells row). length (tc_bytes c) \<le> maxAllocSize"
  shows "\<exists>b t'. table_row l row t = Some (Inr b, t') \<and> blocks_left j (lt_heap t') \<and> lt_subs t' = lt_subs t"
proof -
  let ?xs = "zip (lay_columns l) (tr_cells row)"
  let ?P = "\<lambda>i (u :: ltp). blocks_left i (lt_heap u) \<and> lt_subs u = lt_subs t"
  have "?P (j + length ?xs) t" using room by simp
  then have "\<exists>cells t'. mapM cell_field ?xs t = Some (Inr cells, t') \<and> ?P j t'"
  proof (rule mapM_budget [rotated])
    fix i x u
    assume x: "x \<in> set ?xs" and P: "?P (Suc i) u"
    have "length (tc_bytes (snd x)) \<le> maxAllocSize" using len x set_zip_rightD [of "fst x" "snd x"] by auto
    from cell_field_room [OF conjunct1 [OF P] this] P
    show "\<exists>y s'. cell_field x u = Some (Inr y, s') \<and> ?P i s'" by auto
  qed
  then show ?thesis by (auto simp: table_row_def prog_simps)
qed

lemma table_serialize_room:
  assumes ok: "subs_ok k s" "Suc (length (tb_rows tb) * length (tb_columns tb)) \<le> k" and tb: "table_ok tb"
    and few: "length (tb_rows tb) * (length (tb_columns tb) + 2) + 3 < 2 ^ 16"
    and cells: "\<forall>r \<in> set (tb_rows tb). \<forall>c \<in> set (tr_cells r). length (tc_bytes c) \<le> maxAllocSize"
    and matrix: "row_size (layout (tb_columns tb)) * length (tb_rows tb) \<le> maxAllocSize"
  shows "\<exists>stream. table_serialize tb s = Some (Inr stream, s)"
proof -
  let ?t0 = "\<lparr>lt_heap = HeapNode_new kHnSigTC, lt_subs = s\<rparr>" and ?tags = "tb_columns tb" and ?rows = "tb_rows tb"
  define l where "l = layout ?tags"
  let ?rs = "row_size l" and ?recs = "map index_record (enumerate 0 ?rows)" and ?n = "length ?tags" and ?m = "length ?rows"
  have lay: "layout_ok ?tags l" using layout_law(1) [OF table_ok_layout [OF tb]] by (simp add: l_def)
  have n: "?n \<le> 255" using tb by (simp add: table_ok_def)
  have lc: "length (lay_columns l) = ?n" by (rule layout_okD(1) [OF lay])
  have zl: "length (zip (lay_columns l) (tr_cells r)) \<le> ?n" for r using lc by simp
  let ?P = "\<lambda>j (u :: ltp). blocks_left (2 * ?m + 3 + j * ?n) (lt_heap u) \<and> lt_subs u = s"
  have "?P (0 + ?m) ?t0" using few HeapNode_new_ok by (simp add: blocks_left_def HeapNode_new_def algebra_simps)
  then have "\<exists>bs t. mapM (table_row l) ?rows ?t0 = Some (Inr bs, t) \<and> ?P 0 t"
  proof (rule mapM_budget [rotated])
    fix j r u
    assume r: "r \<in> set ?rows" and P: "?P (Suc j) u"
    have "blocks_left (2 * ?m + 3 + j * ?n + length (zip (lay_columns l) (tr_cells r))) (lt_heap u)"
      by (rule hn_bth.room_mono [OF conjunct1 [OF P]]) (use zl [of r] in simp)
    from table_row_room [OF this] cells r P
    show "\<exists>y s'. table_row l r u = Some (Inr y, s') \<and> ?P j s'" by auto
  qed
  then obtain bs t1 where 1: "mapM (table_row l) ?rows ?t0 = Some (Inr bs, t1)" "blocks_left (2 * ?m + 3) (lt_heap t1)" "lt_subs t1 = s"
    by auto
  have small: "length (zip (lay_columns l) (tr_cells r)) \<le> ?n \<and> (\<forall>c \<in> set (tr_cells r). length (tc_bytes c) < 2 ^ 64)" if r: "r \<in> set ?rows" for r
    using zl cells r by (force intro: le_less_trans)
  have "subs_ok (0 + ?m * ?n) s" by (rule subs_ok_mono [OF ok(1)]) (use ok(2) in simp)
  then have "ltp_ok (0 + ?m * ?n) ?t0" by (simp add: ltp_ok_def HeapNode_new_ok)
  then have "ltp_ok 0 t1 \<and> ltp_ext ?t0 t1 \<and> list_all2 (row_placed l t1) ?rows bs"
    by (rule table_rows_law [OF _ _ 1(1)]) (use small in blast)
  then have placed: "list_all2 (row_placed l t1) ?rows bs" by simp
  have brow: "length b = ?rs" if b: "b \<in> set bs" for b
  proof -
    obtain i where i: "i < length bs" "b = bs ! i" using b by (auto simp: in_set_conv_nth)
    have r: "?rows ! i \<in> set ?rows" using i placed by (simp add: list_all2_lengthD)
    have c: "list_all2 cell_ok ?tags (tr_cells (?rows ! i))" using tb r by (simp add: table_ok_def)
    have "row_placed l t1 (?rows ! i) b" unfolding i(2) by (rule list_all2_nthD2 [OF placed i(1)])
    then show ?thesis by (rule row_placed_read(1) [OF lay n c])
  qed
  have "length (concat bs) = ?rs * ?m"
    using length_concat_const [of bs "\<lambda>b. b" ?rs] brow placed by (simp add: list_all2_lengthD)
  then have mlen: "length (concat bs) \<le> maxAllocSize" using matrix by (simp add: l_def)
  obtain h t2 where 2: "(if ?rows = [] then ret 0 else place_rows ?rs (concat bs)) t1 = Some (Inr h, t2)"
      "blocks_left (2 * ?m + 2) (lt_heap t2)" "lt_subs t2 = s"
  proof (cases "?rows = []")
    case True
    show ?thesis
      by (rule that [of 0 t1]) (use True 1 hn_bth.room_mono [OF 1(2)] in \<open>simp_all add: ret_run\<close>)
  next
    case False
    have "blocks_left (Suc (2 * ?m + 2)) (lt_heap t1)" using 1(2) by (simp add: eval_nat_numeral)
    then obtain h hp where hp: "alloc (concat bs) (lt_heap t1) = Some (Inr h, hp)" "blocks_left (2 * ?m + 2) hp"
      using hn_bth.room_put mlen by blast
    show ?thesis
      by (rule that [of h "t1\<lparr>lt_heap := hp\<rparr>"]) (use False hp 1(3) mlen in \<open>simp_all add: place_rows_def on_heap_run\<close>)
  qed
  have dist: "distinct (map tr_id ?rows)" using tb by (simp add: table_ok_def)
  have "?m < 2 ^ 32" "?m \<le> 675 ^ 8" using few by (simp_all add: algebra_simps)
  note fit = index_records(1) [OF dist this(1)] and len8 = this(2)
  have "blocks_left (1 + 2 * length ?recs + 1) (lt_heap t2)" using 2(2) by simp
  then obtain index hp where hp: "buildBth 4 4 ?recs (lt_heap t2) = Some (Inr index, hp)" "blocks_left 1 hp"
    using hn_bth.buildBthInto_room [OF _ fit, of 1 "lt_heap t2"] len8 unfolding buildBth_def by auto
  then have 3: "on_heap (buildBth 4 4 ?recs) t2 = Some (Inr index, t2\<lparr>lt_heap := hp\<rparr>)" by (simp add: on_heap_run)
  have "length (tcinfo l index h) \<le> 22 + 8 * 255"
    using read_tcinfo(2) [of l index h] layout_rgib(1) [of ?tags] lc n by (simp add: l_def)
  then have "length (tcinfo l index h) \<le> maxAllocSize" by (simp add: maxAllocSize_def pageMapSize_def)
  moreover have "blocks_left (Suc 0) hp" using hp(2) by simp
  ultimately obtain root hp2 where "alloc (tcinfo l index h) hp = Some (Inr root, hp2)"
    using hn_bth.room_put by blast
  then have 4: "on_heap (alloc (tcinfo l index h)) (t2\<lparr>lt_heap := hp\<rparr>) = Some (Inr root, t2\<lparr>lt_heap := hp2\<rparr>)"
    by (simp add: on_heap_run)
  have "table_build tb ?t0 = Some (Inr root, t2\<lparr>lt_heap := hp2\<rparr>)"
    unfolding table_build_def l_def [symmetric] Let_def using 1(1) 2(1) 3 4 by (simp add: bindM_run)
  then show ?thesis using 2(3) by (simp add: table_serialize_def with_heap_def)
qed

subsection \<open>Properties\<close>

text \<open>
  The table's invariant is kept by every operation: a new table has it, a declared column, a
  row under a fresh id and a cell set with the shape its type asks for keep it, a setter changes
  no row id and no column, and a row added starts with the id and the version its index needs.
\<close>

theorem table_invariant:
  "table_ok TableContext_new \<and>
   (table_ok t \<and> length (tb_columns t) < 255 \<longrightarrow> table_ok (addColumn tag t)) \<and>
   (table_ok t \<and> row_id \<notin> set (map tr_id (tb_rows t)) \<and> addRow row_id t = Some (r, t') \<longrightarrow>
      table_ok t' \<and> r = Inr (length (tb_rows t)) \<and> map tr_id (tb_rows t') = map tr_id (tb_rows t) @ [row_id]) \<and>
   (table_ok t \<and> cell_ok tag c \<and> set_tcell i tag c t = Some (q, t'') \<longrightarrow>
      table_ok t'' \<and> tb_columns t'' = tb_columns t \<and> map tr_id (tb_rows t'') = map tr_id (tb_rows t))"
  using table_ok_new table_ok_addColumn table_ok_addRow table_ok_set by blast

text \<open>A recipient table with one row, built by the operations.\<close>

definition recipient_row :: "(table, unit) prog" where
  "recipient_row =
     bindM (addRow 7) (\<lambda>r.
     bindM (tc_setString r PR_DISPLAY_NAME ''Ann'') (\<lambda>_.
     tc_setInt32 r PR_RECIPIENT_TYPE 1))"

definition sample_table :: table where
  "sample_table = \<lparr>tb_columns = [PidTagLtpRowId, PidTagLtpRowVer, PR_DISPLAY_NAME, PR_RECIPIENT_TYPE],
     tb_rows = [\<lparr>tr_id = 7, tr_cells = [fixed_cell [7, 0, 0, 0], fixed_cell [1, 0, 0, 0],
       variable_cell [65, 0, 110, 0, 110, 0], fixed_cell [1, 0, 0, 0]]\<rparr>]\<rparr>"

lemma ann_bytes: "string_bytes PR_DISPLAY_NAME ''Ann'' = [65, 0, 110, 0, 110, 0]"
proof -
  have "utf8ToUtf16le ''Ann'' = [65, 0, 110, 0, 110, 0]" by code_simp
  then show ?thesis by (simp add: string_bytes_def)
qed

lemma recipient_row_run:
  "recipient_row (addColumn PR_RECIPIENT_TYPE (addColumn PR_DISPLAY_NAME TableContext_new)) = Some (Inr (), sample_table)"
proof -
  have le4: "le_bytes 4 (7 :: 32 word) = [7, 0, 0, 0]" "le_bytes 4 (1 :: 32 word) = [1, 0, 0, 0]"
    by (simp_all add: le_bytes_def upt_conv_Cons)
  have tags: "PidTagLtpRowId = 0x67F20003" "PidTagLtpRowVer = 0x67F30003" "PR_DISPLAY_NAME = 0x3001001F" "PR_RECIPIENT_TYPE = 0x0C150003"
    by (simp_all add: makeTag_def)
  have new: "addColumn PR_RECIPIENT_TYPE (addColumn PR_DISPLAY_NAME TableContext_new) =
      \<lparr>tb_columns = [0x67F20003, 0x67F30003, 0x3001001F, 0x0C150003], tb_rows = []\<rparr>"
    by (simp add: addColumn_def TableContext_new_def tags)
  have rep4: "replicate 4 x = [x, x, x, x]" for x :: tcell by (simp add: numeral_eq_Suc)
  show ?thesis
    unfolding new unfolding recipient_row_def addRow_def tc_setInt32_def tc_setString_def put32_def append_Nil le4 sample_table_def tags
    by (simp add: ann_bytes [unfolded tags] rep4 bindM_def getM_def modM_def ret_def set_tcell_eq numeral_2_eq_2 [symmetric])
qed

lemma sample_table_ok: "table_ok sample_table"
proof -
  have "distinct (tb_columns sample_table)" by (simp add: sample_table_def makeTag_def)
  then show ?thesis
    by (simp add: sample_table_def table_ok_def cell_ok_def fixed_cell_def variable_cell_def column_width_def fixedPropSize_def)
qed

lemma table_invariant_witness:
  "\<exists>r t'. addRow 9 sample_table = Some (r, t') \<and> table_ok t' \<and> map tr_id (tb_rows t') = [7, 9]"
proof -
  have "length (tb_rows sample_table) < length (tb_rows (sample_table\<lparr>tb_rows := tb_rows sample_table @ [x]\<rparr>))" for x by simp
  then obtain r t' where run: "addRow 9 sample_table = Some (r, t')"
    by (cases "addRow 9 sample_table") (auto simp: addRow_def bindM_def getM_def modM_def tc_setInt32_def set_tcell_eq ret_def split: option.splits)
  moreover have "9 \<notin> set (map tr_id (tb_rows sample_table))" by (simp add: sample_table_def)
  ultimately have "table_ok t' \<and> map tr_id (tb_rows t') = map tr_id (tb_rows sample_table) @ [9]"
    using table_invariant [of sample_table] sample_table_ok by blast
  then show ?thesis using run by (auto simp: sample_table_def)
qed

text \<open>
  C20: A table reads back. From the serialized heap and the node's subnodes a reader finds, for every
  row id and every column, exactly what the cell holds, absent, inline, in the heap or in a subnode,
  wherever the rows themselves were stored; it finds nothing under any other row id or column.
\<close>

theorem table_roundtrip:
  assumes "subs_ok (Suc (length (tb_rows tb) * length (tb_columns tb))) s" and "table_ok tb"
    and "length (tb_rows tb) < 2 ^ 32" and "table_serialize tb s = Some (Inr stream, s')"
  shows "heap_sig stream = Some (kHnSignature, kHnSigTC) \<and>
    (\<forall>i < length (tb_rows tb). \<forall>j < length (tb_columns tb).
       table_read (heap_read stream) (sub_look s') (heap_root stream) (tr_id (tb_rows tb ! i)) (tb_columns tb ! j) =
         Some (cell_value (tr_cells (tb_rows tb ! i) ! j))) \<and>
    (\<forall>row_id tag. row_id \<notin> set (map tr_id (tb_rows tb)) \<or> tag \<notin> set (tb_columns tb) \<longrightarrow>
       table_read (heap_read stream) (sub_look s') (heap_root stream) row_id tag = None)"
proof -
  have "subs_ok (0 + Suc (length (tb_rows tb) * length (tb_columns tb))) s" using assms(1) by simp
  from table_serialize_law [OF this assms(2-4)] obtain t
    where sig: "heap_sig stream = Some (kHnSignature, kHnSigTC)"
      and deref: "\<forall>h b. deref t h = Some b \<longrightarrow> hnid_read (heap_read stream) (sub_look s') h = Some b"
      and cells: "\<forall>i < length (tb_rows tb). \<forall>j < length (tb_columns tb). \<exists>f.
        field_read (heap_read stream) (sub_look s') (heap_root stream) (tr_id (tb_rows tb ! i)) (tb_columns tb ! j) = Some f \<and>
        cell_shows t (tb_columns tb ! j) (tr_cells (tb_rows tb ! i) ! j) f"
      and none: "\<forall>row_id tag. row_id \<notin> set (map tr_id (tb_rows tb)) \<or> tag \<notin> set (tb_columns tb) \<longrightarrow>
        field_read (heap_read stream) (sub_look s') (heap_root stream) row_id tag = None"
    by blast
  have "table_read (heap_read stream) (sub_look s') (heap_root stream) (tr_id (tb_rows tb ! i)) (tb_columns tb ! j) =
      Some (cell_value (tr_cells (tb_rows tb ! i) ! j))" if "i < length (tb_rows tb)" "j < length (tb_columns tb)" for i j
    using cells that table_read_value deref by blast
  then show ?thesis using sig none by (simp add: table_read_def)
qed

text \<open>
  Serializing a table returns whenever its cells and its rows fit the heap: up to the 65535
  blocks a heap can number it throws nothing, writes no block and takes no subnode.
\<close>

theorem table_serialize_succeeds:
  assumes "subs_ok k s" and "Suc (length (tb_rows tb) * length (tb_columns tb)) \<le> k" and "table_ok tb"
    and "length (tb_rows tb) * (length (tb_columns tb) + 2) + 3 < 2 ^ 16"
    and "\<forall>r \<in> set (tb_rows tb). \<forall>c \<in> set (tr_cells r). length (tc_bytes c) \<le> maxAllocSize"
    and "row_size (layout (tb_columns tb)) * length (tb_rows tb) \<le> maxAllocSize"
  shows "\<exists>stream. table_serialize tb s = Some (Inr stream, s)"
  by (rule table_serialize_room [OF assms])

lemma sample_table_fits: "length (tb_rows sample_table) * (length (tb_columns sample_table) + 2) + 3 < 2 ^ 16"
    "\<forall>r \<in> set (tb_rows sample_table). \<forall>c \<in> set (tr_cells r). length (tc_bytes c) \<le> maxAllocSize"
    "row_size (layout (tb_columns sample_table)) * length (tb_rows sample_table) \<le> maxAllocSize"
  by (simp_all add: sample_table_def fixed_cell_def variable_cell_def layout_def row_size_def make_column_def
      column_width_def fixedPropSize_def)

lemma table_serialize_succeeds_witness:
  "\<exists>st stream. NdbWriter_new ''mail.pst'' True (\<lambda>_ _. True) = Inr st \<and>
    table_serialize sample_table (SubnodeAllocator_new st) = Some (Inr stream, SubnodeAllocator_new st)"
proof -
  obtain st where st: "NdbWriter_new ''mail.pst'' True (\<lambda>_ _. True) = Inr st" using fresh_exists by blast
  have "subs_ok 9 (SubnodeAllocator_new st)" by (intro subs_ok_new store_ok_new [OF st]) simp
  from table_serialize_succeeds [OF this _ sample_table_ok sample_table_fits] st show ?thesis
    by (auto simp: sample_table_def)
qed

lemma table_roundtrip_witness:
  "\<exists>st stream s'. NdbWriter_new ''mail.pst'' True (\<lambda>_ _. True) = Inr st \<and>
    table_serialize sample_table (SubnodeAllocator_new st) = Some (Inr stream, s') \<and>
    table_read (heap_read stream) (sub_look s') (heap_root stream) 7 PR_DISPLAY_NAME = Some (Some [65, 0, 110, 0, 110, 0]) \<and>
    table_read (heap_read stream) (sub_look s') (heap_root stream) 7 PR_RECIPIENT_TYPE = Some (Some [1, 0, 0, 0]) \<and>
    table_read (heap_read stream) (sub_look s') (heap_root stream) 8 PR_DISPLAY_NAME = None"
proof -
  obtain st where st: "NdbWriter_new ''mail.pst'' True (\<lambda>_ _. True) = Inr st" using fresh_exists by blast
  have ok: "subs_ok 9 (SubnodeAllocator_new st)" by (intro subs_ok_new store_ok_new [OF st]) simp
  obtain stream where run: "table_serialize sample_table (SubnodeAllocator_new st) = Some (Inr stream, SubnodeAllocator_new st)"
    using table_serialize_room [OF ok _ sample_table_ok sample_table_fits] by (auto simp: sample_table_def)
  have "subs_ok (Suc (length (tb_rows sample_table) * length (tb_columns sample_table))) (SubnodeAllocator_new st)"
    by (rule subs_ok_mono [OF ok]) (simp add: sample_table_def)
  note rt = table_roundtrip [OF this sample_table_ok _ run]
  have few: "length (tb_rows sample_table) < 2 ^ 32" by (simp add: sample_table_def)
  let ?r = "table_read (heap_read stream) (sub_look (SubnodeAllocator_new st)) (heap_root stream)"
  have cells: "\<forall>i < length (tb_rows sample_table). \<forall>j < length (tb_columns sample_table).
      ?r (tr_id (tb_rows sample_table ! i)) (tb_columns sample_table ! j) = Some (cell_value (tr_cells (tb_rows sample_table ! i) ! j))"
    and none: "\<forall>row_id tag. row_id \<notin> set (map tr_id (tb_rows sample_table)) \<or> tag \<notin> set (tb_columns sample_table) \<longrightarrow> ?r row_id tag = None"
    using rt [OF few] by blast+
  have "?r 7 PR_DISPLAY_NAME = Some (Some [65, 0, 110, 0, 110, 0])"
    using cells [rule_format, of 0 2] by (simp add: sample_table_def cell_value_def variable_cell_def)
  moreover have "?r 7 PR_RECIPIENT_TYPE = Some (Some [1, 0, 0, 0])"
    using cells [rule_format, of 0 3] by (simp add: sample_table_def cell_value_def fixed_cell_def)
  moreover have "?r 8 PR_DISPLAY_NAME = None"
    using none [rule_format, of 8] by (simp add: sample_table_def)
  ultimately show ?thesis using st run by blast
qed

end
