(* ===== verification/Streaming_Table.thy ===== *)
theory Streaming_Table
  imports Streaming_Heap Ltp_Table
begin

section \<open>The streaming table (src/pst/streaming_table.cpp, class TableContextWriter)\<close>

text \<open>
  The table of a folder's contents, written row by row: variable values go into a streaming heap or
  a subnode as they are set, finished rows into a block that is handed to the file when full. The
  in-memory \<open>TableContext\<close> is the specification: a reader of what \<open>finish\<close> wrote finds exactly the
  cells that the same operations leave in the in-memory table.
\<close>

subsection \<open>State\<close>

record twriter =
  tw_tags :: "prop_tag list"
  tw_layout :: row_layout
  tw_rows_per_block :: nat
  tw_heap :: sheap
  tw_entries :: "subnode list"
  tw_next :: "32 word"
  tw_row_block :: bytes
  tw_row_leaves :: "bid list"
  tw_row_bytes :: "64 word"
  tw_current_row :: bytes
  tw_in_row :: bool
  tw_row_count :: nat
  tw_row_index :: "(32 word \<times> 32 word) list"

record tstate =
  ts_ndb :: ndb
  ts_w :: twriter

text \<open>The streaming heap and the subnode allocator inside the writer work on the same file.\<close>

definition ts_streaming :: "tstate \<Rightarrow> streaming" where
  "ts_streaming s = \<lparr>st_ndb = ts_ndb s, st_heap = tw_heap (ts_w s)\<rparr>"

definition ts_subs :: "tstate \<Rightarrow> subs" where
  "ts_subs s = \<lparr>sa_ndb = ts_ndb s, sa_entries = tw_entries (ts_w s), sa_next = tw_next (ts_w s)\<rparr>"

definition tw_on_heap :: "(streaming, 'a) prog \<Rightarrow> (tstate, 'a) prog" where
  "tw_on_heap = zoomM ts_streaming (\<lambda>h s. \<lparr>ts_ndb = st_ndb h, ts_w = (ts_w s)\<lparr>tw_heap := st_heap h\<rparr>\<rparr>)"

definition tw_on_subs :: "(subs, 'a) prog \<Rightarrow> (tstate, 'a) prog" where
  "tw_on_subs = zoomM ts_subs (\<lambda>u s. \<lparr>ts_ndb = sa_ndb u, ts_w = (ts_w s)\<lparr>tw_entries := sa_entries u, tw_next := sa_next u\<rparr>\<rparr>)"

definition tw_on_ndb :: "(ndb, 'a) prog \<Rightarrow> (tstate, 'a) prog" where
  "tw_on_ndb = zoomM ts_ndb (\<lambda>d s. s\<lparr>ts_ndb := d\<rparr>)"

abbreviation upd_w :: "(twriter \<Rightarrow> twriter) \<Rightarrow> tstate \<Rightarrow> tstate" where
  "upd_w f s \<equiv> s\<lparr>ts_w := f (ts_w s)\<rparr>"

subsection \<open>Layout\<close>

text \<open>The loops of \<open>layout\<close> run over the column indices and assign in place.\<close>

definition place_at :: "byte \<Rightarrow> nat list \<Rightarrow> column list \<times> 16 word \<Rightarrow> column list \<times> 16 word" where
  "place_at w = fold (\<lambda>i (cols, off).
     if col_cb (cols ! i) = w then (cols[i := (cols ! i)\<lparr>col_ib := off\<rparr>], off + ucast w) else (cols, off))"

definition writer_layout :: "prop_tag list \<Rightarrow> row_layout" where
  "writer_layout tags =
     (let n = length tags;
          made = map (\<lambda>i. make_column i (tags ! i)) [0..<n];
          pinned = made[0 := (made ! 0)\<lparr>col_ib := 0\<rparr>, 1 := (made ! 1)\<lparr>col_ib := 4\<rparr>];
          (c8, o8) = place_at 8 [2..<n] (pinned, 8);
          (c4, o4) = place_at 4 [2..<n] (c8, o8);
          (c2, o2) = place_at 2 [2..<n] (c4, o4);
          (c1, o1) = place_at 1 [2..<n] (c2, o2);
          off = o1 + of_nat ((n + 7) div 8)
      in \<lparr>lay_columns = c1, lay_rgib = [o4, o2, o1, off], lay_size = off\<rparr>)"

definition add_tag :: "prop_tag \<Rightarrow> prop_tag list \<Rightarrow> prop_tag list" where
  "add_tag tag tags = (if tag \<in> set tags then tags else tags @ [tag])"

definition TableContextWriter_new :: "prop_tag list \<Rightarrow> twriter" where
  "TableContextWriter_new columns =
     (let tags = fold add_tag columns [PidTagLtpRowId, PidTagLtpRowVer]; l = writer_layout tags in
      \<lparr>tw_tags = tags, tw_layout = l, tw_rows_per_block = kMaxBlockData div row_size l,
       tw_heap = StreamingHeap_new kHnSigTC, tw_entries = [], tw_next = 1,
       tw_row_block = [], tw_row_leaves = [], tw_row_bytes = 0, tw_current_row = [], tw_in_row = False,
       tw_row_count = 0, tw_row_index = []\<rparr>)"

subsection \<open>Rows\<close>

definition tw_column :: "prop_tag \<Rightarrow> (tstate, column) prog" where
  "tw_column tag =
     bindM (getM (\<lambda>s. lay_columns (tw_layout (ts_w s)))) (\<lambda>cols.
     bindM (columnIndex (map col_tag cols) tag) (\<lambda>i. ret (cols ! i)))"

text \<open>The bytes poked into the current row at the column's offset, and its bit in the bitmap.\<close>

definition tw_poke :: "column \<Rightarrow> bytes \<Rightarrow> (tstate, unit) prog" where
  "tw_poke c b = modM (upd_w (\<lambda>w. w\<lparr>tw_current_row := set_cell (ceb_off (tw_layout w)) c b (tw_current_row w)\<rparr>))"

definition tw_setInt16 :: "prop_tag \<Rightarrow> 16 word \<Rightarrow> (tstate, unit) prog" where
  "tw_setInt16 tag v = bindM (tw_column tag) (\<lambda>c. tw_poke c (le_bytes 2 v))"

definition tw_setInt32 :: "prop_tag \<Rightarrow> 32 word \<Rightarrow> (tstate, unit) prog" where
  "tw_setInt32 tag v = bindM (tw_column tag) (\<lambda>c. tw_poke c (le_bytes 4 v))"

definition tw_setBool :: "prop_tag \<Rightarrow> bool \<Rightarrow> (tstate, unit) prog" where
  "tw_setBool tag v = bindM (tw_column tag) (\<lambda>c. tw_poke c [if v then 1 else 0])"

definition tw_setInt64 :: "prop_tag \<Rightarrow> 64 word \<Rightarrow> (tstate, unit) prog" where
  "tw_setInt64 tag v = bindM (tw_column tag) (\<lambda>c. tw_poke c (le_bytes 8 v))"

definition tw_setTime :: "prop_tag \<Rightarrow> 64 word \<Rightarrow> (tstate, unit) prog" where
  "tw_setTime tag filetime = tw_setInt64 tag filetime"

definition tw_place :: "bytes \<Rightarrow> (tstate, hnid) prog" where
  "tw_place b = (if b = [] then ret 0
     else if length b \<le> maxAllocSize then tw_on_heap (sheap_alloc b) else tw_on_subs (spill b))"

definition tw_setBinary :: "prop_tag \<Rightarrow> bytes \<Rightarrow> (tstate, unit) prog" where
  "tw_setBinary tag b = bindM (tw_column tag) (\<lambda>c. bindM (tw_place b) (\<lambda>hnid. tw_poke c (le_bytes 4 hnid)))"

definition tw_setString :: "prop_tag \<Rightarrow> string \<Rightarrow> (tstate, unit) prog" where
  "tw_setString tag utf8 = tw_setBinary tag (string_bytes tag utf8)"

definition beginRow :: "32 word \<Rightarrow> (tstate, unit) prog" where
  "beginRow row_id =
     bindM (getM (\<lambda>s. tw_in_row (ts_w s))) (\<lambda>inside.
     bindM (throw_if inside (PstError ''beginRow called inside a row'')) (\<lambda>_.
     bindM (modM (upd_w (\<lambda>w. w\<lparr>tw_in_row := True, tw_current_row := replicate (row_size (tw_layout w)) 0,
       tw_row_index := tw_row_index w @ [(row_id, of_nat (tw_row_count w))]\<rparr>))) (\<lambda>_.
     bindM (tw_setInt32 PidTagLtpRowId row_id) (\<lambda>_.
     tw_setInt32 PidTagLtpRowVer 1))))"

text \<open>\<open>row_block_.resize(kMaxBlockData, 0)\<close>, in place, before the block is written.\<close>

definition resize_bytes :: "nat \<Rightarrow> bytes \<Rightarrow> bytes" where
  "resize_bytes n b = take n b @ replicate (n - length b) 0"

definition flushRowBlock :: "bool \<Rightarrow> (tstate, unit) prog" where
  "flushRowBlock is_last =
     bindM (getM (\<lambda>s. tw_row_block (ts_w s))) (\<lambda>block.
     if block = [] then ret ()
     else
       bindM (if \<not> is_last then modM (upd_w (\<lambda>w. w\<lparr>tw_row_block := resize_bytes kMaxBlockData (tw_row_block w)\<rparr>)) else ret ()) (\<lambda>_.
       bindM (getM (\<lambda>s. tw_row_block (ts_w s))) (\<lambda>block.
       bindM (tw_on_ndb (writeLeafChunk block)) (\<lambda>b.
       modM (upd_w (\<lambda>w. w\<lparr>tw_row_leaves := tw_row_leaves w @ [b], tw_row_bytes := tw_row_bytes w + of_nat (length block),
         tw_row_block := []\<rparr>))))))"

definition endRow :: "(tstate, unit) prog" where
  "endRow =
     bindM (getM (\<lambda>s. tw_in_row (ts_w s))) (\<lambda>inside.
     bindM (throw_if (\<not> inside) (PstError ''endRow without beginRow'')) (\<lambda>_.
     bindM (modM (upd_w (\<lambda>w. w\<lparr>tw_in_row := False\<rparr>))) (\<lambda>_.
     bindM (getM ts_w) (\<lambda>w.
     bindM (if tw_rows_per_block w * row_size (tw_layout w) < length (tw_row_block w) + row_size (tw_layout w)
            then flushRowBlock False else ret ()) (\<lambda>_.
     modM (upd_w (\<lambda>w. w\<lparr>tw_row_block := tw_row_block w @ tw_current_row w, tw_row_count := tw_row_count w + 1\<rparr>)))))))"

subsection \<open>Finishing\<close>

record node_data =
  nd_data :: bid
  nd_sub :: bid

text \<open>\<open>std::sort\<close> on pairs: by row id, then by ordinal.\<close>

definition sort_index :: "(32 word \<times> 32 word) list \<Rightarrow> (32 word \<times> 32 word) list" where
  "sort_index es = sort_key fst (sort_key snd es)"

definition index_entry :: "32 word \<times> 32 word \<Rightarrow> bth_record" where
  "index_entry = (\<lambda>(row_id, ordinal). \<lparr>bth_key = put32 [] row_id, bth_value = put32 [] ordinal\<rparr>)"

definition tw_finish :: "(tstate, node_data) prog" where
  "tw_finish =
     bindM (flushRowBlock True) (\<lambda>_.
     bindM (getM ts_w) (\<lambda>w.
     bindM (if tw_row_leaves w = [] then ret 0
            else bindM (tw_on_ndb (assembleDataTree (tw_row_leaves w) (tw_row_bytes w))) (\<lambda>rows_bid.
                 tw_on_subs (adopt rows_bid))) (\<lambda>hnid_rows.
     bindM (modM (upd_w (\<lambda>w. w\<lparr>tw_row_index := []\<rparr>))) (\<lambda>_.
     bindM (tw_on_heap (buildBthInto sheap_alloc 4 4 (map index_entry (sort_index (tw_row_index w))))) (\<lambda>hid_row_index.
     bindM (tw_on_heap (sheap_alloc (tcinfo (tw_layout w) hid_row_index hnid_rows))) (\<lambda>info.
     bindM (tw_on_heap (modM (sheap_setUserRoot info))) (\<lambda>_.
     bindM (tw_on_heap sheap_finish) (\<lambda>data.
     bindM (getM (\<lambda>s. tw_entries (ts_w s))) (\<lambda>entries.
     bindM (tw_on_ndb (writeSubnodes entries)) (\<lambda>sub.
     ret \<lparr>nd_data = data, nd_sub = sub\<rparr>))))))))))"

subsection \<open>The layout is the in-memory table's\<close>

lemma place_at_eq:
  "place_at w [length pre..<length pre + length cs] (pre @ cs, off) =
     (case place_width w off cs of (cs', off') \<Rightarrow> (pre @ cs', off'))"
proof (induction cs arbitrary: pre off)
  case (Cons c cs)
  have upt: "[length pre..<length pre + length (c # cs)] = length pre # [length (pre @ [d])..<length (pre @ [d]) + length cs]" for d
    by (subst upt_conv_Cons) simp_all
  show ?case
    using Cons.IH [of "pre @ [c\<lparr>col_ib := off\<rparr>]" "off + ucast w"] Cons.IH [of "pre @ [c]" off]
    unfolding upt [of c] place_at_def by (auto simp: list_update_append split: prod.splits)
qed (simp add: place_at_def)

lemma length_place_width: "place_width w off cs = (cs', off') \<Longrightarrow> length cs' = length cs"
  by (induction cs arbitrary: off cs' off') (auto split: if_splits prod.splits)

lemma writer_layout_eq:
  assumes "2 \<le> length tags"
  shows "writer_layout tags = layout tags"
proof -
  obtain a b rest where tags: "tags = a # b # rest" using assms by (cases tags; cases "tl tags") auto
  let ?n = "length tags" and ?pre = "[(make_column 0 a)\<lparr>col_ib := 0\<rparr>, (make_column 1 b)\<lparr>col_ib := 4\<rparr>]"
  define cols where "cols = map (\<lambda>(i, tag). make_column i tag) (enumerate 0 tags)"
  have made: "map (\<lambda>i. make_column i (tags ! i)) [0..<?n] = cols"
    by (rule nth_equalityI) (simp_all add: cols_def nth_enumerate_eq)
  define cs where "cs = drop 2 cols"
  have cols: "cols = make_column 0 a # make_column 1 b # cs" by (simp add: cols_def cs_def tags)
  have pinned: "cols[0 := (cols ! 0)\<lparr>col_ib := 0\<rparr>, 1 := (cols ! 1)\<lparr>col_ib := 4\<rparr>] = ?pre @ cs"
    by (simp add: cols)
  have n: "?n = length ?pre + length cs" by (simp add: cs_def cols_def tags)
  obtain r8 o8 where 8: "place_width 8 8 (cs) = (r8, o8)" by fastforce
  obtain r4 o4 where 4: "place_width 4 o8 r8 = (r4, o4)" by fastforce
  obtain r2 o2 where 2: "place_width 2 o4 r4 = (r2, o2)" by fastforce
  obtain r1 o1 where 1: "place_width 1 o2 r2 = (r1, o1)" by fastforce
  have len: "length r8 = length (cs)" "length r4 = length (cs)" "length r2 = length (cs)"
    using length_place_width [OF 8] length_place_width [OF 4] length_place_width [OF 2] by simp_all
  have bits: "?n + 7 = 9 + length cs" using n by simp
  have upt: "[2..<?n] = [length ?pre..<length ?pre + length cs]" unfolding n by (simp add: numeral_2_eq_2 del: upt_Suc)
  have step: "place_at w [2..<?n] (?pre @ ds, off) = (case place_width w off ds of (ds', off') \<Rightarrow> (?pre @ ds', off'))"
    if "length ds = length cs" for w ds off
    unfolding upt that [symmetric] by (rule place_at_eq)
  show ?thesis
    unfolding writer_layout_def layout_def Let_def made pinned cols_def [symmetric] cs_def [symmetric]
    using 8 4 2 1 step [of cs] step [OF len(1)] step [OF len(2)] step [OF len(3)]
    by (simp add: cols bits del: upt_Suc)
qed

subsection \<open>The ghost: an in-memory heap and its subnodes\<close>

lemma tw_on_heap_run: "tw_on_heap m s = Some (r, s') \<longleftrightarrow>
    (\<exists>h. m (ts_streaming s) = Some (r, h) \<and> s' = \<lparr>ts_ndb = st_ndb h, ts_w = (ts_w s)\<lparr>tw_heap := st_heap h\<rparr>\<rparr>)"
  by (auto simp: tw_on_heap_def zoomM_def split: option.splits)

lemma tw_on_subs_run: "tw_on_subs m s = Some (r, s') \<longleftrightarrow>
    (\<exists>u. m (ts_subs s) = Some (r, u) \<and> s' = \<lparr>ts_ndb = sa_ndb u, ts_w = (ts_w s)\<lparr>tw_entries := sa_entries u, tw_next := sa_next u\<rparr>\<rparr>)"
  by (auto simp: tw_on_subs_def zoomM_def split: option.splits)

lemma tw_on_ndb_run: "tw_on_ndb m s = Some (r, s') \<longleftrightarrow> (\<exists>d. m (ts_ndb s) = Some (r, d) \<and> s' = s\<lparr>ts_ndb := d\<rparr>)"
  by (auto simp: tw_on_ndb_def zoomM_def split: option.splits)

definition ghost :: "nat \<Rightarrow> tstate \<Rightarrow> ltp \<Rightarrow> bool" where
  "ghost k s g \<longleftrightarrow> heap_ok (lt_heap g) \<and> subs_ok k (ts_subs s) \<and> lt_subs g = ts_subs s \<and> streams (ts_streaming s) (lt_heap g)"

lemma ghost_ltp: "ghost k s g \<Longrightarrow> ltp_ok k g"
  unfolding ghost_def ltp_ok_def by metis

text \<open>The parts of the writer that hold the rows are not touched by placing a value.\<close>

definition same_rows :: "tstate \<Rightarrow> tstate \<Rightarrow> bool" where
  "same_rows s s' \<longleftrightarrow> (ts_w s')\<lparr>tw_heap := tw_heap (ts_w s), tw_entries := tw_entries (ts_w s), tw_next := tw_next (ts_w s)\<rparr> = ts_w s"

lemma same_rowsD:
  assumes "same_rows s s'"
  shows "tw_tags (ts_w s') = tw_tags (ts_w s)" "tw_layout (ts_w s') = tw_layout (ts_w s)"
    "tw_rows_per_block (ts_w s') = tw_rows_per_block (ts_w s)" "tw_row_block (ts_w s') = tw_row_block (ts_w s)"
    "tw_row_leaves (ts_w s') = tw_row_leaves (ts_w s)" "tw_row_bytes (ts_w s') = tw_row_bytes (ts_w s)"
    "tw_current_row (ts_w s') = tw_current_row (ts_w s)" "tw_in_row (ts_w s') = tw_in_row (ts_w s)"
    "tw_row_count (ts_w s') = tw_row_count (ts_w s)" "tw_row_index (ts_w s') = tw_row_index (ts_w s)"
  using assms unfolding same_rows_def by (cases "ts_w s", cases "ts_w s'", simp)+

lemma subs_within:
  assumes "subs_ok k u" "within (sa_ndb u) d"
  shows "subs_ok k (u\<lparr>sa_ndb := d\<rparr>) \<and> subs_ext u (u\<lparr>sa_ndb := d\<rparr>)"
  using assms by (simp add: subs_ok_def subs_ext_def within_def)

text \<open>Others write to the file in between.\<close>

lemma ghost_ndb:
  assumes g: "ghost k s g" and w: "within (ts_ndb s) d"
  shows "\<exists>g'. ghost k (s\<lparr>ts_ndb := d\<rparr>) g' \<and> ltp_ext g g' \<and> lt_heap g' = lt_heap g"
proof -
  let ?g = "g\<lparr>lt_subs := (ts_subs s)\<lparr>sa_ndb := d\<rparr>\<rparr>"
  have G: "subs_ok k (ts_subs s)" "lt_subs g = ts_subs s" "streams (ts_streaming s) (lt_heap g)" "heap_ok (lt_heap g)"
    using g by (simp_all add: ghost_def)
  have "subs_ok k ((ts_subs s)\<lparr>sa_ndb := d\<rparr>) \<and> subs_ext (ts_subs s) ((ts_subs s)\<lparr>sa_ndb := d\<rparr>)"
    by (rule subs_within [OF G(1)]) (use w in \<open>simp add: ts_subs_def\<close>)
  moreover have "ts_subs (s\<lparr>ts_ndb := d\<rparr>) = (ts_subs s)\<lparr>sa_ndb := d\<rparr>" by (simp add: ts_subs_def)
  moreover have "streams (ts_streaming (s\<lparr>ts_ndb := d\<rparr>)) (lt_heap g)"
    using streams_ndb [OF G(3), of d] w by (simp add: ts_streaming_def)
  ultimately show ?thesis
    using G by (intro exI [of _ ?g]) (simp add: ghost_def ltp_ext_def)
qed

text \<open>A program on the streaming heap does to the ghost what its in-memory counterpart does.\<close>

definition streams_in :: "ndb \<Rightarrow> streaming \<Rightarrow> heap \<Rightarrow> bool" where
  "streams_in d s h \<longleftrightarrow> streams s h \<and> st_within d s"

lemma sheap_alloc_streams_in [sim_intros]: "simulates (streams_in d) (sheap_alloc b) (alloc b)"
proof (rule simulatesI)
  fix s h a s'
  assume "streams_in d s h" and run: "sheap_alloc b s = Some (Inr a, s')"
  then have "streams s h" "st_within d s" by (simp_all add: streams_in_def)
  then show "\<exists>h'. alloc b h = Some (Inr a, h') \<and> streams_in d s' h'"
    using sheap_alloc_sim [OF _ run] keepsD [OF sheap_alloc_within _ run] by (simp add: streams_in_def)
qed

lemma ghost_on_heap:
  assumes g: "ghost k s g" and run: "tw_on_heap m s = Some (Inr a, s')"
    and sim: "simulates (streams_in (ts_ndb s)) m m'"
    and law: "\<And>hp. m' (lt_heap g) = Some (Inr a, hp) \<Longrightarrow>
      heap_ok hp \<and> hn.extends (lt_heap g) hp \<and> client_sig hp = client_sig (lt_heap g)"
  shows "\<exists>g'. ghost k s' g' \<and> ltp_ext g g' \<and> same_rows s s' \<and> m' (lt_heap g) = Some (Inr a, lt_heap g')"
proof -
  obtain t where t: "m (ts_streaming s) = Some (Inr a, t)"
      "s' = \<lparr>ts_ndb = st_ndb t, ts_w = (ts_w s)\<lparr>tw_heap := st_heap t\<rparr>\<rparr>"
    using run by (auto simp: tw_on_heap_run)
  have st: "streams (ts_streaming s) (lt_heap g)" and sok: "subs_ok k (ts_subs s)" and subs: "lt_subs g = ts_subs s"
    using g by (simp_all add: ghost_def)
  then have "streams_in (ts_ndb s) (ts_streaming s) (lt_heap g)"
    by (simp add: streams_in_def ts_streaming_def within_def streams_def Let_def)
  from simulatesD [OF sim this t(1)] obtain hp where hp: "m' (lt_heap g) = Some (Inr a, hp)" "streams t hp" "within (ts_ndb s) (st_ndb t)"
    by (auto simp: streams_in_def)
  have "subs_ok k ((ts_subs s)\<lparr>sa_ndb := st_ndb t\<rparr>)" "subs_ext (ts_subs s) ((ts_subs s)\<lparr>sa_ndb := st_ndb t\<rparr>)"
    using subs_within [OF sok, of "st_ndb t"] hp(3) by (simp_all add: ts_subs_def)
  moreover have "streams (ts_streaming s') hp" using hp(2) by (cases t) (simp add: t(2) ts_streaming_def)
  moreover have "ts_subs s' = (ts_subs s)\<lparr>sa_ndb := st_ndb t\<rparr>" by (simp add: t(2) ts_subs_def)
  moreover have "same_rows s s'" by (simp add: t(2) same_rows_def)
  ultimately show ?thesis
    using law [OF hp(1)] hp(1) subs
    by (intro exI [of _ "\<lparr>lt_heap = hp, lt_subs = ts_subs s'\<rparr>"]) (simp add: ghost_def ltp_ext_def)
qed

lemma ghost_heap:
  assumes g: "ghost k s g" and run: "tw_on_heap (sheap_alloc b) s = Some (Inr h, s')"
  shows "\<exists>g'. ghost k s' g' \<and> ltp_ext g g' \<and> same_rows s s' \<and> heap_look (lt_heap g') h = Some b"
proof -
  have hok: "heap_ok (lt_heap g)" using g by (simp add: ghost_def)
  have "heap_ok hp \<and> hn.extends (lt_heap g) hp \<and> client_sig hp = client_sig (lt_heap g)"
    if "alloc b (lt_heap g) = Some (Inr h, hp)" for hp
    using alloc_law [OF hok that] alloc_sig [OF hok that] by (simp add: hn.extends_def)
  from ghost_on_heap [OF g run sheap_alloc_streams_in this] show ?thesis using alloc_law [OF hok] by blast
qed

lemma ghost_bth:
  assumes g: "ghost k s g" and fit: "records_fit kb eb rs"
    and run: "tw_on_heap (buildBthInto sheap_alloc kb eb rs) s = Some (Inr h, s')"
  shows "\<exists>g'. ghost k s' g' \<and> ltp_ext g g' \<and> same_rows s s' \<and> bth_stored (heap_look (lt_heap g')) kb eb h rs"
proof -
  have hok: "heap_ok (lt_heap g)" using g by (simp add: ghost_def)
  have sim: "simulates (streams_in (ts_ndb s)) (buildBthInto sheap_alloc kb eb rs) (buildBth kb eb rs)"
    unfolding buildBth_def by (intro sim_intros)
  have "heap_ok hp \<and> hn.extends (lt_heap g) hp \<and> client_sig hp = client_sig (lt_heap g)"
    if "buildBth kb eb rs (lt_heap g) = Some (Inr h, hp)" for hp
    using buildBth_law [OF hok fit that] bth_sig [OF hok that fit] by (simp add: hn.extends_def)
  from ghost_on_heap [OF g run sim this] show ?thesis using buildBth_law [OF hok fit] by blast
qed

lemma ghost_on_subs:
  assumes g: "ghost j s g" and run: "tw_on_subs m s = Some (Inr a, s')"
    and law: "\<And>u. m (ts_subs s) = Some (Inr a, u) \<Longrightarrow> subs_ok k u \<and> subs_ext (ts_subs s) u"
  shows "\<exists>g'. ghost k s' g' \<and> ltp_ext g g' \<and> same_rows s s' \<and> lt_heap g' = lt_heap g \<and> m (ts_subs s) = Some (Inr a, lt_subs g')"
proof -
  obtain u where u: "m (ts_subs s) = Some (Inr a, u)"
      "s' = \<lparr>ts_ndb = sa_ndb u, ts_w = (ts_w s)\<lparr>tw_entries := sa_entries u, tw_next := sa_next u\<rparr>\<rparr>"
    using run by (auto simp: tw_on_subs_run)
  have subs: "ts_subs s' = u" "same_rows s s'" by (simp_all add: u(2) ts_subs_def same_rows_def)
  have "within (ts_ndb s) (sa_ndb u)"
    using law [OF u(1)] by (auto simp: within_def subs_ok_def subs_ext_def ts_subs_def)
  then have "streams (ts_streaming s') (lt_heap g)"
    using streams_ndb [of "ts_streaming s" "lt_heap g" "sa_ndb u"] g by (simp add: ghost_def u(2) ts_streaming_def)
  then show ?thesis
    using law [OF u(1)] g subs u(1) by (intro exI [of _ "g\<lparr>lt_subs := u\<rparr>"]) (simp add: ghost_def ltp_ext_def)
qed

lemma tw_place_law:
  assumes g: "ghost (Suc k) s g" and len: "length b < 2 ^ 64" and run: "tw_place b s = Some (Inr h, s')"
  shows "\<exists>g'. ghost k s' g' \<and> ltp_ext g g' \<and> same_rows s s' \<and>
    (if b = [] then h = 0 else h \<noteq> 0 \<and> deref g' h = Some b)"
proof -
  have ok: "subs_ok (Suc k) (ts_subs s)" using g by (simp add: ghost_def)
  have weak: "ghost k s g" using g subs_ok_mono by (auto simp: ghost_def)
  consider (empty) "b = []" | (heap) "b \<noteq> []" "length b \<le> maxAllocSize" | (sub) "b \<noteq> []" "maxAllocSize < length b" by fastforce
  then show ?thesis
  proof cases
    case empty
    then have "h = 0" "s' = s" using run by (simp_all add: tw_place_def ret_run)
    then show ?thesis using empty weak by (intro exI [of _ g]) (simp add: same_rows_def)
  next
    case heap
    then have "tw_on_heap (sheap_alloc b) s = Some (Inr h, s')" using run by (simp add: tw_place_def)
    from ghost_heap [OF weak this] obtain g' where g': "ghost k s' g'" "ltp_ext g g'" "same_rows s s'" "heap_look (lt_heap g') h = Some b"
      by blast
    then have "deref g' h = Some b" using heap_look_hid by (simp add: deref_def hnid_read_def)
    moreover have "h \<noteq> 0" by (rule deref_nonzero [OF _ calculation]) (use g'(1) in \<open>auto simp: ghost_def\<close>)
    ultimately show ?thesis using g' heap by auto
  next
    case sub
    then have "tw_on_subs (spill b) s = Some (Inr h, s')" using run by (simp add: tw_place_def)
    from ghost_on_subs [OF g this, of k] spill_law [OF ok len]
    obtain g' where g': "ghost k s' g'" "ltp_ext g g'" "same_rows s s'" "spill b (ts_subs s) = Some (Inr h, lt_subs g')" by blast
    then have "deref g' h = Some b" using spill_law [OF ok len] by (simp add: deref_def hnid_read_def)
    moreover have "h \<noteq> 0" by (rule deref_nonzero [OF _ calculation]) (use g'(1) in \<open>auto simp: ghost_def\<close>)
    ultimately show ?thesis using g' sub by auto
  qed
qed

subsection \<open>The rows\<close>

definition row_shows :: "ltp \<Rightarrow> prop_tag list \<Rightarrow> tcell list \<Rightarrow> bytes \<Rightarrow> bool" where
  "row_shows g tags cells b \<longleftrightarrow> in_row tags (layout tags) b \<and> length cells = length tags \<and>
     (\<forall>i < length tags. cell_shows g (tags ! i) (cells ! i) (read_cell (ceb_off (layout tags)) (lay_columns (layout tags) ! i) b))"

lemma cell_shows_ext: "cell_shows g tag c f \<Longrightarrow> ltp_ext g g' \<Longrightarrow> cell_shows g' tag c f"
  by (auto simp: cell_shows_def dest: deref_ext split: if_splits)

lemma row_shows_ext: "row_shows g tags cells b \<Longrightarrow> ltp_ext g g' \<Longrightarrow> row_shows g' tags cells b"
  using cell_shows_ext by (auto simp: row_shows_def)

lemma row_shows_new:
  assumes "tags_ok tags"
  shows "row_shows g tags (replicate (length tags) no_cell) (replicate (row_size (layout tags)) 0)"
proof -
  have "layout_ok tags (layout tags)" "length tags \<le> 255" using layout_law(1) [OF assms] assms by (simp_all add: tags_ok_def)
  then show ?thesis using empty_row by (simp add: row_shows_def cell_shows_def no_cell_def)
qed

lemma row_shows_set:
  assumes row: "row_shows g tags cells b" and i: "i < length tags"
    and c: "cell_shows g (tags ! i) c (Some f)" "length f = column_width (tags ! i)"
  shows "row_shows g tags (cells[i := c]) (set_cell (ceb_off (layout tags)) (lay_columns (layout tags) ! i) f b)"
proof -
  have ok: "layout_ok tags (layout tags)" and r: "in_row tags (layout tags) b" using row by (simp_all add: row_shows_def in_row_def)
  have "length f = width (lay_columns (layout tags) ! i)"
    using c(2) layout_okD(6) [OF ok i] column_width_cases [of "tags ! i"] by auto
  note law = set_cell_law [OF r i this]
  show ?thesis using law row c(1) i by (auto simp: row_shows_def nth_list_update)
qed

definition writer_ok :: "twriter \<Rightarrow> prop_tag list \<Rightarrow> bool" where
  "writer_ok w tags \<longleftrightarrow> tags_ok tags \<and> distinct tags \<and> tw_layout w = layout tags \<and>
     tw_rows_per_block w = kMaxBlockData div row_size (layout tags)"

text \<open>The finished rows: full blocks on the file, and the block being filled.\<close>

definition rows_stored :: "(bid \<Rightarrow> bytes option) \<Rightarrow> twriter \<Rightarrow> bytes list \<Rightarrow> bool" where
  "rows_stored look w bs \<longleftrightarrow> (\<exists>gs rest. bs = concat gs @ rest \<and> (\<forall>g \<in> set gs. length g = tw_rows_per_block w) \<and>
     tw_row_block w = concat rest \<and> length rest \<le> tw_rows_per_block w \<and> (gs \<noteq> [] \<longrightarrow> rest \<noteq> []) \<and>
     map look (tw_row_leaves w) = map (\<lambda>g. Some (resize_bytes kMaxBlockData (concat g))) gs \<and>
     (\<forall>b \<in> set (tw_row_leaves w). \<not> bidIsInternal b) \<and> tw_row_bytes w = of_nat (kMaxBlockData * length gs))"

definition tab :: "nat \<Rightarrow> tstate \<Rightarrow> table \<Rightarrow> ltp \<Rightarrow> bytes list \<Rightarrow> bool" where
  "tab k s t g bs \<longleftrightarrow>
     (let w = ts_w s; tags = tb_columns t; rows = tb_rows t; n = tw_row_count w in
      ghost k s g \<and> client_sig (lt_heap g) = kHnSigTC \<and> writer_ok w tags \<and> rows_stored (lookup_block (ts_ndb s)) w bs \<and>
      length bs = n \<and> length rows = (if tw_in_row w then n + 1 else n) \<and>
      (\<forall>i < n. row_shows g tags (tr_cells (rows ! i)) (bs ! i)) \<and>
      (tw_in_row w \<longrightarrow> row_shows g tags (tr_cells (rows ! n)) (tw_current_row w)) \<and>
      tw_row_index w = map (\<lambda>i. (tr_id (rows ! i), of_nat i)) [0..<length rows])"

definition tabulates :: "nat \<Rightarrow> tstate \<Rightarrow> table \<Rightarrow> bool" where
  "tabulates k s t \<longleftrightarrow> (\<exists>g bs. tab k s t g bs)"

lemma rows_stored_mono:
  assumes "rows_stored look w bs" "\<And>b x. look b = Some x \<Longrightarrow> look' b = Some x"
  shows "rows_stored look' w bs"
proof -
  obtain gs rest where *: "bs = concat gs @ rest" "\<forall>g \<in> set gs. length g = tw_rows_per_block w"
     "tw_row_block w = concat rest" "length rest \<le> tw_rows_per_block w" "gs \<noteq> [] \<longrightarrow> rest \<noteq> []"
     "map look (tw_row_leaves w) = map (\<lambda>g. Some (resize_bytes kMaxBlockData (concat g))) gs"
     "\<forall>b \<in> set (tw_row_leaves w). \<not> bidIsInternal b" "tw_row_bytes w = of_nat (kMaxBlockData * length gs)"
    using assms(1) unfolding rows_stored_def by blast
  have "map look' (tw_row_leaves w) = map (\<lambda>g. Some (resize_bytes kMaxBlockData (concat g))) gs"
    using *(6) assms(2) by (auto simp: list_eq_iff_nth_eq)
  then show ?thesis unfolding rows_stored_def using * by blast
qed

lemma rows_stored_same:
  assumes "rows_stored look w bs" "tw_rows_per_block w' = tw_rows_per_block w" "tw_row_block w' = tw_row_block w"
    "tw_row_leaves w' = tw_row_leaves w" "tw_row_bytes w' = tw_row_bytes w"
  shows "rows_stored look w' bs"
  using assms by (simp add: rows_stored_def)

lemma tab_ext:
  assumes tab: "tab j s t g bs" and g': "ghost k s' g'" "ltp_ext g g'" and same: "same_rows s s'"
  shows "tab k s' t g' bs"
proof -
  note D = same_rowsD [OF same]
  have T: "ghost j s g" "rows_stored (lookup_block (ts_ndb s)) (ts_w s) bs"
    using tab by (simp_all add: tab_def Let_def)
  have "subs_ext (lt_subs g) (lt_subs g')" "lt_subs g = ts_subs s" "lt_subs g' = ts_subs s'"
    using g' T(1) by (simp_all add: ltp_ext_def ghost_def)
  then have "preserves (ts_ndb s) (ts_ndb s')" by (simp add: subs_ext_def ts_subs_def)
  then have "rows_stored (lookup_block (ts_ndb s')) (ts_w s') bs"
    using rows_stored_same [OF rows_stored_mono [OF T(2)]] D by (simp add: preserves_def)
  then show ?thesis
    using tab g' D row_shows_ext [OF _ g'(2)] by (simp add: tab_def Let_def writer_ok_def ltp_ext_def)
qed

lemma tab_set:
  assumes tab: "tab k s t g bs" and row: "tw_in_row (ts_w s)" and i: "i < length (tb_columns t)"
    and c: "cell_shows g (tb_columns t ! i) c (Some f)" "length f = column_width (tb_columns t ! i)"
  defines "n \<equiv> tw_row_count (ts_w s)"
  shows "tab k (upd_w (\<lambda>w. w\<lparr>tw_current_row := set_cell (ceb_off (tw_layout w)) (lay_columns (tw_layout w) ! i) f (tw_current_row w)\<rparr>) s)
    (t\<lparr>tb_rows := (tb_rows t)[n := (tb_rows t ! n)\<lparr>tr_cells := (tr_cells (tb_rows t ! n))[i := c]\<rparr>]\<rparr>) g bs"
proof -
  have lay: "tw_layout (ts_w s) = layout (tb_columns t)" and n: "n < length (tb_rows t)" "length (tb_rows t) = n + 1"
    and cur: "row_shows g (tb_columns t) (tr_cells (tb_rows t ! n)) (tw_current_row (ts_w s))"
    using tab row by (simp_all add: tab_def Let_def writer_ok_def n_def)
  have ids: "tr_id ((tb_rows t)[n := (tb_rows t ! n)\<lparr>tr_cells := cs\<rparr>] ! j) = tr_id (tb_rows t ! j)" if "j < n + 1" for j cs
    using that n by (cases "j = n") simp_all
  let ?s = "upd_w (\<lambda>w. w\<lparr>tw_current_row := set_cell (ceb_off (tw_layout w)) (lay_columns (tw_layout w) ! i) f (tw_current_row w)\<rparr>) s"
  have "rows_stored (lookup_block (ts_ndb s)) (ts_w s) bs" using tab by (simp add: tab_def Let_def)
  from rows_stored_same [OF this, of "ts_w ?s"] have rs: "rows_stored (lookup_block (ts_ndb ?s)) (ts_w ?s) bs" by simp
  show ?thesis
    using tab row row_shows_set [OF cur i c] n ids lay rs
    by (simp add: tab_def Let_def writer_ok_def ghost_def ts_subs_def ts_streaming_def n_def [symmetric] del: upt_Suc)
qed

subsection \<open>Setting cells\<close>

text \<open>A call between \<open>beginRow\<close> and \<open>endRow\<close>, on the writer and on the in-memory table.\<close>

datatype cell_op =
    SetInt16 prop_tag "16 word" | SetInt32 prop_tag "32 word" | SetBool prop_tag bool | SetInt64 prop_tag "64 word"
  | SetTime prop_tag "64 word" | SetString prop_tag string | SetBinary prop_tag bytes

primrec writer_op :: "cell_op \<Rightarrow> (tstate, unit) prog" where
  "writer_op (SetInt16 tag v) = tw_setInt16 tag v"
| "writer_op (SetInt32 tag v) = tw_setInt32 tag v"
| "writer_op (SetBool tag v) = tw_setBool tag v"
| "writer_op (SetInt64 tag v) = tw_setInt64 tag v"
| "writer_op (SetTime tag v) = tw_setTime tag v"
| "writer_op (SetString tag v) = tw_setString tag v"
| "writer_op (SetBinary tag v) = tw_setBinary tag v"

primrec table_op :: "nat \<Rightarrow> cell_op \<Rightarrow> (table, unit) prog" where
  "table_op row (SetInt16 tag v) = tc_setInt16 row tag v"
| "table_op row (SetInt32 tag v) = tc_setInt32 row tag v"
| "table_op row (SetBool tag v) = tc_setBool row tag v"
| "table_op row (SetInt64 tag v) = tc_setInt64 row tag v"
| "table_op row (SetTime tag v) = tc_setTime row tag v"
| "table_op row (SetString tag v) = tc_setString row tag v"
| "table_op row (SetBinary tag v) = tc_setBinary row tag v"

text \<open>The tag and the cell of a call.\<close>

primrec op_cell :: "cell_op \<Rightarrow> prop_tag \<times> tcell" where
  "op_cell (SetInt16 tag v) = (tag, fixed_cell (le_bytes 2 v))"
| "op_cell (SetInt32 tag v) = (tag, fixed_cell (le_bytes 4 v))"
| "op_cell (SetBool tag v) = (tag, fixed_cell [if v then 1 else 0])"
| "op_cell (SetInt64 tag v) = (tag, fixed_cell (le_bytes 8 v))"
| "op_cell (SetTime tag v) = (tag, fixed_cell (le_bytes 8 v))"
| "op_cell (SetString tag v) = (tag, variable_cell (string_bytes tag v))"
| "op_cell (SetBinary tag v) = (tag, variable_cell v)"

text \<open>The type of the column is the one the call writes, as \<open>cell_ok\<close> has it.\<close>

definition op_ok :: "cell_op \<Rightarrow> bool" where
  "op_ok op \<longleftrightarrow> (case op_cell op of (tag, c) \<Rightarrow> cell_ok tag c)"

lemma table_op_eq: "table_op row op = (case op_cell op of (tag, c) \<Rightarrow> set_tcell row tag c)"
  by (cases op) (simp_all add: tc_setInt16_def tc_setInt32_def tc_setBool_def tc_setInt64_def tc_setTime_def tc_setString_def
      tc_setBinary_def put8_def put16_def put32_def put64_def)

lemma writer_op_eq:
  "writer_op op = (case op_cell op of (tag, c) \<Rightarrow>
     bindM (tw_column tag) (\<lambda>col.
     if tc_variable c then bindM (tw_place (tc_bytes c)) (\<lambda>h. tw_poke col (le_bytes 4 h)) else tw_poke col (tc_bytes c)))"
  by (cases op) (simp_all add: tw_setInt16_def tw_setInt32_def tw_setBool_def tw_setInt64_def tw_setTime_def tw_setString_def
      tw_setBinary_def fixed_cell_def variable_cell_def)

lemma op_cell_present: "tc_present (snd (op_cell op))"
  by (cases op) (simp_all add: fixed_cell_def variable_cell_def)

lemma tw_column_run:
  assumes tab: "tab k s t g bs" and run: "tw_column tag s = Some (Inr c, s')"
  obtains i where "s' = s" "index_from 0 tag (tb_columns t) = Some i" "i < length (tb_columns t)" "tb_columns t ! i = tag"
    "c = lay_columns (tw_layout (ts_w s)) ! i"
proof -
  have lay: "tw_layout (ts_w s) = layout (tb_columns t)" "tags_ok (tb_columns t)"
    using tab by (simp_all add: tab_def Let_def writer_ok_def)
  have ok: "layout_ok (tb_columns t) (layout (tb_columns t))" using layout_law(1) [OF lay(2)] .
  have tags: "map col_tag (lay_columns (layout (tb_columns t))) = tb_columns t"
    using layout_okD(1,5) [OF ok] by (intro nth_equalityI) simp_all
  obtain i where i: "index_from 0 tag (tb_columns t) = Some i" "s' = s" "c = lay_columns (tw_layout (ts_w s)) ! i"
    using run by (auto simp: tw_column_def columnIndex_def bindM_Inr_iff getM_def ret_run lay tags throw_def split: option.splits)
  show thesis by (rule that [OF i(2,1) _ _ i(3)]) (use index_from_Some [OF i(1)] in simp_all)
qed

lemma op_law:
  assumes tab: "tab (Suc k) s t g bs" and row: "tw_in_row (ts_w s)" and ok: "op_ok op"
    and run: "writer_op op s = Some (Inr (), s')"
  shows "\<exists>t' g'. table_op (tw_row_count (ts_w s)) op t = Some (Inr (), t') \<and> tab k s' t' g' bs \<and> ltp_ext g g' \<and>
    tw_in_row (ts_w s') \<and> tw_row_count (ts_w s') = tw_row_count (ts_w s)"
proof -
  obtain tag cell where op: "op_cell op = (tag, cell)" by fastforce
  have pres: "tc_present cell" using op_cell_present [of op] op by simp
  have cell: "cell_ok tag cell" using ok op by (simp add: op_ok_def)
  obtain c where c: "tw_column tag s = Some (Inr c, s)" and rest: "(if tc_variable cell
      then bindM (tw_place (tc_bytes cell)) (\<lambda>h. tw_poke c (le_bytes 4 h)) else tw_poke c (tc_bytes cell)) s = Some (Inr (), s')"
    using run tw_column_run [OF tab] by (fastforce simp: writer_op_eq op bindM_Inr_iff)
  obtain i where i: "index_from 0 tag (tb_columns t) = Some i" "i < length (tb_columns t)" "tb_columns t ! i = tag"
      "c = lay_columns (tw_layout (ts_w s)) ! i"
    using tw_column_run [OF tab c] by blast
  let ?n = "tw_row_count (ts_w s)"
  have n: "?n < length (tb_rows t)" using tab row by (simp add: tab_def Let_def)
  have "\<exists>s1 g1 f. tab k s1 t g1 bs \<and> ltp_ext g g1 \<and> same_rows s s1 \<and> tw_poke c f s1 = Some (Inr (), s') \<and>
      cell_shows g1 tag cell (Some f) \<and> length f = column_width tag"
  proof (cases "tc_variable cell")
    case False
    have "tab k s t g bs" "same_rows s s"
      using tab subs_ok_mono by (auto simp: tab_def Let_def ghost_def same_rows_def)
    then show ?thesis
      using False rest pres cell by (intro exI [of _ s] exI [of _ g]) (auto simp: cell_shows_def cell_ok_def split: if_splits)
  next
    case True
    then obtain h s1 where h: "tw_place (tc_bytes cell) s = Some (Inr h, s1)" "tw_poke c (le_bytes 4 h) s1 = Some (Inr (), s')"
      using rest by (auto simp: bindM_Inr_iff)
    have len: "length (tc_bytes cell) < 2 ^ 64" using cell by (simp add: cell_ok_def)
    have gh: "ghost (Suc k) s g" using tab by (simp add: tab_def Let_def)
    obtain g1 where g1: "ghost k s1 g1" "ltp_ext g g1" "same_rows s s1"
        "if tc_bytes cell = [] then h = 0 else h \<noteq> 0 \<and> deref g1 h = Some (tc_bytes cell)"
      using tw_place_law [OF gh len h(1)] by blast
    have "fixedPropSize (tagType tag) = 0" using cell True pres by (auto simp: cell_ok_def split: if_splits)
    then have "cell_shows g1 tag cell (Some (le_bytes 4 h))" "column_width tag = 4"
      using g1(4) pres by (cases "tc_bytes cell = []"; auto simp: cell_shows_def column_width_def)+
    then show ?thesis
      using tab_ext [OF tab g1(1-3)] g1 h(2) by (intro exI [of _ s1] exI [of _ g1] exI [of _ "le_bytes 4 h"]) simp
  qed
  then obtain s1 g1 f where s1: "tab k s1 t g1 bs" "ltp_ext g g1" "same_rows s s1" "tw_poke c f s1 = Some (Inr (), s')"
      "cell_shows g1 (tb_columns t ! i) cell (Some f)" "length f = column_width (tb_columns t ! i)"
    unfolding i(3) by blast
  note D = same_rowsD [OF s1(3)]
  have row1: "tw_in_row (ts_w s1)" using row D by simp
  let ?s = "upd_w (\<lambda>w. w\<lparr>tw_current_row := set_cell (ceb_off (tw_layout w)) (lay_columns (tw_layout w) ! i) f (tw_current_row w)\<rparr>) s1"
  have s': "s' = ?s" using s1(4) D by (simp add: tw_poke_def modM_def i(4))
  have "set_tcell ?n tag cell t = Some (Inr (), t\<lparr>tb_rows := (tb_rows t)[?n := (tb_rows t ! ?n)\<lparr>tr_cells := (tr_cells (tb_rows t ! ?n))[i := cell]\<rparr>]\<rparr>)"
    using n i(1) by (simp add: set_tcell_eq)
  then show ?thesis
    using tab_set [OF s1(1) row1 i(2) s1(5,6)] s1(2) row D by (auto simp: table_op_eq op s')
qed

subsection \<open>Rows begun and ended\<close>

lemma tab_new_row:
  fixes row_id :: "32 word"
  assumes tab: "tab k s t g bs" and row: "\<not> tw_in_row (ts_w s)"
  defines "new \<equiv> \<lparr>tr_id = row_id, tr_cells = replicate (length (tb_columns t)) no_cell\<rparr>"
  shows "tab k (upd_w (\<lambda>w. w\<lparr>tw_in_row := True, tw_current_row := replicate (row_size (tw_layout w)) 0,
      tw_row_index := tw_row_index w @ [(row_id, of_nat (tw_row_count w))]\<rparr>) s) (t\<lparr>tb_rows := tb_rows t @ [new]\<rparr>) g bs"
proof -
  let ?s = "upd_w (\<lambda>w. w\<lparr>tw_in_row := True, tw_current_row := replicate (row_size (tw_layout w)) 0,
      tw_row_index := tw_row_index w @ [(row_id, of_nat (tw_row_count w))]\<rparr>) s"
  have "rows_stored (lookup_block (ts_ndb s)) (ts_w s) bs" using tab by (simp add: tab_def Let_def)
  from rows_stored_same [OF this, of "ts_w ?s"] have rs: "rows_stored (lookup_block (ts_ndb ?s)) (ts_w ?s) bs" by simp
  have n: "length (tb_rows t) = tw_row_count (ts_w s)" and tags: "tags_ok (tb_columns t)"
    using tab row by (simp_all add: tab_def Let_def writer_ok_def)
  show ?thesis
    using tab row rs n row_shows_new [OF tags, of g]
    by (simp add: tab_def Let_def writer_ok_def ghost_def ts_subs_def ts_streaming_def new_def nth_append upt_Suc_append del: upt_Suc)
qed

lemma beginRow_law:
  assumes tab: "tab (Suc (Suc k)) s t g bs" and run: "beginRow row_id s = Some (Inr (), s')"
  shows "\<exists>t' g'. addRow row_id t = Some (Inr (tw_row_count (ts_w s)), t') \<and> tab k s' t' g' bs \<and> ltp_ext g g' \<and>
    tw_in_row (ts_w s') \<and> tw_row_count (ts_w s') = tw_row_count (ts_w s)"
proof -
  let ?s = "upd_w (\<lambda>w. w\<lparr>tw_in_row := True, tw_current_row := replicate (row_size (tw_layout w)) 0,
      tw_row_index := tw_row_index w @ [(row_id, of_nat (tw_row_count w))]\<rparr>) s"
    and ?t = "t\<lparr>tb_rows := tb_rows t @ [\<lparr>tr_id = row_id, tr_cells = replicate (length (tb_columns t)) no_cell\<rparr>]\<rparr>"
  obtain s1 where row: "\<not> tw_in_row (ts_w s)" and s1: "writer_op (SetInt32 PidTagLtpRowId row_id) ?s = Some (Inr (), s1)"
      "writer_op (SetInt32 PidTagLtpRowVer 1) s1 = Some (Inr (), s')"
    using run by (auto simp: beginRow_def bindM_Inr_iff getM_def throw_if_def throw_def ret_def modM_def split: if_splits)
  have ok: "op_ok (SetInt32 PidTagLtpRowId v)" "op_ok (SetInt32 PidTagLtpRowVer v)" for v
    by (simp_all add: op_ok_def cell_ok_def fixed_cell_def column_width_def fixedPropSize_def)
  have n: "length (tb_rows t) = tw_row_count (ts_w s)" using tab row by (simp add: tab_def Let_def)
  obtain t1 g1 where 1: "table_op (tw_row_count (ts_w s)) (SetInt32 PidTagLtpRowId row_id) ?t = Some (Inr (), t1)" "tab (Suc k) s1 t1 g1 bs"
      "ltp_ext g g1" "tw_in_row (ts_w s1)" "tw_row_count (ts_w s1) = tw_row_count (ts_w s)"
    using op_law [OF tab_new_row [OF tab row] _ ok(1) s1(1)] by auto
  obtain t2 g2 where 2: "table_op (tw_row_count (ts_w s)) (SetInt32 PidTagLtpRowVer 1) t1 = Some (Inr (), t2)" "tab k s' t2 g2 bs"
      "ltp_ext g1 g2" "tw_in_row (ts_w s')" "tw_row_count (ts_w s') = tw_row_count (ts_w s)"
    using op_law [OF 1(2,4) ok(2) s1(2)] 1(5) by auto
  have "addRow row_id t = Some (Inr (tw_row_count (ts_w s)), t2)"
    using 1(1) 2(1) n by (simp add: addRow_def prog_simps)
  then show ?thesis using 2 1(3) ltp_ext_trans by blast
qed

text \<open>A full block: its rows, and zeros up to the block size.\<close>

lemma flushRowBlock_law:
  assumes ok: "store_ok (ts_ndb s)" and full: "tw_row_block (ts_w s) \<noteq> []"
    and run: "flushRowBlock is_last s = Some (Inr (), s')"
  defines "block \<equiv> if is_last then tw_row_block (ts_w s) else resize_bytes kMaxBlockData (tw_row_block (ts_w s))"
  shows "\<exists>b. within (ts_ndb s) (ts_ndb s') \<and> lookup_block (ts_ndb s') b = Some block \<and> \<not> bidIsInternal b \<and>
    ts_w s' = (ts_w s)\<lparr>tw_row_leaves := tw_row_leaves (ts_w s) @ [b], tw_row_bytes := tw_row_bytes (ts_w s) + of_nat (length block),
      tw_row_block := []\<rparr>"
proof -
  obtain b d where b: "writeLeafChunk block (ts_ndb s) = Some (Inr b, d)"
      "s' = \<lparr>ts_ndb = d, ts_w = (ts_w s)\<lparr>tw_row_leaves := tw_row_leaves (ts_w s) @ [b],
        tw_row_bytes := tw_row_bytes (ts_w s) + of_nat (length block), tw_row_block := []\<rparr>\<rparr>"
    using run full by (cases "ts_w s", cases is_last)
      (auto simp: flushRowBlock_def bindM_Inr_iff getM_def modM_def ret_def tw_on_ndb_run block_def)
  show ?thesis using leaf_law [OF ok b(1)] by (intro exI [of _ b]) (simp add: b(2))
qed

text \<open>A finished row goes after the others, in a new block if the last is full.\<close>

lemma length_resize_bytes [simp]: "length (resize_bytes n b) = n"
  by (simp add: resize_bytes_def)

lemma rows_stored_add:
  assumes rs: "rows_stored look w bs" and len: "\<forall>b \<in> set bs. length b = n" "0 < n" and fits: "length (tw_row_block w) + n \<le> tw_rows_per_block w * n"
    and same: "tw_rows_per_block w' = tw_rows_per_block w" "tw_row_block w' = tw_row_block w @ b"
      "tw_row_leaves w' = tw_row_leaves w" "tw_row_bytes w' = tw_row_bytes w"
  shows "rows_stored look w' (bs @ [b])"
proof -
  obtain gs rest where *: "bs = concat gs @ rest" "\<forall>g \<in> set gs. length g = tw_rows_per_block w"
     "tw_row_block w = concat rest" "map look (tw_row_leaves w) = map (\<lambda>g. Some (resize_bytes kMaxBlockData (concat g))) gs"
     "\<forall>b \<in> set (tw_row_leaves w). \<not> bidIsInternal b" "tw_row_bytes w = of_nat (kMaxBlockData * length gs)"
    using rs unfolding rows_stored_def by blast
  have "length (concat rest) = n * length rest"
    using length_concat_const [of rest "\<lambda>b. b" n] len(1) *(1) by simp
  then have "Suc (length rest) * n \<le> tw_rows_per_block w * n" using fits *(3) by (simp add: algebra_simps)
  then have "Suc (length rest) \<le> tw_rows_per_block w" using len(2) mult_le_cancel2 by blast
  then show ?thesis
    unfolding rows_stored_def same using * by (intro exI [of _ gs] exI [of _ "rest @ [b]"]) simp
qed

lemma rows_stored_flush:
  assumes rs: "rows_stored look w bs" and len: "\<forall>b \<in> set bs. length b = n" "0 < n" "0 < tw_rows_per_block w"
    and full: "tw_rows_per_block w * n < length (tw_row_block w) + n"
    and look: "\<And>b x. look b = Some x \<Longrightarrow> look' b = Some x" "look' l = Some (resize_bytes kMaxBlockData (tw_row_block w))" "\<not> bidIsInternal l"
    and same: "tw_rows_per_block w' = tw_rows_per_block w" "tw_row_block w' = b" "tw_row_leaves w' = tw_row_leaves w @ [l]"
      "tw_row_bytes w' = tw_row_bytes w + of_nat kMaxBlockData"
  shows "rows_stored look' w' (bs @ [b])"
proof -
  obtain gs rest where *: "bs = concat gs @ rest" "\<forall>g \<in> set gs. length g = tw_rows_per_block w"
     "tw_row_block w = concat rest" "length rest \<le> tw_rows_per_block w"
     "map look' (tw_row_leaves w) = map (\<lambda>g. Some (resize_bytes kMaxBlockData (concat g))) gs"
     "\<forall>b \<in> set (tw_row_leaves w). \<not> bidIsInternal b" "tw_row_bytes w = of_nat (kMaxBlockData * length gs)"
    using rows_stored_mono [of look w bs look', OF rs look(1)] unfolding rows_stored_def by blast
  have "length (concat rest) = n * length rest"
    using length_concat_const [of rest "\<lambda>b. b" n] len(1) *(1) by simp
  then have "tw_rows_per_block w * n < Suc (length rest) * n" using full *(3) by (simp add: algebra_simps)
  then have "tw_rows_per_block w < Suc (length rest)" using mult_less_cancel2 by blast
  then have "length rest = tw_rows_per_block w" using *(4) by (simp add: less_Suc_eq_le)
  then show ?thesis
    unfolding rows_stored_def same using * look(2,3) len(3)
    by (intro exI [of _ "gs @ [rest]"] exI [of _ "[b]"]) (auto simp: algebra_simps)
qed

lemma tab_store: "tab k s t g bs \<Longrightarrow> store_ok (ts_ndb s)"
  by (simp add: tab_def Let_def ghost_def subs_ok_def ts_subs_def)

lemma tab_row_done:
  assumes tab: "tab k s t g bs" and row: "tw_in_row (ts_w s)" and g': "ghost k s' g'" "ltp_ext g g'"
    and rs: "rows_stored (lookup_block (ts_ndb s')) (ts_w s') (bs @ [tw_current_row (ts_w s)])"
    and same: "tw_layout (ts_w s') = tw_layout (ts_w s)" "tw_rows_per_block (ts_w s') = tw_rows_per_block (ts_w s)"
      "tw_row_index (ts_w s') = tw_row_index (ts_w s)" "\<not> tw_in_row (ts_w s')" "tw_row_count (ts_w s') = Suc (tw_row_count (ts_w s))"
  shows "tab k s' t g' (bs @ [tw_current_row (ts_w s)])"
  using tab row g' rs same row_shows_ext [OF _ g'(2)]
  by (simp add: tab_def Let_def writer_ok_def ltp_ext_def nth_append less_Suc_eq)

lemma endRow_law:
  assumes tab: "tab k s t g bs" and run: "endRow s = Some (Inr (), s')"
  shows "\<exists>g'. tab k s' t g' (bs @ [tw_current_row (ts_w s)]) \<and> ltp_ext g g' \<and> \<not> tw_in_row (ts_w s') \<and>
    tw_row_count (ts_w s') = Suc (tw_row_count (ts_w s))"
proof -
  let ?w = "ts_w s" and ?s = "upd_w (\<lambda>w. w\<lparr>tw_in_row := False\<rparr>) s"
  let ?rs = "row_size (tw_layout ?w)" and ?done = "\<lambda>w. w\<lparr>tw_row_block := tw_row_block w @ tw_current_row w, tw_row_count := Suc (tw_row_count w)\<rparr>"
  obtain s1 where row: "tw_in_row ?w" and s1: "(if tw_rows_per_block ?w * ?rs < length (tw_row_block ?w) + ?rs
            then flushRowBlock False else ret ()) ?s = Some (Inr (), s1)" "s' = upd_w ?done s1"
    using run by (auto simp: endRow_def bindM_Inr_iff getM_def throw_if_def throw_def ret_def modM_def split: if_splits)
  have T: "ghost k s g" "rows_stored (lookup_block (ts_ndb s)) ?w bs" "tags_ok (tb_columns t)" "tw_layout ?w = layout (tb_columns t)"
      "tw_rows_per_block ?w = kMaxBlockData div ?rs" "length bs = tw_row_count ?w"
      "\<forall>i < tw_row_count ?w. row_shows g (tb_columns t) (tr_cells (tb_rows t ! i)) (bs ! i)"
    using tab by (simp_all add: tab_def Let_def writer_ok_def)
  have len: "\<forall>b \<in> set bs. length b = ?rs" using T(4,6,7) by (auto simp: in_set_conv_nth row_shows_def in_row_def)
  have lay: "0 < ?rs" "?rs \<le> 2072" using layout_bounds [OF T(3)] by (simp_all add: T(4))
  then have per: "0 < tw_rows_per_block ?w" by (simp add: T(5) div_greater_zero_iff)
  have "(\<exists>g'. ghost k s' g' \<and> ltp_ext g g' \<and> rows_stored (lookup_block (ts_ndb s')) (ts_w s') (bs @ [tw_current_row ?w])) \<and>
      tw_layout (ts_w s') = tw_layout ?w \<and> tw_rows_per_block (ts_w s') = tw_rows_per_block ?w \<and>
      tw_row_index (ts_w s') = tw_row_index ?w \<and> \<not> tw_in_row (ts_w s') \<and> tw_row_count (ts_w s') = Suc (tw_row_count ?w)"
  proof (cases "tw_rows_per_block ?w * ?rs < length (tw_row_block ?w) + ?rs")
    case False
    then have s': "s' = upd_w ?done ?s" using s1 by (simp add: ret_run)
    have "rows_stored (lookup_block (ts_ndb s')) (ts_w s') (bs @ [tw_current_row ?w])"
      using rows_stored_add [OF T(2) len lay(1), of "ts_w s'"] False by (simp add: s')
    moreover have "ghost k s' g" using T(1) by (simp add: s' ghost_def ts_subs_def ts_streaming_def)
    ultimately show ?thesis by (auto simp: s')
  next
    case True
    have "?rs \<le> tw_rows_per_block ?w * ?rs" using per by simp
    then have "tw_row_block ?w \<noteq> []" using True by auto
    then obtain b where b: "within (ts_ndb s) (ts_ndb s1)" "lookup_block (ts_ndb s1) b = Some (resize_bytes kMaxBlockData (tw_row_block ?w))"
        "\<not> bidIsInternal b" "ts_w s1 = ?w\<lparr>tw_in_row := False, tw_row_leaves := tw_row_leaves ?w @ [b],
          tw_row_bytes := tw_row_bytes ?w + of_nat kMaxBlockData, tw_row_block := []\<rparr>"
      using flushRowBlock_law [of ?s False s1] tab_store [OF tab] s1(1) True by auto
    obtain g' where g': "ghost k (s\<lparr>ts_ndb := ts_ndb s1\<rparr>) g'" "ltp_ext g g'" using ghost_ndb [OF T(1) b(1)] by blast
    have "ghost k s' g'" using g'(1) by (simp add: s1(2) b(4) ghost_def ts_subs_def ts_streaming_def)
    moreover have "rows_stored (lookup_block (ts_ndb s')) (ts_w s') (bs @ [tw_current_row ?w])"
      using b(1-3) by (intro rows_stored_flush [OF T(2) len lay(1) per True, where l = b])
        (auto simp: s1(2) b(4) within_def preserves_def)
    ultimately show ?thesis using g'(2) by (auto simp: s1(2) b(4))
  qed
  then show ?thesis using tab_row_done [OF tab row] by blast
qed

subsection \<open>Rows written\<close>

definition write_row :: "32 word \<times> cell_op list \<Rightarrow> (tstate, unit) prog" where
  "write_row = (\<lambda>(row_id, ops). bindM (beginRow row_id) (\<lambda>_. bindM (forM writer_op ops) (\<lambda>_. endRow)))"

definition fill_row :: "32 word \<times> cell_op list \<Rightarrow> (table, unit) prog" where
  "fill_row = (\<lambda>(row_id, ops). bindM (addRow row_id) (\<lambda>i. forM (table_op i) ops))"

text \<open>The subnodes a row may take.\<close>

abbreviation row_cost :: "32 word \<times> cell_op list \<Rightarrow> nat" where
  "row_cost r \<equiv> length (snd r) + 2"

lemma ops_law:
  assumes "tab (k + length ops) s t g bs" "tw_in_row (ts_w s)" "\<forall>op \<in> set ops. op_ok op" "forM writer_op ops s = Some (Inr (), s')"
  shows "\<exists>t' g'. forM (table_op (tw_row_count (ts_w s))) ops t = Some (Inr (), t') \<and> tab k s' t' g' bs \<and> ltp_ext g g' \<and> tw_in_row (ts_w s')"
  using assms
proof (induction ops arbitrary: s t g)
  case Nil
  then show ?case by (auto simp: ret_run)
next
  case (Cons op ops)
  obtain s1 where s1: "writer_op op s = Some (Inr (), s1)" "forM writer_op ops s1 = Some (Inr (), s')"
    using Cons.prems(4) by (auto simp: bindM_Inr_iff)
  obtain t1 g1 where 1: "table_op (tw_row_count (ts_w s)) op t = Some (Inr (), t1)" "tab (k + length ops) s1 t1 g1 bs" "ltp_ext g g1"
      "tw_in_row (ts_w s1)" "tw_row_count (ts_w s1) = tw_row_count (ts_w s)"
    using op_law [of "k + length ops" s t g bs op s1] Cons.prems s1(1) by auto
  from Cons.IH [OF 1(2,4) _ s1(2)] Cons.prems(3) 1 show ?case
    by (auto simp: bindM_run intro: ltp_ext_trans)
qed

lemma write_row_law:
  assumes "tab (k + row_cost r) s t g bs" "\<forall>op \<in> set (snd r). op_ok op" "write_row r s = Some (Inr (), s')"
  shows "\<exists>t' g' bs'. fill_row r t = Some (Inr (), t') \<and> tab k s' t' g' bs' \<and> ltp_ext g g' \<and> \<not> tw_in_row (ts_w s')"
proof -
  obtain row_id ops where r: "r = (row_id, ops)" by fastforce
  obtain s1 s2 where run: "beginRow row_id s = Some (Inr (), s1)" "forM writer_op ops s1 = Some (Inr (), s2)" "endRow s2 = Some (Inr (), s')"
    using assms(3) by (auto simp: write_row_def r bindM_Inr_iff)
  have "tab (Suc (Suc (k + length ops))) s t g bs" using assms(1) by (simp add: r)
  from beginRow_law [OF this run(1)] obtain t1 g1 where
    1: "addRow row_id t = Some (Inr (tw_row_count (ts_w s1)), t1)" "tab (k + length ops) s1 t1 g1 bs" "ltp_ext g g1" "tw_in_row (ts_w s1)"
    by auto
  obtain t2 g2 where 2: "forM (table_op (tw_row_count (ts_w s1))) ops t1 = Some (Inr (), t2)" "tab k s2 t2 g2 bs" "ltp_ext g1 g2"
    using ops_law [OF 1(2,4) _ run(2)] assms(2) by (auto simp: r)
  have "fill_row r t = Some (Inr (), t2)" using 1(1) 2(1) by (simp add: fill_row_def r bindM_run)
  then show ?thesis using endRow_law [OF 2(2) run(3)] 1(3) 2(3) ltp_ext_trans by blast
qed

lemma write_rows_law:
  assumes "tab (k + sum_list (map row_cost rows)) s t g bs" "\<forall>r \<in> set rows. \<forall>op \<in> set (snd r). op_ok op" "\<not> tw_in_row (ts_w s)"
    "forM write_row rows s = Some (Inr (), s')"
  shows "\<exists>t' g' bs'. forM fill_row rows t = Some (Inr (), t') \<and> tab k s' t' g' bs' \<and> ltp_ext g g' \<and> \<not> tw_in_row (ts_w s')"
  using assms
proof (induction rows arbitrary: s t g bs)
  case Nil
  then show ?case by (auto simp: ret_run)
next
  case (Cons r rows)
  obtain s1 where s1: "write_row r s = Some (Inr (), s1)" "forM write_row rows s1 = Some (Inr (), s')"
    using Cons.prems(4) by (auto simp: bindM_Inr_iff)
  have "tab (k + sum_list (map row_cost rows) + row_cost r) s t g bs" using Cons.prems(1) by (simp add: ac_simps)
  from write_row_law [OF this _ s1(1)] Cons.prems(2) obtain t1 g1 bs1 where
    1: "fill_row r t = Some (Inr (), t1)" "tab (k + sum_list (map row_cost rows)) s1 t1 g1 bs1" "ltp_ext g g1" "\<not> tw_in_row (ts_w s1)"
    by auto
  from Cons.IH [OF 1(2) _ 1(4) s1(2)] Cons.prems(2) 1 show ?case
    by (auto simp: bindM_run intro: ltp_ext_trans)
qed

lemma set_tcell_ids:
  "set_tcell row tag c t = Some (r, t') \<Longrightarrow> map tr_id (tb_rows t') = map tr_id (tb_rows t) \<and> tb_columns t' = tb_columns t"
  by (auto simp: set_tcell_eq map_update list_update_same_conv split: if_splits option.splits)

lemma fill_rows_ids:
  "forM fill_row rows t = Some (Inr (), t') \<Longrightarrow>
     map tr_id (tb_rows t') = map tr_id (tb_rows t) @ map fst rows \<and> tb_columns t' = tb_columns t"
proof (induction rows arbitrary: t)
  case (Cons r rows)
  obtain row_id ops where r: "r = (row_id, ops)" by fastforce
  obtain i t1 t2 where t1: "addRow row_id t = Some (Inr i, t1)" "forM (table_op i) ops t1 = Some (Inr (), t2)" "forM fill_row rows t2 = Some (Inr (), t')"
    using Cons.prems by (auto simp: fill_row_def r bindM_Inr_iff)
  have "map tr_id (tb_rows t1) = map tr_id (tb_rows t) @ [row_id] \<and> tb_columns t1 = tb_columns t"
    using t1(1) by (auto simp: addRow_def bindM_Inr_iff modM_def getM_def ret_def tc_setInt32_def dest!: set_tcell_ids)
  moreover have "keeps (\<lambda>u. map tr_id (tb_rows u) = map tr_id (tb_rows t1) \<and> tb_columns u = tb_columns t1) (table_op i op)" for op
    unfolding table_op_eq by (rule hoareI) (auto split: prod.splits dest: set_tcell_ids)
  then have "map tr_id (tb_rows t2) = map tr_id (tb_rows t1) \<and> tb_columns t2 = tb_columns t1"
    using keepsD [OF keeps_forM _ t1(2)] by blast
  ultimately show ?case using Cons.IH [OF t1(3)] by (simp add: r)
qed (simp add: ret_run)

subsection \<open>Finishing\<close>

lemma pad_rows_step: "length a = n \<Longrightarrow> 0 < n \<Longrightarrow> m \<noteq> [] \<Longrightarrow> pad_rows n (a @ m) = a @ replicate (kMaxBlockData - n) 0 @ pad_rows n m"
  by (subst pad_rows.simps) auto

lemma pad_rows_blocks:
  assumes "\<forall>b \<in> set (concat gs @ rest). length b = n" "0 < n" "0 < per" "per * n \<le> kMaxBlockData"
    and "\<forall>g \<in> set gs. length g = per" "rest \<noteq> []" "length rest \<le> per"
  shows "pad_rows (per * n) (concat (concat gs @ rest)) = concat (map (\<lambda>g. resize_bytes kMaxBlockData (concat g)) gs) @ concat rest"
  using assms(1,5)
proof (induction gs)
  case Nil
  have "length (concat rest) = n * length rest"
    using length_concat_const [of rest "\<lambda>b. b" n] Nil by simp
  also have "\<dots> \<le> per * n" using assms(7) by simp
  finally show ?case by (subst pad_rows.simps) simp
next
  case (Cons g gs)
  have g: "length (concat g) = per * n"
    using length_concat_const [of g "\<lambda>b. b" n] Cons.prems by simp
  have "length (concat (concat gs @ rest)) = n * length (concat gs @ rest)"
    using length_concat_const [of "concat gs @ rest" "\<lambda>b. b" n] Cons.prems by simp
  then have ne: "0 < length (concat (concat gs @ rest))" using assms(2,6) by simp
  have "concat (concat (g # gs) @ rest) = concat g @ concat (concat gs @ rest)" by simp
  moreover have "pad_rows (per * n) (concat g @ concat (concat gs @ rest)) =
      concat g @ replicate (kMaxBlockData - per * n) 0 @ pad_rows (per * n) (concat (concat gs @ rest))"
    using pad_rows_step [OF g] ne assms(2,3) by (metis length_greater_0_conv nat_0_less_mult_iff)
  ultimately show ?case
    using Cons.IH Cons.prems g assms(4) by (simp add: resize_bytes_def del: concat_append)
qed

text \<open>The row blocks, assembled and adopted.\<close>

lemma rows_adopted:
  assumes tab: "tab (Suc k) s t g bs" and row: "\<not> tw_in_row (ts_w s)" and few: "length (tb_rows t) < 2 ^ 32"
    and flush: "flushRowBlock True s = Some (Inr (), s1)"
    and rows: "(if tw_row_leaves (ts_w s1) = [] then ret 0
       else bindM (tw_on_ndb (assembleDataTree (tw_row_leaves (ts_w s1)) (tw_row_bytes (ts_w s1)))) (\<lambda>b. tw_on_subs (adopt b))) s1 = Some (Inr h, s2)"
  shows "\<exists>g'. ghost k s2 g' \<and> ltp_ext g g' \<and> tw_layout (ts_w s2) = tw_layout (ts_w s) \<and> tw_row_index (ts_w s2) = tw_row_index (ts_w s) \<and>
    (bs \<noteq> [] \<longrightarrow> \<not> hnidIsHid h \<and> deref g' h = Some (pad_rows (kMaxBlockData div row_size (tw_layout (ts_w s)) * row_size (tw_layout (ts_w s))) (concat bs)))"
proof -
  let ?w = "ts_w s" and ?look = "lookup_block (ts_ndb s)"
  let ?rs = "row_size (tw_layout ?w)"
  have T: "ghost (Suc k) s g" "rows_stored ?look ?w bs" "tags_ok (tb_columns t)" "tw_layout ?w = layout (tb_columns t)"
      "tw_rows_per_block ?w = kMaxBlockData div ?rs" "length bs = tw_row_count ?w" "length (tb_rows t) = tw_row_count ?w"
      "\<forall>i < tw_row_count ?w. row_shows g (tb_columns t) (tr_cells (tb_rows t ! i)) (bs ! i)"
    using tab row by (simp_all add: tab_def Let_def writer_ok_def)
  have len: "\<forall>b \<in> set bs. length b = ?rs" using T(4,6,8) by (auto simp: in_set_conv_nth row_shows_def in_row_def)
  have lay: "0 < ?rs" "?rs \<le> 2072" using layout_bounds [OF T(3)] by (simp_all add: T(4))
  have per: "0 < tw_rows_per_block ?w" "tw_rows_per_block ?w * ?rs \<le> kMaxBlockData" using lay by (simp_all add: T(5) div_greater_zero_iff)
  obtain gs rest where gs: "bs = concat gs @ rest" "\<forall>g \<in> set gs. length g = tw_rows_per_block ?w"
      "tw_row_block ?w = concat rest" "length rest \<le> tw_rows_per_block ?w" "gs \<noteq> [] \<longrightarrow> rest \<noteq> []"
      "map ?look (tw_row_leaves ?w) = map (\<lambda>g. Some (resize_bytes kMaxBlockData (concat g))) gs"
      "\<forall>b \<in> set (tw_row_leaves ?w). \<not> bidIsInternal b" "tw_row_bytes ?w = of_nat (kMaxBlockData * length gs)"
    using T(2) unfolding rows_stored_def by blast
  show ?thesis
  proof (cases "rest = []")
    case True
    then have "tw_row_block ?w = []" "gs = []" "bs = []" "tw_row_leaves ?w = []" using gs by auto
    then have "s2 = s" using flush rows by (auto simp: flushRowBlock_def bindM_Inr_iff getM_def ret_run)
    then show ?thesis using T(1) \<open>bs = []\<close> subs_ok_mono by (intro exI [of _ g]) (auto simp: ghost_def)
  next
    case False
    let ?parts = "map (\<lambda>g. resize_bytes kMaxBlockData (concat g)) gs @ [concat rest]"
    have lr: "length (concat rest) = ?rs * length rest"
      using length_concat_const [of rest "\<lambda>b. b" ?rs] len gs(1) by simp
    then have "0 < length (concat rest)" "length (concat rest) \<le> kMaxBlockData"
      using False lay(1) per(2) le_trans [OF mult_le_mono2 [OF gs(4), of ?rs]] by (simp_all add: mult.commute del: length_concat)
    then have block: "concat rest \<noteq> []" "length (concat rest) \<le> kMaxBlockData" by (metis length_greater_0_conv)+
    obtain b where b: "within (ts_ndb s) (ts_ndb s1)" "lookup_block (ts_ndb s1) b = Some (concat rest)" "\<not> bidIsInternal b"
        "ts_w s1 = ?w\<lparr>tw_row_leaves := tw_row_leaves ?w @ [b], tw_row_bytes := tw_row_bytes ?w + of_nat (length (concat rest)), tw_row_block := []\<rparr>"
      using flushRowBlock_law [of s True s1] tab_store [OF tab] flush block(1) by (auto simp: gs(3))
    obtain d r where d: "assembleDataTree (tw_row_leaves ?w @ [b]) (of_nat (kMaxBlockData * length gs + length (concat rest))) (ts_ndb s1) = Some (Inr d, r)"
        "tw_on_subs (adopt d) (s1\<lparr>ts_ndb := r\<rparr>) = Some (Inr h, s2)"
      using rows by (auto simp: b(4) bindM_Inr_iff tw_on_ndb_run gs(8))
    have chunk: "chunks kMaxBlockData (concat ?parts) = ?parts"
      by (rule chunks_concat_full) (use block in auto)
    have "map (lookup_block (ts_ndb s1)) (tw_row_leaves ?w) = map (\<lambda>g. Some (resize_bytes kMaxBlockData (concat g))) gs"
      using gs(6) b(1) by (auto simp: list_eq_iff_nth_eq within_def preserves_def)
    then have leaves: "map (lookup_block (ts_ndb s1)) (tw_row_leaves ?w @ [b]) = map Some (chunks kMaxBlockData (concat ?parts))"
      unfolding chunk using b(2) by simp
    have total: "length (concat ?parts) = kMaxBlockData * length gs + length (concat rest)"
      using length_concat_const [of gs "\<lambda>g. resize_bytes kMaxBlockData (concat g)" kMaxBlockData] by simp
    have "length gs \<le> tw_rows_per_block ?w * length gs" using per(1) by (cases "tw_rows_per_block ?w") simp_all
    then have "length gs \<le> length (concat gs)" using length_concat_const [of gs "\<lambda>g. g" "tw_rows_per_block ?w"] gs(2) by simp
    then have "length gs \<le> length bs" unfolding gs(1) length_append by (rule trans_le_add1)
    then have small: "length (concat ?parts) < 2 ^ 64"
      using few T(6,7) block(2) unfolding total by simp
    note data = assembleDataTree_ok [OF _ leaves _ small d(1) [folded total]]
    have data: "within (ts_ndb s1) r" "read_data (lookup_block r) d = Some (concat ?parts)"
      using data b(1,3) gs(7) by (auto simp: within_def)
    have w: "within (ts_ndb s) r" using b(1) data(1) by (auto simp: within_def preserves_def)
    obtain g1 where g1: "ghost (Suc k) (s\<lparr>ts_ndb := r\<rparr>) g1" "ltp_ext g g1" "lt_heap g1 = lt_heap g" using ghost_ndb [OF T(1) w] by blast
    let ?s = "s1\<lparr>ts_ndb := r\<rparr>"
    have g2: "ghost (Suc k) ?s g1" using g1(1) by (simp add: ghost_def ts_subs_def ts_streaming_def b(4))
    then have ok: "subs_ok (Suc k) (ts_subs ?s)" by (simp add: ghost_def)
    from ghost_on_subs [OF g2 d(2), of k] adopt_law [OF ok] obtain g3 where
      g3: "ghost k s2 g3" "ltp_ext g1 g3" "same_rows ?s s2" "adopt d (ts_subs ?s) = Some (Inr h, lt_subs g3)" by fastforce
    note ad = adopt_law [OF ok g3(4)]
    have "sub_look (lt_subs g3) h = Some (concat ?parts)"
      using ad data(2) by (auto simp: sub_look_def sub_read_def find_append ts_subs_def)
    moreover have "concat ?parts = pad_rows (kMaxBlockData div ?rs * ?rs) (concat bs)"
      using pad_rows_blocks [of gs rest ?rs "tw_rows_per_block ?w"] len lay(1) per gs False by (simp add: T(5))
    ultimately have "\<not> hnidIsHid h \<and> deref g3 h = Some (pad_rows (kMaxBlockData div ?rs * ?rs) (concat bs))"
      using ad by (simp add: deref_def hnid_read_def)
    then show ?thesis
      using g3(1) same_rowsD [OF g3(3)] ltp_ext_trans [OF g1(2) g3(2)] b(4) by (intro exI [of _ g3]) simp
  qed
qed

lemma flushRowBlock_rows:
  "flushRowBlock l s = Some (Inr (), s') \<Longrightarrow> tw_layout (ts_w s') = tw_layout (ts_w s) \<and> tw_row_index (ts_w s') = tw_row_index (ts_w s)"
  by (auto simp: flushRowBlock_def bindM_Inr_iff getM_def modM_def ret_def tw_on_ndb_run split: if_splits)

lemma sort_index_set: "set (sort_index es) = set es" "distinct (map f es) \<Longrightarrow> distinct (map f (sort_index es))"
  by (simp_all add: sort_index_def distinct_sort_key)

text \<open>The row index, sorted before the tree is built, holds the records of the in-memory one.\<close>

lemma index_entries:
  fixes rows :: "trow list"
  assumes ids: "distinct (map tr_id rows)" "length rows < 2 ^ 32"
  defines "rs \<equiv> map index_entry (sort_index (map (\<lambda>i. (tr_id (rows ! i), of_nat i)) [0..<length rows]))"
    and "rs0 \<equiv> map index_record (enumerate 0 rows)"
  shows "records_fit 4 4 rs" "distinct (map bth_key rs)" "find (\<lambda>r. bth_key r = k) rs = find (\<lambda>r. bth_key r = k) rs0"
proof -
  let ?es = "map (\<lambda>i. (tr_id (rows ! i), of_nat i)) [0..<length rows] :: (32 word \<times> 32 word) list"
  have rs0: "map index_entry ?es = rs0"
    by (rule nth_equalityI) (simp_all add: rs0_def index_entry_def index_record_def nth_enumerate_eq)
  note idx = index_records [OF ids, folded rs0_def]
  have set: "set rs = set rs0" by (simp only: rs_def rs0 [symmetric] set_map sort_index_set)
  show "records_fit 4 4 rs" using idx(1) by (simp add: records_fit_def set)
  have "distinct (map (\<lambda>e. bth_key (index_entry e)) ?es)" using idx(2) unfolding rs0 [symmetric] by (simp add: comp_def)
  from sort_index_set(2) [OF this] show dist: "distinct (map bth_key rs)" by (simp add: rs_def comp_def)
  show "find (\<lambda>r. bth_key r = k) rs = find (\<lambda>r. bth_key r = k) rs0"
    by (rule find_distinct_any [OF idx(2) set dist])
qed

lemma tw_finish_law:
  assumes tab: "tab (Suc k) s t g bs" and row: "\<not> tw_in_row (ts_w s)" and ids: "distinct (map tr_id (tb_rows t))"
    and few: "length (tb_rows t) < 2 ^ 32" and run: "tw_finish s = Some (Inr nd, s')"
  defines "look \<equiv> lookup_block (ts_ndb s')"
  shows "\<exists>g' data subs. within (ts_ndb s) (ts_ndb s') \<and> read_data look (nd_data nd) = Some data \<and> read_subnodes look (nd_sub nd) = Some subs \<and>
    heap_sig data = Some (kHnSignature, kHnSigTC) \<and>
    (\<forall>h b. deref g' h = Some b \<longrightarrow> hnid_read (heap_read data) (sub_read look subs) h = Some b) \<and>
    (\<forall>i < length (tb_rows t). \<forall>j < length (tb_columns t). \<exists>f.
       field_read (heap_read data) (sub_read look subs) (heap_root data) (tr_id (tb_rows t ! i)) (tb_columns t ! j) = Some f \<and>
       cell_shows g' (tb_columns t ! j) (tr_cells (tb_rows t ! i) ! j) f) \<and>
    (\<forall>row_id tag sub. row_id \<notin> set (map tr_id (tb_rows t)) \<or> tag \<notin> set (tb_columns t) \<longrightarrow>
       field_read (heap_read data) sub (heap_root data) row_id tag = None)"
proof -
  let ?l = "layout (tb_columns t)" and ?rows = "tb_rows t" and ?tags = "tb_columns t"
  let ?recs = "map index_entry (sort_index (tw_row_index (ts_w s)))"
  have T: "ghost (Suc k) s g" "client_sig (lt_heap g) = kHnSigTC" "tags_ok ?tags" "distinct ?tags" "tw_layout (ts_w s) = ?l"
      "length bs = tw_row_count (ts_w s)" "length ?rows = tw_row_count (ts_w s)"
      "\<forall>i < tw_row_count (ts_w s). row_shows g ?tags (tr_cells (?rows ! i)) (bs ! i)"
      "tw_row_index (ts_w s) = map (\<lambda>i. (tr_id (?rows ! i), of_nat i)) [0..<length ?rows]"
    using tab row by (simp_all add: tab_def Let_def writer_ok_def del: upt_Suc)
  obtain s1 h s2 index s3 info s4 data s5 sub d where
      flush: "flushRowBlock True s = Some (Inr (), s1)"
      and rows: "(if tw_row_leaves (ts_w s1) = [] then ret 0
        else bindM (tw_on_ndb (assembleDataTree (tw_row_leaves (ts_w s1)) (tw_row_bytes (ts_w s1)))) (\<lambda>b. tw_on_subs (adopt b))) s1 = Some (Inr h, s2)"
      and idx: "tw_on_heap (buildBthInto sheap_alloc 4 4 (map index_entry (sort_index (tw_row_index (ts_w s1)))))
        (upd_w (\<lambda>w. w\<lparr>tw_row_index := []\<rparr>) s2) = Some (Inr index, s3)"
      and info: "tw_on_heap (sheap_alloc (tcinfo (tw_layout (ts_w s1)) index h)) s3 = Some (Inr info, s4)"
      and fin: "tw_on_heap sheap_finish \<lparr>ts_ndb = ts_ndb s4, ts_w = (ts_w s4)\<lparr>tw_heap := (tw_heap (ts_w s4))\<lparr>sp_root := info\<rparr>\<rparr>\<rparr> = Some (Inr data, s5)"
      and sub: "writeSubnodes (tw_entries (ts_w s5)) (ts_ndb s5) = Some (Inr sub, d)"
      and nd: "nd = \<lparr>nd_data = data, nd_sub = sub\<rparr>" "s' = s5\<lparr>ts_ndb := d\<rparr>"
    using run by (auto simp: tw_finish_def bindM_Inr_iff getM_def modM_def ret_def tw_on_ndb_run tw_on_heap_run [of "modM _"]
        sheap_setUserRoot_def ts_streaming_def)
  obtain g1 where g1: "ghost k s2 g1" "ltp_ext g g1" "tw_layout (ts_w s2) = ?l" "tw_row_index (ts_w s2) = tw_row_index (ts_w s)"
      "bs \<noteq> [] \<longrightarrow> \<not> hnidIsHid h \<and> deref g1 h = Some (pad_rows (kMaxBlockData div row_size ?l * row_size ?l) (concat bs))"
    using rows_adopted [OF tab row few flush rows] T(5) by auto
  have w1: "tw_layout (ts_w s1) = ?l" "tw_row_index (ts_w s1) = tw_row_index (ts_w s)"
    using flushRowBlock_rows [OF flush] T(5) by simp_all
  note rec = index_entries [OF ids few, folded T(9)]
  have "ghost k (upd_w (\<lambda>w. w\<lparr>tw_row_index := []\<rparr>) s2) g1" using g1(1) by (simp add: ghost_def ts_subs_def ts_streaming_def)
  from ghost_bth [OF this rec(1) idx [unfolded w1]] obtain g2 where
    g2: "ghost k s3 g2" "ltp_ext g1 g2" "bth_stored (heap_look (lt_heap g2)) 4 4 index ?recs" by blast
  from ghost_heap [OF g2(1) info [unfolded w1]] obtain g3 where
    g3: "ghost k s4 g3" "ltp_ext g2 g3" "heap_look (lt_heap g3) info = Some (tcinfo ?l index h)" by blast
  have ext: "ltp_ext g g3" "ltp_ext g1 g3" using g1(2) g2(2) g3(2) ltp_ext_trans by blast+
  let ?hp = "setUserRoot info (lt_heap g3)" and ?s4 = "sheap_setUserRoot info (ts_streaming s4)"
  obtain u where u: "sheap_finish ?s4 = Some (Inr data, u)" "ts_ndb s5 = st_ndb u" "tw_entries (ts_w s5) = tw_entries (ts_w s4)"
    using fin by (auto simp: tw_on_heap_run ts_streaming_def sheap_setUserRoot_def)
  have st: "streams ?s4 ?hp" using g3(1) streams_root by (simp add: ghost_def)
  then have hok: "heap_ok ?hp" by (simp add: streams_def Let_def)
  let ?data = "heap_stream (final_fill (st_heap ?s4)) ?hp"
  have fin': "within (ts_ndb s4) (ts_ndb s5)" "read_data (lookup_block (ts_ndb s5)) data = Some ?data"
    using sheap_finish_sim [OF st u(1)] u(2) by (simp_all add: sheap_setUserRoot_def ts_streaming_def)
  have look: "heap_read ?data = heap_look (lt_heap g3)" using heap_read_stream [OF hok length_final_fill] by (auto simp: fun_eq_iff)
  have hdr: "heap_root ?data = info" "heap_sig ?data = Some (kHnSignature, kHnSigTC)"
    using stream_header [OF hok length_final_fill] T(2) ext(1) by (simp_all add: setUserRoot_def ltp_ext_def)
  have "store_ok (ts_ndb s5)" using fin'(1) by (simp add: within_def)
  note ws = writeSubnodes_law [OF this sub]
  let ?subs = "sort_key sn_nid (tw_entries (ts_w s4))"
  have subs: "lt_subs g3 = ts_subs s4" "subs_ok k (ts_subs s4)" using g3(1) by (simp_all add: ghost_def)
  have dist: "distinct (map sn_nid (tw_entries (ts_w s4)))" using subs(2) by (simp add: subs_ok_def ts_subs_def)
  have keep: "lookup_block (ts_ndb s4) b = Some x \<Longrightarrow> look b = Some x" for b x
    using fin'(1) ws by (simp add: look_def nd(2) within_def preserves_def)
  have sub_eq: "find (\<lambda>e. sn_nid e = n) ?subs = find (\<lambda>e. sn_nid e = n) (tw_entries (ts_w s4))" for n
    by (rule find_distinct_any [OF dist]) (simp_all add: distinct_sort_key dist)
  have deref: "hnid_read (heap_read ?data) (sub_read look ?subs) h = Some b" if "deref g3 h = Some b" for h b
    using that read_data_mono [of "lookup_block (ts_ndb s4)" look, OF keep]
    by (auto simp: deref_def hnid_read_def look subs(1) sub_look_def ts_subs_def sub_read_def sub_eq split: if_splits option.splits)
  have data: "read_data look (nd_data nd) = Some ?data"
    using read_data_mono [OF _ fin'(2), of look] ws by (simp add: look_def nd preserves_def)
  have subn: "read_subnodes look (nd_sub nd) = Some ?subs" using ws by (simp add: look_def nd u(3))
  have find: "bth_find (heap_read ?data) index (le_bytes 4 i) =
      map_option bth_value (find (\<lambda>r. bth_key r = le_bytes 4 i) (map index_record (enumerate 0 ?rows)))" for i :: "32 word"
  proof -
    have "bth_stored (heap_read ?data) 4 4 index ?recs"
      unfolding look by (rule bth_stored_mono [OF g2(3)]) (use g3(2) in \<open>auto simp: ltp_ext_def hn.extends_def\<close>)
    from bth_stored_find [OF this rec(1,2), of "le_bytes 4 i"] show ?thesis by (simp add: rec(3))
  qed
  have matrix: "hnid_read (heap_read ?data) (sub_read look ?subs) h = Some (pad_rows (kMaxBlockData div row_size ?l * row_size ?l) (concat bs))"
    if "?rows \<noteq> []"
    using that g1(5) T(6,7) deref deref_ext [OF ext(2)] by (cases bs) auto
  have len: "\<forall>b \<in> set bs. length b = row_size ?l" using T(6,8) by (auto simp: in_set_conv_nth row_shows_def in_row_def)
  have lb: "length bs = length ?rows" using T(6,7) by simp
  have at: "row_at (hnidIsHid h) (row_size ?l) (pad_rows (kMaxBlockData div row_size ?l * row_size ?l) (concat bs)) i = bs ! i"
    if "i < length ?rows" for i
    using row_at_padded [of "row_size ?l" bs i] layout_bounds [OF T(3)] len lb that g1(5) by (cases bs) auto
  have info': "heap_read ?data info = Some (tcinfo ?l index h)" using g3(3) look by simp
  note read = field_read_law [OF T(3,4) ids few info' find matrix at]
  have "\<exists>f. field_read (heap_read ?data) (sub_read look ?subs) (heap_root ?data) (tr_id (?rows ! i)) (?tags ! j) = Some f \<and>
      cell_shows g3 (?tags ! j) (tr_cells (?rows ! i) ! j) f" if ij: "i < length ?rows" "j < length ?tags" for i j
    using read(1) [OF _ _ ij] T(7,8) ij row_shows_ext [OF _ ext(1)] unfolding hdr(1) by (auto simp: row_shows_def)
  moreover have "field_read (heap_read ?data) sub (heap_root ?data) row_id tag = None"
    if "row_id \<notin> set (map tr_id ?rows) \<or> tag \<notin> set ?tags" for row_id tag sub
    using read(2) that unfolding hdr(1) by blast
  moreover have "within (ts_ndb s) (ts_ndb s')"
    using ext(1) T(1) g3(1) fin'(1) ws by (auto simp: nd(2) within_def ltp_ext_def ghost_def subs_ext_def ts_subs_def preserves_def)
  ultimately show ?thesis
    using data subn hdr(2) deref by (intro exI [of _ g3] exI [of _ ?data] exI [of _ ?subs]) blast
qed

subsection \<open>A new table\<close>

lemma fold_addColumn:
  "tb_rows t = [] \<Longrightarrow> fold addColumn cs t = \<lparr>tb_columns = fold add_tag cs (tb_columns t), tb_rows = []\<rparr>"
  by (induction cs arbitrary: t) (simp_all add: addColumn_def add_tag_def)

lemma fold_add_tag: "distinct tags \<Longrightarrow> \<exists>more. fold add_tag cs tags = tags @ more \<and> distinct (tags @ more)"
proof (induction cs arbitrary: tags)
  case (Cons c cs)
  show ?case
  proof (cases "c \<in> set tags")
    case False
    then show ?thesis using Cons.IH [of "tags @ [c]"] Cons.prems by (auto simp: add_tag_def)
  qed (use Cons in \<open>simp add: add_tag_def\<close>)
qed simp

lemma tab_new:
  fixes columns :: "prop_tag list"
  defines "t \<equiv> fold addColumn columns TableContext_new"
  assumes d: "store_ok d" and k: "k < 2 ^ 27" and n: "length (tb_columns t) \<le> 255"
  shows "\<exists>g. tab k \<lparr>ts_ndb = d, ts_w = TableContextWriter_new columns\<rparr> t g []"
proof -
  let ?s = "\<lparr>ts_ndb = d, ts_w = TableContextWriter_new columns\<rparr>"
  let ?tags = "fold add_tag columns [PidTagLtpRowId, PidTagLtpRowVer]"
  have t: "t = \<lparr>tb_columns = ?tags, tb_rows = []\<rparr>" by (simp add: t_def fold_addColumn TableContext_new_def)
  have "distinct [PidTagLtpRowId, PidTagLtpRowVer]" by (simp add: makeTag_def)
  from fold_add_tag [OF this] obtain more where tags: "?tags = [PidTagLtpRowId, PidTagLtpRowVer] @ more" "distinct ?tags" by auto
  have ok: "tags_ok ?tags" using n by (simp add: t tags(1) tags_ok_def column_width_def fixedPropSize_def)
  then have lay: "writer_layout ?tags = layout ?tags" by (intro writer_layout_eq) (simp add: tags_ok_def)
  have subs: "ts_subs ?s = SubnodeAllocator_new d" by (simp add: ts_subs_def TableContextWriter_new_def Let_def SubnodeAllocator_new_def)
  have "ts_streaming ?s = \<lparr>st_ndb = d, st_heap = StreamingHeap_new kHnSigTC\<rparr>"
    by (simp add: ts_streaming_def TableContextWriter_new_def Let_def)
  then have "ghost k ?s \<lparr>lt_heap = HeapNode_new kHnSigTC, lt_subs = SubnodeAllocator_new d\<rparr>"
    using subs streams_new [OF d] subs_ok_new [OF d k] by (simp add: ghost_def HeapNode_new_ok)
  moreover have "rows_stored look (TableContextWriter_new columns) []" for look
    by (simp add: rows_stored_def TableContextWriter_new_def Let_def)
  ultimately show ?thesis
    using ok tags(2) lay
    by (intro exI [of _ "\<lparr>lt_heap = HeapNode_new kHnSigTC, lt_subs = SubnodeAllocator_new d\<rparr>"])
       (simp add: tab_def Let_def writer_ok_def t TableContextWriter_new_def HeapNode_new_def)
qed

subsection \<open>Properties\<close>

text \<open>A table written: its rows, then the rest; and the cell a table holds for a row id and a column.\<close>

definition write_table :: "(32 word \<times> cell_op list) list \<Rightarrow> (tstate, node_data) prog" where
  "write_table rows = bindM (forM write_row rows) (\<lambda>_. tw_finish)"

definition table_cell :: "table \<Rightarrow> 32 word \<Rightarrow> prop_tag \<Rightarrow> bytes option option" where
  "table_cell t row_id tag =
     Option.bind (find (\<lambda>r. tr_id r = row_id) (tb_rows t)) (\<lambda>r.
     map_option (\<lambda>j. cell_value (tr_cells r ! j)) (index_from 0 tag (tb_columns t)))"

lemma table_cell_None:
  assumes "row_id \<notin> set (map tr_id (tb_rows t)) \<or> tag \<notin> set (tb_columns t)"
  shows "table_cell t row_id tag = None"
proof (cases "tag \<in> set (tb_columns t)")
  case True
  then have "find (\<lambda>r. tr_id r = row_id) (tb_rows t) = None" using assms by (auto simp: find_None_iff)
  then show ?thesis by (simp add: table_cell_def)
next
  case False
  then have "index_from 0 tag (tb_columns t) = None"
    using index_from_Some [of 0 tag "tb_columns t"] by (cases "index_from 0 tag (tb_columns t)") (auto dest: nth_mem)
  then show ?thesis by (cases "find (\<lambda>r. tr_id r = row_id) (tb_rows t)") (simp_all add: table_cell_def)
qed

lemma table_cell_Some:
  assumes "distinct (map tr_id (tb_rows t))" "distinct (tb_columns t)" "i < length (tb_rows t)" "j < length (tb_columns t)"
  shows "table_cell t (tr_id (tb_rows t ! i)) (tb_columns t ! j) = Some (cell_value (tr_cells (tb_rows t ! i) ! j))"
proof -
  have "find (\<lambda>r. tr_id r = tr_id (tb_rows t ! i)) (tb_rows t) = Some (tb_rows t ! i)"
    by (rule find_distinct) (use assms in simp_all)
  moreover obtain j' where j': "index_from 0 (tb_columns t ! j) (tb_columns t) = Some j'"
    using index_from_mem [of "tb_columns t ! j" "tb_columns t" 0] assms(4) by auto
  moreover have "j' = j" using index_from_Some [OF j'] assms(2,4) nth_eq_iff_index_eq [of "tb_columns t" j' j] by simp
  ultimately show ?thesis by (simp add: table_cell_def)
qed

text \<open>
  Whatever columns it is given, with repetitions or not, the streaming table lays its rows out as
  the in-memory table with the same columns does: same offsets, same bitmap, same row width.
\<close>

theorem streaming_layout_agrees:
  "tw_layout (TableContextWriter_new columns) = layout (tb_columns (fold addColumn columns TableContext_new))"
proof -
  have "distinct [PidTagLtpRowId, PidTagLtpRowVer]" by (simp add: makeTag_def)
  from fold_add_tag [OF this] obtain more where
    "fold add_tag columns [PidTagLtpRowId, PidTagLtpRowVer] = [PidTagLtpRowId, PidTagLtpRowVer] @ more" by blast
  then show ?thesis
    by (simp add: TableContextWriter_new_def Let_def writer_layout_eq fold_addColumn TableContext_new_def)
qed

text \<open>
  C39: The streaming table implements the in-memory one. When writing rows through it succeeds, the
  same calls on an in-memory table succeed, and a reader of the node that \<open>finish\<close> wrote, of its
  heap, its rows on disk and its subnodes, finds under every row id and column exactly the cell the
  in-memory table holds; what the file held before is still there.
\<close>

theorem streaming_table_refines:
  assumes "store_ok d" and "length (tb_columns (fold addColumn columns TableContext_new)) \<le> 255"
    and "\<forall>r \<in> set rows. \<forall>op \<in> set (snd r). op_ok op" and "distinct (map fst rows)"
    and "Suc (sum_list (map row_cost rows)) < 2 ^ 27"
    and "write_table rows \<lparr>ts_ndb = d, ts_w = TableContextWriter_new columns\<rparr> = Some (Inr nd, s')"
  shows "\<exists>t data subs. forM fill_row rows (fold addColumn columns TableContext_new) = Some (Inr (), t) \<and>
    read_data (lookup_block (ts_ndb s')) (nd_data nd) = Some data \<and> read_subnodes (lookup_block (ts_ndb s')) (nd_sub nd) = Some subs \<and>
    heap_sig data = Some (kHnSignature, kHnSigTC) \<and> preserves d (ts_ndb s') \<and>
    (\<forall>row_id tag. table_read (heap_read data) (sub_read (lookup_block (ts_ndb s')) subs) (heap_root data) row_id tag =
       table_cell t row_id tag)"
proof -
  let ?s = "\<lparr>ts_ndb = d, ts_w = TableContextWriter_new columns\<rparr>" and ?t = "fold addColumn columns TableContext_new"
  obtain s1 where s1: "forM write_row rows ?s = Some (Inr (), s1)" "tw_finish s1 = Some (Inr nd, s')"
    using assms(6) by (auto simp: write_table_def bindM_Inr_iff)
  obtain g0 where g0: "tab (Suc (sum_list (map row_cost rows))) ?s ?t g0 []" using tab_new [OF assms(1,5,2)] by blast
  then have g0': "tab (Suc 0 + sum_list (map row_cost rows)) ?s ?t g0 []" by simp
  have out: "\<not> tw_in_row (ts_w ?s)" by (simp add: TableContextWriter_new_def Let_def)
  obtain t g bs where t: "forM fill_row rows ?t = Some (Inr (), t)" "tab (Suc 0) s1 t g bs" "ltp_ext g0 g" "\<not> tw_in_row (ts_w s1)"
    using write_rows_law [OF g0' assms(3) out s1(1)] by auto
  have ids: "map tr_id (tb_rows t) = map fst rows" using fill_rows_ids [OF t(1)] by (simp add: fold_addColumn TableContext_new_def)
  then have dist: "distinct (map tr_id (tb_rows t))" using assms(4) by simp
  have "2 * length rows \<le> sum_list (map row_cost rows)" by (induction rows) simp_all
  then have few: "length (tb_rows t) < 2 ^ 32" using assms(5) arg_cong [OF ids, of length] by simp
  have cols: "distinct (tb_columns t)" using t(2) by (simp add: tab_def Let_def writer_ok_def)
  obtain g' data subs where fin: "within (ts_ndb s1) (ts_ndb s')" "read_data (lookup_block (ts_ndb s')) (nd_data nd) = Some data"
      "read_subnodes (lookup_block (ts_ndb s')) (nd_sub nd) = Some subs" "heap_sig data = Some (kHnSignature, kHnSigTC)"
      "\<And>h b. deref g' h = Some b \<Longrightarrow> hnid_read (heap_read data) (sub_read (lookup_block (ts_ndb s')) subs) h = Some b"
      "\<And>i j. i < length (tb_rows t) \<Longrightarrow> j < length (tb_columns t) \<Longrightarrow> \<exists>f.
        field_read (heap_read data) (sub_read (lookup_block (ts_ndb s')) subs) (heap_root data) (tr_id (tb_rows t ! i)) (tb_columns t ! j) = Some f \<and>
        cell_shows g' (tb_columns t ! j) (tr_cells (tb_rows t ! i) ! j) f"
      "\<And>row_id tag. row_id \<notin> set (map tr_id (tb_rows t)) \<or> tag \<notin> set (tb_columns t) \<Longrightarrow>
        field_read (heap_read data) (sub_read (lookup_block (ts_ndb s')) subs) (heap_root data) row_id tag = None"
    using tw_finish_law [OF t(2,4) dist few s1(2)] by blast
  have "table_read (heap_read data) (sub_read (lookup_block (ts_ndb s')) subs) (heap_root data) row_id tag = table_cell t row_id tag" for row_id tag
  proof (cases "row_id \<in> set (map tr_id (tb_rows t)) \<and> tag \<in> set (tb_columns t)")
    case True
    then obtain i j where ij: "i < length (tb_rows t)" "row_id = tr_id (tb_rows t ! i)" "j < length (tb_columns t)" "tag = tb_columns t ! j"
      by (auto simp: in_set_conv_nth)
    then show ?thesis using fin(6) [OF ij(1,3)] table_read_value fin(5) table_cell_Some [OF dist cols ij(1,3)] by metis
  next
    case False
    then show ?thesis using fin(7) [of row_id tag] table_cell_None by (auto simp: table_read_def)
  qed
  moreover have "preserves d (ts_ndb s')"
    using t(2,3) g0 fin(1) by (auto simp: tab_def Let_def ghost_def ltp_ext_def subs_ext_def ts_subs_def within_def preserves_def)
  ultimately show ?thesis using t(1) fin(2-4) by blast
qed

text \<open>A recipient table with one row, written to an empty file.\<close>

definition sample_row :: "32 word \<times> cell_op list" where
  "sample_row = (7, [SetString PR_DISPLAY_NAME ''Ann'', SetInt32 PR_RECIPIENT_TYPE 1])"

abbreviation sample_columns :: "prop_tag list" where
  "sample_columns \<equiv> [PR_DISPLAY_NAME, PR_RECIPIENT_TYPE]"

abbreviation sample_tags :: "prop_tag list" where
  "sample_tags \<equiv> [0x67F20003, 0x67F30003, 0x3001001F, 0x0C150003]"

definition sample_layout :: row_layout where
  "sample_layout = \<lparr>lay_columns = [\<lparr>col_tag = 0x67F20003, col_ib = 0, col_cb = 4, col_ibit = 0\<rparr>,
     \<lparr>col_tag = 0x67F30003, col_ib = 4, col_cb = 4, col_ibit = 1\<rparr>, \<lparr>col_tag = 0x3001001F, col_ib = 8, col_cb = 4, col_ibit = 2\<rparr>,
     \<lparr>col_tag = 0x0C150003, col_ib = 12, col_cb = 4, col_ibit = 3\<rparr>], lay_rgib = [16, 16, 16, 17], lay_size = 17\<rparr>"

lemma sample_layout_eq: "layout sample_tags = sample_layout"
  by code_simp

lemma sample_writer: "TableContextWriter_new sample_columns =
    \<lparr>tw_tags = sample_tags, tw_layout = sample_layout, tw_rows_per_block = 480,
     tw_heap = StreamingHeap_new kHnSigTC, tw_entries = [], tw_next = 1,
     tw_row_block = [], tw_row_leaves = [], tw_row_bytes = 0, tw_current_row = [], tw_in_row = False,
     tw_row_count = 0, tw_row_index = []\<rparr>"
proof -
  have "fold add_tag sample_columns [PidTagLtpRowId, PidTagLtpRowVer] = sample_tags" by (simp add: add_tag_def makeTag_def)
  moreover have "writer_layout sample_tags = sample_layout" by (subst writer_layout_eq) (simp_all add: sample_layout_eq)
  moreover have "row_size sample_layout = 17" by (simp add: row_size_def sample_layout_def)
  ultimately show ?thesis by (simp add: TableContextWriter_new_def Let_def)
qed

lemma tw_column_eq:
  "index_from 0 tag (map col_tag (lay_columns (tw_layout (ts_w s)))) = Some i \<Longrightarrow>
     tw_column tag s = Some (Inr (lay_columns (tw_layout (ts_w s)) ! i), s)"
  by (simp add: tw_column_def columnIndex_def prog_simps)

definition sample_state :: "ndb \<Rightarrow> sheap \<Rightarrow> bytes \<Rightarrow> bytes \<Rightarrow> bool \<Rightarrow> nat \<Rightarrow> tstate" where
  "sample_state d h block row inside n =
     \<lparr>ts_ndb = d, ts_w = \<lparr>tw_tags = sample_tags, tw_layout = sample_layout, tw_rows_per_block = 480,
        tw_heap = h, tw_entries = [], tw_next = 1, tw_row_block = block, tw_row_leaves = [], tw_row_bytes = 0,
        tw_current_row = row, tw_in_row = inside, tw_row_count = n, tw_row_index = [(7, 0)]\<rparr>\<rparr>"

definition ann_heap :: sheap where
  "ann_heap = (StreamingHeap_new kHnSigTC)\<lparr>sp_block0 := \<lparr>hb_items = [[65, 0, 110, 0, 110, 0]], hb_used = 6\<rparr>\<rparr>"

definition sample_bytes :: bytes where
  "sample_bytes = [7, 0, 0, 0, 1, 0, 0, 0, 0x20, 0, 0, 0, 1, 0, 0, 0, 0xF0]"

lemma sample_index:
  "index_from 0 PidTagLtpRowId (map col_tag (lay_columns sample_layout)) = Some 0"
  "index_from 0 PidTagLtpRowVer (map col_tag (lay_columns sample_layout)) = Some 1"
  "index_from 0 PR_DISPLAY_NAME (map col_tag (lay_columns sample_layout)) = Some 2"
  "index_from 0 PR_RECIPIENT_TYPE (map col_tag (lay_columns sample_layout)) = Some 3"
  by (simp_all add: sample_layout_def makeTag_def)

lemma tw_setInt32_sample:
  assumes "index_from 0 tag (map col_tag (lay_columns sample_layout)) = Some i"
    and "set_cell (ceb_off sample_layout) (lay_columns sample_layout ! i) (le_bytes 4 v) row = row'"
  shows "tw_setInt32 tag v (sample_state d h block row inside n) = Some (Inr (), sample_state d h block row' inside n)"
  using assms by (simp add: tw_setInt32_def tw_poke_def bindM_run tw_column_eq sample_state_def prog_simps)

lemma sample_rows_run:
  "write_row sample_row \<lparr>ts_ndb = d, ts_w = TableContextWriter_new sample_columns\<rparr> =
     Some (Inr (), sample_state d ann_heap sample_bytes sample_bytes False 1)"
proof -
  let ?z = "[7, 0, 0, 0, 0, 0, 0, 0, 0, 0, 0, 0, 0, 0, 0, 0, 0x80] :: bytes" and ?b = "[7, 0, 0, 0, 1, 0, 0, 0, 0, 0, 0, 0, 0, 0, 0, 0, 0xC0] :: bytes"
    and ?n = "[7, 0, 0, 0, 1, 0, 0, 0, 0x20, 0, 0, 0, 0, 0, 0, 0, 0xE0] :: bytes" and ?h0 = "StreamingHeap_new kHnSigTC"
  have cells: "set_cell (ceb_off sample_layout) (lay_columns sample_layout ! 0) (le_bytes 4 (7 :: 32 word)) (replicate 17 0) = ?z"
      "set_cell (ceb_off sample_layout) (lay_columns sample_layout ! 1) (le_bytes 4 (1 :: 32 word)) ?z = ?b"
      "set_cell (ceb_off sample_layout) (lay_columns sample_layout ! 2) (le_bytes 4 (makeHid 0 1)) ?b = ?n"
      "set_cell (ceb_off sample_layout) (lay_columns sample_layout ! 3) (le_bytes 4 (1 :: 32 word)) ?n = sample_bytes"
    by code_simp+
  have "tw_on_heap (sheap_alloc [65, 0, 110, 0, 110, 0]) (sample_state d ?h0 [] ?b True 0) = Some (Inr (makeHid 0 1), sample_state d ann_heap [] ?b True 0)"
    by (simp add: tw_on_heap_run ts_streaming_def sample_state_def ann_heap_def sheap_alloc_def prog_simps sheap_fits_def block_fits_def
        pageMapSize_def blockHeaderSize_def StreamingHeap_new_def empty_block_def add_item_def)
  then have name: "tw_setString PR_DISPLAY_NAME ''Ann'' (sample_state d ?h0 [] ?b True 0) = Some (Inr (), sample_state d ann_heap [] ?n True 0)"
    using cells(3) sample_index(3) tw_column_eq [of PR_DISPLAY_NAME "sample_state d ?h0 [] ?b True 0" 2]
    by (simp add: tw_setString_def tw_setBinary_def tw_place_def tw_poke_def ann_bytes bindM_run prog_simps sample_state_def)
  have "row_size sample_layout = 17" by (simp add: row_size_def sample_layout_def)
  moreover from this have "beginRow 7 \<lparr>ts_ndb = d, ts_w = TableContextWriter_new sample_columns\<rparr> = Some (Inr (), sample_state d ?h0 [] ?b True 0)"
    using tw_setInt32_sample [OF sample_index(1) cells(1), of d ?h0 "[]" True 0] tw_setInt32_sample [OF sample_index(2) cells(2), of d ?h0 "[]" True 0]
    by (simp add: beginRow_def bindM_def prog_simps sample_writer sample_state_def)
  ultimately show ?thesis
    using name tw_setInt32_sample [OF sample_index(4) cells(4), of d ann_heap "[]" True 0]
    by (simp add: write_row_def sample_row_def endRow_def bindM_def prog_simps sample_state_def)
qed

text \<open>An allocation that fits block 0.\<close>

definition put_small :: "bytes \<Rightarrow> sheap \<Rightarrow> sheap" where
  "put_small b h = h\<lparr>sp_block0 := add_item b (sp_block0 h)\<rparr>"

lemma sheap_alloc_small:
  assumes "sp_index (st_heap s) = 0" "block_fits 0 (sp_block0 (st_heap s)) (length b)" "length (hb_items (sp_block0 (st_heap s))) < 2047"
    "length b \<le> maxAllocSize"
  shows "\<exists>k. sheap_alloc b s = Some (Inr k, s\<lparr>st_heap := put_small b (st_heap s)\<rparr>)"
  using assms by (simp add: sheap_alloc_def bindM_def prog_simps sheap_fits_def put_small_def)

lemma bth_one_record:
  assumes leaf: "galloc (leaf_page kb eb [r]) s = Some (Inr k, s1)" and root: "\<exists>i. galloc (bth_header kb eb 0 k) s1 = Some (Inr i, s2)"
  shows "\<exists>i. buildBthInto galloc kb eb [r] s = Some (Inr i, s2)"
proof -
  have "chunks (bth_per_leaf kb eb) [r] = [[r]]" by (simp add: bth_per_leaf_def chunks.simps)
  moreover have "bth_levels galloc kb 0 [x] = ret (0, x)" for x by (simp add: bth_levels.simps)
  ultimately show ?thesis using leaf root by (auto simp: buildBthInto_def bth_leaf_def bindM_def prog_simps)
qed

lemma sample_finish:
  assumes room: "roomy 3 d"
  shows "\<exists>nd s'. tw_finish (sample_state d ann_heap sample_bytes sample_bytes False 1) = Some (Inr nd, s')"
proof -
  let ?s = "sample_state d ann_heap sample_bytes sample_bytes False 1"
  obtain b d1 where b: "writeLeafChunk sample_bytes d = Some (Inr b, d1)" "roomy 2 d1"
    using emitBlock_roomy [of 2 d sample_bytes False] room by (auto simp: writeLeafChunk_def sample_bytes_def eval_nat_numeral)
  let ?w1 = "(ts_w ?s)\<lparr>tw_row_block := [], tw_row_leaves := [b], tw_row_bytes := 17\<rparr>"
  have flush: "flushRowBlock True ?s = Some (Inr (), \<lparr>ts_ndb = d1, ts_w = ?w1\<rparr>)"
    using b(1) by (simp add: flushRowBlock_def bindM_def prog_simps tw_on_ndb_def zoomM_def sample_state_def sample_bytes_def)
  let ?n = "makeNid kNidTypeLtp 1"
  let ?w2 = "?w1\<lparr>tw_entries := [\<lparr>sn_nid = ?n, sn_data = b, sn_sub = 0\<rparr>], tw_next := 2\<rparr>"
  have rows: "bindM (tw_on_ndb (assembleDataTree [b] 17)) (\<lambda>b. tw_on_subs (adopt b)) \<lparr>ts_ndb = d1, ts_w = ?w1\<rparr> = Some (Inr ?n, \<lparr>ts_ndb = d1, ts_w = ?w2\<rparr>)"
    by (simp add: bindM_def prog_simps tw_on_ndb_def tw_on_subs_def zoomM_def assembleDataTree_def adopt_def ts_subs_def sample_state_def)
  let ?leaf = "leaf_page 4 4 [index_entry (7, 0)]" and ?h = "tw_heap (ts_w ?s)"
  have leaf: "length ?leaf = 8" by (simp add: leaf_page_def index_entry_def put32_def)
  let ?t = "\<lparr>st_ndb = d1, st_heap = ann_heap\<rparr>"
  have ann: "sp_index ann_heap = 0" "sp_block0 ann_heap = \<lparr>hb_items = [[65, 0, 110, 0, 110, 0]], hb_used = 6\<rparr>" "sp_leaves ann_heap = [0]"
      "\<not> sp_finished ann_heap"
    by (simp_all add: ann_heap_def StreamingHeap_new_def)
  note small = block_fits_def pageMapSize_def blockHeaderSize_def add_item_def put_small_def maxAllocSize_def ann
  obtain k where k: "sheap_alloc ?leaf ?t = Some (Inr k, ?t\<lparr>st_heap := put_small ?leaf ann_heap\<rparr>)"
    using sheap_alloc_small [of ?t ?leaf] leaf by (auto simp: small)
  let ?hdr = "bth_header 4 4 0 k"
  have hdr: "length ?hdr = 8" by (simp add: bth_header_def put8_def put32_def)
  let ?h2 = "put_small ?hdr (put_small ?leaf ann_heap)"
  have "\<exists>i. sheap_alloc ?hdr (?t\<lparr>st_heap := put_small ?leaf ann_heap\<rparr>) = Some (Inr i, ?t\<lparr>st_heap := ?h2\<rparr>)"
    using sheap_alloc_small [of "?t\<lparr>st_heap := put_small ?leaf ann_heap\<rparr>" ?hdr] leaf hdr by (simp add: small)
  from bth_one_record [OF k this] obtain i where
    i: "buildBthInto sheap_alloc 4 4 [index_entry (7, 0)] ?t = Some (Inr i, ?t\<lparr>st_heap := ?h2\<rparr>)" by blast
  let ?tc = "tcinfo sample_layout i ?n"
  have tc: "length ?tc = 54" using read_tcinfo(2) [of sample_layout] by (simp add: sample_layout_def)
  obtain info where info: "sheap_alloc ?tc (?t\<lparr>st_heap := ?h2\<rparr>) = Some (Inr info, ?t\<lparr>st_heap := put_small ?tc ?h2\<rparr>)"
    using sheap_alloc_small [of "?t\<lparr>st_heap := ?h2\<rparr>" ?tc] leaf hdr tc by (auto simp: small)
  let ?h3 = "(put_small ?tc ?h2)\<lparr>sp_root := info\<rparr>"
  let ?items = "[[65, 0, 110, 0, 110, 0], ?leaf, ?hdr, ?tc]"
  let ?blk = "renderBlock (?h3\<lparr>sp_finished := True\<rparr>) (sp_block0 ?h3) 0 True"
  have "items_fit 0 ?items" using leaf hdr tc by (simp add: items_fit_def items_end_def pageMapSize_def blockHeaderSize_def)
  moreover have "hb_items (sp_block0 ?h3) = ?items" by (simp add: small)
  ultimately have blk: "length ?blk \<le> kMaxBlockData"
    using map_pos_bounds(2) [of 0 ?items True] unfolding renderBlock_def
    by (subst length_hn_block) (simp_all add: block_len_def stream_fill_def)
  have "roomy (Suc (Suc 0)) d1" using b(2) by (simp add: numeral_2_eq_2)
  from emitBlock_roomy [OF this blk] obtain b0 d2 where b0: "writeLeafChunk ?blk d1 = Some (Inr b0, d2)" "roomy (Suc 0) d2"
    unfolding writeLeafChunk_def by blast
  obtain u where u: "sheap_finish \<lparr>st_ndb = d1, st_heap = ?h3\<rparr> = Some (Inr b0, \<lparr>st_ndb = d2, st_heap = u\<rparr>)"
    using b0(1) by (auto simp: sheap_finish_def bindM_def prog_simps st_on_ndb_run assembleDataTree_def put_small_def ann)
  have "length (sl_image [\<lparr>sn_nid = ?n, sn_data = b, sn_sub = 0\<rparr>]) \<le> kMaxBlockData"
    by (simp add: sl_image_eq sl_entry_def)
  then obtain b1 d3 where b1: "emitBlock (sl_image [\<lparr>sn_nid = ?n, sn_data = b, sn_sub = 0\<rparr>]) True d2 = Some (Inr b1, d3)"
    using emitBlock_roomy [OF b0(2)] by blast
  define w3 where "w3 = ?w2\<lparr>tw_row_index := []\<rparr>"
  define h2 h3 where "h2 = ?h2" and "h3 = ?h3"
  have w3: "tw_entries w3 = [\<lparr>sn_nid = ?n, sn_data = b, sn_sub = 0\<rparr>]" "tw_heap w3 = ann_heap" by (simp_all add: w3_def sample_state_def)
  have steps: "tw_on_heap (buildBthInto sheap_alloc 4 4 [index_entry (7, 0)]) \<lparr>ts_ndb = d1, ts_w = w3\<rparr> = Some (Inr i, \<lparr>ts_ndb = d1, ts_w = w3\<lparr>tw_heap := h2\<rparr>\<rparr>)"
      "tw_on_heap (sheap_alloc ?tc) \<lparr>ts_ndb = d1, ts_w = w3\<lparr>tw_heap := h2\<rparr>\<rparr> = Some (Inr info, \<lparr>ts_ndb = d1, ts_w = w3\<lparr>tw_heap := put_small ?tc h2\<rparr>\<rparr>)"
      "tw_on_heap (modM (sheap_setUserRoot info)) \<lparr>ts_ndb = d1, ts_w = w3\<lparr>tw_heap := put_small ?tc h2\<rparr>\<rparr> = Some (Inr (), \<lparr>ts_ndb = d1, ts_w = w3\<lparr>tw_heap := h3\<rparr>\<rparr>)"
      "tw_on_heap sheap_finish \<lparr>ts_ndb = d1, ts_w = w3\<lparr>tw_heap := h3\<rparr>\<rparr> = Some (Inr b0, \<lparr>ts_ndb = d2, ts_w = w3\<lparr>tw_heap := u\<rparr>\<rparr>)"
      "tw_on_ndb (writeSubnodes (tw_entries w3)) \<lparr>ts_ndb = d2, ts_w = w3\<lparr>tw_heap := u\<rparr>\<rparr> = Some (Inr b1, \<lparr>ts_ndb = d3, ts_w = w3\<lparr>tw_heap := u\<rparr>\<rparr>)"
    subgoal using i by (simp add: tw_on_heap_run ts_streaming_def w3 h2_def)
    subgoal using info by (simp add: tw_on_heap_run ts_streaming_def h2_def)
    subgoal by (simp add: tw_on_heap_run ts_streaming_def prog_simps sheap_setUserRoot_def h2_def h3_def)
    subgoal using u by (simp add: tw_on_heap_run ts_streaming_def h3_def)
    subgoal using b1 by (simp add: tw_on_ndb_run w3 writeSubnodes_def emit_sl_def)
    done
  have w1: "tw_layout ?w1 = sample_layout" "tw_row_index ?w1 = [(7, 0)]" "tw_row_leaves ?w1 = [b]" "tw_row_bytes ?w1 = 17"
    by (simp_all add: sample_state_def)
  define w1 where "w1 = ?w1"
  define w2 where "w2 = w1\<lparr>tw_entries := [\<lparr>sn_nid = ?n, sn_data = b, sn_sub = 0\<rparr>], tw_next := 2\<rparr>"
  have "upd_w (\<lambda>w. w\<lparr>tw_row_index := []\<rparr>) \<lparr>ts_ndb = d1, ts_w = w2\<rparr> = \<lparr>ts_ndb = d1, ts_w = w3\<rparr>" by (simp add: w3_def w2_def w1_def)
  then show ?thesis
    using flush rows w1 steps unfolding w1_def [symmetric] w2_def [symmetric]
    by (simp add: tw_finish_def bindM_def prog_simps sort_index_def w3(1))
qed

lemma streaming_table_refines_witness:
  "\<exists>d nd s' data subs. NdbWriter_new ''mail.pst'' True (\<lambda>_ _. True) = Inr d \<and>
     write_table [sample_row] \<lparr>ts_ndb = d, ts_w = TableContextWriter_new sample_columns\<rparr> = Some (Inr nd, s') \<and>
     read_data (lookup_block (ts_ndb s')) (nd_data nd) = Some data \<and> read_subnodes (lookup_block (ts_ndb s')) (nd_sub nd) = Some subs \<and>
     table_read (heap_read data) (sub_read (lookup_block (ts_ndb s')) subs) (heap_root data) 7 PR_DISPLAY_NAME = Some (Some [65, 0, 110, 0, 110, 0]) \<and>
     table_read (heap_read data) (sub_read (lookup_block (ts_ndb s')) subs) (heap_root data) 8 PR_DISPLAY_NAME = None"
proof -
  obtain d where d: "NdbWriter_new ''mail.pst'' True (\<lambda>_ _. True) = Inr d" using fresh_exists by blast
  have "roomy 3 d" by (rule fresh_roomy [OF d]) simp
  from sample_finish [OF this] obtain nd s' where
    run: "write_table [sample_row] \<lparr>ts_ndb = d, ts_w = TableContextWriter_new sample_columns\<rparr> = Some (Inr nd, s')"
    by (auto simp: write_table_def sample_rows_run bindM_def ret_def)
  have cols: "fold addColumn sample_columns TableContext_new = addColumn PR_RECIPIENT_TYPE (addColumn PR_DISPLAY_NAME TableContext_new)" by simp
  have "recipient_row t = bindM (fill_row sample_row) ret t" for t
    by (simp add: recipient_row_def fill_row_def sample_row_def bindM_def ret_def split: option.split prod.split sum.split)
  then have "bindM (fill_row sample_row) ret (fold addColumn sample_columns TableContext_new) = Some (Inr (), sample_table)"
    using recipient_row_run unfolding cols by metis
  then have fill: "forM fill_row [sample_row] (fold addColumn sample_columns TableContext_new) = Some (Inr (), sample_table)"
    by (simp add: bindM_def ret_def split: option.splits prod.splits sum.splits)
  have ops: "\<forall>r \<in> set [sample_row]. \<forall>op \<in> set (snd r). op_ok op"
    by (simp add: sample_row_def op_ok_def cell_ok_def fixed_cell_def variable_cell_def ann_bytes column_width_def fixedPropSize_def)
  have n: "length (tb_columns (fold addColumn sample_columns TableContext_new)) \<le> 255"
    by (simp add: TableContext_new_def addColumn_def)
  have "Suc (sum_list (map row_cost [sample_row])) < 2 ^ 27" by (simp add: sample_row_def)
  from streaming_table_refines [OF store_ok_new [OF d] n ops _ this run] fill obtain data subs where
    r: "read_data (lookup_block (ts_ndb s')) (nd_data nd) = Some data" "read_subnodes (lookup_block (ts_ndb s')) (nd_sub nd) = Some subs"
      "\<And>row_id tag. table_read (heap_read data) (sub_read (lookup_block (ts_ndb s')) subs) (heap_root data) row_id tag = table_cell sample_table row_id tag"
    by auto
  have "table_cell sample_table 7 PR_DISPLAY_NAME = Some (Some [65, 0, 110, 0, 110, 0])" "table_cell sample_table 8 PR_DISPLAY_NAME = None"
    by (simp_all add: table_cell_def sample_table_def cell_value_def variable_cell_def makeTag_def)
  then show ?thesis using d run r by metis
qed

end
