(* ===== verification/Table_Rows.thy ===== *)
theory Table_Rows
  imports Streaming_Table
begin

section \<open>What rows filled in show\<close>

text \<open>
  The tables of the writer are all filled the same way: a row is added under an id, then cells of it
  are set, each once. This theory says what such a run leaves in the table, in terms of
  \<open>table_cell\<close>: the cells set hold what was set, the rows before are as they were. It holds of the
  in-memory table, and by refinement of the streaming one.
\<close>

subsection \<open>One call\<close>

abbreviation op_tag :: "cell_op \<Rightarrow> prop_tag" where
  "op_tag op \<equiv> fst (op_cell op)"

abbreviation op_value :: "cell_op \<Rightarrow> bytes" where
  "op_value op \<equiv> tc_bytes (snd (op_cell op))"

lemma table_okD:
  assumes "table_ok t"
  shows "distinct (map tr_id (tb_rows t))" "distinct (tb_columns t)"
    "k < length (tb_rows t) \<Longrightarrow> length (tr_cells (tb_rows t ! k)) = length (tb_columns t)"
    "PidTagLtpRowId \<in> set (tb_columns t)" "PidTagLtpRowVer \<in> set (tb_columns t)"
  using assms by (auto simp: table_ok_def dest!: nth_mem bspec list_all2_lengthD)

text \<open>Either there is no such row or column, or there is one of each.\<close>

lemma table_cell_cases:
  assumes "table_ok t"
  obtains (none) "row_id \<notin> set (map tr_id (tb_rows t)) \<or> tag \<notin> set (tb_columns t)" "table_cell t row_id tag = None"
  | (cell) k j where "k < length (tb_rows t)" "row_id = tr_id (tb_rows t ! k)" "j < length (tb_columns t)" "tag = tb_columns t ! j"
      "table_cell t row_id tag = Some (cell_value (tr_cells (tb_rows t ! k) ! j))"
proof (cases "row_id \<in> set (map tr_id (tb_rows t)) \<and> tag \<in> set (tb_columns t)")
  case True
  then obtain k j where "k < length (tb_rows t)" "row_id = tr_id (tb_rows t ! k)" "j < length (tb_columns t)" "tag = tb_columns t ! j"
    by (auto simp: in_set_conv_nth)
  then show thesis using cell table_cell_Some table_okD(1,2) [OF assms] by blast
next
  case False
  then have n: "row_id \<notin> set (map tr_id (tb_rows t)) \<or> tag \<notin> set (tb_columns t)" by simp
  show thesis by (rule none [OF n table_cell_None [OF n]])
qed

lemma table_cell_set:
  assumes ok: "table_ok t" and k: "k < length (tb_rows t)" and j: "j < length (tb_columns t)"
    and t': "t' = t\<lparr>tb_rows := (tb_rows t)[k := (tb_rows t ! k)\<lparr>tr_cells := (tr_cells (tb_rows t ! k))[j := c]\<rparr>]\<rparr>"
    and ok': "table_ok t'"
  shows "table_cell t' row_id tag =
    (if row_id = tr_id (tb_rows t ! k) \<and> tag = tb_columns t ! j then Some (cell_value c) else table_cell t row_id tag)"
proof -
  have len: "length (tb_rows t') = length (tb_rows t)" "tb_columns t' = tb_columns t" by (simp_all add: t')
  have ids: "tr_id (tb_rows t' ! i) = tr_id (tb_rows t ! i)" for i
    using k by (cases "i = k") (simp_all add: t')
  then have idl: "map tr_id (tb_rows t') = map tr_id (tb_rows t)" by (intro nth_equalityI) (simp_all add: len)
  note D = table_okD [OF ok]
  show ?thesis
  proof (rule table_cell_cases [OF ok', of row_id tag])
    assume none: "row_id \<notin> set (map tr_id (tb_rows t')) \<or> tag \<notin> set (tb_columns t')" "table_cell t' row_id tag = None"
    from none(1) have "table_cell t row_id tag = None" unfolding idl len by (rule table_cell_None)
    moreover have "tr_id (tb_rows t ! k) \<in> set (map tr_id (tb_rows t))" "tb_columns t ! j \<in> set (tb_columns t)" using k j by simp_all
    ultimately show ?thesis using none unfolding idl len by metis
  next
    fix a b
    assume c: "a < length (tb_rows t')" "row_id = tr_id (tb_rows t' ! a)" "b < length (tb_columns t')" "tag = tb_columns t' ! b"
      "table_cell t' row_id tag = Some (cell_value (tr_cells (tb_rows t' ! a) ! b))"
    then have old: "table_cell t row_id tag = Some (cell_value (tr_cells (tb_rows t ! a) ! b))"
      using table_cell_Some [OF D(1,2)] by (simp add: ids len)
    have "row_id = tr_id (tb_rows t ! k) \<longleftrightarrow> a = k" using c(1,2) k D(1) by (auto simp: ids len distinct_conv_nth)
    moreover have "tag = tb_columns t ! j \<longleftrightarrow> b = j" using c(3,4) j D(2) by (auto simp: len distinct_conv_nth)
    moreover have "tr_cells (tb_rows t' ! a) ! b = (if a = k \<and> b = j then c else tr_cells (tb_rows t ! a) ! b)"
      using k j D(3) [OF k] by (auto simp: t' nth_list_update)
    ultimately show ?thesis using c(5) old by simp
  qed
qed

lemma set_tcell_cells:
  assumes ok: "table_ok t" and k: "k < length (tb_rows t)" and tag: "tag \<in> set (tb_columns t)" and c: "cell_ok tag c"
  shows "\<exists>t'. set_tcell k tag c t = Some (Inr (), t') \<and> table_ok t' \<and> tb_columns t' = tb_columns t \<and>
    map tr_id (tb_rows t') = map tr_id (tb_rows t) \<and>
    (\<forall>row_id tag'. table_cell t' row_id tag' = (if row_id = tr_id (tb_rows t ! k) \<and> tag' = tag then Some (cell_value c) else table_cell t row_id tag'))"
proof -
  obtain j where j: "j < length (tb_columns t)" "tb_columns t ! j = tag"
      "set_tcell k tag c t = Some (Inr (), t\<lparr>tb_rows := (tb_rows t)[k := (tb_rows t ! k)\<lparr>tr_cells := (tr_cells (tb_rows t ! k))[j := c]\<rparr>]\<rparr>)"
    using set_tcell_run [OF k tag] by blast
  note ok' = table_ok_set [OF ok c j(3)]
  then show ?thesis using table_cell_set [OF ok k j(1) refl] j by simp
qed

lemma addRow_cells:
  assumes ok: "table_ok t" and fresh: "row_id \<notin> set (map tr_id (tb_rows t))"
  shows "\<exists>t'. addRow row_id t = Some (Inr (length (tb_rows t)), t') \<and> table_ok t' \<and> tb_columns t' = tb_columns t \<and>
    map tr_id (tb_rows t') = map tr_id (tb_rows t) @ [row_id] \<and>
    (\<forall>i tag. i \<noteq> row_id \<longrightarrow> table_cell t' i tag = table_cell t i tag)"
proof -
  let ?k = "length (tb_rows t)" and ?new = "\<lparr>tr_id = row_id, tr_cells = replicate (length (tb_columns t)) no_cell\<rparr>"
  define t1 where "t1 = t\<lparr>tb_rows := tb_rows t @ [?new]\<rparr>"
  have t1: "table_ok t1" "tb_columns t1 = tb_columns t" "map tr_id (tb_rows t1) = map tr_id (tb_rows t) @ [row_id]"
    using ok fresh by (auto simp: t1_def table_ok_def list_all2_conv_all_nth)
  have same: "table_cell t1 i tag = table_cell t i tag" if "i \<noteq> row_id" for i tag
    using that by (simp add: table_cell_def t1_def find_append split: option.splits)
  have fix4: "cell_ok PidTagLtpRowId (fixed_cell (put32 [] v))" "cell_ok PidTagLtpRowVer (fixed_cell (put32 [] v))" for v
    by (simp_all add: cell_ok_def fixed_cell_def column_width_def fixedPropSize_def put32_def)
  have k1: "?k < length (tb_rows t1)" "tr_id (tb_rows t1 ! ?k) = row_id" by (simp_all add: t1_def)
  obtain t2 where t2: "set_tcell ?k PidTagLtpRowId (fixed_cell (put32 [] row_id)) t1 = Some (Inr (), t2)" "table_ok t2"
      "tb_columns t2 = tb_columns t1" "map tr_id (tb_rows t2) = map tr_id (tb_rows t1)"
      "\<And>i tag. i \<noteq> row_id \<Longrightarrow> table_cell t2 i tag = table_cell t1 i tag"
    using set_tcell_cells [OF t1(1) k1(1) table_okD(4) [OF t1(1)] fix4(1) [of row_id], unfolded k1(2)] by auto
  have k2: "?k < length (tb_rows t2)" "tr_id (tb_rows t2 ! ?k) = row_id"
    using k1 t2(4) by (metis length_map, metis length_map nth_map)
  obtain t3 where t3: "set_tcell ?k PidTagLtpRowVer (fixed_cell (put32 [] 1)) t2 = Some (Inr (), t3)" "table_ok t3"
      "tb_columns t3 = tb_columns t2" "map tr_id (tb_rows t3) = map tr_id (tb_rows t2)"
      "\<And>i tag. i \<noteq> row_id \<Longrightarrow> table_cell t3 i tag = table_cell t2 i tag"
    using set_tcell_cells [OF t2(2) k2(1) table_okD(5) [OF t2(2)] fix4(2) [of 1], unfolded k2(2)] by auto
  have "addRow row_id t = Some (Inr ?k, t3)"
    using t2(1) t3(1) by (simp add: addRow_def tc_setInt32_def prog_simps t1_def)
  then show ?thesis using t1 t2 t3 same by simp
qed

subsection \<open>A row, rows\<close>

definition row_ok :: "prop_tag list \<Rightarrow> 32 word \<times> cell_op list \<Rightarrow> bool" where
  "row_ok columns r \<longleftrightarrow> distinct (map op_tag (snd r)) \<and> (\<forall>op \<in> set (snd r). op_ok op \<and> op_tag op \<in> set columns)"

definition row_shown :: "table \<Rightarrow> 32 word \<times> cell_op list \<Rightarrow> bool" where
  "row_shown t r \<longleftrightarrow> (\<forall>op \<in> set (snd r). table_cell t (fst r) (op_tag op) = Some (Some (op_value op)))"

lemma ops_cells:
  assumes "table_ok t" "k < length (tb_rows t)" "distinct (map op_tag ops)" "\<forall>op \<in> set ops. op_ok op \<and> op_tag op \<in> set (tb_columns t)"
  shows "\<exists>t'. forM (table_op k) ops t = Some (Inr (), t') \<and> table_ok t' \<and> tb_columns t' = tb_columns t \<and>
    map tr_id (tb_rows t') = map tr_id (tb_rows t) \<and> row_shown t' (tr_id (tb_rows t ! k), ops) \<and>
    (\<forall>i tag. i \<noteq> tr_id (tb_rows t ! k) \<or> tag \<notin> set (map op_tag ops) \<longrightarrow> table_cell t' i tag = table_cell t i tag)"
  using assms
proof (induction ops arbitrary: t)
  case Nil
  then show ?case by (simp add: ret_run row_shown_def)
next
  case (Cons op ops)
  obtain tag c where op: "op_cell op = (tag, c)" by fastforce
  let ?id = "tr_id (tb_rows t ! k)"
  obtain t1 where t1: "table_op k op t = Some (Inr (), t1)" "table_ok t1" "tb_columns t1 = tb_columns t" "map tr_id (tb_rows t1) = map tr_id (tb_rows t)"
      "\<And>i tag'. table_cell t1 i tag' = (if i = ?id \<and> tag' = tag then Some (cell_value c) else table_cell t i tag')"
    using set_tcell_cells [OF Cons.prems(1,2), of tag c] Cons.prems(4) op by (auto simp: table_op_eq op_ok_def)
  have k1: "k < length (tb_rows t1)" "tr_id (tb_rows t1 ! k) = ?id"
    using Cons.prems(2) t1(4) by (metis length_map, metis length_map nth_map)
  obtain t' where t': "forM (table_op k) ops t1 = Some (Inr (), t')" "table_ok t'" "tb_columns t' = tb_columns t1"
      "map tr_id (tb_rows t') = map tr_id (tb_rows t1)" "row_shown t' (?id, ops)"
      "\<And>i tag'. i \<noteq> ?id \<or> tag' \<notin> set (map op_tag ops) \<Longrightarrow> table_cell t' i tag' = table_cell t1 i tag'"
    using Cons.IH [OF t1(2) k1(1)] Cons.prems(3,4) t1(3) k1(2) by auto
  have "table_cell t' ?id tag = Some (Some (tc_bytes c))"
    using t'(6) [of ?id tag] t1(5) [of ?id tag] Cons.prems(3) op op_cell_present [of op] by (simp add: cell_value_def)
  then have "row_shown t' (?id, op # ops)" using t'(5) op by (simp add: row_shown_def)
  moreover have "table_cell t' i tag' = table_cell t i tag'" if "i \<noteq> ?id \<or> tag' \<notin> set (map op_tag (op # ops))" for i tag'
    using t'(6) [of i tag'] t1(5) [of i tag'] that op by auto
  ultimately show ?case using t1(1-4) t'(1-4) by (simp add: bindM_run)
qed

lemma fill_row_cells:
  assumes ok: "table_ok t" and fresh: "fst r \<notin> set (map tr_id (tb_rows t))" and r: "row_ok (tb_columns t) r"
  shows "\<exists>t'. fill_row r t = Some (Inr (), t') \<and> table_ok t' \<and> tb_columns t' = tb_columns t \<and>
    map tr_id (tb_rows t') = map tr_id (tb_rows t) @ [fst r] \<and> row_shown t' r \<and>
    (\<forall>i tag. i \<noteq> fst r \<longrightarrow> table_cell t' i tag = table_cell t i tag)"
proof -
  let ?k = "length (tb_rows t)"
  obtain t1 where t1: "addRow (fst r) t = Some (Inr ?k, t1)" "table_ok t1" "tb_columns t1 = tb_columns t"
      "map tr_id (tb_rows t1) = map tr_id (tb_rows t) @ [fst r]"
      "\<And>i tag. i \<noteq> fst r \<Longrightarrow> table_cell t1 i tag = table_cell t i tag"
    using addRow_cells [OF ok fresh] by blast
  have k: "?k < length (tb_rows t1)" "tr_id (tb_rows t1 ! ?k) = fst r"
    using arg_cong [OF t1(4), of length] arg_cong [OF t1(4), of "\<lambda>l. l ! ?k"] by (simp_all add: nth_append)
  obtain t' where t': "forM (table_op ?k) (snd r) t1 = Some (Inr (), t')" "table_ok t'" "tb_columns t' = tb_columns t1"
      "map tr_id (tb_rows t') = map tr_id (tb_rows t1)" "row_shown t' (fst r, snd r)"
      "\<And>i tag. i \<noteq> fst r \<Longrightarrow> table_cell t' i tag = table_cell t1 i tag"
    using ops_cells [OF t1(2) k(1), of "snd r"] r t1(3) k(2) by (auto simp: row_ok_def)
  have "fill_row r t = Some (Inr (), t')" using t1(1) t'(1) by (cases r) (simp add: fill_row_def bindM_run)
  then show ?thesis using t1 t' by (cases r) simp
qed

lemma fill_rows_cells:
  assumes "table_ok t" "distinct (map tr_id (tb_rows t) @ map fst rows)" "\<forall>r \<in> set rows. row_ok (tb_columns t) r"
  shows "\<exists>t'. forM fill_row rows t = Some (Inr (), t') \<and> table_ok t' \<and> tb_columns t' = tb_columns t \<and>
    map tr_id (tb_rows t') = map tr_id (tb_rows t) @ map fst rows \<and> (\<forall>r \<in> set rows. row_shown t' r) \<and>
    (\<forall>i tag. i \<notin> set (map fst rows) \<longrightarrow> table_cell t' i tag = table_cell t i tag)"
  using assms
proof (induction rows arbitrary: t)
  case Nil
  then show ?case by (simp add: ret_run)
next
  case (Cons r rows)
  obtain t1 where t1: "fill_row r t = Some (Inr (), t1)" "table_ok t1" "tb_columns t1 = tb_columns t"
      "map tr_id (tb_rows t1) = map tr_id (tb_rows t) @ [fst r]" "row_shown t1 r"
      "\<And>i tag. i \<noteq> fst r \<Longrightarrow> table_cell t1 i tag = table_cell t i tag"
    using fill_row_cells [OF Cons.prems(1), of r] Cons.prems(2,3) by auto
  obtain t' where t': "forM fill_row rows t1 = Some (Inr (), t')" "table_ok t'" "tb_columns t' = tb_columns t1"
      "map tr_id (tb_rows t') = map tr_id (tb_rows t1) @ map fst rows" "\<forall>r \<in> set rows. row_shown t' r"
      "\<And>i tag. i \<notin> set (map fst rows) \<Longrightarrow> table_cell t' i tag = table_cell t1 i tag"
    using Cons.IH [OF t1(2)] Cons.prems(2,3) t1(3,4) by auto
  have "fst r \<notin> set (map fst rows)" using Cons.prems(2) by simp
  then have "row_shown t' r" using t1(5) t'(6) by (simp add: row_shown_def)
  then show ?case using t1 t' by (simp add: bindM_run)
qed

end
