(* ===== verification/Pst_Node.thy ===== *)
theory Pst_Node
  imports Table_Rows
begin

section \<open>Nodes: a heap and its subnodes on the file\<close>

text \<open>
  A node is a pair of block identifiers: its data tree, a heap, and its subnode tree. The writer
  serializes a property context or a table into a heap and writes both; a reader opens the node
  again. What a node shows is kept by everything written later, because blocks once written stay.
\<close>

subsection \<open>Writing a node\<close>

text \<open>The heap of a node and its subnodes, written.\<close>

definition store_heap :: "bytes \<Rightarrow> (subs, bid \<times> bid) prog" where
  "store_heap heap =
     bindM (on_ndb (writeData heap)) (\<lambda>data.
     bindM (getM sa_entries) (\<lambda>entries.
     bindM (on_ndb (writeSubnodes entries)) (\<lambda>sub.
     ret (data, sub))))"

text \<open>A local object: it dies with the scope, whether that returns or throws.\<close>

definition local_object :: "'l \<Rightarrow> ('l, 'a) prog \<Rightarrow> ('s, 'l) prog" where
  "local_object l m s =
     (case m l of None \<Rightarrow> None | Some (Inl e, _) \<Rightarrow> Some (Inl e, s) | Some (Inr _, l') \<Rightarrow> Some (Inr l', s))"

lemma local_object_run: "local_object l m s = Some (Inr l', s') \<longleftrightarrow> (\<exists>a. m l = Some (Inr a, l')) \<and> s' = s"
  by (auto simp: local_object_def split: option.splits prod.splits sum.splits)

subsection \<open>Reading a node\<close>

type_synonym blocks = "bid \<Rightarrow> bytes option"

definition node_prop :: "blocks \<Rightarrow> bid \<times> bid \<Rightarrow> 16 word \<Rightarrow> (prop_type \<times> (32 word + bytes)) option" where
  "node_prop look n i =
     Option.bind (read_data look (fst n)) (\<lambda>h. Option.bind (read_subnodes look (snd n)) (\<lambda>es.
     pc_read (heap_read h) (sub_read look es) (heap_root h) i))"

definition node_cell :: "blocks \<Rightarrow> bid \<times> bid \<Rightarrow> 32 word \<Rightarrow> prop_tag \<Rightarrow> bytes option option" where
  "node_cell look n row_id tag =
     Option.bind (read_data look (fst n)) (\<lambda>h. Option.bind (read_subnodes look (snd n)) (\<lambda>es.
     table_read (heap_read h) (sub_read look es) (heap_root h) row_id tag))"

definition node_sub :: "blocks \<Rightarrow> bid \<times> bid \<Rightarrow> nid \<Rightarrow> (bid \<times> bid) option" where
  "node_sub look n i =
     Option.bind (read_subnodes look (snd n)) (\<lambda>es. map_option (\<lambda>e. (sn_data e, sn_sub e)) (find (\<lambda>e. sn_nid e = i) es))"

definition node_sig :: "blocks \<Rightarrow> bid \<times> bid \<Rightarrow> (byte \<times> byte) option" where
  "node_sig look n = Option.bind (read_data look (fst n)) heap_sig"

text \<open>A table with no such row, whatever its subnodes.\<close>

definition no_row :: "blocks \<Rightarrow> bid \<times> bid \<Rightarrow> 32 word \<Rightarrow> bool" where
  "no_row look n row_id \<longleftrightarrow> (case read_data look (fst n) of None \<Rightarrow> False
     | Some h \<Rightarrow> \<forall>sub tag. table_read (heap_read h) sub (heap_root h) row_id tag = None)"

subsection \<open>Blocks once written stay\<close>

definition more_blocks :: "blocks \<Rightarrow> blocks \<Rightarrow> bool" where
  "more_blocks look look' \<longleftrightarrow> (\<forall>b x. look b = Some x \<longrightarrow> look' b = Some x)"

lemma more_blocks_refl [simp]: "more_blocks look look"
  by (simp add: more_blocks_def)

lemma more_blocks_trans: "more_blocks a b \<Longrightarrow> more_blocks b c \<Longrightarrow> more_blocks a c"
  by (simp add: more_blocks_def)

lemma preserves_more: "preserves d d' \<Longrightarrow> more_blocks (lookup_block d) (lookup_block d')"
  by (simp add: more_blocks_def preserves_def)

lemma read_data_more: "more_blocks look look' \<Longrightarrow> read_data look b = Some x \<Longrightarrow> read_data look' b = Some x"
  using read_data_mono [of look look'] by (simp add: more_blocks_def)

lemma read_subnodes_more:
  assumes m: "more_blocks look look'" and r: "read_subnodes look b = Some es"
  shows "read_subnodes look' b = Some es"
proof (cases "look b")
  case None
  then show ?thesis using r by (simp add: read_subnodes_def split: if_splits)
next
  case (Some x)
  let ?child = "\<lambda>look (k, c). case Option.bind (look c) parse_sl of None \<Rightarrow> None
     | Some es \<Rightarrow> (if es \<noteq> [] \<and> sn_nid (hd es) = k then Some es else None)"
  have child: "?child look y = Some e \<Longrightarrow> ?child look' y = Some e" for y e
    using m by (cases y; cases "look (snd y)") (auto simp: more_blocks_def)
  have "look' b = Some x" using m Some by (simp add: more_blocks_def)
  moreover have "opt_all (map (?child look') cs) = Some ess" if "opt_all (map (?child look) cs) = Some ess" for cs ess
    using that child unfolding opt_all_iff by (induction cs arbitrary: ess) force+
  ultimately show ?thesis
    using r Some by (auto simp: read_subnodes_def split: if_splits option.splits)
qed

text \<open>A lookup that finds more, finds what was found.\<close>

lemma hnid_read_more:
  "hnid_read look sub h = Some x \<Longrightarrow> (\<And>n y. sub n = Some y \<Longrightarrow> sub' n = Some y) \<Longrightarrow> hnid_read look sub' h = Some x"
  by (auto simp: hnid_read_def split: if_splits)

lemma pc_read_more:
  assumes "pc_read look sub root i = Some v" "\<And>n x. sub n = Some x \<Longrightarrow> sub' n = Some x"
  shows "pc_read look sub' root i = Some v"
  using assms(1) hnid_read_more [OF _ assms(2)] by (auto simp: pc_read_def Let_def split: option.splits if_splits)

lemma field_read_more:
  assumes "field_read look sub root row_id tag = Some f" "\<And>n x. sub n = Some x \<Longrightarrow> sub' n = Some x"
  shows "field_read look sub' root row_id tag = Some f"
proof -
  obtain info where info: "look root = Some info" using assms(1) by (auto simp: field_read_def bind_eq_Some_conv)
  obtain ceb rs index rows columns where t: "read_tcinfo info = (ceb, rs, index, rows, columns)" by (metis prod_cases5)
  show ?thesis
    using assms(1) hnid_read_more [of look sub rows _ sub', OF _ assms(2)] by (fastforce simp: field_read_def info t bind_eq_Some_conv)
qed

lemma table_read_more:
  assumes "table_read look sub root row_id tag = Some v" "\<And>n x. sub n = Some x \<Longrightarrow> sub' n = Some x"
  shows "table_read look sub' root row_id tag = Some v"
proof -
  obtain f where f: "field_read look sub root row_id tag = Some f" using assms(1) by (auto simp: table_read_def bind_eq_Some_conv)
  then have "field_read look sub' root row_id tag = Some f" by (rule field_read_more) (rule assms(2))
  then show ?thesis
    using assms(1) f hnid_read_more [of look sub _ _ sub', OF _ assms(2)] by (auto simp: table_read_def split: option.splits if_splits)
qed

lemma sub_read_more: "more_blocks look look' \<Longrightarrow> sub_read look es n = Some x \<Longrightarrow> sub_read look' es n = Some x"
  using read_data_more by (auto simp: sub_read_def split: option.splits)

lemma node_prop_more: "more_blocks look look' \<Longrightarrow> node_prop look n i = Some v \<Longrightarrow> node_prop look' n i = Some v"
  using read_data_more read_subnodes_more pc_read_more sub_read_more unfolding node_prop_def bind_eq_Some_conv by meson

lemma node_cell_more: "more_blocks look look' \<Longrightarrow> node_cell look n r tag = Some v \<Longrightarrow> node_cell look' n r tag = Some v"
  using read_data_more read_subnodes_more table_read_more sub_read_more unfolding node_cell_def bind_eq_Some_conv by meson

lemma no_row_more: "more_blocks look look' \<Longrightarrow> no_row look n row_id \<Longrightarrow> no_row look' n row_id"
  using read_data_more [of look look' "fst n"] by (auto simp: no_row_def split: option.splits)

lemma no_row_cell: "no_row look n row_id \<Longrightarrow> node_cell look n row_id tag = None"
  by (auto simp: no_row_def node_cell_def bind_eq_None_conv split: option.splits)

lemma node_sub_more: "more_blocks look look' \<Longrightarrow> node_sub look n i = Some v \<Longrightarrow> node_sub look' n i = Some v"
  using read_subnodes_more unfolding node_sub_def bind_eq_Some_conv by meson

lemma node_sig_more: "more_blocks look look' \<Longrightarrow> node_sig look n = Some v \<Longrightarrow> node_sig look' n = Some v"
  using read_data_more unfolding node_sig_def bind_eq_Some_conv by meson

subsection \<open>What is written shows\<close>

lemma on_ndb_run: "on_ndb m s = Some (r, s') \<longleftrightarrow> (\<exists>d. m (sa_ndb s) = Some (r, d) \<and> s' = s\<lparr>sa_ndb := d\<rparr>)"
  by (auto simp: on_ndb_def zoomM_def split: option.splits)

lemma subs_ok_ndb: "subs_ok k s \<Longrightarrow> store_ok d \<Longrightarrow> subs_ok k (s\<lparr>sa_ndb := d\<rparr>)"
  by (simp add: subs_ok_def)

lemma store_heap_law:
  assumes ok: "subs_ok k u" and len: "length heap < 2 ^ 64" and run: "store_heap heap u = Some (Inr n, u')"
  defines "look \<equiv> lookup_block (sa_ndb u')"
  shows "subs_ok k u' \<and> subs_ext u u' \<and> sa_entries u' = sa_entries u \<and> read_data look (fst n) = Some heap \<and>
    read_subnodes look (snd n) = Some (sort_key sn_nid (sa_entries u))"
proof -
  obtain data d sub d' where 1: "writeData heap (sa_ndb u) = Some (Inr data, d)" and 2: "writeSubnodes (sa_entries u) d = Some (Inr sub, d')"
    and n: "n = (data, sub)" "u' = u\<lparr>sa_ndb := d'\<rparr>"
    using run by (auto simp: store_heap_def bindM_Inr_iff on_ndb_run getM_def ret_def)
  have st: "store_ok (sa_ndb u)" using ok by (simp add: subs_ok_def)
  note w1 = writeData_law [OF st len 1]
  note w2 = writeSubnodes_law [OF conjunct1 [OF w1] 2]
  have "read_data look data = Some heap"
    using w1 w2 read_data_mono [of "lookup_block d" look] by (simp add: look_def n preserves_def)
  moreover have "subs_ok k u'" using subs_ok_ndb [OF ok] w2 by (simp add: n)
  moreover have "preserves (sa_ndb u) d'" using w1 w2 preserves_trans by blast
  ultimately show ?thesis using w2 by (simp add: n look_def subs_ext_def)
qed

text \<open>The subnodes of a node, found in the sorted list as in the allocator's.\<close>

lemma sub_read_sorted:
  assumes "subs_ok k u"
  shows "find (\<lambda>e. sn_nid e = i) (sort_key sn_nid (sa_entries u)) = find (\<lambda>e. sn_nid e = i) (sa_entries u)"
    "sub_read look (sort_key sn_nid (sa_entries u)) = sub_read look (sa_entries u)"
proof -
  have dist: "distinct (map sn_nid (sa_entries u))" using assms by (simp add: subs_ok_def)
  have *: "find (\<lambda>e. sn_nid e = i) (sort_key sn_nid (sa_entries u)) = find (\<lambda>e. sn_nid e = i) (sa_entries u)" for i
    by (rule find_distinct_any [OF dist]) (simp_all add: distinct_sort_key dist)
  then show "find (\<lambda>e. sn_nid e = i) (sort_key sn_nid (sa_entries u)) = find (\<lambda>e. sn_nid e = i) (sa_entries u)" .
  show "sub_read look (sort_key sn_nid (sa_entries u)) = sub_read look (sa_entries u)"
    by (simp add: fun_eq_iff sub_read_def *)
qed

text \<open>What a value reads as; a spilled one, as what its subnode holds.\<close>

definition pc_node :: "pc \<Rightarrow> (subs, bid \<times> bid) prog" where
  "pc_node pc = bindM (pc_serialize pc) store_heap"

definition table_node :: "table \<Rightarrow> (subs, bid \<times> bid) prog" where
  "table_node t = bindM (table_serialize t) store_heap"

lemma entry_ext: "subs_ext u u' \<Longrightarrow> find (\<lambda>e. sn_nid e = i) (sa_entries u) = Some e \<Longrightarrow> find (\<lambda>e. sn_nid e = i) (sa_entries u') = Some e"
  by (auto simp: subs_ext_def find_append)

lemma value_read_more: "value_read sub v = Some x \<Longrightarrow> (\<And>n y. sub n = Some y \<Longrightarrow> sub' n = Some y) \<Longrightarrow> value_read sub' v = Some x"
  by (auto simp: value_read_def split: value_kind.splits)

text \<open>What the heap of a node is known to say, in the heap and the subnodes it was written from.\<close>

lemma store_heap_shows:
  assumes ok: "subs_ok k u" and len: "length heap < 2 ^ 64" and run: "store_heap heap u = Some (Inr n, u')"
  defines "look \<equiv> lookup_block (sa_ndb u')"
  shows "subs_ok k u'" "subs_ext u u'" "sa_entries u' = sa_entries u" "node_sig look n = heap_sig heap"
    "pc_read (heap_read heap) (sub_look u) (heap_root heap) i = Some x \<Longrightarrow> node_prop look n i = Some x"
    "table_read (heap_read heap) (sub_look u) (heap_root heap) row_id tag = Some c \<Longrightarrow> node_cell look n row_id tag = Some c"
    "find (\<lambda>e. sn_nid e = i') (sa_entries u) = Some e \<Longrightarrow> node_sub look n i' = Some (sn_data e, sn_sub e)"
proof -
  note st = store_heap_law [OF ok len run, folded look_def]
  show "subs_ok k u'" "subs_ext u u'" "sa_entries u' = sa_entries u" using st by simp_all
  note sorted = sub_read_sorted [OF ok]
  have sub: "sub_look u j = Some y \<Longrightarrow> sub_read look (sort_key sn_nid (sa_entries u)) j = Some y" for j y
    unfolding sorted using sub_read_more [OF preserves_more] st by (auto simp: sub_look_def subs_ext_def look_def)
  show "node_sig look n = heap_sig heap" using st by (simp add: node_sig_def)
  show "pc_read (heap_read heap) (sub_look u) (heap_root heap) i = Some x \<Longrightarrow> node_prop look n i = Some x"
    using st pc_read_more [OF _ sub] by (simp add: node_prop_def)
  show "table_read (heap_read heap) (sub_look u) (heap_root heap) row_id tag = Some c \<Longrightarrow> node_cell look n row_id tag = Some c"
    using st table_read_more [OF _ sub] by (simp add: node_cell_def)
  show "find (\<lambda>e. sn_nid e = i') (sa_entries u) = Some e \<Longrightarrow> node_sub look n i' = Some (sn_data e, sn_sub e)"
    using st by (simp add: node_sub_def sorted)
qed

lemma pc_node_law:
  assumes ok: "subs_ok (k + length pc) u" and pc: "pc_ok pc" and run: "pc_node pc u = Some (Inr n, u')"
  defines "look \<equiv> lookup_block (sa_ndb u')"
  shows "subs_ok k u' \<and> subs_ext u u' \<and> node_sig look n = Some (kHnSignature, kHnSigPC) \<and>
    (\<forall>i v x. pc_look pc i = Some v \<longrightarrow> value_read (sub_look u) v = Some x \<longrightarrow> node_prop look n i = Some x) \<and>
    (\<forall>i e. find (\<lambda>e. sn_nid e = i) (sa_entries u) = Some e \<longrightarrow> node_sub look n i = Some (sn_data e, sn_sub e))"
proof -
  obtain heap u1 where 1: "pc_serialize pc u = Some (Inr heap, u1)" and 2: "store_heap heap u1 = Some (Inr n, u')"
    using run by (auto simp: pc_node_def bindM_Inr_iff)
  note law = pc_serialize_law [OF ok pc 1]
  have ok1: "subs_ok k u1" and len: "length heap < 2 ^ 64" and ext: "subs_ext u u1" using law [of 0] by auto
  note st = store_heap_shows [OF ok1 len 2, folded look_def]
  have "node_prop look n i = Some x" if v: "pc_look pc i = Some v" "value_read (sub_look u) v = Some x" for i v x
    using law [of i] v value_read_more [OF v(2), of "sub_look u1"] sub_look_ext [OF ext] st(5) by simp
  moreover have "node_sig look n = Some (kHnSignature, kHnSigPC)" using st(4) law [of 0] by simp
  ultimately show ?thesis using st(1,2,7) subs_ext_trans [OF ext] entry_ext [OF ext] by blast
qed

lemma table_node_law:
  assumes ok: "subs_ok (k + Suc (length (tb_rows t) * length (tb_columns t))) u" and t: "table_ok t" "length (tb_rows t) < 2 ^ 32"
    and run: "table_node t u = Some (Inr n, u')"
  defines "look \<equiv> lookup_block (sa_ndb u')"
  shows "subs_ok k u' \<and> subs_ext u u' \<and> node_sig look n = Some (kHnSignature, kHnSigTC) \<and>
    (\<forall>row_id tag c. table_cell t row_id tag = Some c \<longrightarrow> node_cell look n row_id tag = Some c) \<and>
    (\<forall>row_id. row_id \<notin> set (map tr_id (tb_rows t)) \<longrightarrow> no_row look n row_id)"
proof -
  obtain heap u1 where 1: "table_serialize t u = Some (Inr heap, u1)" and 2: "store_heap heap u1 = Some (Inr n, u')"
    using run by (auto simp: table_node_def bindM_Inr_iff)
  from table_serialize_law [OF ok t 1] obtain g where
    law: "subs_ok k u1" "subs_ext u u1" "heap_sig heap = Some (kHnSignature, kHnSigTC)" "length heap < 2 ^ 64"
      "\<forall>h b. deref g h = Some b \<longrightarrow> hnid_read (heap_read heap) (sub_look u1) h = Some b"
      "\<forall>i < length (tb_rows t). \<forall>j < length (tb_columns t). \<exists>f.
        field_read (heap_read heap) (sub_look u1) (heap_root heap) (tr_id (tb_rows t ! i)) (tb_columns t ! j) = Some f \<and>
        cell_shows g (tb_columns t ! j) (tr_cells (tb_rows t ! i) ! j) f"
      "\<forall>row_id tag sub. row_id \<notin> set (map tr_id (tb_rows t)) \<longrightarrow> field_read (heap_read heap) sub (heap_root heap) row_id tag = None"
    by blast
  note st = store_heap_shows [OF law(1,4) 2, folded look_def]
  have "read_data look (fst n) = Some heap" using store_heap_law [OF law(1,4) 2] by (simp add: look_def)
  then have "no_row look n row_id" if "row_id \<notin> set (map tr_id (tb_rows t))" for row_id
    using law(7) that by (simp add: no_row_def table_read_def)
  moreover
  have "node_cell look n row_id tag = Some c" if c: "table_cell t row_id tag = Some c" for row_id tag c
  proof (rule table_cell_cases [OF t(1), of row_id tag])
    fix k j
    assume kj: "k < length (tb_rows t)" "row_id = tr_id (tb_rows t ! k)" "j < length (tb_columns t)" "tag = tb_columns t ! j"
      "table_cell t row_id tag = Some (cell_value (tr_cells (tb_rows t ! k) ! j))"
    then obtain f where "field_read (heap_read heap) (sub_look u1) (heap_root heap) row_id tag = Some f"
        "cell_shows g tag (tr_cells (tb_rows t ! k) ! j) f"
      using law(6) by blast
    then have "table_read (heap_read heap) (sub_look u1) (heap_root heap) row_id tag = Some c"
      using table_read_value law(5) kj(5) c by fastforce
    then show ?thesis by (rule st(6))
  qed (use c in simp)
  ultimately show ?thesis using law(3) st(1,2,4) subs_ext_trans [OF law(2)] by simp
qed

end
