(* ===== verification/Nameid_Map.thy ===== *)
theory Nameid_Map
  imports Ltp_Props Pst_Crc "HOL-Library.Sublist"
begin

section \<open>The name-to-id map (src/pst/nameid_map.cpp)\<close>

text \<open>
  Property ids from \<open>0x8000\<close> stand for a GUID and a name; this class mints them and writes the
  three streams from which a reader resolves them. \<open>read_name\<close> is such a reader. The properties
  say that an id resolves to the name it was minted for, that names equal up to case share an id
  and no others do, and that an id, once minted, never changes.
\<close>

subsection \<open>GUIDs\<close>

record guid =
  gu_data1 :: "32 word"
  gu_data2 :: "16 word"
  gu_data3 :: "16 word"
  gu_data4 :: bytes

definition guid_bytes :: "guid \<Rightarrow> bytes" where
  "guid_bytes g = put16 (put16 (put32 [] (gu_data1 g)) (gu_data2 g)) (gu_data3 g) @ gu_data4 g"

text \<open>\<open>operator<\<close> of two vectors: lexicographic.\<close>

fun bytes_less :: "bytes \<Rightarrow> bytes \<Rightarrow> bool" where
  "bytes_less _ [] = False"
| "bytes_less [] (_ # _) = True"
| "bytes_less (x # xs) (y # ys) = (x < y \<or> (x = y \<and> bytes_less xs ys))"

definition guid_less :: "guid \<Rightarrow> guid \<Rightarrow> bool" where
  "guid_less a b = bytes_less (guid_bytes a) (guid_bytes b)"

definition ps_guid :: "32 word \<Rightarrow> guid" where
  "ps_guid d = \<lparr>gu_data1 = d, gu_data2 = 0, gu_data3 = 0, gu_data4 = [0xC0, 0x00, 0, 0, 0, 0, 0, 0x46]\<rparr>"

definition kPsMapi :: guid where "kPsMapi = ps_guid 0x00020328"
definition kPsPublicStrings :: guid where "kPsPublicStrings = ps_guid 0x00020329"
definition kPsInternetHeaders :: guid where "kPsInternetHeaders = ps_guid 0x00020386"

definition foldCase :: "string \<Rightarrow> string" where
  "foldCase s = map (\<lambda>c. if 65 \<le> (of_char c :: nat) \<and> (of_char c :: nat) \<le> 90
     then char_of ((of_char c :: nat) + 32) else c) s"

subsection \<open>The map\<close>

abbreviation (input) kFirstNamedId :: "16 word" where "kFirstNamedId \<equiv> 0x8000"
abbreviation (input) kMaxNames :: nat where "kMaxNames \<equiv> 4096"
abbreviation (input) kBucketCount :: nat where "kBucketCount \<equiv> 251"

record name_entry =
  nm_is_string :: bool
  nm_numeric :: "32 word"
  nm_guid_index :: "16 word"
  nm_prop_index :: "16 word"
  nm_hash :: "32 word"

record nameid =
  nm_entries :: "name_entry list"
  nm_extra_guids :: "guid list"
  nm_string_stream :: bytes
  nm_by_string :: "16 word \<times> string \<Rightarrow> 16 word option"
  nm_by_numeric :: "16 word \<times> 32 word \<Rightarrow> 16 word option"

definition NameIdMap_new :: nameid where
  "NameIdMap_new = \<lparr>nm_entries = [], nm_extra_guids = [], nm_string_stream = [],
     nm_by_string = (\<lambda>_. None), nm_by_numeric = (\<lambda>_. None)\<rparr>"

definition same_guid :: "guid \<Rightarrow> guid \<Rightarrow> bool" where
  "same_guid a b \<longleftrightarrow> \<not> guid_less a b \<and> \<not> guid_less b a"

text \<open>The position of a GUID among the extra ones.\<close>

primrec guid_position :: "guid \<Rightarrow> guid list \<Rightarrow> nat option" where
  "guid_position g [] = None"
| "guid_position g (h # hs) = (if same_guid h g then Some 0 else map_option Suc (guid_position g hs))"

definition guidIndex :: "guid \<Rightarrow> nameid \<Rightarrow> 16 word \<times> nameid" where
  "guidIndex g m =
     (if same_guid g kPsMapi then (1, m)
      else if same_guid g kPsPublicStrings then (2, m)
      else case guid_position g (nm_extra_guids m) of
        Some i \<Rightarrow> (of_nat (3 + i), m)
      | None \<Rightarrow> (of_nat (3 + length (nm_extra_guids m)), m\<lparr>nm_extra_guids := nm_extra_guids m @ [g]\<rparr>))"

definition ensureGuid :: "guid \<Rightarrow> nameid \<Rightarrow> nameid" where
  "ensureGuid g m = snd (guidIndex g m)"

definition pad4 :: "bytes \<Rightarrow> bytes" where
  "pad4 b = b @ replicate (alignUp (length b) 4 - length b) 0"

definition idForString :: "guid \<Rightarrow> string \<Rightarrow> nameid \<Rightarrow> 16 word \<times> nameid" where
  "idForString g name m0 =
     (let (wguid, m) = guidIndex g m0; key = (wguid, foldCase name) in
      case nm_by_string m key of
        Some i \<Rightarrow> (i, m)
      | None \<Rightarrow>
          if kMaxNames \<le> length (nm_entries m) then (0, m)
          else
            let utf16 = utf8ToUtf16le name;
                offset = of_nat (length (nm_string_stream m));
                e = \<lparr>nm_is_string = True, nm_numeric = offset, nm_guid_index = wguid,
                     nm_prop_index = of_nat (length (nm_entries m)), nm_hash = computeCrc utf16\<rparr>;
                i = kFirstNamedId + nm_prop_index e
            in (i, m\<lparr>nm_string_stream := pad4 (put32 (nm_string_stream m) (of_nat (length utf16)) @ utf16),
                     nm_entries := nm_entries m @ [e], nm_by_string := (nm_by_string m)(key \<mapsto> i)\<rparr>))"

definition idForNumeric :: "guid \<Rightarrow> 32 word \<Rightarrow> nameid \<Rightarrow> 16 word \<times> nameid" where
  "idForNumeric g n m0 =
     (let (wguid, m) = guidIndex g m0; key = (wguid, n) in
      case nm_by_numeric m key of
        Some i \<Rightarrow> (i, m)
      | None \<Rightarrow>
          if kMaxNames \<le> length (nm_entries m) then (0, m)
          else
            let e = \<lparr>nm_is_string = False, nm_numeric = n, nm_guid_index = wguid,
                     nm_prop_index = of_nat (length (nm_entries m)), nm_hash = n\<rparr>;
                i = kFirstNamedId + nm_prop_index e
            in (i, m\<lparr>nm_entries := nm_entries m @ [e], nm_by_numeric := (nm_by_numeric m)(key \<mapsto> i)\<rparr>))"

subsection \<open>The streams\<close>

definition encode_entry :: "name_entry \<Rightarrow> bytes" where
  "encode_entry e =
     put16 (put16 (put32 [] (nm_numeric e)) (push_bit 1 (nm_guid_index e) OR (if nm_is_string e then 1 else 0))) (nm_prop_index e)"

definition entry_bucket :: "name_entry \<Rightarrow> nat" where
  "entry_bucket e = unat (nm_hash e XOR ucast (nm_guid_index e)) mod kBucketCount"

definition buildPropertyContext :: "nameid \<Rightarrow> pc" where
  "buildPropertyContext m =
     (let guid_stream = concat (map guid_bytes (nm_extra_guids m));
          entry_stream = concat (map encode_entry (nm_entries m));
          bucket = (\<lambda>i. concat (map encode_entry (filter (\<lambda>e. entry_bucket e = i) (nm_entries m))));
          pc = setBinary PidTagNameidStreamString (nm_string_stream m)
                (setBinary PidTagNameidStreamEntry entry_stream
                (setBinary PidTagNameidStreamGuid guid_stream
                (setInt32 PidTagNameidBucketCount (of_nat kBucketCount) [])))
      in fold (\<lambda>i pc. if bucket i = [] then pc else setBinary (makeTag (of_nat (0x1000 + i)) kPtBinary) (bucket i) pc)
           [0..<kBucketCount] pc)"

subsection \<open>A reader, and the table it should find\<close>

text \<open>A string of the string stream: its length, then its UTF-16 bytes.\<close>

definition string_at :: "bytes \<Rightarrow> nat \<Rightarrow> bytes option" where
  "string_at st off =
     (let n = unat (peek32 (drop off st)) in
      if off + 4 + n \<le> length st then Some (take n (drop (off + 4) st)) else None)"

text \<open>The GUID with an index: two are implied, the others lie in the GUID stream.\<close>

definition guid_at :: "bytes \<Rightarrow> nat \<Rightarrow> bytes option" where
  "guid_at st w =
     (if w = 1 then Some (guid_bytes kPsMapi) else if w = 2 then Some (guid_bytes kPsPublicStrings)
      else if 3 \<le> w \<and> 16 * (w - 2) \<le> length st then Some (take 16 (drop (16 * (w - 3)) st)) else None)"

definition pc_bytes :: "pc \<Rightarrow> prop_tag \<Rightarrow> bytes" where
  "pc_bytes pc tag = (case pc_look pc (tagId tag) of None \<Rightarrow> [] | Some v \<Rightarrow> pv_bytes v)"

text \<open>The name behind an id, from the entry, GUID and string streams; and from the properties of the map.\<close>

definition name_in :: "bytes \<Rightarrow> bytes \<Rightarrow> bytes \<Rightarrow> 16 word \<Rightarrow> (bytes \<times> (bytes + 32 word)) option" where
  "name_in es gs ss i =
     (let k = 8 * unat (i - kFirstNamedId); e = take 8 (drop k es); w = peek16 (drop 4 e)
      in if length e < 8 \<or> peek16 (drop 6 e) \<noteq> i - kFirstNamedId then None
         else Option.bind (guid_at gs (unat (drop_bit 1 w))) (\<lambda>g.
           if bit w 0 then map_option (\<lambda>s. (g, Inl s)) (string_at ss (unat (peek32 e)))
           else Some (g, Inr (peek32 e))))"

definition read_name :: "pc \<Rightarrow> 16 word \<Rightarrow> (bytes \<times> (bytes + 32 word)) option" where
  "read_name pc i = name_in (pc_bytes pc PidTagNameidStreamEntry) (pc_bytes pc PidTagNameidStreamGuid) (pc_bytes pc PidTagNameidStreamString) i"

text \<open>A request and how the class serves it.\<close>

datatype request = StringName guid string | NumericName guid "32 word"

primrec serve :: "request \<Rightarrow> nameid \<Rightarrow> 16 word \<times> nameid" where
  "serve (StringName g s) m = idForString g s m"
| "serve (NumericName g n) m = idForNumeric g n m"

primrec serve_all :: "request list \<Rightarrow> nameid \<Rightarrow> 16 word list \<times> nameid" where
  "serve_all [] m = ([], m)"
| "serve_all (r # rs) m = (let (i, m1) = serve r m; (is, m2) = serve_all rs m1 in (i # is, m2))"

text \<open>
  The specification: a table of the names in the order they were first asked for. A request is
  answered with the position of the first name equal to it up to case, and a new name goes to
  the end unless the table is full.
\<close>

fun same_name :: "request \<Rightarrow> request \<Rightarrow> bool" where
  "same_name (StringName g s) (StringName h t) \<longleftrightarrow> g = h \<and> foldCase s = foldCase t"
| "same_name (NumericName g n) (NumericName h k) \<longleftrightarrow> g = h \<and> n = k"
| "same_name _ _ \<longleftrightarrow> False"

primrec position :: "request \<Rightarrow> request list \<Rightarrow> nat option" where
  "position r [] = None"
| "position r (q # qs) = (if same_name q r then Some 0 else map_option Suc (position r qs))"

definition spec_serve :: "request \<Rightarrow> request list \<Rightarrow> 16 word \<times> request list" where
  "spec_serve r ns =
     (case position r ns of Some k \<Rightarrow> (kFirstNamedId + of_nat k, ns)
      | None \<Rightarrow> if kMaxNames \<le> length ns then (0, ns) else (kFirstNamedId + of_nat (length ns), ns @ [r]))"

primrec spec_serve_all :: "request list \<Rightarrow> request list \<Rightarrow> 16 word list \<times> request list" where
  "spec_serve_all [] ns = ([], ns)"
| "spec_serve_all (r # rs) ns = (let (i, ns1) = spec_serve r ns; (is, ns2) = spec_serve_all rs ns1 in (i # is, ns2))"

primrec name_guid :: "request \<Rightarrow> guid" where
  "name_guid (StringName g _) = g"
| "name_guid (NumericName g _) = g"

primrec name_shown :: "request \<Rightarrow> bytes \<times> (bytes + 32 word)" where
  "name_shown (StringName g s) = (guid_bytes g, Inl (utf8ToUtf16le s))"
| "name_shown (NumericName g n) = (guid_bytes g, Inr n)"

definition guid_ok :: "guid \<Rightarrow> bool" where
  "guid_ok g \<longleftrightarrow> length (gu_data4 g) = 8"

subsection \<open>GUIDs and their indices\<close>

lemma bytes_less_irrefl [simp]: "\<not> bytes_less x x"
  by (induction x) simp_all

lemma bytes_less_linear: "bytes_less x y \<or> x = y \<or> bytes_less y x"
proof (induction x arbitrary: y)
  case Nil
  then show ?case by (cases y) simp_all
next
  case (Cons a x)
  then show ?case by (cases y) auto
qed

lemma guid_bytes_parts:
  "peek32 (guid_bytes g) = gu_data1 g" "peek16 (drop 4 (guid_bytes g)) = gu_data2 g"
  "peek16 (drop 6 (guid_bytes g)) = gu_data3 g" "drop 8 (guid_bytes g) = gu_data4 g"
  by (simp_all add: guid_bytes_def put32_def put16_def)

lemma guid_bytes_inject: "guid_bytes g = guid_bytes h \<longleftrightarrow> g = h"
  using guid_bytes_parts [of g] guid_bytes_parts [of h] by (metis guid.surjective old.unit.exhaust)

lemma same_guid_eq [simp]: "same_guid g h \<longleftrightarrow> g = h"
  using bytes_less_linear [of "guid_bytes g" "guid_bytes h"]
  by (auto simp: same_guid_def guid_less_def guid_bytes_inject)

lemma length_guid_bytes: "guid_ok g \<Longrightarrow> length (guid_bytes g) = 16"
  by (simp add: guid_ok_def guid_bytes_def put32_def put16_def)

lemma ps_guid_ok [simp]: "guid_ok (ps_guid d)" "ps_guid d = ps_guid e \<longleftrightarrow> d = e"
  by (auto simp: guid_ok_def ps_guid_def)

definition gtab :: "nameid \<Rightarrow> guid list" where
  "gtab m = kPsMapi # kPsPublicStrings # nm_extra_guids m"

lemma guid_position_Some: "guid_position g hs = Some i \<Longrightarrow> i < length hs \<and> hs ! i = g"
  by (induction hs arbitrary: i) (auto split: if_splits)

lemma guid_position_None: "guid_position g hs = None \<longleftrightarrow> g \<notin> set hs"
  by (induction hs) auto

lemma guidIndex_run:
  assumes "length (gtab m) < 2 ^ 15" "guidIndex g m = (w, m')"
  shows "1 \<le> unat w \<and> unat w \<le> length (gtab m') \<and> gtab m' ! (unat w - 1) = g \<and>
    (m' = m \<or> g \<notin> set (gtab m) \<and> m' = m\<lparr>nm_extra_guids := nm_extra_guids m @ [g]\<rparr>)"
proof -
  have u: "unat (of_nat (3 + i) :: 16 word) = 3 + i" if "i < 2 ^ 15" for i
    using that by (intro unat_small) simp
  show ?thesis
  proof (cases "guid_position g (nm_extra_guids m)")
    case None
    have "g \<notin> set (nm_extra_guids m)" using None by (simp add: guid_position_None)
    then show ?thesis
      using None assms u [of "length (nm_extra_guids m)"]
      by (auto simp: guidIndex_def gtab_def nth_append simp del: of_nat_add split: if_splits)
  next
    case (Some i)
    then show ?thesis
      using assms u [of i] guid_position_Some [OF Some]
      by (auto simp: guidIndex_def gtab_def simp del: of_nat_add split: if_splits)
  qed
qed

subsection \<open>The invariant\<close>

lemma same_name_refl [simp]: "same_name r r"
  by (cases r) simp_all

lemma same_name_sym: "same_name r q \<Longrightarrow> same_name q r"
  by (induction r q rule: same_name.induct) auto

lemma same_name_trans: "same_name p q \<Longrightarrow> same_name q r \<Longrightarrow> same_name p r"
  by (cases p; cases q; cases r) auto

lemma same_name_guid: "same_name r q \<Longrightarrow> name_guid r = name_guid q"
  by (induction r q rule: same_name.induct) auto

lemma position_None: "position r ns = None \<longleftrightarrow> (\<forall>q \<in> set ns. \<not> same_name q r)"
  by (induction ns) auto

lemma position_Some: "position r ns = Some k \<Longrightarrow> k < length ns \<and> same_name (ns ! k) r"
  by (induction ns arbitrary: k) (auto split: if_splits)

lemma position_append:
  "position r (ns @ [q]) = (case position r ns of Some k \<Rightarrow> Some k
     | None \<Rightarrow> if same_name q r then Some (length ns) else None)"
  by (induction ns) (auto split: option.split)

definition entry_shows :: "nameid \<Rightarrow> name_entry \<Rightarrow> request \<Rightarrow> bool" where
  "entry_shows m e r \<longleftrightarrow>
     1 \<le> unat (nm_guid_index e) \<and> unat (nm_guid_index e) \<le> length (gtab m) \<and>
     gtab m ! (unat (nm_guid_index e) - 1) = name_guid r \<and>
     (case r of StringName g s \<Rightarrow> nm_is_string e \<and> string_at (nm_string_stream m) (unat (nm_numeric e)) = Some (utf8ToUtf16le s)
      | NumericName g n \<Rightarrow> \<not> nm_is_string e \<and> nm_numeric e = n)"

abbreviation named_id :: "nat \<Rightarrow> 16 word" where
  "named_id k \<equiv> kFirstNamedId + of_nat k"

definition names_ok :: "nameid \<Rightarrow> request list \<Rightarrow> bool" where
  "names_ok m ns \<longleftrightarrow>
     length (nm_entries m) = length ns \<and> length ns \<le> kMaxNames \<and> distinct (gtab m) \<and>
     (\<forall>g \<in> set (nm_extra_guids m). guid_ok g) \<and> name_guid ` set ns \<subseteq> set (gtab m) \<and>
     (\<forall>k < length ns. nm_prop_index (nm_entries m ! k) = of_nat k \<and> entry_shows m (nm_entries m ! k) (ns ! k)) \<and>
     (\<forall>w. 1 \<le> unat w \<and> unat w \<le> length (gtab m) \<longrightarrow>
        (\<forall>s. nm_by_string m (w, foldCase s) = map_option named_id (position (StringName (gtab m ! (unat w - 1)) s) ns)) \<and>
        (\<forall>n. nm_by_numeric m (w, n) = map_option named_id (position (NumericName (gtab m ! (unat w - 1)) n) ns))) \<and>
     (\<forall>w. length (gtab m) < unat w \<longrightarrow> (\<forall>t. nm_by_string m (w, t) = None) \<and> (\<forall>n. nm_by_numeric m (w, n) = None))"

lemma names_okD:
  assumes "names_ok m ns"
  shows "length (nm_entries m) = length ns" "length ns \<le> kMaxNames"
    and "k < length ns \<Longrightarrow> nm_prop_index (nm_entries m ! k) = of_nat k"
    and "k < length ns \<Longrightarrow> entry_shows m (nm_entries m ! k) (ns ! k)"
    and "1 \<le> unat w \<Longrightarrow> unat w \<le> length (gtab m) \<Longrightarrow>
      nm_by_string m (w, foldCase s) = map_option named_id (position (StringName (gtab m ! (unat w - 1)) s) ns)"
    and "1 \<le> unat w \<Longrightarrow> unat w \<le> length (gtab m) \<Longrightarrow>
      nm_by_numeric m (w, n) = map_option named_id (position (NumericName (gtab m ! (unat w - 1)) n) ns)"
    and "length (gtab m) < unat w \<Longrightarrow> nm_by_string m (w, t) = None"
    and "length (gtab m) < unat w \<Longrightarrow> nm_by_numeric m (w, n) = None"
    and "distinct (gtab m)"
  using assms by (simp_all add: names_ok_def)

lemma names_ok_new: "names_ok NameIdMap_new []"
  by (simp add: names_ok_def NameIdMap_new_def gtab_def kPsMapi_def kPsPublicStrings_def)

text \<open>What an entry shows does not depend on what is appended to the streams later.\<close>

lemma string_at_append:
  assumes "string_at st off = Some x"
  shows "string_at (st @ ys) off = Some x"
proof -
  have "off + 4 \<le> length st" using assms by (auto simp: string_at_def Let_def split: if_splits)
  then have "peek32 (drop off (st @ ys)) = peek32 (drop off st)" by (simp add: peek32_def)
  then show ?thesis using assms by (auto simp: string_at_def Let_def split: if_splits)
qed

lemma entry_shows_mono:
  assumes "entry_shows m e r" "gtab m' = gtab m @ gs" "nm_string_stream m' = nm_string_stream m @ ys"
  shows "entry_shows m' e r"
proof -
  have i: "unat (nm_guid_index e) - 1 < length (gtab m)" using assms(1) by (auto simp: entry_shows_def)
  then show ?thesis
    using assms string_at_append [of "nm_string_stream m" "unat (nm_numeric e)" _ ys]
    by (auto simp: entry_shows_def nth_append split: request.splits)
qed

text \<open>A GUID added to the table changes nothing that is there.\<close>

lemma gtab_extra [simp]: "gtab (m\<lparr>nm_extra_guids := nm_extra_guids m @ [g]\<rparr>) = gtab m @ [g]"
  by (simp add: gtab_def)

lemma names_ok_guid:
  assumes ok: "names_ok m ns" and g: "guid_ok g" "g \<notin> set (gtab m)"
  shows "names_ok (m\<lparr>nm_extra_guids := nm_extra_guids m @ [g]\<rparr>) ns" (is "names_ok ?m ns")
proof -
  have none: "position r ns = None" if "name_guid r = g" for r
    using ok g(2) that same_name_guid by (fastforce simp: position_None names_ok_def)
  have "entry_shows ?m (nm_entries m ! k) (ns ! k)" if "k < length ns" for k
    by (rule entry_shows_mono [OF names_okD(4) [OF ok that], of _ "[g]" "[]"]) simp_all
  moreover have "nm_by_string m (w, foldCase s) = map_option named_id (position (StringName ((gtab m @ [g]) ! (unat w - 1)) s) ns) \<and>
      nm_by_numeric m (w, n) = map_option named_id (position (NumericName ((gtab m @ [g]) ! (unat w - 1)) n) ns)"
    if w: "1 \<le> unat w" "unat w \<le> Suc (length (gtab m))" for w s n
  proof (cases "unat w \<le> length (gtab m)")
    case True
    moreover have "unat w - 1 < length (gtab m)" using w(1) True by simp
    ultimately show ?thesis using names_okD(5,6) [OF ok w(1) True] by (simp add: nth_append)
  next
    case False
    then have "unat w = Suc (length (gtab m))" using w by simp
    then show ?thesis using names_okD(7,8) [OF ok, of w] none by (simp add: nth_append)
  qed
  ultimately show ?thesis using ok g unfolding names_ok_def by auto
qed

lemma guidIndex_ok:
  assumes "names_ok m ns" "guid_ok g" "length (gtab m) < 2 ^ 15" "guidIndex g m = (w, m')"
  shows "names_ok m' ns \<and> 1 \<le> unat w \<and> unat w \<le> length (gtab m') \<and> gtab m' ! (unat w - 1) = g \<and>
    set (gtab m') \<subseteq> insert g (set (gtab m)) \<and> nm_string_stream m' = nm_string_stream m"
proof -
  have w: "1 \<le> unat w \<and> unat w \<le> length (gtab m') \<and> gtab m' ! (unat w - 1) = g"
    and "m' = m \<or> g \<notin> set (gtab m) \<and> m' = m\<lparr>nm_extra_guids := nm_extra_guids m @ [g]\<rparr>"
    using guidIndex_run [OF assms(3,4)] by simp_all
  then have "names_ok m' ns \<and> set (gtab m') \<subseteq> insert g (set (gtab m)) \<and> nm_string_stream m' = nm_string_stream m"
    using assms(1) names_ok_guid [OF assms(1,2)] by (elim disjE conjE) auto
  with w show ?thesis by simp
qed

text \<open>A new name goes to the end of the table.\<close>

definition mint :: "name_entry \<Rightarrow> bytes \<Rightarrow> nameid \<Rightarrow> nameid" where
  "mint e ys m = m\<lparr>nm_entries := nm_entries m @ [e], nm_string_stream := nm_string_stream m @ ys\<rparr>"

lemma gtab_mint [simp]: "gtab (mint e ys m) = gtab m" "gtab (m\<lparr>nm_by_string := f\<rparr>) = gtab m" "gtab (m\<lparr>nm_by_numeric := h\<rparr>) = gtab m"
  by (simp_all add: mint_def gtab_def)

lemma gtab_distinct_index:
  assumes "names_ok m ns"
    "1 \<le> unat w" "unat w \<le> length (gtab m)" "1 \<le> unat v" "unat v \<le> length (gtab m)"
  shows "gtab m ! (unat w - 1) = gtab m ! (unat v - 1) \<longleftrightarrow> w = (v :: 16 word)"
  using assms nth_eq_iff_index_eq [OF names_okD(9) [OF assms(1)], of "unat w - 1" "unat v - 1"] by (auto simp: word_unat_eq_iff)

lemma names_ok_mint:
  assumes ok: "names_ok m ns" and room: "length ns < kMaxNames"
    and w: "1 \<le> unat w" "unat w \<le> length (gtab m)" "gtab m ! (unat w - 1) = name_guid r"
    and new: "position r ns = None"
    and e: "nm_prop_index e = of_nat (length ns)" "entry_shows (mint e ys m) e r"
    and fs: "case r of StringName g s \<Rightarrow> f = (nm_by_string m)((w, foldCase s) \<mapsto> named_id (length ns)) \<and> h = nm_by_numeric m
      | NumericName g n \<Rightarrow> f = nm_by_string m \<and> h = (nm_by_numeric m)((w, n) \<mapsto> named_id (length ns))"
  shows "names_ok ((mint e ys m)\<lparr>nm_by_string := f, nm_by_numeric := h\<rparr>) (ns @ [r])" (is "names_ok ?m _")
proof -
  have entries: "nm_prop_index (nm_entries ?m ! k) = of_nat k \<and> entry_shows ?m (nm_entries ?m ! k) ((ns @ [r]) ! k)"
    if k: "k < Suc (length ns)" for k
  proof (cases "k < length ns")
    case True
    have "entry_shows ?m (nm_entries m ! k) (ns ! k)"
      by (rule entry_shows_mono [OF names_okD(4) [OF ok True], of _ "[]" ys]) (simp_all add: mint_def gtab_def)
    then show ?thesis using True names_okD(1,3) [OF ok] by (simp add: mint_def nth_append)
  next
    case False
    then have "k = length ns" using k by simp
    moreover have "entry_shows ?m e r" by (rule entry_shows_mono [OF e(2), of _ "[]" "[]"]) simp_all
    ultimately show ?thesis using ok e(1) by (simp add: names_ok_def mint_def nth_append)
  qed
  have strings: "f (v, foldCase s) = map_option named_id (position (StringName (gtab m ! (unat v - 1)) s) (ns @ [r]))"
    and numbers: "h (v, n) = map_option named_id (position (NumericName (gtab m ! (unat v - 1)) n) (ns @ [r]))"
    if v: "1 \<le> unat v" "unat v \<le> length (gtab m)" for v s n
  proof -
    have old: "nm_by_string m (v, foldCase s) = map_option named_id (position (StringName (gtab m ! (unat v - 1)) s) ns)"
      "nm_by_numeric m (v, n) = map_option named_id (position (NumericName (gtab m ! (unat v - 1)) n) ns)"
      using ok v by (simp_all add: names_ok_def)
    have none: "position q ns = None" if "same_name r q" for q
      using new that same_name_trans [OF _ same_name_sym [OF that]] by (auto simp: position_None)
    have same: "name_guid r = gtab m ! (unat v - 1) \<longleftrightarrow> w = v"
      using gtab_distinct_index [OF ok w(1,2) v] w(3) by simp
    show "f (v, foldCase s) = map_option named_id (position (StringName (gtab m ! (unat v - 1)) s) (ns @ [r]))"
      using fs old none same by (cases r) (auto simp: position_append split: option.split)
    show "h (v, n) = map_option named_id (position (NumericName (gtab m ! (unat v - 1)) n) (ns @ [r]))"
      using fs old none same by (cases r) (auto simp: position_append split: option.split)
  qed
  have "name_guid r \<in> set (gtab m)" using w by (metis One_nat_def Suc_le_lessD Suc_pred nth_mem)
  moreover have "f (v, t) = None \<and> h (v, n) = None" if "length (gtab m) < unat v" for v t n
    using that ok w fs by (cases r) (auto simp: names_ok_def)
  moreover have "gtab ?m = gtab m" "nm_by_string ?m = f" "nm_by_numeric ?m = h" "nm_extra_guids ?m = nm_extra_guids m"
      "length (nm_entries ?m) = Suc (length ns)" "distinct (gtab m)"
    using names_okD(1,9) [OF ok] by (simp_all add: mint_def gtab_def)
  moreover have "(\<forall>g \<in> set (nm_extra_guids m). guid_ok g) \<and> name_guid ` set ns \<subseteq> set (gtab m)"
    using ok by (simp add: names_ok_def)
  ultimately show ?thesis
    unfolding names_ok_def using room entries strings numbers by simp
qed

text \<open>Every request is served as the table says.\<close>

lemma string_at_end:
  assumes "length b < 2 ^ 32"
  shows "string_at (st @ put32 [] (of_nat (length b)) @ b @ z) (length st) = Some b"
  using assms by (simp add: string_at_def put32_def Let_def unat_small)

primrec spec_table :: "16 word \<times> request list \<Rightarrow> request list" where
  "spec_table (i, ns) = ns"

lemma pad4_eq: "\<exists>z. pad4 b = b @ z"
  by (simp add: pad4_def)

lemma idForString_law:
  assumes ok: "names_ok m ns" and g: "guid_ok g" "length (gtab m) < 2 ^ 15"
    and run: "idForString g s m = (i, m')" and small: "length (nm_string_stream m') < 2 ^ 32"
  shows "spec_serve (StringName g s) ns = (i, spec_table (spec_serve (StringName g s) ns)) \<and>
    names_ok m' (spec_table (spec_serve (StringName g s) ns)) \<and> set (gtab m') \<subseteq> insert g (set (gtab m))"
proof -
  obtain w m1 where idx: "guidIndex g m = (w, m1)" by (cases "guidIndex g m")
  note g1 = guidIndex_ok [OF ok g idx]
  then have ok1: "names_ok m1 ns" by simp
  have look: "nm_by_string m1 (w, foldCase s) = map_option named_id (position (StringName g s) ns)"
    using names_okD(5) [OF ok1, of w s] g1 by simp
  show ?thesis
  proof (cases "position (StringName g s) ns")
    case (Some k)
    then show ?thesis using run g1 look by (simp add: idForString_def idx Let_def spec_serve_def)
  next
    case None
    show ?thesis
    proof (cases "kMaxNames \<le> length ns")
      case True
      then show ?thesis
        using run g1 look None names_okD(1) [OF ok1] by (simp add: idForString_def idx Let_def spec_serve_def)
    next
      case False
      let ?u = "utf8ToUtf16le s" and ?st = "nm_string_stream m1"
      define e where "e = \<lparr>nm_is_string = True, nm_numeric = of_nat (length ?st), nm_guid_index = w,
        nm_prop_index = of_nat (length ns), nm_hash = computeCrc ?u\<rparr>"
      obtain z where z: "pad4 (put32 ?st (of_nat (length ?u)) @ ?u) = ?st @ put32 [] (of_nat (length ?u)) @ ?u @ z"
        using pad4_eq [of "put32 ?st (of_nat (length ?u)) @ ?u"] by (auto simp: put32_def)
      define ys where "ys = put32 [] (of_nat (length ?u)) @ ?u @ z"
      let ?f = "(nm_by_string m1)((w, foldCase s) \<mapsto> named_id (length ns))"
      have m': "i = named_id (length ns)" "m' = (mint e ys m1)\<lparr>nm_by_string := ?f, nm_by_numeric := nm_by_numeric m1\<rparr>"
        using run look None False names_okD(1) [OF ok1] z
        by (auto simp: idForString_def idx Let_def e_def ys_def mint_def)
      have len: "length ?st + length ?u < 2 ^ 32" using small by (simp add: m' mint_def ys_def put32_def)
      have "entry_shows (mint e ys m1) e (StringName g s)"
        using g1 len string_at_end [of ?u ?st z] by (simp add: entry_shows_def e_def mint_def ys_def unat_small gtab_def)
      then have "names_ok m' (ns @ [StringName g s])"
        unfolding m' by (intro names_ok_mint [OF ok1]) (use g1 False None in \<open>simp_all add: e_def\<close>)
      then show ?thesis using g1 None False m' by (simp add: spec_serve_def mint_def gtab_def)
    qed
  qed
qed

lemma idForNumeric_law:
  assumes ok: "names_ok m ns" and g: "guid_ok g" "length (gtab m) < 2 ^ 15"
    and run: "idForNumeric g n m = (i, m')"
  shows "spec_serve (NumericName g n) ns = (i, spec_table (spec_serve (NumericName g n) ns)) \<and>
    names_ok m' (spec_table (spec_serve (NumericName g n) ns)) \<and> set (gtab m') \<subseteq> insert g (set (gtab m))"
proof -
  obtain w m1 where idx: "guidIndex g m = (w, m1)" by (cases "guidIndex g m")
  note g1 = guidIndex_ok [OF ok g idx]
  then have ok1: "names_ok m1 ns" by simp
  have look: "nm_by_numeric m1 (w, n) = map_option named_id (position (NumericName g n) ns)"
    using names_okD(6) [OF ok1, of w n] g1 by simp
  show ?thesis
  proof (cases "position (NumericName g n) ns")
    case (Some k)
    then show ?thesis using run g1 look by (simp add: idForNumeric_def idx Let_def spec_serve_def)
  next
    case None
    show ?thesis
    proof (cases "kMaxNames \<le> length ns")
      case True
      then show ?thesis
        using run g1 look None names_okD(1) [OF ok1] by (simp add: idForNumeric_def idx Let_def spec_serve_def)
    next
      case False
      define e where "e = \<lparr>nm_is_string = False, nm_numeric = n, nm_guid_index = w,
        nm_prop_index = of_nat (length ns), nm_hash = n\<rparr>"
      let ?f = "(nm_by_numeric m1)((w, n) \<mapsto> named_id (length ns))"
      have m': "i = named_id (length ns)" "m' = (mint e [] m1)\<lparr>nm_by_string := nm_by_string m1, nm_by_numeric := ?f\<rparr>"
        using run look None False names_okD(1) [OF ok1]
        by (auto simp: idForNumeric_def idx Let_def e_def mint_def)
      have "entry_shows (mint e [] m1) e (NumericName g n)"
        using g1 by (simp add: entry_shows_def e_def mint_def gtab_def)
      then have "names_ok m' (ns @ [NumericName g n])"
        unfolding m' by (intro names_ok_mint [OF ok1]) (use g1 False None in \<open>simp_all add: e_def\<close>)
      then show ?thesis using g1 None False m' by (simp add: spec_serve_def mint_def gtab_def)
    qed
  qed
qed

lemma serve_law:
  assumes "names_ok m ns" "guid_ok (name_guid r)" "length (gtab m) < 2 ^ 15"
    and "serve r m = (i, m')" "length (nm_string_stream m') < 2 ^ 32"
  shows "\<exists>ns'. spec_serve r ns = (i, ns') \<and> names_ok m' ns' \<and> set (gtab m') \<subseteq> insert (name_guid r) (set (gtab m))"
  using idForString_law [OF assms(1)] idForNumeric_law [OF assms(1)] assms(2-) by (cases r) fastforce+

lemma serve_grows:
  assumes "serve r m = (i, m')"
  shows "length (nm_string_stream m) \<le> length (nm_string_stream m')"
proof -
  obtain w m1 where g: "guidIndex (name_guid r) m = (w, m1)" by (cases "guidIndex (name_guid r) m")
  then have s: "nm_string_stream m1 = nm_string_stream m" by (auto simp: guidIndex_def split: option.splits if_splits)
  have p: "length st \<le> length (pad4 (put32 st v @ u))" for st v u by (simp add: pad4_def put32_def)
  show ?thesis
  proof (cases r)
    case (StringName h t)
    then show ?thesis
      using assms g s p by (auto simp: idForString_def Let_def split: option.splits if_splits)
  next
    case (NumericName h n)
    then show ?thesis
      using assms g s by (auto simp: idForNumeric_def Let_def split: option.splits if_splits)
  qed
qed

lemma serve_all_grows: "serve_all rs m = (is, m') \<Longrightarrow> length (nm_string_stream m) \<le> length (nm_string_stream m')"
proof (induction rs arbitrary: m "is")
  case (Cons r rs)
  then show ?case using serve_grows by (fastforce split: prod.splits)
qed simp

text \<open>The indices fit their field as long as the GUIDs in use, however often, are fewer than \<open>2 ^ 15\<close>.\<close>

lemma gtab_few: "names_ok m ns \<Longrightarrow> finite G \<Longrightarrow> set (gtab m) \<subseteq> G \<Longrightarrow> length (gtab m) \<le> card G"
  using card_mono [of G "set (gtab m)"] names_okD(9) [of m ns] by (simp add: distinct_card)

lemma serve_all_law:
  assumes "names_ok m ns" "\<forall>r \<in> set rs. guid_ok (name_guid r)" "finite G" "card G < 2 ^ 15"
    and "set (gtab m) \<subseteq> G" "name_guid ` set rs \<subseteq> G"
    and "serve_all rs m = (is, m')" "length (nm_string_stream m') < 2 ^ 32"
  shows "\<exists>ns'. spec_serve_all rs ns = (is, ns') \<and> names_ok m' ns' \<and> set (gtab m') \<subseteq> G"
  using assms
proof (induction rs arbitrary: m ns "is")
  case (Cons r rs)
  obtain i m1 js where run: "serve r m = (i, m1)" "serve_all rs m1 = (js, m')" "is = i # js"
    using Cons.prems(7) by (auto split: prod.splits)
  have "length (nm_string_stream m1) < 2 ^ 32" using serve_all_grows [OF run(2)] Cons.prems(8) by simp
  moreover have "length (gtab m) < 2 ^ 15" using gtab_few [OF Cons.prems(1,3,5)] Cons.prems(4) by simp
  ultimately obtain ns1 where 1: "spec_serve r ns = (i, ns1)" "names_ok m1 ns1" "set (gtab m1) \<subseteq> insert (name_guid r) (set (gtab m))"
    using serve_law [OF Cons.prems(1) _ _ run(1)] Cons.prems(2) by auto
  then have "set (gtab m1) \<subseteq> G" using Cons.prems(5,6) by auto
  then obtain ns2 where "spec_serve_all rs ns1 = (js, ns2)" "names_ok m' ns2" "set (gtab m') \<subseteq> G"
    using Cons.IH [OF 1(2) _ Cons.prems(3,4) _ _ run(2) Cons.prems(8)] Cons.prems(2,6) by auto
  then show ?case using 1 run by simp
qed simp

lemma serve_all_new:
  assumes "\<forall>r \<in> set rs. guid_ok (name_guid r)" "card (name_guid ` set rs) < 2 ^ 15 - 2"
    and "serve_all rs NameIdMap_new = (is, m)" "length (nm_string_stream m) < 2 ^ 32"
  shows "\<exists>ns. spec_serve_all rs [] = (is, ns) \<and> names_ok m ns \<and> length (gtab m) < 2 ^ 15"
proof -
  let ?G = "insert kPsMapi (insert kPsPublicStrings (name_guid ` set rs))"
  have "card ?G \<le> card (name_guid ` set rs) + 2"
    by (simp add: card_insert_if)
  then have G: "card ?G < 2 ^ 15" using assms(2) by simp
  have "set (gtab NameIdMap_new) \<subseteq> ?G" by (simp add: gtab_def NameIdMap_new_def)
  from serve_all_law [OF names_ok_new assms(1) _ G this _ assms(3,4)] obtain ns where
    ns: "spec_serve_all rs [] = (is, ns)" "names_ok m ns" "set (gtab m) \<subseteq> ?G" by auto
  moreover have "length (gtab m) < 2 ^ 15" using gtab_few [OF ns(2) _ ns(3)] G by simp
  ultimately show ?thesis by blast
qed

subsection \<open>The streams read back\<close>

lemma pc_look_buckets:
  assumes "list_all (\<lambda>i. 0x1000 \<le> i \<and> i < 2 ^ 16) ks" "unat t < 0x1000"
  shows "pc_look (fold (\<lambda>i pc. if b i = [] then pc else setBinary (makeTag (of_nat i) kPtBinary) (b i) pc) ks pc) t = pc_look pc t"
  using assms(1)
proof (induction ks arbitrary: pc)
  case (Cons k ks)
  have "t \<noteq> of_nat k"
  proof
    assume "t = of_nat k"
    then have "unat t = k" using Cons.prems by (simp add: unat_small)
    then show False using Cons.prems assms(2) by simp
  qed
  then have "pc_look (setBinary (makeTag (of_nat k) kPtBinary) (b k) pc) t = pc_look pc t"
    by (simp add: setBinary_def pc_look_put)
  then show ?case using Cons by simp
qed simp

lemma pc_streams:
  "pc_bytes (buildPropertyContext m) PidTagNameidStreamGuid = concat (map guid_bytes (nm_extra_guids m))"
  "pc_bytes (buildPropertyContext m) PidTagNameidStreamEntry = concat (map encode_entry (nm_entries m))"
  "pc_bytes (buildPropertyContext m) PidTagNameidStreamString = nm_string_stream m"
proof -
  define b where "b = (\<lambda>i. concat (map encode_entry (filter (\<lambda>e. entry_bucket e = i - 0x1000) (nm_entries m))))"
  define pc0 where "pc0 = setBinary PidTagNameidStreamString (nm_string_stream m)
    (setBinary PidTagNameidStreamEntry (concat (map encode_entry (nm_entries m)))
    (setBinary PidTagNameidStreamGuid (concat (map guid_bytes (nm_extra_guids m)))
    (setInt32 PidTagNameidBucketCount (of_nat kBucketCount) [])))"
  have "buildPropertyContext m =
      fold (\<lambda>i pc. if b i = [] then pc else setBinary (makeTag (of_nat i) kPtBinary) (b i) pc) (map ((+) 0x1000) [0..<kBucketCount]) pc0"
    by (simp only: buildPropertyContext_def Let_def fold_map comp_def b_def pc0_def add_diff_cancel_left')
  moreover have "list_all (\<lambda>i. 0x1000 \<le> i \<and> i < 2 ^ 16) (map ((+) 0x1000) [0..<kBucketCount])"
    by (auto simp: list_all_iff simp del: upt_Suc)
  ultimately have look: "pc_look (buildPropertyContext m) t = pc_look pc0 t" if "unat t < 0x1000" for t
    using pc_look_buckets [OF _ that] by simp
  show "pc_bytes (buildPropertyContext m) PidTagNameidStreamGuid = concat (map guid_bytes (nm_extra_guids m))"
    "pc_bytes (buildPropertyContext m) PidTagNameidStreamEntry = concat (map encode_entry (nm_entries m))"
    "pc_bytes (buildPropertyContext m) PidTagNameidStreamString = nm_string_stream m"
    by (simp_all add: pc_bytes_def look) (simp_all add: pc0_def setBinary_def setInt32_def pc_look_put pc_look_def bytes_value_def)
qed

lemma length_encode_entry [simp]: "length (encode_entry e) = 8"
  by (simp add: encode_entry_def put32_def put16_def)

lemma guid_at_gtab:
  assumes "\<forall>g \<in> set (nm_extra_guids m). guid_ok g" "1 \<le> w" "w \<le> length (gtab m)"
  shows "guid_at (concat (map guid_bytes (nm_extra_guids m))) w = Some (guid_bytes (gtab m ! (w - 1)))"
proof -
  have l: "length (guid_bytes g) = 16" if "g \<in> set (nm_extra_guids m)" for g
    using assms(1) that length_guid_bytes by simp
  show ?thesis
  proof (cases "w \<le> 2")
    case True
    then have "w = 1 \<or> w = 2" using assms(2) by auto
    then show ?thesis by (auto simp: guid_at_def gtab_def)
  next
    case False
    then obtain k where k: "w = k + 3" by (metis add.commute le_iff_add not_less_eq_eq numeral_2_eq_2 numeral_3_eq_3)
    then have k': "k < length (nm_extra_guids m)" using assms(3) by (simp add: gtab_def)
    have "drop (16 * k) (concat (map guid_bytes (nm_extra_guids m))) = concat (map guid_bytes (drop k (nm_extra_guids m)))"
      by (rule drop_concat_const) (rule l)
    also have "drop k (nm_extra_guids m) = nm_extra_guids m ! k # drop (Suc k) (nm_extra_guids m)"
      using k' by (simp add: Cons_nth_drop_Suc)
    finally have "take 16 (drop (16 * k) (concat (map guid_bytes (nm_extra_guids m)))) = guid_bytes (nm_extra_guids m ! k)"
      using l [of "nm_extra_guids m ! k"] k' by simp
    moreover have "length (concat (map guid_bytes (nm_extra_guids m))) = 16 * length (nm_extra_guids m)"
      by (rule length_concat_const) (rule l)
    ultimately show ?thesis using k' by (simp add: guid_at_def gtab_def k)
  qed
qed

lemma entry_word:
  fixes w :: "16 word"
  assumes "unat w < 2 ^ 15"
  shows "drop_bit 1 (push_bit 1 w OR (if c then 1 else 0)) = w" "bit (push_bit 1 w OR (if c then 1 else 0)) 0 = c"
proof -
  have "take_bit 15 w = w" using assms by (simp add: word_unat_eq_iff unsigned_take_bit_eq take_bit_nat_eq_self)
  then have hi: "\<not> bit w 15" by (metis bit_take_bit_iff less_irrefl)
  have shifted: "bit (w * 2) n \<longleftrightarrow> 0 < n \<and> n < 16 \<and> bit w (n - 1)" for n
    using bit_push_bit_iff [of 1 w n] by (auto simp: bit_simps)
  show "bit (push_bit 1 w OR (if c then 1 else 0)) 0 = c" by (simp add: bit_or_iff shifted)
  show "drop_bit 1 (push_bit 1 w OR (if c then 1 else 0)) = w"
  proof (rule bit_word_eqI)
    fix n assume "n < LENGTH(16)"
    then show "bit (drop_bit 1 (push_bit 1 w OR (if c then 1 else 0))) n = bit w n"
      using hi by (cases "n = 15") (auto simp: bit_drop_bit_eq bit_or_iff shifted)
  qed
qed

lemma read_name_ok:
  assumes ok: "names_ok m ns" and small: "length (gtab m) < 2 ^ 15" and k: "k < length ns"
  shows "read_name (buildPropertyContext m) (named_id k) = Some (name_shown (ns ! k))"
proof -
  let ?e = "nm_entries m ! k"
  note D = names_okD [OF ok]
  have k16: "unat (of_nat k :: 16 word) = k" using k D(2) by (intro unat_small) simp
  have id: "named_id k - kFirstNamedId = of_nat k" by simp
  have "drop (8 * k) (concat (map encode_entry (nm_entries m))) = concat (map encode_entry (drop k (nm_entries m)))"
    by (rule drop_concat_const) simp
  also have "drop k (nm_entries m) = ?e # drop (Suc k) (nm_entries m)"
    using k D(1) by (simp add: Cons_nth_drop_Suc)
  finally have e: "take 8 (drop (8 * k) (concat (map encode_entry (nm_entries m)))) = encode_entry ?e" by simp
  note sh = D(4) [OF k, unfolded entry_shows_def]
  then have w: "unat (nm_guid_index ?e) < 2 ^ 15" using small by auto
  note ew = entry_word [OF w, of "nm_is_string ?e"]
  have parts: "peek32 (encode_entry ?e) = nm_numeric ?e"
      "peek16 (drop 4 (encode_entry ?e)) = push_bit 1 (nm_guid_index ?e) OR (if nm_is_string ?e then 1 else 0)"
      "peek16 (drop 6 (encode_entry ?e)) = of_nat k"
    using D(3) [OF k] by (simp_all add: encode_entry_def put32_def put16_def)
  have g: "guid_at (concat (map guid_bytes (nm_extra_guids m))) (unat (nm_guid_index ?e)) = Some (guid_bytes (name_guid (ns ! k)))"
    using guid_at_gtab [of m "unat (nm_guid_index ?e)"] ok sh by (simp add: names_ok_def)
  show ?thesis
    unfolding read_name_def name_in_def pc_streams id k16 e Let_def parts ew
    using sh by (cases "ns ! k") (simp_all add: g)
qed

subsection \<open>The map of a store\<close>

text \<open>
  The map takes 4096 names at most; when they are no longer than a limit, so is the string stream,
  whatever is asked for.
\<close>

definition names_small :: "nat \<Rightarrow> nameid \<Rightarrow> bool" where
  "names_small n m \<longleftrightarrow> length (nm_entries m) \<le> kMaxNames \<and> length (nm_string_stream m) \<le> length (nm_entries m) * (4 * n + 8) \<and>
     nm_extra_guids m \<in> {[], [kPsInternetHeaders]}"

lemma names_small_new: "names_small n NameIdMap_new"
  by (simp add: names_small_def NameIdMap_new_def)

lemma same_guid_refl: "same_guid g g"
  by (simp add: same_guid_def guid_less_def)

lemma guidIndex_small:
  assumes "names_small n m" "g \<in> {kPsPublicStrings, kPsInternetHeaders}" "guidIndex g m = (i, m')"
  shows "names_small n m' \<and> nm_entries m' = nm_entries m \<and> nm_string_stream m' = nm_string_stream m"
  using assms same_guid_refl by (auto simp: names_small_def guidIndex_def split: if_splits option.splits)

lemma idForString_small:
  assumes m: "names_small n m" and g: "g \<in> {kPsPublicStrings, kPsInternetHeaders}" and len: "length name \<le> n"
  shows "names_small n (snd (idForString g name m))"
proof -
  obtain i m1 where 1: "guidIndex g m = (i, m1)" by fastforce
  note g1 = guidIndex_small [OF m g 1]
  have pad: "length (pad4 b) \<le> length b + 3" for b using alignUp_less [of 4 "length b"] by (simp add: pad4_def)
  have grown: "length (pad4 (put32 st (of_nat (length (utf8ToUtf16le name))) @ utf8ToUtf16le name)) \<le> length st + (4 * n + 7)" for st
    using pad [of "put32 st (of_nat (length (utf8ToUtf16le name))) @ utf8ToUtf16le name"] length_utf8ToUtf16le [of name] len
    by (simp add: put32_def)
  have m1: "names_small n m1" "nm_entries m1 = nm_entries m" "nm_string_stream m1 = nm_string_stream m" using g1 by simp_all
  show ?thesis
  proof (cases "nm_by_string m1 (i, foldCase name)")
    case None
    show ?thesis
    proof (cases "kMaxNames \<le> length (nm_entries m1)")
      case True
      then show ?thesis using m1(1) None 1 by (simp add: idForString_def Let_def)
    next
      case False
      then show ?thesis using m1(1) grown [of "nm_string_stream m1"] None 1 by (simp add: idForString_def Let_def names_small_def)
    qed
  next
    case (Some a)
    then show ?thesis using m1(1) 1 by (simp add: idForString_def Let_def)
  qed
qed

lemma ensureGuid_small: "names_small n m \<Longrightarrow> names_small n (ensureGuid kPsInternetHeaders m)"
  using guidIndex_small [of n m kPsInternetHeaders] unfolding ensureGuid_def by (metis insert_iff prod.collapse)

text \<open>
  The map of a store: it implements a table of names that holds \<open>Keywords\<close>, and the ids it has given
  out are ids of named properties.
\<close>

abbreviation named :: "16 word \<Rightarrow> bool" where
  "named i \<equiv> kFirstNamedId \<le> i"

definition names_high :: "nameid \<Rightarrow> bool" where
  "names_high m \<longleftrightarrow> (\<forall>k i. nm_by_string m k = Some i \<longrightarrow> named i)"

lemma guidIndex_names: "nm_by_string (snd (guidIndex g m)) = nm_by_string m" "nm_entries (snd (guidIndex g m)) = nm_entries m"
  by (auto simp: guidIndex_def split: option.splits)

lemma named_id_unat: "k < kMaxNames \<Longrightarrow> unat (named_id k) = 0x8000 + k"
proof -
  assume k: "k < kMaxNames"
  then have "unat (of_nat k :: 16 word) = k" by (intro unat_small) simp
  then show ?thesis using k by (simp add: unat_word_ariths)
qed

lemma named_id_high: "k < kMaxNames \<Longrightarrow> named (named_id k)"
  by (simp add: word_le_nat_alt named_id_unat)

lemma named_id_inject: "k < kMaxNames \<Longrightarrow> j < kMaxNames \<Longrightarrow> named_id k = named_id j \<longleftrightarrow> k = j"
  using named_id_unat by (metis add_left_cancel)

lemma idForString_high:
  assumes "names_high m" "idForString g name m = (i, m')"
  shows "names_high m' \<and> (i = 0 \<or> named i)"
  using assms guidIndex_names [of g m] named_id_high [of "length (nm_entries m)"]
  by (auto simp: idForString_def names_high_def Let_def split: prod.splits option.splits if_splits)

lemma names_high_new: "names_high NameIdMap_new" "names_high m \<Longrightarrow> names_high (ensureGuid g m)"
  by (simp_all add: names_high_def NameIdMap_new_def ensureGuid_def guidIndex_names)

abbreviation keywords_name :: request where
  "keywords_name \<equiv> StringName kPsPublicStrings ''Keywords''"

abbreviation kLongestName :: nat where "kLongestName \<equiv> 2 ^ 17"

definition names_inv :: "request list \<Rightarrow> nameid \<Rightarrow> bool" where
  "names_inv ns m \<longleftrightarrow> names_ok m ns \<and> names_small kLongestName m \<and> names_high m \<and> position keywords_name ns \<noteq> None"

lemma names_small_bounds:
  assumes "names_small kLongestName m"
  shows "length (nm_string_stream m) < 2 ^ 32" "length (gtab m) \<le> 3"
proof -
  have m: "length (nm_entries m) \<le> 4096" "length (nm_string_stream m) \<le> length (nm_entries m) * (4 * kLongestName + 8)"
    using assms by (simp_all add: names_small_def)
  have "length (nm_entries m) * (4 * kLongestName + 8) \<le> 4096 * (4 * kLongestName + 8)" by (rule mult_le_mono1 [OF m(1)])
  then show "length (nm_string_stream m) < 2 ^ 32" using m(2) by simp
  show "length (gtab m) \<le> 3" using assms by (auto simp: names_small_def gtab_def)
qed

text \<open>A name keeps its place as the table grows, and no other has it.\<close>

lemma position_more: "position r ns = Some k \<Longrightarrow> prefix ns ns' \<Longrightarrow> position r ns' = Some k"
proof -
  have "position r ns = Some k \<Longrightarrow> position r (ns @ qs) = Some k" for qs
    by (induction ns arbitrary: k) (auto split: if_splits)
  then show "position r ns = Some k \<Longrightarrow> prefix ns ns' \<Longrightarrow> position r ns' = Some k" by (auto simp: prefix_def)
qed

lemma position_apart: "position r ns = Some k \<Longrightarrow> position q ns = Some k \<Longrightarrow> same_name r q"
  using position_Some [of r ns k] position_Some [of q ns k] same_name_trans same_name_sym by blast

lemma names_inv_step:
  assumes inv: "names_inv ns m" and g: "g \<in> {kPsPublicStrings, kPsInternetHeaders}" "length name \<le> kLongestName"
    and run: "idForString g name m = (i, m')"
  shows "\<exists>ns'. names_inv ns' m' \<and> prefix ns ns' \<and>
    (case position (StringName g name) ns' of None \<Rightarrow> i = 0 \<and> kMaxNames \<le> length ns'
     | Some k \<Rightarrow> k < kMaxNames \<and> i = named_id k \<and> i \<noteq> 0)"
proof -
  have I: "names_ok m ns" "names_small kLongestName m" "names_high m" "position keywords_name ns \<noteq> None"
    using inv by (simp_all add: names_inv_def)
  have small: "names_small kLongestName m'" using idForString_small [OF I(2) g] run by simp
  have high: "names_high m'" using idForString_high [OF I(3) run] by simp
  have "guid_ok g" using g(1) by (auto simp: kPsPublicStrings_def kPsInternetHeaders_def)
  moreover have "length (gtab m) < 2 ^ 15" using names_small_bounds(2) [OF I(2)] by simp
  ultimately have law: "spec_serve (StringName g name) ns = (i, spec_table (spec_serve (StringName g name) ns))"
      "names_ok m' (spec_table (spec_serve (StringName g name) ns))"
    using idForString_law [OF I(1) _ _ run names_small_bounds(1) [OF small]] by blast+
  let ?ns = "spec_table (spec_serve (StringName g name) ns)"
  have pre: "prefix ns ?ns" by (simp add: spec_serve_def split: option.split)
  have served: "case position (StringName g name) ?ns of None \<Rightarrow> i = 0 \<and> kMaxNames \<le> length ?ns | Some k \<Rightarrow> k < kMaxNames \<and> i = named_id k"
    using law(1) names_okD(2) [OF I(1)] position_Some [of "StringName g name" ns] position_append [of "StringName g name" ns "StringName g name"]
    by (auto simp: spec_serve_def split: option.splits if_splits)
  have "i \<noteq> 0" if "position (StringName g name) ?ns = Some k" "i = named_id k" "k < kMaxNames" for k
    using named_id_unat [OF that(3)] that(2) by auto
  moreover have "position keywords_name ?ns \<noteq> None" using position_more [OF _ pre] I(4) by auto
  ultimately show ?thesis using law(2) small high pre served unfolding names_inv_def
    by (intro exI [of _ ?ns]) (auto split: option.splits)
qed

text \<open>A reader of the map's properties resolves every id of the table.\<close>

lemma names_inv_read: "names_inv ns m \<Longrightarrow> k < length ns \<Longrightarrow> read_name (buildPropertyContext m) (named_id k) = Some (name_shown (ns ! k))"
  using read_name_ok [of m ns k] names_small_bounds(2) [of m] by (simp add: names_inv_def)

subsection \<open>Properties\<close>

text \<open>
  C38: The name map implements a table of names. Over any run of requests, however long, that uses
  fewer than 32766 different GUIDs (the program has three) and leaves a string stream that its 32-bit
  offsets can address, the ids returned are the ones the table assigns: the position of the first
  name equal up to case, the next free position for a new name, 0 once 4096 are taken; and from
  the streams in the property context a reader resolves every assigned id to the GUID and to the
  spelling first asked for.
\<close>

theorem nameid_refines:
  assumes "\<forall>r \<in> set rs. guid_ok (name_guid r)" and "card (name_guid ` set rs) < 2 ^ 15 - 2"
    and "serve_all rs NameIdMap_new = (is, m)" and "length (nm_string_stream m) < 2 ^ 32"
  shows "\<exists>ns. spec_serve_all rs [] = (is, ns) \<and>
    (\<forall>k < length ns. read_name (buildPropertyContext m) (kFirstNamedId + of_nat k) = Some (name_shown (ns ! k)))"
  using serve_all_new [OF assms] read_name_ok by fastforce

text \<open>The names asked for in the witness: one of them twice, in two spellings, and one by number.\<close>

definition sample_requests :: "request list" where
  "sample_requests = [StringName kPsInternetHeaders ''X-A'', NumericName kPsMapi 7, StringName kPsInternetHeaders ''x-a'']"

lemma sample_name: "utf8ToUtf16le ''X-A'' = [88, 0, 45, 0, 65, 0]" "foldCase ''X-A'' = ''x-a''" "foldCase ''x-a'' = ''x-a''"
  "kPsInternetHeaders \<noteq> kPsMapi" "kPsInternetHeaders \<noteq> kPsPublicStrings"
  by code_simp+

lemma sample_run:
  "fst (serve_all sample_requests NameIdMap_new) = [0x8000, 0x8001, 0x8000] \<and>
   length (nm_string_stream (snd (serve_all sample_requests NameIdMap_new))) < 2 ^ 32"
  by (simp add: sample_requests_def idForString_def idForNumeric_def guidIndex_def NameIdMap_new_def Let_def
      sample_name pad4_def put32_def alignUp_def)

lemma sample_guids: "\<forall>r \<in> set sample_requests. guid_ok (name_guid r)"
  by (simp add: sample_requests_def kPsInternetHeaders_def kPsMapi_def)

lemma sample_few: "card (name_guid ` set sample_requests) < 2 ^ 15 - 2"
  by (simp add: sample_requests_def card_insert_if)

lemma nameid_refines_witness:
  "\<exists>is m ns. serve_all sample_requests NameIdMap_new = (is, m) \<and> spec_serve_all sample_requests [] = (is, ns) \<and>
    is = [0x8000, 0x8001, 0x8000]"
proof -
  obtain "is" m where run: "serve_all sample_requests NameIdMap_new = (is, m)" by (rule prod.exhaust)
  then have m: "is = [0x8000, 0x8001, 0x8000]" "length (nm_string_stream m) < 2 ^ 32" using sample_run by simp_all
  from nameid_refines [OF sample_guids sample_few run m(2)] run m(1) show ?thesis by blast
qed

text \<open>Two names of the table are never equal up to case, and a request gets the id of its name.\<close>

definition names_apart :: "request list \<Rightarrow> bool" where
  "names_apart ns \<longleftrightarrow> (\<forall>i j. i < length ns \<longrightarrow> j < length ns \<longrightarrow> same_name (ns ! i) (ns ! j) \<longrightarrow> i = j)"

lemma spec_serve_law:
  assumes "names_apart ns" "length ns \<le> kMaxNames" "spec_serve r ns = (i, ns')"
  shows "names_apart ns' \<and> length ns' \<le> kMaxNames \<and> (\<exists>qs. ns' = ns @ qs) \<and>
    (i = 0 \<or> (\<exists>k < length ns'. i = named_id k \<and> same_name (ns' ! k) r))"
proof (cases "position r ns")
  case None
  then have "\<not> same_name q r" "\<not> same_name r q" if "q \<in> set ns" for q
    using that same_name_sym by (auto simp: position_None)
  then show ?thesis
    using None assms by (fastforce simp: spec_serve_def names_apart_def nth_append less_Suc_eq split: if_splits)
qed (use assms position_Some in \<open>auto simp: spec_serve_def\<close>)

lemma spec_serve_all_law:
  assumes "names_apart ns" "length ns \<le> kMaxNames" "spec_serve_all rs ns = (is, ns')"
  shows "names_apart ns' \<and> length ns' \<le> kMaxNames \<and> (\<exists>qs. ns' = ns @ qs) \<and> length is = length rs \<and>
    (\<forall>k < length rs. is ! k = 0 \<or> (\<exists>j < length ns'. is ! k = named_id j \<and> same_name (ns' ! j) (rs ! k)))"
  using assms
proof (induction rs arbitrary: ns "is")
  case (Cons r rs)
  obtain i ns1 js where run: "spec_serve r ns = (i, ns1)" "spec_serve_all rs ns1 = (js, ns')" "is = i # js"
    using Cons.prems(3) by (auto split: prod.splits)
  note 1 = spec_serve_law [OF Cons.prems(1,2) run(1)]
  note 2 = Cons.IH [OF conjunct1 [OF 1] _ run(2)]
  then have 2: "names_apart ns'" "length ns' \<le> kMaxNames" "length js = length rs"
      "\<forall>k < length rs. js ! k = 0 \<or> (\<exists>j < length ns'. js ! k = named_id j \<and> same_name (ns' ! j) (rs ! k))"
    and "\<exists>qs. ns' = ns1 @ qs" using 1 by simp_all
  then obtain qs where qs: "ns' = ns1 @ qs" by blast
  have "i = 0 \<or> (\<exists>j < length ns'. i = named_id j \<and> same_name (ns' ! j) r)"
  proof (cases "i = 0")
    case False
    then obtain k where "k < length ns1" "i = named_id k" "same_name (ns1 ! k) r" using 1 by blast
    then show ?thesis by (intro disjI2 exI [of _ k]) (simp add: qs nth_append)
  qed simp
  then have "\<forall>k < length (r # rs). is ! k = 0 \<or> (\<exists>j < length ns'. is ! k = named_id j \<and> same_name (ns' ! j) ((r # rs) ! k))"
    using 2(4) run(3) by (auto simp: less_Suc_eq_0_disj)
  moreover have "\<exists>qs. ns' = ns @ qs" using 1 qs by auto
  ultimately show ?case using 2(1-3) run(3) by simp
qed simp

text \<open>
  Over any run of requests, however long, within the same two bounds (fewer than 32766 different
  GUIDs, a string stream under 4 GB), two requests that are served get the same id exactly when
  they name the same property: the same GUID and the same name up to ASCII case, or the same
  number. So no name has two ids and no id two names, and an id once returned is returned again.
\<close>

theorem nameid_injective:
  assumes "\<forall>r \<in> set rs. guid_ok (name_guid r)" and "card (name_guid ` set rs) < 2 ^ 15 - 2"
    and "serve_all rs NameIdMap_new = (is, m)" and "length (nm_string_stream m) < 2 ^ 32"
    and "i < length rs" "j < length rs" "is ! i \<noteq> 0" "is ! j \<noteq> 0"
  shows "is ! i = is ! j \<longleftrightarrow> same_name (rs ! i) (rs ! j)"
proof -
  from serve_all_new [OF assms(1-4)] obtain ns where ns: "spec_serve_all rs [] = (is, ns)" by auto
  have "names_apart []" by (simp add: names_apart_def)
  note law = spec_serve_all_law [OF this _ ns]
  have served: "\<exists>a < length ns. is ! k = named_id a \<and> same_name (ns ! a) (rs ! k)" if "k < length rs" "is ! k \<noteq> 0" for k
    using law that by auto
  obtain a where a: "a < length ns" "is ! i = named_id a" "same_name (ns ! a) (rs ! i)"
    using served [OF assms(5,7)] by blast
  obtain b where b: "b < length ns" "is ! j = named_id b" "same_name (ns ! b) (rs ! j)"
    using served [OF assms(6,8)] by blast
  note ab = a b
  have u: "unat (of_nat k :: 16 word) = k" if "k < length ns" for k
    using that law by (intro unat_small) simp
  have "is ! i = is ! j \<longleftrightarrow> a = b" using ab u [of a] u [of b] by (metis add_left_cancel)
  also have "\<dots> \<longleftrightarrow> same_name (ns ! a) (ns ! b)" using law ab by (auto simp: names_apart_def)
  also have "\<dots> \<longleftrightarrow> same_name (rs ! i) (rs ! j)"
    using ab same_name_trans same_name_sym by blast
  finally show ?thesis .
qed

lemma nameid_injective_witness:
  "fst (serve_all sample_requests NameIdMap_new) ! 0 = fst (serve_all sample_requests NameIdMap_new) ! 2 \<and>
   fst (serve_all sample_requests NameIdMap_new) ! 0 \<noteq> fst (serve_all sample_requests NameIdMap_new) ! 1"
proof -
  obtain "is" m where run: "serve_all sample_requests NameIdMap_new = (is, m)" by (rule prod.exhaust)
  then have m: "is = [0x8000, 0x8001, 0x8000]" "length (nm_string_stream m) < 2 ^ 32" using sample_run by simp_all
  note inj = nameid_injective [OF sample_guids sample_few run m(2)]
  have "same_name (sample_requests ! 0) (sample_requests ! 2)" "\<not> same_name (sample_requests ! 0) (sample_requests ! 1)"
    by code_simp+
  then show ?thesis using inj [of 0 2] inj [of 0 1] run m(1) by (simp add: sample_requests_def)
qed

end
