(* ===== verification/Text.thy ===== *)
theory Text
  imports Prelude
begin

section \<open>Text: what the parsers use of \<open>std::string\<close> and the C library\<close>

text \<open>
  The IMAP and MIME parsers walk strings with indices: \<open>find\<close>, \<open>rfind\<close>, \<open>substr\<close>, \<open>strtoul\<close>,
  \<open>sscanf\<close> and the character classes. A position is a \<open>nat\<close>, \<open>std::string::npos\<close> is \<open>None\<close>;
  where the source adds an attacker's number to a position the sum wraps at 64 bits and the model
  says so at the place. \<open>find_char\<close> and the others are the library functions, with their laws.
\<close>

named_theorems text_simps \<open>evaluation of the string operations\<close>

abbreviation lower :: "string \<Rightarrow> string" where
  "lower s \<equiv> map tolower s"

abbreviation CR :: char where "CR \<equiv> CHR 0x0D"
abbreviation LF :: char where "LF \<equiv> CHR 0x0A"
abbreviation TAB :: char where "TAB \<equiv> CHR 0x09"
abbreviation QUOTE :: char where "QUOTE \<equiv> CHR 0x22"
abbreviation BACKSLASH :: char where "BACKSLASH \<equiv> CHR 0x5C"
abbreviation NUL :: char where "NUL \<equiv> CHR 0x00"

subsection \<open>Searching\<close>

text \<open>\<open>s.find(c, i)\<close>.\<close>

definition find_char :: "char \<Rightarrow> string \<Rightarrow> nat \<Rightarrow> nat option" where
  "find_char c s i =
     (let n = length (takeWhile (\<lambda>x. x \<noteq> c) (drop i s)) in
      if i + n < length s then Some (i + n) else None)"

text \<open>\<open>s.find(p, i)\<close> for a string \<open>p\<close>.\<close>

fun find_prefix :: "string \<Rightarrow> string \<Rightarrow> nat \<Rightarrow> nat option" where
  "find_prefix p s i =
     (if take (length p) s = p then Some i
      else case s of [] \<Rightarrow> None | _ # t \<Rightarrow> find_prefix p t (Suc i))"

declare find_prefix.simps [simp del]

definition find_str :: "string \<Rightarrow> string \<Rightarrow> nat \<Rightarrow> nat option" where
  "find_str p s i = (if i \<le> length s then find_prefix p (drop i s) i else None)"

text \<open>\<open>s.rfind(c)\<close>.\<close>

definition rfind_char :: "char \<Rightarrow> string \<Rightarrow> nat option" where
  "rfind_char c s =
     (let n = length (takeWhile (\<lambda>x. x \<noteq> c) (rev s)) in
      if n < length s then Some (length s - 1 - n) else None)"

text \<open>\<open>s.substr(i, n)\<close>, for \<open>i \<le> s.size()\<close>.\<close>

definition substr :: "string \<Rightarrow> nat \<Rightarrow> nat \<Rightarrow> string" where
  "substr s i n = take n (drop i s)"

lemma find_char_Some:
  assumes "find_char c s i = Some k"
  shows "i \<le> k" "k < length s" "s ! k = c" "c \<notin> set (take (k - i) (drop i s))"
proof -
  let ?n = "length (takeWhile (\<lambda>x. x \<noteq> c) (drop i s))"
  have k: "k = i + ?n" "i + ?n < length s" using assms by (auto simp: find_char_def Let_def split: if_splits)
  then show "i \<le> k" "k < length s" by simp_all
  have "?n < length (drop i s)" using k by simp
  from nth_length_takeWhile [OF this] show "s ! k = c" using k by simp
  have "take (k - i) (drop i s) = takeWhile (\<lambda>x. x \<noteq> c) (drop i s)" using k by (metis add_diff_cancel_left' takeWhile_eq_take)
  then show "c \<notin> set (take (k - i) (drop i s))" using set_takeWhileD by fastforce
qed

lemma find_char_append:
  assumes "c \<notin> set b"
  shows "find_char c (a @ b @ c # r) (length a) = Some (length a + length b)"
proof -
  have "takeWhile (\<lambda>x. x \<noteq> c) (b @ c # r) = b" using assms by (induction b) auto
  then show ?thesis by (simp add: find_char_def)
qed

lemma find_char_none: "c \<notin> set (drop i s) \<Longrightarrow> find_char c s i = None"
proof -
  assume "c \<notin> set (drop i s)"
  then have "takeWhile (\<lambda>x. x \<noteq> c) (drop i s) = drop i s" by (simp only: takeWhile_eq_all_conv) auto
  then have "length (takeWhile (\<lambda>x. x \<noteq> c) (drop i s)) = length s - i" by (metis length_drop)
  then show ?thesis by (simp add: find_char_def Let_def)
qed

text \<open>The end of the line at \<open>i\<close>: the next newline, or the end of the text.\<close>

definition line_end :: "string \<Rightarrow> nat \<Rightarrow> nat" where
  "line_end s i = (case find_char LF s i of None \<Rightarrow> length s | Some k \<Rightarrow> k)"

lemma line_end_bounds: "i \<le> length s \<Longrightarrow> i \<le> line_end s i \<and> line_end s i \<le> length s"
  by (auto simp: line_end_def dest: find_char_Some split: option.splits)

lemma line_end_append: "LF \<notin> set b \<Longrightarrow> line_end (a @ b @ LF # r) (length a) = length a + length b"
  by (simp add: line_end_def find_char_append)

text \<open>\<open>if (!line.empty() && line.back() == '\r') line.pop_back();\<close>\<close>

definition chomp :: "string \<Rightarrow> string" where
  "chomp s = (if s \<noteq> [] \<and> last s = CR then butlast s else s)"

subsection \<open>Numbers\<close>

text \<open>\<open>c_str()\<close>: what a C function sees of the text.\<close>

definition c_str :: "string \<Rightarrow> string" where
  "c_str s = takeWhile (\<lambda>c. c \<noteq> NUL) s"

text \<open>A sign, then digits: the value and the rest, or \<open>None\<close> without a digit.\<close>

definition scan_sign :: "string \<Rightarrow> bool \<times> string" where
  "scan_sign s = (case s of c # t \<Rightarrow> if c = CHR ''-'' then (True, t) else if c = CHR ''+'' then (False, t) else (False, s)
     | [] \<Rightarrow> (False, []))"

text \<open>
  \<open>std::strtoul(s, nullptr, 10)\<close> with a 64-bit \<open>unsigned long\<close>: leading space, a sign, digits;
  zero without digits, the largest value on overflow, a minus sign negates modulo \<open>2 ^ 64\<close>.
\<close>

definition strtoul :: "string \<Rightarrow> nat" where
  "strtoul s =
     (case scan_sign (dropWhile isspace (c_str s)) of (neg, t) \<Rightarrow>
        let v = parse_digits (takeWhile isdigit t) in
        if 2 ^ 64 \<le> v then 2 ^ 64 - 1
        else if neg then (2 ^ 64 - v) mod 2 ^ 64
        else v)"

lemma strtoul_bound: "strtoul s < 2 ^ 64"
  by (auto simp: strtoul_def Let_def split: prod.splits)

lemma isdigit_char: "isdigit c \<Longrightarrow> c \<noteq> CHR ''-'' \<and> c \<noteq> CHR ''+'' \<and> \<not> isspace c \<and> c \<noteq> NUL"
  by (auto simp: isdigit_def isspace_def)

lemma takeWhile_stop: "(\<forall>x \<in> set xs. P x) \<Longrightarrow> (ys = [] \<or> \<not> P (hd ys)) \<Longrightarrow> takeWhile P (xs @ ys) = xs"
  by (induction xs) (auto, cases ys, auto)

lemma strtoul_to_string:
  assumes "n < 2 ^ 64" "r = [] \<or> \<not> isdigit (hd r)"
  shows "strtoul (to_string n @ r) = n"
proof -
  let ?d = "to_string n"
  have d: "\<forall>c \<in> set ?d. isdigit c" using to_string_digits by blast
  obtain c ds where ds: "?d = c # ds" by (cases ?d) auto
  have c: "isdigit c" using d ds by simp
  obtain r' where r': "c_str (?d @ r) = ?d @ r'" "r' = [] \<or> \<not> isdigit (hd r')"
  proof -
    have "c_str (?d @ r) = ?d @ c_str r"
      unfolding c_str_def using d isdigit_char by (intro takeWhile_append2) blast
    moreover have "c_str r = [] \<or> \<not> isdigit (hd (c_str r))" using assms(2) by (cases r) (auto simp: c_str_def)
    ultimately show thesis using that by blast
  qed
  have ws: "dropWhile isspace (?d @ r') = ?d @ r'" using isdigit_char [OF c] ds by simp
  have sgn: "scan_sign (?d @ r') = (False, ?d @ r')" using isdigit_char [OF c] ds by (simp add: scan_sign_def)
  have tw: "takeWhile isdigit (?d @ r') = ?d" by (rule takeWhile_stop) (use d r' in auto)
  show ?thesis unfolding strtoul_def r'(1) ws sgn using assms(1) by (simp add: tw)
qed

text \<open>\<open>std::atoi\<close> and the \<open>%d\<close> of \<open>sscanf\<close>: a signed number cut to 32 bits.\<close>

definition to_int32 :: "bool \<Rightarrow> nat \<Rightarrow> int" where
  "to_int32 neg v =
     signed_take_bit 31 (if neg then - int (min v (2 ^ 63)) else int (min v (2 ^ 63 - 1)))"

definition atoi :: "string \<Rightarrow> int" where
  "atoi s = (case scan_sign (dropWhile isspace (c_str s)) of (neg, t) \<Rightarrow> to_int32 neg (parse_digits (takeWhile isdigit t)))"

text \<open>\<open>sscanf\<close> conversions on the rest of the input: \<open>%d\<close> and \<open>%Nd\<close> (at most \<open>N\<close> characters), \<open>%Ns\<close>, \<open>%c\<close>.\<close>

definition scan_d :: "nat option \<Rightarrow> string \<Rightarrow> (int \<times> string) option" where
  "scan_d width s =
     (let t = dropWhile isspace s;
          u = (case width of None \<Rightarrow> t | Some w \<Rightarrow> take w t);
          (neg, v) = scan_sign u;
          ds = takeWhile isdigit v;
          used = length u - length v + length ds
      in if ds = [] then None else Some (to_int32 neg (parse_digits ds), drop used t))"

definition scan_s :: "nat \<Rightarrow> string \<Rightarrow> (string \<times> string) option" where
  "scan_s width s =
     (let t = dropWhile isspace s; w = takeWhile (\<lambda>c. \<not> isspace c) (take width t)
      in if w = [] then None else Some (w, drop (length w) t))"

definition scan_lit :: "char \<Rightarrow> string \<Rightarrow> string option" where
  "scan_lit c s = (case s of d # t \<Rightarrow> if d = c then Some t else None | [] \<Rightarrow> None)"

subsection \<open>Trimming\<close>

definition trim :: "string \<Rightarrow> string" where
  "trim s = rev (dropWhile isspace (rev (dropWhile isspace s)))"

lemma trim_id: "s = [] \<or> \<not> isspace (hd s) \<and> \<not> isspace (last s) \<Longrightarrow> trim s = s"
  by (cases s) (auto simp: trim_def hd_rev [symmetric] dropWhile_eq_self_iff)

lemma trim_idem [simp]: "trim (trim s) = trim s"
proof (rule trim_id)
  let ?t = "dropWhile isspace s"
  have hd: "?t = [] \<or> \<not> isspace (hd ?t)" using hd_dropWhile by blast
  have lst: "trim s = [] \<or> \<not> isspace (last (trim s))"
    using hd_dropWhile [of isspace "rev ?t"] by (auto simp: trim_def last_rev)
  have "trim s = [] \<or> hd (trim s) = hd ?t"
  proof -
    obtain u where "rev ?t = u @ dropWhile isspace (rev ?t)" by (metis takeWhile_dropWhile_id)
    then have "?t = trim s @ rev u" by (metis rev_append rev_rev_ident trim_def)
    then show ?thesis by (metis hd_append2)
  qed
  then show "trim s = [] \<or> \<not> isspace (hd (trim s)) \<and> \<not> isspace (last (trim s))"
    using hd lst by (metis dropWhile.simps(1) rev.simps(1) trim_def)
qed

subsection \<open>UTF-8\<close>

text \<open>The encoder that the IMAP parser and the charset module each have a copy of.\<close>

definition chr8 :: "32 word \<Rightarrow> char" where
  "chr8 v = chr_of (ucast v)"

definition appendUtf8 :: "32 word \<Rightarrow> string" where
  "appendUtf8 cp =
     (if cp < 0x80 then [chr8 cp]
      else if cp < 0x800 then [chr8 (0xC0 OR drop_bit 6 cp), chr8 (0x80 OR (cp AND 0x3F))]
      else if cp < 0x10000 then
        [chr8 (0xE0 OR drop_bit 12 cp), chr8 (0x80 OR (drop_bit 6 cp AND 0x3F)), chr8 (0x80 OR (cp AND 0x3F))]
      else
        [chr8 (0xF0 OR drop_bit 18 cp), chr8 (0x80 OR (drop_bit 12 cp AND 0x3F)),
         chr8 (0x80 OR (drop_bit 6 cp AND 0x3F)), chr8 (0x80 OR (cp AND 0x3F))])"

end
