(* ===== verification/Core_Message.thy ===== *)
theory Core_Message
  imports Text
begin

section \<open>The normalized message (src/core/message.h, src/core/message.cpp)\<close>

text \<open>
  The data every module speaks: mailboxes, attachments, messages, what came off the wire and the
  folders a server reports. A message contains its attachments and an attachment may embed a
  message, so the two are one recursive datatype; the other fields of a message are a record.
  Times are seconds since 1970 as \<open>int\<close>.
\<close>

subsection \<open>Flags\<close>

abbreviation (input) kFlagNone :: "32 word" where "kFlagNone \<equiv> 0"
abbreviation (input) kFlagSeen :: "32 word" where "kFlagSeen \<equiv> 1"
abbreviation (input) kFlagAnswered :: "32 word" where "kFlagAnswered \<equiv> 2"
abbreviation (input) kFlagFlagged :: "32 word" where "kFlagFlagged \<equiv> 4"
abbreviation (input) kFlagDeleted :: "32 word" where "kFlagDeleted \<equiv> 8"
abbreviation (input) kFlagDraft :: "32 word" where "kFlagDraft \<equiv> 16"
abbreviation (input) kFlagRecent :: "32 word" where "kFlagRecent \<equiv> 32"

subsection \<open>Messages\<close>

record mailbox =
  mb_name :: string
  mb_email :: string

record raw_header =
  rh_name :: string
  rh_value :: string

datatype 'm attachment = Attachment
  (at_filename: string) (at_content_type: string) (at_content_id: string) (at_inline: bool)
  (at_data: bytes) (at_embedded: "'m option")

record message_fields =
  message_class :: string
  m_from :: mailbox
  m_to :: "mailbox list"
  m_cc :: "mailbox list"
  m_bcc :: "mailbox list"
  m_reply_to :: "mailbox list"
  m_subject :: string
  m_message_id :: string
  m_in_reply_to :: string
  m_date :: int
  body_text :: string
  body_html :: string
  m_headers :: "raw_header list"
  m_flags :: "32 word"
  m_keywords :: "string list"
  imap_uid :: "32 word"
  delivery_time :: int
  m_size :: "32 word"

datatype message = Message (fields_of: message_fields) (attachments: "message attachment list")

definition no_mailbox :: mailbox where
  "no_mailbox = \<lparr>mb_name = [], mb_email = []\<rparr>"

text \<open>The default-initialized message.\<close>

definition empty_fields :: message_fields where
  "empty_fields = \<lparr>message_class = [], m_from = no_mailbox, m_to = [], m_cc = [], m_bcc = [], m_reply_to = [],
     m_subject = [], m_message_id = [], m_in_reply_to = [], m_date = 0, body_text = [], body_html = [], m_headers = [],
     m_flags = kFlagNone, m_keywords = [], imap_uid = 0, delivery_time = 0, m_size = 0\<rparr>"

definition seen :: "message_fields \<Rightarrow> bool" where
  "seen m \<longleftrightarrow> m_flags m AND kFlagSeen \<noteq> 0"

definition header_blob :: "message_fields \<Rightarrow> string" where
  "header_blob m = concat (map (\<lambda>h. rh_name h @ '': '' @ rh_value h @ [CR, LF]) (m_headers m))"

record raw_message =
  rm_uid :: "32 word"
  rm_flags :: "32 word"
  rm_keywords :: "string list"
  rm_internal_date :: int
  rfc822 :: string

subsection \<open>Folders\<close>

record folder_info =
  full_name :: string
  raw_name :: string
  delimiter :: char
  selectable :: bool

text \<open>Splitting on the delimiter, dropping empty components: \<open>cur\<close> is the component being read.\<close>

primrec split_path :: "char \<Rightarrow> string \<Rightarrow> string \<Rightarrow> string list" where
  "split_path d cur [] = (if cur = [] then [] else [cur])"
| "split_path d cur (c # cs) =
     (if c = d then (if cur = [] then [] else [cur]) @ split_path d [] cs
      else split_path d (cur @ [c]) cs)"

definition folder_path :: "folder_info \<Rightarrow> string list" where
  "folder_path f =
     (if delimiter f = NUL then (if full_name f = [] then [] else [full_name f])
      else split_path (delimiter f) [] (full_name f))"

definition leaf_name :: "folder_info \<Rightarrow> string" where
  "leaf_name f = (let parts = folder_path f in if parts = [] then [] else last parts)"

text \<open>A name built from components: what the server reports for a path.\<close>

primrec join_path :: "char \<Rightarrow> string list \<Rightarrow> string" where
  "join_path d [] = []"
| "join_path d (p # ps) = (if ps = [] then p else p @ d # join_path d ps)"

lemma split_path_word: "d \<notin> set w \<Longrightarrow> split_path d cur (w @ rest) = split_path d (cur @ w) rest"
  by (induction w arbitrary: cur) auto

lemma split_join: "\<forall>p \<in> set ps. p \<noteq> [] \<and> d \<notin> set p \<Longrightarrow> split_path d [] (join_path d ps) = ps"
proof (induction ps)
  case (Cons p ps)
  show ?case
  proof (cases "ps = []")
    case True
    then show ?thesis using Cons.prems split_path_word [of d p "[]" "[]"] by simp
  next
    case False
    then show ?thesis using Cons split_path_word [of d p "[]" "d # join_path d ps"] by simp
  qed
qed simp

lemma split_path_parts:
  "d \<notin> set cur \<Longrightarrow> p \<in> set (split_path d cur s) \<Longrightarrow> p \<noteq> [] \<and> d \<notin> set p"
proof (induction s arbitrary: cur)
  case (Cons c s)
  show ?case
    using Cons.IH [of "[]"] Cons.IH [of "cur @ [c]"] Cons.prems by (cases "c = d") (auto split: if_splits)
qed (auto split: if_splits)

subsection \<open>Properties\<close>

text \<open>
  A folder's path has no empty component and no component with the delimiter in it, and a name
  joined from such components is split back into exactly them, the leaf being the last.
\<close>

theorem folder_path_join:
  assumes "delimiter f \<noteq> NUL"
  shows "(\<forall>p \<in> set (folder_path f). p \<noteq> [] \<and> delimiter f \<notin> set p) \<and>
    (full_name f = join_path (delimiter f) ps \<and> ps \<noteq> [] \<and> (\<forall>p \<in> set ps. p \<noteq> [] \<and> delimiter f \<notin> set p) \<longrightarrow>
      folder_path f = ps \<and> leaf_name f = last ps)"
  using assms split_path_parts [of "delimiter f" "[]"] split_join [of ps "delimiter f"]
  by (auto simp: folder_path_def leaf_name_def Let_def)

lemma folder_path_join_witness:
  "folder_path \<lparr>full_name = ''INBOX/Work/2024'', raw_name = ''INBOX/Work/2024'', delimiter = CHR ''/'', selectable = True\<rparr> =
     [''INBOX'', ''Work'', ''2024'']"
  using folder_path_join [of "\<lparr>full_name = ''INBOX/Work/2024'', raw_name = ''INBOX/Work/2024'', delimiter = CHR ''/'', selectable = True\<rparr>"
      "[''INBOX'', ''Work'', ''2024'']"] by simp

end
