(* ===== verification/Pst_Message.thy ===== *)
theory Pst_Message
  imports Pst_Node Nameid_Map Core_Message
begin

section \<open>Building a message (src/pst/pst_writer.cpp, buildMessage)\<close>

text \<open>
  The part of \<open>PstWriter\<close> that turns a normalized message into MAPI properties, a recipient table
  and an attachment table, in the subnodes of a node. Messages embedded in attachments are built by
  the same function, recursively. The store's GUID is an argument; the clock is a stream of
  readings in the state, one consumed by each call of \<open>nowUnix\<close>.
\<close>

subsection \<open>Helpers\<close>

definition display_name :: "mailbox \<Rightarrow> string" where
  "display_name m = (if mb_name m = [] then mb_email m else mb_name m)"

definition joinMailboxes :: "mailbox list \<Rightarrow> string" where
  "joinMailboxes v = fold (\<lambda>m out. (if out \<noteq> [] then out @ ''; '' else out) @ display_name m) v []"

definition kKnown :: "string list" where
  "kKnown = [''from'', ''to'', ''cc'', ''bcc'', ''reply-to'', ''subject'', ''date'', ''message-id'', ''in-reply-to'']"

definition isStructuredHeader :: "string \<Rightarrow> bool" where
  "isStructuredHeader name \<longleftrightarrow> lower name \<in> set kKnown"

subsection \<open>RTF\<close>

definition rtf_prologue :: string where
  "rtf_prologue = [BACKSLASH] @ ''rtf1'' @ [BACKSLASH] @ ''ansi'' @ [BACKSLASH] @ ''ansicpg65001'' @ [BACKSLASH] @ ''fromtext'' @
     [BACKSLASH] @ ''deff0{'' @ [BACKSLASH] @ ''fonttbl{'' @ [BACKSLASH] @ ''f0'' @ [BACKSLASH] @ ''fswiss Arial;}}'' @ [LF] @
     [BACKSLASH] @ ''pard'' @ [BACKSLASH] @ ''plain'' @ [BACKSLASH] @ ''f0'' @ [BACKSLASH] @ ''fs20 ''"

definition rtf_char :: "char \<Rightarrow> string" where
  "rtf_char c =
     (if c = BACKSLASH then [BACKSLASH, BACKSLASH]
      else if c = CHR ''{'' then [BACKSLASH, CHR ''{'']
      else if c = CHR ''}'' then [BACKSLASH, CHR ''}'']
      else if c = LF then [BACKSLASH] @ ''par'' @ [LF]
      else if c = CR then []
      else [c])"

definition rtf_text :: "string \<Rightarrow> string" where
  "rtf_text s = CHR ''{'' # rtf_prologue @ concat (map rtf_char s) @ ''}''"

definition rtfFromPlainText :: "string \<Rightarrow> bytes" where
  "rtfFromPlainText s =
     (let rtf = rtf_text s
      in put32 (put32 (put32 (put32 [] (of_nat (length rtf + 12))) (of_nat (length rtf))) 0x414C454D) 0 @ bytes_of rtf)"

subsection \<open>Entry identifiers\<close>

definition kOneOffUid :: bytes where
  "kOneOffUid = [0x81, 0x2B, 0x1F, 0xA4, 0xBE, 0xA3, 0x10, 0x19, 0x9D, 0x6E, 0x00, 0xDD, 0x01, 0x0F, 0x54, 0x02]"

definition put_string :: "bytes \<Rightarrow> string \<Rightarrow> bytes" where
  "put_string e s = put16 (e @ utf8ToUtf16le s) 0"

definition oneOffEntryId :: "string \<Rightarrow> string \<Rightarrow> bytes" where
  "oneOffEntryId display email =
     put_string (put_string (put_string (put16 (put16 (put32 [] 0 @ kOneOffUid) 0) 0x1000) display) ''SMTP'') email"

definition entryId :: "bytes \<Rightarrow> nid \<Rightarrow> bytes" where
  "entryId guid n = put32 (put32 [] 0 @ guid) n"

text \<open>The store's GUID with the node folded into its last four bytes.\<close>

definition search_key :: "bytes \<Rightarrow> nid \<Rightarrow> bytes" where
  "search_key guid n = fold (\<lambda>i key. key[12 + i := (key ! (12 + i)) XOR ucast (drop_bit (8 * i) n)]) [0..<4] guid"

subsection \<open>Columns\<close>

definition recipientColumns :: "prop_tag list" where
  "recipientColumns = [PR_RECIPIENT_TYPE, PR_RESPONSIBILITY, PR_RECORD_KEY, PR_OBJECT_TYPE,
     PR_ENTRYID, PR_DISPLAY_NAME, PR_ADDRTYPE, PR_EMAIL_ADDRESS,
     PR_SEARCH_KEY, PR_DISPLAY_TYPE, PR_7BIT_DISPLAY_NAME, PR_SEND_RICH_INFO]"

definition attachmentColumns :: "prop_tag list" where
  "attachmentColumns = [PR_DISPLAY_NAME, PR_ATTACH_LONG_FILENAME, PR_ATTACH_FILENAME, PR_ATTACH_METHOD,
     PR_ATTACH_SIZE, PR_ATTACH_MIME_TAG, PR_ATTACH_NUM, PR_ATTACH_RENDERING_POS]"

subsection \<open>State\<close>

text \<open>What building a message reads and writes: the node's subnodes and the file below them, the names, the clock.\<close>

record build =
  bd_subs :: subs
  bd_names :: nameid
  bd_clock :: "nat \<Rightarrow> int"

definition bd_on_subs :: "(subs, 'a) prog \<Rightarrow> (build, 'a) prog" where
  "bd_on_subs = zoomM bd_subs (\<lambda>u s. s\<lparr>bd_subs := u\<rparr>)"

text \<open>A \<open>SubnodeAllocator\<close> of its own for a part of the message, on the same file.\<close>

definition with_subs :: "(build, 'a) prog \<Rightarrow> (build, 'a) prog" where
  "with_subs = zoomM (\<lambda>s. s\<lparr>bd_subs := SubnodeAllocator_new (sa_ndb (bd_subs s))\<rparr>)
     (\<lambda>t s. t\<lparr>bd_subs := (bd_subs s)\<lparr>sa_ndb := sa_ndb (bd_subs t)\<rparr>\<rparr>)"

definition bd_on_names :: "(nameid \<Rightarrow> 'a \<times> nameid) \<Rightarrow> (build, 'a) prog" where
  "bd_on_names f s = (case f (bd_names s) of (a, n) \<Rightarrow> Some (Inr a, s\<lparr>bd_names := n\<rparr>))"

definition nowUnix :: "(build, int) prog" where
  "nowUnix s = Some (Inr (bd_clock s 0), s\<lparr>bd_clock := (\<lambda>i. bd_clock s (Suc i))\<rparr>)"

subsection \<open>The properties of a message\<close>

type_synonym setter = "pc \<Rightarrow> pc"

definition set_all :: "setter list \<Rightarrow> pc \<Rightarrow> pc" where
  "set_all = fold (\<lambda>f. f)"

definition set_if :: "bool \<Rightarrow> setter list \<Rightarrow> setter list" where
  "set_if c fs = (if c then fs else [])"

definition body_setters :: "message_fields \<Rightarrow> setter list" where
  "body_setters m =
     set_if (body_text m \<noteq> []) [setString PR_BODY (body_text m)] @
     (if body_html m \<noteq> [] then [setBinary PR_HTML (bytes_of (body_html m))]
      else set_if (body_text m \<noteq> []) [setBinary PR_RTF_COMPRESSED (rtfFromPlainText (body_text m)), setBool PR_RTF_IN_SYNC True])"

definition text_setters :: "message_fields \<Rightarrow> setter list" where
  "text_setters m =
     [setString PR_MESSAGE_CLASS (if message_class m = [] then ''IPM.Note'' else message_class m),
      setString PR_SUBJECT (m_subject m), setString PR_CONVERSATION_TOPIC (m_subject m)] @
     body_setters m @
     [setInt32 PR_INTERNET_CPID CP_UTF8, setInt32 PR_MESSAGE_CODEPAGE CP_UTF8] @
     set_if (mb_email (m_from m) \<noteq> [] \<or> mb_name (m_from m) \<noteq> [])
       [setString PR_SENDER_NAME (display_name (m_from m)), setString PR_SENDER_EMAIL_ADDRESS (mb_email (m_from m)),
        setString PR_SENDER_ADDRTYPE ''SMTP'', setString PR_SENT_REPRESENTING_NAME (display_name (m_from m))] @
     [setString PR_DISPLAY_TO (joinMailboxes (m_to m))] @
     set_if (m_cc m \<noteq> []) [setString PR_DISPLAY_CC (joinMailboxes (m_cc m))] @
     set_if (m_bcc m \<noteq> []) [setString PR_DISPLAY_BCC (joinMailboxes (m_bcc m))]"

definition delivered :: "message_fields \<Rightarrow> int" where
  "delivered m = (if delivery_time m \<noteq> 0 then delivery_time m else m_date m)"

definition sent :: "message_fields \<Rightarrow> int" where
  "sent m = (if m_date m \<noteq> 0 then m_date m else delivery_time m)"

definition time_or_now :: "int \<Rightarrow> (build, int) prog" where
  "time_or_now t = (if t \<noteq> 0 then ret t else nowUnix)"

definition mapi_flags :: "message_fields \<Rightarrow> bool \<Rightarrow> 32 word" where
  "mapi_flags m has_attachments =
     (MSGFLAG_UNMODIFIED OR (if seen m then MSGFLAG_READ else 0) OR (if has_attachments then MSGFLAG_HASATTACH else 0)) OR
     (if m_flags m AND kFlagDraft \<noteq> 0 then MSGFLAG_UNSENT else 0)"

definition flag_setters :: "message_fields \<Rightarrow> bool \<Rightarrow> setter list" where
  "flag_setters m has_attachments =
     [setInt32 PR_MESSAGE_FLAGS (mapi_flags m has_attachments),
      setInt32 PR_FLAG_STATUS (if m_flags m AND kFlagFlagged \<noteq> 0 then FLAG_STATUS_FLAGGED else FLAG_STATUS_NONE),
      setBool PR_HASATTACH has_attachments] @
     set_if (m_flags m AND kFlagAnswered \<noteq> 0)
       [setInt32 PR_LAST_VERB_EXECUTED VERB_REPLYTOSENDER, setTime PR_LAST_VERB_EXECUTION_TIME (unixToFiletime (sent m)),
        setInt32 PR_ICON_INDEX ICON_MAIL_REPLIED]"

definition keyword_setters :: "message_fields \<Rightarrow> (build, setter list) prog" where
  "keyword_setters m =
     (if m_keywords m = [] then ret []
      else bindM (bd_on_names (idForString kPsPublicStrings ''Keywords'')) (\<lambda>i.
           ret (set_if (i \<noteq> 0) [setStringArray (makeTag i kPtMvUnicode) (m_keywords m)])))"

definition message_size :: "message_fields \<Rightarrow> 32 word" where
  "message_size m = (if m_size m \<noteq> 0 then m_size m else of_nat (length (body_text m) + length (body_html m)))"

definition id_setters :: "bytes \<Rightarrow> message_fields \<Rightarrow> nid \<Rightarrow> bool \<Rightarrow> setter list" where
  "id_setters guid m n embedded =
     [setInt32 PR_MESSAGE_SIZE (message_size m)] @
     set_if (m_message_id m \<noteq> []) [setString PR_INTERNET_MESSAGE_ID (m_message_id m)] @
     set_if (m_in_reply_to m \<noteq> []) [setString PR_IN_REPLY_TO_ID (m_in_reply_to m)] @
     set_if (\<not> embedded) [setBinary PR_ENTRYID (entryId guid n), setBinary PR_SEARCH_KEY (search_key guid n)]"

subsection \<open>Headers\<close>

text \<open>\<open>order\<close>, \<open>merged\<close> and \<open>spelling\<close>: the headers of a name, joined, in the order first seen.\<close>

record merge =
  mg_order :: "string list"
  mg_merged :: "string \<rightharpoonup> string"
  mg_spelling :: "string \<rightharpoonup> string"

definition merge_header :: "raw_header \<Rightarrow> merge \<Rightarrow> merge" where
  "merge_header h g =
     (if isStructuredHeader (rh_name h) then g
      else let key = lower (rh_name h) in
        case mg_merged g key of
          None \<Rightarrow> g\<lparr>mg_merged := (mg_merged g)(key \<mapsto> rh_value h), mg_spelling := (mg_spelling g)(key \<mapsto> rh_name h), mg_order := mg_order g @ [key]\<rparr>
        | Some v \<Rightarrow> g\<lparr>mg_merged := (mg_merged g)(key \<mapsto> (v @ [LF]) @ rh_value h)\<rparr>)"

definition merge_headers :: "raw_header list \<Rightarrow> merge" where
  "merge_headers hs = fold merge_header hs \<lparr>mg_order = [], mg_merged = Map.empty, mg_spelling = Map.empty\<rparr>"

text \<open>\<open>std::map::operator[]\<close>: an empty string for a key that is not there.\<close>

abbreviation map_at :: "(string \<rightharpoonup> string) \<Rightarrow> string \<Rightarrow> string" where
  "map_at m k \<equiv> (case m k of None \<Rightarrow> [] | Some v \<Rightarrow> v)"

primrec named_headers :: "merge \<Rightarrow> string list \<Rightarrow> pc \<Rightarrow> (build, pc) prog" where
  "named_headers g [] pc = ret pc"
| "named_headers g (key # keys) pc =
     bindM (bd_on_names (idForString kPsInternetHeaders (map_at (mg_spelling g) key))) (\<lambda>i.
     if i = 0 then ret pc
     else named_headers g keys (setString (makeTag i kPtUnicode) (map_at (mg_merged g) key) pc))"

definition applyHeaderProperties :: "pc \<Rightarrow> message_fields \<Rightarrow> (build, pc) prog" where
  "applyHeaderProperties pc m =
     (let blob = header_blob m;
          pc = set_all (set_if (blob \<noteq> []) [setString PR_TRANSPORT_MESSAGE_HEADERS blob]) pc;
          g = merge_headers (m_headers m)
      in named_headers g (mg_order g) pc)"

text \<open>Everything up to the tables.\<close>

definition message_pc :: "bytes \<Rightarrow> message_fields \<Rightarrow> bool \<Rightarrow> nid \<Rightarrow> bool \<Rightarrow> (build, pc) prog" where
  "message_pc guid m has_attachments n embedded =
     bindM (time_or_now (delivered m)) (\<lambda>created.
     bindM (time_or_now (delivered m)) (\<lambda>modified.
     bindM (keyword_setters m) (\<lambda>keywords.
     let pc = set_all (text_setters m @
           [setTime PR_MESSAGE_DELIVERY_TIME (unixToFiletime (delivered m)), setTime PR_CLIENT_SUBMIT_TIME (unixToFiletime (sent m)),
            setTime PR_CREATION_TIME (unixToFiletime created), setTime PR_LAST_MODIFICATION_TIME (unixToFiletime modified)] @
           flag_setters m has_attachments @ keywords @ id_setters guid m n embedded) []
     in applyHeaderProperties pc m)))"

subsection \<open>Recipients\<close>

definition recipient_key :: "string \<Rightarrow> string" where
  "recipient_key email = map toupper (''SMTP:'' @ email) @ [NUL]"

definition add_recipient :: "32 word \<times> 32 word \<times> mailbox \<Rightarrow> (table, unit) prog" where
  "add_recipient = (\<lambda>(row_id, type, m).
     let display = display_name m; eid = oneOffEntryId display (mb_email m) in
     bindM (addRow row_id) (\<lambda>r.
     bindM (tc_setInt32 r PR_RECIPIENT_TYPE type) (\<lambda>_.
     bindM (tc_setString r PR_DISPLAY_NAME display) (\<lambda>_.
     bindM (tc_setString r PR_7BIT_DISPLAY_NAME display) (\<lambda>_.
     bindM (tc_setString r PR_EMAIL_ADDRESS (mb_email m)) (\<lambda>_.
     bindM (tc_setString r PR_ADDRTYPE ''SMTP'') (\<lambda>_.
     bindM (tc_setInt32 r PR_OBJECT_TYPE MAPI_MAILUSER) (\<lambda>_.
     bindM (tc_setInt32 r PR_DISPLAY_TYPE DT_MAILUSER) (\<lambda>_.
     bindM (tc_setBool r PR_RESPONSIBILITY False) (\<lambda>_.
     bindM (tc_setBool r PR_SEND_RICH_INFO False) (\<lambda>_.
     bindM (tc_setBinary r PR_ENTRYID eid) (\<lambda>_.
     bindM (tc_setBinary r PR_RECORD_KEY eid) (\<lambda>_.
     tc_setBinary r PR_SEARCH_KEY (bytes_of (recipient_key (mb_email m))))))))))))))))"

text \<open>Row ids count from one, over the three lists.\<close>

definition recipients :: "message_fields \<Rightarrow> (32 word \<times> 32 word \<times> mailbox) list" where
  "recipients m =
     map (\<lambda>(i, r). (of_nat i, r)) (enumerate 1
       (map (Pair MAPI_TO) (m_to m) @ map (Pair MAPI_CC) (m_cc m) @ map (Pair MAPI_BCC) (m_bcc m)))"

definition new_table :: "prop_tag list \<Rightarrow> table" where
  "new_table columns = fold addColumn columns TableContext_new"

definition recipient_table :: "message_fields \<Rightarrow> (build, unit) prog" where
  "recipient_table m =
     bindM (local_object (new_table recipientColumns) (forM add_recipient (recipients m))) (\<lambda>rt.
     bindM (with_subs (bd_on_subs (table_node rt))) (\<lambda>(data, sub).
     bd_on_subs (add_subnode kNidRecipientTable data sub)))"

subsection \<open>Attachments\<close>

definition attachment_name :: "nat \<Rightarrow> string \<Rightarrow> string" where
  "attachment_name i filename = (if filename = [] then ''attachment'' @ to_string (i + 1) else filename)"

definition attachment_nid :: "nat \<Rightarrow> nid" where
  "attachment_nid i = makeNid kNidTypeAttachment (of_nat (i + 1))"

definition attachment_size :: "nat \<Rightarrow> 'm attachment \<Rightarrow> 32 word" where
  "attachment_size i a =
     of_nat (length (at_data a) + length (attachment_name i (at_filename a)) * 2 * 3 + length (at_content_type a) * 2 +
       length (at_content_id a) * 2 + 5 * 4)"

definition attachment_method :: "'m attachment \<Rightarrow> 32 word" where
  "attachment_method a = (if at_embedded a = None then ATTACH_BY_VALUE else ATTACH_EMBEDDED_MSG)"

definition attachment_pc :: "nat \<Rightarrow> 'm attachment \<Rightarrow> pc" where
  "attachment_pc i a =
     (let name = attachment_name i (at_filename a) in
      set_all
       ([setInt32 PR_ATTACH_METHOD (attachment_method a), setInt32 PR_ATTACH_NUM (of_nat i),
         setInt32 PR_ATTACH_RENDERING_POS 0xFFFFFFFF, setInt32 PR_OBJECT_TYPE MAPI_ATTACH, setString PR_DISPLAY_NAME name,
         setString PR_ATTACH_FILENAME name, setString PR_ATTACH_LONG_FILENAME name] @
        set_if (at_content_type a \<noteq> []) [setString PR_ATTACH_MIME_TAG (at_content_type a)] @
        set_if (at_content_id a \<noteq> []) [setString PR_ATTACH_CONTENT_ID (at_content_id a)] @
        [setInt32 PR_ATTACH_SIZE (attachment_size i a)]) [])"

definition attachment_row :: "nat \<Rightarrow> 'm attachment \<Rightarrow> (table, unit) prog" where
  "attachment_row i a =
     (let name = attachment_name i (at_filename a) in
      bindM (addRow (attachment_nid i)) (\<lambda>r.
      bindM (tc_setString r PR_DISPLAY_NAME name) (\<lambda>_.
      bindM (tc_setString r PR_ATTACH_LONG_FILENAME name) (\<lambda>_.
      bindM (tc_setString r PR_ATTACH_FILENAME name) (\<lambda>_.
      bindM (tc_setInt32 r PR_ATTACH_METHOD (attachment_method a)) (\<lambda>_.
      bindM (tc_setInt32 r PR_ATTACH_SIZE (attachment_size i a)) (\<lambda>_.
      bindM (tc_setString r PR_ATTACH_MIME_TAG (at_content_type a)) (\<lambda>_.
      bindM (tc_setInt32 r PR_ATTACH_NUM (of_nat i)) (\<lambda>_.
      tc_setInt32 r PR_ATTACH_RENDERING_POS 0xFFFFFFFF)))))))))"

definition attachment_table :: "table \<Rightarrow> (build, unit) prog" where
  "attachment_table at =
     bindM (with_subs (bd_on_subs (table_node at))) (\<lambda>(data, sub).
     bd_on_subs (add_subnode kNidAttachmentTable data sub))"

text \<open>The attachment's node: its properties, with the payload in a subnode.\<close>

definition emb_nid :: nid where
  "emb_nid = makeNid kNidTypeNormalMessage 1"

text \<open>\<open>buildMessage\<close>; the loop over the attachments is the second function.\<close>

function buildMessage :: "bytes \<Rightarrow> message \<Rightarrow> nid \<Rightarrow> bool \<Rightarrow> (build, bytes \<times> 32 word \<times> 32 word) prog"
  and build_attachments :: "bytes \<Rightarrow> nat \<Rightarrow> message attachment list \<Rightarrow> table \<Rightarrow> (build, table) prog" where
  "buildMessage guid (Message m as) n embedded =
     bindM (message_pc guid m (as \<noteq> []) n embedded) (\<lambda>pc.
     bindM (recipient_table m) (\<lambda>_.
     bindM (build_attachments guid 0 as (new_table attachmentColumns)) (\<lambda>at.
     bindM (attachment_table at) (\<lambda>_.
     bindM (bd_on_subs (pc_serialize pc)) (\<lambda>heap.
     ret (heap, mapi_flags m (as \<noteq> []), message_size m))))))"
| "build_attachments guid i [] at = ret at"
| "build_attachments guid i (a # as) at =
     bindM (with_subs
       (bindM
         (case a of Attachment filename content_type content_id inl dat (Some msg) \<Rightarrow>
            bindM (with_subs
              (bindM (buildMessage guid msg emb_nid True) (\<lambda>(heap, flags, size).
               bindM (bd_on_subs (store_heap heap)) (\<lambda>(data, sub). ret (data, sub, size))))) (\<lambda>(data, sub, size).
            bindM (bd_on_subs (add_subnode emb_nid data sub)) (\<lambda>_.
            ret (setObject PR_ATTACH_DATA_OBJ emb_nid size (attachment_pc i a))))
          | Attachment filename content_type content_id inl dat None \<Rightarrow>
            bindM (bd_on_subs (spill dat)) (\<lambda>payload.
            ret (setSpilledValue PR_ATTACH_DATA_BIN payload (attachment_pc i a)))) (\<lambda>apc.
        bd_on_subs (pc_node apc)))) (\<lambda>(data, sub).
     bindM (bd_on_subs (add_subnode (attachment_nid i) data sub)) (\<lambda>_.
     bindM (local_object at (attachment_row i a)) (\<lambda>at'.
     build_attachments guid (i + 1) as at')))"
  by pat_completeness auto
termination
  by (relation "measure (case_sum (\<lambda>(guid, m, n, embedded). size m) (\<lambda>(guid, i, as, at). size_list (size_attachment size) as))")
     auto

end
