(* ===== verification/Ndb_Btree.thy ===== *)
theory Ndb_Btree
  imports Ndb_Block
begin

section \<open>B-trees, fixed pages, header (src/pst/ndb.cpp)\<close>

text \<open>
  What \<open>finish\<close> writes: the node and block B-trees, the allocation map and page map pages, the
  density list and the header; and a reader that starts from the header of the file alone.
\<close>

subsection \<open>B-tree pages\<close>

record bref =
  br_bid :: bid
  br_ib :: nat

record branch_entry =
  bre_key :: "64 word"
  bre_bid :: bid
  bre_ib :: nat

definition entriesPerPage :: "nat \<Rightarrow> nat" where
  "entriesPerPage entry_size = kBTPageDataSize div entry_size"

text \<open>The page trailer, common to every page; pages without a signature store zero.\<close>

definition page_trailer :: "byte \<Rightarrow> 16 word \<Rightarrow> bid \<Rightarrow> bytes \<Rightarrow> bytes" where
  "page_trailer ptype sig bid page =
     (let page = page[496 := ptype, 497 := ptype];
          page = poke16 498 sig page;
          page = poke32 500 (computeCrc (take 496 page)) page
      in poke64 504 bid page)"

definition finishBTPage :: "bytes \<Rightarrow> byte \<Rightarrow> nat \<Rightarrow> nat \<Rightarrow> nat \<Rightarrow> (ndb, bref) prog" where
  "finishBTPage page ptype entry_size n level =
     (let page = page[488 := of_nat n, 489 := of_nat (entriesPerPage entry_size),
                      490 := of_nat entry_size, 491 := of_nat level]
      in bindM allocatePage (\<lambda>ib.
         bindM (next_bid False) (\<lambda>bid.
         bindM (writeAt ib (page_trailer ptype (computeSig (of_nat ib) bid) bid page)) (\<lambda>_.
         ret \<lparr>br_bid = bid, br_ib = ib\<rparr>))))"

text \<open>Entries laid out one after the other from the start of a zeroed page.\<close>

definition fill_page :: "nat \<Rightarrow> bytes list \<Rightarrow> bytes" where
  "fill_page entry_size images =
     fold (\<lambda>(i, e) page. memcpy (i * entry_size) e page) (enumerate 0 images) (replicate kPageSize 0)"

definition emitLeafPage :: "byte \<Rightarrow> nat \<Rightarrow> ('e \<Rightarrow> bytes) \<Rightarrow> 'e list \<Rightarrow> (ndb, bref) prog" where
  "emitLeafPage ptype entry_size write_entry es =
     finishBTPage (fill_page entry_size (map write_entry es)) ptype entry_size (length es) 0"

definition branch_image :: "branch_entry \<Rightarrow> bytes" where
  "branch_image e = poke64 16 (of_nat (bre_ib e)) (poke64 8 (bre_bid e) (poke64 0 (bre_key e) (replicate kSizeBTEntry 0)))"

definition emitBranchPage :: "byte \<Rightarrow> branch_entry list \<Rightarrow> nat \<Rightarrow> (ndb, bref) prog" where
  "emitBranchPage ptype entries level =
     finishBTPage (fill_page kSizeBTEntry (map branch_image entries)) ptype kSizeBTEntry (length entries) level"

definition branch_of :: "64 word \<Rightarrow> bref \<Rightarrow> branch_entry" where
  "branch_of k b = \<lparr>bre_key = k, bre_bid = br_bid b, bre_ib = br_ib b\<rparr>"

text \<open>One child of the level being built, and the branch entry that will point at it.\<close>

definition emit_leaf :: "byte \<Rightarrow> nat \<Rightarrow> ('e \<Rightarrow> 64 word) \<Rightarrow> ('e \<Rightarrow> bytes) \<Rightarrow> 'e list \<Rightarrow> (ndb, branch_entry) prog" where
  "emit_leaf ptype entry_size key_of write_entry es =
     bindM (emitLeafPage ptype entry_size write_entry es) (\<lambda>b. ret (branch_of (key_of (hd es)) b))"

definition emit_branch :: "byte \<Rightarrow> nat \<Rightarrow> branch_entry list \<Rightarrow> (ndb, branch_entry) prog" where
  "emit_branch ptype level es =
     bindM (emitBranchPage ptype es level) (\<lambda>b. ret (branch_of (bre_key (hd es)) b))"

text \<open>The loop over the levels above the leaves.\<close>

function build_levels :: "byte \<Rightarrow> nat \<Rightarrow> branch_entry list \<Rightarrow> (ndb, branch_entry list) prog" where
  "build_levels ptype level entries =
     (if length entries > 1 then
        bindM (mapM (emit_branch ptype level) (chunks (entriesPerPage kSizeBTEntry) entries)) (\<lambda>next.
          if level + 1 > 8 then throw (PstError ''B-tree grew beyond 8 levels'')
          else build_levels ptype (level + 1) next)
      else ret entries)"
  by pat_completeness auto
termination
  by (relation "measure (\<lambda>(ptype, level, entries). 9 - level)") auto

declare build_levels.simps [simp del]

definition buildBTree :: "byte \<Rightarrow> nat \<Rightarrow> ('e \<Rightarrow> 64 word) \<Rightarrow> ('e \<Rightarrow> bytes) \<Rightarrow> 'e list \<Rightarrow> (ndb, bref) prog" where
  "buildBTree ptype entry_size key_of write_entry es =
     (if es = [] then emitLeafPage ptype entry_size write_entry []
      else bindM (mapM (emit_leaf ptype entry_size key_of write_entry) (chunks (entriesPerPage entry_size) es)) (\<lambda>leaves.
           bindM (build_levels ptype 1 leaves) (\<lambda>root.
           ret \<lparr>br_bid = bre_bid (hd root), br_ib = bre_ib (hd root)\<rparr>)))"

subsection \<open>Fixed pages\<close>

text \<open>\<open>write_page\<close>: a signed page takes a BID from the counter, the others their own offset.\<close>

definition write_page :: "nat \<Rightarrow> byte \<Rightarrow> bytes \<Rightarrow> bool \<Rightarrow> (ndb, unit) prog" where
  "write_page ib ptype body signed_page =
     (let page = memcpy 0 (take 496 body) (replicate kPageSize 0)
      in bindM (if signed_page then next_bid False else ret (of_nat ib)) (\<lambda>bid.
         writeAt ib (page_trailer ptype (if signed_page then computeSig (of_nat ib) bid else 0) bid page)))"

text \<open>Free 64-byte slots of one allocation map: its zero bits.\<close>

definition free_slots :: "bytes \<Rightarrow> nat" where
  "free_slots bits =
     sum_list (map (\<lambda>b. length (filter (\<lambda>i. b AND drop_bit i 0x80 = 0) [0..<8])) bits)"

definition emitFixedPages :: "(ndb, unit) prog" where
  "emitFixedPages =
     bindM (modM (\<lambda>st. st\<lparr>amap_free := sum_list (map (\<lambda>bits. free_slots bits * kBlockAlign) (amaps st))\<rparr>)) (\<lambda>_.
     bindM (write_page kDListPos kPTypeDList (replicate 496 0) True) (\<lambda>_.
     bindM (getM amaps) (\<lambda>maps.
     bindM (forM (\<lambda>(i, bits). write_page (amap_pos i) kPTypeAMap bits False) (enumerate 0 maps)) (\<lambda>_.
     bindM (modM (\<lambda>st. st\<lparr>pmap_free := 0\<rparr>)) (\<lambda>_.
     bindM (getM file_end) (\<lambda>fe.
     forM (\<lambda>ib. write_page ib kPTypePMap (replicate 496 0xFF) False) (steps kFirstPMapPos fe kPMapSpan)))))))"

subsection \<open>Header\<close>

text \<open>\<open>rgnid\<close>: for every node type the next free index, never below \<open>kFirstUserNidIndex\<close>.\<close>

definition next_nids :: "nbt_entry list \<Rightarrow> 32 word list" where
  "next_nids nodes =
     fold (\<lambda>n v. let t = unat (nidType (ne_nid n)); candidate = nidIndex (ne_nid n) + 1
                  in if candidate > v ! t then v[t := candidate] else v)
       nodes (replicate 32 kFirstUserNidIndex)"

text \<open>The header's fields in the order the code pokes them, each with its offset.\<close>

definition header_fields :: "ndb \<Rightarrow> bref \<Rightarrow> bref \<Rightarrow> (nat \<times> bytes) list" where
  "header_fields st nbt_root bbt_root =
     (let next_bid = le_bytes 8 (makeBid (next_bid_index st) False); root = 180
      in [(0, le_bytes 4 (0x4E444221 :: 32 word)),
          (8, le_bytes 2 (0x4D53 :: 16 word)),
          (10, le_bytes 2 (23 :: 16 word)),
          (12, le_bytes 2 (19 :: 16 word)),
          (14, [0x01]), (15, [0x01]),
          (24, le_bytes 8 (0 :: 64 word)),
          (32, next_bid),
          (40, le_bytes 4 (1 :: 32 word))] @
         map (\<lambda>(i, v). (44 + i * 4, le_bytes 4 v)) (enumerate 0 (next_nids (nbt st))) @
         [(root + 0, le_bytes 4 (0 :: 32 word)),
          (root + 4, le_bytes 8 (of_nat (file_end st) :: 64 word)),
          (root + 12, le_bytes 8 (of_nat (last_amap_ib st) :: 64 word)),
          (root + 20, le_bytes 8 (of_nat (amap_free st) :: 64 word)),
          (root + 28, le_bytes 8 (of_nat (pmap_free st) :: 64 word)),
          (root + 36, le_bytes 8 (br_bid nbt_root)),
          (root + 44, le_bytes 8 (of_nat (br_ib nbt_root) :: 64 word)),
          (root + 52, le_bytes 8 (br_bid bbt_root)),
          (root + 60, le_bytes 8 (of_nat (br_ib bbt_root) :: 64 word)),
          (root + 68, [0x02]), (root + 69, [0x00]),
          (root + 70, le_bytes 2 (0 :: 16 word)),
          (256, replicate 128 0xFF),
          (384, replicate 128 0xFF),
          (512, [0x80]), (513, [0x00]),
          (516, next_bid)])"

text \<open>The two checksums come last: the full one, then the partial one.\<close>

definition header_image :: "ndb \<Rightarrow> bref \<Rightarrow> bref \<Rightarrow> bytes" where
  "header_image st nbt_root bbt_root =
     (let h = fold (\<lambda>(i, field). memcpy i field) (header_fields st nbt_root bbt_root) (replicate kHeaderSize 0);
          h = poke32 524 (computeCrc (take 516 (drop 8 h))) h
      in poke32 4 (computeCrc (take 471 (drop 8 h))) h)"

definition writeHeader :: "bref \<Rightarrow> bref \<Rightarrow> (ndb, unit) prog" where
  "writeHeader nbt_root bbt_root st = writeAt 0 (header_image st nbt_root bbt_root) st"

subsection \<open>finish\<close>

definition nbt_key :: "nbt_entry \<Rightarrow> 64 word" where
  "nbt_key e = ucast (ne_nid e)"

definition nbt_image :: "nbt_entry \<Rightarrow> bytes" where
  "nbt_image e =
     poke32 28 0 (poke32 24 (ne_parent e) (poke64 16 (ne_sub e) (poke64 8 (ne_data e)
       (poke64 0 (ucast (ne_nid e)) (replicate kSizeNBTEntry 0)))))"

definition bbt_image :: "bbt_entry \<Rightarrow> bytes" where
  "bbt_image e =
     poke32 20 0 (poke16 18 2 (poke16 16 (be_cb e) (poke64 8 (of_nat (be_ib e))
       (poke64 0 (be_bid e) (replicate kSizeBBTEntry 0)))))"

text \<open>The padding to whole allocation-map spans, and the flush and close at the end.\<close>

definition pad_file :: "(ndb, unit) prog" where
  "pad_file =
     bindM (modM (\<lambda>st. let e = kFirstAMapPos + length (amaps st) * kAMapSpan
                       in st\<lparr>file_end := if e < cursor st then cursor st else e\<rparr>)) (\<lambda>_.
     bindM (getM file_end) (\<lambda>fe.
     bindM (getM cursor) (\<lambda>cur.
       if fe > cur then writeAt cur (replicate (fe - cur) 0) else ret ())))"

definition flush_close :: "(ndb, unit) prog" where
  "flush_close st =
     (let d = disk st
      in if dk_failed d \<or> \<not> dk_accepts d (dk_size d) 0
         then Some (Inl (PstError ''failed flushing PST file''), st\<lparr>disk := d\<lparr>dk_failed := True\<rparr>\<rparr>)
         else Some (Inr (), st\<lparr>disk := d\<lparr>dk_failed := True\<rparr>\<rparr>))"

definition finish :: "(ndb, unit) prog" where
  "finish =
     bindM (getM ndb_finished) (\<lambda>fin. if fin then ret ()
     else
       bindM (modM (\<lambda>st. st\<lparr>ndb_finished := True, bbt := sort_key be_bid (bbt st), nbt := sort_key ne_nid (nbt st)\<rparr>)) (\<lambda>_.
       bindM (getM nbt) (\<lambda>nodes.
       bindM (buildBTree kPTypeNBT kSizeNBTEntry nbt_key nbt_image nodes) (\<lambda>nbt_root.
       bindM (getM bbt) (\<lambda>blocks.
       bindM (buildBTree kPTypeBBT kSizeBBTEntry be_bid bbt_image blocks) (\<lambda>bbt_root.
       bindM pad_file (\<lambda>_.
       bindM emitFixedPages (\<lambda>_.
       bindM (writeHeader nbt_root bbt_root) (\<lambda>_.
       flush_close)))))))))"


subsection \<open>What later writes leave alone\<close>

text \<open>Bytes that hold blocks and tree pages: above the fixed region, below a bound, outside the
  reserved pages. Two files agree up to the bound when these bytes are the same.\<close>

definition agree :: "disk \<Rightarrow> disk \<Rightarrow> nat \<Rightarrow> bool" where
  "agree d d' hi \<longleftrightarrow> (\<forall>a. kFirstDataPos \<le> a \<longrightarrow> a < hi \<longrightarrow>
     \<not> isReservedPage (a div kPageSize * kPageSize) \<longrightarrow> dk_bytes d' a = dk_bytes d a)"

lemma agree_refl [simp]: "agree d d hi"
  by (simp add: agree_def)

lemma agree_trans: "agree d d' hi \<Longrightarrow> agree d' d'' hi' \<Longrightarrow> hi \<le> hi' \<Longrightarrow> agree d d'' hi"
  by (simp add: agree_def)

lemma agree_slice:
  assumes ag: "agree d d' hi" and clear: "clear_of_reserved ib n"
    and ib: "kFirstDataPos \<le> ib" "ib + n \<le> hi"
  shows "disk_slice ib n d' = disk_slice ib n d"
proof -
  have "dk_bytes d' a = dk_bytes d a" if a: "ib \<le> a" "a < ib + n" for a
  proof -
    have fl: "a div 512 * 512 \<le> a" "a < a div 512 * 512 + 512"
      using div_mult_mod_eq [of a 512] mod_less_divisor [of 512 a] by linarith+
    have "\<not> isReservedPage (a div 512 * 512)"
    proof
      assume "isReservedPage (a div 512 * 512)"
      then have "a div 512 * 512 + 512 \<le> ib \<or> ib + n \<le> a div 512 * 512"
        using clear by (simp add: clear_of_reserved_def)
      then show False using fl a by linarith
    qed
    then show ?thesis using ag a ib by (simp add: agree_def)
  qed
  then show ?thesis by (auto simp: disk_slice_def)
qed

text \<open>A growing writer: more pages, the same tables, old data untouched.\<close>

definition grows :: "ndb \<Rightarrow> ndb \<Rightarrow> bool" where
  "grows st st' \<longleftrightarrow> cursor st \<le> cursor st' \<and> agree (disk st) (disk st') (cursor st) \<and>
     bbt st' = bbt st \<and> nbt st' = nbt st \<and> ndb_finished st' = ndb_finished st"

lemma grows_refl [simp]: "grows st st"
  by (simp add: grows_def)

lemma grows_trans: "grows a b \<Longrightarrow> grows b c \<Longrightarrow> grows a c"
  unfolding grows_def by (auto intro: agree_trans)

subsection \<open>Reading pages back\<close>

text \<open>The level, entry size and entries of a page that passes every trailer check.\<close>

definition read_page :: "disk \<Rightarrow> byte \<Rightarrow> bref \<Rightarrow> (nat \<times> nat \<times> bytes list) option" where
  "read_page d ptype br =
     (let page = disk_slice (br_ib br) kPageSize d;
          n = unat (page ! 488); entry_size = unat (page ! 490)
      in if page ! 496 = ptype \<and> page ! 497 = ptype \<and>
            peek16 (drop 498 page) = computeSig (of_nat (br_ib br)) (br_bid br) \<and>
            peek32 (drop 500 page) = computeCrc (take 496 page) \<and>
            peek64 (drop 504 page) = br_bid br \<and>
            page ! 489 = of_nat (entriesPerPage entry_size) \<and> n \<le> entriesPerPage entry_size
         then Some (unat (page ! 491), entry_size, chunks entry_size (take (n * entry_size) page))
         else None)"

definition page_at :: "disk \<Rightarrow> nat \<Rightarrow> byte \<Rightarrow> bref \<Rightarrow> nat \<Rightarrow> nat \<Rightarrow> bytes list \<Rightarrow> bool" where
  "page_at d hi ptype br level entry_size images \<longleftrightarrow>
     read_page d ptype br = Some (level, entry_size, images) \<and>
     kFirstDataPos \<le> br_ib br \<and> br_ib br + kPageSize \<le> hi \<and> kPageSize dvd br_ib br \<and>
     clear_of_reserved (br_ib br) kPageSize \<and> br_ib br < 2 ^ 63"

lemma page_at_agree:
  assumes "page_at d hi ptype br level n images" "agree d d' hi" "hi \<le> hi'"
  shows "page_at d' hi' ptype br level n images"
proof -
  have "disk_slice (br_ib br) kPageSize d' = disk_slice (br_ib br) kPageSize d"
    using assms(1,2) by (intro agree_slice [of _ _ hi]) (simp_all add: page_at_def)
  then show ?thesis using assms(1,3) by (simp add: page_at_def read_page_def)
qed

lemma page_trailer_eq:
  assumes "length page = 512"
  shows "page_trailer ptype sig bid page =
    take 496 page @ [ptype, ptype] @ le_bytes 2 sig @ le_bytes 4 (computeCrc (take 496 page)) @ le_bytes 8 bid"
proof -
  define P where "P = take 496 page"
  define R where "R = drop 498 page"
  have P: "length P = 496" and R: "length R = 14" using assms by (simp_all add: P_def R_def)
  have pq: "page = P @ page ! 496 # page ! 497 # R"
  proof -
    have "drop 496 page = page ! 496 # page ! 497 # R"
      using Cons_nth_drop_Suc [of 496 page] Cons_nth_drop_Suc [of 497 page] assms by (simp add: R_def)
    then show ?thesis unfolding P_def by (metis append_take_drop_id)
  qed
  define T :: bytes where "T = P @ [ptype, ptype]"
  have T: "length T = 498" by (simp add: T_def P)
  have 0: "page[496 := ptype, 497 := ptype] = T @ take 2 R @ take 4 (drop 2 R) @ drop 6 R"
  proof -
    have "R = take 2 R @ take 4 (drop 2 R) @ drop 6 R"
      by (metis append_take_drop_id drop_drop numeral_plus_numeral add_num_simps)
    moreover have "page[496 := ptype, 497 := ptype] = T @ R"
      by (subst pq) (simp add: list_update_append P T_def)
    ultimately show ?thesis by simp
  qed
  have 1: "poke16 498 v (T @ a @ r) = T @ le_bytes 2 v @ r" if "length a = 2" for a r v
    unfolding poke16_def by (rule memcpy_append) (simp_all add: T that)
  have 2: "poke32 500 v (T @ a @ b @ r) = T @ a @ le_bytes 4 v @ r" if "length a = 2" "length b = 4" for a b r v
    using memcpy_append [of "T @ a" 500 b "le_bytes 4 v" r] that T by (simp add: poke32_def)
  have 3: "poke64 504 v (T @ a @ b @ r) = T @ a @ b @ le_bytes 8 v"
    if "length a = 2" "length b = 4" "length r = 8" for a b r v
    using memcpy_append [of "T @ a @ b" 504 r "le_bytes 8 v" "[]"] that T by (simp add: poke64_def)
  have take: "take 496 (T @ r) = P" for r by (simp add: T_def P)
  show ?thesis
    unfolding page_trailer_def Let_def 0 by (simp add: 1 2 3 take R) (simp add: T_def P_def assms)
qed

lemma length_page_trailer [simp]: "length page = 512 \<Longrightarrow> length (page_trailer ptype sig bid page) = 512"
  by (simp add: page_trailer_eq)

lemma fill_page_eq:
  assumes "\<forall>e \<in> set images. length e = n" "length images * n \<le> 512"
  shows "fill_page n images = concat images @ replicate (512 - length images * n) 0"
proof -
  have "fold (\<lambda>(i, e) page. memcpy (i * n) e page) (enumerate k images) (A @ replicate (length images * n + m) 0) =
      A @ concat images @ replicate m 0"
    if "length A = k * n" "\<forall>e \<in> set images. length e = n" for k A m and images :: "bytes list"
    using that
  proof (induction images arbitrary: k A)
    case (Cons e es)
    have "memcpy (k * n) e (A @ replicate (length (e # es) * n + m) 0) = A @ e @ replicate (length es * n + m) 0"
      using Cons.prems memcpy_append [of A "k * n" "replicate n 0" e "replicate (length es * n + m) 0"]
      by (simp add: replicate_add [symmetric] add.assoc)
    then show ?case using Cons.IH [of "A @ e" "Suc k"] Cons.prems by simp
  qed simp
  from this [of "[]" 0 images "512 - length images * n"] show ?thesis
    using assms by (simp add: fill_page_def)
qed

text \<open>What \<open>finishBTPage\<close> does when it returns.\<close>

lemma finishBTPage_image:
  fixes images :: "bytes list"
  assumes images: "\<forall>e \<in> set images. length e = n" and n: "2 \<le> n" "n < 256"
    and count: "length images \<le> entriesPerPage n" and level: "level < 256"
    and img: "disk_slice ib kPageSize d = page_trailer ptype (computeSig (of_nat ib) bid) bid
       ((fill_page n images)[488 := of_nat (length images), 489 := of_nat (entriesPerPage n),
                             490 := of_nat n, 491 := of_nat level])"
  shows "read_page d ptype \<lparr>br_bid = bid, br_ib = ib\<rparr> = Some (level, n, images)"
proof -
  have le: "length images * n \<le> 488"
    using mult_le_mono1 [OF count [unfolded entriesPerPage_def], of n] div_times_less_eq_dividend [of 488 n]
    by linarith
  have ep: "entriesPerPage n \<le> 244" unfolding entriesPerPage_def using div_le_mono2 [of 2 n 488] n by simp
  let ?body = "(fill_page n images)[488 := of_nat (length images), 489 := of_nat (entriesPerPage n),
                             490 := of_nat n, 491 := of_nat level]"
  have fill: "fill_page n images = concat images @ replicate (512 - length images * n) 0"
    using images le by (intro fill_page_eq) simp_all
  have len: "length (concat images) = n * length images"
    using length_concat_const [of images "\<lambda>x. x" n] images by simp
  have lb: "length ?body = 512" using le by (simp add: fill len mult.commute)
  note page = page_trailer_eq [OF lb, of ptype "computeSig (of_nat ib) bid" bid]
  define page where "page = page_trailer ptype (computeSig (of_nat ib) bid) bid ?body"
  have t: "take 496 page = take 496 ?body" and f: "page ! 496 = ptype" "page ! 497 = ptype"
    "drop 498 page = le_bytes 2 (computeSig (of_nat ib) bid) @ le_bytes 4 (computeCrc (take 496 page)) @ le_bytes 8 bid"
    unfolding page_def page using lb by (simp_all add: nth_append)
  have f2: "drop 500 page = le_bytes 4 (computeCrc (take 496 page)) @ le_bytes 8 bid"
      "drop 504 page = le_bytes 8 bid"
    using arg_cong [OF f(3), of "drop 2"] arg_cong [OF f(3), of "drop 6"] by simp_all
  have nth: "page ! i = ?body ! i" if "i < 496" for i
    using arg_cong [OF t, of "\<lambda>l. l ! i"] that by simp
  have meta: "page ! 488 = of_nat (length images)" "page ! 489 = of_nat (entriesPerPage n)"
      "page ! 490 = of_nat n" "page ! 491 = of_nat level"
    using lb by (simp_all add: nth)
  have tk: "take (length images * n) page = concat images"
  proof -
    have "take (length images * n) page = take (length images * n) (take 496 page)" using le by simp
    also have "\<dots> = take (length images * n) ?body" unfolding t using le by simp
    also have "\<dots> = concat images" using le by (simp add: fill len mult.commute)
    finally show ?thesis .
  qed
  have u: "unat (page ! 488) = length images" "unat (page ! 490) = n" "unat (page ! 491) = level"
    using meta n level count ep by (simp_all add: unat_small)
  have ch: "chunks n (concat images) = images"
    using chunks_concat_const [of n images "\<lambda>x. x"] images n(1) by simp
  show ?thesis
    unfolding read_page_def Let_def bref.simps img page_def [symmetric] u tk ch
    using f f2 meta(2) count by simp
qed


definition entries_fit :: "nat \<Rightarrow> bytes list \<Rightarrow> bool" where
  "entries_fit n images \<longleftrightarrow>
     2 \<le> n \<and> n < 256 \<and> (\<forall>e \<in> set images. length e = n) \<and> length images \<le> entriesPerPage n"

lemma finishBTPage_law:
  assumes ok: "store_ok st" and fit: "entries_fit n images" and level: "level < 256"
    and run: "finishBTPage (fill_page n images) ptype n (length images) level st = Some (r, st')"
  shows "store_ok st' \<and> grows st st' \<and>
    (\<forall>br. r = Inr br \<longrightarrow> page_at (disk st') (cursor st') ptype br level n images)"
proof -
  have space: "space_ok st" using ok by (simp add: store_ok_def)
  obtain ib st1 where a: "allocatePage st = Some (Inr ib, st1)" "allocated kPageSize st ib st1" "kPageSize dvd ib"
    using allocatePage_spec [OF space] by blast
  have f: "next_bid_index st1 = next_bid_index st" "bbt st1 = bbt st" "nbt st1 = nbt st" "disk st1 = disk st"
      "ndb_finished st1 = ndb_finished st" "space_ok st1" "cursor st1 = ib + 512" "cursor st \<le> ib"
      "clear_of_reserved ib 512"
    using a(2) by (simp_all add: allocated_def same_but_maps_def)
  let ?bid = "makeBid (next_bid_index st) False"
  let ?page = "(fill_page n images)[488 := of_nat (length images), 489 := of_nat (entriesPerPage n),
                             490 := of_nat n, 491 := of_nat level]"
  let ?im = "page_trailer ptype (computeSig (of_nat ib) ?bid) ?bid ?page"
  let ?st2 = "st1\<lparr>next_bid_index := next_bid_index st + 1\<rparr>"
  have le: "length images * n \<le> 488"
  proof -
    have "length images \<le> 488 div n" using fit by (simp add: entries_fit_def entriesPerPage_def)
    from mult_le_mono1 [OF this, of n] div_times_less_eq_dividend [of 488 n] show ?thesis by linarith
  qed
  have lenp: "length ?page = 512"
    using fill_page_eq [of images n] fit le length_concat_const [of images "\<lambda>x. x" n]
    by (simp add: entries_fit_def mult.commute)
  have idx: "unat (next_bid_index st + 1) * 64 \<le> ib + 512"
    using unat_succ_le [of "next_bid_index st"] ok f(8) by (simp add: store_ok_def)
  have size: "dk_size (disk st) \<le> ib" and base: "kFirstDataPos \<le> ib"
    using ok f(8) by (auto simp: store_ok_def space_ok_def)
  have space2: "space_ok (?st2\<lparr>disk := d\<rparr>)" for d using f(6) by (simp add: space_ok_def maps_ok_def)
  show ?thesis
  proof (cases "dk_failed (disk st) \<or> 2 ^ 63 \<le> ib \<or> \<not> dk_accepts (disk st) ib (length ?im)")
    case True
    let ?st' = "?st2\<lparr>disk := (disk st)\<lparr>dk_failed := True\<rparr>\<rparr>"
    have eq: "r = Inl (PstError ''short write to PST file'')" "st' = ?st'"
      using run a(1) f True
      by (auto simp: finishBTPage_def Let_def bindM_def next_bid_def writeAt_def)
    have "store_ok ?st'"
      using store_ok_frame(1) [OF ok, of ?st'] space2 f idx size by simp
    moreover have "grows st ?st'" using f by (simp add: grows_def agree_def)
    ultimately show ?thesis using eq by simp
  next
    case wr: False
    let ?st' = "?st2\<lparr>disk := disk_put ib ?im (disk st)\<rparr>"
    have eq: "r = Inr \<lparr>br_bid = ?bid, br_ib = ib\<rparr>" "st' = ?st'"
      using run a(1) f wr
      by (auto simp: finishBTPage_def Let_def bindM_def next_bid_def writeAt_def ret_def)
    have small: "unat (next_bid_index st) < 2 ^ 57" using ok f(8) wr by (simp add: store_ok_def)
    have below: "dk_bytes (disk ?st') x = dk_bytes (disk st) x" if "x < cursor st" for x
      using that f(8) by (simp add: disk_put_def)
    have "?im \<noteq> []" using length_page_trailer [OF lenp] by (metis list.size(3) zero_neq_numeral)
    then have "store_ok ?st'"
      using store_ok_frame(1) [OF ok, of ?st'] space2 f idx size wr below lenp index_step(2) [OF small]
      by (simp add: disk_put_def less_imp_le)
    moreover have "grows st ?st'" using f below by (simp add: grows_def agree_def)
    moreover have "read_page (disk ?st') ptype \<lparr>br_bid = ?bid, br_ib = ib\<rparr> = Some (level, n, images)"
    proof (rule finishBTPage_image)
      show "disk_slice ib kPageSize (disk ?st') = ?im"
        using disk_slice_put_same [of ib ?im "disk st"] lenp by simp
    qed (use fit level in \<open>simp_all add: entries_fit_def\<close>)
    ultimately show ?thesis using eq f a(3) wr base by (simp add: page_at_def)
  qed
qed

subsection \<open>Trees\<close>

text \<open>
  The tree of \<open>l\<close> levels under a page reference holds the entries \<open>es\<close>, in order: leaves hold
  their images, branches the first key of each child and the reference to it.
\<close>

fun represents :: "disk \<Rightarrow> nat \<Rightarrow> byte \<Rightarrow> nat \<Rightarrow> ('e \<Rightarrow> 64 word) \<Rightarrow> ('e \<Rightarrow> bytes) \<Rightarrow> nat \<Rightarrow> bref \<Rightarrow> 'e list \<Rightarrow> bool" where
  "represents d hi ptype n key im 0 br es \<longleftrightarrow> page_at d hi ptype br 0 n (map im es)"
| "represents d hi ptype n key im (Suc l) br es \<longleftrightarrow>
     (\<exists>bes ess. page_at d hi ptype br (Suc l) kSizeBTEntry (map branch_image bes) \<and> bes \<noteq> [] \<and> es = concat ess \<and>
        list_all2 (\<lambda>be sub. sub \<noteq> [] \<and> bre_key be = key (hd sub) \<and> bre_ib be < 2 ^ 63 \<and>
           represents d hi ptype n key im l \<lparr>br_bid = bre_bid be, br_ib = bre_ib be\<rparr> sub) bes ess)"

lemma represents_agree:
  assumes "agree d d' hi" "hi \<le> hi'"
  shows "represents d hi ptype n key im l br es \<Longrightarrow> represents d' hi' ptype n key im l br es"
proof (induction l arbitrary: br es)
  case 0
  then show ?case using page_at_agree [OF _ assms] by simp
next
  case (Suc l)
  then obtain bes ess where *: "page_at d hi ptype br (Suc l) kSizeBTEntry (map branch_image bes)" "bes \<noteq> []"
      "es = concat ess"
      "list_all2 (\<lambda>be sub. sub \<noteq> [] \<and> bre_key be = key (hd sub) \<and> bre_ib be < 2 ^ 63 \<and>
           represents d hi ptype n key im l \<lparr>br_bid = bre_bid be, br_ib = bre_ib be\<rparr> sub) bes ess"
    by auto
  have "list_all2 (\<lambda>be sub. sub \<noteq> [] \<and> bre_key be = key (hd sub) \<and> bre_ib be < 2 ^ 63 \<and>
           represents d' hi' ptype n key im l \<lparr>br_bid = bre_bid be, br_ib = bre_ib be\<rparr> sub) bes ess"
    using *(4) by (rule list_all2_mono) (use Suc.IH in blast)
  then show ?case using * page_at_agree [OF *(1) assms] by auto
qed

text \<open>A branch entry stands for a non-empty subtree.\<close>

definition stands :: "disk \<Rightarrow> nat \<Rightarrow> byte \<Rightarrow> nat \<Rightarrow> ('e \<Rightarrow> 64 word) \<Rightarrow> ('e \<Rightarrow> bytes) \<Rightarrow> nat \<Rightarrow> branch_entry \<Rightarrow> 'e list \<Rightarrow> bool" where
  "stands d hi ptype n key im l be sub \<longleftrightarrow> sub \<noteq> [] \<and> bre_key be = key (hd sub) \<and> bre_ib be < 2 ^ 63 \<and>
     represents d hi ptype n key im l \<lparr>br_bid = bre_bid be, br_ib = bre_ib be\<rparr> sub"

lemma represents_Suc:
  "represents d hi ptype n key im (Suc l) br es \<longleftrightarrow>
     (\<exists>bes ess. page_at d hi ptype br (Suc l) kSizeBTEntry (map branch_image bes) \<and> bes \<noteq> [] \<and> es = concat ess \<and>
        list_all2 (stands d hi ptype n key im l) bes ess)"
  by (simp add: stands_def [abs_def])

lemma stands_grows:
  "stands (disk st) (cursor st) ptype n key im l be sub \<Longrightarrow> grows st st' \<Longrightarrow>
   stands (disk st') (cursor st') ptype n key im l be sub"
  using represents_agree unfolding stands_def grows_def by metis

lemma represents_ib: "represents d hi ptype n key im l br es \<Longrightarrow> br_ib br < 2 ^ 63"
  by (cases l) (auto simp: page_at_def)

lemma stands_branch_of:
  "represents d hi ptype n key im l br es \<Longrightarrow> es \<noteq> [] \<Longrightarrow>
   stands d hi ptype n key im l (branch_of (key (hd es)) br) es"
  using represents_ib [of d hi ptype n key im l br es]
  by (cases br) (simp add: stands_def branch_of_def)

definition tree_entry :: "nat \<Rightarrow> ('e \<Rightarrow> bytes) \<Rightarrow> bool" where
  "tree_entry n im \<longleftrightarrow> 24 \<le> n \<and> n < 256 \<and> (\<forall>e. length (im e) = n)"

lemma emitLeafPage_law:
  assumes ok: "store_ok st" and te: "tree_entry n im" and len: "length es \<le> entriesPerPage n"
    and run: "emitLeafPage ptype n im es st = Some (r, st')"
  shows "store_ok st' \<and> grows st st' \<and>
    (\<forall>br. r = Inr br \<longrightarrow> represents (disk st') (cursor st') ptype n key im 0 br es)"
proof -
  have "entries_fit n (map im es)" using te len by (auto simp: entries_fit_def tree_entry_def)
  from finishBTPage_law [OF ok this, of 0 ptype r st'] run show ?thesis by (simp add: emitLeafPage_def)
qed

lemma emit_leaf_law:
  assumes ok: "store_ok st" and te: "tree_entry n im" and len: "es \<noteq> []" "length es \<le> entriesPerPage n"
    and run: "emit_leaf ptype n key im es st = Some (r, st')"
  shows "store_ok st' \<and> grows st st' \<and>
    (\<forall>be. r = Inr be \<longrightarrow> stands (disk st') (cursor st') ptype n key im 0 be es)"
proof (cases r)
  case (Inl e)
  then have "emitLeafPage ptype n im es st = Some (Inl e, st')"
    using run by (auto simp: emit_leaf_def bindM_Inl_iff ret_run)
  from emitLeafPage_law [OF ok te len(2) this] show ?thesis using Inl by simp
next
  case (Inr be)
  then obtain br where br: "emitLeafPage ptype n im es st = Some (Inr br, st')" "be = branch_of (key (hd es)) br"
    using run by (auto simp: emit_leaf_def bindM_Inr_iff ret_run)
  from emitLeafPage_law [OF ok te len(2) br(1), of key]
  have "store_ok st' \<and> grows st st' \<and> represents (disk st') (cursor st') ptype n key im 0 br es" by simp
  then show ?thesis using Inr br(2) stands_branch_of [OF _ len(1)] by blast
qed

lemma branch_image_eq:
  "branch_image e = le_bytes 8 (bre_key e) @ le_bytes 8 (bre_bid e) @ le_bytes 8 (of_nat (bre_ib e) :: 64 word)"
  by (simp add: branch_image_def poke64_def memcpy_def)

lemma emit_branch_law:
  assumes ok: "store_ok st" and len: "bes \<noteq> []" "length bes \<le> entriesPerPage kSizeBTEntry" and l: "Suc l < 256"
    and kids: "list_all2 (stands (disk st) (cursor st) ptype n key im l) bes ess"
    and run: "emit_branch ptype (Suc l) bes st = Some (r, st')"
  shows "store_ok st' \<and> grows st st' \<and>
    (\<forall>be. r = Inr be \<longrightarrow> stands (disk st') (cursor st') ptype n key im (Suc l) be (concat ess))"
proof -
  have fit: "entries_fit kSizeBTEntry (map branch_image bes)"
    using len by (simp add: entries_fit_def branch_image_eq)
  show ?thesis
  proof (cases r)
    case (Inl e)
    then have "emitBranchPage ptype bes (Suc l) st = Some (Inl e, st')"
      using run by (auto simp: emit_branch_def bindM_Inl_iff ret_run)
    then show ?thesis using Inl finishBTPage_law [OF ok fit l] by (fastforce simp: emitBranchPage_def)
  next
    case (Inr be)
    then obtain br where br: "emitBranchPage ptype bes (Suc l) st = Some (Inr br, st')"
        "be = branch_of (bre_key (hd bes)) br"
      using run by (auto simp: emit_branch_def bindM_Inr_iff ret_run)
    have law: "store_ok st' \<and> grows st st' \<and> page_at (disk st') (cursor st') ptype br (Suc l) 24 (map branch_image bes)"
      using finishBTPage_law [OF ok fit l, of ptype "Inr br" st'] br(1) by (simp add: emitBranchPage_def)
    have kids': "list_all2 (stands (disk st') (cursor st') ptype n key im l) bes ess"
      using kids by (rule list_all2_mono) (use law stands_grows in blast)
    obtain b bs e es where hd: "bes = b # bs" "ess = e # es"
      using kids len(1) by (cases bes; cases ess) auto
    then have "e \<noteq> []" "bre_key b = key (hd e)" using kids by (auto simp: stands_def)
    then have "concat ess \<noteq> []" "bre_key (hd bes) = key (hd (concat ess))" using hd by simp_all
    moreover have "represents (disk st') (cursor st') ptype n key im (Suc l) br (concat ess)"
      unfolding represents_Suc using law kids' len(1) by blast
    ultimately show ?thesis using law Inr br(2) stands_branch_of by (metis sum.inject(2))
  qed
qed


text \<open>One level over another, and the loop.\<close>

lemma emit_branches_law:
  assumes ok: "store_ok st" and l: "Suc l < 256"
    and kids: "list_all2 (stands (disk st) (cursor st) ptype n key im l) bes ess"
    and run: "mapM (emit_branch ptype (Suc l)) (chunks (entriesPerPage kSizeBTEntry) bes) st = Some (Inr ups, st')"
  shows "store_ok st' \<and> grows st st' \<and>
    list_all2 (stands (disk st') (cursor st') ptype n key im (Suc l)) ups
      (map concat (chunks (entriesPerPage kSizeBTEntry) ess))"
proof -
  let ?F = "entriesPerPage kSizeBTEntry"
  let ?I = "\<lambda>s. store_ok s \<and> grows st s"
  let ?R = "\<lambda>s chunk be. \<forall>subs. list_all2 (stands (disk st) (cursor st) ptype n key im l) chunk subs \<longrightarrow>
      stands (disk s) (cursor s) ptype n key im (Suc l) be (concat subs)"
  have "(store_ok st' \<and> grows st st') \<and> grows st st' \<and> list_all2 (?R st') (chunks ?F bes) ups"
  proof (rule mapM_relates [where I = ?I and G = grows and R = ?R, OF _ grows_refl grows_trans _ _ run])
    fix chunk s be s'
    assume c: "chunk \<in> set (chunks ?F bes)" and I: "?I s" and r: "emit_branch ptype (Suc l) chunk s = Some (Inr be, s')"
    have ne: "chunk \<noteq> []" "length chunk \<le> ?F" using chunks_bounds [OF c] by simp_all
    obtain subs0 where subs0: "list_all2 (stands (disk st) (cursor st) ptype n key im l) chunk subs0"
      using chunks_list_all2 [OF kids, of ?F] c by (auto simp: list_all2_conv_all_nth in_set_conv_nth)
    have law: "store_ok s' \<and> grows s s' \<and> stands (disk s') (cursor s') ptype n key im (Suc l) be (concat subs)"
      if "list_all2 (stands (disk st) (cursor st) ptype n key im l) chunk subs" for subs
    proof -
      have "list_all2 (stands (disk s) (cursor s) ptype n key im l) chunk subs"
        using that by (rule list_all2_mono) (use I stands_grows in blast)
      from emit_branch_law [OF _ ne l this r] I show ?thesis by simp
    qed
    show "?I s' \<and> grows s s' \<and> ?R s' chunk be"
      using law subs0 I grows_trans by blast
  next
    show "?R s x y \<Longrightarrow> grows s s' \<Longrightarrow> ?R s' x y" for s s' x y using stands_grows by blast
    show "?I st" using ok by simp
  qed
  then have "list_all2 (?R st') (chunks ?F bes) ups" and *: "store_ok st'" "grows st st'" by simp_all
  moreover have "list_all2 (list_all2 (stands (disk st) (cursor st) ptype n key im l)) (chunks ?F bes) (chunks ?F ess)"
    by (rule chunks_list_all2 [OF kids])
  ultimately have "list_all2 (stands (disk st') (cursor st') ptype n key im (Suc l)) ups (map concat (chunks ?F ess))"
    by (simp add: list_all2_conv_all_nth)
  with * show ?thesis by simp
qed

lemma build_levels_law:
  assumes "store_ok st" "Suc l \<le> 8" "list_all2 (stands (disk st) (cursor st) ptype n key im l) bes ess" "bes \<noteq> []"
    and "build_levels ptype (Suc l) bes st = Some (Inr out, st')"
  shows "store_ok st' \<and> grows st st' \<and>
    (\<exists>be l'. out = [be] \<and> l' < 8 \<and> stands (disk st') (cursor st') ptype n key im l' be (concat ess))"
  using assms
proof (induction "9 - l" arbitrary: l bes ess st rule: less_induct)
  case less
  let ?F = "entriesPerPage kSizeBTEntry"
  have F: "0 < ?F" by (simp add: entriesPerPage_def)
  show ?case
  proof (cases "1 < length bes")
    case True
    then obtain ups st1 where up: "mapM (emit_branch ptype (Suc l)) (chunks ?F bes) st = Some (Inr ups, st1)"
        and next8: "Suc (Suc l) \<le> 8" and rest: "build_levels ptype (Suc (Suc l)) ups st1 = Some (Inr out, st')"
      using less.prems(5)
      by (subst (asm) build_levels.simps) (auto simp: bindM_Inr_iff throw_run split: if_splits)
    note law = emit_branches_law [OF less.prems(1) _ less.prems(3) up]
    have ne: "ups \<noteq> []" using mapM_length [OF up] F less.prems(4) by (auto simp: chunks_eq_Nil)
    have "concat (map concat (chunks ?F ess)) = concat ess"
      by (simp only: concat_concats concat_chunks [OF F])
    then show ?thesis
      using less.hyps [of "Suc l" st1 ups "map concat (chunks ?F ess)"] law less.prems(2) next8 ne rest grows_trans
      by auto
  next
    case False
    then obtain be e where 1: "bes = [be]" "ess = [e]"
      using less.prems(3,4) by (cases bes; cases ess) auto
    have out: "out = bes" "st' = st"
      using less.prems(5) False by (simp_all add: build_levels.simps [of ptype "Suc l"] ret_run)
    show ?thesis using less.prems 1 out by (auto intro: exI [of _ l])
  qed
qed


lemma buildBTree_law:
  assumes ok: "store_ok st" and te: "tree_entry n im"
    and run: "buildBTree ptype n key im es st = Some (Inr br, st')"
  shows "store_ok st' \<and> grows st st' \<and>
    (\<exists>l < 8. represents (disk st') (cursor st') ptype n key im l br es)"
proof (cases "es = []")
  case True
  then have "emitLeafPage ptype n im [] st = Some (Inr br, st')" using run by (simp add: buildBTree_def)
  from emitLeafPage_law [OF ok te _ this, of key] True show ?thesis by (auto intro: exI [of _ 0])
next
  case False
  let ?F = "entriesPerPage n"
  have F: "0 < ?F" using te div_le_mono2 [of n 255 488] by (simp add: tree_entry_def entriesPerPage_def div_greater_zero_iff)
  obtain leaves st1 out where l: "mapM (emit_leaf ptype n key im) (chunks ?F es) st = Some (Inr leaves, st1)"
      "build_levels ptype (Suc 0) leaves st1 = Some (Inr out, st')"
      "br = \<lparr>br_bid = bre_bid (hd out), br_ib = bre_ib (hd out)\<rparr>"
    using run False by (auto simp: buildBTree_def bindM_Inr_iff ret_run)
  let ?R = "\<lambda>s chunk be. stands (disk s) (cursor s) ptype n key im 0 be chunk"
  have "store_ok st1 \<and> grows st st1 \<and> list_all2 (?R st1) (chunks ?F es) leaves"
  proof (rule mapM_relates [where I = store_ok and G = grows and R = ?R, OF _ grows_refl grows_trans _ ok l(1)])
    fix c s be s'
    assume "c \<in> set (chunks ?F es)" "store_ok s" "emit_leaf ptype n key im c s = Some (Inr be, s')"
    then show "store_ok s' \<and> grows s s' \<and> ?R s' c be"
      using emit_leaf_law [of s n im c ptype key "Inr be" s'] te chunks_bounds [of c ?F es] by simp
  next
    show "?R s x y \<Longrightarrow> grows s s' \<Longrightarrow> ?R s' x y" for s s' x y using stands_grows by blast
  qed
  then have 1: "store_ok st1" "grows st st1"
      "list_all2 (stands (disk st1) (cursor st1) ptype n key im 0) leaves (chunks ?F es)"
    by (auto simp: list_all2_conv_all_nth)
  have "leaves \<noteq> []" using mapM_length [OF l(1)] F False by (auto simp: chunks_eq_Nil)
  from build_levels_law [OF 1(1) _ 1(3) this l(2)] show ?thesis
    using 1(2) l(3) grows_trans F by (auto simp: stands_def concat_chunks)
qed

subsection \<open>Searching a tree\<close>

text \<open>
  A reader's search: at a leaf look for the key, at a branch follow the last child whose key does
  not exceed it. The height is read off the root page.
\<close>

fun bt_search :: "disk \<Rightarrow> byte \<Rightarrow> nat \<Rightarrow> bref \<Rightarrow> 64 word \<Rightarrow> bytes option" where
  "bt_search d ptype l br k =
     (case read_page d ptype br of
        None \<Rightarrow> None
      | Some (level, _, entries) \<Rightarrow>
          if level \<noteq> l then None
          else if l = 0 then find (\<lambda>c. peek64 c = k) entries
          else (case filter (\<lambda>c. peek64 c \<le> k) entries of
                  [] \<Rightarrow> None
                | c # cs \<Rightarrow> (let e = last (c # cs)
                    in bt_search d ptype (l - 1) \<lparr>br_bid = peek64 (drop 8 e), br_ib = unat (peek64 (drop 16 e))\<rparr> k)))"

declare bt_search.simps [simp del]

definition bt_lookup :: "disk \<Rightarrow> byte \<Rightarrow> bref \<Rightarrow> 64 word \<Rightarrow> bytes option" where
  "bt_lookup d ptype br k =
     (case read_page d ptype br of None \<Rightarrow> None | Some (level, _, _) \<Rightarrow> bt_search d ptype level br k)"

definition key_field :: "('e \<Rightarrow> 64 word) \<Rightarrow> ('e \<Rightarrow> bytes) \<Rightarrow> bool" where
  "key_field key im \<longleftrightarrow> (\<forall>e. peek64 (im e) = key e)"

lemma peek64_branch [simp]:
  "peek64 (branch_image e) = bre_key e" "peek64 (drop 8 (branch_image e)) = bre_bid e"
  "peek64 (drop 16 (branch_image e)) = of_nat (bre_ib e)"
  by (simp_all add: branch_image_eq)

lemma bt_search_represents:
  assumes kf: "key_field key im" and sorted: "sorted_wrt (\<lambda>a b. key a < key b) es"
  shows "represents d hi ptype n key im l br es \<Longrightarrow>
    bt_search d ptype l br k = map_option im (find (\<lambda>e. key e = k) es)"
  using sorted
proof (induction l arbitrary: br es)
  case 0
  then show ?case using kf by (simp add: bt_search.simps [of _ _ 0] page_at_def find_map key_field_def)
next
  case (Suc l)
  from Suc.prems(1) obtain bes ess where page: "read_page d ptype br = Some (Suc l, 24, map branch_image bes)"
    and es: "es = concat ess" and kids: "list_all2 (stands d hi ptype n key im l) bes ess"
    unfolding represents_Suc page_at_def by blast
  have "list_all2 (\<lambda>be sub. sub \<noteq> [] \<and> bre_key be = key (hd sub)) bes ess"
    using kids by (rule list_all2_mono) (simp add: stands_def)
  note last = find_concat_last [OF this Suc.prems(2) [unfolded es], of k]
  have fm: "filter (\<lambda>c. peek64 c \<le> k) (map branch_image bes) = map branch_image (filter (\<lambda>be. bre_key be \<le> k) bes)"
    by (simp add: filter_map comp_def)
  show ?case
  proof (cases "filter (\<lambda>be. bre_key be \<le> k) bes")
    case Nil
    then show ?thesis using last page fm by (simp add: bt_search.simps [of _ _ "Suc l"] es)
  next
    case (Cons c cs)
    then obtain i where i: "i < length bes" "last (c # cs) = bes ! i"
        "find (\<lambda>e. key e = k) (concat ess) = find (\<lambda>e. key e = k) (ess ! i)"
      using last by auto
    have st: "stands d hi ptype n key im l (bes ! i) (ess ! i)"
      using kids i(1) by (simp add: list_all2_conv_all_nth)
    have ib: "unat (of_nat (bre_ib (bes ! i)) :: 64 word) = bre_ib (bes ! i)"
      using st by (intro unat_small) (simp add: stands_def)
    have "sorted_wrt (\<lambda>a b. key a < key b) (ess ! i)"
    proof -
      have len: "i < length ess" using kids i(1) by (simp add: list_all2_lengthD)
      have "concat ess = concat (take i ess) @ ess ! i @ concat (drop (Suc i) ess)"
        by (metis concat.simps(2) concat_append id_take_nth_drop len)
      then show ?thesis using Suc.prems(2) by (simp add: es sorted_wrt_append)
    qed
    then have "bt_search d ptype l \<lparr>br_bid = bre_bid (bes ! i), br_ib = bre_ib (bes ! i)\<rparr> k =
        map_option im (find (\<lambda>e. key e = k) (ess ! i))"
      using Suc.IH st by (simp add: stands_def)
    moreover have "last (map branch_image (c # cs)) = branch_image (bes ! i)"
      using i(2) by (simp only: last_map list.distinct(2) not_False_eq_True)
    ultimately show ?thesis
      using page fm Cons i(3) ib by (simp add: bt_search.simps [of _ _ "Suc l"] es Let_def del: last.simps)
  qed
qed

lemma bt_lookup_represents:
  assumes "key_field key im" "sorted_wrt (\<lambda>a b. key a < key b) es" "represents d hi ptype n key im l br es"
  shows "bt_lookup d ptype br k = map_option im (find (\<lambda>e. key e = k) es)"
proof -
  obtain x y where "read_page d ptype br = Some (l, x, y)"
    using assms(3) by (cases l) (auto simp: page_at_def)
  then show ?thesis using bt_search_represents [OF assms] by (simp add: bt_lookup_def)
qed


subsection \<open>Reading the header back\<close>

lemma length_next_nids [simp]: "length (next_nids nodes) = 32"
proof -
  have "length (fold (\<lambda>n v. let t = unat (nidType (ne_nid n)); candidate = nidIndex (ne_nid n) + 1
                  in if candidate > v ! t then v[t := candidate] else v) nodes v) = length v" for v
    by (induction nodes arbitrary: v) (auto simp: Let_def)
  then show ?thesis by (simp add: next_nids_def)
qed

lemma header_fields_ascending: "ascending_writes kHeaderSize (header_fields st a b)"
proof -
  have "sorted_wrt (\<lambda>(i, xs) (j, ys). i + length xs \<le> j)
      (map (\<lambda>(i, v). (44 + i * 4, le_bytes 4 v)) (enumerate k (vs :: 32 word list)))" for k vs
    by (induction vs arbitrary: k) (auto simp: in_set_enumerate_eq)
  moreover have "44 + (i * 4 + 4) \<le> 180" if "(i, v) \<in> set (enumerate 0 (next_nids (nbt st)))" for i v
    using that by (simp add: in_set_enumerate_eq)
  ultimately show ?thesis
    unfolding ascending_writes_def header_fields_def Let_def
    by (fastforce simp: sorted_wrt_append simp del: enumerate_simps)
qed


lemma length_header_image [simp]: "length (header_image st a b) = 564"
proof -
  have "length (fold (\<lambda>(i, f). memcpy i f) (header_fields st a b) (replicate 564 0)) = length (replicate 564 (0 :: byte))"
    by (rule length_writes) (use header_fields_ascending in \<open>simp add: ascending_writes_def\<close>)
  then show ?thesis by (simp add: header_image_def Let_def)
qed

lemma header_field:
  assumes f: "(i, xs) \<in> set (header_fields st a b)" and i: "i + length xs \<le> 4 \<or> (8 \<le> i \<and> i + length xs \<le> 524)"
  shows "take (length xs) (drop i (header_image st a b)) = xs"
proof -
  define h where "h = fold (\<lambda>(i, f). memcpy i f) (header_fields st a b) (replicate 564 (0 :: byte))"
  have len: "length h = 564"
    unfolding h_def using length_writes [of "header_fields st a b" "replicate 564 0"] header_fields_ascending
    by (simp add: ascending_writes_def)
  have "take (length xs) (drop i (poke32 4 y (poke32 524 x h))) = take (length xs) (drop i h)" for x y
    using i by (auto simp: slices len)
  moreover have "take (length xs) (drop i h) = xs"
    unfolding h_def by (rule writes_read) (use f header_fields_ascending in simp_all)
  ultimately show ?thesis by (simp add: header_image_def Let_def h_def)
qed

lemma header_crcs:
  fixes st a b
  defines "h \<equiv> header_image st a b"
  shows "peek32 (drop 4 h) = computeCrc (take 471 (drop 8 h))"
    and "peek32 (drop 524 h) = computeCrc (take 516 (drop 8 h))"
proof -
  define h0 where "h0 = fold (\<lambda>(i, f). memcpy i f) (header_fields st a b) (replicate 564 (0 :: byte))"
  have len: "length h0 = 564"
    unfolding h0_def using length_writes [of "header_fields st a b" "replicate 564 0"] header_fields_ascending
    by (simp add: ascending_writes_def)
  define h1 where "h1 = poke32 524 (computeCrc (take 516 (drop 8 h0))) h0"
  have len1: "length h1 = 564" by (simp add: h1_def len)
  have h: "h = poke32 4 (computeCrc (take 471 (drop 8 h1))) h1"
    by (simp add: h_def header_image_def Let_def h0_def h1_def)
  have 1: "take 471 (drop 8 h) = take 471 (drop 8 h1)" "take 516 (drop 8 h) = take 516 (drop 8 h1)"
    "take 516 (drop 8 h1) = take 516 (drop 8 h0)"
    by (simp_all add: h h1_def slices len len1)
  show "peek32 (drop 4 h) = computeCrc (take 471 (drop 8 h))"
    unfolding peek32_def 1 by (simp add: h slices len1)
  show "peek32 (drop 524 h) = computeCrc (take 516 (drop 8 h))"
    unfolding peek32_def 1 by (simp add: h h1_def slices len len1)
qed

text \<open>A reader's first step: check the header, take the two root references.\<close>

definition read_root :: "disk \<Rightarrow> (bref \<times> bref) option" where
  "read_root d =
     (let h = disk_slice 0 kHeaderSize d
      in if peek32 h = 0x4E444221 \<and> peek16 (drop 8 h) = 0x4D53 \<and> peek16 (drop 10 h) = 23 \<and>
            h ! 512 = 0x80 \<and> h ! 513 = 0 \<and>
            peek32 (drop 4 h) = computeCrc (take 471 (drop 8 h)) \<and>
            peek32 (drop 524 h) = computeCrc (take 516 (drop 8 h))
         then Some (\<lparr>br_bid = peek64 (drop 216 h), br_ib = unat (peek64 (drop 224 h))\<rparr>,
                    \<lparr>br_bid = peek64 (drop 232 h), br_ib = unat (peek64 (drop 240 h))\<rparr>)
         else None)"

text \<open>\<open>rgnid\<close>, \<open>ibFileEof\<close> and \<open>bidNextP\<close> as a reader finds them.\<close>

definition read_next_nid :: "disk \<Rightarrow> nat \<Rightarrow> 32 word" where
  "read_next_nid d t = peek32 (drop (44 + t * 4) (disk_slice 0 kHeaderSize d))"

definition read_eof :: "disk \<Rightarrow> 64 word" where
  "read_eof d = peek64 (drop 184 (disk_slice 0 kHeaderSize d))"

lemma header_nth: "(i, [x]) \<in> set (header_fields st a b) \<Longrightarrow> 8 \<le> i \<Longrightarrow> i < 524 \<Longrightarrow> header_image st a b ! i = x"
proof -
  assume a: "(i, [x]) \<in> set (header_fields st a b)" "8 \<le> i" "i < 524"
  have "take 1 (drop i (header_image st a b)) = [x]" using header_field [OF a(1)] a by simp
  moreover have "drop i (header_image st a b) = header_image st a b ! i # drop (Suc i) (header_image st a b)"
    using a(3) by (simp add: Cons_nth_drop_Suc)
  ultimately show ?thesis by simp
qed

lemma header_peek:
  "(i, le_bytes 8 v) \<in> set (header_fields st a b) \<Longrightarrow> 8 \<le> i \<Longrightarrow> i + 8 \<le> 524 \<Longrightarrow>
     peek64 (drop i (header_image st a b)) = v"
  "(i, le_bytes 4 w) \<in> set (header_fields st a b) \<Longrightarrow> i + 4 \<le> 4 \<or> 8 \<le> i \<and> i + 4 \<le> 524 \<Longrightarrow>
     peek32 (drop i (header_image st a b)) = w"
  "(i, le_bytes 2 x) \<in> set (header_fields st a b) \<Longrightarrow> 8 \<le> i \<Longrightarrow> i + 2 \<le> 524 \<Longrightarrow>
     peek16 (drop i (header_image st a b)) = x"
  using header_field [of i "le_bytes 8 v" st a b] header_field [of i "le_bytes 4 w" st a b]
    header_field [of i "le_bytes 2 x" st a b]
  by (simp_all add: peek64_def peek32_def peek16_def)

lemma read_root_header:
  assumes "disk_slice 0 kHeaderSize d = header_image st a b" "br_ib a < 2 ^ 63" "br_ib b < 2 ^ 63"
  shows "read_root d = Some (a, b)"
proof -
  let ?h = "header_image st a b"
  have "peek32 (drop 0 ?h) = 0x4E444221" by (rule header_peek) (simp_all add: header_fields_def Let_def)
  moreover have "peek16 (drop 8 ?h) = 0x4D53" by (rule header_peek) (simp_all add: header_fields_def Let_def)
  moreover have "peek16 (drop 10 ?h) = 23" by (rule header_peek) (simp_all add: header_fields_def Let_def)
  moreover have "?h ! 512 = 0x80" "?h ! 513 = 0"
    by (rule header_nth, simp_all add: header_fields_def Let_def)+
  moreover have "peek64 (drop 216 ?h) = br_bid a" "peek64 (drop 232 ?h) = br_bid b"
    by (rule header_peek, simp_all add: header_fields_def Let_def)+
  moreover have "peek64 (drop 224 ?h) = of_nat (br_ib a)" "peek64 (drop 240 ?h) = of_nat (br_ib b)"
    by (rule header_peek, simp_all add: header_fields_def Let_def)+
  ultimately show ?thesis
    using assms header_crcs [of st a b] by (simp add: read_root_def Let_def unat_small)
qed

text \<open>\<open>rgnid\<close> exceeds the index of every node of its type, and never drops below the first user index.\<close>

lemma unat_nidType: "unat (nidType n) < 32"
proof -
  have "nidType n = ucast n AND 0x1F"
    by (rule bit_word_eqI) (auto simp: nidType_def bit_simps bit_mask5 bit_31)
  then have "nidType n \<le> 0x1F" by (simp add: word_and_le1)
  then show ?thesis by (simp add: word_le_nat_alt)
qed

lemma nidIndex_less: "nidIndex n < nidIndex n + 1"
proof -
  have "unat (nidIndex n) < 2 ^ 27"
    using less_mult_imp_div_less [of "unat n" "2 ^ 27" 32] unsigned_less [of n, where ?'a = nat]
    by (simp add: nidIndex_def drop_bit_eq_div unat_div)
  then show ?thesis by (simp add: word_less_nat_alt unat_word_ariths)
qed

definition mark_nid :: "nbt_entry \<Rightarrow> 32 word list \<Rightarrow> 32 word list" where
  "mark_nid n v = (let t = unat (nidType (ne_nid n)); candidate = nidIndex (ne_nid n) + 1
                   in if candidate > v ! t then v[t := candidate] else v)"

lemma mark_nid_length [simp]: "length (mark_nid n v) = length v"
  by (simp add: mark_nid_def Let_def)

lemma mark_nid_mono: "t < length v \<Longrightarrow> v ! t \<le> mark_nid n v ! t"
  by (cases "t = unat (nidType (ne_nid n))") (auto simp: mark_nid_def Let_def)

lemma fold_mark_nid:
  "length v = 32 \<Longrightarrow> (t < 32 \<longrightarrow> v ! t \<le> fold mark_nid nodes v ! t) \<and>
     (\<forall>e \<in> set nodes. nidIndex (ne_nid e) + 1 \<le> fold mark_nid nodes v ! unat (nidType (ne_nid e)))"
proof (induction nodes arbitrary: v t)
  case (Cons n nodes)
  let ?v = "mark_nid n v" and ?t = "unat (nidType (ne_nid n))"
  have len: "length ?v = 32" using Cons.prems by simp
  have "nidIndex (ne_nid n) + 1 \<le> ?v ! ?t"
    using unat_nidType [of "ne_nid n"] Cons.prems by (auto simp: mark_nid_def Let_def)
  also have "\<dots> \<le> fold mark_nid nodes ?v ! ?t" using Cons.IH [OF len] unat_nidType by blast
  finally have n: "nidIndex (ne_nid n) + 1 \<le> fold mark_nid nodes ?v ! ?t" .
  have "v ! t \<le> fold mark_nid nodes ?v ! t" if "t < 32"
    by (rule order_trans [OF mark_nid_mono [where n = n]]) (use that Cons.IH [OF len, of t] Cons.prems in simp_all)
  then show ?case using n Cons.IH [OF len] by simp
qed simp

lemma next_nids_eq: "next_nids nodes = fold mark_nid nodes (replicate 32 kFirstUserNidIndex)"
  by (simp add: next_nids_def mark_nid_def [abs_def])

lemma next_nids_mark:
  "e \<in> set nodes \<Longrightarrow> nidIndex (ne_nid e) < next_nids nodes ! unat (nidType (ne_nid e))"
  "t < 32 \<Longrightarrow> kFirstUserNidIndex \<le> next_nids nodes ! t"
  using fold_mark_nid [of "replicate 32 kFirstUserNidIndex" t nodes] nidIndex_less [of "ne_nid e"]
  unfolding next_nids_eq by (auto intro: less_le_trans)

subsection \<open>The fixed pages and the end of the file\<close>

text \<open>Everything a page write of \<open>finish\<close> leaves alone.\<close>

definition same_tables :: "ndb \<Rightarrow> ndb \<Rightarrow> bool" where
  "same_tables st st' \<longleftrightarrow> cursor st' = cursor st \<and> bbt st' = bbt st \<and> nbt st' = nbt st \<and>
     amaps st' = amaps st \<and> file_end st' = file_end st \<and> last_amap_ib st' = last_amap_ib st \<and>
     ndb_finished st' = ndb_finished st"

lemma same_tables_refl [simp]: "same_tables st st"
  by (simp add: same_tables_def)

lemma same_tables_trans: "same_tables a b \<Longrightarrow> same_tables b c \<Longrightarrow> same_tables a c"
  by (simp add: same_tables_def)

text \<open>A successful write changes its own range only.\<close>

lemma writeAt_done:
  assumes "writeAt ib data st = Some (Inr (), st')"
  shows "st' = st\<lparr>disk := disk_put ib data (disk st)\<rparr>" "\<not> dk_failed (disk st)" "ib < 2 ^ 63"
  using assms by (auto simp: writeAt_def Let_def split: if_splits)

definition page_of :: "nat \<Rightarrow> byte \<Rightarrow> bytes \<Rightarrow> bytes" where
  "page_of ib ptype body = page_trailer ptype 0 (of_nat ib) (memcpy 0 (take 496 body) (replicate kPageSize 0))"

lemma write_page_done:
  assumes "write_page ib ptype body sg st = Some (Inr (), st')"
  shows "same_tables st st'"
    and "\<forall>a. a < ib \<or> ib + kPageSize \<le> a \<longrightarrow> dk_bytes (disk st') a = dk_bytes (disk st) a"
    and "dk_size (disk st') = max (dk_size (disk st)) (ib + kPageSize)"
    and "\<not> sg \<Longrightarrow> disk_slice ib kPageSize (disk st') = page_of ib ptype body \<and> next_bid_index st' = next_bid_index st"
proof -
  let ?page = "memcpy 0 (take 496 body) (replicate kPageSize 0)"
  have len: "length ?page = 512" by simp
  obtain bid st1 where b: "(if sg then next_bid False else ret (of_nat ib)) st = Some (Inr bid, st1)"
    and w: "writeAt ib (page_trailer ptype (if sg then computeSig (of_nat ib) bid else 0) bid ?page) st1 = Some (Inr (), st')"
    using assms by (auto simp: write_page_def Let_def bindM_Inr_iff)
  have st1: "same_tables st st1" "disk st1 = disk st"
    "\<not> sg \<Longrightarrow> bid = of_nat ib \<and> next_bid_index st1 = next_bid_index st"
    using b by (auto simp: next_bid_def ret_run same_tables_def split: if_splits)
  note w = writeAt_done [OF w]
  have "length (page_trailer ptype (if sg then computeSig (of_nat ib) bid else 0) bid ?page) = 512"
    by (simp only: length_page_trailer [OF len])
  note l = this
  have ne: "page_trailer ptype (if sg then computeSig (of_nat ib) bid else 0) bid ?page \<noteq> []"
    using l by (metis list.size(3) zero_neq_numeral)
  show "same_tables st st'" using st1 w(1) by (simp add: same_tables_def)
  show "\<forall>a. a < ib \<or> ib + kPageSize \<le> a \<longrightarrow> dk_bytes (disk st') a = dk_bytes (disk st) a"
    using w(1) st1(2) l by (auto simp: disk_put_def)
  show "dk_size (disk st') = max (dk_size (disk st)) (ib + kPageSize)"
    using w(1) st1(2) l ne by (simp add: disk_put_def)
  show "\<not> sg \<Longrightarrow> disk_slice ib kPageSize (disk st') = page_of ib ptype body \<and> next_bid_index st' = next_bid_index st"
    using w(1) st1 disk_slice_put_same [of ib "page_trailer ptype 0 (of_nat ib) ?page" "disk st"] len
    by (simp add: page_of_def)
qed

lemma write_page_live:
  assumes "write_page ib ptype body sg st = Some (Inr (), st')"
  shows "\<not> dk_failed (disk st)"
  using assms by (auto simp: write_page_def Let_def bindM_Inr_iff next_bid_def ret_run
      dest!: writeAt_done(2) split: if_splits)

lemma reserved_write_agree:
  assumes "isReservedPage ib" "\<forall>a. a < ib \<or> ib + kPageSize \<le> a \<longrightarrow> dk_bytes d' a = dk_bytes d a"
  shows "agree d d' hi"
  unfolding agree_def
proof (intro allI impI)
  fix a assume "\<not> isReservedPage (a div 512 * 512)"
  moreover have "a div 512 * 512 = ib" if "ib \<le> a" "a < ib + 512"
    using page_floor [of ib a] reserved_aligned [OF assms(1)] that by simp
  ultimately show "dk_bytes d' a = dk_bytes d a" using assms by (metis not_le)
qed


text \<open>A run of page writes, each at or above the end of the one before.\<close>

lemma write_pages_done:
  assumes "forM (\<lambda>(ib, body). write_page ib ptype body False) ws st = Some (Inr (), st')"
    and "sorted_wrt (\<lambda>(ib, _) (ib', _). ib + kPageSize \<le> ib') ws"
  shows "same_tables st st' \<and> next_bid_index st' = next_bid_index st \<and>
    (\<forall>a. (\<forall>(ib, _) \<in> set ws. a < ib \<or> ib + kPageSize \<le> a) \<longrightarrow> dk_bytes (disk st') a = dk_bytes (disk st) a) \<and>
    (\<forall>(ib, body) \<in> set ws. disk_slice ib kPageSize (disk st') = page_of ib ptype body) \<and>
    (\<forall>hi. dk_size (disk st) \<le> hi \<longrightarrow> (\<forall>(ib, _) \<in> set ws. ib + kPageSize \<le> hi) \<longrightarrow> dk_size (disk st') \<le> hi) \<and>
    dk_size (disk st) \<le> dk_size (disk st')"
  using assms
proof (induction ws arbitrary: st)
  case Nil
  then show ?case by (simp add: ret_run)
next
  case (Cons w ws)
  obtain ib body where w: "w = (ib, body)" by fastforce
  obtain st1 where 1: "write_page ib ptype body False st = Some (Inr (), st1)"
      and 2: "forM (\<lambda>(ib, body). write_page ib ptype body False) ws st1 = Some (Inr (), st')"
    using Cons.prems(1) by (auto simp: w bindM_Inr_iff)
  note p = write_page_done [OF 1]
  have sorted: "sorted_wrt (\<lambda>(ib, _) (ib', _). ib + kPageSize \<le> ib') ws" using Cons.prems(2) by simp
  note IH = Cons.IH [OF 2 sorted]
  have later: "ib + kPageSize \<le> ib'" if "(ib', b') \<in> set ws" for ib' b' using Cons.prems(2) that by (auto simp: w)
  have "disk_slice ib kPageSize (disk st') = disk_slice ib kPageSize (disk st1)"
  proof -
    have "dk_bytes (disk st') a = dk_bytes (disk st1) a" if "ib \<le> a" "a < ib + kPageSize" for a
    proof -
      have "a < ib'" if "(ib', b') \<in> set ws" for ib' b' using later [OF that] \<open>a < ib + kPageSize\<close> by simp
      then have "\<forall>(ib, _) \<in> set ws. a < ib \<or> ib + kPageSize \<le> a" by blast
      then show ?thesis using IH by simp
    qed
    then show ?thesis by (auto simp: disk_slice_def)
  qed
  then have here: "disk_slice ib kPageSize (disk st') = page_of ib ptype body" using p(4) by simp
  have keep: "dk_bytes (disk st') a = dk_bytes (disk st) a"
    if "\<forall>(ib, _) \<in> set (w # ws). a < ib \<or> ib + kPageSize \<le> a" for a
    using IH p(2) that by (auto simp: w)
  have size: "dk_size (disk st') \<le> hi"
    if "dk_size (disk st) \<le> hi" "\<forall>(ib, _) \<in> set (w # ws). ib + kPageSize \<le> hi" for hi
    using IH p(3) that by (auto simp: w)
  show ?case using IH p same_tables_trans here keep size by (auto simp: w)
qed

lemma AMap_pages_sorted:
  "sorted_wrt (\<lambda>(ib, _) (ib', _). ib + kPageSize \<le> ib') (map (\<lambda>(i, b). (amap_pos i, b)) (enumerate k maps))"
  by (induction maps arbitrary: k) (auto simp: in_set_enumerate_eq amap_pos_def)

lemma steps_sorted: "n \<le> k \<Longrightarrow> sorted_wrt (\<lambda>p q. p + n \<le> q) (steps a b k)"
proof (induction a b k rule: steps.induct)
  case (1 a b k)
  show ?case
  proof (cases "k = 0 \<or> b \<le> a")
    case True
    then show ?thesis by (simp add: steps.simps [of a])
  next
    case False
    then show ?thesis using 1 by (auto simp: steps.simps [of a b k] set_steps)
  qed
qed

lemma PMap_reserved: "isReservedPage (kFirstPMapPos + j * kPMapSpan)"
  by (simp add: isReservedPage_def)

lemma amap_page_le: "i < n \<Longrightarrow> amap_pos i + kPageSize \<le> amap_pos n"
proof -
  assume "i < n"
  then have "Suc i * kAMapSpan \<le> n * kAMapSpan" by (intro mult_le_mono1) simp
  then show ?thesis by (simp add: amap_pos_def)
qed

lemma PMap_not_AMap: "kFirstPMapPos + j * kPMapSpan + kPageSize \<le> amap_pos i \<or> amap_pos i + kPageSize \<le> kFirstPMapPos + j * kPMapSpan"
proof -
  have "kFirstPMapPos + j * kPMapSpan = amap_pos (8 * j) + 512" by (rule PMap_pos)
  then show ?thesis
    by (cases "i \<le> 8 * j") (auto simp: amap_pos_def not_le less_iff_Suc_add algebra_simps)
qed

lemma mapped_forM: "forM f (map g xs) = forM (\<lambda>x. f (g x)) xs"
  by (induction xs) simp_all

text \<open>The outcome of \<open>emitFixedPages\<close>: everything else untouched, every AMap page in place.\<close>

lemma emitFixedPages_done:
  assumes run: "emitFixedPages st = Some (Inr (), st')"
    and fe: "file_end st = amap_pos (length (amaps st))" "dk_size (disk st) = file_end st" "amaps st \<noteq> []"
  shows "same_tables st st'" "agree (disk st) (disk st') hi" "dk_size (disk st') = file_end st"
    "i < length (amaps st) \<Longrightarrow> disk_slice (amap_pos i) kPageSize (disk st') = page_of (amap_pos i) kPTypeAMap (amaps st ! i)"
proof -
  obtain st1 st2 st3 where
      1: "write_page kDListPos kPTypeDList (replicate 496 0) True
            (st\<lparr>amap_free := sum_list (map (\<lambda>bits. free_slots bits * kBlockAlign) (amaps st))\<rparr>) = Some (Inr (), st1)"
    and 2: "forM (\<lambda>(i, bits). write_page (amap_pos i) kPTypeAMap bits False) (enumerate 0 (amaps st1)) st1 = Some (Inr (), st2)"
    and st3: "st3 = st2\<lparr>pmap_free := 0\<rparr>"
    and 3: "forM (\<lambda>ib. write_page ib kPTypePMap (replicate 496 0xFF) False) (steps kFirstPMapPos (file_end st3) kPMapSpan) st3 = Some (Inr (), st')"
    using run by (auto simp: emitFixedPages_def bindM_Inr_iff modM_run getM_run)
  define AS where "AS = map (\<lambda>(i, b). (amap_pos i, b)) (enumerate 0 (amaps st1))"
  define PS where "PS = map (\<lambda>ib. (ib, replicate 496 (0xFF :: byte))) (steps kFirstPMapPos (file_end st3) kPMapSpan)"
  note p1 = write_page_done [OF 1]
  have am: "amaps st1 = amaps st" using p1(1) by (simp add: same_tables_def)
  have "forM (\<lambda>(ib, body). write_page ib kPTypeAMap body False) AS st1 = Some (Inr (), st2)"
    using 2 by (simp add: AS_def mapped_forM split_def)
  note p2 = write_pages_done [OF this, unfolded AS_def, OF AMap_pages_sorted, folded AS_def]
  have "forM (\<lambda>(ib, body). write_page ib kPTypePMap body False) PS st3 = Some (Inr (), st')"
    using 3 by (simp add: PS_def mapped_forM)
  moreover have "sorted_wrt (\<lambda>(ib, _) (ib', _). ib + kPageSize \<le> ib') PS"
    using steps_sorted [of 512 kPMapSpan] by (simp add: PS_def sorted_wrt_map)
  ultimately have p3: "same_tables st3 st' \<and> next_bid_index st' = next_bid_index st3 \<and>
    (\<forall>a. (\<forall>(ib, _) \<in> set PS. a < ib \<or> ib + kPageSize \<le> a) \<longrightarrow> dk_bytes (disk st') a = dk_bytes (disk st3) a) \<and>
    (\<forall>(ib, body) \<in> set PS. disk_slice ib kPageSize (disk st') = page_of ib kPTypePMap body) \<and>
    (\<forall>hi. dk_size (disk st3) \<le> hi \<longrightarrow> (\<forall>(ib, _) \<in> set PS. ib + kPageSize \<le> hi) \<longrightarrow> dk_size (disk st') \<le> hi) \<and>
    dk_size (disk st3) \<le> dk_size (disk st')"
    by (rule write_pages_done)
  have s: "same_tables st st1" "same_tables st1 st2" "same_tables st2 st3" "same_tables st3 st'"
    using p1(1) p2 p3 by (simp_all add: same_tables_def st3)
  then show tables: "same_tables st st'" by (meson same_tables_trans)
  have fe3: "file_end st3 = file_end st" using s by (simp add: same_tables_def)
  have A: "x \<in> set AS \<longleftrightarrow> (\<exists>i < length (amaps st). x = (amap_pos i, amaps st ! i))" for x
  proof -
    have "AS = map (\<lambda>i. (amap_pos i, amaps st ! i)) [0..<length (amaps st)]"
      by (rule nth_equalityI) (simp_all add: AS_def am nth_enumerate_eq)
    then show ?thesis by (simp only: set_map) auto
  qed
  have P: "\<exists>j. ib = kFirstPMapPos + j * kPMapSpan \<and> ib < file_end st" if x: "(ib, b) \<in> set PS" for ib b
    using x by (auto simp: PS_def set_steps fe3)
  have agree_run: "agree d d' hi"
    if "\<forall>a. (\<forall>(ib, _) \<in> set ws. a < ib \<or> ib + kPageSize \<le> a) \<longrightarrow> dk_bytes d' a = dk_bytes d a"
      "\<forall>(ib, b) \<in> set ws. isReservedPage ib" for d d' and ws :: "(nat \<times> bytes) list"
    unfolding agree_def
  proof (intro allI impI)
    fix a assume a: "\<not> isReservedPage (a div 512 * 512)"
    have "a < ib \<or> ib + kPageSize \<le> a" if "(ib, b) \<in> set ws" for ib b
    proof (rule ccontr)
      assume "\<not> ?thesis"
      moreover have "isReservedPage ib" using \<open>\<forall>(ib, b) \<in> set ws. isReservedPage ib\<close> that by blast
      ultimately show False using a page_floor [OF reserved_aligned, of ib a] by simp
    qed
    then have "\<forall>(ib, _) \<in> set ws. a < ib \<or> ib + kPageSize \<le> a" by blast
    then show "dk_bytes d' a = dk_bytes d a" using that(1) by blast
  qed
  have "agree (disk st) (disk st1) hi"
    by (rule reserved_write_agree [of kDListPos]) (use p1(2) in \<open>simp_all add: isReservedPage_def\<close>)
  moreover have "agree (disk st1) (disk st2) hi"
    by (rule agree_run [of AS]) (use p2 A in auto)
  moreover have "agree (disk st3) (disk st') hi"
  proof (rule agree_run [of PS])
    show "\<forall>a. (\<forall>(ib, _) \<in> set PS. a < ib \<or> ib + kPageSize \<le> a) \<longrightarrow> dk_bytes (disk st') a = dk_bytes (disk st3) a"
      using p3 by blast
    have "isReservedPage ib" if x: "(ib, b) \<in> set PS" for ib b
    proof -
      obtain j where "ib = kFirstPMapPos + j * kPMapSpan" using P [OF x] by blast
      then show ?thesis using PMap_reserved by blast
    qed
    then show "\<forall>(ib, b) \<in> set PS. isReservedPage ib" by blast
  qed
  ultimately show "agree (disk st) (disk st') hi" by (auto simp: st3 intro: agree_trans)
  show "dk_size (disk st') = file_end st"
  proof -
    have "dk_size (disk st1) = file_end st"
      using p1(3) fe amap_pos_ge [of "length (amaps st)"] by simp
    moreover
    have "ib + kPageSize \<le> file_end st" if x: "(ib, b) \<in> set AS" for ib b
    proof -
      obtain i where "i < length (amaps st)" "ib = amap_pos i" using x A by blast
      then show ?thesis unfolding fe(1) by (simp only:) (rule amap_page_le)
    qed
    then have "\<forall>(ib, _) \<in> set AS. ib + kPageSize \<le> file_end st" by blast
    ultimately have size2: "dk_size (disk st2) = file_end st" using p2 by (intro antisym) simp_all
    have "ib + kPageSize \<le> file_end st" if x: "(ib, b) \<in> set PS" for ib b
    proof -
      obtain j where j: "ib = kFirstPMapPos + j * kPMapSpan" "ib < file_end st" using P [OF x] by blast
      have al: "512 dvd ib" unfolding j(1) by (rule reserved_aligned [OF PMap_reserved])
      show ?thesis using page_before [OF al amap_pos_dvd(2)] j(2) unfolding fe(1) by blast
    qed
    then have "\<forall>(ib, _) \<in> set PS. ib + kPageSize \<le> file_end st" by blast
    then show ?thesis using p3 size2 by (intro antisym) (simp_all add: st3)
  qed
  show "disk_slice (amap_pos i) kPageSize (disk st') = page_of (amap_pos i) kPTypeAMap (amaps st ! i)"
    if i: "i < length (amaps st)"
  proof -
    have "dk_bytes (disk st') a = dk_bytes (disk st2) a" if "amap_pos i \<le> a" "a < amap_pos i + kPageSize" for a
    proof -
      have "a < ib \<or> ib + kPageSize \<le> a" if x: "(ib, b) \<in> set PS" for ib b
      proof -
        obtain j where "ib = kFirstPMapPos + j * kPMapSpan" using P [OF x] by blast
        then show ?thesis using PMap_not_AMap [of j i] \<open>amap_pos i \<le> a\<close> \<open>a < amap_pos i + kPageSize\<close> by linarith
      qed
      then have "\<forall>(ib, _) \<in> set PS. a < ib \<or> ib + kPageSize \<le> a" by blast
      then show ?thesis using p3 by (simp add: st3)
    qed
    then have "disk_slice (amap_pos i) kPageSize (disk st') = disk_slice (amap_pos i) kPageSize (disk st2)"
      by (auto simp: disk_slice_def)
    moreover have "(amap_pos i, amaps st ! i) \<in> set AS" using A i by blast
    ultimately show ?thesis using p2 by fastforce
  qed
qed


subsection \<open>finish\<close>

lemma tree_entries: "tree_entry kSizeNBTEntry nbt_image" "tree_entry kSizeBBTEntry bbt_image"
  by (simp_all add: tree_entry_def nbt_image_def bbt_image_def)

lemma nbt_image_eq:
  "nbt_image e = le_bytes 8 (ucast (ne_nid e) :: 64 word) @ le_bytes 8 (ne_data e) @ le_bytes 8 (ne_sub e) @
     le_bytes 4 (ne_parent e) @ le_bytes 4 (0 :: 32 word)"
  by (simp add: nbt_image_def poke64_def poke32_def memcpy_def)

lemma bbt_image_eq:
  "bbt_image e = le_bytes 8 (be_bid e) @ le_bytes 8 (of_nat (be_ib e) :: 64 word) @ le_bytes 2 (be_cb e) @
     le_bytes 2 (2 :: 16 word) @ le_bytes 4 (0 :: 32 word)"
  by (simp add: bbt_image_def poke64_def poke32_def poke16_def memcpy_def)

lemma key_fields: "key_field nbt_key nbt_image" "key_field be_bid bbt_image"
  by (simp_all add: key_field_def nbt_image_eq bbt_image_eq nbt_key_def)

lemma store_ok_sorted:
  "store_ok st \<Longrightarrow> store_ok (st\<lparr>ndb_finished := True, bbt := sort_key be_bid (bbt st), nbt := ns\<rparr>)"
proof -
  assume ok: "store_ok st"
  have "distinct (map be_bid (sort_key be_bid (bbt st)))"
    using ok distinct_map [of be_bid "sort_key be_bid (bbt st)"] distinct_map [of be_bid "bbt st"]
    by (simp add: store_ok_def)
  then show ?thesis
    using ok by (simp add: store_ok_def space_ok_def maps_ok_def entry_ok_def)
qed

lemma pad_file_eq:
  assumes ok: "store_ok st" and run: "pad_file st = Some (Inr (), st')"
  shows "st' = (if amap_pos (length (amaps st)) > cursor st
      then st\<lparr>file_end := amap_pos (length (amaps st)),
              disk := disk_put (cursor st) (replicate (amap_pos (length (amaps st)) - cursor st) 0) (disk st)\<rparr>
      else st\<lparr>file_end := amap_pos (length (amaps st))\<rparr>)"
proof -
  let ?fe = "amap_pos (length (amaps st))"
  have le: "\<not> ?fe < cursor st" using ok by (simp add: store_ok_def space_ok_def not_less)
  have fe: "17408 + length (amaps st) * 253952 = ?fe" by (simp add: amap_pos_def)
  have run': "(if ?fe > cursor st then writeAt (cursor st) (replicate (?fe - cursor st) 0) else ret ()) (st\<lparr>file_end := ?fe\<rparr>) = Some (Inr (), st')"
    using run le
    by (cases "cursor st < ?fe") (simp_all add: pad_file_def bindM_Inr_iff modM_run getM_run Let_def fe)
  show ?thesis
  proof (cases "?fe > cursor st")
    case True
    then show ?thesis using run' writeAt_done(1) by fastforce
  next
    case False
    then show ?thesis using run' by (simp add: ret_run)
  qed
qed

lemma pad_file_done:
  assumes ok: "store_ok st" and run: "pad_file st = Some (Inr (), st')"
  shows "cursor st' = cursor st" "bbt st' = bbt st" "nbt st' = nbt st" "amaps st' = amaps st"
    "last_amap_ib st' = last_amap_ib st" "dk_failed (disk st') = dk_failed (disk st)"
    "ndb_finished st' = ndb_finished st"
    "file_end st' = amap_pos (length (amaps st))"
    "\<not> dk_failed (disk st) \<Longrightarrow> dk_size (disk st') = file_end st'"
    "agree (disk st) (disk st') (cursor st)"
proof -
  have le: "cursor st \<le> amap_pos (length (amaps st))" using ok by (simp add: store_ok_def space_ok_def)
  have sz: "dk_size (disk st) = cursor st" if "\<not> dk_failed (disk st)" using ok that by (simp add: store_ok_def)
  show "cursor st' = cursor st" "bbt st' = bbt st" "nbt st' = nbt st" "amaps st' = amaps st"
    "last_amap_ib st' = last_amap_ib st" "dk_failed (disk st') = dk_failed (disk st)"
    "ndb_finished st' = ndb_finished st"
    "file_end st' = amap_pos (length (amaps st))"
    "\<not> dk_failed (disk st) \<Longrightarrow> dk_size (disk st') = file_end st'"
    "agree (disk st) (disk st') (cursor st)"
    using le sz unfolding pad_file_eq [OF ok run] by (simp_all add: agree_def disk_put_def)
qed

definition file_trees :: "disk \<Rightarrow> nat \<Rightarrow> nbt_entry list \<Rightarrow> bbt_entry list \<Rightarrow> bool" where
  "file_trees d hi nodes blocks \<longleftrightarrow> (\<exists>nr br l m. read_root d = Some (nr, br) \<and> l < 8 \<and> m < 8 \<and>
     represents d hi kPTypeNBT kSizeNBTEntry nbt_key nbt_image l nr nodes \<and>
     represents d hi kPTypeBBT kSizeBBTEntry be_bid bbt_image m br blocks)"

lemma finish_done:
  assumes ok: "store_ok st" and fresh: "\<not> ndb_finished st" and run: "finish st = Some (Inr (), st')"
  shows "file_trees (disk st') (cursor st') (sort_key ne_nid (nbt st)) (sort_key be_bid (bbt st))"
    and "agree (disk st) (disk st') (cursor st)"
    and "dk_size (disk st') = file_end st'" "file_end st' = amap_pos (length (amaps st'))"
    and "space_ok st'" "cursor st \<le> cursor st'"
    and "i < length (amaps st') \<Longrightarrow>
      disk_slice (amap_pos i) kPageSize (disk st') = page_of (amap_pos i) kPTypeAMap (amaps st' ! i)"
    and "t < 32 \<Longrightarrow> read_next_nid (disk st') t = next_nids (sort_key ne_nid (nbt st)) ! t"
    and "read_eof (disk st') = of_nat (file_end st')"
    and "ndb_finished st'"
proof -
  let ?st0 = "st\<lparr>ndb_finished := True, bbt := sort_key be_bid (bbt st), nbt := sort_key ne_nid (nbt st)\<rparr>"
  obtain nr st1 br st2 st3 st4 st5 where
      n: "buildBTree kPTypeNBT kSizeNBTEntry nbt_key nbt_image (nbt ?st0) ?st0 = Some (Inr nr, st1)"
    and b: "buildBTree kPTypeBBT kSizeBBTEntry be_bid bbt_image (bbt st1) st1 = Some (Inr br, st2)"
    and pad: "pad_file st2 = Some (Inr (), st3)" and fx: "emitFixedPages st3 = Some (Inr (), st4)"
    and hdr: "writeHeader nr br st4 = Some (Inr (), st5)" and cl: "flush_close st5 = Some (Inr (), st')"
    using run fresh by (auto simp: finish_def bindM_Inr_iff getM_run modM_run)
  have ok0: "store_ok ?st0" by (rule store_ok_sorted [OF ok])
  obtain l where 1: "store_ok st1" "grows ?st0 st1" "l < 8"
      "represents (disk st1) (cursor st1) kPTypeNBT kSizeNBTEntry nbt_key nbt_image l nr (sort_key ne_nid (nbt st))"
    using buildBTree_law [OF ok0 tree_entries(1) n] by auto
  have tabs: "bbt st1 = sort_key be_bid (bbt st)" "nbt st1 = sort_key ne_nid (nbt st)" using 1(2) by (simp_all add: grows_def)
  obtain m where 2: "store_ok st2" "grows st1 st2" "m < 8"
      "represents (disk st2) (cursor st2) kPTypeBBT kSizeBBTEntry be_bid bbt_image m br (sort_key be_bid (bbt st))"
    using buildBTree_law [OF 1(1) tree_entries(2) b] tabs by auto
  note p = pad_file_done [OF 2(1) pad]
  have live: "\<not> dk_failed (disk st2)"
    using fx p(6) by (auto simp: emitFixedPages_def bindM_Inr_iff modM_run dest!: write_page_live)
  have am: "amaps st3 \<noteq> []" using 2(1) p(4) by (simp add: store_ok_def space_ok_def)
  have fe3: "file_end st3 = amap_pos (length (amaps st3))" using p(4,8) by simp
  note f = emitFixedPages_done [OF fx fe3 p(9) [OF live] am]
  note w = writeAt_done [OF hdr [unfolded writeHeader_def]]
  have st': "st' = st5\<lparr>disk := (disk st5)\<lparr>dk_failed := True\<rparr>\<rparr>" using cl by (auto simp: flush_close_def Let_def split: if_splits)
  have bytes: "dk_bytes (disk st') = dk_bytes (disk_put 0 (header_image st4 nr br) (disk st4))"
    "dk_size (disk st') = dk_size (disk_put 0 (header_image st4 nr br) (disk st4))"
    by (simp_all add: st' w(1))
  have same: "same_tables st3 st'" using f(1) by (simp add: st' w(1) same_tables_def)
  have hb: "dk_bytes (disk st') a = (if a < 564 then header_image st4 nr br ! a else dk_bytes (disk st4) a)" for a
    by (simp add: bytes(1) disk_put_def)
  have ag34: "agree (disk st3) (disk st') hi" for hi
    using f(2) [of hi] by (simp add: agree_def hb)
  have ag: "agree (disk st2) (disk st') (cursor st2)" by (rule agree_trans [OF p(10) ag34 [of "cursor st2"]]) simp
  have cur: "cursor st' = cursor st2" using same p(1) by (simp add: same_tables_def)
  have "agree (disk st) (disk st1) (cursor st)" using 1(2) by (simp add: grows_def)
  then show "agree (disk st) (disk st') (cursor st)"
    using 1(2) 2(2) ag by (auto simp: grows_def intro: agree_trans)
  show "cursor st \<le> cursor st'" using 1(2) 2(2) cur by (simp add: grows_def)
  have slice: "disk_slice 0 564 (disk st') = header_image st4 nr br"
    by (rule nth_equalityI) (simp_all add: disk_slice_def hb)
  have rib: "br_ib nr < 2 ^ 63" "br_ib br < 2 ^ 63" using 1(4) 2(4) represents_ib by blast+
  have "represents (disk st2) (cursor st2) kPTypeNBT kSizeNBTEntry nbt_key nbt_image l nr (sort_key ne_nid (nbt st))"
    using 1(4) 2(2) represents_agree by (auto simp: grows_def)
  then show "file_trees (disk st') (cursor st') (sort_key ne_nid (nbt st)) (sort_key be_bid (bbt st))"
    unfolding file_trees_def
    using read_root_header [OF slice rib] 1(3) 2(3) represents_agree [OF ag _ 2(4)] cur
      represents_agree [OF ag, of "cursor st'" kPTypeNBT kSizeNBTEntry nbt_key nbt_image l nr "sort_key ne_nid (nbt st)"]
    by (intro exI [of _ nr] exI [of _ br] exI [of _ l] exI [of _ m]) simp
  show eof: "file_end st' = amap_pos (length (amaps st'))" using fe3 same by (simp add: same_tables_def)
  have big: "564 \<le> file_end st3" using fe3 amap_pos_ge [of "length (amaps st3)"] by simp
  show "dk_size (disk st') = file_end st'"
    using f(3) same big by (simp add: bytes(2) disk_put_def same_tables_def)
  show "space_ok st'"
    using 2(1) same p(1,4,5) by (simp add: store_ok_def space_ok_def maps_ok_def same_tables_def)
  show "disk_slice (amap_pos i) kPageSize (disk st') = page_of (amap_pos i) kPTypeAMap (amaps st' ! i)"
    if "i < length (amaps st')"
  proof -
    have "disk_slice (amap_pos i) kPageSize (disk st') = disk_slice (amap_pos i) kPageSize (disk st4)"
      using amap_pos_ge [of i] by (simp add: disk_slice_def hb)
    then show ?thesis using f(4) [of i] that same by (simp add: same_tables_def)
  qed
  have fields: "nbt st4 = sort_key ne_nid (nbt st)" "file_end st4 = file_end st'"
    using f(1) same p(3) 2(2) tabs(2) by (simp_all add: same_tables_def grows_def)
  show "read_next_nid (disk st') t = next_nids (sort_key ne_nid (nbt st)) ! t" if t: "t < 32"
  proof -
    have "(44 + t * 4, le_bytes 4 (next_nids (nbt st4) ! t)) \<in>
        (\<lambda>(i, v). (44 + i * 4, le_bytes 4 v)) ` set (enumerate 0 (next_nids (nbt st4)))"
      using t by (intro image_eqI [of _ _ "(t, next_nids (nbt st4) ! t)"]) (simp_all add: in_set_enumerate_eq)
    then have "(44 + t * 4, le_bytes 4 (next_nids (nbt st4) ! t)) \<in> set (header_fields st4 nr br)"
      by (simp add: header_fields_def Let_def)
    from header_peek(2) [OF this] t show ?thesis by (simp add: read_next_nid_def slice fields)
  qed
  have "peek64 (drop 184 (header_image st4 nr br)) = of_nat (file_end st4)"
    by (rule header_peek) (simp_all add: header_fields_def Let_def)
  then show "read_eof (disk st') = of_nat (file_end st')" by (simp add: read_eof_def slice fields)
  show "ndb_finished st'" using 1(2) 2(2) p(7) same by (simp add: grows_def same_tables_def)
qed


subsection \<open>Reading the finished file\<close>

text \<open>From the file alone: header, block tree or node tree, block.\<close>

definition parse_bbt :: "bytes \<Rightarrow> bbt_entry" where
  "parse_bbt c = \<lparr>be_bid = peek64 c, be_ib = unat (peek64 (drop 8 c)), be_cb = peek16 (drop 16 c)\<rparr>"

definition parse_nbt :: "bytes \<Rightarrow> nbt_entry" where
  "parse_nbt c = \<lparr>ne_nid = ucast (peek64 c), ne_data = peek64 (drop 8 c), ne_sub = peek64 (drop 16 c),
                  ne_parent = peek32 (drop 24 c)\<rparr>"

definition file_block :: "disk \<Rightarrow> bid \<Rightarrow> bytes option" where
  "file_block d b =
     (case read_root d of
        None \<Rightarrow> None
      | Some (_, br) \<Rightarrow> Option.bind (bt_lookup d kPTypeBBT br b) (\<lambda>c. read_block d (parse_bbt c)))"

definition file_node :: "disk \<Rightarrow> nid \<Rightarrow> nbt_entry option" where
  "file_node d n =
     (case read_root d of
        None \<Rightarrow> None
      | Some (nr, _) \<Rightarrow> map_option parse_nbt (bt_lookup d kPTypeNBT nr (ucast n)))"

lemma parse_entries [simp]:
  "parse_nbt (nbt_image n) = n"
  "be_ib e < 2 ^ 64 \<Longrightarrow> parse_bbt (bbt_image e) = e"
  by (simp_all add: parse_nbt_def parse_bbt_def nbt_image_eq bbt_image_eq unat_small)

lemma ucast_nid_less: "(ucast (a :: nid) :: 64 word) < ucast b \<longleftrightarrow> a < b"
  using unsigned_less [of a, where ?'a = nat] unsigned_less [of b, where ?'a = nat]
  by (simp add: word_less_nat_alt unsigned_ucast_eq take_bit_nat_eq_self)

lemma finish_file_block:
  assumes ok: "store_ok st" and fresh: "\<not> ndb_finished st" and run: "finish st = Some (Inr (), st')"
    and look: "lookup_block st b = Some x"
  shows "file_block (disk st') b = Some x"
proof -
  note done_ = finish_done [OF ok fresh run]
  obtain e where e: "e \<in> set (bbt st)" "be_bid e = b" "read_block (disk st) e = Some x"
    using lookup_block_SomeD [OF look] by blast
  have eok: "entry_ok st e" and dist: "distinct (map be_bid (bbt st))"
    using ok e(1) by (simp_all add: store_ok_def)
  obtain nr br m where r: "read_root (disk st') = Some (nr, br)"
      "represents (disk st') (cursor st') kPTypeBBT kSizeBBTEntry be_bid bbt_image m br (sort_key be_bid (bbt st))"
    using done_(1) by (auto simp: file_trees_def)
  have "bt_lookup (disk st') kPTypeBBT br b = map_option bbt_image (find (\<lambda>e. be_bid e = b) (sort_key be_bid (bbt st)))"
    by (rule bt_lookup_represents [OF key_fields(2) sort_key_strict [OF dist] r(2)])
  also have "find (\<lambda>e. be_bid e = b) (sort_key be_bid (bbt st)) = Some e"
    using find_distinct [OF distinct_sort_key [OF dist], of e be_bid] e by simp
  finally have "file_block (disk st') b = read_block (disk st') e"
    using r(1) eok by (simp add: file_block_def entry_ok_def)
  also have "\<dots> = read_block (disk st) e"
  proof -
    have "disk_slice (be_ib e) (block_size e) (disk st') = disk_slice (be_ib e) (block_size e) (disk st)"
      by (rule agree_slice [OF done_(2)]) (use eok in \<open>simp_all add: entry_ok_def\<close>)
    then show ?thesis by (simp add: read_block_def)
  qed
  finally show ?thesis using e(3) by simp
qed

lemma finish_file_node:
  assumes ok: "store_ok st" and fresh: "\<not> ndb_finished st" and run: "finish st = Some (Inr (), st')"
    and dist: "distinct (map ne_nid (nbt st))"
  shows "file_node (disk st') n = find (\<lambda>e. ne_nid e = n) (nbt st)"
proof -
  obtain nr br l where r: "read_root (disk st') = Some (nr, br)"
      "represents (disk st') (cursor st') kPTypeNBT kSizeNBTEntry nbt_key nbt_image l nr (sort_key ne_nid (nbt st))"
    using finish_done(1) [OF ok fresh run] by (auto simp: file_trees_def)
  have "sorted_wrt (\<lambda>a b. nbt_key a < nbt_key b) (sort_key ne_nid (nbt st))"
    using sort_key_strict [OF dist] by (simp add: nbt_key_def ucast_nid_less)
  from bt_lookup_represents [OF key_fields(1) this r(2), of "ucast n"]
  have "bt_lookup (disk st') kPTypeNBT nr (ucast n) = map_option nbt_image (find (\<lambda>e. ne_nid e = n) (sort_key ne_nid (nbt st)))"
    by (simp add: nbt_key_def) (metis ucast_nid)
  also have "find (\<lambda>e. ne_nid e = n) (sort_key ne_nid (nbt st)) = find (\<lambda>e. ne_nid e = n) (nbt st)"
    by (rule find_distinct_any [OF dist]) (simp_all add: distinct_sort_key [OF dist])
  finally show ?thesis using r(1) by (simp add: file_node_def option.map_comp comp_def option.map_ident)
qed


subsection \<open>In a file that takes every write, finish succeeds\<close>

lemma finishBTPage_roomy:
  assumes r: "roomy (Suc k) st" and fit: "entries_fit n images" and level: "level < 256"
  shows "\<exists>br st'. finishBTPage (fill_page n images) ptype n (length images) level st = Some (Inr br, st') \<and> roomy k st'"
proof -
  have ok: "store_ok st" and sp: "space_ok st" using r by (simp_all add: roomy_def store_ok_def)
  obtain ib st1 where a: "allocatePage st = Some (Inr ib, st1)" "allocated kPageSize st ib st1" "ib \<le> cursor st + 2048"
    using allocatePage_spec [OF sp] by blast
  have f: "next_bid_index st1 = next_bid_index st" "disk st1 = disk st" "cursor st1 = ib + 512"
    using a(2) by (simp_all add: allocated_def same_but_maps_def)
  have lt: "ib < 2 ^ 63" "ib + 512 + k * 2 ^ 15 \<le> 2 ^ 63" using r a(3) by (simp_all add: roomy_def)
  have "\<exists>br st'. finishBTPage (fill_page n images) ptype n (length images) level st = Some (Inr br, st') \<and>
      cursor st' = ib + 512 \<and> \<not> dk_failed (disk st') \<and> (\<forall>ib n. dk_accepts (disk st') ib n)"
    using r a(1) f lt(1)
    by (auto simp: finishBTPage_def Let_def prog_simps next_bid_def writeAt_def roomy_def)
  then show ?thesis using finishBTPage_law [OF ok fit level] lt(2) unfolding roomy_def by fastforce
qed

lemma emit_leaf_roomy:
  assumes "roomy (Suc k) st" "tree_entry n im" "length es \<le> entriesPerPage n"
  shows "\<exists>be st'. emit_leaf ptype n key im es st = Some (Inr be, st') \<and> roomy k st'"
proof -
  have "entries_fit n (map im es)" using assms by (auto simp: entries_fit_def tree_entry_def)
  from finishBTPage_roomy [OF assms(1) this, of 0 ptype] show ?thesis
    by (auto simp: emit_leaf_def emitLeafPage_def prog_simps)
qed

lemma emit_branch_roomy:
  assumes "roomy (Suc k) st" "length bes \<le> entriesPerPage kSizeBTEntry" "level < 256"
  shows "\<exists>be st'. emit_branch ptype level bes st = Some (Inr be, st') \<and> roomy k st'"
proof -
  have "entries_fit 24 (map branch_image bes)" using assms by (auto simp: entries_fit_def branch_image_eq)
  from finishBTPage_roomy [OF assms(1) this assms(3), of ptype] show ?thesis
    by (auto simp: emit_branch_def emitBranchPage_def prog_simps)
qed

lemma build_levels_roomy:
  assumes "roomy (k + length bes) st" "bes \<noteq> []" "1 \<le> level" "level \<le> 8" "length bes \<le> 20 ^ (8 - level)"
  shows "\<exists>out st'. build_levels ptype level bes st = Some (Inr out, st') \<and> roomy k st'"
  using assms
proof (induction "9 - level" arbitrary: level bes st rule: less_induct)
  case less
  let ?F = "entriesPerPage kSizeBTEntry"
  have F: "?F = 20" by (simp add: entriesPerPage_def)
  show ?case
  proof (cases "1 < length bes")
    case True
    then have l8: "level < 8" using less.prems(3-5) by (cases "level = 8") auto
    let ?cs = "chunks ?F bes"
    have lc: "2 * length ?cs \<le> length bes" "?cs \<noteq> []"
      using True unfolding F by (auto simp: length_chunks chunks_eq_Nil)
    have "20 ^ (8 - level) = 20 * (20 :: nat) ^ (8 - Suc level)" using l8 by (metis Suc_diff_Suc power_Suc)
    then have lc2: "length ?cs \<le> 20 ^ (8 - Suc level)"
      unfolding F using less.prems(5) by (intro length_chunks_le) simp_all
    have "roomy ((k + length ?cs) + length ?cs) st" by (rule roomy_mono [OF less.prems(1)]) (use lc in simp)
    then have "\<exists>ups st1. mapM (emit_branch ptype level) ?cs st = Some (Inr ups, st1) \<and> roomy (k + length ?cs) st1"
      by (rule mapM_budget [rotated])
         (use emit_branch_roomy chunks_bounds [of _ ?F bes] less.prems(4) in auto)
    then obtain ups st1 where u: "mapM (emit_branch ptype level) ?cs st = Some (Inr ups, st1)" "roomy (k + length ?cs) st1"
      by blast
    have lu: "length ups = length ?cs" by (rule mapM_length [OF u(1)])
    have "\<exists>out st'. build_levels ptype (Suc level) ups st1 = Some (Inr out, st') \<and> roomy k st'"
      by (rule less.hyps) (use l8 lu lc lc2 u(2) in auto)
    then show ?thesis
      using True u(1) l8 by (subst build_levels.simps) (simp add: prog_simps)
  next
    case False
    then show ?thesis using roomy_mono [OF less.prems(1), of k]
      by (subst build_levels.simps) (simp add: ret_run)
  qed
qed

lemma buildBTree_roomy:
  assumes r: "roomy (k + 2 * length es + 1) st" and te: "tree_entry n im"
    and count: "length es \<le> entriesPerPage n * 20 ^ 7"
  shows "\<exists>br st'. buildBTree ptype n key im es st = Some (Inr br, st') \<and> roomy k st'"
proof (cases "es = []")
  case True
  have "entries_fit n (map im [])" using te by (simp add: entries_fit_def tree_entry_def)
  from finishBTPage_roomy [OF _ this, of k st 0 ptype] r True show ?thesis
    by (simp add: buildBTree_def emitLeafPage_def)
next
  case False
  let ?F = "entriesPerPage n"
  have F: "0 < ?F" using te div_le_mono2 [of n 255 488] by (simp add: tree_entry_def entriesPerPage_def div_greater_zero_iff)
  let ?cs = "chunks ?F es"
  have lc: "length ?cs \<le> length es" "?cs \<noteq> []" "length ?cs \<le> 20 ^ 7"
  proof -
    have "length es \<le> ?F * length es" using F by simp
    then show "length ?cs \<le> length es" by (rule length_chunks_le [OF F])
    show "?cs \<noteq> []" using F False by (simp add: chunks_eq_Nil)
    show "length ?cs \<le> 20 ^ 7" using length_chunks_le [OF F count] .
  qed
  have "roomy ((k + length ?cs) + length ?cs) st" by (rule roomy_mono [OF r]) (use lc in simp)
  then have "\<exists>ls st1. mapM (emit_leaf ptype n key im) ?cs st = Some (Inr ls, st1) \<and> roomy (k + length ?cs) st1"
    by (rule mapM_budget [rotated]) (use emit_leaf_roomy [OF _ te] chunks_bounds [of _ ?F es] in blast)
  then obtain ls st1 where l: "mapM (emit_leaf ptype n key im) ?cs st = Some (Inr ls, st1)" "roomy (k + length ?cs) st1"
    by blast
  have ll: "length ls = length ?cs" by (rule mapM_length [OF l(1)])
  have "\<exists>out st'. build_levels ptype 1 ls st1 = Some (Inr out, st') \<and> roomy k st'"
    by (rule build_levels_roomy) (use ll lc l(2) in auto)
  then show ?thesis using l(1) False by (auto simp: buildBTree_def prog_simps)
qed

lemma write_page_total:
  assumes "\<not> dk_failed (disk st)" "\<forall>ib n. dk_accepts (disk st) ib n" "ib < 2 ^ 63"
  shows "\<exists>st'. write_page ib ptype body sg st = Some (Inr (), st') \<and> \<not> dk_failed (disk st') \<and>
    (\<forall>ib n. dk_accepts (disk st') ib n)"
  using assms by (cases sg) (simp_all add: write_page_def Let_def prog_simps next_bid_def writeAt_def)

definition open_disk :: "ndb \<Rightarrow> bool" where
  "open_disk st \<longleftrightarrow> \<not> dk_failed (disk st) \<and> (\<forall>ib n. dk_accepts (disk st) ib n)"

lemma emitFixedPages_total:
  assumes "open_disk st" "file_end st = amap_pos (length (amaps st))" "file_end st \<le> 2 ^ 63"
  shows "\<exists>st'. emitFixedPages st = Some (Inr (), st') \<and> open_disk st'"
proof -
  let ?st0 = "st\<lparr>amap_free := sum_list (map (\<lambda>bits. free_slots bits * kBlockAlign) (amaps st))\<rparr>"
  have page: "\<exists>st'. write_page ib ptype body sg s = Some (Inr (), st') \<and> open_disk st'"
    if "open_disk s" "ib < 2 ^ 63" for ib ptype body sg s
    using write_page_total [of s ib ptype body sg] that by (simp add: open_disk_def)
  obtain st1 where 1: "write_page kDListPos kPTypeDList (replicate 496 0) True ?st0 = Some (Inr (), st1)" "open_disk st1"
  proof -
    have "open_disk ?st0" using assms(1) by (simp add: open_disk_def)
    then have "\<exists>st'. write_page kDListPos kPTypeDList (replicate 496 0) True ?st0 = Some (Inr (), st') \<and> open_disk st'"
      by (rule page) simp
    then show ?thesis using that by blast
  qed
  have am: "amaps st1 = amaps st" "file_end st1 = file_end st"
    using write_page_done(1) [OF 1(1)] by (simp_all add: same_tables_def)
  have pos: "amap_pos i < 2 ^ 63" if "(i, b) \<in> set (enumerate 0 (amaps st))" for i b
    using that amap_page_le [of i "length (amaps st)"] assms(2,3) by (simp add: in_set_enumerate_eq)
  let ?I = "\<lambda>s. open_disk s \<and> file_end s = file_end st"
  have keep: "\<exists>s'. write_page ib ptype body sg s = Some (Inr (), s') \<and> ?I s'" if "?I s" "ib < 2 ^ 63" for ib ptype body sg s
    using page [of s ib ptype body sg] that write_page_done(1) by (fastforce simp: same_tables_def)
  have "\<exists>st2. forM (\<lambda>(i, bits). write_page (amap_pos i) kPTypeAMap bits False) (enumerate 0 (amaps st1)) st1 =
      Some (Inr (), st2) \<and> ?I st2"
    by (rule forM_total) (use keep pos 1(2) am in auto)
  then obtain st2 where 2: "forM (\<lambda>(i, bits). write_page (amap_pos i) kPTypeAMap bits False) (enumerate 0 (amaps st1)) st1 =
      Some (Inr (), st2)" "?I st2" by blast
  have "\<exists>st3. forM (\<lambda>ib. write_page ib kPTypePMap (replicate 496 0xFF) False) (steps kFirstPMapPos (file_end st) kPMapSpan)
      (st2\<lparr>pmap_free := 0\<rparr>) = Some (Inr (), st3) \<and> ?I st3"
  proof (rule forM_total)
    show "\<exists>s'. write_page x kPTypePMap (replicate 496 0xFF) False s = Some (Inr (), s') \<and> ?I s'"
      if "x \<in> set (steps kFirstPMapPos (file_end st) kPMapSpan)" "?I s" for x s
      using keep [of s x] that assms(3) by (simp add: set_steps)
  qed (use 2(2) in \<open>simp add: open_disk_def\<close>)
  then show ?thesis using 1 2 by (auto simp: emitFixedPages_def prog_simps)
qed

lemma finish_roomy:
  assumes r: "roomy (2 * length (nbt st) + 2 * length (bbt st) + 18) st"
    and count: "length (nbt st) \<le> 15 * 20 ^ 7" "length (bbt st) \<le> 20 * 20 ^ 7"
  shows "\<exists>st'. finish st = Some (Inr (), st')"
proof (cases "ndb_finished st")
  case True
  then show ?thesis by (simp add: finish_def prog_simps)
next
  case False
  let ?st0 = "st\<lparr>ndb_finished := True, bbt := sort_key be_bid (bbt st), nbt := sort_key ne_nid (nbt st)\<rparr>"
  have "store_ok ?st0" using r store_ok_sorted by (simp add: roomy_def)
  then have r0: "roomy ((2 * length (bbt st) + 17) + 2 * length (nbt ?st0) + 1) ?st0"
    using r by (simp add: roomy_def algebra_simps)
  have c: "length (nbt ?st0) \<le> entriesPerPage kSizeNBTEntry * 20 ^ 7"
    using count by (simp add: entriesPerPage_def)
  obtain nr st1 where n: "buildBTree kPTypeNBT kSizeNBTEntry nbt_key nbt_image (nbt ?st0) ?st0 = Some (Inr nr, st1)"
      "roomy (2 * length (bbt st) + 17) st1"
    using buildBTree_roomy [OF r0 tree_entries(1) c] by blast
  have "bbt st1 = sort_key be_bid (bbt st)"
    using buildBTree_law [OF \<open>store_ok ?st0\<close> tree_entries(1) n(1)] by (simp add: grows_def)
  then have r1: "roomy (16 + 2 * length (bbt st1) + 1) st1" and c1: "length (bbt st1) \<le> entriesPerPage kSizeBBTEntry * 20 ^ 7"
    using n(2) count by (simp_all add: entriesPerPage_def add.commute)
  obtain br st2 where b: "buildBTree kPTypeBBT kSizeBBTEntry be_bid bbt_image (bbt st1) st1 = Some (Inr br, st2)" "roomy 16 st2"
    using buildBTree_roomy [OF r1 tree_entries(2) c1] by blast
  have ok2: "store_ok st2" and od2: "open_disk st2" and cur: "cursor st2 + 2 ^ 19 \<le> 2 ^ 63"
    using b(2) by (simp_all add: roomy_def open_disk_def)
  let ?fe = "amap_pos (length (amaps st2))"
  have "amap_pos (length (amaps st2) - 1) \<le> cursor st2" "amaps st2 \<noteq> []" using ok2 by (simp_all add: store_ok_def space_ok_def)
  then have fe: "?fe \<le> cursor st2 + kAMapSpan" by (cases "amaps st2") (simp_all add: amap_pos_def)
  have "\<exists>st3. pad_file st2 = Some (Inr (), st3)"
    using od2 cur by (auto simp: pad_file_def prog_simps Let_def writeAt_def open_disk_def)
  then obtain st3 where 3: "pad_file st2 = Some (Inr (), st3)" by blast
  note p = pad_file_done [OF ok2 3]
  have od3: "open_disk st3" using od2 unfolding open_disk_def pad_file_eq [OF ok2 3] by auto
  obtain st4 where 4: "emitFixedPages st3 = Some (Inr (), st4)" "open_disk st4"
    using emitFixedPages_total [OF od3] p(4,8) fe cur by auto
  have "\<exists>st5. writeHeader nr br st4 = Some (Inr (), st5) \<and> open_disk st5"
    using 4(2) by (auto simp: writeHeader_def writeAt_def open_disk_def)
  then obtain st5 where 5: "writeHeader nr br st4 = Some (Inr (), st5)" "open_disk st5" by blast
  then have "\<exists>st'. flush_close st5 = Some (Inr (), st')" by (simp add: flush_close_def open_disk_def Let_def)
  then show ?thesis
    using n(1) b(1) 3 4(1) 5(1) False by (auto simp: finish_def prog_simps)
qed


subsection \<open>Properties\<close>

text \<open>
  C13: The finished file is self-contained. When \<open>finish\<close> returns, a reader that has only the bytes
  of the file (header with both checksums, then the block or node B-tree down to the leaf, every
  page's checks included, then the block with its trailer's) finds every block ever written, and
  finds a node under exactly the NIDs that were added, with its fields.
\<close>

theorem finish_readable:
  assumes "store_ok st" and "\<not> ndb_finished st" and "distinct (map ne_nid (nbt st))"
    and "finish st = Some (Inr (), st')"
  shows "(\<forall>b x. lookup_block st b = Some x \<longrightarrow> file_block (disk st') b = Some x) \<and>
    (\<forall>n. file_node (disk st') n = find (\<lambda>e. ne_nid e = n) (nbt st))"
  using finish_file_block [OF assms(1,2,4)] finish_file_node [OF assms(1,2,4,3)] by blast

text \<open>A writer holding one small value under one node, for the witnesses.\<close>

lemma one_node:
  obtains st b st1 st2 where "NdbWriter_new ''mail.pst'' True (\<lambda>_ _. True) = Inr st"
    "emitBlock [1, 2, 3] False st = Some (Inr b, st1)"
    "addNode 0x21 b 0 0 st1 = Some (Inr (), st2)" "roomy 40 st2" "\<not> ndb_finished st2"
    "nbt st2 = [\<lparr>ne_nid = 0x21, ne_data = b, ne_sub = 0, ne_parent = 0\<rparr>]" "length (bbt st2) = 1"
    "lookup_block st2 b = Some [1, 2, 3]"
proof -
  obtain st where st: "NdbWriter_new ''mail.pst'' True (\<lambda>_ _. True) = Inr st"
    using fresh_exists by blast
  have r: "roomy (Suc 40) st" by (rule fresh_roomy [OF st]) simp
  have ok: "store_ok st" using r by (simp add: roomy_def)
  note new = NdbWriter_new_ok [OF st]
  obtain b st1 where 1: "emitBlock [1, 2, 3] False st = Some (Inr b, st1)" "roomy 40 st1"
    using emitBlock_roomy [OF r, of "[1, 2, 3]" False] by auto
  have len: "length [1, 2, 3 :: byte] \<le> kMaxBlockData" by simp
  have tabs: "nbt st1 = [] \<and> length (bbt st1) = 1 \<and> \<not> ndb_finished st1"
    by (rule emitBlock_steps [OF ok len, of False])
       (use 1(1) new in \<open>auto simp: Let_def allocated_def same_but_maps_def split: if_splits\<close>)
  let ?st2 = "st1\<lparr>nbt := [\<lparr>ne_nid = 0x21, ne_data = b, ne_sub = 0, ne_parent = 0\<rparr>]\<rparr>"
  show thesis
  proof (rule that [OF st 1(1)])
    show "addNode 0x21 b 0 0 st1 = Some (Inr (), ?st2)" using tabs by (simp add: addNode_def modM_run)
    show "roomy 40 ?st2" using 1(2) by (simp add: roomy_def)
    show "lookup_block ?st2 b = Some [1, 2, 3]"
      using emitBlock_look [OF ok 1(1)] by simp
  qed (use tabs in simp_all)
qed

lemma finish_readable_witness:
  "\<exists>st b st1 st2 st3. NdbWriter_new ''mail.pst'' True (\<lambda>_ _. True) = Inr st \<and>
     emitBlock [1, 2, 3] False st = Some (Inr b, st1) \<and> addNode 0x21 b 0 0 st1 = Some (Inr (), st2) \<and>
     finish st2 = Some (Inr (), st3) \<and> file_block (disk st3) b = Some [1, 2, 3] \<and>
     file_node (disk st3) 0x21 = Some \<lparr>ne_nid = 0x21, ne_data = b, ne_sub = 0, ne_parent = 0\<rparr> \<and>
     file_node (disk st3) 0x122 = None"
proof -
  obtain st b st1 st2 where s: "NdbWriter_new ''mail.pst'' True (\<lambda>_ _. True) = Inr st"
    "emitBlock [1, 2, 3] False st = Some (Inr b, st1)"
    "addNode 0x21 b 0 0 st1 = Some (Inr (), st2)" "roomy 40 st2" "\<not> ndb_finished st2"
    "nbt st2 = [\<lparr>ne_nid = 0x21, ne_data = b, ne_sub = 0, ne_parent = 0\<rparr>]" "length (bbt st2) = 1"
    "lookup_block st2 b = Some [1, 2, 3]" by (rule one_node)
  have "roomy (2 * length (nbt st2) + 2 * length (bbt st2) + 18) st2"
    by (rule roomy_mono [OF s(4)]) (simp add: s(6,7))
  then obtain st3 where f: "finish st2 = Some (Inr (), st3)"
    using finish_roomy [of st2] s(6,7) by auto
  have "store_ok st2" "distinct (map ne_nid (nbt st2))" using s(4,6) by (simp_all add: roomy_def)
  from finish_readable [OF this(1) s(5) this(2) f] show ?thesis
    using s(1-3,6,8) f by auto
qed

text \<open>
  C14: \<open>finish\<close> succeeds. In a file that takes every write, with room for the pages, no B-tree of up
  to \<open>15 * 20 ^ 7\<close> nodes and \<open>20 * 20 ^ 7\<close> blocks outgrows the eight levels the builder allows,
  and \<open>finish\<close> returns; called again it changes nothing.
\<close>

theorem finish_returns:
  assumes "roomy (2 * length (nbt st) + 2 * length (bbt st) + 18) st"
    and "length (nbt st) \<le> 15 * 20 ^ 7" and "length (bbt st) \<le> 20 * 20 ^ 7"
  shows "\<exists>st'. finish st = Some (Inr (), st') \<and> finish st' = Some (Inr (), st')"
proof -
  obtain st' where run: "finish st = Some (Inr (), st')" using finish_roomy [OF assms] by blast
  have "ndb_finished st'"
  proof (cases "ndb_finished st")
    case True
    then show ?thesis using run by (simp add: finish_def prog_simps)
  next
    case False
    then show ?thesis using finish_done(10) [OF _ False run] assms(1) by (simp add: roomy_def)
  qed
  then show ?thesis using run by (simp add: finish_def prog_simps)
qed

lemma finish_returns_witness:
  "\<exists>st st'. NdbWriter_new ''mail.pst'' True (\<lambda>_ _. True) = Inr st \<and> finish st = Some (Inr (), st') \<and>
     finish st' = Some (Inr (), st')"
proof -
  obtain st where st: "NdbWriter_new ''mail.pst'' True (\<lambda>_ _. True) = Inr st"
    using fresh_exists by blast
  have "roomy (2 * length (nbt st) + 2 * length (bbt st) + 18) st"
    by (rule fresh_roomy [OF st]) (simp add: NdbWriter_new_ok [OF st])
  from finish_returns [OF this] show ?thesis using st NdbWriter_new_ok [OF st] by auto
qed

text \<open>
  The file \<open>finish\<close> leaves is a whole number of allocation-map spans long, the header's end of
  file says so, and each span's map page, with no signature and its own offset for a BID, holds
  the bitmap of the span.
\<close>

theorem finish_maps:
  assumes "store_ok st" and "\<not> ndb_finished st" and "finish st = Some (Inr (), st')"
  shows "dk_size (disk st') = kFirstAMapPos + length (amaps st') * kAMapSpan \<and>
    read_eof (disk st') = of_nat (dk_size (disk st')) \<and> cursor st \<le> dk_size (disk st') \<and>
    (\<forall>i < length (amaps st').
       take 496 (disk_slice (kFirstAMapPos + i * kAMapSpan) kPageSize (disk st')) = amaps st' ! i \<and>
       drop 496 (disk_slice (kFirstAMapPos + i * kAMapSpan) kPageSize (disk st')) =
         [kPTypeAMap, kPTypeAMap, 0, 0] @ le_bytes 4 (computeCrc (amaps st' ! i)) @
         le_bytes 8 (of_nat (kFirstAMapPos + i * kAMapSpan) :: 64 word))"
proof -
  note d = finish_done [OF assms]
  have eq: "kFirstAMapPos + i * kAMapSpan = amap_pos i" for i by (simp add: amap_pos_def)
  have wf: "length (amaps st' ! i) = 496" if "i < length (amaps st')" for i
    using d(5) that by (simp add: space_ok_def maps_ok_def amaps_wf_def)
  have page: "disk_slice (amap_pos i) kPageSize (disk st') =
      amaps st' ! i @ [kPTypeAMap, kPTypeAMap] @ le_bytes 2 (0 :: 16 word) @
      le_bytes 4 (computeCrc (amaps st' ! i)) @ le_bytes 8 (of_nat (amap_pos i) :: 64 word)"
    if i: "i < length (amaps st')" for i
  proof -
    let ?body = "memcpy 0 (take 496 (amaps st' ! i)) (replicate 512 (0 :: byte))"
    have "take 496 ?body = amaps st' ! i" using wf [OF i] by (simp add: memcpy_def)
    moreover have "length ?body = 512" by simp
    ultimately show ?thesis unfolding d(7) [OF i] page_of_def by (simp add: page_trailer_eq)
  qed
  have zero: "le_bytes 2 (0 :: 16 word) = [0, 0]" by (simp add: le_bytes_def numeral_2_eq_2)
  have "cursor st \<le> amap_pos (length (amaps st'))" using d(5,6) by (simp add: space_ok_def)
  then show ?thesis unfolding eq using d(3,4,9) page wf by (simp add: zero)
qed

lemma finish_maps_witness:
  "\<exists>st st'. NdbWriter_new ''mail.pst'' True (\<lambda>_ _. True) = Inr st \<and> finish st = Some (Inr (), st') \<and>
     dk_size (disk st') = kFirstAMapPos + length (amaps st') * kAMapSpan"
proof -
  obtain st where st: "NdbWriter_new ''mail.pst'' True (\<lambda>_ _. True) = Inr st"
    using fresh_exists by blast
  have "roomy (2 * length (nbt st) + 2 * length (bbt st) + 18) st"
    by (rule fresh_roomy [OF st]) (simp add: NdbWriter_new_ok [OF st])
  then obtain st' where f: "finish st = Some (Inr (), st')"
    using finish_roomy [of st] NdbWriter_new_ok [OF st] by auto
  from finish_maps [OF store_ok_new [OF st] _ f] show ?thesis using st f NdbWriter_new_ok [OF st] by auto
qed

text \<open>
  The header publishes a usable next index for every node type: it exceeds the index of every
  node of that type in the store, and is never a reserved one.
\<close>

theorem finish_next_nids:
  assumes "store_ok st" and "\<not> ndb_finished st" and "finish st = Some (Inr (), st')" and "t < 32"
  shows "kFirstUserNidIndex \<le> read_next_nid (disk st') t \<and>
    (\<forall>e \<in> set (nbt st). unat (nidType (ne_nid e)) = t \<longrightarrow> nidIndex (ne_nid e) < read_next_nid (disk st') t)"
  using finish_done(8) [OF assms] next_nids_mark(1) [of _ "sort_key ne_nid (nbt st)"] next_nids_mark(2) [OF assms(4)]
  by auto

lemma finish_next_nids_witness:
  "\<exists>st b st1 st2 st3. NdbWriter_new ''mail.pst'' True (\<lambda>_ _. True) = Inr st \<and>
     emitBlock [1, 2, 3] False st = Some (Inr b, st1) \<and> addNode 0x21 b 0 0 st1 = Some (Inr (), st2) \<and>
     finish st2 = Some (Inr (), st3) \<and> kFirstUserNidIndex \<le> read_next_nid (disk st3) 1"
proof -
  obtain st b st1 st2 where s: "NdbWriter_new ''mail.pst'' True (\<lambda>_ _. True) = Inr st"
    "emitBlock [1, 2, 3] False st = Some (Inr b, st1)"
    "addNode 0x21 b 0 0 st1 = Some (Inr (), st2)" "roomy 40 st2" "\<not> ndb_finished st2"
    "nbt st2 = [\<lparr>ne_nid = 0x21, ne_data = b, ne_sub = 0, ne_parent = 0\<rparr>]" "length (bbt st2) = 1"
    "lookup_block st2 b = Some [1, 2, 3]" by (rule one_node)
  have "roomy (2 * length (nbt st2) + 2 * length (bbt st2) + 18) st2"
    by (rule roomy_mono [OF s(4)]) (simp add: s(6,7))
  then obtain st3 where f: "finish st2 = Some (Inr (), st3)"
    using finish_roomy [of st2] s(6,7) by auto
  have "store_ok st2" using s(4) by (simp add: roomy_def)
  from finish_next_nids [OF this s(5) f, of 1] show ?thesis using s(1-3) f by auto
qed

end
