(* ===== verification/Pst_Writer.thy ===== *)
theory Pst_Writer
  imports Pst_Message Ndb_Btree
begin

section \<open>The PST writer (src/pst/pst_writer.h, src/pst/pst_writer.cpp, class PstWriter)\<close>

text \<open>
  The face of the PST module: folders are created, messages dropped into them, and \<open>finish\<close> writes
  what is left: the folders' objects and tables, the nodes Outlook expects of every store, the
  message store and the name map. The random record key and the clock are arguments of the
  constructor.
\<close>

subsection \<open>State\<close>

record folder =
  fd_nid :: nid
  fd_parent :: nid
  fd_name :: string
  fd_children :: "nid list"
  fd_contents :: twriter
  fd_message_count :: nat
  fd_unread :: "32 word"

record pst =
  pw_ndb :: ndb
  pw_names :: nameid
  pw_folders :: "folder list"
  pw_guid :: bytes
  pw_ipm_subtree :: nid
  pw_deleted_items :: nid
  pw_sent_items :: nid
  pw_outbox :: nid
  pw_search_root :: nid
  pw_views :: nid
  pw_common_views :: nid
  pw_next_folder :: "32 word"
  pw_next_message :: "32 word"
  pw_finished :: bool
  pw_clock :: "nat \<Rightarrow> int"

definition pw_on_ndb :: "(ndb, 'a) prog \<Rightarrow> (pst, 'a) prog" where
  "pw_on_ndb = zoomM pw_ndb (\<lambda>d s. s\<lparr>pw_ndb := d\<rparr>)"

text \<open>A \<open>SubnodeAllocator\<close> that lives for one node.\<close>

definition pw_with_subs :: "(subs, 'a) prog \<Rightarrow> (pst, 'a) prog" where
  "pw_with_subs = zoomM (\<lambda>s. SubnodeAllocator_new (pw_ndb s)) (\<lambda>u s. s\<lparr>pw_ndb := sa_ndb u\<rparr>)"

definition pw_build :: "(build, 'a) prog \<Rightarrow> (pst, 'a) prog" where
  "pw_build = zoomM
     (\<lambda>s. \<lparr>bd_subs = SubnodeAllocator_new (pw_ndb s), bd_names = pw_names s, bd_clock = pw_clock s\<rparr>)
     (\<lambda>b s. s\<lparr>pw_ndb := sa_ndb (bd_subs b), pw_names := bd_names b, pw_clock := bd_clock b\<rparr>)"

text \<open>The contents table of the \<open>i\<close>-th folder, on the writer's file.\<close>

definition upd_folder :: "nat \<Rightarrow> (folder \<Rightarrow> folder) \<Rightarrow> pst \<Rightarrow> pst" where
  "upd_folder i f s = s\<lparr>pw_folders := (pw_folders s)[i := f (pw_folders s ! i)]\<rparr>"

definition pw_contents :: "nat \<Rightarrow> (tstate, 'a) prog \<Rightarrow> (pst, 'a) prog" where
  "pw_contents i = zoomM (\<lambda>s. \<lparr>ts_ndb = pw_ndb s, ts_w = fd_contents (pw_folders s ! i)\<rparr>)
     (\<lambda>t s. upd_folder i (\<lambda>f. f\<lparr>fd_contents := ts_w t\<rparr>) (s\<lparr>pw_ndb := ts_ndb t\<rparr>))"

subsection \<open>Columns\<close>

definition contentsColumns :: "prop_tag list" where
  "contentsColumns = [PR_SUBJECT, PR_SENDER_NAME, PR_DISPLAY_TO,
     PR_MESSAGE_CLASS, PR_MESSAGE_DELIVERY_TIME, PR_MESSAGE_FLAGS,
     PR_MESSAGE_SIZE, PR_HASATTACH, PR_IMPORTANCE,
     PR_SENSITIVITY, PR_CLIENT_SUBMIT_TIME, PR_SENT_REPRESENTING_NAME,
     PR_MESSAGE_TO_ME, PR_MESSAGE_CC_ME, PR_CONVERSATION_TOPIC,
     PR_CONVERSATION_INDEX, PR_DISPLAY_CC, PR_MESSAGE_STATUS,
     PR_REPL_ITEMID, PR_REPL_CHANGENUM, PR_REPL_VERSION_HISTORY,
     PR_REPL_FLAGS, PR_REPL_COPIEDFROM_VERSION,
     PR_REPL_COPIEDFROM_ITEMID, PR_ITEM_TEMPORARY_FLAGS,
     PR_LAST_MODIFICATION_TIME, PR_CONVERSATION_ID,
     PR_SECURE_SUBMIT_FLAGS]"

definition hierarchyColumns :: "prop_tag list" where
  "hierarchyColumns = [PR_DISPLAY_NAME, PR_CONTENT_COUNT, PR_CONTENT_UNREAD,
     PR_SUBFOLDERS, PR_CONTAINER_CLASS, PR_REPL_ITEMID,
     PR_REPL_CHANGENUM, PR_REPL_VERSION_HISTORY, PR_REPL_FLAGS,
     PR_PST_HIDDEN_COUNT, PR_PST_HIDDEN_UNREAD]"

definition associatedColumns :: "prop_tag list" where
  "associatedColumns = [PR_MESSAGE_CLASS, PR_DISPLAY_NAME, PR_VD_NAME, PR_VD_FLAGS,
     PR_VD_VERSION, PR_VD_STRINGS, PR_VIEW_DESCRIPTOR_FLAGS,
     PR_VIEW_DESCRIPTOR_LINKTO, PR_VIEW_DESCRIPTOR_VIEWFLD,
     PR_VIEW_DESCRIPTOR_NAME, PR_VIEW_DESCRIPTOR_VERSION]"

subsection \<open>Folders\<close>

primrec find_folder :: "nat \<Rightarrow> nid \<Rightarrow> folder list \<Rightarrow> nat option" where
  "find_folder i n [] = None"
| "find_folder i n (f # fs) = (if fd_nid f = n then Some i else find_folder (Suc i) n fs)"

text \<open>\<open>folder(id)\<close>: the position of the first folder with that NID.\<close>

definition folder_at :: "nid \<Rightarrow> (pst, nat) prog" where
  "folder_at n = bindM (getM (\<lambda>s. find_folder 0 n (pw_folders s))) (\<lambda>r. case r of
       Some i \<Rightarrow> ret i
     | None \<Rightarrow> throw (PstError (''unknown folder id '' @ to_string (unat n))))"

definition add_child :: "nid \<Rightarrow> nid \<Rightarrow> folder list \<Rightarrow> folder list" where
  "add_child parent n fs =
     (case find_folder 0 parent fs of
        None \<Rightarrow> fs
      | Some i \<Rightarrow> fs[i := (fs ! i)\<lparr>fd_children := fd_children (fs ! i) @ [n]\<rparr>])"

definition makeFolder :: "nid \<Rightarrow> string \<Rightarrow> nid \<Rightarrow> pst \<Rightarrow> nid \<times> pst" where
  "makeFolder parent name forced_nid s =
     (let (n, s) = (if forced_nid \<noteq> 0 then (forced_nid, s)
                    else (makeNid kNidTypeNormalFolder (pw_next_folder s), s\<lparr>pw_next_folder := pw_next_folder s + 1\<rparr>));
          f = \<lparr>fd_nid = n, fd_parent = parent, fd_name = name, fd_children = [],
               fd_contents = TableContextWriter_new contentsColumns, fd_message_count = 0, fd_unread = 0\<rparr>;
          s = s\<lparr>pw_folders := pw_folders s @ [f]\<rparr>
      in (n, if parent \<noteq> 0 then s\<lparr>pw_folders := add_child parent n (pw_folders s)\<rparr> else s))"

definition createFolder :: "nid \<Rightarrow> string \<Rightarrow> (pst, nid) prog" where
  "createFolder parent name =
     bindM (folder_at parent) (\<lambda>_. \<lambda>s. case makeFolder parent name 0 s of (n, s') \<Rightarrow> Some (Inr n, s'))"

subsection \<open>Construction\<close>

definition init :: "pst \<Rightarrow> pst" where
  "init s =
     (let names = snd (idForString kPsPublicStrings ''Keywords'' (pw_names s));
          s = s\<lparr>pw_names := ensureGuid kPsInternetHeaders names\<rparr>;
          (_, s) = makeFolder 0 ''Root - Mailbox'' kNidRootFolder s;
          s = upd_folder 0 (\<lambda>f. f\<lparr>fd_parent := kNidRootFolder\<rparr>) s;
          (n, s) = makeFolder kNidRootFolder ''Top of Personal Folders'' 0 s; s = s\<lparr>pw_ipm_subtree := n\<rparr>;
          (n, s) = makeFolder (pw_ipm_subtree s) ''Deleted Items'' 0 s; s = s\<lparr>pw_deleted_items := n\<rparr>;
          (n, s) = makeFolder (pw_ipm_subtree s) ''Sent Items'' 0 s; s = s\<lparr>pw_sent_items := n\<rparr>;
          (n, s) = makeFolder (pw_ipm_subtree s) ''Outbox'' 0 s; s = s\<lparr>pw_outbox := n\<rparr>;
          (n, s) = makeFolder kNidRootFolder ''Search Root'' 0 s; s = s\<lparr>pw_search_root := n\<rparr>;
          (n, s) = makeFolder kNidRootFolder ''Views'' 0 s; s = s\<lparr>pw_views := n\<rparr>;
          (n, s) = makeFolder kNidRootFolder ''Common Views'' 0 s
      in s\<lparr>pw_common_views := n\<rparr>)"

definition PstWriter_blank :: "ndb \<Rightarrow> bytes \<Rightarrow> (nat \<Rightarrow> int) \<Rightarrow> pst" where
  "PstWriter_blank d guid clock =
     \<lparr>pw_ndb = d, pw_names = NameIdMap_new, pw_folders = [], pw_guid = guid, pw_ipm_subtree = 0, pw_deleted_items = 0,
      pw_sent_items = 0, pw_outbox = 0, pw_search_root = 0, pw_views = 0, pw_common_views = 0,
      pw_next_folder = kFirstUserNidIndex, pw_next_message = kFirstUserNidIndex, pw_finished = False, pw_clock = clock\<rparr>"

text \<open>With a record key of 16 bytes, and with one drawn from \<open>random_device\<close>.\<close>

definition PstWriter_new :: "string \<Rightarrow> bytes \<Rightarrow> bool \<Rightarrow> (nat \<Rightarrow> nat \<Rightarrow> bool) \<Rightarrow> (nat \<Rightarrow> int) \<Rightarrow> error + pst" where
  "PstWriter_new path record_key opens accepts clock =
     (case NdbWriter_new path opens accepts of
        Inl e \<Rightarrow> Inl e
      | Inr d \<Rightarrow> Inr (init (PstWriter_blank d (take 16 record_key) clock)))"

definition random_key :: "(nat \<Rightarrow> 32 word) \<Rightarrow> bytes" where
  "random_key rd = map (\<lambda>i. ucast (rd i AND 0xFF)) [0..<16]"

definition PstWriter_random :: "string \<Rightarrow> (nat \<Rightarrow> 32 word) \<Rightarrow> bool \<Rightarrow> (nat \<Rightarrow> nat \<Rightarrow> bool) \<Rightarrow> (nat \<Rightarrow> int) \<Rightarrow> error + pst" where
  "PstWriter_random path rd = PstWriter_new path (random_key rd)"

subsection \<open>Nodes\<close>

text \<open>\<open>writeNodeFromHeap\<close>, with the serializer that fills the allocator before it.\<close>

definition writeNodeFromHeap :: "nid \<Rightarrow> nid \<Rightarrow> (subs, bytes) prog \<Rightarrow> (pst, unit) prog" where
  "writeNodeFromHeap n parent serialized =
     bindM (pw_with_subs (bindM serialized store_heap)) (\<lambda>(data, sub).
     pw_on_ndb (addNode n data sub parent))"

subsection \<open>Messages\<close>

definition contents_row :: "nid \<Rightarrow> message \<Rightarrow> 32 word \<Rightarrow> 32 word \<Rightarrow> (tstate, unit) prog" where
  "contents_row n msg flags sz =
     (let m = fields_of msg in
      bindM (beginRow n) (\<lambda>_.
      bindM (tw_setString PR_SUBJECT (m_subject m)) (\<lambda>_.
      bindM (tw_setString PR_SENDER_NAME (display_name (m_from m))) (\<lambda>_.
      bindM (tw_setString PR_DISPLAY_TO (joinMailboxes (m_to m))) (\<lambda>_.
      bindM (tw_setString PR_MESSAGE_CLASS (if message_class m = [] then ''IPM.Note'' else message_class m)) (\<lambda>_.
      bindM (tw_setTime PR_MESSAGE_DELIVERY_TIME (unixToFiletime (delivered m))) (\<lambda>_.
      bindM (tw_setInt32 PR_MESSAGE_FLAGS flags) (\<lambda>_.
      bindM (tw_setInt32 PR_MESSAGE_SIZE sz) (\<lambda>_.
      bindM (tw_setBool PR_HASATTACH (attachments msg \<noteq> [])) (\<lambda>_.
      endRow))))))))))"

definition addMessage :: "nid \<Rightarrow> message \<Rightarrow> (pst, unit) prog" where
  "addMessage folder_id msg =
     bindM (folder_at folder_id) (\<lambda>i.
     bindM (getM (\<lambda>s. makeNid kNidTypeNormalMessage (pw_next_message s))) (\<lambda>n.
     bindM (modM (\<lambda>s. s\<lparr>pw_next_message := pw_next_message s + 1\<rparr>)) (\<lambda>_.
     bindM (getM pw_guid) (\<lambda>guid.
     bindM (pw_build
       (bindM (buildMessage guid msg n False) (\<lambda>(heap, flags, size).
        bindM (bd_on_subs (store_heap heap)) (\<lambda>(data, sub). ret (data, sub, flags, size))))) (\<lambda>(data, sub, flags, size).
     bindM (pw_on_ndb (addNode n data sub folder_id)) (\<lambda>_.
     bindM (pw_contents i (contents_row n msg flags size)) (\<lambda>_.
     modM (upd_folder i (\<lambda>f. f\<lparr>fd_message_count := fd_message_count f + 1,
       fd_unread := (if seen (fields_of msg) then fd_unread f else fd_unread f + 1)\<rparr>)))))))))"

subsection \<open>Finalisation\<close>

definition kTemplates :: "(nid \<times> prop_tag list) list" where
  "kTemplates =
     [(makeNid kNidTypeHierarchyTable 0x30,
       [0x0E300102, 0x0E330014, 0x0E340102, 0x0E380003, 0x3001001F, 0x36020003,
        0x36030003, 0x360A000B, 0x3613001F, 0x66350003, 0x66360003]),
      (makeNid kNidTypeContentsTable 0x30,
       [0x00170003, 0x001A001F, 0x00360003, 0x0037001F, 0x00390040, 0x0042001F,
        0x0057000B, 0x0058000B, 0x0070001F, 0x00710102, 0x0E03001F, 0x0E04001F,
        0x0E060040, 0x0E070003, 0x0E080003, 0x0E170003, 0x0E300102, 0x0E330014,
        0x0E340102, 0x0E380003, 0x0E3C0102, 0x0E3D0102, 0x10970003, 0x30080040,
        0x30130102, 0x65C60003]),
      (makeNid kNidTypeAssocContentsTable 0x30,
       [0x001A001F, 0x0E070003, 0x0E170003, 0x3001001F, 0x6800001F, 0x6803000B,
        0x68051003, 0x682F001F, 0x70030003, 0x70040102, 0x70050102, 0x7006001F,
        0x70070003]),
      (makeNid kNidTypeSearchContentsTable 0x30,
       [0x00170003, 0x001A001F, 0x00360003, 0x0037001F, 0x0042001F, 0x0057000B,
        0x0058000B, 0x0E03001F, 0x0E04001F, 0x0E05001F, 0x0E060040, 0x0E070003,
        0x0E080003, 0x0E170003, 0x0E2A000B, 0x30080040, 0x67F10003]),
      (makeNid kNidTypeReceiveFolderTable 0x31, [0x001A001F, 0x66050003]),
      (makeNid kNidTypeOutgoingQueueTable 0x32,
       [0x000F0040, 0x00390040, 0x0E070003, 0x0E100003, 0x0E140003, 0x0E29001F,
        0x67F10003]),
      (makeNid kNidTypeAttachmentTable 0x33,
       [0x0E200003, 0x3704001F, 0x37050003, 0x370B0003]),
      (makeNid kNidTypeRecipientTable 0x34,
       [0x0C150003, 0x0E0F000B, 0x0FF90102, 0x0FFE0003, 0x0FFF0102, 0x3001001F,
        0x3002001F, 0x3003001F, 0x300B0102, 0x39000003, 0x39FF001F, 0x3A40000B]),
      (makeNid 0x16 0x35, [0x0E330014, 0x0E370102, 0x0E380003]),
      (makeNid 0x17 0x36,
       [0x001A001F, 0x0E300102, 0x0E310102, 0x0E330014, 0x0E340102, 0x0E380003,
        0x0E3E0102]),
      (makeNid 0x18 0x37, [0x0E330014, 0x30070040])]"

definition receive_folder_nid :: nid where
  "receive_folder_nid = makeNid kNidTypeReceiveFolderTable 0x31"

text \<open>The receive-folder table has its default row; the other templates have none.\<close>

definition template_rows :: "nid \<Rightarrow> nid \<Rightarrow> (table, unit) prog" where
  "template_rows n subtree =
     (if n = receive_folder_nid then
        bindM (addRow subtree) (\<lambda>row.
        bindM (tc_setString row PR_MESSAGE_CLASS []) (\<lambda>_.
        tc_setInt32 row PR_PST_RECEIVE_FOLDER subtree))
      else ret ())"

definition write_template :: "nid \<times> prop_tag list \<Rightarrow> (pst, unit) prog" where
  "write_template = (\<lambda>(n, columns).
     bindM (getM pw_ipm_subtree) (\<lambda>subtree.
     bindM (local_object (new_table columns) (template_rows n subtree)) (\<lambda>tc.
     writeNodeFromHeap n 0 (table_serialize tc))))"

text \<open>An index of Outlook's, empty: the user root refers to the tree's header.\<close>

definition index_heap :: "byte \<Rightarrow> (heap, unit) prog" where
  "index_heap key_size =
     bindM (alloc [0, 0, 0, 0]) (\<lambda>slot.
     bindM (buildBth key_size 4 []) (\<lambda>bth.
     bindM (patch slot (put32 [] bth)) (\<lambda>_.
     modM (setUserRoot slot))))"

definition write_index :: "nid \<times> byte \<times> byte \<Rightarrow> (pst, unit) prog" where
  "write_index = (\<lambda>(n, client_sig, key_size).
     bindM (local_object (HeapNode_new client_sig) (index_heap key_size)) (\<lambda>hn.
     writeNodeFromHeap n 0 (ret (serialize hn))))"

definition writeReservedNodes :: "(pst, unit) prog" where
  "writeReservedNodes =
     bindM (forM write_template kTemplates) (\<lambda>_.
     bindM (pw_on_ndb (bindM (writeData []) (\<lambda>data. addNode kNidSearchActivityList data 0 0))) (\<lambda>_.
     bindM (pw_on_ndb (addNode kNidSearchDomainObject 0 0 0)) (\<lambda>_.
     bindM (forM write_index [(kNidHmpGuidMap, kHnSigHmpGuid, 16), (kNidHmpIdMap, kHnSigHmpId, 4)]) (\<lambda>_.
     forM (\<lambda>n. pw_on_ndb (addNode n 0 0 0)) [kNidSearchManagementQ, 0xE41, 0xEC1, 0xF21]))))"

definition message_store_pc :: "pst \<Rightarrow> pc" where
  "message_store_pc s =
     (let entry = entryId (pw_guid s) in
      set_all
       [setBinary PR_RECORD_KEY (pw_guid s), setInt32 PR_PST_PASSWORD 0, setString PR_DISPLAY_NAME ''Personal Folders'',
        setBinary PR_IPM_SUBTREE_ENTRYID (entry (pw_ipm_subtree s)), setBinary PR_IPM_WASTEBASKET_ENTRYID (entry (pw_deleted_items s)),
        setBinary PR_IPM_SENTMAIL_ENTRYID (entry (pw_sent_items s)), setBinary PR_IPM_OUTBOX_ENTRYID (entry (pw_outbox s)),
        setBinary PR_FINDER_ENTRYID (entry (pw_search_root s)), setBinary PR_VIEWS_ENTRYID (entry (pw_views s)),
        setBinary PR_COMMON_VIEWS_ENTRYID (entry (pw_common_views s)), setBinary PR_ENTRYID (entry kNidRootFolder),
        setInt32 PR_VALID_FOLDER_MASK (0x01 OR 0x04 OR 0x08 OR 0x10 OR 0x20 OR 0x40 OR 0x80)] [])"

definition writeMessageStore :: "(pst, unit) prog" where
  "writeMessageStore = bindM (getM message_store_pc) (\<lambda>pc. writeNodeFromHeap kNidMessageStore 0 (pc_serialize pc))"

definition writeNameIdMap :: "(pst, unit) prog" where
  "writeNameIdMap =
     bindM (getM (\<lambda>s. buildPropertyContext (pw_names s))) (\<lambda>pc. writeNodeFromHeap kNidNameToIdMap 0 (pc_serialize pc))"

definition folder_pc :: "bytes \<Rightarrow> folder \<Rightarrow> pc" where
  "folder_pc guid f =
     set_all
       [setString PR_DISPLAY_NAME (fd_name f), setInt32 PR_CONTENT_COUNT (of_nat (fd_message_count f)),
        setInt32 PR_CONTENT_UNREAD (fd_unread f), setBool PR_SUBFOLDERS (fd_children f \<noteq> []),
        setString PR_CONTAINER_CLASS ''IPF.Note'', setBinary PR_ENTRYID (entryId guid (fd_nid f)),
        setBinary PR_RECORD_KEY (entryId guid (fd_nid f))] []"

definition hierarchy_row :: "folder \<Rightarrow> (table, unit) prog" where
  "hierarchy_row c =
     bindM (addRow (fd_nid c)) (\<lambda>r.
     bindM (tc_setString r PR_DISPLAY_NAME (fd_name c)) (\<lambda>_.
     bindM (tc_setInt32 r PR_CONTENT_COUNT (of_nat (fd_message_count c))) (\<lambda>_.
     bindM (tc_setInt32 r PR_CONTENT_UNREAD (fd_unread c)) (\<lambda>_.
     bindM (tc_setBool r PR_SUBFOLDERS (fd_children c \<noteq> [])) (\<lambda>_.
     tc_setString r PR_CONTAINER_CLASS ''IPF.Note'')))))"

text \<open>\<open>writeFolders\<close> for the \<open>i\<close>-th folder.\<close>

definition write_folder :: "nat \<Rightarrow> (pst, unit) prog" where
  "write_folder i =
     bindM (getM (\<lambda>s. pw_folders s ! i)) (\<lambda>f.
     let table_nid = (\<lambda>t. makeNid t (nidIndex (fd_nid f))) in
     bindM (getM pw_guid) (\<lambda>guid.
     bindM (writeNodeFromHeap (fd_nid f) (fd_parent f) (pc_serialize (folder_pc guid f))) (\<lambda>_.
     bindM (mapM (\<lambda>n. bindM (folder_at n) (\<lambda>j. getM (\<lambda>s. pw_folders s ! j))) (fd_children f)) (\<lambda>children.
     bindM (local_object (new_table hierarchyColumns) (forM hierarchy_row children)) (\<lambda>ht.
     bindM (writeNodeFromHeap (table_nid kNidTypeHierarchyTable) (fd_nid f) (table_serialize ht)) (\<lambda>_.
     bindM (pw_contents i tw_finish) (\<lambda>node.
     bindM (pw_on_ndb (addNode (table_nid kNidTypeContentsTable) (nd_data node) (nd_sub node) (fd_nid f))) (\<lambda>_.
     writeNodeFromHeap (table_nid kNidTypeAssocContentsTable) (fd_nid f) (table_serialize (new_table associatedColumns))))))))))"

definition writeFolders :: "(pst, unit) prog" where
  "writeFolders = bindM (getM (\<lambda>s. [0..<length (pw_folders s)])) (\<lambda>is. forM write_folder is)"

definition pst_finish :: "(pst, unit) prog" where
  "pst_finish =
     bindM (getM pw_finished) (\<lambda>fin. if fin then ret ()
     else
       bindM (modM (\<lambda>s. s\<lparr>pw_finished := True\<rparr>)) (\<lambda>_.
       bindM writeFolders (\<lambda>_.
       bindM writeReservedNodes (\<lambda>_.
       bindM writeMessageStore (\<lambda>_.
       bindM writeNameIdMap (\<lambda>_.
       pw_on_ndb finish))))))"

text \<open>The destructor: \<open>finish\<close>, whose exceptions do not leave it.\<close>

definition PstWriter_destroy :: "(pst, unit) prog" where
  "PstWriter_destroy s = (case pst_finish s of None \<Rightarrow> None | Some (_, s') \<Rightarrow> Some (Inr (), s'))"

end
