(* ===== verification/Mime_Charset.thy ===== *)
theory Mime_Charset
  imports Text Utf16
begin

section \<open>Transfer encodings and charsets (src/mime/encodings.cpp, src/mime/charset.cpp)\<close>

text \<open>
  Base64, quoted-printable and the conversion of whatever the bytes are into UTF-8. ICU's converter,
  which is not part of the repository, is the parameter \<open>icu\<close>: from a charset's name and the bytes
  to the UTF-8 text, or \<open>None\<close> where opening the converter or converting fails.
\<close>

subsection \<open>Base64\<close>

definition base64Value :: "char \<Rightarrow> int" where
  "base64Value c =
     (let v = (of_char c :: int) in
      if 65 \<le> v \<and> v \<le> 90 then v - 65
      else if 97 \<le> v \<and> v \<le> 122 then v - 97 + 26
      else if 48 \<le> v \<and> v \<le> 57 then v - 48 + 52
      else if c = CHR ''+'' then 62
      else if c = CHR ''/'' then 63
      else - 1)"

primrec base64_run :: "32 word \<Rightarrow> nat \<Rightarrow> string \<Rightarrow> string" where
  "base64_run bits have [] = []"
| "base64_run bits have (c # cs) =
     (if c = CHR ''='' then []
      else
        let v = base64Value c in
        if v < 0 then base64_run bits have cs
        else
          let bits' = push_bit 6 bits OR word_of_int v; h = have + 6 in
          if 8 \<le> h then chr8 (drop_bit (h - 8) bits' AND 0xFF) # base64_run bits' (h - 8) cs
          else base64_run bits' h cs)"

definition decodeBase64 :: "string \<Rightarrow> string" where
  "decodeBase64 input = base64_run 0 0 input"

subsection \<open>Quoted-printable\<close>

definition hexValue :: "char \<Rightarrow> int" where
  "hexValue c =
     (let v = (of_char c :: int) in
      if 48 \<le> v \<and> v \<le> 57 then v - 48
      else if 97 \<le> v \<and> v \<le> 102 then v - 97 + 10
      else if 65 \<le> v \<and> v \<le> 70 then v - 65 + 10
      else - 1)"

function decodeQuotedPrintable :: "string \<Rightarrow> bool \<Rightarrow> string" where
  "decodeQuotedPrintable [] underscore_is_space = []"
| "decodeQuotedPrintable (c # cs) underscore_is_space =
     (if c = CHR ''_'' \<and> underscore_is_space then CHR '' '' # decodeQuotedPrintable cs underscore_is_space
      else if c \<noteq> CHR ''='' then c # decodeQuotedPrintable cs underscore_is_space
      else if cs = [] then []
      else if hd cs = LF then decodeQuotedPrintable (tl cs) underscore_is_space
      else if hd cs = CR then
        decodeQuotedPrintable (if tl cs \<noteq> [] \<and> hd (tl cs) = LF then tl (tl cs) else tl cs) underscore_is_space
      else if tl cs \<noteq> [] \<and> 0 \<le> hexValue (hd cs) \<and> 0 \<le> hexValue (hd (tl cs)) then
        char_of (nat (16 * hexValue (hd cs) + hexValue (hd (tl cs)))) # decodeQuotedPrintable (tl (tl cs)) underscore_is_space
      else CHR ''='' # decodeQuotedPrintable cs underscore_is_space)"
  by pat_completeness auto
termination
  by (relation "measure (\<lambda>(s, u). length s)") (auto simp: less_Suc_eq_le diff_le_self le_diff_conv)

definition decodeBody :: "string \<Rightarrow> string \<Rightarrow> string" where
  "decodeBody body encoding =
     (let e = lower encoding in
      if e = ''base64'' then decodeBase64 body
      else if e = ''quoted-printable'' then decodeQuotedPrintable body False
      else body)"

subsection \<open>Validity of UTF-8\<close>

text \<open>What a lead byte announces: the continuation bytes, and its own bits of the code point.\<close>

definition utf8_announce :: "byte \<Rightarrow> (nat \<times> 32 word) option" where
  "utf8_announce c =
     (if c AND 0xE0 = 0xC0 then Some (1, ucast c AND 0x1F)
      else if c AND 0xF0 = 0xE0 then Some (2, ucast c AND 0x0F)
      else if c AND 0xF8 = 0xF0 then Some (3, ucast c AND 0x07)
      else None)"

definition code_point_ok :: "nat \<Rightarrow> 32 word \<Rightarrow> bool" where
  "code_point_ok extra cp \<longleftrightarrow>
     \<not> (extra = 1 \<and> cp < 0x80) \<and> \<not> (extra = 2 \<and> cp < 0x800) \<and> \<not> (extra = 3 \<and> cp < 0x10000) \<and>
     \<not> (0x10FFFF < cp \<or> (0xD800 \<le> cp \<and> cp \<le> 0xDFFF))"

function valid_utf8_bytes :: "bytes \<Rightarrow> bool" where
  "valid_utf8_bytes [] \<longleftrightarrow> True"
| "valid_utf8_bytes (c # cs) \<longleftrightarrow>
     (if c < 0x80 then valid_utf8_bytes cs
      else case utf8_announce c of
        None \<Rightarrow> False
      | Some (extra, cp0) \<Rightarrow>
          \<not> length (c # cs) \<le> extra \<and>
          list_all (\<lambda>cc. cc AND 0xC0 = 0x80) (take extra cs) \<and>
          code_point_ok extra (fold (\<lambda>cc cp. push_bit 6 cp OR (ucast cc AND 0x3F)) (take extra cs) cp0) \<and>
          valid_utf8_bytes (drop extra cs))"
  by pat_completeness auto
termination
  by (relation "measure length") auto

definition isValidUtf8 :: "string \<Rightarrow> bool" where
  "isValidUtf8 s = valid_utf8_bytes (bytes_of s)"

subsection \<open>Conversion\<close>

definition kCp1252High :: "32 word list" where
  "kCp1252High =
     [0x20AC, 0x0081, 0x201A, 0x0192, 0x201E, 0x2026, 0x2020, 0x2021,
      0x02C6, 0x2030, 0x0160, 0x2039, 0x0152, 0x008D, 0x017D, 0x008F,
      0x0090, 0x2018, 0x2019, 0x201C, 0x201D, 0x2022, 0x2013, 0x2014,
      0x02DC, 0x2122, 0x0161, 0x203A, 0x0153, 0x009D, 0x017E, 0x0178]"

definition cp1252_char :: "byte \<Rightarrow> string" where
  "cp1252_char c =
     (if c < 0x80 then [chr_of c]
      else if c < 0xA0 then appendUtf8 (kCp1252High ! (unat c - 0x80))
      else appendUtf8 (ucast c))"

definition windows1252ToUtf8 :: "string \<Rightarrow> string" where
  "windows1252ToUtf8 input = concat (map cp1252_char (bytes_of input))"

text \<open>Trimming white space and double quotes at both ends, in lower case.\<close>

definition trimLower :: "string \<Rightarrow> string" where
  "trimLower s = lower (rev (dropWhile (\<lambda>c. isspace c \<or> c = QUOTE) (rev (dropWhile (\<lambda>c. isspace c \<or> c = QUOTE) s))))"

type_synonym icu = "string \<Rightarrow> string \<Rightarrow> string option"

definition utf8_name :: "string \<Rightarrow> bool" where
  "utf8_name name \<longleftrightarrow>
     name \<in> {[], ''utf-8'', ''utf8'', ''us-ascii'', ''ascii'', ''ansi_x3.4-1968'', ''default''}"

definition cp1252_name :: "string \<Rightarrow> bool" where
  "cp1252_name name \<longleftrightarrow>
     name \<in> {''windows-1252'', ''cp1252'', ''iso-8859-1'', ''latin1'', ''iso8859-1'', ''8859-1''}"

definition toUtf8 :: "icu \<Rightarrow> string \<Rightarrow> string \<Rightarrow> string" where
  "toUtf8 icu input charset =
     (if input = [] then []
      else
        let name = trimLower charset in
        if utf8_name name then
          (if isValidUtf8 input then input else windows1252ToUtf8 input)
        else if cp1252_name name then
          windows1252ToUtf8 input
        else case icu name input of
          None \<Rightarrow> if isValidUtf8 input then input else windows1252ToUtf8 input
        | Some out \<Rightarrow> out)"

subsection \<open>What the validator accepts\<close>

text \<open>
  The validator accepts exactly the encodings of sequences of scalar values, as the specification
  of \<open>utf8ToUtf16le\<close> has them: \<open>utf8_lead\<close> and \<open>utf8_tail\<close> decode what it announces.
\<close>

lemma utf8_announce_lead:
  "utf8_announce c = Some (n, cp) \<Longrightarrow> \<not> c < 0x80 \<Longrightarrow> utf8_lead c = (cp, n)"
  by (auto simp: utf8_announce_def utf8_lead_def split: if_splits)

lemma utf8_tail_fold:
  "utf8_tail cp ccs = (if list_all (\<lambda>cc. cc AND 0xC0 = 0x80) ccs
     then Some (fold (\<lambda>cc cp. push_bit 6 cp OR (ucast cc AND 0x3F)) ccs cp) else None)"
  by (induction ccs arbitrary: cp) auto

lemma marked_byte:
  assumes "L \<le> uint c" "uint c < L + int k" "0 \<le> L" "L + int k \<le> 256"
  obtains a where "a < k" "(c :: byte) = of_nat (nat L + a)"
proof (rule that)
  have u: "uint c = int (unat c)" by simp
  show "unat c - nat L < k" using assms u by linarith
  have "nat L \<le> unat c" using assms u by linarith
  then show "c = of_nat (nat L + (unat c - nat L))" by simp
qed

lemma continuation_byte:
  assumes "(cc :: byte) AND 0xC0 = 0x80"
  obtains b where "b < 64" "cc = of_nat (128 + b)"
  by (rule marked_byte [of 128 cc 64]) (use assms in \<open>simp_all add: utf8_lead_bits\<close>)

lemma utf8_tail_step:
  assumes "utf8_tail (of_nat m) (cc # r) = Some cp" "m < 2 ^ 26"
  obtains b where "b < 64" "cc = of_nat (128 + b)" "utf8_tail (of_nat (m * 64 + b)) r = Some cp"
proof -
  have "cc AND 0xC0 = 0x80" using assms(1) by (simp split: if_splits)
  then obtain b where b: "b < 64" "cc = of_nat (128 + b)" by (rule continuation_byte)
  then show thesis using that assms utf8_tail_marked [OF b(1) assms(2), of r] by simp
qed

lemma scalar_unat: "scalar (of_nat n) \<longleftrightarrow> n \<le> 0x10FFFF \<and> \<not> (0xD800 \<le> n \<and> n \<le> 0xDFFF)" if "n < 2 ^ 32"
  using that by (simp add: scalar_def word_le_nat_alt unat_of_nat nat_take_bit)

lemma code_point_ok_unat:
  assumes "n < 2 ^ 32"
  shows "code_point_ok e (of_nat n) \<longleftrightarrow>
    scalar (of_nat n) \<and> (e = 1 \<longrightarrow> 0x80 \<le> n) \<and> (e = 2 \<longrightarrow> 0x800 \<le> n) \<and> (e = 3 \<longrightarrow> 0x10000 \<le> n)"
  using assms
  by (auto simp: code_point_ok_def scalar_unat [OF assms] word_le_nat_alt word_less_nat_alt unat_of_nat nat_take_bit)

lemma utf8_encode_nat:
  assumes "n < 2 ^ 32"
  shows "utf8_encode (of_nat n) = map of_nat (
     if n < 0x80 then [n]
     else if n < 0x800 then [0xC0 + n div 0x40, 0x80 + n mod 0x40]
     else if n < 0x10000 then [0xE0 + n div 0x40 div 0x40, 0x80 + n div 0x40 mod 0x40, 0x80 + n mod 0x40]
     else [0xF0 + n div 0x40 div 0x40 div 0x40, 0x80 + n div 0x40 div 0x40 mod 0x40, 0x80 + n div 0x40 mod 0x40, 0x80 + n mod 0x40])"
  using assms by (simp add: utf8_encode_def unat_of_nat nat_take_bit div_mult2_eq [symmetric])

lemma digit64: "b < 64 \<Longrightarrow> (a * 64 + b) div 64 = a" "b < 64 \<Longrightarrow> (a * 64 + b) mod 64 = (b :: nat)"
  by simp_all

text \<open>One accepted sequence is the encoding of one scalar value.\<close>

lemma accepted_sequence:
  assumes c: "\<not> c < 0x80" and l: "utf8_announce c = Some (e, cp0)" and len: "length ccs = e"
    and t: "utf8_tail cp0 ccs = Some cp" and ok: "code_point_ok e cp"
  shows "scalar cp \<and> c # ccs = utf8_encode cp"
proof -
  consider "c AND 0xE0 = 0xC0" "e = 1" | "c AND 0xF0 = 0xE0" "e = 2" | "c AND 0xF8 = 0xF0" "e = 3"
    using l by (auto simp: utf8_announce_def split: if_splits)
  then show ?thesis
  proof cases
    case 1
    obtain a where a: "a < 32" "c = of_nat (nat 192 + a)"
      by (rule marked_byte [of 192 c 32]) (use 1 in \<open>simp_all add: utf8_lead_bits\<close>)
    have cp0: "cp0 = of_nat a" using utf8_announce_lead [OF l c] utf8_lead_marked(2) [OF a(1)] a(2) by simp
    obtain x where ccs: "ccs = [x]" using len 1 by (auto simp: length_Suc_conv)
    obtain b where b: "b < 64" "x = of_nat (128 + b)" "cp = of_nat (a * 64 + b)"
      by (rule utf8_tail_step [of a x "[]" cp]) (use t ccs cp0 a(1) in simp_all)
    have n: "a * 64 + b < 0x800" using a b by simp
    have s: "scalar cp" "0x80 \<le> a * 64 + b" using ok n 1(2) b(3) code_point_ok_unat [of "a * 64 + b" e] by simp_all
    have "utf8_encode cp = [of_nat (192 + a), of_nat (128 + b)]"
      using n s(2) b(1) b(3) utf8_encode_nat [of "a * 64 + b"] by (simp del: of_nat_add)
    then show ?thesis using s a b ccs by simp
  next
    case 2
    obtain a where a: "a < 16" "c = of_nat (nat 224 + a)"
      by (rule marked_byte [of 224 c 16]) (use 2 in \<open>simp_all add: utf8_lead_bits\<close>)
    have cp0: "cp0 = of_nat a" using utf8_announce_lead [OF l c] utf8_lead_marked(3) [OF a(1)] a(2) by simp
    obtain x y where ccs: "ccs = [x, y]" using len 2 by (auto simp: length_Suc_conv numeral_2_eq_2)
    obtain b where b: "b < 64" "x = of_nat (128 + b)" and t2: "utf8_tail (of_nat (a * 64 + b)) [y] = Some cp"
      by (rule utf8_tail_step [of a x "[y]" cp]) (use t ccs cp0 a(1) in simp_all)
    obtain d where d: "d < 64" "y = of_nat (128 + d)" "cp = of_nat ((a * 64 + b) * 64 + d)"
      by (rule utf8_tail_step [OF t2]) (use a(1) b(1) in simp_all)
    have n: "(a * 64 + b) * 64 + d < 0x10000" using a b d by simp
    have s: "scalar cp" "0x800 \<le> (a * 64 + b) * 64 + d" using ok n 2(2) d(3) code_point_ok_unat [of "(a * 64 + b) * 64 + d" e] by simp_all
    have "utf8_encode cp = [of_nat (224 + a), of_nat (128 + b), of_nat (128 + d)]"
    proof -
      have n': "(a * 64 + b) * 64 + d < 2 ^ 32" using n by simp
      show ?thesis using n s(2)
        unfolding d(3) utf8_encode_nat [OF n'] digit64 [OF d(1)] digit64 [OF b(1)] by (simp del: of_nat_add)
    qed
    then show ?thesis using s a b d ccs by simp
  next
    case 3
    obtain a where a: "a < 8" "c = of_nat (nat 240 + a)"
      by (rule marked_byte [of 240 c 8]) (use 3 in \<open>simp_all add: utf8_lead_bits\<close>)
    have cp0: "cp0 = of_nat a" using utf8_announce_lead [OF l c] utf8_lead_marked(4) [OF a(1)] a(2) by simp
    obtain x y z where ccs: "ccs = [x, y, z]" using len 3 by (auto simp: length_Suc_conv numeral_3_eq_3)
    obtain b where b: "b < 64" "x = of_nat (128 + b)" and t2: "utf8_tail (of_nat (a * 64 + b)) [y, z] = Some cp"
      by (rule utf8_tail_step [of a x "[y, z]" cp]) (use t ccs cp0 a(1) in simp_all)
    obtain d where d: "d < 64" "y = of_nat (128 + d)" and t3: "utf8_tail (of_nat ((a * 64 + b) * 64 + d)) [z] = Some cp"
      by (rule utf8_tail_step [OF t2]) (use a(1) b(1) in simp_all)
    obtain f where f: "f < 64" "z = of_nat (128 + f)" "cp = of_nat (((a * 64 + b) * 64 + d) * 64 + f)"
      by (rule utf8_tail_step [OF t3]) (use a(1) b(1) d(1) in simp_all)
    have n: "((a * 64 + b) * 64 + d) * 64 + f < 2 ^ 32" using a b d f by simp
    have s: "scalar cp" "0x10000 \<le> ((a * 64 + b) * 64 + d) * 64 + f" using ok n 3(2) f(3) code_point_ok_unat [OF n, of e] by simp_all
    have "utf8_encode cp = [of_nat (240 + a), of_nat (128 + b), of_nat (128 + d), of_nat (128 + f)]"
      using s(2) unfolding f(3) utf8_encode_nat [OF n] digit64 [OF f(1)] digit64 [OF d(1)] digit64 [OF b(1)]
      by (simp del: of_nat_add)
    then show ?thesis using s a b d f ccs by simp
  qed
qed

lemma valid_step:
  "\<not> c < 0x80 \<Longrightarrow> valid_utf8_bytes (c # cs) \<longleftrightarrow>
    (\<exists>e cp0 cp. utf8_announce c = Some (e, cp0) \<and> e \<le> length cs \<and> utf8_tail cp0 (take e cs) = Some cp \<and>
       code_point_ok e cp \<and> valid_utf8_bytes (drop e cs))"
  by (auto simp: utf8_tail_fold split: option.splits)

lemma utf8_encode_ascii: "c < 0x80 \<Longrightarrow> scalar (ucast c) \<and> utf8_encode (ucast c) = [c]" for c :: byte
  using unsigned_less [of c, where ?'a = nat]
  by (simp add: scalar_def utf8_encode_def word_le_nat_alt word_less_nat_alt nat_bits)

lemma valid_points: "valid_utf8_bytes bs \<Longrightarrow> \<exists>cps. list_all scalar cps \<and> bs = concat (map utf8_encode cps)"
proof (induction bs rule: valid_utf8_bytes.induct)
  case 1
  show ?case by (rule exI [of _ "[]"]) simp
next
  case (2 c cs)
  show ?case
  proof (cases "c < 0x80")
    case True
    then obtain cps where "list_all scalar cps" "cs = concat (map utf8_encode cps)"
      using 2(1) 2(3) by auto
    then show ?thesis using utf8_encode_ascii [OF True] by (intro exI [of _ "ucast c # cps"]) simp
  next
    case False
    then obtain e cp0 cp where l: "utf8_announce c = Some (e, cp0)" and len: "e \<le> length cs"
      and t: "utf8_tail cp0 (take e cs) = Some cp" "code_point_ok e cp" and v: "valid_utf8_bytes (drop e cs)"
      using 2(3) valid_step by blast
    have "length (take e cs) = e" using len by simp
    note one = accepted_sequence [OF False l this t]
    obtain cps where cps: "list_all scalar cps" "drop e cs = concat (map utf8_encode cps)"
      using 2(2) [OF False l refl v] by blast
    have "c # cs = (c # take e cs) @ drop e cs" by simp
    then have "c # cs = concat (map utf8_encode (cp # cps))" using one cps(2) by simp
    then show ?thesis using one cps(1) by (intro exI [of _ "cp # cps"]) simp
  qed
qed

lemma lead_announce: "utf8_lead c = (cp, Suc n) \<Longrightarrow> utf8_announce c = Some (Suc n, cp) \<and> \<not> c < 0x80"
  by (auto simp: utf8_lead_def utf8_announce_def split: if_splits)

lemma encode_length:
  assumes "n < 2 ^ 32"
  shows "length (utf8_encode (of_nat n)) = (if n < 0x80 then 1 else if n < 0x800 then 2 else if n < 0x10000 then 3 else 4)"
  using assms by (simp add: utf8_encode_nat)

lemma valid_encode:
  assumes "scalar cp"
  shows "valid_utf8_bytes (utf8_encode cp @ r) \<longleftrightarrow> valid_utf8_bytes r"
proof (cases "cp < 0x80")
  case True
  then have "(of_nat (unat cp) :: byte) < 0x80"
    by (simp only: word_less_nat_alt unat_of_nat nat_take_bit) simp
  then show ?thesis using True by (simp add: utf8_encode_def word_less_nat_alt)
next
  case False
  define n where "n = unat cp"
  have n: "n < 2 ^ 32" "cp = of_nat n" "0x80 \<le> n"
    using unsigned_less [of cp, where ?'a = nat] False by (simp_all add: n_def word_less_nat_alt)
  obtain c ccs where e: "utf8_encode cp = c # ccs" by (cases "utf8_encode cp") simp_all
  have len: "length ccs = (if n < 0x800 then 1 else if n < 0x10000 then 2 else 3)"
    using encode_length [OF n(1)] n(2,3) e by (simp split: if_splits)
  then obtain k where k: "length ccs = Suc k" by (simp split: if_splits)
  obtain cp0 e' where l: "utf8_lead c = (cp0, e')" by fastforce
  have nx: "utf8_next (c # ccs @ r) = (cp, Suc (Suc k))" using utf8_next_encode [OF assms, of r] e k by simp
  then have t: "e' = Suc k" "utf8_tail cp0 (take e' (ccs @ r)) = Some cp"
    by (auto simp: utf8_next_def l split: if_splits option.splits)
  have "code_point_ok (Suc k) cp"
    using assms n len k code_point_ok_unat [OF n(1), of "Suc k"] by (simp split: if_splits)
  then show ?thesis
    using t k lead_announce [of c cp0 k] l valid_step [of c "ccs @ r"] by (auto simp: e)
qed

lemma valid_encode_all: "list_all scalar cps \<Longrightarrow> valid_utf8_bytes (concat (map utf8_encode cps))"
  by (induction cps) (simp_all add: valid_encode)

subsection \<open>What the converters produce\<close>

lemma or_low:
  assumes "x AND mask k = 0" "unat y < 2 ^ k"
  shows "(x OR y :: 32 word) = x + y"
proof (rule disjunctive_add [symmetric])
  fix i
  show "\<not> bit x i \<or> \<not> bit y i"
  proof (cases "i < k")
    case True
    have "bit (x AND mask k) i = (bit x i \<and> i < 32)" using True by (auto simp: bit_simps dest: bit_imp_le_length)
    then have "\<not> bit x i" using assms(1) by (auto dest: bit_imp_le_length)
    then show ?thesis ..
  next
    case False
    then show ?thesis using high_bits [of y k i] assms(2) by simp
  qed
qed

lemma chr8_or:
  assumes "x AND mask k = 0" "unat y < 2 ^ k" "unat x + 2 ^ k \<le> 256"
  shows "byte_of (chr8 (x OR y)) = of_nat (unat x + unat y)"
proof -
  have "unat (x OR y) = unat x + unat y" using assms by (simp add: or_low unat_word_ariths)
  moreover have "unat x + unat y < 256" using assms by simp
  ultimately have "unat (ucast (x OR y) :: byte) = unat x + unat y" by (simp add: nat_bits)
  then have "ucast (x OR y) = (of_nat (unat x + unat y) :: byte)"
    using \<open>unat x + unat y < 256\<close> by (simp only: word_unat_eq_iff unat_of_nat nat_take_bit) simp
  then show ?thesis by (simp add: chr8_def del: of_nat_add)
qed

lemma and_3f: "unat (w AND 0x3F) = unat w mod 64" for w :: "32 word"
  using unat_and_mask [of w 6] by (simp add: mask_eq_exp_minus_1)

lemma bytes_of_appendUtf8:
  assumes "scalar cp"
  shows "bytes_of (appendUtf8 cp) = utf8_encode cp"
proof -
  define n where "n = unat cp"
  have n: "n \<le> 0x10FFFF" using assms by (simp add: scalar_def word_le_nat_alt n_def)
  have d: "unat (drop_bit k cp) = n div 2 ^ k" for k
    by (simp add: n_def unat_drop_bit_eq drop_bit_eq_div [where ?'a = nat])
  have tail: "byte_of (chr8 (0x80 OR (w AND 0x3F))) = of_nat (0x80 + unat w mod 64)" for w :: "32 word"
    using chr8_or [of "0x80" 6 "w AND 0x3F"] by (simp add: and_3f mask_eq_exp_minus_1)
  have lead: "n div 64 < 32 \<Longrightarrow> byte_of (chr8 (0xC0 OR drop_bit 6 cp)) = of_nat (0xC0 + n div 64)"
      "n div 4096 < 16 \<Longrightarrow> byte_of (chr8 (0xE0 OR drop_bit 12 cp)) = of_nat (0xE0 + n div 4096)"
      "byte_of (chr8 (0xF0 OR drop_bit 18 cp)) = of_nat (0xF0 + n div 262144)"
    using chr8_or [of "0xC0" 5 "drop_bit 6 cp"] chr8_or [of "0xE0" 4 "drop_bit 12 cp"] chr8_or [of "0xF0" 3 "drop_bit 18 cp"] n
    by (simp_all add: d mask_eq_exp_minus_1)
  have one: "n < 0x80 \<Longrightarrow> byte_of (chr8 cp) = of_nat n"
    by (simp add: chr8_def n_def word_unat_eq_iff nat_bits unat_of_nat)
  have tails: "byte_of (chr8 (0x80 OR (drop_bit k cp AND 0x3F))) = of_nat (0x80 + n div 2 ^ k mod 64)" for k
    by (simp only: tail d)
  show ?thesis
    using lead one tail [of cp] tails [of 6] tails [of 12] n
    by (simp add: appendUtf8_def utf8_encode_def word_less_nat_alt n_def [symmetric] del: of_nat_add)
qed

lemma cp1252_char_encode:
  "\<exists>cp. scalar cp \<and> bytes_of (cp1252_char c) = utf8_encode cp"
proof -
  consider "c < 0x80" | "\<not> c < 0x80" "c < 0xA0" | "\<not> c < 0xA0" by blast
  then show ?thesis
  proof cases
    case 1
    then show ?thesis using utf8_encode_ascii [OF 1] by (intro exI [of _ "ucast c"]) (simp add: cp1252_char_def)
  next
    case 2
    then have "unat c - 0x80 < length kCp1252High" by (simp add: kCp1252High_def word_less_nat_alt)
    moreover have "list_all scalar kCp1252High" by (simp add: kCp1252High_def scalar_def)
    ultimately have "scalar (kCp1252High ! (unat c - 0x80))" by (simp add: list_all_length)
    then show ?thesis using 2 bytes_of_appendUtf8 by (auto simp: cp1252_char_def)
  next
    case 3
    have "scalar (ucast c)" using unsigned_less [of c, where ?'a = nat] by (simp add: scalar_def word_le_nat_alt nat_bits)
    moreover have "\<not> c < 0x80" using 3 by (simp add: word_less_nat_alt)
    ultimately show ?thesis using 3 bytes_of_appendUtf8 by (auto simp: cp1252_char_def)
  qed
qed

lemma windows1252_points:
  "\<exists>cps. length cps = length s \<and> list_all scalar cps \<and> bytes_of (windows1252ToUtf8 s) = concat (map utf8_encode cps)"
proof (induction s)
  case (Cons c s)
  then obtain cps where cps: "length cps = length s" "list_all scalar cps"
      "bytes_of (windows1252ToUtf8 s) = concat (map utf8_encode cps)" by blast
  obtain cp where "scalar cp" "bytes_of (cp1252_char (byte_of c)) = utf8_encode cp" using cp1252_char_encode by blast
  then show ?case using cps by (intro exI [of _ "cp # cps"]) (simp add: windows1252ToUtf8_def)
qed (simp add: windows1252ToUtf8_def)

lemma windows1252_valid: "isValidUtf8 (windows1252ToUtf8 s)"
  using windows1252_points [of s] valid_encode_all by (auto simp: isValidUtf8_def)

lemma toUtf8_cases:
  "toUtf8 icu input charset \<in> {[], windows1252ToUtf8 input} \<or>
   isValidUtf8 input \<and> toUtf8 icu input charset = input \<or>
   icu (trimLower charset) input = Some (toUtf8 icu input charset)"
  unfolding toUtf8_def Let_def by (cases "icu (trimLower charset) input") simp_all

lemma toUtf8_valid:
  assumes "\<And>name out. icu name input = Some out \<Longrightarrow> isValidUtf8 out"
  shows "isValidUtf8 (toUtf8 icu input charset)"
proof -
  have "isValidUtf8 []" by (simp add: isValidUtf8_def)
  then show ?thesis
    using toUtf8_cases [of icu input charset] windows1252_valid [of input] assms [of "trimLower charset" "toUtf8 icu input charset"]
    by (elim disjE conjE insertE emptyE) simp_all
qed

lemma valid_faithful:
  assumes "isValidUtf8 s"
  obtains cps where "list_all scalar cps" "bytes_of s = concat (map utf8_encode cps)" "utf16_decode (utf8ToUtf16le s) = Some cps"
proof -
  obtain cps where cps: "list_all scalar cps" "bytes_of s = concat (map utf8_encode cps)"
    using assms valid_points by (auto simp: isValidUtf8_def)
  have "\<forall>cp \<in> set cps. scalar cp" using cps(1) by (simp add: list_all_iff)
  then have "utf16_decode (utf8ToUtf16le s) = Some cps"
    using cps(2) utf8_points_encode utf16_decode_encode by (simp add: utf8ToUtf16le_def utf16_loop_points)
  with cps show thesis by (rule that)
qed

subsection \<open>Properties\<close>

text \<open>
  C25: \<open>isValidUtf8\<close> accepts a text exactly if it is the UTF-8 encoding of some sequence of Unicode
  scalar values: over-long forms, surrogates, truncated and misplaced bytes are all refused.
\<close>

theorem isValidUtf8_exact:
  "isValidUtf8 s = (\<exists>cps. list_all scalar cps \<and> bytes_of s = concat (map utf8_encode cps))"
  using valid_points valid_encode_all by (auto simp: isValidUtf8_def)

text \<open>
  C26: As long as the converter library returns UTF-8, whatever bytes and whatever charset label a
  message carries, the text of \<open>toUtf8\<close> is UTF-8, and the string property made from it decodes to
  the same characters: no later stage substitutes anything.
\<close>

theorem toUtf8_well_formed:
  assumes "\<And>name out. icu name input = Some out \<Longrightarrow> isValidUtf8 out"
  shows "\<exists>cps. list_all scalar cps \<and> bytes_of (toUtf8 icu input charset) = concat (map utf8_encode cps) \<and>
    utf16_decode (utf8ToUtf16le (toUtf8 icu input charset)) = Some cps"
proof -
  have "isValidUtf8 (toUtf8 icu input charset)" by (rule toUtf8_valid) (rule assms)
  then show ?thesis by (rule valid_faithful) blast
qed

text \<open>The hypothesis holds for a library that knows Latin-9 only, on text with a euro sign.\<close>

definition icu_latin9 :: icu where
  "icu_latin9 name input = (if name = ''iso-8859-15''
     then Some (concat (map (\<lambda>c. if c = CHR 0xA4 then appendUtf8 0x20AC else appendUtf8 (ucast (byte_of c))) input)) else None)"

lemma toUtf8_well_formed_witness:
  "\<exists>cps. list_all scalar cps \<and>
    bytes_of (toUtf8 icu_latin9 [CHR 0xA4, CHR ''5''] '' ISO-8859-15'') = concat (map utf8_encode cps) \<and>
    utf16_decode (utf8ToUtf16le (toUtf8 icu_latin9 [CHR 0xA4, CHR ''5''] '' ISO-8859-15'')) = Some cps"
proof (rule toUtf8_well_formed)
  fix name out
  assume "icu_latin9 name [CHR 0xA4, CHR ''5''] = Some out"
  then have "out = appendUtf8 0x20AC @ appendUtf8 (ucast (byte_of (CHR ''5'')))"
    by (simp add: icu_latin9_def split: if_splits)
  moreover have "isValidUtf8 (appendUtf8 0x20AC @ appendUtf8 (ucast (byte_of (CHR ''5''))))" by code_simp
  ultimately show "isValidUtf8 out" by simp
qed

end
