(* ===== verification/Mime_Base64.thy ===== *)
theory Mime_Base64
  imports Mime_Charset
begin

section \<open>The transfer encodings against reference encoders (src/mime/encodings.cpp)\<close>

text \<open>
  Reference encoders for base64 and quoted-printable, and the round trips through the decoders of
  \<open>Mime_Charset\<close>: a body wrapped in lines of any length, with any white space or junk between the
  characters of the encoding, decodes to the bytes that were encoded.
\<close>

subsection \<open>Base64\<close>

definition base64_alphabet :: string where
  "base64_alphabet = ''ABCDEFGHIJKLMNOPQRSTUVWXYZabcdefghijklmnopqrstuvwxyz0123456789+/''"

definition base64_char :: "byte \<Rightarrow> char" where
  "base64_char w = base64_alphabet ! unat w"

fun base64_encode :: "bytes \<Rightarrow> string" where
  "base64_encode (a # b # c # r) =
     map base64_char [drop_bit 2 a, (push_bit 4 a AND 0x3F) OR drop_bit 4 b, (push_bit 2 b AND 0x3F) OR drop_bit 6 c, c AND 0x3F]
       @ base64_encode r"
| "base64_encode [a, b] = map base64_char [drop_bit 2 a, (push_bit 4 a AND 0x3F) OR drop_bit 4 b, push_bit 2 b AND 0x3F] @ ''=''"
| "base64_encode [a] = map base64_char [drop_bit 2 a, push_bit 4 a AND 0x3F] @ ''==''"
| "base64_encode [] = []"

lemma base64Value_char: "unat w < 64 \<Longrightarrow> base64Value (base64_char w) = int (unat w) \<and> base64_char w \<noteq> CHR ''=''"
proof -
  have "list_all (\<lambda>k. base64Value (base64_alphabet ! k) = int k \<and> base64_alphabet ! k \<noteq> CHR ''='') [0..<64]"
    by code_simp
  then show "unat w < 64 \<Longrightarrow> base64Value (base64_char w) = int (unat w) \<and> base64_char w \<noteq> CHR ''=''"
    by (simp add: list_all_iff base64_char_def)
qed

text \<open>What is not in the alphabet is skipped.\<close>

lemma base64_run_filter:
  "base64_run bits h t = base64_run bits h (filter (\<lambda>c. 0 \<le> base64Value c \<or> c = CHR ''='') t)"
  by (induction t arbitrary: bits h) (simp_all add: Let_def)

lemma base64_run_char:
  assumes "unat w < 64"
  shows "base64_run bits h (base64_char w # r) =
    (let bits' = push_bit 6 bits OR ucast w in
     if 2 \<le> h then chr8 (drop_bit (h - 2) bits' AND 0xFF) # base64_run bits' (h - 2) r
     else base64_run bits' (h + 6) r)"
proof -
  have "word_of_int (int (unat w)) = (ucast w :: 32 word)" by (simp add: word_unat_eq_iff nat_bits)
  then show ?thesis using base64Value_char [OF assms] by (simp add: Let_def)
qed

lemma chr8_eqI:
  assumes "\<And>n. n < 8 \<Longrightarrow> bit w n = bit b n"
  shows "chr8 (w AND 0xFF) = chr_of b"
proof -
  have "ucast (w AND mask 8) = b" by (rule bit_word_eqI) (use assms in \<open>auto simp: bit_simps\<close>)
  then show ?thesis by (simp add: chr8_def mask_eq_exp_minus_1)
qed

lemma low_bits: "(\<And>n. 6 \<le> n \<Longrightarrow> \<not> bit w n) \<Longrightarrow> unat (w :: byte) < 64"
proof -
  assume h: "\<And>n. 6 \<le> n \<Longrightarrow> \<not> bit w n"
  have "take_bit 6 w = w" by (rule bit_word_eqI) (use h in \<open>auto simp: bit_simps not_less [symmetric]\<close>)
  moreover have "unat (take_bit 6 w) = unat w mod 64" by (simp add: unsigned_take_bit_eq nat_take_bit)
  ultimately show ?thesis using mod_less_divisor [of 64 "unat w"] by simp
qed

lemma mask6: "bit (w AND 0x3F :: byte) n \<longleftrightarrow> bit w n \<and> n < 6"
proof -
  have "w AND 0x3F = w AND mask 6" by (simp add: mask_eq_exp_minus_1)
  then show ?thesis by (auto simp: bit_simps dest: bit_imp_le_length)
qed

lemma six_bits:
  "unat (drop_bit 2 a :: byte) < 64" "unat ((push_bit 4 a AND 0x3F) OR drop_bit 4 b :: byte) < 64"
  "unat ((push_bit 2 b AND 0x3F) OR drop_bit 6 c :: byte) < 64" "unat (c AND 0x3F :: byte) < 64"
  by (rule low_bits, auto simp: mask6 bit_or_iff bit_drop_bit_eq dest: bit_imp_le_length)+

lemma byte_bit: "8 \<le> n \<Longrightarrow> \<not> bit (b :: byte) n"
  using bit_imp_le_length [of b n] by auto

lemma upto8: "n < 8 \<Longrightarrow> n = 0 \<or> n = 1 \<or> n = 2 \<or> n = 3 \<or> n = 4 \<or> n = 5 \<or> n = 6 \<or> n = (7 :: nat)"
  by arith

text \<open>Three bytes go through four characters, whatever the accumulator held before.\<close>

lemma base64_bytes:
  "chr8 (drop_bit 4 (push_bit 6 (push_bit 6 bits OR ucast (drop_bit 2 a)) OR
      ucast ((push_bit 4 a AND 0x3F) OR drop_bit 4 b)) AND 0xFF) = chr_of a"
  "chr8 (drop_bit 4 (push_bit 6 (push_bit 6 bits OR ucast (drop_bit 2 a)) OR ucast (push_bit 4 a AND 0x3F)) AND 0xFF) = chr_of a"
  "chr8 (drop_bit 2 (push_bit 6 (push_bit 6 bits OR ucast ((push_bit 4 a AND 0x3F) OR drop_bit 4 b)) OR
      ucast ((push_bit 2 b AND 0x3F) OR drop_bit 6 c)) AND 0xFF) = chr_of b"
  "chr8 (drop_bit 2 (push_bit 6 (push_bit 6 bits OR ucast ((push_bit 4 a AND 0x3F) OR drop_bit 4 b)) OR
      ucast (push_bit 2 b AND 0x3F)) AND 0xFF) = chr_of b"
  "chr8 ((push_bit 6 (push_bit 6 bits OR ucast ((push_bit 2 b AND 0x3F) OR drop_bit 6 c)) OR
      ucast (c AND 0x3F)) AND 0xFF) = chr_of c"
  by ((rule chr8_eqI, drule upto8, elim disjE, simp_all add: bit_simps mask6 byte_bit)[1])+

lemma base64_step:
  assumes "unat w < 64"
  shows "base64_run bits 0 (base64_char w # r) = base64_run (push_bit 6 bits OR ucast w) 6 r"
    "base64_run bits 6 (base64_char w # r) =
      chr8 (drop_bit 4 (push_bit 6 bits OR ucast w) AND 0xFF) # base64_run (push_bit 6 bits OR ucast w) 4 r"
    "base64_run bits 4 (base64_char w # r) =
      chr8 (drop_bit 2 (push_bit 6 bits OR ucast w) AND 0xFF) # base64_run (push_bit 6 bits OR ucast w) 2 r"
    "base64_run bits 2 (base64_char w # r) =
      chr8 ((push_bit 6 bits OR ucast w) AND 0xFF) # base64_run (push_bit 6 bits OR ucast w) 0 r"
  unfolding base64_run_char [OF assms] Let_def by (simp_all del: base64_run.simps)

lemma base64_run_encode: "base64_run bits 0 (base64_encode s) = map chr_of s"
proof (induction s arbitrary: bits rule: base64_encode.induct)
  case (1 a b c r)
  show ?case
    unfolding base64_encode.simps list.map append_Cons append_Nil base64_step [OF six_bits(1)] base64_step [OF six_bits(2)]
      base64_step [OF six_bits(3)] base64_step [OF six_bits(4)] base64_bytes 1 ..
next
  case (2 a b)
  show ?case
    unfolding base64_encode.simps list.map append_Cons append_Nil base64_step [OF six_bits(1)] base64_step [OF six_bits(2)]
      base64_step [OF six_bits(4)] base64_bytes by simp
next
  case (3 a)
  show ?case
    unfolding base64_encode.simps list.map append_Cons append_Nil base64_step [OF six_bits(1)]
      base64_step [OF six_bits(4)] base64_bytes by simp
qed simp

subsection \<open>Quoted-printable\<close>

text \<open>
  An encoder is free to escape what it likes; it must escape the equals sign (and, in a header,
  the underscore), may write a space as an underscore in a header, and may break lines softly.
  \<open>qp_of u t s\<close>: the text \<open>t\<close> is an encoding of \<open>s\<close>.
\<close>

definition hex_digit :: "nat \<Rightarrow> char" where
  "hex_digit k = ''0123456789ABCDEF'' ! k"

inductive qp_of :: "bool \<Rightarrow> string \<Rightarrow> string \<Rightarrow> bool" where
  nil: "qp_of u [] []"
| literal: "qp_of u t s \<Longrightarrow> c \<noteq> CHR ''='' \<Longrightarrow> \<not> (u \<and> c = CHR ''_'') \<Longrightarrow> qp_of u (c # t) (c # s)"
| escape: "qp_of u t s \<Longrightarrow> i < 16 \<Longrightarrow> j < 16 \<Longrightarrow>
    qp_of u (CHR ''='' # hex_digit i # hex_digit j # t) (char_of (16 * i + j) # s)"
| space: "qp_of True t s \<Longrightarrow> qp_of True (CHR ''_'' # t) (CHR '' '' # s)"
| soft: "qp_of u t s \<Longrightarrow> qp_of u (CHR ''='' # CR # LF # t) s"
| soft_lf: "qp_of u t s \<Longrightarrow> qp_of u (CHR ''='' # LF # t) s"

lemma hexValue_digit: "i < 16 \<Longrightarrow> hexValue (hex_digit i) = int i \<and> hex_digit i \<noteq> LF \<and> hex_digit i \<noteq> CR"
proof -
  have "list_all (\<lambda>i. hexValue (hex_digit i) = int i \<and> hex_digit i \<noteq> LF \<and> hex_digit i \<noteq> CR) [0..<16]" by code_simp
  then show "i < 16 \<Longrightarrow> hexValue (hex_digit i) = int i \<and> hex_digit i \<noteq> LF \<and> hex_digit i \<noteq> CR"
    by (simp add: list_all_iff)
qed

lemma decodeQuotedPrintable_of: "qp_of u t s \<Longrightarrow> decodeQuotedPrintable t u = s"
proof (induction rule: qp_of.induct)
  case (escape u t s i j)
  then show ?case using hexValue_digit [of i] hexValue_digit [of j] by (simp add: nat_add_distrib nat_mult_distrib)
qed auto

subsection \<open>Properties\<close>

text \<open>
  C27: A body encoded in base64 decodes to the bytes that were encoded, whatever line breaks, white
  space or other characters outside the alphabet were put between the characters of the encoding,
  and however the encoding's name is written.
\<close>

theorem decodeBody_base64:
  assumes "lower encoding = ''base64''"
    and "filter (\<lambda>c. 0 \<le> base64Value c \<or> c = CHR ''='') body = base64_encode s"
  shows "decodeBody body encoding = map chr_of s"
  using assms base64_run_filter [of 0 0 body] base64_run_encode [of 0 s] by (simp add: decodeBody_def decodeBase64_def)

lemma decodeBody_base64_witness:
  "decodeBody (''SGVs'' @ [CR, LF] @ ''bG8='') ''Base64'' = map chr_of [0x48, 0x65, 0x6C, 0x6C, 0x6F]"
  by (rule decodeBody_base64) code_simp+

end
