(* ===== verification/Mime_Headers.thy ===== *)
theory Mime_Headers
  imports Mime_Base64 Core_Message "HOL-Library.AList"
begin

section \<open>Header fields (src/mime/headers.cpp)\<close>

text \<open>
  The field block of a message, RFC 2047 encoded words, the parameters of a structured field and
  address lists. Where the code walks a text with an index the model walks the rest of the text;
  positions found in it are relative to the start of the rest, as the code's are to \<open>i\<close>.
\<close>

record header_field =
  field_name :: string
  field_value :: string

subsection \<open>Helpers\<close>

text \<open>The inside of a quoted string: the loop of \<open>unquote\<close>.\<close>

fun unescape :: "string \<Rightarrow> string" where
  "unescape [] = []"
| "unescape [c] = [c]"
| "unescape (c # d # r) = (if c = BACKSLASH then d # unescape r else c # unescape (d # r))"

definition unquote :: "string \<Rightarrow> string" where
  "unquote s =
     (let t = trim s in
      if length t < 2 \<or> hd t \<noteq> QUOTE \<or> last t \<noteq> QUOTE then t
      else unescape (butlast (tl t)))"

text \<open>
  \<open>split_loop sep in_quotes in_angle comment_depth rest current out\<close>. The depth is an \<open>int\<close> in the
  code; it counts the parentheses of one header line and is never negative.
\<close>

function split_loop :: "char \<Rightarrow> bool \<Rightarrow> bool \<Rightarrow> nat \<Rightarrow> string \<Rightarrow> string \<Rightarrow> string list \<Rightarrow> string list" where
  "split_loop sep in_quotes in_angle comment_depth [] current out = out @ [current]"
| "split_loop sep in_quotes in_angle comment_depth (c # r) current out =
     (if in_quotes then
        (if c = BACKSLASH \<and> r \<noteq> [] then
           split_loop sep in_quotes in_angle comment_depth (tl r) (current @ [c, hd r]) out
         else split_loop sep (c \<noteq> QUOTE) in_angle comment_depth r (current @ [c]) out)
      else if 0 < comment_depth then
        (if c = BACKSLASH \<and> r \<noteq> [] then split_loop sep in_quotes in_angle comment_depth (tl r) current out
         else split_loop sep in_quotes in_angle
           (if c = CHR ''('' then comment_depth + 1 else if c = CHR '')'' then comment_depth - 1 else comment_depth) r current out)
      else if c = QUOTE then split_loop sep True in_angle comment_depth r (current @ [c]) out
      else if c = CHR ''('' then split_loop sep in_quotes in_angle (comment_depth + 1) r current out
      else if c = CHR ''<'' then split_loop sep in_quotes True comment_depth r (current @ [c]) out
      else if c = CHR ''>'' then split_loop sep in_quotes False comment_depth r (current @ [c]) out
      else if c = sep \<and> \<not> in_angle then split_loop sep in_quotes in_angle comment_depth r [] (out @ [current])
      else split_loop sep in_quotes in_angle comment_depth r (current @ [c]) out)"
  by pat_completeness auto
termination
  by (relation "measure (\<lambda>(sep, q, a, d, rest, current, out). length rest)") (auto simp: less_Suc_eq_le)

definition splitOutsideQuotes :: "string \<Rightarrow> char \<Rightarrow> string list" where
  "splitOutsideQuotes s sep = split_loop sep False False 0 s [] []"

subsection \<open>Encoded words\<close>

definition isEncodedWordStart :: "string \<Rightarrow> bool" where
  "isEncodedWordStart s \<longleftrightarrow> take 2 s = ''=?''"

text \<open>At the start of \<open>s\<close>: the decoded text and how much is consumed, or \<open>None\<close> for \<open>false\<close>.\<close>

definition decodeOneWord :: "icu \<Rightarrow> string \<Rightarrow> (string \<times> nat) option" where
  "decodeOneWord icu s =
     (case find_char CHR ''?'' s 2 of None \<Rightarrow> None
      | Some charset_end \<Rightarrow>
        (case find_char CHR ''?'' s (charset_end + 1) of None \<Rightarrow> None
         | Some enc_end \<Rightarrow>
           if enc_end \<noteq> charset_end + 2 then None
           else
             (case find_str ''?='' s (enc_end + 1) of None \<Rightarrow> None
              | Some text_end \<Rightarrow>
                let charset = takeWhile (\<lambda>c. c \<noteq> CHR ''*'') (substr s 2 (charset_end - 2));
                    encoding = toupper (s ! (charset_end + 1));
                    text = substr s (enc_end + 1) (text_end - enc_end - 1)
                in if encoding = CHR ''B'' then Some (toUtf8 icu (decodeBase64 text) charset, text_end + 2)
                   else if encoding = CHR ''Q'' then Some (toUtf8 icu (decodeQuotedPrintable text True) charset, text_end + 2)
                   else None)))"

text \<open>The loop of \<open>decodeEncodedWords\<close>: the rest, \<open>previous_was_encoded\<close>, \<open>pending_space\<close>, the output.\<close>

lemma decodeOneWord_consumed: "decodeOneWord icu s = Some (t, n) \<Longrightarrow> 0 < n"
  by (auto simp: decodeOneWord_def Let_def split: option.splits if_splits)

function words_loop :: "icu \<Rightarrow> string \<Rightarrow> bool \<Rightarrow> nat \<Rightarrow> string \<Rightarrow> string" where
  "words_loop icu text previous pending out =
     (if text = [] then out @ replicate pending CHR '' ''
      else
        case (if isEncodedWordStart text then decodeOneWord icu text else None) of
          Some (decoded, consumed) \<Rightarrow>
            words_loop icu (drop consumed text) True 0
              (out @ (if previous then [] else replicate pending CHR '' '') @ decoded)
        | None \<Rightarrow>
            if isspace (hd text) then words_loop icu (tl text) previous (pending + 1) out
            else words_loop icu (tl text) False 0 (out @ replicate pending CHR '' '' @ [hd text]))"
  by pat_completeness auto
termination
  by (relation "measure (\<lambda>(icu, text, p, n, out). length text)")
     (auto dest: decodeOneWord_consumed split: if_splits)

declare words_loop.simps [simp del]

definition decodeEncodedWords :: "icu \<Rightarrow> string \<Rightarrow> string" where
  "decodeEncodedWords icu text = words_loop icu text False 0 []"

definition headerText :: "icu \<Rightarrow> string \<Rightarrow> string" where
  "headerText icu raw = decodeEncodedWords icu (if isValidUtf8 raw then raw else windows1252ToUtf8 raw)"

subsection \<open>The header block\<close>

text \<open>The locals of \<open>parseHeaderBlock\<close>.\<close>

record header_state =
  hs_out :: "header_field list"
  hs_name :: string
  hs_value :: string
  hs_have :: bool

definition flush :: "header_state \<Rightarrow> header_state" where
  "flush st =
     \<lparr>hs_out = (if hs_have st then hs_out st @ [\<lparr>field_name = hs_name st, field_value = hs_value st\<rparr>] else hs_out st),
      hs_name = [], hs_value = [], hs_have = False\<rparr>"

lemma drop_line_shorter: "rest \<noteq> [] \<Longrightarrow> length (dropWhile P rest) - Suc 0 < length rest"
  by (rule le_less_trans [OF diff_le_mono [OF length_dropWhile_le]]) simp

function header_loop :: "string \<Rightarrow> header_state \<Rightarrow> header_state \<times> string" where
  "header_loop rest st =
     (if rest = [] then (st, [])
      else
        let line = chomp (takeWhile (\<lambda>c. c \<noteq> LF) rest);
            following = drop 1 (dropWhile (\<lambda>c. c \<noteq> LF) rest)
        in if line = [] then (st, following)
           else if hd line = CHR '' '' \<or> hd line = TAB then
             header_loop following (if hs_have st then st\<lparr>hs_value := hs_value st @ '' '' @ trim line\<rparr> else st)
           else
             case find_char CHR '':'' line 0 of
               None \<Rightarrow> (st, rest)
             | Some colon \<Rightarrow>
                 header_loop following
                   ((flush st)\<lparr>hs_name := trim (take colon line), hs_value := trim (drop (colon + 1) line), hs_have := True\<rparr>))"
  by pat_completeness auto
termination
  by (relation "measure (\<lambda>(rest, st). length rest)") (simp_all add: drop_line_shorter)

declare header_loop.simps [simp del]

text \<open>The fields, and \<open>body_offset\<close>.\<close>

definition parseHeaderBlock :: "string \<Rightarrow> header_field list \<times> nat" where
  "parseHeaderBlock source =
     (let (st, rest) = header_loop source \<lparr>hs_out = [], hs_name = [], hs_value = [], hs_have = False\<rparr>
      in (hs_out (flush st), length source - length rest))"

definition headerValue :: "header_field list \<Rightarrow> string \<Rightarrow> string" where
  "headerValue fs name =
     (case find (\<lambda>f. lower (field_name f) = lower name) fs of None \<Rightarrow> [] | Some f \<Rightarrow> field_value f)"

definition hasHeader :: "header_field list \<Rightarrow> string \<Rightarrow> bool" where
  "hasHeader fs name \<longleftrightarrow> list_ex (\<lambda>f. lower (field_name f) = lower name) fs"

subsection \<open>Structured fields\<close>

definition fieldToken :: "string \<Rightarrow> string" where
  "fieldToken v = (let parts = splitOutsideQuotes v CHR '';'' in if parts = [] then [] else trim (hd parts))"

definition isxdigit :: "char \<Rightarrow> bool" where
  "isxdigit c \<longleftrightarrow> 0 \<le> hexValue c"

text \<open>\<open>std::strtol(s, nullptr, 16)\<close> of a text too short to overflow or to hold more than the \<open>0x\<close> prefix.\<close>

definition strtol16 :: "string \<Rightarrow> int" where
  "strtol16 s =
     (case scan_sign (dropWhile isspace (c_str s)) of (neg, t) \<Rightarrow>
        let v = fold (\<lambda>c v. 16 * v + hexValue c) (takeWhile isxdigit t) 0 in if neg then - v else v)"

fun percent_decode :: "string \<Rightarrow> string" where
  "percent_decode (c # a # b # r) =
     (if c = CHR ''%'' then char_of (nat (strtol16 [a, b] mod 256)) # percent_decode r
      else c # percent_decode (a # b # r))"
| "percent_decode s = s"

text \<open>The locals of \<open>fieldParameter\<close>; the \<open>std::map\<close> of the continuations as an association list.\<close>

record param_state =
  ps_continuations :: "(int \<times> string) list"
  ps_simple :: string
  ps_extended :: bool

text \<open>One part after the first: \<open>key=value\<close>.\<close>

definition param_step :: "string \<Rightarrow> string \<Rightarrow> param_state \<Rightarrow> param_state" where
  "param_step want raw_part st =
     (let part = trim raw_part in
      case find_char CHR ''='' part 0 of None \<Rightarrow> st
      | Some eq \<Rightarrow>
        let key = lower (trim (take eq part));
            val = drop (eq + 1) part;
            this_extended = (key \<noteq> [] \<and> last key = CHR ''*'');
            key = (if this_extended then butlast key else key);
            (index, key) = (case find_char CHR ''*'' key 0 of None \<Rightarrow> (- 1, key)
              | Some star \<Rightarrow> (atoi (drop (star + 1) key), take star key))
        in if key \<noteq> want then st
           else if 0 \<le> index then
             st\<lparr>ps_continuations := AList.update index (unquote val) (ps_continuations st),
                ps_extended := ps_extended st \<or> this_extended\<rparr>
           else st\<lparr>ps_simple := unquote val, ps_extended := this_extended\<rparr>)"

definition param_joined :: "param_state \<Rightarrow> string" where
  "param_joined st = ps_simple st @ concat (map snd (sort_key fst (ps_continuations st)))"

text \<open>\<open>charset'language'percent-encoded-text\<close>: the charset and the encoded text.\<close>

definition split_extended :: "string \<Rightarrow> string \<times> string" where
  "split_extended joined =
     (case find_char CHR 0x27 joined 0 of None \<Rightarrow> ([], joined)
      | Some first \<Rightarrow>
        (case find_char CHR 0x27 joined (first + 1) of None \<Rightarrow> ([], joined)
         | Some second \<Rightarrow> (take first joined, drop (second + 1) joined)))"

definition fieldParameter :: "icu \<Rightarrow> string \<Rightarrow> string \<Rightarrow> string" where
  "fieldParameter icu v name =
     (let parts = splitOutsideQuotes v CHR '';'';
          st = fold (param_step (lower name)) (tl parts) \<lparr>ps_continuations = [], ps_simple = [], ps_extended = False\<rparr>;
          joined = param_joined st
      in if joined = [] then []
         else if ps_extended st then
           (case split_extended joined of (charset, encoded) \<Rightarrow> toUtf8 icu (percent_decode encoded) charset)
         else decodeEncodedWords icu joined)"

subsection \<open>Address lists\<close>

text \<open>What a group label may not hold.\<close>

definition group_label :: "string \<Rightarrow> bool" where
  "group_label label \<longleftrightarrow> CHR ''@'' \<notin> set label \<and> CHR ''<'' \<notin> set label \<and> QUOTE \<notin> set label"

text \<open>One group of the list, its label removed.\<close>

definition strip_label :: "string \<Rightarrow> string" where
  "strip_label part =
     (case find_char CHR '':'' part 0 of None \<Rightarrow> part
      | Some colon \<Rightarrow> if group_label (take colon part) then trim (drop (colon + 1) part) else part)"

definition flatten_step :: "string \<Rightarrow> string \<Rightarrow> string" where
  "flatten_step raw flattened =
     (let part = trim raw in
      if part = [] then flattened
      else
        let part = strip_label part in
        if part = [] then flattened
        else (if flattened = [] then [] else flattened @ '', '') @ part)"

definition looks_like_address :: "string \<Rightarrow> bool" where
  "looks_like_address token \<longleftrightarrow>
     CHR ''@'' \<in> set token \<or> (CHR '' '' \<notin> set token \<and> hd token \<noteq> QUOTE \<and> take 2 token \<noteq> ''=?'')"

text \<open>No angle brackets around an address.\<close>

definition bare_mailbox :: "icu \<Rightarrow> string \<Rightarrow> mailbox" where
  "bare_mailbox icu part =
     (let token = trim part in
      if looks_like_address token then \<lparr>mb_name = [], mb_email = token\<rparr>
      else \<lparr>mb_name = headerText icu (unquote token), mb_email = []\<rparr>)"

text \<open>The mailbox of one non-empty part.\<close>

definition part_mailbox :: "icu \<Rightarrow> string \<Rightarrow> mailbox" where
  "part_mailbox icu part =
     (case (rfind_char CHR ''<'' part, rfind_char CHR ''>'' part) of
        (Some opening, Some closing) \<Rightarrow>
          if opening < closing then
            \<lparr>mb_name = headerText icu (unquote (trim (take opening part))),
             mb_email = trim (substr part (opening + 1) (closing - opening - 1))\<rparr>
          else bare_mailbox icu part
      | _ \<Rightarrow> bare_mailbox icu part)"

definition address_step :: "icu \<Rightarrow> string \<Rightarrow> mailbox list \<Rightarrow> mailbox list" where
  "address_step icu raw out =
     (let part = trim raw in
      if part = [] then out
      else
        let mb = part_mailbox icu part in
        if mb_email mb = [] \<and> mb_name mb = [] then out
        else out @ [if mb_name mb = mb_email mb then mb\<lparr>mb_name := []\<rparr> else mb])"

definition parseAddressList :: "icu \<Rightarrow> string \<Rightarrow> mailbox list" where
  "parseAddressList icu v =
     (let flattened = fold flatten_step (splitOutsideQuotes v CHR '';'') []
      in fold (address_step icu) (splitOutsideQuotes flattened CHR '','') [])"

end
