(* ===== verification/Mime_Headers_Props.thy ===== *)
theory Mime_Headers_Props
  imports Mime_Headers
begin

section \<open>Header fields read back\<close>

text \<open>
  Reference writers for the field block, for encoded words and for address lists, and the proofs
  that the parsers of \<open>Mime_Headers\<close> read back what they write.
\<close>

subsection \<open>The block\<close>

text \<open>
  A line of a value as mail has it: white space, the text, white space again and the end of the
  line, which is CRLF or a bare LF. A field is its name, the first line and the lines it is folded
  over, each of which starts with a run of spaces and TABs.
\<close>

type_synonym value_line = "string \<times> string \<times> string \<times> bool"
type_synonym written_field = "string \<times> value_line \<times> value_line list"

definition line_break :: "bool \<Rightarrow> string" where
  "line_break crlf = (if crlf then [CR, LF] else [LF])"

definition write_line :: "value_line \<Rightarrow> string" where
  "write_line l = (case l of (before, v, behind, crlf) \<Rightarrow> before @ v @ behind @ line_break crlf)"

definition write_field :: "written_field \<Rightarrow> string" where
  "write_field f = (case f of (n, l, ls) \<Rightarrow> n @ '':'' @ write_line l @ concat (map write_line ls))"

abbreviation line_text :: "value_line \<Rightarrow> string" where
  "line_text l \<equiv> fst (snd l)"

definition unfolded :: "written_field \<Rightarrow> header_field" where
  "unfolded f = (case f of (n, l, ls) \<Rightarrow>
     \<lparr>field_name = n, field_value = line_text l @ concat (map (\<lambda>l. CHR '' '' # line_text l) ls)\<rparr>)"

definition line_value :: "string \<Rightarrow> bool" where
  "line_value v \<longleftrightarrow> trim v = v \<and> LF \<notin> set v"

definition blanks :: "string \<Rightarrow> bool" where
  "blanks w \<longleftrightarrow> list_all (\<lambda>c. c = CHR '' '' \<or> c = TAB) w"

definition good_line :: "value_line \<Rightarrow> bool" where
  "good_line l \<longleftrightarrow> (case l of (before, v, behind, crlf) \<Rightarrow> blanks before \<and> line_value v \<and> blanks behind)"

definition good_field :: "written_field \<Rightarrow> bool" where
  "good_field f \<longleftrightarrow> (case f of (n, l, ls) \<Rightarrow>
     n \<noteq> [] \<and> line_value n \<and> CHR '':'' \<notin> set n \<and> good_line l \<and> list_all (\<lambda>l. fst l \<noteq> [] \<and> good_line l) ls)"

lemma header_line:
  assumes "LF \<notin> set l" "crlf \<or> l = [] \<or> last l \<noteq> CR"
  shows "header_loop (l @ line_break crlf @ r) st =
    (if l = [] then (st, r)
     else if hd l = CHR '' '' \<or> hd l = TAB then
       header_loop r (if hs_have st then st\<lparr>hs_value := hs_value st @ '' '' @ trim l\<rparr> else st)
     else case find_char CHR '':'' l 0 of
         None \<Rightarrow> (st, l @ line_break crlf @ r)
       | Some colon \<Rightarrow> header_loop r
           ((flush st)\<lparr>hs_name := trim (take colon l), hs_value := trim (drop (colon + 1) l), hs_have := True\<rparr>))"
proof -
  let ?l = "l @ (if crlf then [CR] else [])"
  have t: "takeWhile (\<lambda>c. c \<noteq> LF) (l @ line_break crlf @ r) = ?l" and d: "dropWhile (\<lambda>c. c \<noteq> LF) (l @ line_break crlf @ r) = LF # r"
    using assms(1) by (induction l) (auto simp: line_break_def)
  have c: "chomp ?l = l" using assms(2) by (auto simp: chomp_def)
  have ne: "l @ line_break crlf @ r \<noteq> []" by (simp add: line_break_def)
  show ?thesis by (subst header_loop.simps) (simp add: t d c ne Let_def cong: if_cong option.case_cong)
qed

lemma trim_Cons_space: "isspace c \<Longrightarrow> trim (c # v) = trim v"
  by (simp add: trim_def)

lemma trim_snoc_space: "isspace c \<Longrightarrow> trim (v @ [c]) = trim v"
proof -
  assume c: "isspace c"
  show ?thesis
  proof (cases "\<forall>x \<in> set v. isspace x")
    case True
    then have "dropWhile isspace (v @ [c]) = []" "dropWhile isspace v = []" using c by (auto simp: dropWhile_eq_Nil_conv)
    then show ?thesis by (simp add: trim_def del: dropWhile_eq_Nil_conv)
  next
    case False
    then show ?thesis using c by (auto simp: trim_def dropWhile_append1)
  qed
qed

lemma isspace_space [simp]: "isspace CHR '' ''" "isspace TAB"
  by code_simp+

lemma trim_blanks: "blanks w \<Longrightarrow> trim (w @ v) = trim v"
  by (induction w) (auto simp: blanks_def trim_Cons_space)

lemma trim_blanks_behind: "blanks w \<Longrightarrow> trim (v @ w) = trim v"
proof (induction w rule: rev_induct)
  case (snoc c w)
  then show ?case using trim_snoc_space [of c "v @ w"] by (auto simp: blanks_def)
qed simp

lemma trim_hd: "trim v = v \<Longrightarrow> v \<noteq> [] \<Longrightarrow> \<not> isspace (hd v)"
proof
  assume t: "trim v = v" "v \<noteq> []" "isspace (hd v)"
  then have "length v \<le> length (dropWhile isspace v)"
    using length_dropWhile_le [of isspace "rev (dropWhile isspace v)"] by (metis length_rev trim_def)
  moreover have "length (dropWhile isspace v) < length v"
    using t length_dropWhile_le [of isspace "tl v"] by (cases v) (auto simp: le_imp_less_Suc)
  ultimately show False using t(1) by simp
qed

lemma trim_length: "length (trim v) \<le> length v"
  using length_dropWhile_le [of isspace v] length_dropWhile_le [of isspace "rev (dropWhile isspace v)"]
  by (simp add: trim_def)

lemma trim_last: "trim v = v \<Longrightarrow> v \<noteq> [] \<Longrightarrow> \<not> isspace (last v)"
proof
  assume t: "trim v = v" "v \<noteq> []" "isspace (last v)"
  then have "trim v = trim (butlast v)" by (metis append_butlast_last_id trim_snoc_space)
  then show False using t trim_length [of "butlast v"] by (cases v) (auto split: if_splits)
qed

lemma good_line_text:
  assumes "good_line (w, v, t, b)"
  shows "trim (w @ v @ t) = v" "LF \<notin> set (w @ v @ t)" "w @ v @ t = [] \<or> last (w @ v @ t) \<noteq> CR"
proof -
  have l: "blanks w" "blanks t" "trim v = v" "LF \<notin> set v" using assms by (simp_all add: good_line_def line_value_def)
  show "trim (w @ v @ t) = v" unfolding trim_blanks [OF l(1)] trim_blanks_behind [OF l(2)] by (rule l(3))
  have "LF \<notin> set x" if "blanks x" for x using that by (induction x) (auto simp: blanks_def)
  then show "LF \<notin> set (w @ v @ t)" using l(1,2,4) by simp
  have cr: "isspace CR" by code_simp
  have b: "x = [] \<or> last x \<noteq> CR" if "blanks x" for x
    using that by (induction x) (auto simp: blanks_def)
  have "v = [] \<or> last v \<noteq> CR" using trim_last [OF l(3)] cr by fastforce
  then show "w @ v @ t = [] \<or> last (w @ v @ t) \<noteq> CR" using b [OF l(1)] b [OF l(2)] by (cases "t = []"; cases "v = []") simp_all
qed

lemma header_field_line:
  assumes "n \<noteq> []" "line_value n" "CHR '':'' \<notin> set n" "good_line l"
  shows "header_loop (n @ '':'' @ write_line l @ r) st =
    header_loop r ((flush st)\<lparr>hs_name := n, hs_value := line_text l, hs_have := True\<rparr>)"
proof -
  obtain w v t b where l: "l = (w, v, t, b)" by (cases l)
  note g = good_line_text [OF assms(4) [unfolded l]]
  let ?l = "n @ '':'' @ w @ v @ t"
  have lf: "LF \<notin> set ?l" using assms(2) g(2) by (auto simp: line_value_def)
  have cr: "b \<or> ?l = [] \<or> last ?l \<noteq> CR" using g(3) by auto
  have h: "\<not> isspace (hd n)" using assms by (intro trim_hd) (simp_all add: line_value_def)
  then have h': "hd n \<noteq> CHR '' ''" "hd n \<noteq> TAB" by auto
  have c: "find_char CHR '':'' ?l 0 = Some (length n)"
    using find_char_append [OF assms(3), of "[]" "w @ v @ t"] by simp
  have "header_loop (?l @ line_break b @ r) st =
    header_loop r ((flush st)\<lparr>hs_name := n, hs_value := v, hs_have := True\<rparr>)"
    unfolding header_line [OF lf cr, of r st] c using assms(1,2) h' g(1) by (simp add: line_value_def)
  then show ?thesis by (simp add: l write_line_def)
qed

lemma header_continuations:
  assumes "list_all (\<lambda>l. fst l \<noteq> [] \<and> good_line l) ls" "hs_have st"
  shows "header_loop (concat (map write_line ls) @ r) st =
    header_loop r (st\<lparr>hs_value := hs_value st @ concat (map (\<lambda>l. CHR '' '' # line_text l) ls)\<rparr>)"
  using assms
proof (induction ls arbitrary: st)
  case (Cons l ls)
  obtain w v t b where l: "l = (w, v, t, b)" by (cases l)
  have w: "w \<noteq> []" "good_line (w, v, t, b)" using Cons.prems by (simp_all add: l)
  then have hd: "hd (w @ v @ t) = CHR '' '' \<or> hd (w @ v @ t) = TAB"
    by (cases w) (auto simp: good_line_def blanks_def)
  have step: "header_loop ((w @ v @ t) @ line_break b @ s) st = header_loop s (st\<lparr>hs_value := hs_value st @ '' '' @ v\<rparr>)" for s
    unfolding header_line [OF good_line_text(2) [OF w(2)] disjI2 [OF good_line_text(3) [OF w(2)]]]
    using w hd good_line_text(1) [OF w(2)] Cons.prems(2) by simp
  show ?case using Cons.IH [of "st\<lparr>hs_value := hs_value st @ '' '' @ v\<rparr>"] Cons.prems step
    by (simp add: l write_line_def)
qed simp

lemma header_fields_read:
  assumes "list_all good_field fs"
  shows "\<exists>st'. header_loop (concat (map write_field fs) @ line_break crlf @ body) st = (st', body) \<and>
    hs_out (flush st') = hs_out (flush st) @ map unfolded fs"
  using assms
proof (induction fs arbitrary: st)
  case Nil
  then show ?case using header_line [of "[]" crlf body st] by simp
next
  case (Cons f fs)
  obtain n l ls where f: "f = (n, l, ls)" by (cases f)
  let ?st = "(flush st)\<lparr>hs_name := n, hs_have := True, hs_value := line_text l @ concat (map (\<lambda>l. CHR '' '' # line_text l) ls)\<rparr>"
  have "header_loop (write_field f @ r) st = header_loop r ?st" for r
    using Cons.prems header_field_line [of n l "concat (map write_line ls) @ r" st]
      header_continuations [of ls "(flush st)\<lparr>hs_name := n, hs_value := line_text l, hs_have := True\<rparr>" r]
    by (simp add: f write_field_def good_field_def)
  moreover obtain st' where "header_loop (concat (map write_field fs) @ line_break crlf @ body) ?st = (st', body)"
      "hs_out (flush st') = hs_out (flush ?st) @ map unfolded fs"
    using Cons by fastforce
  moreover have "hs_out (flush ?st) = hs_out (flush st) @ [unfolded f]"
    by (simp add: flush_def f unfolded_def)
  ultimately show ?case by simp
qed

lemma parseHeaderBlock_fields:
  assumes "list_all good_field fs"
  shows "parseHeaderBlock (concat (map write_field fs) @ line_break crlf @ body) =
    (map unfolded fs, length (concat (map write_field fs)) + length (line_break crlf))"
proof -
  obtain st where "header_loop (concat (map write_field fs) @ line_break crlf @ body)
      \<lparr>hs_out = [], hs_name = [], hs_value = [], hs_have = False\<rparr> = (st, body)"
      "hs_out (flush st) = map unfolded fs"
    using header_fields_read [OF assms, of crlf body "\<lparr>hs_out = [], hs_name = [], hs_value = [], hs_have = False\<rparr>"]
    by (auto simp: flush_def)
  then show ?thesis by (simp add: parseHeaderBlock_def)
qed

subsection \<open>Encoded words\<close>

definition encoded_word :: "string \<Rightarrow> string" where
  "encoded_word s = ''=?utf-8?B?'' @ base64_encode (bytes_of s) @ ''?=''"

lemma base64_char_value: "unat w < 64 \<Longrightarrow> 0 \<le> base64Value (base64_char w)"
  by (simp add: base64Value_char)

lemma base64_encode_chars: "c \<in> set (base64_encode bs) \<Longrightarrow> 0 \<le> base64Value c \<or> c = CHR ''=''"
  by (induction bs rule: base64_encode.induct) (auto simp: base64_char_value six_bits)

lemma base64_encode_plain: "c \<in> set (base64_encode bs) \<Longrightarrow> c \<notin> {CHR ''?'', CHR '':'', CHR ''<'', CHR ''>'', CHR ''('', CHR '','', CHR '';'', QUOTE, CHR '' ''}"
proof -
  have "base64Value d = - 1 \<and> d \<noteq> CHR ''=''" if "d \<in> {CHR ''?'', CHR '':'', CHR ''<'', CHR ''>'', CHR ''('', CHR '','', CHR '';'', QUOTE, CHR '' ''}" for d
    using that by (elim insertE emptyE) (simp_all add: base64Value_def)
  then show "c \<in> set (base64_encode bs) \<Longrightarrow> c \<notin> {CHR ''?'', CHR '':'', CHR ''<'', CHR ''>'', CHR ''('', CHR '','', CHR '';'', QUOTE, CHR '' ''}"
    using base64_encode_chars [of c bs] by fastforce
qed

lemma find_str_append:
  assumes "hd p \<notin> set b" "p \<noteq> []"
  shows "find_str p (a @ b @ p @ r) (length a) = Some (length a + length b)"
proof -
  have "find_prefix p (b @ p @ r) i = Some (i + length b)" for i
    using assms
  proof (induction b arbitrary: i)
    case Nil
    then show ?case by (simp add: find_prefix.simps)
  next
    case (Cons c b)
    then have "take (length p) (c # b @ p @ r) \<noteq> p" by (cases p) auto
    then show ?case using Cons by (subst find_prefix.simps) simp
  qed
  then show ?thesis by (simp add: find_str_def)
qed

lemma toUtf8_declared: "isValidUtf8 s \<Longrightarrow> toUtf8 icu s ''utf-8'' = s"
proof -
  have "utf8_name (trimLower ''utf-8'')" by code_simp
  then show "isValidUtf8 s \<Longrightarrow> toUtf8 icu s ''utf-8'' = s" by (simp add: toUtf8_def)
qed

lemma decodeOneWord_encoded:
  assumes "isValidUtf8 s"
  shows "decodeOneWord icu (encoded_word s @ r) = Some (s, length (encoded_word s))"
proof -
  let ?b = "base64_encode (bytes_of s)"
  have q: "CHR ''?'' \<notin> set ?b" using base64_encode_plain by blast
  let ?w = "''=?utf-8?B?'' @ ?b @ ''?='' @ r"
  have w: "encoded_word s @ r = ?w" by (simp add: encoded_word_def)
  have 1: "find_char CHR ''?'' ?w 2 = Some 7" by (simp add: find_char_def)
  have 2: "find_char CHR ''?'' ?w (7 + 1) = Some 9" by (simp add: find_char_def)
  have 3: "find_str ''?='' ?w (9 + 1) = Some (10 + length ?b)"
  proof -
    have "length ''=?utf-8?B?'' = 9 + 1" "9 + 1 + length ?b = 10 + length ?b" by simp_all
    then show ?thesis using find_str_append [of "''?=''" ?b "''=?utf-8?B?''" r] q by (simp only:) simp
  qed
  have "toupper CHR ''B'' = CHR ''B''" by code_simp
  moreover have "substr ?w 2 (7 - 2) = ''utf-8''" "?w ! (7 + 1) = CHR ''B''" by (simp_all add: substr_def)
  moreover have "substr ?w (9 + 1) (10 + length ?b - 9 - 1) = ?b" by (simp add: substr_def)
  moreover have "decodeBase64 ?b = s"
    using base64_run_encode [of 0 "bytes_of s"] by (simp add: decodeBase64_def comp_def)
  ultimately show ?thesis unfolding w decodeOneWord_def 1 option.case 2 3
    by (simp add: toUtf8_declared [OF assms] encoded_word_def)
qed

text \<open>Encoded words with white space between them.\<close>

fun write_words :: "(string \<times> string) list \<Rightarrow> string" where
  "write_words [] = []"
| "write_words ((w, gap) # ws) = encoded_word w @ (if ws = [] then [] else gap) @ write_words ws"

lemma words_loop_word:
  assumes "isValidUtf8 s"
  shows "words_loop icu (encoded_word s @ r) p n out =
    words_loop icu r True 0 (out @ (if p then [] else replicate n CHR '' '') @ s)"
proof -
  have "isEncodedWordStart (encoded_word s @ r)" "encoded_word s \<noteq> []" by (simp_all add: isEncodedWordStart_def encoded_word_def)
  then show ?thesis by (subst words_loop.simps) (simp add: decodeOneWord_encoded [OF assms])
qed

lemma words_loop_gap:
  assumes "list_all isspace g"
  shows "words_loop icu (g @ r) p n out = words_loop icu r p (n + length g) out"
  using assms
proof (induction g arbitrary: n)
  case (Cons c g)
  have "\<not> isspace CHR ''=''" by code_simp
  then have "c \<noteq> CHR ''=''" using Cons.prems by auto
  then have "\<not> isEncodedWordStart (c # g @ r)" by (simp add: isEncodedWordStart_def)
  then show ?case using Cons by (subst append_Cons, subst words_loop.simps) simp
qed simp

lemma words_loop_words:
  assumes "list_all (\<lambda>(w, gap). isValidUtf8 w \<and> list_all isspace gap) ws" "ws \<noteq> [] \<longrightarrow> p \<or> n = 0" "ws = [] \<longrightarrow> n = 0"
  shows "words_loop icu (write_words ws) p n out = out @ concat (map fst ws)"
  using assms
proof (induction ws arbitrary: p n out)
  case Nil
  then show ?case by (simp add: words_loop.simps)
next
  case (Cons wg ws)
  obtain w g where wg: "wg = (w, g)" by (cases wg)
  have "words_loop icu (write_words (wg # ws)) p n out =
      words_loop icu ((if ws = [] then [] else g) @ write_words ws) True 0 (out @ w)"
    using Cons.prems words_loop_word [of w icu "(if ws = [] then [] else g) @ write_words ws" p n out] wg by auto
  then show ?case using Cons.prems Cons.IH [of True "length g" "out @ w"] Cons.IH [of True 0 "out @ w"]
      words_loop_gap [of g icu "write_words ws" True 0 "out @ w"] wg by (cases "ws = []") simp_all
qed

lemma decodeEncodedWords_words:
  "list_all (\<lambda>(w, gap). isValidUtf8 w \<and> list_all isspace gap) ws \<Longrightarrow>
    decodeEncodedWords icu (write_words ws) = concat (map fst ws)"
  using words_loop_words [of ws False 0 icu "[]"] by (simp add: decodeEncodedWords_def)

subsection \<open>Address lists\<close>

text \<open>A display name as a quoted string, or as an encoded word.\<close>

definition quote_name :: "string \<Rightarrow> string" where
  "quote_name n = QUOTE # concat (map (\<lambda>c. if c = QUOTE \<or> c = BACKSLASH then [BACKSLASH, c] else [c]) n) @ [QUOTE]"

definition write_mailbox :: "bool \<times> mailbox \<Rightarrow> string" where
  "write_mailbox m = (case m of (encode, mb) \<Rightarrow>
     (if encode then encoded_word (mb_name mb) else quote_name (mb_name mb)) @ '' <'' @ mb_email mb @ ''>'')"

fun write_address_list :: "(bool \<times> mailbox) list \<Rightarrow> string" where
  "write_address_list [] = []"
| "write_address_list [m] = write_mailbox m"
| "write_address_list (m # ms) = write_mailbox m @ '', '' @ write_address_list ms"

text \<open>
  What the writer may be given: an address without brackets, quotes or comments, and a name that is
  valid UTF-8. A name in a quoted string is still decoded, so it must not hold the start of an
  encoded word, and every white space in it comes out as a space.
\<close>

definition plain_name :: "string \<Rightarrow> bool" where
  "plain_name n \<longleftrightarrow>
     list_all (\<lambda>i. \<not> isEncodedWordStart (drop i n)) [0..<length n] \<and> list_all (\<lambda>c. isspace c \<longrightarrow> c = CHR '' '') n"

definition plain_email :: "string \<Rightarrow> bool" where
  "plain_email e \<longleftrightarrow> e \<noteq> [] \<and> trim e = e \<and> set e \<inter> {CHR ''<'', CHR ''>'', CHR ''('', QUOTE} = {}"

definition good_mailbox :: "bool \<times> mailbox \<Rightarrow> bool" where
  "good_mailbox m \<longleftrightarrow> (case m of (encode, mb) \<Rightarrow>
     isValidUtf8 (mb_name mb) \<and> (encode \<or> plain_name (mb_name mb)) \<and> plain_email (mb_email mb))"

text \<open>Splitting passes over an entry.\<close>

lemma split_escaped:
  "split_loop sep True a 0 (concat (map (\<lambda>c. if c = QUOTE \<or> c = BACKSLASH then [BACKSLASH, c] else [c]) n) @ QUOTE # r) cur out =
   split_loop sep False a 0 r (cur @ concat (map (\<lambda>c. if c = QUOTE \<or> c = BACKSLASH then [BACKSLASH, c] else [c]) n) @ [QUOTE]) out"
  by (induction n arbitrary: cur) auto

lemma split_quoted:
  "split_loop sep False a 0 (quote_name n @ r) cur out = split_loop sep False a 0 r (cur @ quote_name n) out"
  using split_escaped [of sep a n r "cur @ [QUOTE]" out] by (simp add: quote_name_def)

lemma split_plain:
  assumes "set t \<inter> {sep, CHR ''<'', CHR ''>'', CHR ''('', QUOTE} = {} \<or> a \<and> set t \<inter> {CHR ''<'', CHR ''>'', CHR ''('', QUOTE} = {}"
  shows "split_loop sep False a 0 (t @ r) cur out = split_loop sep False a 0 r (cur @ t) out"
  using assms by (induction t arbitrary: cur) auto

lemma encoded_word_plain:
  "set (encoded_word n) \<inter> {CHR '':'', CHR ''<'', CHR ''>'', CHR ''('', CHR '','', CHR '';'', QUOTE, CHR '' ''} = {}"
  using base64_encode_plain [of _ "bytes_of n"] by (auto simp: encoded_word_def)

lemma split_mailbox:
  assumes "good_mailbox m" "sep = CHR '','' \<or> sep = CHR '';''"
  shows "split_loop sep False False 0 (write_mailbox m @ r) cur out = split_loop sep False False 0 r (cur @ write_mailbox m) out"
proof -
  obtain e mb where m: "m = (e, mb)" by (cases m)
  let ?n = "if e then encoded_word (mb_name mb) else quote_name (mb_name mb)"
  have n: "split_loop sep False False 0 (?n @ t) cur out = split_loop sep False False 0 t (cur @ ?n) out" for t
    using assms(2) split_quoted split_plain [of "encoded_word (mb_name mb)"] encoded_word_plain [of "mb_name mb"] by auto
  have em: "split_loop sep False True 0 (mb_email mb @ t) c out = split_loop sep False True 0 t (c @ mb_email mb) out" for t c
    using assms(1) by (intro split_plain) (simp add: m good_mailbox_def plain_email_def)
  have "sep \<noteq> CHR '' ''" "sep \<noteq> CHR ''>''" using assms(2) by auto
  then show ?thesis by (auto simp: m write_mailbox_def n em)
qed

lemma split_list_semi:
  "list_all good_mailbox ms \<Longrightarrow>
    split_loop CHR '';'' False False 0 (write_address_list ms) cur out = out @ [cur @ write_address_list ms]"
proof (induction ms arbitrary: cur rule: write_address_list.induct)
  case (2 m)
  then show ?case using split_mailbox [of m "CHR '';''" "[]" cur out] by simp
next
  case (3 m m' ms)
  then show ?case using split_mailbox [of m "CHR '';''" "'', '' @ write_address_list (m' # ms)" cur out] by simp
qed simp

lemma split_list_comma:
  "list_all good_mailbox ms \<Longrightarrow> ms \<noteq> [] \<Longrightarrow>
    split_loop CHR '','' False False 0 (write_address_list ms) cur out =
      out @ (cur @ write_mailbox (hd ms)) # map (\<lambda>m. CHR '' '' # write_mailbox m) (tl ms)"
proof (induction ms arbitrary: cur out rule: write_address_list.induct)
  case (2 m)
  then show ?case using split_mailbox [of m "CHR '',''" "[]" cur out] by simp
next
  case (3 m m' ms)
  then show ?case using split_mailbox [of m "CHR '',''" "'', '' @ write_address_list (m' # ms)" cur out] by simp
qed simp

text \<open>The parts of an entry read back.\<close>

lemma rfind_append: "c \<notin> set b \<Longrightarrow> rfind_char c (a @ c # b) = Some (length a)"
proof -
  assume c: "c \<notin> set b"
  have "takeWhile (\<lambda>x. x \<noteq> c) (rev b @ c # rev a) = rev b" by (rule takeWhile_stop) (use c in auto)
  then show ?thesis by (simp add: rfind_char_def)
qed

lemma unescape_Cons: "c \<noteq> BACKSLASH \<Longrightarrow> unescape (c # r) = c # unescape r"
  by (cases r) auto

lemma unescape_escaped:
  "unescape (concat (map (\<lambda>c. if c = QUOTE \<or> c = BACKSLASH then [BACKSLASH, c] else [c]) n)) = n"
  by (induction n) (simp_all add: unescape_Cons)

lemma not_space [simp]: "\<not> isspace QUOTE" "\<not> isspace CHR ''=''" "\<not> isspace CHR ''>''"
  by code_simp+

lemma unquote_name: "unquote (quote_name n) = n"
  using unescape_escaped [of n] trim_id [of "quote_name n"] by (simp add: quote_name_def unquote_def)

lemma unquote_encoded: "unquote (encoded_word n) = encoded_word n"
  using trim_id [of "encoded_word n"] by (simp add: encoded_word_def unquote_def)

lemma ascii_valid: "list_all (\<lambda>c. byte_of c < 0x80) s \<Longrightarrow> isValidUtf8 s"
  by (induction s) (simp_all add: isValidUtf8_def)

lemma base64_ascii: "0 \<le> base64Value c \<or> c = CHR ''='' \<Longrightarrow> byte_of c < 0x80"
proof -
  assume c: "0 \<le> base64Value c \<or> c = CHR ''=''"
  have "(of_char c :: int) < 128" using c by (auto simp: base64Value_def Let_def split: if_splits)
  then have "int (of_char c) < 128" by (simp only: of_nat_of_char)
  then show ?thesis by (simp add: word_less_nat_alt unat_byte_of)
qed

lemma encoded_word_ascii: "list_all (\<lambda>c. byte_of c < 0x80) (encoded_word n)"
proof -
  have "list_all (\<lambda>c. byte_of c < 0x80) (base64_encode (bytes_of n))"
    using base64_encode_chars base64_ascii by (auto simp: list_all_iff)
  moreover have "list_all (\<lambda>c. byte_of c < 0x80) ''=?utf-8?B?''" "list_all (\<lambda>c. byte_of c < 0x80) ''?=''" by code_simp+
  ultimately show ?thesis by (simp add: encoded_word_def)
qed

lemma headerText_encoded: "isValidUtf8 n \<Longrightarrow> headerText icu (encoded_word n) = n"
  using ascii_valid [OF encoded_word_ascii] decodeEncodedWords_words [of "[(n, [])]" icu] by (simp add: headerText_def)

lemma words_loop_plain:
  "plain_name n \<Longrightarrow> words_loop icu n p k out = out @ replicate k CHR '' '' @ n"
proof (induction n arbitrary: p k out)
  case Nil
  then show ?case by (simp add: words_loop.simps)
next
  case (Cons c n)
  have all: "\<not> isEncodedWordStart (drop i (c # n))" if "i < Suc (length n)" for i
    using Cons.prems that by (simp add: plain_name_def list_all_iff del: upt_Suc)
  have "\<not> isEncodedWordStart (c # n)" "isspace c \<longrightarrow> c = CHR '' ''"
    using Cons.prems all [of 0] by (simp_all add: plain_name_def)
  moreover have "plain_name n"
    using Cons.prems all [of "Suc _"] by (simp add: plain_name_def list_all_iff)
  ultimately show ?case using Cons.IH
    by (subst words_loop.simps) (auto simp: replicate_append_same simp flip: replicate_Suc)
qed

lemma headerText_plain: "isValidUtf8 n \<Longrightarrow> plain_name n \<Longrightarrow> headerText icu n = n"
  by (simp add: headerText_def decodeEncodedWords_def words_loop_plain)

text \<open>The mailbox the parser makes of an entry.\<close>

definition read_back :: "mailbox \<Rightarrow> mailbox" where
  "read_back mb = (if mb_name mb = mb_email mb then mb\<lparr>mb_name := []\<rparr> else mb)"

lemma part_mailbox_write:
  assumes "good_mailbox (e, mb)"
  shows "part_mailbox icu (write_mailbox (e, mb)) = mb"
proof -
  let ?n = "if e then encoded_word (mb_name mb) else quote_name (mb_name mb)"
  have em: "plain_email (mb_email mb)" using assms by (simp add: good_mailbox_def)
  have w: "write_mailbox (e, mb) = (?n @ '' '') @ CHR ''<'' # mb_email mb @ ''>''" by (simp add: write_mailbox_def)
  have lt: "rfind_char CHR ''<'' (write_mailbox (e, mb)) = Some (length ?n + 1)"
    using rfind_append [of "CHR ''<''" "mb_email mb @ ''>''" "?n @ '' ''"] em w by (simp add: plain_email_def)
  have gt: "rfind_char CHR ''>'' (write_mailbox (e, mb)) = Some (length ?n + 2 + length (mb_email mb))"
    using rfind_append [of "CHR ''>''" "[]" "?n @ '' <'' @ mb_email mb"] by (simp add: write_mailbox_def)
  have "unquote (trim (?n @ '' '')) = (if e then encoded_word (mb_name mb) else mb_name mb)"
    using unquote_name [of "mb_name mb"] unquote_encoded [of "mb_name mb"]
    by (simp add: trim_snoc_space unquote_def [of "trim _"])
      (simp add: unquote_def)
  then have nm: "headerText icu (unquote (trim (take (length ?n + 1) (write_mailbox (e, mb))))) = mb_name mb"
    using assms headerText_encoded [of "mb_name mb" icu] headerText_plain [of "mb_name mb" icu]
    by (auto simp add: w good_mailbox_def)
  have "substr (write_mailbox (e, mb)) (length ?n + 2) (length (mb_email mb)) = mb_email mb"
    by (simp add: w substr_def)
  then show ?thesis using em nm unfolding part_mailbox_def lt gt
    by (simp add: plain_email_def)
qed

lemma write_mailbox_trim:
  assumes "good_mailbox m"
  shows "trim (write_mailbox m) = write_mailbox m" "write_mailbox m \<noteq> []"
proof -
  obtain e mb where m: "m = (e, mb)" by (cases m)
  show "write_mailbox m \<noteq> []" by (simp add: m write_mailbox_def)
  show "trim (write_mailbox m) = write_mailbox m"
    by (rule trim_id) (auto simp: m write_mailbox_def quote_name_def encoded_word_def)
qed

lemma address_steps:
  "list_all good_mailbox ms \<Longrightarrow>
    fold (address_step icu) (map (\<lambda>m. CHR '' '' # write_mailbox m) ms) out = out @ map (read_back \<circ> snd) ms"
proof (induction ms arbitrary: out)
  case (Cons m ms)
  obtain e mb where m: "m = (e, mb)" by (cases m)
  have "mb_email mb \<noteq> []" using Cons.prems by (simp add: m good_mailbox_def plain_email_def)
  then have "address_step icu (CHR '' '' # write_mailbox m) out = out @ [read_back mb]"
    using Cons.prems write_mailbox_trim [of m] part_mailbox_write [of e mb icu]
    by (simp add: address_step_def trim_Cons_space m read_back_def)
  then show ?case using Cons by (simp add: m)
qed simp

lemma write_list_trim:
  assumes "list_all good_mailbox ms" "ms \<noteq> []"
  shows "trim (write_address_list ms) = write_address_list ms" "write_address_list ms \<noteq> []"
proof -
  have "write_address_list ms \<noteq> [] \<and> \<not> isspace (last (write_address_list ms)) \<and> \<not> isspace (hd (write_address_list ms))"
    using assms
  proof (induction ms rule: write_address_list.induct)
    case (2 m)
    then show ?case by (cases m) (auto simp: write_mailbox_def quote_name_def encoded_word_def)
  next
    case (3 m m' ms)
    then show ?case by (cases m) (auto simp: write_mailbox_def quote_name_def encoded_word_def)
  qed simp
  then show "trim (write_address_list ms) = write_address_list ms" "write_address_list ms \<noteq> []"
    by (auto intro: trim_id)
qed

lemma find_char_in_take: "find_char c s 0 = Some k \<Longrightarrow> take k s = takeWhile (\<lambda>x. x \<noteq> c) s"
  by (auto simp: find_char_def Let_def takeWhile_eq_take [symmetric] split: if_splits)

lemma strip_label_write:
  assumes "list_all good_mailbox ms" "ms \<noteq> []"
  shows "strip_label (write_address_list ms) = write_address_list ms"
proof -
  obtain e mb ms' where ms: "ms = (e, mb) # ms'" using assms(2) by (cases ms) auto
  let ?n = "if e then encoded_word (mb_name mb) @ '' '' else []"
  let ?c = "if e then CHR ''<'' else QUOTE"
  obtain r where r: "write_address_list ms = ?n @ ?c # r"
  proof -
    have "\<exists>t. write_address_list ms = write_mailbox (e, mb) @ t" by (cases ms') (auto simp: ms)
    moreover have "\<exists>t. write_mailbox (e, mb) = ?n @ ?c # t" by (cases e) (auto simp: write_mailbox_def quote_name_def)
    ultimately show thesis using that by auto
  qed
  have "\<forall>c \<in> set ?n. c \<noteq> CHR '':''" using encoded_word_plain [of "mb_name mb"] by auto
  then have "takeWhile (\<lambda>x. x \<noteq> CHR '':'') (?n @ ?c # r) = ?n @ ?c # takeWhile (\<lambda>x. x \<noteq> CHR '':'') r"
    by (subst takeWhile_append2) auto
  then have "\<not> group_label (takeWhile (\<lambda>x. x \<noteq> CHR '':'') (write_address_list ms))"
    by (auto simp: r group_label_def)
  then show ?thesis by (auto simp: strip_label_def find_char_in_take split: option.split)
qed

lemma parseAddressList_write:
  assumes "list_all good_mailbox ms"
  shows "parseAddressList icu (write_address_list ms) = map (read_back \<circ> snd) ms"
proof (cases ms)
  case Nil
  then show ?thesis by (simp add: parseAddressList_def splitOutsideQuotes_def flatten_step_def address_step_def trim_def Let_def)
next
  case (Cons m ms')
  have flat: "fold flatten_step [write_address_list ms] [] = write_address_list ms"
    using Cons assms write_list_trim [of ms] strip_label_write [of ms] by (simp add: flatten_step_def Let_def)
  have "fold (address_step icu) (write_mailbox m # map (\<lambda>m. CHR '' '' # write_mailbox m) ms') [] =
      fold (address_step icu) (map (\<lambda>m. CHR '' '' # write_mailbox m) ms) []"
    by (simp add: Cons address_step_def trim_Cons_space)
  then show ?thesis
    using Cons assms split_list_semi [OF assms, of "[]" "[]"] split_list_comma [OF assms, of "[]" "[]"] address_steps [OF assms, of icu "[]"] flat
    by (simp add: parseAddressList_def splitOutsideQuotes_def)
qed

subsection \<open>Properties\<close>

text \<open>
  C28: A field block reads back however its values are folded: over any number of lines, each
  ending in CRLF or a bare LF and starting with any run of spaces and TABs. The names and the
  unfolded values are there in order, each fold one space, and the body offset is exactly behind
  the blank line whatever the body holds.
\<close>

theorem parseHeaderBlock_roundtrip:
  assumes "list_all good_field fs"
  shows "\<exists>n. parseHeaderBlock (concat (map write_field fs) @ line_break crlf @ body) = (map unfolded fs, n) \<and>
    drop n (concat (map write_field fs) @ line_break crlf @ body) = body"
  using parseHeaderBlock_fields [OF assms, of crlf body] by simp

lemma parseHeaderBlock_roundtrip_witness:
  "\<exists>n. parseHeaderBlock (concat (map write_field
        [(''Subject'', ('' '', ''a:b'', [], True), [([TAB], ''c'', '' '', False), ([CHR '' '', TAB], ''d'', [], True)]),
         (''X'', ([], [], [], False), [])]) @ line_break False @ ''t'') =
      (map unfolded [(''Subject'', ('' '', ''a:b'', [], True), [([TAB], ''c'', '' '', False), ([CHR '' '', TAB], ''d'', [], True)]),
         (''X'', ([], [], [], False), [])], n) \<and>
    drop n (concat (map write_field
        [(''Subject'', ('' '', ''a:b'', [], True), [([TAB], ''c'', '' '', False), ([CHR '' '', TAB], ''d'', [], True)]),
         (''X'', ([], [], [], False), [])]) @ line_break False @ ''t'') = ''t''"
  by (rule parseHeaderBlock_roundtrip) code_simp

text \<open>
  C29: A text split over any number of encoded words, with any white space between them, decodes to
  the text: neither the white space nor a word is kept or lost.
\<close>

theorem decodeEncodedWords_roundtrip:
  assumes "list_all (\<lambda>(w, gap). isValidUtf8 w \<and> list_all isspace gap) ws"
  shows "decodeEncodedWords icu (write_words ws) = concat (map fst ws)"
  by (rule decodeEncodedWords_words [OF assms])

lemma decodeEncodedWords_roundtrip_witness:
  "decodeEncodedWords icu_latin9 (write_words [(''Hel'', [CR, LF, TAB]), (''lo '', '' ''), (''you'', [])]) =
    concat (map fst [(''Hel'', [CR, LF, TAB]), (''lo '', '' ''), (''you'', [])])"
  by (rule decodeEncodedWords_roundtrip) code_simp

text \<open>
  C30: An address list written with quoted or encoded display names, which may hold any separator,
  quote or bracket, reads back as the mailboxes it was written from; a name that repeats the
  address is dropped.
\<close>

theorem parseAddressList_roundtrip:
  assumes "list_all good_mailbox ms"
  shows "parseAddressList icu (write_address_list ms) = map (read_back \<circ> snd) ms"
  by (rule parseAddressList_write [OF assms])

lemma parseAddressList_roundtrip_witness:
  "parseAddressList icu_latin9 (write_address_list
      [(False, \<lparr>mb_name = ''Doe; J, (x) <y>'', mb_email = ''j@a''\<rparr>), (True, \<lparr>mb_name = ''=?b?'', mb_email = ''root''\<rparr>)]) =
    map (read_back \<circ> snd)
      [(False, \<lparr>mb_name = ''Doe; J, (x) <y>'', mb_email = ''j@a''\<rparr>), (True, \<lparr>mb_name = ''=?b?'', mb_email = ''root''\<rparr>)]"
proof (rule parseAddressList_roundtrip)
  have "plain_name ''Doe; J, (x) <y>''"
    by code_simp
  moreover have "plain_email ''j@a''" "plain_email ''root''" by code_simp+
  moreover have "isValidUtf8 ''Doe; J, (x) <y>''" "isValidUtf8 ''=?b?''" by code_simp+
  ultimately show "list_all good_mailbox
      [(False, \<lparr>mb_name = ''Doe; J, (x) <y>'', mb_email = ''j@a''\<rparr>), (True, \<lparr>mb_name = ''=?b?'', mb_email = ''root''\<rparr>)]"
    by (simp add: good_mailbox_def)
qed

end
