(* ===== verification/Mime_Entity.thy ===== *)
theory Mime_Entity
  imports Mime_Headers_Props
begin

section \<open>The entity tree (src/mime/entity.cpp)\<close>

text \<open>
  A message as a tree: the fields of one entity in a record, its parts below it. The source of a
  multipart body is cut at the lines that start with the boundary; the recursion ends at
  \<open>kMaxNestingDepth\<close>, past which a part is kept whole.
\<close>

record entity_fields =
  ent_headers :: "header_field list"
  ent_type :: string
  ent_subtype :: string
  ent_charset :: string
  ent_disposition :: string
  ent_filename :: string
  ent_content_id :: string
  ent_body :: string
  ent_raw_body :: string

datatype entity = Entity (ent: entity_fields) (parts: "entity list")

definition isMultipart :: "entity_fields \<Rightarrow> bool" where
  "isMultipart e \<longleftrightarrow> ent_type e = ''multipart''"

definition isMessage :: "entity_fields \<Rightarrow> bool" where
  "isMessage e \<longleftrightarrow> ent_type e = ''message'' \<and> ent_subtype e = ''rfc822''"

definition mediaType :: "entity_fields \<Rightarrow> string" where
  "mediaType e = ent_type e @ ''/'' @ ent_subtype e"

definition kMaxNestingDepth :: nat where
  "kMaxNestingDepth = 8"

definition stripAngles :: "string \<Rightarrow> string" where
  "stripAngles s =
     (let t = trim s in if t \<noteq> [] \<and> hd t = CHR ''<'' \<and> last t = CHR ''>'' then butlast (tl t) else t)"

subsection \<open>Boundaries\<close>

lemma find_prefix_Some:
  "find_prefix p s i = Some k \<Longrightarrow>
    i \<le> k \<and> k + length p \<le> i + length s \<and> take (length p) (drop (k - i) s) = p \<and>
    (\<forall>j < k - i. take (length p) (drop j s) \<noteq> p)"
proof (induction p s i rule: find_prefix.induct)
  case (1 p s i)
  show ?case
  proof (cases "take (length p) s = p")
    case True
    then have "length p \<le> length s" by (metis length_take min.cobounded1)
    then show ?thesis using 1(2) True by (subst (asm) find_prefix.simps) simp
  next
    case False
    then obtain c t where s: "s = c # t" and f: "find_prefix p t (Suc i) = Some k"
      using 1(2) by (subst (asm) find_prefix.simps) (auto split: list.splits)
    have ih: "Suc i \<le> k \<and> k + length p \<le> Suc i + length t \<and> take (length p) (drop (k - Suc i) t) = p \<and>
        (\<forall>j < k - Suc i. take (length p) (drop j t) \<noteq> p)"
      by (rule "1.IH" [OF False s f])
    have "take (length p) (drop j s) \<noteq> p" if "j < k - i" for j
      using that ih False s by (cases j) auto
    moreover have "take (length p) (drop (k - i) s) = p" using ih s by (simp add: Suc_diff_Suc [symmetric] Suc_le_eq drop_Cons')
    ultimately show ?thesis using ih s by simp
  qed
qed

lemma find_str_Some:
  assumes "find_str p s i = Some k"
  shows "i \<le> k" "k + length p \<le> length s" "take (length p) (drop k s) = p"
    "i \<le> j \<Longrightarrow> j < k \<Longrightarrow> take (length p) (drop j s) \<noteq> p"
proof -
  have i: "i \<le> length s" and f: "find_prefix p (drop i s) i = Some k"
    using assms by (auto simp: find_str_def split: if_splits)
  note k = find_prefix_Some [OF f]
  show "i \<le> k" "k + length p \<le> length s" using k i by simp_all
  show "take (length p) (drop k s) = p" using k by (auto simp: add.commute)
  show "take (length p) (drop j s) \<noteq> p" if "i \<le> j" "j < k" for j
    using k that by (metis diff_less_mono drop_drop le_add_diff_inverse2)
qed

text \<open>
  The next boundary line: its position, the start of the line after it and \<open>is_final\<close>. The marker
  \<open>--boundary\<close> counts at the start of a line only.
\<close>

function findBoundary :: "string \<Rightarrow> string \<Rightarrow> nat \<Rightarrow> (nat \<times> nat \<times> bool) option" where
  "findBoundary body boundary i =
     (if length body < i then None
      else case find_str (''--'' @ boundary) body i of None \<Rightarrow> None
      | Some at \<Rightarrow>
          let after = at + length (''--'' @ boundary) in
          if at \<noteq> 0 \<and> body ! (at - 1) \<noteq> LF then findBoundary body boundary after
          else
            let is_final = (substr body after 2 = ''--'');
                after = (if is_final then after + 2 else after)
            in Some (at, case find_char LF body after of None \<Rightarrow> length body | Some eol \<Rightarrow> eol + 1, is_final))"
  by pat_completeness auto
termination
  by (relation "measure (\<lambda>(body, boundary, i). Suc (length body) - i)") (auto dest: find_str_Some(1))

declare findBoundary.simps [simp del]

lemma findBoundary_bounds:
  "findBoundary body boundary i = Some (at, le, f) \<Longrightarrow> i \<le> at \<and> at < le \<and> le \<le> length body"
proof (induction body boundary i rule: findBoundary.induct)
  case (1 body boundary i)
  obtain k where i: "\<not> length body < i" and k: "find_str (''--'' @ boundary) body i = Some k"
    using 1(2) by (subst (asm) findBoundary.simps) (auto split: if_splits option.splits)
  note b = find_str_Some(1,2) [OF k]
  show ?case
  proof (cases "k \<noteq> 0 \<and> body ! (k - 1) \<noteq> LF")
    case True
    then have "findBoundary body boundary (k + length (''--'' @ boundary)) = Some (at, le, f)"
      using 1(2) i k by (subst (asm) findBoundary.simps) simp
    from "1.IH" [OF i k refl True this] b show ?thesis by simp
  next
    case False
    define a where "a = (if substr body (k + length (''--'' @ boundary)) 2 = ''--'' then k + length (''--'' @ boundary) + 2
      else k + length (''--'' @ boundary))"
    have "findBoundary body boundary i = Some (k, case find_char LF body a of None \<Rightarrow> length body | Some e \<Rightarrow> e + 1,
        substr body (k + length (''--'' @ boundary)) 2 = ''--'')"
      by (subst findBoundary.simps) (simp only: i k False if_False option.case Let_def a_def)
    then have at: "at = k" and le: "le = (case find_char LF body a of None \<Rightarrow> length body | Some e \<Rightarrow> e + 1)"
      using 1(2) by simp_all
    have "le \<le> length body \<and> (le = length body \<or> a < le)"
      using find_char_Some(1,2) [of LF body a] by (auto simp: le split: option.splits)
    moreover have "k < a" by (simp add: a_def)
    moreover have "k < length body" using b by simp
    ultimately show ?thesis using b at by auto
  qed
qed

definition trimTrailingLineEnd :: "string \<Rightarrow> string" where
  "trimTrailingLineEnd s =
     (let s = (if s \<noteq> [] \<and> last s = LF then butlast s else s) in if s \<noteq> [] \<and> last s = CR then butlast s else s)"

text \<open>The loop over a multipart body: the sources of its parts.\<close>

function part_texts :: "string \<Rightarrow> string \<Rightarrow> nat \<Rightarrow> bool \<Rightarrow> string list" where
  "part_texts raw_body boundary cursor started =
     (if length raw_body < cursor then []
      else case findBoundary raw_body boundary cursor of
        None \<Rightarrow> if started \<and> cursor < length raw_body then [drop cursor raw_body] else []
      | Some (at, following, is_final) \<Rightarrow>
          (if started then [trimTrailingLineEnd (substr raw_body cursor (at - cursor))] else []) @
          (if is_final then [] else part_texts raw_body boundary following True))"
  by pat_completeness auto
termination
  by (relation "measure (\<lambda>(raw_body, boundary, cursor, started). Suc (length raw_body) - cursor)")
    (auto dest: findBoundary_bounds)

declare part_texts.simps [simp del]

subsection \<open>Parsing\<close>

text \<open>Everything of an entity but its body and parts.\<close>

definition entity_head :: "icu \<Rightarrow> string \<Rightarrow> entity_fields" where
  "entity_head icu source =
     (let (headers, body_offset) = parseHeaderBlock source;
          content_type = headerValue headers ''Content-Type'';
          media = lower (fieldToken content_type);
          (type', subtype) = (case find_char CHR ''/'' media 0 of
             None \<Rightarrow> (''text'', ''plain'')
           | Some slash \<Rightarrow> (take slash media, drop (slash + 1) media));
          disposition = headerValue headers ''Content-Disposition'';
          filename = fieldParameter icu disposition ''filename''
      in \<lparr>ent_headers = headers, ent_type = type', ent_subtype = subtype,
          ent_charset = fieldParameter icu content_type ''charset'',
          ent_disposition = lower (fieldToken disposition),
          ent_filename = (if filename = [] then fieldParameter icu content_type ''name'' else filename),
          ent_content_id = stripAngles (headerValue headers ''Content-ID''),
          ent_body = [], ent_raw_body = drop body_offset source\<rparr>)"

definition entity_boundary :: "icu \<Rightarrow> entity_fields \<Rightarrow> string" where
  "entity_boundary icu e = fieldParameter icu (headerValue (ent_headers e) ''Content-Type'') ''boundary''"

function parseEntity :: "icu \<Rightarrow> string \<Rightarrow> nat \<Rightarrow> entity" where
  "parseEntity icu source depth =
     (let e = entity_head icu source in
      if isMultipart e \<and> depth < kMaxNestingDepth \<and> entity_boundary icu e \<noteq> [] then
        Entity e (map (\<lambda>t. parseEntity icu t (depth + 1)) (part_texts (ent_raw_body e) (entity_boundary icu e) 0 False))
      else if isMessage e \<and> depth < kMaxNestingDepth then
        Entity e [parseEntity icu (ent_raw_body e) (depth + 1)]
      else
        Entity (e\<lparr>ent_body :=
          decodeBody (ent_raw_body e) (fieldToken (headerValue (ent_headers e) ''Content-Transfer-Encoding''))\<rparr>) [])"
  by pat_completeness auto
termination
  by (relation "measure (\<lambda>(icu, source, depth). kMaxNestingDepth - depth)") auto

declare parseEntity.simps [simp del]

subsection \<open>A multipart body comes apart into its parts\<close>

text \<open>
  The reference writer: a preamble, each part between delimiter lines, a closing delimiter and an
  epilogue. RFC 2046 asks that no line of the preamble or of a part start with the delimiter.
\<close>

abbreviation marker :: "string \<Rightarrow> string" where
  "marker boundary \<equiv> ''--'' @ boundary"

definition write_multipart :: "string \<Rightarrow> string \<Rightarrow> string list \<Rightarrow> string \<Rightarrow> string" where
  "write_multipart boundary preamble texts epilogue =
     preamble @ marker boundary @ concat (map (\<lambda>t. [CR, LF] @ t @ [CR, LF] @ marker boundary) texts) @ ''--'' @ [CR, LF] @ epilogue"

definition line_start :: "string \<Rightarrow> nat \<Rightarrow> bool" where
  "line_start s j \<longleftrightarrow> j = 0 \<or> s ! (j - 1) = LF"

definition no_delimiter :: "string \<Rightarrow> string \<Rightarrow> bool" where
  "no_delimiter boundary t \<longleftrightarrow>
     list_all (\<lambda>j. \<not> (line_start t j \<and> take (length (marker boundary)) (drop j t) = marker boundary)) [0..<length t]"

lemma find_prefix_None: "find_prefix p s i = None \<Longrightarrow> take (length p) (drop j s) \<noteq> p"
proof (induction p s i arbitrary: j rule: find_prefix.induct)
  case (1 p s i)
  have n: "take (length p) s \<noteq> p" using 1(2) by (subst (asm) find_prefix.simps) (auto split: if_splits)
  show ?case
  proof (cases s)
    case Nil
    then show ?thesis using n by simp
  next
    case (Cons c t)
    then have "find_prefix p t (Suc i) = None" using 1(2) n by (subst (asm) find_prefix.simps) simp
    from "1.IH" [OF n Cons this] show ?thesis using n Cons by (cases j) auto
  qed
qed

lemma find_str_None:
  assumes "find_str p s i = None" "i \<le> j" "j \<le> length s"
  shows "take (length p) (drop j s) \<noteq> p"
  using assms find_prefix_None [of p "drop i s" i "j - i"] by (auto simp: find_str_def split: if_splits)

lemma findBoundary_first:
  assumes "i \<le> at" "at \<le> length body" "take (length (marker b)) (drop at body) = marker b" "line_start body at" "LF \<notin> set b"
    and "\<And>j. i \<le> j \<Longrightarrow> j < at \<Longrightarrow> line_start body j \<Longrightarrow> take (length (marker b)) (drop j body) \<noteq> marker b"
  shows "findBoundary body b i =
    (let after = at + length (marker b); is_final = (substr body after 2 = ''--'');
         after = (if is_final then after + 2 else after)
     in Some (at, case find_char LF body after of None \<Rightarrow> length body | Some eol \<Rightarrow> eol + 1, is_final))"
  using assms
proof (induction body b i rule: findBoundary.induct)
  case (1 body b i)
  have i: "\<not> length body < i" using 1 by simp
  obtain k where k: "find_str (marker b) body i = Some k"
    using find_str_None [of "marker b" body i at] 1 by fastforce
  note kb = find_str_Some [OF k]
  have ka: "k \<le> at" using kb(4) [of at] 1 by (meson not_le)
  show ?case
  proof (cases "k = at")
    case True
    then have "\<not> (k \<noteq> 0 \<and> body ! (k - 1) \<noteq> LF)" using 1 by (simp add: line_start_def)
    then show ?thesis
      by (subst findBoundary.simps) (simp only: i k if_False option.case Let_def True)
  next
    case False
    then have lt: "k < at" using ka by simp
    have "\<not> line_start body k" using 1(7) [of k] kb lt by blast
    then have nl: "k \<noteq> 0 \<and> body ! (k - 1) \<noteq> LF" by (auto simp: line_start_def)
    have "k + length (marker b) \<le> at"
    proof (rule ccontr)
      assume c: "\<not> k + length (marker b) \<le> at"
      then have "at - 1 - k < length (marker b)" using lt by simp
      then have "take (length (marker b)) (drop k body) ! (at - 1 - k) = body ! (at - 1)"
        using lt kb(2) by (simp add: nth_append)
      then have "body ! (at - 1) \<in> set (marker b)"
        using kb(3) \<open>at - 1 - k < length (marker b)\<close> by (metis nth_mem)
      moreover have "body ! (at - 1) = LF" using 1(5) lt by (simp add: line_start_def)
      ultimately show False using 1(6) by simp
    qed
    then have "findBoundary body b (k + length (marker b)) =
      (let after = at + length (marker b); is_final = (substr body after 2 = ''--'');
         after = (if is_final then after + 2 else after)
     in Some (at, case find_char LF body after of None \<Rightarrow> length body | Some eol \<Rightarrow> eol + 1, is_final))"
      using "1.IH" [OF i k refl nl] 1(3-6) 1(7) kb(1) by simp
    then show ?thesis using i k nl by (subst findBoundary.simps) (simp add: Let_def)
  qed
qed

lemma ends_line_start: "line_start (d @ y @ t) (length d + length y)"
  if "d = [] \<or> last d = LF" "y = [] \<or> last y = LF"
  using that by (cases y rule: rev_cases; cases d rule: rev_cases) (auto simp: line_start_def nth_append)

lemma findBoundary_segment:
  assumes d: "d = [] \<or> last d = LF" and y: "y = [] \<or> last y = LF" and n: "no_delimiter b y" and b: "LF \<notin> set b"
  shows "findBoundary (d @ y @ marker b @ [CR, LF] @ r) b (length d) =
      Some (length d + length y, length d + length y + length (marker b) + 2, False)" (is ?next)
    and "findBoundary (d @ y @ marker b @ ''--'' @ [CR, LF] @ r) b (length d) =
      Some (length d + length y, length d + length y + length (marker b) + 4, True)" (is ?final)
proof -
  have first: "findBoundary (d @ y @ marker b @ t) b (length d) =
    (let after = length d + length y + length (marker b); is_final = (substr (d @ y @ marker b @ t) after 2 = ''--'');
         after = (if is_final then after + 2 else after)
     in Some (length d + length y, case find_char LF (d @ y @ marker b @ t) after of
          None \<Rightarrow> length (d @ y @ marker b @ t) | Some eol \<Rightarrow> eol + 1, is_final))" for t
  proof (rule findBoundary_first [OF _ _ _ _ b])
    show "line_start (d @ y @ marker b @ t) (length d + length y)" by (rule ends_line_start [OF d y])
    fix j
    assume j: "length d \<le> j" "j < length d + length y" "line_start (d @ y @ marker b @ t) j"
    define k where "k = j - length d"
    have k: "k < length y" "j = length d + k" using j by (simp_all add: k_def)
    have ls: "line_start y k"
    proof (cases k)
      case (Suc m)
      then have "(d @ y @ marker b @ t) ! (j - 1) = y ! m" using k by (simp add: nth_append)
      then show ?thesis using j(3) Suc k by (simp add: line_start_def)
    qed (simp add: line_start_def)
    show "take (length (marker b)) (drop j (d @ y @ marker b @ t)) \<noteq> marker b"
    proof
      assume m: "take (length (marker b)) (drop j (d @ y @ marker b @ t)) = marker b"
      then have m': "take (length (marker b)) (drop k y @ marker b @ t) = marker b" using k by simp
      show False
      proof (cases "k + length (marker b) \<le> length y")
        case True
        then have "take (length (marker b)) (drop k y) = marker b" using m' by simp
        then show False using n ls k(1) by (simp add: no_delimiter_def list_all_iff)
      next
        case False
        then have "take (length (marker b)) (drop k y) = drop k y" by simp
        then have "set (drop k y) \<subseteq> set (take (length (marker b)) (drop k y @ marker b @ t))"
          unfolding take_append by (simp only: set_append) blast
        then have "set (drop k y) \<subseteq> set (marker b)" unfolding m' .
        moreover have "LF \<in> set (drop k y)" using y k(1) by (metis drop_eq_Nil last_drop last_in_set length_greater_0_conv list.size(3) not_le not_less_zero)
        ultimately show False using b by auto
      qed
    qed
  qed simp_all
  have eol: "find_char LF ((d @ y @ marker b @ p) @ [CR] @ LF # r) (length (d @ y @ marker b @ p)) =
      Some (length (d @ y @ marker b @ p) + length [CR])" for p
    by (rule find_char_append) simp
  have s: "substr (d @ y @ marker b @ t) (length d + length y + length (marker b)) 2 = take 2 t" for t
    by (simp add: substr_def)
  show ?next unfolding first using eol [of "[]"] s [of "[CR, LF] @ r"] by (simp add: Let_def add.assoc)
  show ?final unfolding first using eol [of "''--''"] s [of "''--'' @ [CR, LF] @ r"] by (simp add: Let_def add.assoc)
qed

lemma trim_line_end [simp]: "trimTrailingLineEnd (p @ [CR, LF]) = p"
  by (simp add: trimTrailingLineEnd_def butlast_append)

lemma part_texts_step:
  "cursor \<le> length body \<Longrightarrow> findBoundary body b cursor = Some (at, following, f) \<Longrightarrow>
    part_texts body b cursor started =
      (if started then [trimTrailingLineEnd (substr body cursor (at - cursor))] else []) @
      (if f then [] else part_texts body b following True)"
  by (subst part_texts.simps) simp

lemma part_texts_write:
  assumes "d = [] \<or> last d = LF" "y = [] \<or> last y = LF" "no_delimiter b y" "LF \<notin> set b"
    and "list_all (\<lambda>t. no_delimiter b (t @ [CR, LF])) ts"
  shows "part_texts (d @ y @ marker b @ concat (map (\<lambda>t. [CR, LF] @ t @ [CR, LF] @ marker b) ts) @ ''--'' @ [CR, LF] @ epilogue) b
      (length d) started = (if started then [trimTrailingLineEnd y] else []) @ ts"
  using assms
proof (induction ts arbitrary: d y started)
  case Nil
  let ?body = "d @ y @ marker b @ ''--'' @ [CR, LF] @ epilogue"
  show ?case
    using part_texts_step [OF _ findBoundary_segment(2) [OF Nil(1-4), of epilogue], of started] by (simp add: substr_def)
next
  case (Cons t ts)
  let ?d = "d @ y @ marker b @ [CR, LF]" and ?y = "t @ [CR, LF]"
  let ?rest = "marker b @ concat (map (\<lambda>t. [CR, LF] @ t @ [CR, LF] @ marker b) ts) @ ''--'' @ [CR, LF] @ epilogue"
  let ?body = "?d @ ?y @ ?rest"
  have step: "part_texts ?body b (length d) started =
      (if started then [trimTrailingLineEnd y] else []) @ part_texts ?body b (length ?d) True"
  proof -
    have e: "?body = d @ y @ marker b @ [CR, LF] @ (?y @ ?rest)" by simp
    have le: "length d \<le> length (d @ y @ marker b @ [CR, LF] @ (?y @ ?rest))" by simp
    have "substr (d @ y @ marker b @ [CR, LF] @ (?y @ ?rest)) (length d) (length d + length y - length d) = y"
      by (simp add: substr_def)
    moreover have "length ?d = length d + length y + length (marker b) + 2" by simp
    ultimately show ?thesis
      unfolding e part_texts_step [OF le findBoundary_segment(1) [OF Cons.prems(1-4)], of started] by (simp add: add.assoc)
  qed
  have "part_texts ?body b (length ?d) True = [trimTrailingLineEnd ?y] @ ts"
    using Cons.IH [of ?d ?y True] Cons.prems by simp
  then show ?case using step by simp
qed

lemma multipart_texts:
  assumes "preamble = [] \<or> last preamble = LF" "no_delimiter b preamble" "LF \<notin> set b"
    and "list_all (\<lambda>t. no_delimiter b (t @ [CR, LF])) ts"
  shows "part_texts (write_multipart b preamble ts epilogue) b 0 False = ts"
  using part_texts_write [of "[]" preamble b ts epilogue False] assms by (simp add: write_multipart_def)

subsection \<open>Properties\<close>

lemma entity_head_block:
  assumes "list_all good_field fs"
  shows "ent_headers (entity_head icu (concat (map write_field fs) @ line_break crlf @ body)) = map unfolded fs"
    and "ent_raw_body (entity_head icu (concat (map write_field fs) @ line_break crlf @ body)) = body"
  using parseHeaderBlock_fields [OF assms, of crlf body] by (simp_all add: entity_head_def Let_def split: prod.split)

lemma entity_head_multipart:
  assumes "list_all good_field fs" "lower (fieldToken (headerValue (map unfolded fs) ''Content-Type'')) = ''multipart/'' @ sub"
  shows "isMultipart (entity_head icu (concat (map write_field fs) @ line_break crlf @ body))"
proof -
  have "find_char CHR ''/'' (''multipart/'' @ sub) 0 = Some 9" by (simp add: find_char_def)
  then show ?thesis
    using parseHeaderBlock_fields [OF assms(1), of crlf body] assms(2)
    by (simp add: entity_head_def isMultipart_def Let_def)
qed

lemma parseEntity_multipart:
  assumes "isMultipart (entity_head icu s)" "depth < kMaxNestingDepth" "entity_boundary icu (entity_head icu s) \<noteq> []"
  shows "parseEntity icu s depth = Entity (entity_head icu s)
    (map (\<lambda>t. parseEntity icu t (depth + 1)) (part_texts (ent_raw_body (entity_head icu s)) (entity_boundary icu (entity_head icu s)) 0 False))"
  using assms by (subst parseEntity.simps) (simp add: Let_def)

text \<open>
  C31: A multipart message comes apart into exactly the parts it was put together from: neither the
  preamble nor the epilogue becomes a part, no line end is left on or taken from one, and each is
  parsed in its turn one level deeper.
\<close>

theorem parseEntity_parts:
  assumes "list_all good_field fs"
    and "lower (fieldToken (headerValue (map unfolded fs) ''Content-Type'')) = ''multipart/'' @ sub"
    and "fieldParameter icu (headerValue (map unfolded fs) ''Content-Type'') ''boundary'' = b" "b \<noteq> []" "LF \<notin> set b"
    and "preamble = [] \<or> last preamble = LF" "no_delimiter b preamble" "list_all (\<lambda>t. no_delimiter b (t @ [CR, LF])) ts"
    and "depth < kMaxNestingDepth"
  shows "parts (parseEntity icu (concat (map write_field fs) @ line_break crlf @ write_multipart b preamble ts epilogue) depth) =
    map (\<lambda>t. parseEntity icu t (depth + 1)) ts"
proof -
  let ?s = "concat (map write_field fs) @ line_break crlf @ write_multipart b preamble ts epilogue"
  have "entity_boundary icu (entity_head icu ?s) = b"
    using assms(3) by (simp add: entity_boundary_def entity_head_block(1) [OF assms(1), simplified])
  then show ?thesis
    using parseEntity_multipart [OF entity_head_multipart [OF assms(1,2)] assms(9)] assms(4)
      multipart_texts [OF assms(6,7,5,8)] entity_head_block(2) [OF assms(1)] by simp
qed

lemma parseEntity_parts_witness:
  "parts (parseEntity icu_latin9
      (concat (map write_field [(''Content-Type'', ('' '', ''multipart/mixed;'', [], True), [([TAB], ''boundary=x'', [], False)])]) @ line_break True @
        write_multipart ''x'' [CHR ''p'', LF] [''a'' @ [CR, LF], ''--b''] ''e'') 0) =
    map (\<lambda>t. parseEntity icu_latin9 t (0 + 1)) [''a'' @ [CR, LF], ''--b'']"
proof (rule parseEntity_parts [where sub = "''mixed''" and icu = icu_latin9])
  have h: "headerValue (map unfolded [(''Content-Type'', ('' '', ''multipart/mixed;'', [], True), [([TAB], ''boundary=x'', [], False)])]) ''Content-Type'' =
      ''multipart/mixed; boundary=x''" by code_simp
  show "lower (fieldToken (headerValue (map unfolded [(''Content-Type'', ('' '', ''multipart/mixed;'', [], True), [([TAB], ''boundary=x'', [], False)])]) ''Content-Type'')) =
      ''multipart/'' @ ''mixed''" unfolding h by code_simp
  show "fieldParameter icu_latin9 (headerValue (map unfolded [(''Content-Type'', ('' '', ''multipart/mixed;'', [], True), [([TAB], ''boundary=x'', [], False)])]) ''Content-Type'')
      ''boundary'' = ''x''" unfolding h by code_simp
qed code_simp+

end
