(* ===== verification/Imap_Parse.thy ===== *)
theory Imap_Parse
  imports Core_Message "HOL-Library.Sublist"
begin

section \<open>Parsing IMAP responses (src/imap/imap_parse.h, src/imap/imap_parse.cpp)\<close>

text \<open>
  The parsers for the responses the tool consumes: LIST, the metadata and the bodies of a UID FETCH,
  dates, flags, mailbox names and UID sets. A response is cut into logical lines, each with the
  literals it introduced, and a line is read with a cursor.

  A literal's length comes from the server. The source adds it to the cursor in \<open>size_t\<close>, so the sum
  wraps at \<open>2 ^ 64\<close>; the cursor can move backwards and a loop need not end. The loops are
  \<open>partial_function\<close>s whose value \<open>None\<close> is a call that does not return, and the properties say for
  which responses they do.
\<close>

subsection \<open>Tokens\<close>

definition skipSpace :: "string \<Rightarrow> nat \<Rightarrow> nat" where
  "skipSpace s i = i + length (takeWhile (\<lambda>c. c = CHR '' '' \<or> c = TAB) (drop i s))"

text \<open>The inside of a quoted string: its text, and how far the cursor moves, closing quote included.\<close>

fun read_quoted :: "string \<Rightarrow> string \<times> nat" where
  "read_quoted [] = ([], 0)"
| "read_quoted (c # cs) =
     (if c = QUOTE then ([], 1)
      else if c = BACKSLASH then
        (case cs of [] \<Rightarrow> ([c], 1)
         | d # ds \<Rightarrow> (case read_quoted ds of (out, n) \<Rightarrow> (d # out, n + 2)))
      else (case read_quoted cs of (out, n) \<Rightarrow> (c # out, n + 1)))"

definition atom_char :: "char \<Rightarrow> bool" where
  "atom_char c \<longleftrightarrow> c \<noteq> CHR '' '' \<and> c \<noteq> CR \<and> c \<noteq> LF \<and> c \<noteq> CHR ''('' \<and> c \<noteq> CHR '')''"

text \<open>
  A quoted string, a literal or an atom: the text if there is one, and the cursor, which has moved
  past the leading space even if there is none.
\<close>

definition readAstring :: "string \<Rightarrow> nat \<Rightarrow> string option \<times> nat" where
  "readAstring s i0 =
     (let i = skipSpace s i0 in
      if length s \<le> i then (None, i)
      else if s ! i = QUOTE then
        (case read_quoted (drop (i + 1) s) of (out, n) \<Rightarrow> (Some out, i + 1 + n))
      else if s ! i = CHR ''{'' then
        (case find_char (CHR ''}'') s i of
           None \<Rightarrow> (None, i)
         | Some close \<Rightarrow>
             let n = strtoul (drop (i + 1) s);
                 a = close + 1;
                 b = if a < length s \<and> s ! a = CR then a + 1 else a;
                 start = if b < length s \<and> s ! b = LF then b + 1 else b;
                 stop = (start + n) mod 2 ^ 64
             in if length s < stop then (None, i) else (Some (substr s start n), stop))
      else
        (let w = takeWhile atom_char (drop i s)
         in if w = [] then (None, i) else (Some w, i + length w)))"

subsection \<open>Lines\<close>

text \<open>The length a line announces at its end with \<open>{n}\<close>.\<close>

definition literal_length :: "string \<Rightarrow> nat option" where
  "literal_length line =
     (if line = [] \<or> last line \<noteq> CHR ''}'' then None
      else case rfind_char (CHR ''{'') line of
        None \<Rightarrow> None
      | Some brace \<Rightarrow>
          let digits = substr line (brace + 1) (length line - brace - 2)
          in if digits = [] \<or> \<not> list_all isdigit digits then None else Some (strtoul digits))"

definition out_of_range :: error where
  "out_of_range = StdError ''basic_string::substr''"

text \<open>While the line ends in a literal, attach its octets and the rest of the line after them.\<close>

partial_function (option) join_literals :: "string \<Rightarrow> string \<Rightarrow> nat \<Rightarrow> (error + string \<times> nat) option" where
  "join_literals r line i =
     (case literal_length line of
        None \<Rightarrow> Some (Inr (line, i))
      | Some n \<Rightarrow>
          if length r < (i + n) mod 2 ^ 64 then Some (Inr (line, i))
          else if length r < i then Some (Inl out_of_range)
          else
            let i' = (i + n) mod 2 ^ 64; eol = line_end r i'
            in join_literals r (line @ [CR, LF] @ substr r i n @ chomp (substr r i' (eol - i'))) (eol + 1))"

partial_function (option) lines_from :: "string \<Rightarrow> nat \<Rightarrow> (error + string list) option" where
  "lines_from r i =
     (if length r \<le> i then Some (Inr [])
      else
        let eol = line_end r i in
        Option.bind (join_literals r (chomp (substr r i (eol - i))) (eol + 1)) (\<lambda>x. case x of
          Inl e \<Rightarrow> Some (Inl e)
        | Inr (line, i') \<Rightarrow>
            Option.bind (lines_from r i') (\<lambda>y. case y of Inl e \<Rightarrow> Some (Inl e) | Inr ls \<Rightarrow> Some (Inr (line # ls)))))"

definition splitLines :: "string \<Rightarrow> (error + string list) option" where
  "splitLines response = lines_from response 0"

subsection \<open>Modified UTF-7\<close>

definition modifiedBase64Value :: "char \<Rightarrow> int" where
  "modifiedBase64Value c =
     (let v = (of_char c :: int) in
      if 65 \<le> v \<and> v \<le> 90 then v - 65
      else if 97 \<le> v \<and> v \<le> 122 then v - 97 + 26
      else if 48 \<le> v \<and> v \<le> 57 then v - 48 + 52
      else if c = CHR ''+'' then 62
      else if c = CHR '','' then 63
      else - 1)"

text \<open>
  The characters of one shift sequence: the bits collected, how many, and the pending high surrogate.
  The result is the text decoded and whether a character outside the alphabet stopped the loop.
\<close>

primrec shift_run :: "32 word \<Rightarrow> nat \<Rightarrow> 32 word \<Rightarrow> string \<Rightarrow> string \<times> bool" where
  "shift_run bits nbits high [] = ([], False)"
| "shift_run bits nbits high (c # cs) =
     (let v = modifiedBase64Value c in
      if v < 0 then ([], True)
      else
        let bits' = push_bit 6 bits OR word_of_int v; n = nbits + 6 in
        if n < 16 then shift_run bits' n high cs
        else
          let n' = n - 16; u = drop_bit n' bits' AND 0xFFFF in
          if 0xD800 \<le> u \<and> u \<le> 0xDBFF then shift_run bits' n' u cs
          else
            let out = if 0xDC00 \<le> u \<and> u \<le> 0xDFFF \<and> high \<noteq> 0
                      then appendUtf8 (0x10000 + push_bit 10 (high - 0xD800) + (u - 0xDC00))
                      else appendUtf8 u
            in (case shift_run bits' n' 0 cs of (rest, bad) \<Rightarrow> (out @ rest, bad)))"

function decodeModifiedUtf7 :: "string \<Rightarrow> string" where
  "decodeModifiedUtf7 name =
     (case name of
        [] \<Rightarrow> []
      | c # cs \<Rightarrow>
          if c \<noteq> CHR ''&'' then c # decodeModifiedUtf7 cs
          else if cs \<noteq> [] \<and> hd cs = CHR ''-'' then CHR ''&'' # decodeModifiedUtf7 (tl cs)
          else
            let run = takeWhile (\<lambda>x. x \<noteq> CHR ''-'') cs;
                terminated = length run < length cs;
                taken = take (1 + length run + (if terminated then 1 else 0)) name
            in (case shift_run 0 0 0 run of (out, bad) \<Rightarrow>
                  out @ (if bad then taken else []) @ decodeModifiedUtf7 (drop (length taken) name)))"
  by pat_completeness auto
termination
  by (relation "measure length") (auto simp: Let_def)

declare decodeModifiedUtf7.simps [simp del]

subsection \<open>Flags, dates and UID sets\<close>

text \<open>\<open>is >> tok\<close>: the tokens between white space.\<close>

function tokens :: "string \<Rightarrow> string list" where
  "tokens s =
     (let t = dropWhile isspace s; w = takeWhile (\<lambda>c. \<not> isspace c) t
      in if w = [] then [] else w # tokens (drop (length w) t))"
  by pat_completeness auto
termination
proof (relation "measure length")
  fix s t w :: string
  assume "t = dropWhile isspace s" "w = takeWhile (\<lambda>c. \<not> isspace c) t" "w \<noteq> []"
  then have "0 < length w" "length w \<le> length t" "length t \<le> length s"
    using length_dropWhile_le [of isspace s] length_takeWhile_le by auto
  then have "length t - length w < length s" by linarith
  then show "(drop (length w) t, s) \<in> measure length" by simp
qed simp

declare tokens.simps [simp del]

definition strip_parens :: "string \<Rightarrow> string" where
  "strip_parens tok = rev (dropWhile (\<lambda>c. c = CHR '')'') (rev (dropWhile (\<lambda>c. c = CHR ''('') tok)))"

text \<open>The bit of a system flag; \<open>None\<close> for a keyword.\<close>

definition flag_bit :: "string \<Rightarrow> 32 word option" where
  "flag_bit l = map_of
     [(BACKSLASH # ''seen'', kFlagSeen), (BACKSLASH # ''answered'', kFlagAnswered), (BACKSLASH # ''flagged'', kFlagFlagged),
      (BACKSLASH # ''deleted'', kFlagDeleted), (BACKSLASH # ''draft'', kFlagDraft), (BACKSLASH # ''recent'', kFlagRecent)] l"

definition parseFlags :: "string \<Rightarrow> string list \<Rightarrow> 32 word \<times> string list" where
  "parseFlags flag_list keywords =
     fold (\<lambda>tok0 (flags, kws).
        let tok = strip_parens tok0 in
        if tok = [] then (flags, kws)
        else case flag_bit (lower tok) of
          Some b \<Rightarrow> (flags OR b, kws)
        | None \<Rightarrow> (flags, kws @ [tok]))
       (tokens flag_list) (kFlagNone, keywords)"

abbreviation month_names :: "string list" where
  "month_names \<equiv> [''jan'', ''feb'', ''mar'', ''apr'', ''may'', ''jun'', ''jul'', ''aug'', ''sep'', ''oct'', ''nov'', ''dec'']"

definition month_index :: "string \<Rightarrow> nat option" where
  "month_index m = find (\<lambda>i. month_names ! i = m) [0..<12]"

text \<open>
  \<open>timegm\<close>, the C library's inverse of \<open>gmtime\<close>, for a month from 0 to 11: the other fields may lie
  outside their ranges and count on.
\<close>

definition is_leap :: "int \<Rightarrow> bool" where
  "is_leap y \<longleftrightarrow> y mod 4 = 0 \<and> (y mod 100 \<noteq> 0 \<or> y mod 400 = 0)"

definition days_before_month :: "bool \<Rightarrow> nat \<Rightarrow> int" where
  "days_before_month leap m =
     [0, 31, 59, 90, 120, 151, 181, 212, 243, 273, 304, 334] ! m + (if leap \<and> 2 \<le> m then 1 else 0)"

definition days_before_year :: "int \<Rightarrow> int" where
  "days_before_year y = 365 * (y - 1970) + (y - 1) div 4 - (y - 1) div 100 + (y - 1) div 400 - 477"

definition timegm :: "int \<Rightarrow> nat \<Rightarrow> int \<Rightarrow> int \<Rightarrow> int \<Rightarrow> int \<Rightarrow> int" where
  "timegm year mon mday hour minute second =
     ((days_before_year year + days_before_month (is_leap year) mon + (mday - 1)) * 24 + hour) * 3600 + minute * 60 + second"

text \<open>The mandatory fields of \<open>" %d-%3s-%d %d:%d:%d"\<close>, then \<open>" %c%2d%2d"\<close>, all three or none.\<close>

definition scan_internal_date :: "string \<Rightarrow> (int \<times> string \<times> int \<times> int \<times> int \<times> int \<times> string) option" where
  "scan_internal_date v =
     Option.bind (scan_d None v) (\<lambda>(day, r).
     Option.bind (scan_lit (CHR ''-'') r) (\<lambda>r.
     Option.bind (scan_s 3 r) (\<lambda>(mon, r).
     Option.bind (scan_lit (CHR ''-'') r) (\<lambda>r.
     Option.bind (scan_d None r) (\<lambda>(year, r).
     Option.bind (scan_d None r) (\<lambda>(hour, r).
     Option.bind (scan_lit (CHR '':'') r) (\<lambda>r.
     Option.bind (scan_d None r) (\<lambda>(minute, r).
     Option.bind (scan_lit (CHR '':'') r) (\<lambda>r.
     Option.bind (scan_d None r) (\<lambda>(second, r).
     Some (day, mon, year, hour, minute, second, r)))))))))))"

definition scan_zone :: "string \<Rightarrow> (char \<times> int \<times> int) option" where
  "scan_zone r =
     (case dropWhile isspace r of
        [] \<Rightarrow> None
      | c # t \<Rightarrow>
          Option.bind (scan_d (Some 2) t) (\<lambda>(hh, t).
          Option.bind (scan_d (Some 2) t) (\<lambda>(mm, t).
          Some (c, hh, mm))))"

definition parseInternalDate :: "string \<Rightarrow> int" where
  "parseInternalDate v =
     (case scan_internal_date (c_str v) of
        None \<Rightarrow> 0
      | Some (day, mon, year, hour, minute, second, rest) \<Rightarrow>
          (case month_index (lower mon) of
             None \<Rightarrow> 0
           | Some month \<Rightarrow>
               let utc = timegm year month day hour minute second in
               if utc = - 1 then 0
               else case scan_zone rest of
                 None \<Rightarrow> utc
               | Some (c, hh, mm) \<Rightarrow>
                   let offset = (hh * 60 + mm) * 60 in utc - (if c = CHR ''-'' then - offset else offset)))"

text \<open>The run of consecutive UIDs that starts at \<open>u\<close>: its last one, and what follows it.\<close>

fun uid_run :: "32 word \<Rightarrow> 32 word list \<Rightarrow> 32 word \<times> 32 word list" where
  "uid_run u [] = (u, [])"
| "uid_run u (v # vs) = (if v = u + 1 then uid_run v vs else (u, v # vs))"

lemma length_uid_run: "length (snd (uid_run u vs)) \<le> length vs"
  by (induction u vs rule: uid_run.induct) auto

function uid_set_from :: "string \<Rightarrow> 32 word list \<Rightarrow> string" where
  "uid_set_from out [] = out"
| "uid_set_from out (u # us) =
     (case uid_run u us of (stop, rest) \<Rightarrow>
        uid_set_from ((if out = [] then [] else out @ '','') @ to_string (unat u) @
          (if length rest < length us then '':'' @ to_string (unat stop) else [])) rest)"
  by pat_completeness auto
termination
  by (relation "measure (\<lambda>(out, us). length us)") (auto simp: less_Suc_eq_le dest: arg_cong [of _ _ snd] intro: le_trans [OF _ length_uid_run] split: prod.splits, metis length_uid_run snd_conv)

definition uidSet :: "32 word list \<Rightarrow> string" where
  "uidSet uids = uid_set_from [] uids"

subsection \<open>LIST\<close>

text \<open>One line: \<open>None\<close> where the source moves on to the next line.\<close>

definition parse_list_line :: "string \<Rightarrow> folder_info option" where
  "parse_list_line line =
     (if length line < 2 \<or> line ! 0 \<noteq> CHR ''*'' then None
      else
        let i = skipSpace line 1 in
        if lower (substr line i 4) \<noteq> ''list'' then None
        else
          let i = skipSpace line (i + 4) in
          if length line \<le> i \<or> line ! i \<noteq> CHR ''('' then None
          else case find_char (CHR '')'') line i of
            None \<Rightarrow> None
          | Some close \<Rightarrow>
              let attrs = lower (substr line i (close - i + 1)) in
              (case readAstring line (close + 1) of
                 (None, _) \<Rightarrow> None
               | (Some delim, i) \<Rightarrow>
                   (case readAstring line i of
                      (None, _) \<Rightarrow> None
                    | (Some raw, _) \<Rightarrow>
                        if raw = [] then None
                        else Some \<lparr>full_name = decodeModifiedUtf7 raw, raw_name = raw,
                          delimiter = (if lower delim = ''nil'' \<or> delim = [] then NUL else hd delim),
                          selectable = (find_str (BACKSLASH # ''noselect'') attrs 0 = None)\<rparr>)))"

definition parseListResponse :: "string \<Rightarrow> (error + folder_info list) option" where
  "parseListResponse response = map_option (map_sum id (List.map_filter parse_list_line)) (splitLines response)"

subsection \<open>FETCH\<close>

text \<open>
  The loop over a line's items, common to both parsers of FETCH: \<open>item\<close> is what the body of the loop
  does with a key and the cursor behind it, and returns the cursor to go on from, if any.
\<close>

partial_function (option) fetch_loop ::
  "(string \<Rightarrow> nat \<Rightarrow> 'm \<Rightarrow> 'm \<times> nat option) \<Rightarrow> string \<Rightarrow> nat \<Rightarrow> 'm \<Rightarrow> 'm option" where
  "fetch_loop item line i st =
     (let j = skipSpace line i in
      if length line \<le> i \<or> length line \<le> j then Some st
      else if line ! j = CHR ''('' \<or> line ! j = CHR '')'' then fetch_loop item line (j + 1) st
      else case readAstring line j of
        (None, _) \<Rightarrow> Some st
      | (Some key, k) \<Rightarrow>
          (case item (lower key) k st of
             (st', None) \<Rightarrow> Some st'
           | (st', Some next_i) \<Rightarrow> fetch_loop item line next_i st'))"

text \<open>The lines of a response that are FETCH answers, each read from the cursor behind \<open> FETCH \<close>.\<close>

definition fetch_start :: "string \<Rightarrow> nat option" where
  "fetch_start line =
     (if line = [] \<or> line ! 0 \<noteq> CHR ''*'' then None
      else map_option (\<lambda>k. k + 7) (find_str '' fetch '' (lower line) 0))"

primrec each_fetch :: "(string \<Rightarrow> nat \<Rightarrow> 'a option option) \<Rightarrow> string list \<Rightarrow> 'a list option" where
  "each_fetch f [] = Some []"
| "each_fetch f (line # ls) =
     (case fetch_start line of
        None \<Rightarrow> each_fetch f ls
      | Some i \<Rightarrow>
          Option.bind (f line i) (\<lambda>r. Option.bind (each_fetch f ls) (\<lambda>rs. Some (case r of None \<Rightarrow> rs | Some x \<Rightarrow> x # rs))))"

definition fetch_answers :: "(string \<Rightarrow> nat \<Rightarrow> 'a option option) \<Rightarrow> string \<Rightarrow> (error + 'a list) option" where
  "fetch_answers f response =
     Option.bind (splitLines response) (\<lambda>x. case x of Inl e \<Rightarrow> Some (Inl e) | Inr ls \<Rightarrow> map_option Inr (each_fetch f ls))"

record fetched_body =
  fb_uid :: "32 word"
  fb_rfc822 :: string

text \<open>The body being read, and whether its UID and its octets have been seen.\<close>

definition body_item :: "string \<Rightarrow> string \<Rightarrow> nat \<Rightarrow> fetched_body \<times> bool \<times> bool \<Rightarrow> (fetched_body \<times> bool \<times> bool) \<times> nat option" where
  "body_item line k i = (\<lambda>(body, have_uid, have_body).
     if k = ''uid'' then
       (case readAstring line i of
          (None, j) \<Rightarrow> ((body, have_uid, have_body), Some j)
        | (Some v, j) \<Rightarrow> ((body\<lparr>fb_uid := of_nat (strtoul v)\<rparr>, True, have_body), Some j))
     else if take 5 k = ''body['' \<or> k = ''rfc822'' then
       (case readAstring line i of
          (None, j) \<Rightarrow> ((body, have_uid, have_body), Some j)
        | (Some v, j) \<Rightarrow> ((body\<lparr>fb_rfc822 := v\<rparr>, have_uid, True), Some j))
     else
       (case readAstring line i of
          (None, j) \<Rightarrow> ((body, have_uid, have_body), None)
        | (Some _, j) \<Rightarrow> ((body, have_uid, have_body), Some j)))"

definition fetch_body :: "string \<Rightarrow> nat \<Rightarrow> fetched_body option option" where
  "fetch_body line i =
     map_option (\<lambda>(body, have_uid, have_body). if have_uid \<and> have_body then Some body else None)
       (fetch_loop (body_item line) line i (\<lparr>fb_uid = 0, fb_rfc822 = []\<rparr>, False, False))"

definition parseFetchBodies :: "string \<Rightarrow> (error + fetched_body list) option" where
  "parseFetchBodies = fetch_answers fetch_body"

record message_meta =
  mm_uid :: "32 word"
  mm_flags :: "32 word"
  mm_keywords :: "string list"
  mm_internal_date :: int
  mm_size :: "32 word"

definition meta_item :: "string \<Rightarrow> string \<Rightarrow> nat \<Rightarrow> message_meta \<times> bool \<Rightarrow> (message_meta \<times> bool) \<times> nat option" where
  "meta_item line k i = (\<lambda>(meta, have_uid).
     if k = ''uid'' then
       (case readAstring line i of
          (None, j) \<Rightarrow> ((meta, have_uid), Some j)
        | (Some v, j) \<Rightarrow> ((meta\<lparr>mm_uid := of_nat (strtoul v)\<rparr>, True), Some j))
     else if k = ''rfc822.size'' then
       (case readAstring line i of
          (None, j) \<Rightarrow> ((meta, have_uid), Some j)
        | (Some v, j) \<Rightarrow> ((meta\<lparr>mm_size := of_nat (strtoul v)\<rparr>, have_uid), Some j))
     else if k = ''flags'' then
       (let j = skipSpace line i in
        case find_char (CHR '')'') line j of
          None \<Rightarrow> ((meta, have_uid), None)
        | Some close \<Rightarrow>
            (case parseFlags (substr line j (close - j + 1)) (mm_keywords meta) of
               (flags, kws) \<Rightarrow> ((meta\<lparr>mm_flags := flags, mm_keywords := kws\<rparr>, have_uid), Some (close + 1))))
     else if k = ''internaldate'' then
       (case readAstring line i of
          (None, j) \<Rightarrow> ((meta, have_uid), Some j)
        | (Some v, j) \<Rightarrow> ((meta\<lparr>mm_internal_date := parseInternalDate v\<rparr>, have_uid), Some j))
     else ((meta, have_uid), Some i))"

definition fetch_meta :: "string \<Rightarrow> nat \<Rightarrow> message_meta option option" where
  "fetch_meta line i =
     map_option (\<lambda>(meta, have_uid). if have_uid then Some meta else None)
       (fetch_loop (meta_item line) line i
         (\<lparr>mm_uid = 0, mm_flags = kFlagNone, mm_keywords = [], mm_internal_date = 0, mm_size = 0\<rparr>, False))"

definition parseFetchResponse :: "string \<Rightarrow> (error + message_meta list) option" where
  "parseFetchResponse = fetch_answers fetch_meta"

section \<open>Properties\<close>

subsection \<open>UID sets\<close>

text \<open>What an IMAP server reads: ranges separated by commas, a range \<open>a\<close> or \<open>a:b\<close>.\<close>

definition read_range :: "string \<Rightarrow> nat list" where
  "read_range r =
     (case find_char (CHR '':'') r 0 of
        None \<Rightarrow> [parse_digits r]
      | Some k \<Rightarrow> [parse_digits (take k r)..<Suc (parse_digits (drop (k + 1) r))])"

definition read_uid_set :: "string \<Rightarrow> nat list" where
  "read_uid_set s = concat (map read_range (split_path (CHR '','') [] s))"

definition range_text :: "32 word \<Rightarrow> bool \<Rightarrow> 32 word \<Rightarrow> string" where
  "range_text u many stop = to_string (unat u) @ (if many then '':'' @ to_string (unat stop) else [])"

function uid_texts :: "32 word list \<Rightarrow> string list" where
  "uid_texts [] = []"
| "uid_texts (u # us) = (case uid_run u us of (stop, rest) \<Rightarrow> range_text u (length rest < length us) stop # uid_texts rest)"
  by pat_completeness auto
termination
  by (relation "measure length") (auto simp: less_Suc_eq_le split: prod.splits, metis length_uid_run snd_conv)

lemma range_text_nonempty [simp]: "range_text u m v \<noteq> []"
  by (simp add: range_text_def)

lemma join_path_concat: "join_path d (p # ps) = p @ concat (map ((#) d) ps)"
  by (induction ps arbitrary: p) simp_all

lemma concat_join: "ps \<noteq> [] \<Longrightarrow> concat (map ((#) d) ps) = d # join_path d ps"
  by (cases ps) (simp_all add: join_path_concat del: join_path.simps(2))

lemma uid_set_from_texts:
  "uid_set_from out us = (if out = [] then join_path (CHR '','') (uid_texts us) else out @ concat (map ((#) (CHR '','')) (uid_texts us)))"
proof (induction out us rule: uid_set_from.induct)
  case (2 out u us)
  obtain stop rest where r: "uid_run u us = (stop, rest)" by fastforce
  show ?case
    using 2 [OF r [symmetric]] r
    by (cases "uid_texts rest = []") (auto simp: range_text_def concat_join)
qed simp

lemma digits_no_sep [simp]: "CHR '':'' \<notin> set (to_string n)" "CHR '','' \<notin> set (to_string n)"
  using to_string_digits [of "CHR '':''" n] to_string_digits [of "CHR '',''" n] by (auto simp: isdigit_def)

lemma read_range_text: "read_range (range_text u m v) = (if m then [unat u..<Suc (unat v)] else [unat u])"
proof -
  have "find_char (CHR '':'') (to_string (unat u) @ CHR '':'' # to_string (unat v)) 0 = Some (length (to_string (unat u)))"
    using find_char_append [of "CHR '':''" "to_string (unat u)" "[]" "to_string (unat v)"] by simp
  moreover have "find_char (CHR '':'') (to_string (unat u)) 0 = None"
    by (intro find_char_none) simp
  ultimately show ?thesis by (simp add: read_range_def range_text_def)
qed

lemma uid_run_law:
  assumes "sorted_wrt (<) (u # us)" "uid_run u us = (stop, rest)"
  shows "\<exists>run. us = run @ rest \<and> map unat (u # run) = [unat u..<Suc (unat stop)] \<and> sorted_wrt (<) rest \<and> (run = [] \<longrightarrow> stop = u)"
  using assms
proof (induction u us rule: uid_run.induct)
  case (2 u v vs)
  show ?case
  proof (cases "v = u + 1")
    case True
    have uv: "u < v" using 2(2) by simp
    have "unat v = Suc (unat u)"
    proof -
      have "1 + u \<noteq> 0" using uv True by (auto simp: add.commute)
      then show ?thesis using unatSuc [of u] True by (simp add: add.commute)
    qed
    moreover obtain run where "vs = run @ rest" "map unat (v # run) = [unat v..<Suc (unat stop)]" "sorted_wrt (<) rest"
      using 2(1) [OF True] 2(2,3) True by auto
    ultimately show ?thesis by (intro exI [of _ "v # run"]) (auto simp: upt_conv_Cons)
  next
    case False
    then show ?thesis using 2 by auto
  qed
qed auto

lemma uid_texts_read: "sorted_wrt (<) us \<Longrightarrow> concat (map read_range (uid_texts us)) = map unat us"
proof (induction us rule: uid_texts.induct)
  case (2 u us)
  obtain stop rest where r: "uid_run u us = (stop, rest)" by fastforce
  obtain run where run: "us = run @ rest" "map unat (u # run) = [unat u..<Suc (unat stop)]" "sorted_wrt (<) rest" "run = [] \<longrightarrow> stop = u"
    using uid_run_law [OF 2(2) r] by blast
  have "read_range (range_text u (length rest < length us) stop) = map unat (u # run)"
    using run by (cases run) (auto simp: read_range_text)
  then show ?case using 2(1) [OF r [symmetric] run(3)] r run(1) by simp
qed simp

text \<open>
  A UID set denotes its UIDs. For UIDs in ascending order, what a server reads from the set,
  range by range, is exactly the UIDs asked for, in order, whatever runs were collapsed.
\<close>

theorem uidSet_denotes:
  assumes "sorted_wrt (<) uids"
  shows "read_uid_set (uidSet uids) = map unat uids"
proof -
  have "\<forall>p \<in> set (uid_texts us). p \<noteq> [] \<and> CHR '','' \<notin> set p" for us
  proof (induction us rule: uid_texts.induct)
    case (2 u us)
    then show ?case by (auto simp: range_text_def split: prod.splits)
  qed simp
  then show ?thesis
    using uid_texts_read [OF assms] by (simp add: read_uid_set_def uidSet_def uid_set_from_texts split_join)
qed

lemma uidSet_denotes_witness: "read_uid_set (uidSet [1, 2, 3, 7, 9, 10]) = [1, 2, 3, 7, 9, 10]"
  by (subst uidSet_denotes) simp_all

end
