(* ===== verification/Message_Builder.thy ===== *)
theory Message_Builder
  imports Mime_Entity Imap_Parse "HOL-Library.Signed_Division"
begin

section \<open>From the tree to the message (src/mime/message_builder.cpp, src/mime/mime_parser.cpp)\<close>

text \<open>
  Which part is the body, which are attachments, what the structured headers mean. The message under
  construction, \<open>Message* out\<close> in the code, is threaded as a value of \<open>message\<close>.
\<close>

abbreviation update_fields :: "(message_fields \<Rightarrow> message_fields) \<Rightarrow> message \<Rightarrow> message" where
  "update_fields f m \<equiv> Message (f (fields_of m)) (attachments m)"

subsection \<open>Classes of messages and parts\<close>

definition isStructuredHeader :: "string \<Rightarrow> bool" where
  "isStructuredHeader name \<longleftrightarrow>
     lower name \<in> {''from'', ''to'', ''cc'', ''bcc'', ''reply-to'', ''subject'', ''date'', ''message-id'', ''in-reply-to''}"

definition messageClassFor :: "icu \<Rightarrow> entity_fields \<Rightarrow> string" where
  "messageClassFor icu root =
     (let content_type = headerValue (ent_headers root) ''Content-Type'';
          media = lower (fieldToken content_type)
      in if media = ''multipart/report'' then
           (let report = lower (fieldParameter icu content_type ''report-type'') in
            if report = ''delivery-status'' then ''REPORT.IPM.Note.NDR''
            else if report = ''disposition-notification'' then ''REPORT.IPM.Note.IPNRN''
            else [])
         else if media = ''multipart/signed'' then ''IPM.Note.SMIME.MultipartSigned''
         else if media = ''application/pkcs7-mime'' \<or> media = ''application/x-pkcs7-mime'' then ''IPM.Note.SMIME''
         else [])"

definition isAttachment :: "entity_fields \<Rightarrow> bool" where
  "isAttachment e \<longleftrightarrow>
     ent_disposition e = ''attachment'' \<or> ent_filename e \<noteq> [] \<or>
     (ent_type e \<noteq> ''text'' \<and> ent_type e \<noteq> ''multipart'' \<and> \<not> isMessage e)"

subsection \<open>Dates\<close>

text \<open>The conversions of \<open>" %d %15s %d %d:%d:%d"\<close>, and the rest of the text.\<close>

definition scan_date :: "string \<Rightarrow> (int \<times> string \<times> int \<times> int \<times> int \<times> int \<times> string) option" where
  "scan_date s =
     Option.bind (scan_d None s) (\<lambda>(day, r).
     Option.bind (scan_s 15 r) (\<lambda>(month_name, r).
     Option.bind (scan_d None r) (\<lambda>(year, r).
     Option.bind (scan_d None r) (\<lambda>(hour, r).
     Option.bind (scan_lit (CHR '':'') r) (\<lambda>r.
     Option.bind (scan_d None r) (\<lambda>(minute, r).
     Option.bind (scan_lit (CHR '':'') r) (\<lambda>r.
     Option.bind (scan_d None r) (\<lambda>(second, r).
     Some (day, month_name, year, hour, minute, second, r)))))))))"

text \<open>The offset of a zone such as \<open>+0130\<close>; \<open>/\<close> and \<open>%\<close> round towards zero.\<close>

definition zone_offset :: "string \<Rightarrow> int" where
  "zone_offset zone =
     (if zone \<noteq> [] \<and> (hd zone = CHR ''+'' \<or> hd zone = CHR ''-'') then
        (let digits = atoi (tl zone);
             offset = (digits sdiv 100) * 3600 + (digits smod 100) * 60
         in if hd zone = CHR ''-'' then - offset else offset)
      else 0)"

definition parseDate :: "string \<Rightarrow> int" where
  "parseDate v =
     (let s = (case find_char CHR '','' v 0 of None \<Rightarrow> v | Some comma \<Rightarrow> if comma < 5 then drop (comma + 1) v else v)
      in case scan_date (c_str s) of None \<Rightarrow> 0
         | Some (day, month_name, year, hour, minute, second, rest) \<Rightarrow>
             (case month_index (lower (take 3 month_name)) of None \<Rightarrow> 0
              | Some month \<Rightarrow>
                  let year = (if year < 100 then year + (if year < 70 then 2000 else 1900) else year);
                      utc = timegm year month day hour minute second
                  in if utc = - 1 then 0
                     else case scan_s 15 rest of None \<Rightarrow> utc | Some (zone, _) \<Rightarrow> utc - zone_offset zone))"

subsection \<open>Recipients\<close>

text \<open>The loop over the delivery headers: the recipients found, none if no header has one.\<close>

primrec delivery_recipients :: "icu \<Rightarrow> header_field list \<Rightarrow> string list \<Rightarrow> mailbox list" where
  "delivery_recipients icu hs [] = []"
| "delivery_recipients icu hs (name # names) =
     (let v = headerValue hs name in
      if v = [] \<or> CHR ''@'' \<notin> set v then delivery_recipients icu hs names
      else
        let bcc = parseAddressList icu v in
        if bcc \<noteq> [] then bcc else delivery_recipients icu hs names)"

definition recoverHiddenRecipients :: "icu \<Rightarrow> entity_fields \<Rightarrow> message_fields \<Rightarrow> message_fields" where
  "recoverHiddenRecipients icu root out =
     (if m_to out \<noteq> [] \<or> m_cc out \<noteq> [] \<or> m_bcc out \<noteq> [] then out
      else out\<lparr>m_bcc := delivery_recipients icu (ent_headers root) [''Delivered-To'', ''X-Original-To'', ''Envelope-To'']\<rparr>)"

subsection \<open>Building\<close>

text \<open>The headers: everything \<open>buildMessage\<close> does before it calls \<open>collect\<close>.\<close>

definition build_headers :: "icu \<Rightarrow> entity_fields \<Rightarrow> message_fields" where
  "build_headers icu root =
     (let h = headerValue (ent_headers root);
          addr = (\<lambda>name. parseAddressList icu (h name));
          out = empty_fields\<lparr>
            m_headers := map (\<lambda>f. \<lparr>rh_name = field_name f, rh_value = headerText icu (field_value f)\<rparr>) (ent_headers root),
            m_subject := headerText icu (h ''Subject''),
            m_message_id := stripAngles (h ''Message-ID''),
            m_in_reply_to := stripAngles (h ''In-Reply-To''),
            m_date := parseDate (h ''Date''),
            m_from := (if addr ''From'' \<noteq> [] then hd (addr ''From'') else no_mailbox),
            m_to := addr ''To'', m_cc := addr ''Cc'', m_bcc := addr ''Bcc'', m_reply_to := addr ''Reply-To'',
            message_class := messageClassFor icu root\<rparr>
      in recoverHiddenRecipients icu root out)"

text \<open>A text part becomes the body, or is dropped.\<close>

definition collect_text :: "icu \<Rightarrow> entity_fields \<Rightarrow> bool \<Rightarrow> message_fields \<Rightarrow> message_fields" where
  "collect_text icu e in_alternative out =
     (let text = toUtf8 icu (ent_body e) (ent_charset e) in
      if ent_subtype e = ''html'' then
        (if body_html out = [] \<or> in_alternative then out\<lparr>body_html := text\<rparr> else out)
      else
        (if body_text out = [] \<or> in_alternative then out\<lparr>body_text := text\<rparr> else out))"

text \<open>
  \<open>addAttachment\<close> on everything but the embedded message, which \<open>inner\<close> is: \<open>n\<close> attachments are
  there already.
\<close>

definition attachment_of :: "entity_fields \<Rightarrow> message option \<Rightarrow> nat \<Rightarrow> message attachment" where
  "attachment_of e inner n =
     (let content_type = mediaType e; content_id = ent_content_id e;
          is_inline = (ent_disposition e = ''inline'' \<or> (ent_content_id e \<noteq> [] \<and> ent_disposition e = []))
      in case inner of
           Some m \<Rightarrow>
             Attachment
               (if ent_filename e \<noteq> [] then ent_filename e
                else if m_subject (fields_of m) = [] then ''Forwarded message'' else m_subject (fields_of m))
               content_type content_id is_inline (bytes_of (ent_raw_body e)) (Some m)
         | None \<Rightarrow>
             Attachment
               (if ent_filename e \<noteq> [] then ent_filename e
                else if content_id = [] then ''attachment'' @ to_string (n + 1) else content_id)
               content_type content_id is_inline (bytes_of (ent_body e)) None)"

function buildMessage :: "icu \<Rightarrow> entity \<Rightarrow> nat \<Rightarrow> message"
  and collect :: "icu \<Rightarrow> entity \<Rightarrow> nat \<Rightarrow> bool \<Rightarrow> message \<Rightarrow> message"
  and addAttachment :: "icu \<Rightarrow> entity \<Rightarrow> nat \<Rightarrow> message \<Rightarrow> message" where
  "buildMessage icu root depth = collect icu root depth False (Message (build_headers icu (ent root)) [])"
| "collect icu (Entity e ps) depth in_alternative out =
     (if isMultipart e then
        fold (\<lambda>part out. collect icu part depth (ent_subtype e = ''alternative'') out) ps out
      else if isMessage e \<or> isAttachment e then addAttachment icu (Entity e ps) depth out
      else if ent_type e = ''text'' then update_fields (collect_text icu e in_alternative) out
      else addAttachment icu (Entity e ps) depth out)"
| "addAttachment icu (Entity e ps) depth out =
     (let inner = (if isMessage e \<and> ps \<noteq> [] \<and> depth < kMaxNestingDepth
                   then Some (buildMessage icu (hd ps) (depth + 1)) else None)
      in Message (fields_of out) (attachments out @ [attachment_of e inner (length (attachments out))]))"
  by pat_completeness auto
termination
proof (relation "measure (\<lambda>x. case x of
    Inl (icu, root, depth) \<Rightarrow> 3 * size root + 2
  | Inr (Inl (icu, root, depth, a, out)) \<Rightarrow> 3 * size root + 1
  | Inr (Inr (icu, root, depth, out)) \<Rightarrow> 3 * size root)", goal_cases)
  case (3 icu e ps depth in_alternative out part out')
  then have "size part < size_list size ps + 1" using size_list_estimation' [of part ps "size part" size] by simp
  then show ?case by simp
next
  case (6 icu e ps depth out)
  then have "size (hd ps) < size_list size ps + 1"
    using size_list_estimation' [of "hd ps" ps "size (hd ps)" size] by simp
  then show ?case by simp
qed simp_all

definition parse_message :: "icu \<Rightarrow> string \<Rightarrow> message" where
  "parse_message icu raw =
     update_fields (\<lambda>out. out\<lparr>m_size := word_of_nat (length raw)\<rparr>) (buildMessage icu (parseEntity icu raw 0) 0)"

text \<open>The overload that overlays what IMAP reported.\<close>

definition parse_raw :: "icu \<Rightarrow> raw_message \<Rightarrow> message" where
  "parse_raw icu raw =
     update_fields (\<lambda>out. out\<lparr>m_flags := rm_flags raw, m_keywords := rm_keywords raw, imap_uid := rm_uid raw,
       delivery_time := rm_internal_date raw,
       m_date := (if m_date out = 0 then rm_internal_date raw else m_date out)\<rparr>) (parse_message icu (rfc822 raw))"

subsection \<open>What ends up where\<close>

lemma fold_induct:
  "(\<And>x m. x \<in> set xs \<Longrightarrow> P m \<Longrightarrow> P (f x m)) \<Longrightarrow> P m \<Longrightarrow> P (fold f xs m)"
  by (induction xs arbitrary: m) simp_all

text \<open>Below the headers only the bodies and the attachments are written.\<close>

definition same_headers :: "message_fields \<Rightarrow> message_fields \<Rightarrow> bool" where
  "same_headers f g \<longleftrightarrow> f = g\<lparr>body_text := body_text f, body_html := body_html f\<rparr>"

lemma same_headers_refl: "same_headers f f"
  by (simp add: same_headers_def)

lemma same_headers_text: "same_headers f g \<Longrightarrow> same_headers (collect_text icu e a f) g"
  by (cases f, cases g) (auto simp: same_headers_def collect_text_def Let_def)

lemma addAttachment_fields [simp]: "fields_of (addAttachment icu x depth out) = fields_of out"
  by (cases x) (simp add: Let_def)

lemma collect_headers: "same_headers (fields_of out) g \<Longrightarrow> same_headers (fields_of (collect icu x depth a out)) g"
proof (induction x arbitrary: a out)
  case (Entity e ps)
  show ?case
  proof (cases "isMultipart e")
    case True
    have "same_headers (fields_of (fold (\<lambda>part out. collect icu part depth (ent_subtype e = ''alternative'') out) ps out)) g"
      by (rule fold_induct [where P = "\<lambda>m. same_headers (fields_of m) g"]) (use Entity in auto)
    then show ?thesis using True by simp
  next
    case False
    then show ?thesis using Entity.prems by (simp add: same_headers_text del: addAttachment.simps)
  qed
qed

text \<open>
  What a message consists of, said without the code's tests: the parts below its containers in
  their order, a container without parts being one itself. A part is a file when it is no text, is
  marked as an attachment or has a file name.
\<close>

fun leaf_parts :: "entity \<Rightarrow> entity list" where
  "leaf_parts (Entity e ps) = (if ent_type e = ''multipart'' \<and> ps \<noteq> [] then concat (map leaf_parts ps) else [Entity e ps])"

definition is_file :: "entity \<Rightarrow> bool" where
  "is_file x \<longleftrightarrow> ent_type (ent x) \<noteq> ''text'' \<or> ent_disposition (ent x) = ''attachment'' \<or> ent_filename (ent x) \<noteq> []"

text \<open>Every container was taken apart: it has parts, and so have the containers among them.\<close>

fun opened :: "entity \<Rightarrow> bool" where
  "opened (Entity e ps) \<longleftrightarrow> (ent_type e = ''multipart'' \<longrightarrow> ps \<noteq> [] \<and> list_all opened ps)"

text \<open>An attachment carries what a part holds; a forwarded message is also there as a message.\<close>

definition carries :: "icu \<Rightarrow> nat \<Rightarrow> message attachment \<Rightarrow> entity \<Rightarrow> bool" where
  "carries icu depth a x \<longleftrightarrow>
     at_content_type a = ent_type (ent x) @ ''/'' @ ent_subtype (ent x) \<and> at_content_id a = ent_content_id (ent x) \<and>
     at_filename a \<noteq> [] \<and> (ent_filename (ent x) \<noteq> [] \<longrightarrow> at_filename a = ent_filename (ent x)) \<and>
     (if ent_type (ent x) = ''message'' \<and> ent_subtype (ent x) = ''rfc822'' \<and> parts x \<noteq> [] \<and> depth < 8
      then at_data a = bytes_of (ent_raw_body (ent x)) \<and> at_embedded a = Some (buildMessage icu (hd (parts x)) (depth + 1))
      else at_data a = bytes_of (ent_body (ent x)) \<and> at_embedded a = None)"

lemma addAttachment_carries:
  "\<exists>a. attachments (addAttachment icu x depth out) = attachments out @ [a] \<and> carries icu depth a x"
proof -
  obtain e ps where x: "x = Entity e ps" by (cases x)
  show ?thesis by (simp add: x carries_def attachment_of_def isMessage_def kMaxNestingDepth_def mediaType_def Let_def)
qed

lemma collect_attachments:
  "opened x \<Longrightarrow> \<exists>as. attachments (collect icu x depth a out) = attachments out @ as \<and>
    list_all2 (carries icu depth) as (filter is_file (leaf_parts x))"
proof (induction x arbitrary: a out)
  case (Entity e ps)
  show ?case
  proof (cases "isMultipart e")
    case True
    have op: "ps \<noteq> []" "list_all opened ps" "ent_type e = ''multipart''"
      using Entity.prems True by (simp_all add: isMultipart_def)
    have "\<exists>as. attachments (fold (\<lambda>part out. collect icu part depth b out) qs out) = attachments out @ as \<and>
        list_all2 (carries icu depth) as (filter is_file (concat (map leaf_parts qs)))" if "set qs \<subseteq> set ps" for qs b
      using that
    proof (induction qs arbitrary: out)
      case (Cons q qs)
      obtain as where "attachments (collect icu q depth b out) = attachments out @ as"
          "list_all2 (carries icu depth) as (filter is_file (leaf_parts q))"
        using Entity.IH [of q b out] Cons.prems op(2) by (auto simp: list_all_iff)
      moreover obtain bs where "attachments (fold (\<lambda>part out. collect icu part depth b out) qs (collect icu q depth b out)) =
          attachments (collect icu q depth b out) @ bs" "list_all2 (carries icu depth) bs (filter is_file (concat (map leaf_parts qs)))"
        using Cons.IH [of "collect icu q depth b out"] Cons.prems by auto
      ultimately show ?case by (intro exI [of _ "as @ bs"]) (simp add: list_all2_appendI)
    qed simp
    from this [of ps "ent_subtype e = ''alternative''"] show ?thesis using True op by simp
  next
    case False
    have f: "is_file (Entity e ps) \<longleftrightarrow> isMessage e \<or> isAttachment e \<or> ent_type e \<noteq> ''text''"
      using False by (auto simp: is_file_def isAttachment_def isMessage_def isMultipart_def)
    show ?thesis using False f addAttachment_carries [of icu "Entity e ps" depth out]
      by (auto simp: isMultipart_def simp del: addAttachment.simps)
  qed
qed

text \<open>
  What the text of a field says: itself, when it is plain UTF-8, or the text its encoded words hold.
\<close>

inductive says :: "string \<Rightarrow> string \<Rightarrow> bool" where
  plain: "isValidUtf8 v \<Longrightarrow> plain_name v \<Longrightarrow> says v v"
| encoded: "list_all (\<lambda>(w, gap). isValidUtf8 w \<and> list_all isspace gap) ws \<Longrightarrow> says (write_words ws) (concat (map fst ws))"

code_pred says .

lemma space_ascii: "isspace c \<Longrightarrow> byte_of c < 0x80"
  by (auto simp: isspace_def word_less_nat_alt unat_byte_of)

lemma write_words_valid:
  "list_all (\<lambda>(w, gap). isValidUtf8 w \<and> list_all isspace gap) ws \<Longrightarrow> isValidUtf8 (write_words ws)"
proof -
  have e: "list_all (\<lambda>c. byte_of c < 0x80) (encoded_word w)" for w by (rule encoded_word_ascii)
  assume "list_all (\<lambda>(w, gap). isValidUtf8 w \<and> list_all isspace gap) ws"
  then have "list_all (\<lambda>c. byte_of c < 0x80) (write_words ws)"
    by (induction ws rule: write_words.induct) (use e in \<open>auto simp: list_all_iff space_ascii\<close>)
  then show ?thesis by (rule ascii_valid)
qed

lemma says_text: "says v t \<Longrightarrow> headerText icu v = t"
proof (induction rule: says.induct)
  case (encoded ws)
  then show ?case by (simp add: headerText_def write_words_valid decodeEncodedWords_words)
qed (rule headerText_plain)

subsection \<open>Properties\<close>

text \<open>
  C32: No file is lost, duplicated or reordered: when every container of a message was taken apart,
  its attachments are, in order, one for each part that is a file (it is no text, is marked as an
  attachment or has a file name), each with the type, the content id and all the octets of its part
  and under its name; a forwarded message is also present as a parsed message. (A container without
  parts is lost whole: \<open>undelimited_body_lost\<close>.)
\<close>

theorem buildMessage_attachments:
  assumes "opened root"
  shows "list_all2 (carries icu depth) (attachments (buildMessage icu root depth)) (filter is_file (leaf_parts root))"
  using collect_attachments [OF assms, of icu depth False "Message (build_headers icu (ent root)) []"] by auto

text \<open>A text part, for the examples.\<close>

definition text_part :: "string \<Rightarrow> entity_fields" where
  "text_part t = \<lparr>ent_headers = [], ent_type = ''text'', ent_subtype = ''plain'', ent_charset = [], ent_disposition = [],
     ent_filename = [], ent_content_id = [], ent_body = t, ent_raw_body = t\<rparr>"

lemma buildMessage_attachments_witness:
  "list_all2 (carries icu_latin9 0)
    (attachments (buildMessage icu_latin9 (Entity ((text_part [])\<lparr>ent_type := ''multipart''\<rparr>)
      [Entity (text_part ''body'') [], Entity ((text_part ''x = 1'')\<lparr>ent_filename := ''a.py''\<rparr>) []]) 0))
    (filter is_file (leaf_parts (Entity ((text_part [])\<lparr>ent_type := ''multipart''\<rparr>)
      [Entity (text_part ''body'') [], Entity ((text_part ''x = 1'')\<lparr>ent_filename := ''a.py''\<rparr>) []])))"
  by (rule buildMessage_attachments) (simp add: text_part_def)

lemma build_headers_kept:
  "m_headers (build_headers icu root) =
     map (\<lambda>f. \<lparr>rh_name = field_name f, rh_value = headerText icu (field_value f)\<rparr>) (ent_headers root)"
  by (simp add: build_headers_def recoverHiddenRecipients_def Let_def)

lemma buildMessage_headers: "m_headers (fields_of (buildMessage icu root depth)) = m_headers (build_headers icu (ent root))"
proof -
  have "same_headers (fields_of (buildMessage icu root depth)) (build_headers icu (ent root))"
    unfolding buildMessage.simps by (rule collect_headers) (simp add: same_headers_refl)
  then show ?thesis by (metis same_headers_def message_fields.update_convs message_fields.select_convs(13) message_fields.surjective)
qed

lemma parseEntity_headers: "ent_headers (ent (parseEntity icu s depth)) = ent_headers (entity_head icu s)"
  by (subst parseEntity.simps) (simp add: Let_def)

text \<open>
  C33: Every header field of a message survives parsing, structured or not, in its order, under its
  own name and with its value, however the value was folded and whatever the body holds: a value
  that is plain UTF-8 as it is, one of encoded words as the text they hold.
\<close>

theorem parse_raw_headers:
  assumes "list_all good_field fs" "list_all2 (\<lambda>f t. says (field_value (unfolded f)) t) fs ts"
  shows "m_headers (fields_of (parse_raw icu (raw\<lparr>rfc822 := concat (map write_field fs) @ line_break crlf @ body\<rparr>))) =
    map (\<lambda>(f, t). \<lparr>rh_name = fst f, rh_value = t\<rparr>) (zip fs ts)"
proof -
  have "map (\<lambda>f. \<lparr>rh_name = field_name f, rh_value = headerText icu (field_value f)\<rparr>) (map unfolded fs) =
      map (\<lambda>(f, t). \<lparr>rh_name = fst f, rh_value = t\<rparr>) (zip fs ts)"
    using assms(2) by (induction rule: list_all2_induct) (simp_all add: says_text unfolded_def split_beta)
  then show ?thesis
    using entity_head_block(1) [OF assms(1), of icu crlf body]
    by (simp add: parse_raw_def parse_message_def buildMessage_headers build_headers_kept parseEntity_headers del: buildMessage.simps)
qed

lemma parse_raw_headers_witness:
  "m_headers (fields_of (parse_raw icu_latin9
    (\<lparr>rm_uid = 7, rm_flags = 0, rm_keywords = [], rm_internal_date = 0, rfc822 = []\<rparr>\<lparr>rfc822 :=
      concat (map write_field [(''X-Spam'', ('' '', ''no'', [], True), [([TAB], ''maybe'', [], False)]),
        (''Subject'', ('' '', write_words [(''Hi'', '' ''), (''you'', [])], [], True), [])]) @ line_break False @ ''hello''\<rparr>))) =
    map (\<lambda>(f, t). \<lparr>rh_name = fst f, rh_value = t\<rparr>)
      (zip ([(''X-Spam'', ('' '', ''no'', [], True), [([TAB], ''maybe'', [], False)]),
        (''Subject'', ('' '', write_words [(''Hi'', '' ''), (''you'', [])], [], True), [])] :: written_field list) [''no maybe'', ''Hiyou''])"
proof (rule parse_raw_headers)
  have v: "isValidUtf8 ''no maybe''" "plain_name ''no maybe''" by code_simp+
  have w: "list_all (\<lambda>(w, gap). isValidUtf8 w \<and> list_all isspace gap) [(''Hi'', '' ''), (''you'', [])]" by code_simp
  show "list_all2 (\<lambda>f t. says (field_value (unfolded f)) t)
      [(''X-Spam'', ('' '', ''no'', [], True), [([TAB], ''maybe'', [], False)]),
        (''Subject'', ('' '', write_words [(''Hi'', '' ''), (''you'', [])], [], True), [])] [''no maybe'', ''Hiyou'']"
    using says.plain [OF v] says.encoded [OF w] by (simp add: unfolded_def del: write_words.simps)
qed code_simp

text \<open>The body a part of its kind would become, and what keeps one once it is there.\<close>

definition body_of :: "bool \<Rightarrow> message_fields \<Rightarrow> string" where
  "body_of html m = (if html then body_html m else body_text m)"

fun no_alternative :: "entity \<Rightarrow> bool" where
  "no_alternative (Entity e ps) \<longleftrightarrow>
     (ent_type e = ''multipart'' \<longrightarrow> ent_subtype e \<noteq> ''alternative'' \<and> list_all no_alternative ps)"

lemma collect_text_kept: "body_of h f \<noteq> [] \<Longrightarrow> body_of h (collect_text icu e False f) \<noteq> []"
  by (auto simp: body_of_def collect_text_def Let_def split: if_splits)

lemma collect_kept:
  "no_alternative x \<Longrightarrow> body_of h (fields_of out) \<noteq> [] \<Longrightarrow> body_of h (fields_of (collect icu x depth False out)) \<noteq> []"
proof (induction x arbitrary: out)
  case (Entity e ps)
  show ?case
  proof (cases "isMultipart e")
    case True
    have "body_of h (fields_of (fold (\<lambda>part out. collect icu part depth False out) ps out)) \<noteq> []"
      by (rule fold_induct [where P = "\<lambda>m. body_of h (fields_of m) \<noteq> []"])
        (use Entity True in \<open>auto simp: isMultipart_def list_all_iff\<close>)
    then show ?thesis using True Entity.prems(1) by (simp add: isMultipart_def)
  next
    case False
    then show ?thesis using Entity.prems(2) by (simp add: collect_text_kept del: addAttachment.simps)
  qed
qed

lemma collect_plain_text:
  "ent_type (ent q) = ''text'' \<Longrightarrow> \<not> is_file q \<Longrightarrow> collect icu q depth a out = update_fields (collect_text icu (ent q) a) out"
  by (cases q) (simp add: is_file_def isMultipart_def isMessage_def isAttachment_def)

text \<open>
  C34: Outside multipart/alternative only the first text of its kind (HTML or not) becomes the body:
  a later text part of that kind which is no file, such as the footer a mailing list appends, is
  in neither body and in no attachment. The message is the same without it, whatever the part
  says, whatever comes before, behind and, other than an alternative, between the two.
\<close>

theorem second_text_part_lost:
  assumes "ent_type e = ''multipart''" "ent_subtype e \<noteq> ''alternative''"
    and "ent_type (ent p) = ''text''" "\<not> is_file p" "toUtf8 icu (ent_body (ent p)) (ent_charset (ent p)) \<noteq> []"
    and "ent_type (ent q) = ''text''" "\<not> is_file q" "ent_subtype (ent q) = ''html'' \<longleftrightarrow> ent_subtype (ent p) = ''html''"
    and "list_all no_alternative between"
  shows "buildMessage icu (Entity e (before @ p # between @ q # behind)) depth =
    buildMessage icu (Entity e (before @ p # between @ behind)) depth"
proof -
  let ?h = "ent_subtype (ent p) = ''html''" and ?f = "fold (\<lambda>part out. collect icu part depth False out)"
  have p: "body_of ?h (fields_of (collect icu p depth False out)) \<noteq> []" for out
    using assms(5) unfolding collect_plain_text [OF assms(3,4)] by (simp add: body_of_def collect_text_def Let_def)
  have b: "body_of ?h (fields_of (?f between out)) \<noteq> []" if "body_of ?h (fields_of out) \<noteq> []" for out
    by (rule fold_induct [where P = "\<lambda>m. body_of ?h (fields_of m) \<noteq> []"])
      (use that assms(9) collect_kept in \<open>auto simp: list_all_iff\<close>)
  have q: "collect icu q depth False out = out" if "body_of ?h (fields_of out) \<noteq> []" for out
    using that assms(8) unfolding collect_plain_text [OF assms(6,7)]
    by (cases out) (auto simp: body_of_def collect_text_def Let_def split: if_splits)
  show ?thesis using assms(1,2) q [OF b [OF p]] by (simp add: isMultipart_def)
qed

lemma second_text_part_lost_witness:
  "buildMessage icu_latin9 (Entity ((text_part [])\<lparr>ent_type := ''multipart'', ent_subtype := ''mixed''\<rparr>)
      ([] @ Entity (text_part ''body'') [] # [Entity ((text_part ''x'')\<lparr>ent_type := ''image''\<rparr>) []] @
        Entity (text_part ''footer'') [] # [])) 0 =
    buildMessage icu_latin9 (Entity ((text_part [])\<lparr>ent_type := ''multipart'', ent_subtype := ''mixed''\<rparr>)
      ([] @ Entity (text_part ''body'') [] # [Entity ((text_part ''x'')\<lparr>ent_type := ''image''\<rparr>) []] @ [])) 0"
  by (rule second_text_part_lost) code_simp+

lemma findBoundary_absent: "find_str (marker b) body 0 = None \<Longrightarrow> findBoundary body b 0 = None"
  by (subst findBoundary.simps) simp

text \<open>
  C35: A message that declares a multipart boundary which its body does not hold, as a truncated one
  may, keeps nothing of the body: no text, no HTML, no attachment.
\<close>

theorem undelimited_body_lost:
  assumes "isMultipart (entity_head icu raw)" "entity_boundary icu (entity_head icu raw) \<noteq> []"
    and "find_str (marker (entity_boundary icu (entity_head icu raw))) (ent_raw_body (entity_head icu raw)) 0 = None"
  shows "body_text (fields_of (parse_message icu raw)) = [] \<and> body_html (fields_of (parse_message icu raw)) = [] \<and>
    attachments (parse_message icu raw) = []"
proof -
  have "part_texts (ent_raw_body (entity_head icu raw)) (entity_boundary icu (entity_head icu raw)) 0 False = []"
    using findBoundary_absent [OF assms(3)] by (subst part_texts.simps) simp
  then have "parseEntity icu raw 0 = Entity (entity_head icu raw) []"
    using parseEntity_multipart [OF assms(1) _ assms(2), of 0] by (simp add: kMaxNestingDepth_def)
  moreover have "body_text (build_headers icu (entity_head icu raw)) = []" "body_html (build_headers icu (entity_head icu raw)) = []"
    by (simp_all add: build_headers_def recoverHiddenRecipients_def empty_fields_def Let_def)
  ultimately show ?thesis using assms(1) by (simp add: parse_message_def)
qed

lemma undelimited_body_lost_witness:
  "body_text (fields_of (parse_message icu_latin9 (''Content-Type: multipart/mixed; boundary=x'' @ [LF, LF] @ ''hello''))) = [] \<and>
    body_html (fields_of (parse_message icu_latin9 (''Content-Type: multipart/mixed; boundary=x'' @ [LF, LF] @ ''hello''))) = [] \<and>
    attachments (parse_message icu_latin9 (''Content-Type: multipart/mixed; boundary=x'' @ [LF, LF] @ ''hello'')) = []"
  by (rule undelimited_body_lost) code_simp+

end
