(* ===== verification/Imap_Fetch.thy ===== *)
theory Imap_Fetch
  imports Imap_Parse
begin

section \<open>FETCH responses: what is read back, and what never returns (src/imap/imap_parse.cpp)\<close>

text \<open>
  The properties of the FETCH parsers. A batched response as an IMAP server writes it reads back
  message by message, octet for octet; the cursor advances at every token unless a literal
  announces a length near \<open>2 ^ 64\<close>, so the loops end; and one such literal keeps the parser in its
  loop for ever.
\<close>

subsection \<open>Tokens at a position\<close>

lemma skipSpace_at: "set sp \<subseteq> {CHR '' '', TAB} \<Longrightarrow> t = [] \<or> hd t \<noteq> CHR '' '' \<and> hd t \<noteq> TAB \<Longrightarrow>
    skipSpace (pre @ sp @ t) (length pre) = length pre + length sp"
  unfolding skipSpace_def by (simp, subst takeWhile_stop) auto

lemma read_atom:
  assumes sp: "set sp \<subseteq> {CHR '' '', TAB}" and w: "w \<noteq> []" "\<forall>c \<in> set w. atom_char c \<and> c \<noteq> TAB" "hd w \<noteq> QUOTE" "hd w \<noteq> CHR ''{''"
    and t: "t = [] \<or> \<not> atom_char (hd t)"
  shows "readAstring (pre @ sp @ w @ t) (length pre) = (Some w, length pre + length sp + length w)"
proof -
  let ?s = "pre @ sp @ w @ t" and ?i = "length pre + length sp"
  obtain c v where cv: "w = c # v" using w(1) by (cases w) auto
  have "skipSpace ?s (length pre) = ?i"
    using skipSpace_at [OF sp, of "w @ t" pre] w cv by (auto simp: atom_char_def)
  moreover have "?s ! ?i = c" by (simp add: cv nth_append)
  moreover have "takeWhile atom_char (drop ?i ?s) = w"
  proof -
    have "drop ?i ?s = w @ t" by simp
    moreover have "takeWhile atom_char (w @ t) = w" by (rule takeWhile_stop) (use w(2) t in auto)
    ultimately show ?thesis by simp
  qed
  ultimately show ?thesis using w cv by (simp add: readAstring_def)
qed

lemma read_literal:
  assumes sp: "set sp \<subseteq> {CHR '' '', TAB}"
    and small: "length (pre @ sp @ ''{'' @ to_string (length body) @ ''}'' @ [CR, LF] @ body @ t) < 2 ^ 64"
  shows "readAstring (pre @ sp @ ''{'' @ to_string (length body) @ ''}'' @ [CR, LF] @ body @ t) (length pre) =
    (Some body, length (pre @ sp @ ''{'' @ to_string (length body) @ ''}'' @ [CR, LF] @ body))"
proof -
  define d where "d = to_string (length body)"
  define s where "s = pre @ sp @ ''{'' @ d @ ''}'' @ [CR, LF] @ body @ t"
  define i where "i = length (pre @ sp)"
  define close where "close = length (pre @ sp @ ''{'' @ d)"
  have pos: "skipSpace s (length pre) = i"
    using skipSpace_at [OF sp, of "''{'' @ d @ ''}'' @ [CR, LF] @ body @ t" pre] by (simp add: s_def i_def)
  have at: "s ! i = CHR ''{''" "i < length s" by (simp_all add: s_def i_def nth_append)
  have "CHR ''}'' \<notin> set (CHR ''{'' # d)" using to_string_digits [of "CHR ''}''" "length body"] by (auto simp: d_def isdigit_def)
  from find_char_append [OF this, of "pre @ sp" "[CR, LF] @ body @ t"]
  have close: "find_char (CHR ''}'') s i = Some close" by (simp add: s_def i_def close_def)
  have len: "length s < 2 ^ 64" using small by (simp add: s_def d_def)
  have "strtoul (d @ (''}'' @ [CR, LF] @ body @ t)) = length body"
    unfolding d_def by (rule strtoul_to_string) (use len in \<open>simp_all add: s_def isdigit_def\<close>)
  moreover have "drop (i + 1) s = d @ (''}'' @ [CR, LF] @ body @ t)" by (simp add: s_def i_def)
  ultimately have n: "strtoul (drop (i + 1) s) = length body" by simp
  have rest: "drop (close + 1) s = [CR, LF] @ body @ t" by (simp add: s_def close_def)
  then have lc: "length s = close + 1 + (2 + length body + length t)"
    by (simp add: s_def close_def)
  have "drop (close + 1) s ! 0 = s ! (close + 1)" "drop (close + 1) s ! 1 = s ! (close + 1 + 1)" using lc by simp_all
  then have cr: "s ! (close + 1) = CR" "s ! (close + 1 + 1) = LF" unfolding rest by simp_all
  have body: "substr s (close + 1 + 1 + 1) (length body) = body"
  proof -
    have "drop (close + 1 + 1 + 1) s = drop 2 (drop (close + 1) s)" by simp
    then show ?thesis unfolding substr_def rest by simp
  qed
  have stop: "(close + 1 + 1 + 1 + length body) mod 2 ^ 64 = close + 1 + 1 + 1 + length body" using len lc by simp
  have res: "length (pre @ sp @ ''{'' @ d @ ''}'' @ [CR, LF] @ body) = close + 1 + 1 + 1 + length body" by (simp add: close_def)
  have cond: "close + 1 < length s" "close + 1 + 1 < length s" "\<not> length s < close + 1 + 1 + 1 + length body" "\<not> length s \<le> i"
    using lc at by simp_all
  have "readAstring s (length pre) = (Some body, close + 1 + 1 + 1 + length body)"
    unfolding readAstring_def Let_def pos n close at(1) option.case cr
    by (simp only: cond cr simp_thms if_True if_False body stop) simp
  then show ?thesis unfolding d_def [symmetric] res unfolding s_def .
qed

subsection \<open>A response as a server writes it\<close>

text \<open>One answer: the message's number, its UID, its octets.\<close>

definition answer_head :: "nat \<Rightarrow> 32 word \<Rightarrow> string \<Rightarrow> string" where
  "answer_head n uid body =
     ''* '' @ to_string n @ '' FETCH (UID '' @ to_string (unat uid) @ '' BODY[] {'' @ to_string (length body) @ ''}''"

definition answer_line :: "nat \<Rightarrow> 32 word \<Rightarrow> string \<Rightarrow> string" where
  "answer_line n uid body = answer_head n uid body @ [CR, LF] @ body @ '')''"

definition fetch_answer :: "nat \<times> 32 word \<times> string \<Rightarrow> string" where
  "fetch_answer = (\<lambda>(n, uid, body). answer_line n uid body @ [CR, LF])"

lemma digits_plain: "c \<in> set (to_string n) \<Longrightarrow> atom_char c \<and> c \<noteq> TAB \<and> c \<noteq> QUOTE \<and> c \<noteq> CHR ''{'' \<and> c \<noteq> CHR ''f'' \<and> tolower c = c"
  using to_string_digits [of c n] by (auto simp: isdigit_def atom_char_def tolower_def)

lemma no_newline: "LF \<notin> set (answer_head n uid body @ [CR])"
  using digits_plain [of LF] by (auto simp: answer_head_def atom_char_def)

lemma rfind_char_at: "c \<notin> set t \<Longrightarrow> rfind_char c (pre @ c # t) = Some (length pre)"
proof -
  assume "c \<notin> set t"
  then have "takeWhile (\<lambda>x. x \<noteq> c) (rev t @ c # rev pre) = rev t" by (intro takeWhile_tail [THEN trans]) auto
  then show ?thesis by (simp add: rfind_char_def)
qed

lemma literal_of_head: "length body < 2 ^ 64 \<Longrightarrow> literal_length (answer_head n uid body) = Some (length body)"
proof -
  assume small: "length body < 2 ^ 64"
  let ?d = "to_string (length body)"
  have "\<exists>p. answer_head n uid body = p @ CHR ''{'' # (?d @ ''}'')"
    by (rule exI [of _ "''* '' @ to_string n @ '' FETCH (UID '' @ to_string (unat uid) @ '' BODY[] ''"]) (simp add: answer_head_def)
  then obtain p where split: "answer_head n uid body = p @ CHR ''{'' # (?d @ ''}'')" by blast
  have "CHR ''{'' \<notin> set (?d @ ''}'')" using digits_plain [of "CHR ''{''"] by auto
  then have r: "rfind_char (CHR ''{'') (answer_head n uid body) = Some (length p)"
    unfolding split by (rule rfind_char_at)
  have l: "last (answer_head n uid body) = CHR ''}''" "answer_head n uid body \<noteq> []" by (simp_all add: split)
  have "substr (answer_head n uid body) (length p + 1) (length (answer_head n uid body) - length p - 2) = ?d"
    unfolding split by (simp add: substr_def)
  moreover have "list_all isdigit ?d" using to_string_digits by (simp add: list_all_iff)
  moreover have "strtoul ?d = length body" using strtoul_to_string [OF small, of "[]"] by simp
  ultimately show ?thesis using r l by (simp add: literal_length_def Let_def)
qed

text \<open>The line of an answer, with the octets it announced.\<close>

lemma answer_lines:
  assumes small: "length r < 2 ^ 63" and r: "r = pre @ fetch_answer (n, uid, body) @ post"
  shows "lines_from r (length pre) =
    Option.bind (lines_from r (length (pre @ fetch_answer (n, uid, body)))) (\<lambda>y. case y of Inl e \<Rightarrow> Some (Inl e)
      | Inr ls \<Rightarrow> Some (Inr (answer_line n uid body # ls)))"
proof -
  let ?h = "answer_head n uid body" and ?i = "length pre" and ?n = "length body"
  have r1: "r = pre @ (?h @ [CR]) @ LF # (body @ '')'' @ [CR, LF] @ post)"
    by (simp add: r fetch_answer_def answer_line_def)
  have e1: "line_end r ?i = ?i + length ?h + 1" unfolding r1 by (subst line_end_append [OF no_newline]) simp
  define j where "j = length (pre @ ?h @ [CR, LF])"
  define k where "k = length (pre @ ?h @ [CR, LF] @ body)"
  have jn: "j + ?n = k" "line_end r ?i + 1 = j" by (simp_all add: j_def k_def e1)
  have r2: "r = (pre @ ?h @ [CR, LF] @ body) @ ('')'' @ [CR]) @ LF # post"
    by (simp add: r fetch_answer_def answer_line_def)
  have le: "k + 2 < length r" unfolding r2 k_def by simp
  have e2: "line_end r k = k + 2"
    unfolding r2 k_def by (subst line_end_append) simp_all
  have s1: "chomp (substr r ?i (line_end r ?i - ?i)) = ?h" unfolding e1 by (simp add: r1 substr_def chomp_def)
  have s2: "substr r j ?n = body"
    by (simp add: substr_def j_def r fetch_answer_def answer_line_def)
  have s3: "chomp (substr r k 2) = '')''"
    by (simp add: substr_def chomp_def k_def r fetch_answer_def answer_line_def)
  have wrap: "k mod 2 ^ 64 = k" using le small by simp
  have lit: "literal_length ?h = Some ?n" by (rule literal_of_head) (use le small jn in simp)
  have nolit: "literal_length (?h @ [CR, LF] @ body @ '')'') = None" by (simp add: literal_length_def)
  have "\<not> length r < k" "\<not> length r < j" using le jn by simp_all
  then have "join_literals r ?h j = join_literals r (?h @ [CR, LF] @ body @ '')'') (k + 2 + 1)"
    by (subst join_literals.simps) (simp only: lit wrap e2 s2 s3 jn Let_def option.case if_False diff_add_inverse)
  also have "\<dots> = Some (Inr (answer_line n uid body, k + 2 + 1))"
    by (subst join_literals.simps) (simp only: nolit answer_line_def option.case)
  finally have join: "join_literals r ?h (line_end r ?i + 1) = Some (Inr (answer_line n uid body, k + 2 + 1))"
    unfolding jn .
  have stop: "k + 2 + 1 = length (pre @ fetch_answer (n, uid, body))" by (simp add: k_def fetch_answer_def answer_line_def)
  have "\<not> length r \<le> ?i" unfolding r1 by simp
  then show ?thesis
    by (subst lines_from.simps) (simp only: Let_def s1 join stop if_False bind.bind_lunit sum.case prod.case)
qed

lemma response_lines:
  assumes "length r < 2 ^ 63" "r = pre @ concat (map fetch_answer as)"
  shows "lines_from r (length pre) = Some (Inr (map (\<lambda>(n, uid, body). answer_line n uid body) as))"
  using assms(2)
proof (induction as arbitrary: pre)
  case Nil
  then show ?case by (subst lines_from.simps) simp
next
  case (Cons a as)
  obtain n uid body where a: "a = (n, uid, body)" by (metis surj_pair)
  have "lines_from r (length (pre @ fetch_answer a)) = Some (Inr (map (\<lambda>(n, uid, body). answer_line n uid body) as))"
    by (rule Cons.IH) (use Cons.prems in simp)
  then show ?case
    using answer_lines [OF assms(1), of pre n uid body "concat (map fetch_answer as)"] Cons.prems a by simp
qed

subsection \<open>The items of an answer\<close>

lemma find_prefix_skip: "(\<And>k. k < length a \<Longrightarrow> take (length p) (drop k (a @ s)) \<noteq> p) \<Longrightarrow> find_prefix p (a @ s) i = find_prefix p s (i + length a)"
proof (induction a arbitrary: i)
  case (Cons c a)
  have "find_prefix p (a @ s) (Suc i) = find_prefix p s (Suc i + length a)"
    by (rule Cons.IH) (use Cons.prems [of "Suc _"] in simp)
  then show ?case using Cons.prems [of 0] by (subst find_prefix.simps) simp
qed simp

lemma lower_fetch: "tolower (CHR ''*'') = CHR ''*''" "tolower (CHR '' '') = CHR '' ''" "tolower (CHR ''F'') = CHR ''f''"
    "tolower (CHR ''E'') = CHR ''e''" "tolower (CHR ''T'') = CHR ''t''" "tolower (CHR ''C'') = CHR ''c''" "tolower (CHR ''H'') = CHR ''h''"
    "lower ''UID'' = ''uid''" "lower ''BODY[]'' = ''body[]''"
  by code_simp+

lemma fetch_start_answer: "fetch_start (answer_line n uid body) = Some (length (''* '' @ to_string n @ '' FETCH ''))"
proof -
  let ?d = "to_string n" and ?p = "'' fetch ''"
  obtain rest where line: "lower (answer_line n uid body) = (''* '' @ ?d) @ ?p @ rest"
  proof -
    have "lower ?d = ?d" using digits_plain by (intro map_idI) blast
    then have "lower (answer_line n uid body) = (''* '' @ ?d) @ ?p @ lower (''(UID '' @ to_string (unat uid) @ '' BODY[] {'' @
        to_string (length body) @ ''}'' @ [CR, LF] @ body @ '')'')"
      by (simp add: answer_line_def answer_head_def lower_fetch)
    then show thesis by (rule that)
  qed
  obtain c ds where d: "?d = c # ds" by (cases ?d) auto
  have cf: "x \<noteq> CHR '' '' \<and> x \<noteq> CHR ''f''" if "x \<in> set ?d" for x using digits_plain [OF that] by (auto simp: atom_char_def)
  have none: "take (length ?p) (drop k ((''* '' @ ?d) @ ?p @ rest)) \<noteq> ?p" if k: "k < length (''* '' @ ?d)" for k
  proof -
    have "((''* '' @ ?d) @ ?p @ rest) ! k \<noteq> CHR '' '' \<or> ((''* '' @ ?d) @ ?p @ rest) ! Suc k \<noteq> CHR ''f''"
    proof (cases "k < 2")
      case True
      then show ?thesis using cf [of c] d by (auto simp: less_2_cases_iff)
    next
      case False
      then have "((''* '' @ ?d) @ ?p @ rest) ! k = ?d ! (k - 2)" "k - 2 < length ?d" using k by (auto simp: nth_append nth_Cons' numeral_2_eq_2)
      then show ?thesis using cf [of "?d ! (k - 2)"] nth_mem by metis
    qed
    moreover have "xs ! k = CHR '' '' \<and> xs ! Suc k = CHR ''f''" if e: "take (length ?p) (drop k xs) = ?p" for xs :: string
    proof -
      have "length ?p \<le> length xs - k" using arg_cong [OF e, of length] by simp
      then show ?thesis using arg_cong [OF e, of "\<lambda>l. l ! 0"] arg_cong [OF e, of "\<lambda>l. l ! 1"] by simp
    qed
    ultimately show ?thesis by blast
  qed
  have "find_str ?p (lower (answer_line n uid body)) 0 = find_prefix ?p (?p @ rest) (length (''* '' @ ?d))"
    using find_prefix_skip [of "''* '' @ ?d" ?p "?p @ rest" 0] none unfolding line by (simp add: find_str_def)
  also have "\<dots> = Some (length (''* '' @ ?d))" by (subst find_prefix.simps) simp
  finally show ?thesis by (simp add: fetch_start_def answer_line_def answer_head_def)
qed

lemma fetch_body_answer:
  assumes "length (answer_line n uid body) < 2 ^ 64"
  shows "fetch_body (answer_line n uid body) (length (''* '' @ to_string n @ '' FETCH '')) =
    Some (Some \<lparr>fb_uid = uid, fb_rfc822 = body\<rparr>)"
proof -
  define line where "line = answer_line n uid body"
  let ?d = "to_string (unat uid)" and ?b = "to_string (length body)"
  define p0 where "p0 = ''* '' @ to_string n @ '' FETCH ''"
  define p1 where "p1 = p0 @ ''(''"
  define p2 where "p2 = p1 @ ''UID''"
  define p3 where "p3 = p2 @ '' '' @ ?d"
  define p4 where "p4 = p3 @ '' BODY[]''"
  define p5 where "p5 = p4 @ '' {'' @ ?b @ ''}'' @ [CR, LF] @ body"
  have l0: "line = p0 @ ''('' @ ''UID '' @ ?d @ '' BODY[] {'' @ ?b @ ''}'' @ [CR, LF] @ body @ '')''"
    by (simp add: line_def answer_line_def answer_head_def p0_def)
  have l1: "line = p1 @ [] @ ''UID'' @ ('' '' @ ?d @ '' BODY[] {'' @ ?b @ ''}'' @ [CR, LF] @ body @ '')'')" by (simp add: l0 p1_def)
  have l2: "line = p2 @ '' '' @ ?d @ ('' BODY[] {'' @ ?b @ ''}'' @ [CR, LF] @ body @ '')'')" by (simp add: l1 p2_def)
  have l3: "line = p3 @ '' '' @ ''BODY[]'' @ ('' {'' @ ?b @ ''}'' @ [CR, LF] @ body @ '')'')" by (simp add: l2 p3_def)
  have l4: "line = p4 @ '' '' @ ''{'' @ ?b @ ''}'' @ [CR, LF] @ body @ '')''" by (simp add: l3 p4_def)
  have l5: "line = p5 @ '')''" by (simp add: l4 p5_def)
  have len: "length line < 2 ^ 64" using assms by (simp add: line_def)
  have r1: "readAstring line (length p1) = (Some ''UID'', length p2)"
    unfolding l1 by (subst read_atom) (simp_all add: atom_char_def p2_def)
  have "\<forall>c \<in> set ?d. atom_char c \<and> c \<noteq> TAB" using digits_plain by blast
  moreover have "hd ?d \<noteq> QUOTE \<and> hd ?d \<noteq> CHR ''{''" using digits_plain [of "hd ?d" "unat uid"] by simp
  ultimately have r2: "readAstring line (length p2) = (Some ?d, length p3)"
    unfolding l2 by (subst read_atom) (simp_all add: atom_char_def p3_def)
  have r3: "readAstring line (length p3) = (Some ''BODY[]'', length p4)"
    unfolding l3 by (subst read_atom) (simp_all add: atom_char_def p4_def)
  have r4: "readAstring line (length p4) = (Some body, length p5)"
    using read_literal [of "'' ''" p4 body "'')''"] len unfolding l4 by (simp add: p5_def)
  have j0: "skipSpace line (length p0) = length p0" unfolding l0 using skipSpace_at [of "[]" "''('' @ _" p0] by simp
  have j1: "skipSpace line (length p1) = length p1" unfolding l1 using skipSpace_at [of "[]" "''UID'' @ _" p1] by simp
  have j3: "skipSpace line (length p3) = length p3 + 1" unfolding l3 using skipSpace_at [of "'' ''" "''BODY[]'' @ _" p3] by simp
  have j5: "skipSpace line (length p5) = length p5" unfolding l5 using skipSpace_at [of "[]" "'')''" p5] by simp
  have j6: "length line = length p5 + 1" by (simp add: l5)
  have c0: "line ! length p0 = CHR ''(''" "length p0 + 1 = length p1" by (simp_all add: l0 p1_def nth_append)
  have c1: "line ! length p1 = CHR ''U''" by (simp add: l1 nth_append)
  have c3: "line ! (length p3 + 1) = CHR ''B''" by (simp add: l3 nth_append)
  have c5: "line ! length p5 = CHR '')''" by (simp add: l5)
  have lt: "length p0 < length p1" "length p1 < length p2" "length p2 < length p3" "length p3 + 1 < length p4" "length p4 < length p5"
    by (simp_all add: p1_def p2_def p3_def p4_def p5_def)
  let ?f = "fetch_loop (body_item line) line"
  have r3': "readAstring line (length p3 + 1) = (Some ''BODY[]'', length p4)"
  proof -
    have "line = (p3 @ '' '') @ [] @ ''BODY[]'' @ ('' {'' @ ?b @ ''}'' @ [CR, LF] @ body @ '')'')" by (simp add: l3)
    then have "readAstring line (length (p3 @ '' '')) = (Some ''BODY[]'', length (p3 @ '' '') + 0 + 6)"
      by (simp only:) (subst read_atom, simp_all add: atom_char_def)
    then show ?thesis by (simp add: p4_def)
  qed
  have "?f (length p0) st = ?f (length p1) st" for st
    using c0 j0 j6 lt by (subst fetch_loop.simps) (simp add: Let_def)
  moreover have "?f (length p1) (\<lparr>fb_uid = 0, fb_rfc822 = []\<rparr>, False, False) = ?f (length p3) (\<lparr>fb_uid = uid, fb_rfc822 = []\<rparr>, True, False)"
    using c1 j1 j6 lt r1 r2 strtoul_to_string [of "unat uid" "[]"] unsigned_less [of uid, where ?'a = nat]
    by (subst fetch_loop.simps) (simp add: Let_def body_item_def lower_fetch del: list.map)
  moreover have "?f (length p3) (\<lparr>fb_uid = uid, fb_rfc822 = []\<rparr>, True, False) = ?f (length p5) (\<lparr>fb_uid = uid, fb_rfc822 = body\<rparr>, True, True)"
    using c3 j3 j6 lt r3' r4 by (subst fetch_loop.simps) (simp add: Let_def body_item_def lower_fetch del: list.map)
  moreover have "?f (length p5) st = Some st" for st
    using c5 j5 j6 by (subst fetch_loop.simps, subst fetch_loop.simps) (simp add: Let_def)
  ultimately show ?thesis unfolding line_def [symmetric] p0_def [symmetric] by (simp add: fetch_body_def)
qed

lemma fetch_bodies_back:
  assumes "length (concat (map fetch_answer as)) < 2 ^ 63"
  shows "parseFetchBodies (concat (map fetch_answer as)) = Some (Inr (map (\<lambda>(n, uid, body). \<lparr>fb_uid = uid, fb_rfc822 = body\<rparr>) as))"
proof -
  have "splitLines (concat (map fetch_answer as)) = Some (Inr (map (\<lambda>(n, uid, body). answer_line n uid body) as))"
    using response_lines [OF assms, of "[]" as] by (simp add: splitLines_def)
  moreover have "each_fetch fetch_body (map (\<lambda>(n, uid, body). answer_line n uid body) as) =
      Some (map (\<lambda>(n, uid, body). \<lparr>fb_uid = uid, fb_rfc822 = body\<rparr>) as)"
    using assms
  proof (induction as)
    case (Cons a as)
    obtain n uid body where a: "a = (n, uid, body)" by (metis surj_pair)
    have "length (answer_line n uid body) < 2 ^ 64" using Cons.prems a by (simp add: fetch_answer_def)
    then show ?case using Cons a fetch_start_answer fetch_body_answer by simp
  qed simp
  ultimately show ?thesis by (simp add: parseFetchBodies_def fetch_answers_def)
qed

text \<open>
  C22: A batched FETCH response reads back. For any number of messages with any octets in their
  bodies, the response a server writes for them yields exactly one entry each, in order, with its
  UID and its octets unchanged.
\<close>

theorem fetch_bodies_roundtrip:
  assumes "length (concat (map fetch_answer as)) < 2 ^ 63"
  shows "parseFetchBodies (concat (map fetch_answer as)) =
    Some (Inr (map (\<lambda>(n, uid, body). \<lparr>fb_uid = uid, fb_rfc822 = body\<rparr>) as))"
  by (rule fetch_bodies_back [OF assms])

lemma fetch_bodies_roundtrip_witness:
  "parseFetchBodies (fetch_answer (1, 7, ''Subject: a'') @ fetch_answer (2, 9, '' FETCH (UID 3 {5}'')) =
     Some (Inr [\<lparr>fb_uid = 7, fb_rfc822 = ''Subject: a''\<rparr>, \<lparr>fb_uid = 9, fb_rfc822 = '' FETCH (UID 3 {5}''\<rparr>])"
  using fetch_bodies_roundtrip [of "[(1, 7, ''Subject: a''), (2, 9, '' FETCH (UID 3 {5}'')]"]
  by (simp add: fetch_answer_def answer_line_def answer_head_def to_string.simps)

subsection \<open>When the loops return\<close>

text \<open>Whatever stands behind an opening brace, \<open>strtoul\<close> reads a value below \<open>2 ^ 63\<close> there.\<close>

primrec sane_literals :: "string \<Rightarrow> bool" where
  "sane_literals [] \<longleftrightarrow> True"
| "sane_literals (c # cs) \<longleftrightarrow> (c = CHR ''{'' \<longrightarrow> strtoul cs < 2 ^ 63) \<and> sane_literals cs"

text \<open>What \<open>strtoul\<close> reads ends at the first character behind it that is no digit.\<close>

lemma c_str_append: "c_str (a @ b) = (if NUL \<in> set a then c_str a else a @ c_str b)"
  by (induction a) (auto simp: c_str_def)

lemma scan_sign_append: "w \<noteq> [] \<Longrightarrow> scan_sign (w @ x) = (fst (scan_sign w), snd (scan_sign w) @ x)"
  by (cases w) (simp_all add: scan_sign_def)

lemma digits_stop: "\<not> isdigit c \<Longrightarrow> takeWhile isdigit (t @ c # y) = takeWhile isdigit t"
  by (induction t) simp_all

lemma strtoul_stop:
  assumes "\<exists>x \<in> set a. \<not> isspace x" "\<not> isdigit c"
  shows "strtoul (a @ c # b) = strtoul a"
proof (cases "NUL \<in> set a")
  case True
  then show ?thesis by (simp add: strtoul_def c_str_append)
next
  case False
  let ?w = "dropWhile isspace a"
  have w: "?w \<noteq> []" using assms(1) by (simp add: dropWhile_eq_Nil_conv)
  have dw: "dropWhile isspace (a @ x) = ?w @ x" for x
    using assms(1) dropWhile_append1 [of _ a isspace x] by blast
  have ca: "c_str a = a" using c_str_append [of a "[]"] False by (simp add: c_str_def)
  have "takeWhile isdigit (t @ c_str (c # b)) = takeWhile isdigit t" for t
    using assms(2) digits_stop [of c t] by (cases "c = NUL") (simp_all add: c_str_def)
  then show ?thesis
    by (simp add: strtoul_def c_str_append [of a] False ca dw scan_sign_append [OF w] split_beta Let_def)
qed

lemma strtoul_spaces: "list_all isspace a \<Longrightarrow> strtoul (a @ b) = strtoul b"
proof -
  assume a: "list_all isspace a"
  then have "NUL \<notin> set a" by (induction a) (auto simp: isspace_def)
  moreover have "dropWhile isspace (a @ c_str b) = dropWhile isspace (c_str b)"
    using a by (intro dropWhile_append2) (simp add: list_all_iff)
  ultimately show ?thesis by (simp add: strtoul_def c_str_append)
qed

lemma line_end_chars: "isspace CR" "isspace LF" "\<not> isdigit CR" "\<not> isdigit LF" "strtoul [] = 0"
  by (simp_all add: isspace_def isdigit_def strtoul_def c_str_def scan_sign_def parse_digits_def)

lemma substr_drop: "substr s i n @ drop (i + n) s = drop i s"
  using append_take_drop_id [of n "drop i s"] by (simp add: substr_def add.commute del: append_take_drop_id)

lemma strtoul_eol: "strtoul (a @ CR # LF # y) = strtoul (a @ LF # y)"
proof (cases "list_all isspace a")
  case True
  then show ?thesis
    using line_end_chars strtoul_spaces [of "a @ [CR, LF]" y] strtoul_spaces [of "a @ [LF]" y] by simp
next
  case False
  then have "\<exists>x \<in> set a. \<not> isspace x" by (auto simp: list_all_iff)
  then show ?thesis using line_end_chars by (simp add: strtoul_stop)
qed

lemma strtoul_cut: "isspace c \<Longrightarrow> \<not> isdigit c \<Longrightarrow> strtoul a \<le> strtoul (a @ c # b)"
proof (cases "list_all isspace a")
  case True
  then show ?thesis using strtoul_spaces [of a "[]"] line_end_chars(5) by simp
next
  case False
  then have "\<exists>x \<in> set a. \<not> isspace x" by (auto simp: list_all_iff)
  then show "\<not> isdigit c \<Longrightarrow> strtoul a \<le> strtoul (a @ c # b)" by (simp add: strtoul_stop)
qed

text \<open>So a line keeps what is known of the response it was cut from.\<close>

lemma sane_eol: "sane_literals (a @ CR # LF # y) \<longleftrightarrow> sane_literals (a @ LF # y)"
  by (induction a) (simp_all add: strtoul_eol)

lemma sane_prepend_chomp: "sane_literals (p @ chomp x @ CR # LF # y) \<longleftrightarrow> sane_literals (p @ x @ LF # y)"
proof (cases "x \<noteq> [] \<and> last x = CR")
  case True
  then obtain z where "x = z @ [CR]" by (metis append_butlast_last_id)
  then show ?thesis by (simp add: chomp_def)
qed (use sane_eol [of "p @ x" y] in \<open>auto simp: chomp_def\<close>)

lemma sane_cut: "sane_literals (a @ CR # LF # y) \<Longrightarrow> sane_literals a"
proof (induction a)
  case (Cons c a)
  then show ?case using strtoul_cut [of CR a "LF # y"] line_end_chars by auto
qed simp

lemma sane_drop: "sane_literals s \<Longrightarrow> sane_literals (drop i s)"
proof (induction s arbitrary: i)
  case (Cons c cs)
  then show ?case by (cases i) auto
qed simp

lemma sane_literals_at: "sane_literals s \<Longrightarrow> i < length s \<Longrightarrow> s ! i = CHR ''{'' \<Longrightarrow> strtoul (drop (Suc i) s) < 2 ^ 63"
proof (induction s arbitrary: i)
  case (Cons c cs)
  then show ?case by (cases i) auto
qed simp

lemma rfind_char_Some: "rfind_char c s = Some b \<Longrightarrow> b < length s \<and> s ! b = c"
proof -
  assume r: "rfind_char c s = Some b"
  let ?t = "takeWhile (\<lambda>x. x \<noteq> c) (rev s)"
  have lt: "length ?t < length s" and b: "b = length s - 1 - length ?t"
    using r length_takeWhile_le [of "\<lambda>x. x \<noteq> c" "rev s"] by (auto simp: rfind_char_def Let_def split: if_splits)
  have "rev s ! length ?t = c" using nth_length_takeWhile [of "\<lambda>x. x \<noteq> c" "rev s"] lt by simp
  then show ?thesis using lt b by (simp add: rev_nth)
qed

lemma literal_length_sane:
  assumes lit: "literal_length line = Some n" and sane: "sane_literals (line @ y)"
  shows "n < 2 ^ 63"
proof -
  obtain b where b: "rfind_char CHR ''{'' line = Some b" "line \<noteq> []" "last line = CHR ''}''"
    using lit by (auto simp: literal_length_def split: if_splits option.splits)
  let ?ds = "substr line (b + 1) (length line - b - 2)"
  have ds: "?ds \<noteq> []" "list_all isdigit ?ds" "n = strtoul ?ds"
    using lit b by (auto simp: literal_length_def Let_def split: if_splits)
  note bb = rfind_char_Some [OF b(1)]
  have two: "b + 2 < length line" using ds(1) by (auto simp: substr_def)
  have minus: "b + 1 + (length line - b - 2) = length line - 1" using two by simp
  have "drop (Suc b) line = ?ds @ drop (length line - 1) line"
    using substr_drop [of line "b + 1" "length line - b - 2"] by (simp only: minus Suc_eq_plus1)
  moreover have "drop (length line - 1) line = [last line]" using b(2) by (simp add: last_conv_nth Cons_nth_drop_Suc [symmetric])
  ultimately have "drop (Suc b) (line @ y) = ?ds @ CHR ''}'' # y" using b(3) two by simp
  moreover have "strtoul (drop (Suc b) (line @ y)) < 2 ^ 63"
    by (rule sane_literals_at [OF sane]) (use bb in \<open>simp_all add: nth_append\<close>)
  moreover have "\<exists>x \<in> set ?ds. \<not> isspace x" using ds(1,2) isdigit_char by (cases ?ds) auto
  moreover have "\<not> isdigit CHR ''}''" by (simp add: isdigit_def)
  ultimately show ?thesis using ds(3) by (simp add: strtoul_stop)
qed

text \<open>The text from a position on is the line up to its end, and behind the line feed the rest.\<close>

lemma split_at_line_end:
  assumes "i \<le> length r" "sane_literals (p @ drop i r)"
  shows "sane_literals (p @ chomp (substr r i (line_end r i - i)) @ CR # LF # drop (line_end r i + 1) r)"
proof -
  let ?e = "line_end r i" and ?x = "substr r i (line_end r i - i)"
  note e = line_end_bounds [OF assms(1)]
  have x: "drop i r = ?x @ drop ?e r"
    using e substr_drop [of r i "?e - i"] by simp
  show ?thesis
  proof (cases "find_char LF r i")
    case None
    then have el: "?e = length r" by (simp add: line_end_def)
    have end_sane: "sane_literals (a @ [LF]) \<longleftrightarrow> sane_literals a" for a
    proof (induction a)
      case (Cons c a)
      have "strtoul (a @ [LF]) = strtoul a"
        using strtoul_stop [of a LF "[]"] strtoul_spaces [of "a @ [LF]" "[]"] strtoul_spaces [of a "[]"] line_end_chars
        by (cases "list_all isspace a") (auto simp: list_all_iff)
      then show ?case using Cons by simp
    qed simp
    have "sane_literals (p @ ?x @ [LF])" using assms(2) x el end_sane [of "p @ ?x"] by simp
    then show ?thesis using el sane_prepend_chomp [of p ?x "[]"] by simp
  next
    case (Some k)
    then have k: "?e = k" "k < length r" "r ! k = LF" using find_char_Some [OF Some] by (simp_all add: line_end_def)
    then have "drop ?e r = LF # drop (?e + 1) r" by (metis Cons_nth_drop_Suc Suc_eq_plus1)
    then have "sane_literals (p @ ?x @ LF # drop (?e + 1) r)" using assms(2) x by simp
    then show ?thesis using sane_prepend_chomp by blast
  qed
qed

lemma chomp_length: "length (chomp s) \<le> length s"
  by (simp add: chomp_def)

lemma join_literals_returns:
  assumes r: "length r < 2 ^ 62"
    and line: "sane_literals (line @ CR # LF # drop i r)" "length line + 1 \<le> 2 * i" and i: "i \<le> length r + 1"
  shows "\<exists>l j. join_literals r line i = Some (Inr (l, j)) \<and> i \<le> j \<and> j \<le> length r + 1 \<and>
    sane_literals (l @ CR # LF # drop j r) \<and> length l + 1 \<le> 2 * j"
  using line i
proof (induction "length r + 1 - i" arbitrary: line i rule: less_induct)
  case less
  show ?case
  proof (cases "literal_length line")
    case None
    then show ?thesis using less.prems by (subst join_literals.simps) simp
  next
    case (Some n)
    have n: "n < 2 ^ 63" by (rule literal_length_sane [OF Some less.prems(1)])
    then have nw: "(i + n) mod 2 ^ 64 = i + n" using less.prems(3) r by simp
    show ?thesis
    proof (cases "length r < i + n")
      case True
      then show ?thesis using less.prems by (subst join_literals.simps) (simp add: Some nw [simplified])
    next
      case False
      let ?e = "line_end r (i + n)"
      let ?x = "substr r (i + n) (?e - (i + n))"
      let ?l = "line @ [CR, LF] @ substr r i n @ chomp ?x"
      have e: "i + n \<le> ?e" "?e \<le> length r" using line_end_bounds [of "i + n" r] False by simp_all
      have "drop i r = substr r i n @ drop (i + n) r"
        by (rule substr_drop [symmetric])
      then have "sane_literals ((line @ [CR, LF] @ substr r i n) @ drop (i + n) r)" using less.prems(1) by simp
      from split_at_line_end [OF _ this] have sl: "sane_literals (?l @ CR # LF # drop (?e + 1) r)" using False by simp
      have "length (substr r i n) \<le> n" "length (chomp ?x) \<le> ?e - (i + n)"
        using chomp_length [of ?x] by (simp_all add: substr_def)
      then have len: "length ?l + 1 \<le> 2 * (?e + 1)" using less.prems(2) e by simp
      have "\<exists>l j. join_literals r ?l (?e + 1) = Some (Inr (l, j)) \<and> ?e + 1 \<le> j \<and> j \<le> length r + 1 \<and>
          sane_literals (l @ CR # LF # drop j r) \<and> length l + 1 \<le> 2 * j"
        by (rule less.hyps) (use e sl len False in simp_all)
      moreover have "join_literals r line i = join_literals r ?l (?e + 1)"
        using False by (subst join_literals.simps) (simp add: Some nw [simplified] Let_def)
      ultimately show ?thesis using e by fastforce
    qed
  qed
qed

definition sane_line :: "string \<Rightarrow> bool" where
  "sane_line line \<longleftrightarrow> length line < 2 ^ 63 \<and> sane_literals line"

lemma lines_from_returns:
  assumes r: "sane_literals r" "length r < 2 ^ 62"
  shows "\<exists>ls. lines_from r i = Some (Inr ls) \<and> list_all sane_line ls"
proof (induction "length r + 1 - i" arbitrary: i rule: less_induct)
  case less
  show ?case
  proof (cases "length r \<le> i")
    case True
    then show ?thesis by (subst lines_from.simps) simp
  next
    case False
    let ?e = "line_end r i"
    have e: "i \<le> ?e" "?e \<le> length r" using line_end_bounds [of i r] False by simp_all
    have s: "sane_literals (chomp (substr r i (?e - i)) @ CR # LF # drop (?e + 1) r)"
      using split_at_line_end [of i r "[]"] sane_drop [OF r(1)] False by simp
    have "length (chomp (substr r i (?e - i))) \<le> ?e - i"
      using chomp_length [of "substr r i (?e - i)"] by (simp add: substr_def)
    then have "length (chomp (substr r i (?e - i))) + 1 \<le> 2 * (?e + 1)" by simp
    from join_literals_returns [OF r(2) s this] e obtain l j where
      j: "join_literals r (chomp (substr r i (?e - i))) (?e + 1) = Some (Inr (l, j))" "?e + 1 \<le> j" "j \<le> length r + 1"
        "sane_literals (l @ CR # LF # drop j r)" "length l + 1 \<le> 2 * j" by auto
    have "sane_line l" using sane_cut [OF j(4)] j(3,5) r(2) by (simp add: sane_line_def)
    moreover have "\<exists>ls. lines_from r j = Some (Inr ls) \<and> list_all sane_line ls" by (rule less.hyps) (use j e False in simp)
    ultimately show ?thesis using False j(1) by (subst lines_from.simps) (auto simp: Let_def)
  qed
qed

lemma skipSpace_ge: "i \<le> skipSpace s i"
  by (simp add: skipSpace_def)

lemma readAstring_progress:
  assumes sane: "sane_literals s" "length s < 2 ^ 63" and read: "readAstring s i = (r, j)"
  shows "i \<le> j" "r \<noteq> None \<Longrightarrow> i < j"
proof -
  let ?i = "skipSpace s i"
  have "i \<le> j \<and> (r \<noteq> None \<longrightarrow> i < j)"
  proof (cases "length s \<le> ?i \<or> s ! ?i = QUOTE \<or> s ! ?i \<noteq> CHR ''{''")
    case True
    then show ?thesis
      using read skipSpace_ge [of i s] length_greater_0_conv [of "takeWhile atom_char (drop ?i s)"]
      by (auto simp: readAstring_def Let_def simp del: length_greater_0_conv split: if_splits prod.splits)
  next
    case False
    then have ij: "?i < length s" "s ! ?i = CHR ''{''" "s ! ?i \<noteq> QUOTE" by auto
    show ?thesis
    proof (cases "find_char (CHR ''}'') s ?i")
      case None
      then show ?thesis using read ij skipSpace_ge [of i s] by (simp add: readAstring_def)
    next
      case (Some close)
      define a where "a = close + 1"
      define b where "b = (if a < length s \<and> s ! a = CR then a + 1 else a)"
      define start where "start = (if b < length s \<and> s ! b = LF then b + 1 else b)"
      define n where "n = strtoul (drop (?i + 1) s)"
      have close: "?i \<le> close" "close < length s" using find_char_Some [OF Some] by simp_all
      have st: "close < start" "start \<le> length s" using close by (auto simp: a_def b_def start_def)
      have n: "n < 2 ^ 63" using sane_literals_at [OF sane(1) ij(1,2)] by (simp add: n_def)
      have wrap: "(start + n) mod 2 ^ 64 = start + n" using n st sane(2) by simp
      have "\<not> length s \<le> ?i" "CHR ''{'' \<noteq> QUOTE" using ij by simp_all
      then have "readAstring s i = (if length s < (start + n) mod 2 ^ 64 then (None, ?i) else (Some (substr s start n), (start + n) mod 2 ^ 64))"
        unfolding a_def b_def start_def n_def
        by (simp only: readAstring_def Let_def if_False if_True ij(2,3) Some option.case simp_thms)
      then have "readAstring s i = (if length s < start + n then (None, ?i) else (Some (substr s start n), start + n))"
        unfolding wrap .
      then show ?thesis using read skipSpace_ge [of i s] close st by (auto split: if_splits)
    qed
  qed
  then show "i \<le> j" "r \<noteq> None \<Longrightarrow> i < j" by simp_all
qed

lemma fetch_loop_returns:
  assumes sane: "sane_literals line" "length line < 2 ^ 63"
    and item: "\<And>k i st st' j. item k i st = (st', Some j) \<Longrightarrow> i \<le> j"
  shows "\<exists>st'. fetch_loop item line i st = Some st'"
proof (induction "length line - i" arbitrary: i st rule: less_induct)
  case less
  let ?j = "skipSpace line i"
  show ?case
  proof (cases "length line \<le> i \<or> length line \<le> ?j")
    case True
    then show ?thesis by (subst fetch_loop.simps) (simp add: Let_def)
  next
    case False
    have rec: "\<exists>st'. fetch_loop item line m u = Some st'" if "?j < m" for m u
    proof (rule less.hyps)
      show "length line - m < length line - i" using that False skipSpace_ge [of i line] by linarith
    qed
    show ?thesis
    proof (cases "line ! ?j = CHR ''('' \<or> line ! ?j = CHR '')''")
      case True
      then show ?thesis using False rec [of "?j + 1" st] by (subst fetch_loop.simps) (simp add: Let_def)
    next
      case noparen: False
      obtain r k where rk: "readAstring line ?j = (r, k)" by fastforce
      show ?thesis
      proof (cases r)
        case None
        then show ?thesis using False noparen rk by (subst fetch_loop.simps) (simp add: Let_def)
      next
        case (Some key)
        have k: "?j < k" using readAstring_progress(2) [OF sane rk] Some by simp
        obtain st' nx where it: "item (lower key) k st = (st', nx)" by fastforce
        show ?thesis
        proof (cases nx)
          case None
          then show ?thesis using False noparen rk Some it by (subst fetch_loop.simps) (simp add: Let_def)
        next
          case (Some m)
          then have "?j < m" using item [of "lower key" k st st' m] it k by simp
          then show ?thesis
            using False noparen rk \<open>r = Some key\<close> it Some rec [of m st'] by (subst fetch_loop.simps) (simp add: Let_def)
        qed
      qed
    qed
  qed
qed

lemma item_progress:
  assumes sane: "sane_literals line" "length line < 2 ^ 63"
  shows "body_item line k i st = (st', Some j) \<Longrightarrow> i \<le> j" and "meta_item line k i mt = (mt', Some j) \<Longrightarrow> i \<le> j"
proof -
  note prog = readAstring_progress(1) [OF sane, of i]
  show "body_item line k i st = (st', Some j) \<Longrightarrow> i \<le> j"
    by (auto simp: body_item_def dest!: prog split: prod.splits if_splits option.splits)
  have "i \<le> Suc c" if "find_char (CHR '')'') line (skipSpace line i) = Some c" for c
    using find_char_Some(1) [OF that] skipSpace_ge [of i line] by simp
  then show "meta_item line k i mt = (mt', Some j) \<Longrightarrow> i \<le> j"
    by (auto simp: meta_item_def Let_def dest!: prog split: prod.splits if_splits option.splits)
qed

lemma each_fetch_returns: "(\<And>line i. line \<in> set ls \<Longrightarrow> f line i \<noteq> None) \<Longrightarrow> \<exists>xs. each_fetch f ls = Some xs"
proof (induction ls)
  case (Cons l ls)
  obtain xs where xs: "each_fetch f ls = Some xs" using Cons by auto
  show ?case
  proof (cases "fetch_start l")
    case (Some i)
    obtain r where "f l i = Some r" using Cons.prems [of l i] by auto
    then show ?thesis using xs Some by simp
  qed (use xs in simp)
qed simp

text \<open>
  C23: The FETCH parsers return. On any response, however malformed or truncated, in which no
  opening brace is followed by a number that \<open>strtoul\<close> reads as \<open>2 ^ 63\<close> or more (inside the message
  bodies as well), both parsers return a list of messages: no exception and no loop without end.
\<close>

theorem fetch_parsers_return:
  assumes "sane_literals response" and "length response < 2 ^ 62"
  shows "\<exists>bodies metas. parseFetchBodies response = Some (Inr bodies) \<and> parseFetchResponse response = Some (Inr metas)"
proof -
  obtain ls where ls: "splitLines response = Some (Inr ls)" "list_all sane_line ls"
    using lines_from_returns [OF assms] by (auto simp: splitLines_def)
  have "fetch_body line i \<noteq> None \<and> fetch_meta line i \<noteq> None" if sane: "sane_line line" for line i
    using fetch_loop_returns [where item = "body_item line" and line = line] fetch_loop_returns [where item = "meta_item line" and line = line]
      item_progress [of line] sane by (fastforce simp: fetch_body_def fetch_meta_def sane_line_def)
  then have "\<exists>xs. each_fetch fetch_body ls = Some xs" "\<exists>xs. each_fetch fetch_meta ls = Some xs"
    using ls(2) by (auto intro!: each_fetch_returns simp: list_all_iff)
  then show ?thesis using ls(1) by (auto simp: parseFetchBodies_def parseFetchResponse_def fetch_answers_def)
qed

text \<open>A truncated response with a long run of digits in it, a literal that announces more than there is and an unclosed list.\<close>

lemma fetch_parsers_return_witness:
  "\<exists>bodies metas.
    parseFetchBodies (''* 1 FETCH (UID 7 BODY[] {20}'' @ [CR, LF] @ ''12345678901234567890)'' @ [LF] @ ''* 2 FETCH (FLAGS ({99999} x'') = Some (Inr bodies) \<and>
    parseFetchResponse (''* 1 FETCH (UID 7 BODY[] {20}'' @ [CR, LF] @ ''12345678901234567890)'' @ [LF] @ ''* 2 FETCH (FLAGS ({99999} x'') = Some (Inr metas)"
  by (rule fetch_parsers_return)
    (simp_all add: strtoul_def c_str_def scan_sign_def isspace_def isdigit_def parse_digits_def digit_value_def Let_def)

subsection \<open>A literal that goes backwards\<close>

text \<open>
  The response \<open>* 1 FETCH ({-4}\<close>: the announced length is \<open>2 ^ 64 - 4\<close>, the sum wraps and the cursor
  returns to the brace, so the loop reads the same literal for ever.
\<close>

abbreviation hostile :: string where
  "hostile \<equiv> ''* 1 FETCH ({-4}''"

lemma hostile_read: "readAstring hostile 11 = (Some [], 11)"
  by (simp add: readAstring_def skipSpace_def find_char_def strtoul_def c_str_def scan_sign_def isspace_def isdigit_def
      parse_digits_def digit_value_def substr_def Let_def)

lemma hostile_step: "skipSpace hostile 11 = 11" "hostile ! 11 = CHR ''{''" "body_item hostile (lower []) 11 st = (st, Some 11)"
  by (simp_all add: skipSpace_def body_item_def hostile_read split: prod.splits)

lemma hostile_loop: "fetch_loop item line i st = Some y \<Longrightarrow> \<not> (item = body_item hostile \<and> line = hostile \<and> i = 11)"
proof (rule fetch_loop.raw_induct [where P = "\<lambda>item line i st y. \<not> (item = body_item hostile \<and> line = hostile \<and> i = 11)"])
  fix f :: "(string \<Rightarrow> nat \<Rightarrow> fetched_body \<times> bool \<times> bool \<Rightarrow> (fetched_body \<times> bool \<times> bool) \<times> nat option) \<Rightarrow>
    string \<Rightarrow> nat \<Rightarrow> fetched_body \<times> bool \<times> bool \<Rightarrow> (fetched_body \<times> bool \<times> bool) option"
    and item line i st y
  assume IH: "\<And>item line i st y. f item line i st = Some y \<Longrightarrow> \<not> (item = body_item hostile \<and> line = hostile \<and> i = 11)"
    and eq: "(let j = skipSpace line i
      in if length line \<le> i \<or> length line \<le> j then Some st
         else if line ! j = CHR ''('' \<or> line ! j = CHR '')'' then f item line (j + 1) st
         else case readAstring line j of (None, x) \<Rightarrow> Some st
              | (Some key, x) \<Rightarrow> (case item (lower key) x st of (st', None) \<Rightarrow> Some st' | (st', Some next_i) \<Rightarrow> f item line next_i st')) = Some y"
  show "\<not> (item = body_item hostile \<and> line = hostile \<and> i = 11)"
  proof
    assume h: "item = body_item hostile \<and> line = hostile \<and> i = 11"
    have "f (body_item hostile) hostile 11 st = Some y"
      using eq h unfolding Let_def by (simp only: hostile_step hostile_read prod.case option.case) simp
    then show False using IH by blast
  qed
qed

text \<open>
  C24: A hostile server stops the migration. On the one-line response \<open>* 1 FETCH ({-4}\<close> the parser of
  message bodies never returns: the literal's length, read with \<open>strtoul\<close>, wraps to \<open>2 ^ 64 - 4\<close> and
  the unchecked sum with the cursor wraps back to the brace.
\<close>

theorem hostile_literal_hangs: "parseFetchBodies hostile = None"
proof -
  have "line_end hostile 0 = 15" by (simp add: line_end_def find_char_def)
  moreover have "literal_length hostile = None"
    by (simp add: literal_length_def rfind_char_def substr_def isdigit_def)
  ultimately have "lines_from hostile 0 = Some (Inr [hostile])"
    by (subst lines_from.simps) (subst join_literals.simps, subst lines_from.simps, simp add: Let_def substr_def chomp_def)
  then have split: "splitLines hostile = Some (Inr [hostile])" by (simp add: splitLines_def)
  have start: "fetch_start hostile = Some 10"
  proof -
    have "lower hostile = ''* 1 fetch ({-4}''" by code_simp
    then show ?thesis by (simp add: fetch_start_def find_str_def find_prefix.simps)
  qed
  have "skipSpace hostile 10 = 10" "hostile ! 10 = CHR ''(''" by (simp_all add: skipSpace_def)
  then have "fetch_loop (body_item hostile) hostile 10 st = fetch_loop (body_item hostile) hostile 11 st" for st
    by (subst fetch_loop.simps) (simp add: Let_def)
  moreover have "fetch_loop (body_item hostile) hostile 11 st = None" for st
    using hostile_loop by (metis option.exhaust)
  ultimately show ?thesis by (simp add: parseFetchBodies_def fetch_answers_def split start fetch_body_def)
qed

end
