(* ===== verification/Imap_Client.thy ===== *)
theory Imap_Client
  imports Imap_Fetch Mime_Base64
begin

section \<open>The IMAP client (src/imap/imap_client.cpp)\<close>

text \<open>
  The commands the client issues and what it makes of the answers. The transport is an interface in
  the code and a record of two operations here, over a state \<open>'t\<close> of its own. \<open>CurlTransport\<close>
  implements it with libcurl, which is not part of the repository: \<open>perform\<close> takes the options the
  code sets and returns \<open>curl_easy_perform\<close>'s error text, if any, and what was received; \<open>sleep\<close>
  is the clock.
\<close>

record 't transport =
  tr_command :: "string \<Rightarrow> string \<Rightarrow> ('t, string) prog"
  tr_fetchBody :: "string \<Rightarrow> 32 word \<Rightarrow> ('t, string) prog"

subsection \<open>URLs\<close>

text \<open>The characters of a mailbox name that go into the URL as they are; \<open>strchr\<close> also finds the NUL.\<close>

definition url_safe :: "char \<Rightarrow> bool" where
  "url_safe c \<longleftrightarrow>
     (let v = (of_char c :: nat) in (65 \<le> v \<and> v \<le> 90) \<or> (97 \<le> v \<and> v \<le> 122) \<or> (48 \<le> v \<and> v \<le> 57)) \<or>
     c = NUL \<or> c \<in> set (''-._~!$&'' @ CHR 0x27 # ''()*+,=:@'')"

definition urlEscapePath :: "string \<Rightarrow> string" where
  "urlEscapePath s =
     concat (map (\<lambda>c. if url_safe c then [c]
       else [CHR ''%'', hex_digit (of_char c div 16), hex_digit (of_char c mod 16)]) s)"

record imap_config =
  cf_host :: string
  cf_port :: int
  cf_use_tls :: bool
  cf_verify_peer :: bool
  cf_username :: string
  cf_password :: string
  cf_oauth2_bearer :: string
  cf_timeout_seconds :: int
  cf_verbose :: bool
  cf_retry_attempts :: int
  cf_retry_backoff_ms :: int

text \<open>What the constructor makes of the configuration.\<close>

definition default_port :: "imap_config \<Rightarrow> imap_config" where
  "default_port cf = (if cf_port cf = 0 then cf\<lparr>cf_port := (if cf_use_tls cf then 993 else 143)\<rparr> else cf)"

definition int_string :: "int \<Rightarrow> string" where
  "int_string i = (if i < 0 then CHR ''-'' # to_string (nat (- i)) else to_string (nat i))"

definition url :: "imap_config \<Rightarrow> string \<Rightarrow> string \<Rightarrow> string" where
  "url cf mailbox rest =
     (if cf_use_tls cf then ''imaps://'' else ''imap://'') @ cf_host cf @ '':'' @ int_string (cf_port cf) @ ''/'' @
     (if mailbox \<noteq> [] then urlEscapePath mailbox else []) @ rest"

subsection \<open>Requests\<close>

text \<open>The options of one request; those the code leaves alone are \<open>None\<close>.\<close>

record curl_request =
  cr_url :: string
  cr_timeout :: int
  cr_verbose :: bool
  cr_username :: "string option"
  cr_bearer :: "string option"
  cr_password :: "string option"
  cr_verify_peer :: "bool option"
  cr_try_starttls :: bool
  cr_custom_request :: "string option"

definition curl_options :: "imap_config \<Rightarrow> string \<Rightarrow> string \<Rightarrow> curl_request" where
  "curl_options cf u custom_request =
     \<lparr>cr_url = c_str u, cr_timeout = cf_timeout_seconds cf, cr_verbose = cf_verbose cf,
      cr_username = (if cf_username cf \<noteq> [] then Some (c_str (cf_username cf)) else None),
      cr_bearer = (if cf_oauth2_bearer cf \<noteq> [] then Some (c_str (cf_oauth2_bearer cf)) else None),
      cr_password = (if cf_oauth2_bearer cf = [] \<and> cf_password cf \<noteq> [] then Some (c_str (cf_password cf)) else None),
      cr_verify_peer = (if cf_use_tls cf then Some (cf_verify_peer cf) else None),
      cr_try_starttls = (\<not> cf_use_tls cf),
      cr_custom_request = (if custom_request \<noteq> [] then Some (c_str custom_request) else None)\<rparr>"

type_synonym 't curl = "curl_request \<Rightarrow> ('t, string option \<times> string) prog"

definition curl_run :: "'t curl \<Rightarrow> imap_config \<Rightarrow> string \<Rightarrow> string \<Rightarrow> ('t, string) prog" where
  "curl_run perform cf u custom_request =
     bindM (perform (curl_options cf u custom_request)) (\<lambda>(failure, body).
       case failure of
         None \<Rightarrow> ret body
       | Some message \<Rightarrow>
           throw (ImapError (''IMAP request failed: '' @ message @ '' ('' @ u @
             (if custom_request = [] then [] else '' / '' @ custom_request) @ '')'')))"

text \<open>
  The retries that are left after an attempt, and the pause, which doubles. It is a \<open>long\<close> in the
  code; with the configured half second it would need more than fifty retries to overflow.
\<close>

primrec retry_from :: "(int \<Rightarrow> ('t, unit) prog) \<Rightarrow> ('t, string) prog \<Rightarrow> nat \<Rightarrow> int \<Rightarrow> ('t, string) prog" where
  "retry_from sleep fn 0 backoff = fn"
| "retry_from sleep fn (Suc left) backoff = (\<lambda>s.
     case fn s of
       Some (Inl (ImapError e), s') \<Rightarrow> bindM (sleep backoff) (\<lambda>_. retry_from sleep fn left (2 * backoff)) s'
     | r \<Rightarrow> r)"

definition withRetries :: "(int \<Rightarrow> ('t, unit) prog) \<Rightarrow> imap_config \<Rightarrow> ('t, string) prog \<Rightarrow> ('t, string) prog" where
  "withRetries sleep cf fn =
     (let attempts = (if cf_retry_attempts cf < 1 then 1 else cf_retry_attempts cf)
      in retry_from sleep fn (nat (attempts - 1)) (cf_retry_backoff_ms cf))"

definition curl_transport :: "'t curl \<Rightarrow> (int \<Rightarrow> ('t, unit) prog) \<Rightarrow> imap_config \<Rightarrow> 't transport" where
  "curl_transport perform sleep config =
     (let cf = default_port config in
      \<lparr>tr_command = (\<lambda>mailbox command_line. withRetries sleep cf (curl_run perform cf (url cf mailbox []) command_line)),
       tr_fetchBody = (\<lambda>mailbox uid. withRetries sleep cf (curl_run perform cf (url cf mailbox ('';UID='' @ to_string (unat uid))) []))\<rparr>)"

subsection \<open>The client\<close>

text \<open>A parser's result inside the client.\<close>

definition parsed :: "(error + 'a) option \<Rightarrow> ('t, 'a) prog" where
  "parsed r = (\<lambda>s. map_option (\<lambda>x. (x, s)) r)"

definition listFolders :: "'t transport \<Rightarrow> ('t, folder_info list) prog" where
  "listFolders tr =
     bindM (tr_command tr [] (''LIST '' @ [QUOTE, QUOTE] @ '' '' @ [QUOTE] @ ''*'' @ [QUOTE])) (\<lambda>response.
     parsed (parseListResponse response))"

definition listMessages :: "'t transport \<Rightarrow> string \<Rightarrow> ('t, message_meta list) prog" where
  "listMessages tr mailbox =
     bindM (tr_command tr mailbox ''UID FETCH 1:* (FLAGS INTERNALDATE RFC822.SIZE)'') (\<lambda>response.
     parsed (parseFetchResponse response))"

text \<open>A message with what the list of messages said of it, and its octets.\<close>

definition raw_of :: "message_meta \<Rightarrow> string \<Rightarrow> raw_message" where
  "raw_of m body = \<lparr>rm_uid = mm_uid m, rm_flags = mm_flags m, rm_keywords = mm_keywords m,
     rm_internal_date = mm_internal_date m, rfc822 = body\<rparr>"

definition fetchMessage :: "'t transport \<Rightarrow> string \<Rightarrow> message_meta \<Rightarrow> ('t, raw_message) prog" where
  "fetchMessage tr mailbox m = bindM (tr_fetchBody tr mailbox (mm_uid m)) (\<lambda>body. ret (raw_of m body))"

text \<open>
  The bodies go into a map by UID, the last answer winning, and are moved out of it: a UID asked for
  twice finds the moved-from string, empty, the second time.
\<close>

definition body_map :: "fetched_body list \<Rightarrow> 32 word \<Rightarrow> string option" where
  "body_map bs = fold (\<lambda>b m. m(fb_uid b \<mapsto> fb_rfc822 b)) bs (\<lambda>_. None)"

primrec assign_bodies :: "(32 word \<Rightarrow> string option) \<Rightarrow> message_meta list \<Rightarrow> raw_message list" where
  "assign_bodies bodies [] = []"
| "assign_bodies bodies (m # ms) =
     (case bodies (mm_uid m) of
        None \<Rightarrow> raw_of m [] # assign_bodies bodies ms
      | Some body \<Rightarrow> raw_of m body # assign_bodies (bodies(mm_uid m \<mapsto> [])) ms)"

definition fetchMessages :: "'t transport \<Rightarrow> string \<Rightarrow> message_meta list \<Rightarrow> ('t, raw_message list) prog" where
  "fetchMessages tr mailbox metas =
     (if metas = [] then ret []
      else
        let uids = sort (map mm_uid metas) in
        bindM (tr_command tr mailbox (''UID FETCH '' @ uidSet uids @ '' (UID BODY.PEEK[])'')) (\<lambda>response.
        bindM (parsed (parseFetchBodies response)) (\<lambda>bodies.
        ret (assign_bodies (body_map bodies) metas))))"

definition fetchFolder :: "'t transport \<Rightarrow> string \<Rightarrow> ('t, raw_message list) prog" where
  "fetchFolder tr mailbox = bindM (listMessages tr mailbox) (mapM (fetchMessage tr mailbox))"

subsection \<open>URLs decode to the mailbox they name\<close>

text \<open>The decoder of RFC 3986.\<close>

fun url_unescape :: "string \<Rightarrow> string" where
  "url_unescape [] = []"
| "url_unescape (c # r) =
     (if c = CHR ''%'' \<and> 2 \<le> length r
      then char_of (nat (16 * hexValue (r ! 0) + hexValue (r ! 1))) # url_unescape (drop 2 r)
      else c # url_unescape r)"

lemma hex_digits_safe: "i < 16 \<Longrightarrow> url_safe (hex_digit i)"
proof -
  have "list_all (\<lambda>i. url_safe (hex_digit i)) [0..<16]" by code_simp
  then show "i < 16 \<Longrightarrow> url_safe (hex_digit i)" by (simp add: list_all_iff)
qed

lemma of_char_256: "(of_char c :: nat) < 256"
proof -
  have "(of_char c :: nat) = unat (byte_of c)" by (simp add: unat_byte_of)
  then show ?thesis using unsigned_less [of "byte_of c", where ?'a = nat] by simp
qed

lemma unescape_path: "url_unescape (urlEscapePath s) = s"
proof (induction s)
  case (Cons c s)
  let ?v = "of_char c :: nat"
  have v: "?v div 16 < 16" "?v mod 16 < 16" using of_char_256 [of c] by (simp_all add: div_less_iff_less_mult)
  have p: "\<not> url_safe CHR ''%''" by code_simp
  show ?case
  proof (cases "url_safe c")
    case True
    then have "c \<noteq> CHR ''%''" using p by auto
    then show ?thesis using Cons True by (simp add: urlEscapePath_def)
  next
    case False
    have "nat (16 * int (?v div 16) + int (?v mod 16)) = ?v"
      by (metis mult_div_mod_eq nat_int of_nat_add of_nat_mult of_nat_numeral)
    then show ?thesis using Cons False hexValue_digit [OF v(1)] hexValue_digit [OF v(2)]
      by (simp add: urlEscapePath_def)
  qed
qed (simp add: urlEscapePath_def)

lemma escaped_path_chars: "c \<in> set (urlEscapePath s) \<Longrightarrow> url_safe c \<or> c = CHR ''%''"
  using hex_digits_safe of_char_256 by (auto simp: urlEscapePath_def div_less_iff_less_mult split: if_splits)

subsection \<open>Retries\<close>

text \<open>\<open>n\<close> attempts that fail with an IMAP error, each followed by its pause.\<close>

inductive failing_run :: "('t, string) prog \<Rightarrow> (int \<Rightarrow> ('t, unit) prog) \<Rightarrow> nat \<Rightarrow> int \<Rightarrow> 't \<Rightarrow> 't \<Rightarrow> bool"
  for fn sleep where
  none: "failing_run fn sleep 0 b s s"
| again: "fn s = Some (Inl (ImapError e), s1) \<Longrightarrow> sleep b s1 = Some (Inr (), s2) \<Longrightarrow>
    failing_run fn sleep n (2 * b) s2 s3 \<Longrightarrow> failing_run fn sleep (Suc n) b s s3"

lemma retry_from_run:
  "failing_run fn sleep n b s s' \<Longrightarrow> n \<le> left \<Longrightarrow> fn s' = Some (Inr body, t) \<Longrightarrow>
    retry_from sleep fn left b s = Some (Inr body, t)"
proof (induction arbitrary: left rule: failing_run.induct)
  case (none b s)
  then show ?case by (cases left) simp_all
next
  case (again s e s1 b s2 n s3)
  then obtain m where "left = Suc m" "n \<le> m" by (cases left) auto
  then show ?case using again by (simp add: bindM_def)
qed

subsection \<open>Bodies go to the messages they belong to\<close>

lemma assign_bodies_distinct:
  "distinct (map mm_uid ms) \<Longrightarrow>
    assign_bodies bodies ms = map (\<lambda>m. raw_of m (case bodies (mm_uid m) of None \<Rightarrow> [] | Some b \<Rightarrow> b)) ms"
proof (induction ms arbitrary: bodies)
  case (Cons m ms)
  have "map (\<lambda>n. raw_of n (case (bodies(mm_uid m \<mapsto> [])) (mm_uid n) of None \<Rightarrow> [] | Some b \<Rightarrow> b)) ms =
      map (\<lambda>n. raw_of n (case bodies (mm_uid n) of None \<Rightarrow> [] | Some b \<Rightarrow> b)) ms"
    using Cons.prems by (intro map_cong) (auto simp: image_iff)
  then show ?case using Cons by (simp split: option.split)
qed simp

lemma body_map_of: "body_map bs = map_of (rev (map (\<lambda>b. (fb_uid b, fb_rfc822 b)) bs))"
proof -
  have "fold (\<lambda>b m. m(fb_uid b \<mapsto> fb_rfc822 b)) bs m = m ++ map_of (rev (map (\<lambda>b. (fb_uid b, fb_rfc822 b)) bs))" for m
    by (induction bs arbitrary: m) (simp_all add: map_add_def fun_eq_iff split: option.splits)
  then show ?thesis by (simp add: body_map_def)
qed

lemma fetchMessages_answered:
  assumes "distinct (map mm_uid metas)" "metas \<noteq> []"
    and "tr_command tr mailbox (''UID FETCH '' @ uidSet (sort (map mm_uid metas)) @ '' (UID BODY.PEEK[])'') s =
      Some (Inr (concat (map fetch_answer as)), s')"
    and "length (concat (map fetch_answer as)) < 2 ^ 63"
  shows "fetchMessages tr mailbox metas s = Some (Inr (map (\<lambda>m. raw_of m
    (case map_of (rev (map snd as)) (mm_uid m) of None \<Rightarrow> [] | Some body \<Rightarrow> body)) metas), s')"
proof -
  have "map (\<lambda>b. (fb_uid b, fb_rfc822 b)) (map (\<lambda>(n, uid, body). \<lparr>fb_uid = uid, fb_rfc822 = body\<rparr>) as) = map snd as"
    by (auto simp: comp_def split_beta)
  then have "body_map (map (\<lambda>(n, uid, body). \<lparr>fb_uid = uid, fb_rfc822 = body\<rparr>) as) = map_of (rev (map snd as))"
    by (simp only: body_map_of)
  then show ?thesis
    using assms fetch_bodies_back [OF assms(4)]
    by (simp add: fetchMessages_def bindM_def parsed_def ret_def assign_bodies_distinct)
qed

subsection \<open>Properties\<close>

text \<open>
  The path of a mailbox in the URL decodes to exactly the mailbox name the server gave, and holds
  none of the characters that would end the path or start a parameter.
\<close>

theorem urlEscapePath_roundtrip:
  "url_unescape (urlEscapePath s) = s \<and>
    set (urlEscapePath s) \<inter> set ''/;?# %'' \<subseteq> {CHR ''%''}"
proof -
  have "list_all (\<lambda>c. c = CHR ''%'' \<or> \<not> url_safe c) ''/;?# %''" by code_simp
  then show ?thesis using unescape_path [of s] escaped_path_chars [of _ s] by (auto simp: list_all_iff)
qed

text \<open>
  A request that fails fewer times than the configured attempts, but at least one is always
  allowed, returns what the first successful attempt returned, the pauses doubling in between.
\<close>

theorem withRetries_recovers:
  assumes "failing_run fn sleep n (cf_retry_backoff_ms cf) s s'"
    and "int n < max 1 (cf_retry_attempts cf)" and "fn s' = Some (Inr body, t)"
  shows "withRetries sleep cf fn s = Some (Inr body, t)"
  using retry_from_run [OF assms(1) _ assms(3), of "nat (max 1 (cf_retry_attempts cf) - 1)"] assms(2)
  by (simp add: withRetries_def max_def split: if_splits)

text \<open>A server that fails twice, counting the attempts, with a clock that adds the pauses up.\<close>

definition counting_config :: imap_config where
  "counting_config =
     \<lparr>cf_host = ''h'', cf_port = 0, cf_use_tls = True, cf_verify_peer = True, cf_username = [], cf_password = [],
      cf_oauth2_bearer = [], cf_timeout_seconds = 120, cf_verbose = False, cf_retry_attempts = 3, cf_retry_backoff_ms = 500\<rparr>"

definition counting_server :: "(nat \<times> int, string) prog" where
  "counting_server st = (if fst st < 2 then Some (Inl (ImapError ''down''), (fst st + 1, snd st)) else Some (Inr ''ok'', st))"

definition counting_clock :: "int \<Rightarrow> (nat \<times> int, unit) prog" where
  "counting_clock ms st = Some (Inr (), (fst st, snd st + ms))"

lemma withRetries_recovers_witness:
  "withRetries counting_clock counting_config counting_server (0, 0) = Some (Inr ''ok'', (2, 1500))"
proof (rule withRetries_recovers)
  have "failing_run counting_server counting_clock 0 2000 (2, 1500) (2, 1500)" by (rule failing_run.none)
  then have "failing_run counting_server counting_clock (Suc 0) 1000 (1, 500) (2, 1500)"
    by (intro failing_run.again [where s = "(1, 500)" and ?s1.0 = "(2, 500)" and ?s2.0 = "(2, 1500)" and e = "''down''"])
      (simp_all add: counting_server_def counting_clock_def)
  then have "failing_run counting_server counting_clock (Suc (Suc 0)) 500 (0, 0) (2, 1500)"
    by (intro failing_run.again [where s = "(0, 0)" and ?s1.0 = "(1, 0)" and ?s2.0 = "(1, 500)" and e = "''down''"])
      (simp_all add: counting_server_def counting_clock_def)
  then show "failing_run counting_server counting_clock (Suc (Suc 0)) (cf_retry_backoff_ms counting_config) (0, 0) (2, 1500)"
    by (simp add: counting_config_def)
qed (simp_all add: counting_config_def counting_server_def)

text \<open>
  C36: When the server answers a batch request for distinct messages, every message of the batch gets,
  at its own place and with its own flags, keywords and date, the octets the server sent under its
  UID, whatever order the answers come in and whatever the octets hold; one the server left out is empty.
\<close>

theorem fetchMessages_aligned:
  assumes "distinct (map mm_uid metas)" "metas \<noteq> []"
    and "tr_command tr mailbox (''UID FETCH '' @ uidSet (sort (map mm_uid metas)) @ '' (UID BODY.PEEK[])'') s =
      Some (Inr (concat (map fetch_answer as)), s')"
    and "length (concat (map fetch_answer as)) < 2 ^ 63"
  shows "fetchMessages tr mailbox metas s = Some (Inr (map (\<lambda>m. raw_of m
    (case map_of (rev (map snd as)) (mm_uid m) of None \<Rightarrow> [] | Some body \<Rightarrow> body)) metas), s')"
  by (rule fetchMessages_answered [OF assms])

definition answering :: "string \<Rightarrow> unit transport" where
  "answering response = \<lparr>tr_command = (\<lambda>_ _. ret response), tr_fetchBody = (\<lambda>_ _. ret [])\<rparr>"

definition plain_meta :: "32 word \<Rightarrow> message_meta" where
  "plain_meta uid = \<lparr>mm_uid = uid, mm_flags = 1, mm_keywords = [], mm_internal_date = 5, mm_size = 9\<rparr>"

lemma fetchMessages_aligned_witness:
  "fetchMessages (answering (concat (map fetch_answer [(2, 9, '') FLAGS (''), (1, 7, ''b'')]))) ''INBOX'' [plain_meta 7, plain_meta 8, plain_meta 9] () =
    Some (Inr [raw_of (plain_meta 7) ''b'', raw_of (plain_meta 8) [], raw_of (plain_meta 9) '') FLAGS ('' ], ())"
  using fetchMessages_aligned [of "[plain_meta 7, plain_meta 8, plain_meta 9]"
      "answering (concat (map fetch_answer [(2, 9, '') FLAGS (''), (1, 7, ''b'')]))" "''INBOX''" "()" "[(2, 9, '') FLAGS (''), (1, 7, ''b'')]" "()"]
  by (simp add: answering_def ret_def plain_meta_def fetch_answer_def answer_line_def answer_head_def to_string.simps)

end
