(* ===== verification/Pipeline.thy ===== *)
theory Pipeline
  imports Pst_Writer Message_Builder Imap_Client "HOL-Library.List_Lexorder" "HOL-Library.Product_Lexorder"
begin

section \<open>The migration (src/pipeline/pipeline.h, src/pipeline/pipeline.cpp)\<close>

text \<open>
  IMAP to MIME to PST. The folders the server lists are created under the subtree, parents first,
  and their messages are fetched in batches, from the spool where it has them, parsed and written;
  what cannot be fetched, parsed or written is counted and named. The transport, ICU, the clock and
  the devices that may refuse a write are arguments.
\<close>

subsection \<open>Data\<close>

record options =
  op_output_path :: string
  op_folders :: "string list"
  op_verbose :: bool
  op_batch_size :: nat
  op_batch_bytes :: nat
  op_spool_dir :: string
  op_progress_every :: nat

definition default_options :: options where
  "default_options = \<lparr>op_output_path = [], op_folders = [], op_verbose = False, op_batch_size = 50,
     op_batch_bytes = 32 * 1024 * 1024, op_spool_dir = [], op_progress_every = 100\<rparr>"

record failed_message =
  fm_folder :: string
  fm_uid :: "32 word"
  fm_reason :: string

record stats =
  sx_folders :: nat
  sx_messages :: nat
  sx_attachments :: nat
  sx_failed_messages :: nat
  sx_fetched_bytes :: nat
  sx_reused_messages :: nat
  sx_failed_uids :: "failed_message list"

definition no_stats :: stats where
  "no_stats = \<lparr>sx_folders = 0, sx_messages = 0, sx_attachments = 0, sx_failed_messages = 0, sx_fetched_bytes = 0,
     sx_reused_messages = 0, sx_failed_uids = []\<rparr>"

text \<open>\<open>e.what()\<close>.\<close>

primrec what :: "error \<Rightarrow> string" where
  "what (PstError m) = m"
| "what (ImapError m) = m"
| "what (StdError m) = m"

text \<open>
  What the run finds around it: the server and ICU; whether a log is wanted; the rate to show after
  so many messages, \<open>None\<close> when no time has passed; how many octets of a file reach the disk, \<open>None\<close>
  when it cannot be opened; the error of creating a directory, if any; and what the writer takes.
\<close>

record 't env =
  en_server :: "'t transport"
  en_icu :: icu
  en_logging :: bool
  en_rate :: "nat \<Rightarrow> nat option"
  en_disk :: "string \<Rightarrow> string \<Rightarrow> nat option"
  en_mkdir :: "string \<Rightarrow> string option"
  en_opens :: bool
  en_accepts :: "nat \<Rightarrow> nat \<Rightarrow> bool"
  en_random :: "nat \<Rightarrow> 32 word"
  en_clock :: "nat \<Rightarrow> int"

text \<open>The world a run changes: the server's side, the files, the log; and the local variables of \<open>run\<close>.\<close>

record 't world =
  wd_net :: 't
  wd_files :: "string \<rightharpoonup> string"
  wd_log :: "string list"

record 't migration = "'t world" +
  mi_writer :: pst
  mi_by_path :: "string \<rightharpoonup> nid"
  mi_total :: nat
  mi_stats :: stats

definition on_net :: "('t, 'a) prog \<Rightarrow> (('t, 'x) world_scheme, 'a) prog" where
  "on_net = zoomM wd_net (\<lambda>t s. s\<lparr>wd_net := t\<rparr>)"

definition on_writer :: "(pst, 'a) prog \<Rightarrow> ('t migration, 'a) prog" where
  "on_writer = zoomM mi_writer (\<lambda>w s. s\<lparr>mi_writer := w\<rparr>)"

definition report :: "'t env \<Rightarrow> string \<Rightarrow> (('t, 'x) world_scheme, unit) prog" where
  "report env msg = modM (\<lambda>s. if en_logging env then s\<lparr>wd_log := wd_log s @ [msg]\<rparr> else s)"

definition upd_stats :: "(stats \<Rightarrow> stats) \<Rightarrow> ('t migration, unit) prog" where
  "upd_stats f = modM (\<lambda>s. s\<lparr>mi_stats := f (mi_stats s)\<rparr>)"

text \<open>\<open>try { m } catch (const E& e) { h }\<close>: the exceptions that \<open>catches\<close> are handled.\<close>

definition try_catch :: "(error \<Rightarrow> bool) \<Rightarrow> ('s, 'a) prog \<Rightarrow> (error \<Rightarrow> ('s, 'a) prog) \<Rightarrow> ('s, 'a) prog" where
  "try_catch catches m h s =
     (case m s of
        None \<Rightarrow> None
      | Some (Inr a, s') \<Rightarrow> Some (Inr a, s')
      | Some (Inl e, s') \<Rightarrow> if catches e then h e s' else Some (Inl e, s'))"

definition is_imap_error :: "error \<Rightarrow> bool" where
  "is_imap_error e = (case e of ImapError _ \<Rightarrow> True | _ \<Rightarrow> False)"

subsection \<open>The spool\<close>

definition fnv1a :: "string \<Rightarrow> 64 word" where
  "fnv1a s = fold (\<lambda>c h. (h XOR ucast (byte_of c)) * 1099511628211) s 1469598103934665603"

definition pad_left :: "nat \<Rightarrow> string \<Rightarrow> string" where
  "pad_left n s = replicate (n - length s) (CHR ''0'') @ s"

definition lower_hex :: "nat \<Rightarrow> char" where
  "lower_hex d = char_of (if d < 10 then 48 + d else 87 + d)"

text \<open>\<open>%016llx-%010u.eml\<close>.\<close>

definition spool_name :: "string \<Rightarrow> 32 word \<Rightarrow> string" where
  "spool_name folder uid =
     map (\<lambda>i. lower_hex (unat (drop_bit (60 - 4 * i) (fnv1a folder) AND 0xF))) [0..<16] @ ''-'' @
     pad_left 10 (to_string (unat uid)) @ ''.eml''"

definition spoolPath :: "string \<Rightarrow> string \<Rightarrow> 32 word \<Rightarrow> string" where
  "spoolPath dir folder uid = dir @ (if dir = [] \<or> last dir = CHR ''/'' then [] else ''/'') @ spool_name folder uid"

definition readFile :: "string \<Rightarrow> (('t, 'x) world_scheme, string) prog" where
  "readFile p = getM (\<lambda>s. case wd_files s p of None \<Rightarrow> [] | Some d \<Rightarrow> d)"

text \<open>The result says whether the write succeeded; its caller does not look at it.\<close>

definition writeFile :: "'t env \<Rightarrow> string \<Rightarrow> string \<Rightarrow> (('t, 'x) world_scheme, bool) prog" where
  "writeFile env p d s =
     (case en_disk env p d of
        None \<Rightarrow> Some (Inr False, s)
      | Some n \<Rightarrow> Some (Inr (length d \<le> n), s\<lparr>wd_files := (wd_files s)(p \<mapsto> take n d)\<rparr>))"

subsection \<open>Progress\<close>

text \<open>
  \<open>static_cast<double>(n)\<close>: the nearest number with 53 significant bits, ties to even. Dividing a
  double of this size by 1024 is exact, and \<open>printf\<close> rounds the exact value, ties to even.
\<close>

definition round_div :: "nat \<Rightarrow> nat \<Rightarrow> nat" where
  "round_div a b =
     (let q = a div b; r = a mod b in if b < 2 * r \<or> (2 * r = b \<and> odd q) then q + 1 else q)"

function to_double :: "nat \<Rightarrow> nat \<Rightarrow> nat" where
  "to_double e n = (if n div 2 ^ e < 2 ^ 53 \<or> 64 \<le> e then round_div n (2 ^ e) * 2 ^ e else to_double (Suc e) n)"
  by auto
termination by (relation "measure (\<lambda>(e, n). 64 - e)") auto

declare to_double.simps [simp del]

definition kUnits :: "string list" where
  "kUnits = [''B'', ''KB'', ''MB'', ''GB'']"

function unit_index :: "nat \<Rightarrow> nat \<Rightarrow> nat" where
  "unit_index v u = (if 3 \<le> u \<or> v < 1024 * 1024 ^ u then u else unit_index v (Suc u))"
  by auto
termination by (relation "measure (\<lambda>(v, u). 3 - u)") auto

declare unit_index.simps [simp del]

definition humanBytes :: "nat \<Rightarrow> string" where
  "humanBytes n =
     (let v = to_double 0 n; u = unit_index v 0; d = 1024 ^ u in
      (if v < 10 * d then (let t = round_div (10 * v) d in to_string (t div 10) @ ''.'' @ to_string (t mod 10))
       else to_string (round_div v d)) @ '' '' @ kUnits ! u)"

definition progress_line :: "'t env \<Rightarrow> stats \<Rightarrow> nat \<Rightarrow> string" where
  "progress_line env st total_messages =
     ''  '' @ to_string (sx_messages st) @ ''/'' @ to_string total_messages @ '' message(s), '' @
     humanBytes (sx_fetched_bytes st) @ '' fetched'' @
     (case en_rate env (sx_messages st) of None \<Rightarrow> [] | Some r \<Rightarrow> '', '' @ to_string r @ ''/s'')"

subsection \<open>Folders\<close>

definition wants :: "string \<Rightarrow> folder_info \<Rightarrow> bool" where
  "wants name f \<longleftrightarrow> full_name f = name \<or> raw_name f = name"

definition select_folders :: "'t env \<Rightarrow> options \<Rightarrow> folder_info list \<Rightarrow> (('t, 'x) world_scheme, folder_info list) prog" where
  "select_folders env opts fs =
     (if op_folders opts = [] then ret fs
      else
        let filtered = filter (\<lambda>f. full_name f \<in> set (op_folders opts) \<or> raw_name f \<in> set (op_folders opts)) fs in
        bindM (forM (\<lambda>want. if list_ex (wants want) filtered then ret ()
                            else report env (''warning: folder not found on server: '' @ want)) (op_folders opts)) (\<lambda>_.
        ret filtered))"

definition folder_order :: "folder_info \<Rightarrow> nat \<times> nat list" where
  "folder_order f = (length (folder_path f), map of_char (full_name f))"

definition UNIT_SEP :: char where
  "UNIT_SEP = CHR 0x1F"

text \<open>\<open>folder_for\<close>: the components of a path, from a parent and the prefix read.\<close>

primrec folder_for_from :: "nid \<Rightarrow> string \<Rightarrow> string list \<Rightarrow> ('t migration, nid) prog" where
  "folder_for_from parent pre [] = ret parent"
| "folder_for_from parent pre (part # path) =
     (let pre' = (if pre \<noteq> [] then pre @ [UNIT_SEP] else pre) @ part in
      bindM (getM (\<lambda>s. mi_by_path s pre')) (\<lambda>it. case it of
        Some n \<Rightarrow> folder_for_from n pre' path
      | None \<Rightarrow>
          bindM (on_writer (createFolder parent part)) (\<lambda>n.
          bindM (modM (\<lambda>s. s\<lparr>mi_by_path := (mi_by_path s)(pre' \<mapsto> n)\<rparr>)) (\<lambda>_.
          folder_for_from n pre' path))))"

definition folder_for :: "string list \<Rightarrow> ('t migration, nid) prog" where
  "folder_for path = bindM (getM (\<lambda>s. pw_ipm_subtree (mi_writer s))) (\<lambda>parent. folder_for_from parent [] path)"

subsection \<open>Batches\<close>

text \<open>The batch that starts the list; \<open>k\<close> messages and \<open>bytes\<close> octets are in it already.\<close>

fun take_batch :: "options \<Rightarrow> nat \<Rightarrow> nat \<Rightarrow> message_meta list \<Rightarrow> message_meta list" where
  "take_batch opts k bytes [] = []"
| "take_batch opts k bytes (m # ms) =
     (if op_batch_size opts \<le> k then []
      else if k \<noteq> 0 \<and> bytes + unat (mm_size m) > op_batch_bytes opts then []
      else m # take_batch opts (k + 1) (bytes + unat (mm_size m)) ms)"

text \<open>A message of the batch while it is being collected: its source, and whether it is already counted as failed.\<close>

record slot =
  sl_meta :: message_meta
  sl_raw :: raw_message
  sl_accounted :: bool
  sl_wanted :: bool

definition no_raw :: raw_message where
  "no_raw = \<lparr>rm_uid = 0, rm_flags = 0, rm_keywords = [], rm_internal_date = 0, rfc822 = []\<rparr>"

definition from_spool :: "options \<Rightarrow> folder_info \<Rightarrow> message_meta \<Rightarrow> ('t migration, slot) prog" where
  "from_spool opts folder m =
     (let fresh = \<lparr>sl_meta = m, sl_raw = no_raw, sl_accounted = False, sl_wanted = True\<rparr> in
      if op_spool_dir opts = [] then ret fresh
      else
        bindM (readFile (spoolPath (op_spool_dir opts) (full_name folder) (mm_uid m))) (\<lambda>cached.
        if cached = [] then ret fresh
        else
          bindM (upd_stats (\<lambda>st. st\<lparr>sx_reused_messages := sx_reused_messages st + 1\<rparr>)) (\<lambda>_.
          ret \<lparr>sl_meta = m, sl_raw = raw_of m cached, sl_accounted = False, sl_wanted = False\<rparr>)))"

definition warning :: "folder_info \<Rightarrow> message_meta \<Rightarrow> string \<Rightarrow> string" where
  "warning folder m reason = ''warning: '' @ full_name folder @ '' UID '' @ to_string (unat (mm_uid m)) @ '': '' @ reason"

definition fail_message :: "'t env \<Rightarrow> folder_info \<Rightarrow> message_meta \<Rightarrow> string \<Rightarrow> ('t migration, unit) prog" where
  "fail_message env folder m reason =
     bindM (upd_stats (\<lambda>st. st\<lparr>sx_failed_messages := sx_failed_messages st + 1, sx_failed_uids := sx_failed_uids st @
       [\<lparr>fm_folder = full_name folder, fm_uid = mm_uid m, fm_reason = reason\<rparr>]\<rparr>)) (\<lambda>_.
     report env (warning folder m reason))"

text \<open>The source of one wanted message: what the batch brought, or asked for alone.\<close>

definition collect :: "'t env \<Rightarrow> options \<Rightarrow> folder_info \<Rightarrow> raw_message option \<Rightarrow> slot \<Rightarrow> ('t migration, slot) prog" where
  "collect env opts folder got sl =
     bindM (case got of
         Some raw \<Rightarrow> ret (Inr raw)
       | None \<Rightarrow> try_catch is_imap_error
           (bindM (on_net (fetchMessage (en_server env) (raw_name folder) (sl_meta sl))) (\<lambda>raw. ret (Inr raw)))
           (\<lambda>e. ret (Inl e))) (\<lambda>r. case r of
       Inl e \<Rightarrow>
         bindM (fail_message env folder (sl_meta sl) (what e)) (\<lambda>_. ret (sl\<lparr>sl_accounted := True\<rparr>))
     | Inr raw \<Rightarrow>
         bindM (upd_stats (\<lambda>st. st\<lparr>sx_fetched_bytes := sx_fetched_bytes st + length (rfc822 raw)\<rparr>)) (\<lambda>_.
         bindM (if op_spool_dir opts \<noteq> [] \<and> rfc822 raw \<noteq> []
                then bindM (writeFile env (spoolPath (op_spool_dir opts) (full_name folder) (mm_uid (sl_meta sl))) (rfc822 raw)) (\<lambda>_. ret ())
                else ret ()) (\<lambda>_.
         ret (sl\<lparr>sl_raw := raw\<rparr>))))"

text \<open>The loop over the wanted messages: the others stay as they are; \<open>got\<close> is what is left of the batch.\<close>

fun collect_all :: "'t env \<Rightarrow> options \<Rightarrow> folder_info \<Rightarrow> raw_message option list \<Rightarrow> slot list \<Rightarrow> ('t migration, slot list) prog" where
  "collect_all env opts folder got [] = ret []"
| "collect_all env opts folder got (sl # sls) =
     (if sl_wanted sl then
        bindM (collect env opts folder (hd got) sl) (\<lambda>sl'.
        bindM (collect_all env opts folder (tl got) sls) (\<lambda>sls'. ret (sl' # sls')))
      else bindM (collect_all env opts folder got sls) (\<lambda>sls'. ret (sl # sls')))"

definition fetch_batch :: "'t env \<Rightarrow> options \<Rightarrow> folder_info \<Rightarrow> slot list \<Rightarrow> ('t migration, slot list) prog" where
  "fetch_batch env opts folder slots =
     (let wanted = map sl_meta (filter sl_wanted slots) in
      if wanted = [] then ret slots
      else
        bindM (try_catch is_imap_error
            (on_net (fetchMessages (en_server env) (raw_name folder) wanted))
            (\<lambda>e. bindM (report env (''warning: '' @ full_name folder @ '': batch fetch failed ('' @ what e @
                   ''); falling back to one message at a time'')) (\<lambda>_. ret (replicate (length wanted) no_raw)))) (\<lambda>got.
        collect_all env opts folder
          (if length got = length wanted then map (\<lambda>r. if rfc822 r \<noteq> [] then Some r else None) got
           else replicate (length wanted) None) slots))"

subsection \<open>Writing\<close>

definition migrated :: "icu \<Rightarrow> slot \<Rightarrow> message" where
  "migrated icu sl =
     (let msg = parse_raw icu (sl_raw sl); sz = mm_size (sl_meta sl) in
      if sz \<noteq> 0 then Message ((fields_of msg)\<lparr>m_size := sz\<rparr>) (attachments msg) else msg)"

definition write_slot :: "'t env \<Rightarrow> options \<Rightarrow> folder_info \<Rightarrow> nid \<Rightarrow> slot \<Rightarrow> ('t migration, unit) prog" where
  "write_slot env opts folder n sl =
     (if rfc822 (sl_raw sl) = [] then
        (if sl_accounted sl then ret () else fail_message env folder (sl_meta sl) ''server returned an empty body'')
      else
        let msg = migrated (en_icu env) sl in
        bindM (try_catch (\<lambda>_. True)
           (bindM (on_writer (addMessage n msg)) (\<lambda>_.
            bindM (upd_stats (\<lambda>st. st\<lparr>sx_attachments := sx_attachments st + length (attachments msg)\<rparr>)) (\<lambda>_. ret True)))
           (\<lambda>e. bindM (fail_message env folder (sl_meta sl) (what e)) (\<lambda>_. ret False))) (\<lambda>done.
        if \<not> done then ret ()
        else
          bindM (upd_stats (\<lambda>st. st\<lparr>sx_messages := sx_messages st + 1\<rparr>)) (\<lambda>_.
          bindM (getM mi_stats) (\<lambda>st.
          bindM (getM mi_total) (\<lambda>total.
          if op_progress_every opts \<noteq> 0 \<and> sx_messages st mod op_progress_every opts = 0
          then report env (progress_line env st total) else ret ())))))"

definition run_batch :: "'t env \<Rightarrow> options \<Rightarrow> folder_info \<Rightarrow> nid \<Rightarrow> message_meta list \<Rightarrow> ('t migration, unit) prog" where
  "run_batch env opts folder n batch =
     bindM (mapM (from_spool opts folder) batch) (\<lambda>slots.
     bindM (fetch_batch env opts folder slots) (\<lambda>slots.
     forM (write_slot env opts folder n) slots))"

text \<open>The batches of a folder. A batch size of zero takes nothing, and the loop never ends.\<close>

partial_function (option) batches :: "'t env \<Rightarrow> options \<Rightarrow> folder_info \<Rightarrow> nid \<Rightarrow> message_meta list \<Rightarrow> 't migration \<Rightarrow>
    ((error + unit) \<times> 't migration) option" where
  "batches env opts folder n metas s =
     (if metas = [] then Some (Inr (), s)
      else
        let batch = take_batch opts 0 0 metas in
        Option.bind (run_batch env opts folder n batch s) (\<lambda>(r, s'). case r of
          Inl e \<Rightarrow> Some (Inl e, s')
        | Inr _ \<Rightarrow> batches env opts folder n (drop (length batch) metas) s'))"

definition run_folder :: "'t env \<Rightarrow> options \<Rightarrow> folder_info \<Rightarrow> ('t migration, unit) prog" where
  "run_folder env opts folder =
     (let path = folder_path folder in
      if path = [] then ret ()
      else
        bindM (folder_for path) (\<lambda>n.
        bindM (upd_stats (\<lambda>st. st\<lparr>sx_folders := sx_folders st + 1\<rparr>)) (\<lambda>_.
        if \<not> selectable folder
        then report env (''Folder '' @ full_name folder @ '' is '' @ [BACKSLASH] @ ''Noselect; created empty'')
        else
          bindM (report env (''Fetching '' @ full_name folder)) (\<lambda>_.
          bindM (try_catch is_imap_error
              (bindM (on_net (listMessages (en_server env) (raw_name folder))) (\<lambda>metas. ret (Some metas)))
              (\<lambda>e. bindM (report env (''warning: '' @ full_name folder @ '': '' @ what e)) (\<lambda>_. ret None))) (\<lambda>listed. case listed of
            None \<Rightarrow> ret ()
          | Some metas \<Rightarrow>
              bindM (modM (\<lambda>s. s\<lparr>mi_total := mi_total s + length metas\<rparr>)) (\<lambda>_.
              bindM (batches env opts folder n metas) (\<lambda>_.
              report env (''  '' @ full_name folder @ '': '' @ to_string (length metas) @ '' message(s)''))))))))"

subsection \<open>The run\<close>

definition run_folders :: "'t env \<Rightarrow> options \<Rightarrow> folder_info list \<Rightarrow> ('t migration, unit) prog" where
  "run_folders env opts folders =
     bindM (forM (run_folder env opts) folders) (\<lambda>_. on_writer pst_finish)"

text \<open>
  The scope of the writer: it is destroyed on the way out, whether the run returns or throws. The
  result comes with what was written.
\<close>

definition with_writer :: "pst \<Rightarrow> ('t migration, unit) prog \<Rightarrow> ('t world, stats \<times> pst) prog" where
  "with_writer w body s =
     (case body (world.extend s \<lparr>mi_writer = w, mi_by_path = Map.empty, mi_total = 0, mi_stats = no_stats\<rparr>) of
        None \<Rightarrow> None
      | Some (r, m) \<Rightarrow>
          (case PstWriter_destroy (mi_writer m) of
             None \<Rightarrow> None
           | Some (_, w') \<Rightarrow>
               Some (case r of Inl e \<Rightarrow> Inl e | Inr _ \<Rightarrow> Inr (mi_stats m, w'), world.truncate m)))"

definition pipeline_run :: "'t env \<Rightarrow> options \<Rightarrow> ('t world, stats \<times> pst) prog" where
  "pipeline_run env opts =
     bindM (if op_spool_dir opts = [] then ret ()
            else case en_mkdir env (op_spool_dir opts) of
                None \<Rightarrow> ret ()
              | Some message \<Rightarrow> report env (''warning: cannot create spool directory: '' @ message)) (\<lambda>_.
     bindM (report env ''Listing folders'') (\<lambda>_.
     bindM (on_net (listFolders (en_server env))) (\<lambda>listed.
     bindM (select_folders env opts listed) (\<lambda>chosen.
     let folders = sort_key folder_order chosen in
     case PstWriter_random (op_output_path opts) (en_random env) (en_opens env) (en_accepts env) (en_clock env) of
       Inl e \<Rightarrow> throw e
     | Inr w \<Rightarrow> with_writer w (run_folders env opts folders)))))"

end
