(* ===== verification/Cli.thy ===== *)
theory Cli
  imports Pipeline
begin

section \<open>The command line (src/main.cpp)\<close>

text \<open>
  The options become a configuration of the transport and the options of the run; the run's
  statistics become what is printed and the exit code. The environment and what the run finds
  around it are arguments; standard output and standard error are strings.
\<close>

definition usage_lines :: "string list" where
  "usage_lines =
    ['' --host HOST --user USER --output FILE.pst [options]'',
     [],
     ''Connection:'',
     ''  --host HOST            IMAP server hostname (required)'',
     ''  --port N               Port; defaults to 993 with TLS, 143 without'',
     ''  --user USER            Login name (required)'',
     ''  --password PASS        Password; prefer --password-env'',
     ''  --password-env VAR     Read the password from environment variable VAR'',
     ''  --oauth2-bearer TOKEN  Use an XOAUTH2 bearer token instead of a password'',
     ''  --no-tls               Plain IMAP with opportunistic STARTTLS'',
     ''  --insecure             Do not verify the server certificate'',
     ''  --timeout N            Per-request timeout in seconds (default 120)'',
     [],
     ''  --retries N            Attempts per request before giving up (default 3)'',
     [],
     ''Selection and output:'',
     ''  --output FILE.pst      Destination PST file (required)'',
     ''  --folder NAME          Migrate only this folder; repeatable'',
     [],
     ''Throughput and restarts:'',
     ''  --batch N              Messages per fetch round trip (default 50)'',
     ''  --batch-bytes N        Cap on one batch'' @ [CHR 0x27] @ ''s message source (default 32M)'',
     ''  --spool DIR            Keep fetched message source here and reuse it,'',
     ''                         so a re-run does not download it again'',
     ''  --progress N           Report every N messages (default 100, 0 off)'',
     ''  --quiet                Only report the final summary'',
     ''  --verbose              Log progress and libcurl traffic'']"

definition usage :: "string \<Rightarrow> string" where
  "usage argv0 = ''Usage: '' @ argv0 @ concat (map (\<lambda>l. l @ [LF]) usage_lines)"

definition needsValue :: "string \<Rightarrow> string" where
  "needsValue flag = ''error: '' @ flag @ '' needs a value'' @ [LF]"

definition default_config :: imap_config where
  "default_config = \<lparr>cf_host = [], cf_port = 0, cf_use_tls = True, cf_verify_peer = True, cf_username = [], cf_password = [],
     cf_oauth2_bearer = [], cf_timeout_seconds = 120, cf_verbose = False, cf_retry_attempts = 3, cf_retry_backoff_ms = 500\<rparr>"

text \<open>\<open>std::atol\<close>, with a 64-bit \<open>long\<close>.\<close>

definition atol :: "string \<Rightarrow> int" where
  "atol s =
     (case scan_sign (dropWhile isspace (c_str s)) of (neg, t) \<Rightarrow>
        let v = parse_digits (takeWhile isdigit t) in if neg then - int (min v (2 ^ 63)) else int (min v (2 ^ 63 - 1)))"

record cli =
  cl_config :: imap_config
  cl_options :: options
  cl_quiet :: bool

definition default_cli :: cli where
  "default_cli = \<lparr>cl_config = default_config, cl_options = default_options, cl_quiet = False\<rparr>"

abbreviation set_config :: "(imap_config \<Rightarrow> imap_config) \<Rightarrow> cli \<Rightarrow> cli" where
  "set_config f c \<equiv> c\<lparr>cl_config := f (cl_config c)\<rparr>"

abbreviation set_options :: "(options \<Rightarrow> options) \<Rightarrow> cli \<Rightarrow> cli" where
  "set_options f c \<equiv> c\<lparr>cl_options := f (cl_options c)\<rparr>"

text \<open>Leaving \<open>main\<close> early: the exit code and what went to standard error.\<close>

datatype stop = Stop (stop_code: int) (stop_errors: string)

text \<open>What an option with a value does with it; \<open>None\<close> for one that takes none.\<close>

definition value_option :: "(string \<Rightarrow> string option) \<Rightarrow> string \<Rightarrow> (string \<Rightarrow> cli \<Rightarrow> stop + cli) option" where
  "value_option getenv arg =
     (if arg = ''--host'' then Some (\<lambda>v c. Inr (set_config (\<lambda>f. f\<lparr>cf_host := v\<rparr>) c))
      else if arg = ''--port'' then Some (\<lambda>v c. Inr (set_config (\<lambda>f. f\<lparr>cf_port := atoi v\<rparr>) c))
      else if arg = ''--user'' then Some (\<lambda>v c. Inr (set_config (\<lambda>f. f\<lparr>cf_username := v\<rparr>) c))
      else if arg = ''--password'' then Some (\<lambda>v c. Inr (set_config (\<lambda>f. f\<lparr>cf_password := v\<rparr>) c))
      else if arg = ''--password-env'' then Some (\<lambda>v c. case getenv v of
          None \<Rightarrow> Inl (Stop 2 (''error: environment variable is not set'' @ [LF]))
        | Some p \<Rightarrow> Inr (set_config (\<lambda>f. f\<lparr>cf_password := p\<rparr>) c))
      else if arg = ''--oauth2-bearer'' then Some (\<lambda>v c. Inr (set_config (\<lambda>f. f\<lparr>cf_oauth2_bearer := v\<rparr>) c))
      else if arg = ''--timeout'' then Some (\<lambda>v c. Inr (set_config (\<lambda>f. f\<lparr>cf_timeout_seconds := atol v\<rparr>) c))
      else if arg = ''--output'' then Some (\<lambda>v c. Inr (set_options (\<lambda>f. f\<lparr>op_output_path := v\<rparr>) c))
      else if arg = ''--folder'' then Some (\<lambda>v c. Inr (set_options (\<lambda>f. f\<lparr>op_folders := op_folders f @ [v]\<rparr>) c))
      else if arg = ''--retries'' then Some (\<lambda>v c. Inr (set_config (\<lambda>f. f\<lparr>cf_retry_attempts := atoi v\<rparr>) c))
      else if arg = ''--batch'' then
        Some (\<lambda>v c. Inr (set_options (\<lambda>f. f\<lparr>op_batch_size := (if strtoul v = 0 then 1 else strtoul v)\<rparr>) c))
      else if arg = ''--batch-bytes'' then Some (\<lambda>v c. Inr (set_options (\<lambda>f. f\<lparr>op_batch_bytes := strtoul v\<rparr>) c))
      else if arg = ''--spool'' then Some (\<lambda>v c. Inr (set_options (\<lambda>f. f\<lparr>op_spool_dir := v\<rparr>) c))
      else if arg = ''--progress'' then Some (\<lambda>v c. Inr (set_options (\<lambda>f. f\<lparr>op_progress_every := strtoul v\<rparr>) c))
      else None)"

definition plain_option :: "string \<Rightarrow> (cli \<Rightarrow> cli) option" where
  "plain_option arg =
     (if arg = ''--no-tls'' then Some (set_config (\<lambda>f. f\<lparr>cf_use_tls := False\<rparr>))
      else if arg = ''--insecure'' then Some (set_config (\<lambda>f. f\<lparr>cf_verify_peer := False\<rparr>))
      else if arg = ''--quiet'' then Some (\<lambda>c. c\<lparr>cl_quiet := True\<rparr>)
      else if arg = ''--verbose'' then
        Some (\<lambda>c. set_config (\<lambda>f. f\<lparr>cf_verbose := True\<rparr>) (set_options (\<lambda>f. f\<lparr>op_verbose := True\<rparr>) c))
      else None)"

text \<open>The loop over the arguments after the program's name.\<close>

fun parse_args :: "(string \<Rightarrow> string option) \<Rightarrow> string \<Rightarrow> string list \<Rightarrow> cli \<Rightarrow> stop + cli" where
  "parse_args getenv argv0 [] c = Inr c"
| "parse_args getenv argv0 (arg # args) c =
     (if arg = ''--help'' \<or> arg = ''-h'' then Inl (Stop 0 (usage argv0))
      else case value_option getenv arg of
        Some f \<Rightarrow> (case args of
            [] \<Rightarrow> Inl (Stop 2 (needsValue arg))
          | v # rest \<Rightarrow> (case f v c of Inl e \<Rightarrow> Inl e | Inr c' \<Rightarrow> parse_args getenv argv0 rest c'))
      | None \<Rightarrow> (case plain_option arg of
            Some g \<Rightarrow> parse_args getenv argv0 args (g c)
          | None \<Rightarrow> Inl (Stop 2 (''error: unknown option '' @ arg @ [LF] @ usage argv0))))"

definition read_args :: "(string \<Rightarrow> string option) \<Rightarrow> string \<Rightarrow> string list \<Rightarrow> stop + cli" where
  "read_args getenv argv0 args =
     (case parse_args getenv argv0 args default_cli of
        Inl e \<Rightarrow> Inl e
      | Inr c \<Rightarrow>
          if cf_host (cl_config c) = [] \<or> cf_username (cl_config c) = [] \<or> op_output_path (cl_options c) = []
          then Inl (Stop 2 (usage argv0)) else Inr c)"

definition summary :: "options \<Rightarrow> stats \<Rightarrow> string" where
  "summary opts st =
     ''Wrote '' @ op_output_path opts @ '': '' @ to_string (sx_folders st) @ '' folder(s), '' @
     to_string (sx_messages st) @ '' message(s), '' @ to_string (sx_attachments st) @ '' attachment(s)'' @
     (if sx_reused_messages st \<noteq> 0 then '', '' @ to_string (sx_reused_messages st) @ '' from the spool'' else []) @
     (if sx_failed_messages st \<noteq> 0 then '', '' @ to_string (sx_failed_messages st) @ '' failed'' else []) @ [LF]"

definition skipped :: "failed_message list \<Rightarrow> string" where
  "skipped fs =
     (if fs = [] then []
      else [LF] @ ''These messages were skipped:'' @ [LF] @
        concat (map (\<lambda>f. ''  '' @ fm_folder f @ '' UID '' @ to_string (unat (fm_uid f)) @ '': '' @ fm_reason f @ [LF]) (take 20 fs)) @
        (if 20 < length fs then ''  ... and '' @ to_string (length fs - 20) @ '' more'' @ [LF] else []))"

text \<open>
  What \<open>main\<close> runs: the client on its transport, with the log unless \<open>--quiet\<close> was given. \<open>perform\<close>,
  \<open>sleep\<close> and whether \<open>curl_easy_init\<close> succeeds are libcurl's; \<open>around\<close> is the rest of what the run finds.
\<close>

definition main_run :: "'t curl \<Rightarrow> (int \<Rightarrow> ('t, unit) prog) \<Rightarrow> bool \<Rightarrow> 't env \<Rightarrow> cli \<Rightarrow> ('t world, stats \<times> pst) prog" where
  "main_run perform sleep curl_init around c =
     (if \<not> curl_init then throw (ImapError ''curl_easy_init failed'')
      else
        let env = around\<lparr>en_server := curl_transport perform sleep (cl_config c), en_logging := \<not> cl_quiet c\<rparr>;
            opts = (if cl_quiet c then (cl_options c)\<lparr>op_progress_every := 0\<rparr> else cl_options c)
        in pipeline_run env opts)"

text \<open>The exit code, standard output, standard error, and the world after.\<close>

definition main :: "'t curl \<Rightarrow> (int \<Rightarrow> ('t, unit) prog) \<Rightarrow> bool \<Rightarrow> 't env \<Rightarrow> (string \<Rightarrow> string option) \<Rightarrow> string \<Rightarrow> string list \<Rightarrow>
    't world \<Rightarrow> (int \<times> string \<times> string \<times> 't world) option" where
  "main perform sleep curl_init around getenv argv0 args s =
     (case read_args getenv argv0 args of
        Inl (Stop code errors) \<Rightarrow> Some (code, [], errors, s)
      | Inr c \<Rightarrow>
          (case main_run perform sleep curl_init around c (s\<lparr>wd_log := []\<rparr>) of
             None \<Rightarrow> None
           | Some (r, s') \<Rightarrow>
               let logged = concat (map (\<lambda>l. l @ [LF]) (wd_log s')) in
               Some (case r of
                   Inl e \<Rightarrow> (1, [], logged @ ''error: '' @ what e @ [LF], s')
                 | Inr (st, _) \<Rightarrow> (if sx_failed_messages st \<noteq> 0 then 1 else 0, summary (cl_options c) st, logged @ skipped (sx_failed_uids st), s'))))"

end
