(* ===== verification/Message_Fields.thy ===== *)
theory Message_Fields
  imports Pst_Message
begin

section \<open>The properties of a message read back\<close>

text \<open>
  The properties of an object are set one after the other, some under a condition. A small calculus
  of setters says what is left under each id; with it, \<open>fields_shown\<close>, what a reader finds of the
  fields of a message, is reduced to what the property context holds.
\<close>

subsection \<open>Setters\<close>

text \<open>
  A setter either
  spares an id or determines what is held under it; \<open>final\<close> says that a list of setters, run in
  order, leaves a value under an id.
\<close>

named_theorems setter_simps \<open>what each setter spares and sets\<close>

definition spares :: "16 word \<Rightarrow> setter \<Rightarrow> bool" where
  "spares i f \<longleftrightarrow> (\<forall>pc. pc_look (f pc) i = pc_look pc i)"

definition settles :: "16 word \<Rightarrow> pc_value \<Rightarrow> setter \<Rightarrow> bool" where
  "settles i v f \<longleftrightarrow> (\<forall>pc. pc_look (f pc) i = Some v)"

definition sound :: "setter \<Rightarrow> bool" where
  "sound f \<longleftrightarrow> (\<forall>pc. pc_ok pc \<longrightarrow> pc_ok (f pc))"

primrec final :: "16 word \<Rightarrow> pc_value \<Rightarrow> setter list \<Rightarrow> bool" where
  "final i v [] \<longleftrightarrow> False"
| "final i v (f # fs) \<longleftrightarrow> settles i v f \<and> list_all (spares i) fs \<or> final i v fs"

text \<open>The last setters decide first.\<close>

lemma final_steps [setter_simps]:
  "final i v (f # fs) \<longleftrightarrow> (if settles i v f then list_all (spares i) fs \<or> final i v fs else final i v fs)"
  "final i v (fs @ gs) \<longleftrightarrow> (if final i v gs then True else if list_all (spares i) gs then final i v fs else False)"
  by (simp, induction fs) auto

lemma set_all_simps: "set_all [] pc = pc" "set_all (f # fs) pc = set_all fs (f pc)" "set_all (fs @ gs) pc = set_all gs (set_all fs pc)"
  by (simp_all add: set_all_def)

lemma if_setter_simps [setter_simps]:
  "list_all P (if c then fs else gs) \<longleftrightarrow> (c \<longrightarrow> list_all P fs) \<and> (\<not> c \<longrightarrow> list_all P gs)"
  "final i v (if c then fs else gs) \<longleftrightarrow> (c \<longrightarrow> final i v fs) \<and> (\<not> c \<longrightarrow> final i v gs)"
  by simp_all

lemma set_if_simps [setter_simps]:
  "list_all P (set_if c fs) \<longleftrightarrow> (c \<longrightarrow> list_all P fs)" "final i v (set_if c fs) \<longleftrightarrow> c \<and> final i v fs"
  by (simp_all add: set_if_def)

lemma spares_look: "list_all (spares i) fs \<Longrightarrow> pc_look (set_all fs pc) i = pc_look pc i"
  by (induction fs arbitrary: pc) (simp_all add: set_all_simps spares_def)

lemma final_look: "final i v fs \<Longrightarrow> pc_look (set_all fs pc) i = Some v"
proof (induction fs arbitrary: pc)
  case (Cons f fs)
  then show ?case using spares_look [of i fs "f pc"] by (auto simp: set_all_simps settles_def)
qed simp

lemma sound_all: "list_all sound fs \<Longrightarrow> pc_ok pc \<Longrightarrow> pc_ok (set_all fs pc)"
  by (induction fs arbitrary: pc) (simp_all add: set_all_simps sound_def)

lemma pc_put_spares: "spares i (pc_put tag v) \<longleftrightarrow> tagId tag \<noteq> i"
  unfolding spares_def pc_look_put by (auto simp: pc_look_def dest: spec [of _ "[]"])

lemma pc_put_settles: "settles i w (pc_put tag v) \<longleftrightarrow> tagId tag = i \<and> w = v\<lparr>pv_tag := tag\<rparr>"
  unfolding settles_def pc_look_put by (auto simp: pc_look_def dest: spec [of _ "[]"])

lemma setters_put:
  "setInt32 tag w = pc_put tag (inline_value tag w)" "setBool tag b = pc_put tag (inline_value tag (if b then 1 else 0))"
  "setTime tag x = pc_put tag (bytes_value tag (put64 [] x))" "setString tag s = pc_put tag (bytes_value tag (string_bytes tag s))"
  "setBinary tag d = pc_put tag (bytes_value tag d)" "setStringArray tag ss = pc_put tag (bytes_value tag (string_array ss))"
  "setObject tag n sz = pc_put tag (bytes_value tag (put32 (put32 [] n) sz))"
  "setSpilledValue tag n = pc_put tag \<lparr>pv_tag = tag, pv_kind = KSpilled, pv_hnid = n, pv_bytes = []\<rparr>"
  by (simp_all add: fun_eq_iff setInt32_def setBool_def setTime_def setInt64_def setString_def setBinary_def
      setStringArray_def setObject_def setSpilledValue_def)

lemma setter_spares [setter_simps]:
  "spares i (setInt32 tag w) \<longleftrightarrow> tagId tag \<noteq> i" "spares i (setBool tag b) \<longleftrightarrow> tagId tag \<noteq> i"
  "spares i (setTime tag x) \<longleftrightarrow> tagId tag \<noteq> i" "spares i (setString tag s) \<longleftrightarrow> tagId tag \<noteq> i"
  "spares i (setBinary tag d) \<longleftrightarrow> tagId tag \<noteq> i" "spares i (setStringArray tag ss) \<longleftrightarrow> tagId tag \<noteq> i"
  "spares i (setObject tag n sz) \<longleftrightarrow> tagId tag \<noteq> i" "spares i (setSpilledValue tag n) \<longleftrightarrow> tagId tag \<noteq> i"
  unfolding setters_put pc_put_spares by (rule refl)+

lemma setter_settles [setter_simps]:
  "settles i v (setInt32 tag w) \<longleftrightarrow> tagId tag = i \<and> v = inline_value tag w"
  "settles i v (setBool tag b) \<longleftrightarrow> tagId tag = i \<and> v = inline_value tag (if b then 1 else 0)"
  "settles i v (setTime tag x) \<longleftrightarrow> tagId tag = i \<and> v = bytes_value tag (put64 [] x)"
  "settles i v (setString tag s) \<longleftrightarrow> tagId tag = i \<and> v = bytes_value tag (string_bytes tag s)"
  "settles i v (setBinary tag d) \<longleftrightarrow> tagId tag = i \<and> v = bytes_value tag d"
  "settles i v (setStringArray tag ss) \<longleftrightarrow> tagId tag = i \<and> v = bytes_value tag (string_array ss)"
  "settles i v (setObject tag n sz) \<longleftrightarrow> tagId tag = i \<and> v = bytes_value tag (put32 (put32 [] n) sz)"
  "settles i v (setSpilledValue tag n) \<longleftrightarrow> tagId tag = i \<and> v = \<lparr>pv_tag = tag, pv_kind = KSpilled, pv_hnid = n, pv_bytes = []\<rparr>"
  unfolding setters_put pc_put_settles by (simp_all add: inline_value_def bytes_value_def)

text \<open>A text of a size a file can have; its UTF-16 form is at most four times as long.\<close>

abbreviation text_fits :: "'a list \<Rightarrow> bool" where
  "text_fits s \<equiv> length s < 2 ^ 60"

lemma string_bytes_small: "text_fits s \<Longrightarrow> length (string_bytes tag s) < 2 ^ 64"
  using length_utf8ToUtf16le [of s] by (simp add: string_bytes_def)

lemma setter_sound [setter_simps]:
  "propIsInline (tagType tag) \<Longrightarrow> sound (setInt32 tag w)" "propIsInline (tagType tag) \<Longrightarrow> sound (setBool tag b)"
  "\<not> propIsInline (tagType tag) \<Longrightarrow> sound (setTime tag x)"
  "\<not> propIsInline (tagType tag) \<Longrightarrow> text_fits s \<Longrightarrow> sound (setString tag s)"
  "\<not> propIsInline (tagType tag) \<Longrightarrow> length d < 2 ^ 64 \<Longrightarrow> sound (setBinary tag d)"
  "\<not> propIsInline (tagType tag) \<Longrightarrow> length (string_array ss) < 2 ^ 64 \<Longrightarrow> sound (setStringArray tag ss)"
  "\<not> propIsInline (tagType tag) \<Longrightarrow> sound (setObject tag n sz)"
  "\<not> propIsInline (tagType tag) \<Longrightarrow> \<not> hnidIsHid n \<Longrightarrow> sound (setSpilledValue tag n)"
  unfolding sound_def using string_bytes_small pc_ok_inline pc_ok_bytes by auto

subsection \<open>The properties of a message\<close>

definition message_setters :: "bytes \<Rightarrow> message_fields \<Rightarrow> bool \<Rightarrow> nid \<Rightarrow> bool \<Rightarrow> int \<Rightarrow> int \<Rightarrow> setter list \<Rightarrow> setter list" where
  "message_setters guid m has n embedded created modified keywords =
     text_setters m @
     [setTime PR_MESSAGE_DELIVERY_TIME (unixToFiletime (delivered m)), setTime PR_CLIENT_SUBMIT_TIME (unixToFiletime (sent m)),
      setTime PR_CREATION_TIME (unixToFiletime created), setTime PR_LAST_MODIFICATION_TIME (unixToFiletime modified)] @
     flag_setters m has @ keywords @ id_setters guid m n embedded @
     set_if (header_blob m \<noteq> []) [setString PR_TRANSPORT_MESSAGE_HEADERS (header_blob m)]"

text \<open>Setters of named properties, whose ids lie above those of the standard ones.\<close>

definition high_only :: "setter list \<Rightarrow> bool" where
  "high_only fs \<longleftrightarrow> (\<forall>i. \<not> named i \<longrightarrow> list_all (spares i) fs) \<and> list_all sound fs"

lemma spares_final: "list_all (spares i) fs \<Longrightarrow> \<not> final i v fs"
proof
  assume "list_all (spares i) fs" "final i v fs"
  then have "pc_look [] i = Some v" using spares_look final_look by metis
  then show False by (simp add: pc_look_def)
qed

lemma high_spares [setter_simps]:
  assumes "high_only fs" "i < kFirstNamedId"
  shows "list_all (spares i) fs" "\<not> final i v fs"
  using assms spares_final by (simp_all add: high_only_def not_le)

text \<open>
  Which texts a message may hold for its properties to be written: all of a size a file can have,
  categories that their 32-bit offsets can address and names of headers of at most 128 KB.
\<close>

definition fields_fit :: "message_fields \<Rightarrow> bool" where
  "fields_fit m \<longleftrightarrow> text_fits (message_class m) \<and> text_fits (m_subject m) \<and> text_fits (body_text m) \<and> text_fits (body_html m) \<and>
     text_fits (mb_name (m_from m)) \<and> text_fits (mb_email (m_from m)) \<and> text_fits (joinMailboxes (m_to m)) \<and>
     text_fits (joinMailboxes (m_cc m)) \<and> text_fits (joinMailboxes (m_bcc m)) \<and> text_fits (m_message_id m) \<and>
     text_fits (m_in_reply_to m) \<and> text_fits (header_blob m) \<and>
     4 + 4 * length (m_keywords m) + length (concat (map utf8ToUtf16le (m_keywords m))) < 2 ^ 32 \<and>
     (\<forall>h \<in> set (m_headers m). length (rh_name h) \<le> kLongestName)"

text \<open>What the node of a message says of its fields.\<close>

definition shows_prop :: "blocks \<Rightarrow> bid \<times> bid \<Rightarrow> prop_tag \<Rightarrow> bytes \<Rightarrow> bool" where
  "shows_prop look n tag b \<longleftrightarrow> node_prop look n (tagId tag) = Some (tagType tag, Inr b)"

definition shows_word :: "blocks \<Rightarrow> bid \<times> bid \<Rightarrow> prop_tag \<Rightarrow> 32 word \<Rightarrow> bool" where
  "shows_word look n tag w \<longleftrightarrow> node_prop look n (tagId tag) = Some (tagType tag, Inl w)"

definition shows_text :: "blocks \<Rightarrow> bid \<times> bid \<Rightarrow> prop_tag \<Rightarrow> string \<Rightarrow> bool" where
  "shows_text look n tag s \<longleftrightarrow> shows_prop look n tag (utf8ToUtf16le s)"

definition fields_shown :: "blocks \<Rightarrow> bid \<times> bid \<Rightarrow> message_fields \<Rightarrow> bool \<Rightarrow> bool" where
  "fields_shown look n m has \<longleftrightarrow>
     shows_text look n PR_MESSAGE_CLASS (if message_class m = [] then ''IPM.Note'' else message_class m) \<and>
     shows_text look n PR_SUBJECT (m_subject m) \<and>
     shows_text look n PR_CONVERSATION_TOPIC (m_subject m) \<and>
     (body_text m \<noteq> [] \<longrightarrow> shows_text look n PR_BODY (body_text m)) \<and>
     (body_html m \<noteq> [] \<longrightarrow> shows_prop look n PR_HTML (bytes_of (body_html m))) \<and>
     (body_html m = [] \<and> body_text m \<noteq> [] \<longrightarrow>
        shows_prop look n PR_RTF_COMPRESSED (rtfFromPlainText (body_text m)) \<and> shows_word look n PR_RTF_IN_SYNC 1) \<and>
     shows_word look n PR_INTERNET_CPID CP_UTF8 \<and>
     shows_word look n PR_MESSAGE_CODEPAGE CP_UTF8 \<and>
     (mb_email (m_from m) \<noteq> [] \<or> mb_name (m_from m) \<noteq> [] \<longrightarrow>
        shows_text look n PR_SENDER_NAME (display_name (m_from m)) \<and> shows_text look n PR_SENDER_EMAIL_ADDRESS (mb_email (m_from m)) \<and>
        shows_text look n PR_SENDER_ADDRTYPE ''SMTP'' \<and> shows_text look n PR_SENT_REPRESENTING_NAME (display_name (m_from m))) \<and>
     shows_text look n PR_DISPLAY_TO (joinMailboxes (m_to m)) \<and>
     (m_cc m \<noteq> [] \<longrightarrow> shows_text look n PR_DISPLAY_CC (joinMailboxes (m_cc m))) \<and>
     (m_bcc m \<noteq> [] \<longrightarrow> shows_text look n PR_DISPLAY_BCC (joinMailboxes (m_bcc m))) \<and>
     shows_prop look n PR_MESSAGE_DELIVERY_TIME (put64 [] (unixToFiletime (delivered m))) \<and>
     shows_prop look n PR_CLIENT_SUBMIT_TIME (put64 [] (unixToFiletime (sent m))) \<and>
     (delivered m \<noteq> 0 \<longrightarrow> shows_prop look n PR_CREATION_TIME (put64 [] (unixToFiletime (delivered m))) \<and>
        shows_prop look n PR_LAST_MODIFICATION_TIME (put64 [] (unixToFiletime (delivered m)))) \<and>
     shows_word look n PR_MESSAGE_FLAGS (mapi_flags m has) \<and>
     shows_word look n PR_FLAG_STATUS (if m_flags m AND kFlagFlagged \<noteq> 0 then FLAG_STATUS_FLAGGED else FLAG_STATUS_NONE) \<and>
     shows_word look n PR_HASATTACH (if has then 1 else 0) \<and>
     (m_flags m AND kFlagAnswered \<noteq> 0 \<longrightarrow> shows_word look n PR_LAST_VERB_EXECUTED VERB_REPLYTOSENDER \<and>
        shows_prop look n PR_LAST_VERB_EXECUTION_TIME (put64 [] (unixToFiletime (sent m))) \<and>
        shows_word look n PR_ICON_INDEX ICON_MAIL_REPLIED) \<and>
     shows_word look n PR_MESSAGE_SIZE (message_size m) \<and>
     (m_message_id m \<noteq> [] \<longrightarrow> shows_text look n PR_INTERNET_MESSAGE_ID (m_message_id m)) \<and>
     (m_in_reply_to m \<noteq> [] \<longrightarrow> shows_text look n PR_IN_REPLY_TO_ID (m_in_reply_to m)) \<and>
     (header_blob m \<noteq> [] \<longrightarrow> shows_text look n PR_TRANSPORT_MESSAGE_HEADERS (header_blob m))"

text \<open>The identifiers of a message that is not embedded in another.\<close>

definition ids_shown :: "blocks \<Rightarrow> bytes \<Rightarrow> nid \<Rightarrow> bid \<times> bid \<Rightarrow> bool" where
  "ids_shown look guid i n \<longleftrightarrow> shows_prop look n PR_ENTRYID (entryId guid i) \<and> shows_prop look n PR_SEARCH_KEY (search_key guid i)"

text \<open>
  The named properties, by a table of names: the categories under \<open>Keywords\<close>, read back as a list of
  texts, and every header that has no property of its own under its name, with the values of all
  headers of that name on lines of their own. The map takes 4096 names; a message with a header that
  found the map full may have its headers in the transport headers only.
\<close>

definition name_prop :: "blocks \<Rightarrow> request list \<Rightarrow> bid \<times> bid \<Rightarrow> request \<Rightarrow> (16 word \<times> (32 word + bytes)) option" where
  "name_prop look ns n r = Option.bind (position r ns) (\<lambda>k. node_prop look n (named_id k))"

definition own_headers :: "string list" where
  "own_headers = [''from'', ''to'', ''cc'', ''bcc'', ''reply-to'', ''subject'', ''date'', ''message-id'', ''in-reply-to'']"

fun on_lines :: "string list \<Rightarrow> string" where
  "on_lines [] = []"
| "on_lines [v] = v"
| "on_lines (v # vs) = v @ LF # on_lines vs"

definition header_values :: "raw_header list \<Rightarrow> string \<Rightarrow> string list" where
  "header_values hs name = map rh_value (filter (\<lambda>h. lower (rh_name h) = lower name) hs)"

definition categories_shown :: "blocks \<Rightarrow> request list \<Rightarrow> bid \<times> bid \<Rightarrow> string list \<Rightarrow> bool" where
  "categories_shown look ns n cs \<longleftrightarrow>
     (case name_prop look ns n keywords_name of
        Some (t, Inr b) \<Rightarrow> t = kPtMvUnicode \<and> read_string_array b = map utf8ToUtf16le cs
      | _ \<Rightarrow> False)"

definition left_out :: "request list \<Rightarrow> message_fields \<Rightarrow> bool" where
  "left_out ns m \<longleftrightarrow> kMaxNames \<le> length ns \<and>
     list_ex (\<lambda>h. lower (rh_name h) \<notin> set own_headers \<and>
       position (StringName kPsInternetHeaders (rh_name h)) (take kMaxNames ns) = None) (m_headers m)"

definition named_shown :: "blocks \<Rightarrow> request list \<Rightarrow> bid \<times> bid \<Rightarrow> message_fields \<Rightarrow> bool" where
  "named_shown look ns n m \<longleftrightarrow>
     (m_keywords m \<noteq> [] \<longrightarrow> categories_shown look ns n (m_keywords m)) \<and>
     (\<not> left_out ns m \<longrightarrow>
        list_all (\<lambda>h. lower (rh_name h) \<notin> set own_headers \<longrightarrow>
          name_prop look ns n (StringName kPsInternetHeaders (rh_name h)) =
            Some (kPtUnicode, Inr (utf8ToUtf16le (on_lines (header_values (m_headers m) (rh_name h))))))
          (m_headers m))"

lemma fields_shownI:
  assumes kw: "high_only kw" and c1: "delivered m \<noteq> 0 \<Longrightarrow> c1 = delivered m \<and> c2 = delivered m"
    and says: "\<And>i v x. final i v (message_setters guid m has nid emb c1 c2 kw) \<Longrightarrow> i < kFirstNamedId \<Longrightarrow>
      value_read (\<lambda>_. None) v = Some x \<Longrightarrow> node_prop look n i = Some x"
  shows "fields_shown look n m has"
proof -
  have bytes: "shows_prop look n tag b"
    if "final (tagId tag) (bytes_value tag b) (message_setters guid m has nid emb c1 c2 kw) \<and> tagId tag < kFirstNamedId" for tag b
    using says [of "tagId tag" "bytes_value tag b"] that by (simp add: shows_prop_def value_read_def bytes_value_def)
  have word: "shows_word look n tag w"
    if "final (tagId tag) (inline_value tag w) (message_setters guid m has nid emb c1 c2 kw) \<and> tagId tag < kFirstNamedId" for tag w
    using says [of "tagId tag" "inline_value tag w"] that by (simp add: shows_word_def value_read_def inline_value_def)
  note defs = message_setters_def text_setters_def body_setters_def flag_setters_def id_setters_def
  show ?thesis
    unfolding fields_shown_def shows_text_def
    by (intro conjI impI; rule bytes word; unfold defs; use kw in \<open>simp add: setter_simps string_bytes_def c1 split del: if_split del: final.simps(2)\<close>)
qed

lemma length_rtf: "length (rtfFromPlainText s) \<le> 5 * length s + 200"
proof -
  have c: "length (rtf_char c) \<le> 5" for c by (simp add: rtf_char_def)
  have "length (concat (map rtf_char s)) \<le> 5 * length s"
    by (induction s) (simp_all, metis add_mono c)
  moreover have "length rtf_prologue \<le> 150" by (simp add: rtf_prologue_def)
  ultimately show ?thesis by (simp add: rtfFromPlainText_def rtf_text_def put32_def Let_def)
qed

lemma length_search_key: "length (search_key guid n) = length guid"
proof -
  have "length (fold (\<lambda>i key. key[12 + i := f key i]) xs k) = length k" for f :: "bytes \<Rightarrow> nat \<Rightarrow> byte" and xs k
    by (induction xs arbitrary: k) simp_all
  then show ?thesis by (simp only: search_key_def)
qed

lemma message_setters_sound:
  assumes kw: "high_only kw" and fit: "fields_fit m" and guid: "length guid = 16"
  shows "list_all sound (message_setters guid m has n emb c1 c2 kw)"
proof -
  have rtf: "length (rtfFromPlainText (body_text m)) < 2 ^ 64" using length_rtf [of "body_text m"] fit by (simp add: fields_fit_def)
  have ids: "length (entryId guid n) < 2 ^ 64" "length (search_key guid n) < 2 ^ 64"
    using guid by (simp_all add: entryId_def put32_def length_search_key)
  have types [simp]: "\<not> propIsInline kPtUnicode" "\<not> propIsInline kPtBinary" "\<not> propIsInline kPtSystime" "propIsInline kPtLong" "propIsInline kPtBoolean"
    by (simp_all add: propIsInline_def fixedPropSize_def)
  have class_name: "text_fits (if message_class m = [] then ''IPM.Note'' else message_class m)" "text_fits (display_name (m_from m))"
    using fit by (simp_all add: fields_fit_def display_name_def)
  have "list_all sound kw" using kw by (simp add: high_only_def)
  moreover have "list_all sound (text_setters m)"
    using fit rtf class_name unfolding text_setters_def body_setters_def by (simp add: setter_simps fields_fit_def split del: if_split)
  moreover have "list_all sound (flag_setters m has)" unfolding flag_setters_def by (simp add: setter_simps)
  moreover have "list_all sound (id_setters guid m n emb)"
    using fit ids unfolding id_setters_def by (simp add: setter_simps fields_fit_def)
  ultimately show ?thesis using fit unfolding message_setters_def by (simp add: setter_simps fields_fit_def)
qed

end
