(* ===== verification/Message_Names.thy ===== *)
theory Message_Names
  imports Message_Fields
begin

section \<open>The named properties of a message\<close>

text \<open>
  Categories and the headers without a property of their own are stored under ids that the name map
  gives out. Here the headers are joined by name, the ids they get are followed through the map,
  and what the property context then holds under each id is reduced to \<open>named_shown\<close>.
\<close>

subsection \<open>Headers joined by name\<close>

lemma lower_fold: "foldCase s = lower s"
  by (simp add: foldCase_def tolower_def)

lemma structured_own: "isStructuredHeader name \<longleftrightarrow> lower name \<in> set own_headers"
  by (simp add: isStructuredHeader_def kKnown_def own_headers_def)

lemma on_lines_snoc: "vs \<noteq> [] \<Longrightarrow> on_lines (vs @ [v]) = on_lines vs @ LF # v"
proof (induction vs rule: on_lines.induct)
  case (3 v w vs)
  then show ?case by simp
qed simp_all

definition joins :: "raw_header list \<Rightarrow> merge \<Rightarrow> bool" where
  "joins hs g \<longleftrightarrow> distinct (mg_order g) \<and>
     set (mg_order g) = {lower (rh_name h) |h. h \<in> set hs \<and> \<not> isStructuredHeader (rh_name h)} \<and>
     (\<forall>key. key \<notin> set (mg_order g) \<longrightarrow> mg_merged g key = None) \<and>
     (\<forall>key \<in> set (mg_order g). mg_merged g key = Some (on_lines (header_values hs key)) \<and>
        (\<exists>h \<in> set hs. mg_spelling g key = Some (rh_name h) \<and> lower (rh_name h) = key))"

lemma tolower_twice [simp]: "tolower (tolower c) = tolower c"
proof -
  have "(of_char (char_of n :: char) :: nat) = n" if "n < 256" for n using that by simp
  then show ?thesis by (simp add: tolower_def)
qed

lemma lower_twice [simp]: "tolower \<circ> tolower = tolower"
  by (simp add: fun_eq_iff)

lemma joins_step:
  assumes "joins hs g"
  shows "joins (hs @ [h]) (merge_header h g)"
proof (cases "isStructuredHeader (rh_name h)")
  case True
  have "header_values (hs @ [h]) key = header_values hs key" if key_in: "key \<in> set (mg_order g)" for key
  proof -
    have "set (mg_order g) = {lower (rh_name h) |h. h \<in> set hs \<and> \<not> isStructuredHeader (rh_name h)}"
      using assms unfolding joins_def by blast
    then obtain k :: raw_header where "key = lower (rh_name k)" "\<not> isStructuredHeader (rh_name k)" using key_in by blast
    then have "lower (rh_name h) \<noteq> lower key" using True by (auto simp: structured_own)
    then show ?thesis by (simp add: header_values_def)
  qed
  then show ?thesis using assms True unfolding joins_def by (auto simp: merge_header_def)
next
  case False
  let ?key = "lower (rh_name h)"
  have J: "distinct (mg_order g)" "\<And>key. key \<notin> set (mg_order g) \<Longrightarrow> mg_merged g key = None"
      "set (mg_order g) = {lower (rh_name h) |h. h \<in> set hs \<and> \<not> isStructuredHeader (rh_name h)}"
      "\<And>key. key \<in> set (mg_order g) \<Longrightarrow> mg_merged g key = Some (on_lines (header_values hs key)) \<and>
        (\<exists>h \<in> set hs. mg_spelling g key = Some (rh_name h) \<and> lower (rh_name h) = key)"
    using assms unfolding joins_def by auto
  have keys: "{lower (rh_name k) |k. k \<in> set (hs @ [h]) \<and> \<not> isStructuredHeader (rh_name k)} = insert ?key (set (mg_order g))"
    using False by (auto simp: J(3))
  have low: "lower key = key" if "key \<in> set (mg_order g)" for key using that by (auto simp: J(3))
  have vals: "header_values (hs @ [h]) key = header_values hs key" if "key \<noteq> ?key" "lower key = key" for key
    using that by (auto simp: header_values_def)
  have one: "header_values (hs @ [h]) ?key = header_values hs ?key @ [rh_value h]"
    by (simp add: header_values_def)
  show ?thesis
  proof (cases "?key \<in> set (mg_order g)")
    case True
    then obtain k where k: "k \<in> set hs" "lower (rh_name k) = ?key" using J(3) by auto
    then have ne: "header_values hs ?key \<noteq> []" by (auto simp: header_values_def filter_empty_conv)
    have m: "mg_merged g ?key = Some (on_lines (header_values hs ?key))" using J(4) [OF True] by simp
    have g': "merge_header h g = g\<lparr>mg_merged := (mg_merged g)(?key \<mapsto> on_lines (header_values (hs @ [h]) ?key))\<rparr>"
      using False m by (simp add: merge_header_def Let_def one on_lines_snoc [OF ne])
    show ?thesis unfolding joins_def keys g' using J(1,2) J(4) True vals low by (fastforce simp: insert_absorb)
  next
    case False2: False
    have ne: "header_values hs ?key = []"
      using False2 False by (auto simp: J(3) header_values_def filter_empty_conv structured_own)
    have g': "merge_header h g = g\<lparr>mg_merged := (mg_merged g)(?key \<mapsto> rh_value h), mg_spelling := (mg_spelling g)(?key \<mapsto> rh_name h), mg_order := mg_order g @ [?key]\<rparr>"
      using False J(2) [OF False2] by (simp add: merge_header_def Let_def)
    have "on_lines (header_values (hs @ [h]) ?key) = rh_value h" unfolding one ne by simp
    then show ?thesis unfolding joins_def keys g' using J(1,2) J(4) False2 vals low by fastforce
  qed
qed

lemma joins_headers: "joins hs (merge_headers hs)"
proof -
  have "joins [] \<lparr>mg_order = [], mg_merged = Map.empty, mg_spelling = Map.empty\<rparr>" by (simp add: joins_def)
  then show ?thesis unfolding merge_headers_def
    by (induction hs rule: rev_induct) (simp_all add: joins_step)
qed

text \<open>The values joined under a name are shorter than the headers they come from.\<close>

lemma merge_header_merged:
  "mg_merged (merge_header h g) = (if isStructuredHeader (rh_name h) then mg_merged g else
     (mg_merged g)(lower (rh_name h) \<mapsto>
       (case mg_merged g (lower (rh_name h)) of None \<Rightarrow> rh_value h | Some v \<Rightarrow> v @ [LF] @ rh_value h)))"
  unfolding merge_header_def Let_def by (simp split: option.split)

lemma merged_fit:
  assumes "\<forall>k v. mg_merged g k = Some v \<longrightarrow> length v \<le> b"
  shows "mg_merged (fold merge_header hs g) k = Some v \<Longrightarrow> length v \<le> b + sum_list (map (\<lambda>h. length (rh_value h) + 1) hs)"
  using assms
proof (induction hs arbitrary: g b)
  case (Cons h hs)
  have "\<forall>k v. mg_merged (merge_header h g) k = Some v \<longrightarrow> length v \<le> b + (length (rh_value h) + 1)"
  proof (intro allI impI)
    fix k v assume v: "mg_merged (merge_header h g) k = Some v"
    have old: "mg_merged g k = Some w \<Longrightarrow> length w \<le> b" for w using Cons.prems(2) by blast
    show "length v \<le> b + (length (rh_value h) + 1)"
      using v old by (cases "mg_merged g k") (auto simp: merge_header_merged trans_le_add1 split: if_splits)
  qed
  from Cons.IH [OF _ this] Cons.prems(1) show ?case by (simp add: add.assoc)
qed auto

lemma length_header_blob: "sum_list (map (\<lambda>h. length (rh_value h) + 1) (m_headers m)) \<le> length (header_blob m)"
proof -
  have "sum_list (map (\<lambda>h. length (rh_value h) + 1) hs) \<le> length (concat (map (\<lambda>h. rh_name h @ '': '' @ rh_value h @ [CR, LF]) hs))" for hs
    by (induction hs) simp_all
  then show ?thesis by (simp add: header_blob_def)
qed

subsection \<open>The ids they get\<close>

lemma bd_on_names_run: "bd_on_names f s = Some (r, s') \<longleftrightarrow> (\<exists>a n. f (bd_names s) = (a, n) \<and> r = Inr a \<and> s' = s\<lparr>bd_names := n\<rparr>)"
  by (auto simp: bd_on_names_def split: prod.splits)

lemma high_only_Nil [simp]: "high_only []"
  by (simp add: high_only_def)

lemma high_only_append: "high_only fs \<Longrightarrow> high_only gs \<Longrightarrow> high_only (fs @ gs)"
  by (simp add: high_only_def)

lemma types [simp]: "\<not> propIsInline kPtUnicode" "\<not> propIsInline kPtBinary" "\<not> propIsInline kPtSystime" "\<not> propIsInline kPtMvUnicode"
    "\<not> propIsInline kPtObject" "propIsInline kPtLong" "propIsInline kPtBoolean"
  by (simp_all add: propIsInline_def fixedPropSize_def)

lemma high_only_one:
  assumes "named i"
  shows "text_fits v \<Longrightarrow> high_only [setString (makeTag i kPtUnicode) v]"
    "length (string_array ks) < 2 ^ 64 \<Longrightarrow> high_only [setStringArray (makeTag i kPtMvUnicode) ks]"
  using assms by (auto simp: high_only_def setter_simps)

definition name_id :: "request list \<Rightarrow> request \<Rightarrow> 16 word" where
  "name_id ns r = (case position r ns of None \<Rightarrow> 0 | Some k \<Rightarrow> named_id k)"

lemma name_id_more: "position r ns \<noteq> None \<Longrightarrow> prefix ns ns' \<Longrightarrow> name_id ns' r = name_id ns r"
proof -
  assume "position r ns \<noteq> None" "prefix ns ns'"
  then obtain k where "position r ns = Some k" "position r ns' = Some k" using position_more by blast
  then show ?thesis by (simp add: name_id_def)
qed

lemma names_inv_few: "names_inv ns m \<Longrightarrow> length ns \<le> kMaxNames"
  by (simp add: names_inv_def names_ok_def)

lemma name_id_named: "names_inv ns m \<Longrightarrow> position r ns \<noteq> None \<Longrightarrow> named (name_id ns r)"
proof -
  assume inv: "names_inv ns m" and "position r ns \<noteq> None"
  then obtain k where k: "position r ns = Some k" by blast
  then have "k < kMaxNames" using position_Some names_inv_few [OF inv] by (meson less_le_trans)
  then show ?thesis using k named_id_high [of k] by (simp add: name_id_def)
qed

lemma name_id_apart:
  assumes "names_inv ns m" "position r ns \<noteq> None" "position q ns \<noteq> None" "\<not> same_name r q"
  shows "name_id ns r \<noteq> name_id ns q"
proof -
  obtain k j where kj: "position r ns = Some k" "position q ns = Some j" using assms(2,3) by blast
  then have "k < kMaxNames" "j < kMaxNames" using position_Some names_inv_few [OF assms(1)] by (meson less_le_trans)+
  moreover have "k \<noteq> j" using position_apart [of r ns k q] kj assms(4) by blast
  ultimately show ?thesis using kj named_id_inject [of k j] by (simp add: name_id_def)
qed

abbreviation header_name :: "merge \<Rightarrow> string \<Rightarrow> request" where
  "header_name g key \<equiv> StringName kPsInternetHeaders (map_at (mg_spelling g) key)"

definition header_setter :: "request list \<Rightarrow> merge \<Rightarrow> string \<Rightarrow> setter" where
  "header_setter ns g key = setString (makeTag (name_id ns (header_name g key)) kPtUnicode) (map_at (mg_merged g) key)"

text \<open>The headers get ids up to the one that finds the map full.\<close>

lemma named_headers_law:
  assumes "names_inv ns (bd_names s)" "\<forall>key \<in> set keys. length (map_at (mg_spelling g) key) \<le> kLongestName"
    and "named_headers g keys pc s = Some (Inr pc', s')"
  shows "\<exists>ns' js. names_inv ns' (bd_names s') \<and> prefix ns ns' \<and> bd_subs s' = bd_subs s \<and>
    pc' = set_all (map (header_setter ns' g) js) pc \<and> prefix js keys \<and>
    (js = keys \<or> kMaxNames \<le> length ns' \<and> (\<exists>key \<in> set keys. position (header_name g key) ns' = None)) \<and>
    (\<forall>key \<in> set js. position (header_name g key) ns' \<noteq> None)"
  using assms
proof (induction keys arbitrary: ns pc s)
  case Nil
  then show ?case by (intro exI [of _ ns] exI [of _ "[]"]) (simp add: ret_run set_all_simps)
next
  case (Cons key keys)
  obtain i n where i: "idForString kPsInternetHeaders (map_at (mg_spelling g) key) (bd_names s) = (i, n)" by fastforce
  obtain ns1 where ns1: "names_inv ns1 n" "prefix ns ns1" "case position (header_name g key) ns1 of None \<Rightarrow> i = 0 \<and> kMaxNames \<le> length ns1
     | Some k \<Rightarrow> k < kMaxNames \<and> i = named_id k \<and> i \<noteq> 0"
    using names_inv_step [OF Cons.prems(1) _ _ i] Cons.prems(2) by auto
  let ?s1 = "s\<lparr>bd_names := n\<rparr>"
  show ?case
  proof (cases "position (header_name g key) ns1")
    case None
    then have "i = 0" "kMaxNames \<le> length ns1" using ns1(3) by simp_all
    then show ?thesis
      using Cons.prems(3) i ns1(1,2) None by (intro exI [of _ ns1] exI [of _ "[]"]) (auto simp: bindM_def bd_on_names_def ret_def set_all_simps)
  next
    case (Some k)
    then have id: "i = name_id ns1 (header_name g key)" "i \<noteq> 0"
      using ns1(3) unfolding name_id_def Some option.case by blast+
    let ?f = "setString (makeTag i kPtUnicode) (map_at (mg_merged g) key)"
    have run: "named_headers g keys (?f pc) ?s1 = Some (Inr pc', s')"
      using Cons.prems(3) i id(2) by (simp add: bindM_def bd_on_names_def)
    have inv1: "names_inv ns1 (bd_names ?s1)" "\<forall>key \<in> set keys. length (map_at (mg_spelling g) key) \<le> kLongestName"
      using ns1(1) Cons.prems(2) by simp_all
    from Cons.IH [OF inv1 run] obtain ns' js where
      js: "names_inv ns' (bd_names s')" "prefix ns1 ns'" "bd_subs s' = bd_subs ?s1" "pc' = set_all (map (header_setter ns' g) js) (?f pc)"
        "prefix js keys" "js = keys \<or> kMaxNames \<le> length ns' \<and> (\<exists>key \<in> set keys. position (header_name g key) ns' = None)"
        "\<forall>key \<in> set js. position (header_name g key) ns' \<noteq> None"
      by blast
    have "?f = header_setter ns' g key" using name_id_more [OF _ js(2)] Some id(1) by (simp add: header_setter_def)
    then have "pc' = set_all (map (header_setter ns' g) (key # js)) pc" using js(4) by (simp add: set_all_simps)
    moreover have "position (header_name g key) ns' \<noteq> None" using position_more [OF Some js(2)] by simp
    moreover have "prefix ns ns'" using prefix_order.trans [OF ns1(2) js(2)] .
    ultimately show ?thesis using js by (intro exI [of _ ns'] exI [of _ "key # js"]) auto
  qed
qed

text \<open>The categories always get an id: the store asked for it first.\<close>

definition keyword_setter :: "request list \<Rightarrow> message_fields \<Rightarrow> setter list" where
  "keyword_setter ns m = set_if (m_keywords m \<noteq> []) [setStringArray (makeTag (name_id ns keywords_name) kPtMvUnicode) (m_keywords m)]"

lemma keyword_setters_law:
  assumes "names_inv ns (bd_names s)" "keyword_setters m s = Some (Inr kw, s')"
  shows "\<exists>ns'. names_inv ns' (bd_names s') \<and> prefix ns ns' \<and> bd_subs s' = bd_subs s \<and> kw = keyword_setter ns' m"
proof (cases "m_keywords m = []")
  case True
  then show ?thesis using assms by (intro exI [of _ ns]) (simp add: keyword_setters_def ret_run keyword_setter_def set_if_def)
next
  case False
  obtain i n where i: "idForString kPsPublicStrings ''Keywords'' (bd_names s) = (i, n)" by fastforce
  then have kw: "kw = set_if (i \<noteq> 0) [setStringArray (makeTag i kPtMvUnicode) (m_keywords m)]" "s' = s\<lparr>bd_names := n\<rparr>"
    using assms(2) False by (auto simp: keyword_setters_def bindM_def bd_on_names_def ret_def)
  obtain ns1 where ns1: "names_inv ns1 n" "prefix ns ns1" "case position keywords_name ns1 of None \<Rightarrow> i = 0 \<and> kMaxNames \<le> length ns1
     | Some k \<Rightarrow> k < kMaxNames \<and> i = named_id k \<and> i \<noteq> 0"
    using names_inv_step [OF assms(1) _ _ i] by auto
  obtain k where k: "position keywords_name ns1 = Some k" using ns1(1) by (auto simp: names_inv_def)
  then have "i = name_id ns1 keywords_name" "i \<noteq> 0" using ns1(3) unfolding name_id_def k option.case by blast+
  then show ?thesis using ns1(1,2) kw False by (intro exI [of _ ns1]) (simp add: keyword_setter_def set_if_def)
qed

subsection \<open>What is left under them\<close>

lemma high_only_map: "(\<And>x. x \<in> set xs \<Longrightarrow> high_only [f x]) \<Longrightarrow> high_only (map f xs)"
proof (induction xs)
  case (Cons x xs)
  then show ?case using high_only_append [of "[f x]" "map f xs"] by simp
qed simp

text \<open>Setters under ids that are apart leave each value.\<close>

lemma final_map:
  assumes "x \<in> set xs" "distinct xs" "\<And>y. y \<in> set xs \<Longrightarrow> y \<noteq> x \<Longrightarrow> spares i (f y)" "settles i v (f x)"
  shows "final i v (map f xs)"
  using assms
proof (induction xs)
  case (Cons y ys)
  show ?case
  proof (cases "y = x")
    case True
    then have "list_all (spares i) (map f ys)" using Cons.prems by (auto simp: list_all_iff)
    then show ?thesis using Cons.prems(4) True by simp
  next
    case False
    then show ?thesis using Cons by simp
  qed
qed simp

lemma length_string_array: "length (string_array ss) = 4 + 4 * length ss + length (concat (map utf8ToUtf16le ss))"
proof -
  have "length (array_offsets off es buf) = length buf + 4 * length es" for off es buf
    by (induction es arbitrary: off buf) (simp_all add: put32_def)
  then show ?thesis by (simp add: string_array_def Let_def put32_def)
qed

text \<open>The headers of a message that got an id.\<close>

definition header_keys :: "request list \<Rightarrow> message_fields \<Rightarrow> string list \<Rightarrow> bool" where
  "header_keys ns m js \<longleftrightarrow> prefix js (mg_order (merge_headers (m_headers m))) \<and>
     (js = mg_order (merge_headers (m_headers m)) \<or> kMaxNames \<le> length ns \<and>
        (\<exists>key \<in> set (mg_order (merge_headers (m_headers m))). position (header_name (merge_headers (m_headers m)) key) ns = None)) \<and>
     (\<forall>key \<in> set js. position (header_name (merge_headers (m_headers m)) key) ns \<noteq> None)"

definition header_setters :: "request list \<Rightarrow> message_fields \<Rightarrow> string list \<Rightarrow> setter list" where
  "header_setters ns m js = map (header_setter ns (merge_headers (m_headers m))) js"

lemma merged_fits: "fields_fit m \<Longrightarrow> text_fits (map_at (mg_merged (merge_headers (m_headers m))) key)"
proof -
  assume fit: "fields_fit m"
  have "text_fits v" if "mg_merged (merge_headers (m_headers m)) key = Some v" for v
  proof -
    have "length v \<le> 0 + sum_list (map (\<lambda>h. length (rh_value h) + 1) (m_headers m))"
      using that unfolding merge_headers_def by (rule merged_fit [rotated]) simp
    then show ?thesis using length_header_blob [of m] fit by (simp add: fields_fit_def)
  qed
  then show ?thesis by (simp split: option.split)
qed

lemma spelled:
  assumes "key \<in> set (mg_order (merge_headers hs))"
  shows "mg_merged (merge_headers hs) key = Some (on_lines (header_values hs key))"
    "\<exists>h \<in> set hs. mg_spelling (merge_headers hs) key = Some (rh_name h) \<and> lower (rh_name h) = key"
  using joins_headers [of hs] assms by (auto simp: joins_def)

lemma named_setters_high:
  assumes fit: "fields_fit m" and inv: "names_inv ns names" and js: "header_keys ns m js"
  shows "high_only (keyword_setter ns m)" "high_only (header_setters ns m js)"
proof -
  have "position keywords_name ns \<noteq> None" using inv by (simp add: names_inv_def)
  moreover note id = name_id_named [OF inv]
  moreover have "length (string_array (m_keywords m)) < 2 ^ 64" using fit by (simp add: length_string_array fields_fit_def)
  ultimately show "high_only (keyword_setter ns m)" using high_only_one(2) by (simp add: keyword_setter_def set_if_def)
  show "high_only (header_setters ns m js)"
    unfolding header_setters_def header_setter_def
    by (rule high_only_map, rule high_only_one(1)) (use id js merged_fits [OF fit] in \<open>auto simp: header_keys_def\<close>)
qed

lemma message_pc_law:
  assumes fit: "fields_fit m" "length guid = 16" and names: "names_inv ns (bd_names s)"
    and run: "message_pc guid m has n emb s = Some (Inr pc, s')"
  shows "pc_ok pc \<and> bd_subs s' = bd_subs s \<and>
    (\<exists>ns' c1 c2 js. names_inv ns' (bd_names s') \<and> prefix ns ns' \<and> (delivered m \<noteq> 0 \<longrightarrow> c1 = delivered m \<and> c2 = delivered m) \<and>
       header_keys ns' m js \<and> pc = set_all (message_setters guid m has n emb c1 c2 (keyword_setter ns' m) @ header_setters ns' m js) [])"
proof -
  let ?g = "merge_headers (m_headers m)"
  have time: "bd_names t' = bd_names t \<and> bd_subs t' = bd_subs t \<and> (delivered m \<noteq> 0 \<longrightarrow> c = delivered m)"
    if "time_or_now (delivered m) t = Some (Inr c, t')" for c t t'
    using that by (auto simp: time_or_now_def nowUnix_def ret_def split: if_splits)
  obtain c1 s1 c2 s2 kw s3 where 1: "time_or_now (delivered m) s = Some (Inr c1, s1)" "time_or_now (delivered m) s1 = Some (Inr c2, s2)"
      and 2: "keyword_setters m s2 = Some (Inr kw, s3)"
      and 3: "applyHeaderProperties (set_all (text_setters m @
           [setTime PR_MESSAGE_DELIVERY_TIME (unixToFiletime (delivered m)), setTime PR_CLIENT_SUBMIT_TIME (unixToFiletime (sent m)),
            setTime PR_CREATION_TIME (unixToFiletime c1), setTime PR_LAST_MODIFICATION_TIME (unixToFiletime c2)] @
           flag_setters m has @ kw @ id_setters guid m n emb) []) m s3 = Some (Inr pc, s')"
    using run unfolding message_pc_def Let_def bindM_Inr_iff by blast
  have "names_inv ns (bd_names s2)" using names time [OF 1(1)] time [OF 1(2)] by simp
  from keyword_setters_law [OF this 2] obtain ns1 where k: "names_inv ns1 (bd_names s3)" "prefix ns ns1" "bd_subs s3 = bd_subs s2" "kw = keyword_setter ns1 m"
    by blast
  have spell: "\<forall>key \<in> set (mg_order ?g). length (map_at (mg_spelling ?g) key) \<le> kLongestName"
    using spelled(2) fit(1) by (fastforce simp: fields_fit_def)
  have run4: "named_headers ?g (mg_order ?g) (set_all (message_setters guid m has n emb c1 c2 kw) []) s3 = Some (Inr pc, s')"
    using 3 by (simp add: applyHeaderProperties_def Let_def message_setters_def set_all_simps)
  from named_headers_law [OF k(1) spell run4] obtain ns' js where
    js: "names_inv ns' (bd_names s')" "prefix ns1 ns'" "bd_subs s' = bd_subs s3" "header_keys ns' m js"
      "pc = set_all (header_setters ns' m js) (set_all (message_setters guid m has n emb c1 c2 kw) [])"
    unfolding header_keys_def header_setters_def by blast
  have "position keywords_name ns1 \<noteq> None" using k(1) by (simp add: names_inv_def)
  then have "kw = keyword_setter ns' m" using name_id_more [OF _ js(2)] k(4) by (simp add: keyword_setter_def)
  then have pc: "pc = set_all (message_setters guid m has n emb c1 c2 (keyword_setter ns' m) @ header_setters ns' m js) []"
    using js(5) by (simp add: set_all_simps)
  note high = named_setters_high [OF fit(1) js(1,4)]
  have "list_all sound (message_setters guid m has n emb c1 c2 (keyword_setter ns' m) @ header_setters ns' m js)"
    using message_setters_sound [OF high(1) fit] high(2) by (simp add: high_only_def)
  then have "pc_ok pc" unfolding pc by (rule sound_all) simp
  moreover have "prefix ns ns'" using prefix_order.trans [OF k(2) js(2)] .
  moreover have "bd_subs s' = bd_subs s" using js(3) k(3) time [OF 1(1)] time [OF 1(2)] by simp
  moreover have "delivered m \<noteq> 0 \<longrightarrow> c1 = delivered m \<and> c2 = delivered m" using time [OF 1(1)] time [OF 1(2)] by simp
  ultimately show ?thesis using js(1,4) pc by blast
qed

text \<open>The other properties spare the named ones.\<close>

lemma spares_named:
  assumes "named i"
  shows "list_all (spares i) (id_setters guid m n emb)"
    "list_all (spares i) (set_if (header_blob m \<noteq> []) [setString PR_TRANSPORT_MESSAGE_HEADERS (header_blob m)])"
  using assms unfolding id_setters_def by (auto simp: setter_simps)

lemma position_same: "same_name r q \<Longrightarrow> position r ns = position q ns"
proof -
  assume r: "same_name r q"
  have "same_name p r \<longleftrightarrow> same_name p q" for p
    using r same_name_trans [of p r q] same_name_trans [of p q r] same_name_sym [OF r] by blast
  then show ?thesis by (induction ns) simp_all
qed

lemma name_prop_id: "position r ns \<noteq> None \<Longrightarrow> name_prop look ns n r = node_prop look n (name_id ns r)"
  by (auto simp: name_prop_def name_id_def)

lemma categories_left:
  assumes inv: "names_inv ns names" and js: "header_keys ns m js" and kw: "m_keywords m \<noteq> []"
  shows "final (name_id ns keywords_name) (bytes_value (makeTag (name_id ns keywords_name) kPtMvUnicode) (string_array (m_keywords m)))
    (message_setters guid m has n emb c1 c2 (keyword_setter ns m) @ header_setters ns m js)"
proof -
  let ?i = "name_id ns keywords_name"
  have p: "position keywords_name ns \<noteq> None" using inv by (simp add: names_inv_def)
  have guids: "kPsPublicStrings \<noteq> kPsInternetHeaders" using sample_name(5) by simp
  have apart: "?i \<noteq> name_id ns (header_name g key)" if "position (header_name g key) ns \<noteq> None" for g key
    by (rule name_id_apart [OF inv p that]) (simp add: guids)
  have "spares ?i (header_setter ns (merge_headers (m_headers m)) key)" if "key \<in> set js" for key
    using apart [of "merge_headers (m_headers m)" key] js that by (simp add: header_keys_def header_setter_def setter_simps not_sym)
  then have "list_all (spares ?i) (header_setters ns m js)" by (simp add: header_setters_def list_all_iff)
  moreover have "named ?i" by (rule name_id_named [OF inv p])
  moreover have "final ?i (bytes_value (makeTag ?i kPtMvUnicode) (string_array (m_keywords m))) (keyword_setter ns m)"
    using kw by (simp add: keyword_setter_def set_if_def setter_simps)
  ultimately show ?thesis
    unfolding message_setters_def using spares_named [of ?i] by (simp add: final_steps(2))
qed

lemma header_left:
  assumes inv: "names_inv ns names" and js: "header_keys ns m js" and key: "key \<in> set js"
  defines "g \<equiv> merge_headers (m_headers m)"
  shows "final (name_id ns (header_name g key)) (bytes_value (makeTag (name_id ns (header_name g key)) kPtUnicode)
      (utf8ToUtf16le (map_at (mg_merged g) key))) (fs @ header_setters ns m js)"
proof -
  let ?i = "\<lambda>key. name_id ns (header_name g key)"
  have sub: "set js \<subseteq> set (mg_order g)" "distinct js"
    using js joins_headers [of "m_headers m"] set_mono_prefix by (auto simp: header_keys_def joins_def g_def prefix_def)
  have low: "lower (map_at (mg_spelling g) k) = k" if "k \<in> set js" for k
    using spelled(2) [of k "m_headers m"] sub(1) that by (fastforce simp: g_def)
  have pos: "position (header_name g k) ns \<noteq> None" if "k \<in> set js" for k
    using js that by (simp add: header_keys_def g_def)
  have "final (?i key) (bytes_value (makeTag (?i key) kPtUnicode) (utf8ToUtf16le (map_at (mg_merged g) key))) (map (header_setter ns g) js)"
  proof (rule final_map [OF key sub(2)])
    fix y assume y: "y \<in> set js" "y \<noteq> key"
    have "\<not> same_name (header_name g y) (header_name g key)" using low [OF y(1)] low [OF key] y(2) by (simp add: lower_fold)
    from name_id_apart [OF inv pos [OF y(1)] pos [OF key] this] show "spares (?i key) (header_setter ns g y)"
      by (simp add: header_setter_def setter_simps)
  qed (simp add: header_setter_def setter_simps string_bytes_def)
  then show ?thesis by (simp add: final_steps(2) header_setters_def g_def)
qed

lemma kept_keys:
  assumes inv: "names_inv ns names" and js: "header_keys ns m js" and kept: "\<not> left_out ns m"
  shows "js = mg_order (merge_headers (m_headers m))"
proof (rule ccontr)
  let ?g = "merge_headers (m_headers m)"
  assume "js \<noteq> mg_order ?g"
  then obtain key where full: "kMaxNames \<le> length ns" and key: "key \<in> set (mg_order ?g)" "position (header_name ?g key) ns = None"
    using js by (auto simp: header_keys_def)
  obtain h :: raw_header where h: "h \<in> set (m_headers m)" "mg_spelling ?g key = Some (rh_name h)" "lower (rh_name h) = key"
    using spelled(2) [OF key(1)] by blast
  have "key \<notin> set own_headers" using key(1) h(1,3) joins_headers [of "m_headers m"] by (auto simp: joins_def structured_own)
  moreover have "take kMaxNames ns = ns" using names_inv_few [OF inv] by simp
  ultimately have "left_out ns m" using full h key(2) by (auto simp: left_out_def list_ex_iff)
  then show False using kept by simp
qed

lemma named_shownI:
  assumes fit: "fields_fit m" and inv: "names_inv ns names" and js: "header_keys ns m js"
    and pc: "pc = set_all (message_setters guid m has n emb c1 c2 (keyword_setter ns m) @ header_setters ns m js) []"
    and says: "\<And>i v x. pc_look pc i = Some v \<Longrightarrow> value_read (\<lambda>_. None) v = Some x \<Longrightarrow> node_prop look nd i = Some x"
  shows "named_shown look ns nd m"
proof -
  let ?g = "merge_headers (m_headers m)"
  have left: "node_prop look nd (tagId tag) = Some (tagType tag, Inr b)"
    if "final (tagId tag) (bytes_value tag b) (message_setters guid m has n emb c1 c2 (keyword_setter ns m) @ header_setters ns m js)" for tag b
    by (rule says [OF final_look [OF that, of "[]", folded pc]]) (simp add: value_read_def bytes_value_def)
  have "categories_shown look ns nd (m_keywords m)" if kw: "m_keywords m \<noteq> []"
  proof -
    have "position keywords_name ns \<noteq> None" using inv by (simp add: names_inv_def)
    moreover have "read_string_array (string_array (m_keywords m)) = map utf8ToUtf16le (m_keywords m)"
      by (rule string_array_read) (use fit in \<open>simp add: fields_fit_def\<close>)
    moreover have "node_prop look nd (name_id ns keywords_name) = Some (kPtMvUnicode, Inr (string_array (m_keywords m)))"
      using left [of "makeTag (name_id ns keywords_name) kPtMvUnicode"] categories_left [OF inv js kw, of guid has n emb c1 c2] by simp
    ultimately show ?thesis by (simp add: categories_shown_def name_prop_id)
  qed
  moreover have "name_prop look ns nd (StringName kPsInternetHeaders (rh_name h)) =
      Some (kPtUnicode, Inr (utf8ToUtf16le (on_lines (header_values (m_headers m) (rh_name h)))))"
    if kept: "\<not> left_out ns m" and h: "h \<in> set (m_headers m)" "lower (rh_name h) \<notin> set own_headers" for h
  proof -
    let ?key = "lower (rh_name h)"
    have key: "?key \<in> set (mg_order ?g)" using h joins_headers [of "m_headers m"] by (auto simp: joins_def structured_own)
    then have in_js: "?key \<in> set js" using kept_keys [OF inv js kept] by simp
    have merged: "map_at (mg_merged ?g) ?key = on_lines (header_values (m_headers m) (rh_name h))"
      using spelled(1) [OF key] by (simp add: header_values_def)
    obtain h' :: raw_header where h': "mg_spelling ?g ?key = Some (rh_name h')" "lower (rh_name h') = ?key" using spelled(2) [OF key] by blast
    then have same: "same_name (StringName kPsInternetHeaders (rh_name h)) (header_name ?g ?key)" by (simp add: lower_fold)
    have "position (header_name ?g ?key) ns \<noteq> None" using js in_js by (simp add: header_keys_def)
    moreover have "name_prop look ns nd (StringName kPsInternetHeaders (rh_name h)) = name_prop look ns nd (header_name ?g ?key)"
      using position_same [OF same] by (simp add: name_prop_def)
    ultimately show ?thesis
      using left [of "makeTag (name_id ns (header_name ?g ?key)) kPtUnicode"] header_left [OF inv js in_js]
      unfolding merged by (simp add: name_prop_id)
  qed
  ultimately show ?thesis by (simp add: named_shown_def list_all_iff)
qed

end
