(* ===== verification/Message_Store.thy ===== *)
theory Message_Store
  imports Message_Names Table_Rows
begin

section \<open>A built message reads back\<close>

text \<open>
  What a reader of the file finds in the node of a message: its properties, its recipients, its
  attachments and, inside them, the embedded messages, each with everything that belongs to it. The
  specification \<open>stored_message\<close> is recursive like the message; \<open>buildMessage\<close> establishes it.
\<close>

subsection \<open>Tables in subnodes\<close>

lemma op_okI:
  "tagType tag = kPtLong \<Longrightarrow> op_ok (SetInt32 tag w)" "tagType tag = kPtBoolean \<Longrightarrow> op_ok (SetBool tag b)"
  "tagType tag = kPtUnicode \<Longrightarrow> text_fits s \<Longrightarrow> op_ok (SetString tag s)"
  "tagType tag = kPtBinary \<Longrightarrow> length d < 2 ^ 64 \<Longrightarrow> op_ok (SetBinary tag d)"
  using string_bytes_small [of s tag]
  by (simp_all add: op_ok_def cell_ok_def fixed_cell_def variable_cell_def fixedPropSize_def column_width_def)

lemma new_table_columns:
  assumes "distinct ([PidTagLtpRowId, PidTagLtpRowVer] @ cols)" "length cols \<le> 250"
  shows "table_ok (new_table cols) \<and> tb_columns (new_table cols) = [PidTagLtpRowId, PidTagLtpRowVer] @ cols \<and> tb_rows (new_table cols) = []"
proof -
  have "table_ok (fold addColumn cols t) \<and> tb_columns (fold addColumn cols t) = tb_columns t @ cols \<and> tb_rows (fold addColumn cols t) = []"
    if "table_ok t" "distinct (tb_columns t @ cols)" "length (tb_columns t) + length cols < 255" "tb_rows t = []" for t
    using that
  proof (induction cols arbitrary: t)
    case (Cons c cols)
    have c: "addColumn c t = t\<lparr>tb_columns := tb_columns t @ [c]\<rparr>" using Cons.prems(2,4) by (simp add: addColumn_def)
    have ok: "table_ok (addColumn c t)" by (rule table_ok_addColumn [OF Cons.prems(1)]) (use Cons.prems(3) in simp)
    show ?case using Cons.IH [OF ok] Cons.prems(2,3,4) by (simp add: c)
  qed simp
  from this [OF table_ok_new] show ?thesis using assms by (simp add: new_table_def TableContext_new_def)
qed

lemma with_subs_run:
  "with_subs m s = Some (r, s') \<longleftrightarrow> (\<exists>t. m (s\<lparr>bd_subs := SubnodeAllocator_new (sa_ndb (bd_subs s))\<rparr>) = Some (r, t) \<and>
     s' = t\<lparr>bd_subs := (bd_subs s)\<lparr>sa_ndb := sa_ndb (bd_subs t)\<rparr>\<rparr>)"
  by (auto simp: with_subs_def zoomM_def split: option.splits)

lemma bd_on_subs_run: "bd_on_subs m s = Some (r, s') \<longleftrightarrow> (\<exists>u. m (bd_subs s) = Some (r, u) \<and> s' = s\<lparr>bd_subs := u\<rparr>)"
  by (auto simp: bd_on_subs_def zoomM_def split: option.splits)

text \<open>The subnodes of a node grow by one, whose content is on the file.\<close>

definition adds_node :: "nid \<Rightarrow> bid \<times> bid \<Rightarrow> build \<Rightarrow> build \<Rightarrow> bool" where
  "adds_node i nd s s' \<longleftrightarrow> bd_names s' = bd_names s \<and> preserves (sa_ndb (bd_subs s)) (sa_ndb (bd_subs s')) \<and>
     sa_entries (bd_subs s') = sa_entries (bd_subs s) @ [\<lparr>sn_nid = i, sn_data = fst nd, sn_sub = snd nd\<rparr>]"

lemma subs_ok_later: "subs_ok k u \<Longrightarrow> store_ok d \<Longrightarrow> subs_ok k (u\<lparr>sa_ndb := d\<rparr>)"
  by (simp add: subs_ok_def)

text \<open>A table written in an allocator of its own and added as a subnode.\<close>

lemma table_subnode_law:
  assumes ok: "subs_ok k (bd_subs s)" and i: "nidType i \<noteq> kNidTypeLtp" "i \<notin> set (map sn_nid (sa_entries (bd_subs s)))"
    and t: "table_ok t" "length (tb_rows t) * length (tb_columns t) < 2 ^ 26" "tb_columns t \<noteq> []"
    and run: "bindM (with_subs (bd_on_subs (table_node t))) (\<lambda>(data, sub). bd_on_subs (add_subnode i data sub)) s = Some (Inr (), s')"
  shows "\<exists>nd. adds_node i nd s s' \<and> subs_ok k (bd_subs s') \<and>
    (\<forall>row_id tag c. table_cell t row_id tag = Some c \<longrightarrow> node_cell (lookup_block (sa_ndb (bd_subs s'))) nd row_id tag = Some c)"
proof -
  let ?d = "sa_ndb (bd_subs s)"
  have st: "store_ok ?d" using ok by (simp add: subs_ok_def)
  obtain nd s1 where 1: "with_subs (bd_on_subs (table_node t)) s = Some (Inr nd, s1)"
      and 2: "bd_on_subs (add_subnode i (fst nd) (snd nd)) s1 = Some (Inr (), s')"
    using run by (auto simp: bindM_Inr_iff split_beta)
  obtain u where u: "table_node t (SubnodeAllocator_new ?d) = Some (Inr nd, u)" "s1 = s\<lparr>bd_subs := (bd_subs s)\<lparr>sa_ndb := sa_ndb u\<rparr>\<rparr>"
    using 1 by (auto simp: with_subs_run bd_on_subs_run)
  have "length (tb_rows t) \<le> length (tb_rows t) * length (tb_columns t)" using t(3) by (cases "tb_columns t") simp_all
  from order_le_less_trans [OF this t(2)] have rows: "length (tb_rows t) < 2 ^ 32" by simp
  have "subs_ok (0 + Suc (length (tb_rows t) * length (tb_columns t))) (SubnodeAllocator_new ?d)"
    using st t(2) by (intro subs_ok_new) simp_all
  note law = table_node_law [OF this t(1) rows u(1)]
  have pres: "preserves ?d (sa_ndb u)" "store_ok (sa_ndb u)" using law by (simp_all add: subs_ext_def SubnodeAllocator_new_def subs_ok_def)
  have ok1: "subs_ok k (bd_subs s1)" using subs_ok_later [OF ok pres(2)] by (simp add: u(2))
  have fresh: "i \<notin> set (map sn_nid (sa_entries (bd_subs s1)))" using i(2) by (simp add: u(2))
  obtain u' where u': "add_subnode i (fst nd) (snd nd) (bd_subs s1) = Some (Inr (), u')" "s' = s1\<lparr>bd_subs := u'\<rparr>"
    using 2 by (auto simp: bd_on_subs_run)
  note a = add_subnode_law [OF ok1 i(1) fresh, of "fst nd" "snd nd"]
  then show ?thesis using law pres u' u(2) by (intro exI [of _ nd]) (auto simp: adds_node_def)
qed

subsection \<open>Recipients\<close>

definition recipient_cells :: "32 word \<times> 32 word \<times> mailbox \<Rightarrow> 32 word \<times> cell_op list" where
  "recipient_cells = (\<lambda>(row_id, type, m). let eid = oneOffEntryId (display_name m) (mb_email m) in
     (row_id, [SetInt32 PR_RECIPIENT_TYPE type, SetString PR_DISPLAY_NAME (display_name m), SetString PR_7BIT_DISPLAY_NAME (display_name m),
       SetString PR_EMAIL_ADDRESS (mb_email m), SetString PR_ADDRTYPE ''SMTP'', SetInt32 PR_OBJECT_TYPE MAPI_MAILUSER,
       SetInt32 PR_DISPLAY_TYPE DT_MAILUSER, SetBool PR_RESPONSIBILITY False, SetBool PR_SEND_RICH_INFO False,
       SetBinary PR_ENTRYID eid, SetBinary PR_RECORD_KEY eid, SetBinary PR_SEARCH_KEY (bytes_of (recipient_key (mb_email m)))]))"

lemma add_recipient_eq: "add_recipient r = fill_row (recipient_cells r)"
  by (cases r) (simp add: add_recipient_def recipient_cells_def fill_row_def Let_def)

text \<open>What the table of recipients says of one.\<close>

definition shows_cell :: "blocks \<Rightarrow> bid \<times> bid \<Rightarrow> 32 word \<Rightarrow> prop_tag \<Rightarrow> bytes \<Rightarrow> bool" where
  "shows_cell look n row tag b \<longleftrightarrow> node_cell look n row tag = Some (Some b)"

definition recipient_shown :: "blocks \<Rightarrow> bid \<times> bid \<Rightarrow> 32 word \<times> 32 word \<times> mailbox \<Rightarrow> bool" where
  "recipient_shown look n = (\<lambda>(row_id, type, m).
     shows_cell look n row_id PR_RECIPIENT_TYPE (le_bytes 4 type) \<and>
     shows_cell look n row_id PR_DISPLAY_NAME (utf8ToUtf16le (display_name m)) \<and>
     shows_cell look n row_id PR_7BIT_DISPLAY_NAME (utf8ToUtf16le (display_name m)) \<and>
     shows_cell look n row_id PR_EMAIL_ADDRESS (utf8ToUtf16le (mb_email m)) \<and>
     shows_cell look n row_id PR_ADDRTYPE (utf8ToUtf16le ''SMTP'') \<and>
     shows_cell look n row_id PR_OBJECT_TYPE (le_bytes 4 MAPI_MAILUSER) \<and>
     shows_cell look n row_id PR_DISPLAY_TYPE (le_bytes 4 DT_MAILUSER) \<and>
     shows_cell look n row_id PR_ENTRYID (oneOffEntryId (display_name m) (mb_email m)) \<and>
     shows_cell look n row_id PR_RECORD_KEY (oneOffEntryId (display_name m) (mb_email m)) \<and>
     shows_cell look n row_id PR_SEARCH_KEY (bytes_of (recipient_key (mb_email m))))"

definition mailbox_fits :: "mailbox \<Rightarrow> bool" where
  "mailbox_fits m \<longleftrightarrow> text_fits (mb_name m) \<and> text_fits (mb_email m)"

definition recipients_fit :: "message_fields \<Rightarrow> bool" where
  "recipients_fit m \<longleftrightarrow> (\<forall>b \<in> set (m_to m @ m_cc m @ m_bcc m). mailbox_fits b) \<and> length (m_to m @ m_cc m @ m_bcc m) < 2 ^ 20"

lemma recipients_ids:
  assumes "recipients_fit m"
  shows "distinct (map fst (recipients m))" "length (recipients m) < 2 ^ 20" "r \<in> set (recipients m) \<Longrightarrow> mailbox_fits (snd (snd r))"
proof -
  let ?l = "map (Pair MAPI_TO) (m_to m) @ map (Pair MAPI_CC) (m_cc m) @ map (Pair MAPI_BCC) (m_bcc m)"
  have n: "length ?l < 2 ^ 20" using assms by (simp add: recipients_fit_def)
  then show "length (recipients m) < 2 ^ 20" by (simp add: recipients_def)
  have "map fst (recipients m) = map of_nat (map fst (enumerate 1 ?l))"
    unfolding recipients_def by (simp add: comp_def split_beta del: map_fst_enumerate enumerate_append_eq)
  then have "map fst (recipients m) = map of_nat [1..<1 + length ?l]" by (simp only: map_fst_enumerate)
  moreover have "inj_on (of_nat :: nat \<Rightarrow> 32 word) {1..<1 + length ?l}"
  proof (rule inj_onI)
    fix x y assume xy: "x \<in> {1..<1 + length ?l}" "y \<in> {1..<1 + length ?l}" "(of_nat x :: 32 word) = of_nat y"
    have "unat (of_nat z :: 32 word) = z" if "z \<in> {1..<1 + length ?l}" for z
      by (rule unat_small) (use n that in simp)
    then show "x = y" using xy by metis
  qed
  ultimately show "distinct (map fst (recipients m))" by (simp add: distinct_map del: upt_Suc)
  show "mailbox_fits (snd (snd r))" if "r \<in> set (recipients m)"
    using that assms by (auto simp: recipients_def recipients_fit_def enumerate_eq_zip dest!: set_zip_rightD)
qed

lemma makeTag_inject: "makeTag i t = makeTag j u \<longleftrightarrow> i = j \<and> t = u"
  by (metis tag_parts)

lemma recipient_columns:
  "table_ok (new_table recipientColumns) \<and> tb_columns (new_table recipientColumns) = [PidTagLtpRowId, PidTagLtpRowVer] @ recipientColumns \<and>
    tb_rows (new_table recipientColumns) = []"
  by (rule new_table_columns) (simp_all add: recipientColumns_def makeTag_inject)

lemma recipient_cells_ok: "mailbox_fits (snd (snd r)) \<Longrightarrow> row_ok (tb_columns (new_table recipientColumns)) (recipient_cells r)"
proof -
  assume m: "mailbox_fits (snd (snd r))"
  obtain i ty m where r: "r = (i, ty, m)" by (cases r) auto
  have fit: "text_fits (display_name m)" "text_fits (mb_email m)" using m r by (auto simp: mailbox_fits_def display_name_def)
  have eid: "length (oneOffEntryId (display_name m) (mb_email m)) < 2 ^ 64"
    using fit length_utf8ToUtf16le [of "display_name m"] length_utf8ToUtf16le [of "mb_email m"] length_utf8ToUtf16le [of "''SMTP''"]
    by (simp add: oneOffEntryId_def put_string_def put16_def put32_def kOneOffUid_def)
  have key: "length (bytes_of (recipient_key (mb_email m))) < 2 ^ 64" using fit by (simp add: recipient_key_def)
  show ?thesis
    unfolding conjunct1 [OF conjunct2 [OF recipient_columns]] using op_okI fit eid key
    by (simp add: r recipient_cells_def row_ok_def Let_def makeTag_inject recipientColumns_def)
qed

lemma recipient_cells_fst [simp]: "fst (recipient_cells r) = fst r"
  by (cases r) (simp add: recipient_cells_def Let_def)

lemma row_shown_recipient:
  assumes "row_shown t (recipient_cells r)"
    and cells: "\<And>row_id tag c. table_cell t row_id tag = Some c \<Longrightarrow> node_cell look n row_id tag = Some c"
  shows "recipient_shown look n r"
proof -
  obtain i ty m where r: "r = (i, ty, m)" by (cases r) auto
  show ?thesis
    using assms(1) by (auto simp: r row_shown_def recipient_cells_def recipient_shown_def shows_cell_def Let_def string_bytes_def cells fixed_cell_def variable_cell_def)
qed

lemma recipient_table_law:
  assumes ok: "subs_ok k (bd_subs s)" and fresh: "kNidRecipientTable \<notin> set (map sn_nid (sa_entries (bd_subs s)))"
    and fit: "recipients_fit m" and run: "recipient_table m s = Some (Inr (), s')"
  shows "\<exists>nd. adds_node kNidRecipientTable nd s s' \<and> subs_ok k (bd_subs s') \<and>
    list_all (recipient_shown (lookup_block (sa_ndb (bd_subs s'))) nd) (recipients m)"
proof -
  let ?t0 = "new_table recipientColumns" and ?rows = "map recipient_cells (recipients m)"
  note cols = recipient_columns
  note ids = recipients_ids [OF fit]
  have "distinct (map tr_id (tb_rows ?t0) @ map fst ?rows)" using ids(1) cols by (simp add: comp_def)
  moreover have "\<forall>r \<in> set ?rows. row_ok (tb_columns ?t0) r" using ids(3) recipient_cells_ok by simp
  ultimately obtain t where t: "forM fill_row ?rows ?t0 = Some (Inr (), t)" "table_ok t" "tb_columns t = tb_columns ?t0"
      "map tr_id (tb_rows t) = map fst ?rows" "\<forall>r \<in> set ?rows. row_shown t r"
    using fill_rows_cells [of ?t0 ?rows] cols by auto
  have rows: "forM add_recipient rs = forM fill_row (map recipient_cells rs)" for rs
    by (induction rs) (simp_all add: add_recipient_eq)
  have "length (tb_rows t) = length (recipients m)" using arg_cong [OF t(4), of length] by simp
  moreover have "length (tb_columns t) = 14" using t(3) cols by (simp add: recipientColumns_def)
  ultimately have size: "length (tb_rows t) * length (tb_columns t) < 2 ^ 26" "tb_columns t \<noteq> []" using ids(2) by auto
  have "bindM (with_subs (bd_on_subs (table_node t))) (\<lambda>(data, sub). bd_on_subs (add_subnode kNidRecipientTable data sub)) s = Some (Inr (), s')"
    using run t(1) by (simp add: recipient_table_def rows bindM_def local_object_def)
  from table_subnode_law [OF ok _ fresh t(2) size this] obtain nd where nd: "adds_node kNidRecipientTable nd s s'" "subs_ok k (bd_subs s')"
      "\<And>row_id tag c. table_cell t row_id tag = Some c \<Longrightarrow> node_cell (lookup_block (sa_ndb (bd_subs s'))) nd row_id tag = Some c"
    by (auto simp: nidType_def)
  have "recipient_shown (lookup_block (sa_ndb (bd_subs s'))) nd r" if "r \<in> set (recipients m)" for r
    by (rule row_shown_recipient [OF _ nd(3)], use t(5) that in auto)
  then show ?thesis using nd(1,2) by (intro exI [of _ nd]) (simp add: list_all_iff)
qed

subsection \<open>The specification\<close>

text \<open>What an attachment's node, and its row in the table of attachments, say of it.\<close>

definition attachment_shown :: "blocks \<Rightarrow> bid \<times> bid \<Rightarrow> nat \<Rightarrow> 'm attachment \<Rightarrow> bool" where
  "attachment_shown look n i a \<longleftrightarrow>
     shows_word look n PR_ATTACH_METHOD (attachment_method a) \<and>
     shows_word look n PR_ATTACH_NUM (of_nat i) \<and>
     shows_word look n PR_ATTACH_RENDERING_POS 0xFFFFFFFF \<and>
     shows_word look n PR_OBJECT_TYPE MAPI_ATTACH \<and>
     shows_text look n PR_DISPLAY_NAME (attachment_name i (at_filename a)) \<and>
     shows_text look n PR_ATTACH_FILENAME (attachment_name i (at_filename a)) \<and>
     shows_text look n PR_ATTACH_LONG_FILENAME (attachment_name i (at_filename a)) \<and>
     (at_content_type a \<noteq> [] \<longrightarrow> shows_text look n PR_ATTACH_MIME_TAG (at_content_type a)) \<and>
     (at_content_id a \<noteq> [] \<longrightarrow> shows_text look n PR_ATTACH_CONTENT_ID (at_content_id a)) \<and>
     shows_word look n PR_ATTACH_SIZE (attachment_size i a)"

definition attachment_listed :: "blocks \<Rightarrow> bid \<times> bid \<Rightarrow> nat \<Rightarrow> 'm attachment \<Rightarrow> bool" where
  "attachment_listed look n i a \<longleftrightarrow>
     shows_cell look n (attachment_nid i) PR_DISPLAY_NAME (utf8ToUtf16le (attachment_name i (at_filename a))) \<and>
     shows_cell look n (attachment_nid i) PR_ATTACH_LONG_FILENAME (utf8ToUtf16le (attachment_name i (at_filename a))) \<and>
     shows_cell look n (attachment_nid i) PR_ATTACH_FILENAME (utf8ToUtf16le (attachment_name i (at_filename a))) \<and>
     shows_cell look n (attachment_nid i) PR_ATTACH_NUM (le_bytes 4 (of_nat i :: 32 word)) \<and>
     shows_cell look n (attachment_nid i) PR_ATTACH_RENDERING_POS (le_bytes 4 (0xFFFFFFFF :: 32 word)) \<and>
     shows_cell look n (attachment_nid i) PR_ATTACH_METHOD (le_bytes 4 (attachment_method a)) \<and>
     shows_cell look n (attachment_nid i) PR_ATTACH_SIZE (le_bytes 4 (attachment_size i a)) \<and>
     shows_cell look n (attachment_nid i) PR_ATTACH_MIME_TAG (utf8ToUtf16le (at_content_type a))"

text \<open>
  The payload: the octets, or a message in a subnode that the object property refers to; of an
  embedded message, what is known to be stored is given as a predicate of its node.
\<close>

definition payload_stored :: "blocks \<Rightarrow> bid \<times> bid \<Rightarrow> (bid \<times> bid \<Rightarrow> bool) attachment \<Rightarrow> bool" where
  "payload_stored look n a \<longleftrightarrow>
     (case at_embedded a of
        None \<Rightarrow> shows_prop look n PR_ATTACH_DATA_BIN (at_data a)
      | Some inner \<Rightarrow>
          (case node_prop look n (tagId PR_ATTACH_DATA_OBJ) of
             Some (t, Inr b) \<Rightarrow> t = kPtObject \<and> take 4 b = le_bytes 4 emb_nid
           | _ \<Rightarrow> False) \<and>
          (case node_sub look n emb_nid of None \<Rightarrow> False | Some e \<Rightarrow> inner e))"

definition attachment_stored :: "blocks \<Rightarrow> bid \<times> bid \<Rightarrow> bid \<times> bid \<Rightarrow> nat \<Rightarrow> (bid \<times> bid \<Rightarrow> bool) attachment \<Rightarrow> bool" where
  "attachment_stored look n table i a \<longleftrightarrow>
     attachment_listed look table i a \<and>
     (case node_sub look n (attachment_nid i) of None \<Rightarrow> False | Some e \<Rightarrow> attachment_shown look e i a \<and> payload_stored look e a)"

text \<open>
  A message in a node: its fields, its named properties by a table of names, its recipients and, one
  by one, its attachments.
\<close>

primrec stored_message :: "blocks \<Rightarrow> request list \<Rightarrow> message \<Rightarrow> bid \<times> bid \<Rightarrow> bool" where
  "stored_message look ns (Message m as) = (\<lambda>n.
     node_sig look n = Some (kHnSignature, kHnSigPC) \<and> fields_shown look n m (as \<noteq> []) \<and> named_shown look ns n m \<and>
     (case node_sub look n kNidRecipientTable of None \<Rightarrow> False | Some e \<Rightarrow> list_all (recipient_shown look e) (recipients m)) \<and>
     (case node_sub look n kNidAttachmentTable of None \<Rightarrow> False
      | Some e \<Rightarrow> list_all (\<lambda>(i, a). attachment_stored look n e i a) (enumerate 0 (map (map_attachment (stored_message look ns)) as))))"

text \<open>The bounds: texts and payloads of a size a file can have, counts an allocator can number.\<close>

definition attachment_fits :: "bool attachment \<Rightarrow> bool" where
  "attachment_fits a \<longleftrightarrow> text_fits (at_filename a) \<and> text_fits (at_content_type a) \<and> text_fits (at_content_id a) \<and>
     length (at_data a) < 2 ^ 64 \<and> at_embedded a \<noteq> Some False"

primrec message_fits :: "message \<Rightarrow> bool" where
  "message_fits (Message m as) \<longleftrightarrow> fields_fit m \<and> recipients_fit m \<and> length as < 2 ^ 20 \<and>
     list_all attachment_fits (map (map_attachment message_fits) as)"

subsection \<open>What is stored stays\<close>

lemma shows_more:
  assumes "more_blocks look look'"
  shows "shows_prop look n tag b \<Longrightarrow> shows_prop look' n tag b" "shows_word look n tag w \<Longrightarrow> shows_word look' n tag w"
    "shows_text look n tag x \<Longrightarrow> shows_text look' n tag x" "shows_cell look n row tag b \<Longrightarrow> shows_cell look' n row tag b"
  using node_prop_more [OF assms] node_cell_more [OF assms]
  by (simp_all add: shows_prop_def shows_word_def shows_text_def shows_cell_def)

lemma shown_more:
  assumes "more_blocks look look'"
  shows "fields_shown look n m has \<Longrightarrow> fields_shown look' n m has"
    "recipient_shown look n r \<Longrightarrow> recipient_shown look' n r"
    "attachment_shown look n i a \<Longrightarrow> attachment_shown look' n i a"
    "attachment_listed look n i a \<Longrightarrow> attachment_listed look' n i a"
  unfolding fields_shown_def recipient_shown_def attachment_shown_def attachment_listed_def
  using shows_more [OF assms] by (simp_all split: prod.splits)

lemma map_embedded:
  "at_embedded (map_attachment f a) = map_option f (at_embedded a)" "at_filename (map_attachment f a) = at_filename a"
  "at_content_type (map_attachment f a) = at_content_type a" "at_content_id (map_attachment f a) = at_content_id a"
  "at_data (map_attachment f a) = at_data a" "attachment_method (map_attachment f a) = attachment_method a"
  "attachment_size i (map_attachment f a) = attachment_size i a"
  by (cases a; simp add: attachment_method_def attachment_size_def)+

lemma attachment_shown_map [simp]:
  "attachment_shown look n i (map_attachment f a) = attachment_shown look n i a"
  "attachment_listed look n i (map_attachment f a) = attachment_listed look n i a"
  by (simp_all add: attachment_shown_def attachment_listed_def map_embedded)

lemma payload_stored_more:
  assumes more: "more_blocks look look'" and inner: "\<And>msg e. at_embedded a = Some msg \<Longrightarrow> f msg e \<Longrightarrow> f' msg e"
    and p: "payload_stored look n (map_attachment f a)"
  shows "payload_stored look' n (map_attachment f' a)"
proof (cases "at_embedded a")
  case None
  then show ?thesis using p shows_more(1) [OF more] by (simp add: payload_stored_def map_embedded)
next
  case (Some msg)
  obtain b e where b: "node_prop look n (tagId PR_ATTACH_DATA_OBJ) = Some (kPtObject, Inr b)" "take 4 b = le_bytes 4 emb_nid"
      and e: "node_sub look n emb_nid = Some e" "f msg e"
    using p Some by (auto simp: payload_stored_def map_embedded split: option.splits sum.splits)
  show ?thesis
    using b e(2) node_prop_more [OF more b(1)] node_sub_more [OF more e(1)] inner [OF Some]
    by (simp add: payload_stored_def map_embedded Some)
qed

lemma name_prop_more: "more_blocks look look' \<Longrightarrow> prefix ns ns' \<Longrightarrow> name_prop look ns n r = Some x \<Longrightarrow> name_prop look' ns' n r = Some x"
  by (auto simp: name_prop_def bind_eq_Some_conv dest: position_more node_prop_more)

lemma named_shown_more:
  assumes "more_blocks look look'" "prefix ns ns'" "named_shown look ns n m"
  shows "named_shown look' ns' n m"
proof -
  have "categories_shown look' ns' n (m_keywords m)" if c: "categories_shown look ns n (m_keywords m)"
  proof -
    obtain y where y: "name_prop look ns n keywords_name = Some y" using c by (cases "name_prop look ns n keywords_name") (simp_all add: categories_shown_def)
    show ?thesis using c name_prop_more [OF assms(1,2) y] unfolding categories_shown_def y by simp
  qed
  moreover have "left_out ns' m" if "left_out ns m" using that assms(2) by (auto simp: left_out_def prefix_def)
  ultimately show ?thesis
    using assms(3) name_prop_more [OF assms(1,2)] unfolding named_shown_def list_all_iff by blast
qed

lemma ids_shown_more: "more_blocks look look' \<Longrightarrow> ids_shown look guid i n \<Longrightarrow> ids_shown look' guid i n"
  using shows_more(1) by (simp add: ids_shown_def)

lemma stored_message_more:
  assumes "more_blocks look look'" "prefix ns ns'"
  shows "stored_message look ns msg n \<Longrightarrow> stored_message look' ns' msg n"
proof (induction msg arbitrary: n)
  case (Message m as)
  note st = Message.prems [unfolded stored_message.simps]
  obtain rt at where rt: "node_sub look n kNidRecipientTable = Some rt" and at: "node_sub look n kNidAttachmentTable = Some at"
    using st by (auto split: option.splits)
  have "attachment_stored look' n at i (map_attachment (stored_message look' ns') (as ! i))" if i: "i < length as" for i
  proof -
    have "attachment_stored look n at i (map_attachment (stored_message look ns) (as ! i))"
      using st at i by (auto simp: list_all_length nth_enumerate_eq)
    then obtain e where e: "attachment_listed look at i (as ! i)" "node_sub look n (attachment_nid i) = Some e"
        "attachment_shown look e i (as ! i)" "payload_stored look e (map_attachment (stored_message look ns) (as ! i))"
      by (auto simp: attachment_stored_def split: option.splits)
    have "payload_stored look' e (map_attachment (stored_message look' ns') (as ! i))"
    proof (rule payload_stored_more [OF assms(1) _ e(4)])
      show "stored_message look' ns' msg d" if "at_embedded (as ! i) = Some msg" "stored_message look ns msg d" for msg d
        by (rule Message.IH [OF nth_mem [OF i] _ that(2)], use that(1) in \<open>cases "as ! i"; simp\<close>)
    qed
    then show ?thesis
      using e node_sub_more [OF assms(1) e(2)] by (simp add: attachment_stored_def shown_more [OF assms(1)])
  qed
  then show ?case
    using st rt at node_sub_more [OF assms(1) rt] node_sub_more [OF assms(1) at] shown_more [OF assms(1)]
      node_sig_more [OF assms(1)] named_shown_more [OF assms]
    by (auto simp: list_all_length nth_enumerate_eq)
qed

subsection \<open>Attachments\<close>

definition attachment_setters :: "nat \<Rightarrow> 'm attachment \<Rightarrow> setter list" where
  "attachment_setters i a =
     (let name = attachment_name i (at_filename a) in
       [setInt32 PR_ATTACH_METHOD (attachment_method a), setInt32 PR_ATTACH_NUM (of_nat i),
         setInt32 PR_ATTACH_RENDERING_POS 0xFFFFFFFF, setInt32 PR_OBJECT_TYPE MAPI_ATTACH, setString PR_DISPLAY_NAME name,
         setString PR_ATTACH_FILENAME name, setString PR_ATTACH_LONG_FILENAME name] @
        set_if (at_content_type a \<noteq> []) [setString PR_ATTACH_MIME_TAG (at_content_type a)] @
        set_if (at_content_id a \<noteq> []) [setString PR_ATTACH_CONTENT_ID (at_content_id a)] @
        [setInt32 PR_ATTACH_SIZE (attachment_size i a)])"

lemma attachment_pc_eq: "attachment_pc i a = set_all (attachment_setters i a) []"
  by (simp add: attachment_pc_def attachment_setters_def Let_def)

definition texts_fit :: "'m attachment \<Rightarrow> bool" where
  "texts_fit a \<longleftrightarrow> text_fits (at_filename a) \<and> text_fits (at_content_type a) \<and> text_fits (at_content_id a) \<and> length (at_data a) < 2 ^ 64"

lemma length_to_string: "length (to_string n) \<le> Suc n"
proof (induction n rule: less_induct)
  case (less n)
  show ?case
  proof (cases "n < 10")
    case False
    then have "length (to_string (n div 10)) \<le> Suc (n div 10)" using less by simp
    moreover have "to_string n = to_string (n div 10) @ [char_of (48 + n mod 10)]" using False by (simp add: to_string.simps [of n])
    ultimately show ?thesis using False by simp
  qed (simp add: to_string.simps)
qed

lemma attachment_name_fits: "text_fits name \<Longrightarrow> i < 2 ^ 20 \<Longrightarrow> text_fits (attachment_name i name)"
  using length_to_string [of "i + 1"] by (auto simp: attachment_name_def)

text \<open>A property context has at most as many properties as there are ids.\<close>

lemma pc_ok_length: "pc_ok pc \<Longrightarrow> length pc \<le> 65536"
proof -
  assume "pc_ok pc"
  then have "length pc = card (set (pc_ids pc))" by (metis pc_ok_def distinct_card length_map)
  also have "\<dots> \<le> card (UNIV :: 16 word set)" by (intro card_mono) simp_all
  finally show ?thesis by (simp add: card_word)
qed

text \<open>The object property or the spilled one comes last.\<close>

lemma attachment_finals:
  assumes f: "f = pc_put tag v" "tagId tag = 0x3701"
  shows "final 0x3701 (v\<lparr>pv_tag := tag\<rparr>) (attachment_setters i a @ [f])"
    "final 0x3705 (inline_value PR_ATTACH_METHOD (attachment_method a)) (attachment_setters i a @ [f])"
    "final 0xE21 (inline_value PR_ATTACH_NUM (of_nat i)) (attachment_setters i a @ [f])"
    "final 0x370B (inline_value PR_ATTACH_RENDERING_POS 0xFFFFFFFF) (attachment_setters i a @ [f])"
    "final 0xFFE (inline_value PR_OBJECT_TYPE MAPI_ATTACH) (attachment_setters i a @ [f])"
    "final 0x3001 (bytes_value PR_DISPLAY_NAME (utf8ToUtf16le (attachment_name i (at_filename a)))) (attachment_setters i a @ [f])"
    "final 0x3704 (bytes_value PR_ATTACH_FILENAME (utf8ToUtf16le (attachment_name i (at_filename a)))) (attachment_setters i a @ [f])"
    "final 0x3707 (bytes_value PR_ATTACH_LONG_FILENAME (utf8ToUtf16le (attachment_name i (at_filename a)))) (attachment_setters i a @ [f])"
    "at_content_type a \<noteq> [] \<Longrightarrow> final 0x370E (bytes_value PR_ATTACH_MIME_TAG (utf8ToUtf16le (at_content_type a))) (attachment_setters i a @ [f])"
    "at_content_id a \<noteq> [] \<Longrightarrow> final 0x3712 (bytes_value PR_ATTACH_CONTENT_ID (utf8ToUtf16le (at_content_id a))) (attachment_setters i a @ [f])"
    "final 0xE20 (inline_value PR_ATTACH_SIZE (attachment_size i a)) (attachment_setters i a @ [f])"
  unfolding attachment_setters_def Let_def
  by (simp_all add: setter_simps string_bytes_def f pc_put_spares pc_put_settles del: final.simps(2) split del: if_split)

lemma attachment_node_law:
  assumes ok: "subs_ok (2 ^ 20) u" and fit: "texts_fit a" "i < 2 ^ 20"
    and f: "f = pc_put tag v" "tagId tag = 0x3701" "sound f" and x: "value_read (sub_look u) (v\<lparr>pv_tag := tag\<rparr>) = Some x"
    and run: "pc_node (f (attachment_pc i a)) u = Some (Inr nd, u')"
  defines "look \<equiv> lookup_block (sa_ndb u')"
  shows "subs_ok 0 u' \<and> subs_ext u u' \<and> attachment_shown look nd i a \<and> node_prop look nd 0x3701 = Some x \<and>
    (\<forall>i e. find (\<lambda>e. sn_nid e = i) (sa_entries u) = Some e \<longrightarrow> node_sub look nd i = Some (sn_data e, sn_sub e))"
proof -
  let ?fs = "attachment_setters i a @ [f]"
  have pc: "f (attachment_pc i a) = set_all ?fs []" by (simp add: attachment_pc_eq set_all_simps)
  have "list_all sound ?fs"
    using fit f(3) attachment_name_fits unfolding attachment_setters_def texts_fit_def Let_def by (simp add: setter_simps)
  then have pcok: "pc_ok (set_all ?fs [])" by (rule sound_all) simp
  have "subs_ok (0 + length (set_all ?fs [])) u" using pc_ok_length [OF pcok] by (intro subs_ok_mono [OF ok]) simp
  note law = pc_node_law [OF this pcok run [unfolded pc], folded look_def]
  have says: "node_prop look nd j = Some y" if "final j w ?fs" "value_read (sub_look u) w = Some y" for j w y
    using law final_look [OF that(1)] that(2) by blast
  note fin = attachment_finals [OF f(1,2), where i = i and a = a]
  have "attachment_shown look nd i a"
    unfolding attachment_shown_def shows_word_def shows_text_def shows_prop_def
    using fin(2-)
    by (auto intro!: says simp: value_read_def inline_value_def bytes_value_def)
  then show ?thesis using law says [OF fin(1) x] by blast
qed

text \<open>What is to be shown of a message, and assumed of the messages embedded in it.\<close>

definition message_law :: "bytes \<Rightarrow> message \<Rightarrow> bool" where
  "message_law guid msg \<longleftrightarrow> (\<forall>nid emb s ns heap flags sz s1 nd u.
     bd_subs s = SubnodeAllocator_new (sa_ndb (bd_subs s)) \<longrightarrow> store_ok (sa_ndb (bd_subs s)) \<longrightarrow> names_inv ns (bd_names s) \<longrightarrow>
     buildMessage guid msg nid emb s = Some (Inr (heap, flags, sz), s1) \<longrightarrow> store_heap heap (bd_subs s1) = Some (Inr nd, u) \<longrightarrow>
     store_ok (sa_ndb u) \<and> preserves (sa_ndb (bd_subs s)) (sa_ndb u) \<and>
     (\<exists>ns'. names_inv ns' (bd_names s1) \<and> prefix ns ns' \<and> stored_message (lookup_block (sa_ndb u)) ns' msg nd) \<and>
     (\<not> emb \<longrightarrow> ids_shown (lookup_block (sa_ndb u)) guid nid nd))"

definition attachment_object :: "bytes \<Rightarrow> nat \<Rightarrow> message attachment \<Rightarrow> (build, pc) prog" where
  "attachment_object guid i a =
     (case a of Attachment filename content_type content_id inl dat (Some msg) \<Rightarrow>
        bindM (with_subs
          (bindM (buildMessage guid msg emb_nid True) (\<lambda>(heap, flags, size).
           bindM (bd_on_subs (store_heap heap)) (\<lambda>(data, sub). ret (data, sub, size))))) (\<lambda>(data, sub, size).
        bindM (bd_on_subs (add_subnode emb_nid data sub)) (\<lambda>_.
        ret (setObject PR_ATTACH_DATA_OBJ emb_nid size (attachment_pc i a))))
      | Attachment filename content_type content_id inl dat None \<Rightarrow>
        bindM (bd_on_subs (spill dat)) (\<lambda>payload.
        ret (setSpilledValue PR_ATTACH_DATA_BIN payload (attachment_pc i a))))"

lemma fresh_subs:
  assumes "store_ok d"
  shows "subs_ok (Suc (2 ^ 20)) (SubnodeAllocator_new d)" "subs_ok (2 ^ 20) (SubnodeAllocator_new d)"
  by (rule subs_ok_new [OF assms], simp)+

lemma embedded_law:
  assumes s: "bd_subs s = SubnodeAllocator_new d" "store_ok d" "names_inv ns (bd_names s)"
    and inner: "message_law guid msg"
    and run: "with_subs (bindM (buildMessage guid msg emb_nid True) (\<lambda>(heap, flags, size).
       bindM (bd_on_subs (store_heap heap)) (\<lambda>(data, sub). ret (data, sub, size)))) s = Some (Inr (data, sub, sz), s')"
  shows "\<exists>d' ns'. bd_subs s' = SubnodeAllocator_new d' \<and> store_ok d' \<and> preserves d d' \<and> names_inv ns' (bd_names s') \<and> prefix ns ns' \<and>
    stored_message (lookup_block d') ns' msg (data, sub)"
proof -
  have id: "s\<lparr>bd_subs := SubnodeAllocator_new (sa_ndb (bd_subs s))\<rparr> = s" using s(1) by (simp add: SubnodeAllocator_new_def)
  obtain heap fl t u where 1: "buildMessage guid msg emb_nid True s = Some (Inr (heap, fl, sz), t)"
      and 2: "store_heap heap (bd_subs t) = Some (Inr (data, sub), u)"
      and s': "s' = t\<lparr>bd_subs := (bd_subs s)\<lparr>sa_ndb := sa_ndb u\<rparr>\<rparr>"
    using run by (auto simp: with_subs_run id bindM_Inr_iff bd_on_subs_run ret_run split_beta)
  have fresh: "bd_subs s = SubnodeAllocator_new (sa_ndb (bd_subs s))" "sa_ndb (bd_subs s) = d" using s(1) by (simp_all add: SubnodeAllocator_new_def)
  have st: "store_ok (sa_ndb (bd_subs s))" using s(2) by (simp add: fresh(2))
  from inner [unfolded message_law_def, rule_format, OF fresh(1) st s(3) 1 2] obtain ns' where
    "store_ok (sa_ndb u)" "preserves d (sa_ndb u)" "names_inv ns' (bd_names t)" "prefix ns ns'"
    "stored_message (lookup_block (sa_ndb u)) ns' msg (data, sub)" unfolding fresh(2) by blast
  then show ?thesis using s(1) by (intro exI [of _ "sa_ndb u"] exI [of _ ns']) (simp add: s' SubnodeAllocator_new_def)
qed

lemma attachment_object_law:
  assumes s: "bd_subs s = SubnodeAllocator_new d" "store_ok d" "names_inv ns (bd_names s)"
    and fit: "texts_fit a" "i < 2 ^ 20" and inner: "\<And>msg. at_embedded a = Some msg \<Longrightarrow> message_law guid msg"
    and run: "bindM (attachment_object guid i a) (\<lambda>apc. bd_on_subs (pc_node apc)) s = Some (Inr nd, s')"
  defines "look \<equiv> lookup_block (sa_ndb (bd_subs s'))"
  shows "store_ok (sa_ndb (bd_subs s')) \<and> preserves d (sa_ndb (bd_subs s')) \<and> attachment_shown look nd i a \<and>
    (\<exists>ns'. names_inv ns' (bd_names s') \<and> prefix ns ns' \<and> payload_stored look nd (map_attachment (stored_message look ns') a))"
proof -
  obtain filename content_type content_id inl dat e where a: "a = Attachment filename content_type content_id inl dat e" by (cases a)
  show ?thesis
  proof (cases e)
    case None
    then obtain n u1 u2 where 1: "spill dat (SubnodeAllocator_new d) = Some (Inr n, u1)"
        and 2: "pc_node (setSpilledValue PR_ATTACH_DATA_BIN n (attachment_pc i a)) u1 = Some (Inr nd, u2)" and s': "s' = s\<lparr>bd_subs := u2\<rparr>"
      using run s(1) by (auto simp: a attachment_object_def bindM_Inr_iff bd_on_subs_run ret_run)
    have "length dat < 2 ^ 64" using fit(1) by (simp add: texts_fit_def a)
    note sp = spill_law [OF fresh_subs(1) [OF s(2)] this 1]
    let ?f = "setSpilledValue PR_ATTACH_DATA_BIN n" and ?v = "\<lparr>pv_tag = PR_ATTACH_DATA_BIN, pv_kind = KSpilled, pv_hnid = n, pv_bytes = []\<rparr>"
    have f: "?f = pc_put PR_ATTACH_DATA_BIN ?v" "tagId PR_ATTACH_DATA_BIN = 0x3701" "sound ?f"
      using sp by (simp_all add: setters_put(8) [symmetric] setter_simps)
    have x: "value_read (sub_look u1) (?v\<lparr>pv_tag := PR_ATTACH_DATA_BIN\<rparr>) = Some (kPtBinary, Inr dat)" using sp by (simp add: value_read_def)
    note law = attachment_node_law [OF _ fit f x 2] 
    have "preserves d (sa_ndb u2)" using law sp preserves_trans by (auto simp: subs_ext_def SubnodeAllocator_new_def)
    then show ?thesis
      using law sp s(3) None by (simp add: s' look_def payload_stored_def map_embedded a shows_prop_def subs_ok_def, intro exI [of _ ns], simp)
  next
    case (Some msg)
    obtain data sub sz s1 s2 u2 where 1: "with_subs (bindM (buildMessage guid msg emb_nid True) (\<lambda>(heap, flags, size).
           bindM (bd_on_subs (store_heap heap)) (\<lambda>(data, sub). ret (data, sub, size)))) s = Some (Inr (data, sub, sz), s1)"
        and 2: "bd_on_subs (add_subnode emb_nid data sub) s1 = Some (Inr (), s2)"
        and 3: "pc_node (setObject PR_ATTACH_DATA_OBJ emb_nid sz (attachment_pc i a)) (bd_subs s2) = Some (Inr nd, u2)" and s': "s' = s2\<lparr>bd_subs := u2\<rparr>"
      using run Some by (auto simp: a attachment_object_def bindM_Inr_iff bd_on_subs_run ret_run)
    obtain d1 ns' where d1: "bd_subs s1 = SubnodeAllocator_new d1" "store_ok d1" "preserves d d1" "names_inv ns' (bd_names s1)"
        "stored_message (lookup_block d1) ns' msg (data, sub)" "prefix ns ns'"
      using embedded_law [OF s inner 1] Some a by auto
    have emb: "nidType emb_nid \<noteq> kNidTypeLtp" by (simp add: emb_nid_def makeNid_def nidType_def)
    obtain u1 where u1: "subs_ok (2 ^ 20) u1" "sa_entries u1 = [\<lparr>sn_nid = emb_nid, sn_data = data, sn_sub = sub\<rparr>]" "sa_ndb u1 = d1"
        "s2 = s1\<lparr>bd_subs := u1\<rparr>"
      using add_subnode_law [OF fresh_subs(2) [OF d1(2)] emb, of data sub] 2 d1(1) by (auto simp: bd_on_subs_run SubnodeAllocator_new_def)
    let ?f = "setObject PR_ATTACH_DATA_OBJ emb_nid sz" and ?v = "bytes_value PR_ATTACH_DATA_OBJ (put32 (put32 [] emb_nid) sz)"
    have f: "?f = pc_put PR_ATTACH_DATA_OBJ ?v" "tagId PR_ATTACH_DATA_OBJ = 0x3701" "sound ?f"
      by (simp_all add: setters_put(7) [symmetric] setter_simps)
    have x: "value_read (sub_look u1) (?v\<lparr>pv_tag := PR_ATTACH_DATA_OBJ\<rparr>) = Some (kPtObject, Inr (put32 (put32 [] emb_nid) sz))"
      by (simp add: value_read_def bytes_value_def)
    have run3: "pc_node (?f (attachment_pc i a)) u1 = Some (Inr nd, u2)" using 3 u1(4) by simp
    note law = attachment_node_law [OF u1(1) fit f x run3]
    have p: "preserves d1 (sa_ndb u2)" using law by (simp add: subs_ext_def u1(3))
    have "node_sub look nd emb_nid = Some (data, sub)" using law u1(2) by (simp add: look_def s')
    moreover have "stored_message look ns' msg (data, sub)"
      unfolding look_def s' using stored_message_more [OF preserves_more [OF p] prefix_order.refl d1(5)] by simp
    ultimately have "payload_stored look nd (map_attachment (stored_message look ns') a)"
      using law Some by (simp add: payload_stored_def map_embedded a look_def s' put32_def)
    then show ?thesis
      using law preserves_trans [OF d1(3) p] d1(4,6) u1(4) by (simp add: s' look_def subs_ok_def, intro exI [of _ ns'], simp)
  qed
qed

text \<open>The rows of the table of attachments.\<close>

definition attachment_cells :: "nat \<Rightarrow> 'm attachment \<Rightarrow> 32 word \<times> cell_op list" where
  "attachment_cells i a =
     (let name = attachment_name i (at_filename a) in
      (attachment_nid i, [SetString PR_DISPLAY_NAME name, SetString PR_ATTACH_LONG_FILENAME name, SetString PR_ATTACH_FILENAME name,
        SetInt32 PR_ATTACH_METHOD (attachment_method a), SetInt32 PR_ATTACH_SIZE (attachment_size i a),
        SetString PR_ATTACH_MIME_TAG (at_content_type a), SetInt32 PR_ATTACH_NUM (of_nat i),
        SetInt32 PR_ATTACH_RENDERING_POS 0xFFFFFFFF]))"

lemma attachment_row_eq: "attachment_row i a = fill_row (attachment_cells i a)"
  by (simp add: attachment_row_def attachment_cells_def fill_row_def Let_def)

lemma attachment_cells_fst [simp]: "fst (attachment_cells i a) = attachment_nid i"
  by (simp add: attachment_cells_def Let_def)

lemma attachment_columns:
  "table_ok (new_table attachmentColumns) \<and> tb_columns (new_table attachmentColumns) = [PidTagLtpRowId, PidTagLtpRowVer] @ attachmentColumns \<and>
    tb_rows (new_table attachmentColumns) = []"
  by (rule new_table_columns) (simp_all add: attachmentColumns_def makeTag_inject)

lemma attachment_cells_ok:
  assumes "texts_fit a" "i < 2 ^ 20"
  shows "row_ok ([PidTagLtpRowId, PidTagLtpRowVer] @ attachmentColumns) (attachment_cells i a)"
  using op_okI attachment_name_fits [OF _ assms(2)] assms(1)
  by (simp add: attachment_cells_def row_ok_def Let_def makeTag_inject attachmentColumns_def texts_fit_def)

lemma row_shown_attachment:
  assumes "row_shown t (attachment_cells i a)"
    and cells: "\<And>row_id tag c. table_cell t row_id tag = Some c \<Longrightarrow> node_cell look n row_id tag = Some c"
  shows "attachment_listed look n i a"
  using assms(1)
  by (auto simp: row_shown_def attachment_cells_def attachment_listed_def shows_cell_def Let_def string_bytes_def cells fixed_cell_def variable_cell_def)

text \<open>The NIDs of attachments are apart from each other and from the tables.\<close>

lemma attachment_nids:
  assumes "i < 2 ^ 21"
  shows "nidType (attachment_nid i) = kNidTypeAttachment" "nidIndex (attachment_nid i) = of_nat (i + 1)"
    "j < 2 ^ 21 \<Longrightarrow> attachment_nid i = attachment_nid j \<longleftrightarrow> i = j"
proof -
  have u: "unat (of_nat (k + 1) :: 32 word) = k + 1" if "k < 2 ^ 21" for k by (rule unat_small) (use that in simp)
  have r: "nidType (attachment_nid k) = kNidTypeAttachment" "nidIndex (attachment_nid k) = of_nat (k + 1)" if "k < 2 ^ 21" for k
    using nid_roundtrip [of "of_nat (k + 1)" kNidTypeAttachment] u [OF that] that by (simp_all add: attachment_nid_def del: of_nat_add of_nat_Suc)
  show "nidType (attachment_nid i) = kNidTypeAttachment" "nidIndex (attachment_nid i) = of_nat (i + 1)" using r assms by auto
  show "attachment_nid i = attachment_nid j \<longleftrightarrow> i = j" if "j < 2 ^ 21"
    using r [OF assms] r [OF that] u [OF assms] u [OF that] by (metis add_right_cancel)
qed

text \<open>An attachment that is where it belongs.\<close>

definition attachment_held :: "build \<Rightarrow> request list \<Rightarrow> table \<Rightarrow> nat \<Rightarrow> message attachment \<Rightarrow> bool" where
  "attachment_held s ns at i a \<longleftrightarrow>
     (\<exists>e. find (\<lambda>e. sn_nid e = attachment_nid i) (sa_entries (bd_subs s)) = Some e \<and>
        attachment_shown (lookup_block (sa_ndb (bd_subs s))) (sn_data e, sn_sub e) i a \<and>
        payload_stored (lookup_block (sa_ndb (bd_subs s))) (sn_data e, sn_sub e)
          (map_attachment (stored_message (lookup_block (sa_ndb (bd_subs s))) ns) a)) \<and>
     row_shown at (attachment_cells i a)"

text \<open>The attachments below \<open>i\<close> done.\<close>

definition attachments_done :: "nat \<Rightarrow> build \<Rightarrow> request list \<Rightarrow> table \<Rightarrow> bool" where
  "attachments_done i s ns at \<longleftrightarrow> subs_ok 65536 (bd_subs s) \<and> names_inv ns (bd_names s) \<and>
     (\<forall>n \<in> set (map sn_nid (sa_entries (bd_subs s))). nidType n = kNidTypeAttachment \<longrightarrow> n \<in> attachment_nid ` {..<i}) \<and>
     kNidAttachmentTable \<notin> set (map sn_nid (sa_entries (bd_subs s))) \<and>
     table_ok at \<and> tb_columns at = [PidTagLtpRowId, PidTagLtpRowVer] @ attachmentColumns \<and>
     map tr_id (tb_rows at) = map attachment_nid [0..<i]"

lemma attachment_step_law:
  assumes sofar: "attachments_done i s ns at" and fit: "texts_fit a" "i < 2 ^ 20"
    and inner: "\<And>msg. at_embedded a = Some msg \<Longrightarrow> message_law guid msg"
    and run1: "with_subs (bindM (attachment_object guid i a) (\<lambda>apc. bd_on_subs (pc_node apc))) s = Some (Inr nd, s1)"
    and run2: "bd_on_subs (add_subnode (attachment_nid i) (fst nd) (snd nd)) s1 = Some (Inr (), s2)"
    and run3: "attachment_row i a at = Some (Inr (), at')"
  shows "\<exists>ns'. prefix ns ns' \<and> attachments_done (Suc i) s2 ns' at' \<and> subs_ext (bd_subs s) (bd_subs s2) \<and> attachment_held s2 ns' at' i a \<and>
    (\<forall>row tag. row \<noteq> attachment_nid i \<longrightarrow> table_cell at' row tag = table_cell at row tag)"
proof -
  let ?d = "sa_ndb (bd_subs s)" and ?es = "sa_entries (bd_subs s)"
  have ok: "subs_ok 65536 (bd_subs s)" and names: "names_inv ns (bd_names s)" and st: "store_ok ?d"
    using sofar by (simp_all add: attachments_done_def subs_ok_def)
  obtain t where t: "bindM (attachment_object guid i a) (\<lambda>apc. bd_on_subs (pc_node apc)) (s\<lparr>bd_subs := SubnodeAllocator_new ?d\<rparr>) = Some (Inr nd, t)"
      and s1: "s1 = t\<lparr>bd_subs := (bd_subs s)\<lparr>sa_ndb := sa_ndb (bd_subs t)\<rparr>\<rparr>"
    using run1 by (auto simp: with_subs_run)
  let ?s0 = "s\<lparr>bd_subs := SubnodeAllocator_new ?d\<rparr>"
  have s0: "bd_subs ?s0 = SubnodeAllocator_new ?d" "names_inv ns (bd_names ?s0)" using names by simp_all
  from attachment_object_law [OF s0(1) st s0(2) fit inner t] obtain ns' where
    law: "store_ok (sa_ndb (bd_subs t))" "preserves ?d (sa_ndb (bd_subs t))" "names_inv ns' (bd_names t)"
      "attachment_shown (lookup_block (sa_ndb (bd_subs t))) nd i a" "prefix ns ns'"
      "payload_stored (lookup_block (sa_ndb (bd_subs t))) nd (map_attachment (stored_message (lookup_block (sa_ndb (bd_subs t))) ns') a)"
    by blast
  have ok1: "subs_ok 65536 (bd_subs s1)" using subs_ok_later [OF ok law(1)] by (simp add: s1)
  have i21: "i < 2 ^ 21" using fit(2) by simp
  note nid = attachment_nids [OF i21]
  have apart: "attachment_nid i \<notin> attachment_nid ` {..<i}"
  proof
    assume "attachment_nid i \<in> attachment_nid ` {..<i}"
    then obtain j where "j < i" "attachment_nid i = attachment_nid j" by blast
    then show False using nid(3) [of j] i21 by simp
  qed
  then have fresh: "attachment_nid i \<notin> set (map sn_nid ?es)" using sofar nid(1) by (auto simp: attachments_done_def)
  then have fresh1: "attachment_nid i \<notin> set (map sn_nid (sa_entries (bd_subs s1)))" by (simp add: s1)
  have "nidType (attachment_nid i) \<noteq> kNidTypeLtp" using nid(1) by simp
  from add_subnode_law [OF ok1 this fresh1, of "fst nd" "snd nd"] run2
  have s2: "subs_ok 65536 (bd_subs s2)" "sa_entries (bd_subs s2) = ?es @ [\<lparr>sn_nid = attachment_nid i, sn_data = fst nd, sn_sub = snd nd\<rparr>]"
      "sa_ndb (bd_subs s2) = sa_ndb (bd_subs t)" "bd_names s2 = bd_names t"
    by (auto simp: bd_on_subs_run s1)
  have tab: "table_ok at" "tb_columns at = [PidTagLtpRowId, PidTagLtpRowVer] @ attachmentColumns" "map tr_id (tb_rows at) = map attachment_nid [0..<i]"
    using sofar by (simp_all add: attachments_done_def)
  have "fst (attachment_cells i a) \<notin> set (map tr_id (tb_rows at))" using apart by (simp add: tab(3) atLeast0LessThan)
  from fill_row_cells [OF tab(1) this, unfolded tab(2), OF attachment_cells_ok [OF fit]] run3
  have at': "table_ok at'" "tb_columns at' = [PidTagLtpRowId, PidTagLtpRowVer] @ attachmentColumns"
      "map tr_id (tb_rows at') = map attachment_nid [0..<Suc i]" "row_shown at' (attachment_cells i a)"
      "\<forall>row tag. row \<noteq> attachment_nid i \<longrightarrow> table_cell at' row tag = table_cell at row tag"
    by (auto simp: attachment_row_eq tab(2,3))
  have "find (\<lambda>e. sn_nid e = attachment_nid i) ?es = None" using fresh by (auto simp: find_None_iff image_iff)
  then have "attachment_held s2 ns' at' i a" using law at'(4) by (simp add: attachment_held_def s2 find_append)
  moreover have "kNidAttachmentTable \<noteq> attachment_nid i" using nid(1) by (auto simp: nidType_def)
  then have "attachments_done (Suc i) s2 ns' at'"
    using sofar s2 law(3) at' unfolding attachments_done_def by (auto simp: lessThan_Suc)
  ultimately show ?thesis using at'(5) law(2,5) s2 by (intro exI [of _ ns']) (simp add: subs_ext_def)
qed

lemma attachment_held_later:
  assumes held: "attachment_held s ns at i a" and ext: "subs_ext (bd_subs s) (bd_subs s')" "prefix ns ns'"
    and cells: "\<And>tag. table_cell at' (attachment_nid i) tag = table_cell at (attachment_nid i) tag"
  shows "attachment_held s' ns' at' i a"
proof -
  let ?l = "lookup_block (sa_ndb (bd_subs s))" and ?l' = "lookup_block (sa_ndb (bd_subs s'))"
  have more: "more_blocks ?l ?l'" using ext(1) preserves_more by (auto simp: subs_ext_def)
  obtain e where e: "find (\<lambda>e. sn_nid e = attachment_nid i) (sa_entries (bd_subs s)) = Some e"
      "attachment_shown ?l (sn_data e, sn_sub e) i a" "payload_stored ?l (sn_data e, sn_sub e) (map_attachment (stored_message ?l ns) a)"
    using held by (auto simp: attachment_held_def)
  have "payload_stored ?l' (sn_data e, sn_sub e) (map_attachment (stored_message ?l' ns') a)"
    by (rule payload_stored_more [OF more _ e(3)]) (rule stored_message_more [OF more ext(2)])
  then show ?thesis
    using held entry_ext [OF ext(1) e(1)] shown_more(3) [OF more e(2)] cells by (simp add: attachment_held_def row_shown_def)
qed

lemma build_attachments_law:
  assumes "attachments_done i s ns at" "i + length as \<le> 2 ^ 20" "\<forall>a \<in> set as. texts_fit a"
    and "\<forall>a \<in> set as. \<forall>msg. at_embedded a = Some msg \<longrightarrow> message_law guid msg"
    and "build_attachments guid i as at s = Some (Inr at', s')"
  shows "\<exists>ns'. prefix ns ns' \<and> attachments_done (i + length as) s' ns' at' \<and> subs_ext (bd_subs s) (bd_subs s') \<and>
    (\<forall>j < length as. attachment_held s' ns' at' (i + j) (as ! j)) \<and>
    (\<forall>row tag. row \<in> attachment_nid ` {..<i} \<longrightarrow> table_cell at' row tag = table_cell at row tag)"
  using assms
proof (induction as arbitrary: i s ns at)
  case Nil
  then show ?case by (intro exI [of _ ns]) (simp add: ret_run)
next
  case (Cons a as)
  have eq: "build_attachments guid i (a # as) at =
     bindM (with_subs (bindM (attachment_object guid i a) (\<lambda>apc. bd_on_subs (pc_node apc)))) (\<lambda>(data, sub).
     bindM (bd_on_subs (add_subnode (attachment_nid i) data sub)) (\<lambda>_.
     bindM (local_object at (attachment_row i a)) (\<lambda>at'.
     build_attachments guid (i + 1) as at')))"
    by (simp add: attachment_object_def)
  obtain nd s1 s2 at1 where 1: "with_subs (bindM (attachment_object guid i a) (\<lambda>apc. bd_on_subs (pc_node apc))) s = Some (Inr nd, s1)"
      and 2: "bd_on_subs (add_subnode (attachment_nid i) (fst nd) (snd nd)) s1 = Some (Inr (), s2)"
      and 3: "attachment_row i a at = Some (Inr (), at1)" and 4: "build_attachments guid (i + 1) as at1 s2 = Some (Inr at', s')"
    using Cons.prems(5) unfolding eq by (auto simp: bindM_Inr_iff split_beta local_object_run)
  have i: "i < 2 ^ 20" "i + 1 + length as \<le> 2 ^ 20" using Cons.prems(2) by simp_all
  have a: "texts_fit a" "\<And>msg. at_embedded a = Some msg \<Longrightarrow> message_law guid msg" using Cons.prems(3,4) by simp_all
  from attachment_step_law [OF Cons.prems(1) a(1) i(1) a(2) 1 2 3] obtain ns1 where
    step: "attachments_done (Suc i) s2 ns1 at1" "subs_ext (bd_subs s) (bd_subs s2)" "attachment_held s2 ns1 at1 i a"
      "\<forall>row tag. row \<noteq> attachment_nid i \<longrightarrow> table_cell at1 row tag = table_cell at row tag" "prefix ns ns1"
    by blast
  have done1: "attachments_done (i + 1) s2 ns1 at1" using step(1) by simp
  have later: "\<forall>a \<in> set as. texts_fit a" "\<forall>a \<in> set as. \<forall>msg. at_embedded a = Some msg \<longrightarrow> message_law guid msg"
    using Cons.prems(3,4) by simp_all
  from Cons.IH [OF done1 i(2) later 4] obtain ns' where
    r: "attachments_done (i + 1 + length as) s' ns' at'" "subs_ext (bd_subs s2) (bd_subs s')"
      "\<And>j. j < length as \<Longrightarrow> attachment_held s' ns' at' (i + 1 + j) (as ! j)"
      "\<And>row tag. row \<in> attachment_nid ` {..<i + 1} \<Longrightarrow> table_cell at' row tag = table_cell at1 row tag" "prefix ns1 ns'"
    by blast
  have "attachment_held s' ns' at' i a" by (rule attachment_held_later [OF step(3) r(2,5)]) (rule r(4), simp)
  then have "\<forall>j < length (a # as). attachment_held s' ns' at' (i + j) ((a # as) ! j)"
    using r(3) by (auto simp: less_Suc_eq_0_disj)
  moreover have "table_cell at' row tag = table_cell at row tag" if row: "row \<in> attachment_nid ` {..<i}" for row tag
  proof -
    obtain j where j: "j < i" "row = attachment_nid j" using row by blast
    then have "row \<noteq> attachment_nid i" using attachment_nids(3) [of j i] i(1) by simp
    then show ?thesis using r(4) [of row tag] step(4) j by auto
  qed
  ultimately show ?case using r(1) subs_ext_trans [OF step(2) r(2)] prefix_order.trans [OF step(5) r(5)] by (intro exI [of _ ns']) simp
qed

subsection \<open>A message\<close>

text \<open>From the property context to the fields shown.\<close>

lemma message_fields_law:
  assumes fit: "fields_fit m" and inv: "names_inv ns names" and t: "delivered m \<noteq> 0 \<longrightarrow> c1 = delivered m \<and> c2 = delivered m"
    and js: "header_keys ns m js"
    and pc: "pc = set_all (message_setters guid m has n emb c1 c2 (keyword_setter ns m) @ header_setters ns m js) []"
    and says: "\<And>i v x. pc_look pc i = Some v \<Longrightarrow> value_read (\<lambda>_. None) v = Some x \<Longrightarrow> node_prop look nd i = Some x"
  shows "fields_shown look nd m has" "named_shown look ns nd m" "\<not> emb \<Longrightarrow> ids_shown look guid n nd"
proof -
  note high = named_setters_high [OF fit inv js]
  have low: "node_prop look nd i = Some x"
    if f: "final i v (message_setters guid m has n emb c1 c2 (keyword_setter ns m))" "i < kFirstNamedId" "value_read (\<lambda>_. None) v = Some x" for i v x
  proof -
    have "final i v (message_setters guid m has n emb c1 c2 (keyword_setter ns m) @ header_setters ns m js)"
      using f(1) high_spares(1) [OF high(2) f(2)] by (simp add: final_steps)
    from says [OF final_look [OF this, of "[]", folded pc] f(3)] show ?thesis .
  qed
  show "ids_shown look guid n nd" if "\<not> emb"
  proof -
    have "final (tagId PR_ENTRYID) (bytes_value PR_ENTRYID (entryId guid n)) (message_setters guid m has n emb c1 c2 (keyword_setter ns m))"
      "final (tagId PR_SEARCH_KEY) (bytes_value PR_SEARCH_KEY (search_key guid n)) (message_setters guid m has n emb c1 c2 (keyword_setter ns m))"
      using that unfolding message_setters_def id_setters_def by (simp_all add: setter_simps split del: if_split del: final.simps(2))
    then show ?thesis using low by (simp add: ids_shown_def shows_prop_def value_read_def bytes_value_def)
  qed
  show "fields_shown look nd m has"
  proof (rule fields_shownI [OF high(1)])
    show "c1 = delivered m \<and> c2 = delivered m" if "delivered m \<noteq> 0" using t that by blast
  qed (rule low)
  show "named_shown look ns nd m" by (rule named_shownI [OF fit inv js pc says])
qed

lemma buildMessage_step:
  assumes fit: "fields_fit m" "recipients_fit m" "length as < 2 ^ 20" "\<forall>a \<in> set as. texts_fit a" "length guid = 16"
    and inner: "\<forall>a \<in> set as. \<forall>msg. at_embedded a = Some msg \<longrightarrow> message_law guid msg"
  shows "message_law guid (Message m as)"
  unfolding message_law_def
proof (intro allI impI)
  fix nid emb s ns heap flags sz s5 nd u
  assume new: "bd_subs s = SubnodeAllocator_new (sa_ndb (bd_subs s))" and st: "store_ok (sa_ndb (bd_subs s))" and names: "names_inv ns (bd_names s)"
    and run: "buildMessage guid (Message m as) nid emb s = Some (Inr (heap, flags, sz), s5)" and store: "store_heap heap (bd_subs s5) = Some (Inr nd, u)"
  let ?look = "lookup_block (sa_ndb u)" and ?t0 = "new_table attachmentColumns"
  obtain pc s1 s2 at s3 s4 u5 where
      1: "message_pc guid m (as \<noteq> []) nid emb s = Some (Inr pc, s1)" and 2: "recipient_table m s1 = Some (Inr (), s2)"
      and 3: "build_attachments guid 0 as ?t0 s2 = Some (Inr at, s3)" and 4: "attachment_table at s3 = Some (Inr (), s4)"
      and 5: "pc_serialize pc (bd_subs s4) = Some (Inr heap, u5)" and s5: "s5 = s4\<lparr>bd_subs := u5\<rparr>"
    using run by (auto simp: bindM_Inr_iff bd_on_subs_run ret_run)
  have node: "pc_node pc (bd_subs s4) = Some (Inr nd, u)" using 5 store by (simp add: pc_node_def bindM_def s5)
  have "subs_ok 65536 (bd_subs s)" by (subst new) (rule subs_ok_new [OF st], simp)
  then have ok0: "subs_ok 65536 (bd_subs s)" .
  obtain ns0 c1 c2 js where pc: "pc_ok pc" "bd_subs s1 = bd_subs s" "names_inv ns0 (bd_names s1)" "prefix ns ns0"
      "delivered m \<noteq> 0 \<longrightarrow> c1 = delivered m \<and> c2 = delivered m" "header_keys ns0 m js"
      "pc = set_all (message_setters guid m (as \<noteq> []) nid emb c1 c2 (keyword_setter ns0 m) @ header_setters ns0 m js) []"
    using message_pc_law [OF fit(1,5) names 1] by blast
  have ok1: "subs_ok 65536 (bd_subs s1)" "sa_entries (bd_subs s1) = []"
    using ok0 pc(2) arg_cong [OF new, of sa_entries] by (simp_all add: SubnodeAllocator_new_def)
  have "kNidRecipientTable \<notin> set (map sn_nid (sa_entries (bd_subs s1)))" using ok1(2) by simp
  from recipient_table_law [OF ok1(1) this fit(2) 2] obtain rt where
      rt: "adds_node kNidRecipientTable rt s1 s2" "subs_ok 65536 (bd_subs s2)" "list_all (recipient_shown (lookup_block (sa_ndb (bd_subs s2))) rt) (recipients m)"
    by blast
  have e2: "sa_entries (bd_subs s2) = [\<lparr>sn_nid = kNidRecipientTable, sn_data = fst rt, sn_sub = snd rt\<rparr>]" "bd_names s2 = bd_names s1"
      "preserves (sa_ndb (bd_subs s1)) (sa_ndb (bd_subs s2))"
    using rt(1) ok1(2) by (simp_all add: adds_node_def)
  have done0: "attachments_done 0 s2 ns0 ?t0" using rt(2) e2 pc(3) attachment_columns by (simp add: attachments_done_def nidType_def)
  have few: "0 + length as \<le> 2 ^ 20" using fit(3) by simp
  from build_attachments_law [OF done0 few fit(4) inner 3] obtain ns1 where
    at: "attachments_done (length as) s3 ns1 at" "subs_ext (bd_subs s2) (bd_subs s3)"
      "\<And>j. j < length as \<Longrightarrow> attachment_held s3 ns1 at j (as ! j)" "prefix ns0 ns1"
    by auto
  have at_ok: "subs_ok 65536 (bd_subs s3)" "kNidAttachmentTable \<notin> set (map sn_nid (sa_entries (bd_subs s3)))" "table_ok at"
      "tb_columns at = [PidTagLtpRowId, PidTagLtpRowVer] @ attachmentColumns" "length (tb_rows at) = length as" "names_inv ns1 (bd_names s3)"
    using at(1) unfolding attachments_done_def by (simp_all, metis length_map length_upt minus_nat.diff_0)
  have size: "length (tb_rows at) * length (tb_columns at) < 2 ^ 26" "tb_columns at \<noteq> []"
    using fit(3) at_ok(4,5) by (simp_all add: attachmentColumns_def)
  have "nidType kNidAttachmentTable \<noteq> kNidTypeLtp" by (simp add: nidType_def)
  from table_subnode_law [OF at_ok(1) this at_ok(2,3) size 4 [unfolded attachment_table_def]] obtain tt where
      tt: "adds_node kNidAttachmentTable tt s3 s4" "subs_ok 65536 (bd_subs s4)"
      "\<And>row_id tag c. table_cell at row_id tag = Some c \<Longrightarrow> node_cell (lookup_block (sa_ndb (bd_subs s4))) tt row_id tag = Some c"
    by blast
  have ext: "subs_ext (bd_subs s3) (bd_subs s4)" using tt(1) by (auto simp: adds_node_def subs_ext_def)
  have "subs_ok (0 + length pc) (bd_subs s4)" using pc_ok_length [OF pc(1)] by (intro subs_ok_mono [OF tt(2)]) simp
  note pcl = pc_node_law [OF this pc(1) node]
  have sub: "node_sub ?look nd i = Some (sn_data e, sn_sub e)" if "find (\<lambda>e. sn_nid e = i) (sa_entries (bd_subs s4)) = Some e" for i e
    using pcl that by blast
  have more: "more_blocks (lookup_block (sa_ndb (bd_subs s4))) ?look" using pcl preserves_more by (auto simp: subs_ext_def)
  have e24: "subs_ext (bd_subs s2) (bd_subs s4)" by (rule subs_ext_trans [OF at(2) ext])
  then have more2: "more_blocks (lookup_block (sa_ndb (bd_subs s2))) ?look"
    using more_blocks_trans [OF preserves_more more] by (simp add: subs_ext_def)
  have "find (\<lambda>e. sn_nid e = kNidRecipientTable) (sa_entries (bd_subs s2)) = Some \<lparr>sn_nid = kNidRecipientTable, sn_data = fst rt, sn_sub = snd rt\<rparr>"
    by (simp add: e2)
  from sub [OF entry_ext [OF e24 this]] have rsub: "node_sub ?look nd kNidRecipientTable = Some rt" by simp
  have "find (\<lambda>e. sn_nid e = kNidAttachmentTable) (sa_entries (bd_subs s3)) = None" using at_ok(2) by (auto simp: find_None_iff image_iff)
  then have "find (\<lambda>e. sn_nid e = kNidAttachmentTable) (sa_entries (bd_subs s4)) = Some \<lparr>sn_nid = kNidAttachmentTable, sn_data = fst tt, sn_sub = snd tt\<rparr>"
    using tt(1) by (simp add: adds_node_def find_append)
  from sub [OF this] have tsub: "node_sub ?look nd kNidAttachmentTable = Some tt" by simp
  have stored: "attachment_stored ?look nd tt j (map_attachment (stored_message ?look ns1) (as ! j))" if j: "j < length as" for j
  proof -
    have "attachment_held s4 ns1 at j (as ! j)" by (rule attachment_held_later [OF at(3) [OF j] ext prefix_order.refl refl])
    then obtain e where e: "find (\<lambda>e. sn_nid e = attachment_nid j) (sa_entries (bd_subs s4)) = Some e"
        "attachment_shown (lookup_block (sa_ndb (bd_subs s4))) (sn_data e, sn_sub e) j (as ! j)"
        "payload_stored (lookup_block (sa_ndb (bd_subs s4))) (sn_data e, sn_sub e) (map_attachment (stored_message (lookup_block (sa_ndb (bd_subs s4))) ns1) (as ! j))"
        "row_shown at (attachment_cells j (as ! j))"
      by (auto simp: attachment_held_def)
    have "payload_stored ?look (sn_data e, sn_sub e) (map_attachment (stored_message ?look ns1) (as ! j))"
      by (rule payload_stored_more [OF more _ e(3)]) (rule stored_message_more [OF more prefix_order.refl])
    then show ?thesis
      using sub [OF e(1)] shown_more(3) [OF more e(2)] shown_more(4) [OF more row_shown_attachment [OF e(4) tt(3)]]
      by (simp add: attachment_stored_def)
  qed
  have says: "node_prop ?look nd i = Some x" if v: "pc_look pc i = Some v" "value_read (\<lambda>_. None) v = Some x" for i v x
  proof -
    have "value_read (sub_look (bd_subs s4)) v = Some x" by (rule value_read_more [OF v(2)]) simp
    then show ?thesis using pcl v(1) by blast
  qed
  note shown = message_fields_law [OF fit(1) pc(3,5,6,7) says]
  have ids: "ids_shown ?look guid nid nd" if "\<not> emb" by (rule shown(3)) (use that in simp_all)
  have "named_shown ?look ns1 nd m" by (rule named_shown_more [OF _ at(4) shown(2)]) simp
  moreover have "list_all (recipient_shown ?look rt) (recipients m)"
    using rt(3) shown_more(2) [OF more2] unfolding list_all_iff by blast
  ultimately have "stored_message ?look ns1 (Message m as) nd"
    using conjunct1 [OF conjunct2 [OF conjunct2 [OF pcl]]] shown(1) stored rsub tsub by (simp add: list_all_length nth_enumerate_eq)
  moreover have "preserves (sa_ndb (bd_subs s)) (sa_ndb u)"
    using preserves_trans [OF e2(3) preserves_trans [of _ "sa_ndb (bd_subs s4)"]] e24 conjunct1 [OF conjunct2 [OF pcl]] pc(2)
    by (simp add: subs_ext_def)
  moreover have "names_inv ns1 (bd_names s5)" using at_ok(6) tt(1) by (simp add: s5 adds_node_def)
  moreover have "prefix ns ns1" using prefix_order.trans [OF pc(4) at(4)] .
  moreover have "store_ok (sa_ndb u)" using pcl by (simp add: subs_ok_def)
  ultimately show "store_ok (sa_ndb u) \<and> preserves (sa_ndb (bd_subs s)) (sa_ndb u) \<and>
     (\<exists>ns'. names_inv ns' (bd_names s5) \<and> prefix ns ns' \<and> stored_message ?look ns' (Message m as) nd) \<and>
     (\<not> emb \<longrightarrow> ids_shown ?look guid nid nd)"
    using ids by blast
qed

lemma buildMessage_law:
  assumes "length guid = 16"
  shows "message_fits msg \<Longrightarrow> message_law guid msg"
proof (induction msg)
  case (Message m as)
  have a: "texts_fit a \<and> (\<forall>msg. at_embedded a = Some msg \<longrightarrow> message_law guid msg)" if "a \<in> set as" for a
  proof -
    have fit: "attachment_fits (map_attachment message_fits a)" using Message.prems that by (simp add: list_all_iff)
    have "message_law guid msg" if e: "at_embedded a = Some msg" for msg
      by (rule Message.IH [OF \<open>a \<in> set as\<close>]) (use e fit in \<open>cases a; simp add: attachment_fits_def map_embedded\<close>)+
    then show ?thesis using fit by (simp add: attachment_fits_def texts_fit_def map_embedded)
  qed
  show ?case by (rule buildMessage_step) (use Message.prems a assms in auto)
qed

end
