(* ===== verification/Node_Frame.thy ===== *)
theory Node_Frame
  imports Message_Store Pst_Writer
begin

section \<open>What writing a node leaves alone\<close>

text \<open>
  Everything above the node database reaches the file through \<open>emitBlock\<close>. Whatever that operation
  keeps of the file, on every outcome, is therefore kept by each layer: data trees, subnodes, heaps,
  property contexts, tables, messages, contents tables. The locale states the argument once; it is
  used for the list of nodes, which only \<open>addNode\<close> extends, and for the blocks already written.
\<close>

lemma keeps_bth:
  assumes "\<And>b. keeps P (galloc b)"
  shows "keeps P (buildBthInto galloc kb eb rs)"
proof -
  have leaf: "keeps P (bth_leaf galloc kb eb c)" for c
    unfolding bth_leaf_def by (intro hoare_intros assms)
  have inter: "keeps P (bth_inter galloc kb c)" for c
    unfolding bth_inter_def by (intro hoare_intros assms)
  have levels: "keeps P (bth_levels galloc kb l ls)" for l ls
  proof (induction "9 - l" arbitrary: l ls rule: less_induct)
    case less
    then show ?case by (subst bth_levels.simps) (auto intro!: hoare_intros inter)
  qed
  show ?thesis
    unfolding buildBthInto_def Let_def by (auto intro!: hoare_intros assms leaf levels split: prod.splits)
qed

locale block_frame =
  fixes P :: "ndb \<Rightarrow> bool"
  assumes emit: "keeps P (emitBlock d i)"
begin

lemma emitXBlock: "keeps P (emitXBlock cs l t)"
  by (simp add: emitXBlock_def emit)

lemma assembleDataTree: "keeps P (assembleDataTree leaves tot)"
  unfolding assembleDataTree_def by (auto intro!: hoare_intros emit emitXBlock split: prod.splits)

lemma writeLeafChunk: "keeps P (writeLeafChunk d)"
  by (simp add: writeLeafChunk_def emit)

lemma writeData: "keeps P (writeData data)"
  unfolding writeData_def by (auto intro!: hoare_intros emit writeLeafChunk assembleDataTree)

lemma writeSubnodes: "keeps P (writeSubnodes es)"
  unfolding writeSubnodes_def emit_child_def emit_sl_def Let_def by (auto intro!: hoare_intros emit)

subsection \<open>Property contexts and tables\<close>

lemma on_ndb: "keeps P m \<Longrightarrow> keeps (\<lambda>u. P (sa_ndb u)) (on_ndb m)"
  unfolding on_ndb_def by (rule keeps_zoomM) simp_all

lemma adopt: "keeps (\<lambda>u. P (sa_ndb u)) (adopt d)"
  unfolding adopt_def by (intro hoare_intros) simp_all

lemma add_subnode: "keeps (\<lambda>u. P (sa_ndb u)) (add_subnode n d sub)"
  unfolding add_subnode_def by (intro hoare_intros) simp

lemma spill: "keeps (\<lambda>u. P (sa_ndb u)) (spill d)"
  unfolding spill_def by (intro hoare_intros on_ndb adopt writeData)

lemma store_heap: "keeps (\<lambda>u. P (sa_ndb u)) (store_heap heap)"
  unfolding store_heap_def by (auto intro!: hoare_intros on_ndb writeData writeSubnodes)

lemma on_subs: "keeps (\<lambda>u. P (sa_ndb u)) m \<Longrightarrow> keeps (\<lambda>g. P (sa_ndb (lt_subs g))) (on_subs m)"
  unfolding on_subs_def by (rule keeps_zoomM) simp_all

lemma on_heap: "keeps (\<lambda>g. P (sa_ndb (lt_subs g))) (on_heap m)"
  unfolding on_heap_def by (rule keeps_zoomM [where Q = "\<lambda>_. True"]) (simp_all add: hoare_def split: sum.split)

lemma place_bytes: "keeps (\<lambda>g. P (sa_ndb (lt_subs g))) (place_bytes b)"
  unfolding place_bytes_def by (intro hoare_intros on_heap on_subs spill)

lemma with_heap:
  assumes "keeps (\<lambda>g. P (sa_ndb (lt_subs g))) build"
  shows "keeps (\<lambda>u. P (sa_ndb u)) (with_heap sig build)"
proof -
  have "P (sa_ndb s')" if "P (sa_ndb s)" "with_heap sig build s = Some (r, s')" for s r s'
    using that keepsD [OF assms, of "\<lparr>lt_heap = HeapNode_new sig, lt_subs = s\<rparr>"]
    by (auto simp: with_heap_def split: option.splits prod.splits sum.splits)
  then show ?thesis by (intro hoareI)
qed

lemma pc_serialize: "keeps (\<lambda>u. P (sa_ndb u)) (pc_serialize pc)"
  unfolding pc_serialize_def pc_build_def place_value_def
  by (intro with_heap hoare_intros place_bytes on_heap) simp_all

lemma table_serialize: "keeps (\<lambda>u. P (sa_ndb u)) (table_serialize t)"
  unfolding table_serialize_def table_build_def table_row_def cell_field_def place_rows_def Let_def
  by (auto intro!: with_heap hoare_intros place_bytes on_heap on_subs spill split: prod.splits)

lemma pc_node: "keeps (\<lambda>u. P (sa_ndb u)) (pc_node pc)"
  unfolding pc_node_def by (intro hoare_intros pc_serialize store_heap)

lemma table_node: "keeps (\<lambda>u. P (sa_ndb u)) (table_node t)"
  unfolding table_node_def by (intro hoare_intros table_serialize store_heap)

subsection \<open>Messages\<close>

lemma bd_on_subs: "keeps (\<lambda>u. P (sa_ndb u)) m \<Longrightarrow> keeps (\<lambda>s. P (sa_ndb (bd_subs s))) (bd_on_subs m)"
  unfolding bd_on_subs_def by (rule keeps_zoomM) simp_all

lemma with_subs: "keeps (\<lambda>s. P (sa_ndb (bd_subs s))) m \<Longrightarrow> keeps (\<lambda>s. P (sa_ndb (bd_subs s))) (with_subs m)"
  unfolding with_subs_def by (rule keeps_zoomM) (simp_all add: SubnodeAllocator_new_def)

lemma bd_on_names: "keeps (\<lambda>s. P (sa_ndb (bd_subs s))) (bd_on_names f)"
  by (rule hoareI) (auto simp: bd_on_names_def split: prod.splits)

lemma local_object: "keeps Q (local_object l m)"
  by (rule hoareI) (auto simp: local_object_def split: option.splits prod.splits sum.splits)

lemma message_pc: "keeps (\<lambda>s. P (sa_ndb (bd_subs s))) (message_pc guid m has n emb)"
proof -
  have time: "keeps (\<lambda>s. P (sa_ndb (bd_subs s))) (time_or_now t)" for t
    by (rule hoareI) (auto simp: time_or_now_def nowUnix_def ret_def split: if_splits)
  have names: "keeps (\<lambda>s. P (sa_ndb (bd_subs s))) (named_headers g keys pc)" for g keys pc
    by (induction keys arbitrary: pc) (auto intro!: hoare_intros bd_on_names)
  show ?thesis
    unfolding message_pc_def Let_def keyword_setters_def applyHeaderProperties_def
    by (intro hoare_intros time names bd_on_names) simp_all
qed

lemma buildMessage:
  "keeps (\<lambda>s. P (sa_ndb (bd_subs s))) (buildMessage guid msg n embedded)"
  "keeps (\<lambda>s. P (sa_ndb (bd_subs s))) (build_attachments guid i as at)"
proof (induction guid msg n embedded and guid i as at rule: buildMessage_build_attachments.induct)
  case (1 guid m as n embedded)
  then show ?case
    by (auto intro!: hoare_intros message_pc local_object with_subs bd_on_subs table_node add_subnode pc_serialize
        simp: recipient_table_def attachment_table_def split: prod.splits)
next
  case (2 guid i at)
  then show ?case by (auto intro!: hoare_intros)
next
  case (3 guid i a as at)
  then show ?case
    by (cases a)
       (auto intro!: hoare_intros local_object with_subs bd_on_subs pc_node add_subnode spill store_heap split: prod.splits option.splits)
qed

subsection \<open>Contents tables\<close>

lemma st_on_ndb: "keeps P m \<Longrightarrow> keeps (\<lambda>s. P (st_ndb s)) (st_on_ndb m)"
  unfolding st_on_ndb_def by (rule keeps_zoomM) simp_all

lemma flushCurrent: "keeps (\<lambda>s. P (st_ndb s)) (flushCurrent l)"
  unfolding flushCurrent_def Let_def by (auto intro!: hoare_intros st_on_ndb writeLeafChunk)

lemma sheap_alloc: "keeps (\<lambda>s. P (st_ndb s)) (sheap_alloc x)"
  unfolding sheap_alloc_def put_current_def by (auto intro!: hoare_intros flushCurrent)

lemma sheap_finish: "keeps (\<lambda>s. P (st_ndb s)) sheap_finish"
  unfolding sheap_finish_def Let_def by (auto intro!: hoare_intros flushCurrent st_on_ndb writeLeafChunk assembleDataTree)

lemma tw_on_heap: "keeps (\<lambda>s. P (st_ndb s)) m \<Longrightarrow> keeps (\<lambda>s. P (ts_ndb s)) (tw_on_heap m)"
  unfolding tw_on_heap_def by (rule keeps_zoomM) (simp_all add: ts_streaming_def)

lemma tw_on_subs: "keeps (\<lambda>u. P (sa_ndb u)) m \<Longrightarrow> keeps (\<lambda>s. P (ts_ndb s)) (tw_on_subs m)"
  unfolding tw_on_subs_def by (rule keeps_zoomM) (simp_all add: ts_subs_def)

lemma tw_on_ndb: "keeps P m \<Longrightarrow> keeps (\<lambda>s. P (ts_ndb s)) (tw_on_ndb m)"
  unfolding tw_on_ndb_def by (rule keeps_zoomM) simp_all

lemma columnIndex_keeps: "keeps Q (columnIndex cols tag)"
  by (rule hoareI) (auto simp: columnIndex_def ret_def throw_def split: option.splits)

lemma tw_poke: "keeps (\<lambda>s. P (ts_ndb s)) (bindM (tw_column tag) (\<lambda>c. tw_poke c b))"
  unfolding tw_column_def tw_poke_def by (intro hoare_intros columnIndex_keeps) simp_all

lemma writer_op: "keeps (\<lambda>s. P (ts_ndb s)) (writer_op op)"
proof -
  have place: "keeps (\<lambda>s. P (ts_ndb s)) (tw_place b)" for b
    unfolding tw_place_def by (intro hoare_intros tw_on_heap tw_on_subs sheap_alloc spill) simp_all
  have binary: "keeps (\<lambda>s. P (ts_ndb s)) (tw_setBinary tag b)" for tag b
    unfolding tw_setBinary_def tw_column_def tw_poke_def by (intro hoare_intros place columnIndex_keeps) simp_all
  show ?thesis
    by (cases op) (simp_all add: tw_setInt16_def tw_setInt32_def tw_setBool_def tw_setTime_def tw_setInt64_def tw_setString_def tw_poke binary)
qed

lemma flushRowBlock: "keeps (\<lambda>s. P (ts_ndb s)) (flushRowBlock l)"
  unfolding flushRowBlock_def by (auto intro!: hoare_intros tw_on_ndb writeLeafChunk)

lemma write_row: "keeps (\<lambda>s. P (ts_ndb s)) (write_row r)"
proof -
  have row_begun: "keeps (\<lambda>s. P (ts_ndb s)) (beginRow i)" for i
    unfolding beginRow_def using writer_op [of "SetInt32 PidTagLtpRowId i"] writer_op [of "SetInt32 PidTagLtpRowVer 1"]
    by (auto intro!: hoare_intros)
  have "keeps (\<lambda>s. P (ts_ndb s)) endRow"
    unfolding endRow_def by (auto intro!: hoare_intros flushRowBlock)
  then show ?thesis unfolding write_row_def by (cases r) (auto intro!: hoare_intros row_begun writer_op)
qed

lemma tw_finish: "keeps (\<lambda>s. P (ts_ndb s)) tw_finish"
  unfolding tw_finish_def
  by (auto intro!: hoare_intros flushRowBlock tw_on_ndb tw_on_subs tw_on_heap assembleDataTree adopt sheap_alloc sheap_finish
      keeps_bth writeSubnodes simp: sheap_setUserRoot_def)

end

text \<open>The list of nodes, and whether the file is finished.\<close>

definition nodes_are :: "nbt_entry list \<Rightarrow> ndb \<Rightarrow> bool" where
  "nodes_are ns d \<longleftrightarrow> store_ok d \<and> nbt d = ns \<and> \<not> ndb_finished d"

lemma emitBlock_nodes: "keeps (nodes_are ns) (emitBlock d i)"
proof -
  have "nodes_are ns s'" if s: "nodes_are ns s" and run: "emitBlock d i s = Some (r, s')" for s r s'
  proof (cases "length d \<le> kMaxBlockData")
    case True
    have ok: "store_ok s" using s by (simp add: nodes_are_def)
    then have "store_ok s'" using emitBlock_law [OF ok run] by simp
    moreover have "nbt s' = nbt s \<and> ndb_finished s' = ndb_finished s"
      by (rule emitBlock_steps [OF ok True, of i]) (use run in \<open>auto simp: Let_def allocated_def same_but_maps_def split: if_splits\<close>)
    ultimately show ?thesis using s by (simp add: nodes_are_def)
  next
    case False
    then show ?thesis using s run by (auto simp: emitBlock_too_long)
  qed
  then show ?thesis by (intro hoareI)
qed

interpretation nodes: block_frame "nodes_are ns" for ns
  by unfold_locales (rule emitBlock_nodes)

interpretation blocks_kept: block_frame "within d" for d
  by unfold_locales (rule emitBlock_within)

end
