(* ===== verification/Writer_Store.thy ===== *)
theory Writer_Store
  imports Node_Frame
begin

section \<open>What a writer holds\<close>

text \<open>
  The state of a \<open>PstWriter\<close> against the list of the messages it was given: the nodes of the file are
  the messages, in order, each stored under its number and its folder; every folder counts its own
  and lists them in its contents table; the folders are a tree. Creating a folder and adding a
  message keep it so.
\<close>

subsection \<open>Members\<close>

lemma pw_on_ndb_run: "pw_on_ndb m s = Some (r, s') \<longleftrightarrow> (\<exists>d. m (pw_ndb s) = Some (r, d) \<and> s' = s\<lparr>pw_ndb := d\<rparr>)"
  by (auto simp: pw_on_ndb_def zoomM_def split: option.splits)

lemma pw_with_subs_run:
  "pw_with_subs m s = Some (r, s') \<longleftrightarrow> (\<exists>u. m (SubnodeAllocator_new (pw_ndb s)) = Some (r, u) \<and> s' = s\<lparr>pw_ndb := sa_ndb u\<rparr>)"
  by (auto simp: pw_with_subs_def zoomM_def split: option.splits)

lemma pw_build_run:
  "pw_build m s = Some (r, s') \<longleftrightarrow>
     (\<exists>b. m \<lparr>bd_subs = SubnodeAllocator_new (pw_ndb s), bd_names = pw_names s, bd_clock = pw_clock s\<rparr> = Some (r, b) \<and>
       s' = s\<lparr>pw_ndb := sa_ndb (bd_subs b), pw_names := bd_names b, pw_clock := bd_clock b\<rparr>)"
  by (auto simp: pw_build_def zoomM_def split: option.splits)

lemma pw_contents_run:
  "pw_contents i m s = Some (r, s') \<longleftrightarrow>
     (\<exists>t. m \<lparr>ts_ndb = pw_ndb s, ts_w = fd_contents (pw_folders s ! i)\<rparr> = Some (r, t) \<and>
       s' = upd_folder i (\<lambda>f. f\<lparr>fd_contents := ts_w t\<rparr>) (s\<lparr>pw_ndb := ts_ndb t\<rparr>))"
  by (auto simp: pw_contents_def zoomM_def split: option.splits)

lemma find_folder_Some: "find_folder k n fs = Some i \<Longrightarrow> k \<le> i \<and> i < k + length fs \<and> fd_nid (fs ! (i - k)) = n"
  by (induction fs arbitrary: k) (fastforce simp: nth_Cons' split: if_splits)+

lemma find_folder_None: "find_folder k n fs = None \<longleftrightarrow> n \<notin> fd_nid ` set fs"
  by (induction fs arbitrary: k) auto

lemma folder_at_run:
  "folder_at n s = Some (Inr i, s') \<longleftrightarrow> find_folder 0 n (pw_folders s) = Some i \<and> s' = s"
  by (auto simp: folder_at_def bindM_def getM_def ret_def throw_def split: option.splits)

subsection \<open>Numbers\<close>

definition message_nid :: "nat \<Rightarrow> nid" where
  "message_nid k = makeNid kNidTypeNormalMessage (kFirstUserNidIndex + of_nat k)"

definition folder_nid :: "nat \<Rightarrow> nid" where
  "folder_nid k = makeNid kNidTypeNormalFolder (kFirstUserNidIndex + of_nat k)"

text \<open>Numbers small enough are told apart.\<close>

lemma user_index:
  assumes "k < 2 ^ 26"
  shows "unat (kFirstUserNidIndex + of_nat k) = 0x400 + k"
proof -
  have "unat (of_nat k :: 32 word) = k" by (rule unat_small) (use assms in simp)
  then show ?thesis using assms by (simp add: unat_word_ariths)
qed

lemma user_nids:
  assumes "k < 2 ^ 26"
  shows "nidIndex (message_nid k) = kFirstUserNidIndex + of_nat k" "nidType (message_nid k) = kNidTypeNormalMessage"
    "nidIndex (folder_nid k) = kFirstUserNidIndex + of_nat k" "nidType (folder_nid k) = kNidTypeNormalFolder"
proof -
  have "unat (kFirstUserNidIndex + of_nat k) < 2 ^ 27" using user_index [OF assms] assms by simp
  note parts = nid_roundtrip [OF this]
  show "nidIndex (message_nid k) = kFirstUserNidIndex + of_nat k" "nidIndex (folder_nid k) = kFirstUserNidIndex + of_nat k"
    by (simp_all add: message_nid_def folder_nid_def parts(1) del: add.commute)
  show "nidType (message_nid k) = kNidTypeNormalMessage" "nidType (folder_nid k) = kNidTypeNormalFolder"
    by (simp_all add: message_nid_def folder_nid_def parts(2) del: add.commute)
qed

lemma user_index_inject: "k < 2 ^ 26 \<Longrightarrow> j < 2 ^ 26 \<Longrightarrow> kFirstUserNidIndex + of_nat k = kFirstUserNidIndex + of_nat j \<longleftrightarrow> k = j"
  using user_index [of k] user_index [of j] by (metis add_left_cancel)

lemma user_nids_inject:
  assumes "k < 2 ^ 26" "j < 2 ^ 26"
  shows "message_nid k = message_nid j \<longleftrightarrow> k = j" "folder_nid k = folder_nid j \<longleftrightarrow> k = j"
  using user_nids [OF assms(1)] user_nids [OF assms(2)] user_index_inject [OF assms] by metis+

text \<open>The messages given to the writer, numbered; and those of a folder.\<close>

type_synonym mail_log = "(nid \<times> message) list"

definition numbered :: "mail_log \<Rightarrow> (nid \<times> nid \<times> message) list" where
  "numbered log = map (\<lambda>(k, f, msg). (message_nid k, f, msg)) (enumerate 0 log)"

definition in_folder :: "nid \<Rightarrow> mail_log \<Rightarrow> (nid \<times> message) list" where
  "in_folder f log = map (\<lambda>(n, g, msg). (n, msg)) (filter (\<lambda>(n, g, msg). g = f) (numbered log))"

lemma numbered_snoc: "numbered (log @ [(f, msg)]) = numbered log @ [(message_nid (length log), f, msg)]"
  by (simp add: numbered_def enumerate_append_eq)

lemma in_folder_snoc: "in_folder g (log @ [(f, msg)]) = in_folder g log @ (if f = g then [(message_nid (length log), msg)] else [])"
  by (simp add: in_folder_def numbered_snoc)

lemma length_numbered [simp]: "length (numbered log) = length log"
  by (simp add: numbered_def)

lemma numbered_nth: "k < length log \<Longrightarrow> numbered log ! k = (message_nid k, log ! k)"
  by (simp add: numbered_def nth_enumerate_eq split_beta)

lemma numbered_fst: "map fst (numbered log) = map message_nid [0..<length log]"
  by (rule nth_equalityI) (simp_all add: numbered_nth)

lemma in_folder_fst: "set (map fst (in_folder f log)) \<subseteq> message_nid ` {..<length log}"
proof -
  have "set (map fst (in_folder f log)) \<subseteq> set (map fst (numbered log))" by (auto simp: in_folder_def image_iff split: prod.splits) force
  then show ?thesis unfolding numbered_fst by auto
qed

lemma length_in_folder: "length (in_folder f log) \<le> length log"
  unfolding in_folder_def using length_filter_le [of _ "numbered log"] by simp

lemma in_folder_fresh: "length log < 2 ^ 26 \<Longrightarrow> message_nid (length log) \<notin> set (map fst (in_folder f log))"
  using in_folder_fst [of f log] user_nids_inject(1) by fastforce

lemma distinct_numbered: "length log \<le> 2 ^ 26 \<Longrightarrow> distinct (map fst (numbered log))"
  unfolding numbered_fst by (auto simp: distinct_map inj_on_def user_nids_inject(1))

subsection \<open>The contents table of a folder\<close>

text \<open>The row of a message in the contents table of its folder.\<close>

definition contents_cells :: "nid \<times> message \<Rightarrow> 32 word \<times> cell_op list" where
  "contents_cells = (\<lambda>(n, msg). let m = fields_of msg in
     (n, [SetString PR_SUBJECT (m_subject m), SetString PR_SENDER_NAME (display_name (m_from m)),
          SetString PR_DISPLAY_TO (joinMailboxes (m_to m)),
          SetString PR_MESSAGE_CLASS (if message_class m = [] then ''IPM.Note'' else message_class m),
          SetTime PR_MESSAGE_DELIVERY_TIME (unixToFiletime (delivered m)),
          SetInt32 PR_MESSAGE_FLAGS (mapi_flags m (attachments msg \<noteq> [])), SetInt32 PR_MESSAGE_SIZE (message_size m),
          SetBool PR_HASATTACH (attachments msg \<noteq> [])]))"

lemma contents_cells_fst [simp]: "fst (contents_cells r) = fst r"
  by (cases r) (simp add: contents_cells_def Let_def)

lemma contents_row_eq:
  "contents_row n msg (mapi_flags (fields_of msg) (attachments msg \<noteq> [])) (message_size (fields_of msg)) = write_row (contents_cells (n, msg))"
  by (simp add: contents_row_def contents_cells_def write_row_def Let_def bindM_assoc)

abbreviation contents_tags :: "prop_tag list" where
  "contents_tags \<equiv> [PidTagLtpRowId, PidTagLtpRowVer] @ contentsColumns"

lemma contents_columns:
  "table_ok (new_table contentsColumns) \<and> tb_columns (new_table contentsColumns) = contents_tags \<and> tb_rows (new_table contentsColumns) = []"
  by (rule new_table_columns) (simp_all add: contentsColumns_def makeTag_inject)

lemma contents_cells_ok: "fields_fit (fields_of msg) \<Longrightarrow> row_ok contents_tags (contents_cells (n, msg))"
proof -
  assume m: "fields_fit (fields_of msg)"
  have fit: "text_fits (m_subject (fields_of msg))" "text_fits (display_name (m_from (fields_of msg)))"
      "text_fits (joinMailboxes (m_to (fields_of msg)))"
      "text_fits (if message_class (fields_of msg) = [] then ''IPM.Note'' else message_class (fields_of msg))"
    using m by (auto simp: fields_fit_def display_name_def)
  have time: "op_ok (SetTime tag v)" if "tagType tag = kPtSystime" for tag v
    using that by (simp add: op_ok_def cell_ok_def fixed_cell_def fixedPropSize_def column_width_def)
  show ?thesis
    using op_okI fit time by (simp add: contents_cells_def row_ok_def Let_def makeTag_inject contentsColumns_def)
qed

text \<open>A contents table in the making that lists the given messages.\<close>

definition lists :: "ndb \<Rightarrow> twriter \<Rightarrow> (nid \<times> message) list \<Rightarrow> bool" where
  "lists d w ms \<longleftrightarrow> \<not> tw_in_row w \<and>
     (\<exists>t g bs. tab (2 ^ 27 - 1 - 10 * length ms) \<lparr>ts_ndb = d, ts_w = w\<rparr> t g bs \<and> table_ok t \<and> tb_columns t = contents_tags \<and>
        map tr_id (tb_rows t) = map fst ms \<and> (\<forall>r \<in> set ms. row_shown t (contents_cells r)))"

lemma lists_new: "store_ok d \<Longrightarrow> lists d (TableContextWriter_new contentsColumns) []"
proof -
  assume d: "store_ok d"
  have "length (tb_columns (new_table contentsColumns)) \<le> 255" using contents_columns unfolding table_ok_def by blast
  from tab_new [OF d _ this [unfolded new_table_def], of "2 ^ 27 - 1"] obtain g where
    "tab (2 ^ 27 - 1) \<lparr>ts_ndb = d, ts_w = TableContextWriter_new contentsColumns\<rparr> (new_table contentsColumns) g []"
    by (auto simp: new_table_def)
  moreover have "\<not> tw_in_row (TableContextWriter_new contentsColumns)" by (simp add: TableContextWriter_new_def Let_def)
  ultimately show ?thesis
    using contents_columns unfolding lists_def by (intro conjI exI [of _ "new_table contentsColumns"] exI [of _ g] exI [of _ "[]"]) simp_all
qed

lemma lists_later:
  assumes l: "lists d w ms" and d': "within d d'"
  shows "lists d' w ms"
proof -
  let ?s = "\<lparr>ts_ndb = d, ts_w = w\<rparr>"
  obtain t g bs where t: "tab (2 ^ 27 - 1 - 10 * length ms) ?s t g bs" "table_ok t" "tb_columns t = contents_tags"
      "map tr_id (tb_rows t) = map fst ms" "\<forall>r \<in> set ms. row_shown t (contents_cells r)"
    using l by (auto simp: lists_def)
  have "ghost (2 ^ 27 - 1 - 10 * length ms) ?s g" using t(1) by (simp add: tab_def Let_def)
  from ghost_ndb [OF this] obtain g' where g': "ghost (2 ^ 27 - 1 - 10 * length ms) (?s\<lparr>ts_ndb := d'\<rparr>) g'" "ltp_ext g g'"
    using d' by auto
  have "tab (2 ^ 27 - 1 - 10 * length ms) (?s\<lparr>ts_ndb := d'\<rparr>) t g' bs"
    by (rule tab_ext [OF t(1) g']) (simp add: same_rows_def)
  then show ?thesis using l t(2-5) by (auto simp: lists_def)
qed

lemma lists_add:
  assumes l: "lists d w ms" and few: "length ms < 2 ^ 20" and new: "n \<notin> set (map fst ms)" and fit: "fields_fit (fields_of msg)"
    and run: "write_row (contents_cells (n, msg)) \<lparr>ts_ndb = d, ts_w = w\<rparr> = Some (Inr (), s')"
  shows "lists (ts_ndb s') (ts_w s') (ms @ [(n, msg)])"
proof -
  let ?k = "2 ^ 27 - 1 - 10 * length (ms @ [(n, msg)])" and ?r = "contents_cells (n, msg)"
  obtain t g bs where t: "tab (2 ^ 27 - 1 - 10 * length ms) \<lparr>ts_ndb = d, ts_w = w\<rparr> t g bs" "table_ok t" "tb_columns t = contents_tags"
      "map tr_id (tb_rows t) = map fst ms" "\<forall>r \<in> set ms. row_shown t (contents_cells r)"
    using l by (auto simp: lists_def)
  have "row_cost ?r = 10" by (simp add: contents_cells_def Let_def)
  then have "?k + row_cost ?r = 2 ^ 27 - 1 - 10 * length ms" using few by simp
  then have tab: "tab (?k + row_cost ?r) \<lparr>ts_ndb = d, ts_w = w\<rparr> t g bs" using t(1) by (simp only:)
  note ok = contents_cells_ok [OF fit, of n]
  obtain t' g' bs' where t': "fill_row ?r t = Some (Inr (), t')" "tab ?k s' t' g' bs'" "\<not> tw_in_row (ts_w s')"
    using write_row_law [OF tab _ run] ok by (auto simp: row_ok_def)
  have fresh: "fst ?r \<notin> set (map tr_id (tb_rows t))" using new t(4) by simp
  have "row_ok (tb_columns t) ?r" using ok t(3) by simp
  from fill_row_cells [OF t(2) fresh this] t'(1) have f: "table_ok t'" "tb_columns t' = tb_columns t"
      "map tr_id (tb_rows t') = map tr_id (tb_rows t) @ [n]" "row_shown t' ?r"
      "\<And>i tag. i \<noteq> n \<Longrightarrow> table_cell t' i tag = table_cell t i tag"
    by auto
  have "row_shown t' (contents_cells r)" if "r \<in> set ms" for r
  proof -
    have "fst r \<noteq> n" using new that by auto
    then show ?thesis using t(5) that f(5) by (simp add: row_shown_def)
  qed
  moreover have "tab ?k \<lparr>ts_ndb = ts_ndb s', ts_w = ts_w s'\<rparr> t' g' bs'" using t'(2) by (cases s') simp
  ultimately show ?thesis
    using t'(3) f(1-4) t(3,4) unfolding lists_def
    by (intro conjI exI [of _ t'] exI [of _ g'] exI [of _ bs']) simp_all
qed

subsection \<open>The tree of folders\<close>

text \<open>
  The root comes first, then the folders in the order of their creation; every folder has a parent
  in the list (the root is its own), and the children of a folder are those it is the parent of.
\<close>

type_synonym place = "nid \<times> nid \<times> string \<times> nid list"

abbreviation fd_place :: "folder \<Rightarrow> place" where
  "fd_place f \<equiv> (fd_nid f, fd_parent f, fd_name f, fd_children f)"

definition children_of :: "nid \<Rightarrow> place list \<Rightarrow> nid list" where
  "children_of n ps = map fst (filter (\<lambda>(i, p, name, cs). p = n) (tl ps))"

definition tree_ok :: "place list \<Rightarrow> 32 word \<Rightarrow> bool" where
  "tree_ok ps next_folder \<longleftrightarrow> ps \<noteq> [] \<and> length ps \<le> 2 ^ 26 \<and> next_folder = kFirstUserNidIndex + of_nat (length ps - 1) \<and>
     map fst ps = kNidRootFolder # map folder_nid [0..<length ps - 1] \<and>
     (\<forall>(i, p, name, cs) \<in> set ps. p \<in> fst ` set ps \<and> cs = children_of i ps)"

lemma root_not_user: "k < 2 ^ 26 \<Longrightarrow> folder_nid k \<noteq> kNidRootFolder"
proof
  assume k: "k < 2 ^ 26" "folder_nid k = kNidRootFolder"
  have "nidIndex kNidRootFolder = 9" by (simp add: nidIndex_def)
  then have "kFirstUserNidIndex + of_nat k = (9 :: 32 word)" using user_nids(3) [OF k(1)] k(2) by simp
  then have "unat (kFirstUserNidIndex + of_nat k) = 9" by (simp only:) simp
  then show False using user_index [OF k(1)] by simp
qed

lemma tree_distinct:
  assumes "tree_ok ps n"
  shows "distinct (map fst ps)"
proof -
  have nids: "map fst ps = kNidRootFolder # map folder_nid [0..<length ps - 1]" and l: "length ps \<le> 2 ^ 26" "ps \<noteq> []"
    using assms by (simp_all add: tree_ok_def)
  then have small: "k < length ps - 1 \<Longrightarrow> k < 2 ^ 26" for k by (cases ps) simp_all
  have "inj_on folder_nid (set [0..<length ps - 1])" by (rule inj_onI) (use user_nids_inject(2) small in simp)
  moreover have "kNidRootFolder \<notin> set (map folder_nid [0..<length ps - 1])"
    unfolding in_set_conv_nth using root_not_user [OF small] by fastforce
  ultimately show ?thesis unfolding nids by (simp only: distinct.simps distinct_map distinct_upt simp_thms)
qed

text \<open>The children of a folder after one more is made.\<close>

lemma children_of_snoc:
  assumes "ps \<noteq> []" "length ps' = length ps" "\<And>j. j < length ps \<Longrightarrow> fst (ps' ! j) = fst (ps ! j) \<and> fst (snd (ps' ! j)) = fst (snd (ps ! j))"
  shows "children_of m (ps' @ [(n, parent, name, cs)]) = children_of m ps @ (if parent = m then [n] else [])"
proof -
  have "map (\<lambda>(i, p, name, cs). (i, p)) (tl ps') = map (\<lambda>(i, p, name, cs). (i, p)) (tl ps)"
    by (rule nth_equalityI) (use assms in \<open>auto simp: nth_tl split_beta\<close>)
  moreover have "children_of m qs = map fst (filter (\<lambda>(i, p). p = m) (map (\<lambda>(i, p, name, cs). (i, p)) (tl qs)))" for qs
    by (simp add: children_of_def filter_map comp_def split_def)
  moreover have "tl (ps' @ [(n, parent, name, cs)]) = tl ps' @ [(n, parent, name, cs)]" using assms(1,2) by (cases ps') auto
  ultimately show ?thesis by simp
qed

lemma tree_ok_grow:
  assumes ok: "tree_ok ps nf" and few: "length ps < 2 ^ 26" and i: "i < length ps" "fst (ps ! i) = parent"
    and n: "n = makeNid kNidTypeNormalFolder nf"
  shows "tree_ok (map (\<lambda>(m, p, name, cs). (m, p, name, if m = parent then cs @ [n] else cs)) ps @ [(n, parent, name, [])]) (nf + 1)"
    (is "tree_ok (?up @ [?new]) _")
proof -
  have T: "ps \<noteq> []" "nf = kFirstUserNidIndex + of_nat (length ps - 1)" "map fst ps = kNidRootFolder # map folder_nid [0..<length ps - 1]"
      "\<And>m p name cs. (m, p, name, cs) \<in> set ps \<Longrightarrow> p \<in> fst ` set ps \<and> cs = children_of m ps"
    using ok by (auto simp: tree_ok_def)
  have nid: "n = folder_nid (length ps - 1)" by (simp add: n T(2) folder_nid_def)
  have len: "length ps = Suc (length ps - 1)" using T(1) by (cases ps) simp_all
  have fresh: "n \<notin> fst ` set ps"
  proof -
    have "n \<noteq> kNidRootFolder" using root_not_user few by (simp add: nid)
    moreover have "n \<noteq> folder_nid k" if "k < length ps - 1" for k using user_nids_inject(2) few that by (simp add: nid)
    ultimately have "n \<notin> set (map fst ps)" unfolding T(3) by (simp add: image_iff Ball_def del: One_nat_def)
    then show ?thesis by simp
  qed
  have kids: "children_of m (?up @ [?new]) = children_of m ps @ (if parent = m then [n] else [])" for m
    by (rule children_of_snoc) (use T(1) in \<open>auto simp: split_beta\<close>)
  have "parent \<in> fst ` set ps" using i nth_mem by force
  moreover have none: "children_of n ps = []"
  proof -
    have "p \<noteq> n" if "(m, p, name, cs) \<in> set (tl ps)" for m p name cs
      using T(4) [OF list.set_sel(2) [OF T(1) that]] fresh by auto
    then show ?thesis by (auto simp: children_of_def filter_empty_conv)
  qed
  moreover have "fst ` set ?up = fst ` set ps" by force
  ultimately have "\<forall>(m, p, name, cs) \<in> set (?up @ [?new]). p \<in> fst ` set (?up @ [?new]) \<and> cs = children_of m (?up @ [?new])"
  proof -
    have img: "fst ` set (?up @ [?new]) = insert n (fst ` set ps)"
      using \<open>fst ` set ?up = fst ` set ps\<close> by simp
    have "children_of n (?up @ [?new]) = []"
      using none \<open>parent \<in> fst ` set ps\<close> fresh unfolding kids by auto
    moreover have "p \<in> insert n (fst ` set ps) \<and> cs = children_of m (?up @ [?new])" if "(m, p, name, cs) \<in> set ?up" for m p name cs
      using that T(4) unfolding kids by (auto split: if_splits)
    ultimately show ?thesis
      unfolding img unfolding set_append list.set using \<open>parent \<in> fst ` set ps\<close>
      by (simp only: ball_Un ball_simps prod.case) blast
  qed
  moreover have "map fst (?up @ [?new]) = kNidRootFolder # map folder_nid [0..<length ps]"
  proof -
    have "map fst ?up = map fst ps" by (simp add: comp_def split_beta)
    moreover have "[0..<length ps] = [0..<length ps - 1] @ [length ps - 1]" by (subst len) (simp only: upt_Suc_append)
    ultimately show ?thesis by (simp add: T(3) nid)
  qed
  moreover have "nf + 1 = kFirstUserNidIndex + of_nat (length ps)"
  proof -
    have "(of_nat (length ps) :: 32 word) = of_nat (length ps - 1) + 1" using len by (metis of_nat_Suc add.commute)
    then show ?thesis by (simp add: T(2))
  qed
  ultimately show ?thesis using few unfolding tree_ok_def by auto
qed

subsection \<open>The invariant\<close>

definition unread_of :: "(nid \<times> message) list \<Rightarrow> nat" where
  "unread_of ms = length (filter (\<lambda>(n, msg). \<not> seen (fields_of msg)) ms)"

definition folder_holds :: "ndb \<Rightarrow> mail_log \<Rightarrow> folder \<Rightarrow> bool" where
  "folder_holds d log f \<longleftrightarrow>
     fd_message_count f = length (in_folder (fd_nid f) log) \<and> fd_unread f = of_nat (unread_of (in_folder (fd_nid f) log)) \<and>
     lists d (fd_contents f) (in_folder (fd_nid f) log)"

definition message_held :: "blocks \<Rightarrow> bytes \<Rightarrow> request list \<Rightarrow> nbt_entry \<Rightarrow> nid \<times> nid \<times> message \<Rightarrow> bool" where
  "message_held look guid ns e = (\<lambda>(n, f, msg). ne_nid e = n \<and> ne_parent e = f \<and>
     stored_message look ns msg (ne_data e, ne_sub e) \<and> ids_shown look guid n (ne_data e, ne_sub e))"

text \<open>The nodes hold the messages, with the names that the map has given ids to.\<close>

definition mail_held :: "ndb \<Rightarrow> bytes \<Rightarrow> nameid \<Rightarrow> mail_log \<Rightarrow> bool" where
  "mail_held d guid names log \<longleftrightarrow> (\<exists>ns. names_inv ns names \<and> list_all2 (message_held (lookup_block d) guid ns) (nbt d) (numbered log))"

definition writer_holds :: "mail_log \<Rightarrow> pst \<Rightarrow> bool" where
  "writer_holds log s \<longleftrightarrow>
     nodes_are (nbt (pw_ndb s)) (pw_ndb s) \<and> \<not> pw_finished s \<and> length (pw_guid s) = 16 \<and>
     pw_next_message s = kFirstUserNidIndex + of_nat (length log) \<and>
     tree_ok (map fd_place (pw_folders s)) (pw_next_folder s) \<and> fst ` set log \<subseteq> fd_nid ` set (pw_folders s) \<and>
     mail_held (pw_ndb s) (pw_guid s) (pw_names s) log \<and>
     list_all (folder_holds (pw_ndb s) log) (pw_folders s)"

lemma message_held_more:
  "more_blocks look look' \<Longrightarrow> prefix ns ns' \<Longrightarrow> message_held look guid ns e x \<Longrightarrow> message_held look' guid ns' e x"
  by (auto simp: message_held_def intro: stored_message_more ids_shown_more)

lemma folder_holds_later: "within d d' \<Longrightarrow> folder_holds d log f \<Longrightarrow> folder_holds d' log f"
  by (auto simp: folder_holds_def intro: lists_later)

lemma folder_holds_other: "fd_nid f \<noteq> g \<Longrightarrow> folder_holds d (log @ [(g, msg)]) f = folder_holds d log f"
  by (auto simp: folder_holds_def in_folder_snoc)

lemma within_node: "within d (d'\<lparr>nbt := ns\<rparr>) = within d d'"
  by (simp add: within_def preserves_def)

lemma nodes_are_node: "nodes_are ns d \<Longrightarrow> nodes_are ns' (d\<lparr>nbt := ns'\<rparr>)"
  by (simp add: nodes_are_def)

lemma within_trans: "within a b \<Longrightarrow> within b c \<Longrightarrow> within a c"
  by (auto simp: within_def intro: preserves_trans)

lemma addNode_run:
  "addNode n data sub parent d = Some (r, d') \<longleftrightarrow>
     r = Inr () \<and> d' = d\<lparr>nbt := nbt d @ [\<lparr>ne_nid = n, ne_data = data, ne_sub = sub, ne_parent = parent\<rparr>]\<rparr>"
  by (auto simp: addNode_def modM_def)

subsection \<open>Adding a message\<close>

lemma buildMessage_result:
  "buildMessage guid msg n emb s = Some (Inr (heap, flags, sz), s') \<Longrightarrow>
     flags = mapi_flags (fields_of msg) (attachments msg \<noteq> []) \<and> sz = message_size (fields_of msg)"
  by (cases msg) (auto simp: bindM_Inr_iff ret_run)

text \<open>The message's node: built, written, preserved.\<close>

lemma message_node_law:
  assumes s: "nodes_are es (pw_ndb s)" "names_inv ns (pw_names s)" and guid: "length guid = 16" and fit: "message_fits msg"
    and run: "pw_build (bindM (buildMessage guid msg n False) (\<lambda>(heap, flags, size).
        bindM (bd_on_subs (store_heap heap)) (\<lambda>(data, sub). ret (data, sub, flags, size)))) s = Some (Inr (data, sub, flags, sz), s')"
  shows "\<exists>d names clock ns'. s' = s\<lparr>pw_ndb := d, pw_names := names, pw_clock := clock\<rparr> \<and> within (pw_ndb s) d \<and> nodes_are es d \<and>
    names_inv ns' names \<and> prefix ns ns' \<and> stored_message (lookup_block d) ns' msg (data, sub) \<and> ids_shown (lookup_block d) guid n (data, sub) \<and>
    flags = mapi_flags (fields_of msg) (attachments msg \<noteq> []) \<and> sz = message_size (fields_of msg)"
proof -
  let ?b = "\<lparr>bd_subs = SubnodeAllocator_new (pw_ndb s), bd_names = pw_names s, bd_clock = pw_clock s\<rparr>"
  obtain b heap b1 u where 1: "buildMessage guid msg n False ?b = Some (Inr (heap, flags, sz), b1)"
      and 2: "store_heap heap (bd_subs b1) = Some (Inr (data, sub), u)" and b: "b = b1\<lparr>bd_subs := u\<rparr>"
      and s': "s' = s\<lparr>pw_ndb := sa_ndb (bd_subs b), pw_names := bd_names b, pw_clock := bd_clock b\<rparr>"
    using run by (auto simp: pw_build_run bindM_Inr_iff bd_on_subs_run ret_run split_beta)
  have fresh: "bd_subs ?b = SubnodeAllocator_new (sa_ndb (bd_subs ?b))" "sa_ndb (bd_subs ?b) = pw_ndb s"
    by (simp_all add: SubnodeAllocator_new_def)
  have st: "store_ok (sa_ndb (bd_subs ?b))" using s(1) unfolding fresh(2) by (simp add: nodes_are_def)
  have inv: "names_inv ns (bd_names ?b)" using s(2) by simp
  from buildMessage_law [OF guid fit, unfolded message_law_def, rule_format, OF fresh(1) st inv 1 2] obtain ns' where
    law: "store_ok (sa_ndb u)" "preserves (pw_ndb s) (sa_ndb u)" "names_inv ns' (bd_names b1)" "prefix ns ns'"
      "stored_message (lookup_block (sa_ndb u)) ns' msg (data, sub)" "ids_shown (lookup_block (sa_ndb u)) guid n (data, sub)"
    unfolding fresh(2) by blast
  have "nodes_are es (sa_ndb (bd_subs ?b))" using s(1) unfolding fresh(2) .
  from keepsD [OF nodes.store_heap keepsD [OF nodes.buildMessage(1) this 1] 2] have "nodes_are es (sa_ndb u)" .
  then show ?thesis
    using law buildMessage_result [OF 1]
    by (intro exI [of _ "sa_ndb u"] exI [of _ "bd_names b1"] exI [of _ "bd_clock b1"] exI [of _ ns']) (simp add: s' b within_def)
qed

lemma addMessage_law:
  assumes inv: "writer_holds log s" and few: "length log < 2 ^ 20" and fit: "message_fits msg"
    and run: "addMessage f msg s = Some (Inr (), s')"
  shows "writer_holds (log @ [(f, msg)]) s' \<and> map fd_place (pw_folders s') = map fd_place (pw_folders s) \<and> f \<in> fd_nid ` set (pw_folders s)"
proof -
  let ?n = "message_nid (length log)" and ?fs = "pw_folders s"
  have I: "nodes_are (nbt (pw_ndb s)) (pw_ndb s)" "\<not> pw_finished s" "length (pw_guid s) = 16"
      "pw_next_message s = kFirstUserNidIndex + of_nat (length log)" "tree_ok (map fd_place ?fs) (pw_next_folder s)"
      "list_all (folder_holds (pw_ndb s) log) ?fs" "fst ` set log \<subseteq> fd_nid ` set ?fs"
    using inv by (simp_all add: writer_holds_def)
  obtain ns where ns: "names_inv ns (pw_names s)" "list_all2 (message_held (lookup_block (pw_ndb s)) (pw_guid s) ns) (nbt (pw_ndb s)) (numbered log)"
    using inv by (auto simp: writer_holds_def mail_held_def)
  have n: "makeNid kNidTypeNormalMessage (pw_next_message s) = ?n" by (simp add: I(4) message_nid_def)
  let ?s1 = "s\<lparr>pw_next_message := pw_next_message s + 1\<rparr>"
  obtain i data sub flags sz s2 s3 t where i: "find_folder 0 f ?fs = Some i"
      and 2: "pw_build (bindM (buildMessage (pw_guid s) msg ?n False) (\<lambda>(heap, flags, size).
        bindM (bd_on_subs (store_heap heap)) (\<lambda>(data, sub). ret (data, sub, flags, size)))) ?s1 = Some (Inr (data, sub, flags, sz), s2)"
      and 3: "s3 = s2\<lparr>pw_ndb := (pw_ndb s2)\<lparr>nbt := nbt (pw_ndb s2) @ [\<lparr>ne_nid = ?n, ne_data = data, ne_sub = sub, ne_parent = f\<rparr>]\<rparr>\<rparr>"
      and 4: "contents_row ?n msg flags sz \<lparr>ts_ndb = pw_ndb s3, ts_w = fd_contents (pw_folders s3 ! i)\<rparr> = Some (Inr (), t)"
      and s': "s' = upd_folder i (\<lambda>f. f\<lparr>fd_message_count := fd_message_count f + 1,
         fd_unread := (if seen (fields_of msg) then fd_unread f else fd_unread f + 1)\<rparr>)
         (upd_folder i (\<lambda>f. f\<lparr>fd_contents := ts_w t\<rparr>) (s3\<lparr>pw_ndb := ts_ndb t\<rparr>))"
    using run unfolding addMessage_def n [symmetric]
    by (auto simp: bindM_Inr_iff folder_at_run getM_def modM_def pw_on_ndb_run addNode_run pw_contents_run split_beta)
  have i': "i < length ?fs" "fd_nid (?fs ! i) = f" using find_folder_Some [OF i] by simp_all
  from message_node_law [OF _ _ I(3) fit 2, of "nbt (pw_ndb s)" ns] I(1) ns(1) obtain d names clock ns' where
      d: "s2 = ?s1\<lparr>pw_ndb := d, pw_names := names, pw_clock := clock\<rparr>" "within (pw_ndb s) d" "nodes_are (nbt (pw_ndb s)) d" "names_inv ns' names"
      "stored_message (lookup_block d) ns' msg (data, sub)"
      "flags = mapi_flags (fields_of msg) (attachments msg \<noteq> [])" "sz = message_size (fields_of msg)"
      "prefix ns ns'" "ids_shown (lookup_block d) (pw_guid s) ?n (data, sub)"
    by auto
  let ?e = "\<lparr>ne_nid = ?n, ne_data = data, ne_sub = sub, ne_parent = f\<rparr>" and ?ns = "nbt (pw_ndb s)"
  let ?d3 = "d\<lparr>nbt := ?ns @ [?e]\<rparr>"
  have nbt: "nbt d = ?ns" using d(3) by (simp add: nodes_are_def)
  have d3: "pw_ndb s3 = ?d3" "within (pw_ndb s) ?d3" "nodes_are (?ns @ [?e]) ?d3"
    using d(2,3) nodes_are_node within_node nbt by (simp_all add: 3 d(1))
  have s3: "pw_folders s3 = ?fs" by (simp add: 3 d(1))
  have wr: "write_row (contents_cells (?n, msg)) \<lparr>ts_ndb = ?d3, ts_w = fd_contents (?fs ! i)\<rparr> = Some (Inr (), t)"
    using 4 unfolding d3(1) s3 d(6,7) contents_row_eq .
  have held: "folder_holds (pw_ndb s) log (?fs ! i)" using I(6) i'(1) by (simp add: list_all_length)
  then have "lists ?d3 (fd_contents (?fs ! i)) (in_folder f log)"
    using lists_later [OF _ d3(2)] i'(2) by (simp add: folder_holds_def)
  moreover have "length (in_folder f log) < 2 ^ 20" using length_in_folder [of f log] few by simp
  moreover have "?n \<notin> set (map fst (in_folder f log))" using few by (intro in_folder_fresh) simp
  moreover have "fields_fit (fields_of msg)" using fit by (cases msg) simp
  ultimately have l: "lists (ts_ndb t) (ts_w t) (in_folder f log @ [(?n, msg)])" by (rule lists_add [OF _ _ _ _ wr])
  have t: "within ?d3 (ts_ndb t)" "nodes_are (?ns @ [?e]) (ts_ndb t)"
    using keepsD [OF blocks_kept.write_row _ wr, of ?d3] keepsD [OF nodes.write_row _ wr, of "?ns @ [?e]"] d3(3)
    by (simp_all add: within_refl nodes_are_def)
  have w: "within (pw_ndb s) (ts_ndb t)" by (rule within_trans [OF d3(2) t(1)])
  let ?f' = "(?fs ! i)\<lparr>fd_contents := ts_w t, fd_message_count := fd_message_count (?fs ! i) + 1,
      fd_unread := (if seen (fields_of msg) then fd_unread (?fs ! i) else fd_unread (?fs ! i) + 1)\<rparr>"
  have fs': "pw_folders s' = ?fs[i := ?f']" using i'(1) by (simp add: s' upd_folder_def s3)
  have places: "map fd_place (pw_folders s') = map fd_place ?fs"
    using i'(1) by (simp add: fs' map_update list_update_same_conv)
  have "folder_holds (ts_ndb t) (log @ [(f, msg)]) ?f'"
    using held l i'(2) by (simp add: folder_holds_def in_folder_snoc unread_of_def)
  moreover have "folder_holds (ts_ndb t) (log @ [(f, msg)]) (?fs ! j)" if j: "j < length ?fs" "j \<noteq> i" for j
  proof -
    have "distinct (map fd_nid ?fs)" using tree_distinct [OF I(5)] by (simp add: comp_def)
    then have "fd_nid (?fs ! j) \<noteq> f" using j i' nth_eq_iff_index_eq [of "map fd_nid ?fs" j i] by auto
    then show ?thesis
      using folder_holds_later [OF w] I(6) j(1) by (simp add: folder_holds_other list_all_length)
  qed
  ultimately have "list_all (folder_holds (ts_ndb t) (log @ [(f, msg)])) (pw_folders s')"
    using i'(1) by (auto simp: fs' list_all_length nth_list_update)
  moreover have "list_all2 (message_held (lookup_block (ts_ndb t)) (pw_guid s) ns') (?ns @ [?e]) (numbered (log @ [(f, msg)]))"
  proof -
    have more: "more_blocks (lookup_block d) (lookup_block (ts_ndb t))" "more_blocks (lookup_block (pw_ndb s)) (lookup_block (ts_ndb t))"
      using t(1) w by (auto simp: within_def preserves_def more_blocks_def)
    have "message_held (lookup_block (ts_ndb t)) (pw_guid s) ns' ?e (?n, f, msg)"
      using stored_message_more [OF more(1) prefix_order.refl d(5)] ids_shown_more [OF more(1) d(9)] by (simp add: message_held_def)
    moreover have "list_all2 (message_held (lookup_block (ts_ndb t)) (pw_guid s) ns') ?ns (numbered log)"
      by (rule list_all2_mono [OF ns(2)]) (rule message_held_more [OF more(2) d(8)])
    ultimately show ?thesis by (simp add: numbered_snoc list_all2_appendI)
  qed
  moreover have "pw_ndb s' = ts_ndb t" "pw_names s' = names" "pw_finished s' = pw_finished s" "pw_guid s' = pw_guid s"
      "pw_next_message s' = pw_next_message s + 1" "pw_next_folder s' = pw_next_folder s"
    by (simp_all add: s' upd_folder_def 3 d(1))
  moreover have f: "f \<in> fd_nid ` set ?fs" using i' nth_mem by blast
  moreover have "fd_nid ` set (pw_folders s') = fd_nid ` set ?fs" using arg_cong [OF places, of "\<lambda>l. fst ` set l"] by (simp add: image_image)
  ultimately have "writer_holds (log @ [(f, msg)]) s'"
    using I t(2) d(4) unfolding writer_holds_def mail_held_def places by (auto simp: nodes_are_def add.assoc add.commute)
  then show ?thesis using places f by simp
qed

subsection \<open>Creating a folder\<close>

text \<open>The places after a folder \<open>n\<close> is made under \<open>parent\<close>.\<close>

definition grown :: "nid \<Rightarrow> nid \<Rightarrow> string \<Rightarrow> place list \<Rightarrow> place list" where
  "grown n parent name ps =
     map (\<lambda>(m, p, name, cs). (m, p, name, if m = parent then cs @ [n] else cs)) ps @ [(n, parent, name, [])]"

lemma add_child_places:
  assumes "distinct (map fd_nid fs)" "parent \<in> fd_nid ` set fs" "fd_nid f = n" "fd_parent f = parent" "fd_name f = name" "fd_children f = []"
    "n \<notin> fd_nid ` set fs"
  shows "map fd_place (add_child parent n (fs @ [f])) = grown n parent name (map fd_place fs)"
    "list_all P (fs @ [f]) \<Longrightarrow> (\<And>f cs. P (f\<lparr>fd_children := cs\<rparr>) = P f) \<Longrightarrow> list_all P (add_child parent n (fs @ [f]))"
proof -
  have "parent \<in> fd_nid ` set (fs @ [f])" using assms(2) by auto
  then obtain i where i: "find_folder 0 parent (fs @ [f]) = Some i" using find_folder_None [of 0 parent "fs @ [f]"] by (cases "find_folder 0 parent (fs @ [f])") auto
  have k: "i < length (fs @ [f])" "fd_nid ((fs @ [f]) ! i) = parent" using find_folder_Some [OF i] by simp_all
  have "parent \<noteq> n" using assms(2,7) by auto
  then have less: "i < length fs" using k assms(3) by (cases "i = length fs") (auto simp: nth_append)
  have eq: "add_child parent n (fs @ [f]) = fs[i := (fs ! i)\<lparr>fd_children := fd_children (fs ! i) @ [n]\<rparr>] @ [f]"
    using less by (simp add: add_child_def i nth_append list_update_append)
  have "fd_nid (fs ! j) = parent \<longleftrightarrow> j = i" if "j < length fs" for j
    using that k less assms(1) by (auto simp: nth_append distinct_conv_nth)
  then have "map fd_place (fs[i := (fs ! i)\<lparr>fd_children := fd_children (fs ! i) @ [n]\<rparr>]) =
      map (\<lambda>(m, p, name, cs). (m, p, name, if m = parent then cs @ [n] else cs)) (map fd_place fs)"
    by (intro nth_equalityI) (auto simp: nth_list_update)
  then show "map fd_place (add_child parent n (fs @ [f])) = grown n parent name (map fd_place fs)"
    by (simp add: eq grown_def assms(3-6))
  show "list_all P (add_child parent n (fs @ [f]))" if "list_all P (fs @ [f])" "\<And>f cs. P (f\<lparr>fd_children := cs\<rparr>) = P f"
    using that less by (auto simp: eq list_all_iff dest!: set_update_subset_insert [THEN subsetD])
qed

lemma nid_nonzero: "k < 2 ^ 26 \<Longrightarrow> folder_nid k \<noteq> 0"
  using user_nids(4) [of k] by (auto simp: nidType_def)

lemma makeFolder_law:
  assumes inv: "writer_holds log s" and few: "length (pw_folders s) < 2 ^ 26" and parent: "parent \<in> fd_nid ` set (pw_folders s)"
    and run: "makeFolder parent name 0 s = (n, s')"
  shows "n = folder_nid (length (pw_folders s) - 1) \<and> writer_holds log s' \<and>
    map fd_place (pw_folders s') = grown n parent name (map fd_place (pw_folders s))"
proof -
  let ?fs = "pw_folders s"
  have I: "nodes_are (nbt (pw_ndb s)) (pw_ndb s)" "tree_ok (map fd_place ?fs) (pw_next_folder s)"
      "list_all (folder_holds (pw_ndb s) log) ?fs" "fst ` set log \<subseteq> fd_nid ` set ?fs"
    using inv by (simp_all add: writer_holds_def)
  have T: "map fd_nid ?fs = kNidRootFolder # map folder_nid [0..<length ?fs - 1]" "?fs \<noteq> []"
      "pw_next_folder s = kFirstUserNidIndex + of_nat (length ?fs - 1)"
    using I(2) by (auto simp: tree_ok_def comp_def)
  have small: "k < length ?fs \<Longrightarrow> k < 2 ^ 26" for k using few by simp
  have last_small: "length ?fs - 1 < 2 ^ 26" using few by simp
  let ?n = "makeNid kNidTypeNormalFolder (pw_next_folder s)"
  let ?f = "\<lparr>fd_nid = ?n, fd_parent = parent, fd_name = name, fd_children = [],
               fd_contents = TableContextWriter_new contentsColumns, fd_message_count = 0, fd_unread = 0\<rparr>"
  have nid: "?n = folder_nid (length ?fs - 1)" by (simp add: T(3) folder_nid_def)
  have fresh: "?n \<notin> fd_nid ` set ?fs"
  proof -
    have "?n \<noteq> folder_nid k" if "k < length ?fs - 1" for k
      using user_nids_inject(2) [OF last_small, of k] small [of k] that by (simp add: nid)
    then have "?n \<notin> set (map fd_nid ?fs)" unfolding T(1) using root_not_user [OF last_small] by (simp add: nid image_iff)
    then show ?thesis by simp
  qed
  have "parent \<in> set (map fd_nid ?fs)" using parent by simp
  then have "parent \<noteq> 0" unfolding T(1) using nid_nonzero small by auto
  then have s': "n = ?n" "s' = s\<lparr>pw_next_folder := pw_next_folder s + 1, pw_folders := add_child parent ?n (?fs @ [?f])\<rparr>"
    using run by (auto simp: makeFolder_def)
  have dist: "distinct (map fd_nid ?fs)" using tree_distinct [OF I(2)] by (simp add: comp_def)
  note places = add_child_places [OF dist parent, of ?f ?n name, OF _ _ _ _ fresh, simplified]
  have "folder_holds (pw_ndb s) log ?f"
  proof -
    have "in_folder ?n log = []"
    proof -
      have "(k, ?n, msg) \<notin> set (numbered log)" for k msg
        using I(4) fresh by (auto simp: numbered_def enumerate_eq_zip dest!: set_zip_rightD)
      then show ?thesis by (auto simp: in_folder_def filter_empty_conv)
    qed
    then show ?thesis using lists_new I(1) by (simp add: folder_holds_def unread_of_def nodes_are_def)
  qed
  then have "list_all (folder_holds (pw_ndb s) log) (?fs @ [?f])" using I(3) by simp
  from places(2) [OF this [simplified]] have holds: "list_all (folder_holds (pw_ndb s) log) (pw_folders s')"
    by (simp add: s' folder_holds_def)
  obtain i where i: "i < length ?fs" "fd_nid (?fs ! i) = parent" using parent by (auto simp: in_set_conv_nth)
  have tree: "tree_ok (map fd_place (pw_folders s')) (pw_next_folder s')"
    using tree_ok_grow [OF I(2) _ _ _ refl, of i parent name] few i by (simp add: s' places(1) grown_def)
  have "fd_nid ` set ?fs \<subseteq> fd_nid ` set (pw_folders s')"
    using arg_cong [OF places(1), of "\<lambda>l. fst ` set l"] by (force simp: s' grown_def image_image)
  then show ?thesis
    using inv holds tree places(1) I(4) by (auto simp: s' nid writer_holds_def)
qed

lemma createFolder_law:
  assumes inv: "writer_holds log s" and few: "length (pw_folders s) < 2 ^ 26" and run: "createFolder parent name s = Some (Inr n, s')"
  shows "n = folder_nid (length (pw_folders s) - 1) \<and> writer_holds log s' \<and>
    map fd_place (pw_folders s') = grown n parent name (map fd_place (pw_folders s)) \<and> parent \<in> fd_nid ` set (pw_folders s)"
proof -
  obtain i where i: "find_folder 0 parent (pw_folders s) = Some i" and mk: "makeFolder parent name 0 s = (n, s')"
    using run by (auto simp: createFolder_def bindM_Inr_iff folder_at_run split: prod.splits)
  have "parent \<in> fd_nid ` set (pw_folders s)" using find_folder_Some [OF i] nth_mem by fastforce
  then show ?thesis using makeFolder_law [OF inv few _ mk] by blast
qed

end
