(* ===== verification/Writer_Finish.thy ===== *)
theory Writer_Finish
  imports Writer_Store
begin

section \<open>What finishing writes\<close>

text \<open>
  \<open>finish\<close> adds the nodes of the folders, of the templates and of the message store to those of the
  messages. Every step only adds nodes and blocks; what it adds is what the folder was.
\<close>

subsection \<open>Nodes added\<close>

definition grew :: "nbt_entry list \<Rightarrow> ndb \<Rightarrow> ndb \<Rightarrow> bool" where
  "grew es d d' \<longleftrightarrow> within d d' \<and> nodes_are (nbt d @ es) d'"

abbreviation entry :: "nid \<Rightarrow> nid \<Rightarrow> bid \<times> bid \<Rightarrow> nbt_entry" where
  "entry n parent nd \<equiv> \<lparr>ne_nid = n, ne_data = fst nd, ne_sub = snd nd, ne_parent = parent\<rparr>"

lemma grew_refl: "nodes_are (nbt d) d \<Longrightarrow> grew [] d d"
  by (simp add: grew_def nodes_are_def within_refl)

lemma grew_trans: "grew es a b \<Longrightarrow> grew fs b c \<Longrightarrow> grew (es @ fs) a c"
  by (auto simp: grew_def nodes_are_def intro: within_trans)

lemma grew_nodes: "grew es d d' \<Longrightarrow> nodes_are (nbt d') d' \<and> nbt d' = nbt d @ es"
  by (auto simp: grew_def nodes_are_def)

lemma grew_more: "grew es d d' \<Longrightarrow> more_blocks (lookup_block d) (lookup_block d')"
  by (auto simp: grew_def within_def preserves_def more_blocks_def)

lemma addNode_grew: "nodes_are (nbt d) d \<Longrightarrow> addNode n a b parent d = Some (r, d') \<Longrightarrow> r = Inr () \<and> grew [entry n parent (a, b)] d d'"
  by (auto simp: addNode_run grew_def within_node within_refl nodes_are_def)

lemma writeNode_run:
  "writeNodeFromHeap n parent m s = Some (Inr (), s') \<longleftrightarrow>
     (\<exists>nd u. bindM m store_heap (SubnodeAllocator_new (pw_ndb s)) = Some (Inr nd, u) \<and>
        s' = s\<lparr>pw_ndb := (sa_ndb u)\<lparr>nbt := nbt (sa_ndb u) @ [entry n parent nd]\<rparr>\<rparr>)"
  by (auto simp: writeNodeFromHeap_def bindM_Inr_iff pw_with_subs_run pw_on_ndb_run addNode_run split_beta)

text \<open>Any heap.\<close>

lemma writeNode_law:
  assumes d: "nodes_are (nbt (pw_ndb s)) (pw_ndb s)"
    and m: "\<And>ns. keeps (\<lambda>u. nodes_are ns (sa_ndb u)) m" "\<And>d. keeps (\<lambda>u. within d (sa_ndb u)) m"
    and run: "bindM m store_heap (SubnodeAllocator_new (pw_ndb s)) = Some (Inr nd, u)"
  shows "grew [entry n parent nd] (pw_ndb s) ((sa_ndb u)\<lparr>nbt := nbt (sa_ndb u) @ [entry n parent nd]\<rparr>)"
proof -
  obtain heap u1 where 1: "m (SubnodeAllocator_new (pw_ndb s)) = Some (Inr heap, u1)" and 2: "store_heap heap u1 = Some (Inr nd, u)"
    using run by (auto simp: bindM_Inr_iff)
  have start: "sa_ndb (SubnodeAllocator_new (pw_ndb s)) = pw_ndb s" by (simp add: SubnodeAllocator_new_def)
  have "nodes_are (nbt (pw_ndb s)) (sa_ndb u)"
    using keepsD [OF nodes.store_heap keepsD [OF m(1) _ 1] 2] d by (simp add: start)
  moreover have "within (pw_ndb s) (pw_ndb s)" using d by (simp add: within_refl nodes_are_def)
  then have "within (pw_ndb s) (sa_ndb u)"
    using keepsD [OF blocks_kept.store_heap keepsD [OF m(2) _ 1] 2] by (simp add: start)
  ultimately show ?thesis by (simp add: grew_def within_node nodes_are_def)
qed

text \<open>A property context, and a table, in the node of that number.\<close>

lemma write_pc_law:
  assumes d: "nodes_are (nbt (pw_ndb s)) (pw_ndb s)" and pc: "pc_ok pc"
    and run: "writeNodeFromHeap n parent (pc_serialize pc) s = Some (Inr (), s')"
  shows "\<exists>nd d. s' = s\<lparr>pw_ndb := d\<rparr> \<and> grew [entry n parent nd] (pw_ndb s) d \<and> node_sig (lookup_block d) nd = Some (kHnSignature, kHnSigPC) \<and>
    (\<forall>i v x. pc_look pc i = Some v \<longrightarrow> value_read (\<lambda>_. None) v = Some x \<longrightarrow> node_prop (lookup_block d) nd i = Some x)"
proof -
  obtain nd u where 1: "pc_node pc (SubnodeAllocator_new (pw_ndb s)) = Some (Inr nd, u)"
      and s': "s' = s\<lparr>pw_ndb := (sa_ndb u)\<lparr>nbt := nbt (sa_ndb u) @ [entry n parent nd]\<rparr>\<rparr>"
    using run by (auto simp: writeNode_run pc_node_def)
  have "subs_ok (0 + length pc) (SubnodeAllocator_new (pw_ndb s))"
    using d pc_ok_length [OF pc] by (intro subs_ok_new) (simp_all add: nodes_are_def)
  note law = pc_node_law [OF this pc 1]
  have look: "lookup_block ((sa_ndb u)\<lparr>nbt := ns\<rparr>) = lookup_block (sa_ndb u)" for ns by (simp add: fun_eq_iff)
  have "node_prop (lookup_block (sa_ndb u)) nd i = Some x" if v: "pc_look pc i = Some v" "value_read (\<lambda>_. None) v = Some x" for i v x
  proof -
    have "value_read (sub_look (SubnodeAllocator_new (pw_ndb s))) v = Some x" by (rule value_read_more [OF v(2)]) simp
    then show ?thesis using law v(1) by blast
  qed
  then show ?thesis
    using law writeNode_law [OF d nodes.pc_serialize blocks_kept.pc_serialize 1 [unfolded pc_node_def], of n parent]
    by (intro exI [of _ nd] exI [of _ "(sa_ndb u)\<lparr>nbt := nbt (sa_ndb u) @ [entry n parent nd]\<rparr>"]) (simp add: s' look)
qed

text \<open>A table that has the given rows, each with the given cells, and no other row.\<close>

definition cells_shown :: "blocks \<Rightarrow> bid \<times> bid \<Rightarrow> 32 word \<times> cell_op list \<Rightarrow> bool" where
  "cells_shown look nd r \<longleftrightarrow> (\<forall>op \<in> set (snd r). shows_cell look nd (fst r) (op_tag op) (op_value op))"

definition rows_listed :: "blocks \<Rightarrow> bid \<times> bid \<Rightarrow> (32 word \<times> cell_op list) list \<Rightarrow> bool" where
  "rows_listed look nd rs \<longleftrightarrow> list_all (cells_shown look nd) rs \<and> (\<forall>i. i \<notin> set (map fst rs) \<longrightarrow> no_row look nd i)"

lemma rows_listed_more: "more_blocks look look' \<Longrightarrow> rows_listed look nd rs \<Longrightarrow> rows_listed look' nd rs"
  by (auto simp: rows_listed_def list_all_iff cells_shown_def intro: shows_more(4) no_row_more)

lemma write_table_law:
  assumes d: "nodes_are (nbt (pw_ndb s)) (pw_ndb s)" and t: "table_ok t" "length (tb_rows t) * length (tb_columns t) < 2 ^ 26" "tb_columns t \<noteq> []"
    and rs: "map tr_id (tb_rows t) = map fst rs" "\<forall>r \<in> set rs. row_shown t r"
    and run: "writeNodeFromHeap n parent (table_serialize t) s = Some (Inr (), s')"
  shows "\<exists>nd d. s' = s\<lparr>pw_ndb := d\<rparr> \<and> grew [entry n parent nd] (pw_ndb s) d \<and> rows_listed (lookup_block d) nd rs"
proof -
  obtain nd u where 1: "table_node t (SubnodeAllocator_new (pw_ndb s)) = Some (Inr nd, u)"
      and s': "s' = s\<lparr>pw_ndb := (sa_ndb u)\<lparr>nbt := nbt (sa_ndb u) @ [entry n parent nd]\<rparr>\<rparr>"
    using run by (auto simp: writeNode_run table_node_def)
  have "length (tb_rows t) \<le> length (tb_rows t) * length (tb_columns t)" using t(3) by (cases "tb_columns t") simp_all
  from order_le_less_trans [OF this t(2)] have few: "length (tb_rows t) < 2 ^ 32" by simp
  have "subs_ok (0 + Suc (length (tb_rows t) * length (tb_columns t))) (SubnodeAllocator_new (pw_ndb s))"
    using d t(2) by (intro subs_ok_new) (simp_all add: nodes_are_def)
  note law = table_node_law [OF this t(1) few 1]
  have look: "lookup_block ((sa_ndb u)\<lparr>nbt := ns\<rparr>) = lookup_block (sa_ndb u)" for ns by (simp add: fun_eq_iff)
  have "cells_shown (lookup_block (sa_ndb u)) nd r" if "r \<in> set rs" for r
    using rs(2) that law by (auto simp: cells_shown_def row_shown_def shows_cell_def)
  then have "rows_listed (lookup_block (sa_ndb u)) nd rs"
    using law by (simp add: rows_listed_def list_all_iff rs(1))
  then show ?thesis
    using writeNode_law [OF d nodes.table_serialize blocks_kept.table_serialize 1 [unfolded table_node_def], of n parent]
    by (intro exI [of _ nd] exI [of _ "(sa_ndb u)\<lparr>nbt := nbt (sa_ndb u) @ [entry n parent nd]\<rparr>"]) (simp add: s' look)
qed

text \<open>The contents table, from the streaming writer.\<close>

lemma contents_node_law:
  assumes l: "lists d w ms" and few: "length ms < 2 ^ 20" and dist: "distinct (map fst ms)"
    and run: "tw_finish \<lparr>ts_ndb = d, ts_w = w\<rparr> = Some (Inr nd, t')"
  shows "rows_listed (lookup_block (ts_ndb t')) (nd_data nd, nd_sub nd) (map contents_cells ms)"
proof -
  let ?look = "lookup_block (ts_ndb t')" and ?nd = "(nd_data nd, nd_sub nd)"
  obtain t g bs where t: "tab (2 ^ 27 - 1 - 10 * length ms) \<lparr>ts_ndb = d, ts_w = w\<rparr> t g bs" "table_ok t" "tb_columns t = contents_tags"
      "map tr_id (tb_rows t) = map fst ms" "\<forall>r \<in> set ms. row_shown t (contents_cells r)" and row: "\<not> tw_in_row w"
    using l by (auto simp: lists_def)
  have "2 ^ 27 - 1 - 10 * length ms = Suc (2 ^ 27 - 2 - 10 * length ms)" using few by simp
  then have tab: "tab (Suc (2 ^ 27 - 2 - 10 * length ms)) \<lparr>ts_ndb = d, ts_w = w\<rparr> t g bs" using t(1) by (simp only:)
  have len: "length (tb_rows t) = length ms" using arg_cong [OF t(4), of length] by simp
  have row': "\<not> tw_in_row (ts_w \<lparr>ts_ndb = d, ts_w = w\<rparr>)" and ids: "distinct (map tr_id (tb_rows t))" and few': "length (tb_rows t) < 2 ^ 32"
    using row dist t(4) len few by simp_all
  from tw_finish_law [OF tab row' ids few' run] obtain g' data subs where
    fin: "read_data ?look (nd_data nd) = Some data" "read_subnodes ?look (nd_sub nd) = Some subs"
      "\<And>h b. deref g' h = Some b \<Longrightarrow> hnid_read (heap_read data) (sub_read ?look subs) h = Some b"
      "\<And>i j. i < length (tb_rows t) \<Longrightarrow> j < length (tb_columns t) \<Longrightarrow> \<exists>f.
        field_read (heap_read data) (sub_read ?look subs) (heap_root data) (tr_id (tb_rows t ! i)) (tb_columns t ! j) = Some f \<and>
        cell_shows g' (tb_columns t ! j) (tr_cells (tb_rows t ! i) ! j) f"
      "\<And>row_id tag sub. row_id \<notin> set (map tr_id (tb_rows t)) \<Longrightarrow> field_read (heap_read data) sub (heap_root data) row_id tag = None"
    by blast
  have cell: "node_cell ?look ?nd row_id tag = Some c" if c: "table_cell t row_id tag = Some c" for row_id tag c
  proof (rule table_cell_cases [OF t(2), of row_id tag])
    fix k j
    assume kj: "k < length (tb_rows t)" "row_id = tr_id (tb_rows t ! k)" "j < length (tb_columns t)" "tag = tb_columns t ! j"
      "table_cell t row_id tag = Some (cell_value (tr_cells (tb_rows t ! k) ! j))"
    then obtain f where "field_read (heap_read data) (sub_read ?look subs) (heap_root data) row_id tag = Some f"
        "cell_shows g' tag (tr_cells (tb_rows t ! k) ! j) f"
      using fin(4) by blast
    then have "table_read (heap_read data) (sub_read ?look subs) (heap_root data) row_id tag = Some c"
      using table_read_value fin(3) kj(5) c by fastforce
    then show ?thesis by (simp add: node_cell_def fin(1,2))
  qed (use c in simp)
  have "cells_shown ?look ?nd (contents_cells r)" if "r \<in> set ms" for r
    using t(5) that cell by (auto simp: cells_shown_def row_shown_def shows_cell_def)
  moreover have "no_row ?look ?nd i" if "i \<notin> set (map fst ms)" for i
    using fin(1,5) that t(4) by (simp add: no_row_def table_read_def)
  ultimately show ?thesis by (auto simp: rows_listed_def list_all_iff)
qed

subsection \<open>A folder\<close>

text \<open>What does not change of the folders while they are written.\<close>

abbreviation fd_still :: "folder \<Rightarrow> place \<times> nat \<times> 32 word" where
  "fd_still f \<equiv> (fd_place f, fd_message_count f, fd_unread f)"

definition folder_shown :: "blocks \<Rightarrow> bid \<times> bid \<Rightarrow> folder \<Rightarrow> bool" where
  "folder_shown look nd f \<longleftrightarrow>
     shows_text look nd PR_DISPLAY_NAME (fd_name f) \<and> shows_word look nd PR_CONTENT_COUNT (of_nat (fd_message_count f)) \<and>
     shows_word look nd PR_CONTENT_UNREAD (fd_unread f) \<and> shows_word look nd PR_SUBFOLDERS (if fd_children f \<noteq> [] then 1 else 0) \<and>
     shows_text look nd PR_CONTAINER_CLASS ''IPF.Note''"

lemma folder_shown_more: "more_blocks look look' \<Longrightarrow> folder_shown look nd f \<Longrightarrow> folder_shown look' nd f"
  unfolding folder_shown_def using shows_more [of look look'] by blast

lemma folder_pc_law:
  assumes "text_fits (fd_name f)" "length guid = 16"
  shows "pc_ok (folder_pc guid f)"
    "(\<And>i v x. pc_look (folder_pc guid f) i = Some v \<Longrightarrow> value_read (\<lambda>_. None) v = Some x \<Longrightarrow> node_prop look nd i = Some x) \<Longrightarrow>
     folder_shown look nd f"
proof -
  let ?fs = "[setString PR_DISPLAY_NAME (fd_name f), setInt32 PR_CONTENT_COUNT (of_nat (fd_message_count f)),
        setInt32 PR_CONTENT_UNREAD (fd_unread f), setBool PR_SUBFOLDERS (fd_children f \<noteq> []),
        setString PR_CONTAINER_CLASS ''IPF.Note'', setBinary PR_ENTRYID (entryId guid (fd_nid f)),
        setBinary PR_RECORD_KEY (entryId guid (fd_nid f))]"
  have "length (entryId guid n) < 2 ^ 64" for n using assms(2) by (simp add: entryId_def put32_def)
  then have "list_all sound ?fs" using assms(1) by (simp add: setter_simps)
  then show "pc_ok (folder_pc guid f)" unfolding folder_pc_def by (rule sound_all) simp
  assume says: "\<And>i v x. pc_look (folder_pc guid f) i = Some v \<Longrightarrow> value_read (\<lambda>_. None) v = Some x \<Longrightarrow> node_prop look nd i = Some x"
  have bytes: "shows_prop look nd tag b" if "final (tagId tag) (bytes_value tag b) ?fs" for tag b
    using says [OF final_look [OF that, of "[]", folded folder_pc_def]] by (simp add: shows_prop_def value_read_def bytes_value_def)
  have word: "shows_word look nd tag w" if "final (tagId tag) (inline_value tag w) ?fs" for tag w
    using says [OF final_look [OF that, of "[]", folded folder_pc_def]] by (simp add: shows_word_def value_read_def inline_value_def)
  show "folder_shown look nd f"
    unfolding folder_shown_def shows_text_def
    by (intro conjI; rule bytes word; simp add: setter_simps string_bytes_def del: final.simps(2))
qed

definition hierarchy_cells :: "folder \<Rightarrow> 32 word \<times> cell_op list" where
  "hierarchy_cells c = (fd_nid c, [SetString PR_DISPLAY_NAME (fd_name c), SetInt32 PR_CONTENT_COUNT (of_nat (fd_message_count c)),
     SetInt32 PR_CONTENT_UNREAD (fd_unread c), SetBool PR_SUBFOLDERS (fd_children c \<noteq> []), SetString PR_CONTAINER_CLASS ''IPF.Note''])"

lemma hierarchy_cells_fst [simp]: "fst (hierarchy_cells c) = fd_nid c"
  by (simp add: hierarchy_cells_def)

lemma hierarchy_row_eq: "hierarchy_row c = fill_row (hierarchy_cells c)"
  by (simp add: hierarchy_row_def hierarchy_cells_def fill_row_def)

lemma hierarchy_columns:
  "table_ok (new_table hierarchyColumns) \<and> tb_columns (new_table hierarchyColumns) = [PidTagLtpRowId, PidTagLtpRowVer] @ hierarchyColumns \<and>
    tb_rows (new_table hierarchyColumns) = []"
  by (rule new_table_columns) (simp_all add: hierarchyColumns_def makeTag_inject)

lemma associated_columns:
  "table_ok (new_table associatedColumns) \<and> tb_columns (new_table associatedColumns) = [PidTagLtpRowId, PidTagLtpRowVer] @ associatedColumns \<and>
    tb_rows (new_table associatedColumns) = []"
  by (rule new_table_columns) (simp_all add: associatedColumns_def makeTag_inject)

lemma hierarchy_cells_ok: "text_fits (fd_name c) \<Longrightarrow> row_ok ([PidTagLtpRowId, PidTagLtpRowVer] @ hierarchyColumns) (hierarchy_cells c)"
  using op_okI by (simp add: hierarchy_cells_def row_ok_def makeTag_inject hierarchyColumns_def)

text \<open>The subfolders of a folder, as its hierarchy table is to show them.\<close>

definition subfolders :: "folder list \<Rightarrow> nid \<Rightarrow> folder list" where
  "subfolders fs n = filter (\<lambda>c. fd_parent c = n) (tl fs)"

lemma in_set_tl: "x \<in> set (tl xs) \<Longrightarrow> x \<in> set xs"
  by (cases xs) simp_all

lemma children_subfolders: "children_of n (map fd_place fs) = map fd_nid (subfolders fs n)"
  by (simp add: children_of_def subfolders_def map_tl [symmetric] filter_map comp_def)

definition find_child :: "nid \<Rightarrow> (pst, folder) prog" where
  "find_child n = bindM (folder_at n) (\<lambda>j. getM (\<lambda>s. pw_folders s ! j))"

lemma find_child_run:
  "find_child n s = Some (Inr c, s') \<longleftrightarrow> (\<exists>j. find_folder 0 n (pw_folders s) = Some j \<and> c = pw_folders s ! j \<and> s' = s)"
  by (auto simp: find_child_def bindM_Inr_iff folder_at_run getM_run)

lemma find_children:
  assumes dist: "distinct (map fd_nid (pw_folders s))" and mem: "set cs \<subseteq> set (pw_folders s)"
    and run: "mapM find_child (map fd_nid cs) s = Some (Inr cs', s')"
  shows "cs' = cs \<and> s' = s"
  using mem run
proof (induction cs arbitrary: cs')
  case Nil
  then show ?case by (simp add: ret_run)
next
  case (Cons c cs)
  obtain j cs0 where 1: "find_folder 0 (fd_nid c) (pw_folders s) = Some j" and 2: "mapM find_child (map fd_nid cs) s = Some (Inr cs0, s')"
      and cs': "cs' = pw_folders s ! j # cs0"
    using Cons.prems(2) by (auto simp: bindM_Inr_iff find_child_run ret_run)
  have j: "j < length (pw_folders s)" "fd_nid (pw_folders s ! j) = fd_nid c" using find_folder_Some [OF 1] by simp_all
  obtain k where k: "k < length (pw_folders s)" "c = pw_folders s ! k" using Cons.prems(1) by (auto simp: in_set_conv_nth)
  then have "j = k" using dist j nth_eq_iff_index_eq [of "map fd_nid (pw_folders s)" j k] by simp
  then show ?case using Cons.IH [OF _ 2] Cons.prems(1) k(2) by (simp add: cs')
qed

lemma hierarchy_rows:
  assumes "distinct (map fd_nid cs)" "\<forall>c \<in> set cs. text_fits (fd_name c)"
  shows "\<exists>t. forM hierarchy_row cs (new_table hierarchyColumns) = Some (Inr (), t) \<and> table_ok t \<and>
    tb_columns t = [PidTagLtpRowId, PidTagLtpRowVer] @ hierarchyColumns \<and> map tr_id (tb_rows t) = map fst (map hierarchy_cells cs) \<and>
    (\<forall>r \<in> set (map hierarchy_cells cs). row_shown t r)"
proof -
  let ?t0 = "new_table hierarchyColumns" and ?rows = "map hierarchy_cells cs"
  note cols = hierarchy_columns
  have "map fst ?rows = map fd_nid cs" by (simp add: comp_def)
  then have "distinct (map tr_id (tb_rows ?t0) @ map fst ?rows)" using assms(1) cols by (simp add: comp_def)
  moreover have "\<forall>r \<in> set ?rows. row_ok (tb_columns ?t0) r" using assms(2) hierarchy_cells_ok cols by simp
  ultimately obtain t where t: "forM fill_row ?rows ?t0 = Some (Inr (), t)" "table_ok t" "tb_columns t = tb_columns ?t0"
      "map tr_id (tb_rows t) = map fst ?rows" "\<forall>r \<in> set ?rows. row_shown t r"
    using fill_rows_cells [of ?t0 ?rows] cols by auto
  have "forM hierarchy_row rs = forM fill_row (map hierarchy_cells rs)" for rs by (induction rs) (simp_all add: hierarchy_row_eq)
  then show ?thesis using t cols by auto
qed

text \<open>The four nodes of a folder.\<close>

definition folder_nodes :: "folder \<Rightarrow> bid \<times> bid \<Rightarrow> bid \<times> bid \<Rightarrow> bid \<times> bid \<Rightarrow> bid \<times> bid \<Rightarrow> nbt_entry list" where
  "folder_nodes f a h c e = (let table_nid = (\<lambda>t. makeNid t (nidIndex (fd_nid f))) in
     [entry (fd_nid f) (fd_parent f) a, entry (table_nid kNidTypeHierarchyTable) (fd_nid f) h,
      entry (table_nid kNidTypeContentsTable) (fd_nid f) c, entry (table_nid kNidTypeAssocContentsTable) (fd_nid f) e])"

definition folder_stored :: "blocks \<Rightarrow> mail_log \<Rightarrow> folder list \<Rightarrow> folder \<Rightarrow> nbt_entry list \<Rightarrow> bool" where
  "folder_stored look log fs f es \<longleftrightarrow> (\<exists>a h c e. es = folder_nodes f a h c e \<and>
     folder_shown look a f \<and> rows_listed look h (map hierarchy_cells (subfolders fs (fd_nid f))) \<and>
     rows_listed look c (map contents_cells (in_folder (fd_nid f) log)) \<and> rows_listed look e [])"

lemma folder_stored_more: "more_blocks look look' \<Longrightarrow> folder_stored look log fs f es \<Longrightarrow> folder_stored look' log fs f es"
  unfolding folder_stored_def using folder_shown_more rows_listed_more by blast

text \<open>The folders as they are while they are written.\<close>

definition writing :: "mail_log \<Rightarrow> pst \<Rightarrow> bool" where
  "writing log s \<longleftrightarrow> nodes_are (nbt (pw_ndb s)) (pw_ndb s) \<and> length (pw_guid s) = 16 \<and> length (pw_folders s) \<le> 2 ^ 20 \<and> length log < 2 ^ 20 \<and>
     distinct (map fd_nid (pw_folders s)) \<and> (\<forall>f \<in> set (pw_folders s). text_fits (fd_name f) \<and>
       fd_children f = map fd_nid (subfolders (pw_folders s) (fd_nid f)))"

definition same_but_ndb :: "pst \<Rightarrow> pst \<Rightarrow> bool" where
  "same_but_ndb s s' \<longleftrightarrow> map fd_still (pw_folders s') = map fd_still (pw_folders s) \<and>
     s' = s\<lparr>pw_ndb := pw_ndb s', pw_folders := pw_folders s'\<rparr>"

lemma write_folder_law:
  assumes w: "writing log s" and i: "i < length (pw_folders s)" and holds: "folder_holds (pw_ndb s) log (pw_folders s ! i)"
    and run: "write_folder i s = Some (Inr (), s')"
  shows "\<exists>es. grew es (pw_ndb s) (pw_ndb s') \<and> folder_stored (lookup_block (pw_ndb s')) log (pw_folders s) (pw_folders s ! i) es \<and>
    (\<exists>w. s' = s\<lparr>pw_ndb := pw_ndb s', pw_folders := (pw_folders s)[i := (pw_folders s ! i)\<lparr>fd_contents := w\<rparr>]\<rparr>)"
proof -
  let ?f = "pw_folders s ! i" and ?fs = "pw_folders s"
  let ?nid = "\<lambda>t. makeNid t (nidIndex (fd_nid ?f))"
  have W: "nodes_are (nbt (pw_ndb s)) (pw_ndb s)" "length (pw_guid s) = 16" "length ?fs \<le> 2 ^ 20" "length log < 2 ^ 20"
      "distinct (map fd_nid ?fs)" "\<And>f. f \<in> set ?fs \<Longrightarrow> text_fits (fd_name f)"
      "fd_children ?f = map fd_nid (subfolders ?fs (fd_nid ?f))"
    using w i by (auto simp: writing_def)
  obtain s1 cs s1' ht s2 node t s3 where
      1: "writeNodeFromHeap (fd_nid ?f) (fd_parent ?f) (pc_serialize (folder_pc (pw_guid s) ?f)) s = Some (Inr (), s1)"
      and 2: "mapM find_child (fd_children ?f) s1 = Some (Inr cs, s1')"
      and 3: "forM hierarchy_row cs (new_table hierarchyColumns) = Some (Inr (), ht)"
      and 4: "writeNodeFromHeap (?nid kNidTypeHierarchyTable) (fd_nid ?f) (table_serialize ht) s1' = Some (Inr (), s2)"
      and 5: "tw_finish \<lparr>ts_ndb = pw_ndb s2, ts_w = fd_contents (pw_folders s2 ! i)\<rparr> = Some (Inr node, t)"
      and 6: "s3 = s2\<lparr>pw_folders := (pw_folders s2)[i := (pw_folders s2 ! i)\<lparr>fd_contents := ts_w t\<rparr>], pw_ndb := (ts_ndb t)\<lparr>nbt := nbt (ts_ndb t) @
          [entry (?nid kNidTypeContentsTable) (fd_nid ?f) (nd_data node, nd_sub node)]\<rparr>\<rparr>"
      and 7: "writeNodeFromHeap (?nid kNidTypeAssocContentsTable) (fd_nid ?f) (table_serialize (new_table associatedColumns)) s3 = Some (Inr (), s')"
    using run unfolding write_folder_def Let_def find_child_def [symmetric]
    by (auto simp: bindM_Inr_iff getM_run local_object_run pw_contents_run pw_on_ndb_run addNode_run upd_folder_def)
  have guid: "length (pw_guid s) = 16" and fit: "text_fits (fd_name ?f)" using W(2,6) i by simp_all
  from write_pc_law [OF W(1) folder_pc_law(1) [OF fit guid] 1] obtain a d1 where
    a: "s1 = s\<lparr>pw_ndb := d1\<rparr>" "grew [entry (fd_nid ?f) (fd_parent ?f) a] (pw_ndb s) d1"
      "\<And>i v x. pc_look (folder_pc (pw_guid s) ?f) i = Some v \<Longrightarrow> value_read (\<lambda>_. None) v = Some x \<Longrightarrow> node_prop (lookup_block d1) a i = Some x"
    by blast
  have shown: "folder_shown (lookup_block d1) a ?f" by (rule folder_pc_law(2) [OF fit guid a(3)])
  have dist1: "distinct (map fd_nid (pw_folders s1))" and sub1: "set (subfolders ?fs (fd_nid ?f)) \<subseteq> set (pw_folders s1)"
    using W(5) by (auto simp: a(1) subfolders_def dest: in_set_tl)
  from find_children [OF dist1 sub1 2 [unfolded W(7)]] have cs: "cs = subfolders ?fs (fd_nid ?f)" "s1' = s1" by simp_all
  have cdist: "distinct (map fd_nid cs)"
    using W(5) unfolding cs(1) subfolders_def by (intro distinct_map_filter) (cases ?fs, simp_all)
  have "set cs \<subseteq> set ?fs" using sub1 by (simp add: cs(1) a(1))
  then have cfit: "\<forall>c \<in> set cs. text_fits (fd_name c)" using W(6) by auto
  have clen: "length cs \<le> 2 ^ 20" using W(3) length_filter_le [of "\<lambda>c. fd_parent c = fd_nid ?f" "tl ?fs"] by (simp add: cs(1) subfolders_def)
  have ht': "table_ok ht" "tb_columns ht = [PidTagLtpRowId, PidTagLtpRowVer] @ hierarchyColumns"
      "map tr_id (tb_rows ht) = map fst (map hierarchy_cells cs)" "\<forall>r \<in> set (map hierarchy_cells cs). row_shown ht r"
    using hierarchy_rows [OF cdist cfit] 3 by auto
  have hsize: "length (tb_rows ht) * length (tb_columns ht) < 2 ^ 26" "tb_columns ht \<noteq> []"
    using clen arg_cong [OF ht'(3), of length] ht'(2) by (simp_all add: hierarchyColumns_def)
  note n1 = grew_nodes [OF a(2)]
  have n1': "nodes_are (nbt (pw_ndb s1')) (pw_ndb s1')" using conjunct1 [OF n1] by (simp add: cs(2) a(1))
  from write_table_law [OF n1' ht'(1) hsize ht'(3,4) 4] obtain h d2 where
    h: "s2 = s1'\<lparr>pw_ndb := d2\<rparr>" "grew [entry (?nid kNidTypeHierarchyTable) (fd_nid ?f) h] (pw_ndb s1') d2"
      "rows_listed (lookup_block d2) h (map hierarchy_cells cs)"
    by blast
  have s2: "pw_ndb s2 = d2" "pw_folders s2 = ?fs" "s2 = s\<lparr>pw_ndb := d2\<rparr>" by (simp_all add: h(1) cs(2) a(1))
  have g2: "grew [entry (fd_nid ?f) (fd_parent ?f) a, entry (?nid kNidTypeHierarchyTable) (fd_nid ?f) h] (pw_ndb s) d2"
    using grew_trans [OF a(2), of _ d2] h(2) by (simp add: cs(2) a(1))
  then have w2: "within (pw_ndb s) d2" and n2: "nodes_are (nbt d2) d2" using grew_nodes by (simp_all add: grew_def)
  have "lists d2 (fd_contents ?f) (in_folder (fd_nid ?f) log)"
    using holds lists_later [OF _ w2] by (simp add: folder_holds_def)
  moreover have "length (in_folder (fd_nid ?f) log) < 2 ^ 20" using length_in_folder [of "fd_nid ?f" log] W(4) by simp
  moreover have "distinct (map fst (in_folder (fd_nid ?f) log))"
  proof -
    have "distinct (map fst (numbered log))" using W(4) by (intro distinct_numbered) simp
    then show ?thesis by (auto simp: in_folder_def comp_def split_beta intro: distinct_map_filter)
  qed
  ultimately have rows: "rows_listed (lookup_block (ts_ndb t)) (nd_data node, nd_sub node) (map contents_cells (in_folder (fd_nid ?f) log))"
    using contents_node_law 5 unfolding s2(1,2) by blast
  let ?c = "(nd_data node, nd_sub node)"
  have t: "within d2 (ts_ndb t)" "nodes_are (nbt d2) (ts_ndb t)"
    using keepsD [OF blocks_kept.tw_finish _ 5, of d2] keepsD [OF nodes.tw_finish _ 5, of "nbt d2"] n2
    by (simp_all add: s2 within_refl nodes_are_def)
  let ?d3 = "(ts_ndb t)\<lparr>nbt := nbt (ts_ndb t) @ [entry (?nid kNidTypeContentsTable) (fd_nid ?f) ?c]\<rparr>"
  have g3: "grew [entry (?nid kNidTypeContentsTable) (fd_nid ?f) ?c] d2 ?d3"
    using t by (simp add: grew_def within_node nodes_are_def)
  have s3: "pw_ndb s3 = ?d3" by (simp add: 6)
  have acols: "table_ok (new_table associatedColumns)" "length (tb_rows (new_table associatedColumns)) * length (tb_columns (new_table associatedColumns)) < 2 ^ 26"
      "tb_columns (new_table associatedColumns) \<noteq> []" "map tr_id (tb_rows (new_table associatedColumns)) = map fst ([] :: (32 word \<times> cell_op list) list)"
    using associated_columns by simp_all
  have n3: "nodes_are (nbt (pw_ndb s3)) (pw_ndb s3)" using conjunct1 [OF grew_nodes [OF g3]] unfolding s3 .
  from write_table_law [OF n3 acols _ 7] obtain e d4 where
    e: "s' = s3\<lparr>pw_ndb := d4\<rparr>" "grew [entry (?nid kNidTypeAssocContentsTable) (fd_nid ?f) e] ?d3 d4" "rows_listed (lookup_block d4) e []"
    by (auto simp: s3)
  have g4: "grew (folder_nodes ?f a h ?c e) (pw_ndb s) d4"
    using grew_trans [OF grew_trans [OF g2 g3] e(2)] by (simp add: folder_nodes_def Let_def)
  have look3: "lookup_block ?d3 = lookup_block (ts_ndb t)" by (simp add: fun_eq_iff)
  have m24: "more_blocks (lookup_block d2) (lookup_block d4)" "more_blocks (lookup_block (ts_ndb t)) (lookup_block d4)"
    using more_blocks_trans [OF grew_more [OF g3] grew_more [OF e(2)]] grew_more [OF e(2)] unfolding look3 by simp_all
  have m1: "more_blocks (lookup_block d1) (lookup_block d4)"
    using more_blocks_trans [OF grew_more [OF h(2)] m24(1)] by (simp add: cs(2) a(1))
  have "folder_stored (lookup_block d4) log ?fs ?f (folder_nodes ?f a h ?c e)"
    unfolding folder_stored_def
    using folder_shown_more [OF m1 shown] rows_listed_more [OF m24(1) h(3)] rows_listed_more [OF m24(2) rows] e(3) cs(1) by blast
  moreover have "s' = s\<lparr>pw_ndb := d4, pw_folders := ?fs[i := ?f\<lparr>fd_contents := ts_w t\<rparr>]\<rparr>"
    by (simp add: e(1) 6 s2(3))
  moreover have "pw_ndb s' = d4" by (simp add: e(1))
  ultimately show ?thesis using g4 by auto
qed

subsection \<open>All folders\<close>

lemma still_nids:
  assumes "map fd_still fs' = map fd_still fs"
  shows "map fd_nid fs' = map fd_nid fs" "length fs' = length fs" "i < length fs \<Longrightarrow> fd_still (fs' ! i) = fd_still (fs ! i)"
proof -
  have "map fd_nid gs = map (\<lambda>((i, p, name, cs), c, u). i) (map fd_still gs)" for gs by (simp add: comp_def)
  then show "map fd_nid fs' = map fd_nid fs" by (simp only: assms)
  have "length gs = length (map fd_still gs)" for gs by simp
  then show len: "length fs' = length fs" by (simp only: assms)
  have "map fd_still fs' ! i = map fd_still fs ! i" by (simp only: assms)
  then show "fd_still (fs' ! i) = fd_still (fs ! i)" if "i < length fs" using that len by simp
qed

lemma subfolders_cong:
  assumes "map fd_still fs' = map fd_still fs"
  shows "map hierarchy_cells (subfolders fs' n) = map hierarchy_cells (subfolders fs n)"
    "map fd_nid (subfolders fs' n) = map fd_nid (subfolders fs n)"
proof -
  have "map fd_still (subfolders gs n) = filter (\<lambda>((i, p, name, cs), c, u). p = n) (map fd_still (tl gs))" for gs
    by (simp add: subfolders_def filter_map comp_def)
  then have eq: "map fd_still (subfolders fs' n) = map fd_still (subfolders fs n)"
    using assms by (simp add: map_tl)
  show "map fd_nid (subfolders fs' n) = map fd_nid (subfolders fs n)" by (rule still_nids(1) [OF eq])
  have "map hierarchy_cells gs = map (\<lambda>((i, p, name, cs), c, u). (i, [SetString PR_DISPLAY_NAME name, SetInt32 PR_CONTENT_COUNT (of_nat c),
     SetInt32 PR_CONTENT_UNREAD u, SetBool PR_SUBFOLDERS (cs \<noteq> []), SetString PR_CONTAINER_CLASS ''IPF.Note''])) (map fd_still gs)" for gs
    by (simp add: hierarchy_cells_def comp_def)
  then show "map hierarchy_cells (subfolders fs' n) = map hierarchy_cells (subfolders fs n)" by (simp only: eq)
qed

lemma folder_stored_cong:
  assumes "map fd_still fs' = map fd_still fs" "fd_still f' = fd_still f"
  shows "folder_stored look log fs' f' es = folder_stored look log fs f es"
  using assms(2) unfolding folder_stored_def subfolders_cong(1) [OF assms(1)]
  by (auto simp: folder_nodes_def folder_shown_def Let_def)

lemma writing_cong:
  assumes w: "writing log s" and d: "nodes_are (nbt d) d" and fs: "map fd_still fs = map fd_still (pw_folders s)"
  shows "writing log (s\<lparr>pw_ndb := d, pw_folders := fs\<rparr>)"
proof -
  note len = still_nids(2) [OF fs]
  have "map fd_nid fs = map fd_nid (pw_folders s)" by (rule still_nids(1) [OF fs])
  moreover have "text_fits (fd_name f) \<and> fd_children f = map fd_nid (subfolders fs (fd_nid f))" if f: "f \<in> set fs" for f
  proof -
    obtain i where i: "i < length fs" "f = fs ! i" using f by (metis in_set_conv_nth)
    have "pw_folders s ! i \<in> set (pw_folders s)" using i len by simp
    then show ?thesis
      using w still_nids(3) [OF fs, of i] i len unfolding writing_def subfolders_cong(2) [OF fs] by auto
  qed
  ultimately show ?thesis using w d len by (simp add: writing_def)
qed

lemma write_folders_law:
  assumes "writing log s" "k \<le> length (pw_folders s)" "\<forall>j < length (pw_folders s). k \<le> j \<longrightarrow> folder_holds (pw_ndb s) log (pw_folders s ! j)"
    and "forM write_folder [k..<length (pw_folders s)] s = Some (Inr (), s')"
  shows "\<exists>ess fs. length ess = length (pw_folders s) - k \<and> grew (concat ess) (pw_ndb s) (pw_ndb s') \<and>
    (\<forall>j < length ess. folder_stored (lookup_block (pw_ndb s')) log (pw_folders s) (pw_folders s ! (k + j)) (ess ! j)) \<and>
    map fd_still fs = map fd_still (pw_folders s) \<and> s' = s\<lparr>pw_ndb := pw_ndb s', pw_folders := fs\<rparr>"
  using assms
proof (induction "length (pw_folders s) - k" arbitrary: k s)
  case 0
  then have "s' = s" "k = length (pw_folders s)" by (simp_all add: ret_run)
  moreover have "grew [] (pw_ndb s) (pw_ndb s)" using 0(2) by (intro grew_refl) (simp add: writing_def)
  ultimately show ?case by (intro exI [of _ "[]"] exI [of _ "pw_folders s"]) simp
next
  case (Suc m)
  let ?fs = "pw_folders s"
  have k: "k < length ?fs" using Suc.hyps(2) by simp
  then have "[k..<length ?fs] = k # [Suc k..<length ?fs]" by (simp add: upt_conv_Cons)
  then obtain s1 where 1: "write_folder k s = Some (Inr (), s1)" and 2: "forM write_folder [Suc k..<length ?fs] s1 = Some (Inr (), s')"
    using Suc.prems(4) by (auto simp: bindM_Inr_iff)
  have holds: "folder_holds (pw_ndb s) log (?fs ! k)" using Suc.prems(3) k by simp
  from write_folder_law [OF Suc.prems(1) k holds 1] obtain es w where
    es: "grew es (pw_ndb s) (pw_ndb s1)" "folder_stored (lookup_block (pw_ndb s1)) log ?fs (?fs ! k) es"
      "s1 = s\<lparr>pw_ndb := pw_ndb s1, pw_folders := ?fs[k := (?fs ! k)\<lparr>fd_contents := w\<rparr>]\<rparr>" by blast
  have fs1: "pw_folders s1 = ?fs[k := (?fs ! k)\<lparr>fd_contents := w\<rparr>]" by (subst es(3)) simp
  have still: "map fd_still (pw_folders s1) = map fd_still ?fs" using k by (simp add: fs1 map_update list_update_same_conv)
  have len: "length (pw_folders s1) = length ?fs" by (simp add: fs1)
  have w1: "writing log s1"
    using writing_cong [OF Suc.prems(1) conjunct1 [OF grew_nodes [OF es(1)]] still] es(3) fs1 by metis
  have h1: "folder_holds (pw_ndb s1) log (pw_folders s1 ! j)" if "j < length (pw_folders s1)" "Suc k \<le> j" for j
    using Suc.prems(3) that folder_holds_later [of "pw_ndb s"] es(1) by (auto simp: fs1 grew_def)
  have hyp: "m = length (pw_folders s1) - Suc k" "Suc k \<le> length (pw_folders s1)" using Suc.hyps(2) k by (simp_all add: len)
  from Suc.hyps(1) [OF hyp(1) w1 hyp(2)] h1 2 obtain ess fs where
    ih: "length ess = length ?fs - Suc k" "grew (concat ess) (pw_ndb s1) (pw_ndb s')"
      "\<And>j. j < length ess \<Longrightarrow> folder_stored (lookup_block (pw_ndb s')) log (pw_folders s1) (pw_folders s1 ! (Suc k + j)) (ess ! j)"
      "map fd_still fs = map fd_still (pw_folders s1)" "s' = s1\<lparr>pw_ndb := pw_ndb s', pw_folders := fs\<rparr>"
    unfolding len by blast
  have "folder_stored (lookup_block (pw_ndb s')) log ?fs (?fs ! (k + j)) ((es # ess) ! j)" if j: "j < length (es # ess)" for j
  proof (cases j)
    case 0
    then show ?thesis using folder_stored_more [OF grew_more [OF ih(2)] es(2)] by simp
  next
    case (Suc i)
    then have "i < length ess" "k + j = Suc k + i" "Suc k + i < length ?fs" using j ih(1) by simp_all
    then show ?thesis using ih(3) [of i] folder_stored_cong [OF still still_nids(3) [OF still, of "Suc k + i"]] Suc by simp
  qed
  moreover have "s' = s\<lparr>pw_ndb := pw_ndb s', pw_folders := fs\<rparr>" by (subst ih(5), subst es(3)) simp
  ultimately show ?case
    using grew_trans [OF es(1) ih(2)] ih(1,4) still k by (intro exI [of _ "es # ess"] exI [of _ fs]) simp
qed

end
