(* ===== verification/Writer_File.thy ===== *)
theory Writer_File
  imports Writer_Finish
begin

section \<open>The finished file\<close>

text \<open>
  The nodes every store has besides the folders; then \<open>finish\<close> as a whole: with the file alone, a
  reader finds the messages and the folders.
\<close>

subsection \<open>Steps that only add nodes\<close>

definition adds_nids :: "nid list \<Rightarrow> pst \<Rightarrow> pst \<Rightarrow> bool" where
  "adds_nids ns s s' \<longleftrightarrow> (\<exists>es d. s' = s\<lparr>pw_ndb := d\<rparr> \<and> grew es (pw_ndb s) d \<and> map ne_nid es = ns)"

lemma adds_nids_trans: "adds_nids ns a b \<Longrightarrow> adds_nids ms b c \<Longrightarrow> adds_nids (ns @ ms) a c"
  unfolding adds_nids_def using grew_trans by fastforce

definition open_nodes :: "pst \<Rightarrow> bool" where
  "open_nodes s \<longleftrightarrow> nodes_are (nbt (pw_ndb s)) (pw_ndb s)"

lemma adds_nids_open: "adds_nids ns s s' \<Longrightarrow> open_nodes s'"
  by (auto simp: adds_nids_def open_nodes_def dest: grew_nodes)

definition adder :: "nid list \<Rightarrow> (pst, unit) prog \<Rightarrow> bool" where
  "adder ns m \<longleftrightarrow> (\<forall>s s'. open_nodes s \<longrightarrow> m s = Some (Inr (), s') \<longrightarrow> adds_nids ns s s')"

lemma adder_bind: "adder ns m \<Longrightarrow> adder ms k \<Longrightarrow> adder (ns @ ms) (bindM m (\<lambda>_. k))"
  using adds_nids_trans adds_nids_open by (simp add: adder_def bindM_Inr_iff) blast

lemma adder_get: "(\<And>x. adder ns (k x)) \<Longrightarrow> adder ns (bindM (getM f) k)"
  by (auto simp: adder_def bindM_Inr_iff getM_run)

lemma adder_local: "(\<And>x. adder ns (k x)) \<Longrightarrow> adder ns (bindM (local_object l m) k)"
  by (auto simp: adder_def bindM_Inr_iff local_object_run)

lemma adder_forM: "(\<And>x. x \<in> set xs \<Longrightarrow> adder [g x] (f x)) \<Longrightarrow> adder (map g xs) (forM f xs)"
proof (induction xs)
  case Nil
  have "adds_nids [] s s" if "open_nodes s" for s
    using grew_refl that by (auto simp: adds_nids_def open_nodes_def intro!: exI [of _ "[]"] exI [of _ "pw_ndb s"])
  then show ?case by (auto simp: adder_def ret_run)
next
  case (Cons x xs)
  then show ?case using adder_bind [of "[g x]" "f x" "map g xs" "forM f xs"] by simp
qed

lemma adder_heap:
  assumes "\<And>ns. keeps (\<lambda>u. nodes_are ns (sa_ndb u)) m" "\<And>d. keeps (\<lambda>u. within d (sa_ndb u)) m"
  shows "adder [n] (writeNodeFromHeap n parent m)"
proof -
  have "adds_nids [n] s s'" if s: "open_nodes s" "writeNodeFromHeap n parent m s = Some (Inr (), s')" for s s'
  proof -
    obtain nd u where 1: "bindM m store_heap (SubnodeAllocator_new (pw_ndb s)) = Some (Inr nd, u)"
        and s': "s' = s\<lparr>pw_ndb := (sa_ndb u)\<lparr>nbt := nbt (sa_ndb u) @ [entry n parent nd]\<rparr>\<rparr>"
      using s(2) by (auto simp: writeNode_run)
    have "nodes_are (nbt (pw_ndb s)) (pw_ndb s)" using s(1) by (simp add: open_nodes_def)
    from writeNode_law [OF this assms 1, of n parent] s' show ?thesis by (fastforce simp: adds_nids_def)
  qed
  then show ?thesis by (simp add: adder_def)
qed

lemma adder_node: "adder [n] (pw_on_ndb (addNode n a b parent))"
proof -
  have "adds_nids [n] s s'" if s: "open_nodes s" "pw_on_ndb (addNode n a b parent) s = Some (Inr (), s')" for s s'
  proof -
    obtain d where d: "addNode n a b parent (pw_ndb s) = Some (Inr (), d)" "s' = s\<lparr>pw_ndb := d\<rparr>" using s(2) by (auto simp: pw_on_ndb_run)
    then show ?thesis using addNode_grew [OF _ d(1)] s(1) by (fastforce simp: adds_nids_def open_nodes_def)
  qed
  then show ?thesis by (simp add: adder_def)
qed

subsection \<open>The nodes every store has\<close>

definition reserved_nids :: "nid list" where
  "reserved_nids = map fst kTemplates @ [kNidSearchActivityList, kNidSearchDomainObject, kNidHmpGuidMap, kNidHmpIdMap,
     kNidSearchManagementQ, 0xE41, 0xEC1, 0xF21]"

lemma adder_data: "adder [n] (pw_on_ndb (bindM (writeData b) (\<lambda>data. addNode n data 0 0)))"
proof -
  have "adds_nids [n] s s'" if s: "open_nodes s" "pw_on_ndb (bindM (writeData b) (\<lambda>data. addNode n data 0 0)) s = Some (Inr (), s')" for s s'
  proof -
    obtain x d where d: "writeData b (pw_ndb s) = Some (Inr x, d)" "s' = s\<lparr>pw_ndb := d\<lparr>nbt := nbt d @ [entry n 0 (x, 0)]\<rparr>\<rparr>"
      using s(2) by (auto simp: pw_on_ndb_run bindM_Inr_iff addNode_run)
    have o: "nodes_are (nbt (pw_ndb s)) (pw_ndb s)" "within (pw_ndb s) (pw_ndb s)"
      using s(1) by (simp_all add: open_nodes_def within_refl nodes_are_def)
    have "nodes_are (nbt (pw_ndb s)) d" "within (pw_ndb s) d"
      using keepsD [OF nodes.writeData o(1) d(1)] keepsD [OF blocks_kept.writeData o(2) d(1)] by simp_all
    then have "grew [entry n 0 (x, 0)] (pw_ndb s) (d\<lparr>nbt := nbt d @ [entry n 0 (x, 0)]\<rparr>)"
      by (simp add: grew_def within_node nodes_are_def)
    then show ?thesis unfolding adds_nids_def d(2) by (intro exI [of _ "[entry n 0 (x, 0)]"]) auto
  qed
  then show ?thesis by (simp add: adder_def)
qed

lemma reserved_law: "adder reserved_nids writeReservedNodes"
proof -
  have template: "adder [fst x] (write_template x)" for x
    unfolding write_template_def split_beta
    by (intro adder_get adder_local adder_heap nodes.table_serialize blocks_kept.table_serialize)
  have index: "adder [fst x] (write_index x)" for x
    unfolding write_index_def split_beta
    by (intro adder_local adder_heap) (intro hoare_intros; simp)+
  have a: "adder (map fst kTemplates @ [kNidSearchActivityList] @ [kNidSearchDomainObject] @
      map fst [(kNidHmpGuidMap, kHnSigHmpGuid, 16), (kNidHmpIdMap, kHnSigHmpId, 4 :: byte)] @
      map (\<lambda>n. n) [kNidSearchManagementQ, 0xE41, 0xEC1, 0xF21]) writeReservedNodes"
    unfolding writeReservedNodes_def
    by (intro adder_bind adder_forM adder_node adder_data template index)
  then show ?thesis by (simp add: reserved_nids_def)
qed

text \<open>The name map: a reader of its node finds the table of names.\<close>

definition node_stream :: "blocks \<Rightarrow> bid \<times> bid \<Rightarrow> prop_tag \<Rightarrow> bytes option" where
  "node_stream look nd tag = (case node_prop look nd (tagId tag) of Some (_, Inr b) \<Rightarrow> Some b | _ \<Rightarrow> None)"

definition node_name :: "blocks \<Rightarrow> bid \<times> bid \<Rightarrow> 16 word \<Rightarrow> (bytes \<times> (bytes + 32 word)) option" where
  "node_name look nd i =
     Option.bind (node_stream look nd PidTagNameidStreamEntry) (\<lambda>es. Option.bind (node_stream look nd PidTagNameidStreamGuid) (\<lambda>gs.
     Option.bind (node_stream look nd PidTagNameidStreamString) (\<lambda>ss. name_in es gs ss i)))"

definition names_shown :: "blocks \<Rightarrow> bid \<times> bid \<Rightarrow> request list \<Rightarrow> bool" where
  "names_shown look nd ns \<longleftrightarrow> list_all (\<lambda>k. node_name look nd (named_id k) = Some (name_shown (ns ! k))) [0..<length ns]"

definition bucket_setter :: "nameid \<Rightarrow> nat \<Rightarrow> setter" where
  "bucket_setter m i pc = (let b = concat (map encode_entry (filter (\<lambda>e. entry_bucket e = i) (nm_entries m))) in
     if b = [] then pc else setBinary (makeTag (of_nat (0x1000 + i)) kPtBinary) b pc)"

definition map_setters :: "nameid \<Rightarrow> setter list" where
  "map_setters m =
     [setInt32 PidTagNameidBucketCount (of_nat kBucketCount), setBinary PidTagNameidStreamGuid (concat (map guid_bytes (nm_extra_guids m))),
      setBinary PidTagNameidStreamEntry (concat (map encode_entry (nm_entries m))), setBinary PidTagNameidStreamString (nm_string_stream m)]"

lemma fold_set_all: "fold f xs pc = set_all (map f xs) pc"
  by (induction xs arbitrary: pc) (simp_all add: set_all_simps)

lemma name_map_setters: "buildPropertyContext m = set_all (map_setters m @ map (bucket_setter m) [0..<kBucketCount]) []"
proof -
  have "bucket_setter m = (\<lambda>i pc. if concat (map encode_entry (filter (\<lambda>e. entry_bucket e = i) (nm_entries m))) = [] then pc
      else setBinary (makeTag (of_nat (0x1000 + i)) kPtBinary) (concat (map encode_entry (filter (\<lambda>e. entry_bucket e = i) (nm_entries m)))) pc)"
    by (simp add: fun_eq_iff bucket_setter_def Let_def)
  then show ?thesis by (simp add: buildPropertyContext_def Let_def fold_set_all set_all_simps map_setters_def del: upt_Suc)
qed

lemma name_map_ok:
  assumes small: "names_small kLongestName m"
  shows "pc_ok (buildPropertyContext m)"
proof -
  have entries: "length (concat (map encode_entry es)) = 8 * length es" for es by (induction es) simp_all
  have few: "length (nm_entries m) \<le> 4096" using small by (simp add: names_small_def)
  have bucket: "sound (bucket_setter m i)" for i
  proof -
    let ?b = "concat (map encode_entry (filter (\<lambda>e. entry_bucket e = i) (nm_entries m)))"
    have "length (filter (\<lambda>e. entry_bucket e = i) (nm_entries m)) \<le> 4096" by (rule le_trans [OF length_filter_le few])
    then have "length ?b < 2 ^ 64" unfolding entries by simp
    then have "sound (setBinary (makeTag (of_nat (0x1000 + i)) kPtBinary) ?b)" by (intro setter_sound(5)) simp_all
    then show ?thesis by (simp add: bucket_setter_def sound_def Let_def)
  qed
  have "length (concat (map guid_bytes (nm_extra_guids m))) < 2 ^ 64"
    using small by (auto simp: names_small_def guid_bytes_def kPsInternetHeaders_def ps_guid_def put16_def put32_def)
  moreover have "length (concat (map encode_entry (nm_entries m))) < 2 ^ 64" using few by (simp add: entries)
  moreover have "length (nm_string_stream m) < 2 ^ 64" using names_small_bounds(1) [OF small] by simp
  ultimately have "list_all sound (map_setters m)" by (simp add: map_setters_def setter_simps)
  moreover have "list_all sound (map (bucket_setter m) [0..<kBucketCount])" using bucket by (simp add: list_all_iff del: upt_Suc)
  ultimately show ?thesis unfolding name_map_setters by (intro sound_all) simp_all
qed

lemma name_map_law:
  assumes s: "open_nodes s" "names_inv ns (pw_names s)" and run: "writeNameIdMap s = Some (Inr (), s')"
  shows "\<exists>nd d. s' = s\<lparr>pw_ndb := d\<rparr> \<and> grew [entry kNidNameToIdMap 0 nd] (pw_ndb s) d \<and> names_shown (lookup_block d) nd ns"
proof -
  let ?m = "pw_names s"
  have small: "names_small kLongestName ?m" using s(2) by (simp add: names_inv_def)
  have "writeNodeFromHeap kNidNameToIdMap 0 (pc_serialize (buildPropertyContext ?m)) s = Some (Inr (), s')"
    using run by (simp add: writeNameIdMap_def bindM_def getM_run)
  from write_pc_law [OF s(1) [unfolded open_nodes_def] name_map_ok [OF small] this] obtain nd d where
    nd: "s' = s\<lparr>pw_ndb := d\<rparr>" "grew [entry kNidNameToIdMap 0 nd] (pw_ndb s) d"
      "\<And>i v x. pc_look (buildPropertyContext ?m) i = Some v \<Longrightarrow> value_read (\<lambda>_. None) v = Some x \<Longrightarrow> node_prop (lookup_block d) nd i = Some x"
    by blast
  have spare: "list_all (spares i) (map (bucket_setter ?m) [0..<kBucketCount])" if "unat i < 0x1000" for i
  proof -
    have "spares i (bucket_setter ?m k)" if k: "k < kBucketCount" for k
    proof -
      have "unat (of_nat (0x1000 + k) :: 16 word) = 0x1000 + k" using k by (intro unat_small) simp
      then have "of_nat (0x1000 + k) \<noteq> i" using \<open>unat i < 0x1000\<close> by auto
      then show ?thesis by (simp add: spares_def bucket_setter_def setBinary_def pc_look_put Let_def)
    qed
    then show ?thesis by (simp add: list_all_iff del: upt_Suc)
  qed
  have stream: "node_stream (lookup_block d) nd tag = Some (pc_bytes (buildPropertyContext ?m) tag)"
    if "unat (tagId tag) < 0x1000" "final (tagId tag) (bytes_value tag b) (map_setters ?m)" for tag b
  proof -
    have "final (tagId tag) (bytes_value tag b) (map_setters ?m @ map (bucket_setter ?m) [0..<kBucketCount])"
      using that spare by (simp add: final_steps(2) del: upt_Suc)
    from final_look [OF this, of "[]", folded name_map_setters] show ?thesis
      using nd(3) by (simp add: node_stream_def pc_bytes_def value_read_def bytes_value_def)
  qed
  have "node_stream (lookup_block d) nd PidTagNameidStreamEntry = Some (pc_bytes (buildPropertyContext ?m) PidTagNameidStreamEntry)"
    "node_stream (lookup_block d) nd PidTagNameidStreamGuid = Some (pc_bytes (buildPropertyContext ?m) PidTagNameidStreamGuid)"
    "node_stream (lookup_block d) nd PidTagNameidStreamString = Some (pc_bytes (buildPropertyContext ?m) PidTagNameidStreamString)"
    by (rule stream, simp, simp add: map_setters_def setter_simps del: final.simps(2))+
  then have "names_shown (lookup_block d) nd ns"
    using names_inv_read [OF s(2)] by (simp add: names_shown_def node_name_def read_name_def list_all_iff del: upt_Suc)
  then show ?thesis using nd(1,2) by blast
qed

lemma names_shown_more:
  assumes more: "more_blocks look look'" and shown: "names_shown look nd ns"
  shows "names_shown look' nd ns"
proof -
  have stream: "node_stream look' nd tag = Some b" if "node_stream look nd tag = Some b" for tag b
    using that node_prop_more [OF more] by (auto simp: node_stream_def split: option.splits sum.splits)
  have "node_name look' nd i = Some x" if "node_name look nd i = Some x" for i x
    using that stream by (fastforce simp: node_name_def bind_eq_Some_conv)
  then show ?thesis using shown by (simp add: names_shown_def list_all_iff)
qed

text \<open>The message store: the record key, and where the folders Outlook asks for are.\<close>

definition store_shown :: "blocks \<Rightarrow> bid \<times> bid \<Rightarrow> pst \<Rightarrow> bool" where
  "store_shown look nd s \<longleftrightarrow> (let eid = entryId (pw_guid s) in
     shows_prop look nd PR_RECORD_KEY (pw_guid s) \<and> shows_word look nd PR_PST_PASSWORD 0 \<and>
     shows_text look nd PR_DISPLAY_NAME ''Personal Folders'' \<and>
     shows_prop look nd PR_IPM_SUBTREE_ENTRYID (eid (pw_ipm_subtree s)) \<and> shows_prop look nd PR_IPM_WASTEBASKET_ENTRYID (eid (pw_deleted_items s)) \<and>
     shows_prop look nd PR_IPM_SENTMAIL_ENTRYID (eid (pw_sent_items s)) \<and> shows_prop look nd PR_IPM_OUTBOX_ENTRYID (eid (pw_outbox s)) \<and>
     shows_prop look nd PR_FINDER_ENTRYID (eid (pw_search_root s)))"

lemma store_shown_more: "more_blocks look look' \<Longrightarrow> store_shown look nd s \<Longrightarrow> store_shown look' nd s"
  unfolding store_shown_def Let_def using shows_more [of look look'] by blast

lemma message_store_law:
  assumes s: "open_nodes s" "length (pw_guid s) = 16" and run: "writeMessageStore s = Some (Inr (), s')"
  shows "\<exists>nd d. s' = s\<lparr>pw_ndb := d\<rparr> \<and> grew [entry kNidMessageStore 0 nd] (pw_ndb s) d \<and> store_shown (lookup_block d) nd s"
proof -
  let ?e = "entryId (pw_guid s)"
  let ?fs = "[setBinary PR_RECORD_KEY (pw_guid s), setInt32 PR_PST_PASSWORD 0, setString PR_DISPLAY_NAME ''Personal Folders'',
        setBinary PR_IPM_SUBTREE_ENTRYID (?e (pw_ipm_subtree s)), setBinary PR_IPM_WASTEBASKET_ENTRYID (?e (pw_deleted_items s)),
        setBinary PR_IPM_SENTMAIL_ENTRYID (?e (pw_sent_items s)), setBinary PR_IPM_OUTBOX_ENTRYID (?e (pw_outbox s)),
        setBinary PR_FINDER_ENTRYID (?e (pw_search_root s)), setBinary PR_VIEWS_ENTRYID (?e (pw_views s)),
        setBinary PR_COMMON_VIEWS_ENTRYID (?e (pw_common_views s)), setBinary PR_ENTRYID (?e kNidRootFolder),
        setInt32 PR_VALID_FOLDER_MASK (0x01 OR 0x04 OR 0x08 OR 0x10 OR 0x20 OR 0x40 OR 0x80)]"
  have pc: "message_store_pc s = set_all ?fs []" by (simp add: message_store_pc_def Let_def)
  have "length (?e n) < 2 ^ 64" for n using s(2) by (simp add: entryId_def put32_def)
  then have "list_all sound ?fs" using s(2) by (simp add: setter_simps)
  then have ok: "pc_ok (message_store_pc s)" unfolding pc by (rule sound_all) simp
  have "writeNodeFromHeap kNidMessageStore 0 (pc_serialize (message_store_pc s)) s = Some (Inr (), s')"
    using run by (simp add: writeMessageStore_def bindM_def getM_run)
  from write_pc_law [OF s(1) [unfolded open_nodes_def] ok this] obtain nd d where
    nd: "s' = s\<lparr>pw_ndb := d\<rparr>" "grew [entry kNidMessageStore 0 nd] (pw_ndb s) d"
      "\<And>i v x. pc_look (message_store_pc s) i = Some v \<Longrightarrow> value_read (\<lambda>_. None) v = Some x \<Longrightarrow> node_prop (lookup_block d) nd i = Some x"
    by blast
  have bytes: "shows_prop (lookup_block d) nd tag b" if "final (tagId tag) (bytes_value tag b) ?fs" for tag b
    using nd(3) [OF final_look [OF that, of "[]", folded pc]] by (simp add: shows_prop_def value_read_def bytes_value_def)
  have word: "shows_word (lookup_block d) nd tag w" if "final (tagId tag) (inline_value tag w) ?fs" for tag w
    using nd(3) [OF final_look [OF that, of "[]", folded pc]] by (simp add: shows_word_def value_read_def inline_value_def)
  have "store_shown (lookup_block d) nd s"
    unfolding store_shown_def Let_def shows_text_def
    by (intro conjI; rule bytes word; simp add: setter_simps string_bytes_def del: final.simps(2))
  then show ?thesis using nd(1,2) by blast
qed

subsection \<open>All nodes have numbers of their own\<close>

definition folder_number :: "nid \<Rightarrow> bool" where
  "folder_number n \<longleftrightarrow> n = kNidRootFolder \<or> (\<exists>k < 2 ^ 26. n = folder_nid k)"

abbreviation table_nid :: "nid_type \<Rightarrow> nid \<Rightarrow> nid" where
  "table_nid t n \<equiv> makeNid t (nidIndex n)"

definition folder_nids :: "nid \<Rightarrow> nid list" where
  "folder_nids n = [n, table_nid kNidTypeHierarchyTable n, table_nid kNidTypeContentsTable n, table_nid kNidTypeAssocContentsTable n]"

lemma folder_number_facts:
  assumes "folder_number n"
  shows "nidType n = kNidTypeNormalFolder" "unat (nidIndex n) < 2 ^ 27" "nidIndex n = 9 \<or> 0x400 \<le> unat (nidIndex n)"
proof -
  have u: "unat (kFirstUserNidIndex + of_nat k) = 0x400 + k" "unat (kFirstUserNidIndex + of_nat k) < 2 ^ 27" if "k < 2 ^ 26" for k
    using user_index [OF that] that by simp_all
  have root: "nidType kNidRootFolder = kNidTypeNormalFolder" "nidIndex kNidRootFolder = 9" by (simp_all add: nidType_def nidIndex_def)
  show "nidType n = kNidTypeNormalFolder" "unat (nidIndex n) < 2 ^ 27" "nidIndex n = 9 \<or> 0x400 \<le> unat (nidIndex n)"
    using assms unfolding folder_number_def by (metis root(1) user_nids(4))
      (use assms u user_nids(3) root(2) in \<open>fastforce simp: folder_number_def\<close>)+
qed

lemma folder_nids_facts:
  assumes "folder_number n" "x \<in> set (folder_nids n)"
  shows "nidIndex x = nidIndex n" "nidType x \<in> {kNidTypeNormalFolder, kNidTypeHierarchyTable, kNidTypeContentsTable, kNidTypeAssocContentsTable}"
  using assms(2) nid_roundtrip [OF folder_number_facts(2) [OF assms(1)]] folder_number_facts(1) [OF assms(1)]
  by (auto simp: folder_nids_def)

lemma folder_nids_distinct:
  assumes "\<forall>n \<in> set ns. folder_number n" "distinct ns"
  shows "distinct (concat (map folder_nids ns))"
proof -
  have one: "distinct (folder_nids n)" if "folder_number n" for n
  proof -
    note f = folder_number_facts [OF that]
    have "nidType (table_nid t n) = t AND 0x1F" for t by (rule nid_roundtrip(2) [OF f(2)])
    then have "distinct (map nidType (folder_nids n))" by (simp add: folder_nids_def f(1))
    then show ?thesis by (simp add: distinct_map)
  qed
  have inj: "nidIndex m \<noteq> nidIndex n" if "folder_number m" "folder_number n" "m \<noteq> n" for m n
  proof -
    have "makeNid (nidType n) (nidIndex n) = n" if "folder_number n" for n
      using that unfolding folder_number_def
    proof (elim disjE exE conjE)
      show "makeNid (nidType n) (nidIndex n) = n" if "n = kNidRootFolder" using that by (simp add: nidType_def nidIndex_def makeNid_def)
      show "makeNid (nidType n) (nidIndex n) = n" if "k < 2 ^ 26" "n = folder_nid k" for k
        using user_nids(3,4) [OF that(1)] that(2) by (simp add: folder_nid_def)
    qed
    then show ?thesis using that folder_number_facts(1) by metis
  qed
  show ?thesis
    using assms
  proof (induction ns)
    case (Cons n ns)
    have "set (folder_nids n) \<inter> set (folder_nids m) = {}" if m: "m \<in> set ns" for m
    proof -
      have nm: "folder_number n" "folder_number m" "n \<noteq> m" using Cons.prems m by auto
      have "x \<notin> set (folder_nids m)" if x: "x \<in> set (folder_nids n)" for x
        using folder_nids_facts(1) [OF nm(1) x] folder_nids_facts(1) [OF nm(2), of x] inj [OF nm] by metis
      then show ?thesis by blast
    qed
    then have "set (folder_nids n) \<inter> set (concat (map folder_nids ns)) = {}" by fastforce
    moreover have "distinct (concat (map folder_nids ns))" "distinct (folder_nids n)" using Cons one by simp_all
    ultimately show ?case by simp
  qed simp
qed

lemma fixed_nids:
  "distinct (reserved_nids @ [kNidMessageStore, kNidNameToIdMap])"
  "\<forall>n \<in> set (reserved_nids @ [kNidMessageStore, kNidNameToIdMap]). nidType n \<noteq> kNidTypeNormalMessage \<and> nidIndex n \<noteq> 9 \<and> unat (nidIndex n) < 0x400"
  by code_simp+

lemma all_nids_distinct:
  assumes "m \<le> 2 ^ 26" "\<forall>n \<in> set ns. folder_number n" "distinct ns"
  shows "distinct (map message_nid [0..<m] @ concat (map folder_nids ns) @ reserved_nids @ [kNidMessageStore, kNidNameToIdMap])"
proof -
  let ?fixed = "reserved_nids @ [kNidMessageStore, kNidNameToIdMap]"
  have msg: "nidType (message_nid k) = kNidTypeNormalMessage" if "k < m" for k using user_nids(2) that assms(1) by simp
  have "distinct (map message_nid [0..<m])"
    using user_nids_inject(1) assms(1) by (auto simp: distinct_map inj_on_def)
  moreover have "set (map message_nid [0..<m]) \<inter> set (concat (map folder_nids ns)) = {}"
    using msg folder_nids_facts(2) assms(2) by fastforce
  moreover have "set (map message_nid [0..<m]) \<inter> set ?fixed = {}"
    using msg fixed_nids(2) by fastforce
  moreover have "set (concat (map folder_nids ns)) \<inter> set ?fixed = {}"
  proof -
    have "nidIndex x = 9 \<or> 0x400 \<le> unat (nidIndex x)" if "x \<in> set (concat (map folder_nids ns))" for x
      using that folder_nids_facts(1) folder_number_facts(3) assms(2) by fastforce
    then show ?thesis using fixed_nids(2) by fastforce
  qed
  ultimately show ?thesis using fixed_nids(1) folder_nids_distinct [OF assms(2,3)] by (simp only: distinct_append) auto
qed

subsection \<open>The file\<close>

text \<open>The node of that number has that parent, and what it stores is as asked.\<close>

definition file_has :: "disk \<Rightarrow> nid \<Rightarrow> nid \<Rightarrow> (bid \<times> bid \<Rightarrow> bool) \<Rightarrow> bool" where
  "file_has d n parent shown \<longleftrightarrow> (\<exists>nd. file_node d n = Some (entry n parent nd) \<and> shown nd)"

definition message_in_file :: "disk \<Rightarrow> bytes \<Rightarrow> request list \<Rightarrow> nid \<times> nid \<times> message \<Rightarrow> bool" where
  "message_in_file d guid ns = (\<lambda>(n, f, msg).
     file_has d n f (\<lambda>nd. stored_message (file_block d) ns msg nd \<and> ids_shown (file_block d) guid n nd))"

text \<open>The messages are there, their named properties under the names that the name map of the file gives them.\<close>

definition messages_in_file :: "disk \<Rightarrow> bytes \<Rightarrow> mail_log \<Rightarrow> bool" where
  "messages_in_file d guid log \<longleftrightarrow> (\<exists>ns. file_has d kNidNameToIdMap 0 (\<lambda>nd. names_shown (file_block d) nd ns) \<and>
     list_all (message_in_file d guid ns) (numbered log))"

definition folder_in_file :: "disk \<Rightarrow> mail_log \<Rightarrow> folder list \<Rightarrow> folder \<Rightarrow> bool" where
  "folder_in_file d log fs f \<longleftrightarrow> (let n = fd_nid f in
     file_has d n (fd_parent f) (\<lambda>nd. folder_shown (file_block d) nd f) \<and>
     file_has d (table_nid kNidTypeHierarchyTable n) n (\<lambda>nd. rows_listed (file_block d) nd (map hierarchy_cells (subfolders fs n))) \<and>
     file_has d (table_nid kNidTypeContentsTable n) n (\<lambda>nd. rows_listed (file_block d) nd (map contents_cells (in_folder n log))) \<and>
     file_has d (table_nid kNidTypeAssocContentsTable n) n (\<lambda>nd. rows_listed (file_block d) nd []))"

definition file_holds :: "disk \<Rightarrow> mail_log \<Rightarrow> pst \<Rightarrow> bool" where
  "file_holds d log s \<longleftrightarrow>
     messages_in_file d (pw_guid s) log \<and> list_all (folder_in_file d log (pw_folders s)) (pw_folders s) \<and>
     file_has d kNidMessageStore 0 (\<lambda>nd. store_shown (file_block d) nd s)"

text \<open>The state from which \<open>finish\<close> writes the file, and the nodes there.\<close>

lemma tree_folder_numbers:
  assumes "tree_ok ps nf" "n \<in> set (map fst ps)"
  shows "folder_number n"
proof -
  have nids: "map fst ps = kNidRootFolder # map folder_nid [0..<length ps - 1]" and "length ps \<le> 2 ^ 26" "ps \<noteq> []"
    using assms(1) by (simp_all add: tree_ok_def)
  then have small: "k < length ps - 1 \<Longrightarrow> k < 2 ^ 26" for k by (cases ps) simp_all
  have "n = kNidRootFolder \<or> (\<exists>k \<in> {..<length ps - 1}. n = folder_nid k)" using assms(2) unfolding nids by (auto simp: lessThan_def)
  then show ?thesis using small unfolding folder_number_def by blast
qed

lemma holds_writing:
  assumes inv: "writer_holds log s" and fit: "\<forall>f \<in> set (pw_folders s). text_fits (fd_name f)"
    and few: "length (pw_folders s) \<le> 2 ^ 20" "length log < 2 ^ 20"
  shows "writing log (s\<lparr>pw_finished := True\<rparr>)"
proof -
  let ?fs = "pw_folders s"
  have T: "tree_ok (map fd_place ?fs) (pw_next_folder s)" using inv by (simp add: writer_holds_def)
  have "fd_children f = map fd_nid (subfolders ?fs (fd_nid f))" if "f \<in> set ?fs" for f
  proof -
    have "\<forall>(i, p, name, cs) \<in> set (map fd_place ?fs). cs = children_of i (map fd_place ?fs)"
      using T unfolding tree_ok_def by fast
    then have "fd_children f = children_of (fd_nid f) (map fd_place ?fs)" using that by fastforce
    then show ?thesis by (simp only: children_subfolders)
  qed
  moreover have "distinct (map fd_nid ?fs)" using tree_distinct [OF T] by (simp add: comp_def)
  ultimately show ?thesis using inv fit few by (simp add: writing_def writer_holds_def)
qed

lemma held_nids:
  "list_all2 (message_held look guid ns) es xs \<Longrightarrow> map ne_nid es = map fst xs"
  by (induction rule: list_all2_induct) (auto simp: message_held_def)

lemma stored_nids:
  assumes "length ess = length fs" "\<forall>j < length fs. folder_stored look log gs (fs ! j) (ess ! j)"
  shows "map ne_nid (concat ess) = concat (map folder_nids (map fd_nid fs))"
proof -
  have "map (map ne_nid) ess = map folder_nids (map fd_nid fs)"
  proof (rule nth_equalityI)
    fix j assume "j < length (map (map ne_nid) ess)"
    then show "map (map ne_nid) ess ! j = map folder_nids (map fd_nid fs) ! j"
      using assms by (auto simp: folder_stored_def folder_nodes_def folder_nids_def Let_def)
  qed (simp add: assms(1))
  then show ?thesis by (simp add: map_concat)
qed

lemma file_hasI:
  assumes "file_node d n = find (\<lambda>e. ne_nid e = n) es" "distinct (map ne_nid es)" "entry n parent nd \<in> set es" "shown nd"
  shows "file_has d n parent shown"
proof -
  have "find (\<lambda>e. ne_nid e = n) es = Some (entry n parent nd)"
    using assms(2,3) by (induction es) (auto simp: rev_image_eqI)
  then show ?thesis using assms(1,4) by (auto simp: file_has_def)
qed

lemma closed_file:
  assumes d: "nodes_are es d" and dist: "distinct (map ne_nid es)" and run: "finish d = Some (Inr (), d')"
  shows "more_blocks (lookup_block d) (file_block (disk d'))"
    "entry n parent nd \<in> set es \<Longrightarrow> shown nd \<Longrightarrow> file_has (disk d') n parent shown"
proof -
  have ok: "store_ok d" "\<not> ndb_finished d" "nbt d = es" using d by (simp_all add: nodes_are_def)
  show "more_blocks (lookup_block d) (file_block (disk d'))"
    using finish_file_block [OF ok(1,2) run] by (simp add: more_blocks_def)
  have "distinct (map ne_nid (nbt d))" using dist ok(3) by simp
  note node = finish_file_node [OF ok(1,2) run this, unfolded ok(3)]
  show "file_has (disk d') n parent shown" if "entry n parent nd \<in> set es" "shown nd"
    using node dist that by (rule file_hasI [of "disk d'" n es nd parent shown])
qed

lemma list_all2_in_set2: "list_all2 P xs ys \<Longrightarrow> y \<in> set ys \<Longrightarrow> \<exists>x \<in> set xs. P x y"
  by (induction rule: list_all2_induct) auto

lemma pst_finish_law:
  assumes inv: "writer_holds log s" and fit: "\<forall>f \<in> set (pw_folders s). text_fits (fd_name f)"
    and few: "length (pw_folders s) \<le> 2 ^ 20" "length log < 2 ^ 20" and run: "pst_finish s = Some (Inr (), s')"
  shows "file_holds (disk (pw_ndb s')) log s"
proof -
  let ?fs = "pw_folders s" and ?s0 = "s\<lparr>pw_finished := True\<rparr>"
  have I: "\<not> pw_finished s" "nodes_are (nbt (pw_ndb s)) (pw_ndb s)" "length (pw_guid s) = 16" "list_all (folder_holds (pw_ndb s) log) ?fs"
      "tree_ok (map fd_place ?fs) (pw_next_folder s)"
    using inv by (simp_all add: writer_holds_def)
  obtain ns where names: "names_inv ns (pw_names s)"
      and held: "list_all2 (message_held (lookup_block (pw_ndb s)) (pw_guid s) ns) (nbt (pw_ndb s)) (numbered log)"
    using inv by (auto simp: writer_holds_def mail_held_def)
  obtain s1 s2 s3 s4 d where 1: "writeFolders ?s0 = Some (Inr (), s1)" and 2: "writeReservedNodes s1 = Some (Inr (), s2)"
      and 3: "writeMessageStore s2 = Some (Inr (), s3)" and 4: "writeNameIdMap s3 = Some (Inr (), s4)"
      and 5: "finish (pw_ndb s4) = Some (Inr (), d)" and s': "pw_ndb s' = d"
    using run I(1) by (auto simp: pst_finish_def bindM_Inr_iff getM_run modM_def pw_on_ndb_run)
  have "writing log ?s0" by (rule holds_writing [OF inv fit few])
  from write_folders_law [OF this, of 0 s1] I(4) 1 obtain ess fs where
      ess: "length ess = length ?fs" "grew (concat ess) (pw_ndb s) (pw_ndb s1)"
        "\<forall>j < length ?fs. folder_stored (lookup_block (pw_ndb s1)) log ?fs (?fs ! j) (ess ! j)"
      and s1: "s1 = ?s0\<lparr>pw_ndb := pw_ndb s1, pw_folders := fs\<rparr>"
    by (auto simp: writeFolders_def bindM_Inr_iff getM_run list_all_length)
  have o1: "open_nodes s1" using conjunct1 [OF grew_nodes [OF ess(2)]] unfolding open_nodes_def .
  obtain es2 d2 where a2: "s2 = s1\<lparr>pw_ndb := d2\<rparr>" "grew es2 (pw_ndb s1) d2" "map ne_nid es2 = reserved_nids"
    using reserved_law [unfolded adder_def, rule_format, OF o1 2] by (auto simp: adds_nids_def)
  have o2: "open_nodes s2" using conjunct1 [OF grew_nodes [OF a2(2)]] by (simp add: a2(1) open_nodes_def)
  have guid: "length (pw_guid s2) = 16" unfolding a2(1) using I(3) by (simp, subst s1, simp)
  from message_store_law [OF o2 guid 3] obtain nd d3 where
      a3: "s3 = s2\<lparr>pw_ndb := d3\<rparr>" "grew [entry kNidMessageStore 0 nd] d2 d3" "store_shown (lookup_block d3) nd s2"
    by (auto simp: a2(1))
  have o3: "open_nodes s3" using conjunct1 [OF grew_nodes [OF a3(2)]] by (simp add: a3(1) open_nodes_def)
  have names3: "names_inv ns (pw_names s3)" unfolding a3(1) a2(1) using names by (simp, subst s1, simp)
  from name_map_law [OF o3 names3 4] obtain nm d4 where
      a4: "s4 = s3\<lparr>pw_ndb := d4\<rparr>" "grew [entry kNidNameToIdMap 0 nm] d3 d4" "names_shown (lookup_block d4) nm ns"
    by (auto simp: a3(1))
  let ?es = "nbt (pw_ndb s) @ concat ess @ es2 @ [entry kNidMessageStore 0 nd] @ [entry kNidNameToIdMap 0 nm]"
  have nodes: "nodes_are ?es d4"
    using grew_trans [OF grew_trans [OF grew_trans [OF ess(2) a2(2)] a3(2)] a4(2)] by (simp add: grew_def)
  have nids: "map ne_nid ?es = map message_nid [0..<length log] @ concat (map folder_nids (map fd_nid ?fs)) @ reserved_nids @ [kNidMessageStore, kNidNameToIdMap]"
    using held_nids [OF held] stored_nids [OF ess(1,3)] a2(3) by (simp add: numbered_fst)
  have known: "\<forall>n \<in> set (map fd_nid ?fs). folder_number n" using tree_folder_numbers [OF I(5)] by (simp add: comp_def)
  have own: "distinct (map fd_nid ?fs)" using tree_distinct [OF I(5)] by (simp add: comp_def)
  have m: "length log \<le> 2 ^ 26" using few(2) by simp
  have dist: "distinct (map ne_nid ?es)" unfolding nids by (rule all_nids_distinct [OF m known own])
  have 5: "finish d4 = Some (Inr (), d)" using 5 by (simp add: a4(1))
  note closed = closed_file [OF nodes dist 5]
  let ?look = "file_block (disk d)"
  have more3: "more_blocks (lookup_block d3) ?look" by (rule more_blocks_trans [OF grew_more [OF a4(2)] closed(1)])
  have more1: "more_blocks (lookup_block (pw_ndb s1)) ?look"
    by (rule more_blocks_trans [OF more_blocks_trans [OF grew_more [OF a2(2)] grew_more [OF a3(2)]] more3])
  have more0: "more_blocks (lookup_block (pw_ndb s)) ?look" by (rule more_blocks_trans [OF grew_more [OF ess(2)] more1])
  have "store_shown ?look nd s" using store_shown_more [OF more3 a3(3)] unfolding a2(1) by (subst (asm) s1) (simp add: store_shown_def)
  then have store: "file_has (disk d) kNidMessageStore 0 (\<lambda>nd. store_shown ?look nd s)" by (intro closed(2)) simp_all
  have map: "file_has (disk d) kNidNameToIdMap 0 (\<lambda>nd. names_shown ?look nd ns)"
    using names_shown_more [OF closed(1) a4(3)] by (intro closed(2)) simp_all
  have messages: "message_in_file (disk d) (pw_guid s) ns x" if x_in: "x \<in> set (numbered log)" for x
  proof -
    obtain e where e: "e \<in> set (nbt (pw_ndb s))" "message_held (lookup_block (pw_ndb s)) (pw_guid s) ns e x"
      using list_all2_in_set2 [OF held x_in] by blast
    obtain n f msg where x: "x = (n, f, msg)" by (cases x)
    have "e = entry n f (ne_data e, ne_sub e)" "stored_message ?look ns msg (ne_data e, ne_sub e)"
        "ids_shown ?look (pw_guid s) n (ne_data e, ne_sub e)"
      using message_held_more [OF more0 prefix_order.refl e(2)] by (simp_all add: message_held_def x)
    then show ?thesis using closed(2) [of n "(ne_data e, ne_sub e)" f] e(1) by (simp add: message_in_file_def x)
  qed
  have folders: "folder_in_file (disk d) log ?fs (?fs ! j)" if j: "j < length ?fs" for j
  proof -
    have "folder_stored ?look log ?fs (?fs ! j) (ess ! j)" using ess(3) j folder_stored_more [OF more1] by blast
    then obtain a h c e where es: "ess ! j = folder_nodes (?fs ! j) a h c e" "folder_shown ?look a (?fs ! j)"
        "rows_listed ?look h (map hierarchy_cells (subfolders ?fs (fd_nid (?fs ! j))))"
        "rows_listed ?look c (map contents_cells (in_folder (fd_nid (?fs ! j)) log))" "rows_listed ?look e []"
      by (auto simp: folder_stored_def)
    have "ess ! j \<in> set ess" using j ess(1) by simp
    then have "set (folder_nodes (?fs ! j) a h c e) \<subseteq> set ?es" unfolding es(1) [symmetric] by auto
    then show ?thesis
      unfolding folder_in_file_def Let_def using es(2-5) by (intro conjI closed(2)) (auto simp: folder_nodes_def Let_def)
  qed
  have "list_all (folder_in_file (disk d) log ?fs) ?fs" using folders by (simp add: list_all_length)
  moreover have "messages_in_file (disk d) (pw_guid s) log" unfolding messages_in_file_def using map messages by (auto simp: list_all_iff)
  ultimately show ?thesis using store by (simp add: file_holds_def s')
qed

end
