(* ===== verification/Write_Budget.thy ===== *)
theory Write_Budget
  imports Writer_File
begin

section \<open>Writing succeeds within a budget\<close>

text \<open>
  Every write of the library throws when a limit of the format is reached or the disk refuses. Here
  is what a step may cost for that not to happen: a state with \<open>c + k\<close> units left runs a step of
  cost \<open>c\<close>, which returns and leaves \<open>k\<close>. A unit is a block of the file, an entry of a subnode list
  or a block of a heap, whichever the state counts.
\<close>

subsection \<open>The calculus\<close>

definition live :: "(nat \<Rightarrow> 's \<Rightarrow> bool) \<Rightarrow> nat \<Rightarrow> ('a \<Rightarrow> bool) \<Rightarrow> ('s, 'a) prog \<Rightarrow> bool" where
  "live R c Q m \<longleftrightarrow> (\<forall>k s. R (c + k) s \<longrightarrow> (\<exists>x s'. m s = Some (Inr x, s') \<and> R k s' \<and> Q x))"

definition monotone_in :: "(nat \<Rightarrow> 's \<Rightarrow> bool) \<Rightarrow> bool" where
  "monotone_in R \<longleftrightarrow> (\<forall>k j s. R k s \<longrightarrow> j \<le> k \<longrightarrow> R j s)"

named_theorems live_intros \<open>rules for programs that return within a budget\<close>

lemma liveI: "(\<And>k s. R (c + k) s \<Longrightarrow> \<exists>x s'. m s = Some (Inr x, s') \<and> R k s' \<and> Q x) \<Longrightarrow> live R c Q m"
  by (simp add: live_def)

lemma liveD: "live R c Q m \<Longrightarrow> R (c + k) s \<Longrightarrow> \<exists>x s'. m s = Some (Inr x, s') \<and> R k s' \<and> Q x"
  by (simp add: live_def)

lemma live_weaken:
  assumes "monotone_in R" "live R c Q m" "c \<le> c'" "\<And>x. Q x \<Longrightarrow> Q' x"
  shows "live R c' Q' m"
proof (rule liveI)
  fix k s assume "R (c' + k) s"
  then have "R (c + k) s" using assms(1,3) unfolding monotone_in_def by (meson add_le_mono1)
  then show "\<exists>x s'. m s = Some (Inr x, s') \<and> R k s' \<and> Q' x" using liveD [OF assms(2)] assms(4) by blast
qed

lemma live_ret: "monotone_in R \<Longrightarrow> Q x \<Longrightarrow> live R c Q (ret x)"
  by (rule liveI) (auto simp: ret_run monotone_in_def)

lemma live_bind:
  assumes "live R c Q m" "\<And>x. Q x \<Longrightarrow> live R d Q' (f x)"
  shows "live R (c + d) Q' (bindM m f)"
proof (rule liveI)
  fix k s assume "R (c + d + k) s"
  then have "R (c + (d + k)) s" by (simp add: add.assoc)
  from liveD [OF assms(1) this] obtain x s1 where "m s = Some (Inr x, s1)" "R (d + k) s1" "Q x" by blast
  then show "\<exists>y s'. bindM m f s = Some (Inr y, s') \<and> R k s' \<and> Q' y"
    using liveD [OF assms(2), of x k s1] by (auto simp: bindM_run)
qed

lemma live_get: "monotone_in R \<Longrightarrow> (\<And>k s. R k s \<Longrightarrow> Q (f s)) \<Longrightarrow> live R c Q (getM f)"
  by (rule liveI) (auto simp: getM_run monotone_in_def)

lemma live_throw_if: "monotone_in R \<Longrightarrow> \<not> c \<Longrightarrow> live R n (\<lambda>_. True) (throw_if c e)"
  by (simp add: throw_if_def live_ret)

lemma live_mapM:
  assumes mono: "monotone_in R" and step: "\<And>x. x \<in> set xs \<Longrightarrow> live R (c x) (Q x) (f x)"
  shows "live R (sum_list (map c xs)) (list_all2 Q xs) (mapM f xs)"
  using step
proof (induction xs)
  case (Cons x xs)
  have "live R (c x + (sum_list (map c xs) + 0)) (list_all2 Q (x # xs)) (bindM (f x) (\<lambda>y. bindM (mapM f xs) (\<lambda>ys. ret (y # ys))))"
    by (rule live_bind [where Q = "Q x"], use Cons.prems in simp, rule live_bind [where Q = "list_all2 Q xs"],
      use Cons in simp, rule live_ret [OF mono], simp)
  then show ?case by simp
qed (simp add: live_ret mono)

lemma live_forM:
  assumes mono: "monotone_in R" and step: "\<And>x. x \<in> set xs \<Longrightarrow> live R (c x) (\<lambda>_. True) (f x)"
  shows "live R (sum_list (map c xs)) (\<lambda>_. True) (forM f xs)"
  using step
proof (induction xs)
  case (Cons x xs)
  have "live R (c x + sum_list (map c xs)) (\<lambda>_. True) (bindM (f x) (\<lambda>_. forM f xs))"
    by (rule live_bind [where Q = "\<lambda>_. True"]) (use Cons in simp_all)
  then show ?case by simp
qed (simp add: live_ret mono)

lemma live_local: "monotone_in R \<Longrightarrow> m l = Some (Inr a, l') \<Longrightarrow> Q l' \<Longrightarrow> live R c Q (local_object l m)"
  by (rule liveI) (auto simp: local_object_def monotone_in_def)

text \<open>On a part of the state.\<close>

lemma live_zoom:
  assumes "live R c Q m" "\<And>k s. R' (c + k) s \<Longrightarrow> R (c + k) (get s)" "\<And>k s t. R' (c + k) s \<Longrightarrow> R k t \<Longrightarrow> R' k (put t s)"
  shows "live R' c Q (zoomM get put m)"
proof (rule liveI)
  fix k s assume s: "R' (c + k) s"
  from liveD [OF assms(1) assms(2) [OF s]] obtain x t where "m (get s) = Some (Inr x, t)" "R k t" "Q x" by blast
  then show "\<exists>x s'. zoomM get put m s = Some (Inr x, s') \<and> R' k s' \<and> Q x" using assms(3) [OF s] by (simp add: zoomM_def)
qed

lemma live_later: "live R c Q m \<Longrightarrow> live (\<lambda>k. R (b + k)) c Q m"
  unfolding live_def by (simp add: add.left_commute [of b])

subsection \<open>The file\<close>

text \<open>What writing data or a subnode list costs, in blocks.\<close>

definition data_cost :: "nat \<Rightarrow> nat" where
  "data_cost n = n div 4096 + 3"

lemma length_sl_image: "length (sl_image es) = 24 * length es + 8"
  using length_concat_const [of es sl_entry 24] by (simp add: sl_image_eq sl_entry_def)

lemma length_si_image: "length (si_image cs) = 16 * length cs + 8"
  using length_concat_const [of cs "\<lambda>(k, b). le_bytes 8 (ucast k :: 64 word) @ le_bytes 8 b" 16] by (simp add: si_image_eq split_beta)

locale block_budget =
  fixes R :: "nat \<Rightarrow> ndb \<Rightarrow> bool"
  assumes mono: "monotone_in R"
    and emit: "length data \<le> kMaxBlockData \<Longrightarrow> live R 1 (\<lambda>_. True) (emitBlock data i)"
begin

lemma emitXBlock_live: "length cs \<le> kXBlockFanout \<Longrightarrow> live R 1 (\<lambda>_. True) (emitXBlock cs l t)"
  unfolding emitXBlock_def
  by (rule emit) (use length_concat_const [of cs "le_bytes 8" 8] in \<open>simp add: xblock_image_eq\<close>)

lemma assemble_live:
  assumes "length leaves \<le> 1021 * 1021" "t \<le> 0xFFFFFFFF"
  shows "live R (length leaves div 1021 + 2) (\<lambda>_. True) (assembleDataTree leaves t)"
proof -
  consider (none) "leaves = []" | (one) "length leaves = 1" | (xb) "1 < length leaves" "length leaves \<le> kXBlockFanout"
    | (xxb) "kXBlockFanout < length leaves"
    by (metis length_0_conv less_one linorder_neqE_nat not_le)
  then show ?thesis
  proof cases
    case none
    then show ?thesis using live_weaken [OF mono emit [of "[]" False], of "length leaves div 1021 + 2"] by (simp add: assembleDataTree_def)
  next
    case one
    then show ?thesis by (auto simp: assembleDataTree_def live_ret mono)
  next
    case xb
    have "live R (0 + 1) (\<lambda>_. True) (bindM (throw_if (t > 0xFFFFFFFF) (PstError ''data tree larger than 4 GiB'')) (\<lambda>_. emitXBlock leaves 1 (ucast t)))"
      by (rule live_bind [OF live_throw_if [OF mono] emitXBlock_live]) (use xb assms(2) in simp_all)
    from live_weaken [OF mono this, of "length leaves div 1021 + 2"] show ?thesis using xb by (auto simp: assembleDataTree_def)
  next
    case xxb
    let ?ss = "xblock_slices leaves t" and ?one = "\<lambda>x :: bid list \<times> 32 word. 1 :: nat"
    have lss: "length ?ss \<le> 1021" using assms(1) unfolding length_xblock_slices by (intro length_chunks_le) simp_all
    have "length ?ss \<le> length leaves div 1021 + 1"
    proof -
      have "length leaves \<le> 1021 * (length leaves div 1021 + 1)" using dividend_less_times_div [of 1021 "length leaves"] by simp
      then show ?thesis unfolding length_xblock_slices by (intro length_chunks_le) simp_all
    qed
    then have cost: "0 + (sum_list (map ?one ?ss) + (0 + 1)) \<le> length leaves div 1021 + 2" by (simp add: sum_list_triv)
    have sl: "length s \<le> kXBlockFanout" if "(s, c) \<in> set ?ss" for s c
      using that chunks_bounds [of _ kXBlockFanout leaves]
      by (auto simp: xblock_slices_def enumerate_eq_zip dest: set_zip_rightD)
    have slices: "live R (sum_list (map ?one ?ss)) (list_all2 (\<lambda>_ (_ :: bid). True) ?ss) (mapM (\<lambda>(slice, covered). emitXBlock slice 1 covered) ?ss)"
      by (rule live_mapM [OF mono]) (use emitXBlock_live sl in auto)
    have "live R (0 + (sum_list (map ?one ?ss) + (0 + 1))) (\<lambda>_. True)
        (bindM (throw_if (t > 0xFFFFFFFF) (PstError ''data tree larger than 4 GiB'')) (\<lambda>_.
         bindM (mapM (\<lambda>(slice, covered). emitXBlock slice 1 covered) ?ss) (\<lambda>xblocks.
          bindM (throw_if (length xblocks > kXBlockFanout)
                  (PstError ''data tree needs more than two levels; not supported'')) (\<lambda>_.
            emitXBlock xblocks 2 (ucast t)))))"
    proof (rule live_bind [OF live_throw_if [OF mono] live_bind [OF slices]])
      fix xs assume "list_all2 (\<lambda>_ (_ :: bid). True) ?ss xs"
      then have "length xs \<le> kXBlockFanout" using lss by (simp add: list_all2_lengthD [symmetric])
      then show "live R (0 + 1) (\<lambda>_. True) (bindM (throw_if (length xs > kXBlockFanout)
                  (PstError ''data tree needs more than two levels; not supported'')) (\<lambda>_. emitXBlock xs 2 (ucast t)))"
        by (intro live_bind [OF live_throw_if [OF mono] emitXBlock_live]) simp_all
    qed (use assms(2) in simp)
    from live_weaken [OF mono this cost] show ?thesis using xxb by (auto simp: assembleDataTree_def)
  qed
qed

lemma writeData_live:
  assumes "length data \<le> 0xFFFFFFFF"
  shows "live R (data_cost (length data)) (\<lambda>_. True) (writeData data)"
proof (cases "length data \<le> kMaxBlockData")
  case True
  then show ?thesis using live_weaken [OF mono emit [OF True]] by (simp add: writeData_def data_cost_def)
next
  case False
  let ?cs = "chunks kMaxBlockData data" and ?one = "\<lambda>c :: bytes. 1 :: nat" and ?n = "length data"
  have lcs: "length ?cs \<le> 525315" by (rule length_chunks_le) (use assms in simp_all)
  have "?n \<le> kMaxBlockData * (?n div kMaxBlockData + 1)"
    using dividend_less_times_div [of kMaxBlockData ?n] by simp
  then have l: "length ?cs \<le> ?n div kMaxBlockData + 1" by (intro length_chunks_le) simp_all
  have fits: "length c \<le> kMaxBlockData" if "c \<in> set ?cs" for c using chunks_bounds [OF that] by simp
  have leaves: "live R (sum_list (map ?one ?cs)) (list_all2 (\<lambda>_ (_ :: bid). True) ?cs) (mapM writeLeafChunk ?cs)"
    by (rule live_mapM [OF mono]) (use emit fits in \<open>simp add: writeLeafChunk_def\<close>)
  have t: "(of_nat ?n :: 64 word) \<le> 0xFFFFFFFF" using assms by (simp add: word_le_nat_alt unat_small)
  have "live R (sum_list (map ?one ?cs) + (length ?cs div 1021 + 2)) (\<lambda>_. True)
      (bindM (mapM writeLeafChunk ?cs) (\<lambda>leaves. assembleDataTree leaves (of_nat ?n)))"
  proof (rule live_bind [OF leaves])
    fix ls assume "list_all2 (\<lambda>_ (_ :: bid). True) ?cs ls"
    then have "length ls = length ?cs" by (simp add: list_all2_lengthD)
    then show "live R (length ?cs div 1021 + 2) (\<lambda>_. True) (assembleDataTree ls (of_nat ?n))"
      using assemble_live [of ls "of_nat ?n"] t lcs by simp
  qed
  moreover have "sum_list (map ?one ?cs) + (length ?cs div 1021 + 2) \<le> data_cost ?n"
  proof -
    have "length ?cs div 1021 \<le> (?n div 8176 + 1) div 1021" using l by (intro div_le_mono) simp
    moreover have "?n div 8176 + 1 + (?n div 8176 + 1) div 1021 + 2 \<le> ?n div 4096 + 3" using False by simp
    ultimately show ?thesis using l by (simp add: sum_list_triv data_cost_def)
  qed
  ultimately show ?thesis using live_weaken [OF mono] False by (simp add: writeData_def)
qed

lemma writeSubnodes_live:
  assumes "length es \<le> kSiBlockFanout * kSlBlockFanout"
  shows "live R 512 (\<lambda>_. True) (writeSubnodes es)"
proof -
  let ?es = "sort_key sn_nid es" and ?one = "\<lambda>x :: subnode list. 1 :: nat"
  have sl: "live R 1 (\<lambda>_. True) (emit_sl xs)" if "length xs \<le> kSlBlockFanout" for xs
    unfolding emit_sl_def by (rule emit) (use that length_sl_image [of xs] in simp)
  consider (none) "es = []" | (sl) "es \<noteq> []" "length es \<le> kSlBlockFanout" | (si) "es \<noteq> []" "kSlBlockFanout < length es" by fastforce
  then show ?thesis
  proof cases
    case none
    then show ?thesis by (simp add: writeSubnodes_def live_ret mono)
  next
    case sl
    then show ?thesis using live_weaken [OF mono \<open>length ?es \<le> kSlBlockFanout \<Longrightarrow> live R 1 (\<lambda>_. True) (emit_sl ?es)\<close>]
      by (simp add: writeSubnodes_def)
  next
    case si
    let ?cs = "chunks kSlBlockFanout ?es"
    have lcs: "length ?cs \<le> kSiBlockFanout" by (rule length_chunks_le) (use assms in \<open>simp_all add: mult.commute\<close>)
    have children: "live R (sum_list (map ?one ?cs)) (list_all2 (\<lambda>_ (_ :: nid \<times> bid). True) ?cs) (mapM emit_child ?cs)"
    proof (rule live_mapM [OF mono])
      fix c assume "c \<in> set ?cs"
      then have "live R (1 + 0) (\<lambda>_. True) (emit_child c)"
        unfolding emit_child_def using chunks_bounds [of c kSlBlockFanout ?es] by (intro live_bind [OF sl live_ret [OF mono]]) simp_all
      then show "live R 1 (\<lambda>_. True) (emit_child c)" by simp
    qed
    have "live R (sum_list (map ?one ?cs) + (0 + 1)) (\<lambda>_. True) (bindM (mapM emit_child ?cs) (\<lambda>children.
          bindM (throw_if (length children > kSiBlockFanout)
                  (PstError ''subnode tree needs more than two levels; not supported'')) (\<lambda>_.
            emitBlock (si_image children) True)))"
    proof (rule live_bind [OF children])
      fix xs assume "list_all2 (\<lambda>_ (_ :: nid \<times> bid). True) ?cs xs"
      then have "length xs \<le> kSiBlockFanout" using lcs by (simp add: list_all2_lengthD [symmetric])
      then show "live R (0 + 1) (\<lambda>_. True) (bindM (throw_if (length xs > kSiBlockFanout)
                  (PstError ''subnode tree needs more than two levels; not supported'')) (\<lambda>_. emitBlock (si_image xs) True))"
        using length_si_image [of xs] by (intro live_bind [OF live_throw_if [OF mono] emit]) simp_all
    qed
    note run = this
    have cost: "sum_list (map ?one ?cs) + (0 + 1) \<le> 512" using lcs by (simp add: sum_list_triv)
    from live_weaken [OF mono run cost] show ?thesis using si by (simp add: writeSubnodes_def Let_def)
  qed
qed

end

text \<open>
  A file with room: the disk takes every write, and far fewer blocks are in it than the B-tree
  builder can index.
\<close>

definition spare :: "nat \<Rightarrow> ndb \<Rightarrow> bool" where
  "spare k d \<longleftrightarrow> roomy (2 ^ 36 + k) d \<and> length (bbt d) + k \<le> 2 ^ 34"

lemma spare_mono: "monotone_in spare"
  unfolding monotone_in_def spare_def using roomy_mono by fastforce

lemma emitBlock_bbt:
  assumes ok: "store_ok st" and len: "length data \<le> kMaxBlockData" and run: "emitBlock data i st = Some (Inr b, st')"
  shows "length (bbt st') = Suc (length (bbt st))"
  by (rule emitBlock_steps [OF ok len, of i]) (use run in \<open>auto simp: Let_def split: if_splits\<close>)

interpretation spare: block_budget spare
proof
  show "monotone_in spare" by (rule spare_mono)
  show "live spare 1 (\<lambda>_. True) (emitBlock data i)" if len: "length data \<le> kMaxBlockData" for data i
  proof (rule liveI)
    fix k st assume s: "spare (1 + k) st"
    then have "roomy (Suc (2 ^ 36 + k)) st" by (simp add: spare_def)
    from emitBlock_roomy [OF this len] obtain b st' where 1: "emitBlock data i st = Some (Inr b, st')" "roomy (2 ^ 36 + k) st'" by blast
    have "store_ok st" using s by (simp add: spare_def roomy_def)
    from emitBlock_bbt [OF this len 1(1)] s 1(2) have "spare k st'" by (simp add: spare_def)
    then show "\<exists>x s'. emitBlock data i st = Some (Inr x, s') \<and> spare k s' \<and> True" using 1(1) by blast
  qed
qed

subsection \<open>Subnodes\<close>

text \<open>\<open>b\<close> blocks and \<open>e\<close> entries are kept for others.\<close>

definition max_subnodes :: nat where
  "max_subnodes = kSiBlockFanout * kSlBlockFanout"

definition subs_live :: "nat \<Rightarrow> nat \<Rightarrow> nat \<Rightarrow> subs \<Rightarrow> bool" where
  "subs_live b e k u \<longleftrightarrow> spare (b + k) (sa_ndb u) \<and> length (sa_entries u) + e + k \<le> max_subnodes"

lemma subs_live_mono: "monotone_in (subs_live b e)"
  using spare_mono unfolding monotone_in_def subs_live_def by fastforce

lemma on_ndb_live:
  assumes "live spare c Q m"
  shows "live (subs_live b e) c Q (on_ndb m)"
  unfolding on_ndb_def
  by (rule live_zoom [OF live_later [OF assms, of b]]) (simp_all add: subs_live_def)

lemma adopt_live: "live (subs_live b e) 1 (\<lambda>_. True) (adopt d)"
proof (rule liveI)
  fix k s assume "subs_live b e (1 + k) s"
  moreover from this have "spare (b + k) (sa_ndb s)" using spare_mono unfolding monotone_in_def subs_live_def by fastforce
  ultimately show "\<exists>x s'. adopt d s = Some (Inr x, s') \<and> subs_live b e k s' \<and> True"
    by (simp add: adopt_def prog_simps subs_live_def)
qed

lemma add_subnode_live: "live (subs_live b e) 1 (\<lambda>_. True) (add_subnode n d sub)"
proof (rule liveI)
  fix k s assume "subs_live b e (1 + k) s"
  moreover from this have "spare (b + k) (sa_ndb s)" using spare_mono unfolding monotone_in_def subs_live_def by fastforce
  ultimately show "\<exists>x s'. add_subnode n d sub s = Some (Inr x, s') \<and> subs_live b e k s' \<and> True"
    by (simp add: add_subnode_def modM_def subs_live_def)
qed

lemma spill_live: "length data \<le> 0xFFFFFFFF \<Longrightarrow> live (subs_live b e) (data_cost (length data) + 1) (\<lambda>_. True) (spill data)"
  unfolding spill_def by (rule live_bind [OF on_ndb_live [OF spare.writeData_live] adopt_live])

lemma store_heap_live:
  assumes "length heap \<le> 0xFFFFFFFF"
  shows "live (subs_live b e) (data_cost (length heap) + 512) (\<lambda>_. True) (store_heap heap)"
proof -
  have few: "live (subs_live b e) 0 (\<lambda>es. length es \<le> max_subnodes) (getM sa_entries)"
    by (rule live_get [OF subs_live_mono]) (simp add: subs_live_def)
  have "live (subs_live b e) (data_cost (length heap) + (0 + (512 + 0))) (\<lambda>_. True) (store_heap heap)"
    unfolding store_heap_def
    by (intro live_bind [OF on_ndb_live [OF spare.writeData_live [OF assms]]] live_bind [OF few]
        live_bind [OF on_ndb_live [OF spare.writeSubnodes_live]] live_ret [OF subs_live_mono])
      (simp_all add: max_subnodes_def)
  then show ?thesis by simp
qed

subsection \<open>A heap over the subnodes\<close>

lemma length_serialize: "heap_ok h \<Longrightarrow> length (serialize h) \<le> kMaxBlockData * length (hblocks h)"
proof -
  assume ok: "heap_ok h"
  let ?l = "length (hblocks h) - 1"
  have l: "?l < length (hblocks h)" using ok by (simp add: heap_ok_def)
  have fill: "length (own_fill h) = 4" by (simp add: own_fill_def)
  have "length (heap_piece (own_fill h) h ?l) \<le> kMaxBlockData"
    using map_pos_bounds(2) [OF heap_block_fit [OF ok l]] unfolding length_heap_piece [OF ok l fill] block_len_def by simp
  moreover have "kMaxBlockData * ?l + kMaxBlockData = kMaxBlockData * length (hblocks h)" using l by (cases "length (hblocks h)") simp_all
  ultimately show ?thesis unfolding serialize_stream length_heap_stream [OF ok fill] by linarith
qed

text \<open>At most \<open>n\<close> blocks.\<close>

definition heap_in :: "nat \<Rightarrow> nat \<Rightarrow> heap \<Rightarrow> bool" where
  "heap_in n k h \<longleftrightarrow> n \<le> 2 ^ 16 \<and> heap_ok h \<and> length (hblocks h) + k \<le> n"

lemma alloc_in:
  assumes "heap_in n (Suc k) h" "length d \<le> maxAllocSize"
  shows "\<exists>x h'. alloc d h = Some (Inr x, h') \<and> heap_in n k h'"
proof -
  have ok: "heap_ok h" and ne: "hblocks h \<noteq> []" using assms(1) by (simp_all add: heap_in_def heap_ok_def)
  have "\<exists>x h'. alloc d h = Some (Inr x, h') \<and> length (hblocks h') \<le> Suc (length (hblocks h))"
    using assms by (cases "has_room h (length d)") (simp_all add: alloc_run [OF ne] Let_def grow_def put_item_def heap_in_def)
  then obtain x h' where 1: "alloc d h = Some (Inr x, h')" "length (hblocks h') \<le> Suc (length (hblocks h))" by blast
  then show ?thesis using alloc_inv [OF ok 1(1)] assms(1) by (auto simp: heap_in_def)
qed

interpretation hn_in: alloc_room alloc "heap_in n" for n
proof
  show "\<exists>k s'. alloc d s = Some (Inr k, s') \<and> heap_in n m s'" if "heap_in n (Suc m) s" "length d \<le> maxAllocSize" for m s d
    by (rule alloc_in [OF that])
qed (simp add: heap_in_def)

definition ltp_live :: "nat \<Rightarrow> nat \<Rightarrow> nat \<Rightarrow> nat \<Rightarrow> ltp \<Rightarrow> bool" where
  "ltp_live n b e k t \<longleftrightarrow> heap_in n k (lt_heap t) \<and> subs_live b e k (lt_subs t)"

lemma ltp_live_mono: "monotone_in (ltp_live n b e)"
  using subs_live_mono hn_in.room_mono unfolding monotone_in_def ltp_live_def by blast

lemma on_heap_live:
  assumes "\<And>k h. heap_in n (c + k) h \<Longrightarrow> \<exists>x h'. m h = Some (Inr x, h') \<and> heap_in n k h'"
  shows "live (ltp_live n b e) c (\<lambda>_. True) (on_heap m)"
proof (rule liveI)
  fix k t assume t: "ltp_live n b e (c + k) t"
  then have "heap_in n (c + k) (lt_heap t)" by (simp add: ltp_live_def)
  from assms [OF this] obtain x h' where "m (lt_heap t) = Some (Inr x, h')" "heap_in n k h'" by blast
  moreover have "subs_live b e k (lt_subs t)" using t subs_live_mono unfolding monotone_in_def ltp_live_def by (meson le_add2)
  ultimately show "\<exists>x s'. on_heap m t = Some (Inr x, s') \<and> ltp_live n b e k s' \<and> True" by (simp add: on_heap_run ltp_live_def)
qed

lemma heap_alloc_live: "length d \<le> maxAllocSize \<Longrightarrow> live (ltp_live n b e) 1 (\<lambda>_. True) (on_heap (alloc d))"
  by (rule on_heap_live) (use hn_in.room_put in simp)

lemma heap_bth_live:
  assumes "records_fit kb eb rs" "length rs \<le> 675 ^ 8"
  shows "live (ltp_live n b e) (2 * length rs + 1) (\<lambda>_. True) (on_heap (buildBth kb eb rs))"
  unfolding buildBth_def
proof (rule on_heap_live)
  fix k h assume "heap_in n (2 * length rs + 1 + k) h"
  then have "heap_in n (k + 2 * length rs + 1) h" by (simp add: ac_simps)
  from hn_in.buildBthInto_room [OF this assms] show "\<exists>x h'. buildBthInto alloc kb eb rs h = Some (Inr x, h') \<and> heap_in n k h'" .
qed

lemma on_subs_live: "live (subs_live b e) c Q m \<Longrightarrow> live (ltp_live n b e) c Q (on_subs m)"
  unfolding on_subs_def
  by (rule live_zoom, assumption) (auto simp: ltp_live_def intro: hn_in.room_mono)

text \<open>What placing a value costs.\<close>

definition place_cost :: "nat \<Rightarrow> nat" where
  "place_cost n = n div 4096 + 4"

lemma place_bytes_live: "length d \<le> 0xFFFFFFFF \<Longrightarrow> live (ltp_live n b e) (place_cost (length d)) (\<lambda>_. True) (place_bytes d)"
  unfolding place_bytes_def
  using live_weaken [OF ltp_live_mono heap_alloc_live [of d], of "place_cost (length d)"]
    live_weaken [OF ltp_live_mono on_subs_live [OF spill_live [of d]], of "place_cost (length d)"]
  by (simp add: place_cost_def data_cost_def)

lemma with_heap_live:
  assumes build: "\<And>b e. live (ltp_live (c + 1) b e) c (\<lambda>_. True) m" and c: "c < 2 ^ 16"
  shows "live (subs_live b e) c (\<lambda>stream. length stream \<le> kMaxBlockData * (c + 1)) (with_heap sig m)"
proof (rule liveI)
  fix k s assume s: "subs_live b e (c + k) s"
  have "ltp_live (c + 1) (b + k) (e + k) (c + 0) \<lparr>lt_heap = HeapNode_new sig, lt_subs = s\<rparr>"
    using s c HeapNode_new_ok by (simp add: ltp_live_def subs_live_def heap_in_def HeapNode_new_def add.commute add.left_commute)
  from liveD [OF build this] obtain root t where t: "m \<lparr>lt_heap = HeapNode_new sig, lt_subs = s\<rparr> = Some (Inr root, t)"
      "ltp_live (c + 1) (b + k) (e + k) 0 t" by blast
  have h: "heap_ok (setUserRoot root (lt_heap t))" using t(2) by (simp add: ltp_live_def heap_in_def)
  have n: "length (hblocks (setUserRoot root (lt_heap t))) \<le> c + 1" using t(2) by (simp add: ltp_live_def heap_in_def setUserRoot_def)
  have "length (serialize (setUserRoot root (lt_heap t))) \<le> kMaxBlockData * (c + 1)"
    using length_serialize [OF h] n by (meson le_trans mult_le_mono2)
  then show "\<exists>x s'. with_heap sig m s = Some (Inr x, s') \<and> subs_live b e k s' \<and> length x \<le> kMaxBlockData * (c + 1)"
    using t by (simp add: with_heap_def ltp_live_def subs_live_def add.assoc)
qed

end
