(* ===== verification/Object_Budget.thy ===== *)
theory Object_Budget
  imports Write_Budget
begin

section \<open>What an object costs\<close>

text \<open>
  The cost of serializing a property context and a table, from the sizes of their values; and of
  storing the heap that results.
\<close>

subsection \<open>A property context\<close>

definition pc_cost :: "pc \<Rightarrow> nat" where
  "pc_cost vs = sum_list (map (\<lambda>v. place_cost (length (pv_bytes v)) + 2) vs) + 1"

lemma pc_cost_member: "v \<in> set vs \<Longrightarrow> place_cost (length (pv_bytes v)) \<le> pc_cost vs"
  unfolding pc_cost_def using member_le_sum_list [of "place_cost (length (pv_bytes v)) + 2" "map (\<lambda>v. place_cost (length (pv_bytes v)) + 2) vs"] by force

lemma place_cost_small: "place_cost n \<le> 2 ^ 16 \<Longrightarrow> n \<le> 0xFFFFFFFF"
  by (simp add: place_cost_def)

lemma sum_list_ge_length: "\<forall>x \<in> set xs. k \<le> f x \<Longrightarrow> k * length xs \<le> sum_list (map f xs)" for f :: "'a \<Rightarrow> nat"
  by (induction xs) auto

lemma live_any: "monotone_in R \<Longrightarrow> live R c (\<lambda>_. True) (ret x)"
  by (rule live_ret) simp_all

lemma blocks_div: "n \<le> kMaxBlockData * j \<Longrightarrow> n div 4096 \<le> 2 * j"
  using div_le_mono [of n "4096 * (2 * j)" 4096] by simp

lemma pc_serialize_live:
  assumes few: "pc_cost vs < 2 ^ 16"
  shows "live (subs_live b e) (pc_cost vs) (\<lambda>stream. length stream \<le> kMaxBlockData * (pc_cost vs + 1)) (pc_serialize vs)"
  unfolding pc_serialize_def
proof (rule with_heap_live [OF _ few])
  fix b e
  let ?n = "pc_cost vs + 1" and ?c = "\<lambda>v. place_cost (length (pv_bytes v))"
  let ?Q = "\<lambda>(v :: pc_value) (r :: bth_record). length (bth_key r) = 2 \<and> length (bth_value r) = 6"
  have mono: "monotone_in (ltp_live ?n b e)" by (rule ltp_live_mono)
  have one_value: "live (ltp_live ?n b e) (?c v) (?Q v) (bindM (place_value v) (\<lambda>h. ret (pc_record v h)))" if v: "v \<in> set vs" for v
  proof -
    have "length (pv_bytes v) \<le> 0xFFFFFFFF" using pc_cost_member [OF v] few by (intro place_cost_small) simp
    then have "live (ltp_live ?n b e) (?c v) (\<lambda>_. True) (place_value v)"
      using place_bytes_live [of "pv_bytes v"] by (simp add: place_value_def live_any ltp_live_mono)
    from live_bind [OF this, of 0 "?Q v" "\<lambda>h. ret (pc_record v h)"] show ?thesis
      by (simp add: pc_record_def put16_def put32_def live_ret ltp_live_mono)
  qed
  have "live (ltp_live ?n b e) (sum_list (map ?c vs) + (2 * length vs + 1)) (\<lambda>_. True) (pc_build vs)"
    unfolding pc_build_def
  proof (rule live_bind [OF live_mapM [OF mono one_value]])
    fix rs assume "list_all2 ?Q vs rs"
    then have rs: "length rs = length vs" "records_fit 2 6 rs"
      by (auto simp: records_fit_def list_all2_conv_all_nth in_set_conv_nth)
    have "length vs \<le> pc_cost vs" using sum_list_ge_length [of vs 1 "\<lambda>v. ?c v + 2"] by (simp add: pc_cost_def)
    then have "length rs \<le> 675 ^ 8" using few rs(1) by simp
    from heap_bth_live [OF rs(2) this] show "live (ltp_live ?n b e) (2 * length vs + 1) (\<lambda>_. True) (on_heap (buildBth 2 6 rs))" by (simp add: rs(1))
  qed assumption
  moreover have "sum_list (map ?c vs) + (2 * length vs + 1) = pc_cost vs"
    unfolding pc_cost_def sum_list_addf by (simp add: sum_list_triv)
  ultimately show "live (ltp_live ?n b e) (pc_cost vs) (\<lambda>_. True) (pc_build vs)" by simp
qed

text \<open>The node: serialized and stored.\<close>

definition store_cost :: "nat \<Rightarrow> nat" where
  "store_cost c = c + (2 * (c + 1) + 3 + 512)"

lemma store_live:
  assumes c: "c < 2 ^ 16" and m: "\<And>b e. live (subs_live b e) c (\<lambda>stream. length stream \<le> kMaxBlockData * (c + 1)) m"
  shows "live (subs_live b e) (store_cost c) (\<lambda>_. True) (bindM m store_heap)"
  unfolding store_cost_def
proof (rule live_bind [OF m])
  fix x :: bytes assume x: "length x \<le> kMaxBlockData * (c + 1)"
  then have "length x div 4096 \<le> 2 * (c + 1)" by (rule blocks_div)
  then have "data_cost (length x) + 512 \<le> 2 * (c + 1) + 3 + 512" by (simp add: data_cost_def)
  moreover have "length x \<le> 0xFFFFFFFF" using x c by simp
  ultimately show "live (subs_live b e) (2 * (c + 1) + 3 + 512) (\<lambda>_. True) (store_heap x)"
    by (intro live_weaken [OF subs_live_mono store_heap_live]) simp_all
qed

lemma pc_node_live: "pc_cost vs < 2 ^ 16 \<Longrightarrow> live (subs_live b e) (store_cost (pc_cost vs)) (\<lambda>_. True) (pc_node vs)"
  unfolding pc_node_def by (rule store_live [OF _ pc_serialize_live])

subsection \<open>A table\<close>

definition row_cost_of :: "trow \<Rightarrow> nat" where
  "row_cost_of r = sum_list (map (\<lambda>c. place_cost (length (tc_bytes c))) (tr_cells r)) + 4"

definition table_cost :: "table \<Rightarrow> nat" where
  "table_cost t = sum_list (map row_cost_of (tb_rows t)) + 8"

lemma cell_field_live:
  assumes len: "length (tc_bytes (snd x)) \<le> 0xFFFFFFFF" and ok: "cell_ok tag (snd x)" "width (fst x) = column_width tag"
  shows "live (ltp_live n b e) (place_cost (length (tc_bytes (snd x)))) (\<lambda>f. \<forall>d. f = Some d \<longrightarrow> length d = width (fst x)) (cell_field x)"
proof -
  obtain c cell where x: "x = (c, cell)" by fastforce
  note mono = ltp_live_mono [of n b e]
  let ?R = "ltp_live n b e" and ?Q = "\<lambda>f. \<forall>d. f = Some d \<longrightarrow> length d = width c"
  have place: "live ?R (place_cost (length (tc_bytes cell))) (\<lambda>_. True) (if tc_bytes cell = [] then ret 0 else place_bytes (tc_bytes cell))"
    using place_bytes_live [of "tc_bytes cell"] len by (simp add: x live_any ltp_live_mono)
  have "live ?R (place_cost (length (tc_bytes cell)) + 0) ?Q
      (bindM (if tc_bytes cell = [] then ret 0 else place_bytes (tc_bytes cell)) (\<lambda>h. ret (Some (le_bytes 4 h))))"
    if "tc_present cell" "tc_variable cell"
    by (rule live_bind [OF place live_ret [OF mono]])
      (use that ok in \<open>auto simp: x cell_ok_def column_width_def split: if_splits\<close>)
  moreover have "?Q (Some (take (unat (col_cb c)) (tc_bytes cell)))" if "tc_present cell" "\<not> tc_variable cell"
    using that ok by (auto simp: x cell_ok_def split: if_splits)
  ultimately show ?thesis by (simp add: cell_field_def x live_ret ltp_live_mono)
qed

lemma table_row_live:
  assumes lay: "layout_ok tags l" "length tags \<le> 255" and cells: "list_all2 cell_ok tags (tr_cells r)"
    and len: "\<forall>c \<in> set (tr_cells r). length (tc_bytes c) \<le> 0xFFFFFFFF"
  shows "live (ltp_live n b e) (sum_list (map (\<lambda>c. place_cost (length (tc_bytes c))) (tr_cells r))) (\<lambda>b. length b = row_size l) (table_row l r)"
proof -
  let ?R = "ltp_live n b e" and ?xs = "zip (lay_columns l) (tr_cells r)"
  let ?Q = "\<lambda>x f. \<forall>d :: bytes. f = Some d \<longrightarrow> length d = width (fst x :: column)"
  note mono = ltp_live_mono [of n b e]
  have lc: "length (lay_columns l) = length tags" "length (tr_cells r) = length tags"
    using layout_okD(1) [OF lay(1)] cells by (auto dest: list_all2_lengthD)
  have "live ?R (place_cost (length (tc_bytes (snd x)))) (?Q x) (cell_field x)" if x: "x \<in> set ?xs" for x
  proof -
    obtain i where i: "i < length tags" "x = (lay_columns l ! i, tr_cells r ! i)" using x lc by (auto simp: set_zip)
    have "width (lay_columns l ! i) = column_width (tags ! i)"
      using layout_okD(6) [OF lay(1) i(1)] column_width_cases [of "tags ! i"] by auto
    then show ?thesis
      by (intro cell_field_live [of _ "tags ! i"]) (use i lc len list_all2_nthD [OF cells, of i] in auto)
  qed
  then have cells': "live ?R (sum_list (map (\<lambda>x. place_cost (length (tc_bytes (snd x)))) ?xs)) (list_all2 ?Q ?xs) (mapM cell_field ?xs)"
    by (rule live_mapM [OF mono])
  have "live ?R (sum_list (map (\<lambda>x. place_cost (length (tc_bytes (snd x)))) ?xs) + 0) (\<lambda>b. length b = row_size l) (table_row l r)"
    unfolding table_row_def
  proof (rule live_bind [OF cells' live_ret [OF mono]])
    fix fs assume fs: "list_all2 ?Q ?xs fs"
    then have n: "length fs = length tags" using lc by (auto dest: list_all2_lengthD)
    show "length (render_row l fs) = row_size l"
      by (rule render_row_law(1) [OF lay n]) (use list_all2_nthD [OF fs] lc in auto)
  qed
  moreover have "map (\<lambda>x. place_cost (length (tc_bytes (snd x)))) ?xs = map (\<lambda>c. place_cost (length (tc_bytes c))) (tr_cells r)"
    using lc by (intro nth_equalityI) simp_all
  ultimately show ?thesis by simp
qed

lemma length_pad_rows_blocks:
  assumes "0 < n" "n \<le> kMaxBlockData" "length m \<le> n * k"
  shows "length (pad_rows n m) \<le> kMaxBlockData * (k + 1)"
  using assms
proof (induction n m arbitrary: k rule: pad_rows.induct)
  case (1 n m)
  show ?case
  proof (cases "length m \<le> n")
    case True
    then show ?thesis using 1(3) by (subst pad_rows.simps) simp
  next
    case False
    then obtain j where k: "k = Suc j" using 1(4) by (cases k) simp_all
    have "length (pad_rows n (drop n m)) \<le> kMaxBlockData * (j + 1)"
      by (rule 1(1)) (use False 1(2-4) k in auto)
    moreover have "length (pad_rows n m) = kMaxBlockData + length (pad_rows n (drop n m))"
      using False 1(2,3) by (subst pad_rows.simps) simp
    ultimately show ?thesis using k by simp
  qed
qed

lemma place_rows_live:
  assumes rs: "0 < rs" "rs \<le> 2072" and m: "length m = rs * k" "k \<le> 2 ^ 16"
  shows "live (ltp_live n b e) (2 * k + 6) (\<lambda>_. True) (place_rows rs m)"
proof -
  let ?n = "kMaxBlockData div rs * rs"
  note mono = ltp_live_mono [of n b e]
  have "0 < kMaxBlockData div rs" using rs by (simp add: div_greater_zero_iff)
  then have "rs \<le> ?n" by (cases "kMaxBlockData div rs") simp_all
  then have "length m \<le> ?n * k" using m(1) by simp
  moreover have "0 < ?n" using rs by (simp add: div_greater_zero_iff)
  ultimately have len: "length (pad_rows ?n m) \<le> kMaxBlockData * (k + 1)"
    by (intro length_pad_rows_blocks) simp_all
  then have "length (pad_rows ?n m) div 4096 \<le> 2 * (k + 1)" by (rule blocks_div)
  then have cost: "data_cost (length (pad_rows ?n m)) + 1 \<le> 2 * k + 6" by (simp add: data_cost_def)
  have "length (pad_rows ?n m) \<le> 0xFFFFFFFF" using len m(2) by simp
  from live_weaken [OF mono on_subs_live [OF spill_live [OF this]] cost] live_weaken [OF mono heap_alloc_live [of m], of "2 * k + 6"]
  show ?thesis by (simp add: place_rows_def)
qed

lemma row_cost_member: "r \<in> set (tb_rows t) \<Longrightarrow> row_cost_of r \<le> table_cost t"
  unfolding table_cost_def using member_le_sum_list [of "row_cost_of r" "map row_cost_of (tb_rows t)"] by force

lemma cell_cost_member: "c \<in> set (tr_cells r) \<Longrightarrow> place_cost (length (tc_bytes c)) \<le> row_cost_of r"
  unfolding row_cost_of_def
  using member_le_sum_list [of "place_cost (length (tc_bytes c))" "map (\<lambda>c. place_cost (length (tc_bytes c))) (tr_cells r)"] by force

lemma tcinfo_fits: "tags_ok tags \<Longrightarrow> length (tcinfo (layout tags) index h) \<le> maxAllocSize"
  using read_tcinfo(2) [of "layout tags" index h] layout_rgib(1) [of tags] layout_okD(1) [OF layout_law(1), of tags]
  by (simp add: tags_ok_def maxAllocSize_def pageMapSize_def)

lemma table_serialize_live:
  assumes t: "table_ok t" and few: "table_cost t < 2 ^ 16"
  shows "live (subs_live b e) (table_cost t) (\<lambda>stream. length stream \<le> kMaxBlockData * (table_cost t + 1)) (table_serialize t)"
  unfolding table_serialize_def
proof (rule with_heap_live [OF _ few])
  fix b e
  let ?R = "ltp_live (table_cost t + 1) b e" and ?rows = "tb_rows t" and ?tags = "tb_columns t"
  let ?c = "\<lambda>r. sum_list (map (\<lambda>c. place_cost (length (tc_bytes c))) (tr_cells r))" and ?m = "length (tb_rows t)"
  define l where "l = layout ?tags"
  note mono = ltp_live_mono [of "table_cost t + 1" b e]
  have lay: "layout_ok ?tags l" using layout_law(1) [OF table_ok_layout [OF t]] by (simp add: l_def)
  have n: "length ?tags \<le> 255" using t by (simp add: table_ok_def)
  have rs: "0 < row_size l" "row_size l \<le> 2072" using layout_bounds [OF table_ok_layout [OF t]] by (simp_all add: l_def)
  have m: "4 * ?m \<le> table_cost t" using sum_list_ge_length [of ?rows 4 row_cost_of] by (simp add: table_cost_def row_cost_of_def)
  have rows: "live ?R (?c r) (\<lambda>b. length b = row_size l) (table_row l r)" if r: "r \<in> set ?rows" for r
  proof (rule table_row_live [OF lay n])
    show "list_all2 cell_ok ?tags (tr_cells r)" using t r by (simp add: table_ok_def)
    have "place_cost (length (tc_bytes c)) \<le> 2 ^ 16" if "c \<in> set (tr_cells r)" for c
      using cell_cost_member [OF that] row_cost_member [OF r] few by linarith
    then show "\<forall>c \<in> set (tr_cells r). length (tc_bytes c) \<le> 0xFFFFFFFF" using place_cost_small by blast
  qed
  have info: "length (tcinfo l index h) \<le> maxAllocSize" for index h
    unfolding l_def by (rule tcinfo_fits [OF table_ok_layout [OF t]])
  have idx: "records_fit 4 4 (map index_record (enumerate 0 ?rows))" by (rule index_records(1)) (use t m few in \<open>simp_all add: table_ok_def\<close>)
  have "live ?R (sum_list (map ?c ?rows) + ((2 * ?m + 6) + ((2 * ?m + 1) + 1))) (\<lambda>_. True) (table_build t)"
    unfolding table_build_def l_def [symmetric] Let_def
  proof (rule live_bind [OF live_mapM [OF mono rows]], assumption, intro live_bind)
    fix bs assume "list_all2 (\<lambda>_ (b :: bytes). length b = row_size l) ?rows bs"
    then have "length bs = ?m" "\<forall>b \<in> set bs. length b = row_size l" by (auto simp: list_all2_conv_all_nth in_set_conv_nth)
    then have "length (concat bs) = row_size l * ?m" using length_concat_const [of bs "\<lambda>b. b" "row_size l"] by simp
    then show "live ?R (2 * ?m + 6) (\<lambda>_. True) (if ?rows = [] then ret 0 else place_rows (row_size l) (concat bs))"
      using place_rows_live [OF rs, of "concat bs" ?m] m few by (simp add: live_any ltp_live_mono)
    show "live ?R (2 * ?m + 1) (\<lambda>_. True) (on_heap (buildBth 4 4 (map index_record (enumerate 0 ?rows))))"
      using heap_bth_live [OF idx] m few by simp
  qed (rule heap_alloc_live [OF info])
  moreover have "sum_list (map ?c ?rows) + ((2 * ?m + 6) + ((2 * ?m + 1) + 1)) = table_cost t"
  proof -
    have "sum_list (map row_cost_of ?rows) = sum_list (map ?c ?rows) + 4 * ?m"
      unfolding row_cost_of_def sum_list_addf by (simp add: sum_list_triv)
    then show ?thesis by (simp add: table_cost_def)
  qed
  ultimately show "live ?R (table_cost t) (\<lambda>_. True) (table_build t)" by simp
qed

lemma table_node_live: "table_ok t \<Longrightarrow> table_cost t < 2 ^ 16 \<Longrightarrow> live (subs_live b e) (store_cost (table_cost t)) (\<lambda>_. True) (table_node t)"
  unfolding table_node_def by (rule store_live [OF _ table_serialize_live])

end
