(* ===== verification/Message_Budget.thy ===== *)
theory Message_Budget
  imports Object_Budget
begin

section \<open>What a message costs\<close>

text \<open>
  The cost of a message is computed from its texts, its recipients and its attachments; within that
  budget the whole of it is built and stored.
\<close>

subsection \<open>Tables filled\<close>

definition fill_cost :: "nat \<Rightarrow> 32 word \<times> cell_op list \<Rightarrow> nat" where
  "fill_cost n r = 4 * n + 12 + sum_list (map (\<lambda>op. place_cost (length (tc_bytes (snd (op_cell op))))) (snd r))"

lemma sum_update: "f y \<le> f (xs ! i) + d \<Longrightarrow> sum_list (map f (xs[i := y])) \<le> sum_list (map f xs) + (d :: nat)"
proof (induction xs arbitrary: i)
  case (Cons x xs)
  show ?case
  proof (cases i)
    case 0
    then show ?thesis using Cons.prems by simp
  next
    case (Suc j)
    then show ?thesis using Cons.IH [of j] Cons.prems by simp
  qed
qed simp

lemma set_tcell_cost: "set_tcell row tag c t = Some (Inr (), t') \<Longrightarrow> table_cost t' \<le> table_cost t + place_cost (length (tc_bytes c))"
proof -
  assume "set_tcell row tag c t = Some (Inr (), t')"
  then obtain i where t': "t' = t\<lparr>tb_rows := (tb_rows t)[row := (tb_rows t ! row)\<lparr>tr_cells := (tr_cells (tb_rows t ! row))[i := c]\<rparr>]\<rparr>"
    by (auto simp: set_tcell_eq split: if_splits option.splits)
  have "row_cost_of ((tb_rows t ! row)\<lparr>tr_cells := (tr_cells (tb_rows t ! row))[i := c]\<rparr>) \<le> row_cost_of (tb_rows t ! row) + place_cost (length (tc_bytes c))"
    using sum_update [of "\<lambda>c. place_cost (length (tc_bytes c))" c "tr_cells (tb_rows t ! row)" i] by (simp add: row_cost_of_def)
  from sum_update [OF this] show ?thesis by (simp add: t' table_cost_def)
qed

lemma table_op_cost:
  "table_op row op t = Some (Inr (), t') \<Longrightarrow> table_cost t' \<le> table_cost t + place_cost (length (tc_bytes (snd (op_cell op))))"
  by (auto simp: table_op_eq split: prod.splits dest: set_tcell_cost)

lemma table_ops_cost:
  "forM (table_op row) ops t = Some (Inr (), t') \<Longrightarrow>
     table_cost t' \<le> table_cost t + sum_list (map (\<lambda>op. place_cost (length (tc_bytes (snd (op_cell op))))) ops)"
proof (induction ops arbitrary: t)
  case (Cons op ops)
  then obtain t1 where 1: "table_op row op t = Some (Inr (), t1)" and 2: "forM (table_op row) ops t1 = Some (Inr (), t')"
    by (auto simp: bindM_Inr_iff)
  show ?case using table_op_cost [OF 1] Cons.IH [OF 2] by simp
qed (simp add: ret_run)

lemma fill_row_cost:
  assumes "fill_row r t = Some (Inr (), t')"
  shows "table_cost t' \<le> table_cost t + fill_cost (length (tb_columns t)) r"
proof -
  obtain row_id ops where r: "r = (row_id, ops)" by fastforce
  let ?t = "t\<lparr>tb_rows := tb_rows t @ [\<lparr>tr_id = row_id, tr_cells = replicate (length (tb_columns t)) no_cell\<rparr>]\<rparr>"
  obtain i t1 t2 t3 where 1: "tc_setInt32 i PidTagLtpRowId row_id ?t = Some (Inr (), t1)" and 2: "tc_setInt32 i PidTagLtpRowVer 1 t1 = Some (Inr (), t2)"
      and 3: "forM (table_op i) ops t2 = Some (Inr (), t')"
    using assms by (auto simp: fill_row_def r addRow_def bindM_Inr_iff modM_def getM_def ret_def)
  have "sum_list (map (\<lambda>c. place_cost (length (tc_bytes c))) (replicate n no_cell)) = 4 * n" for n
    by (induction n) (simp_all add: no_cell_def place_cost_def)
  then have "table_cost ?t = table_cost t + 4 * length (tb_columns t) + 4" by (simp add: table_cost_def row_cost_of_def)
  moreover have "table_cost t1 \<le> table_cost ?t + 4" "table_cost t2 \<le> table_cost t1 + 4"
    using set_tcell_cost [OF 1 [unfolded tc_setInt32_def]] set_tcell_cost [OF 2 [unfolded tc_setInt32_def]]
    by (simp_all add: fixed_cell_def put32_def place_cost_def)
  ultimately show ?thesis using table_ops_cost [OF 3] by (simp add: fill_cost_def r)
qed

lemma fill_rows_cost:
  "forM fill_row rows t = Some (Inr (), t') \<Longrightarrow> table_cost t' \<le> table_cost t + sum_list (map (fill_cost (length (tb_columns t))) rows)"
proof (induction rows arbitrary: t)
  case (Cons r rows)
  then obtain t1 where 1: "fill_row r t = Some (Inr (), t1)" and 2: "forM fill_row rows t1 = Some (Inr (), t')"
    by (auto simp: bindM_Inr_iff)
  have "tb_columns t1 = tb_columns t"
    using fill_rows_ids [of "[r]" t t1] 1 by (simp add: bindM_run ret_run)
  then show ?case using fill_row_cost [OF 1] Cons.IH [OF 2] by simp
qed (simp add: ret_run)

subsection \<open>Setters\<close>

definition costs :: "setter list \<Rightarrow> nat \<Rightarrow> bool" where
  "costs fs n \<longleftrightarrow> (\<forall>pc. pc_cost (set_all fs pc) \<le> pc_cost pc + n)"

definition text_cost :: "'a list \<Rightarrow> nat" where
  "text_cost s = length s div 1024 + 6"

lemma pc_put_cost: "pc_cost (pc_put tag v pc) \<le> pc_cost pc + (place_cost (length (pv_bytes v)) + 2)"
  by (induction pc) (auto simp: pc_cost_def)

lemma costs_put: "costs [pc_put tag v] (place_cost (length (pv_bytes v)) + 2)"
  unfolding costs_def set_all_simps using pc_put_cost by blast

lemma costs_nil: "costs [] 0"
  by (simp add: costs_def set_all_simps)

lemma costs_append: "costs fs m \<Longrightarrow> costs gs n \<Longrightarrow> costs (fs @ gs) (m + n)"
proof -
  assume "costs fs m" "costs gs n"
  then have "pc_cost (set_all fs pc) \<le> pc_cost pc + m" "pc_cost (set_all gs (set_all fs pc)) \<le> pc_cost (set_all fs pc) + n" for pc
    by (simp_all add: costs_def)
  then have "pc_cost (set_all gs (set_all fs pc)) \<le> pc_cost pc + m + n" for pc by (meson add_le_mono1 le_trans)
  then show ?thesis by (simp add: costs_def set_all_simps add.assoc)
qed

lemma costs_cons: "costs [f] m \<Longrightarrow> costs fs n \<Longrightarrow> costs (f # fs) (m + n)"
  using costs_append [of "[f]" m fs n] by simp

lemma costs_if: "costs fs n \<Longrightarrow> costs (set_if c fs) n"
  by (simp add: set_if_def costs_def set_all_simps)

lemma costs_or: "costs fs m \<Longrightarrow> costs gs n \<Longrightarrow> costs (if c then fs else gs) (m + n)"
  unfolding costs_def by (cases c) (simp_all, metis add.assoc trans_le_add1, metis add.left_commute trans_le_add2)

lemma costs_weaken: "costs fs m \<Longrightarrow> m \<le> n \<Longrightarrow> costs fs n"
  unfolding costs_def by (meson add_le_mono le_refl le_trans)

lemma string_cost: "place_cost (length (string_bytes tag s)) + 2 \<le> text_cost s"
proof -
  have "length (string_bytes tag s) \<le> 4 * length s" using length_utf8ToUtf16le [of s] by (simp add: string_bytes_def)
  from div_le_mono [OF this, of 4096] show ?thesis by (simp add: place_cost_def text_cost_def)
qed

lemma costs_setters:
  "costs [setInt32 tag w] 6" "costs [setBool tag b] 6" "costs [setTime tag x] 6" "costs [setObject tag n sz] 6" "costs [setSpilledValue tag n] 6"
  "costs [setString tag s] (text_cost s)" "costs [setBinary tag d] (place_cost (length d) + 2)"
  "costs [setStringArray tag ss] (place_cost (length (string_array ss)) + 2)"
  unfolding setters_put
  by (rule costs_weaken [OF costs_put],
      use string_cost [of tag s] in \<open>simp add: inline_value_def bytes_value_def put64_def put32_def place_cost_def [of 8] place_cost_def [of 0]\<close>)+

lemmas costs_intros = costs_setters costs_nil costs_cons costs_append costs_or costs_if

text \<open>The fields of a message.\<close>

definition fields_cost :: "message_fields \<Rightarrow> nat" where
  "fields_cost m = text_cost (message_class m) + 2 * text_cost (m_subject m) + 4 * text_cost (body_text m) + text_cost (body_html m) +
     2 * text_cost (display_name (m_from m)) + text_cost (mb_email (m_from m)) + text_cost (joinMailboxes (m_to m)) +
     text_cost (joinMailboxes (m_cc m)) + text_cost (joinMailboxes (m_bcc m)) + text_cost (m_message_id m) + text_cost (m_in_reply_to m) +
     text_cost (header_blob m) + place_cost (length (string_array (m_keywords m))) + 200"

definition headers_cost :: "message_fields \<Rightarrow> nat" where
  "headers_cost m = (let g = merge_headers (m_headers m) in sum_list (map (\<lambda>key. text_cost (map_at (mg_merged g) key)) (mg_order g)))"

lemma rtf_cost: "place_cost (length (rtfFromPlainText s)) + 2 \<le> 2 * text_cost s"
proof -
  have "length (rtfFromPlainText s) \<le> 5 * length s + 200" by (rule length_rtf)
  also have "\<dots> \<le> 4096 * (2 * (length s div 1024) + 2)" using dividend_less_times_div [of 1024 "length s"] by simp
  finally have "length (rtfFromPlainText s) div 4096 \<le> 2 * (length s div 1024) + 2" using div_le_mono [of _ "4096 * (2 * (length s div 1024) + 2)" 4096] by fastforce
  then show ?thesis by (simp add: place_cost_def text_cost_def)
qed

lemma html_cost: "place_cost (length (bytes_of s)) + 2 \<le> text_cost s"
  using div_le_mono2 [of 1024 4096 "length s"] by (simp add: place_cost_def text_cost_def)

lemma id_cost: "length guid = 16 \<Longrightarrow> place_cost (length (entryId guid n)) = 4" "length guid = 16 \<Longrightarrow> place_cost (length (search_key guid n)) = 4"
  by (simp_all add: entryId_def put32_def length_search_key place_cost_def)

lemma text_setters_cost:
  "costs (text_setters m) (text_cost (message_class m) + 2 * text_cost (m_subject m) + 4 * text_cost (body_text m) + text_cost (body_html m) +
     2 * text_cost (display_name (m_from m)) + text_cost (mb_email (m_from m)) + text_cost (joinMailboxes (m_to m)) +
     text_cost (joinMailboxes (m_cc m)) + text_cost (joinMailboxes (m_bcc m)) + 30)"
  unfolding text_setters_def body_setters_def
  by (rule costs_weaken, (rule costs_intros)+)
    (use rtf_cost [of "body_text m"] html_cost [of "body_html m"] in \<open>auto simp: text_cost_def\<close>)

lemma flag_setters_cost: "costs (flag_setters m has) 36"
  unfolding flag_setters_def by (rule costs_weaken, (rule costs_intros)+) simp

lemma id_setters_cost: "length guid = 16 \<Longrightarrow> costs (id_setters guid m n emb) (text_cost (m_message_id m) + text_cost (m_in_reply_to m) + 18)"
  unfolding id_setters_def by (rule costs_weaken, (rule costs_intros)+) (simp add: id_cost)

lemma message_setters_cost:
  assumes guid: "length guid = 16" and kw: "costs kw (place_cost (length (string_array (m_keywords m))) + 2)"
  shows "costs (message_setters guid m has n emb c1 c2 kw) (fields_cost m)"
  unfolding message_setters_def
  by (rule costs_weaken, (rule text_setters_cost flag_setters_cost id_setters_cost [OF guid] kw costs_intros)+)
    (simp add: fields_cost_def)

subsection \<open>The property context of a message\<close>

definition bd_live :: "nat \<Rightarrow> nat \<Rightarrow> nat \<Rightarrow> build \<Rightarrow> bool" where
  "bd_live b e k s \<longleftrightarrow> subs_live b e k (bd_subs s)"

lemma bd_live_mono: "monotone_in (bd_live b e)"
  using subs_live_mono unfolding monotone_in_def bd_live_def by blast

lemma bd_on_subs_live: "live (subs_live b e) c Q m \<Longrightarrow> live (bd_live b e) c Q (bd_on_subs m)"
  unfolding bd_on_subs_def by (rule live_zoom, assumption) (simp_all add: bd_live_def)

lemma bd_on_names_live: "(\<And>n. Q (fst (f n))) \<Longrightarrow> live (bd_live b e) 0 Q (bd_on_names f)"
proof (rule liveI)
  fix k s assume Q: "\<And>n. Q (fst (f n))" and s: "bd_live b e (0 + k) s"
  obtain a n where f: "f (bd_names s) = (a, n)" by fastforce
  have "Q a" using Q [of "bd_names s"] by (simp add: f)
  then show "\<exists>x s'. bd_on_names f s = Some (Inr x, s') \<and> bd_live b e k s' \<and> Q x"
    using s by (simp add: bd_on_names_def f bd_live_def)
qed

lemma time_or_now_live: "live (bd_live b e) 0 (\<lambda>_. True) (time_or_now t)"
  by (rule liveI) (auto simp: time_or_now_def nowUnix_def ret_run bd_live_def)

lemma keyword_setters_live:
  "live (bd_live b e) 0 (\<lambda>kw. costs kw (place_cost (length (string_array (m_keywords m))) + 2)) (keyword_setters m)"
proof (cases "m_keywords m = []")
  case True
  then show ?thesis using costs_weaken [OF costs_nil] by (simp add: keyword_setters_def live_ret bd_live_mono)
next
  case False
  have "live (bd_live b e) (0 + 0) (\<lambda>kw. costs kw (place_cost (length (string_array (m_keywords m))) + 2))
      (bindM (bd_on_names (idForString kPsPublicStrings ''Keywords'')) (\<lambda>i.
           ret (set_if (i \<noteq> 0) [setStringArray (makeTag i kPtMvUnicode) (m_keywords m)])))"
    by (rule live_bind [OF bd_on_names_live [where Q = "\<lambda>_. True"]], simp) (rule live_ret [OF bd_live_mono], rule costs_if, rule costs_setters)
  then show ?thesis using False by (simp add: keyword_setters_def)
qed

lemma named_headers_live:
  "pc_cost pc \<le> n \<Longrightarrow> live (bd_live b e) 0 (\<lambda>pc'. pc_cost pc' \<le> n + sum_list (map (\<lambda>key. text_cost (map_at (mg_merged g) key)) keys)) (named_headers g keys pc)"
proof (induction keys arbitrary: pc n)
  case Nil
  then show ?case by (simp add: live_ret bd_live_mono)
next
  case (Cons key keys)
  let ?t = "text_cost (map_at (mg_merged g) key)"
  have "live (bd_live b e) (0 + 0) (\<lambda>pc'. pc_cost pc' \<le> n + sum_list (map (\<lambda>key. text_cost (map_at (mg_merged g) key)) (key # keys)))
      (named_headers g (key # keys) pc)"
    unfolding named_headers.simps
  proof (rule live_bind [OF bd_on_names_live [where Q = "\<lambda>_. True"]])
    fix i
    let ?pc = "setString (makeTag i kPtUnicode) (map_at (mg_merged g) key) pc"
    have "pc_cost ?pc \<le> n + ?t"
      using costs_setters(6) [of "makeTag i kPtUnicode" "map_at (mg_merged g) key", unfolded costs_def set_all_simps, rule_format, of pc] Cons.prems by linarith
    from Cons.IH [OF this]
    show "live (bd_live b e) 0 (\<lambda>pc'. pc_cost pc' \<le> n + sum_list (map (\<lambda>key. text_cost (map_at (mg_merged g) key)) (key # keys)))
        (if i = 0 then ret pc else named_headers g keys ?pc)"
      using Cons.prems by (simp add: live_ret bd_live_mono add.assoc)
  qed simp
  then show ?case by simp
qed

definition props_cost :: "message_fields \<Rightarrow> nat" where
  "props_cost m = 1 + fields_cost m + headers_cost m"

lemma message_pc_live:
  assumes guid: "length guid = 16"
  shows "live (bd_live b e) 0 (\<lambda>pc. pc_cost pc \<le> props_cost m) (message_pc guid m has n emb)"
proof -
  have "live (bd_live b e) (0 + (0 + (0 + 0))) (\<lambda>pc. pc_cost pc \<le> props_cost m) (message_pc guid m has n emb)"
    unfolding message_pc_def
  proof (intro live_bind [OF time_or_now_live] live_bind [OF keyword_setters_live])
    fix c1 c2 kw assume kw: "costs kw (place_cost (length (string_array (m_keywords m))) + 2)"
    have "pc_cost (set_all (message_setters guid m has n emb c1 c2 kw) []) \<le> 1 + fields_cost m"
      using message_setters_cost [OF guid kw, of has n emb c1 c2, unfolded costs_def, rule_format, of "[]"] by (simp add: pc_cost_def)
    from named_headers_live [OF this, where keys = "mg_order (merge_headers (m_headers m))" and g = "merge_headers (m_headers m)"]
    show "live (bd_live b e) 0 (\<lambda>pc. pc_cost pc \<le> props_cost m)
        (let pc = set_all (text_setters m @
           [setTime PR_MESSAGE_DELIVERY_TIME (unixToFiletime (delivered m)), setTime PR_CLIENT_SUBMIT_TIME (unixToFiletime (sent m)),
            setTime PR_CREATION_TIME (unixToFiletime c1), setTime PR_LAST_MODIFICATION_TIME (unixToFiletime c2)] @
           flag_setters m has @ kw @ id_setters guid m n emb) []
         in applyHeaderProperties pc m)"
      by (simp add: applyHeaderProperties_def message_setters_def set_all_simps Let_def props_cost_def headers_cost_def)
  qed
  then show ?thesis by simp
qed

subsection \<open>The parts of a message\<close>

lemma with_subs_live:
  assumes "\<And>b e. live (bd_live b e) c Q m"
  shows "live (bd_live b e) c Q (with_subs m)"
  unfolding with_subs_def
proof (rule liveI)
  fix k s assume s: "bd_live b e (c + k) s"
  let ?s = "s\<lparr>bd_subs := SubnodeAllocator_new (sa_ndb (bd_subs s))\<rparr>"
  have "bd_live (b + k) (e + k) (c + 0) ?s"
    using s by (simp add: bd_live_def subs_live_def SubnodeAllocator_new_def add.commute add.left_commute)
  from liveD [OF assms this] obtain x t where t: "m ?s = Some (Inr x, t)" "bd_live (b + k) (e + k) 0 t" "Q x" by blast
  have "bd_live b e k (t\<lparr>bd_subs := (bd_subs s)\<lparr>sa_ndb := sa_ndb (bd_subs t)\<rparr>\<rparr>)"
    using t(2) s by (simp add: bd_live_def subs_live_def)
  then show "\<exists>x s'. zoomM (\<lambda>s. s\<lparr>bd_subs := SubnodeAllocator_new (sa_ndb (bd_subs s))\<rparr>)
     (\<lambda>t s. t\<lparr>bd_subs := (bd_subs s)\<lparr>sa_ndb := sa_ndb (bd_subs t)\<rparr>\<rparr>) m s = Some (Inr x, s') \<and> bd_live b e k s' \<and> Q x"
    using t by (simp add: zoomM_def)
qed

text \<open>A table in a subnode.\<close>

lemma subnode_table_live:
  assumes "table_ok t" "table_cost t \<le> c" "c < 2 ^ 16"
  shows "live (bd_live b e) (store_cost c + 1) (\<lambda>_. True)
    (bindM (with_subs (bd_on_subs (table_node t))) (\<lambda>(data, sub). bd_on_subs (add_subnode n data sub)))"
proof (rule live_bind)
  have "store_cost (table_cost t) \<le> store_cost c" using assms(2) by (simp add: store_cost_def)
  then show "live (bd_live b e) (store_cost c) (\<lambda>_. True) (with_subs (bd_on_subs (table_node t)))"
    using assms by (intro live_weaken [OF bd_live_mono with_subs_live [OF bd_on_subs_live [OF table_node_live]]]) simp_all
qed (use bd_on_subs_live [OF add_subnode_live] in \<open>simp add: split_beta\<close>)

definition recipients_cost :: "message_fields \<Rightarrow> nat" where
  "recipients_cost m = 8 + sum_list (map (\<lambda>r. fill_cost 14 (recipient_cells r)) (recipients m))"

lemma recipient_table_live:
  assumes fit: "recipients_fit m" and few: "recipients_cost m < 2 ^ 16"
  shows "live (bd_live b e) (store_cost (recipients_cost m) + 1) (\<lambda>_. True) (recipient_table m)"
proof -
  let ?t0 = "new_table recipientColumns" and ?rows = "map recipient_cells (recipients m)"
  note cols = recipient_columns
  note ids = recipients_ids [OF fit]
  have "distinct (map tr_id (tb_rows ?t0) @ map fst ?rows)" using ids(1) cols by (simp add: comp_def)
  moreover have "\<forall>r \<in> set ?rows. row_ok (tb_columns ?t0) r" using ids(3) recipient_cells_ok by simp
  ultimately obtain t where t: "forM fill_row ?rows ?t0 = Some (Inr (), t)" "table_ok t"
    using fill_rows_cells [of ?t0 ?rows] cols by auto
  have rows: "forM add_recipient rs = forM fill_row (map recipient_cells rs)" for rs
    by (induction rs) (simp_all add: add_recipient_eq)
  have "length (tb_columns ?t0) = 14" "table_cost ?t0 = 8" using cols by (simp_all add: recipientColumns_def table_cost_def)
  then have "table_cost t \<le> recipients_cost m" using fill_rows_cost [OF t(1)] by (simp add: recipients_cost_def comp_def)
  from subnode_table_live [OF t(2) this few] have "live (bd_live b e) (0 + (store_cost (recipients_cost m) + 1)) (\<lambda>_. True) (recipient_table m)"
    unfolding recipient_table_def
    by (intro live_bind [where Q = "\<lambda>t'. t' = t"] live_local [OF bd_live_mono, of _ _ "()"]) (simp_all add: rows t(1))
  then show ?thesis by simp
qed

text \<open>An attachment: its payload, its node, its row.\<close>

definition attachment_pc_cost :: "nat \<Rightarrow> 'm attachment \<Rightarrow> nat" where
  "attachment_pc_cost i a =
     3 * text_cost (attachment_name i (at_filename a)) + text_cost (at_content_type a) + text_cost (at_content_id a) + 40"

definition attachment_cost :: "nat \<Rightarrow> nat attachment \<Rightarrow> nat" where
  "attachment_cost i a =
     (case at_embedded a of None \<Rightarrow> data_cost (length (at_data a)) + 1 | Some c \<Rightarrow> c + 1) + store_cost (attachment_pc_cost i a) + 1"

definition attachment_row_cost :: "nat \<Rightarrow> 'm attachment \<Rightarrow> nat" where
  "attachment_row_cost i a = fill_cost 10 (attachment_cells i a)"

lemma attachment_pc_cost:
  assumes "costs [f] 6"
  shows "pc_cost (f (attachment_pc i a)) \<le> attachment_pc_cost i a"
proof -
  have "costs (attachment_setters i a @ [f]) (attachment_pc_cost i a - 1)"
    unfolding attachment_setters_def Let_def
    by (rule costs_weaken, (rule assms costs_intros)+) (simp add: attachment_pc_cost_def)
  from this [unfolded costs_def, rule_format, of "[]"] show ?thesis
    by (simp add: attachment_pc_eq [symmetric] set_all_simps pc_cost_def [of "[]"]) (simp add: attachment_pc_cost_def)
qed

primrec message_cost :: "message \<Rightarrow> nat" where
  "message_cost (Message m as) =
     store_cost (recipients_cost m) + 1 +
     sum_list (map (\<lambda>(i, a). attachment_cost i a) (enumerate 0 (map (map_attachment message_cost) as))) +
     (store_cost (8 + sum_list (map (\<lambda>(i, a). attachment_row_cost i a) (enumerate 0 as))) + 1) +
     store_cost (props_cost m)"

text \<open>Building a message and storing it.\<close>

definition message_live :: "bytes \<Rightarrow> message \<Rightarrow> bool" where
  "message_live guid msg \<longleftrightarrow> (\<forall>n emb b e. live (bd_live b e) (message_cost msg) (\<lambda>_. True)
     (bindM (buildMessage guid msg n emb) (\<lambda>(heap, flags, size).
      bindM (bd_on_subs (store_heap heap)) (\<lambda>(data, sub). ret (data, sub, flags, size)))))"

lemma attachment_object_live:
  assumes inner: "\<And>msg. at_embedded a = Some msg \<Longrightarrow> message_live guid msg"
    and few: "attachment_cost i (map_attachment message_cost a) < 2 ^ 16"
  shows "live (bd_live b e) (case at_embedded (map_attachment message_cost a) of None \<Rightarrow> data_cost (length (at_data a)) + 1 | Some c \<Rightarrow> c + 1)
    (\<lambda>pc. pc_cost pc \<le> attachment_pc_cost i a) (attachment_object guid i a)"
proof -
  obtain filename content_type content_id inl dat emb where a: "a = Attachment filename content_type content_id inl dat emb" by (cases a)
  note mono = bd_live_mono [of b e]
  show ?thesis
  proof (cases emb)
    case None
    have "data_cost (length dat) < 2 ^ 16" using few by (simp add: attachment_cost_def a None)
    then have "length dat \<le> 0xFFFFFFFF" by (simp add: data_cost_def)
    from bd_on_subs_live [OF spill_live [OF this]]
    have "live (bd_live b e) (data_cost (length dat) + 1 + 0) (\<lambda>pc. pc_cost pc \<le> attachment_pc_cost i a) (attachment_object guid i a)"
      unfolding attachment_object_def a None attachment.case option.case
      by (rule live_bind) (intro live_ret [OF mono] attachment_pc_cost costs_setters)
    then show ?thesis by (simp add: a None)
  next
    case (Some msg)
    have "message_live guid msg" using inner by (simp add: a Some)
    let ?size = "\<lambda>(heap, flags, size :: 32 word). bindM (bd_on_subs (store_heap heap)) (\<lambda>(data, sub). ret (data, sub, size))"
      and ?full = "\<lambda>(heap, flags :: 32 word, size :: 32 word). bindM (bd_on_subs (store_heap heap)) (\<lambda>(data, sub). ret (data, sub, flags, size))"
    have "live (bd_live b e) (message_cost msg) (\<lambda>_. True) (bindM (buildMessage guid msg emb_nid True) ?size)" for b e
    proof -
      have "live (bd_live b e) (message_cost msg + 0) (\<lambda>_. True)
          (bindM (bindM (buildMessage guid msg emb_nid True) ?full) (\<lambda>(data, sub, flags, size). ret (data, sub, size)))"
        using \<open>message_live guid msg\<close> unfolding message_live_def
        by (intro live_bind [where Q = "\<lambda>_. True"]) (auto simp: split_beta live_ret bd_live_mono)
      moreover have "bindM (bindM (buildMessage guid msg emb_nid True) ?full) (\<lambda>(data, sub, flags, size). ret (data, sub, size)) =
          bindM (buildMessage guid msg emb_nid True) ?size"
        by (simp add: bindM_assoc case_prod_unfold)
      ultimately show ?thesis by simp
    qed
    from with_subs_live [OF this]
    have "live (bd_live b e) (message_cost msg + (1 + 0)) (\<lambda>pc. pc_cost pc \<le> attachment_pc_cost i a) (attachment_object guid i a)"
      unfolding attachment_object_def a Some attachment.case option.case
      by (rule live_bind) (unfold split_beta, rule live_bind [OF bd_on_subs_live [OF add_subnode_live]],
        rule live_ret [OF mono], rule attachment_pc_cost, rule costs_setters)
    then show ?thesis by (simp add: a Some)
  qed
qed

text \<open>The attachments from the \<open>i\<close>-th on.\<close>

definition table_so_far :: "nat \<Rightarrow> nat \<Rightarrow> table \<Rightarrow> bool" where
  "table_so_far i n at \<longleftrightarrow> table_ok at \<and> tb_columns at = [PidTagLtpRowId, PidTagLtpRowVer] @ attachmentColumns \<and>
     map tr_id (tb_rows at) = map attachment_nid [0..<i] \<and> table_cost at \<le> n"

lemma attachment_row_live:
  assumes at: "table_so_far i n at" and fit: "texts_fit a" "i < 2 ^ 20"
  shows "live (bd_live b e) 0 (table_so_far (Suc i) (n + attachment_row_cost i a)) (local_object at (attachment_row i a))"
proof -
  have T: "table_ok at" "tb_columns at = [PidTagLtpRowId, PidTagLtpRowVer] @ attachmentColumns"
      "map tr_id (tb_rows at) = map attachment_nid [0..<i]" "table_cost at \<le> n"
    using at by (simp_all add: table_so_far_def)
  have fresh: "fst (attachment_cells i a) \<notin> set (map tr_id (tb_rows at))"
  proof
    assume "fst (attachment_cells i a) \<in> set (map tr_id (tb_rows at))"
    then obtain j where "j < i" "attachment_nid i = attachment_nid j" unfolding T(3) by auto
    then show False using attachment_nids(3) [of i j] fit(2) by simp
  qed
  from fill_row_cells [OF T(1) fresh, unfolded T(2), OF attachment_cells_ok [OF fit]] obtain at' where
    at': "fill_row (attachment_cells i a) at = Some (Inr (), at')" "table_ok at'" "tb_columns at' = [PidTagLtpRowId, PidTagLtpRowVer] @ attachmentColumns"
      "map tr_id (tb_rows at') = map attachment_nid [0..<i] @ [attachment_nid i]"
    unfolding T(3) by auto
  have "length (tb_columns at) = 10" by (simp add: T(2) attachmentColumns_def)
  then have "table_cost at' \<le> n + attachment_row_cost i a"
    using fill_row_cost [OF at'(1)] T(4) by (simp add: attachment_row_cost_def)
  then have "table_so_far (Suc i) (n + attachment_row_cost i a) at'" using at' by (simp add: table_so_far_def)
  then show ?thesis by (intro live_local [OF bd_live_mono]) (simp_all add: attachment_row_eq at'(1))
qed

lemma build_attachments_Cons:
  "build_attachments guid i (a # as) at =
     bindM (with_subs (bindM (attachment_object guid i a) (\<lambda>apc. bd_on_subs (pc_node apc)))) (\<lambda>(data, sub).
     bindM (bd_on_subs (add_subnode (attachment_nid i) data sub)) (\<lambda>_.
     bindM (local_object at (attachment_row i a)) (\<lambda>at'. build_attachments guid (i + 1) as at')))"
  by (simp add: attachment_object_def)

lemma build_attachments_live:
  assumes "table_so_far i n at" "i + length as \<le> 2 ^ 20" "\<forall>a \<in> set as. texts_fit a"
    and "\<forall>a \<in> set as. \<forall>msg. at_embedded a = Some msg \<longrightarrow> message_live guid msg"
    and "sum_list (map (\<lambda>(i, a). attachment_cost i a) (enumerate i (map (map_attachment message_cost) as))) < 2 ^ 16"
  shows "live (bd_live b e) (sum_list (map (\<lambda>(i, a). attachment_cost i a) (enumerate i (map (map_attachment message_cost) as))))
    (table_so_far (i + length as) (n + sum_list (map (\<lambda>(i, a). attachment_row_cost i a) (enumerate i as)))) (build_attachments guid i as at)"
  using assms
proof (induction as arbitrary: i n at)
  case Nil
  then show ?case by (simp add: live_ret bd_live_mono)
next
  case (Cons a as)
  let ?c = "attachment_cost i (map_attachment message_cost a)" and ?cs = "sum_list (map (\<lambda>(i, a). attachment_cost i a) (enumerate (Suc i) (map (map_attachment message_cost) as)))"
  let ?p = "case at_embedded (map_attachment message_cost a) of None \<Rightarrow> data_cost (length (at_data a)) + 1 | Some c \<Rightarrow> c + 1"
  have few: "?c < 2 ^ 16" "?cs < 2 ^ 16" using Cons.prems(5) by simp_all
  have inner: "at_embedded a = Some msg \<Longrightarrow> message_live guid msg" for msg using Cons.prems(4) by auto
  have same: "attachment_pc_cost i (map_attachment message_cost a) = attachment_pc_cost i a" by (cases a) (simp add: attachment_pc_cost_def)
  have cost: "?c = ?p + store_cost (attachment_pc_cost i a) + 1" by (cases "at_embedded a") (simp_all add: attachment_cost_def same map_embedded)
  have pcs: "attachment_pc_cost i a < 2 ^ 16" using few(1) unfolding cost by (simp add: store_cost_def)
  have node: "live (bd_live b e) (store_cost (attachment_pc_cost i a)) (\<lambda>_. True) (bd_on_subs (pc_node pc))"
    if "pc_cost pc \<le> attachment_pc_cost i a" for pc b e
    using that pcs by (intro live_weaken [OF bd_live_mono bd_on_subs_live [OF pc_node_live]]) (simp_all add: store_cost_def)
  have one: "live (bd_live b e) (?p + store_cost (attachment_pc_cost i a)) (\<lambda>_. True)
      (with_subs (bindM (attachment_object guid i a) (\<lambda>apc. bd_on_subs (pc_node apc))))" for b e
    by (rule with_subs_live) (rule live_bind [OF attachment_object_live [OF inner few(1)] node])
  have row: "live (bd_live b e) 0 (table_so_far (Suc i) (n + attachment_row_cost i a)) (local_object at (attachment_row i a))"
    by (rule attachment_row_live [OF Cons.prems(1)]) (use Cons.prems(2,3) in simp_all)
  have rest: "live (bd_live b e) ?cs (table_so_far (i + length (a # as)) (n + sum_list (map (\<lambda>(i, a). attachment_row_cost i a) (enumerate i (a # as)))))
      (build_attachments guid (i + 1) as at')" if at': "table_so_far (Suc i) (n + attachment_row_cost i a) at'" for at'
    using Cons.IH [OF at'] Cons.prems few(2) by (simp add: add.assoc)
  have "live (bd_live b e) ((?p + store_cost (attachment_pc_cost i a)) + (1 + (0 + ?cs)))
      (table_so_far (i + length (a # as)) (n + sum_list (map (\<lambda>(i, a). attachment_row_cost i a) (enumerate i (a # as)))))
      (build_attachments guid i (a # as) at)"
    unfolding build_attachments_Cons
  proof (rule live_bind [OF one])
    fix nd :: "bid \<times> bid"
    obtain data sub where nd: "nd = (data, sub)" by fastforce
    show "live (bd_live b e) (1 + (0 + ?cs))
      (table_so_far (i + length (a # as)) (n + sum_list (map (\<lambda>(i, a). attachment_row_cost i a) (enumerate i (a # as)))))
      (case nd of (data, sub) \<Rightarrow> bindM (bd_on_subs (add_subnode (attachment_nid i) data sub)) (\<lambda>_.
        bindM (local_object at (attachment_row i a)) (\<lambda>at'. build_attachments guid (i + 1) as at')))"
      unfolding nd prod.case by (rule live_bind [OF bd_on_subs_live [OF add_subnode_live] live_bind [OF row rest]])
  qed
  then show ?case using cost by simp
qed

lemma buildMessage_live: "length guid = 16 \<Longrightarrow> message_fits msg \<Longrightarrow> message_cost msg < 2 ^ 16 \<Longrightarrow> message_live guid msg"
proof (induction msg)
  case (Message m as)
  have fit: "fields_fit m" "recipients_fit m" "length as < 2 ^ 20" "\<forall>a \<in> set as. texts_fit a"
      "\<And>a msg. a \<in> set as \<Longrightarrow> at_embedded a = Some msg \<Longrightarrow> message_fits msg"
    using Message.prems(2) by (auto simp: list_all_iff attachment_fits_def texts_fit_def map_embedded)
  let ?as = "sum_list (map (\<lambda>(i, a). attachment_cost i a) (enumerate 0 (map (map_attachment message_cost) as)))"
  let ?rows = "8 + sum_list (map (\<lambda>(i, a). attachment_row_cost i a) (enumerate 0 as))"
  have cost: "message_cost (Message m as) = store_cost (recipients_cost m) + 1 + ?as + (store_cost ?rows + 1) + store_cost (props_cost m)" by simp
  have few: "recipients_cost m < 2 ^ 16" "?as < 2 ^ 16" "?rows < 2 ^ 16" "props_cost m < 2 ^ 16"
    using Message.prems(3) unfolding cost by (simp_all add: store_cost_def)
  have inner: "message_live guid msg" if a: "a \<in> set as" "at_embedded a = Some msg" for a msg
  proof (rule Message.IH)
    show "a \<in> set as" by (rule a(1))
    show "msg \<in> set_attachment a" using a(2) by (cases a) auto
    show "length guid = 16" by (rule Message.prems(1))
    show "message_fits msg" by (rule fit(5) [OF a])
    obtain i where i: "i < length as" "as ! i = a" using a(1) by (auto simp: in_set_conv_nth)
    have "attachment_cost i (map_attachment message_cost a) \<in> set (map (\<lambda>(i, a). attachment_cost i a) (enumerate 0 (map (map_attachment message_cost) as)))"
      using i by (auto simp: in_set_enumerate_eq image_iff intro!: bexI [of _ "(i, map_attachment message_cost a)"])
    from member_le_sum_list [OF this] few(2) have "attachment_cost i (map_attachment message_cost a) < 2 ^ 16" by linarith
    then show "message_cost msg < 2 ^ 16" using a(2) by (cases a) (simp add: attachment_cost_def)
  qed
  have at0: "table_so_far 0 8 (new_table attachmentColumns)" using attachment_columns by (simp add: table_so_far_def table_cost_def)
  show ?case
    unfolding message_live_def
  proof (intro allI)
    fix n emb b e
    have atts: "live (bd_live b e) ?as (table_so_far (0 + length as) ?rows) (build_attachments guid 0 as (new_table attachmentColumns))"
      by (rule build_attachments_live [OF at0]) (use fit few inner in auto)
    have table: "live (bd_live b e) (store_cost ?rows + 1) (\<lambda>_. True) (attachment_table at)" if "table_so_far (0 + length as) ?rows at" for at
      unfolding attachment_table_def by (rule subnode_table_live) (use that few in \<open>simp_all add: table_so_far_def\<close>)
    have heap: "live (bd_live b e) (store_cost (props_cost m)) (\<lambda>_. True)
        (bindM (bd_on_subs (pc_serialize pc)) (\<lambda>heap. bindM (bd_on_subs (store_heap heap)) (\<lambda>(data, sub). ret (data, sub, mapi_flags m (as \<noteq> []), message_size m))))"
      if "pc_cost pc \<le> props_cost m" for pc
    proof -
      have run: "live (bd_live b e) (store_cost (pc_cost pc) + 0) (\<lambda>_. True)
          (bindM (bd_on_subs (pc_node pc)) (\<lambda>(data, sub). ret (data, sub, mapi_flags m (as \<noteq> []), message_size m)))"
        using that few(4) by (intro live_bind [OF bd_on_subs_live [OF pc_node_live]]) (simp_all add: split_beta live_ret bd_live_mono)
      have node: "bd_on_subs (pc_node pc) = bindM (bd_on_subs (pc_serialize pc)) (\<lambda>heap. bd_on_subs (store_heap heap))"
        by (rule ext) (auto simp: pc_node_def bd_on_subs_def zoomM_def bindM_def split: option.splits prod.splits sum.splits)
      have "store_cost (pc_cost pc) + 0 \<le> store_cost (props_cost m)" using that by (simp add: store_cost_def)
      from live_weaken [OF bd_live_mono run [unfolded node bindM_assoc] this, of "\<lambda>_. True"] show ?thesis by simp
    qed
    have eq: "bindM (buildMessage guid (Message m as) n emb) (\<lambda>(heap, flags, size).
        bindM (bd_on_subs (store_heap heap)) (\<lambda>(data, sub). ret (data, sub, flags, size))) =
      bindM (message_pc guid m (as \<noteq> []) n emb) (\<lambda>pc. bindM (recipient_table m) (\<lambda>_.
        bindM (build_attachments guid 0 as (new_table attachmentColumns)) (\<lambda>at. bindM (attachment_table at) (\<lambda>_.
        bindM (bd_on_subs (pc_serialize pc)) (\<lambda>heap. bindM (bd_on_subs (store_heap heap)) (\<lambda>(data, sub). ret (data, sub, mapi_flags m (as \<noteq> []), message_size m)))))))"
      by (simp add: bindM_assoc)
    have "live (bd_live b e) (0 + ((store_cost (recipients_cost m) + 1) + (?as + ((store_cost ?rows + 1) + store_cost (props_cost m))))) (\<lambda>_. True)
      (bindM (buildMessage guid (Message m as) n emb) (\<lambda>(heap, flags, size).
        bindM (bd_on_subs (store_heap heap)) (\<lambda>(data, sub). ret (data, sub, flags, size))))"
      unfolding eq
      by (rule live_bind [OF message_pc_live [OF Message.prems(1)]], rule live_bind [OF recipient_table_live [OF fit(2) few(1)]],
          rule live_bind [OF atts], rule live_bind [OF table], assumption, rule heap)
    then show "live (bd_live b e) (message_cost (Message m as)) (\<lambda>_. True) (bindM (buildMessage guid (Message m as) n emb) (\<lambda>(heap, flags, size).
        bindM (bd_on_subs (store_heap heap)) (\<lambda>(data, sub). ret (data, sub, flags, size))))"
      unfolding cost by (simp add: add.assoc)
  qed
qed

end
