(* ===== verification/Table_Budget.thy ===== *)
theory Table_Budget
  imports Message_Budget
begin

section \<open>What a streamed table costs\<close>

text \<open>
  Rows and the end of a table that goes to the file as it grows. What it may hold is bounded by the
  blocks a heap can number; \<open>bulk\<close> counts what it holds already.
\<close>

subsection \<open>The streaming heap\<close>

definition st_live :: "nat \<Rightarrow> nat \<Rightarrow> nat \<Rightarrow> streaming \<Rightarrow> bool" where
  "st_live n b k s \<longleftrightarrow> n \<le> 65000 \<and> (\<exists>h. streams s h) \<and> spare (b + k) (st_ndb s) \<and> sp_index (st_heap s) + k \<le> n"

lemma render_fits: "items_fit i (hb_items blk) \<Longrightarrow> length (renderBlock p blk i l) \<le> kMaxBlockData"
  using map_pos_bounds(2) [of i "hb_items blk" True]
  by (simp add: renderBlock_def length_hn_block block_len_def stream_fill_def)

lemma leaf_live:
  assumes "spare (Suc k) d" "length blk \<le> kMaxBlockData"
  shows "\<exists>b d'. writeLeafChunk blk d = Some (Inr b, d') \<and> spare k d'"
  using liveD [OF spare.emit [OF assms(2)], of k d False] assms(1) by (auto simp: writeLeafChunk_def)

lemma flushCurrent_live:
  assumes st: "spare (Suc k) (st_ndb s)" and fit: "items_fit (sp_index (st_heap s)) (hb_items (sp_current (st_heap s)))"
  shows "\<exists>b d. flushCurrent l s = Some (Inr (), \<lparr>st_ndb = d,
    st_heap = flushed (renderBlock (st_heap s) (sp_current (st_heap s)) (sp_index (st_heap s)) l) b (st_heap s)\<rparr>) \<and> spare k d"
proof -
  let ?blk = "renderBlock (st_heap s) (sp_current (st_heap s)) (sp_index (st_heap s)) l"
  obtain b d where "writeLeafChunk ?blk (st_ndb s) = Some (Inr b, d)" "spare k d"
    using leaf_live [OF st render_fits [OF fit]] by blast
  then show ?thesis
    by (intro exI [of _ b] exI [of _ d]) (cases s, simp add: flushCurrent_def Let_def prog_simps st_on_ndb_run flushed_def)
qed

lemma streams_block:
  assumes "streams s h"
  shows "items_fit 0 (hb_items (sp_block0 (st_heap s)))" "0 < sp_index (st_heap s) \<Longrightarrow> items_fit (sp_index (st_heap s)) (hb_items (sp_current (st_heap s)))"
  using assms heap_block_fit [of h 0] heap_block_fit [of h "sp_index (st_heap s)"] by (auto simp: streams_def Let_def)

lemma sheap_alloc_live:
  assumes s: "st_live n b (Suc k) s" and len: "length d \<le> maxAllocSize"
  shows "\<exists>x s'. sheap_alloc d s = Some (Inr x, s') \<and> st_live n b k s'"
proof -
  let ?p = "st_heap s" and ?i = "sp_index (st_heap s)"
  obtain h where h: "streams s h" using s by (auto simp: st_live_def)
  have sp: "spare (b + Suc k) (st_ndb s)" "?i + Suc k \<le> n" "n \<le> 65000" using s by (simp_all add: st_live_def)
  have weak: "spare (b + k) (st_ndb s)" using sp(1) spare_mono unfolding monotone_in_def by (meson add_le_mono le_refl le_SucI)
  have "\<exists>x s'. sheap_alloc d s = Some (Inr x, s') \<and> spare (b + k) (st_ndb s') \<and> sp_index (st_heap s') \<le> Suc ?i"
  proof (cases "?i = 0")
    case True
    then show ?thesis using len weak by (simp add: sheap_alloc_def prog_simps bindM_run put_current_def)
  next
    case i: False
    show ?thesis
    proof (cases "\<not> sheap_fits ?p ?i (length d) \<or> 2047 \<le> length (hb_items (sp_current ?p))")
      case True
      have "spare (Suc (b + k)) (st_ndb s)" using sp(1) by simp
      from flushCurrent_live [OF this streams_block(2) [OF h]] i obtain l f where
        f: "flushCurrent False s = Some (Inr (), \<lparr>st_ndb = f, st_heap = flushed (renderBlock ?p (sp_current ?p) ?i False) l ?p\<rparr>)" "spare (b + k) f"
        by blast
      then show ?thesis
        using True i len sp by (simp add: sheap_alloc_def prog_simps bindM_run put_current_def flushed_def)
    next
      case False
      then show ?thesis using i len weak by (auto simp: sheap_alloc_def prog_simps bindM_run put_current_def)
    qed
  qed
  then show ?thesis using sheap_alloc_sim [OF h] sp by (fastforce simp: st_live_def)
qed

interpretation st_bth: alloc_room sheap_alloc "st_live n b" for n b
proof
  show "\<exists>k s'. sheap_alloc d s = Some (Inr k, s') \<and> st_live n b m s'" if "st_live n b (Suc m) s" "length d \<le> maxAllocSize" for m s d
    by (rule sheap_alloc_live [OF that])
  show "st_live n b m s" if "st_live n b k s" "m \<le> k" for k s m
    using that spare_mono unfolding monotone_in_def st_live_def by (meson add_le_mono le_refl le_trans)
qed

lemma spare_le: "spare k d \<Longrightarrow> j \<le> k \<Longrightarrow> spare j d"
  using spare_mono unfolding monotone_in_def by blast

lemma small_total: "n \<le> 0xFFFFFFFF \<Longrightarrow> (of_nat n :: 64 word) \<le> 0xFFFFFFFF"
  by (simp add: word_le_nat_alt unat_small)

lemma assemble_leaves:
  assumes "spare (b + 68) d" "length ls \<le> 65001" "n \<le> 0xFFFFFFFF"
  shows "\<exists>x d'. assembleDataTree ls (of_nat n) d = Some (Inr x, d') \<and> spare b d'"
proof -
  have "length ls div 1021 + 2 \<le> 68" using div_le_mono [OF assms(2), of 1021] by simp
  then have "spare (length ls div 1021 + 2 + b) d" using spare_le [OF assms(1)] by simp
  then show ?thesis using liveD [OF spare.assemble_live [OF _ small_total [OF assms(3)]]] assms(2) by fastforce
qed

lemma sheap_finish_live:
  assumes s: "st_live n (b + 70) k s"
  shows "\<exists>x s'. sheap_finish s = Some (Inr x, s') \<and> spare b (st_ndb s')"
proof -
  let ?p = "st_heap s" and ?i = "sp_index (st_heap s)" and ?s = "upd_heap (\<lambda>p. p\<lparr>sp_finished := True\<rparr>) s"
  obtain h where h: "streams s h" using s by (auto simp: st_live_def)
  have S: "\<not> sp_finished ?p" "length (sp_leaves ?p) = max 1 ?i" "sp_total ?p = of_nat (kMaxBlockData * (?i - 1))"
    using h by (simp_all add: streams_def Let_def)
  have i: "?i \<le> 65000" and sp: "spare (Suc (b + 69)) (st_ndb s)"
    using s by (auto simp: st_live_def intro: spare_le)
  have b0: "length (renderBlock p (sp_block0 ?p) 0 l) \<le> kMaxBlockData" for p l by (rule render_fits [OF streams_block(1) [OF h]])
  show ?thesis
  proof (cases "?i = 0")
    case True
    let ?blk = "renderBlock (?p\<lparr>sp_finished := True\<rparr>) (sp_block0 ?p) 0 True"
    obtain x d where x: "writeLeafChunk ?blk (st_ndb s) = Some (Inr x, d)" "spare (b + 69) d" using leaf_live [OF sp b0] by blast
    have "spare (b + 68) d" by (rule spare_le [OF x(2)]) simp
    from assemble_leaves [OF this, of "(sp_leaves ?p)[0 := x]" "length ?blk"] b0 [of "?p\<lparr>sp_finished := True\<rparr>" True] S(2) True
    obtain y d' where "assembleDataTree ((sp_leaves ?p)[0 := x]) (of_nat (length ?blk)) d = Some (Inr y, d')" "spare b d'" by fastforce
    then show ?thesis using True S x(1) by (simp add: sheap_finish_def prog_simps bindM_run st_on_ndb_run Let_def)
  next
    case False
    let ?one = "renderBlock (?p\<lparr>sp_finished := True\<rparr>) (sp_current ?p) ?i True"
    have cur: "items_fit ?i (hb_items (sp_current ?p))" using streams_block(2) [OF h] False by simp
    obtain l d where f: "flushCurrent True ?s = Some (Inr (), \<lparr>st_ndb = d, st_heap = flushed ?one l (?p\<lparr>sp_finished := True\<rparr>)\<rparr>)" "spare (b + 69) d"
      using flushCurrent_live [of "b + 69" ?s True] sp cur by auto
    let ?q = "flushed ?one l (?p\<lparr>sp_finished := True\<rparr>)"
    let ?two = "renderBlock ?q (sp_block0 ?p) 0 False"
    have q: "sp_block0 ?q = sp_block0 ?p" "sp_leaves ?q = sp_leaves ?p @ [l]" "sp_total ?q = sp_total ?p + of_nat (length ?one)"
      by (simp_all add: flushed_def)
    have "spare (Suc (b + 68)) d" by (rule spare_le [OF f(2)]) simp
    then obtain x d1 where x: "writeLeafChunk ?two d = Some (Inr x, d1)" "spare (b + 68) d1" using leaf_live [OF _ b0] by blast
    let ?n = "kMaxBlockData * (?i - 1) + length ?one + length ?two"
    have "length ?one \<le> kMaxBlockData" by (rule render_fits [OF cur])
    then have n: "?n \<le> 0xFFFFFFFF" using b0 [of ?q False] i by simp
    have len: "length ((sp_leaves ?p @ [l])[0 := x]) \<le> 65001" using S(2) i False by simp
    have tot: "sp_total ?q + of_nat (length ?two) = of_nat ?n" using S(3) by (simp add: q(3))
    obtain y d' where y: "assembleDataTree ((sp_leaves ?p @ [l])[0 := x]) (of_nat ?n) d1 = Some (Inr y, d')" "spare b d'"
      using assemble_leaves [OF x(2) len n] by blast
    have "sheap_finish s = Some (Inr y, \<lparr>st_ndb = d', st_heap = ?q\<lparr>sp_leaves := (sp_leaves ?p @ [l])[0 := x], sp_total := of_nat ?n\<rparr>\<rparr>)"
      using False S(1) f(1) x(1) y(1) tot q by (simp add: sheap_finish_def prog_simps bindM_run st_on_ndb_run Let_def)
    then show ?thesis using y(2) by simp
  qed
qed

subsection \<open>Rows\<close>

definition bulk :: "twriter \<Rightarrow> nat" where
  "bulk w = sp_index (tw_heap w) + length (tw_entries w) + length (tw_row_leaves w) + 2 * tw_row_count w"

text \<open>What a value of that size costs, in the file or in what the table holds.\<close>

definition value_cost :: "bytes \<Rightarrow> nat" where
  "value_cost d = (if length d \<le> maxAllocSize then 1 else data_cost (length d) + 1)"

definition op_cost :: "cell_op \<Rightarrow> nat" where
  "op_cost op = (let c = snd (op_cell op) in if tc_variable c then value_cost (tc_bytes c) else 0)"

lemma tw_place_live:
  assumes g: "ghost k s g" and sp: "spare (value_cost d + b) (ts_ndb s)" and few: "bulk (ts_w s) + value_cost d \<le> 65000"
  shows "\<exists>h s'. tw_place d s = Some (Inr h, s') \<and> spare b (ts_ndb s') \<and> bulk (ts_w s') \<le> bulk (ts_w s) + value_cost d \<and> same_rows s s'"
proof -
  have weak: "spare b (ts_ndb s)" by (rule spare_le [OF sp]) simp
  consider "d = []" | (heap) "d \<noteq> []" "length d \<le> maxAllocSize" | (sub) "d \<noteq> []" "maxAllocSize < length d" by fastforce
  then show ?thesis
  proof cases
    case 1
    then show ?thesis using weak by (simp add: tw_place_def ret_run same_rows_def)
  next
    case heap
    let ?i = "sp_index (tw_heap (ts_w s))"
    have "st_live (Suc ?i) b (Suc 0) (ts_streaming s)"
      using g sp few heap by (auto simp: st_live_def ghost_def ts_streaming_def value_cost_def bulk_def)
    from sheap_alloc_live [OF this heap(2)] obtain x h where
      h: "sheap_alloc d (ts_streaming s) = Some (Inr x, h)" "spare b (st_ndb h)" "sp_index (st_heap h) \<le> Suc ?i"
      by (auto simp: st_live_def)
    then have "tw_place d s = Some (Inr x, \<lparr>ts_ndb = st_ndb h, ts_w = (ts_w s)\<lparr>tw_heap := st_heap h\<rparr>\<rparr>)"
      using heap by (simp add: tw_place_def tw_on_heap_run)
    then show ?thesis using h heap by (auto simp: bulk_def value_cost_def same_rows_def)
  next
    case sub
    have cost: "value_cost d = data_cost (length d) + 1" using sub by (simp add: value_cost_def)
    then have "length d \<le> 0xFFFFFFFF" using few by (simp add: data_cost_def)
    from spill_live [OF this] have live: "live (subs_live b 0) (data_cost (length d) + 1) (\<lambda>_. True) (spill d)" .
    have "subs_live b 0 (data_cost (length d) + 1 + 0) (ts_subs s)"
      using sp few by (simp add: subs_live_def ts_subs_def cost add.commute bulk_def max_subnodes_def)
    from liveD [OF live this] obtain x u where u: "spill d (ts_subs s) = Some (Inr x, u)" "spare b (sa_ndb u)" by (auto simp: subs_live_def)
    have "length (sa_entries u) = Suc (length (tw_entries (ts_w s)))"
      using u(1) by (auto simp: spill_def adopt_def on_ndb_def zoomM_def prog_simps bindM_Inr_iff ts_subs_def split: option.splits prod.splits)
    moreover have "tw_place d s = Some (Inr x, \<lparr>ts_ndb = sa_ndb u, ts_w = (ts_w s)\<lparr>tw_entries := sa_entries u, tw_next := sa_next u\<rparr>\<rparr>)"
      using sub u(1) by (simp add: tw_place_def tw_on_subs_run)
    ultimately show ?thesis using u(2) cost by (auto simp: bulk_def same_rows_def)
  qed
qed

lemma tw_column_found:
  assumes tab: "tab k s t g bs" and tag: "tag \<in> set (tb_columns t)"
  shows "\<exists>c. tw_column tag s = Some (Inr c, s)"
proof -
  have lay: "tw_layout (ts_w s) = layout (tb_columns t)" "tags_ok (tb_columns t)"
    using tab by (simp_all add: tab_def Let_def writer_ok_def)
  have ok: "layout_ok (tb_columns t) (layout (tb_columns t))" using layout_law(1) [OF lay(2)] .
  have tags: "map col_tag (lay_columns (layout (tb_columns t))) = tb_columns t"
    using layout_okD(1,5) [OF ok] by (intro nth_equalityI) simp_all
  obtain i where "index_from 0 tag (tb_columns t) = Some i" using index_from_mem [OF tag] by blast
  then show ?thesis by (simp add: tw_column_def columnIndex_def prog_simps lay tags)
qed

lemma op_live:
  assumes tab: "tab k s t g bs" and tag: "op_tag op \<in> set (tb_columns t)"
    and sp: "spare (op_cost op + b) (ts_ndb s)" and few: "bulk (ts_w s) + op_cost op \<le> 65000"
  shows "\<exists>s'. writer_op op s = Some (Inr (), s') \<and> spare b (ts_ndb s') \<and> bulk (ts_w s') \<le> bulk (ts_w s) + op_cost op"
proof -
  obtain tag c where op: "op_cell op = (tag, c)" by fastforce
  obtain col where col: "tw_column tag s = Some (Inr col, s)" using tw_column_found [OF tab, of tag] tag op by auto
  have g: "ghost k s g" using tab by (simp add: tab_def Let_def)
  show ?thesis
  proof (cases "tc_variable c")
    case True
    then have cost: "op_cost op = value_cost (tc_bytes c)" by (simp add: op_cost_def op)
    obtain h s1 where 1: "tw_place (tc_bytes c) s = Some (Inr h, s1)" "spare b (ts_ndb s1)" "bulk (ts_w s1) \<le> bulk (ts_w s) + op_cost op"
      using tw_place_live [OF g] sp few unfolding cost by blast
    then show ?thesis using True col by (simp add: writer_op_eq op bindM_run tw_poke_def modM_def bulk_def)
  next
    case False
    then have "op_cost op = 0" by (simp add: op_cost_def op)
    then show ?thesis using False col sp by (simp add: writer_op_eq op bindM_run tw_poke_def modM_def bulk_def)
  qed
qed

lemma ops_live:
  assumes "tab (k + length ops) s t g bs" "tw_in_row (ts_w s)" "\<forall>op \<in> set ops. op_ok op \<and> op_tag op \<in> set (tb_columns t)"
    and "spare (sum_list (map op_cost ops) + b) (ts_ndb s)" "bulk (ts_w s) + sum_list (map op_cost ops) \<le> 65000"
  shows "\<exists>s'. forM writer_op ops s = Some (Inr (), s') \<and> spare b (ts_ndb s') \<and> bulk (ts_w s') \<le> bulk (ts_w s) + sum_list (map op_cost ops)"
  using assms
proof (induction ops arbitrary: s t g)
  case Nil
  then show ?case by (simp add: ret_run)
next
  case (Cons op ops)
  let ?c = "sum_list (map op_cost ops)"
  have tab: "tab (Suc (k + length ops)) s t g bs" using Cons.prems(1) by simp
  have sp: "spare (op_cost op + (?c + b)) (ts_ndb s)" using Cons.prems(4) by (simp add: add.assoc)
  obtain s1 where 1: "writer_op op s = Some (Inr (), s1)" "spare (?c + b) (ts_ndb s1)" "bulk (ts_w s1) \<le> bulk (ts_w s) + op_cost op"
    using op_live [OF tab _ sp] Cons.prems(3,5) by auto
  obtain t1 g1 where t1: "table_op (tw_row_count (ts_w s)) op t = Some (Inr (), t1)" "tab (k + length ops) s1 t1 g1 bs" "tw_in_row (ts_w s1)"
    using op_law [OF tab Cons.prems(2) _ 1(1)] Cons.prems(3) by auto
  have "tb_columns t1 = tb_columns t" using t1(1) by (auto simp: table_op_eq split: prod.splits dest: set_tcell_ids)
  then have ops: "\<forall>op \<in> set ops. op_ok op \<and> op_tag op \<in> set (tb_columns t1)" using Cons.prems(3) by simp
  have few: "bulk (ts_w s1) + ?c \<le> 65000" using 1(3) Cons.prems(5) by simp
  obtain s2 where "forM writer_op ops s1 = Some (Inr (), s2)" "spare b (ts_ndb s2)" "bulk (ts_w s2) \<le> bulk (ts_w s1) + ?c"
    using Cons.IH [OF t1(2,3) ops 1(2) few] by blast
  then show ?case using 1 by (simp add: bindM_run)
qed

text \<open>A row: two fixed cells at its start, at its end perhaps a full block.\<close>

definition write_cost :: "32 word \<times> cell_op list \<Rightarrow> nat" where
  "write_cost r = sum_list (map op_cost (snd r)) + 3"

lemma endRow_live:
  assumes row: "tw_in_row (ts_w s)" and sp: "spare (Suc b) (ts_ndb s)"
  shows "\<exists>s'. endRow s = Some (Inr (), s') \<and> spare b (ts_ndb s') \<and> bulk (ts_w s') \<le> bulk (ts_w s) + 3"
proof -
  have weak: "spare b (ts_ndb s)" by (rule spare_le [OF sp]) simp
  let ?s = "upd_w (\<lambda>w. w\<lparr>tw_in_row := False\<rparr>) s"
  have "\<exists>s1. flushRowBlock False ?s = Some (Inr (), s1) \<and> spare b (ts_ndb s1) \<and> bulk (ts_w s1) \<le> bulk (ts_w s) + 1"
  proof (cases "tw_row_block (ts_w s) = []")
    case True
    then show ?thesis using weak by (simp add: flushRowBlock_def prog_simps bulk_def)
  next
    case False
    let ?blk = "resize_bytes kMaxBlockData (tw_row_block (ts_w s))"
    obtain x d where "writeLeafChunk ?blk (ts_ndb s) = Some (Inr x, d)" "spare b d"
      using leaf_live [OF sp, of ?blk] by auto
    then show ?thesis using False by (simp add: flushRowBlock_def bindM_run prog_simps tw_on_ndb_def zoomM_def bulk_def)
  qed
  then obtain s1 where s1: "flushRowBlock False ?s = Some (Inr (), s1)" "spare b (ts_ndb s1)" "bulk (ts_w s1) \<le> bulk (ts_w s) + 1" by blast
  show ?thesis
    using row s1 weak by (cases "tw_rows_per_block (ts_w s) * row_size (tw_layout (ts_w s)) < length (tw_row_block (ts_w s)) + row_size (tw_layout (ts_w s))")
      (simp_all add: endRow_def prog_simps bindM_run bulk_def)
qed

lemma write_row_live:
  assumes tab: "tab (k + row_cost r) s t g bs" and out: "\<not> tw_in_row (ts_w s)" and ops: "row_ok (tb_columns t) r" and t: "table_ok t"
    and sp: "spare (write_cost r + b) (ts_ndb s)" and few: "bulk (ts_w s) + write_cost r \<le> 65000"
  shows "\<exists>s'. write_row r s = Some (Inr (), s') \<and> spare b (ts_ndb s') \<and> bulk (ts_w s') \<le> bulk (ts_w s) + write_cost r"
proof -
  obtain row_id cells where r: "r = (row_id, cells)" by fastforce
  let ?c = "sum_list (map op_cost cells)"
  let ?s = "upd_w (\<lambda>w. w\<lparr>tw_in_row := True, tw_current_row := replicate (row_size (tw_layout w)) 0,
      tw_row_index := tw_row_index w @ [(row_id, of_nat (tw_row_count w))]\<rparr>) s"
  let ?t = "t\<lparr>tb_rows := tb_rows t @ [\<lparr>tr_id = row_id, tr_cells = replicate (length (tb_columns t)) no_cell\<rparr>]\<rparr>"
  let ?ids = "[SetInt32 PidTagLtpRowId row_id, SetInt32 PidTagLtpRowVer 1]"
  have tab2: "tab ((k + length cells) + length ?ids) ?s ?t g bs"
    using tab_new_row [OF tab out, of row_id] by (simp add: r)
  have "\<forall>op \<in> set ?ids. op_ok op \<and> op_tag op \<in> set (tb_columns ?t)"
    using t by (auto simp: op_ok_def cell_ok_def fixed_cell_def column_width_def fixedPropSize_def table_ok_def)
  moreover have "op_cost (SetInt32 tag w) = 0" for tag w by (simp add: op_cost_def fixed_cell_def)
  then have "sum_list (map op_cost ?ids) = 0" by simp
  ultimately obtain s1 where s1: "forM writer_op ?ids ?s = Some (Inr (), s1)" "spare (write_cost r + b) (ts_ndb s1)" "bulk (ts_w s1) \<le> bulk (ts_w s)"
    using ops_live [OF tab2 _ _, of "write_cost r + b"] sp few by (auto simp: bulk_def)
  have opened: "beginRow row_id s = Some (Inr (), s1)"
  proof -
    have "beginRow row_id s = forM writer_op ?ids ?s"
      using out by (simp add: beginRow_def prog_simps bindM_ret_right)
    then show ?thesis using s1(1) by simp
  qed
  have "tab (Suc (Suc (k + length cells))) s t g bs" using tab by (simp add: r)
  from beginRow_law [OF this opened] obtain t1 g1 where
    t1: "addRow row_id t = Some (Inr (tw_row_count (ts_w s)), t1)" "tab (k + length cells) s1 t1 g1 bs" "tw_in_row (ts_w s1)"
    by blast
  have "tb_columns t1 = tb_columns t"
    using t1(1) by (auto simp: addRow_def bindM_Inr_iff modM_def getM_def ret_def tc_setInt32_def dest!: set_tcell_ids)
  then have okc: "\<forall>op \<in> set cells. op_ok op \<and> op_tag op \<in> set (tb_columns t1)" using ops by (simp add: row_ok_def r)
  have sp1: "spare (?c + (3 + b)) (ts_ndb s1)" using s1(2) by (simp add: write_cost_def r add.assoc)
  have few1: "bulk (ts_w s1) + ?c \<le> 65000" using s1(3) few by (simp add: write_cost_def r)
  obtain s2 where s2: "forM writer_op cells s1 = Some (Inr (), s2)" "spare (3 + b) (ts_ndb s2)" "bulk (ts_w s2) \<le> bulk (ts_w s1) + ?c"
    using ops_live [OF t1(2,3) okc sp1 few1] by blast
  have in2: "tw_in_row (ts_w s2)" using ops_law [OF t1(2,3) _ s2(1)] okc by blast
  have "spare (Suc b) (ts_ndb s2)" by (rule spare_le [OF s2(2)]) simp
  from endRow_live [OF in2 this] obtain s3 where s3: "endRow s2 = Some (Inr (), s3)" "spare b (ts_ndb s3)" "bulk (ts_w s3) \<le> bulk (ts_w s2) + 3" by blast
  have "write_row r s = Some (Inr (), s3)" using opened s2(1) s3(1) by (simp add: write_row_def r bindM_run)
  then show ?thesis using s3(2,3) s2(3) s1(3) by (simp add: write_cost_def r)
qed


subsection \<open>The end of a table\<close>

lemma tab_block:
  assumes tab: "tab k s t g bs" and row: "\<not> tw_in_row (ts_w s)"
  shows "length (tw_row_block (ts_w s)) \<le> kMaxBlockData" "tw_row_bytes (ts_w s) = of_nat (kMaxBlockData * length (tw_row_leaves (ts_w s)))"
proof -
  let ?w = "ts_w s" and ?rs = "row_size (tw_layout (ts_w s))" and ?look = "lookup_block (ts_ndb s)"
  have T: "rows_stored ?look ?w bs" "tags_ok (tb_columns t)" "tw_layout ?w = layout (tb_columns t)"
      "tw_rows_per_block ?w = kMaxBlockData div ?rs" "length bs = tw_row_count ?w"
      "\<forall>i < tw_row_count ?w. row_shows g (tb_columns t) (tr_cells (tb_rows t ! i)) (bs ! i)"
    using tab row by (simp_all add: tab_def Let_def writer_ok_def)
  have len: "\<forall>b \<in> set bs. length b = ?rs" using T(3,5,6) by (auto simp: in_set_conv_nth row_shows_def in_row_def)
  obtain gs rest where gs: "bs = concat gs @ rest" "tw_row_block ?w = concat rest" "length rest \<le> tw_rows_per_block ?w"
      "map ?look (tw_row_leaves ?w) = map (\<lambda>g. Some (resize_bytes kMaxBlockData (concat g))) gs"
      "tw_row_bytes ?w = of_nat (kMaxBlockData * length gs)"
    using T(1) unfolding rows_stored_def by blast
  have "length (concat rest) = ?rs * length rest" using length_concat_const [of rest "\<lambda>b. b" ?rs] len gs(1) by simp
  also have "\<dots> \<le> ?rs * (kMaxBlockData div ?rs)" using gs(3) T(4) by (intro mult_le_mono2) simp
  also have "\<dots> \<le> kMaxBlockData" by (rule times_div_less_eq_dividend)
  finally show "length (tw_row_block ?w) \<le> kMaxBlockData" by (simp add: gs(2))
  have "length (tw_row_leaves ?w) = length gs" using gs(4) map_eq_imp_length_eq by blast
  then show "tw_row_bytes ?w = of_nat (kMaxBlockData * length (tw_row_leaves ?w))" using gs(5) by simp
qed

lemma rows_live:
  assumes tab: "tab k s t g bs" and row: "\<not> tw_in_row (ts_w s)" and sp: "spare (b + 69) (ts_ndb s)" and few: "bulk (ts_w s) \<le> 64990"
  shows "\<exists>s1 h s2. flushRowBlock True s = Some (Inr (), s1) \<and> (if tw_row_leaves (ts_w s1) = [] then ret 0
       else bindM (tw_on_ndb (assembleDataTree (tw_row_leaves (ts_w s1)) (tw_row_bytes (ts_w s1)))) (\<lambda>b. tw_on_subs (adopt b))) s1 = Some (Inr h, s2) \<and>
     spare b (ts_ndb s2) \<and> tw_heap (ts_w s2) = tw_heap (ts_w s) \<and> length (tw_entries (ts_w s2)) \<le> Suc (length (tw_entries (ts_w s)))"
proof -
  let ?w = "ts_w s"
  note blk = tab_block [OF tab row]
  have "\<exists>s1 n. flushRowBlock True s = Some (Inr (), s1) \<and> spare (b + 68) (ts_ndb s1) \<and> tw_heap (ts_w s1) = tw_heap ?w \<and>
      tw_entries (ts_w s1) = tw_entries ?w \<and> length (tw_row_leaves (ts_w s1)) \<le> 65001 \<and>
      tw_row_bytes (ts_w s1) = of_nat n \<and> n \<le> 0xFFFFFFFF"
  proof (cases "tw_row_block ?w = []")
    case True
    have "spare (b + 68) (ts_ndb s)" by (rule spare_le [OF sp]) simp
    then show ?thesis using True few blk(2)
      by (intro exI [of _ s] exI [of _ "kMaxBlockData * length (tw_row_leaves ?w)"]) (simp add: flushRowBlock_def prog_simps bulk_def)
  next
    case False
    have "spare (Suc (b + 68)) (ts_ndb s)" by (rule spare_le [OF sp]) simp
    from leaf_live [OF this blk(1)] obtain x d where x: "writeLeafChunk (tw_row_block ?w) (ts_ndb s) = Some (Inr x, d)" "spare (b + 68) d" by blast
    let ?n = "kMaxBlockData * length (tw_row_leaves ?w) + length (tw_row_block ?w)"
    have "?n \<le> 0xFFFFFFFF" using few blk(1) by (simp add: bulk_def)
    then show ?thesis using False x few blk(2)
      by (intro exI [of _ "\<lparr>ts_ndb = d, ts_w = ?w\<lparr>tw_row_leaves := tw_row_leaves ?w @ [x],
          tw_row_bytes := tw_row_bytes ?w + of_nat (length (tw_row_block ?w)), tw_row_block := []\<rparr>\<rparr>"] exI [of _ ?n])
        (simp add: flushRowBlock_def bindM_run prog_simps tw_on_ndb_def zoomM_def bulk_def)
  qed
  then obtain s1 n where s1: "flushRowBlock True s = Some (Inr (), s1)" "spare (b + 68) (ts_ndb s1)" "tw_heap (ts_w s1) = tw_heap ?w"
      "tw_entries (ts_w s1) = tw_entries ?w" "length (tw_row_leaves (ts_w s1)) \<le> 65001" "tw_row_bytes (ts_w s1) = of_nat n" "n \<le> 0xFFFFFFFF"
    by blast
  show ?thesis
  proof (cases "tw_row_leaves (ts_w s1) = []")
    case True
    have "spare b (ts_ndb s1)" by (rule spare_le [OF s1(2)]) simp
    then show ?thesis using True s1(1,3,4) by (intro exI [of _ s1]) (simp add: ret_run)
  next
    case False
    from assemble_leaves [OF s1(2,5,7)] obtain x d where
      x: "assembleDataTree (tw_row_leaves (ts_w s1)) (tw_row_bytes (ts_w s1)) (ts_ndb s1) = Some (Inr x, d)" "spare b d"
      unfolding s1(6) by blast
    let ?s = "s1\<lparr>ts_ndb := d\<rparr>"
    obtain h u where u: "adopt x (ts_subs ?s) = Some (Inr h, u)" "sa_ndb u = d" "length (sa_entries u) = Suc (length (tw_entries ?w))"
      by (simp add: adopt_def prog_simps ts_subs_def s1(4))
    then have "tw_on_subs (adopt x) ?s = Some (Inr h, \<lparr>ts_ndb = d, ts_w = (ts_w s1)\<lparr>tw_entries := sa_entries u, tw_next := sa_next u\<rparr>\<rparr>)"
      by (simp add: tw_on_subs_run)
    then show ?thesis using False x u s1(1,3)
      by (intro exI [of _ s1] exI [of _ h] exI) (auto simp: bindM_run tw_on_ndb_def zoomM_def)
  qed
qed

definition finish_cost :: "twriter \<Rightarrow> nat" where
  "finish_cost w = bulk w + 660"

lemma tw_finish_live:
  assumes tab: "tab (Suc k) s t g bs" and row: "\<not> tw_in_row (ts_w s)" and ids: "distinct (map tr_id (tb_rows t))"
    and sp: "spare (finish_cost (ts_w s) + b) (ts_ndb s)" and few: "bulk (ts_w s) \<le> 64990"
  shows "\<exists>nd s'. tw_finish s = Some (Inr nd, s') \<and> spare b (ts_ndb s')"
proof -
  let ?w = "ts_w s" and ?l = "layout (tb_columns t)" and ?rows = "tb_rows t"
  let ?recs = "map index_entry (sort_index (tw_row_index ?w))"
  let ?n = "2 * length ?recs + 1"
  have T: "tags_ok (tb_columns t)" "tw_layout ?w = ?l" "length ?rows = tw_row_count ?w"
      "tw_row_index ?w = map (\<lambda>i. (tr_id (?rows ! i), of_nat i)) [0..<length ?rows]"
    using tab row by (simp_all add: tab_def Let_def writer_ok_def del: upt_Suc)
  have rows32: "length ?rows < 2 ^ 32" using few T(3) by (simp add: bulk_def)
  have n: "length ?recs = tw_row_count ?w" by (simp add: T sort_index_def)
  have sp': "spare (((b + 512) + 70 + (?n + 1)) + 69) (ts_ndb s)"
    by (rule spare_le [OF sp], unfold n) (simp add: finish_cost_def bulk_def)
  from rows_live [OF tab row this few] obtain s1 h s2 where
      flush: "flushRowBlock True s = Some (Inr (), s1)"
      and rows: "(if tw_row_leaves (ts_w s1) = [] then ret 0
        else bindM (tw_on_ndb (assembleDataTree (tw_row_leaves (ts_w s1)) (tw_row_bytes (ts_w s1)))) (\<lambda>b. tw_on_subs (adopt b))) s1 = Some (Inr h, s2)"
      and s2: "spare ((b + 512) + 70 + (?n + 1)) (ts_ndb s2)" "tw_heap (ts_w s2) = tw_heap ?w" "length (tw_entries (ts_w s2)) \<le> Suc (length (tw_entries ?w))"
    by blast
  note w1 = flushRowBlock_rows [OF flush]
  obtain g1 where g1: "ghost k s2 g1" using rows_adopted [OF tab row rows32 flush rows] by blast
  let ?s2 = "upd_w (\<lambda>w. w\<lparr>tw_row_index := []\<rparr>) s2"
  have g2: "ghost k ?s2 g1" using g1 by (simp add: ghost_def ts_subs_def ts_streaming_def)
  have fit: "records_fit 4 4 ?recs" using index_entries(1) [OF ids rows32] by (simp add: T(4))
  have l8: "length ?recs \<le> 675 ^ 8" using few unfolding n by (simp add: bulk_def)
  have "st_live 65000 (b + 512 + 70) (1 + 2 * length ?recs + 1) (ts_streaming ?s2)"
    using g2 s2 few unfolding n by (auto simp: st_live_def ghost_def ts_streaming_def bulk_def)
  from st_bth.buildBthInto_room [OF this fit l8] obtain index u3 where
    u3: "buildBthInto sheap_alloc 4 4 ?recs (ts_streaming ?s2) = Some (Inr index, u3)" "st_live 65000 (b + 512 + 70) 1 u3" by blast
  have "length (tcinfo (tw_layout ?w) index h) \<le> maxAllocSize"
    using tcinfo_fits [OF T(1)] by (simp add: T(2))
  then obtain info u4 where u4: "sheap_alloc (tcinfo (tw_layout ?w) index h) u3 = Some (Inr info, u4)" "st_live 65000 (b + 512 + 70) 0 u4"
    using sheap_alloc_live [OF u3(2) [unfolded One_nat_def]] by blast
  have "st_live 65000 (b + 512 + 70) 0 (sheap_setUserRoot info u4)"
    using u4(2) streams_root by (fastforce simp: st_live_def sheap_setUserRoot_def)
  from sheap_finish_live [OF this] obtain data u5 where
    u5: "sheap_finish (sheap_setUserRoot info u4) = Some (Inr data, u5)" "spare (b + 512) (st_ndb u5)" by blast
  have "length (tw_entries (ts_w s2)) \<le> kSiBlockFanout * kSlBlockFanout" using s2(3) few by (simp add: bulk_def)
  from liveD [OF spare.writeSubnodes_live [OF this], of b "st_ndb u5"] u5(2) obtain sub d where
    sub: "writeSubnodes (tw_entries (ts_w s2)) (st_ndb u5) = Some (Inr sub, d)" "spare b d" by (auto simp: add.commute)
  have whole: "\<lparr>st_ndb = st_ndb u, st_heap = st_heap u\<rparr> = u" for u :: streaming by simp
  have fin: "sheap_finish \<lparr>st_ndb = st_ndb u4, st_heap = (st_heap u4)\<lparr>sp_root := info\<rparr>\<rparr> = Some (Inr data, u5)"
    using u5(1) by (cases u4) (simp add: sheap_setUserRoot_def)
  have "tw_finish s = Some (Inr \<lparr>nd_data = data, nd_sub = sub\<rparr>, \<lparr>ts_ndb = d, ts_w = (ts_w ?s2)\<lparr>tw_heap := st_heap u5\<rparr>\<rparr>)"
    using flush rows u3(1) u4(1) fin sub(1) w1
    by (simp add: tw_finish_def bindM_run prog_simps tw_on_heap_def tw_on_ndb_def zoomM_def ts_streaming_def whole sheap_setUserRoot_def)
  then show ?thesis using sub(2) by simp
qed

end
