(* ===== verification/Names_Budget.thy ===== *)
theory Names_Budget
  imports Table_Budget
begin

section \<open>What the name map may grow to\<close>

text \<open>
  The name map takes 4096 names at most; when the names of the headers are no longer than a limit,
  so is the map, whatever messages are added.
\<close>

subsection \<open>The names of a message\<close>

primrec names_within :: "nat \<Rightarrow> message \<Rightarrow> bool" where
  "names_within n (Message m as) \<longleftrightarrow> (\<forall>h \<in> set (m_headers m). length (rh_name h) \<le> n) \<and>
     list_all (\<lambda>a. at_embedded a \<noteq> Some False) (map (map_attachment (names_within n)) as)"

lemma merge_spelling:
  assumes "\<forall>h \<in> set hs. length (rh_name h) \<le> n"
  shows "length (map_at (mg_spelling (merge_headers hs)) key) \<le> n"
proof -
  have "\<forall>k v. mg_spelling (fold merge_header hs g) k = Some v \<longrightarrow> length v \<le> n" if "\<forall>k v. mg_spelling g k = Some v \<longrightarrow> length v \<le> n" for g
    using assms that
  proof (induction hs arbitrary: g)
    case (Cons h hs)
    have "\<forall>k v. mg_spelling (merge_header h g) k = Some v \<longrightarrow> length v \<le> n"
      using Cons.prems by (auto simp: merge_header_def Let_def split: option.splits)
    from Cons.IH [OF _ this] Cons.prems(1) show ?case by simp
  qed simp
  from this [of "\<lparr>mg_order = [], mg_merged = Map.empty, mg_spelling = Map.empty\<rparr>"]
  show ?thesis by (auto simp: merge_headers_def split: option.splits)
qed

abbreviation bd_small :: "nat \<Rightarrow> build \<Rightarrow> bool" where
  "bd_small n s \<equiv> names_small n (bd_names s)"

lemma names_on_subs: "keeps (bd_small n) (bd_on_subs m)"
  unfolding bd_on_subs_def by (rule keeps_zoomM [where Q = "\<lambda>_. True"]) (simp_all add: hoare_def split: sum.split)

lemma names_with_subs: "keeps (bd_small n) m \<Longrightarrow> keeps (bd_small n) (with_subs m)"
  unfolding with_subs_def by (rule keeps_zoomM) simp_all

lemma names_minted:
  "g \<in> {kPsPublicStrings, kPsInternetHeaders} \<Longrightarrow> length name \<le> n \<Longrightarrow> keeps (bd_small n) (bd_on_names (idForString g name))"
  using idForString_small [of n _ g name] by (intro hoareI) (force simp: bd_on_names_def split: prod.splits)+

lemma names_message_pc:
  assumes m: "\<forall>h \<in> set (m_headers m). length (rh_name h) \<le> n" and n: "8 \<le> n"
  shows "keeps (bd_small n) (message_pc guid m has k emb)"
proof -
  have time: "keeps (bd_small n) (time_or_now t)" for t
    by (rule hoareI) (auto simp: time_or_now_def nowUnix_def ret_def split: if_splits)
  have names: "keeps (bd_small n) (named_headers (merge_headers (m_headers m)) keys pc)" for keys pc
    by (induction keys arbitrary: pc) (auto intro!: hoare_intros names_minted merge_spelling [OF m])
  have keyword: "keeps (bd_small n) (bd_on_names (idForString kPsPublicStrings ''Keywords''))"
    by (rule names_minted) (use n in simp_all)
  show ?thesis
    unfolding message_pc_def Let_def keyword_setters_def applyHeaderProperties_def
    by (intro hoare_intros time names keyword) simp_all
qed

lemma names_buildMessage:
  assumes n: "8 \<le> n"
  shows "names_within n msg \<Longrightarrow> keeps (bd_small n) (buildMessage guid msg k embedded)"
    "list_all (\<lambda>a. at_embedded a \<noteq> Some False) (map (map_attachment (names_within n)) as) \<Longrightarrow> keeps (bd_small n) (build_attachments guid i as at)"
proof (induction guid msg k embedded and guid i as at rule: buildMessage_build_attachments.induct)
  case (1 guid m as k embedded)
  then show ?case
    by (auto intro!: hoare_intros names_message_pc [OF _ n] nodes.local_object names_with_subs names_on_subs
        simp: recipient_table_def attachment_table_def split: prod.splits)
next
  case (2 guid i at)
  then show ?case by (auto intro!: hoare_intros)
next
  case (3 guid i a as at)
  then show ?case
    by (cases a)
       (auto intro!: hoare_intros nodes.local_object names_with_subs names_on_subs split: prod.splits option.splits)
qed

subsection \<open>What the map costs\<close>

definition names_cost :: "nat \<Rightarrow> nat" where
  "names_cost n = 4 * n + 3600"

lemma encode_entry_length: "length (encode_entry e) = 8"
  by (simp add: encode_entry_def put16_def put32_def)

lemma entries_length: "length (concat (map encode_entry es)) = 8 * length es"
  using length_concat_const [of es encode_entry 8] by (simp add: encode_entry_length)

lemma names_pc_cost:
  assumes m: "names_small n m"
  shows "pc_cost (buildPropertyContext m) \<le> names_cost n"
proof -
  let ?bucket = "\<lambda>i. concat (map encode_entry (filter (\<lambda>e. entry_bucket e = i) (nm_entries m)))"
  let ?step = "\<lambda>i pc. if ?bucket i = [] then pc else setBinary (makeTag (of_nat (0x1000 + i)) kPtBinary) (?bucket i) pc"
  let ?pc0 = "setBinary PidTagNameidStreamString (nm_string_stream m) (setBinary PidTagNameidStreamEntry (concat (map encode_entry (nm_entries m)))
      (setBinary PidTagNameidStreamGuid (concat (map guid_bytes (nm_extra_guids m))) (setInt32 PidTagNameidBucketCount (of_nat kBucketCount) [])))"
  have put: "pc_cost (setBinary tag d pc) \<le> pc_cost pc + (length d div 4096 + 6)" for tag d pc
    using costs_setters(7) [of tag d, unfolded costs_def set_all_simps, rule_format, of pc] by (simp add: place_cost_def)
  have bucket: "length (?bucket i) \<le> 32768" for i
    using m order_trans [OF length_filter_le [of "\<lambda>e. entry_bucket e = i" "nm_entries m"], of kMaxNames] unfolding entries_length
    by (simp add: names_small_def)
  have "length (?bucket i) div 4096 \<le> 8" for i using div_le_mono [OF bucket [of i], of 4096] by simp
  then have step: "pc_cost (?step i pc) \<le> pc_cost pc + 14" for i pc
    using put [of "makeTag (of_nat (0x1000 + i)) kPtBinary" "?bucket i" pc] by (auto intro: le_trans)
  have fold: "pc_cost (fold ?step is pc) \<le> pc_cost pc + 14 * length is" for "is" pc
  proof (induction "is" arbitrary: pc)
    case (Cons i "is")
    show ?case using Cons.IH [of "?step i pc"] step [of i pc] by simp
  qed simp
  have "length (concat (map guid_bytes (nm_extra_guids m))) \<le> 4096"
    using m by (auto simp: names_small_def guid_bytes_def kPsInternetHeaders_def ps_guid_def put16_def put32_def)
  then have g: "length (concat (map guid_bytes (nm_extra_guids m))) div 4096 \<le> 1" by simp
  have e: "length (concat (map encode_entry (nm_entries m))) div 4096 \<le> 8"
    unfolding entries_length using m div_le_mono [of "8 * length (nm_entries m)" 32768 4096] by (simp add: names_small_def)
  have "length (nm_string_stream m) \<le> kMaxNames * (4 * n + 8)"
    using m mult_le_mono1 [of "length (nm_entries m)" kMaxNames "4 * n + 8"] unfolding names_small_def by linarith
  from div_le_mono [OF this, of 4096] have s: "length (nm_string_stream m) div 4096 \<le> 4 * n + 8" by simp
  have count: "pc_cost (setInt32 PidTagNameidBucketCount (of_nat kBucketCount) []) \<le> 7"
    using costs_setters(1) [unfolded costs_def set_all_simps, rule_format, of _ _ "[]"] by (simp add: pc_cost_def)
  have "pc_cost ?pc0 \<le> 4 * n + 50"
    by (rule le_trans [OF put], rule le_trans [OF add_le_mono1 [OF put]], rule le_trans [OF add_le_mono1 [OF add_le_mono1 [OF put]]])
      (use g e s count in linarith)
  moreover have "length [0..<kBucketCount] = 251" by simp
  ultimately have "pc_cost (fold ?step [0..<kBucketCount] ?pc0) \<le> 4 * n + 50 + 14 * 251"
    using fold [of "[0..<kBucketCount]" ?pc0] by linarith
  then show ?thesis by (simp add: buildPropertyContext_def Let_def names_cost_def del: upt_Suc)
qed

end
