(* ===== verification/Writer_Budget.thy ===== *)
theory Writer_Budget
  imports Names_Budget
begin

section \<open>The writer succeeds within a budget\<close>

text \<open>
  What a message, a folder and \<open>finish\<close> cost the writer; within the budget each of them returns, and
  what is left is left.
\<close>

subsection \<open>Steps on the file\<close>

definition pw_live :: "nat \<Rightarrow> pst \<Rightarrow> bool" where
  "pw_live k s \<longleftrightarrow> spare k (pw_ndb s)"

lemma pw_live_mono: "monotone_in pw_live"
  using spare_mono unfolding monotone_in_def pw_live_def by blast

lemma pw_on_ndb_live: "live spare c Q m \<Longrightarrow> live pw_live c Q (pw_on_ndb m)"
  unfolding pw_on_ndb_def by (rule live_zoom, assumption) (simp_all add: pw_live_def)

lemma spare_nodes [simp]: "spare k (d\<lparr>nbt := ns\<rparr>) = spare k d"
  by (simp add: spare_def roomy_def)

lemma addNode_live: "live spare 0 (\<lambda>_. True) (addNode n a b parent)"
  by (rule liveI) (simp add: addNode_def modM_def)

lemma pw_with_subs_live:
  assumes m: "\<And>b e. live (subs_live b e) c Q m" and c: "c \<le> max_subnodes"
  shows "live pw_live c Q (pw_with_subs m)"
proof (rule liveI)
  fix k s assume s: "pw_live (c + k) s"
  have "subs_live k 0 (c + 0) (SubnodeAllocator_new (pw_ndb s))"
    using s c by (simp add: pw_live_def subs_live_def SubnodeAllocator_new_def add.commute)
  from liveD [OF m this] obtain x u where "m (SubnodeAllocator_new (pw_ndb s)) = Some (Inr x, u)" "spare k (sa_ndb u)" "Q x"
    by (auto simp: subs_live_def)
  then show "\<exists>x s'. pw_with_subs m s = Some (Inr x, s') \<and> pw_live k s' \<and> Q x" by (auto simp: pw_with_subs_run pw_live_def)
qed

lemma writeNode_live:
  assumes "\<And>b e. live (subs_live b e) c (\<lambda>_. True) (bindM m store_heap)" "c \<le> 2 ^ 17"
  shows "live pw_live c (\<lambda>_. True) (writeNodeFromHeap n parent m)"
proof -
  have "c \<le> max_subnodes" using assms(2) by (simp add: max_subnodes_def)
  from live_bind [OF pw_with_subs_live [OF assms(1) this], of 0 "\<lambda>_. True" "\<lambda>(data, sub). pw_on_ndb (addNode n data sub parent)"]
  show ?thesis by (simp add: writeNodeFromHeap_def split_beta pw_on_ndb_live addNode_live)
qed

text \<open>Objects no larger than that.\<close>

abbreviation affordable :: "nat \<Rightarrow> bool" where
  "affordable c \<equiv> c \<le> 40000"

lemma store_cost_mono: "c \<le> n \<Longrightarrow> store_cost c \<le> store_cost n"
  by (simp add: store_cost_def)

lemma write_pc_live:
  assumes "pc_cost pc \<le> c" "affordable c"
  shows "live pw_live (store_cost c) (\<lambda>_. True) (writeNodeFromHeap n parent (pc_serialize pc))"
proof (rule writeNode_live)
  show "live (subs_live b e) (store_cost c) (\<lambda>_. True) (bindM (pc_serialize pc) store_heap)" for b e
    unfolding pc_node_def [symmetric]
    by (rule live_weaken [OF subs_live_mono pc_node_live]) (use assms store_cost_mono in simp_all)
qed (use assms in \<open>simp add: store_cost_def\<close>)

lemma write_table_live:
  assumes "table_ok t" "table_cost t \<le> c" "affordable c"
  shows "live pw_live (store_cost c) (\<lambda>_. True) (writeNodeFromHeap n parent (table_serialize t))"
proof (rule writeNode_live)
  show "live (subs_live b e) (store_cost c) (\<lambda>_. True) (bindM (table_serialize t) store_heap)" for b e
    unfolding table_node_def [symmetric]
    by (rule live_weaken [OF subs_live_mono table_node_live]) (use assms store_cost_mono in simp_all)
qed (use assms in \<open>simp add: store_cost_def\<close>)

subsection \<open>The nodes every store has\<close>

lemma no_rows_cost: "tb_rows t = [] \<Longrightarrow> table_cost t = 8"
  by (simp add: table_cost_def)

lemma templates_distinct: "\<forall>x \<in> set kTemplates. distinct ([PidTagLtpRowId, PidTagLtpRowVer] @ snd x) \<and> length (snd x) \<le> 250"
  by code_simp

lemma receive_columns: "\<forall>x \<in> set kTemplates. fst x = receive_folder_nid \<longrightarrow> snd x = [0x001A001F, 0x66050003]"
  by code_simp

lemma template_live:
  assumes x: "x \<in> set kTemplates"
  shows "live pw_live (store_cost 100) (\<lambda>_. True) (write_template x)"
proof -
  obtain n cols where x': "x = (n, cols)" by fastforce
  have cols: "table_ok (new_table cols)" "tb_columns (new_table cols) = [PidTagLtpRowId, PidTagLtpRowVer] @ cols" "tb_rows (new_table cols) = []"
    using new_table_columns [of cols] templates_distinct x by (auto simp: x')
  have rows: "live pw_live 0 (\<lambda>t. table_ok t \<and> table_cost t \<le> 100) (local_object (new_table cols) (template_rows n subtree))" for subtree
  proof (cases "n = receive_folder_nid")
    case False
    then show ?thesis
      using cols by (intro live_local [OF pw_live_mono, of _ _ "()" "new_table cols"]) (simp_all add: template_rows_def ret_run no_rows_cost)
  next
    case True
    let ?r = "(subtree, [SetString PR_MESSAGE_CLASS [], SetInt32 PR_PST_RECEIVE_FOLDER subtree])"
    have c: "cols = [0x001A001F, 0x66050003]" using receive_columns x True by (fastforce simp: x')
    have eq: "template_rows n subtree = fill_row ?r" by (simp add: template_rows_def True fill_row_def)
    have tags: "PR_MESSAGE_CLASS = 0x001A001F" "PR_PST_RECEIVE_FOLDER = 0x66050003" by code_simp+
    have ok: "row_ok (tb_columns (new_table cols)) ?r"
      using op_okI by (simp add: c cols(2) [unfolded c] row_ok_def tags) (simp add: tagType_def)
    have fresh: "fst ?r \<notin> set (map tr_id (tb_rows (new_table cols)))" by (simp add: cols(3))
    from fill_row_cells [OF cols(1) fresh ok] obtain t where t: "fill_row ?r (new_table cols) = Some (Inr (), t)" "table_ok t" by blast
    have "table_cost t \<le> 100"
      using fill_row_cost [OF t(1)] length_utf8ToUtf16le [of "[]"] by (simp add: cols(2,3) no_rows_cost fill_cost_def) (simp add: c place_cost_def fixed_cell_def variable_cell_def put32_def string_bytes_def)
    then show ?thesis using t by (intro live_local [OF pw_live_mono]) (simp_all add: eq)
  qed
  have "live pw_live (0 + (0 + store_cost 100)) (\<lambda>_. True) (write_template x)"
    unfolding write_template_def x' prod.case
    by (rule live_bind [OF live_get [OF pw_live_mono, where Q = "\<lambda>_. True"]], simp, rule live_bind [OF rows], rule write_table_live) simp_all
  then show ?thesis by simp
qed

lemma index_heaps:
  "\<forall>(n, sig, key) \<in> set [(kNidHmpGuidMap, kHnSigHmpGuid, 16), (kNidHmpIdMap, kHnSigHmpId, 4)].
     case index_heap key (HeapNode_new sig) of Some (Inr _, h) \<Rightarrow> length (serialize h) \<le> kMaxBlockData | _ \<Rightarrow> False"
  by code_simp

lemma index_live:
  assumes "x \<in> set [(kNidHmpGuidMap, kHnSigHmpGuid, 16), (kNidHmpIdMap, kHnSigHmpId, 4)]"
  shows "live pw_live 600 (\<lambda>_. True) (write_index x)"
proof -
  obtain n sig key where x: "x = (n, sig, key)" by (cases x)
  obtain h where h: "index_heap key (HeapNode_new sig) = Some (Inr (), h)" "length (serialize h) \<le> kMaxBlockData"
    using bspec [OF index_heaps assms] by (auto simp: x split: option.splits prod.splits sum.splits)
  have store: "live (subs_live b e) (0 + 600) (\<lambda>_. True) (bindM (ret (serialize h)) store_heap)" for b e
  proof (rule live_bind [OF live_ret [OF subs_live_mono]])
    fix d :: bytes assume d: "length d \<le> kMaxBlockData"
    then have "length d div 4096 \<le> 2" using div_le_mono [of "length d" 8192 4096] by simp
    then show "live (subs_live b e) 600 (\<lambda>_. True) (store_heap d)"
      using d by (intro live_weaken [OF subs_live_mono store_heap_live]) (simp_all add: data_cost_def)
  qed (rule h(2))
  have "live pw_live (0 + 600) (\<lambda>_. True) (write_index x)"
    unfolding write_index_def x prod.case
  proof (rule live_bind [OF live_local [OF pw_live_mono, where a = "()" and l' = h and Q = "\<lambda>h'. h' = h"]])
    show "live pw_live 600 (\<lambda>_. True) (writeNodeFromHeap n 0 (ret (serialize h')))" if "h' = h" for h'
      unfolding that by (rule writeNode_live) (use store in simp_all)
  qed (simp_all add: h(1))
  then show ?thesis by simp
qed

definition reserved_cost :: nat where
  "reserved_cost = 12000"

lemma reserved_live: "live pw_live reserved_cost (\<lambda>_. True) writeReservedNodes"
proof -
  let ?ix = "[(kNidHmpGuidMap, kHnSigHmpGuid, 16), (kNidHmpIdMap, kHnSigHmpId, 4 :: byte)]" and ?ns = "[kNidSearchManagementQ, 0xE41, 0xEC1, 0xF21]"
  have empty: "live pw_live (data_cost 0 + 0) (\<lambda>_. True) (pw_on_ndb (bindM (writeData []) (\<lambda>data. addNode kNidSearchActivityList data 0 0)))"
    using spare.writeData_live [of "[]"] by (intro pw_on_ndb_live live_bind [OF _ addNode_live]) simp_all
  have "live pw_live (sum_list (map (\<lambda>_. store_cost 100) kTemplates) + ((data_cost 0 + 0) + (0 + (sum_list (map (\<lambda>_. 600) ?ix) + sum_list (map (\<lambda>_. 0) ?ns)))))
      (\<lambda>_. True) writeReservedNodes"
    unfolding writeReservedNodes_def
    by (intro live_bind [OF live_forM [OF pw_live_mono template_live]] live_bind [OF empty] live_bind [OF pw_on_ndb_live [OF addNode_live]]
        live_bind [OF live_forM [OF pw_live_mono index_live]] live_forM [OF pw_live_mono pw_on_ndb_live [OF addNode_live]])
  then show ?thesis
    by (rule live_weaken [OF pw_live_mono]) (simp_all add: kTemplates_def store_cost_def data_cost_def reserved_cost_def)
qed

lemma message_store_live:
  assumes guid: "length (pw_guid s) = 16"
  shows "pc_cost (message_store_pc s) \<le> 200"
proof -
  have len: "length (entryId (pw_guid s) n) = 24" for n using guid by (simp add: entryId_def put32_def)
  have "\<exists>fs. message_store_pc s = set_all fs [] \<and> costs fs 150"
    unfolding message_store_pc_def Let_def
    by (intro exI conjI, rule refl, rule costs_weaken, (rule costs_intros)+) (simp add: place_cost_def guid text_cost_def len)
  then obtain fs where fs: "message_store_pc s = set_all fs []" "costs fs 150" by blast
  have "pc_cost (set_all fs []) \<le> pc_cost [] + 150" using fs(2) unfolding costs_def by blast
  then show ?thesis by (simp add: fs(1) pc_cost_def [of "[]"])
qed

subsection \<open>A message\<close>

text \<open>What a message costs the contents table of its folder, and what a folder's table has of that.\<close>

definition row_budget :: "message \<Rightarrow> nat" where
  "row_budget msg = write_cost (contents_cells (0, msg))"

definition load :: "nid \<Rightarrow> mail_log \<Rightarrow> nat" where
  "load f log = sum_list (map (\<lambda>(g, msg). if g = f then row_budget msg else 0) log)"

definition slim :: "mail_log \<Rightarrow> pst \<Rightarrow> bool" where
  "slim log s \<longleftrightarrow> (\<forall>f \<in> set (pw_folders s). bulk (fd_contents f) \<le> load (fd_nid f) log)"

abbreviation max_load :: nat where
  "max_load \<equiv> 64990"

lemma row_budget_eq: "write_cost (contents_cells (n, msg)) = row_budget msg"
  by (simp add: row_budget_def write_cost_def contents_cells_def Let_def)

lemma addMessage_live:
  assumes inv: "writer_holds log s" and thin: "slim log s" and few: "length log < 2 ^ 20" and fit: "message_fits msg" "message_cost msg < 2 ^ 16"
    and f: "f \<in> fd_nid ` set (pw_folders s)" and room: "load f log + row_budget msg \<le> max_load"
    and sp: "spare (message_cost msg + row_budget msg + b) (pw_ndb s)"
  shows "\<exists>s'. addMessage f msg s = Some (Inr (), s') \<and> spare b (pw_ndb s') \<and> slim (log @ [(f, msg)]) s'"
proof -
  let ?n = "message_nid (length log)" and ?fs = "pw_folders s"
  have I: "nodes_are (nbt (pw_ndb s)) (pw_ndb s)" "length (pw_guid s) = 16"
      "pw_next_message s = kFirstUserNidIndex + of_nat (length log)" "list_all (folder_holds (pw_ndb s) log) ?fs"
    using inv by (simp_all add: writer_holds_def)
  obtain ns where ns: "names_inv ns (pw_names s)" using inv by (auto simp: writer_holds_def mail_held_def)
  have n: "makeNid kNidTypeNormalMessage (pw_next_message s) = ?n" by (simp add: I(3) message_nid_def)
  let ?s1 = "s\<lparr>pw_next_message := pw_next_message s + 1\<rparr>"
  obtain i where i: "find_folder 0 f ?fs = Some i" using f find_folder_None [of 0 f ?fs] by (cases "find_folder 0 f ?fs") auto
  have i': "i < length ?fs" "fd_nid (?fs ! i) = f" using find_folder_Some [OF i] by simp_all
  let ?build = "bindM (buildMessage (pw_guid s) msg ?n False) (\<lambda>(heap, flags, size).
        bindM (bd_on_subs (store_heap heap)) (\<lambda>(data, sub). ret (data, sub, flags, size)))"
  let ?b = "\<lparr>bd_subs = SubnodeAllocator_new (pw_ndb s), bd_names = pw_names s, bd_clock = pw_clock s\<rparr>"
  have "live (bd_live (row_budget msg + b) 0) (message_cost msg) (\<lambda>_. True) ?build"
    using buildMessage_live [OF I(2) fit] unfolding message_live_def by blast
  moreover have "bd_live (row_budget msg + b) 0 (message_cost msg + 0) ?b"
    using sp fit(2) by (simp add: bd_live_def subs_live_def SubnodeAllocator_new_def max_subnodes_def ac_simps)
  ultimately obtain x u where x: "?build ?b = Some (Inr x, u)" "spare (row_budget msg + b) (sa_ndb (bd_subs u))"
    by (fastforce dest: liveD simp: bd_live_def subs_live_def)
  obtain data sub flags sz where xx: "x = (data, sub, flags, sz)" by (cases x)
  let ?s2 = "?s1\<lparr>pw_ndb := sa_ndb (bd_subs u), pw_names := bd_names u, pw_clock := bd_clock u\<rparr>"
  have 2: "pw_build ?build ?s1 = Some (Inr (data, sub, flags, sz), ?s2)" using x(1) by (simp add: pw_build_run xx)
  let ?d = "sa_ndb (bd_subs u)"
  from message_node_law [OF _ _ I(2) fit(1) 2, of "nbt (pw_ndb s)" ns] I(1) ns obtain d names clock where
      eq: "?s2 = ?s1\<lparr>pw_ndb := d, pw_names := names, pw_clock := clock\<rparr>" and d: "within (pw_ndb s) d" "nodes_are (nbt (pw_ndb s)) d"
      "flags = mapi_flags (fields_of msg) (attachments msg \<noteq> [])" "sz = message_size (fields_of msg)"
    by auto
  have dd: "d = ?d" using arg_cong [OF eq, of pw_ndb] by simp
  let ?d3 = "?d\<lparr>nbt := nbt ?d @ [\<lparr>ne_nid = ?n, ne_data = data, ne_sub = sub, ne_parent = f\<rparr>]\<rparr>"
  let ?t = "\<lparr>ts_ndb = ?d3, ts_w = fd_contents (?fs ! i)\<rparr>" and ?r = "contents_cells (?n, msg)"
  have w3: "within (pw_ndb s) ?d3" using d(1) by (simp add: dd within_node)
  have "folder_holds (pw_ndb s) log (?fs ! i)" using I(4) i'(1) by (simp add: list_all_length)
  then have "lists ?d3 (fd_contents (?fs ! i)) (in_folder f log)" using lists_later [OF _ w3] i'(2) by (simp add: folder_holds_def)
  then obtain t g bs where t: "tab (2 ^ 27 - 1 - 10 * length (in_folder f log)) ?t t g bs" "table_ok t" "tb_columns t = contents_tags" "\<not> tw_in_row (ts_w ?t)"
    by (auto simp: lists_def)
  have "length (in_folder f log) < 2 ^ 20" using length_in_folder [of f log] few by simp
  moreover have "row_cost ?r = 10" by (simp add: contents_cells_def Let_def)
  ultimately have "2 ^ 27 - 1 - 10 * length (in_folder f log) = (2 ^ 27 - 11 - 10 * length (in_folder f log)) + row_cost ?r" by simp
  then have tab: "tab ((2 ^ 27 - 11 - 10 * length (in_folder f log)) + row_cost ?r) ?t t g bs" using t(1) by (simp only:)
  have "fields_fit (fields_of msg)" using fit(1) by (cases msg) simp
  then have ok: "row_ok (tb_columns t) ?r" using contents_cells_ok t(3) by simp
  have sp3: "spare (write_cost ?r + b) (ts_ndb ?t)" using x(2) by (simp add: row_budget_eq)
  have bulk: "bulk (fd_contents (?fs ! i)) \<le> load f log" using thin i' nth_mem [OF i'(1)] by (auto simp: slim_def)
  then have "bulk (ts_w ?t) + write_cost ?r \<le> 65000" using room by (simp add: row_budget_eq)
  from write_row_live [OF tab t(4) ok t(2) sp3 this] obtain s4 where
    s4: "write_row ?r ?t = Some (Inr (), s4)" "spare b (ts_ndb s4)" "bulk (ts_w s4) \<le> bulk (fd_contents (?fs ! i)) + row_budget msg"
    by (auto simp: row_budget_eq)
  let ?f' = "(?fs ! i)\<lparr>fd_contents := ts_w s4, fd_message_count := fd_message_count (?fs ! i) + 1,
      fd_unread := (if seen (fields_of msg) then fd_unread (?fs ! i) else fd_unread (?fs ! i) + 1)\<rparr>"
  let ?s' = "?s2\<lparr>pw_ndb := ts_ndb s4, pw_folders := ?fs[i := ?f']\<rparr>"
  have "addMessage f msg s = Some (Inr (), ?s')"
    using i 2 s4(1) i'(1) unfolding addMessage_def
    by (simp add: bindM_run folder_at_run getM_run modM_def n pw_on_ndb_run addNode_run pw_contents_run d(3,4) contents_row_eq upd_folder_def)
  moreover have "slim (log @ [(f, msg)]) ?s'"
  proof -
    have "bulk (fd_contents (?fs[i := ?f'] ! j)) \<le> load (fd_nid (?fs[i := ?f'] ! j)) (log @ [(f, msg)])" if j: "j < length ?fs" for j
    proof (cases "j = i")
      case True
      then show ?thesis using s4(3) bulk i' by (simp add: load_def)
    next
      case False
      have "bulk (fd_contents (?fs ! j)) \<le> load (fd_nid (?fs ! j)) log" using thin j by (simp add: slim_def)
      then show ?thesis using False by (simp add: load_def)
    qed
    then show ?thesis by (auto simp: slim_def in_set_conv_nth)
  qed
  ultimately show ?thesis using s4(2) by (intro exI [of _ ?s']) simp
qed

subsection \<open>A folder\<close>

lemma makeFolder_thin:
  assumes thin: "slim log s" and run: "makeFolder parent name forced s = (n, s')"
  shows "slim log s' \<and> pw_ndb s' = pw_ndb s \<and> pw_names s' = pw_names s"
proof -
  have new: "bulk (TableContextWriter_new contentsColumns) = 0"
    by (simp add: bulk_def TableContextWriter_new_def Let_def StreamingHeap_new_def)
  let ?slim = "\<lambda>f. bulk (fd_contents f) \<le> load (fd_nid f) log"
  let ?f = "\<lparr>fd_nid = n, fd_parent = parent, fd_name = name, fd_children = [],
      fd_contents = TableContextWriter_new contentsColumns, fd_message_count = 0, fd_unread = 0\<rparr>"
  have fs: "list_all ?slim (pw_folders s @ [?f])" using thin by (simp add: slim_def list_all_iff new)
  have child: "list_all ?slim (add_child parent n fs)" if "list_all ?slim fs" for fs
    using that find_folder_Some [of 0 parent fs]
    by (auto simp: add_child_def list_all_iff split: option.splits dest!: set_update_subset_insert [THEN subsetD])
  have "pw_folders s' = (if parent \<noteq> 0 then add_child parent n (pw_folders s @ [?f]) else pw_folders s @ [?f]) \<and>
      pw_ndb s' = pw_ndb s \<and> pw_names s' = pw_names s"
    using run by (auto simp: makeFolder_def Let_def split: if_splits)
  then show ?thesis using fs child [OF fs] by (simp add: slim_def list_all_iff)
qed

lemma createFolder_live:
  assumes thin: "slim log s" and parent: "parent \<in> fd_nid ` set (pw_folders s)"
  shows "\<exists>n s'. createFolder parent name s = Some (Inr n, s') \<and> slim log s' \<and> pw_ndb s' = pw_ndb s \<and> pw_names s' = pw_names s"
proof -
  obtain i where i: "find_folder 0 parent (pw_folders s) = Some i"
    using parent find_folder_None [of 0 parent "pw_folders s"] by (cases "find_folder 0 parent (pw_folders s)") auto
  obtain n s' where 1: "makeFolder parent name 0 s = (n, s')" by fastforce
  then show ?thesis using i makeFolder_thin [OF thin 1] by (simp add: createFolder_def bindM_run folder_at_run)
qed

definition folder_pc_budget :: "folder \<Rightarrow> nat" where
  "folder_pc_budget f = text_cost (fd_name f) + 60"

lemma folder_pc_cost:
  assumes guid: "length guid = 16"
  shows "pc_cost (folder_pc guid f) \<le> folder_pc_budget f"
proof -
  have len: "length (entryId guid n) = 24" for n using guid by (simp add: entryId_def put32_def)
  have "\<exists>fs. folder_pc guid f = set_all fs [] \<and> costs fs (text_cost (fd_name f) + 50)"
    unfolding folder_pc_def
    by (intro exI conjI, rule refl, rule costs_weaken, (rule costs_intros)+) (simp add: place_cost_def text_cost_def len)
  then obtain fs where fs: "folder_pc guid f = set_all fs []" "costs fs (text_cost (fd_name f) + 50)" by blast
  have "pc_cost (set_all fs []) \<le> pc_cost [] + (text_cost (fd_name f) + 50)" using fs(2) unfolding costs_def by blast
  then show ?thesis by (simp add: fs(1) pc_cost_def [of "[]"] folder_pc_budget_def)
qed

definition hierarchy_budget :: "folder list \<Rightarrow> nid \<Rightarrow> nat" where
  "hierarchy_budget fs n = 8 + sum_list (map (fill_cost 13) (map hierarchy_cells (subfolders fs n)))"

definition folder_budget :: "folder list \<Rightarrow> folder \<Rightarrow> nat" where
  "folder_budget fs f =
     store_cost (folder_pc_budget f) + (store_cost (hierarchy_budget fs (fd_nid f)) + (finish_cost (fd_contents f) + store_cost 8))"

definition cheap :: "folder list \<Rightarrow> folder \<Rightarrow> bool" where
  "cheap fs f \<longleftrightarrow> affordable (folder_pc_budget f) \<and> affordable (hierarchy_budget fs (fd_nid f)) \<and> bulk (fd_contents f) \<le> max_load"

lemma budget_cong:
  assumes "map fd_still fs' = map fd_still fs" "fd_still f' = fd_still f" "fd_contents f' = fd_contents f"
  shows "folder_budget fs' f' = folder_budget fs f" "cheap fs' f' = cheap fs f"
  using assms(2,3) by (simp_all add: folder_budget_def cheap_def hierarchy_budget_def subfolders_cong(1) [OF assms(1)] folder_pc_budget_def del: map_map)

lemma find_children_found:
  assumes dist: "distinct (map fd_nid (pw_folders s))" and mem: "set cs \<subseteq> set (pw_folders s)"
  shows "mapM find_child (map fd_nid cs) s = Some (Inr cs, s)"
  using mem
proof (induction cs)
  case (Cons c cs)
  have "fd_nid c \<in> fd_nid ` set (pw_folders s)" using Cons.prems by auto
  then obtain j where j: "find_folder 0 (fd_nid c) (pw_folders s) = Some j"
    using find_folder_None [of 0 "fd_nid c" "pw_folders s"] by (cases "find_folder 0 (fd_nid c) (pw_folders s)") auto
  then have 1: "find_child (fd_nid c) s = Some (Inr (pw_folders s ! j), s)" by (simp add: find_child_run)
  have "mapM find_child (map fd_nid (c # cs)) s = Some (Inr (pw_folders s ! j # cs), s)"
    using Cons.IH Cons.prems 1 by (simp add: bindM_run ret_run)
  then show ?case using find_children [OF dist Cons.prems] by metis
qed (simp add: ret_run)

lemma liveE: "live R c Q m \<Longrightarrow> R (c + k) s \<Longrightarrow> (\<And>x s'. m s = Some (Inr x, s') \<Longrightarrow> R k s' \<Longrightarrow> Q x \<Longrightarrow> thesis) \<Longrightarrow> thesis"
  by (drule (1) liveD) blast

lemma write_folder_live:
  assumes w: "writing log s" and i: "i < length (pw_folders s)" and holds: "folder_holds (pw_ndb s) log (pw_folders s ! i)"
    and cheap: "cheap (pw_folders s) (pw_folders s ! i)" and sp: "pw_live (folder_budget (pw_folders s) (pw_folders s ! i) + b) s"
  shows "\<exists>s'. write_folder i s = Some (Inr (), s') \<and> pw_live b s'"
proof -
  let ?f = "pw_folders s ! i" and ?fs = "pw_folders s"
  let ?nid = "\<lambda>t. makeNid t (nidIndex (fd_nid ?f))"
  let ?h = "store_cost (hierarchy_budget ?fs (fd_nid ?f))" and ?c = "finish_cost (fd_contents ?f)" and ?a = "store_cost 8"
  have W: "nodes_are (nbt (pw_ndb s)) (pw_ndb s)" "length (pw_guid s) = 16" "length ?fs \<le> 2 ^ 20" "length log < 2 ^ 20"
      "distinct (map fd_nid ?fs)" "\<And>f. f \<in> set ?fs \<Longrightarrow> text_fits (fd_name f)"
      "fd_children ?f = map fd_nid (subfolders ?fs (fd_nid ?f))"
    using w i by (auto simp: writing_def)
  have C: "affordable (folder_pc_budget ?f)" "affordable (hierarchy_budget ?fs (fd_nid ?f))" "bulk (fd_contents ?f) \<le> max_load"
    using cheap by (simp_all add: cheap_def)
  have fit: "text_fits (fd_name ?f)" using W(6) i by simp
  have sp0: "pw_live (store_cost (folder_pc_budget ?f) + (?h + (?c + (?a + b)))) s" using sp by (simp add: folder_budget_def add.assoc)
  obtain s1 where 1: "writeNodeFromHeap (fd_nid ?f) (fd_parent ?f) (pc_serialize (folder_pc (pw_guid s) ?f)) s = Some (Inr (), s1)"
      and sp1: "pw_live (?h + (?c + (?a + b))) s1"
    by (rule liveE [OF write_pc_live [OF folder_pc_cost [OF W(2)] C(1)] sp0]) simp
  from write_pc_law [OF W(1) folder_pc_law(1) [OF fit W(2)] 1] obtain nd1 d1 where
    d1: "s1 = s\<lparr>pw_ndb := d1\<rparr>" "grew [entry (fd_nid ?f) (fd_parent ?f) nd1] (pw_ndb s) d1" by blast
  let ?cs = "subfolders ?fs (fd_nid ?f)"
  have sub: "set ?cs \<subseteq> set ?fs" by (auto simp: subfolders_def dest: in_set_tl)
  then have 2: "mapM find_child (fd_children ?f) s1 = Some (Inr ?cs, s1)"
    unfolding W(7) using find_children_found [of s1 ?cs] W(5) by (simp add: d1(1))
  have cdist: "distinct (map fd_nid ?cs)"
    using W(5) unfolding subfolders_def by (intro distinct_map_filter) (cases ?fs, simp_all)
  have "\<forall>c \<in> set ?cs. text_fits (fd_name c)" using W(6) sub by auto
  from hierarchy_rows [OF cdist this] obtain ht where
    ht: "forM hierarchy_row ?cs (new_table hierarchyColumns) = Some (Inr (), ht)" "table_ok ht" "tb_columns ht = [PidTagLtpRowId, PidTagLtpRowVer] @ hierarchyColumns"
      "map tr_id (tb_rows ht) = map fst (map hierarchy_cells ?cs)" "\<forall>r \<in> set (map hierarchy_cells ?cs). row_shown ht r"
    by blast
  have rows: "forM hierarchy_row rs = forM fill_row (map hierarchy_cells rs)" for rs by (induction rs) (simp_all add: hierarchy_row_eq)
  have "length (tb_columns (new_table hierarchyColumns)) = 13" "table_cost (new_table hierarchyColumns) = 8"
    using hierarchy_columns by (simp_all add: hierarchyColumns_def no_rows_cost)
  then have hcost: "table_cost ht \<le> hierarchy_budget ?fs (fd_nid ?f)"
    using fill_rows_cost [OF ht(1) [unfolded rows]] by (simp add: hierarchy_budget_def del: map_map)
  obtain s2 where 4: "writeNodeFromHeap (?nid kNidTypeHierarchyTable) (fd_nid ?f) (table_serialize ht) s1 = Some (Inr (), s2)"
      and sp2: "pw_live (?c + (?a + b)) s2"
    by (rule liveE [OF write_table_live [OF ht(2) hcost C(2)] sp1]) simp
  have clen: "length ?cs \<le> 2 ^ 20" using W(3) length_filter_le [of "\<lambda>c. fd_parent c = fd_nid ?f" "tl ?fs"] by (simp add: subfolders_def)
  have hsize: "length (tb_rows ht) * length (tb_columns ht) < 2 ^ 26" "tb_columns ht \<noteq> []"
    using clen arg_cong [OF ht(4), of length] ht(3) by (simp_all add: hierarchyColumns_def)
  have n1: "nodes_are (nbt (pw_ndb s1)) (pw_ndb s1)" using conjunct1 [OF grew_nodes [OF d1(2)]] by (simp add: d1(1))
  from write_table_law [OF n1 ht(2) hsize ht(4,5) 4] obtain nd2 d2 where
    d2: "s2 = s1\<lparr>pw_ndb := d2\<rparr>" "grew [entry (?nid kNidTypeHierarchyTable) (fd_nid ?f) nd2] (pw_ndb s1) d2" by blast
  have w2: "within (pw_ndb s) d2" by (rule within_trans [of _ d1]) (use d1 d2(2) in \<open>simp_all add: grew_def\<close>)
  let ?t = "\<lparr>ts_ndb = d2, ts_w = fd_contents ?f\<rparr>" and ?ms = "in_folder (fd_nid ?f) log"
  have "lists d2 (fd_contents ?f) ?ms" using holds lists_later [OF _ w2] by (simp add: folder_holds_def)
  then obtain t g bs where t: "tab (2 ^ 27 - 1 - 10 * length ?ms) ?t t g bs" "map tr_id (tb_rows t) = map fst ?ms" "\<not> tw_in_row (ts_w ?t)"
    by (auto simp: lists_def)
  have "length ?ms < 2 ^ 20" using length_in_folder [of "fd_nid ?f" log] W(4) by simp
  then have "2 ^ 27 - 1 - 10 * length ?ms = Suc (2 ^ 27 - 2 - 10 * length ?ms)" by simp
  then have tab: "tab (Suc (2 ^ 27 - 2 - 10 * length ?ms)) ?t t g bs" using t(1) by (simp only:)
  have ids: "distinct (map tr_id (tb_rows t))"
  proof -
    have "distinct (map fst (numbered log))" using W(4) by (intro distinct_numbered) simp
    then show ?thesis unfolding t(2) by (auto simp: in_folder_def comp_def split_beta intro: distinct_map_filter)
  qed
  have spt: "spare (finish_cost (ts_w ?t) + (?a + b)) (ts_ndb ?t)" using sp2 by (simp add: pw_live_def d2(1))
  have "bulk (ts_w ?t) \<le> max_load" using C(3) by simp
  from tw_finish_live [OF tab t(3) ids spt this] obtain node t5 where
    5: "tw_finish ?t = Some (Inr node, t5)" "spare (?a + b) (ts_ndb t5)" by blast
  let ?s3 = "s2\<lparr>pw_folders := (pw_folders s2)[i := (pw_folders s2 ! i)\<lparr>fd_contents := ts_w t5\<rparr>], pw_ndb := (ts_ndb t5)\<lparr>nbt := nbt (ts_ndb t5) @
          [entry (?nid kNidTypeContentsTable) (fd_nid ?f) (nd_data node, nd_sub node)]\<rparr>\<rparr>"
  have sp3: "pw_live (?a + b) ?s3" using 5(2) by (simp add: pw_live_def)
  have assoc: "table_ok (new_table associatedColumns)" "table_cost (new_table associatedColumns) \<le> 8"
    using associated_columns by (simp_all add: no_rows_cost)
  obtain s' where 7: "writeNodeFromHeap (?nid kNidTypeAssocContentsTable) (fd_nid ?f) (table_serialize (new_table associatedColumns)) ?s3 = Some (Inr (), s')"
      and sp4: "pw_live b s'"
    by (rule liveE [OF write_table_live [OF assoc] sp3]) simp_all
  have s2: "pw_folders s2 = ?fs" "pw_ndb s2 = d2" by (simp_all add: d2(1) d1(1))
  have "write_folder i s = Some (Inr (), s')"
    unfolding write_folder_def Let_def find_child_def [symmetric]
    using 1 2 ht(1) 4 5(1) 7
    by (simp add: bindM_run getM_run local_object_run pw_contents_run pw_on_ndb_run addNode_run upd_folder_def s2)
  then show ?thesis using sp4 by blast
qed

subsection \<open>Finishing\<close>

lemma write_folders_live:
  assumes "writing log s" "k \<le> length (pw_folders s)" "\<forall>j < length (pw_folders s). k \<le> j \<longrightarrow> folder_holds (pw_ndb s) log (pw_folders s ! j)"
    and "\<forall>j < length (pw_folders s). k \<le> j \<longrightarrow> cheap (pw_folders s) (pw_folders s ! j)"
    and "pw_live (sum_list (map (\<lambda>j. folder_budget (pw_folders s) (pw_folders s ! j)) [k..<length (pw_folders s)]) + b) s"
  shows "\<exists>s'. forM write_folder [k..<length (pw_folders s)] s = Some (Inr (), s') \<and> pw_live b s'"
  using assms
proof (induction "length (pw_folders s) - k" arbitrary: k s)
  case 0
  then show ?case by (simp add: ret_run)
next
  case (Suc m)
  let ?fs = "pw_folders s" and ?sum = "\<lambda>k fs. sum_list (map (\<lambda>j. folder_budget fs (fs ! j)) [k..<length fs])"
  have k: "k < length ?fs" using Suc.hyps(2) by simp
  then have upt: "[k..<length ?fs] = k # [Suc k..<length ?fs]" by (simp add: upt_conv_Cons)
  have holds: "folder_holds (pw_ndb s) log (?fs ! k)" "cheap ?fs (?fs ! k)" using Suc.prems(3,4) k by simp_all
  have sp: "pw_live (folder_budget ?fs (?fs ! k) + (?sum (Suc k) ?fs + b)) s"
    using Suc.prems(5) unfolding upt by (simp add: add.assoc)
  obtain s1 where 1: "write_folder k s = Some (Inr (), s1)" "pw_live (?sum (Suc k) ?fs + b) s1"
    using write_folder_live [OF Suc.prems(1) k holds sp] by blast
  from write_folder_law [OF Suc.prems(1) k holds(1) 1(1)] obtain es w where
    es: "grew es (pw_ndb s) (pw_ndb s1)" "s1 = s\<lparr>pw_ndb := pw_ndb s1, pw_folders := ?fs[k := (?fs ! k)\<lparr>fd_contents := w\<rparr>]\<rparr>" by blast
  have fs1: "pw_folders s1 = ?fs[k := (?fs ! k)\<lparr>fd_contents := w\<rparr>]" by (subst es(2)) simp
  have still: "map fd_still (pw_folders s1) = map fd_still ?fs" using k by (simp add: fs1 map_update list_update_same_conv)
  have len: "length (pw_folders s1) = length ?fs" by (simp add: fs1)
  have w1: "writing log s1"
    using writing_cong [OF Suc.prems(1) conjunct1 [OF grew_nodes [OF es(1)]] still] es(2) fs1 by metis
  have keep: "pw_folders s1 ! j = ?fs ! j" if "Suc k \<le> j" for j using that by (simp add: fs1)
  have "map (\<lambda>j. folder_budget (pw_folders s1) (pw_folders s1 ! j)) [Suc k..<length ?fs] =
      map (\<lambda>j. folder_budget ?fs (?fs ! j)) [Suc k..<length ?fs]"
    using budget_cong(1) [OF still] keep by (intro map_cong) auto
  then have sp1: "pw_live (?sum (Suc k) (pw_folders s1) + b) s1" using 1(2) by (simp only: len)
  have h1: "\<forall>j < length (pw_folders s1). Suc k \<le> j \<longrightarrow> folder_holds (pw_ndb s1) log (pw_folders s1 ! j)"
    using Suc.prems(3) folder_holds_later [of "pw_ndb s"] es(1) keep len by (auto simp: grew_def)
  have c1: "\<forall>j < length (pw_folders s1). Suc k \<le> j \<longrightarrow> cheap (pw_folders s1) (pw_folders s1 ! j)"
    using Suc.prems(4) budget_cong(2) [OF still] keep len by auto
  have hyp: "m = length (pw_folders s1) - Suc k" "Suc k \<le> length (pw_folders s1)" using Suc.hyps(2) k by (simp_all add: len)
  from Suc.hyps(1) [OF hyp(1) w1 hyp(2) h1 c1 sp1] obtain s' where
    "forM write_folder [Suc k..<length ?fs] s1 = Some (Inr (), s')" "pw_live b s'" by (auto simp: len)
  then show ?case using 1(1) unfolding upt by (auto simp: bindM_run)
qed

definition finish_budget :: "nat \<Rightarrow> folder list \<Rightarrow> nat" where
  "finish_budget n fs = sum_list (map (folder_budget fs) fs) + (reserved_cost + (store_cost 200 + store_cost (names_cost n)))"

lemma pst_finish_live:
  assumes inv: "writer_holds log s" and fit: "\<forall>f \<in> set (pw_folders s). text_fits (fd_name f)"
    and few: "length (pw_folders s) \<le> 2 ^ 20" "length log < 2 ^ 20" and cheap: "\<forall>f \<in> set (pw_folders s). cheap (pw_folders s) f"
    and names: "names_small n (pw_names s)" "affordable (names_cost n)" and sp: "spare (finish_budget n (pw_folders s)) (pw_ndb s)"
  shows "\<exists>s'. pst_finish s = Some (Inr (), s')"
proof -
  let ?fs = "pw_folders s" and ?s0 = "s\<lparr>pw_finished := True\<rparr>"
  let ?c = "store_cost 200" and ?n = "store_cost (names_cost n)"
  have I: "\<not> pw_finished s" "nodes_are (nbt (pw_ndb s)) (pw_ndb s)" "length (pw_guid s) = 16" "list_all (folder_holds (pw_ndb s) log) ?fs"
    using inv by (simp_all add: writer_holds_def)
  obtain ns where ns: "names_inv ns (pw_names s)"
      and held: "list_all2 (message_held (lookup_block (pw_ndb s)) (pw_guid s) ns) (nbt (pw_ndb s)) (numbered log)"
    using inv by (auto simp: writer_holds_def mail_held_def)
  have w0: "writing log ?s0" by (rule holds_writing [OF inv fit few])
  have h0: "\<forall>j < length ?fs. folder_holds (pw_ndb s) log (?fs ! j)" using I(4) by (simp add: list_all_length)
  have "map (\<lambda>j. folder_budget ?fs (?fs ! j)) [0..<length ?fs] = map (folder_budget ?fs) ?fs" by (rule nth_equalityI) simp_all
  then have sp0: "pw_live (sum_list (map (\<lambda>j. folder_budget ?fs (?fs ! j)) [0..<length ?fs]) + (reserved_cost + (?c + (?n + 0)))) ?s0"
    using sp by (simp add: pw_live_def finish_budget_def)
  obtain s1 where 1: "writeFolders ?s0 = Some (Inr (), s1)" and sp1: "pw_live (reserved_cost + (?c + (?n + 0))) s1"
    using write_folders_live [OF w0, of 0 "reserved_cost + (?c + (?n + 0))"] h0 cheap sp0 by (simp add: writeFolders_def bindM_run getM_run) blast
  from write_folders_law [OF w0, of 0 s1] h0 1 obtain ess fs where
      ess: "length ess = length ?fs" "grew (concat ess) (pw_ndb s) (pw_ndb s1)"
        "\<forall>j < length ?fs. folder_stored (lookup_block (pw_ndb s1)) log ?fs (?fs ! j) (ess ! j)"
      and s1: "s1 = ?s0\<lparr>pw_ndb := pw_ndb s1, pw_folders := fs\<rparr>"
    by (auto simp: writeFolders_def bindM_Inr_iff getM_run)
  have o1: "open_nodes s1" using conjunct1 [OF grew_nodes [OF ess(2)]] unfolding open_nodes_def .
  obtain s2 where 2: "writeReservedNodes s1 = Some (Inr (), s2)" and sp2: "pw_live (?c + (?n + 0)) s2"
    by (rule liveE [OF reserved_live sp1]) simp
  obtain es2 d2 where a2: "s2 = s1\<lparr>pw_ndb := d2\<rparr>" "grew es2 (pw_ndb s1) d2" "map ne_nid es2 = reserved_nids"
    using reserved_law [unfolded adder_def, rule_format, OF o1 2] by (auto simp: adds_nids_def)
  have o2: "open_nodes s2" using conjunct1 [OF grew_nodes [OF a2(2)]] by (simp add: a2(1) open_nodes_def)
  have guid: "length (pw_guid s2) = 16" unfolding a2(1) using I(3) by (simp, subst s1, simp)
  obtain s3 where "writeNodeFromHeap kNidMessageStore 0 (pc_serialize (message_store_pc s2)) s2 = Some (Inr (), s3)" and sp3: "pw_live (?n + 0) s3"
    by (rule liveE [OF write_pc_live [OF message_store_live [OF guid]] sp2]) simp_all
  then have 3: "writeMessageStore s2 = Some (Inr (), s3)" by (simp add: writeMessageStore_def bindM_run getM_run)
  from message_store_law [OF o2 guid 3] obtain nd d3 where a3: "s3 = s2\<lparr>pw_ndb := d3\<rparr>" "grew [entry kNidMessageStore 0 nd] d2 d3"
    by (auto simp: a2(1))
  have o3: "open_nodes s3" using conjunct1 [OF grew_nodes [OF a3(2)]] by (simp add: a3(1) open_nodes_def)
  have same: "pw_names s3 = pw_names s" unfolding a3(1) a2(1) by (simp, subst s1, simp)
  then have "pc_cost (buildPropertyContext (pw_names s3)) \<le> names_cost n" using names_pc_cost [OF names(1)] by simp
  then obtain s4 where "writeNodeFromHeap kNidNameToIdMap 0 (pc_serialize (buildPropertyContext (pw_names s3))) s3 = Some (Inr (), s4)" and sp4: "pw_live 0 s4"
    by (rule liveE [OF write_pc_live [OF _ names(2)] sp3]) simp
  then have 4: "writeNameIdMap s3 = Some (Inr (), s4)" by (simp add: writeNameIdMap_def bindM_run getM_run)
  have "names_inv ns (pw_names s3)" using ns same by simp
  from name_map_law [OF o3 this 4] obtain nm d4 where a4: "s4 = s3\<lparr>pw_ndb := d4\<rparr>" "grew [entry kNidNameToIdMap 0 nm] d3 d4"
    by (auto simp: a3(1))
  let ?es = "nbt (pw_ndb s) @ concat ess @ es2 @ [entry kNidMessageStore 0 nd] @ [entry kNidNameToIdMap 0 nm]"
  have "nodes_are ?es d4"
    using grew_trans [OF grew_trans [OF grew_trans [OF ess(2) a2(2)] a3(2)] a4(2)] by (simp add: grew_def)
  then have nbt: "nbt d4 = ?es" by (simp add: nodes_are_def)
  have "length (concat ess) = 4 * length ?fs"
    using arg_cong [OF stored_nids [OF ess(1,3)], of length] length_concat_const [of "map fd_nid ?fs" folder_nids 4]
    by (simp add: folder_nids_def comp_def)
  moreover have "length es2 = 19" using arg_cong [OF a2(3), of length] by (simp add: reserved_nids_def kTemplates_def)
  moreover have "length (nbt (pw_ndb s)) = length log" using list_all2_lengthD [OF held] by simp
  ultimately have few_nodes: "length (nbt d4) \<le> 2 ^ 23" using few by (simp add: nbt)
  have sp5: "roomy (2 ^ 36) d4" "length (bbt d4) \<le> 2 ^ 34" using sp4 by (simp_all add: pw_live_def a4(1) spare_def)
  have "roomy (2 * length (nbt d4) + 2 * length (bbt d4) + 18) d4" by (rule roomy_mono [OF sp5(1)]) (use few_nodes sp5(2) in simp)
  then obtain d5 where 5: "finish d4 = Some (Inr (), d5)" using finish_roomy [of d4] few_nodes sp5(2) by auto
  have "pst_finish s = Some (Inr (), s4\<lparr>pw_ndb := d5\<rparr>)"
    using I(1) 1 2 3 4 5 by (simp add: pst_finish_def bindM_run getM_run modM_def pw_on_ndb_run a4(1))
  then show ?thesis by blast
qed

end
