(* ===== verification/Writer_Session.thy ===== *)
theory Writer_Session
  imports Writer_Budget
begin

section \<open>A session with the writer\<close>

text \<open>
  A client constructs the writer, creates folders and adds messages, and finishes. What the finished
  file holds, for a reader that has nothing but the file.
\<close>

subsection \<open>Construction\<close>

text \<open>The fields that name the folders Outlook knows do not matter to the invariant.\<close>

lemma writer_holds_known [simp]:
  "writer_holds log (s\<lparr>pw_ipm_subtree := n\<rparr>) = writer_holds log s" "writer_holds log (s\<lparr>pw_deleted_items := n\<rparr>) = writer_holds log s"
  "writer_holds log (s\<lparr>pw_sent_items := n\<rparr>) = writer_holds log s" "writer_holds log (s\<lparr>pw_outbox := n\<rparr>) = writer_holds log s"
  "writer_holds log (s\<lparr>pw_search_root := n\<rparr>) = writer_holds log s" "writer_holds log (s\<lparr>pw_views := n\<rparr>) = writer_holds log s"
  "writer_holds log (s\<lparr>pw_common_views := n\<rparr>) = writer_holds log s"
  by (simp_all add: writer_holds_def)

lemma first_name:
  assumes run: "idForString kPsPublicStrings ''Keywords'' NameIdMap_new = (i, m)"
  shows "names_inv [keywords_name] (ensureGuid kPsInternetHeaders m)"
proof -
  have small: "names_small kLongestName m"
    using idForString_small [OF names_small_new, of kPsPublicStrings "''Keywords''" kLongestName] run by simp
  have "guid_ok kPsPublicStrings" "length (gtab NameIdMap_new) < 2 ^ 15"
    by (simp_all add: kPsPublicStrings_def gtab_def NameIdMap_new_def)
  from idForString_law [OF names_ok_new this run names_small_bounds(1) [OF small]] have ok: "names_ok m [keywords_name]"
    by (simp add: spec_serve_def)
  obtain w m' where w: "guidIndex kPsInternetHeaders m = (w, m')" by fastforce
  have "guid_ok kPsInternetHeaders" "length (gtab m) < 2 ^ 15"
    using names_small_bounds(2) [OF small] by (simp_all add: kPsInternetHeaders_def)
  from guidIndex_ok [OF ok this w] have "names_ok (ensureGuid kPsInternetHeaders m) [keywords_name]" by (simp add: ensureGuid_def w)
  moreover have "names_high (ensureGuid kPsInternetHeaders m)"
    using idForString_high [OF names_high_new(1) run] names_high_new(2) by simp
  ultimately show ?thesis using ensureGuid_small [OF small] by (simp add: names_inv_def)
qed

lemma root_law:
  fixes clock :: "nat \<Rightarrow> int"
  assumes d: "nodes_are [] d" and guid: "length guid = 16"
  defines "s \<equiv> PstWriter_blank d guid clock"
  defines "s0 \<equiv> s\<lparr>pw_names := ensureGuid kPsInternetHeaders (snd (idForString kPsPublicStrings ''Keywords'' (pw_names s)))\<rparr>"
  defines "s1 \<equiv> upd_folder 0 (\<lambda>f. f\<lparr>fd_parent := kNidRootFolder\<rparr>) (snd (makeFolder 0 ''Root - Mailbox'' kNidRootFolder s0))"
  shows "writer_holds [] s1 \<and> map fd_place (pw_folders s1) = [(kNidRootFolder, kNidRootFolder, ''Root - Mailbox'', [])]"
proof -
  obtain i m where names: "idForString kPsPublicStrings ''Keywords'' NameIdMap_new = (i, m)" by fastforce
  let ?f = "\<lparr>fd_nid = kNidRootFolder, fd_parent = kNidRootFolder, fd_name = ''Root - Mailbox'', fd_children = [],
      fd_contents = TableContextWriter_new contentsColumns, fd_message_count = 0, fd_unread = 0\<rparr>"
  have s1: "s1 = s\<lparr>pw_names := ensureGuid kPsInternetHeaders m, pw_folders := [?f]\<rparr>"
    by (simp add: s1_def s0_def s_def PstWriter_blank_def makeFolder_def upd_folder_def names)
  have "store_ok d" using d by (simp add: nodes_are_def)
  then have "folder_holds d [] ?f"
    using lists_new by (simp add: folder_holds_def in_folder_def numbered_def unread_of_def)
  moreover have "nodes_are (nbt d) d" "nbt d = []" using d by (simp_all add: nodes_are_def)
  moreover have "tree_ok [(kNidRootFolder, kNidRootFolder, ''Root - Mailbox'', [])] kFirstUserNidIndex"
    by (simp add: tree_ok_def children_of_def)
  moreover have "mail_held d guid (ensureGuid kPsInternetHeaders m) []"
    using first_name [OF names] \<open>nbt d = []\<close> by (auto simp: mail_held_def numbered_def)
  ultimately show ?thesis using guid by (simp add: writer_holds_def s1 s_def PstWriter_blank_def)
qed

lemma make_step:
  assumes "makeFolder parent name 0 s = (n, s')" "writer_holds log s" "map fd_place (pw_folders s) = ps" "length ps < 2 ^ 26" "parent \<in> fst ` set ps"
  shows "n = folder_nid (length ps - 1)" "writer_holds log s'" "map fd_place (pw_folders s') = grown n parent name ps"
proof -
  have "length (pw_folders s) = length ps" "fd_nid ` set (pw_folders s) = fst ` set ps"
    using assms(3) by (auto simp: image_image)
  then show "n = folder_nid (length ps - 1)" "writer_holds log s'" "map fd_place (pw_folders s') = grown n parent name ps"
    using makeFolder_law [OF assms(2) _ _ assms(1)] assms(3-5) by simp_all
qed

text \<open>The folders every store has.\<close>

definition first_places :: "place list" where
  "first_places =
     [(kNidRootFolder, kNidRootFolder, ''Root - Mailbox'', map folder_nid [0, 4, 5, 6]),
      (folder_nid 0, kNidRootFolder, ''Top of Personal Folders'', map folder_nid [1, 2, 3]),
      (folder_nid 1, folder_nid 0, ''Deleted Items'', []), (folder_nid 2, folder_nid 0, ''Sent Items'', []),
      (folder_nid 3, folder_nid 0, ''Outbox'', []), (folder_nid 4, kNidRootFolder, ''Search Root'', []),
      (folder_nid 5, kNidRootFolder, ''Views'', []), (folder_nid 6, kNidRootFolder, ''Common Views'', [])]"

lemma init_law:
  fixes clock :: "nat \<Rightarrow> int"
  assumes d: "nodes_are [] d" and guid: "length guid = 16"
  defines "s \<equiv> init (PstWriter_blank d guid clock)"
  shows "writer_holds [] s" "map fd_place (pw_folders s) = first_places"
    "(pw_guid s, [pw_ipm_subtree s, pw_deleted_items s, pw_sent_items s, pw_outbox s, pw_search_root s]) = (guid, map folder_nid [0..<5])"
proof -
  let ?b = "PstWriter_blank d guid clock"
  define r where "r = upd_folder 0 (\<lambda>f. f\<lparr>fd_parent := kNidRootFolder\<rparr>) (snd (makeFolder 0 ''Root - Mailbox'' kNidRootFolder
     (?b\<lparr>pw_names := ensureGuid kPsInternetHeaders (snd (idForString kPsPublicStrings ''Keywords'' (pw_names ?b)))\<rparr>)))"
  have r: "writer_holds [] r" "map fd_place (pw_folders r) = [(kNidRootFolder, kNidRootFolder, ''Root - Mailbox'', [])]"
    using root_law [OF d guid, of clock] by (simp_all add: r_def)
  have same: "folder_nid k = folder_nid j \<longleftrightarrow> k = j" if "k < 8" "j < 8" for k j
    using user_nids_inject(2) [of k j] that by auto
  have root: "folder_nid k \<noteq> kNidRootFolder" "kNidRootFolder \<noteq> folder_nid k" if "k < 8" for k
    using root_not_user [of k] that by auto
  note nids = same root
  obtain n1 s1 where 1: "makeFolder kNidRootFolder ''Top of Personal Folders'' 0 r = (n1, s1)" by fastforce
  have h1: "n1 = folder_nid 0" "writer_holds [] s1" "map fd_place (pw_folders s1) =
        [(kNidRootFolder, kNidRootFolder, ''Root - Mailbox'', [folder_nid 0]),
         (folder_nid 0, kNidRootFolder, ''Top of Personal Folders'', [])]"
    using make_step [OF 1 r] by (simp_all add: grown_def nids)
  obtain n2 s2 where 2: "makeFolder (folder_nid 0) ''Deleted Items'' 0 (s1\<lparr>pw_ipm_subtree := n1\<rparr>) = (n2, s2)" by fastforce
  have h2: "n2 = folder_nid 1" "writer_holds [] s2" "map fd_place (pw_folders s2) =
        [(kNidRootFolder, kNidRootFolder, ''Root - Mailbox'', [folder_nid 0]),
         (folder_nid 0, kNidRootFolder, ''Top of Personal Folders'', [folder_nid 1]),
         (folder_nid 1, folder_nid 0, ''Deleted Items'', [])]"
    using make_step [OF 2, of "[]"] h1 by (simp_all add: grown_def nids)
  obtain n3 s3 where 3: "makeFolder (folder_nid 0) ''Sent Items'' 0 (s2\<lparr>pw_deleted_items := n2\<rparr>) = (n3, s3)" by fastforce
  have h3: "n3 = folder_nid 2" "writer_holds [] s3" "map fd_place (pw_folders s3) =
        [(kNidRootFolder, kNidRootFolder, ''Root - Mailbox'', [folder_nid 0]),
         (folder_nid 0, kNidRootFolder, ''Top of Personal Folders'', [folder_nid 1, folder_nid 2]),
         (folder_nid 1, folder_nid 0, ''Deleted Items'', []),
         (folder_nid 2, folder_nid 0, ''Sent Items'', [])]"
    using make_step [OF 3, of "[]"] h2 by (simp_all add: grown_def nids)
  obtain n4 s4 where 4: "makeFolder (folder_nid 0) ''Outbox'' 0 (s3\<lparr>pw_sent_items := n3\<rparr>) = (n4, s4)" by fastforce
  have h4: "n4 = folder_nid 3" "writer_holds [] s4" "map fd_place (pw_folders s4) =
        [(kNidRootFolder, kNidRootFolder, ''Root - Mailbox'', [folder_nid 0]),
         (folder_nid 0, kNidRootFolder, ''Top of Personal Folders'', [folder_nid 1, folder_nid 2, folder_nid 3]),
         (folder_nid 1, folder_nid 0, ''Deleted Items'', []),
         (folder_nid 2, folder_nid 0, ''Sent Items'', []),
         (folder_nid 3, folder_nid 0, ''Outbox'', [])]"
    using make_step [OF 4, of "[]"] h3 by (simp_all add: grown_def nids)
  obtain n5 s5 where 5: "makeFolder kNidRootFolder ''Search Root'' 0 (s4\<lparr>pw_outbox := n4\<rparr>) = (n5, s5)" by fastforce
  have h5: "n5 = folder_nid 4" "writer_holds [] s5" "map fd_place (pw_folders s5) =
        [(kNidRootFolder, kNidRootFolder, ''Root - Mailbox'', [folder_nid 0, folder_nid 4]),
         (folder_nid 0, kNidRootFolder, ''Top of Personal Folders'', [folder_nid 1, folder_nid 2, folder_nid 3]),
         (folder_nid 1, folder_nid 0, ''Deleted Items'', []),
         (folder_nid 2, folder_nid 0, ''Sent Items'', []),
         (folder_nid 3, folder_nid 0, ''Outbox'', []),
         (folder_nid 4, kNidRootFolder, ''Search Root'', [])]"
    using make_step [OF 5, of "[]"] h4 by (simp_all add: grown_def nids)
  obtain n6 s6 where 6: "makeFolder kNidRootFolder ''Views'' 0 (s5\<lparr>pw_search_root := n5\<rparr>) = (n6, s6)" by fastforce
  have h6: "n6 = folder_nid 5" "writer_holds [] s6" "map fd_place (pw_folders s6) =
        [(kNidRootFolder, kNidRootFolder, ''Root - Mailbox'', [folder_nid 0, folder_nid 4, folder_nid 5]),
         (folder_nid 0, kNidRootFolder, ''Top of Personal Folders'', [folder_nid 1, folder_nid 2, folder_nid 3]),
         (folder_nid 1, folder_nid 0, ''Deleted Items'', []),
         (folder_nid 2, folder_nid 0, ''Sent Items'', []),
         (folder_nid 3, folder_nid 0, ''Outbox'', []),
         (folder_nid 4, kNidRootFolder, ''Search Root'', []),
         (folder_nid 5, kNidRootFolder, ''Views'', [])]"
    using make_step [OF 6, of "[]"] h5 by (simp_all add: grown_def nids)
  obtain n7 s7 where 7: "makeFolder kNidRootFolder ''Common Views'' 0 (s6\<lparr>pw_views := n6\<rparr>) = (n7, s7)" by fastforce
  have h7: "n7 = folder_nid 6" "writer_holds [] s7" "map fd_place (pw_folders s7) =
        [(kNidRootFolder, kNidRootFolder, ''Root - Mailbox'', [folder_nid 0, folder_nid 4, folder_nid 5, folder_nid 6]),
         (folder_nid 0, kNidRootFolder, ''Top of Personal Folders'', [folder_nid 1, folder_nid 2, folder_nid 3]),
         (folder_nid 1, folder_nid 0, ''Deleted Items'', []),
         (folder_nid 2, folder_nid 0, ''Sent Items'', []),
         (folder_nid 3, folder_nid 0, ''Outbox'', []),
         (folder_nid 4, kNidRootFolder, ''Search Root'', []),
         (folder_nid 5, kNidRootFolder, ''Views'', []),
         (folder_nid 6, kNidRootFolder, ''Common Views'', [])]"
    using make_step [OF 7, of "[]"] h6 by (simp_all add: grown_def nids)
  have keep: "pw_ipm_subtree s' = pw_ipm_subtree t" "pw_deleted_items s' = pw_deleted_items t" "pw_sent_items s' = pw_sent_items t"
      "pw_outbox s' = pw_outbox t" "pw_search_root s' = pw_search_root t" "pw_guid s' = pw_guid t"
    if "makeFolder p nm f t = (n, s')" for p nm f t n s'
    using that by (auto simp: makeFolder_def Let_def split: if_splits)
  have s: "s = s7\<lparr>pw_common_views := n7\<rparr>"
  proof -
    obtain x0 r0 where 0: "makeFolder 0 ''Root - Mailbox'' kNidRootFolder
        (?b\<lparr>pw_names := ensureGuid kPsInternetHeaders (snd (idForString kPsPublicStrings ''Keywords'' (pw_names ?b)))\<rparr>) = (x0, r0)"
      by fastforce
    then have "upd_folder 0 (\<lambda>f. f\<lparr>fd_parent := kNidRootFolder\<rparr>) r0 = r" by (simp add: r_def)
    then show ?thesis
      unfolding s_def init_def Let_def using 0 1 2 3 4 5 6 7 h1(1) keep(1) [OF 2] keep(1) [OF 3] by simp
  qed
  have guid: "pw_guid r = guid" by (simp add: r_def upd_folder_def makeFolder_def PstWriter_blank_def Let_def)
  show "writer_holds [] s" using h7(2) by (simp add: s)
  show "map fd_place (pw_folders s) = first_places" using h7(3) by (simp add: s first_places_def)
  show "(pw_guid s, [pw_ipm_subtree s, pw_deleted_items s, pw_sent_items s, pw_outbox s, pw_search_root s]) = (guid, map folder_nid [0..<5])"
    using keep [OF 1] keep [OF 2] keep [OF 3] keep [OF 4] keep [OF 5] keep [OF 6] keep [OF 7] h1(1) h2(1) h3(1) h4(1) h5(1)
    by (simp add: s guid upt_conv_Cons numeral_eq_Suc)
qed

subsection \<open>The calls of a client, and the mailbox they mean\<close>

datatype pst_call = CreateFolder nid string | AddMessage nid message

primrec run_call :: "pst_call \<Rightarrow> (pst, unit) prog" where
  "run_call (CreateFolder parent name) = bindM (createFolder parent name) (\<lambda>_. ret ())"
| "run_call (AddMessage f msg) = addMessage f msg"

definition session :: "pst_call list \<Rightarrow> (pst, unit) prog" where
  "session calls = bindM (forM run_call calls) (\<lambda>_. pst_finish)"

text \<open>A mailbox: folders, and the messages with the folder each is in.\<close>

type_synonym mailbox = "place list \<times> mail_log"

fun mailbox_call :: "mailbox \<Rightarrow> pst_call \<Rightarrow> mailbox option" where
  "mailbox_call (ps, log) (CreateFolder parent name) =
     (if parent \<in> fst ` set ps then Some (grown (folder_nid (length ps - 1)) parent name ps, log) else None)"
| "mailbox_call (ps, log) (AddMessage f msg) = (if f \<in> fst ` set ps then Some (ps, log @ [(f, msg)]) else None)"

primrec mailbox_calls :: "mailbox \<Rightarrow> pst_call list \<Rightarrow> mailbox option" where
  "mailbox_calls m [] = Some m"
| "mailbox_calls m (c # cs) = Option.bind (mailbox_call m c) (\<lambda>m. mailbox_calls m cs)"

abbreviation mailbox_of :: "pst \<Rightarrow> mail_log \<Rightarrow> mailbox" where
  "mailbox_of s log \<equiv> (map fd_place (pw_folders s), log)"

primrec call_fits :: "pst_call \<Rightarrow> bool" where
  "call_fits (CreateFolder parent name) = text_fits name"
| "call_fits (AddMessage f msg) = message_fits msg"

text \<open>What no call changes.\<close>

definition known :: "pst \<Rightarrow> bytes \<times> nid list" where
  "known s = (pw_guid s, [pw_ipm_subtree s, pw_deleted_items s, pw_sent_items s, pw_outbox s, pw_search_root s])"

lemma known_same: "known (s\<lparr>pw_next_message := x\<rparr>) = known s" "known (upd_folder i f s) = known s"
  by (simp_all add: known_def upd_folder_def)

lemma folder_at_keeps: "keeps P (folder_at n)"
  by (rule hoareI) (auto simp: folder_at_def bindM_def getM_def ret_def throw_def split: option.splits)

lemma run_call_known: "keeps (\<lambda>s. known s = k) (run_call c)"
proof -
  have "keeps (\<lambda>s. known s = k) (createFolder parent name)" for parent name
  proof -
    have "keeps (\<lambda>s. known s = k) (\<lambda>s. case makeFolder parent name 0 s of (n, s') \<Rightarrow> Some (Inr n, s'))"
      by (rule hoareI) (auto simp: makeFolder_def known_def Let_def split: if_splits)
    then show ?thesis unfolding createFolder_def by (intro hoare_intros folder_at_keeps)
  qed
  moreover have "keeps (\<lambda>s. known s = k) (addMessage f msg)" for f msg
  proof -
    have b: "keeps (\<lambda>s. known s = k) (pw_build m)" for m :: "(build, 'a) prog"
      unfolding pw_build_def by (rule keeps_zoomM [where Q = "\<lambda>_. True"]) (simp_all add: hoare_def known_def split: sum.split)
    have n: "keeps (\<lambda>s. known s = k) (pw_on_ndb m)" for m :: "(ndb, 'a) prog"
      unfolding pw_on_ndb_def by (rule keeps_zoomM [where Q = "\<lambda>_. True"]) (simp_all add: hoare_def known_def split: sum.split)
    have c: "keeps (\<lambda>s. known s = k) (pw_contents i m)" for i and m :: "(tstate, 'a) prog"
      unfolding pw_contents_def upd_folder_def by (rule keeps_zoomM [where Q = "\<lambda>_. True"]) (simp_all add: hoare_def known_def split: sum.split)
    show ?thesis
      unfolding addMessage_def by (auto intro!: hoare_intros folder_at_keeps b n c simp: known_same)
  qed
  ultimately show ?thesis by (cases c) (auto intro!: hoare_intros)
qed

text \<open>A call does to what the writer holds what it does to the mailbox.\<close>

lemma run_call_law:
  assumes inv: "writer_holds log s" and few: "length log < 2 ^ 20" "length (pw_folders s) < 2 ^ 20" and fit: "call_fits c"
    and run: "run_call c s = Some (Inr (), s')"
  shows "\<exists>log'. mailbox_call (mailbox_of s log) c = Some (mailbox_of s' log') \<and> writer_holds log' s'"
proof (cases c)
  case (CreateFolder parent name)
  then obtain n where n: "createFolder parent name s = Some (Inr n, s')" using run by (auto simp: bindM_Inr_iff ret_run)
  have "length (pw_folders s) < 2 ^ 26" using few(2) by simp
  from createFolder_law [OF inv this n] show ?thesis
    by (intro exI [of _ log]) (auto simp: CreateFolder image_image)
next
  case (AddMessage f msg)
  then have "message_fits msg" "addMessage f msg s = Some (Inr (), s')" using fit run by simp_all
  from addMessage_law [OF inv few(1) this] show ?thesis
    by (intro exI [of _ "log @ [(f, msg)]"]) (auto simp: AddMessage image_image)
qed

lemma mailbox_call_length:
  "mailbox_call (ps, log) c = Some (ps', log') \<Longrightarrow> length ps' \<le> Suc (length ps) \<and> length log' \<le> Suc (length log)"
  by (cases c) (auto simp: grown_def split: if_splits)

lemma run_calls_law:
  assumes "writer_holds log s" "length log + length calls < 2 ^ 20" "length (pw_folders s) + length calls < 2 ^ 20"
    and "\<forall>c \<in> set calls. call_fits c" "forM run_call calls s = Some (Inr (), s')"
  shows "\<exists>log'. mailbox_calls (mailbox_of s log) calls = Some (mailbox_of s' log') \<and> writer_holds log' s' \<and> known s' = known s \<and>
    length log' \<le> length log + length calls \<and> length (pw_folders s') \<le> length (pw_folders s) + length calls"
  using assms
proof (induction calls arbitrary: s log)
  case (Cons c calls)
  obtain s1 where 1: "run_call c s = Some (Inr (), s1)" and 2: "forM run_call calls s1 = Some (Inr (), s')"
    using Cons.prems(5) by (auto simp: bindM_Inr_iff)
  have few: "length log < 2 ^ 20" "length (pw_folders s) < 2 ^ 20" "call_fits c" using Cons.prems(2-4) by simp_all
  from run_call_law [OF Cons.prems(1) few 1] obtain log1 where
    l1: "mailbox_call (mailbox_of s log) c = Some (mailbox_of s1 log1)" "writer_holds log1 s1" by blast
  have len: "length (pw_folders s1) \<le> Suc (length (pw_folders s))" "length log1 \<le> Suc (length log)"
    using mailbox_call_length [OF l1(1)] by simp_all
  have few1: "length log1 + length calls < 2 ^ 20" "length (pw_folders s1) + length calls < 2 ^ 20" "\<forall>c \<in> set calls. call_fits c"
    using Cons.prems(2-4) len by simp_all
  from Cons.IH [OF l1(2) few1 2] obtain log' where
    "mailbox_calls (mailbox_of s1 log1) calls = Some (mailbox_of s' log')" "writer_holds log' s'" "known s' = known s1"
      "length log' \<le> length log1 + length calls" "length (pw_folders s') \<le> length (pw_folders s1) + length calls" by blast
  moreover have "known s1 = known s" using keepsD [OF run_call_known _ 1, of "known s"] by simp
  ultimately show ?case using l1(1) len by (intro exI [of _ log']) simp
qed (simp add: ret_run)

subsection \<open>The file of a mailbox\<close>

text \<open>The folder at a place, counting its messages.\<close>

definition place_folder :: "mail_log \<Rightarrow> place \<Rightarrow> folder" where
  "place_folder log = (\<lambda>(n, parent, name, children).
     \<lparr>fd_nid = n, fd_parent = parent, fd_name = name, fd_children = children, fd_contents = TableContextWriter_new contentsColumns,
       fd_message_count = length (in_folder n log), fd_unread = of_nat (unread_of (in_folder n log))\<rparr>)"

definition known_folders_in_file :: "disk \<Rightarrow> bytes \<Rightarrow> bool" where
  "known_folders_in_file d guid \<longleftrightarrow> file_has d kNidMessageStore 0 (\<lambda>nd. let look = file_block d; eid = entryId guid in
     shows_prop look nd PR_RECORD_KEY guid \<and> shows_text look nd PR_DISPLAY_NAME ''Personal Folders'' \<and>
     shows_prop look nd PR_IPM_SUBTREE_ENTRYID (eid (folder_nid 0)) \<and> shows_prop look nd PR_IPM_WASTEBASKET_ENTRYID (eid (folder_nid 1)) \<and>
     shows_prop look nd PR_IPM_SENTMAIL_ENTRYID (eid (folder_nid 2)) \<and> shows_prop look nd PR_IPM_OUTBOX_ENTRYID (eid (folder_nid 3)) \<and>
     shows_prop look nd PR_FINDER_ENTRYID (eid (folder_nid 4)))"

definition mailbox_in_file :: "disk \<Rightarrow> bytes \<Rightarrow> mailbox \<Rightarrow> bool" where
  "mailbox_in_file d guid = (\<lambda>(ps, log). let fs = map (place_folder log) ps in
     messages_in_file d guid log \<and> list_all (folder_in_file d log fs) fs \<and> known_folders_in_file d guid)"

lemma folder_in_file_cong:
  assumes "map fd_still fs' = map fd_still fs" "fd_still f' = fd_still f"
  shows "folder_in_file d log fs' f' = folder_in_file d log fs f"
proof -
  have "folder_shown look nd f' = folder_shown look nd f" for look nd using assms(2) by (simp add: folder_shown_def)
  then show ?thesis using assms(2) unfolding folder_in_file_def subfolders_cong(1) [OF assms(1)] by simp
qed

lemma held_folders:
  assumes "writer_holds log s"
  shows "map fd_still (map (place_folder log) (map fd_place (pw_folders s))) = map fd_still (pw_folders s)"
  using assms by (auto simp: writer_holds_def folder_holds_def place_folder_def list_all_iff)

lemma finish_mailbox:
  assumes inv: "writer_holds log s" and fit: "\<forall>f \<in> set (pw_folders s). text_fits (fd_name f)"
    and few: "length (pw_folders s) \<le> 2 ^ 20" "length log < 2 ^ 20" and known: "known s = (guid, map folder_nid [0..<5])"
    and run: "pst_finish s = Some (Inr (), s')"
  shows "mailbox_in_file (disk (pw_ndb s')) guid (mailbox_of s log)"
proof -
  let ?d = "disk (pw_ndb s')" and ?fs = "pw_folders s" and ?gs = "map (place_folder log) (map fd_place (pw_folders s))"
  have h: "file_holds ?d log s" by (rule pst_finish_law [OF inv fit few run])
  note still = held_folders [OF inv]
  have "folder_in_file ?d log ?gs (?gs ! j)" if j: "j < length ?gs" for j
  proof -
    have "folder_in_file ?d log ?fs (?fs ! j)" using h j by (simp add: file_holds_def list_all_length)
    then show ?thesis using folder_in_file_cong [OF still still_nids(3) [OF still, of j]] j by simp
  qed
  then have "list_all (folder_in_file ?d log ?gs) ?gs" by (simp only: list_all_length) blast
  moreover have "known_folders_in_file ?d guid"
    using h known by (auto simp: file_holds_def known_folders_in_file_def store_shown_def file_has_def Let_def known_def upt_conv_Cons numeral_eq_Suc)
  moreover have "messages_in_file ?d guid log" using h known by (simp add: file_holds_def known_def)
  ultimately show ?thesis by (simp add: mailbox_in_file_def Let_def del: map_map)
qed

subsection \<open>A session within its means\<close>

text \<open>The names of the folders.\<close>

definition names_upto :: "nat \<Rightarrow> place list \<Rightarrow> bool" where
  "names_upto k ps \<longleftrightarrow> (\<forall>(n, parent, name, children) \<in> set ps. length name \<le> k)"

primrec call_names_upto :: "nat \<Rightarrow> pst_call \<Rightarrow> bool" where
  "call_names_upto k (CreateFolder parent name) = (length name \<le> k)"
| "call_names_upto k (AddMessage f msg) = True"

lemma mailbox_calls_names:
  "mailbox_calls (ps, log) calls = Some (ps', log') \<Longrightarrow> names_upto k ps \<Longrightarrow> \<forall>c \<in> set calls. call_names_upto k c \<Longrightarrow> names_upto k ps'"
proof (induction calls arbitrary: ps log)
  case (Cons c calls)
  obtain ps1 log1 where 1: "mailbox_call (ps, log) c = Some (ps1, log1)" and 2: "mailbox_calls (ps1, log1) calls = Some (ps', log')"
    using Cons.prems(1) by (auto simp: bind_eq_Some_conv)
  have "names_upto k ps1" using 1 Cons.prems(2,3) by (cases c) (auto simp: names_upto_def grown_def split: if_splits)
  then show ?case using Cons.IH [OF 2] Cons.prems(3) by simp
qed simp

lemma names_upto_folders: "names_upto k (map fd_place fs) \<longleftrightarrow> (\<forall>f \<in> set fs. length (fd_name f) \<le> k)"
  by (auto simp: names_upto_def)

lemma first_names: "23 \<le> k \<Longrightarrow> names_upto k first_places"
  by (simp add: names_upto_def first_places_def)

text \<open>A writer just constructed.\<close>

lemma fresh_writer:
  fixes clock :: "nat \<Rightarrow> int"
  assumes new: "PstWriter_new path key opens accepts clock = Inr s" and key: "16 \<le> length key"
  obtains d where "NdbWriter_new path opens accepts = Inr d" "writer_holds [] s" "map fd_place (pw_folders s) = first_places"
    "known s = (take 16 key, map folder_nid [0..<5])" "s = init (PstWriter_blank d (take 16 key) clock)"
proof -
  obtain d where d: "NdbWriter_new path opens accepts = Inr d" "s = init (PstWriter_blank d (take 16 key) clock)"
    using new by (auto simp: PstWriter_new_def split: sum.splits)
  have n: "nodes_are [] d" using store_ok_new [OF d(1)] NdbWriter_new_ok [OF d(1)] by (simp add: nodes_are_def)
  have k: "length (take 16 key) = 16" using key by simp
  note new = init_law [OF n k, of clock, folded d(2)]
  show ?thesis by (rule that [OF d(1) new(1,2) new(3) [folded known_def] d(2)])
qed

lemma session_law:
  fixes clock :: "nat \<Rightarrow> int"
  assumes new: "PstWriter_new path key opens accepts clock = Inr s" "16 \<le> length key"
    and calls: "\<forall>c \<in> set calls. call_fits c" "length calls < 2 ^ 19" and run: "session calls s = Some (Inr (), s')"
  shows "\<exists>m. mailbox_calls (first_places, []) calls = Some m \<and> mailbox_in_file (disk (pw_ndb s')) (take 16 key) m"
proof -
  obtain d where s: "writer_holds [] s" "map fd_place (pw_folders s) = first_places" "known s = (take 16 key, map folder_nid [0..<5])"
    by (rule fresh_writer [OF new])
  obtain s1 where 1: "forM run_call calls s = Some (Inr (), s1)" and 2: "pst_finish s1 = Some (Inr (), s')"
    using run by (auto simp: session_def bindM_Inr_iff)
  have n: "length (pw_folders s) = 8" using arg_cong [OF s(2), of length] by (simp add: first_places_def)
  have few: "length ([] :: mail_log) + length calls < 2 ^ 20" "length (pw_folders s) + length calls < 2 ^ 20" using calls(2) n by simp_all
  from run_calls_law [OF s(1) few calls(1) 1] obtain log where
    log: "mailbox_calls (first_places, []) calls = Some (mailbox_of s1 log)" "writer_holds log s1" "known s1 = known s"
      "length log \<le> length calls" "length (pw_folders s1) \<le> 8 + length calls" by (auto simp: s(2) n)
  have "\<forall>c \<in> set calls. call_names_upto (2 ^ 60 - 1) c"
  proof
    fix c assume "c \<in> set calls"
    then have "call_fits c" using calls(1) by blast
    then show "call_names_upto (2 ^ 60 - 1) c" by (cases c) simp_all
  qed
  from mailbox_calls_names [OF log(1) first_names this] have "names_upto (2 ^ 60 - 1) (map fd_place (pw_folders s1))" by simp
  then have fit: "\<forall>f \<in> set (pw_folders s1). text_fits (fd_name f)" unfolding names_upto_folders by fastforce
  have "length (pw_folders s1) \<le> 2 ^ 20" "length log < 2 ^ 20" using log(4,5) calls(2) by simp_all
  from finish_mailbox [OF log(2) fit this _ 2] log(1,3) s(3) show ?thesis by auto
qed

text \<open>The name map and the load as calls are made.\<close>

lemma addMessage_names:
  assumes n: "8 \<le> n" and msg: "names_within n msg"
  shows "keeps (\<lambda>s. names_small n (pw_names s)) (addMessage f msg)"
proof -
  let ?P = "\<lambda>s. names_small n (pw_names s)"
  have b: "keeps ?P (pw_build m)" if "keeps (bd_small n) m" for m :: "(build, 'a) prog"
    unfolding pw_build_def by (rule keeps_zoomM [OF that]) simp_all
  have d: "keeps ?P (pw_on_ndb m)" for m :: "(ndb, 'a) prog"
    unfolding pw_on_ndb_def by (rule keeps_zoomM [where Q = "\<lambda>_. True"]) (simp_all add: hoare_def split: sum.split)
  have c: "keeps ?P (pw_contents i m)" for i and m :: "(tstate, 'a) prog"
    unfolding pw_contents_def upd_folder_def by (rule keeps_zoomM [where Q = "\<lambda>_. True"]) (simp_all add: hoare_def split: sum.split)
  have built: "keeps (bd_small n) (buildMessage guid msg k False)" for guid k by (rule names_buildMessage(1) [OF n msg])
  show ?thesis
    unfolding addMessage_def
    by (auto intro!: hoare_intros folder_at_keeps b d c built names_on_subs simp: upd_folder_def)
qed

lemma load_snoc: "load f (log @ [(g, msg)]) = load f log + (if g = f then row_budget msg else 0)"
  by (simp add: load_def)

lemma mailbox_calls_load: "mailbox_calls (ps, log) calls = Some (ps', log') \<Longrightarrow> load f log \<le> load f log'"
proof (induction calls arbitrary: ps log)
  case (Cons c calls)
  obtain ps1 log1 where 1: "mailbox_call (ps, log) c = Some (ps1, log1)" and 2: "mailbox_calls (ps1, log1) calls = Some (ps', log')"
    using Cons.prems(1) by (auto simp: bind_eq_Some_conv)
  have "load f log \<le> load f log1" using 1 by (cases c) (auto simp: load_snoc split: if_splits)
  then show ?case using Cons.IH [OF 2] by simp
qed simp

primrec call_cost :: "pst_call \<Rightarrow> nat" where
  "call_cost (CreateFolder parent name) = 0"
| "call_cost (AddMessage f msg) = message_cost msg + row_budget msg"

text \<open>A call that a session can afford.\<close>

primrec call_cheap :: "pst_call \<Rightarrow> bool" where
  "call_cheap (CreateFolder parent name) = (length name \<le> 1000)"
| "call_cheap (AddMessage f msg) = (message_fits msg \<and> message_cost msg < 2 ^ 16 \<and> names_within 8000 msg)"

lemma call_cheap_fits: "call_cheap c \<Longrightarrow> call_fits c \<and> call_names_upto 1000 c"
  by (cases c) simp_all

lemma run_call_live:
  assumes inv: "writer_holds log s" and thin: "slim log s" and names: "names_small 8000 (pw_names s)" and few: "length log < 2 ^ 20"
    and call: "mailbox_call (mailbox_of s log) c = Some (ps', log')" "call_cheap c" and room: "\<forall>f. load f log' \<le> max_load"
    and sp: "spare (call_cost c + b) (pw_ndb s)"
  shows "\<exists>s'. run_call c s = Some (Inr (), s') \<and> slim log' s' \<and> names_small 8000 (pw_names s') \<and> spare b (pw_ndb s')"
proof (cases c)
  case (CreateFolder parent name)
  then have p: "parent \<in> fd_nid ` set (pw_folders s)" "log' = log" using call(1) by (auto simp: image_image split: if_splits)
  from createFolder_live [OF thin p(1)] obtain n s' where
    1: "createFolder parent name s = Some (Inr n, s')" "slim log s'" "pw_ndb s' = pw_ndb s" "pw_names s' = pw_names s" by blast
  then show ?thesis using 1 names sp p(2) by (simp add: CreateFolder bindM_run ret_run)
next
  case (AddMessage f msg)
  then have f: "f \<in> fd_nid ` set (pw_folders s)" "log' = log @ [(f, msg)]" using call(1) by (auto simp: image_image split: if_splits)
  have m: "message_fits msg" "message_cost msg < 2 ^ 16" "names_within 8000 msg" using call(2) by (simp_all add: AddMessage)
  have "load f log + row_budget msg \<le> max_load" using room f(2) load_snoc [of f log f msg] by metis
  moreover have "spare (message_cost msg + row_budget msg + b) (pw_ndb s)" using sp by (simp add: AddMessage)
  ultimately obtain s' where 1: "addMessage f msg s = Some (Inr (), s')" "spare b (pw_ndb s')" "slim (log @ [(f, msg)]) s'"
    using addMessage_live [OF inv thin few m(1,2) f(1)] by blast
  have "names_small 8000 (pw_names s')" using keepsD [OF addMessage_names [OF _ m(3)] names 1(1)] by simp
  then show ?thesis using 1 f(2) by (simp add: AddMessage)
qed

lemma run_calls_live:
  assumes "writer_holds log s" "slim log s" "names_small 8000 (pw_names s)" "length log + length calls < 2 ^ 20"
    "length (pw_folders s) + length calls < 2 ^ 20" "mailbox_calls (mailbox_of s log) calls = Some (ps', log')"
    "\<forall>c \<in> set calls. call_cheap c" "\<forall>f. load f log' \<le> max_load" "spare (sum_list (map call_cost calls) + b) (pw_ndb s)"
  shows "\<exists>s'. forM run_call calls s = Some (Inr (), s') \<and> slim log' s' \<and> names_small 8000 (pw_names s') \<and> spare b (pw_ndb s')"
  using assms
proof (induction calls arbitrary: s log)
  case (Cons c calls)
  obtain ps1 log1 where 1: "mailbox_call (mailbox_of s log) c = Some (ps1, log1)" and 2: "mailbox_calls (ps1, log1) calls = Some (ps', log')"
    using Cons.prems(6) by (auto simp: bind_eq_Some_conv)
  have room: "\<forall>f. load f log1 \<le> max_load" using mailbox_calls_load [OF 2] Cons.prems(8) by (meson le_trans)
  have few: "length log < 2 ^ 20" "length (pw_folders s) < 2 ^ 20" "call_cheap c" using Cons.prems(4,5,7) by simp_all
  have "spare (call_cost c + (sum_list (map call_cost calls) + b)) (pw_ndb s)" using Cons.prems(9) by (simp add: add.assoc)
  from run_call_live [OF Cons.prems(1-3) few(1) 1 few(3) room this] obtain s1 where
    s1: "run_call c s = Some (Inr (), s1)" "slim log1 s1" "names_small 8000 (pw_names s1)" "spare (sum_list (map call_cost calls) + b) (pw_ndb s1)"
    by blast
  from run_call_law [OF Cons.prems(1) few(1,2) _ s1(1)] call_cheap_fits [OF few(3)] 1
  have h1: "writer_holds log1 s1" "ps1 = map fd_place (pw_folders s1)" by auto
  have "length log1 + length calls < 2 ^ 20" "length (pw_folders s1) + length calls < 2 ^ 20"
    using mailbox_call_length [OF 1] Cons.prems(4,5) h1(2) by simp_all
  from Cons.IH [OF h1(1) s1(2,3) this] 2 Cons.prems(7,8) s1(4) h1(2) show ?case using s1(1) by (auto simp: bindM_run)
qed (simp add: ret_run)

lemma init_thin:
  assumes "pw_folders s = []" "pw_names s = NameIdMap_new" and n: "8 \<le> n"
  shows "slim [] (init s) \<and> names_small n (pw_names (init s)) \<and> pw_ndb (init s) = pw_ndb s"
proof -
  let ?names = "ensureGuid kPsInternetHeaders (snd (idForString kPsPublicStrings ''Keywords'' NameIdMap_new))"
  let ?P = "\<lambda>t. slim [] t \<and> pw_names t = ?names \<and> pw_ndb t = pw_ndb s"
  have step: "?P (case makeFolder parent name forced t of (k, t') \<Rightarrow> g k t')"
    if "?P t" "\<And>k t'. ?P t' \<Longrightarrow> ?P (g k t')" for parent name forced t g
  proof -
    obtain k t' where 1: "makeFolder parent name forced t = (k, t')" by fastforce
    have "?P t'" using makeFolder_thin [OF conjunct1 [OF that(1)] 1] that(1) by simp
    then show ?thesis using that(2) by (simp only: 1 prod.case)
  qed
  have same: "slim [] (t\<lparr>pw_ipm_subtree := n\<rparr>) = slim [] t" "slim [] (t\<lparr>pw_deleted_items := n\<rparr>) = slim [] t"
      "slim [] (t\<lparr>pw_sent_items := n\<rparr>) = slim [] t" "slim [] (t\<lparr>pw_outbox := n\<rparr>) = slim [] t" "slim [] (t\<lparr>pw_search_root := n\<rparr>) = slim [] t"
      "slim [] (t\<lparr>pw_views := n\<rparr>) = slim [] t" "slim [] (t\<lparr>pw_common_views := n\<rparr>) = slim [] t" for t n
    by (simp_all add: slim_def)
  have root: "?P (upd_folder 0 (\<lambda>f. f\<lparr>fd_parent := kNidRootFolder\<rparr>) t)" if "?P t" for t
    using that by (cases "pw_folders t") (simp_all add: slim_def upd_folder_def load_def)
  have "?P (init s)"
    unfolding init_def Let_def
    by (rule step, use assms in \<open>simp add: slim_def\<close>, (rule step, (rule root)?, simp add: same)+, simp add: same)
  moreover have "names_small n ?names"
    by (intro ensureGuid_small idForString_small names_small_new) (use n in simp_all)
  ultimately show ?thesis by simp
qed

text \<open>What finishing costs with few folders of short names.\<close>

lemma short_text_cost: "length s \<le> 1000 \<Longrightarrow> text_cost s = 6"
  by (simp add: text_cost_def)

lemma hierarchy_cells_cost: "length (fd_name c) \<le> 1000 \<Longrightarrow> fill_cost 13 (hierarchy_cells c) \<le> 90"
  using string_cost [of PR_DISPLAY_NAME "fd_name c"] string_cost [of PR_CONTAINER_CLASS "''IPF.Note''"] short_text_cost [of "fd_name c"]
    short_text_cost [of "''IPF.Note''"]
  by (simp add: fill_cost_def hierarchy_cells_def variable_cell_def fixed_cell_def place_cost_def put32_def)

lemma few_folders:
  assumes names: "\<forall>f \<in> set fs. length (fd_name f) \<le> 1000" and few: "length fs \<le> 400" and thin: "\<forall>f \<in> set fs. bulk (fd_contents f) \<le> max_load"
  shows "\<forall>f \<in> set fs. cheap fs f" "finish_budget 8000 fs \<le> 2 ^ 27"
proof -
  have h: "hierarchy_budget fs n \<le> 36008" for n
  proof -
    let ?cs = "subfolders fs n"
    have "length ?cs \<le> 400" using few length_filter_le [of "\<lambda>c. fd_parent c = n" "tl fs"] by (simp add: subfolders_def)
    moreover have "sum_list (map (\<lambda>c. fill_cost 13 (hierarchy_cells c)) ?cs) \<le> sum_list (map (\<lambda>c. 90) ?cs)"
      using names hierarchy_cells_cost by (intro sum_list_mono) (auto simp: subfolders_def dest: in_set_tl)
    ultimately show ?thesis by (simp add: hierarchy_budget_def sum_list_triv comp_def)
  qed
  have pc: "folder_pc_budget f = 66" if "f \<in> set fs" for f using names that by (simp add: folder_pc_budget_def short_text_cost)
  have h': "affordable (hierarchy_budget fs n)" for n by (rule le_trans [OF h]) simp
  show "\<forall>f \<in> set fs. cheap fs f" using h' pc thin by (simp add: cheap_def)
  have "folder_budget fs f \<le> 200000" if f: "f \<in> set fs" for f
    using pc [OF f] store_cost_mono [OF h [of "fd_nid f"]] bspec [OF thin f] by (simp add: folder_budget_def finish_cost_def store_cost_def)
  then have "sum_list (map (folder_budget fs) fs) \<le> sum_list (map (\<lambda>_. 200000) fs)" by (intro sum_list_mono) simp
  then show "finish_budget 8000 fs \<le> 2 ^ 27"
    using few by (simp add: finish_budget_def sum_list_triv reserved_cost_def store_cost_def names_cost_def)
qed

lemma mailbox_calls_costs:
  "mailbox_calls (ps, log) calls = Some (ps', log') \<Longrightarrow> \<forall>c \<in> set calls. call_cheap c \<Longrightarrow> \<forall>f. load f log' \<le> max_load \<Longrightarrow>
   sum_list (map call_cost calls) \<le> 2 ^ 17 * length calls"
proof (induction calls arbitrary: ps log)
  case (Cons c calls)
  obtain ps1 log1 where 1: "mailbox_call (ps, log) c = Some (ps1, log1)" and 2: "mailbox_calls (ps1, log1) calls = Some (ps', log')"
    using Cons.prems(1) by (auto simp: bind_eq_Some_conv)
  have "call_cost c \<le> 2 ^ 17"
  proof (cases c)
    case (AddMessage f msg)
    then have "load f log1 = load f log + row_budget msg" using 1 by (auto simp: load_snoc split: if_splits)
    moreover have "load f log1 \<le> max_load" using mailbox_calls_load [OF 2] Cons.prems(3) le_trans by blast
    moreover have "message_cost msg < 2 ^ 16" using Cons.prems(2) by (simp add: AddMessage)
    ultimately show ?thesis by (simp add: AddMessage)
  qed simp
  then show ?case using Cons.IH [OF 2] Cons.prems(2,3) by simp
qed simp

lemma session_live:
  fixes clock :: "nat \<Rightarrow> int"
  assumes key: "16 \<le> length key" and calls: "mailbox_calls (first_places, []) calls = Some (ps, log)" "\<forall>c \<in> set calls. call_cheap c"
    "length calls \<le> 2 ^ 16" and few: "length ps \<le> 400" "\<forall>f. load f log \<le> max_load"
  shows "\<exists>s s'. PstWriter_new path key True (\<lambda>_ _. True) clock = Inr s \<and> session calls s = Some (Inr (), s')"
proof -
  obtain d0 where "NdbWriter_new path True (\<lambda>_ _. True) = Inr d0" using fresh_exists by blast
  then obtain s where new: "PstWriter_new path key True (\<lambda>_ _. True) clock = Inr s" by (simp add: PstWriter_new_def)
  obtain d where d: "NdbWriter_new path True (\<lambda>_ _. True) = Inr d" and s: "writer_holds [] s" "map fd_place (pw_folders s) = first_places"
      and init: "s = init (PstWriter_blank d (take 16 key) clock)"
    by (rule fresh_writer [OF new key])
  have thin: "slim [] s" "names_small 8000 (pw_names s)" "pw_ndb s = d"
    using init_thin [of "PstWriter_blank d (take 16 key) clock" 8000] by (simp_all add: init PstWriter_blank_def)
  have "spare (2 ^ 34) d" using fresh_roomy [OF d, of "2 ^ 36 + 2 ^ 34"] NdbWriter_new_ok [OF d] by (simp add: spare_def)
  moreover have "sum_list (map call_cost calls) \<le> 2 ^ 33"
    using mailbox_calls_costs [OF calls(1,2) few(2)] calls(3) by simp
  ultimately have sp: "spare (sum_list (map call_cost calls) + 2 ^ 27) (pw_ndb s)" unfolding thin(3) by (elim spare_le) simp
  have n: "length (pw_folders s) = 8" using arg_cong [OF s(2), of length] by (simp add: first_places_def)
  have len: "length ([] :: mail_log) + length calls < 2 ^ 20" "length (pw_folders s) + length calls < 2 ^ 20" using calls(3) n by simp_all
  have box: "mailbox_calls (mailbox_of s []) calls = Some (ps, log)" using calls(1) by (simp only: s(2))
  from run_calls_live [OF s(1) thin(1,2) len box calls(2) few(2) sp] obtain s1 where
    s1: "forM run_call calls s = Some (Inr (), s1)" "slim log s1" "names_small 8000 (pw_names s1)" "spare (2 ^ 27) (pw_ndb s1)" by blast
  have fits: "\<forall>c \<in> set calls. call_fits c" "\<forall>c \<in> set calls. call_names_upto 1000 c" using calls(2) call_cheap_fits by blast+
  from run_calls_law [OF s(1) len fits(1) s1(1)] box have
    h: "writer_holds log s1" "ps = map fd_place (pw_folders s1)" "length log \<le> length calls" by auto
  have "names_upto 1000 ps" by (rule mailbox_calls_names [OF calls(1) first_names fits(2)]) simp
  then have names: "\<forall>f \<in> set (pw_folders s1). length (fd_name f) \<le> 1000" unfolding h(2) names_upto_folders .
  have folders: "length (pw_folders s1) \<le> 400" using few(1) by (simp add: h(2))
  have "\<forall>f \<in> set (pw_folders s1). bulk (fd_contents f) \<le> max_load" using s1(2) few(2) le_trans unfolding slim_def by blast
  note fin = few_folders [OF names folders this]
  have fit: "\<forall>f \<in> set (pw_folders s1). text_fits (fd_name f)" using names by fastforce
  have small: "length (pw_folders s1) \<le> 2 ^ 20" "length log < 2 ^ 20" "affordable (names_cost 8000)"
    using folders h(3) calls(3) by (simp_all add: names_cost_def)
  have "spare (finish_budget 8000 (pw_folders s1)) (pw_ndb s1)" by (rule spare_le [OF s1(4) fin(2)])
  from pst_finish_live [OF h(1) fit small(1,2) fin(1) s1(3) small(3) this] obtain s' where "pst_finish s1 = Some (Inr (), s')" by blast
  then have "session calls s = Some (Inr (), s')" using s1(1) by (simp add: session_def bindM_run)
  then show ?thesis using new by blast
qed

subsection \<open>Properties\<close>

text \<open>A client that files a message with two attachments, one of them a message, in a folder of its own.\<close>

definition sample_key :: bytes where
  "sample_key = map of_nat [1..<17]"

definition sample_mail :: message where
  "sample_mail = Message (empty_fields\<lparr>m_from := \<lparr>mb_name = ''Ada'', mb_email = ''ada@x''\<rparr>, m_to := [\<lparr>mb_name = ''Ben'', mb_email = ''ben@x''\<rparr>],
       m_subject := ''Hi'', body_text := ''Hello'', m_headers := [\<lparr>rh_name = ''X-Seq'', rh_value = ''1''\<rparr>], m_keywords := [''red'']\<rparr>)
     [Attachment ''a.txt'' ''text/plain'' [] False [104, 105] None,
      Attachment [] ''message/rfc822'' [] False [] (Some (Message (empty_fields\<lparr>m_subject := ''Re''\<rparr>) []))]"

definition sample_calls :: "pst_call list" where
  "sample_calls = [CreateFolder (folder_nid 0) ''Mail'', AddMessage (folder_nid 7) sample_mail]"

lemma sample_lengths:
  "length (string_array [''red'']) \<le> 100 \<and> length (string_array []) \<le> 100 \<and> length (oneOffEntryId ''Ben'' ''ben@x'') \<le> 100 \<and>
   length (recipient_key ''ben@x'') \<le> 100 \<and> to_string 2 = ''2''"
  by code_simp

lemma short_utf16: "length s \<le> 1000 \<Longrightarrow> length (utf8ToUtf16le s) div 4096 = 0"
  using length_utf8ToUtf16le [of s] by simp

lemma sample_mail_fits: "message_fits sample_mail"
  using sample_lengths length_utf8ToUtf16le [of "''red''"]
  by (simp add: sample_mail_def empty_fields_def fields_fit_def recipients_fit_def mailbox_fits_def attachment_fits_def no_mailbox_def
     joinMailboxes_def display_name_def header_blob_def)

lemma sample_mail_names: "names_within 8000 sample_mail"
  by (simp add: sample_mail_def empty_fields_def)

lemma short_value: "length s \<le> 1000 \<Longrightarrow> value_cost (utf8ToUtf16le s) = 1"
  using length_utf8ToUtf16le [of s] by (simp add: value_cost_def)

lemma sample_mail_row: "row_budget sample_mail \<le> max_load"
  by (simp add: sample_mail_def empty_fields_def row_budget_def write_cost_def contents_cells_def op_cost_def short_value
    joinMailboxes_def display_name_def fixed_cell_def variable_cell_def string_bytes_def Let_def)

lemma sample_mail_cost: "message_cost sample_mail < 2 ^ 16"
proof -
  have "length (string_array [''red'']) div 4096 = 0" "length (string_array []) div 4096 = 0" "length (oneOffEntryId ''Ben'' ''ben@x'') div 4096 = 0"
      "length (recipient_key ''ben@x'') div 4096 = 0" "to_string (Suc (Suc 0)) = ''2''"
    using sample_lengths by (simp_all add: numeral_2_eq_2)
  then show ?thesis
    by (simp add: sample_mail_def empty_fields_def no_mailbox_def props_cost_def fields_cost_def headers_cost_def recipients_cost_def
      attachment_cost_def attachment_row_cost_def attachment_pc_cost_def attachment_cells_def recipient_cells_def recipients_def fill_cost_def
      joinMailboxes_def display_name_def header_blob_def fixed_cell_def variable_cell_def text_cost_def store_cost_def data_cost_def
      string_bytes_def merge_headers_def merge_header_def place_cost_def Let_def attachment_name_def short_utf16)
qed

lemma sample_box: "\<exists>ps. mailbox_calls (first_places, []) sample_calls = Some (ps, [(folder_nid 7, sample_mail)]) \<and> length ps = 9"
  by (simp add: sample_calls_def first_places_def grown_def eval_nat_numeral)

lemma sample_load: "load f [(folder_nid 7, sample_mail)] \<le> max_load"
  using sample_mail_row by (simp add: load_def)

lemma sample_cheap: "\<forall>c \<in> set sample_calls. call_cheap c"
  using sample_mail_fits sample_mail_cost sample_mail_names by (simp add: sample_calls_def)

text \<open>
  C1: A session with the writer keeps its promise. However the disk behaves, if the constructor, fewer
  than 524288 calls that create folders and add messages, and \<open>finish\<close> all return, then every call
  referred to a folder known by then, and the file alone holds the mailbox those calls mean. Every
  message is in a node of its number whose parent is its folder, with the properties the writer means
  to store: subject, bodies, sender, recipients, times, flags, identifiers, transport headers,
  attachments to any depth, the categories under the name \<open>Keywords\<close>, and each other header under its
  own name, where the names are those that the name map of the file gives the ids; only a message
  with a header that found all 4096 names taken may have its headers in the transport headers alone.
  Every folder is there with its name, its counts and its parent; its hierarchy table lists its
  subfolders and nothing else, its contents table its messages and nothing else; and the message
  store points Outlook to the folders it asks for. The texts of a call must fit their fields: folder
  names and texts shorter than 2^60 characters, categories that 32-bit offsets address, at most 2^20
  recipients and attachments of a message, names of headers of at most 128 KB.
\<close>

theorem session_stored:
  fixes clock :: "nat \<Rightarrow> int"
  assumes "PstWriter_new path key opens accepts clock = Inr s" "16 \<le> length key"
    and "\<forall>c \<in> set calls. call_fits c" "length calls < 2 ^ 19" and "session calls s = Some (Inr (), s')"
  shows "\<exists>m. mailbox_calls (first_places, []) calls = Some m \<and> mailbox_in_file (disk (pw_ndb s')) (take 16 key) m"
  using assms by (rule session_law)

lemma session_stored_witness:
  "\<exists>s s' m. PstWriter_new ''mail.pst'' sample_key True (\<lambda>_ _. True) (\<lambda>_. 0) = Inr s \<and> session sample_calls s = Some (Inr (), s') \<and>
     mailbox_calls (first_places, []) sample_calls = Some m \<and> mailbox_in_file (disk (pw_ndb s')) sample_key m"
proof -
  obtain ps where ps: "mailbox_calls (first_places, []) sample_calls = Some (ps, [(folder_nid 7, sample_mail)])" "length ps = 9"
    using sample_box by blast
  have key: "16 \<le> length sample_key" "take 16 sample_key = sample_key" by (simp_all add: sample_key_def)
  have len: "length sample_calls = 2" by (simp add: sample_calls_def)
  obtain s s' where run: "PstWriter_new ''mail.pst'' sample_key True (\<lambda>_ _. True) (\<lambda>_. 0) = Inr s" "session sample_calls s = Some (Inr (), s')"
    using session_live [OF key(1) ps(1) sample_cheap, of "''mail.pst''" "\<lambda>_. 0"] ps(2) sample_load len by auto
  have "\<forall>c \<in> set sample_calls. call_fits c" using sample_cheap call_cheap_fits by blast
  from session_stored [OF run(1) key(1) this _ run(2)] show ?thesis using run len key(2) by auto
qed

text \<open>
  C2: A session within its means succeeds. On a disk that takes every write, the writer returns from
  every call and from \<open>finish\<close>, and the file holds the mailbox, provided every call refers to a folder
  that exists by then and the mailbox is within bounds: at most 65536 calls and 400 folders, folder
  names of at most 1000 characters, messages whose cost (blocks, heap blocks and subnodes, computed
  from their texts, recipients and attachments) is less than 65536 and whose header names have at
  most 8000 characters, and no contents table with a load above 64990. None of the limits at which
  the format's layers throw is reached then.
\<close>

theorem session_succeeds:
  fixes clock :: "nat \<Rightarrow> int"
  assumes "16 \<le> length key" "mailbox_calls (first_places, []) calls = Some (ps, log)" "\<forall>c \<in> set calls. call_cheap c"
    and "length calls \<le> 2 ^ 16" "length ps \<le> 400" "\<forall>f. load f log \<le> max_load"
  shows "\<exists>s s'. PstWriter_new path key True (\<lambda>_ _. True) clock = Inr s \<and> session calls s = Some (Inr (), s') \<and>
    mailbox_in_file (disk (pw_ndb s')) (take 16 key) (ps, log)"
proof -
  obtain s s' where run: "PstWriter_new path key True (\<lambda>_ _. True) clock = Inr s" "session calls s = Some (Inr (), s')"
    using session_live [OF assms] by blast
  have "\<forall>c \<in> set calls. call_fits c" using assms(3) call_cheap_fits by blast
  from session_law [OF run(1) assms(1) this _ run(2)] show ?thesis using run assms(2,4) by auto
qed

lemma session_succeeds_witness:
  "\<exists>s s' ps. PstWriter_new ''mail.pst'' sample_key True (\<lambda>_ _. True) (\<lambda>_. 0) = Inr s \<and> session sample_calls s = Some (Inr (), s') \<and>
     mailbox_in_file (disk (pw_ndb s')) sample_key (ps, [(folder_nid 7, sample_mail)])"
proof -
  obtain ps where ps: "mailbox_calls (first_places, []) sample_calls = Some (ps, [(folder_nid 7, sample_mail)])" "length ps = 9"
    using sample_box by blast
  have key: "16 \<le> length sample_key" "take 16 sample_key = sample_key" by (simp_all add: sample_key_def)
  have "length sample_calls \<le> 2 ^ 16" "length ps \<le> 400" using ps(2) by (simp_all add: sample_calls_def)
  from session_succeeds [OF key(1) ps(1) sample_cheap this, of "''mail.pst''" "\<lambda>_. 0"] sample_load show ?thesis unfolding key(2) by blast
qed

text \<open>
  C40: A call that names a folder the writer does not know throws, with the number in the message,
  and leaves the writer and its file as they were: no number is used up, no block is written.
\<close>

theorem unknown_folder_throws:
  assumes "\<not> list_ex (\<lambda>g. fd_nid g = f) (pw_folders s)"
  shows "addMessage f msg s = Some (Inl (PstError (''unknown folder id '' @ to_string (unat f))), s) \<and>
    createFolder f name s = Some (Inl (PstError (''unknown folder id '' @ to_string (unat f))), s)"
proof -
  have "find_folder 0 f (pw_folders s) = None" using assms by (auto simp: find_folder_None list_ex_iff)
  then have "folder_at f s = Some (Inl (PstError (''unknown folder id '' @ to_string (unat f))), s)"
    by (simp add: folder_at_def bindM_def getM_run throw_def)
  then show ?thesis by (simp add: addMessage_def createFolder_def bindM_def)
qed

lemma unknown_folder_throws_witness:
  "\<exists>s. PstWriter_new ''mail.pst'' sample_key True (\<lambda>_ _. True) (\<lambda>_. 0) = Inr s \<and> length (pw_folders s) = 8 \<and>
     addMessage 42 sample_mail s = Some (Inl (PstError ''unknown folder id 42''), s) \<and>
     createFolder 42 ''Mail'' s = Some (Inl (PstError ''unknown folder id 42''), s)"
proof -
  obtain d0 where "NdbWriter_new ''mail.pst'' True (\<lambda>_ _. True) = Inr d0" using fresh_exists by blast
  then obtain s where new: "PstWriter_new ''mail.pst'' sample_key True (\<lambda>_ _. True) (\<lambda>_. 0 :: int) = Inr s" by (simp add: PstWriter_new_def)
  have key: "16 \<le> length sample_key" by (simp add: sample_key_def)
  obtain d where places: "map fd_place (pw_folders s) = first_places" by (rule fresh_writer [OF new key])
  have fds: "map fst (map fd_place (pw_folders s)) = map fd_nid (pw_folders s)" by simp
  have "\<not> list_ex (\<lambda>n. n = 42) (map fst first_places)" by code_simp
  then have "\<not> list_ex (\<lambda>g. fd_nid g = 42) (pw_folders s)" unfolding places [symmetric] fds by (auto simp: list_ex_iff)
  from unknown_folder_throws [OF this, of sample_mail "''Mail''"]
  have "addMessage 42 sample_mail s = Some (Inl (PstError (''unknown folder id '' @ to_string (unat (42 :: nid)))), s)"
    "createFolder 42 ''Mail'' s = Some (Inl (PstError (''unknown folder id '' @ to_string (unat (42 :: nid)))), s)" by blast+
  moreover have "to_string (unat (42 :: nid)) = ''42''" by code_simp
  moreover have "length (pw_folders s) = 8" using arg_cong [OF places, of length] by (simp add: first_places_def)
  ultimately show ?thesis using new by simp
qed

end
