(* ===== verification/Migration.thy ===== *)
theory Migration
  imports Cli Writer_Session "HOL-Library.Multiset" "HOL-Library.Code_Target_Nat"
begin

section \<open>What a migration delivers\<close>

text \<open>
  The run of the pipeline as a session with the writer: which calls it makes, what becomes of every
  message the server listed, and what the finished file holds.
\<close>

subsection \<open>Calls that may fail\<close>

text \<open>
  The pipeline catches what \<open>addMessage\<close> throws and goes on with the same writer. A trace has the
  calls in order, each with the error it threw, if any.
\<close>

type_synonym trace = "(pst_call \<times> error option) list"

inductive attempts :: "pst \<Rightarrow> trace \<Rightarrow> pst \<Rightarrow> bool" where
  none: "attempts w [] w"
| returns: "run_call c w = Some (Inr (), w1) \<Longrightarrow> attempts w1 cs w2 \<Longrightarrow> attempts w ((c, None) # cs) w2"
| throws: "run_call c w = Some (Inl e, w1) \<Longrightarrow> attempts w1 cs w2 \<Longrightarrow> attempts w ((c, Some e) # cs) w2"

inductive_simps attempts_nil [simp]: "attempts w [] w'"
inductive_simps attempts_cons: "attempts w (c # cs) w'"

lemma attempts_append: "attempts w cs w1 \<Longrightarrow> attempts w1 ds w2 \<Longrightarrow> attempts w (cs @ ds) w2"
  by (induction rule: attempts.induct) (auto intro: attempts.intros)

text \<open>With no failure among them, the calls are the calls of a session.\<close>

lemma attempts_session:
  "attempts w cs w' \<Longrightarrow> filter (\<lambda>c. snd c \<noteq> None) cs = [] \<Longrightarrow> forM run_call (map fst cs) w = Some (Inr (), w')"
  by (induction rule: attempts.induct) (simp_all add: ret_run bindM_run)

text \<open>The messages that the calls added.\<close>

fun mails_of :: "trace \<Rightarrow> mail_log" where
  "mails_of [] = []"
| "mails_of ((AddMessage n msg, None) # cs) = (n, msg) # mails_of cs"
| "mails_of ((CreateFolder parent name, r) # cs) = mails_of cs"
| "mails_of ((AddMessage n msg, Some e) # cs) = mails_of cs"

lemma mails_of_append [simp]: "mails_of (cs @ ds) = mails_of cs @ mails_of ds"
  by (induction cs rule: mails_of.induct) simp_all

text \<open>The folders a trace creates have names of the path, and there are no more of them than names.\<close>

fun creates :: "trace \<Rightarrow> string list" where
  "creates [] = []"
| "creates ((CreateFolder parent name, r) # cs) = name # creates cs"
| "creates ((AddMessage n msg, r) # cs) = creates cs"

lemma creates_append [simp]: "creates (cs @ ds) = creates cs @ creates ds"
  by (induction cs rule: creates.induct) simp_all

definition made :: "string list \<Rightarrow> trace \<Rightarrow> bool" where
  "made names cs \<longleftrightarrow> set (creates cs) \<subseteq> set names \<and> length (creates cs) \<le> length names"

lemma made_append: "made names cs \<Longrightarrow> made names' cs' \<Longrightarrow> made (names @ names') (cs @ cs')"
  by (auto simp: made_def)

lemma made_adds: "\<forall>c \<in> set cs. \<exists>msg. fst c = AddMessage n msg \<Longrightarrow> creates cs = []"
  by (induction cs rule: creates.induct) auto

lemma made_nil [simp]: "made names []"
  by (simp add: made_def)

text \<open>The calls of a trace without failures.\<close>

lemma trace_calls:
  "filter (\<lambda>c. snd c \<noteq> None) cs = [] \<Longrightarrow> length cs = length (creates cs) + length (mails_of cs) \<and>
    (\<forall>c \<in> fst ` set cs. case c of CreateFolder p name \<Rightarrow> name \<in> set (creates cs) | AddMessage n msg \<Rightarrow> (n, msg) \<in> set (mails_of cs))"
proof (induction cs rule: creates.induct)
  case (2 parent name r cs)
  then show ?case by (cases r) (auto split: pst_call.splits)
next
  case (3 n msg r cs)
  then show ?case by (cases r) (auto split: pst_call.splits)
qed simp

lemma mails_of_log:
  "mailbox_calls m (map fst cs) = Some m' \<Longrightarrow> filter (\<lambda>c. snd c \<noteq> None) cs = [] \<Longrightarrow> snd m' = snd m @ mails_of cs"
proof (induction cs arbitrary: m rule: mails_of.induct)
  case (2 n msg cs)
  then show ?case by (cases m) (fastforce simp: bind_eq_Some_conv split: if_splits)
next
  case (3 parent name r cs)
  then show ?case by (cases m) (fastforce simp: bind_eq_Some_conv split: if_splits)
qed simp_all

subsection \<open>The folders of the writer\<close>

text \<open>What is fixed about a folder once it exists: its number, its parent and its name.\<close>

type_synonym home = "nid \<times> nid \<times> string"

definition place_home :: "place \<Rightarrow> home" where
  "place_home = (\<lambda>(n, parent, name, children). (n, parent, name))"

definition homes :: "pst \<Rightarrow> home list" where
  "homes w = map (\<lambda>f. (fd_nid f, fd_parent f, fd_name f)) (pw_folders w)"

lemma homes_places: "map place_home (map fd_place (pw_folders w)) = homes w"
  by (simp add: homes_def place_home_def)

text \<open>From a folder, a path of names leads to another.\<close>

primrec leads :: "home set \<Rightarrow> nid \<Rightarrow> string list \<Rightarrow> nid \<Rightarrow> bool" where
  "leads hs p [] n \<longleftrightarrow> n = p"
| "leads hs p (x # xs) n \<longleftrightarrow> (\<exists>q. (q, p, x) \<in> hs \<and> leads hs q xs n)"

lemma leads_mono: "leads hs p xs n \<Longrightarrow> hs \<subseteq> hs' \<Longrightarrow> leads hs' p xs n"
  by (induction xs arbitrary: p) auto

lemma leads_snoc: "leads hs p xs q \<Longrightarrow> (n, q, x) \<in> hs \<Longrightarrow> leads hs p (xs @ [x]) n"
  by (induction xs arbitrary: p) auto

lemma homes_update [simp]:
  "homes (w\<lparr>pw_next_message := k\<rparr>) = homes w" "homes (w\<lparr>pw_ndb := d\<rparr>) = homes w" "homes (w\<lparr>pw_names := m\<rparr>) = homes w"
  "homes (w\<lparr>pw_clock := t\<rparr>) = homes w"
  by (simp_all add: homes_def)

lemma map_update_same: "h (g (xs ! i)) = h (xs ! i) \<Longrightarrow> map h (xs[i := g (xs ! i)]) = map h xs"
  by (cases "i < length xs") (simp_all add: map_update list_update_same_conv list_update_beyond)

lemma homes_upd_folder:
  "(\<And>f. fd_nid (g f) = fd_nid f) \<Longrightarrow> (\<And>f. fd_parent (g f) = fd_parent f) \<Longrightarrow> (\<And>f. fd_name (g f) = fd_name f) \<Longrightarrow>
    homes (upd_folder i g w) = homes w"
  by (simp add: homes_def upd_folder_def map_update_same)

lemma addMessage_homes: "keeps (\<lambda>w. homes w = hs) (addMessage f msg)"
proof -
  let ?P = "\<lambda>w. homes w = hs"
  have b: "keeps ?P (pw_build m)" for m :: "(build, 'a) prog"
    unfolding pw_build_def by (rule keeps_zoomM [where Q = "\<lambda>_. True"]) (simp_all add: hoare_def split: sum.split)
  have n: "keeps ?P (pw_on_ndb m)" for m :: "(ndb, 'a) prog"
    unfolding pw_on_ndb_def by (rule keeps_zoomM [where Q = "\<lambda>_. True"]) (simp_all add: hoare_def split: sum.split)
  have c: "keeps ?P (pw_contents i m)" for i and m :: "(tstate, 'a) prog"
    unfolding pw_contents_def by (rule keeps_zoomM [where Q = "\<lambda>_. True"]) (simp_all add: hoare_def homes_upd_folder split: sum.split)
  show ?thesis
    unfolding addMessage_def by (auto intro!: hoare_intros folder_at_keeps b n c simp: homes_upd_folder)
qed

lemma add_child_homes:
  "map (\<lambda>f. (fd_nid f, fd_parent f, fd_name f)) (add_child parent n fs) = map (\<lambda>f. (fd_nid f, fd_parent f, fd_name f)) fs"
  unfolding add_child_def
  by (cases "find_folder 0 parent fs") (simp_all add: map_update_same [where g = "\<lambda>f. f\<lparr>fd_children := fd_children f @ [n]\<rparr>"])

lemma createFolder_homes:
  "createFolder parent name w = Some (Inr n, w') \<Longrightarrow> homes w' = homes w @ [(n, parent, name)]"
  by (auto simp: createFolder_def bindM_Inr_iff folder_at_run makeFolder_def homes_def add_child_homes Let_def split: if_splits)

lemma createFolder_throws: "createFolder parent name w = Some (Inl e, w') \<Longrightarrow> w' = w"
  by (auto simp: createFolder_def bindM_Inl_iff folder_at_def getM_run throw_run ret_run bindM_def
      split: option.splits prod.splits)

subsection \<open>The account of a run\<close>

text \<open>
  What a stretch of the run adds to the state: calls to the writer, entries of the failure list and
  messages listed. A call that threw has an entry.
\<close>

definition progress :: "trace \<Rightarrow> failed_message list \<Rightarrow> nat \<Rightarrow> 't migration \<Rightarrow> 't migration \<Rightarrow> bool" where
  "progress calls fails listed s s' \<longleftrightarrow>
     attempts (mi_writer s) calls (mi_writer s') \<and> length (filter (\<lambda>c. snd c \<noteq> None) calls) \<le> length fails \<and>
     mi_total s' = mi_total s + listed \<and>
     sx_messages (mi_stats s') = sx_messages (mi_stats s) + length (mails_of calls) \<and>
     sx_failed_messages (mi_stats s') = sx_failed_messages (mi_stats s) + length fails \<and>
     sx_failed_uids (mi_stats s') = sx_failed_uids (mi_stats s) @ fails"

lemma progress_trans:
  "progress cs fs k s s1 \<Longrightarrow> progress cs' fs' k' s1 s2 \<Longrightarrow> progress (cs @ cs') (fs @ fs') (k + k') s s2"
  by (auto simp: progress_def intro: attempts_append)

text \<open>The part of the state an account is about.\<close>

definition tally :: "'t migration \<Rightarrow> pst \<times> (string \<rightharpoonup> nid) \<times> nat \<times> nat \<times> nat \<times> failed_message list" where
  "tally s = (mi_writer s, mi_by_path s, mi_total s, sx_messages (mi_stats s), sx_failed_messages (mi_stats s), sx_failed_uids (mi_stats s))"

lemma progress_still: "tally s' = tally s \<Longrightarrow> progress [] [] 0 s s'"
  by (simp add: progress_def tally_def)

lemma progress_cong: "tally s' = tally s \<Longrightarrow> tally t' = tally t \<Longrightarrow> progress cs fs k s' t' = progress cs fs k s t"
  by (auto simp: progress_def tally_def)

lemma still_rules [hoare_intros]:
  "keeps (\<lambda>s. tally s = v) (on_net m)" "keeps (\<lambda>s. tally s = v) (report env msg)"
  "keeps (\<lambda>s. tally s = v) (readFile p)" "keeps (\<lambda>s. tally s = v) (writeFile env p d)"
proof -
  show "keeps (\<lambda>s. tally s = v) (on_net m)"
    unfolding on_net_def by (rule keeps_zoomM [where Q = "\<lambda>_. True"]) (simp_all add: hoare_def tally_def split: sum.split)
  show "keeps (\<lambda>s. tally s = v) (report env msg)" by (auto simp: report_def tally_def intro!: hoare_intros)
  show "keeps (\<lambda>s. tally s = v) (readFile p)" by (auto simp: readFile_def intro!: hoare_intros)
  show "keeps (\<lambda>s. tally s = v) (writeFile env p d)" by (rule hoareI) (auto simp: writeFile_def tally_def split: option.splits)
qed

lemma bindM_InrE:
  assumes "bindM m f s = Some (Inr b, s')"
  obtains a s1 where "m s = Some (Inr a, s1)" "f a s1 = Some (Inr b, s')"
  using assms by (auto simp: bindM_Inr_iff)

lemma still_stats:
  assumes "\<And>st. (sx_messages (f st), sx_failed_messages (f st), sx_failed_uids (f st)) = (sx_messages st, sx_failed_messages st, sx_failed_uids st)"
  shows "keeps (\<lambda>s. tally s = v) (upd_stats f)"
  using assms by (auto simp: upd_stats_def tally_def intro!: hoare_intros)

lemma keeps_try [hoare_intros]:
  "keeps P m \<Longrightarrow> (\<And>e. keeps P (h e)) \<Longrightarrow> keeps P (try_catch catches m h)"
  unfolding try_catch_def
  by (rule hoareI) (auto split: option.splits prod.splits sum.splits if_splits dest: keepsD hoare_InrD hoare_InlD)

lemma stillD: "keeps (\<lambda>s. tally s = v) m \<Longrightarrow> tally s = v \<Longrightarrow> m s = Some (r, s') \<Longrightarrow> tally s' = v"
  by (rule keepsD)

subsection \<open>What becomes of a message\<close>

text \<open>
  The outcome of a message: the slot it was collected in, and the reason if it failed. The failures
  are what the list of the failed messages says of them.
\<close>

type_synonym outcome = "slot \<times> string option"

definition failed_entry :: "folder_info \<Rightarrow> message_meta \<Rightarrow> string \<Rightarrow> failed_message" where
  "failed_entry folder m reason = \<lparr>fm_folder = full_name folder, fm_uid = mm_uid m, fm_reason = reason\<rparr>"

fun failures :: "folder_info \<Rightarrow> outcome list \<Rightarrow> failed_message list" where
  "failures folder [] = []"
| "failures folder ((sl, None) # os) = failures folder os"
| "failures folder ((sl, Some reason) # os) = failed_entry folder (sl_meta sl) reason # failures folder os"

fun stored :: "outcome list \<Rightarrow> slot list" where
  "stored [] = []"
| "stored ((sl, None) # os) = sl # stored os"
| "stored ((sl, Some reason) # os) = stored os"

lemma failures_append [simp]: "failures folder (os @ os') = failures folder os @ failures folder os'"
  by (induction folder os rule: failures.induct) simp_all

lemma stored_append [simp]: "stored (os @ os') = stored os @ stored os'"
  by (induction os rule: stored.induct) simp_all

lemma outcomes_count: "length (stored os) + length (failures folder os) = length os"
  by (induction os rule: stored.induct) simp_all

lemma no_failures: "failures folder os = [] \<Longrightarrow> stored os = map fst os"
  by (induction os rule: stored.induct) simp_all

text \<open>
  A slot holds nothing, or a source with what the list of messages said of it, which is either from
  the spool or what the server returned: for the message alone, or for a batch.
\<close>

definition fetched :: "'t transport \<Rightarrow> folder_info \<Rightarrow> message_meta \<Rightarrow> raw_message \<Rightarrow> bool" where
  "fetched tr folder m raw \<longleftrightarrow>
     (\<exists>t t'. fetchMessage tr (raw_name folder) m t = Some (Inr raw, t')) \<or>
     (\<exists>t ms got t'. fetchMessages tr (raw_name folder) ms t = Some (Inr got, t') \<and> (m, raw) \<in> set (zip ms got))"

definition genuine :: "'t transport \<Rightarrow> options \<Rightarrow> folder_info \<Rightarrow> slot \<Rightarrow> bool" where
  "genuine tr opts folder sl \<longleftrightarrow> rfc822 (sl_raw sl) = [] \<or>
     sl_raw sl = raw_of (sl_meta sl) (rfc822 (sl_raw sl)) \<and>
     (if sl_wanted sl then fetched tr folder (sl_meta sl) (sl_raw sl) else op_spool_dir opts \<noteq> [])"

lemma rfc822_raw_of [simp]: "rfc822 (raw_of m body) = body"
  by (simp add: raw_of_def)

text \<open>A failure is counted and named.\<close>

lemma fail_message_run:
  assumes "fail_message env folder m reason s = Some (r, s')"
  shows "r = Inr () \<and> progress [] [failed_entry folder m reason] 0 s s' \<and> mi_writer s' = mi_writer s \<and> mi_by_path s' = mi_by_path s"
  using assms by (auto simp: fail_message_def upd_stats_def report_def bindM_def modM_def progress_def failed_entry_def)

lemma from_spool_run:
  assumes "from_spool opts folder m s = Some (Inr sl, s')"
  shows "tally s' = tally s \<and> sl_meta sl = m \<and> \<not> sl_accounted sl \<and> genuine tr opts folder sl \<and> (sl_wanted sl \<longrightarrow> rfc822 (sl_raw sl) = [])"
proof -
  have "keeps (\<lambda>s. tally s = tally s0) (from_spool opts folder m)" for s0
    unfolding from_spool_def Let_def by (intro hoare_intros still_stats) simp_all
  from keepsD [OF this _ assms] show ?thesis
    using assms by (auto simp: from_spool_def Let_def genuine_def no_raw_def bindM_Inr_iff ret_run split: if_splits)
qed

text \<open>What a batch brought for a message is the message's own.\<close>

definition matches :: "'t transport \<Rightarrow> folder_info \<Rightarrow> message_meta \<Rightarrow> raw_message option \<Rightarrow> bool" where
  "matches tr folder m got \<longleftrightarrow> (\<forall>raw. got = Some raw \<longrightarrow> raw = raw_of m (rfc822 raw) \<and> fetched tr folder m raw)"

text \<open>The source asked for alone.\<close>

lemma collect_run:
  assumes run: "collect env opts folder got sl s = Some (Inr sl', s')" and got: "matches (en_server env) folder (sl_meta sl) got"
    and fresh: "\<not> sl_accounted sl" "rfc822 (sl_raw sl) = []" "sl_wanted sl"
  shows "\<exists>r. progress [] (failures folder [(sl', r)]) 0 s s' \<and> mi_writer s' = mi_writer s \<and> mi_by_path s' = mi_by_path s \<and>
    sl_meta sl' = sl_meta sl \<and> genuine (en_server env) opts folder sl' \<and> (sl_accounted sl' \<longleftrightarrow> r \<noteq> None) \<and> (r \<noteq> None \<longrightarrow> rfc822 (sl_raw sl') = [])"
proof -
  let ?fetch = "case got of Some raw \<Rightarrow> ret (Inr raw)
       | None \<Rightarrow> try_catch is_imap_error
           (bindM (on_net (fetchMessage (en_server env) (raw_name folder) (sl_meta sl))) (\<lambda>raw. ret (Inr raw)))
           (\<lambda>e. ret (Inl e))"
  obtain r s1 where 1: "?fetch s = Some (Inr r, s1)"
    and 2: "(case r of
       Inl e \<Rightarrow> bindM (fail_message env folder (sl_meta sl) (what e)) (\<lambda>_. ret (sl\<lparr>sl_accounted := True\<rparr>))
     | Inr raw \<Rightarrow>
         bindM (upd_stats (\<lambda>st. st\<lparr>sx_fetched_bytes := sx_fetched_bytes st + length (rfc822 raw)\<rparr>)) (\<lambda>_.
         bindM (if op_spool_dir opts \<noteq> [] \<and> rfc822 raw \<noteq> []
                then bindM (writeFile env (spoolPath (op_spool_dir opts) (full_name folder) (mm_uid (sl_meta sl))) (rfc822 raw)) (\<lambda>_. ret ())
                else ret ()) (\<lambda>_. ret (sl\<lparr>sl_raw := raw\<rparr>)))) s1 = Some (Inr sl', s')"
    using run unfolding collect_def bindM_Inr_iff [of ?fetch] by blast
  have "keeps (\<lambda>s. tally s = tally s0) ?fetch" for s0 by (auto intro!: hoare_intros split: option.split)
  from keepsD [OF this _ 1] have t1: "tally s1 = tally s" by blast
  show ?thesis
  proof (cases r)
    case (Inl e)
    then obtain u where f: "fail_message env folder (sl_meta sl) (what e) s1 = Some (Inr u, s')" and sl': "sl' = sl\<lparr>sl_accounted := True\<rparr>"
      using 2 by (auto simp: bindM_Inr_iff ret_run)
    from fail_message_run [OF f] show ?thesis
      using t1 fresh progress_cong [OF t1 refl] by (intro exI [of _ "Some (what e)"]) (auto simp: sl' genuine_def tally_def)
  next
    case (Inr raw)
    have raw: "raw = raw_of (sl_meta sl) (rfc822 raw) \<and> fetched (en_server env) folder (sl_meta sl) raw"
    proof (cases got)
      case None
      then have "try_catch is_imap_error (bindM (on_net (fetchMessage (en_server env) (raw_name folder) (sl_meta sl))) (\<lambda>raw. ret (Inr raw)))
           (\<lambda>e. ret (Inl e)) s = Some (Inr (Inr raw), s1)" using 1 Inr by simp
      then obtain t where t: "fetchMessage (en_server env) (raw_name folder) (sl_meta sl) (wd_net s) = Some (Inr raw, t)"
        by (auto simp: try_catch_def on_net_def zoomM_def bindM_def ret_run split: option.splits prod.splits sum.splits if_splits)
      then have "raw = raw_of (sl_meta sl) (rfc822 raw)" by (auto simp: fetchMessage_def bindM_Inr_iff ret_run)
      then show ?thesis using t by (auto simp: fetched_def)
    qed (use 1 Inr got in \<open>auto simp: ret_run matches_def\<close>)
    let ?rest = "bindM (upd_stats (\<lambda>st. st\<lparr>sx_fetched_bytes := sx_fetched_bytes st + length (rfc822 raw)\<rparr>)) (\<lambda>_.
         bindM (if op_spool_dir opts \<noteq> [] \<and> rfc822 raw \<noteq> []
                then bindM (writeFile env (spoolPath (op_spool_dir opts) (full_name folder) (mm_uid (sl_meta sl))) (rfc822 raw)) (\<lambda>_. ret ())
                else ret ()) (\<lambda>_. ret (sl\<lparr>sl_raw := raw\<rparr>)))"
    have 3: "?rest s1 = Some (Inr sl', s')" using 2 Inr by simp
    have "keeps (\<lambda>s. tally s = tally s0) ?rest" for s0 by (intro hoare_intros still_stats) simp_all
    from keepsD [OF this _ 3] have t: "tally s' = tally s" using t1 by metis
    have "sl' = sl\<lparr>sl_raw := raw\<rparr>" using 3 by (auto simp: bindM_Inr_iff ret_run)
    then show ?thesis using t progress_still [OF t] raw fresh by (intro exI [of _ None]) (auto simp: genuine_def tally_def)
  qed
qed

text \<open>The slots of a batch while it is collected (en_server env) opts folder: \<open>got\<close> has an entry for every message still wanted.\<close>

definition collectable :: "'t transport \<Rightarrow> options \<Rightarrow> folder_info \<Rightarrow> slot \<Rightarrow> bool" where
  "collectable tr opts folder sl \<longleftrightarrow> \<not> sl_accounted sl \<and> genuine tr opts folder sl \<and> (sl_wanted sl \<longrightarrow> rfc822 (sl_raw sl) = [])"

definition collected :: "'t transport \<Rightarrow> options \<Rightarrow> folder_info \<Rightarrow> slot \<Rightarrow> string option \<Rightarrow> bool" where
  "collected tr opts folder sl r \<longleftrightarrow> genuine tr opts folder sl \<and> (sl_accounted sl \<longleftrightarrow> r \<noteq> None) \<and> (r \<noteq> None \<longrightarrow> rfc822 (sl_raw sl) = [])"

lemma collect_all_run:
  assumes "collect_all env opts folder got sls s = Some (Inr sls', s')" "list_all (collectable (en_server env) opts folder) sls"
    "list_all2 (matches (en_server env) folder) (map sl_meta (filter sl_wanted sls)) got"
  shows "\<exists>rs. progress [] (failures folder (zip sls' rs)) 0 s s' \<and> mi_writer s' = mi_writer s \<and> mi_by_path s' = mi_by_path s \<and>
    map sl_meta sls' = map sl_meta sls \<and> list_all2 (collected (en_server env) opts folder) sls' rs"
  using assms
proof (induction sls arbitrary: got sls' s)
  case Nil
  then show ?case by (auto simp: ret_run intro!: progress_still)
next
  case (Cons sl sls)
  obtain g sl1 sls1 s1 r1 where 1: "progress [] (failures folder [(sl1, r1)]) 0 s s1" "mi_writer s1 = mi_writer s" "mi_by_path s1 = mi_by_path s"
      "sl_meta sl1 = sl_meta sl" "collected (en_server env) opts folder sl1 r1"
    and 2: "collect_all env opts folder g sls s1 = Some (Inr sls1, s')" "sls' = sl1 # sls1" "list_all2 (matches (en_server env) folder) (map sl_meta (filter sl_wanted sls)) g"
  proof (cases "sl_wanted sl")
    case True
    then obtain g gs where g: "got = g # gs" "matches (en_server env) folder (sl_meta sl) g" "list_all2 (matches (en_server env) folder) (map sl_meta (filter sl_wanted sls)) gs"
      using Cons.prems(3) by (auto simp: list_all2_Cons1)
    obtain sl1 s1 sls1 where r: "collect env opts folder g sl s = Some (Inr sl1, s1)" "collect_all env opts folder gs sls s1 = Some (Inr sls1, s')"
        "sls' = sl1 # sls1"
      using Cons.prems(1) True by (auto simp: bindM_Inr_iff ret_run g(1))
    have "\<not> sl_accounted sl" "rfc822 (sl_raw sl) = []" using Cons.prems(2) True by (simp_all add: collectable_def)
    from collect_run [OF r(1) g(2) this True] show ?thesis
      using that [OF _ _ _ _ _ r(2,3) g(3)] unfolding collected_def by blast
  next
    case False
    obtain sls1 where r: "collect_all env opts folder got sls s = Some (Inr sls1, s')" "sls' = sl # sls1"
      using Cons.prems(1) False by (auto simp: bindM_Inr_iff ret_run)
    have "collected (en_server env) opts folder sl None" using Cons.prems(2) by (simp add: collectable_def collected_def)
    then show ?thesis using that [of sl None s got sls1] r False Cons.prems(3) by (simp add: progress_still)
  qed
  have "list_all (collectable (en_server env) opts folder) sls" using Cons.prems(2) by simp
  from Cons.IH [OF 2(1) this 2(3)] obtain rs where rs: "progress [] (failures folder (zip sls1 rs)) 0 s1 s'" "mi_writer s' = mi_writer s1"
    "mi_by_path s' = mi_by_path s1" "map sl_meta sls1 = map sl_meta sls" "list_all2 (collected (en_server env) opts folder) sls1 rs" by blast
  have "failures folder [(sl1, r1)] @ failures folder (zip sls1 rs) = failures folder (zip sls' (r1 # rs))"
    unfolding failures_append [symmetric] by (simp add: 2(2))
  then show ?case using progress_trans [OF 1(1) rs(1)] 1 2(2) rs by (intro exI [of _ "r1 # rs"]) simp
qed

lemma assign_bodies_raw: "list_all2 (\<lambda>m raw. raw = raw_of m (rfc822 raw)) metas (assign_bodies bodies metas)"
  by (induction metas arbitrary: bodies) (auto split: option.split)

lemma fetchMessages_raw:
  "fetchMessages tr mailbox metas t = Some (Inr got, t') \<Longrightarrow> list_all2 (\<lambda>m raw. raw = raw_of m (rfc822 raw)) metas got"
  using assign_bodies_raw by (auto simp: fetchMessages_def bindM_Inr_iff ret_run Let_def split: if_splits)

lemma fetch_batch_run:
  assumes run: "fetch_batch env opts folder sls s = Some (Inr sls', s')" and col: "list_all (collectable (en_server env) opts folder) sls"
  shows "\<exists>rs. progress [] (failures folder (zip sls' rs)) 0 s s' \<and> mi_writer s' = mi_writer s \<and> mi_by_path s' = mi_by_path s \<and>
    map sl_meta sls' = map sl_meta sls \<and> list_all2 (collected (en_server env) opts folder) sls' rs"
proof (cases "filter sl_wanted sls = []")
  case True
  then have "sls' = sls" "s' = s" using run by (auto simp: fetch_batch_def ret_run)
  moreover have "list_all2 (collected (en_server env) opts folder) sls (map (\<lambda>_. None) sls)"
    using col by (auto simp: list_all2_map2 list_all2_same list_all_iff collectable_def collected_def)
  moreover have "failures folder (zip sls (map (\<lambda>_. None) sls)) = []" by (induction sls) simp_all
  ultimately show ?thesis by (intro exI [of _ "map (\<lambda>_. None) sls"]) (simp add: progress_still)
next
  case False
  let ?wanted = "map sl_meta (filter sl_wanted sls)"
  let ?fetch = "try_catch is_imap_error (on_net (fetchMessages (en_server env) (raw_name folder) ?wanted))
            (\<lambda>e. bindM (report env (''warning: '' @ full_name folder @ '': batch fetch failed ('' @ what e @
                   ''); falling back to one message at a time'')) (\<lambda>_. ret (replicate (length ?wanted) no_raw)))"
  obtain got s1 where 1: "?fetch s = Some (Inr got, s1)"
    and 2: "collect_all env opts folder
          (if length got = length ?wanted then map (\<lambda>r. if rfc822 r \<noteq> [] then Some r else None) got
           else replicate (length ?wanted) None) sls s1 = Some (Inr sls', s')"
    using run False unfolding fetch_batch_def Let_def by (auto simp: bindM_Inr_iff simp del: length_map)
  have "keeps (\<lambda>s. tally s = tally s0) ?fetch" for s0 by (intro hoare_intros)
  from keepsD [OF this _ 1] have t1: "tally s1 = tally s" by blast
  have "list_all2 (matches (en_server env) folder) ?wanted (if length got = length ?wanted then map (\<lambda>r. if rfc822 r \<noteq> [] then Some r else None) got
           else replicate (length ?wanted) None)" (is "list_all2 _ _ ?got")
  proof -
    have "(\<exists>t'. fetchMessages (en_server env) (raw_name folder) ?wanted (wd_net s) = Some (Inr got, t')) \<or> got = replicate (length ?wanted) no_raw"
      using 1
      by (fastforce simp: try_catch_def on_net_def zoomM_def bindM_def ret_run report_def modM_run split: option.splits prod.splits sum.splits if_splits)
    then show ?thesis
    proof
      assume "\<exists>t'. fetchMessages (en_server env) (raw_name folder) ?wanted (wd_net s) = Some (Inr got, t')"
      then obtain t' where f: "fetchMessages (en_server env) (raw_name folder) ?wanted (wd_net s) = Some (Inr got, t')" by blast
      have raws: "list_all2 (\<lambda>m raw. raw = raw_of m (rfc822 raw)) ?wanted got" by (rule fetchMessages_raw [OF f])
      then have "fetched (en_server env) folder (?wanted ! k) (got ! k)" if "k < length ?wanted" for k
        using f that unfolding fetched_def by (metis in_set_zip fst_conv list_all2_lengthD snd_conv)
      then show ?thesis using raws by (auto simp: list_all2_conv_all_nth matches_def)
    qed (simp add: list_all2_conv_all_nth matches_def no_raw_def)
  qed
  from collect_all_run [OF 2 col this] show ?thesis using t1 progress_cong [OF t1 refl] by (auto simp: tally_def)
qed

subsection \<open>What is stored\<close>

text \<open>A failure found while collecting stays; one found while writing is added.\<close>

definition settled :: "string option \<Rightarrow> string option \<Rightarrow> string option" where
  "settled r r' = (if r = None then r' else r)"

text \<open>The messages a list of outcomes put into a folder.\<close>

definition mail_in :: "icu \<Rightarrow> nid \<Rightarrow> outcome list \<Rightarrow> mail_log" where
  "mail_in icu n os = map (\<lambda>sl. (n, migrated icu sl)) (stored os)"

lemma mail_in_append [simp]: "mail_in icu n (os @ os') = mail_in icu n os @ mail_in icu n os'"
  by (simp add: mail_in_def)

text \<open>The writer's folders and the map of paths stay as they are.\<close>

definition same_folders :: "'t migration \<Rightarrow> 't migration \<Rightarrow> bool" where
  "same_folders s s' \<longleftrightarrow> mi_by_path s' = mi_by_path s \<and> homes (mi_writer s') = homes (mi_writer s) \<and> known (mi_writer s') = known (mi_writer s)"

lemma same_folders_refl: "same_folders s s"
  by (simp add: same_folders_def)

lemma same_folders_trans: "same_folders s s1 \<Longrightarrow> same_folders s1 s2 \<Longrightarrow> same_folders s s2"
  by (simp add: same_folders_def)

text \<open>One call of \<open>addMessage\<close>, with its outcome in the account.\<close>

lemma write_slot_run:
  assumes run: "write_slot env opts folder n sl s = Some (Inr (), s')" and col: "collected (en_server env) opts folder sl r"
  shows "\<exists>r' calls. progress calls (failures folder (if r = None then [(sl, r')] else [])) 0 s s' \<and> same_folders s s' \<and>
    mails_of calls = mail_in (en_icu env) n [(sl, settled r r')] \<and> (\<forall>c \<in> set calls. \<exists>msg. fst c = AddMessage n msg) \<and> (settled r r' = None \<longrightarrow> rfc822 (sl_raw sl) \<noteq> [])"
proof (cases "rfc822 (sl_raw sl) = []")
  case True
  show ?thesis
  proof (cases r)
    case None
    then have "fail_message env folder (sl_meta sl) ''server returned an empty body'' s = Some (Inr (), s')"
      using run True col by (simp add: write_slot_def collected_def)
    from fail_message_run [OF this] show ?thesis using None
      by (intro exI [of _ "Some ''server returned an empty body''"] exI [of _ "[]"]) (auto simp: same_folders_def settled_def mail_in_def)
  next
    case (Some x)
    then have "s' = s" using run True col by (simp add: write_slot_def collected_def ret_run)
    then show ?thesis using Some by (intro exI [of _ None] exI [of _ "[]"]) (simp add: progress_still same_folders_refl settled_def mail_in_def)
  qed
next
  case False
  then have r: "r = None" using col by (auto simp: collected_def)
  let ?msg = "migrated (en_icu env) sl"
  let ?report = "bindM (upd_stats (\<lambda>st. st\<lparr>sx_messages := sx_messages st + 1\<rparr>)) (\<lambda>_.
          bindM (getM mi_stats) (\<lambda>st. bindM (getM mi_total) (\<lambda>total.
          if op_progress_every opts \<noteq> 0 \<and> sx_messages st mod op_progress_every opts = 0
          then report env (progress_line env st total) else ret ())))"
  let ?count = "upd_stats (\<lambda>st. st\<lparr>sx_attachments := sx_attachments st + length (attachments ?msg)\<rparr>)"
  have run: "bindM (try_catch (\<lambda>_. True) (bindM (on_writer (addMessage n ?msg)) (\<lambda>_. bindM ?count (\<lambda>_. ret True)))
           (\<lambda>e. bindM (fail_message env folder (sl_meta sl) (what e)) (\<lambda>_. ret False))) (\<lambda>done. if \<not> done then ret () else ?report) s = Some (Inr (), s')"
    using run False by (simp add: write_slot_def Let_def)
  obtain x w where add: "addMessage n ?msg (mi_writer s) = Some (x, w)"
    using run by (cases "addMessage n ?msg (mi_writer s)") (auto simp: bindM_def try_catch_def on_writer_def zoomM_def)
  have hom: "homes w = homes (mi_writer s)" "known w = known (mi_writer s)"
    using keepsD [OF addMessage_homes _ add, of "homes (mi_writer s)"]
      keepsD [OF run_call_known [of "known (mi_writer s)" "AddMessage n ?msg"], of "mi_writer s" x w] add by simp_all
  let ?s1 = "s\<lparr>mi_writer := w\<rparr>"
  show ?thesis
  proof (cases x)
    case (Inl e)
    then have "fail_message env folder (sl_meta sl) (what e) ?s1 = Some (Inr (), s')"
      using run add
      by (auto simp: bindM_def try_catch_def on_writer_def zoomM_def ret_run split: option.splits prod.splits sum.splits)
    from fail_message_run [OF this] have f: "progress [] [failed_entry folder (sl_meta sl) (what e)] 0 ?s1 s'"
        "mi_writer s' = w" "mi_by_path s' = mi_by_path s" by simp_all
    then have "progress [(AddMessage n ?msg, Some e)] [failed_entry folder (sl_meta sl) (what e)] 0 s s'"
      using add Inl by (auto simp: progress_def attempts_cons)
    then show ?thesis using f(2,3) hom r
      by (intro exI [of _ "Some (what e)"] exI [of _ "[(AddMessage n ?msg, Some e)]"]) (simp add: same_folders_def settled_def mail_in_def)
  next
    case (Inr u)
    then obtain s2 where 2: "?count ?s1 = Some (Inr (), s2)" "?report s2 = Some (Inr (), s')"
      using run add by (auto simp: bindM_def try_catch_def on_writer_def zoomM_def ret_run upd_stats_def modM_run)
    have "keeps (\<lambda>s. tally s = v) ?count" for v by (intro still_stats) simp
    from keepsD [OF this _ 2(1)] have t2: "tally s2 = tally ?s1" by blast
    have "progress [(AddMessage n ?msg, None)] [] 0 s s' \<and> mi_writer s' = w \<and> mi_by_path s' = mi_by_path s"
      using 2(2) t2 add Inr
      by (auto simp: upd_stats_def report_def bindM_def modM_def getM_def ret_run progress_def tally_def attempts_cons split: if_splits)
    then show ?thesis using hom r False
      by (intro exI [of _ None] exI [of _ "[(AddMessage n ?msg, None)]"]) (simp add: same_folders_def settled_def mail_in_def)
  qed
qed

lemma write_slots_run:
  assumes "forM (write_slot env opts folder n) sls s = Some (Inr (), s')" "list_all2 (collected (en_server env) opts folder) sls rs"
  shows "\<exists>rs' calls fails. progress calls fails 0 s s' \<and> same_folders s s' \<and> length rs' = length sls \<and>
    mset fails + mset (failures folder (zip sls rs)) = mset (failures folder (zip sls rs')) \<and>
    mails_of calls = mail_in (en_icu env) n (zip sls rs') \<and> (\<forall>c \<in> set calls. \<exists>msg. fst c = AddMessage n msg) \<and> (\<forall>sl \<in> set (stored (zip sls rs')). rfc822 (sl_raw sl) \<noteq> [] \<and> genuine (en_server env) opts folder sl)"
  using assms
proof (induction sls arbitrary: s rs)
  case Nil
  then show ?case by (auto simp: ret_run progress_still same_folders_refl mail_in_def intro!: exI [of _ "[]"])
next
  case (Cons sl sls)
  obtain r rs1 where rs: "rs = r # rs1" "collected (en_server env) opts folder sl r" "list_all2 (collected (en_server env) opts folder) sls rs1" using Cons.prems(2) by (auto simp: list_all2_Cons1)
  obtain s1 where 1: "write_slot env opts folder n sl s = Some (Inr (), s1)" "forM (write_slot env opts folder n) sls s1 = Some (Inr (), s')"
    using Cons.prems(1) by (auto simp: bindM_Inr_iff)
  from write_slot_run [OF 1(1) rs(2)] obtain r' cs where a: "progress cs (failures folder (if r = None then [(sl, r')] else [])) 0 s s1"
      "same_folders s s1" "mails_of cs = mail_in (en_icu env) n [(sl, settled r r')]"
      "\<forall>c \<in> set cs. \<exists>msg. fst c = AddMessage n msg" "settled r r' = None \<longrightarrow> rfc822 (sl_raw sl) \<noteq> []" by metis
  from Cons.IH [OF 1(2) rs(3)] obtain rs' ds fs where b: "progress ds fs 0 s1 s'" "same_folders s1 s'" "length rs' = length sls"
      "mset fs + mset (failures folder (zip sls rs1)) = mset (failures folder (zip sls rs'))"
      "mails_of ds = mail_in (en_icu env) n (zip sls rs')" "\<forall>c \<in> set ds. \<exists>msg. fst c = AddMessage n msg" "\<forall>sl \<in> set (stored (zip sls rs')). rfc822 (sl_raw sl) \<noteq> [] \<and> genuine (en_server env) opts folder sl" by blast
  have g: "genuine (en_server env) opts folder sl" using rs(2) by (simp add: collected_def)
  show ?case
  proof (intro exI conjI)
    show "progress (cs @ ds) (failures folder (if r = None then [(sl, r')] else []) @ fs) 0 s s'" using progress_trans [OF a(1) b(1)] by simp
    show "same_folders s s'" by (rule same_folders_trans [OF a(2) b(2)])
    show "length (settled r r' # rs') = length (sl # sls)" using b(3) by simp
    show "mset (failures folder (if r = None then [(sl, r')] else []) @ fs) + mset (failures folder (zip (sl # sls) rs)) =
        mset (failures folder (zip (sl # sls) (settled r r' # rs')))"
      using b(4) by (cases r; cases r') (simp_all add: rs(1) settled_def)
    show "mails_of (cs @ ds) = mail_in (en_icu env) n (zip (sl # sls) (settled r r' # rs'))"
      by (simp add: a(3) b(5) mail_in_append [symmetric] del: mail_in_append)
    show "\<forall>x \<in> set (stored (zip (sl # sls) (settled r r' # rs'))). rfc822 (sl_raw x) \<noteq> [] \<and> genuine (en_server env) opts folder x"
      using a(5) b(7) g by (cases "settled r r'") auto
    show "\<forall>c \<in> set (cs @ ds). \<exists>msg. fst c = AddMessage n msg" using a(4) b(6) by auto
  qed
qed

text \<open>
  A stretch of messages of one folder dealt with: the failure list has grown by the failures, in some
  order, the writer has the others in theirs, and each of these has a source.
\<close>

definition handled :: "'t env \<Rightarrow> options \<Rightarrow> folder_info \<Rightarrow> nid \<Rightarrow> outcome list \<Rightarrow> 't migration \<Rightarrow> 't migration \<Rightarrow> bool" where
  "handled env opts folder n os s s' \<longleftrightarrow> (\<exists>calls fails. progress calls fails 0 s s' \<and> same_folders s s' \<and>
     mset fails = mset (failures folder os) \<and> mails_of calls = mail_in (en_icu env) n os \<and>
     (\<forall>c \<in> set calls. \<exists>msg. fst c = AddMessage n msg) \<and>
     (\<forall>sl \<in> set (stored os). rfc822 (sl_raw sl) \<noteq> [] \<and> genuine (en_server env) opts folder sl))"

lemma handled_nil: "handled env opts folder n [] s s"
  by (auto simp: handled_def progress_still same_folders_refl mail_in_def intro!: exI [of _ "[]"])

lemma handled_append:
  assumes "handled env opts folder n os s s1" "handled env opts folder n os' s1 s2"
  shows "handled env opts folder n (os @ os') s s2"
proof -
  obtain cs fs cs' fs' where a: "progress cs fs 0 s s1" "progress cs' fs' 0 s1 s2" "same_folders s s1" "same_folders s1 s2"
    "mset fs = mset (failures folder os)" "mset fs' = mset (failures folder os')" "mails_of cs = mail_in (en_icu env) n os"
    "mails_of cs' = mail_in (en_icu env) n os'"
    "\<forall>c \<in> set cs. \<exists>msg. fst c = AddMessage n msg" "\<forall>c \<in> set cs'. \<exists>msg. fst c = AddMessage n msg"
    "\<forall>sl \<in> set (stored os). rfc822 (sl_raw sl) \<noteq> [] \<and> genuine (en_server env) opts folder sl" "\<forall>sl \<in> set (stored os'). rfc822 (sl_raw sl) \<noteq> [] \<and> genuine (en_server env) opts folder sl"
    using assms unfolding handled_def by blast
  show ?thesis unfolding handled_def
  proof (intro exI conjI)
    show "progress (cs @ cs') (fs @ fs') 0 s s2" using progress_trans [OF a(1,2)] by simp
    show "same_folders s s2" by (rule same_folders_trans [OF a(3,4)])
  qed (use a in auto)
qed

abbreviation metas_of :: "outcome list \<Rightarrow> message_meta list" where
  "metas_of os \<equiv> map (\<lambda>x. sl_meta (fst x)) os"

lemma from_spool_all:
  assumes "mapM (from_spool opts folder) batch s = Some (Inr sls, s')"
  shows "tally s' = tally s \<and> map sl_meta sls = batch \<and> list_all (collectable (en_server env) opts folder) sls"
proof -
  have "tally s' = tally s \<and> True \<and> list_all2 (\<lambda>m sl. sl_meta sl = m \<and> collectable (en_server env) opts folder sl) batch sls"
  proof (rule mapM_relates [where I = "\<lambda>t. tally t = tally s" and G = "\<lambda>_ _. True" and R = "\<lambda>_ m sl. sl_meta sl = m \<and> collectable (en_server env) opts folder sl"])
    fix m t sl t' assume "tally t = tally s" "from_spool opts folder m t = Some (Inr sl, t')"
    with from_spool_run [OF this(2)] show "tally t' = tally s \<and> True \<and> sl_meta sl = m \<and> collectable (en_server env) opts folder sl"
      by (simp add: collectable_def)
  qed (use assms in simp_all)
  then show ?thesis by (auto simp: list_all2_conv_all_nth list_all_length intro: nth_equalityI)
qed

lemma run_batch_handled:
  assumes "run_batch env opts folder n batch s = Some (Inr (), s')"
  shows "\<exists>os. metas_of os = batch \<and> handled env opts folder n os s s'"
proof -
  obtain sls0 s1 sls s2 where 1: "mapM (from_spool opts folder) batch s = Some (Inr sls0, s1)"
    and 2: "fetch_batch env opts folder sls0 s1 = Some (Inr sls, s2)" and 3: "forM (write_slot env opts folder n) sls s2 = Some (Inr (), s')"
    using assms by (auto simp: run_batch_def bindM_Inr_iff)
  note spool = from_spool_all [OF 1, of env]
  obtain rs where rs: "progress [] (failures folder (zip sls rs)) 0 s1 s2" "mi_writer s2 = mi_writer s1" "mi_by_path s2 = mi_by_path s1"
    "map sl_meta sls = map sl_meta sls0" "list_all2 (collected (en_server env) opts folder) sls rs"
    using fetch_batch_run [OF 2] spool by blast
  obtain rs' calls fails where w: "progress calls fails 0 s2 s'" "same_folders s2 s'" "length rs' = length sls"
    "mset fails + mset (failures folder (zip sls rs)) = mset (failures folder (zip sls rs'))"
    "mails_of calls = mail_in (en_icu env) n (zip sls rs')" "\<forall>c \<in> set calls. \<exists>msg. fst c = AddMessage n msg"
    "\<forall>sl \<in> set (stored (zip sls rs')). rfc822 (sl_raw sl) \<noteq> [] \<and> genuine (en_server env) opts folder sl"
    using write_slots_run [OF 3 rs(5)] by metis
  have "progress [] (failures folder (zip sls rs)) 0 s s2" using progress_trans [OF progress_still rs(1)] spool by simp
  then have "progress calls (failures folder (zip sls rs) @ fails) 0 s s'" using progress_trans [OF _ w(1)] by fastforce
  moreover have "same_folders s s'" using w(2) spool rs(2,3) by (auto simp: same_folders_def tally_def)
  moreover have "mset (failures folder (zip sls rs) @ fails) = mset (failures folder (zip sls rs'))" using w(4) by (simp add: union_commute)
  ultimately have "handled env opts folder n (zip sls rs') s s'" using w(5-7) unfolding handled_def by blast
  moreover have "metas_of (zip sls rs') = batch"
  proof -
    have "metas_of (zip sls rs') = map sl_meta (map fst (zip sls rs'))" by simp
    then show ?thesis using w(3) rs(4) spool by (simp del: map_map)
  qed
  ultimately show ?thesis by blast
qed

lemma take_batch_prefix: "\<exists>rest. ms = take_batch opts k b ms @ rest"
  by (induction opts k b ms rule: take_batch.induct) auto

lemma take_batch_drop: "take_batch opts k b ms @ drop (length (take_batch opts k b ms)) ms = ms"
  using take_batch_prefix [of ms opts k b] by (metis append_eq_conv_conj)

lemma batches_handled:
  fixes env :: "'a env"
  assumes "batches env opts folder n metas s = Some (Inr (), s')"
  shows "\<exists>os. metas_of os = metas \<and> handled env opts folder n os s s'"
proof -
  have "\<forall>s'. y = (Inr (), s') \<longrightarrow> (\<exists>os. metas_of os = metas \<and> handled env opts folder n os s s')"
    if "batches env opts folder n metas s = Some y" for y
  proof (rule batches.raw_induct [where P = "\<lambda>env opts folder n metas s y. \<forall>s'. y = (Inr (), s') \<longrightarrow> (\<exists>os. metas_of os = metas \<and> handled env opts folder n os s s')", OF _ that], intro allI impI)
    fix loop :: "'a env \<Rightarrow> options \<Rightarrow> folder_info \<Rightarrow> nid \<Rightarrow> message_meta list \<Rightarrow> 'a migration \<Rightarrow> ((error + unit) \<times> 'a migration) option"
      and env opts folder n metas s y s'
    assume IH: "\<And>env opts folder n metas s y. loop env opts folder n metas s = Some y \<Longrightarrow>
        \<forall>s'. y = (Inr (), s') \<longrightarrow> (\<exists>os. metas_of os = metas \<and> handled env opts folder n os s s')"
      and run: "(if metas = [] then Some (Inr (), s)
        else let batch = take_batch opts 0 0 metas in
          Option.bind (run_batch env opts folder n batch s) (\<lambda>(r, s'). case r of
            Inl e \<Rightarrow> Some (Inl e, s') | Inr _ \<Rightarrow> loop env opts folder n (drop (length batch) metas) s')) = Some y" and y: "y = (Inr (), s')"
    show "\<exists>os. metas_of os = metas \<and> handled env opts folder n os s s'"
    proof (cases "metas = []")
      case True
      then show ?thesis using run y handled_nil by auto
    next
      case False
      let ?batch = "take_batch opts 0 0 metas"
      obtain r s1 where r: "run_batch env opts folder n ?batch s = Some (r, s1)"
        and next1: "(case r of Inl e \<Rightarrow> Some (Inl e, s1) | Inr _ \<Rightarrow> loop env opts folder n (drop (length ?batch) metas) s1) = Some y"
        using run False by (auto simp: Let_def bind_eq_Some_conv)
      then have "r = Inr ()" using y by (cases r) auto
      then have 1: "run_batch env opts folder n ?batch s = Some (Inr (), s1)" "loop env opts folder n (drop (length ?batch) metas) s1 = Some y"
        using r next1 by simp_all
      obtain os where os: "metas_of os = ?batch" "handled env opts folder n os s s1" using run_batch_handled [OF 1(1)] by blast
      obtain os' where os': "metas_of os' = drop (length ?batch) metas" "handled env opts folder n os' s1 s'" using IH [OF 1(2)] y by blast
      have "metas_of (os @ os') = metas" using os(1) os'(1) by (simp add: take_batch_drop)
      then show ?thesis using handled_append [OF os(2) os'(2)] by blast
    qed
  qed
  then show ?thesis using assms by blast
qed

subsection \<open>Paths\<close>

text \<open>The key of a path in the map: its components, separated.\<close>

definition path_key :: "string \<Rightarrow> string list \<Rightarrow> string" where
  "path_key = foldl (\<lambda>pre part. (if pre \<noteq> [] then pre @ [UNIT_SEP] else pre) @ part)"

definition plain_path :: "string list \<Rightarrow> bool" where
  "plain_path path \<longleftrightarrow> (\<forall>part \<in> set path. part \<noteq> [] \<and> UNIT_SEP \<notin> set part)"

lemma path_key_join: "plain_path path \<Longrightarrow> path_key [] path = join_path UNIT_SEP path"
proof -
  have *: "pre \<noteq> [] \<Longrightarrow> path \<noteq> [] \<Longrightarrow> path_key pre path = pre @ UNIT_SEP # join_path UNIT_SEP path" if "plain_path path" for pre path
    using that by (induction path arbitrary: pre) (auto simp: path_key_def plain_path_def)
  assume p: "plain_path path"
  show ?thesis
  proof (cases path)
    case (Cons part rest)
    then show ?thesis using p * [of rest part] by (cases rest) (simp_all add: path_key_def plain_path_def)
  qed (simp add: path_key_def)
qed

lemma path_key_inject:
  "plain_path p \<Longrightarrow> plain_path q \<Longrightarrow> path_key [] p = path_key [] q \<Longrightarrow> p = q"
  unfolding plain_path_def by (metis path_key_join plain_path_def split_join)

lemma path_key_snoc: "path_key pre (path @ [part]) = (if path_key pre path \<noteq> [] then path_key pre path @ [UNIT_SEP] else path_key pre path) @ part"
  by (simp add: path_key_def)

lemma folder_path_parts: "part \<in> set (folder_path f) \<Longrightarrow> part \<noteq> []"
  using split_path_parts [of "delimiter f" "[]" part "full_name f"] by (cases "delimiter f = NUL") (simp_all add: folder_path_def split: if_splits)

text \<open>Every path in the map leads from the subtree to the folder the map gives it.\<close>

definition paths_ok :: "'t migration \<Rightarrow> bool" where
  "paths_ok s \<longleftrightarrow> (\<forall>path n. path \<noteq> [] \<and> plain_path path \<and> mi_by_path s (path_key [] path) = Some n \<longrightarrow>
     leads (set (homes (mi_writer s))) (pw_ipm_subtree (mi_writer s)) path n)"

text \<open>Whatever the path, only folders are created, and each is where the path says.\<close>

definition reaches :: "'t migration \<Rightarrow> string list \<Rightarrow> nid \<Rightarrow> bool" where
  "reaches s path n \<longleftrightarrow> leads (set (homes (mi_writer s))) (pw_ipm_subtree (mi_writer s)) path n"

definition grew_folders :: "'t migration \<Rightarrow> 't migration \<Rightarrow> bool" where
  "grew_folders s s' \<longleftrightarrow> set (homes (mi_writer s)) \<subseteq> set (homes (mi_writer s')) \<and> known (mi_writer s') = known (mi_writer s)"

lemma grew_folders_refl: "grew_folders s s"
  by (simp add: grew_folders_def)

lemma grew_folders_trans: "grew_folders s s1 \<Longrightarrow> grew_folders s1 s2 \<Longrightarrow> grew_folders s s2"
  by (auto simp: grew_folders_def)

lemma known_subtree: "known w' = known w \<Longrightarrow> pw_ipm_subtree w' = pw_ipm_subtree w"
  by (simp add: known_def)

lemma reaches_grew: "reaches s path n \<Longrightarrow> grew_folders s s' \<Longrightarrow> reaches s' path n"
  unfolding reaches_def grew_folders_def by (metis known_subtree leads_mono)

lemma create_run:
  fixes key :: string
  assumes "on_writer (createFolder parent part) s = Some (Inr n, s1)"
  defines "s2 \<equiv> s1\<lparr>mi_by_path := (mi_by_path s1)(key \<mapsto> n)\<rparr>"
  shows "progress [(CreateFolder parent part, None)] [] 0 s s2" "grew_folders s s2" "(n, parent, part) \<in> set (homes (mi_writer s2))"
    "mi_by_path s2 = (mi_by_path s)(key \<mapsto> n)"
proof -
  obtain w where w: "createFolder parent part (mi_writer s) = Some (Inr n, w)" "s1 = s\<lparr>mi_writer := w\<rparr>"
    using assms(1) by (auto simp: on_writer_def zoomM_def split: option.splits prod.splits)
  have call: "run_call (CreateFolder parent part) (mi_writer s) = Some (Inr (), w)" using w(1) by (simp add: bindM_run ret_run)
  then have "known w = known (mi_writer s)" using keepsD [OF run_call_known _ call, of "known (mi_writer s)"] by simp
  then show "grew_folders s s2" using createFolder_homes [OF w(1)] by (auto simp: grew_folders_def s2_def w(2))
  show "progress [(CreateFolder parent part, None)] [] 0 s s2" using call by (auto simp: progress_def s2_def w(2) attempts_cons)
  show "(n, parent, part) \<in> set (homes (mi_writer s2))" using createFolder_homes [OF w(1)] by (simp add: s2_def w(2))
  show "mi_by_path s2 = (mi_by_path s)(key \<mapsto> n)" by (simp add: s2_def w(2))
qed

lemma folder_for_from_run:
  assumes "folder_for_from parent pre path s = Some (Inr n, s')"
  shows "\<exists>calls. progress calls [] 0 s s' \<and> mails_of calls = [] \<and> made path calls \<and> grew_folders s s' \<and>
    (\<forall>walked. pre = path_key [] walked \<and> plain_path (walked @ path) \<and> reaches s walked parent \<and> paths_ok s \<longrightarrow>
       reaches s' (walked @ path) n \<and> paths_ok s')"
  using assms
proof (induction path arbitrary: parent pre s)
  case Nil
  then show ?case by (intro exI [of _ "[]"]) (auto simp: ret_run progress_still grew_folders_refl)
next
  case (Cons part path)
  let ?pre = "(if pre \<noteq> [] then pre @ [UNIT_SEP] else pre) @ part"
  have key: "?pre = path_key [] (walked @ [part])" if "pre = path_key [] walked" for walked
    using that by (simp add: path_key_snoc)
  obtain q s2 calls where 2: "folder_for_from q ?pre path s2 = Some (Inr n, s')" "progress calls [] 0 s s2" "mails_of calls = []" "made [part] calls"
      "grew_folders s s2"
    and q: "\<And>walked. pre = path_key [] walked \<Longrightarrow> plain_path (walked @ [part]) \<Longrightarrow> reaches s walked parent \<Longrightarrow> paths_ok s \<Longrightarrow>
        reaches s2 (walked @ [part]) q \<and> paths_ok s2"
  proof (cases "mi_by_path s ?pre")
    case (Some q)
    have "folder_for_from q ?pre path s = Some (Inr n, s')" using Cons.prems Some by (simp add: bindM_def getM_run Let_def)
    then show ?thesis
    proof (rule that [OF _ progress_still [OF refl] mails_of.simps(1) made_nil grew_folders_refl])
      show "reaches s (walked @ [part]) q \<and> paths_ok s" if "pre = path_key [] walked" "plain_path (walked @ [part])" "paths_ok s" for walked
        using that Some key [OF that(1)] by (auto simp: paths_ok_def reaches_def)
    qed
  next
    case None
    then obtain q s1 where 1: "on_writer (createFolder parent part) s = Some (Inr q, s1)"
      and 2: "folder_for_from q ?pre path (s1\<lparr>mi_by_path := (mi_by_path s1)(?pre \<mapsto> q)\<rparr>) = Some (Inr n, s')"
      using Cons.prems by (auto simp: bindM_Inr_iff getM_run modM_run Let_def)
    note c = create_run [OF 1, of ?pre]
    let ?s2 = "s1\<lparr>mi_by_path := (mi_by_path s1)(?pre \<mapsto> q)\<rparr>"
    show ?thesis
    proof (rule that [OF 2 c(1) _ _ c(2)])
      fix walked assume w: "pre = path_key [] walked" "plain_path (walked @ [part])" "reaches s walked parent" "paths_ok s"
      have r: "reaches ?s2 (walked @ [part]) q"
        using leads_snoc [OF reaches_grew [OF w(3) c(2), unfolded reaches_def] c(3)] by (simp add: reaches_def)
      have "reaches ?s2 p m" if p: "p \<noteq> []" "plain_path p" "mi_by_path ?s2 (path_key [] p) = Some m" for p m
      proof (cases "p = walked @ [part]")
        case False
        then have "path_key [] p \<noteq> ?pre" using path_key_inject [OF p(2) w(2)] key [OF w(1)] by auto
        then have "mi_by_path s (path_key [] p) = Some m" using p(3) c(4) by simp
        then have "reaches s p m" using w(4) p(1,2) by (auto simp: paths_ok_def reaches_def)
        then show ?thesis by (rule reaches_grew [OF _ c(2)])
      qed (use r p(3) key [OF w(1)] c(4) in auto)
      then show "reaches ?s2 (walked @ [part]) q \<and> paths_ok ?s2" using r by (auto simp: paths_ok_def reaches_def)
    qed (simp_all add: made_def)
  qed
  from Cons.IH [OF 2(1)] obtain ds where ds: "progress ds [] 0 s2 s'" "mails_of ds = []" "made path ds" "grew_folders s2 s'"
    "\<And>walked. ?pre = path_key [] walked \<Longrightarrow> plain_path (walked @ path) \<Longrightarrow> reaches s2 walked q \<Longrightarrow> paths_ok s2 \<Longrightarrow>
       reaches s' (walked @ path) n \<and> paths_ok s'" by metis
  have "reaches s' (walked @ part # path) n \<and> paths_ok s'"
    if w: "pre = path_key [] walked" "plain_path (walked @ part # path)" "reaches s walked parent" "paths_ok s" for walked
  proof -
    have "plain_path (walked @ [part])" "plain_path ((walked @ [part]) @ path)" using w(2) by (simp_all add: plain_path_def)
    then show ?thesis using q [OF w(1) _ w(3,4)] ds(5) [OF key [OF w(1)]] by simp
  qed
  then show ?case
    using progress_trans [OF 2(2) ds(1)] 2(3) ds(2) grew_folders_trans [OF 2(5) ds(4)] made_append [OF 2(4) ds(3)] by (intro exI [of _ "calls @ ds"]) auto
qed

subsection \<open>What becomes of a folder\<close>

text \<open>
  A folder that was not visited has no path, holds no messages by the server's word, or could not be
  listed. One that was has the messages the server listed, each with its outcome.
\<close>

type_synonym entry = "(nid \<times> outcome list) option"

definition visit :: "'t env \<Rightarrow> options \<Rightarrow> folder_info \<Rightarrow> entry \<Rightarrow> bool" where
  "visit env opts f x \<longleftrightarrow> (case x of
     None \<Rightarrow> folder_path f = [] \<or> \<not> selectable f \<or>
       (\<exists>t e t'. listMessages (en_server env) (raw_name f) t = Some (Inl (ImapError e), t'))
   | Some (n, os) \<Rightarrow> folder_path f \<noteq> [] \<and> selectable f \<and>
       (\<exists>t t'. listMessages (en_server env) (raw_name f) t = Some (Inr (metas_of os), t')) \<and>
       (\<forall>sl \<in> set (stored os). rfc822 (sl_raw sl) \<noteq> [] \<and> genuine (en_server env) opts f sl))"

definition entry_mail :: "icu \<Rightarrow> entry \<Rightarrow> mail_log" where
  "entry_mail icu x = (case x of None \<Rightarrow> [] | Some (n, os) \<Rightarrow> mail_in icu n os)"

definition entry_failures :: "folder_info \<Rightarrow> entry \<Rightarrow> failed_message list" where
  "entry_failures f x = (case x of None \<Rightarrow> [] | Some (n, os) \<Rightarrow> failures f os)"

definition entry_listed :: "entry \<Rightarrow> message_meta list" where
  "entry_listed x = (case x of None \<Rightarrow> [] | Some (n, os) \<Rightarrow> metas_of os)"

lemmas entry_defs = entry_mail_def entry_failures_def entry_listed_def

definition visited :: "'t env \<Rightarrow> options \<Rightarrow> folder_info \<Rightarrow> entry \<Rightarrow> 't migration \<Rightarrow> 't migration \<Rightarrow> bool" where
  "visited env opts f x s s' \<longleftrightarrow> visit env opts f x \<and> grew_folders s s' \<and>
     (\<exists>calls fails. progress calls fails (length (entry_listed x)) s s' \<and>
        mset fails = mset (entry_failures f x) \<and> mails_of calls = entry_mail (en_icu env) x \<and> made (folder_path f) calls) \<and>
     (plain_path (folder_path f) \<and> paths_ok s \<longrightarrow> paths_ok s' \<and>
        (\<forall>n os. x = Some (n, os) \<longrightarrow> reaches s' (folder_path f) n))"

lemma same_grew: "same_folders s s' \<Longrightarrow> grew_folders s s' \<and> reaches s' = reaches s \<and> paths_ok s' = paths_ok s"
  using known_subtree [of "mi_writer s'" "mi_writer s"] by (auto simp: same_folders_def grew_folders_def reaches_def paths_ok_def fun_eq_iff)

lemma tally_same: "tally s' = tally s \<Longrightarrow> same_folders s s'"
  by (simp add: tally_def same_folders_def)

lemma folder_for_run:
  assumes "folder_for path s = Some (Inr n, s')"
  shows "\<exists>calls. progress calls [] 0 s s' \<and> mails_of calls = [] \<and> made path calls \<and> grew_folders s s' \<and>
    (plain_path path \<and> paths_ok s \<longrightarrow> reaches s' path n \<and> paths_ok s')"
proof -
  have "folder_for_from (pw_ipm_subtree (mi_writer s)) [] path s = Some (Inr n, s')"
    using assms by (simp add: folder_for_def bindM_def getM_run)
  from folder_for_from_run [OF this] obtain calls where c: "progress calls [] 0 s s'" "mails_of calls = []" "made path calls" "grew_folders s s'"
    "\<And>walked. [] = path_key [] walked \<Longrightarrow> plain_path (walked @ path) \<Longrightarrow> reaches s walked (pw_ipm_subtree (mi_writer s)) \<Longrightarrow> paths_ok s \<Longrightarrow>
       reaches s' (walked @ path) n \<and> paths_ok s'" by metis
  then show ?thesis using c(5) [of "[]"] by (auto simp: path_key_def reaches_def)
qed

lemma unvisited:
  assumes "visit env opts f None" "grew_folders s s1" "progress calls [] 0 s s1" "mails_of calls = []" "made (folder_path f) calls"
    "same_folders s1 s'" "tally s' = tally s1"
    "plain_path (folder_path f) \<and> paths_ok s \<longrightarrow> paths_ok s1"
  shows "visited env opts f None s s'"
proof -
  have "progress calls [] 0 s s'" using progress_trans [OF assms(3) progress_still [OF assms(7)]] by simp
  moreover have "grew_folders s s'" using grew_folders_trans [OF assms(2)] same_grew [OF assms(6)] by blast
  ultimately show ?thesis
    using assms(1,4,5,8) same_grew [OF assms(6)] by (auto simp: visited_def entry_defs)
qed

text \<open>The list of a folder, or the error the server gave instead.\<close>

lemma list_none:
  assumes "try_catch is_imap_error (bindM (on_net m) (\<lambda>metas. ret (Some metas)))
      (\<lambda>e. bindM (report env (msg e)) (\<lambda>_. ret None)) s = Some (Inr None, s')"
  shows "\<exists>t e t'. m t = Some (Inl (ImapError e), t')"
proof (cases "m (wd_net s)")
  case (Some y)
  obtain r t where y: "y = (r, t)" by fastforce
  show ?thesis
  proof (cases r)
    case (Inl e)
    then have "is_imap_error e" using assms Some y by (auto simp: try_catch_def on_net_def zoomM_def bindM_def split: if_splits)
    then obtain x where "e = ImapError x" by (cases e) (simp_all add: is_imap_error_def)
    then show ?thesis using Some y Inl by blast
  qed (use assms Some y in \<open>simp add: try_catch_def on_net_def zoomM_def bindM_def ret_run\<close>)
qed (use assms in \<open>simp add: try_catch_def on_net_def zoomM_def bindM_def\<close>)

lemma list_some:
  assumes "try_catch is_imap_error (bindM (on_net m) (\<lambda>metas. ret (Some metas)))
      (\<lambda>e. bindM (report env (msg e)) (\<lambda>_. ret None)) s = Some (Inr (Some metas), s')"
  shows "\<exists>t t'. m t = Some (Inr metas, t')"
proof (cases "m (wd_net s)")
  case (Some y)
  obtain r t where y: "y = (r, t)" by fastforce
  show ?thesis
  proof (cases r)
    case (Inr metas')
    then show ?thesis using assms Some y by (auto simp: try_catch_def on_net_def zoomM_def bindM_def ret_run)
  qed (use assms Some y in \<open>auto simp: try_catch_def on_net_def zoomM_def bindM_def ret_run report_def modM_run split: if_splits\<close>)
qed (use assms in \<open>simp add: try_catch_def on_net_def zoomM_def bindM_def\<close>)

lemma run_folder_visited:
  assumes run: "run_folder env opts f s = Some (Inr (), s')"
  shows "\<exists>x. visited env opts f x s s'"
proof (cases "folder_path f = []")
  case True
  then have "s' = s" using run by (simp add: run_folder_def ret_run)
  then show ?thesis using True unvisited [OF _ grew_folders_refl progress_still [OF refl] mails_of.simps(1) made_nil same_folders_refl refl, of env opts f s]
    by (auto simp: visit_def)
next
  case False
  obtain n s1 where 1: "folder_for (folder_path f) s = Some (Inr n, s1)"
    and rest: "bindM (upd_stats (\<lambda>st. st\<lparr>sx_folders := sx_folders st + 1\<rparr>)) (\<lambda>_.
        if \<not> selectable f
        then report env (''Folder '' @ full_name f @ '' is '' @ [BACKSLASH] @ ''Noselect; created empty'')
        else
          bindM (report env (''Fetching '' @ full_name f)) (\<lambda>_.
          bindM (try_catch is_imap_error
              (bindM (on_net (listMessages (en_server env) (raw_name f))) (\<lambda>metas. ret (Some metas)))
              (\<lambda>e. bindM (report env (''warning: '' @ full_name f @ '': '' @ what e)) (\<lambda>_. ret None))) (\<lambda>listed. case listed of
            None \<Rightarrow> ret ()
          | Some metas \<Rightarrow>
              bindM (modM (\<lambda>s. s\<lparr>mi_total := mi_total s + length metas\<rparr>)) (\<lambda>_.
              bindM (batches env opts f n metas) (\<lambda>_.
              report env (''  '' @ full_name f @ '': '' @ to_string (length metas) @ '' message(s)'')))))) s1 = Some (Inr (), s')"
    using run False by (auto simp: run_folder_def bindM_Inr_iff [of "folder_for _"])
  from folder_for_run [OF 1] obtain cs where c: "progress cs [] 0 s s1" "mails_of cs = []" "grew_folders s s1"
    "made (folder_path f) cs" "plain_path (folder_path f) \<and> paths_ok s \<longrightarrow> reaches s1 (folder_path f) n \<and> paths_ok s1" by blast
  let ?list = "try_catch is_imap_error
              (bindM (on_net (listMessages (en_server env) (raw_name f))) (\<lambda>metas. ret (Some metas)))
              (\<lambda>e. bindM (report env (''warning: '' @ full_name f @ '': '' @ what e)) (\<lambda>_. ret None))"
  have count: "keeps (\<lambda>s. tally s = v) (upd_stats (\<lambda>st. st\<lparr>sx_folders := sx_folders st + 1\<rparr>))" for v by (intro still_stats) simp
  have list: "keeps (\<lambda>s. tally s = v) ?list" for v by (intro hoare_intros)
  show ?thesis
  proof (cases "selectable f")
    case False
    then obtain s2 where u: "upd_stats (\<lambda>st. st\<lparr>sx_folders := sx_folders st + 1\<rparr>) s1 = Some (Inr (), s2)"
      "report env (''Folder '' @ full_name f @ '' is '' @ [BACKSLASH] @ ''Noselect; created empty'') s2 = Some (Inr (), s')"
      using rest by (auto simp: bindM_Inr_iff)
    have t: "tally s' = tally s1" using stillD [OF count refl u(1)] stillD [OF still_rules(2) refl u(2)] by simp
    have "visit env opts f None" using False by (simp add: visit_def)
    from unvisited [OF this c(3,1,2,4) tally_same [OF t] t] c(5) show ?thesis by blast
  next
    case True
    obtain u s2 u' s3 listed s4 where 2: "upd_stats (\<lambda>st. st\<lparr>sx_folders := sx_folders st + 1\<rparr>) s1 = Some (Inr u, s2)"
      "report env (''Fetching '' @ full_name f) s2 = Some (Inr u', s3)" and 3: "?list s3 = Some (Inr listed, s4)"
      and 4: "(case listed of None \<Rightarrow> ret () | Some metas \<Rightarrow>
              bindM (modM (\<lambda>s. s\<lparr>mi_total := mi_total s + length metas\<rparr>)) (\<lambda>_.
              bindM (batches env opts f n metas) (\<lambda>_.
              report env (''  '' @ full_name f @ '': '' @ to_string (length metas) @ '' message(s)'')))) s4 = Some (Inr (), s')"
      using rest [unfolded not_not eqTrueI [OF True] not_True_eq_False if_False] by (elim bindM_InrE) (rule that)
    have t: "tally s4 = tally s1" using stillD [OF count refl 2(1)] stillD [OF still_rules(2) refl 2(2)] stillD [OF list refl 3] by simp
    show ?thesis
    proof (cases listed)
      case None
      have "visit env opts f None" using list_none [OF 3 [unfolded None]] by (auto simp: visit_def)
      moreover have "s' = s4" using 4 None by (simp add: ret_run)
      ultimately show ?thesis using unvisited [OF _ c(3,1,2,4) tally_same [OF t] t] c(5) by blast
    next
      case (Some metas)
      have listed: "\<exists>t t'. listMessages (en_server env) (raw_name f) t = Some (Inr metas, t')"
        by (rule list_some [OF 3 [unfolded Some]])
      let ?s5 = "s4\<lparr>mi_total := mi_total s4 + length metas\<rparr>"
      obtain s6 where 6: "batches env opts f n metas ?s5 = Some (Inr (), s6)"
        and 7: "report env (''  '' @ full_name f @ '': '' @ to_string (length metas) @ '' message(s)'') s6 = Some (Inr (), s')"
        using 4 Some by (auto simp: bindM_Inr_iff modM_run)
      obtain os where os: "metas_of os = metas" "handled env opts f n os ?s5 s6" using batches_handled [OF 6] by blast
      obtain ds fs where d: "progress ds fs 0 ?s5 s6" "same_folders ?s5 s6" "mset fs = mset (failures f os)"
        "mails_of ds = mail_in (en_icu env) n os" "\<forall>c \<in> set ds. \<exists>msg. fst c = AddMessage n msg"
        "\<forall>sl \<in> set (stored os). rfc822 (sl_raw sl) \<noteq> [] \<and> genuine (en_server env) opts f sl"
        using os(2) by (auto simp: handled_def)
      have made: "made (folder_path f) (cs @ ds)" using c(4) made_adds [OF d(5)] by (simp add: made_def)
      have t': "tally s' = tally s6" by (rule stillD [OF still_rules(2) refl 7])
      have "progress [] [] (length metas) s1 ?s5" using t by (auto simp: progress_def tally_def)
      from progress_trans [OF progress_trans [OF c(1) this] progress_trans [OF d(1) progress_still [OF t']]]
      have p: "progress (cs @ ds) fs (length metas) s s'" by simp
      have "same_folders s1 ?s5" using t by (simp add: tally_def same_folders_def)
      then have same: "same_folders s1 s'" using d(2) tally_same [OF t'] by (metis same_folders_trans)
      have "visit env opts f (Some (n, os))" using \<open>folder_path f \<noteq> []\<close> True listed os(1) d(6) by (auto simp: visit_def)
      moreover have "grew_folders s s'" using grew_folders_trans [OF c(3)] same_grew [OF same] by blast
      ultimately have "visited env opts f (Some (n, os)) s s'"
        using p d(3,4) c(2,5) made os(1) same_grew [OF same] unfolding visited_def entry_defs by (auto intro!: exI [of _ "cs @ ds"] exI [of _ fs])
      then show ?thesis by blast
    qed
  qed
qed

subsection \<open>The whole run\<close>

definition chosen :: "options \<Rightarrow> folder_info list \<Rightarrow> folder_info list" where
  "chosen opts listed =
     (if op_folders opts = [] then listed
      else filter (\<lambda>f. full_name f \<in> set (op_folders opts) \<or> raw_name f \<in> set (op_folders opts)) listed)"

lemma select_folders_run: "select_folders env opts fs s = Some (Inr r, s') \<Longrightarrow> r = chosen opts fs"
  by (auto simp: select_folders_def chosen_def Let_def bindM_Inr_iff ret_run split: if_splits)

text \<open>The account of the folders: those the server listed and the options choose, in the order of the run.\<close>

definition walked :: "'t env \<Rightarrow> options \<Rightarrow> folder_info list \<Rightarrow> entry list \<Rightarrow> bool" where
  "walked env opts folders xs \<longleftrightarrow>
     (\<exists>t listed t'. listFolders (en_server env) t = Some (Inr listed, t') \<and> folders = sort_key folder_order (chosen opts listed)) \<and>
     list_all2 (visit env opts) folders xs"

abbreviation all_listed :: "entry list \<Rightarrow> message_meta list" where
  "all_listed xs \<equiv> concat (map entry_listed xs)"

abbreviation all_mail :: "icu \<Rightarrow> entry list \<Rightarrow> mail_log" where
  "all_mail icu xs \<equiv> concat (map (entry_mail icu) xs)"

abbreviation all_failures :: "folder_info list \<Rightarrow> entry list \<Rightarrow> failed_message list" where
  "all_failures folders xs \<equiv> concat (map2 entry_failures folders xs)"

definition entry_reached :: "home set \<Rightarrow> nid \<Rightarrow> folder_info \<Rightarrow> entry \<Rightarrow> bool" where
  "entry_reached hs root f x \<longleftrightarrow> (\<forall>n os. x = Some (n, os) \<longrightarrow> leads hs root (folder_path f) n)"

lemma folders_visited:
  assumes "forM (run_folder env opts) fs s = Some (Inr (), s')"
  shows "\<exists>xs calls fails. list_all2 (visit env opts) fs xs \<and> grew_folders s s' \<and> progress calls fails (length (all_listed xs)) s s' \<and>
    mset fails = mset (all_failures fs xs) \<and> mails_of calls = all_mail (en_icu env) xs \<and> made (concat (map folder_path fs)) calls \<and>
    ((\<forall>f \<in> set fs. plain_path (folder_path f)) \<and> paths_ok s \<longrightarrow>
       list_all2 (entry_reached (set (homes (mi_writer s'))) (pw_ipm_subtree (mi_writer s'))) fs xs)"
  using assms
proof (induction fs arbitrary: s)
  case Nil
  then show ?case by (intro exI [of _ "[]"]) (simp add: ret_run progress_still grew_folders_refl)
next
  case (Cons f fs)
  obtain s1 where 1: "run_folder env opts f s = Some (Inr (), s1)" "forM (run_folder env opts) fs s1 = Some (Inr (), s')"
    using Cons.prems by (auto simp: bindM_Inr_iff)
  obtain x cs fails where x: "visit env opts f x" "grew_folders s s1" "progress cs fails (length (entry_listed x)) s s1"
    "mset fails = mset (entry_failures f x)" "mails_of cs = entry_mail (en_icu env) x" "made (folder_path f) cs"
    "plain_path (folder_path f) \<and> paths_ok s \<longrightarrow> paths_ok s1 \<and> (\<forall>n os. x = Some (n, os) \<longrightarrow> reaches s1 (folder_path f) n)"
    using run_folder_visited [OF 1(1)] unfolding visited_def by blast
  obtain xs ds fails' where xs: "list_all2 (visit env opts) fs xs" "grew_folders s1 s'" "progress ds fails' (length (all_listed xs)) s1 s'"
    "mset fails' = mset (all_failures fs xs)" "mails_of ds = all_mail (en_icu env) xs" "made (concat (map folder_path fs)) ds"
    "(\<forall>f \<in> set fs. plain_path (folder_path f)) \<and> paths_ok s1 \<longrightarrow>
       list_all2 (entry_reached (set (homes (mi_writer s'))) (pw_ipm_subtree (mi_writer s'))) fs xs"
    using Cons.IH [OF 1(2)] by blast
  show ?case
  proof (intro exI conjI impI)
    show "list_all2 (visit env opts) (f # fs) (x # xs)" using x(1) xs(1) by simp
    show "grew_folders s s'" by (rule grew_folders_trans [OF x(2) xs(2)])
    show "progress (cs @ ds) (fails @ fails') (length (all_listed (x # xs))) s s'" using progress_trans [OF x(3) xs(3)] by simp
    show "mset (fails @ fails') = mset (all_failures (f # fs) (x # xs))" using x(4) xs(4) by simp
    show "mails_of (cs @ ds) = all_mail (en_icu env) (x # xs)" using x(5) xs(5) by simp
    show "made (concat (map folder_path (f # fs))) (cs @ ds)" using made_append [OF x(6) xs(6)] by simp
    assume p: "(\<forall>f \<in> set (f # fs). plain_path (folder_path f)) \<and> paths_ok s"
    then have "entry_reached (set (homes (mi_writer s'))) (pw_ipm_subtree (mi_writer s')) f x"
      using x(7) reaches_grew [OF _ xs(2)] by (auto simp: entry_reached_def reaches_def)
    then show "list_all2 (entry_reached (set (homes (mi_writer s'))) (pw_ipm_subtree (mi_writer s'))) (f # fs) (x # xs)"
      using xs(7) x(7) p by simp
  qed
qed

lemma entries_count:
  assumes "list_all2 (visit env opts) fs xs"
  shows "length (all_mail icu xs) + length (all_failures fs xs) = length (all_listed xs)"
  using assms
proof (induction rule: list_all2_induct)
  case (Cons f fs x xs)
  have "length (entry_mail icu x) + length (entry_failures f x) = length (entry_listed x)"
    using outcomes_count by (auto simp: entry_defs mail_in_def split: option.split)
  then show ?case using Cons by simp
qed simp

text \<open>Once finished, the writer is done: its destructor does nothing.\<close>

lemma finished_ndb: "keeps pw_finished (pw_on_ndb d)"
  unfolding pw_on_ndb_def by (rule keeps_zoomM [where Q = "\<lambda>_. True"]) (simp_all add: hoare_def split: sum.split)

lemma finished_subs: "keeps pw_finished (pw_with_subs b)"
  unfolding pw_with_subs_def by (rule keeps_zoomM [where Q = "\<lambda>_. True"]) (simp_all add: hoare_def split: sum.split)

lemma finished_contents: "keeps pw_finished (pw_contents i t)"
  unfolding pw_contents_def upd_folder_def by (rule keeps_zoomM [where Q = "\<lambda>_. True"]) (simp_all add: hoare_def split: sum.split)

lemma finished_node: "keeps pw_finished (writeNodeFromHeap n parent m)"
  unfolding writeNodeFromHeap_def by (auto intro!: hoare_intros finished_ndb finished_subs)

lemma finished_local: "keeps pw_finished (local_object x m)"
  unfolding local_object_def by (rule hoareI) (auto split: option.splits prod.splits sum.splits)

lemmas finished_keeps = finished_ndb finished_contents finished_node finished_local folder_at_keeps

lemma pst_finish_finished: "pst_finish s = Some (Inr (), s') \<Longrightarrow> pw_finished s'"
proof -
  have f: "keeps pw_finished writeFolders"
    unfolding writeFolders_def write_folder_def Let_def by (intro hoare_intros finished_keeps)
  have r: "keeps pw_finished writeReservedNodes"
    unfolding writeReservedNodes_def write_template_def write_index_def
    by (intro hoare_intros finished_keeps) (auto intro!: hoare_intros finished_keeps)
  have m: "keeps pw_finished writeMessageStore" "keeps pw_finished writeNameIdMap"
    unfolding writeMessageStore_def writeNameIdMap_def by (rule keeps_bindM; auto intro!: hoare_intros finished_keeps)+
  have "keeps pw_finished (bindM writeFolders (\<lambda>_. bindM writeReservedNodes (\<lambda>_. bindM writeMessageStore (\<lambda>_.
      bindM writeNameIdMap (\<lambda>_. pw_on_ndb finish)))))" (is "keeps _ ?rest")
    by (intro hoare_intros f r m finished_ndb)
  moreover assume "pst_finish s = Some (Inr (), s')"
  then have "pw_finished s \<and> s' = s \<or> ?rest (s\<lparr>pw_finished := True\<rparr>) = Some (Inr (), s')"
    by (auto simp: pst_finish_def bindM_def getM_run ret_run modM_run split: if_splits)
  ultimately show ?thesis using keepsD [of pw_finished ?rest "s\<lparr>pw_finished := True\<rparr>"] by auto
qed

text \<open>The calls of the run, and the writer before it finishes.\<close>

lemma pipeline_calls:
  assumes "pipeline_run env opts s = Some (Inr (st, w), s')"
  shows "\<exists>folders xs w0 calls fails w1. walked env opts folders xs \<and>
    PstWriter_random (op_output_path opts) (en_random env) (en_opens env) (en_accepts env) (en_clock env) = Inr w0 \<and>
    attempts w0 calls w1 \<and> pst_finish w1 = Some (Inr (), w) \<and> length (filter (\<lambda>c. snd c \<noteq> None) calls) \<le> length fails \<and>
    mails_of calls = all_mail (en_icu env) xs \<and> made (concat (map folder_path folders)) calls \<and>
    sx_messages st = length (all_mail (en_icu env) xs) \<and> sx_failed_messages st = length fails \<and>
    sx_failed_uids st = fails \<and> mset fails = mset (all_failures folders xs) \<and>
    ((\<forall>f \<in> set folders. plain_path (folder_path f)) \<longrightarrow> list_all2 (entry_reached (set (homes w1)) (pw_ipm_subtree w1)) folders xs)"
proof -
  obtain t listed t' r s1 where l: "listFolders (en_server env) t = Some (Inr listed, t')"
    and rest: "(case PstWriter_random (op_output_path opts) (en_random env) (en_opens env) (en_accepts env) (en_clock env) of
       Inl e \<Rightarrow> throw e
     | Inr w \<Rightarrow> with_writer w (run_folders env opts (sort_key folder_order (chosen opts listed)))) s1 = Some (Inr (st, w), s')"
    using assms unfolding pipeline_run_def Let_def
    by (auto simp: bindM_Inr_iff on_net_def zoomM_def dest!: select_folders_run split: option.splits prod.splits)
  let ?fs = "sort_key folder_order (chosen opts listed)"
  obtain w0 where w0: "PstWriter_random (op_output_path opts) (en_random env) (en_opens env) (en_accepts env) (en_clock env) = Inr w0"
    and run: "with_writer w0 (run_folders env opts ?fs) s1 = Some (Inr (st, w), s')"
    using rest by (auto simp: throw_run split: sum.splits)
  let ?m0 = "world.extend s1 \<lparr>mi_writer = w0, mi_by_path = Map.empty, mi_total = 0, mi_stats = no_stats\<rparr>"
  have m0: "mi_writer ?m0 = w0" "mi_by_path ?m0 = Map.empty" "mi_total ?m0 = 0" "mi_stats ?m0 = no_stats"
    by (simp_all add: world.extend_def)
  obtain m2 u w' where 2: "run_folders env opts ?fs ?m0 = Some (Inr (), m2)" "st = mi_stats m2" "PstWriter_destroy (mi_writer m2) = Some (u, w)"
    using run by (auto simp: with_writer_def split: option.splits prod.splits sum.splits)
  obtain m1 where 1: "forM (run_folder env opts) ?fs ?m0 = Some (Inr (), m1)" "on_writer pst_finish m1 = Some (Inr (), m2)"
    using 2(1) by (auto simp: run_folders_def bindM_Inr_iff)
  obtain w2 where w2: "pst_finish (mi_writer m1) = Some (Inr (), w2)" "m2 = m1\<lparr>mi_writer := w2\<rparr>"
    using 1(2) by (auto simp: on_writer_def zoomM_def split: option.splits prod.splits)
  have "PstWriter_destroy w2 = Some (Inr (), w2)" using pst_finish_finished [OF w2(1)]
    by (simp add: PstWriter_destroy_def pst_finish_def bindM_run getM_run ret_run)
  then have w: "w = w2" using 2(3) w2(2) by simp
  obtain xs calls fails where v: "list_all2 (visit env opts) ?fs xs" "progress calls fails (length (all_listed xs)) ?m0 m1"
    "mset fails = mset (all_failures ?fs xs)" "mails_of calls = all_mail (en_icu env) xs" "made (concat (map folder_path ?fs)) calls"
    "(\<forall>f \<in> set ?fs. plain_path (folder_path f)) \<and> paths_ok ?m0 \<longrightarrow>
       list_all2 (entry_reached (set (homes (mi_writer m1))) (pw_ipm_subtree (mi_writer m1))) ?fs xs"
    using folders_visited [OF 1(1)] by blast
  have "paths_ok ?m0" by (simp add: paths_ok_def m0)
  moreover have "walked env opts ?fs xs" using l v(1) by (auto simp: walked_def)
  ultimately show ?thesis
    using v w0 w w2 2(2) unfolding progress_def m0
    by (intro exI [of _ ?fs] exI [of _ xs] exI [of _ w0] exI [of _ calls] exI [of _ fails] exI [of _ "mi_writer m1"]) (auto simp: no_stats_def)
qed

text \<open>A trace without failures, between the constructor and \<open>finish\<close>, is a session: the file has its mailbox.\<close>

lemma trace_file:
  fixes clock :: "nat \<Rightarrow> int"
  assumes new: "PstWriter_new path key opens accepts clock = Inr w0" "length key = 16"
    and calls: "attempts w0 cs w1" "filter (\<lambda>c. snd c \<noteq> None) cs = []" and fin: "pst_finish w1 = Some (Inr (), w)"
    and fit: "\<forall>c \<in> fst ` set cs. call_fits c" "length cs < 2 ^ 19"
  shows "mailbox_in_file (disk (pw_ndb w)) key (map fd_place (pw_folders w1), mails_of cs) \<and> pw_ipm_subtree w1 = folder_nid 0"
proof -
  have key: "16 \<le> length key" "take 16 key = key" using new(2) by simp_all
  obtain d where w0: "writer_holds [] w0" "map fd_place (pw_folders w0) = first_places" "known w0 = (take 16 key, map folder_nid [0..<5])"
    by (rule fresh_writer [OF new(1) key(1)])
  have run: "forM run_call (map fst cs) w0 = Some (Inr (), w1)" by (rule attempts_session [OF calls])
  have "session (map fst cs) w0 = Some (Inr (), w)" using run fin by (simp add: session_def bindM_run)
  from session_law [OF new(1) key(1) _ _ this] fit obtain m where
    m: "mailbox_calls (first_places, []) (map fst cs) = Some m" "mailbox_in_file (disk (pw_ndb w)) key m" by (auto simp: key(2))
  have n: "length (pw_folders w0) = 8" using arg_cong [OF w0(2), of length] by (simp add: first_places_def)
  have few: "length ([] :: mail_log) + length (map fst cs) < 2 ^ 20" "length (pw_folders w0) + length (map fst cs) < 2 ^ 20" using fit(2) n by simp_all
  have "\<forall>c \<in> set (map fst cs). call_fits c" using fit(1) by simp
  from run_calls_law [OF w0(1) few this run] obtain log where
    log: "mailbox_calls (first_places, []) (map fst cs) = Some (mailbox_of w1 log)" "known w1 = known w0" by (auto simp: w0(2))
  have "m = mailbox_of w1 log" using m(1) log(1) by simp
  moreover have "log = mails_of cs" using mails_of_log [OF log(1) calls(2)] by simp
  moreover have "pw_ipm_subtree w1 = folder_nid 0" using log(2) w0(3) by (simp add: known_def upt_conv_Cons numeral_eq_Suc)
  ultimately show ?thesis using m(2) by simp
qed

lemma all_stored:
  assumes "all_failures folders xs = []" "length folders = length xs"
  shows "\<forall>x \<in> set xs. \<forall>n os. x = Some (n, os) \<longrightarrow> stored os = map fst os"
  using assms
proof (induction folders xs rule: list_induct2')
  case (4 f fs x xs)
  then show ?case using no_failures [of f] by (fastforce simp: entry_failures_def)
qed simp_all

definition mail_fits :: "folder_info list \<Rightarrow> mail_log \<Rightarrow> bool" where
  "mail_fits folders log \<longleftrightarrow>
     (\<forall>f \<in> set folders. \<forall>part \<in> set (folder_path f). text_fits part) \<and> (\<forall>(n, msg) \<in> set log. message_fits msg) \<and>
     length (concat (map folder_path folders)) + length log < 2 ^ 19"

lemma trace_fits:
  assumes "made (concat (map folder_path folders)) cs" "mail_fits folders (mails_of cs)" "filter (\<lambda>c. snd c \<noteq> None) cs = []"
  shows "(\<forall>c \<in> fst ` set cs. call_fits c) \<and> length cs < 2 ^ 19"
proof -
  note calls = trace_calls [OF assms(3)]
  have "call_fits c" if c: "c \<in> fst ` set cs" for c
  proof (cases c)
    case (CreateFolder p name)
    then have "name \<in> set (concat (map folder_path folders))" using calls c assms(1) by (fastforce simp: made_def)
    then show ?thesis using CreateFolder assms(2) by (auto simp: mail_fits_def)
  next
    case (AddMessage n msg)
    then have "(n, msg) \<in> set (mails_of cs)" using calls c by fastforce
    then show ?thesis using AddMessage assms(2) by (auto simp: mail_fits_def)
  qed
  then show ?thesis using calls assms(1,2) by (simp add: made_def mail_fits_def)
qed

subsection \<open>Properties\<close>


text \<open>
  C4: A migration with no failure delivers the mailbox. If the run returns and has counted no failed
  message, every message the server listed in a folder it listed was stored, and, as long as folder
  names and messages fit the fields of the format (the bounds of \<open>session_stored\<close>) and folders on the paths and
  messages are fewer than 524288 together, the file on disk alone holds these messages and no others,
  as \<open>session_stored\<close> says, in order, each in its folder; and that folder is reached from the subtree Outlook shows
  by the folder's path, name by name, unless a name contains the separator of the pipeline's map.
\<close>

theorem migration_delivers:
  assumes "pipeline_run env opts s = Some (Inr (st, w), s')" "sx_failed_messages st = 0"
  shows "\<exists>folders xs. walked env opts folders xs \<and> sx_messages st = length (all_listed xs) \<and>
    (\<forall>x \<in> set xs. \<forall>n os. x = Some (n, os) \<longrightarrow> stored os = map fst os) \<and>
    (mail_fits folders (all_mail (en_icu env) xs) \<longrightarrow>
      (\<exists>ps. mailbox_in_file (disk (pw_ndb w)) (random_key (en_random env)) (ps, all_mail (en_icu env) xs) \<and>
        ((\<forall>f \<in> set folders. \<forall>part \<in> set (folder_path f). UNIT_SEP \<notin> set part) \<longrightarrow>
          list_all2 (entry_reached (set (map place_home ps)) (folder_nid 0)) folders xs)))"
proof -
  obtain folders xs w0 calls fails w1 where r: "walked env opts folders xs"
    "PstWriter_random (op_output_path opts) (en_random env) (en_opens env) (en_accepts env) (en_clock env) = Inr w0"
    "attempts w0 calls w1" "pst_finish w1 = Some (Inr (), w)" "length (filter (\<lambda>c. snd c \<noteq> None) calls) \<le> length fails"
    "mails_of calls = all_mail (en_icu env) xs" "made (concat (map folder_path folders)) calls"
    "sx_messages st = length (all_mail (en_icu env) xs)" "sx_failed_messages st = length fails" "mset fails = mset (all_failures folders xs)"
    "(\<forall>f \<in> set folders. plain_path (folder_path f)) \<longrightarrow> list_all2 (entry_reached (set (homes w1)) (pw_ipm_subtree w1)) folders xs"
    using pipeline_calls [OF assms(1)] by metis
  have visits: "list_all2 (visit env opts) folders xs" using r(1) by (simp add: walked_def)
  have none: "filter (\<lambda>c. snd c \<noteq> None) calls = []" "all_failures folders xs = []" using r(5,9,10) assms(2) by auto
  have count: "sx_messages st = length (all_listed xs)" using entries_count [OF visits, of "en_icu env"] none(2) r(8) by simp
  have "\<exists>ps. mailbox_in_file (disk (pw_ndb w)) (random_key (en_random env)) (ps, all_mail (en_icu env) xs) \<and>
        ((\<forall>f \<in> set folders. \<forall>part \<in> set (folder_path f). UNIT_SEP \<notin> set part) \<longrightarrow>
          list_all2 (entry_reached (set (map place_home ps)) (folder_nid 0)) folders xs)"
    if "mail_fits folders (all_mail (en_icu env) xs)"
  proof -
    have "length (random_key (en_random env)) = 16" by (simp add: random_key_def)
    from trace_file [OF r(2) [unfolded PstWriter_random_def] this r(3) none(1) r(4)] trace_fits [OF r(7) _ none(1)] that
    have held: "mailbox_in_file (disk (pw_ndb w)) (random_key (en_random env)) (map fd_place (pw_folders w1), all_mail (en_icu env) xs)"
      "pw_ipm_subtree w1 = folder_nid 0" by (simp_all add: r(6))
    then show ?thesis using held r(11) folder_path_parts
      by (intro exI [of _ "map fd_place (pw_folders w1)"]) (auto simp: homes_places plain_path_def simp del: map_map)
  qed
  then show ?thesis using r(1) count all_stored [OF none(2) list_all2_lengthD [OF visits]] by blast
qed

subsection \<open>Examples\<close>

text \<open>
  A server with one folder and one message in it, which answers a fetch with the message's octets or
  with none; the loops of its parsers are unfolded as the code has them.
\<close>

declare join_literals.simps [code] lines_from.simps [code] fetch_loop.simps [code]

definition inbox :: folder_info where
  "inbox = \<lparr>full_name = ''INBOX'', raw_name = ''INBOX'', delimiter = CHR ''/'', selectable = True\<rparr>"

definition letter :: string where
  "letter = ''Subject: Hi'' @ [CR, LF, CR, LF] @ ''Hello''"

definition letter_meta :: message_meta where
  "letter_meta = \<lparr>mm_uid = 7, mm_flags = 0, mm_keywords = [], mm_internal_date = 0, mm_size = 20\<rparr>"

definition one_folder_server :: "string \<Rightarrow> unit transport" where
  "one_folder_server body =
     \<lparr>tr_command = (\<lambda>mailbox line. ret
        (if mailbox = [] then ''* LIST () '' @ [QUOTE] @ ''/'' @ [QUOTE] @ '' INBOX'' @ [CR, LF]
         else if line = ''UID FETCH 1:* (FLAGS INTERNALDATE RFC822.SIZE)'' then ''* 1 FETCH (UID 7 FLAGS () RFC822.SIZE 20)'' @ [CR, LF]
         else if body = [] then []
         else ''* 1 FETCH (UID 7 BODY[] {'' @ to_string (length body) @ ''}'' @ [CR, LF] @ body @ '')'' @ [CR, LF])),
      tr_fetchBody = (\<lambda>_ _. ret body)\<rparr>"

definition one_folder_env :: "string \<Rightarrow> unit env" where
  "one_folder_env body =
     \<lparr>en_server = one_folder_server body, en_icu = icu_latin9, en_logging = False, en_rate = (\<lambda>_. None), en_disk = (\<lambda>_ _. None),
      en_mkdir = (\<lambda>_. None), en_opens = True, en_accepts = (\<lambda>_ _. True), en_random = of_nat, en_clock = (\<lambda>_. 0)\<rparr>"

definition quiet_world :: "unit world" where
  "quiet_world = \<lparr>wd_net = (), wd_files = Map.empty, wd_log = []\<rparr>"

lemma server_answers:
  "listFolders (one_folder_server []) () = Some (Inr [inbox], ())" "listFolders (one_folder_server letter) () = Some (Inr [inbox], ())"
  "listMessages (one_folder_server []) ''INBOX'' () = Some (Inr [letter_meta], ())"
  "listMessages (one_folder_server letter) ''INBOX'' () = Some (Inr [letter_meta], ())"
  "fetchMessages (one_folder_server []) ''INBOX'' [letter_meta] () = Some (Inr [raw_of letter_meta []], ())"
  "fetchMessages (one_folder_server letter) ''INBOX'' [letter_meta] () = Some (Inr [raw_of letter_meta letter], ())"
  "fetchMessage (one_folder_server []) ''INBOX'' letter_meta () = Some (Inr (raw_of letter_meta []), ())"
  by code_simp+

lemma letter_meta_fields [simp]: "mm_uid letter_meta = 7" "mm_size letter_meta = 20"
  by (simp_all add: letter_meta_def)

definition letter_mail :: message where
  "letter_mail = Message (empty_fields\<lparr>m_subject := ''Hi'', body_text := ''Hello'', m_headers := [\<lparr>rh_name = ''Subject'', rh_value = ''Hi''\<rparr>],
     imap_uid := 7, m_size := 20\<rparr>) []"

lemma letter_migrated:
  "migrated icu_latin9 \<lparr>sl_meta = letter_meta, sl_raw = raw_of letter_meta letter, sl_accounted = False, sl_wanted = True\<rparr> = letter_mail"
  by code_simp

lemma letter_mail_fits: "message_fits letter_mail"
  using sample_lengths
  by (simp add: letter_mail_def empty_fields_def fields_fit_def recipients_fit_def mailbox_fits_def attachment_fits_def no_mailbox_def
     joinMailboxes_def display_name_def header_blob_def)

lemma letter_mail_row: "row_budget letter_mail \<le> max_load"
  by (simp add: letter_mail_def empty_fields_def row_budget_def write_cost_def contents_cells_def op_cost_def short_value
    joinMailboxes_def display_name_def fixed_cell_def variable_cell_def string_bytes_def no_mailbox_def Let_def)

lemma letter_mail_cost: "message_cost letter_mail < 2 ^ 16"
proof -
  have "length (string_array []) div 4096 = 0" using sample_lengths by simp
  then show ?thesis
    by (simp add: letter_mail_def empty_fields_def no_mailbox_def props_cost_def fields_cost_def headers_cost_def recipients_cost_def
      recipients_def fill_cost_def isStructuredHeader_def kKnown_def
      joinMailboxes_def display_name_def header_blob_def fixed_cell_def variable_cell_def text_cost_def store_cost_def data_cost_def
      string_bytes_def merge_headers_def merge_header_def place_cost_def Let_def short_utf16)
qed

definition mail_options :: options where
  "mail_options = default_options\<lparr>op_output_path := ''mail.pst''\<rparr>"

lemma inbox_path: "folder_path inbox = [''INBOX'']" "full_name inbox = ''INBOX''" "raw_name inbox = ''INBOX''" "selectable inbox"
  by (simp_all add: inbox_def folder_path_def)

text \<open>What the writer does when \<open>INBOX\<close> is created and the letter is filed, or nothing is.\<close>

lemma inbox_session:
  assumes "calls = [] \<or> calls = [AddMessage (folder_nid 7) letter_mail]"
  shows "\<exists>w0 w1 w2 w3. PstWriter_new ''mail.pst'' (random_key of_nat) True (\<lambda>_ _. True) (\<lambda>_. 0) = Inr w0 \<and> pw_ipm_subtree w0 = folder_nid 0 \<and>
    createFolder (folder_nid 0) ''INBOX'' w0 = Some (Inr (folder_nid 7), w1) \<and> forM run_call calls w1 = Some (Inr (), w2) \<and>
    pst_finish w2 = Some (Inr (), w3)"
proof -
  let ?calls = "CreateFolder (folder_nid 0) ''INBOX'' # calls"
  have key: "16 \<le> length (random_key of_nat)" by (simp add: random_key_def)
  obtain ps log where box: "mailbox_calls (first_places, []) ?calls = Some (ps, log)" "length ps = 9" "log = [] \<or> log = [(folder_nid 7, letter_mail)]"
    using assms by (auto simp: first_places_def grown_def eval_nat_numeral)
  have load: "\<forall>f. load f log \<le> max_load" using box(3) letter_mail_row by (auto simp: load_def)
  have cheap: "\<forall>c \<in> set ?calls. call_cheap c" using assms letter_mail_fits letter_mail_cost by (auto simp: letter_mail_def empty_fields_def)
  have "length ?calls \<le> 2 ^ 16" "length ps \<le> 400" using assms box(2) by auto
  from session_live [OF key box(1) cheap this load, of "''mail.pst''" "\<lambda>_. 0"] obtain w0 w3 where
    w0: "PstWriter_new ''mail.pst'' (random_key of_nat) True (\<lambda>_ _. True) (\<lambda>_. 0) = Inr w0" "session ?calls w0 = Some (Inr (), w3)" by blast
  obtain d where fresh: "writer_holds [] w0" "map fd_place (pw_folders w0) = first_places"
    "known w0 = (take 16 (random_key of_nat), map folder_nid [0..<5])"
    by (rule fresh_writer [OF w0(1) key])
  obtain n w1 w2 where run: "createFolder (folder_nid 0) ''INBOX'' w0 = Some (Inr n, w1)" "forM run_call calls w1 = Some (Inr (), w2)"
    "pst_finish w2 = Some (Inr (), w3)"
    using w0(2) by (auto simp: session_def bindM_Inr_iff ret_run)
  have len: "length (pw_folders w0) = 8" using arg_cong [OF fresh(2), of length] by (simp add: first_places_def)
  then have "n = folder_nid 7" using createFolder_law [OF fresh(1) _ run(1)] by simp
  moreover have "pw_ipm_subtree w0 = folder_nid 0" using fresh(3) by (simp add: known_def upt_conv_Cons numeral_eq_Suc)
  ultimately show ?thesis using w0(1) run by blast
qed

text \<open>The run up to the messages, and after them.\<close>

lemma one_folder_run:
  assumes w: "PstWriter_new ''mail.pst'' (random_key of_nat) True (\<lambda>_ _. True) (\<lambda>_. 0) = Inr w0" "pw_ipm_subtree w0 = folder_nid 0"
      "createFolder (folder_nid 0) ''INBOX'' w0 = Some (Inr (folder_nid 7), w1)" "pst_finish w2 = Some (Inr (), w3)"
    and body: "body = [] \<or> body = letter"
    and batch: "run_batch (one_folder_env body) mail_options inbox (folder_nid 7) [letter_meta]
        \<lparr>wd_net = (), wd_files = Map.empty, wd_log = [], mi_writer = w1, mi_by_path = [''INBOX'' \<mapsto> folder_nid 7], mi_total = 1,
          mi_stats = no_stats\<lparr>sx_folders := 1\<rparr>\<rparr> =
      Some (Inr (), \<lparr>wd_net = (), wd_files = Map.empty, wd_log = [], mi_writer = w2, mi_by_path = [''INBOX'' \<mapsto> folder_nid 7], mi_total = 1,
          mi_stats = st\<rparr>)"
  shows "pipeline_run (one_folder_env body) mail_options quiet_world = Some (Inr (st, w3), quiet_world)"
proof -
  let ?env = "one_folder_env body"
  have server: "listFolders (en_server ?env) () = Some (Inr [inbox], ())" "listMessages (en_server ?env) ''INBOX'' () = Some (Inr [letter_meta], ())"
    using body server_answers by (auto simp: one_folder_env_def)
  have env: "en_logging ?env = False" "en_opens ?env = True" "en_accepts ?env = (\<lambda>_ _. True)" "en_random ?env = of_nat" "en_clock ?env = (\<lambda>_. 0)"
    by (simp_all add: one_folder_env_def)
  have opts: "op_spool_dir mail_options = []" "op_folders mail_options = []" "op_output_path mail_options = ''mail.pst''"
    by (simp_all add: mail_options_def default_options_def)
  have take: "op_batch_size mail_options = 50" by (simp add: mail_options_def default_options_def)
  have loop: "batches ?env mail_options inbox (folder_nid 7) [letter_meta] s = (case run_batch ?env mail_options inbox (folder_nid 7) [letter_meta] s of
      Some (Inr u, s') \<Rightarrow> Some (Inr (), s') | r \<Rightarrow> r)" for s
    by (simp add: batches.simps take split: option.split prod.split sum.split)
  let ?m0 = "\<lparr>wd_net = (), wd_files = Map.empty, wd_log = [], mi_writer = w0, mi_by_path = Map.empty, mi_total = 0, mi_stats = no_stats\<rparr>"
  let ?m2 = "\<lparr>wd_net = (), wd_files = Map.empty, wd_log = [], mi_writer = w2, mi_by_path = [''INBOX'' \<mapsto> folder_nid 7], mi_total = 1, mi_stats = st\<rparr>"
  have "run_folder ?env mail_options inbox ?m0 = Some (Inr (), ?m2)"
    by (simp add: Let_def run_folder_def inbox_path folder_for_def bindM_def getM_run w modM_run on_writer_def zoomM_def ret_run upd_stats_def
        report_def env try_catch_def on_net_def server loop batch [unfolded no_stats_def, simplified] no_stats_def)
  then have "run_folders ?env mail_options [inbox] ?m0 = Some (Inr (), ?m2\<lparr>mi_writer := w3\<rparr>)"
    by (simp add: run_folders_def bindM_def ret_run on_writer_def zoomM_def w(4))
  moreover have "PstWriter_destroy w3 = Some (Inr (), w3)" using pst_finish_finished [OF w(4)]
    by (simp add: PstWriter_destroy_def pst_finish_def bindM_run getM_run ret_run)
  ultimately have "with_writer w0 (run_folders ?env mail_options [inbox]) quiet_world = Some (Inr (st, w3), quiet_world)"
    by (simp add: with_writer_def quiet_world_def world.extend_def world.truncate_def)
  then show ?thesis
    by (simp add: pipeline_run_def opts bindM_def ret_run report_def env modM_run on_net_def zoomM_def quiet_world_def server
        select_folders_def PstWriter_random_def w(1))
qed


lemma letter_run:
  "\<exists>w. pipeline_run (one_folder_env letter) mail_options quiet_world =
     Some (Inr (no_stats\<lparr>sx_folders := 1, sx_messages := 1, sx_fetched_bytes := 20\<rparr>, w), quiet_world)"
proof -
  obtain w0 w1 w2 w3 where w: "PstWriter_new ''mail.pst'' (random_key of_nat) True (\<lambda>_ _. True) (\<lambda>_. 0) = Inr w0" "pw_ipm_subtree w0 = folder_nid 0"
      "createFolder (folder_nid 0) ''INBOX'' w0 = Some (Inr (folder_nid 7), w1)"
      "forM run_call [AddMessage (folder_nid 7) letter_mail] w1 = Some (Inr (), w2)" "pst_finish w2 = Some (Inr (), w3)"
    using inbox_session [of "[AddMessage (folder_nid 7) letter_mail]"] by blast
  have add: "addMessage (folder_nid 7) letter_mail w1 = Some (Inr (), w2)" using w(4) by (auto simp: bindM_Inr_iff ret_run)
  have long: "length letter = 20" "letter \<noteq> []" "attachments letter_mail = []" by (simp_all add: letter_def letter_mail_def)
  show ?thesis
    by (intro exI [of _ w3] one_folder_run [OF w(1-3,5)])
      (simp_all add: Let_def run_batch_def from_spool_def fetch_batch_def Pipeline.collect_def write_slot_def mail_options_def default_options_def
        bindM_def ret_run getM_run upd_stats_def modM_run try_catch_def on_net_def zoomM_def on_writer_def one_folder_env_def server_answers inbox_path
        report_def no_raw_def no_stats_def letter_migrated add long)
qed


text \<open>Whatever the server is asked for, a message it returns is the letter.\<close>

lemma letter_fetched:
  assumes "fetched (one_folder_server letter) inbox m raw" "rfc822 raw \<noteq> []"
  shows "rfc822 raw = letter"
  using assms(1) unfolding fetched_def
proof (elim disjE exE conjE)
  fix t t' assume "fetchMessage (one_folder_server letter) (raw_name inbox) m t = Some (Inr raw, t')"
  then show ?thesis by (auto simp: fetchMessage_def one_folder_server_def bindM_Inr_iff ret_run)
next
  fix t ms got t' assume f: "fetchMessages (one_folder_server letter) (raw_name inbox) ms t = Some (Inr got, t')" and m: "(m, raw) \<in> set (zip ms got)"
  have line: "''UID FETCH '' @ u @ '' (UID BODY.PEEK[])'' \<noteq> ''UID FETCH 1:* (FLAGS INTERNALDATE RFC822.SIZE)''" for u
  proof
    assume "''UID FETCH '' @ u @ '' (UID BODY.PEEK[])'' = ''UID FETCH 1:* (FLAGS INTERNALDATE RFC822.SIZE)''"
    then have "rev (''UID FETCH '' @ u @ '' (UID BODY.PEEK[])'') = rev ''UID FETCH 1:* (FLAGS INTERNALDATE RFC822.SIZE)''" by (rule arg_cong)
    then show False by simp
  qed
  have answer: "parseFetchBodies (''* 1 FETCH (UID 7 BODY[] {'' @ to_string (length letter) @ ''}'' @ [CR, LF] @ letter @ '')'' @ [CR, LF]) =
      Some (Inr [\<lparr>fb_uid = 7, fb_rfc822 = letter\<rparr>])" by code_simp
  have raws: "r \<in> set (assign_bodies bodies ms) \<Longrightarrow> (\<And>u b. bodies u = Some b \<Longrightarrow> b = [] \<or> b = letter) \<Longrightarrow> rfc822 r = [] \<or> rfc822 r = letter"
    for r bodies ms
  proof (induction ms arbitrary: bodies)
    case (Cons m ms)
    show ?case
    proof (cases "bodies (mm_uid m)")
      case None
      then show ?thesis using Cons.prems Cons.IH [of bodies] by auto
    next
      case (Some b)
      then have b: "r = raw_of m b \<or> r \<in> set (assign_bodies (bodies(mm_uid m \<mapsto> [])) ms)" using Cons.prems(1) by auto
      have "c = [] \<or> c = letter" if "(bodies(mm_uid m \<mapsto> [])) u = Some c" for u c
        using that Cons.prems(2) by (cases "u = mm_uid m") auto
      from b show ?thesis
      proof
        assume "r \<in> set (assign_bodies (bodies(mm_uid m \<mapsto> [])) ms)"
        then show ?thesis using \<open>\<And>u c. (bodies(mm_uid m \<mapsto> [])) u = Some c \<Longrightarrow> c = [] \<or> c = letter\<close> by (rule Cons.IH)
      qed (use Cons.prems(2) [OF Some] in simp)
    qed
  qed simp
  have "letter \<noteq> []" by (simp add: letter_def)
  then have "got = [] \<or> got = assign_bodies [7 \<mapsto> letter] ms"
    using f line answer by (auto simp: fetchMessages_def Let_def bindM_Inr_iff ret_run one_folder_server_def inbox_path parsed_def body_map_def
        split: if_splits)
  then have "raw \<in> set (assign_bodies [7 \<mapsto> letter] ms)" using m by (auto dest: set_zip_rightD)
  moreover have "b = [] \<or> b = letter" if "[7 \<mapsto> letter] u = Some b" for u b using that by (cases "u = 7") simp_all
  ultimately have "rfc822 raw = [] \<or> rfc822 raw = letter" by (rule raws)
  then show ?thesis using assms(2) by blast
qed

lemma migration_delivers_witness:
  "\<exists>w ps n. pipeline_run (one_folder_env letter) mail_options quiet_world =
       Some (Inr (no_stats\<lparr>sx_folders := 1, sx_messages := 1, sx_fetched_bytes := 20\<rparr>, w), quiet_world) \<and>
     mailbox_in_file (disk (pw_ndb w)) (random_key of_nat) (ps, [(n, letter_mail)]) \<and> leads (set (map place_home ps)) (folder_nid 0) [''INBOX''] n"
proof -
  let ?env = "one_folder_env letter" and ?st = "no_stats\<lparr>sx_folders := 1, sx_messages := 1, sx_fetched_bytes := 20\<rparr>"
  obtain w where run: "pipeline_run ?env mail_options quiet_world = Some (Inr (?st, w), quiet_world)" using letter_run by blast
  have "sx_failed_messages ?st = 0" by (simp add: no_stats_def)
  from migration_delivers [OF run this] obtain folders xs where r: "walked ?env mail_options folders xs"
    "\<forall>x \<in> set xs. \<forall>n os. x = Some (n, os) \<longrightarrow> stored os = map fst os"
    "mail_fits folders (all_mail (en_icu ?env) xs) \<Longrightarrow>
      \<exists>ps. mailbox_in_file (disk (pw_ndb w)) (random_key (en_random ?env)) (ps, all_mail (en_icu ?env) xs) \<and>
        ((\<forall>f \<in> set folders. \<forall>part \<in> set (folder_path f). UNIT_SEP \<notin> set part) \<longrightarrow>
          list_all2 (entry_reached (set (map place_home ps)) (folder_nid 0)) folders xs)" by blast
  have env: "en_server ?env = one_folder_server letter" "en_icu ?env = icu_latin9" "en_random ?env = of_nat" by (simp_all add: one_folder_env_def)
  have folders: "folders = [inbox]" and visits: "list_all2 (visit ?env mail_options) folders xs"
    using r(1) server_answers(2) by (auto simp: walked_def env chosen_def mail_options_def default_options_def)
  then obtain x where x: "xs = [x]" "visit ?env mail_options inbox x" by (auto simp: list_all2_Cons1)
  then obtain n os where os: "x = Some (n, os)" "metas_of os = [letter_meta]"
      "\<forall>sl \<in> set (stored os). rfc822 (sl_raw sl) \<noteq> [] \<and> genuine (one_folder_server letter) mail_options inbox sl"
    using server_answers(4) by (auto simp: visit_def env inbox_path split: option.splits)
  then obtain sl where sl: "stored os = [sl]" "sl_meta sl = letter_meta" using r(2) x(1) by auto
  have "rfc822 (sl_raw sl) = letter" "sl_raw sl = raw_of letter_meta (rfc822 (sl_raw sl))"
    using os(3) sl letter_fetched by (auto simp: genuine_def mail_options_def default_options_def split: if_splits)
  then have "migrated icu_latin9 sl = letter_mail" using letter_migrated sl(2) by (simp add: migrated_def)
  then have mail: "all_mail (en_icu ?env) xs = [(n, letter_mail)]" by (simp add: x(1) os(1) entry_defs mail_in_def sl(1) env)
  have "mail_fits folders [(n, letter_mail)]" using letter_mail_fits by (simp add: mail_fits_def folders inbox_path)
  from r(3) [unfolded mail, OF this] obtain ps where ps: "mailbox_in_file (disk (pw_ndb w)) (random_key of_nat) (ps, [(n, letter_mail)])"
    "list_all2 (entry_reached (set (map place_home ps)) (folder_nid 0)) folders xs" by (auto simp: env folders inbox_path UNIT_SEP_def)
  then show ?thesis using run by (auto simp: folders x(1) os(1) entry_reached_def inbox_path)
qed

end
