(* ===== verification/Spec2Isabelle.thy ===== *)
theory Spec2Isabelle
  imports Migration
begin

text \<open>
  \<^bold>\<open>imap2pst, verified.\<close> The program copies mailboxes from an IMAP server into an Outlook PST file
  that it writes itself. This library models its implementation, \<open>src/src/\<close>, and proves what makes
  it correct; the theorems that are properties of the program carry a claim number (C1, C2, ...).

  \<^bold>\<open>The parts of the program.\<close>
  \<open>main.cpp\<close> reads the options and calls \<open>pipeline::run\<close>. The pipeline lists the folders through
  \<open>imap::ImapClient\<close>, fetches messages in batches, parses each with \<open>mime::parse\<close> into the neutral
  \<open>core::Message\<close> and hands it to \<open>pst::PstWriter\<close>. The writer is a stack: messages and folders
  become property contexts and tables (\<open>ltp\<close>, \<open>streaming_table\<close>, \<open>nameid_map\<close>), these are heaps
  (\<open>heap\<close>) whose blocks the node database (\<open>ndb\<close>) places in the file, with checksums (\<open>crc\<close>), B-trees
  over blocks and nodes, and allocation maps.

  \<^bold>\<open>Conventions.\<close> (\<open>Prelude\<close>, \<open>Text\<close>.) A program over a state \<open>'s\<close> is a function from the state to
  \<open>((error + 'a) \<times> 's) option\<close>: \<open>None\<close> is a call that does not return, \<open>Inl\<close> an exception, which keeps
  what was changed before it, \<open>Inr\<close> a return. \<open>bindM\<close>, \<open>mapM\<close>, \<open>forM\<close> compose, \<open>zoomM\<close> runs the program
  of a member object on the object that contains it. A \<open>std::vector<uint8_t>\<close> is a list of \<open>8 word\<close>, a
  \<open>std::string\<close> a list of \<open>char\<close>; integers that may wrap, identifiers and everything that is written
  are words of the code's width, positions in memory are \<open>nat\<close>. \<open>hoare\<close>, \<open>keeps\<close> and \<open>halts\<close> with the
  collection \<open>hoare_intros\<close> are the program logic.

  \<^bold>\<open>Theories and code.\<close>
    \<^item> \<open>Pst_Format\<close>, \<open>Prop_Tags\<close>, \<open>Pst_Crc\<close>: \<open>pst/pst_format.h\<close>, \<open>pst/prop_tags.h\<close>, \<open>pst/crc.cpp\<close>.
    \<^item> \<open>Ndb_Space\<close>: the record \<open>ndb\<close> is class \<open>NdbWriter\<close>, \<open>disk\<close> the file: its octets, its size, which
      writes the system accepts. \<open>allocate\<close>, \<open>allocatePage\<close>, \<open>markAllocated\<close>, \<open>ensureAMapCount\<close>.
    \<^item> \<open>Ndb_Block\<close>: \<open>emitBlock\<close>, \<open>writeData\<close>, \<open>writeSubnodes\<close>; \<open>Ndb_Btree\<close>: \<open>buildBTree\<close>,
      \<open>emitFixedPages\<close>, \<open>writeHeader\<close>, \<open>finish\<close> and a reader of the file (\<open>file_block\<close>, \<open>file_node\<close>).
    \<^item> \<open>Heap_Node\<close>, \<open>Bth\<close>: \<open>HeapNode\<close> and \<open>buildBthInto\<close> of \<open>pst/heap.h\<close>, \<open>pst/heap.cpp\<close>; \<open>Streaming_Heap\<close>,
      \<open>Streaming_Table\<close>: the two classes of \<open>pst/streaming_table.cpp\<close>. A template over heaps takes the
      allocation function as an argument.
    \<^item> \<open>Utf16\<close>, \<open>Ltp_Props\<close>, \<open>Table_Layout\<close>, \<open>Ltp_Table\<close>: \<open>pst/ltp.cpp\<close> (\<open>utf8ToUtf16le\<close>,
      \<open>SubnodeAllocator\<close>, \<open>PropertyContext\<close>, \<open>TableContext\<close>); \<open>Nameid_Map\<close>: \<open>pst/nameid_map.cpp\<close>.
    \<^item> \<open>Pst_Message\<close>, \<open>Pst_Writer\<close>: \<open>pst/pst_writer.cpp\<close>; \<open>Core_Message\<close>: \<open>core/message.h\<close>, \<open>core/message.cpp\<close>.
    \<^item> \<open>Imap_Parse\<close>, \<open>Imap_Client\<close>: \<open>imap/imap_parse.cpp\<close>, \<open>imap/imap_client.cpp\<close>.
    \<^item> \<open>Mime_Charset\<close> (\<open>mime/encodings.cpp\<close>, \<open>mime/charset.cpp\<close>), \<open>Mime_Headers\<close>, \<open>Mime_Entity\<close>,
      \<open>Message_Builder\<close> (\<open>mime/message_builder.cpp\<close>, \<open>mime/mime_parser.cpp\<close>).
    \<^item> \<open>Pipeline\<close>: \<open>pipeline/pipeline.cpp\<close>; \<open>Cli\<close>: \<open>main.cpp\<close>.
    \<^item> All other theories hold no code of the program but lemmas about these.

  \<^bold>\<open>Specifications and lemma groups.\<close>
    \<^item> \<open>Store\<close> states the contract of an append-only store as locales; it is interpreted on the blocks of
      the file (\<open>Ndb_Block\<close>) and on heaps (\<open>Heap_Node\<close>), and the B-tree on a heap is proved from it once,
      for any heap. \<open>space_allocator\<close> is the contract of the two allocators of \<open>Ndb_Space\<close>.
    \<^item> A reader is written for every structure, from the file format and not from the writer; the round
      trips say that the reader, with the file alone, finds what was written. The laws named \<open>_law\<close>
      carry invariant, preservation and content of an operation together.
    \<^item> The streaming heap and the streaming table are refinements of the in-memory ones: \<open>streams\<close> and
      \<open>tab\<close> are the simulation relations, \<open>streaming_heap_refines\<close> and \<open>streaming_table_refines\<close> the results.
    \<^item> \<open>Table_Rows\<close>, \<open>Pst_Node\<close>, \<open>Message_Fields\<close>, \<open>Message_Names\<close> and \<open>Message_Store\<close> lift them to nodes:
      \<open>stored_message\<close> is what a node must show of a message, its recipients, attachments and embedded
      messages, and \<open>buildMessage_law\<close> that the writer establishes it. Ids of named properties are read
      through a table of names: \<open>names_inv\<close> (\<open>Nameid_Map\<close>) says that the map of the writer implements it,
      the table only grows, and \<open>named_shown\<close> says what a message shows under its names.
    \<^item> \<open>Node_Frame\<close> shows that building a message adds blocks and leaves the nodes alone. \<open>Writer_Store\<close>
      states what a \<open>PstWriter\<close> holds after a log of messages (\<open>writer_holds\<close>: the tree of folders, their
      contents tables in the making, a node for each message, the table of names) and that every call
      keeps it; \<open>Writer_Finish\<close> and \<open>Writer_File\<close> take it through \<open>finish\<close> to the file, where the names are
      those that the name map's own node gives the ids (\<open>names_shown\<close>).
    \<^item> \<open>Write_Budget\<close>, \<open>Object_Budget\<close>, \<open>Message_Budget\<close>, \<open>Table_Budget\<close>, \<open>Names_Budget\<close> and \<open>Writer_Budget\<close>
      are a cost calculus: \<open>live R c Q m\<close> says that \<open>m\<close> returns when there is room for its cost \<open>c\<close>, and leaves the rest. It
      shows which mailboxes reach none of the limits at which the layers throw.
    \<^item> \<open>Writer_Session\<close> puts both together for the calls of a client; \<open>Migration\<close> shows that a run of the
      pipeline is such a session, accounts for every message the server listed and, without a failure,
      delivers them all.
    \<^item> \<open>Imap_Fetch\<close>, \<open>Mime_Base64\<close>, \<open>Mime_Headers_Props\<close>, \<open>Mime_Entity\<close>: reference encoders and the proofs that
      the parsers invert them, on any input for the total functions.

  \<^bold>\<open>Bounds and termination.\<close> Loops are structural recursion or functions with a measure. The loops
  that may not end are \<open>partial_function (option)\<close>: \<open>settle\<close> of the allocator (proved to end),
  \<open>lines_from\<close>, \<open>join_literals\<close> and \<open>fetch_loop\<close> of the IMAP parser (proved to end below \<open>2 ^ 63\<close>, and not to
  end on one hostile response), \<open>batches\<close> of the pipeline (a batch size of zero makes no progress). There
  is no fuel. B-trees have at most eight levels, as in the code; \<open>finish_returns\<close> shows that up to
  \<open>15 * 20 ^ 7\<close> nodes need no more. Texts are bounded by \<open>2 ^ 60\<close> bytes where the size of their
  encoding must not wrap, subnodes of a node by the \<open>2 ^ 27\<close> indices an identifier has, categories of
  a message by their 32-bit offsets and names of headers by 128 KB, so that 4096 of them fit the
  32-bit offsets of the name map. A session that is to succeed has at most 65536 calls and 400
  folders, folder names of at most 1000 characters, messages of a cost below \<open>2 ^ 16\<close> with header names
  of at most 8000 characters, and contents tables with a load of at most 64990.

  \<^bold>\<open>Not modelled, and parameters.\<close> ICU's converters (\<open>icu\<close>), libcurl (\<open>CurlTransport\<close>, a record of the two
  operations the client calls), the clock (a stream of times), the random record key, the files of
  the spool directory, and the file system's answers to open and write are arguments of the model.
  Formatting of the progress line, signal handling and the build are left out. \<open>std::sort\<close> is a stable
  sort (the keys are distinct wherever it matters); the locale is \<open>"C"\<close>. Memory is unbounded.
\<close>

end
